(* ===== verification/Xv6_Prelude.thy ===== *)
theory Xv6_Prelude
  imports Main "HOL-Library.Word"
begin

text \<open>
  Shared vocabulary of the development: the machine types of the 32-bit kernel, the
  result type in which a panic and a blocking sleep are values, the little-endian
  encoding of a \<open>uint\<close>, and the generic list and word lemmas the components use.
\<close>

unbundle bit_operations_syntax

type_synonym u8 = "8 word"
type_synonym u16 = "16 word"
type_synonym u32 = "32 word"

type_synonym mem = "u32 \<Rightarrow> u8"

named_theorems kdefs \<open>unfolding equations of the small kernel helpers\<close>
named_theorems kframe \<open>what an operation leaves unchanged\<close>

text \<open>A string literal as its bytes.\<close>

definition ascii :: "string \<Rightarrow> u8 list" where
  "ascii s = map (\<lambda>c. of_nat (of_char c)) s"

subsection \<open>Results\<close>

text \<open>
  The addresses processes sleep on (\<open>void *chan\<close>). Distinct kernel objects have
  distinct addresses, so each is a constructor of its own.
\<close>

datatype chan =
    ChanProc nat
  | ChanTicks
  | ChanLog
  | ChanBuf nat
  | ChanInode nat
  | ChanPipeRead u32
  | ChanPipeWrite u32
  | ChanConsR
  | ChanUartTx

text \<open>
  How a kernel function can fail to return: it calls \<open>panic\<close>, it would have to
  block on a channel (\<open>sleep\<close>), it runs off the end of an array,
  it spins on a lock another hart holds, or it loops for ever.
\<close>

datatype fault =
    Panic string
  | WouldSleep chan
  | OutOfBounds
  | Spins
  | Diverges

datatype 'a res = Ok 'a | Fail fault

primrec seq :: "'a res \<Rightarrow> ('a \<Rightarrow> 'b res) \<Rightarrow> 'b res" where
  "seq (Ok x) k = k x"
| "seq (Fail e) k = Fail e"

primrec is_ok :: "'a res \<Rightarrow> bool" where
  "is_ok (Ok x) = True"
| "is_ok (Fail e) = False"

lemma seq_eq_Ok: "seq m k = Ok y \<longleftrightarrow> (\<exists>x. m = Ok x \<and> k x = Ok y)"
  by (cases m) auto

lemma seq_OkE:
  assumes "seq m k = Ok y"
  obtains x where "m = Ok x" and "k x = Ok y"
  using assms by (cases m) auto

lemma seq_eq_Fail: "seq m k = Fail e \<longleftrightarrow> m = Fail e \<or> (\<exists>x. m = Ok x \<and> k x = Fail e)"
  by (cases m) auto

lemma seq_assoc: "seq (seq m f) g = seq m (\<lambda>x. seq (f x) g)"
  by (cases m) auto

lemma seq_cong [fundef_cong]:
  "m = m' \<Longrightarrow> (\<And>x. m' = Ok x \<Longrightarrow> k x = k' x) \<Longrightarrow> seq m k = seq m' k'"
  by (cases m') auto

subsection \<open>Little-endian words\<close>

definition le32 :: "u32 \<Rightarrow> u8 list" where
  "le32 w = [ucast w, ucast (drop_bit 8 w), ucast (drop_bit 16 w), ucast (drop_bit 24 w)]"

definition of_le32 :: "u8 \<Rightarrow> u8 \<Rightarrow> u8 \<Rightarrow> u8 \<Rightarrow> u32" where
  "of_le32 a b c d =
     ucast a OR push_bit 8 (ucast b) OR push_bit 16 (ucast c) OR push_bit 24 (ucast d)"

definition le16 :: "u16 \<Rightarrow> u8 list" where
  "le16 w = [ucast w, ucast (drop_bit 8 w)]"

definition of_le16 :: "u8 \<Rightarrow> u8 \<Rightarrow> u16" where
  "of_le16 a b = ucast a OR push_bit 8 (ucast b)"

lemma length_le32 [simp]: "length (le32 w) = 4"
  by (simp add: le32_def)

lemma length_le16 [simp]: "length (le16 w) = 2"
  by (simp add: le16_def)

lemma of_le32_le32 [simp]:
  "of_le32 (ucast w) (ucast (drop_bit 8 w)) (ucast (drop_bit 16 w)) (ucast (drop_bit 24 w)) = w"
proof (rule bit_word_eqI)
  fix n :: nat
  assume n: "n < LENGTH(32)"
  consider "n < 8" | "8 \<le> n" "n < 16" | "16 \<le> n" "n < 24" | "24 \<le> n" "n < 32"
    using n by fastforce
  then show "bit (of_le32 (ucast w) (ucast (drop_bit 8 w)) (ucast (drop_bit 16 w))
      (ucast (drop_bit 24 w))) n \<longleftrightarrow> bit w n"
    by cases (auto simp: of_le32_def bit_simps)
qed

lemma of_le16_le16 [simp]: "of_le16 (ucast w) (ucast (drop_bit 8 w)) = w"
  by (rule bit_word_eqI) (auto simp: of_le16_def bit_simps)

subsection \<open>Bytes, half words and words at a memory address\<close>

definition load32 :: "mem \<Rightarrow> u32 \<Rightarrow> u32" where
  "load32 m a = of_le32 (m a) (m (a + 1)) (m (a + 2)) (m (a + 3))"

definition store32 :: "mem \<Rightarrow> u32 \<Rightarrow> u32 \<Rightarrow> mem" where
  "store32 m a w =
     m(a := ucast w, a + 1 := ucast (drop_bit 8 w), a + 2 := ucast (drop_bit 16 w),
       a + 3 := ucast (drop_bit 24 w))"

lemma unat_of_nat_eq [simp]: "i < 2 ^ 32 \<Longrightarrow> unat (of_nat i :: u32) = i"
  by (simp add: unat_of_nat)

lemma unat_u32_lt [simp]: "unat (w :: u32) < 2 ^ 32"
  using unsigned_less [of w] by simp

lemma unat_u32_less [simp]: "unat (w :: u32) < 4294967296" "unat (w :: u32) \<le> 4294967295"
  using unat_u32_lt [of w] by simp_all

lemma unat_u32_le [simp]: "unat (w :: u32) \<le> 2 ^ 32"
  using unat_u32_lt [of w] by (rule less_imp_le)

lemma unat_add_one_less:
  fixes a b :: u32
  assumes "a < b" shows "unat (a + 1) = Suc (unat a)"
proof -
  have "Suc (unat a) < 2 ^ 32"
    using assms unat_u32_lt [of b] unfolding word_less_nat_alt by linarith
  then show ?thesis by (simp add: unat_word_ariths)
qed

lemma unat_add_u32: "unat a + unat b < 2 ^ 32 \<Longrightarrow> unat (a + b) = unat a + unat b" for a b :: u32
  by (simp add: unat_word_ariths)

text \<open>\<open>fill m d n f\<close>: memory \<open>m\<close> with byte \<open>i < n\<close> from \<open>d\<close> on replaced by \<open>f i\<close>.\<close>

definition fill :: "mem \<Rightarrow> u32 \<Rightarrow> nat \<Rightarrow> (nat \<Rightarrow> u8) \<Rightarrow> mem" where
  "fill m d n f = (\<lambda>a. if unat (a - d) < n then f (unat (a - d)) else m a)"

lemma fill_0 [simp]: "fill m d 0 f = m"
  by (simp add: fill_def)

lemma fill_in: "unat (a - d) < n \<Longrightarrow> fill m d n f a = f (unat (a - d))"
  by (simp add: fill_def)

lemma fill_out: "\<not> unat (a - d) < n \<Longrightarrow> fill m d n f a = m a"
  by (simp add: fill_def)

lemma unat_offset: "i < 2 ^ 32 \<Longrightarrow> unat (d + of_nat i - (d :: u32)) = i"
  by (simp add: unat_of_nat_eq)

lemma fill_nth: "i < n \<Longrightarrow> n \<le> 2 ^ 32 \<Longrightarrow> fill m d n f (d + of_nat i) = f i"
  by (simp add: fill_def unat_of_nat_eq)

lemma fill_cong: "(\<And>i. i < n \<Longrightarrow> f i = g i) \<Longrightarrow> fill m d n f = fill m d n g"
  by (auto simp: fill_def)

lemma diff_eq_of_nat: "a - d = of_nat (unat (a - d))" for a d :: u32
  by simp

lemma fill_snoc:
  assumes "n < 2 ^ 32"
  shows "(fill m d n f)(d + of_nat n := v) = fill m d (Suc n) (f(n := v))"
proof
  fix a :: u32
  have "a = d + of_nat n \<longleftrightarrow> unat (a - d) = n"
  proof
    assume "unat (a - d) = n"
    then have "a - d = of_nat n" using diff_eq_of_nat [of a d] by simp
    then show "a = d + of_nat n" by (simp add: algebra_simps)
  qed (use assms in \<open>simp add: unat_of_nat_eq\<close>)
  then show "((fill m d n f)(d + of_nat n := v)) a = fill m d (Suc n) (f(n := v)) a"
    by (auto simp: fill_def)
qed

lemma unat_diff_Suc:
  fixes a d :: u32
  assumes "a \<noteq> d"
  shows "unat (a - d) = Suc (unat (a - (d + 1)))"
proof -
  have e: "a - d = 1 + (a - (d + 1))" by simp
  have "1 + (a - (d + 1)) \<noteq> 0" using assms by simp
  then have "unat (1 + (a - (d + 1))) = Suc (unat (a - (d + 1)))" by (rule unatSuc)
  with e show ?thesis by simp
qed

lemma fill_cons:
  assumes "n < 2 ^ 32"
  shows "fill (m(d := v)) (d + 1) n f = fill m d (Suc n) (\<lambda>i. case i of 0 \<Rightarrow> v | Suc j \<Rightarrow> f j)"
proof
  fix a :: u32
  show "fill (m(d := v)) (d + 1) n f a = fill m d (Suc n) (\<lambda>i. case i of 0 \<Rightarrow> v | Suc j \<Rightarrow> f j) a"
  proof (cases "a = d")
    case True
    have "unat (d - (d + 1)) = unat (- 1 :: u32)" by simp
    also have "\<dots> = 2 ^ 32 - 1"
      by (simp add: unsigned_minus_1_eq_mask mask_eq_exp_minus_1)
    finally have "unat (d - (d + 1)) = 2 ^ 32 - 1" .
    with True assms show ?thesis by (simp add: fill_def)
  next
    case False
    then show ?thesis by (simp add: fill_def unat_diff_Suc)
  qed
qed

subsection \<open>Aligned words do not overlap\<close>

definition aligned4 :: "u32 \<Rightarrow> bool" where
  "aligned4 a \<longleftrightarrow> 4 dvd unat a"

definition apart4 :: "u32 \<Rightarrow> u32 \<Rightarrow> bool" where
  "apart4 a b \<longleftrightarrow> 4 \<le> unat (a - b) \<and> 4 \<le> unat (b - a)"

lemma unat_sub_eq: "unat (a - b) = (if b \<le> a then unat a - unat b else 2 ^ 32 + unat a - unat b)"
  for a b :: u32
  using unat_u32_lt [of a] unat_u32_lt [of b]
  by (auto simp: unat_sub_if_size word_size word_le_nat_alt)

lemma aligned4_apart4: "aligned4 a \<Longrightarrow> aligned4 b \<Longrightarrow> a \<noteq> b \<Longrightarrow> apart4 a b"
proof -
  assume ab: "aligned4 a" "aligned4 b" "a \<noteq> b"
  have "4 dvd (2 ^ 32 :: nat)" by simp
  then have d: "4 dvd unat (a - b)" "4 dvd unat (b - a)"
    using ab unfolding aligned4_def unat_sub_eq
    by (auto intro!: dvd_diff_nat dvd_add)
  have nz: "unat (a - b) \<noteq> 0" "unat (b - a) \<noteq> 0"
    using ab by (auto simp: unat_eq_0)
  show ?thesis
    using d nz unfolding apart4_def by (auto intro: dvd_imp_le)
qed

lemma load32_store32_same [simp]: "load32 (store32 m a w) a = w"
  by (simp add: load32_def store32_def)

lemma apart4_byte:
  assumes "apart4 a b" "i < 4" "j < 4"
  shows "a + of_nat i \<noteq> b + of_nat j"
proof
  assume "a + of_nat i = b + of_nat j"
  then have *: "a - b = of_nat j - of_nat i" "b - a = of_nat i - of_nat j"
    by (simp_all add: algebra_simps)
  show False
  proof (cases "i \<le> j")
    case True
    then have "a - b = of_nat (j - i)" using * by simp
    then have "unat (a - b) = j - i" using assms by simp
    then show False using assms by (auto simp: apart4_def)
  next
    case False
    then have "b - a = of_nat (i - j)" using * by simp
    then have "unat (b - a) = i - j" using assms by simp
    then show False using assms by (auto simp: apart4_def)
  qed
qed

lemma store32_other:
  assumes "4 \<le> unat (b - a)"
  shows "store32 m a w b = m b"
proof -
  have "b \<noteq> a + of_nat i" if "i < 4" for i
    using assms that by (auto simp: unat_of_nat_eq)
  from this [of 0] this [of 1] this [of 2] this [of 3] show ?thesis
    by (simp add: store32_def)
qed

lemma load32_store32_apart:
  assumes "apart4 a b"
  shows "load32 (store32 m a w) b = load32 m b"
proof -
  have "b + of_nat j \<noteq> a + of_nat i" if "i < 4" "j < 4" for i j
    using apart4_byte [OF assms that] by metis
  note ne = this
  show ?thesis
    using ne [of 0 0] ne [of 1 0] ne [of 2 0] ne [of 3 0] ne [of 0 1] ne [of 1 1] ne [of 2 1]
      ne [of 3 1] ne [of 0 2] ne [of 1 2] ne [of 2 2] ne [of 3 2] ne [of 0 3] ne [of 1 3]
      ne [of 2 3] ne [of 3 3]
    by (simp add: load32_def store32_def)
qed

lemma load32_store32_aligned:
  "aligned4 a \<Longrightarrow> aligned4 b \<Longrightarrow>
   load32 (store32 m a w) b = (if a = b then w else load32 m b)"
  by (simp add: load32_store32_apart aligned4_apart4)

end
