(* ===== verification/Kstring.thy ===== *)
theory Kstring
  imports Xv6_Prelude
begin

text \<open>
  The kernel's memory and string routines (\<open>kernel/string.c\<close>) over a byte memory with
  32-bit addresses that wrap around, and what they compute: \<open>memset\<close> and \<open>memmove\<close>
  as one \<open>fill\<close> (overlapping areas included), the comparisons, the bounded copies.
\<close>

subsection \<open>The routines\<close>

primrec memset_upto :: "mem \<Rightarrow> u32 \<Rightarrow> u8 \<Rightarrow> nat \<Rightarrow> mem" where
  "memset_upto m dst c 0 = m"
| "memset_upto m dst c (Suc i) = (memset_upto m dst c i)(dst + of_nat i := c)"

definition memset :: "mem \<Rightarrow> u32 \<Rightarrow> u32 \<Rightarrow> u32 \<Rightarrow> mem" where
  "memset m dst c n = memset_upto m dst (ucast c) (unat n)"

primrec memcmp_loop :: "mem \<Rightarrow> u32 \<Rightarrow> u32 \<Rightarrow> nat \<Rightarrow> int" where
  "memcmp_loop m s1 s2 0 = 0"
| "memcmp_loop m s1 s2 (Suc n) =
     (if m s1 \<noteq> m s2 then uint (m s1) - uint (m s2)
      else memcmp_loop m (s1 + 1) (s2 + 1) n)"

definition memcmp :: "mem \<Rightarrow> u32 \<Rightarrow> u32 \<Rightarrow> u32 \<Rightarrow> int" where
  "memcmp m v1 v2 n = memcmp_loop m v1 v2 (unat n)"

primrec copy_forward :: "mem \<Rightarrow> u32 \<Rightarrow> u32 \<Rightarrow> nat \<Rightarrow> mem" where
  "copy_forward m d s 0 = m"
| "copy_forward m d s (Suc n) = copy_forward (m(d := m s)) (d + 1) (s + 1) n"

primrec copy_backward :: "mem \<Rightarrow> u32 \<Rightarrow> u32 \<Rightarrow> nat \<Rightarrow> mem" where
  "copy_backward m d s 0 = m"
| "copy_backward m d s (Suc n) = copy_backward (m(d - 1 := m (s - 1))) (d - 1) (s - 1) n"

definition memmove :: "mem \<Rightarrow> u32 \<Rightarrow> u32 \<Rightarrow> u32 \<Rightarrow> mem" where
  "memmove m dst src n =
     (if n = 0 then m
      else if src < dst \<and> dst < src + n
      then copy_backward m (dst + n) (src + n) (unat n)
      else copy_forward m dst src (unat n))"

definition memcpy :: "mem \<Rightarrow> u32 \<Rightarrow> u32 \<Rightarrow> u32 \<Rightarrow> mem" where
  "memcpy m dst src n = memmove m dst src n"

primrec strncmp_loop :: "mem \<Rightarrow> u32 \<Rightarrow> u32 \<Rightarrow> nat \<Rightarrow> int" where
  "strncmp_loop m p q 0 = 0"
| "strncmp_loop m p q (Suc n) =
     (if m p \<noteq> 0 \<and> m p = m q then strncmp_loop m (p + 1) (q + 1) n
      else uint (m p) - uint (m q))"

definition strncmp :: "mem \<Rightarrow> u32 \<Rightarrow> u32 \<Rightarrow> u32 \<Rightarrow> int" where
  "strncmp m p q n = strncmp_loop m p q (unat n)"

primrec zero_fill :: "mem \<Rightarrow> u32 \<Rightarrow> nat \<Rightarrow> mem" where
  "zero_fill m s 0 = m"
| "zero_fill m s (Suc n) = zero_fill (m(s := 0)) (s + 1) n"

primrec strncpy_loop :: "mem \<Rightarrow> u32 \<Rightarrow> u32 \<Rightarrow> nat \<Rightarrow> mem" where
  "strncpy_loop m s t 0 = m"
| "strncpy_loop m s t (Suc n) =
     (if m t \<noteq> 0 then strncpy_loop (m(s := m t)) (s + 1) (t + 1) n
      else zero_fill (m(s := m t)) (s + 1) n)"

definition strncpy :: "mem \<Rightarrow> u32 \<Rightarrow> u32 \<Rightarrow> int \<Rightarrow> mem" where
  "strncpy m s t n = strncpy_loop m s t (nat n)"

primrec safestrcpy_loop :: "mem \<Rightarrow> u32 \<Rightarrow> u32 \<Rightarrow> nat \<Rightarrow> mem" where
  "safestrcpy_loop m s t 0 = m(s := 0)"
| "safestrcpy_loop m s t (Suc n) =
     (if m t \<noteq> 0 then safestrcpy_loop (m(s := m t)) (s + 1) (t + 1) n
      else (m(s := m t))(s + 1 := 0))"

definition safestrcpy :: "mem \<Rightarrow> u32 \<Rightarrow> u32 \<Rightarrow> int \<Rightarrow> mem" where
  "safestrcpy m s t n = (if n \<le> 0 then m else safestrcpy_loop m s t (nat n - 1))"

partial_function (option) strlen_from :: "mem \<Rightarrow> u32 \<Rightarrow> nat \<Rightarrow> nat option" where
  "strlen_from m s n = (if m (s + of_nat n) = 0 then Some n else strlen_from m s (Suc n))"

definition strlen :: "mem \<Rightarrow> u32 \<Rightarrow> nat option" where
  "strlen m s = strlen_from m s 0"

subsection \<open>memset and memmove as one fill\<close>

lemma memset_upto_fill: "n \<le> 2 ^ 32 \<Longrightarrow> memset_upto m dst c n = fill m dst n (\<lambda>_. c)"
proof (induction n)
  case (Suc n)
  then show ?case by (auto simp: fill_snoc intro: fill_cong)
qed simp

lemma memset_fill: "memset m dst c n = fill m dst (unat n) (\<lambda>_. ucast c)"
  by (simp add: memset_def memset_upto_fill [OF unat_u32_le])

lemma copy_forward_fill:
  assumes "n \<le> 2 ^ 32" "\<not> (0 < unat (d - s) \<and> unat (d - s) < n)"
  shows "copy_forward m d s n = fill m d n (\<lambda>i. m (s + of_nat i))"
  using assms
proof (induction n arbitrary: m d s)
  case (Suc n)
  have hz: "\<not> (0 < unat ((d + 1) - (s + 1)) \<and> unat ((d + 1) - (s + 1)) < n)"
    using Suc.prems(2) by auto
  have keep: "(m(d := m s)) (s + 1 + of_nat j) = m (s + 1 + of_nat j)" if "j < n" for j
  proof -
    have "d \<noteq> s + of_nat (Suc j)"
    proof
      assume "d = s + of_nat (Suc j)"
      then have "unat (d - s) = Suc j"
        using that Suc.prems(1) unat_offset [of "Suc j" s] by simp
      then show False using Suc.prems(2) that by simp
    qed
    then show ?thesis by (simp add: algebra_simps)
  qed
  have "copy_forward (m(d := m s)) (d + 1) (s + 1) n
      = fill (m(d := m s)) (d + 1) n (\<lambda>j. (m(d := m s)) (s + 1 + of_nat j))"
    by (rule Suc.IH [OF _ hz]) (use Suc.prems(1) in simp)
  then have "copy_forward m d s (Suc n)
      = fill (m(d := m s)) (d + 1) n (\<lambda>j. (m(d := m s)) (s + 1 + of_nat j))"
    by (simp only: copy_forward.simps)
  also have "\<dots> = fill (m(d := m s)) (d + 1) n (\<lambda>j. m (s + 1 + of_nat j))"
    by (rule fill_cong) (use keep in blast)
  also have "\<dots> = fill m d (Suc n) (\<lambda>i. m (s + of_nat i))"
    using Suc.prems(1)
    by (subst fill_cons) (auto intro!: fill_cong simp: algebra_simps split: nat.split)
  finally show ?case .
qed simp

lemma copy_backward_fill:
  assumes "n \<le> 2 ^ 32" "\<not> (0 < unat (s - d) \<and> unat (s - d) < n)"
  shows "copy_backward m (d + of_nat n) (s + of_nat n) n = fill m d n (\<lambda>i. m (s + of_nat i))"
  using assms
proof (induction n arbitrary: m)
  case (Suc n)
  let ?v = "m (s + of_nat n)"
  let ?m = "m(d + of_nat n := ?v)"
  have keep: "?m (s + of_nat j) = m (s + of_nat j)" if "j < n" for j
  proof -
    have "s + of_nat j \<noteq> d + of_nat n"
    proof
      assume e: "s + of_nat j = d + of_nat n"
      have "s - d = (s + of_nat j) - of_nat j - d" by simp
      also have "\<dots> = of_nat n - of_nat j" using e by (simp add: algebra_simps)
      also have "\<dots> = of_nat (n - j)" using that by simp
      finally have "unat (s - d) = n - j"
        using that Suc.prems(1) by (simp del: of_nat_diff)
      then show False using Suc.prems(2) that by simp
    qed
    then show ?thesis by simp
  qed
  have "copy_backward m (d + of_nat (Suc n)) (s + of_nat (Suc n)) (Suc n)
      = copy_backward ?m (d + of_nat n) (s + of_nat n) n"
    by (simp add: algebra_simps)
  also have "\<dots> = fill ?m d n (\<lambda>i. ?m (s + of_nat i))"
    using Suc by auto
  also have "\<dots> = fill ?m d n (\<lambda>i. m (s + of_nat i))"
    by (rule fill_cong) (use keep in blast)
  also have "\<dots> = (fill m d n (\<lambda>i. m (s + of_nat i)))(d + of_nat n := ?v)"
    using Suc.prems(1) by (auto simp: fill_def unat_of_nat_eq fun_eq_iff)
  also have "\<dots> = fill m d (Suc n) (\<lambda>i. m (s + of_nat i))"
    using Suc.prems(1) by (subst fill_snoc) (auto intro: fill_cong)
  finally show ?case .
qed simp

definition no_wrap :: "u32 \<Rightarrow> u32 \<Rightarrow> bool" where
  "no_wrap a n \<longleftrightarrow> unat a + unat n < 2 ^ 32"

lemma memmove_fill:
  assumes "no_wrap dst n" "no_wrap src n"
  shows "memmove m dst src n = fill m dst (unat n) (\<lambda>i. m (src + of_nat i))"
proof (cases "n = 0")
  case False
  have n: "unat n \<le> 2 ^ 32" by (rule unat_u32_le)
  have lens: "unat src < 2 ^ 32" "unat dst < 2 ^ 32" "0 < unat n"
    using unat_u32_lt [of src] unat_u32_lt [of dst] False by (auto simp: unat_gt_0)
  show ?thesis
  proof (cases "src < dst \<and> dst < src + n")
    case True
    then have "\<not> (0 < unat (src - dst) \<and> unat (src - dst) < unat n)"
      using assms lens unfolding no_wrap_def unat_sub_eq
      by (auto simp: word_less_nat_alt word_le_nat_alt)
    with True False show ?thesis
      using copy_backward_fill [OF n, of src dst m] by (simp add: memmove_def)
  next
    case outside: False
    have "\<not> (0 < unat (dst - src) \<and> unat (dst - src) < unat n)"
    proof
      assume h: "0 < unat (dst - src) \<and> unat (dst - src) < unat n"
      then have "src < dst"
        using assms lens unfolding no_wrap_def unat_sub_eq
        by (auto simp: word_less_nat_alt word_le_nat_alt split: if_splits)
      then have "unat dst < unat src + unat n"
        using h unfolding unat_sub_eq by (auto simp: word_less_nat_alt word_le_nat_alt)
      moreover have "src + n \<le> dst" using outside \<open>src < dst\<close> by auto
      ultimately have "unat (src + n) \<noteq> unat src + unat n"
        by (auto simp: word_le_nat_alt)
      moreover have "unat (src + n) = unat src + unat n"
        using assms unfolding no_wrap_def by (simp add: unat_word_ariths)
      ultimately show False by simp
    qed
    with outside False show ?thesis
      using copy_forward_fill [OF n, of dst src m] unfolding memmove_def by presburger
  qed
qed (simp add: memmove_def)

subsection \<open>Strings in memory\<close>

text \<open>\<open>cstring m s xs\<close>: the bytes from \<open>s\<close> on are \<open>xs\<close>, none of them zero, and then a NUL.\<close>

definition cstring :: "mem \<Rightarrow> u32 \<Rightarrow> u8 list \<Rightarrow> bool" where
  "cstring m s xs \<longleftrightarrow>
     (\<forall>i < length xs. m (s + of_nat i) = xs ! i \<and> xs ! i \<noteq> 0) \<and>
     m (s + of_nat (length xs)) = 0"

lemma cstring_Nil [simp]: "cstring m s [] \<longleftrightarrow> m s = 0"
  by (simp add: cstring_def)

lemma cstring_Cons:
  "cstring m s (x # xs) \<longleftrightarrow> m s = x \<and> x \<noteq> 0 \<and> cstring m (s + 1) xs"
  by (auto simp: cstring_def All_less_Suc2 add.assoc less_Suc_eq_0_disj)

lemma strlen_from_cstring:
  "cstring m (s + of_nat n) xs \<Longrightarrow> strlen_from m s n = Some (n + length xs)"
proof (induction xs arbitrary: n)
  case Nil
  then show ?case by (simp add: strlen_from.simps)
next
  case (Cons x xs)
  then have "strlen_from m s (Suc n) = Some (Suc n + length xs)"
    by (intro Cons.IH) (simp add: cstring_Cons algebra_simps)
  with Cons.prems show ?case by (simp add: strlen_from.simps [of m s n] cstring_Cons)
qed

lemma strlen_cstring: "cstring m s xs \<Longrightarrow> strlen m s = Some (length xs)"
  using strlen_from_cstring [of m s 0 xs] by (simp add: strlen_def)

lemma byte_diff_0 [simp]: "uint a - uint b = 0 \<longleftrightarrow> a = b" for a b :: u8
  by (simp add: word_uint_eq_iff)

lemma byte_0 [simp]: "uint a = 0 \<longleftrightarrow> a = 0" for a :: u8
  by (simp add: unsigned_eq_0_iff)

lemma strncmp_loop_0_iff:
  assumes "cstring m p xs" "cstring m q ys"
  shows "strncmp_loop m p q n = 0 \<longleftrightarrow> take n xs = take n ys"
  using assms
proof (induction n arbitrary: p q xs ys)
  case (Suc n)
  then show ?case
    by (cases xs; cases ys) (auto simp: cstring_Cons simp del: right_minus_eq)
qed simp

lemma memcmp_loop_0_iff:
  "memcmp_loop m p q n = 0 \<longleftrightarrow> (\<forall>i < n. m (p + of_nat i) = m (q + of_nat i))"
proof (induction n arbitrary: p q)
  case (Suc n)
  show ?case
    by (simp add: Suc.IH All_less_Suc2 add.assoc del: right_minus_eq)
qed simp

lemma zero_fill_fill: "n \<le> 2 ^ 32 \<Longrightarrow> zero_fill m s n = fill m s n (\<lambda>_. 0)"
proof (induction n arbitrary: m s)
  case (Suc n)
  then have "zero_fill (m(s := 0)) (s + 1) n = fill (m(s := 0)) (s + 1) n (\<lambda>_. 0)"
    by (intro Suc.IH) simp
  with Suc.prems show ?case
    by (simp add: fill_cons) (auto intro: fill_cong split: nat.split)
qed simp

text \<open>The source string does not overlap the \<open>n\<close> destination bytes.\<close>

definition src_apart :: "u32 \<Rightarrow> nat \<Rightarrow> u32 \<Rightarrow> nat \<Rightarrow> bool" where
  "src_apart d n s k \<longleftrightarrow> (\<forall>i < n. \<forall>j \<le> k. d + of_nat i \<noteq> s + of_nat j)"

lemma src_apart_first:
  assumes "src_apart d (Suc n) s k"
  shows "\<forall>j \<le> k. d \<noteq> s + of_nat j"
proof (intro allI impI)
  fix j assume "j \<le> k"
  then have "d + of_nat 0 \<noteq> s + of_nat j"
    using assms unfolding src_apart_def by blast
  then show "d \<noteq> s + of_nat j" by simp
qed

lemma src_apart_Suc:
  assumes "src_apart d (Suc n) s (Suc k)"
  shows "src_apart (d + 1) n (s + 1) k"
  unfolding src_apart_def
proof (intro allI impI)
  fix i j assume "i < n" "j \<le> k"
  then have "d + of_nat (Suc i) \<noteq> s + of_nat (Suc j)"
    using assms unfolding src_apart_def by (metis Suc_le_mono Suc_mono)
  then show "d + 1 + of_nat i \<noteq> s + 1 + of_nat j" by (simp add: add.assoc)
qed

lemma cstring_upd_apart:
  assumes "cstring m t xs" "\<forall>j \<le> length xs. s \<noteq> t + of_nat j"
  shows "cstring (m(s := v)) t xs"
  using assms unfolding cstring_def by (metis fun_upd_apply less_imp_le order_refl)

lemma strncpy_loop_fill:
  assumes "cstring m t xs" "src_apart s n t (length xs)" "n \<le> 2 ^ 32"
  shows "strncpy_loop m s t n = fill m s n (\<lambda>i. if i < length xs then xs ! i else 0)"
  using assms
proof (induction n arbitrary: m s t xs)
  case (Suc n)
  have apart0: "\<forall>j \<le> length xs. s \<noteq> t + of_nat j"
    using src_apart_first [OF Suc.prems(2)] .
  show ?case
  proof (cases xs)
    case Nil
    with Suc.prems show ?thesis
      by (simp add: zero_fill_fill fill_cons) (auto intro: fill_cong split: nat.split)
  next
    case (Cons y ys)
    have "cstring (m(s := y)) t xs"
      by (rule cstring_upd_apart [OF Suc.prems(1) apart0])
    then have c: "cstring (m(s := y)) (t + 1) ys" using Cons by (simp only: cstring_Cons)
    have a: "src_apart (s + 1) n (t + 1) (length ys)"
      using Suc.prems(2) Cons by (intro src_apart_Suc) simp
    have "n \<le> 2 ^ 32" using Suc.prems(3) by simp
    note Suc.IH [OF c a this]
    then have "strncpy_loop (m(s := y)) (s + 1) (t + 1) n
        = fill (m(s := y)) (s + 1) n (\<lambda>i. if i < length ys then ys ! i else 0)"
      .
    with Suc.prems Cons show ?thesis
      by (simp add: fill_cons cstring_Cons) (auto intro: fill_cong split: nat.split)
  qed
qed simp

lemma strncpy_fill:
  assumes "cstring m t xs" "src_apart s (nat n) t (length xs)" "nat n \<le> 2 ^ 32"
  shows "strncpy m s t n = fill m s (nat n) (\<lambda>i. if i < length xs then xs ! i else 0)"
  unfolding strncpy_def by (rule strncpy_loop_fill [OF assms])

text \<open>What \<open>safestrcpy\<close> leaves at the destination is a C string: the source, cut to \<open>n - 1\<close> bytes.\<close>

lemma safestrcpy_loop_upd:
  assumes "n < 2 ^ 32" "0 < unat (s - a)" "unat (s - a) \<le> 2 ^ 32 - Suc (Suc n)"
  shows "safestrcpy_loop m s t n a = m a"
  using assms
proof (induction n arbitrary: m s t)
  case (Suc n)
  have ne: "a \<noteq> s" "a \<noteq> s + 1"
  proof -
    show "a \<noteq> s" using Suc.prems(2) by auto
    show "a \<noteq> s + 1"
    proof
      assume "a = s + 1"
      then have "unat (s - a) = unat (- 1 :: u32)" by simp
      then have "unat (s - a) = 2 ^ 32 - 1"
        by (simp add: unsigned_minus_1_eq_mask mask_eq_exp_minus_1)
      with Suc.prems(3) show False by simp
    qed
  qed
  have "s + 1 \<noteq> a" using ne by simp
  then have "unat (s + 1 - a) = Suc (unat (s - a))"
    using unat_diff_Suc [of "s + 1" a] by (simp add: algebra_simps)
  with Suc ne show ?case by auto
qed auto

lemma safestrcpy_loop_cstring:
  assumes "cstring m t xs" "src_apart s (Suc n) t (length xs)" "n < 2 ^ 31"
  shows "cstring (safestrcpy_loop m s t n) s (take n xs)"
  using assms
proof (induction n arbitrary: m s t xs)
  case (Suc n)
  have apart0: "\<forall>j \<le> length xs. s \<noteq> t + of_nat j"
    using src_apart_first [OF Suc.prems(2)] .
  show ?case
  proof (cases xs)
    case Nil
    with Suc.prems show ?thesis by simp
  next
    case (Cons y ys)
    have "cstring (m(s := y)) t xs"
      by (rule cstring_upd_apart [OF Suc.prems(1) apart0])
    then have c: "cstring (m(s := y)) (t + 1) ys" using Cons by (simp only: cstring_Cons)
    have a: "src_apart (s + 1) (Suc n) (t + 1) (length ys)"
      using Suc.prems(2) Cons by (intro src_apart_Suc) simp
    have "n < 2 ^ 31" using Suc.prems(3) by simp
    note Suc.IH [OF c a this]
    then have "cstring (safestrcpy_loop (m(s := y)) (s + 1) (t + 1) n) (s + 1) (take n ys)"
      .
    moreover have "safestrcpy_loop (m(s := y)) (s + 1) (t + 1) n s = (m(s := y)) s"
      using Suc.prems(3) by (intro safestrcpy_loop_upd) auto
    ultimately show ?thesis using Suc.prems Cons by (simp add: cstring_Cons)
  qed
qed simp

lemma src_apart_ranges:
  assumes "unat t + k < unat d" "unat d + n < 2 ^ 32"
  shows "src_apart d n t k"
  unfolding src_apart_def
proof (intro allI impI)
  fix i j assume "i < n" "j \<le> k"
  then have "unat (t + of_nat j) = unat t + j" "unat (d + of_nat i) = unat d + i"
    using assms by (simp_all add: unat_add_u32)
  then show "d + of_nat i \<noteq> t + of_nat j" using assms(1) \<open>j \<le> k\<close> by auto
qed

subsection \<open>Properties\<close>

text \<open>
  \<open>memmove\<close> copies the \<open>n\<close> bytes the source held before the call, also when the two
  ranges overlap in either direction, and changes no other byte, provided neither range
  reaches the end of the address space.
\<close>

theorem memmove_copies:
  assumes "no_wrap dst n" "no_wrap src n"
  shows "memmove m dst src n =
           (\<lambda>a. if unat (a - dst) < unat n then m (src + (a - dst)) else m a)"
  unfolding memmove_fill [OF assms] by (auto simp: fill_def fun_eq_iff)

lemma memmove_copies_witness:
  "memmove (\<lambda>a. ucast a) 0x102 0x100 8 =
     (\<lambda>a. if unat (a - 0x102) < unat (8 :: u32) then ucast (0x100 + (a - 0x102)) else ucast a)"
  by (rule memmove_copies) (simp_all add: no_wrap_def)

text \<open>
  \<open>safestrcpy\<close> always leaves a terminated string at its destination, the source
  string cut to \<open>n - 1\<close> bytes, so that \<open>strlen\<close> of the result is at most \<open>n - 1\<close>.
\<close>

theorem safestrcpy_terminates_string:
  assumes "cstring m t xs" "0 < n" "n < 2 ^ 31" "src_apart s (nat n) t (length xs)"
  shows "cstring (safestrcpy m s t n) s (take (nat n - 1) xs) \<and>
         strlen (safestrcpy m s t n) s = Some (min (length xs) (nat n - 1))"
proof -
  have n: "Suc (nat n - 1) = nat n" "nat n - 1 < 2 ^ 31" using assms(2,3) by auto
  have "cstring (safestrcpy m s t n) s (take (nat n - 1) xs)"
    using safestrcpy_loop_cstring [OF assms(1), of s "nat n - 1"] assms(2,4) n
    by (simp add: safestrcpy_def)
  then show ?thesis using strlen_cstring by fastforce
qed

lemma safestrcpy_terminates_string_witness:
  "cstring (safestrcpy ((\<lambda>_. 0)(0x100 := 104, 0x101 := 105, 0x102 := 33)) 0x200 0x100 3) 0x200
     (take (nat 3 - 1) [104, 105, 33]) \<and>
   strlen (safestrcpy ((\<lambda>_. 0)(0x100 := 104, 0x101 := 105, 0x102 := 33)) 0x200 0x100 3) 0x200
     = Some (min (length [104, 105, 33 :: u8]) (nat 3 - 1))"
proof (rule safestrcpy_terminates_string)
  show "cstring ((\<lambda>_. 0)(0x100 := 104, 0x101 := 105, 0x102 := 33)) 0x100 [104, 105, 33]"
    by (simp add: cstring_Cons)
  show "src_apart 0x200 (nat 3) 0x100 (length [104, 105, 33 :: u8])"
    by (rule src_apart_ranges) simp_all
qed simp_all

end
