(* ===== verification/Kalloc.thy ===== *)
theory Kalloc
  imports Kstring
begin

text \<open>
  The physical page allocator (\<open>kernel/kalloc.c\<close>). The free list is threaded through the
  free pages themselves: the first word of a free page is the address of the next one.
  The state is the physical memory, the list head and the linker symbol \<open>end\<close>.
  The lemmas relate the chain in memory to a HOL list of pages.
\<close>

subsection \<open>Constants of memlayout.h and riscv.h\<close>

definition PGSIZE :: u32 where "PGSIZE = 4096"
definition KERNBASE :: u32 where "KERNBASE = 0x80000000"
definition PHYSTOP :: u32 where "PHYSTOP = KERNBASE + 512 * 1024"

definition PGROUNDUP :: "u32 \<Rightarrow> u32" where
  "PGROUNDUP sz = (sz + PGSIZE - 1) AND NOT (PGSIZE - 1)"

definition PGROUNDDOWN :: "u32 \<Rightarrow> u32" where
  "PGROUNDDOWN a = a AND NOT (PGSIZE - 1)"

lemmas layout_defs = PGSIZE_def KERNBASE_def PHYSTOP_def

subsection \<open>The allocator\<close>

record phys =
  pmem :: mem
  freelist :: u32
  kend :: u32

definition kfree :: "u32 \<Rightarrow> phys \<Rightarrow> phys res" where
  "kfree pa s =
     (if pa mod PGSIZE \<noteq> 0 \<or> pa < kend s \<or> PHYSTOP \<le> pa then Fail (Panic ''kfree'')
      else
        let m = memset (pmem s) pa 1 PGSIZE
        in Ok (s\<lparr>pmem := store32 m pa (freelist s), freelist := pa\<rparr>))"

definition kalloc :: "phys \<Rightarrow> u32 \<times> phys" where
  "kalloc s =
     (let r = freelist s
      in if r \<noteq> 0
         then (r, s\<lparr>freelist := load32 (pmem s) r, pmem := memset (pmem s) r 5 PGSIZE\<rparr>)
         else (r, s))"

function freerange_from :: "u32 \<Rightarrow> u32 \<Rightarrow> phys \<Rightarrow> phys res" where
  "freerange_from p pa_end s =
     (if p + PGSIZE \<le> pa_end
      then seq (kfree p s) (\<lambda>s. freerange_from (p + PGSIZE) pa_end s)
      else Ok s)"
  by pat_completeness auto
termination
proof (relation "measure (\<lambda>(p, pa_end, s). unat PHYSTOP - unat p)", simp)
  fix p pa_end :: u32 and s s' :: phys
  assume "kfree p s = Ok s'"
  then have "p < PHYSTOP" by (auto simp: kfree_def Let_def split: if_splits)
  then have "unat p < unat PHYSTOP" "unat (p + PGSIZE) = unat p + 4096"
    by (auto simp: layout_defs word_less_nat_alt unat_word_ariths)
  then show "((p + PGSIZE, pa_end, s'), p, pa_end, s)
      \<in> measure (\<lambda>(p, pa_end, s). unat PHYSTOP - unat p)"
    by simp
qed

declare freerange_from.simps [simp del]

definition freerange :: "u32 \<Rightarrow> u32 \<Rightarrow> phys \<Rightarrow> phys res" where
  "freerange pa_start pa_end s = freerange_from (PGROUNDUP pa_start) pa_end s"

definition kinit :: "phys \<Rightarrow> phys res" where
  "kinit s = freerange (kend s) PHYSTOP s"

partial_function (option) count_pages :: "mem \<Rightarrow> u32 \<Rightarrow> nat \<Rightarrow> nat option" where
  "count_pages m r p = (if r \<noteq> 0 then count_pages m (load32 m r) (Suc p) else Some p)"

definition kmemory :: "phys \<Rightarrow> nat option" where
  "kmemory s = count_pages (pmem s) (freelist s) 0"

subsection \<open>Pages\<close>

definition page_aligned :: "u32 \<Rightarrow> bool" where
  "page_aligned p \<longleftrightarrow> 4096 dvd unat p"

definition in_page :: "u32 \<Rightarrow> u32 \<Rightarrow> bool" where
  "in_page p a \<longleftrightarrow> unat (a - p) < 4096"

lemma page_aligned_mod: "p mod PGSIZE = 0 \<longleftrightarrow> page_aligned p"
proof -
  have "p mod PGSIZE = 0 \<longleftrightarrow> unat (p mod PGSIZE) = 0" by (simp add: unat_eq_0)
  also have "\<dots> \<longleftrightarrow> page_aligned p"
    by (simp add: unat_mod_distrib layout_defs page_aligned_def dvd_eq_mod_eq_0)
  finally show ?thesis .
qed

lemma in_page_self [simp]: "in_page p p"
  by (simp add: in_page_def)

lemma page_aligned_bound: "page_aligned p \<Longrightarrow> unat p \<le> 2 ^ 32 - 4096"
proof -
  assume "page_aligned p"
  then obtain k where k: "unat p = 4096 * k" unfolding page_aligned_def by auto
  have "unat p < 2 ^ 32" by (rule unat_u32_lt)
  then show ?thesis unfolding k by simp
qed

lemma in_page_div:
  assumes "page_aligned p"
  shows "in_page p a \<longleftrightarrow> unat a div 4096 = unat p div 4096"
proof -
  obtain k where k: "unat p = 4096 * k" using assms unfolding page_aligned_def by auto
  have "unat p \<le> 2 ^ 32 - 4096" using page_aligned_bound [OF assms] .
  then show ?thesis
    using k unfolding in_page_def unat_sub_eq
    by (auto simp: word_le_nat_alt)
qed

lemma pages_disjoint:
  "page_aligned p \<Longrightarrow> page_aligned q \<Longrightarrow> p \<noteq> q \<Longrightarrow> in_page p a \<Longrightarrow> \<not> in_page q a"
proof
  assume pq: "page_aligned p" "page_aligned q" "p \<noteq> q" "in_page p a" "in_page q a"
  then have "unat p div 4096 = unat q div 4096" by (simp add: in_page_div)
  moreover have "unat p = 4096 * (unat p div 4096)" "unat q = 4096 * (unat q div 4096)"
    using pq unfolding page_aligned_def by simp_all
  ultimately have "unat p = unat q" by simp
  then show False using pq(3) by (simp add: word_unat_eq_iff)
qed

lemma page_aligned_aligned4: "page_aligned p \<Longrightarrow> aligned4 p"
  unfolding page_aligned_def aligned4_def by (rule dvd_trans [of _ 4096]) auto

lemma memset_page: "memset m p c PGSIZE = fill m p 4096 (\<lambda>_. ucast c)"
  by (simp add: memset_fill layout_defs)

lemma fill_other_page: "\<not> in_page p a \<Longrightarrow> fill m p 4096 f a = m a"
  by (simp add: in_page_def fill_out)

lemma in_page_offset: "i < 4096 \<Longrightarrow> in_page p (p + of_nat i)"
  by (simp add: in_page_def)

lemma in_page_small:
  "in_page p (p + 1)" "in_page p (p + 2)" "in_page p (p + 3)"
  by (simp_all add: in_page_def)

lemma load32_cong_page:
  "(\<And>a. in_page p a \<Longrightarrow> m' a = m a) \<Longrightarrow> load32 m' p = load32 m p"
  by (simp add: load32_def in_page_small)

lemma store32_other_page: "\<not> in_page p a \<Longrightarrow> store32 m p w a = m a"
  by (rule store32_other) (simp add: in_page_def)

subsection \<open>The free list as a HOL list\<close>

primrec free_chain :: "mem \<Rightarrow> u32 \<Rightarrow> u32 list \<Rightarrow> bool" where
  "free_chain m p [] \<longleftrightarrow> p = 0"
| "free_chain m p (q # qs) \<longleftrightarrow> p = q \<and> q \<noteq> 0 \<and> free_chain m (load32 m q) qs"

definition page_ok :: "phys \<Rightarrow> u32 \<Rightarrow> bool" where
  "page_ok s p \<longleftrightarrow> page_aligned p \<and> kend s \<le> p \<and> p < PHYSTOP"

text \<open>The allocator's invariant: the chain from the head is the list \<open>ps\<close> of distinct legal pages.\<close>

definition kinv :: "phys \<Rightarrow> u32 list \<Rightarrow> bool" where
  "kinv s ps \<longleftrightarrow>
     KERNBASE \<le> kend s \<and> free_chain (pmem s) (freelist s) ps \<and> distinct ps \<and>
     (\<forall>p \<in> set ps. page_ok s p)"

lemma page_ok_nonzero: "KERNBASE \<le> kend s \<Longrightarrow> page_ok s p \<Longrightarrow> p \<noteq> 0"
  by (auto simp: page_ok_def layout_defs word_le_nat_alt)

lemma free_chain_cong:
  assumes "\<And>p. p \<in> set ps \<Longrightarrow> load32 m' p = load32 m p"
  shows "free_chain m' r ps = free_chain m r ps"
  using assms by (induction ps arbitrary: r) auto

lemma free_chain_other_page:
  assumes "\<And>a. \<not> in_page q a \<Longrightarrow> m' a = m a" "q \<notin> set ps" "page_aligned q"
    "\<forall>p \<in> set ps. page_aligned p"
  shows "free_chain m' r ps = free_chain m r ps"
proof (rule free_chain_cong)
  fix p assume "p \<in> set ps"
  with assms have "page_aligned p" "p \<noteq> q" by auto
  then show "load32 m' p = load32 m p"
    by (intro load32_cong_page) (use assms pages_disjoint in blast)
qed

definition same_outside :: "u32 \<Rightarrow> phys \<Rightarrow> phys \<Rightarrow> bool" where
  "same_outside p s s' \<longleftrightarrow>
     kend s' = kend s \<and> (\<forall>a. \<not> in_page p a \<longrightarrow> pmem s' a = pmem s a)"

lemma kfree_ok:
  assumes "kinv s ps" "page_ok s p" "p \<notin> set ps"
  obtains s' where "kfree p s = Ok s'" "kinv s' (p # ps)" "same_outside p s s'"
proof -
  let ?m = "store32 (memset (pmem s) p 1 PGSIZE) p (freelist s)"
  let ?s = "s\<lparr>pmem := ?m, freelist := p\<rparr>"
  have eq: "kfree p s = Ok ?s"
    using assms(2)
    by (auto simp: kfree_def Let_def page_ok_def page_aligned_mod linorder_not_less)
  have out: "?m a = pmem s a" if "\<not> in_page p a" for a
    using that by (simp add: store32_other_page memset_page fill_other_page)
  have "p \<noteq> 0" using assms(1,2) page_ok_nonzero by (auto simp: kinv_def)
  moreover have "free_chain ?m (freelist s) ps = free_chain (pmem s) (freelist s) ps"
    by (rule free_chain_other_page [where q = p])
       (use assms out in \<open>auto simp: kinv_def page_ok_def\<close>)
  ultimately have "kinv ?s (p # ps)"
    using assms by (auto simp: kinv_def page_ok_def)
  moreover have "same_outside p s ?s" using out by (simp add: same_outside_def)
  ultimately show ?thesis using that eq by blast
qed

lemma kalloc_empty: "kinv s [] \<Longrightarrow> kalloc s = (0, s)"
  by (simp add: kinv_def kalloc_def)

lemma kalloc_ok:
  assumes "kinv s (p # ps)"
  obtains s' where "kalloc s = (p, s')" "kinv s' ps" "same_outside p s s'" "page_ok s' p"
    "p \<noteq> 0" "p \<notin> set ps"
proof -
  let ?s = "s\<lparr>freelist := load32 (pmem s) p, pmem := memset (pmem s) p 5 PGSIZE\<rparr>"
  have p: "freelist s = p" "p \<noteq> 0" "p \<notin> set ps" "page_ok s p"
    using assms by (auto simp: kinv_def)
  then have eq: "kalloc s = (p, ?s)" by (simp add: kalloc_def)
  have out: "memset (pmem s) p 5 PGSIZE a = pmem s a" if "\<not> in_page p a" for a
    using that by (simp add: memset_page fill_other_page)
  have "free_chain (memset (pmem s) p 5 PGSIZE) (load32 (pmem s) p) ps
      = free_chain (pmem s) (load32 (pmem s) p) ps"
    by (rule free_chain_other_page [where q = p])
       (use assms p out in \<open>auto simp: kinv_def page_ok_def\<close>)
  then have "kinv ?s ps" using assms by (auto simp: kinv_def page_ok_def)
  moreover have "same_outside p s ?s" using out by (simp add: same_outside_def)
  moreover have "page_ok ?s p" using p by (simp add: page_ok_def)
  ultimately show ?thesis using that eq p by blast
qed

lemma count_pages_chain: "free_chain m r ps \<Longrightarrow> count_pages m r n = Some (n + length ps)"
proof (induction ps arbitrary: r n)
  case Nil
  then show ?case by (simp add: count_pages.simps)
next
  case (Cons q qs)
  then have "count_pages m (load32 m q) (Suc n) = Some (Suc n + length qs)"
    by (intro Cons.IH) simp
  with Cons.prems show ?case by (subst count_pages.simps) simp
qed

lemma kmemory_length: "kinv s ps \<Longrightarrow> kmemory s = Some (length ps)"
  using count_pages_chain [of "pmem s" "freelist s" ps 0] by (simp add: kinv_def kmemory_def)

subsection \<open>Rounding to page boundaries\<close>

lemma and_not_page_mask: "a AND NOT (PGSIZE - 1) = push_bit 12 (drop_bit 12 a)"
proof -
  have m: "PGSIZE - 1 = mask 12" by (simp add: mask_eq_exp_minus_1 PGSIZE_def)
  show ?thesis
    unfolding m by (rule bit_word_eqI) (auto simp: bit_simps)
qed

lemma unat_PGROUNDDOWN: "unat (PGROUNDDOWN a) = unat a div 4096 * 4096"
proof -
  have "unat (PGROUNDDOWN a) = (unat a div 4096 * 4096) mod 2 ^ 32"
    unfolding PGROUNDDOWN_def and_not_page_mask unsigned_push_bit_eq unsigned_drop_bit_eq
    by (simp add: push_bit_eq_mult drop_bit_eq_div take_bit_eq_mod)
  moreover have "unat a div 4096 * 4096 < 2 ^ 32"
    using unat_u32_lt [of a] by (meson div_times_less_eq_dividend order_le_less_trans)
  ultimately show ?thesis by simp
qed

lemma page_aligned_PGROUNDDOWN [simp]: "page_aligned (PGROUNDDOWN a)"
  by (simp add: page_aligned_def unat_PGROUNDDOWN)

lemma PGROUNDUP_DOWN: "PGROUNDUP a = PGROUNDDOWN (a + (PGSIZE - 1))"
  by (simp add: PGROUNDUP_def PGROUNDDOWN_def algebra_simps)

lemma page_aligned_PGROUNDUP [simp]: "page_aligned (PGROUNDUP a)"
  by (simp add: PGROUNDUP_DOWN)

lemma unat_PGROUNDUP:
  "unat a + 4095 < 2 ^ 32 \<Longrightarrow> unat (PGROUNDUP a) = (unat a + 4095) div 4096 * 4096"
  by (simp add: PGROUNDUP_DOWN unat_PGROUNDDOWN PGSIZE_def unat_word_ariths)

lemma page_aligned_eq:
  assumes "page_aligned p" obtains k where "unat p = 4096 * k"
  using assms unfolding page_aligned_def by auto

lemma PGROUNDUP_le_iff:
  assumes "unat a + 4095 < 2 ^ 32" "page_aligned p"
  shows "PGROUNDUP a \<le> p \<longleftrightarrow> a \<le> p"
proof -
  obtain k where k: "unat p = 4096 * k" by (rule page_aligned_eq [OF assms(2)])
  have "(n + 4095) div 4096 * 4096 \<le> 4096 * k \<longleftrightarrow> n \<le> 4096 * k" for n :: nat
  proof -
    have "(n + 4095) div 4096 * 4096 \<le> 4096 * k \<longleftrightarrow> (n + 4095) div 4096 < Suc k" by auto
    also have "\<dots> \<longleftrightarrow> n + 4095 < Suc k * 4096" by (rule div_less_iff_less_mult) simp
    also have "\<dots> \<longleftrightarrow> n \<le> 4096 * k" by auto
    finally show ?thesis .
  qed
  then show ?thesis
    unfolding word_le_nat_alt unat_PGROUNDUP [OF assms(1)] k .
qed

subsection \<open>kinit frees every page between \<open>end\<close> and \<open>PHYSTOP\<close>\<close>

lemma freerange_from_pages:
  assumes "kinv s ps" "page_aligned p" "kend s \<le> p" "p \<le> PHYSTOP" "\<forall>q \<in> set ps. q < p"
  shows "\<exists>s' qs. freerange_from p PHYSTOP s = Ok s' \<and> kinv s' (qs @ ps) \<and> kend s' = kend s \<and>
    set qs = {q. page_aligned q \<and> p \<le> q \<and> q < PHYSTOP}"
  using assms
proof (induction p "PHYSTOP" s arbitrary: ps rule: freerange_from.induct)
  case (1 p s)
  obtain k where k: "unat p = 4096 * k" using "1.prems"(2) unfolding page_aligned_def by auto
  have stop: "unat PHYSTOP = 4096 * 524416" by (simp add: layout_defs)
  show ?case
  proof (cases "p < PHYSTOP")
    case True
    then have lt: "4096 * k < 4096 * 524416" unfolding word_less_nat_alt k stop .
    have plus: "unat (p + PGSIZE) = unat p + 4096"
      using lt k by (simp add: layout_defs unat_word_ariths)
    have next_le: "p + PGSIZE \<le> PHYSTOP"
      unfolding word_le_nat_alt plus k stop using lt by simp
    have "page_ok s p" using "1.prems" True by (simp add: page_ok_def)
    then obtain s1 where s1: "kfree p s = Ok s1" "kinv s1 (p # ps)" "same_outside p s s1"
      using kfree_ok "1.prems"(1,5) by blast
    have "p < p + PGSIZE" unfolding word_less_nat_alt plus by simp
    then have "\<exists>s' qs. freerange_from (p + PGSIZE) PHYSTOP s1 = Ok s' \<and> kinv s' (qs @ p # ps) \<and>
      kend s' = kend s1 \<and> set qs = {q. page_aligned q \<and> p + PGSIZE \<le> q \<and> q < PHYSTOP}"
    proof (intro "1.hyps" [OF next_le s1(1) s1(2)])
      show "page_aligned (p + PGSIZE)"
        using "1.prems"(2) unfolding page_aligned_def plus by simp
      show "kend s1 \<le> p + PGSIZE"
        using \<open>p < p + PGSIZE\<close> "1.prems"(3) s1(3) by (simp add: same_outside_def)
      show "\<forall>q \<in> set (p # ps). q < p + PGSIZE"
        using \<open>p < p + PGSIZE\<close> "1.prems"(5) by auto
    qed (rule next_le)
    then obtain s' qs where s': "freerange_from (p + PGSIZE) PHYSTOP s1 = Ok s'"
      "kinv s' (qs @ p # ps)" "kend s' = kend s1"
      "set qs = {q. page_aligned q \<and> p + PGSIZE \<le> q \<and> q < PHYSTOP}" by blast
    have step: "p \<le> q \<longleftrightarrow> q = p \<or> p + PGSIZE \<le> q" if q: "page_aligned q" for q
    proof -
      obtain j where j: "unat q = 4096 * j" by (rule page_aligned_eq [OF q])
      then show ?thesis
        unfolding word_le_nat_alt plus k word_unat_eq_iff j by auto
    qed
    have "set (qs @ [p]) = {q. page_aligned q \<and> p \<le> q \<and> q < PHYSTOP}"
      using s'(4) step "1.prems"(2) True by auto
    moreover have "freerange_from p PHYSTOP s = Ok s'"
      by (subst freerange_from.simps) (simp add: next_le s1 s')
    moreover have "kinv s' ((qs @ [p]) @ ps)" "kend s' = kend s"
      using s' s1(3) by (simp_all add: same_outside_def)
    ultimately show ?thesis by blast
  next
    case False
    with "1.prems"(4) have "p = PHYSTOP" by auto
    moreover have "\<not> PHYSTOP + PGSIZE \<le> PHYSTOP" by (simp add: layout_defs)
    ultimately have "freerange_from p PHYSTOP s = Ok s" by (subst freerange_from.simps) simp
    moreover have "{q. page_aligned q \<and> p \<le> q \<and> q < PHYSTOP} = {}" using False by auto
    ultimately show ?thesis using "1.prems"(1) by (intro exI [of _ s] exI [of _ "[]"]) auto
  qed
qed

lemma kinit_pages:
  assumes "freelist s = 0" "KERNBASE \<le> kend s" "kend s \<le> PHYSTOP"
  obtains s' ps where "kinit s = Ok s'" "kinv s' ps" "set ps = {p. page_ok s p}" "kend s' = kend s"
proof -
  have bound: "unat (kend s) + 4095 < 2 ^ 32"
    using assms(3) by (simp add: word_le_nat_alt layout_defs)
  have inv: "kinv s []" using assms by (simp add: kinv_def)
  have stop: "page_aligned PHYSTOP" by (simp add: page_aligned_def layout_defs)
  have "kend s \<le> PGROUNDUP (kend s)"
    using PGROUNDUP_le_iff [OF bound page_aligned_PGROUNDUP, of "kend s"] by simp
  moreover have "PGROUNDUP (kend s) \<le> PHYSTOP"
    using PGROUNDUP_le_iff [OF bound stop] assms(3) by simp
  ultimately obtain s' qs where
    "freerange_from (PGROUNDUP (kend s)) PHYSTOP s = Ok s'" "kinv s' qs" "kend s' = kend s"
    "set qs = {q. page_aligned q \<and> PGROUNDUP (kend s) \<le> q \<and> q < PHYSTOP}"
    using freerange_from_pages [OF inv, of "PGROUNDUP (kend s)"] by auto
  then show ?thesis
    using that [of s' qs] PGROUNDUP_le_iff [OF bound]
    by (auto simp: kinit_def freerange_def page_ok_def)
qed

subsection \<open>The interface clients rely on\<close>

text \<open>
  \<open>pool s ps\<close>: the pages free in \<open>s\<close> are the list \<open>ps\<close>. The laws are those of a stack of
  pages; a client's own use of a page it holds keeps the pool (\<open>own_write\<close>).
\<close>

primrec take_pages :: "('s \<Rightarrow> u32 \<times> 's) \<Rightarrow> nat \<Rightarrow> 's \<Rightarrow> u32 list \<times> 's" where
  "take_pages get 0 s = ([], s)"
| "take_pages get (Suc n) s =
     (case get s of (p, s) \<Rightarrow> case take_pages get n s of (ps, s) \<Rightarrow> (p # ps, s))"

primrec give_pages :: "(u32 \<Rightarrow> 's \<Rightarrow> 's res) \<Rightarrow> u32 list \<Rightarrow> 's \<Rightarrow> 's res" where
  "give_pages put [] s = Ok s"
| "give_pages put (p # ps) s = seq (give_pages put ps s) (put p)"

locale page_pool =
  fixes get :: "'s \<Rightarrow> u32 \<times> 's"
    and put :: "u32 \<Rightarrow> 's \<Rightarrow> 's res"
    and pool :: "'s \<Rightarrow> u32 list \<Rightarrow> bool"
    and legal :: "'s \<Rightarrow> u32 \<Rightarrow> bool"
  assumes get_empty: "pool s [] \<Longrightarrow> get s = (0, s)"
    and get_page: "pool s (p # ps) \<Longrightarrow>
      \<exists>s'. get s = (p, s') \<and> pool s' ps \<and> p \<noteq> 0 \<and> (\<forall>q. legal s' q = legal s q)"
    and put_page: "pool s ps \<Longrightarrow> legal s p \<Longrightarrow> p \<notin> set ps \<Longrightarrow>
      \<exists>s'. put p s = Ok s' \<and> pool s' (p # ps) \<and> (\<forall>q. legal s' q = legal s q)"
    and pool_legal: "pool s ps \<Longrightarrow> distinct ps \<and> (\<forall>p \<in> set ps. legal s p)"
begin

lemma take_all:
  "pool s (ps @ qs) \<Longrightarrow>
   \<exists>s'. take_pages get (length ps) s = (ps, s') \<and> pool s' qs \<and> (\<forall>q. legal s' q = legal s q)"
proof (induction ps arbitrary: s)
  case (Cons p ps)
  then obtain s1 where "get s = (p, s1)" "pool s1 (ps @ qs)" "\<forall>q. legal s1 q = legal s q"
    using get_page by fastforce
  with Cons.IH [of s1] show ?case by auto
qed auto

lemma give_all:
  "pool s qs \<Longrightarrow> distinct (ps @ qs) \<Longrightarrow> \<forall>p \<in> set ps. legal s p \<Longrightarrow>
   \<exists>s'. give_pages put ps s = Ok s' \<and> pool s' (ps @ qs) \<and> (\<forall>q. legal s' q = legal s q)"
proof (induction ps)
  case (Cons p ps)
  then obtain s1 where s1: "give_pages put ps s = Ok s1" "pool s1 (ps @ qs)"
    "\<forall>q. legal s1 q = legal s q"
    by auto
  then obtain s2 where "put p s1 = Ok s2" "pool s2 (p # ps @ qs)" "\<forall>q. legal s2 q = legal s1 q"
    using put_page [of s1 "ps @ qs" p] Cons.prems by auto
  with s1 show ?case by auto
qed auto

lemma exhaust:
  assumes "pool s ps"
  shows "\<exists>s'. take_pages get (length ps) s = (ps, s') \<and> get s' = (0, s')"
  using take_all [of s ps "[]"] assms get_empty by auto

lemma take_give:
  assumes "pool s (ps @ qs)"
  shows "\<exists>s1 s2. take_pages get (length ps) s = (ps, s1) \<and> pool s1 qs \<and>
           give_pages put ps s1 = Ok s2 \<and> pool s2 (ps @ qs)"
proof -
  obtain s1 where s1: "take_pages get (length ps) s = (ps, s1)" "pool s1 qs"
    "\<forall>q. legal s1 q = legal s q"
    using take_all [OF assms] by auto
  moreover have "distinct (ps @ qs)" "\<forall>p \<in> set ps. legal s1 p"
    using pool_legal [OF assms] s1(3) by auto
  ultimately show ?thesis using give_all [of s1 qs ps] by blast
qed

end

interpretation kpool: page_pool kalloc kfree kinv page_ok
proof unfold_locales
  fix s p ps
  show "kinv s [] \<Longrightarrow> kalloc s = (0, s)" by (rule kalloc_empty)
  show "\<exists>s'. kalloc s = (p, s') \<and> kinv s' ps \<and> p \<noteq> 0 \<and> (\<forall>q. page_ok s' q = page_ok s q)"
    if "kinv s (p # ps)"
    by (rule kalloc_ok [OF that]) (auto simp: same_outside_def page_ok_def)
  show "\<exists>s'. kfree p s = Ok s' \<and> kinv s' (p # ps) \<and> (\<forall>q. page_ok s' q = page_ok s q)"
    if "kinv s ps" "page_ok s p" "p \<notin> set ps"
    by (rule kfree_ok [OF that]) (auto simp: same_outside_def page_ok_def)
  show "distinct ps \<and> (\<forall>p \<in> set ps. page_ok s p)" if "kinv s ps"
    using that by (simp add: kinv_def)
qed

subsection \<open>Properties\<close>

text \<open>A concrete memory: the kernel ends two pages below the top of RAM.\<close>

definition boot_phys :: phys where
  "boot_phys = \<lparr>pmem = (\<lambda>_. 0), freelist = 0, kend = 0x8007E000\<rparr>"

text \<open>
  \<open>kinit\<close> succeeds and leaves on the free list exactly the pages between the end of
  the kernel and \<open>PHYSTOP\<close>, each of them once; \<open>kmemory\<close> then counts them.
\<close>

theorem kinit_frees_every_page:
  assumes "freelist s = 0" "KERNBASE \<le> kend s" "kend s \<le> PHYSTOP"
  shows "\<exists>s' ps. kinit s = Ok s' \<and> kinv s' ps \<and> set ps = {p. page_ok s p} \<and>
           kmemory s' = Some (card {p. page_ok s p})"
proof -
  obtain s' ps where s': "kinit s = Ok s'" "kinv s' ps" "set ps = {p. page_ok s p}"
    by (rule kinit_pages [OF assms])
  then have "distinct ps" by (simp add: kinv_def)
  then have "length ps = card {p. page_ok s p}" using s'(3) distinct_card by fastforce
  then show ?thesis using s' kmemory_length by auto
qed

lemma kinit_frees_every_page_witness:
  "\<exists>s' ps. kinit boot_phys = Ok s' \<and> kinv s' ps \<and> set ps = {p. page_ok boot_phys p} \<and>
     kmemory s' = Some (card {p. page_ok boot_phys p})"
proof (rule kinit_frees_every_page)
  show "freelist boot_phys = 0" by (simp add: boot_phys_def)
  show "KERNBASE \<le> kend boot_phys" "kend boot_phys \<le> PHYSTOP"
    by (simp_all add: boot_phys_def layout_defs)
qed

text \<open>
  C28: Any number of \<open>kalloc\<close> calls returns that many distinct free pages, and freeing
  them again with \<open>kfree\<close> (last allocated first) gives back the free list exactly; when
  the list is used up, \<open>kalloc\<close> returns 0 and changes nothing.
\<close>

theorem kalloc_kfree_stack:
  assumes "kinv s (ps @ qs)"
  shows "(\<exists>s1 s2. take_pages kalloc (length ps) s = (ps, s1) \<and> kinv s1 qs \<and>
           give_pages kfree ps s1 = Ok s2 \<and> kinv s2 (ps @ qs)) \<and>
         (\<exists>s1. take_pages kalloc (length (ps @ qs)) s = (ps @ qs, s1) \<and> kalloc s1 = (0, s1))"
  using kpool.take_give [OF assms] kpool.exhaust [OF assms] by blast

definition two_pages :: phys where
  "two_pages = \<lparr>pmem = store32 (\<lambda>_. 0) 0x8007F000 0x8007E000, freelist = 0x8007F000,
                kend = 0x8007E000\<rparr>"

lemma two_pages_kinv: "kinv two_pages [0x8007F000, 0x8007E000]"
  by (simp add: kinv_def two_pages_def page_ok_def page_aligned_def layout_defs word_le_nat_alt
      word_less_nat_alt load32_store32_aligned aligned4_def) (simp add: load32_def of_le32_def)

lemma kalloc_kfree_stack_witness:
  "(\<exists>s1 s2. take_pages kalloc (length [0x8007F000 :: u32]) two_pages = ([0x8007F000], s1) \<and>
      kinv s1 [0x8007E000] \<and> give_pages kfree [0x8007F000] s1 = Ok s2 \<and>
      kinv s2 ([0x8007F000] @ [0x8007E000])) \<and>
   (\<exists>s1. take_pages kalloc (length ([0x8007F000] @ [0x8007E000 :: u32])) two_pages
      = ([0x8007F000] @ [0x8007E000], s1) \<and> kalloc s1 = (0, s1))"
  by (rule kalloc_kfree_stack) (simp add: two_pages_kinv)

end
