(* ===== verification/Vm.thy ===== *)
theory Vm
  imports Kalloc
begin

text \<open>
  Sv32 page tables (\<open>kernel/vm.c\<close>, macros of \<open>kernel/riscv.h\<close>) in the bytes of physical
  memory: \<open>walk\<close> follows and extends the two-level tree, \<open>mappages\<close>, \<open>uvmunmap\<close>,
  \<open>uvmalloc\<close>, \<open>uvmdealloc\<close>, \<open>uvmcopy\<close> and \<open>freewalk\<close> change it, and
  \<open>copyout\<close>, \<open>copyin\<close>, \<open>copyinstr\<close> move bytes through it. A kernel buffer that is
  the source or destination of a copy is a byte list.
\<close>

subsection \<open>riscv.h\<close>

definition PTE_V :: u32 where "PTE_V = 1"
definition PTE_R :: u32 where "PTE_R = 2"
definition PTE_W :: u32 where "PTE_W = 4"
definition PTE_X :: u32 where "PTE_X = 8"
definition PTE_U :: u32 where "PTE_U = 16"

definition PA2PTE :: "u32 \<Rightarrow> u32" where "PA2PTE pa = push_bit 10 (drop_bit 12 pa)"
definition PTE2PA :: "u32 \<Rightarrow> u32" where "PTE2PA pte = push_bit 12 (drop_bit 10 pte)"
definition PTE_FLAGS :: "u32 \<Rightarrow> u32" where "PTE_FLAGS pte = pte AND 0x3FF"
definition PX :: "nat \<Rightarrow> u32 \<Rightarrow> u32" where "PX level va = drop_bit (12 + 10 * level) va AND 0x3FF"
definition MAXVA :: u32 where "MAXVA = 0xFFFFFFFF"
definition TRAMPOLINE :: u32 where "TRAMPOLINE = MAXVA - PGSIZE + 1"
definition TRAPFRAME :: u32 where "TRAPFRAME = TRAMPOLINE - PGSIZE"

lemmas pte_bits = PTE_V_def PTE_R_def PTE_W_def PTE_X_def PTE_U_def

subsection \<open>Walking and mapping\<close>

text \<open>\<open>&pagetable[PX(level, va)]\<close>\<close>

definition pte_addr :: "u32 \<Rightarrow> nat \<Rightarrow> u32 \<Rightarrow> u32" where
  "pte_addr pagetable level va = pagetable + 4 * PX level va"

definition walk :: "u32 \<Rightarrow> u32 \<Rightarrow> bool \<Rightarrow> phys \<Rightarrow> (u32 \<times> phys) res" where
  "walk pagetable va alloc s =
     (if MAXVA < va then Fail (Panic ''walk'')
      else
        let pte = pte_addr pagetable 1 va; e = load32 (pmem s) pte
        in if e AND PTE_V \<noteq> 0 then Ok (pte_addr (PTE2PA e) 0 va, s)
           else if \<not> alloc then Ok (0, s)
           else
             case kalloc s of (pt, s) \<Rightarrow>
               if pt = 0 then Ok (0, s)
               else
                 let m = memset (pmem s) pt 0 PGSIZE;
                     m = store32 m pte (PA2PTE pt OR PTE_V)
                 in Ok (pte_addr pt 0 va, s\<lparr>pmem := m\<rparr>))"

definition walkaddr :: "u32 \<Rightarrow> u32 \<Rightarrow> phys \<Rightarrow> u32 res" where
  "walkaddr pagetable va s =
     (if MAXVA < va then Ok 0
      else seq (walk pagetable va False s) (\<lambda>(pte, s).
        if pte = 0 then Ok 0
        else
          let e = load32 (pmem s) pte
          in if e AND PTE_V = 0 then Ok 0
             else if e AND PTE_U = 0 then Ok 0
             else Ok (PTE2PA e)))"

primrec mappages_loop ::
  "nat \<Rightarrow> u32 \<Rightarrow> u32 \<Rightarrow> u32 \<Rightarrow> u32 \<Rightarrow> u32 \<Rightarrow> phys \<Rightarrow> (int \<times> phys) res" where
  "mappages_loop 0 pagetable a last_a pa perm s = Fail Diverges"
| "mappages_loop (Suc n) pagetable a last_a pa perm s =
     seq (walk pagetable a True s) (\<lambda>(pte, s).
       if pte = 0 then Ok (-1, s)
       else if load32 (pmem s) pte AND PTE_V \<noteq> 0 then Fail (Panic ''mappages: remap'')
       else
         let s = s\<lparr>pmem := store32 (pmem s) pte (PA2PTE pa OR perm OR PTE_V)\<rparr>
         in if a = last_a then Ok (0, s)
            else mappages_loop n pagetable (a + PGSIZE) last_a (pa + PGSIZE) perm s)"

text \<open>The loop visits each of the \<open>2 ^ 20\<close> pages of the address space at most once.\<close>

definition n_pages :: nat where "n_pages = 2 ^ 20"

definition mappages :: "u32 \<Rightarrow> u32 \<Rightarrow> u32 \<Rightarrow> u32 \<Rightarrow> u32 \<Rightarrow> phys \<Rightarrow> (int \<times> phys) res" where
  "mappages pagetable va sz pa perm s =
     (if sz = 0 then Fail (Panic ''mappages: size'')
      else mappages_loop n_pages pagetable (PGROUNDDOWN va) (PGROUNDDOWN (va + sz - 1))
             pa perm s)"

definition kvmmap :: "u32 \<Rightarrow> u32 \<Rightarrow> u32 \<Rightarrow> u32 \<Rightarrow> u32 \<Rightarrow> phys \<Rightarrow> phys res" where
  "kvmmap kpgtbl va pa sz perm s =
     seq (mappages kpgtbl va sz pa perm s) (\<lambda>(r, s).
       if r \<noteq> 0 then Fail (Panic ''kvmmap'') else Ok s)"

function uvmunmap_from :: "u32 \<Rightarrow> u32 \<Rightarrow> u32 \<Rightarrow> bool \<Rightarrow> phys \<Rightarrow> phys res" where
  "uvmunmap_from pagetable a bound do_free s =
     (if a < bound
      then seq (walk pagetable (push_bit 12 a) False s) (\<lambda>(pte, s).
        if pte = 0 then Fail (Panic ''uvmunmap: walk'')
        else
          let e = load32 (pmem s) pte
          in if e AND PTE_V = 0 then Fail (Panic ''uvmunmap: not mapped'')
             else if PTE_FLAGS e = PTE_V then Fail (Panic ''uvmunmap: not a leaf'')
             else seq (if do_free then kfree (PTE2PA e) s else Ok s) (\<lambda>s.
               uvmunmap_from pagetable (a + 1) bound do_free
                 (s\<lparr>pmem := store32 (pmem s) pte 0\<rparr>)))
      else Ok s)"
  by pat_completeness auto
termination
proof (relation "measure (\<lambda>(pt, a, bound, f, s). unat bound - unat a)", simp)
  fix pt a bound :: u32 and f :: bool and s s' :: phys
  assume "a < bound"
  then have "unat a < unat bound" by (simp add: word_less_nat_alt)
  moreover have "unat (a + 1) = Suc (unat a)"
    using \<open>a < bound\<close> by (rule unat_add_one_less)
  ultimately show "((pt, a + 1, bound, f, s'), pt, a, bound, f, s)
      \<in> measure (\<lambda>(pt, a, bound, f, s). unat bound - unat a)" for s'
    by simp
qed

declare uvmunmap_from.simps [simp del]

definition uvmunmap :: "u32 \<Rightarrow> u32 \<Rightarrow> u32 \<Rightarrow> bool \<Rightarrow> phys \<Rightarrow> phys res" where
  "uvmunmap pagetable va npages do_free s =
     (if va mod PGSIZE \<noteq> 0 then Fail (Panic ''uvmunmap: not aligned'')
      else uvmunmap_from pagetable (drop_bit 12 va)
             (drop_bit 12 va + npages * drop_bit 12 PGSIZE) do_free s)"

definition uvmcreate :: "phys \<Rightarrow> u32 \<times> phys" where
  "uvmcreate s =
     (case kalloc s of (pagetable, s) \<Rightarrow>
        if pagetable = 0 then (0, s)
        else (pagetable, s\<lparr>pmem := memset (pmem s) pagetable 0 PGSIZE\<rparr>))"

text \<open>A kernel byte list written to consecutive addresses (the \<open>memmove\<close> of a kernel buffer).\<close>

definition put_bytes :: "mem \<Rightarrow> u32 \<Rightarrow> u8 list \<Rightarrow> mem" where
  "put_bytes m a bs = fill m a (length bs) (\<lambda>i. bs ! i)"

definition get_bytes :: "mem \<Rightarrow> u32 \<Rightarrow> nat \<Rightarrow> u8 list" where
  "get_bytes m a n = map (\<lambda>i. m (a + of_nat i)) [0..<n]"

definition uvmfirst :: "u32 \<Rightarrow> u8 list \<Rightarrow> phys \<Rightarrow> phys res" where
  "uvmfirst pagetable src s =
     (if 4096 \<le> length src then Fail (Panic ''uvmfirst: more than a page'')
      else
        case kalloc s of (mem, s) \<Rightarrow>
          let s = s\<lparr>pmem := memset (pmem s) mem 0 PGSIZE\<rparr>
          in seq (mappages pagetable 0 PGSIZE mem (PTE_W OR PTE_R OR PTE_X OR PTE_U) s)
               (\<lambda>(r, s). Ok (s\<lparr>pmem := put_bytes (pmem s) mem src\<rparr>)))"

subsection \<open>Growing and shrinking a process\<close>

definition uvmdealloc :: "u32 \<Rightarrow> u32 \<Rightarrow> u32 \<Rightarrow> phys \<Rightarrow> (u32 \<times> phys) res" where
  "uvmdealloc pagetable oldsz newsz s =
     (if oldsz \<le> newsz then Ok (oldsz, s)
      else if PGROUNDUP newsz < PGROUNDUP oldsz
      then
        let npages = (PGROUNDUP oldsz - PGROUNDUP newsz) div PGSIZE
        in seq (uvmunmap pagetable (PGROUNDUP newsz) npages True s) (\<lambda>s. Ok (newsz, s))
      else Ok (newsz, s))"

primrec uvmalloc_loop ::
  "nat \<Rightarrow> u32 \<Rightarrow> u32 \<Rightarrow> u32 \<Rightarrow> u32 \<Rightarrow> u32 \<Rightarrow> phys \<Rightarrow> (u32 \<times> phys) res" where
  "uvmalloc_loop 0 pagetable oldsz a newsz xperm s = Fail Diverges"
| "uvmalloc_loop (Suc n) pagetable oldsz a newsz xperm s =
     (if a < newsz
      then case kalloc s of (mem, s) \<Rightarrow>
        if mem = 0
        then seq (uvmdealloc pagetable a oldsz s) (\<lambda>(_, s). Ok (0, s))
        else
          let s = s\<lparr>pmem := memset (pmem s) mem 0 PGSIZE\<rparr>
          in seq (mappages pagetable a PGSIZE mem (PTE_R OR PTE_U OR xperm) s) (\<lambda>(r, s).
               if r \<noteq> 0
               then seq (kfree mem s) (\<lambda>s.
                 seq (uvmdealloc pagetable a oldsz s) (\<lambda>(_, s). Ok (0, s)))
               else uvmalloc_loop n pagetable oldsz (a + PGSIZE) newsz xperm s)
      else Ok (newsz, s))"

definition uvmalloc :: "u32 \<Rightarrow> u32 \<Rightarrow> u32 \<Rightarrow> u32 \<Rightarrow> phys \<Rightarrow> (u32 \<times> phys) res" where
  "uvmalloc pagetable oldsz newsz xperm s =
     (if newsz < oldsz then Ok (oldsz, s)
      else
        let oldsz = PGROUNDUP oldsz
        in uvmalloc_loop (Suc n_pages) pagetable oldsz oldsz newsz xperm s)"

text \<open>
  \<open>freewalk\<close> scans the 1024 entries of a table and recurses into the tables they point
  to. The first argument bounds the recursion depth (a table that contains itself would
  overflow the kernel stack); a two-level tree needs 2.
\<close>

fun freewalk_from :: "(u32 \<Rightarrow> phys \<Rightarrow> phys res) \<Rightarrow> u32 \<Rightarrow> nat \<Rightarrow> nat \<Rightarrow> phys \<Rightarrow> phys res" where
  "freewalk_from rec_call pagetable i 0 s = Ok s"
| "freewalk_from rec_call pagetable i (Suc n) s =
     (let a = pagetable + 4 * of_nat i; pte = load32 (pmem s) a
      in if pte AND PTE_V \<noteq> 0 \<and> pte AND (PTE_R OR PTE_W OR PTE_X) = 0
         then seq (rec_call (PTE2PA pte) s) (\<lambda>s.
           freewalk_from rec_call pagetable (Suc i) n (s\<lparr>pmem := store32 (pmem s) a 0\<rparr>))
         else if pte AND PTE_V \<noteq> 0 then Fail (Panic ''freewalk: leaf'')
         else freewalk_from rec_call pagetable (Suc i) n s)"

primrec freewalk :: "nat \<Rightarrow> u32 \<Rightarrow> phys \<Rightarrow> phys res" where
  "freewalk 0 pagetable s = Fail Diverges"
| "freewalk (Suc d) pagetable s =
     seq (freewalk_from (freewalk d) pagetable 0 1024 s) (\<lambda>s. kfree pagetable s)"

definition freewalk_depth :: nat where "freewalk_depth = 2"

definition uvmfree :: "u32 \<Rightarrow> u32 \<Rightarrow> phys \<Rightarrow> phys res" where
  "uvmfree pagetable sz s =
     seq (if 0 < sz then uvmunmap pagetable 0 (PGROUNDUP sz div PGSIZE) True s else Ok s)
       (\<lambda>s. freewalk freewalk_depth pagetable s)"

primrec uvmcopy_loop :: "nat \<Rightarrow> u32 \<Rightarrow> u32 \<Rightarrow> u32 \<Rightarrow> u32 \<Rightarrow> phys \<Rightarrow> (int \<times> phys) res" where
  "uvmcopy_loop 0 old new i sz s = Fail Diverges"
| "uvmcopy_loop (Suc n) old new i sz s =
     (if i < sz
      then seq (walk old i False s) (\<lambda>(pte, s).
        if pte = 0 then Fail (Panic ''uvmcopy: pte should exist'')
        else
          let e = load32 (pmem s) pte
          in if e AND PTE_V = 0 then Fail (Panic ''uvmcopy: page not present'')
             else
               let pa = PTE2PA e; flags = PTE_FLAGS e
               in case kalloc s of (mem, s) \<Rightarrow>
                 if mem = 0
                 then seq (uvmunmap new 0 (i div PGSIZE) True s) (\<lambda>s. Ok (-1, s))
                 else
                   let s = s\<lparr>pmem := memmove (pmem s) mem pa PGSIZE\<rparr>
                   in seq (mappages new i PGSIZE mem flags s) (\<lambda>(r, s).
                        if r \<noteq> 0
                        then seq (kfree mem s) (\<lambda>s.
                          seq (uvmunmap new 0 (i div PGSIZE) True s) (\<lambda>s. Ok (-1, s)))
                        else uvmcopy_loop n old new (i + PGSIZE) sz s))
      else Ok (0, s))"

definition uvmcopy :: "u32 \<Rightarrow> u32 \<Rightarrow> u32 \<Rightarrow> phys \<Rightarrow> (int \<times> phys) res" where
  "uvmcopy old new sz s = uvmcopy_loop (Suc n_pages) old new 0 sz s"

definition uvmclear :: "u32 \<Rightarrow> u32 \<Rightarrow> phys \<Rightarrow> phys res" where
  "uvmclear pagetable va s =
     seq (walk pagetable va False s) (\<lambda>(pte, s).
       if pte = 0 then Fail (Panic ''uvmclear'')
       else Ok (s\<lparr>pmem := store32 (pmem s) pte (load32 (pmem s) pte AND NOT PTE_U)\<rparr>))"

subsection \<open>Copying between user and kernel\<close>

text \<open>The bytes of one page that a copy of \<open>len\<close> bytes at \<open>va\<close> handles at a time.\<close>

definition page_chunk :: "u32 \<Rightarrow> nat \<Rightarrow> nat" where
  "page_chunk va len = min (unat (PGSIZE - (va - PGROUNDDOWN va))) len"

lemma page_offset_less: "unat (va - PGROUNDDOWN va) < 4096"
proof -
  have "unat (PGROUNDDOWN va) \<le> unat va"
    by (simp add: unat_PGROUNDDOWN)
  then have "unat (va - PGROUNDDOWN va) = unat va - unat va div 4096 * 4096"
    by (simp add: unat_sub_eq word_le_nat_alt unat_PGROUNDDOWN)
  then show ?thesis
    by (simp add: minus_div_mult_eq_mod)
qed

lemma unat_page_left: "unat (PGSIZE - (va - PGROUNDDOWN va)) = 4096 - unat (va - PGROUNDDOWN va)"
  using page_offset_less [of va]
  by (simp add: unat_sub_eq PGSIZE_def word_le_nat_alt)

lemma page_chunk_pos: "0 < len \<Longrightarrow> 0 < page_chunk va len"
  using page_offset_less [of va] by (simp add: page_chunk_def unat_page_left)

lemma page_chunk_le: "page_chunk va len \<le> len"
  by (simp add: page_chunk_def)

function copyout :: "u32 \<Rightarrow> u32 \<Rightarrow> u8 list \<Rightarrow> phys \<Rightarrow> (int \<times> phys) res" where
  "copyout pagetable dstva src s =
     (if src = [] then Ok (0, s)
      else
        let va0 = PGROUNDDOWN dstva
        in seq (walkaddr pagetable va0 s) (\<lambda>pa0.
             if pa0 = 0 then Ok (-1, s)
             else
               let n = page_chunk dstva (length src)
               in copyout pagetable (va0 + PGSIZE) (drop n src)
                    (s\<lparr>pmem := put_bytes (pmem s) (pa0 + (dstva - va0)) (take n src)\<rparr>)))"
  by pat_completeness auto
termination
  by (relation "measure (\<lambda>(pt, va, src, s). length src)") (auto simp: page_chunk_pos)

declare copyout.simps [simp del]

text \<open>The status and the bytes moved, which on failure are those of the pages before the hole.\<close>

function copyin :: "u32 \<Rightarrow> u32 \<Rightarrow> nat \<Rightarrow> phys \<Rightarrow> (int \<times> u8 list) res" where
  "copyin pagetable srcva len s =
     (if len = 0 then Ok (0, [])
      else
        let va0 = PGROUNDDOWN srcva
        in seq (walkaddr pagetable va0 s) (\<lambda>pa0.
             if pa0 = 0 then Ok (-1, [])
             else
               let n = page_chunk srcva len
               in seq (copyin pagetable (va0 + PGSIZE) (len - n) s) (\<lambda>(r, bs).
                    Ok (r, get_bytes (pmem s) (pa0 + (srcva - va0)) n @ bs))))"
  by pat_completeness auto
termination
  by (relation "measure (\<lambda>(pt, va, len, s). len)") (auto simp: page_chunk_pos)

declare copyin.simps [simp del]

text \<open>
  The inner loop of \<open>copyinstr\<close>: bytes of one page up to and including a NUL, and
  whether the NUL was there.
\<close>

primrec take_string :: "mem \<Rightarrow> u32 \<Rightarrow> nat \<Rightarrow> u8 list \<times> bool" where
  "take_string m p 0 = ([], False)"
| "take_string m p (Suc n) =
     (if m p = 0 then ([0], True)
      else case take_string m (p + 1) n of (bs, z) \<Rightarrow> (m p # bs, z))"

text \<open>The status and the bytes stored in \<open>dst\<close>, which on failure are those before the hole or \<open>max\<close>.\<close>

function copyinstr :: "u32 \<Rightarrow> u32 \<Rightarrow> nat \<Rightarrow> phys \<Rightarrow> (int \<times> u8 list) res" where
  "copyinstr pagetable srcva maxn s =
     (if maxn = 0 then Ok (-1, [])
      else
        let va0 = PGROUNDDOWN srcva
        in seq (walkaddr pagetable va0 s) (\<lambda>pa0.
             if pa0 = 0 then Ok (-1, [])
             else
               let n = page_chunk srcva maxn
               in case take_string (pmem s) (pa0 + (srcva - va0)) n of (bs, got_null) \<Rightarrow>
                    if got_null then Ok (0, bs)
                    else seq (copyinstr pagetable (va0 + PGSIZE) (maxn - n) s) (\<lambda>(r, cs).
                           Ok (r, bs @ cs))))"
  by pat_completeness auto
termination
  by (relation "measure (\<lambda>(pt, va, maxn, s). maxn)") (auto simp: page_chunk_pos)

declare copyinstr.simps [simp del]

end
