(* ===== verification/Vm_Tables.thy ===== *)
theory Vm_Tables
  imports Vm
begin

text \<open>
  Page tables as maps: what a two-level tree in memory maps, when such a tree is well
  formed (its table pages are legal, distinct and not free), and what \<open>walk\<close> and
  \<open>mappages\<close> do to that map.
\<close>

subsection \<open>Bit facts\<close>

lemma PTE2PA_aligned [simp]: "page_aligned (PTE2PA e)"
proof -
  have "unat (PTE2PA e) = (unat (drop_bit 10 e) * 4096) mod 2 ^ 32"
    unfolding PTE2PA_def unsigned_push_bit_eq by (simp add: push_bit_eq_mult take_bit_eq_mod)
  also have "4096 dvd \<dots>" by (rule dvd_mod) auto
  finally show ?thesis by (simp add: page_aligned_def)
qed

lemma page_aligned_bits: "page_aligned p \<Longrightarrow> push_bit 12 (drop_bit 12 p) = p"
proof -
  assume p: "page_aligned p"
  have "unat (PGROUNDDOWN p) = unat p"
    unfolding unat_PGROUNDDOWN using p by (simp add: page_aligned_def)
  then show ?thesis
    by (simp add: PGROUNDDOWN_def and_not_page_mask word_unat_eq_iff)
qed

lemma PGROUNDDOWN_aligned: "page_aligned p \<Longrightarrow> PGROUNDDOWN p = p"
  using page_aligned_bits by (simp add: PGROUNDDOWN_def and_not_page_mask)

lemma flags_high_bit: "drop_bit 10 (x :: u32) = 0 \<Longrightarrow> bit x n \<Longrightarrow> n < 10"
proof (rule ccontr)
  assume x: "drop_bit 10 x = 0" "bit x n" "\<not> n < 10"
  then obtain k where "n = 10 + k" using le_Suc_ex [of 10 n] by auto
  then have "bit (drop_bit 10 x) k" using x(2) by (simp add: bit_drop_bit_eq)
  with x(1) show False by simp
qed

lemma PTE2PA_PA2PTE:
  assumes "page_aligned p" "drop_bit 10 f = 0"
  shows "PTE2PA (PA2PTE p OR f) = p"
proof -
  have "drop_bit 10 (PA2PTE p OR f) = drop_bit 12 p"
    by (intro bit_word_eqI)
       (auto simp: PA2PTE_def bit_simps dest: bit_imp_le_length flags_high_bit [OF assms(2)])
  then show ?thesis by (simp add: PTE2PA_def page_aligned_bits assms(1))
qed

lemma PTE_FLAGS_PA2PTE: "drop_bit 10 f = 0 \<Longrightarrow> PTE_FLAGS (PA2PTE p OR f) = f"
proof -
  assume f: "drop_bit 10 f = 0"
  have m: "(0x3FF :: u32) = mask 10" by (simp add: mask_eq_exp_minus_1)
  show ?thesis
    unfolding PTE_FLAGS_def m
    by (intro bit_word_eqI) (auto simp: PA2PTE_def bit_simps dest: flags_high_bit [OF f])
qed

lemma and_PTE_V: "e AND PTE_V \<noteq> 0 \<longleftrightarrow> bit e 0"
proof -
  have "e AND PTE_V = e mod 2" by (simp add: PTE_V_def and_one_eq)
  then show ?thesis by (simp add: bit_0 odd_iff_mod_2_eq_one even_iff_mod_2_eq_zero)
qed

lemma PTE_V_nonzero [simp]: "PTE_V \<noteq> 0"
  by (simp add: PTE_V_def)

lemma or_PTE_V [simp]: "(e OR PTE_V) AND PTE_V \<noteq> 0"
  by (simp add: and.commute [of _ PTE_V])

lemma or_or_PTE_V [simp]: "(e OR f OR PTE_V) AND PTE_V \<noteq> 0"
  unfolding or.assoc [symmetric] by (rule or_PTE_V)

lemma PTE2PA_link: "page_aligned p \<Longrightarrow> PTE2PA (PA2PTE p OR PTE_V) = p"
  by (rule PTE2PA_PA2PTE) (simp_all add: PTE_V_def)

text \<open>A link to a table has no permission bit, which is how \<open>freewalk\<close> tells it from a leaf.\<close>

lemma link_flags: "(PA2PTE p OR PTE_V) AND (PTE_R OR PTE_W OR PTE_X) = 0"
proof -
  have m: "PTE_R OR PTE_W OR PTE_X = push_bit 1 (mask 3)" by (simp add: pte_bits push_bit_eq_mult mask_eq_exp_minus_1)
  have b: "bit (PTE_R OR PTE_W OR PTE_X) n \<Longrightarrow> 1 \<le> n \<and> n < 4" for n
    unfolding m bit_push_bit_iff bit_mask_iff by auto
  have v: "bit (PA2PTE p OR PTE_V) n \<Longrightarrow> n = 0 \<or> 10 \<le> n" for n
    by (auto simp: PA2PTE_def PTE_V_def bit_or_iff bit_push_bit_iff bit_1_iff simp del: bit_0)
  show ?thesis
    by (rule bit_word_eqI) (use b v in \<open>fastforce simp: bit_and_iff [of "PA2PTE p OR PTE_V"] simp del: bit_0\<close>)
qed

subsection \<open>Slots\<close>

definition slot :: "u32 \<Rightarrow> nat \<Rightarrow> u32" where
  "slot pt i = pt + 4 * of_nat i"

definition ix1 :: "u32 \<Rightarrow> nat" where "ix1 va = unat (PX 1 va)"
definition ix0 :: "u32 \<Rightarrow> nat" where "ix0 va = unat (PX 0 va)"

lemma PX_less: "unat (PX l va) < 1024"
proof -
  have m: "(0x3FF :: u32) = mask 10" by (simp add: mask_eq_exp_minus_1)
  have "uint (PX l va) < 2 ^ 10" unfolding PX_def m by (rule and_mask_lt_2p)
  then have "nat (uint (PX l va)) < nat (2 ^ 10)" by (subst nat_less_eq_zless) auto
  then show ?thesis unfolding unat_eq_nat_uint by simp
qed

lemma ix_less [simp]: "ix1 va < 1024" "ix0 va < 1024"
  by (simp_all add: ix1_def ix0_def PX_less)

lemma pte_addr_slot: "pte_addr pt 1 va = slot pt (ix1 va)" "pte_addr pt 0 va = slot pt (ix0 va)"
  by (simp_all add: pte_addr_def slot_def ix1_def ix0_def)

lemma pte_addr_slot1: "pte_addr pt (Suc 0) va = slot pt (ix1 va)"
  using pte_addr_slot(1) by simp

lemma slot_offset: "i < 1024 \<Longrightarrow> unat (slot pt i - pt) = 4 * i"
proof -
  assume "i < 1024"
  then have "unat (of_nat (4 * i) :: u32) = 4 * i" by (intro unat_of_nat_eq) simp
  moreover have "slot pt i - pt = of_nat (4 * i)" by (simp add: slot_def)
  ultimately show ?thesis by (simp only:)
qed

lemma in_page_slot [simp]: "i < 1024 \<Longrightarrow> in_page pt (slot pt i)"
  by (simp add: in_page_def slot_offset)

lemma slot_bytes_in_page:
  assumes "i < 1024" "unat (x - slot pt i) < 4"
  shows "in_page pt x"
proof -
  have e: "x - pt = of_nat (4 * i) + (x - slot pt i)" by (simp add: slot_def)
  have b: "4 * i + unat (x - slot pt i) < 4096" using assms by linarith
  have o: "unat (of_nat (4 * i) :: u32) = 4 * i"
    by (rule unat_of_nat_eq, rule less_trans [of _ 4096]) (use b in simp_all)
  have "unat (of_nat (4 * i) + (x - slot pt i)) = unat (of_nat (4 * i) :: u32) + unat (x - slot pt i)"
    by (rule unat_add_u32, rule less_trans [of _ 4096]) (use b o in simp_all)
  then show ?thesis unfolding in_page_def e o using b by (simp only:)
qed

lemma slot_inj: "i < 1024 \<Longrightarrow> j < 1024 \<Longrightarrow> slot pt i = slot pt j \<Longrightarrow> i = j"
proof -
  assume i: "i < 1024" and j: "j < 1024" and e: "slot pt i = slot pt j"
  have "4 * i = 4 * j"
    unfolding slot_offset [OF i, of pt, symmetric] slot_offset [OF j, of pt, symmetric] e ..
  then show "i = j" by simp
qed

lemma unat_slot: "page_aligned pt \<Longrightarrow> i < 1024 \<Longrightarrow> unat (slot pt i) = unat pt + 4 * i"
proof -
  assume a: "page_aligned pt" "i < 1024"
  have "unat (of_nat (4 * i) :: u32) = 4 * i" using a(2) by (intro unat_of_nat_eq) simp
  moreover have "unat pt + 4 * i < 2 ^ 32" using page_aligned_bound [OF a(1)] a(2) by simp
  ultimately show ?thesis
    using unat_add_u32 [of pt "of_nat (4 * i)"] unfolding slot_def by simp
qed

lemma aligned4_slot: "page_aligned pt \<Longrightarrow> i < 1024 \<Longrightarrow> aligned4 (slot pt i)"
  unfolding aligned4_def
  by (subst unat_slot, assumption, assumption, rule dvd_add)
     (auto simp: page_aligned_def intro: dvd_trans [of 4 4096])

lemma slot_pages_differ:
  "page_aligned p \<Longrightarrow> page_aligned q \<Longrightarrow> p \<noteq> q \<Longrightarrow> i < 1024 \<Longrightarrow> j < 1024 \<Longrightarrow> slot p i \<noteq> slot q j"
  by (metis in_page_slot pages_disjoint)

lemma load32_slot_cong:
  assumes "page_aligned p" "i < 1024" "\<And>a. in_page p a \<Longrightarrow> m' a = m a"
  shows "load32 m' (slot p i) = load32 m (slot p i)"
proof -
  have "in_page p (slot p i + of_nat k)" if "k < 4" for k
  proof -
    have "slot p i + of_nat k - p = of_nat (4 * i + k)" by (simp add: slot_def)
    moreover have "unat (of_nat (4 * i + k) :: u32) = 4 * i + k"
      using assms(2) that by (intro unat_of_nat_eq) simp
    ultimately have "unat (slot p i + of_nat k - p) = 4 * i + k" by (simp only:)
    then show ?thesis using assms(2) that by (simp only: in_page_def)
  qed
  from this [of 0] this [of 1] this [of 2] this [of 3] show ?thesis
    by (simp add: load32_def assms(3))
qed

definition same_page :: "u32 \<Rightarrow> u32 \<Rightarrow> bool" where
  "same_page va va' \<longleftrightarrow> drop_bit 12 va = drop_bit 12 va'"

lemma same_page_ix: "same_page va va' \<longleftrightarrow> ix1 va = ix1 va' \<and> ix0 va = ix0 va'"
proof
  have m: "(0x3FF :: u32) = mask 10" by (simp add: mask_eq_exp_minus_1)
  assume "ix1 va = ix1 va' \<and> ix0 va = ix0 va'"
  then have e: "drop_bit 22 va AND mask 10 = drop_bit 22 va' AND mask 10"
    "drop_bit 12 va AND mask 10 = drop_bit 12 va' AND mask 10"
    by (simp_all add: ix1_def ix0_def PX_def m word_unat_eq_iff)
  show "same_page va va'"
    unfolding same_page_def
  proof (rule bit_word_eqI)
    fix n assume "n < LENGTH(32)"
    show "bit (drop_bit 12 va) n = bit (drop_bit 12 va') n"
    proof (cases "n < 10")
      case True
      then show ?thesis using arg_cong [OF e(2), of "\<lambda>x. bit x n"] by (simp add: bit_simps)
    next
      case False
      then show ?thesis
        using arg_cong [OF e(1), of "\<lambda>x. bit x (n - 10)"]
        by (cases "n < 20") (auto simp: bit_simps dest: bit_imp_le_length)
    qed
  qed
next
  assume "same_page va va'"
  then have d: "drop_bit 12 va = drop_bit 12 va'" by (simp add: same_page_def)
  have "drop_bit 22 va = drop_bit 22 va'"
    using arg_cong [OF d, of "drop_bit 10"] by (simp add: drop_bit_drop_bit)
  then show "ix1 va = ix1 va' \<and> ix0 va = ix0 va'"
    using d by (simp add: ix1_def ix0_def PX_def)
qed

subsection \<open>The tree and the map it stands for\<close>

definition l1 :: "mem \<Rightarrow> u32 \<Rightarrow> nat \<Rightarrow> u32" where
  "l1 m pt i = load32 m (slot pt i)"

definition present :: "mem \<Rightarrow> u32 \<Rightarrow> nat \<Rightarrow> bool" where
  "present m pt i \<longleftrightarrow> l1 m pt i AND PTE_V \<noteq> 0"

definition kid :: "mem \<Rightarrow> u32 \<Rightarrow> nat \<Rightarrow> u32" where
  "kid m pt i = PTE2PA (l1 m pt i)"

definition pt_pages :: "mem \<Rightarrow> u32 \<Rightarrow> u32 set" where
  "pt_pages m pt = insert pt {kid m pt i | i. i < 1024 \<and> present m pt i}"

definition pt_wf :: "mem \<Rightarrow> u32 \<Rightarrow> bool" where
  "pt_wf m pt \<longleftrightarrow>
     page_aligned pt \<and> (\<forall>i < 1024. present m pt i \<longrightarrow> kid m pt i \<noteq> pt) \<and>
     (\<forall>i < 1024. present m pt i \<longrightarrow> l1 m pt i AND (PTE_R OR PTE_W OR PTE_X) = 0) \<and>
     (\<forall>i < 1024. \<forall>j < 1024. present m pt i \<longrightarrow> present m pt j \<longrightarrow> kid m pt i = kid m pt j \<longrightarrow> i = j)"

definition leaf :: "mem \<Rightarrow> u32 \<Rightarrow> u32 \<Rightarrow> u32 option" where
  "leaf m pt va =
     (if present m pt (ix1 va) then Some (slot (kid m pt (ix1 va)) (ix0 va)) else None)"

text \<open>The valid leaf entry for the page of \<open>va\<close>, if there is one.\<close>

definition mapping :: "mem \<Rightarrow> u32 \<Rightarrow> u32 \<Rightarrow> u32 option" where
  "mapping m pt va =
     (case leaf m pt va of
        None \<Rightarrow> None
      | Some a \<Rightarrow> if load32 m a AND PTE_V \<noteq> 0 then Some (load32 m a) else None)"

definition vm_inv :: "phys \<Rightarrow> u32 \<Rightarrow> u32 list \<Rightarrow> bool" where
  "vm_inv s pt ps \<longleftrightarrow>
     kinv s ps \<and> pt_wf (pmem s) pt \<and> (\<forall>p \<in> pt_pages (pmem s) pt. page_ok s p) \<and>
     pt_pages (pmem s) pt \<inter> set ps = {}"

lemma pt_pages_aligned: "pt_wf m pt \<Longrightarrow> q \<in> pt_pages m pt \<Longrightarrow> page_aligned q"
  by (auto simp: pt_pages_def pt_wf_def kid_def)

lemma kid_in_pages: "present m pt i \<Longrightarrow> i < 1024 \<Longrightarrow> kid m pt i \<in> pt_pages m pt"
  by (auto simp: pt_pages_def)

lemma root_in_pages [simp]: "pt \<in> pt_pages m pt"
  by (simp add: pt_pages_def)

text \<open>Writes outside the table pages change nothing of the tree.\<close>

lemma tree_frame:
  assumes wf: "pt_wf m pt" and same: "\<And>q a. q \<in> pt_pages m pt \<Longrightarrow> in_page q a \<Longrightarrow> m' a = m a"
  shows "pt_wf m' pt" "pt_pages m' pt = pt_pages m pt" "leaf m' pt = leaf m pt"
    "mapping m' pt = mapping m pt"
proof -
  have al: "page_aligned pt" using wf by (simp add: pt_wf_def)
  have l1: "l1 m' pt i = l1 m pt i" if "i < 1024" for i
    unfolding l1_def by (rule load32_slot_cong) (use al that same [of pt] in auto)
  then have pk: "present m' pt i = present m pt i" "kid m' pt i = kid m pt i" if "i < 1024" for i
    using that by (simp_all add: present_def kid_def)
  show "pt_wf m' pt" using wf pk l1 unfolding pt_wf_def by metis
  show "pt_pages m' pt = pt_pages m pt" 
    using pk unfolding pt_pages_def by (intro arg_cong [where f = "insert pt"] Collect_cong) metis
  show lf: "leaf m' pt = leaf m pt" using pk by (auto simp: leaf_def)
  have "load32 m' a = load32 m a" if "leaf m pt va = Some a" for va a
  proof -
    have a: "a = slot (kid m pt (ix1 va)) (ix0 va)" "present m pt (ix1 va)"
      using that by (auto simp: leaf_def split: if_splits)
    then show ?thesis
      using same kid_in_pages [OF a(2)] unfolding a(1)
      by (intro load32_slot_cong) (auto simp: kid_def)
  qed
  then show "mapping m' pt = mapping m pt"
    unfolding mapping_def lf by (auto simp: fun_eq_iff split: option.split)
qed

text \<open>A write to a leaf entry changes the map at that page only.\<close>

lemma store_leaf:
  assumes wf: "pt_wf m pt" and lf: "leaf m pt va = Some a"
  shows "pt_wf (store32 m a v) pt" "pt_pages (store32 m a v) pt = pt_pages m pt"
    "leaf (store32 m a v) pt = leaf m pt"
    "mapping (store32 m a v) pt va' =
       (if same_page va va' then (if v AND PTE_V \<noteq> 0 then Some v else None) else mapping m pt va')"
proof -
  let ?m = "store32 m a v"
  have a: "a = slot (kid m pt (ix1 va)) (ix0 va)" and p: "present m pt (ix1 va)"
    using lf by (auto simp: leaf_def split: if_splits)
  have al: "page_aligned pt" "page_aligned (kid m pt i)" for i
    using wf by (simp_all add: pt_wf_def kid_def)
  have ne: "kid m pt (ix1 va) \<noteq> pt" using wf p by (simp add: pt_wf_def)
  have l1: "l1 ?m pt i = l1 m pt i" if "i < 1024" for i
    unfolding l1_def a
    using load32_store32_aligned [OF aligned4_slot aligned4_slot] slot_pages_differ al ne that
    by (metis ix_less(2))
  then have pk: "present ?m pt i = present m pt i" "kid ?m pt i = kid m pt i" if "i < 1024" for i
    using that by (simp_all add: present_def kid_def)
  show "pt_wf ?m pt" using wf pk l1 unfolding pt_wf_def by metis
  show "pt_pages ?m pt = pt_pages m pt" 
    using pk unfolding pt_pages_def by (intro arg_cong [where f = "insert pt"] Collect_cong) metis
  show lf': "leaf ?m pt = leaf m pt" using pk by (auto simp: leaf_def)
  have "load32 ?m a' = (if same_page va va' then v else load32 m a')"
    if "leaf m pt va' = Some a'" for a'
  proof -
    have a': "a' = slot (kid m pt (ix1 va')) (ix0 va')" and p': "present m pt (ix1 va')"
      using that by (auto simp: leaf_def split: if_splits)
    have "a = a' \<longleftrightarrow> same_page va va'"
    proof
      assume "a = a'"
      then have "kid m pt (ix1 va) = kid m pt (ix1 va')"
        using slot_pages_differ al unfolding a a' by (metis ix_less(2))
      then have "ix1 va = ix1 va'" using wf p p' by (simp add: pt_wf_def)
      moreover then have "ix0 va = ix0 va'"
        using \<open>a = a'\<close> slot_inj unfolding a a' by (metis ix_less(2))
      ultimately show "same_page va va'" by (simp add: same_page_ix)
    qed (simp add: a a' same_page_ix)
    then show ?thesis
      using load32_store32_aligned [OF aligned4_slot aligned4_slot] al
      unfolding a a' by (metis ix_less(2))
  qed
  moreover have "leaf m pt va' = Some a" if "same_page va va'"
    using that a p by (simp add: leaf_def same_page_ix)
  ultimately show "mapping ?m pt va' =
       (if same_page va va' then (if v AND PTE_V \<noteq> 0 then Some v else None) else mapping m pt va')"
    unfolding mapping_def lf' by (auto split: option.split)
qed

subsection \<open>walk\<close>

lemma slot_nonzero:
  assumes "kinv s ps" "page_ok s p" "i < 1024"
  shows "slot p i \<noteq> 0"
proof -
  have "KERNBASE \<le> p" using assms(1,2) by (auto simp: kinv_def page_ok_def)
  then have "0 < unat p" by (simp add: layout_defs word_le_nat_alt)
  then have "0 < unat (slot p i)" using assms by (simp add: unat_slot page_ok_def)
  then show ?thesis by auto
qed

lemma leaf_nonzero: "vm_inv s pt ps \<Longrightarrow> leaf (pmem s) pt va = Some a \<Longrightarrow> a \<noteq> 0"
  using slot_nonzero kid_in_pages unfolding vm_inv_def leaf_def
  by (metis ix_less option.distinct(1) option.inject)

lemma walk_lookup:
  "walk pt va False s = Ok (case leaf (pmem s) pt va of None \<Rightarrow> 0 | Some a \<Rightarrow> a, s)"
proof -
  have "\<not> MAXVA < va" by (simp add: MAXVA_def word_less_nat_alt linorder_not_less)
  then show ?thesis
    by (simp add: walk_def Let_def leaf_def present_def kid_def l1_def pte_addr_slot pte_addr_slot1)
qed

text \<open>
  With \<open>alloc\<close>, \<open>walk\<close> returns the leaf slot, adding a table page from the free list if
  need be; it returns 0 only when it needs a page and none is free, and then nothing has
  changed. The map stays as it was.
\<close>

lemma walk_alloc:
  assumes inv: "vm_inv s pt ps"
  shows "(leaf (pmem s) pt va = None \<and> ps = [] \<and> walk pt va True s = Ok (0, s)) \<or>
    (\<exists>a s' ps'. walk pt va True s = Ok (a, s') \<and> vm_inv s' pt ps' \<and> a \<noteq> 0 \<and>
       leaf (pmem s') pt va = Some a \<and> mapping (pmem s') pt = mapping (pmem s) pt \<and>
       kend s' = kend s \<and> set ps' \<subseteq> set ps \<and> length ps \<le> Suc (length ps') \<and>
       pt_pages (pmem s') pt - pt_pages (pmem s) pt = set ps - set ps' \<and>
       pt_pages (pmem s) pt \<subseteq> pt_pages (pmem s') pt \<and>
       (\<forall>x. (\<forall>q \<in> pt_pages (pmem s') pt. \<not> in_page q x) \<longrightarrow> pmem s' x = pmem s x))"
proof -
  have maxva: "\<not> MAXVA < va" by (simp add: MAXVA_def word_less_nat_alt linorder_not_less)
  show ?thesis
  proof (cases "present (pmem s) pt (ix1 va)")
    case True
    then have "walk pt va True s = Ok (slot (kid (pmem s) pt (ix1 va)) (ix0 va), s)"
      using maxva by (simp add: walk_def Let_def present_def kid_def l1_def pte_addr_slot pte_addr_slot1)
    moreover have lf: "leaf (pmem s) pt va = Some (slot (kid (pmem s) pt (ix1 va)) (ix0 va))"
      using True by (simp add: leaf_def)
    moreover have "length ps \<le> Suc (length ps)" by simp
    ultimately show ?thesis using inv leaf_nonzero [OF inv lf] by blast
  next
    case absent: False
    then have lfN: "leaf (pmem s) pt va = None" by (simp add: leaf_def)
    have kinv: "kinv s ps" and wf: "pt_wf (pmem s) pt" using inv by (simp_all add: vm_inv_def)
    have walk_eq: "walk pt va True s = (case kalloc s of (p, s) \<Rightarrow>
        if p = 0 then Ok (0, s)
        else Ok (slot p (ix0 va),
          s\<lparr>pmem := store32 (memset (pmem s) p 0 PGSIZE) (slot pt (ix1 va)) (PA2PTE p OR PTE_V)\<rparr>))"
      using absent maxva
      by (simp add: walk_def Let_def present_def l1_def pte_addr_slot pte_addr_slot1 split: prod.split)
    show ?thesis
    proof (cases ps)
      case Nil
      then show ?thesis using walk_eq lfN kalloc_empty kinv by simp
    next
      case (Cons p ps')
      obtain s1 where s1: "kalloc s = (p, s1)" "kinv s1 ps'" "same_outside p s s1" "page_ok s1 p"
        "p \<noteq> 0" "p \<notin> set ps'"
        using kalloc_ok kinv unfolding Cons by blast
      let ?m1 = "memset (pmem s1) p 0 PGSIZE"
      let ?e = "PA2PTE p OR PTE_V"
      let ?m = "store32 ?m1 (slot pt (ix1 va)) ?e"
      let ?s = "s1\<lparr>pmem := ?m\<rparr>"
      have pal: "page_aligned p" and ptal: "page_aligned pt"
        using s1(4) wf by (simp_all add: page_ok_def pt_wf_def)
      have pt_ne: "p \<notin> pt_pages (pmem s) pt" using inv Cons by (auto simp: vm_inv_def)
      then have "p \<noteq> pt" by auto
      have m1: "?m1 a = pmem s a" if "\<not> in_page p a" for a
        using that s1(3) by (simp add: memset_page fill_other_page same_outside_def)
      have frame1: "?m1 a = pmem s a" if "q \<in> pt_pages (pmem s) pt" "in_page q a" for q a
        using that m1 pages_disjoint [OF pt_pages_aligned [OF wf that(1)] pal] pt_ne by metis
      note tf = tree_frame [OF wf frame1]
      have l1_other: "l1 ?m pt i = l1 (pmem s) pt i" if "i < 1024" "i \<noteq> ix1 va" for i
      proof -
        have "slot pt (ix1 va) \<noteq> slot pt i" using slot_inj that by (metis ix_less(1))
        then have "l1 ?m pt i = l1 ?m1 pt i"
          unfolding l1_def using ptal that by (simp add: load32_store32_aligned aligned4_slot)
        also have "\<dots> = l1 (pmem s) pt i"
          unfolding l1_def using ptal that frame1 [OF root_in_pages]
          by (intro load32_slot_cong) auto
        finally show ?thesis .
      qed
      have l1_new: "l1 ?m pt (ix1 va) = ?e" by (simp add: l1_def)
      have new: "present ?m pt (ix1 va)" "kid ?m pt (ix1 va) = p"
        using l1_new pal by (simp_all add: present_def kid_def PTE2PA_link)
      have pk: "present ?m pt i = present (pmem s) pt i" "kid ?m pt i = kid (pmem s) pt i"
        if "i < 1024" "i \<noteq> ix1 va" for i
        using l1_other [OF that] by (simp_all add: present_def kid_def)
      have kid_ne: "kid (pmem s) pt i \<noteq> p" if "i < 1024" "present (pmem s) pt i" for i
        using pt_ne kid_in_pages that by metis
      have wf': "pt_wf ?m pt"
        using wf new pk kid_ne \<open>p \<noteq> pt\<close> absent l1_other l1_new link_flags unfolding pt_wf_def by metis
      have pages': "pt_pages ?m pt = insert p (pt_pages (pmem s) pt)"
        using new pk absent unfolding pt_pages_def by (auto; metis ix_less(1))
      have leaf_va: "leaf ?m pt va = Some (slot p (ix0 va))" using new by (simp add: leaf_def)
      have zero: "load32 ?m (slot p j) = 0" if "j < 1024" for j
      proof -
        have "slot pt (ix1 va) \<noteq> slot p j"
          using slot_pages_differ ptal pal \<open>p \<noteq> pt\<close> that by (metis ix_less(1))
        then have "load32 ?m (slot p j) = load32 ?m1 (slot p j)"
          using that ptal pal by (simp add: load32_store32_aligned aligned4_slot)
        also have "\<dots> = load32 (\<lambda>_. 0) (slot p j)"
          by (rule load32_slot_cong [OF pal that]) (simp add: memset_page fill_in in_page_def)
        finally show ?thesis by (simp add: load32_def of_le32_def)
      qed
      have map': "mapping ?m pt va' = mapping (pmem s) pt va'" for va'
      proof (cases "ix1 va' = ix1 va")
        case True
        then have "leaf (pmem s) pt va' = None" "leaf ?m pt va' = Some (slot p (ix0 va'))"
          using absent new by (simp_all add: leaf_def)
        then show ?thesis by (simp add: mapping_def zero)
      next
        case False
        then have lf: "leaf ?m pt va' = leaf (pmem s) pt va'" using pk by (simp add: leaf_def)
        have "load32 ?m a = load32 (pmem s) a" if "leaf (pmem s) pt va' = Some a" for a
        proof -
          have a: "a = slot (kid (pmem s) pt (ix1 va')) (ix0 va')"
            and p': "present (pmem s) pt (ix1 va')"
            using that by (auto simp: leaf_def split: if_splits)
          let ?k = "kid (pmem s) pt (ix1 va')"
          have k: "page_aligned ?k" "?k \<noteq> pt" using wf p' by (simp_all add: pt_wf_def kid_def)
          then have "slot pt (ix1 va) \<noteq> a" unfolding a using slot_pages_differ ptal by (metis ix_less)
          then have "load32 ?m a = load32 ?m1 a"
            unfolding a using k ptal by (simp add: load32_store32_aligned aligned4_slot)
          also have "\<dots> = load32 (pmem s) a"
            unfolding a using frame1 kid_in_pages [OF p']
            by (intro load32_slot_cong [OF k(1)]) auto
          finally show ?thesis .
        qed
        then show ?thesis unfolding mapping_def lf by (auto split: option.split)
      qed
      have out: "?m x = pmem s x" if "\<forall>q \<in> pt_pages ?m pt. \<not> in_page q x" for x
      proof -
        have "\<not> in_page p x" "\<not> in_page pt x" using that pages' by auto
        moreover have "4 \<le> unat (x - slot pt (ix1 va))"
          using slot_bytes_in_page [OF ix_less(1)] \<open>\<not> in_page pt x\<close> not_less by blast
        ultimately show ?thesis using m1 by (simp add: store32_other)
      qed
      have chain: "free_chain ?m (freelist s1) ps' = free_chain (pmem s1) (freelist s1) ps'"
      proof (rule free_chain_cong)
        fix f assume f: "f \<in> set ps'"
        then have "page_aligned f" "f \<noteq> p" "f \<notin> pt_pages (pmem s) pt"
          using s1(2,6) inv Cons by (auto simp: kinv_def page_ok_def vm_inv_def)
        then have fp: "page_aligned f" "f \<notin> pt_pages ?m pt" using pages' by auto
        show "load32 ?m f = load32 (pmem s1) f"
        proof (rule load32_cong_page [of f])
          fix a assume a: "in_page f a"
          have "\<forall>q \<in> pt_pages ?m pt. \<not> in_page q a"
            using fp pages_disjoint a pt_pages_aligned [OF wf'] by metis
          then have "?m a = pmem s a" by (rule out)
          moreover have "\<not> in_page p a" using pages_disjoint fp(1) pal \<open>f \<noteq> p\<close> a by metis
          ultimately show "?m a = pmem s1 a" using s1(3) by (simp add: same_outside_def)
        qed
      qed
      then have kinv': "kinv ?s ps'" using s1(2) by (simp add: kinv_def page_ok_def)
      have inv': "vm_inv ?s pt ps'"
        using kinv' wf' inv s1(3,4,6) Cons
        by (auto simp: vm_inv_def pages' page_ok_def same_outside_def)
      have "walk pt va True s = Ok (slot p (ix0 va), ?s)"
        using walk_eq s1 by simp
      moreover have "slot p (ix0 va) \<noteq> 0"
        using slot_nonzero [OF s1(2,4)] by simp
      ultimately show ?thesis
        using inv' leaf_va map' out pages' s1(3,6) Cons pt_ne
        by (intro disjI2 exI [of _ "slot p (ix0 va)"] exI [of _ ?s] exI [of _ ps'])
           (auto simp: fun_eq_iff same_outside_def)
    qed
  qed
qed

end
