(* ===== verification/Vm_Space.thy ===== *)
theory Vm_Space
  imports Vm_Tables
begin

text \<open>
  What the operations of \<open>vm.c\<close> do to the map of a page table and to user memory:
  \<open>mappages\<close> adds exactly the pages of its range, \<open>copyout\<close> and \<open>copyin\<close> are a write and
  a read of user memory as a partial function of virtual addresses.
\<close>

subsection \<open>Growing a table\<close>

definition vm_ext :: "u32 \<Rightarrow> phys \<Rightarrow> u32 list \<Rightarrow> phys \<Rightarrow> u32 list \<Rightarrow> bool" where
  "vm_ext pt s ps s' ps' \<longleftrightarrow>
     vm_inv s' pt ps' \<and> kend s' = kend s \<and> set ps' \<subseteq> set ps \<and>
     pt_pages (pmem s) pt \<subseteq> pt_pages (pmem s') pt \<and>
     pt_pages (pmem s') pt - pt_pages (pmem s) pt = set ps - set ps' \<and>
     (\<forall>x. (\<forall>q \<in> pt_pages (pmem s') pt. \<not> in_page q x) \<longrightarrow> pmem s' x = pmem s x)"

lemma vm_ext_refl: "vm_inv s pt ps \<Longrightarrow> vm_ext pt s ps s ps"
  by (simp add: vm_ext_def)

lemma vm_ext_trans:
  assumes inv: "vm_inv s0 pt p0" and 1: "vm_ext pt s0 p0 s1 p1" and 2: "vm_ext pt s1 p1 s2 p2"
  shows "vm_ext pt s0 p0 s2 p2"
proof -
  let ?P = "\<lambda>s. pt_pages (pmem s) pt"
  have d: "?P s0 \<inter> set p0 = {}" "?P s1 \<inter> set p1 = {}" "?P s2 \<inter> set p2 = {}"
    using inv 1 2 by (simp_all add: vm_ext_def vm_inv_def)
  have "pmem s2 x = pmem s0 x" if "\<forall>q \<in> ?P s2. \<not> in_page q x" for x
    using that 1 2 by (metis vm_ext_def subsetD)
  moreover have "?P s2 - ?P s0 = set p0 - set p2"
    using 1 2 d unfolding vm_ext_def by blast
  ultimately show ?thesis using 1 2 unfolding vm_ext_def by auto
qed

lemma walk_alloc_ext:
  assumes inv: "vm_inv s pt ps"
  obtains (full) "leaf (pmem s) pt va = None" "ps = []" "walk pt va True s = Ok (0, s)"
  | (found) a s' ps' where "walk pt va True s = Ok (a, s')" "vm_ext pt s ps s' ps'" "a \<noteq> 0"
      "leaf (pmem s') pt va = Some a" "mapping (pmem s') pt = mapping (pmem s) pt" "length ps \<le> Suc (length ps')"
  using walk_alloc [OF inv, of va] unfolding vm_ext_def by (elim disjE exE conjE) blast+

lemma leaf_in_page:
  assumes "leaf m pt va = Some a" "unat (x - a) < 4"
  shows "\<exists>q \<in> pt_pages m pt. in_page q x"
proof -
  have a: "a = slot (kid m pt (ix1 va)) (ix0 va)" and p: "present m pt (ix1 va)"
    using assms(1) by (auto simp: leaf_def split: if_splits)
  have "in_page (kid m pt (ix1 va)) x"
    using slot_bytes_in_page assms(2) ix_less(2) unfolding a by blast
  then show ?thesis using kid_in_pages [OF p] ix_less(1) by blast
qed

lemma store_leaf_ext:
  assumes inv: "vm_inv s pt ps" and lf: "leaf (pmem s) pt va = Some a"
  shows "vm_ext pt s ps (s\<lparr>pmem := store32 (pmem s) a v\<rparr>) ps"
proof -
  let ?m = "store32 (pmem s) a v"
  have wf: "pt_wf (pmem s) pt" using inv by (simp add: vm_inv_def)
  note st = store_leaf [OF wf lf]
  have out: "?m x = pmem s x" if "\<forall>q \<in> pt_pages (pmem s) pt. \<not> in_page q x" for x
    using leaf_in_page [OF lf, of x] that not_less by (metis store32_other)
  have chain: "free_chain ?m (freelist s) ps = free_chain (pmem s) (freelist s) ps"
  proof (rule free_chain_cong)
    fix f assume f: "f \<in> set ps"
    then have fp: "page_aligned f" "f \<notin> pt_pages (pmem s) pt"
      using inv by (auto simp: vm_inv_def kinv_def page_ok_def)
    show "load32 ?m f = load32 (pmem s) f"
      by (rule load32_cong_page, rule out)
         (metis fp pages_disjoint pt_pages_aligned [OF wf])
  qed
  have "vm_inv (s\<lparr>pmem := ?m\<rparr>) pt ps"
    using inv st(1,2) chain by (simp add: vm_inv_def kinv_def page_ok_def)
  then show ?thesis using st(2) out by (simp add: vm_ext_def)
qed

subsection \<open>mappages\<close>

definition in_range :: "u32 \<Rightarrow> nat \<Rightarrow> u32 \<Rightarrow> bool" where
  "in_range a k v \<longleftrightarrow> unat a \<le> unat (PGROUNDDOWN v) \<and> unat (PGROUNDDOWN v) < unat a + 4096 * k"

definition map_range ::
  "u32 \<Rightarrow> nat \<Rightarrow> u32 \<Rightarrow> u32 \<Rightarrow> (u32 \<Rightarrow> u32 option) \<Rightarrow> u32 \<Rightarrow> u32 option" where
  "map_range a k pa perm f v =
     (if in_range a k v then Some (PA2PTE (pa + (PGROUNDDOWN v - a)) OR perm OR PTE_V) else f v)"

lemma same_page_PGROUNDDOWN: "same_page a v \<longleftrightarrow> PGROUNDDOWN a = PGROUNDDOWN v"
proof
  assume "PGROUNDDOWN a = PGROUNDDOWN v"
  then have "drop_bit 12 (push_bit 12 (drop_bit 12 a)) = drop_bit 12 (push_bit 12 (drop_bit 12 v))"
    by (simp add: PGROUNDDOWN_def and_not_page_mask)
  moreover have "drop_bit 12 (push_bit 12 (drop_bit 12 x)) = drop_bit 12 x" for x :: u32
    by (rule bit_word_eqI) (auto simp: bit_simps dest: bit_imp_le_length)
  ultimately show "same_page a v" by (simp add: same_page_def)
qed (simp add: same_page_def PGROUNDDOWN_def and_not_page_mask)

lemma dvd_between:
  fixes a b k :: nat
  assumes "k dvd a" "k dvd b" "a \<le> b" "b < a + k"
  shows "a = b"
proof -
  have "k dvd (b - a)" using assms by (simp add: dvd_diff_nat)
  moreover have "b - a < k" using assms by linarith
  ultimately have "b - a = 0" using nat_dvd_not_less by blast
  then show ?thesis using assms(3) by simp
qed

lemma page_aligned_PG [simp]: "page_aligned (PGROUNDDOWN v)"
  by (rule page_aligned_PGROUNDDOWN)

lemma in_range_1: "page_aligned a \<Longrightarrow> in_range a (Suc 0) v \<longleftrightarrow> same_page a v"
  using dvd_between [of 4096 "unat a" "unat (PGROUNDDOWN v)"] page_aligned_PG [of v]
  by (auto simp: in_range_def same_page_PGROUNDDOWN PGROUNDDOWN_aligned page_aligned_def word_unat_eq_iff)

lemma in_range_0 [simp]: "\<not> in_range a 0 v"
  by (simp add: in_range_def)

lemma in_range_Suc:
  assumes "page_aligned a" "unat a + 4096 < 2 ^ 32"
  shows "in_range a (Suc k) v \<longleftrightarrow> same_page a v \<or> in_range (a + PGSIZE) k v"
proof -
  have "unat (a + PGSIZE) = unat a + 4096"
    using assms(2) by (simp add: unat_add_u32 PGSIZE_def)
  then show ?thesis
    using in_range_1 [OF assms(1), of v] by (auto simp: in_range_def)
qed

lemma map_range_Suc:
  assumes "page_aligned a" "unat a + 4096 < 2 ^ 32"
  shows "map_range a (Suc k) pa perm f =
           map_range (a + PGSIZE) k (pa + PGSIZE) perm (map_range a (Suc 0) pa perm f)"
proof
  fix v
  have "pa + PGSIZE + (PGROUNDDOWN v - (a + PGSIZE)) = pa + (PGROUNDDOWN v - a)" by simp
  then show "map_range a (Suc k) pa perm f v =
      map_range (a + PGSIZE) k (pa + PGSIZE) perm (map_range a (Suc 0) pa perm f) v"
    using in_range_Suc [OF assms, of k v] in_range_1 [OF assms(1), of v]
    by (simp add: map_range_def)
qed

lemma mappages_loop_spec:
  assumes "vm_inv s pt ps" "page_aligned a" "unat la = unat a + 4096 * k" "k < n"
    "\<And>v. in_range a (Suc k) v \<Longrightarrow> mapping (pmem s) pt v = None"
  shows "\<exists>r s' ps'. mappages_loop n pt a la pa perm s = Ok (r, s') \<and> vm_ext pt s ps s' ps' \<and>
    (r = 0 \<and> length ps \<le> Suc k + length ps' \<and> mapping (pmem s') pt = map_range a (Suc k) pa perm (mapping (pmem s) pt) \<or>
     r = -1 \<and> ps' = [] \<and>
       (\<exists>j \<le> k. length ps \<le> j \<and> mapping (pmem s') pt = map_range a j pa perm (mapping (pmem s) pt)))"
  using assms
proof (induction n arbitrary: s ps a pa k)
  case (Suc n)
  note inv = Suc.prems(1) and al = Suc.prems(2) and la = Suc.prems(3) and un = Suc.prems(5)
  from inv show ?case
  proof (cases rule: walk_alloc_ext [where va = a])
    case full
    have "map_range a 0 pa perm f = f" for f by (auto simp: map_range_def)
    then show ?thesis using full vm_ext_refl [OF inv] by (auto intro!: exI [of _ 0])
  next
    case (found x s1 ps1)
    have inv1: "vm_inv s1 pt ps1" using found by (simp add: vm_ext_def)
    have "mapping (pmem s1) pt a = None"
      using un [of a] in_range_def [of a "Suc k" a] found(5) by (simp add: PGROUNDDOWN_aligned al)
    then have nv: "load32 (pmem s1) x AND PTE_V = 0"
      using found(4) by (simp add: mapping_def split: if_splits)
    let ?v = "PA2PTE pa OR perm OR PTE_V"
    let ?s2 = "s1\<lparr>pmem := store32 (pmem s1) x ?v\<rparr>"
    have ext2: "vm_ext pt s ps ?s2 ps1"
      using vm_ext_trans [OF inv found(2) store_leaf_ext [OF inv1 found(4)]] .
    have map2: "mapping (pmem ?s2) pt = map_range a (Suc 0) pa perm (mapping (pmem s) pt)"
    proof
      fix v
      have "PGROUNDDOWN v - a = 0" if "same_page a v"
        using that al by (simp add: same_page_PGROUNDDOWN PGROUNDDOWN_aligned)
      then show "mapping (pmem ?s2) pt v = map_range a (Suc 0) pa perm (mapping (pmem s) pt) v"
        using store_leaf(4) [OF _ found(4), of ?v v] inv1 found(5)
        by (auto simp: vm_inv_def map_range_def in_range_1 [OF al])
    qed
    have step: "mappages_loop (Suc n) pt a la pa perm s =
        (if a = la then Ok (0, ?s2) else mappages_loop n pt (a + PGSIZE) la (pa + PGSIZE) perm ?s2)"
      using found nv by simp
    show ?thesis
    proof (cases k)
      case 0
      then have "a = la" using la by (simp add: word_unat_eq_iff)
      then show ?thesis using step ext2 map2 0 found(6) by auto
    next
      case (Suc k')
      have b: "unat a + 4096 < 2 ^ 32" using la Suc unat_u32_lt [of la] by linarith
      then have a': "unat (a + PGSIZE) = unat a + 4096" by (simp add: unat_add_u32 PGSIZE_def)
      have "a \<noteq> la" using la Suc by auto
      have al': "page_aligned (a + PGSIZE)" using al a' by (simp add: page_aligned_def)
      have un': "mapping (pmem ?s2) pt v = None" if "in_range (a + PGSIZE) (Suc k') v" for v
      proof -
        have "in_range a (Suc k) v" "\<not> same_page a v"
          using that a' Suc al
          by (auto simp: in_range_def same_page_PGROUNDDOWN PGROUNDDOWN_aligned)
        then show ?thesis using un map2 in_range_1 [OF al] by (simp add: map_range_def)
      qed
      have "vm_inv ?s2 pt ps1" using ext2 by (simp add: vm_ext_def)
      moreover have "unat la = unat (a + PGSIZE) + 4096 * k'" using la Suc a' by simp
      ultimately obtain r s' ps' where
        r: "mappages_loop n pt (a + PGSIZE) la (pa + PGSIZE) perm ?s2 = Ok (r, s')"
          "vm_ext pt ?s2 ps1 s' ps'"
          "r = 0 \<and> length ps1 \<le> Suc k' + length ps' \<and> mapping (pmem s') pt =
             map_range (a + PGSIZE) (Suc k') (pa + PGSIZE) perm (mapping (pmem ?s2) pt) \<or>
           r = -1 \<and> ps' = [] \<and> (\<exists>j \<le> k'. length ps1 \<le> j \<and> mapping (pmem s') pt =
             map_range (a + PGSIZE) j (pa + PGSIZE) perm (mapping (pmem ?s2) pt))"
        using Suc.IH [of ?s2 ps1 "a + PGSIZE" k' "pa + PGSIZE"] al' un' Suc.prems(4) Suc by auto
      have "vm_ext pt s ps s' ps'" using vm_ext_trans [OF inv ext2 r(2)] .
      moreover have "r = 0 \<and> length ps \<le> Suc k + length ps' \<and> mapping (pmem s') pt = map_range a (Suc k) pa perm (mapping (pmem s) pt) \<or>
          r = -1 \<and> ps' = [] \<and>
            (\<exists>j \<le> k. length ps \<le> j \<and> mapping (pmem s') pt = map_range a j pa perm (mapping (pmem s) pt))"
        using r(3)
      proof (elim disjE conjE exE)
        fix j assume "r = -1" "ps' = []" "j \<le> k'" "length ps1 \<le> j"
          "mapping (pmem s') pt = map_range (a + PGSIZE) j (pa + PGSIZE) perm (mapping (pmem ?s2) pt)"
        then show ?thesis
          using found(6) unfolding map2 map_range_Suc [OF al b, symmetric] Suc
          by (intro disjI2 conjI exI [of _ "Suc j"]) simp_all
      next
        assume "r = 0" "length ps1 \<le> Suc k' + length ps'"
          "mapping (pmem s') pt = map_range (a + PGSIZE) (Suc k') (pa + PGSIZE) perm (mapping (pmem ?s2) pt)"
        then show ?thesis
          using found(6) unfolding map2 map_range_Suc [OF al b, symmetric] Suc by simp
      qed
      ultimately show ?thesis using step r(1) \<open>a \<noteq> la\<close> by auto
    qed
  qed
qed simp

subsection \<open>User memory\<close>

text \<open>
  The byte a user access to \<open>va\<close> sees. \<open>space_inv s pt ps B\<close>: every page mapped below the
  bound \<open>B\<close> belongs to this address space alone, and only such pages are user-accessible.
\<close>

definition user_entry :: "mem \<Rightarrow> u32 \<Rightarrow> u32 \<Rightarrow> u32 option" where
  "user_entry m pt va =
     (case mapping m pt va of
        None \<Rightarrow> None
      | Some e \<Rightarrow> if e AND PTE_U \<noteq> 0 then Some e else None)"

definition user_byte :: "mem \<Rightarrow> u32 \<Rightarrow> u32 \<Rightarrow> u8 option" where
  "user_byte m pt va = map_option (\<lambda>e. m (PTE2PA e + (va - PGROUNDDOWN va))) (user_entry m pt va)"

definition space_inv :: "phys \<Rightarrow> u32 \<Rightarrow> u32 list \<Rightarrow> nat \<Rightarrow> bool" where
  "space_inv s pt ps B \<longleftrightarrow>
     vm_inv s pt ps \<and>
     (\<forall>va e. unat va < B \<longrightarrow> mapping (pmem s) pt va = Some e \<longrightarrow>
        page_ok s (PTE2PA e) \<and> PTE2PA e \<notin> pt_pages (pmem s) pt \<and> PTE2PA e \<notin> set ps \<and>
        PTE_FLAGS e \<noteq> PTE_V) \<and>
     (\<forall>va va' e e'. unat va < B \<longrightarrow> unat va' < B \<longrightarrow> mapping (pmem s) pt va = Some e \<longrightarrow>
        mapping (pmem s) pt va' = Some e' \<longrightarrow> PTE2PA e = PTE2PA e' \<longrightarrow> same_page va va') \<and>
     (\<forall>va e. user_entry (pmem s) pt va = Some e \<longrightarrow> unat va < B)"

definition user_write :: "u32 \<Rightarrow> u8 list \<Rightarrow> (u32 \<Rightarrow> u8 option) \<Rightarrow> u32 \<Rightarrow> u8 option" where
  "user_write va bs f v = (if unat (v - va) < length bs then Some (bs ! unat (v - va)) else f v)"

lemma user_entry_mapping: "user_entry m pt va = Some e \<Longrightarrow> mapping m pt va = Some e"
  by (auto simp: user_entry_def split: option.splits if_splits)

lemma in_page_PGROUNDDOWN: "in_page (PGROUNDDOWN v) v"
  by (simp add: in_page_def page_offset_less)

lemma same_page_near:
  assumes "unat (v - va) < k" "unat (va - PGROUNDDOWN va) + k \<le> 4096"
  shows "same_page va v"
proof -
  have b: "unat (v - va) + unat (va - PGROUNDDOWN va) < 4096" using assms by linarith
  have "unat ((v - va) + (va - PGROUNDDOWN va)) = unat (v - va) + unat (va - PGROUNDDOWN va)"
    by (rule unat_add_u32) (use b in simp)
  then have "in_page (PGROUNDDOWN va) v" using b by (simp add: in_page_def)
  then show ?thesis
    using pages_disjoint in_page_PGROUNDDOWN [of v] page_aligned_PG same_page_PGROUNDDOWN by metis
qed

lemma in_page_plus: "unat off < 4096 \<Longrightarrow> in_page p (p + off)"
  by (simp add: in_page_def)

lemma put_bytes_out: "\<not> unat (x - a) < length bs \<Longrightarrow> put_bytes m a bs x = m x"
  by (simp add: put_bytes_def fill_out)

lemma put_bytes_in: "unat (x - a) < length bs \<Longrightarrow> put_bytes m a bs x = bs ! unat (x - a)"
  by (simp add: put_bytes_def fill_in)

lemma put_bytes_other_page:
  assumes "unat off + length bs \<le> 4096" "\<not> in_page p x"
  shows "put_bytes m (p + off) bs x = m x"
proof (rule put_bytes_out, rule notI)
  assume l: "unat (x - (p + off)) < length bs"
  have "unat ((x - (p + off)) + off) = unat (x - (p + off)) + unat off"
    by (rule unat_add_u32) (use l assms(1) in simp)
  then have "in_page p x" using l assms(1) by (simp add: in_page_def)
  with assms(2) show False by simp
qed

text \<open>A change confined to one page of the space leaves tables and free list alone.\<close>

lemma own_page_frame:
  assumes inv: "vm_inv s pt ps" and out: "\<And>x. \<not> in_page p x \<Longrightarrow> m' x = pmem s x"
    and p: "page_aligned p" "p \<notin> pt_pages (pmem s) pt" "p \<notin> set ps"
  shows "vm_inv (s\<lparr>pmem := m'\<rparr>) pt ps" "mapping m' pt = mapping (pmem s) pt"
    "pt_pages m' pt = pt_pages (pmem s) pt"
proof -
  have wf: "pt_wf (pmem s) pt" using inv by (simp add: vm_inv_def)
  have same: "m' a = pmem s a" if "q \<in> pt_pages (pmem s) pt" "in_page q a" for q a
    using out pages_disjoint [OF pt_pages_aligned [OF wf that(1)] p(1)] p(2) that by metis
  note tf = tree_frame [OF wf same]
  have "free_chain m' (freelist s) ps = free_chain (pmem s) (freelist s) ps"
    by (rule free_chain_other_page [where q = p])
       (use out p inv in \<open>auto simp: vm_inv_def kinv_def page_ok_def\<close>)
  then show "vm_inv (s\<lparr>pmem := m'\<rparr>) pt ps"
    using inv tf(1,2) by (simp add: vm_inv_def kinv_def page_ok_def)
  show "mapping m' pt = mapping (pmem s) pt" by (rule tf(4))
  show "pt_pages m' pt = pt_pages (pmem s) pt" by (rule tf(2))
qed

lemma put_user_page:
  assumes inv: "space_inv s pt ps B" and e: "user_entry (pmem s) pt va = Some e"
    and fit: "unat (va - PGROUNDDOWN va) + length bs \<le> 4096"
  defines "m' \<equiv> put_bytes (pmem s) (PTE2PA e + (va - PGROUNDDOWN va)) bs"
  shows "space_inv (s\<lparr>pmem := m'\<rparr>) pt ps B" "user_entry m' pt = user_entry (pmem s) pt"
    "user_byte m' pt = user_write va bs (user_byte (pmem s) pt)"
proof -
  let ?p = "PTE2PA e" and ?o = "va - PGROUNDDOWN va"
  have mp: "mapping (pmem s) pt va = Some e" by (rule user_entry_mapping [OF e])
  have lt: "unat va < B" using inv e by (auto simp: space_inv_def)
  have p: "?p \<notin> pt_pages (pmem s) pt" "?p \<notin> set ps" using inv mp lt by (auto simp: space_inv_def)
  have out: "m' x = pmem s x" if "\<not> in_page ?p x" for x
    using put_bytes_other_page [OF fit that] by (simp add: m'_def)
  have vmi: "vm_inv s pt ps" using inv by (simp add: space_inv_def)
  note fr = own_page_frame [OF vmi out PTE2PA_aligned p]
  show ent: "user_entry m' pt = user_entry (pmem s) pt"
    using fr(2) by (simp add: user_entry_def fun_eq_iff)
  show "space_inv (s\<lparr>pmem := m'\<rparr>) pt ps B"
    using inv fr ent unfolding space_inv_def by (simp add: page_ok_def)
  show "user_byte m' pt = user_write va bs (user_byte (pmem s) pt)"
  proof
    fix v
    show "user_byte m' pt v = user_write va bs (user_byte (pmem s) pt) v"
    proof (cases "same_page va v")
      case True
      then have pg: "PGROUNDDOWN v = PGROUNDDOWN va" by (simp add: same_page_PGROUNDDOWN)
      have "mapping (pmem s) pt v = mapping (pmem s) pt va"
        using True by (simp add: mapping_def leaf_def same_page_ix)
      then have ev: "user_entry (pmem s) pt v = Some e" using e by (simp add: user_entry_def)
      have "PTE2PA e + (v - PGROUNDDOWN v) - (PTE2PA e + (va - PGROUNDDOWN va)) = v - va"
        by (simp add: pg)
      then show ?thesis
        using put_bytes_in [of "PTE2PA e + (v - PGROUNDDOWN v)" "?p + ?o" bs]
          put_bytes_out [of "PTE2PA e + (v - PGROUNDDOWN v)" "?p + ?o" bs]
        by (simp add: user_byte_def user_write_def ent ev) (simp add: m'_def)
    next
      case False
      then have far: "\<not> unat (v - va) < length bs" using same_page_near [OF _ fit] by blast
      show ?thesis
      proof (cases "user_entry (pmem s) pt v")
        case None
        then show ?thesis using far by (simp add: user_byte_def user_write_def ent)
      next
        case (Some e')
        then have "mapping (pmem s) pt v = Some e'" "unat v < B"
          using user_entry_mapping inv by (auto simp: space_inv_def)
        then have "PTE2PA e' \<noteq> ?p" using inv mp lt False by (metis space_inv_def)
        then have "\<not> in_page ?p (PTE2PA e' + (v - PGROUNDDOWN v))"
          using pages_disjoint PTE2PA_aligned in_page_plus [OF page_offset_less] by metis
        then show ?thesis using out Some far by (simp add: user_byte_def user_write_def ent)
      qed
    qed
  qed
qed

subsection \<open>copyout and copyin\<close>

lemma walkaddr_entry:
  assumes "vm_inv s pt ps"
  shows "walkaddr pt va s =
    Ok (case user_entry (pmem s) pt va of None \<Rightarrow> 0 | Some e \<Rightarrow> PTE2PA e)"
proof -
  have "\<not> MAXVA < va" by (simp add: MAXVA_def word_less_nat_alt linorder_not_less)
  then show ?thesis
    using leaf_nonzero [OF assms, of va]
    by (auto simp: walkaddr_def walk_lookup user_entry_def mapping_def Let_def split: option.split)
qed

lemma user_entry_same_page: "same_page va v \<Longrightarrow> user_entry m pt v = user_entry m pt va"
  by (simp add: user_entry_def mapping_def leaf_def same_page_ix)

lemma same_page_floor: "same_page va (PGROUNDDOWN va)"
  by (simp add: same_page_PGROUNDDOWN PGROUNDDOWN_aligned)

lemma user_page_nonzero:
  assumes "space_inv s pt ps B" "user_entry (pmem s) pt va = Some e"
  shows "PTE2PA e \<noteq> 0"
  using assms user_entry_mapping page_ok_nonzero
  unfolding space_inv_def vm_inv_def kinv_def by metis

lemma user_write_append:
  assumes "length xs + length ys \<le> 2 ^ 32"
  shows "user_write (va + of_nat (length xs)) ys (user_write va xs f) = user_write va (xs @ ys) f"
proof
  fix v
  let ?n = "length xs"
  show "user_write (va + of_nat ?n) ys (user_write va xs f) v = user_write va (xs @ ys) f v"
  proof (cases "ys = []")
    case False
    then have n: "unat (of_nat ?n :: u32) = ?n" using assms by (cases ys) simp_all
    have e: "v - (va + of_nat ?n) = (v - va) - of_nat ?n" by simp
    have "unat (v - (va + of_nat ?n)) =
        (if ?n \<le> unat (v - va) then unat (v - va) - ?n else 2 ^ 32 + unat (v - va) - ?n)"
      unfolding e unat_sub_eq word_le_nat_alt n ..
    then show ?thesis
      using assms by (cases "?n \<le> unat (v - va)") (auto simp: user_write_def nth_append)
  qed (simp add: user_write_def)
qed

lemma user_write_Nil [simp]: "user_write va [] f = f"
  by (simp add: user_write_def fun_eq_iff)

text \<open>
  One chunk: the first \<open>n\<close> bytes at \<open>va\<close> lie in its page, and what is left starts at the
  next page.
\<close>

lemma chunk_same_page:
  assumes "i < page_chunk va len" shows "same_page va (va + of_nat i)"
proof (rule same_page_near [of _ _ "Suc i"])
  have "Suc i \<le> 4096 - unat (va - PGROUNDDOWN va)"
    using assms by (simp add: page_chunk_def unat_page_left)
  then show fit: "unat (va - PGROUNDDOWN va) + Suc i \<le> 4096" by linarith
  then show "unat (va + of_nat i - va) < Suc i" by simp
qed

lemma chunk_rest:
  assumes "page_chunk va len < len"
  shows "PGROUNDDOWN va + PGSIZE = va + of_nat (page_chunk va len)"
proof -
  have "page_chunk va len = unat (PGSIZE - (va - PGROUNDDOWN va))"
    using assms by (simp add: page_chunk_def)
  then show ?thesis by simp
qed

lemma chunk_fits: "unat (va - PGROUNDDOWN va) + page_chunk va len \<le> 4096"
  using page_offset_less [of va] by (simp add: page_chunk_def unat_page_left)

lemma floor_va: "PGROUNDDOWN va \<le> va"
  by (simp add: word_le_nat_alt unat_PGROUNDDOWN)

lemma all_less_split:
  assumes "n \<le> (k :: nat)"
  shows "(\<forall>i < k. P i) \<longleftrightarrow> (\<forall>i < n. P i) \<and> (\<forall>i < k - n. P (n + i))"
proof (intro iffI conjI allI impI)
  fix i assume P: "(\<forall>i < n. P i) \<and> (\<forall>i < k - n. P (n + i))" and i: "i < k"
  show "P i"
  proof (cases "i < n")
    case False
    then have "i - n < k - n" "n + (i - n) = i" using i by linarith+
    then show ?thesis using P by metis
  qed (use P in blast)
qed (use assms in auto)

lemma copyout_spec:
  assumes "space_inv s pt ps B" "unat va + length src \<le> 2 ^ 32"
  shows "\<exists>r s' k. copyout pt va src s = Ok (r, s') \<and> space_inv s' pt ps B \<and>
    user_entry (pmem s') pt = user_entry (pmem s) pt \<and>
    user_byte (pmem s') pt = user_write va (take k src) (user_byte (pmem s) pt) \<and>
    (if \<forall>i < length src. user_entry (pmem s) pt (va + of_nat i) \<noteq> None
     then r = 0 \<and> k = length src else r = -1 \<and> k < length src)"
  using assms
proof (induction "length src" arbitrary: va src s rule: less_induct)
  case less
  note inv = less.prems(1)
  have vmi: "vm_inv s pt ps" using inv by (simp add: space_inv_def)
  show ?case
  proof (cases "src = []")
    case True
    then show ?thesis using inv by (simp add: copyout.simps [of pt va])
  next
    case False
    let ?n = "page_chunk va (length src)" and ?va0 = "PGROUNDDOWN va"
    have n: "0 < ?n" "?n \<le> length src" using False by (simp_all add: page_chunk_pos page_chunk_le)
    have entry: "user_entry (pmem s) pt ?va0 = user_entry (pmem s) pt va"
      using user_entry_same_page [OF same_page_floor] .
    show ?thesis
    proof (cases "user_entry (pmem s) pt va")
      case None
      then have "copyout pt va src s = Ok (-1, s)"
        using False by (simp add: copyout.simps [of pt va] walkaddr_entry [OF vmi] entry)
      moreover have "\<not> (\<forall>i < length src. user_entry (pmem s) pt (va + of_nat i) \<noteq> None)"
        using None False by (auto intro!: exI [of _ 0])
      ultimately show ?thesis
        using inv False
        by (intro exI [of _ "-1"] exI [of _ s] exI [of _ 0]) auto
    next
      case (Some e)
      let ?m = "put_bytes (pmem s) (PTE2PA e + (va - ?va0)) (take ?n src)"
      let ?s = "s\<lparr>pmem := ?m\<rparr>" and ?rest = "drop ?n src"
      have fit: "unat (va - ?va0) + length (take ?n src) \<le> 4096" using chunk_fits n(2) by simp
      note put = put_user_page [OF inv Some fit]
      have step: "copyout pt va src s = copyout pt (?va0 + PGSIZE) ?rest ?s"
        using False Some user_page_nonzero [OF inv Some]
        by (subst copyout.simps) (simp add: walkaddr_entry [OF vmi] entry Let_def)
      have mapped: "user_entry (pmem s) pt (va + of_nat i) \<noteq> None" if "i < ?n" for i
        using user_entry_same_page [OF chunk_same_page [OF that]] Some by simp
      show ?thesis
      proof (cases "?n < length src")
        case False
        then have "?rest = []" "take ?n src = src" "?n = length src" using n by auto
        then show ?thesis
          using step put mapped by (simp add: copyout.simps)
      next
        case True
        have va': "?va0 + PGSIZE = va + of_nat ?n" by (rule chunk_rest [OF True])
        have "unat (va + of_nat ?n) = unat va + ?n"
          using True less.prems(2) by (subst unat_add_u32) simp_all
        then have fit': "unat (?va0 + PGSIZE) + length ?rest \<le> 2 ^ 32"
          using True less.prems(2) va' by simp
        have pm: "pmem ?s = ?m" by simp
        have shorter: "length ?rest < length src" using n by simp
        obtain r s' k where IH: "copyout pt (?va0 + PGSIZE) ?rest ?s = Ok (r, s')" "space_inv s' pt ps B"
          "user_entry (pmem s') pt = user_entry ?m pt"
          "user_byte (pmem s') pt = user_write (?va0 + PGSIZE) (take k ?rest) (user_byte ?m pt)"
          "if \<forall>i < length ?rest. user_entry ?m pt (?va0 + PGSIZE + of_nat i) \<noteq> None
           then r = 0 \<and> k = length ?rest else r = -1 \<and> k < length ?rest"
          using less.hyps [OF shorter put(1) fit', unfolded pm] by blast
        have split: "(\<forall>i < length src. P i) \<longleftrightarrow> (\<forall>i < ?n. P i) \<and> (\<forall>i < length ?rest. P (?n + i))" for P
          unfolding length_drop by (rule all_less_split [OF n(2)])
        have all: "(\<forall>i < length ?rest. user_entry ?m pt (?va0 + PGSIZE + of_nat i) \<noteq> None) \<longleftrightarrow>
            (\<forall>i < length src. user_entry (pmem s) pt (va + of_nat i) \<noteq> None)"
          unfolding split put(2) va' using mapped by (simp add: add.assoc)
        have "user_byte (pmem s') pt = user_write va (take (?n + k) src) (user_byte (pmem s) pt)"
          using IH(4) put(3) va' n user_write_append [of "take ?n src" "take k ?rest" va] less.prems(2)
          by (simp add: take_add)
        then show ?thesis
          using step IH(1-3,5) put(2) n(2) True unfolding all
          by (intro exI [of _ r] exI [of _ s'] exI [of _ "?n + k"]) (auto split: if_splits)
      qed
    qed
  qed
qed

lemma upt_shift: "map (\<lambda>i. n + i) [0..<k] = [n..<n + k]"
  by (rule nth_equalityI) auto

lemma copyin_spec:
  assumes "space_inv s pt ps B"
  shows "copyin pt va len s =
    (let bs = takeWhile (\<lambda>x. x \<noteq> None) (map (\<lambda>i. user_byte (pmem s) pt (va + of_nat i)) [0..<len])
     in Ok (if length bs = len then 0 else -1, map the bs))"
proof (induction len arbitrary: va rule: less_induct)
  case (less len)
  have vmi: "vm_inv s pt ps" using assms by (simp add: space_inv_def)
  show ?case
  proof (cases "len = 0")
    case True
    then show ?thesis by (simp add: copyin.simps)
  next
    case False
    let ?n = "page_chunk va len" and ?va0 = "PGROUNDDOWN va" and ?b = "user_byte (pmem s) pt"
    have n: "0 < ?n" "?n \<le> len" using False by (simp_all add: page_chunk_pos page_chunk_le)
    have entry: "user_entry (pmem s) pt ?va0 = user_entry (pmem s) pt va"
      using user_entry_same_page [OF same_page_floor] .
    show ?thesis
    proof (cases "user_entry (pmem s) pt va")
      case None
      have "[0..<len] = 0 # [1..<len]" using False by (simp add: upt_rec)
      moreover have "?b va = None" using None by (simp add: user_byte_def)
      ultimately show ?thesis
        using False None by (simp add: copyin.simps [of pt va] walkaddr_entry [OF vmi] entry)
    next
      case (Some e)
      have byte: "?b (va + of_nat i) = Some (pmem s (PTE2PA e + (va - ?va0) + of_nat i))"
        if "i < ?n" for i
      proof -
        have "PGROUNDDOWN (va + of_nat i) = ?va0"
          using chunk_same_page [OF that] by (simp add: same_page_PGROUNDDOWN)
        moreover have "user_entry (pmem s) pt (va + of_nat i) = Some e"
          using user_entry_same_page [OF chunk_same_page [OF that]] Some by simp
        moreover have "PTE2PA e + (va + of_nat i - ?va0) = PTE2PA e + (va - ?va0) + of_nat i" by simp
        ultimately show ?thesis by (simp only: user_byte_def option.map)
      qed
      have get: "get_bytes (pmem s) (PTE2PA e + (va - ?va0)) ?n = map (\<lambda>i. the (?b (va + of_nat i))) [0..<?n]"
        by (simp add: get_bytes_def byte)
      have step: "copyin pt va len s = seq (copyin pt (?va0 + PGSIZE) (len - ?n) s) (\<lambda>(r, bs).
          Ok (r, get_bytes (pmem s) (PTE2PA e + (va - ?va0)) ?n @ bs))"
        using False Some user_page_nonzero [OF assms Some]
        by (subst copyin.simps) (simp add: walkaddr_entry [OF vmi] entry Let_def)
      let ?f = "\<lambda>i. ?b (va + of_nat i)" and ?rest = "map (\<lambda>i. ?b (va + of_nat ?n + of_nat i)) [0..<len - ?n]"
      let ?bs = "takeWhile (\<lambda>x. x \<noteq> None) ?rest"
      have IH: "copyin pt (va + of_nat ?n) (len - ?n) s = Ok (if length ?bs = len - ?n then 0 else -1, map the ?bs)"
        using n less.IH [of "len - ?n" "va + of_nat ?n"] by (simp add: Let_def)
      have rest: "copyin pt (?va0 + PGSIZE) (len - ?n) s = copyin pt (va + of_nat ?n) (len - ?n) s"
        using chunk_rest [of va len] n by (cases "?n < len") (simp_all add: copyin.simps)
      have upt: "[0..<len] = [0..<?n] @ map (\<lambda>i. ?n + i) [0..<len - ?n]"
        using upt_add_eq_append [of 0 ?n "len - ?n"] n(2) upt_shift [of ?n "len - ?n"] by simp
      have split: "map ?f [0..<len] = map ?f [0..<?n] @ ?rest"
        unfolding upt by (simp add: comp_def add.assoc)
      have tw: "takeWhile (\<lambda>x. x \<noteq> None) (map ?f [0..<len]) = map ?f [0..<?n] @ ?bs"
        unfolding split by (rule takeWhile_append2) (auto simp: byte)
      have len: "?n + length ?bs = len \<longleftrightarrow> length ?bs = len - ?n" using n(2) by auto
      show ?thesis
        unfolding step rest IH get tw Let_def using len n(2) by (auto simp: comp_def)
    qed
  qed
qed

subsection \<open>A concrete address space\<close>

text \<open>One user page at virtual address 0, tables and page at the top of RAM, no free page.\<close>

definition demo_entry :: u32 where "demo_entry = PA2PTE 0x8007F000 OR (PTE_R OR PTE_W OR PTE_U) OR PTE_V"
definition demo_link :: u32 where "demo_link = PA2PTE 0x8007E000 OR PTE_V"

definition demo_space :: phys where
  "demo_space =
     \<lparr>pmem = store32 (store32 (\<lambda>_. 0) (slot 0x8007D000 0) demo_link) (slot 0x8007E000 0) demo_entry,
      freelist = 0, kend = 0x8007D000\<rparr>"

lemma demo_aligned [simp]:
  "page_aligned 0x8007D000" "page_aligned 0x8007E000" "page_aligned 0x8007F000"
  by (simp_all add: page_aligned_def)

lemma demo_link_facts: "PTE2PA demo_link = 0x8007E000" "demo_link AND PTE_V \<noteq> 0"
  "demo_link AND (PTE_R OR PTE_W OR PTE_X) = 0"
  by (simp_all add: demo_link_def PTE2PA_link del: word_bw_assocs) (rule link_flags)

lemma demo_entry_facts:
  "PTE2PA demo_entry = 0x8007F000" "demo_entry AND PTE_V \<noteq> 0" "demo_entry AND PTE_U \<noteq> 0"
  "PTE_FLAGS demo_entry \<noteq> PTE_V"
  by (simp_all add: demo_entry_def PTE2PA_def PA2PTE_def PTE_FLAGS_def pte_bits)

lemma load32_zero [simp]: "load32 (\<lambda>_. 0) a = 0"
  by (simp add: load32_def of_le32_def)

lemma demo_l1: "i < 1024 \<Longrightarrow> l1 (pmem demo_space) 0x8007D000 i = (if i = 0 then demo_link else 0)"
  using slot_pages_differ [of "0x8007E000" "0x8007D000" 0 i] slot_inj [of 0 i "0x8007D000"]
  by (auto simp: l1_def demo_space_def load32_store32_aligned aligned4_slot)

lemma demo_present: "i < 1024 \<Longrightarrow> present (pmem demo_space) 0x8007D000 i \<longleftrightarrow> i = 0"
  by (simp add: present_def demo_l1 demo_link_facts)

lemma demo_kid: "kid (pmem demo_space) 0x8007D000 0 = 0x8007E000"
  by (simp add: kid_def demo_l1 demo_link_facts)

lemma demo_leaf_entry:
  "j < 1024 \<Longrightarrow> load32 (pmem demo_space) (slot 0x8007E000 j) = (if j = 0 then demo_entry else 0)"
  using slot_pages_differ [of "0x8007D000" "0x8007E000" 0 j] slot_inj [of 0 j "0x8007E000"]
  by (auto simp: demo_space_def load32_store32_aligned aligned4_slot)

lemma demo_mapping:
  "mapping (pmem demo_space) 0x8007D000 va = (if same_page 0 va then Some demo_entry else None)"
proof -
  have z: "ix1 0 = 0" "ix0 0 = 0" by (simp_all add: ix1_def ix0_def PX_def)
  show ?thesis
    by (auto simp: mapping_def leaf_def demo_present demo_kid demo_leaf_entry demo_entry_facts
        same_page_ix z)
qed

lemma demo_pages: "pt_pages (pmem demo_space) 0x8007D000 = {0x8007D000, 0x8007E000}"
  by (auto simp: pt_pages_def demo_present demo_kid intro: exI [of _ 0])

lemma demo_vm_inv: "vm_inv demo_space 0x8007D000 []"
  unfolding vm_inv_def demo_pages
  by (auto simp: pt_wf_def demo_present demo_kid demo_l1 demo_link_facts kinv_def page_ok_def)
     (simp_all add: demo_space_def layout_defs)

lemma demo_user_entry:
  "user_entry (pmem demo_space) 0x8007D000 va = (if same_page 0 va then Some demo_entry else None)"
  by (simp add: user_entry_def demo_mapping demo_entry_facts)

lemma demo_space_inv: "space_inv demo_space 0x8007D000 [] 4096"
proof -
  have "page_ok demo_space 0x8007F000" by (simp add: page_ok_def demo_space_def layout_defs)
  moreover have "unat va < 4096" if "same_page 0 va" for va
    using that in_page_PGROUNDDOWN [of va]
    by (simp add: same_page_PGROUNDDOWN PGROUNDDOWN_def in_page_def)
  moreover have "same_page va va'" if "same_page 0 va" "same_page 0 va'" for va va'
    using that by (simp add: same_page_def)
  ultimately show ?thesis
    unfolding space_inv_def
    by (auto simp: demo_vm_inv demo_mapping demo_user_entry demo_entry_facts demo_pages
        split: if_splits)
qed

subsection \<open>Properties\<close>

text \<open>
  C17: \<open>mappages\<close> on a range of unmapped pages either returns 0 and has mapped exactly
  those pages, each to its physical page with the given permissions, or returns -1 with
  the allocator empty and only a prefix of the range mapped, which cannot happen when as many
  pages were free as are to be mapped; every other page maps to what
  it did, no memory outside the table changes, and the tree stays well formed with all
  new table pages taken from the free list.
\<close>

theorem mappages_maps_its_range:
  assumes "vm_inv s pt ps" "0 < unat sz" "unat va + unat sz \<le> 2 ^ 32"
    "k = unat (PGROUNDDOWN (va + sz - 1)) div 4096 - unat (PGROUNDDOWN va) div 4096"
    "\<And>v. in_range (PGROUNDDOWN va) (Suc k) v \<Longrightarrow> mapping (pmem s) pt v = None"
  shows "\<exists>r s' ps'. mappages pt va sz pa perm s = Ok (r, s') \<and> vm_ext pt s ps s' ps' \<and>
    (r = 0 \<and> length ps \<le> Suc k + length ps' \<and>
       mapping (pmem s') pt = map_range (PGROUNDDOWN va) (Suc k) pa perm (mapping (pmem s) pt) \<or>
     r = -1 \<and> ps' = [] \<and>
       (\<exists>j \<le> k. length ps \<le> j \<and> mapping (pmem s') pt = map_range (PGROUNDDOWN va) j pa perm (mapping (pmem s) pt)))"
proof -
  let ?a = "PGROUNDDOWN va" and ?l = "PGROUNDDOWN (va + sz - 1)"
  have "sz \<noteq> 0" using assms(2) by auto
  have "unat (va + (sz - 1)) = unat va + unat (sz - 1)"
    using assms(2,3) \<open>sz \<noteq> 0\<close> by (intro unat_add_u32) (simp add: unat_minus_one)
  then have "unat va \<le> unat (va + sz - 1)" by (simp add: algebra_simps)
  then have "unat va div 4096 \<le> unat (va + sz - 1) div 4096" by (rule div_le_mono)
  then have "unat ?l = unat ?a + 4096 * k"
    unfolding assms(4) by (simp add: unat_PGROUNDDOWN algebra_simps diff_mult_distrib2)
  moreover have "k < n_pages"
  proof -
    have "unat ?l < 1048576 * 4096" using unat_u32_less(1) [of ?l] by simp
    then have "unat ?l div 4096 < 1048576" by (rule less_mult_imp_div_less)
    then show ?thesis unfolding assms(4) n_pages_def by simp
  qed
  ultimately show ?thesis
    using mappages_loop_spec [where la = ?l and n = n_pages and pa = pa and perm = perm,
        OF assms(1) page_aligned_PG _ _ assms(5)]
      \<open>sz \<noteq> 0\<close>
    by (simp add: mappages_def)
qed

lemma mappages_maps_its_range_witness:
  "\<exists>r s' ps'. mappages 0x8007D000 0x1000 0x1000 0x8007F000 PTE_R demo_space = Ok (r, s') \<and>
     vm_ext 0x8007D000 demo_space [] s' ps' \<and>
    (r = 0 \<and> mapping (pmem s') 0x8007D000 = map_range (PGROUNDDOWN 0x1000) (Suc 0) 0x8007F000 PTE_R
       (mapping (pmem demo_space) 0x8007D000) \<or>
     r = -1 \<and> ps' = [] \<and> (\<exists>j \<le> 0. mapping (pmem s') 0x8007D000 =
       map_range (PGROUNDDOWN 0x1000) j 0x8007F000 PTE_R (mapping (pmem demo_space) 0x8007D000)))"
proof -
  have p: "PGROUNDDOWN 0x1000 = 0x1000" by (simp add: PGROUNDDOWN_def PGSIZE_def)
  have un: "mapping (pmem demo_space) 0x8007D000 v = None" if "in_range (PGROUNDDOWN 0x1000) (Suc 0) v" for v
    using that by (auto simp: demo_mapping same_page_PGROUNDDOWN in_range_def p)
      (simp add: PGROUNDDOWN_def)
  have "k = 0 \<Longrightarrow> k = unat (PGROUNDDOWN (0x1000 + 0x1000 - 1)) div 4096 - unat (PGROUNDDOWN 0x1000) div 4096" for k
    by (simp add: unat_PGROUNDDOWN)
  from mappages_maps_its_range [OF demo_vm_inv _ _ this [OF refl] un, where pa = "0x8007F000" and perm = PTE_R] show ?thesis
    by simp
qed

text \<open>
  C29: \<open>copyout\<close> to a range of user addresses that does not run past the end of the address
  space returns 0 and has written exactly the given bytes there when every page of the
  range is mapped for the user, and otherwise returns -1 having written a proper prefix;
  no other user byte and no mapping changes, and the address space stays well formed.
\<close>

theorem copyout_writes_user_memory:
  assumes "space_inv s pt ps B" "unat va + length src \<le> 2 ^ 32"
  shows "\<exists>r s' k. copyout pt va src s = Ok (r, s') \<and> space_inv s' pt ps B \<and>
    user_entry (pmem s') pt = user_entry (pmem s) pt \<and>
    user_byte (pmem s') pt = user_write va (take k src) (user_byte (pmem s) pt) \<and>
    (if \<forall>i < length src. user_entry (pmem s) pt (va + of_nat i) \<noteq> None
     then r = 0 \<and> k = length src else r = -1 \<and> k < length src)"
  using assms by (rule copyout_spec)

lemma copyout_writes_user_memory_witness:
  "\<exists>r s' k. copyout 0x8007D000 0xFFE [1, 2, 3, 4] demo_space = Ok (r, s') \<and>
    space_inv s' 0x8007D000 [] 4096 \<and>
    user_entry (pmem s') 0x8007D000 = user_entry (pmem demo_space) 0x8007D000 \<and>
    user_byte (pmem s') 0x8007D000 =
      user_write 0xFFE (take k [1, 2, 3, 4]) (user_byte (pmem demo_space) 0x8007D000) \<and>
    (if \<forall>i < length [1, 2, 3, 4 :: u8]. user_entry (pmem demo_space) 0x8007D000 (0xFFE + of_nat i) \<noteq> None
     then r = 0 \<and> k = length [1, 2, 3, 4 :: u8] else r = -1 \<and> k < length [1, 2, 3, 4 :: u8])"
  by (rule copyout_writes_user_memory [OF demo_space_inv]) simp

text \<open>
  \<open>copyin\<close> returns exactly the bytes of the user range when every page of it is mapped
  for the user; otherwise it returns -1, and the bytes it has moved are those of the longest
  mapped prefix of the range.
\<close>

theorem copyin_reads_user_memory:
  assumes "space_inv s pt ps B"
  shows "copyin pt va len s =
    (let bs = takeWhile (\<lambda>x. x \<noteq> None) (map (\<lambda>i. user_byte (pmem s) pt (va + of_nat i)) [0..<len])
     in Ok (if length bs = len then 0 else -1, map the bs))"
  using assms by (rule copyin_spec)

lemma copyin_reads_user_memory_witness:
  "copyin 0x8007D000 0x10 3 demo_space =
    (let bs = takeWhile (\<lambda>x. x \<noteq> None)
       (map (\<lambda>i. user_byte (pmem demo_space) 0x8007D000 (0x10 + of_nat i)) [0..<3])
     in Ok (if length bs = 3 then 0 else -1, map the bs))"
  by (rule copyin_reads_user_memory [OF demo_space_inv])

end
