(* ===== verification/Vm_Copy.thy ===== *)
theory Vm_Copy
  imports Vm_Space
begin

text \<open>
  Address spaces by page number: \<open>uvmunmap\<close> frees exactly the pages of its range, \<open>uvmcopy\<close> gives
  the child a copy of each page of the parent or takes back all it has done.
\<close>

subsection \<open>Page numbers\<close>

definition pg :: "nat \<Rightarrow> u32" where
  "pg i = push_bit 12 (of_nat i)"

definition pmap :: "mem \<Rightarrow> u32 \<Rightarrow> nat \<Rightarrow> u32 option" where
  "pmap m pt i = mapping m pt (pg i)"

lemma unat_pg: "i < 2 ^ 20 \<Longrightarrow> unat (pg i) = 4096 * i"
proof -
  assume i: "i < 2 ^ 20"
  then have "unat (of_nat i :: u32) = i" by (intro unat_of_nat_eq) simp
  then have "unat (pg i) = take_bit 32 (push_bit 12 i)"
    unfolding pg_def unsigned_push_bit_eq by simp
  also have "\<dots> = 4096 * i" using i by (simp add: push_bit_eq_mult take_bit_eq_mod mult.commute)
  finally show ?thesis .
qed

lemma pg_aligned [simp]: "i < 2 ^ 20 \<Longrightarrow> page_aligned (pg i)"
  by (simp add: page_aligned_def unat_pg)

lemma pg_inj: "i < 2 ^ 20 \<Longrightarrow> j < 2 ^ 20 \<Longrightarrow> pg i = pg j \<longleftrightarrow> i = j"
  using unat_pg by (metis mult_cancel1 zero_neq_numeral)

lemma page_number_less: "unat (va :: u32) div 4096 < 2 ^ 20"
proof -
  have "unat va < 2 ^ 20 * 4096" using unat_u32_lt [of va] by simp
  then show ?thesis by (rule less_mult_imp_div_less)
qed

lemma PGROUNDDOWN_pg: "PGROUNDDOWN va = pg (unat va div 4096)"
  unfolding word_unat_eq_iff unat_PGROUNDDOWN unat_pg [OF page_number_less] by simp

lemma same_page_pg: "i < 2 ^ 20 \<Longrightarrow> same_page (pg i) va \<longleftrightarrow> i = unat va div 4096"
  using pg_inj [OF _ page_number_less [of va], of i]
  by (simp add: same_page_PGROUNDDOWN PGROUNDDOWN_aligned PGROUNDDOWN_pg [of va])

lemma mapping_pmap: "mapping m pt va = pmap m pt (unat va div 4096)"
proof -
  have "same_page (pg (unat va div 4096)) va" unfolding same_page_pg [OF page_number_less] ..
  then show ?thesis by (simp add: pmap_def mapping_def leaf_def same_page_ix)
qed

lemma pmap_leaf:
  assumes "pmap m pt i = Some e"
  obtains a where "leaf m pt (pg i) = Some a" "load32 m a = e" "e AND PTE_V \<noteq> 0"
  using assms unfolding pmap_def mapping_def by (auto split: option.splits if_splits)

lemma pmap_store:
  assumes "pt_wf m pt" "i < 2 ^ 20" "j < 2 ^ 20" "leaf m pt (pg i) = Some a"
  shows "pmap (store32 m a v) pt j = (if j = i then (if v AND PTE_V \<noteq> 0 then Some v else None) else pmap m pt j)"
  using store_leaf(4) [OF assms(1,4), of v "pg j"] assms(2,3) same_page_pg [OF assms(2), of "pg j"]
  by (auto simp: pmap_def unat_pg)

subsection \<open>Address spaces\<close>

definition frames :: "mem \<Rightarrow> u32 \<Rightarrow> nat \<Rightarrow> nat \<Rightarrow> u32 set" where
  "frames m pt a b = PTE2PA ` (\<Union>i \<in> {a..<b}. set_option (pmap m pt i))"

text \<open>The pages mapped below page \<open>N\<close> belong to this address space alone.\<close>

definition aspace :: "phys \<Rightarrow> u32 \<Rightarrow> u32 list \<Rightarrow> nat \<Rightarrow> bool" where
  "aspace s pt ps N \<longleftrightarrow> vm_inv s pt ps \<and>
     (\<forall>i < N. \<forall>e. pmap (pmem s) pt i = Some e \<longrightarrow>
        page_ok s (PTE2PA e) \<and> PTE2PA e \<notin> pt_pages (pmem s) pt \<and> PTE2PA e \<notin> set ps \<and> PTE_FLAGS e \<noteq> PTE_V) \<and>
     (\<forall>i < N. \<forall>j < N. \<forall>e e'. pmap (pmem s) pt i = Some e \<longrightarrow> pmap (pmem s) pt j = Some e' \<longrightarrow>
        PTE2PA e = PTE2PA e' \<longrightarrow> i = j)"

lemma aspaceD:
  assumes "aspace s pt ps N"
  shows "vm_inv s pt ps" "kinv s ps" "pt_wf (pmem s) pt"
    "i < N \<Longrightarrow> pmap (pmem s) pt i = Some e \<Longrightarrow>
       page_ok s (PTE2PA e) \<and> PTE2PA e \<notin> pt_pages (pmem s) pt \<and> PTE2PA e \<notin> set ps \<and> PTE_FLAGS e \<noteq> PTE_V"
    "i < N \<Longrightarrow> j < N \<Longrightarrow> pmap (pmem s) pt i = Some e \<Longrightarrow> pmap (pmem s) pt j = Some e' \<Longrightarrow>
       PTE2PA e = PTE2PA e' \<Longrightarrow> i = j"
  using assms unfolding aspace_def vm_inv_def by blast+

lemma same_page_number: "same_page va va' \<longleftrightarrow> unat va div 4096 = unat va' div 4096"
  using pg_inj [OF page_number_less page_number_less, of va va']
  by (simp add: same_page_PGROUNDDOWN PGROUNDDOWN_pg [of va] PGROUNDDOWN_pg [of va'])

lemma space_inv_aspace:
  assumes N: "N \<le> 2 ^ 20"
  shows "space_inv s pt ps (4096 * N) \<longleftrightarrow>
    aspace s pt ps N \<and> (\<forall>va e. user_entry (pmem s) pt va = Some e \<longrightarrow> unat va < 4096 * N)"
    (is "?L \<longleftrightarrow> ?A \<and> ?U")
proof
  assume L: ?L
  have lt: "unat (pg i) < 4096 * N" if "i < N" for i using that N by (simp add: unat_pg)
  have "i = j" if "i < N" "j < N" "pmap (pmem s) pt i = Some e" "pmap (pmem s) pt j = Some e'" "PTE2PA e = PTE2PA e'" for i j e e'
  proof -
    have "same_page (pg i) (pg j)" using L lt [OF that(1)] lt [OF that(2)] that(3-5) unfolding space_inv_def pmap_def by blast
    then show ?thesis using same_page_pg [of i "pg j"] that(1,2) N by (simp add: unat_pg)
  qed
  moreover have "page_ok s (PTE2PA e) \<and> PTE2PA e \<notin> pt_pages (pmem s) pt \<and> PTE2PA e \<notin> set ps \<and> PTE_FLAGS e \<noteq> PTE_V"
    if "i < N" "pmap (pmem s) pt i = Some e" for i e
    using L lt [OF that(1)] that(2) unfolding space_inv_def pmap_def by blast
  ultimately show "?A \<and> ?U" using L unfolding space_inv_def aspace_def by blast
next
  assume A: "?A \<and> ?U"
  have lt: "unat va div 4096 < N" if "unat va < 4096 * N" for va :: u32
    using that by (simp add: div_less_iff_less_mult mult.commute)
  note D = aspaceD [OF conjunct1 [OF A]]
  show ?L
    unfolding space_inv_def mapping_pmap same_page_number
  proof (intro conjI)
    show "vm_inv s pt ps" by (rule D(1))
    show "\<forall>(va :: u32) e. unat va < 4096 * N \<longrightarrow> pmap (pmem s) pt (unat va div 4096) = Some e \<longrightarrow>
        page_ok s (PTE2PA e) \<and> PTE2PA e \<notin> pt_pages (pmem s) pt \<and> PTE2PA e \<notin> set ps \<and> PTE_FLAGS e \<noteq> PTE_V"
    proof (intro allI impI)
      fix va :: u32 and e assume b: "unat va < 4096 * N" and e: "pmap (pmem s) pt (unat va div 4096) = Some e"
      show "page_ok s (PTE2PA e) \<and> PTE2PA e \<notin> pt_pages (pmem s) pt \<and> PTE2PA e \<notin> set ps \<and> PTE_FLAGS e \<noteq> PTE_V"
        by (rule D(4) [OF lt [OF b] e])
    qed
    show "\<forall>(va :: u32) (va' :: u32) e e'. unat va < 4096 * N \<longrightarrow> unat va' < 4096 * N \<longrightarrow> pmap (pmem s) pt (unat va div 4096) = Some e \<longrightarrow>
        pmap (pmem s) pt (unat va' div 4096) = Some e' \<longrightarrow> PTE2PA e = PTE2PA e' \<longrightarrow> unat va div 4096 = unat va' div 4096"
    proof (intro allI impI)
      fix va va' :: u32 and e e'
      assume b: "unat va < 4096 * N" "unat va' < 4096 * N" and e: "pmap (pmem s) pt (unat va div 4096) = Some e"
        "pmap (pmem s) pt (unat va' div 4096) = Some e'" "PTE2PA e = PTE2PA e'"
      show "unat va div 4096 = unat va' div 4096" by (rule D(5) [OF lt [OF b(1)] lt [OF b(2)] e])
    qed
    show ?U by (rule conjunct2 [OF A])
  qed
qed

text \<open>All the pages of the address space: its tables and what it maps below \<open>N\<close>.\<close>

definition foot :: "mem \<Rightarrow> u32 \<Rightarrow> nat \<Rightarrow> u32 set" where
  "foot m pt N = pt_pages m pt \<union> frames m pt 0 N"

definition same_on :: "u32 set \<Rightarrow> mem \<Rightarrow> mem \<Rightarrow> bool" where
  "same_on P m m' \<longleftrightarrow> (\<forall>p \<in> P. \<forall>x. in_page p x \<longrightarrow> m' x = m x)"

definition same_off :: "u32 set \<Rightarrow> mem \<Rightarrow> mem \<Rightarrow> bool" where
  "same_off P m m' \<longleftrightarrow> (\<forall>x. (\<forall>p \<in> P. \<not> in_page p x) \<longrightarrow> m' x = m x)"

lemma frames_eq: "(\<And>i. a \<le> i \<Longrightarrow> i < b \<Longrightarrow> pmap m' pt i = pmap m pt i) \<Longrightarrow> frames m' pt a b = frames m pt a b"
  by (simp add: frames_def)

lemma frames_empty [simp]: "frames m pt a a = {}"
  by (simp add: frames_def)

lemma frames_Suc: "a \<le> b \<Longrightarrow> frames m pt a (Suc b) = frames m pt a b \<union> PTE2PA ` set_option (pmap m pt b)"
  by (auto simp: frames_def atLeastLessThanSuc)

lemma frames_Cons: "a < b \<Longrightarrow> frames m pt a b = PTE2PA ` set_option (pmap m pt a) \<union> frames m pt (Suc a) b"
proof -
  assume "a < b"
  then have "{a..<b} = insert a {Suc a..<b}" by auto
  then show ?thesis by (simp add: frames_def image_Un)
qed

lemma frames_aligned: "q \<in> frames m pt a b \<Longrightarrow> page_aligned q"
  by (auto simp: frames_def)

lemma frames_mono: "a' \<le> a \<Longrightarrow> b \<le> b' \<Longrightarrow> frames m pt a b \<subseteq> frames m pt a' b'"
  unfolding frames_def by (intro image_mono UN_mono) auto

lemma frames_entry: "pmap m pt i = Some e \<Longrightarrow> a \<le> i \<Longrightarrow> i < b \<Longrightarrow> PTE2PA e \<in> frames m pt a b"
  by (force simp: frames_def)

lemma same_off_on:
  assumes "same_off Q m m'" "\<forall>p \<in> P. page_aligned p" "\<forall>q \<in> Q. page_aligned q" "P \<inter> Q = {}"
  shows "same_on P m m'"
  using assms pages_disjoint unfolding same_on_def same_off_def by (metis disjoint_iff)

lemma same_on_trans: "same_on P m m' \<Longrightarrow> same_on P m' m'' \<Longrightarrow> same_on P m m''"
  by (simp add: same_on_def)

lemma same_on_mono: "same_on Q m m' \<Longrightarrow> P \<subseteq> Q \<Longrightarrow> same_on P m m'"
  by (auto simp: same_on_def)

lemma same_off_mono: "same_off P m m' \<Longrightarrow> P \<subseteq> Q \<Longrightarrow> same_off Q m m'"
  unfolding same_off_def by blast

lemma same_off_trans: "same_off P m m' \<Longrightarrow> same_off P m' m'' \<Longrightarrow> same_off P m m''"
  by (simp add: same_off_def)

lemma foot_aligned: "pt_wf m pt \<Longrightarrow> q \<in> foot m pt N \<Longrightarrow> page_aligned q"
  unfolding foot_def using pt_pages_aligned frames_aligned by blast

text \<open>What another space does outside the footprint leaves the space as it is.\<close>

lemma tree_same:
  assumes "pt_wf m pt" "same_on (pt_pages m pt) m m'"
  shows "pt_wf m' pt" "pt_pages m' pt = pt_pages m pt" "mapping m' pt = mapping m pt" "pmap m' pt = pmap m pt"
    "frames m' pt a b = frames m pt a b" "foot m' pt N = foot m pt N"
proof -
  note t = tree_frame [OF assms(1), of m']
  have same: "\<And>q x. q \<in> pt_pages m pt \<Longrightarrow> in_page q x \<Longrightarrow> m' x = m x" using assms(2) by (simp add: same_on_def)
  show w: "pt_wf m' pt" and pp: "pt_pages m' pt = pt_pages m pt" and mp: "mapping m' pt = mapping m pt"
    by (rule t, erule (1) same)+
  show p: "pmap m' pt = pmap m pt" using mp by (simp add: pmap_def fun_eq_iff)
  show "frames m' pt a b = frames m pt a b" "foot m' pt N = foot m pt N"
    by (simp_all add: frames_def foot_def p pp)
qed

lemma aspace_frame:
  assumes A: "aspace s pt ps N" and k: "kinv s' ps'" "kend s' = kend s" and d: "set ps' \<inter> foot (pmem s) pt N = {}"
    and m: "same_on (pt_pages (pmem s) pt) (pmem s) (pmem s')"
  shows "aspace s' pt ps' N"
proof -
  note t = tree_same [OF aspaceD(3) [OF A] m]
  have ok: "page_ok s' p = page_ok s p" for p using k(2) by (simp add: page_ok_def)
  have fr: "PTE2PA e \<in> foot (pmem s) pt N" if "i < N" "pmap (pmem s) pt i = Some e" for i e
    using frames_entry [OF that(2)] that(1) by (simp add: foot_def)
  have "vm_inv s' pt ps'"
    using aspaceD(1) [OF A] k(1) d unfolding vm_inv_def t(2) ok foot_def by (auto intro: t(1))
  moreover have "page_ok s (PTE2PA e) \<and> PTE2PA e \<notin> pt_pages (pmem s) pt \<and> PTE2PA e \<notin> set ps' \<and> PTE_FLAGS e \<noteq> PTE_V"
    if "i < N" "pmap (pmem s) pt i = Some e" for i e
    using aspaceD(4) [OF A that] fr [OF that] d by blast
  moreover have "i = j" if "i < N" "j < N" "pmap (pmem s) pt i = Some e" "pmap (pmem s) pt j = Some e'" "PTE2PA e = PTE2PA e'" for i j e e'
    by (rule aspaceD(5) [OF A that])
  ultimately show ?thesis unfolding aspace_def t(2) t(4) ok by blast
qed

subsection \<open>uvmunmap\<close>

lemma unat_of_nat_page: "i < 2 ^ 20 \<Longrightarrow> unat (of_nat i :: u32) = i"
  by (rule unat_of_nat_eq) simp

lemma walk_page:
  assumes "vm_inv s pt ps" "pmap (pmem s) pt i = Some e"
  obtains a where "walk pt (pg i) False s = Ok (a, s)" "a \<noteq> 0" "load32 (pmem s) a = e" "e AND PTE_V \<noteq> 0"
    "leaf (pmem s) pt (pg i) = Some a"
  using assms(2)
proof (cases rule: pmap_leaf)
  case (1 a)
  then show thesis using that [of a] leaf_nonzero [OF assms(1) 1(1)] by (simp add: walk_lookup)
qed

text \<open>One page: freed, then its entry cleared.\<close>

lemma unmap_page:
  assumes A: "aspace s pt ps N" and i: "i < N" "N \<le> 2 ^ 20" and e: "pmap (pmem s) pt i = Some e"
    and lf: "leaf (pmem s) pt (pg i) = Some a"
  obtains s1 where "kfree (PTE2PA e) s = Ok s1" "kend s1 = kend s"
    "aspace (s1\<lparr>pmem := store32 (pmem s1) a 0\<rparr>) pt (PTE2PA e # ps) N"
    "pt_pages (store32 (pmem s1) a 0) pt = pt_pages (pmem s) pt"
    "\<forall>j < 2 ^ 20. pmap (store32 (pmem s1) a 0) pt j = (if j = i then None else pmap (pmem s) pt j)"
    "same_off (insert (PTE2PA e) (pt_pages (pmem s) pt)) (pmem s) (store32 (pmem s1) a 0)"
proof -
  let ?q = "PTE2PA e"
  note own = aspaceD(4) [OF A i(1) e]
  obtain s1 where s1: "kfree ?q s = Ok s1" "kinv s1 (?q # ps)" "same_outside ?q s s1"
    using kfree_ok aspaceD(2) [OF A] own by metis
  let ?m = "store32 (pmem s1) a 0"
  have off1: "same_off {?q} (pmem s) (pmem s1)" and ke: "kend s1 = kend s"
    using s1(3) by (simp_all add: same_outside_def same_off_def)
  have on1: "same_on (pt_pages (pmem s) pt) (pmem s) (pmem s1)"
    by (rule same_off_on [OF off1]) (use own pt_pages_aligned [OF aspaceD(3) [OF A]] in auto)
  note t1 = tree_same [OF aspaceD(3) [OF A] on1]
  have ok: "page_ok (s1\<lparr>pmem := ?m\<rparr>) p = page_ok s p" "page_ok s1 p = page_ok s p" for p using ke by (simp_all add: page_ok_def)
  have "vm_inv s1 pt (?q # ps)"
    using aspaceD(1) [OF A] s1(2) own t1(1) unfolding vm_inv_def t1(2) ok by auto
  moreover have lf1: "leaf (pmem s1) pt (pg i) = Some a"
    using lf tree_frame(3) [OF aspaceD(3) [OF A], of "pmem s1"] on1 unfolding same_on_def by metis
  ultimately have ext: "vm_ext pt s1 (?q # ps) (s1\<lparr>pmem := ?m\<rparr>) (?q # ps)" by (rule store_leaf_ext)
  have pp: "pt_pages ?m pt = pt_pages (pmem s) pt"
    using store_leaf(2) [OF t1(1) lf1] t1(2) by simp
  have pm: "pmap ?m pt j = (if j = i then None else pmap (pmem s) pt j)" if "j < 2 ^ 20" for j
    using pmap_store [OF t1(1) _ that lf1, of 0] i t1(4) by simp
  have sub: "?q \<noteq> PTE2PA e' \<and> pmap (pmem s) pt j = Some e'" if "j < N" "pmap ?m pt j = Some e'" for j e'
  proof -
    have j: "j \<noteq> i" "pmap (pmem s) pt j = Some e'" using pm [of j] that i by (auto split: if_splits)
    then show ?thesis using aspaceD(5) [OF A i(1) that(1) e j(2)] by auto
  qed
  have "page_ok s (PTE2PA e') \<and> PTE2PA e' \<notin> pt_pages (pmem s) pt \<and> PTE2PA e' \<notin> set (?q # ps) \<and> PTE_FLAGS e' \<noteq> PTE_V"
    if "j < N" "pmap ?m pt j = Some e'" for j e'
    using sub [OF that] aspaceD(4) [OF A that(1)] by auto
  moreover have "j = j'" if "j < N" "j' < N" "pmap ?m pt j = Some d" "pmap ?m pt j' = Some d'" "PTE2PA d = PTE2PA d'" for j j' d d'
    using sub [OF that(1,3)] sub [OF that(2,4)] aspaceD(5) [OF A that(1,2)] that(5) by blast
  moreover have "vm_inv (s1\<lparr>pmem := ?m\<rparr>) pt (?q # ps)" using ext by (simp add: vm_ext_def)
  ultimately have "aspace (s1\<lparr>pmem := ?m\<rparr>) pt (?q # ps) N"
    unfolding aspace_def ok using pp by simp
  moreover have "same_off (insert ?q (pt_pages (pmem s) pt)) (pmem s) ?m"
  proof (rule same_off_trans)
    show "same_off (insert ?q (pt_pages (pmem s) pt)) (pmem s) (pmem s1)"
      by (rule same_off_mono [OF off1]) simp
    show "same_off (insert ?q (pt_pages (pmem s) pt)) (pmem s1) ?m"
      using ext by (auto simp: vm_ext_def same_off_def pp)
  qed
  ultimately show thesis using that [OF s1(1) ke _ pp] pm by blast
qed

lemma unmap_spec:
  assumes "aspace s pt ps N" "a + k \<le> N" "N < 2 ^ 20" "\<forall>i. a \<le> i \<and> i < a + k \<longrightarrow> pmap (pmem s) pt i \<noteq> None"
  shows "\<exists>s' ps'. uvmunmap_from pt (of_nat a) (of_nat (a + k)) True s = Ok s' \<and> aspace s' pt ps' N \<and> kend s' = kend s \<and>
    pt_pages (pmem s') pt = pt_pages (pmem s) pt \<and>
    (\<forall>j < 2 ^ 20. pmap (pmem s') pt j = (if a \<le> j \<and> j < a + k then None else pmap (pmem s) pt j)) \<and>
    set ps' = set ps \<union> frames (pmem s) pt a (a + k) \<and>
    same_off (pt_pages (pmem s) pt \<union> frames (pmem s) pt a (a + k)) (pmem s) (pmem s')"
  using assms
proof (induction k arbitrary: a s ps)
  case 0
  then show ?case by (subst uvmunmap_from.simps) (auto simp: same_off_def)
next
  case (Suc k)
  note A = Suc.prems(1)
  have b: "a < N" "N \<le> 2 ^ 20" "a < 2 ^ 20" "a + Suc k < 2 ^ 20" using Suc.prems(2,3) by simp_all
  have lt: "(of_nat a :: u32) < of_nat (a + Suc k)"
    unfolding word_less_nat_alt unat_of_nat_page [OF b(3)] unat_of_nat_page [OF b(4)] by simp
  obtain e where e: "pmap (pmem s) pt a = Some e" using Suc.prems(4) by force
  obtain p where p: "walk pt (pg a) False s = Ok (p, s)" "p \<noteq> 0" "load32 (pmem s) p = e" "e AND PTE_V \<noteq> 0"
    "leaf (pmem s) pt (pg a) = Some p"
    by (rule walk_page [OF aspaceD(1) [OF A] e])
  obtain s1 where f: "kfree (PTE2PA e) s = Ok s1" "kend s1 = kend s"
    and A2: "aspace (s1\<lparr>pmem := store32 (pmem s1) p 0\<rparr>) pt (PTE2PA e # ps) N"
    and pp: "pt_pages (store32 (pmem s1) p 0) pt = pt_pages (pmem s) pt"
    and pm: "\<forall>j < 2 ^ 20. pmap (store32 (pmem s1) p 0) pt j = (if j = a then None else pmap (pmem s) pt j)"
    and off: "same_off (insert (PTE2PA e) (pt_pages (pmem s) pt)) (pmem s) (store32 (pmem s1) p 0)"
    by (rule unmap_page [OF A b(1,2) e p(5)])
  define s2 where "s2 = s1\<lparr>pmem := store32 (pmem s1) p 0\<rparr>"
  have m2: "pmem s2 = store32 (pmem s1) p 0" "kend s2 = kend s" by (simp_all add: s2_def f(2))
  have fl: "PTE_FLAGS e \<noteq> PTE_V" using aspaceD(4) [OF A b(1) e] by blast
  have step: "uvmunmap_from pt (of_nat a) (of_nat (a + Suc k)) True s = uvmunmap_from pt (of_nat (Suc a)) (of_nat (Suc a + k)) True s2"
    using lt p f(1) fl by (subst uvmunmap_from.simps) (simp add: pg_def [symmetric] Let_def s2_def add.commute)
  have pr: "Suc a + k \<le> N" "\<forall>i. Suc a \<le> i \<and> i < Suc a + k \<longrightarrow> pmap (pmem s2) pt i \<noteq> None"
    using Suc.prems(2-4) pm unfolding m2 by auto
  obtain s' ps' where r: "uvmunmap_from pt (of_nat (Suc a)) (of_nat (Suc a + k)) True s2 = Ok s'" "aspace s' pt ps' N" "kend s' = kend s2"
    "pt_pages (pmem s') pt = pt_pages (pmem s2) pt"
    "\<forall>j < 2 ^ 20. pmap (pmem s') pt j = (if Suc a \<le> j \<and> j < Suc a + k then None else pmap (pmem s2) pt j)"
    "set ps' = set (PTE2PA e # ps) \<union> frames (pmem s2) pt (Suc a) (Suc a + k)"
    "same_off (pt_pages (pmem s2) pt \<union> frames (pmem s2) pt (Suc a) (Suc a + k)) (pmem s2) (pmem s')"
    using Suc.IH [OF A2 [folded s2_def] pr(1) Suc.prems(3) pr(2)] by (elim exE conjE)
  have fr: "frames (pmem s2) pt (Suc a) (Suc a + k) = frames (pmem s) pt (Suc a) (a + Suc k)"
    unfolding m2 using pm Suc.prems(2,3) by (subst frames_eq) auto
  have fc: "frames (pmem s) pt a (a + Suc k) = insert (PTE2PA e) (frames (pmem s) pt (Suc a) (a + Suc k))"
    using frames_Cons [of a "a + Suc k" "pmem s" pt] e by simp
  show ?case
  proof (intro exI conjI)
    show "uvmunmap_from pt (of_nat a) (of_nat (a + Suc k)) True s = Ok s'" using step r(1) by simp
    show "aspace s' pt ps' N" "kend s' = kend s" using r(2,3) m2 by simp_all
    show "pt_pages (pmem s') pt = pt_pages (pmem s) pt" using r(4) m2 pp by simp
    show "\<forall>j < 2 ^ 20. pmap (pmem s') pt j = (if a \<le> j \<and> j < a + Suc k then None else pmap (pmem s) pt j)"
      using r(5) pm unfolding m2 by auto
    show "set ps' = set ps \<union> frames (pmem s) pt a (a + Suc k)" using r(6) unfolding fr fc by auto
    show "same_off (pt_pages (pmem s) pt \<union> frames (pmem s) pt a (a + Suc k)) (pmem s) (pmem s')"
    proof (rule same_off_trans)
      show "same_off (pt_pages (pmem s) pt \<union> frames (pmem s) pt a (a + Suc k)) (pmem s) (pmem s2)"
        unfolding m2 by (rule same_off_mono [OF off]) (use fc in auto)
      show "same_off (pt_pages (pmem s) pt \<union> frames (pmem s) pt a (a + Suc k)) (pmem s2) (pmem s')"
        by (rule same_off_mono [OF r(7)]) (use fr fc m2 pp in auto)
    qed
  qed
qed

lemma uvmunmap_pages:
  assumes "aspace s pt ps k" "k < 2 ^ 20" "\<forall>i < k. pmap (pmem s) pt i \<noteq> None"
  obtains s' ps' where "uvmunmap pt 0 (of_nat k) True s = Ok s'" "aspace s' pt ps' k" "kend s' = kend s"
    "pt_pages (pmem s') pt = pt_pages (pmem s) pt"
    "\<forall>j < 2 ^ 20. pmap (pmem s') pt j = (if j < k then None else pmap (pmem s) pt j)"
    "set ps' = set ps \<union> frames (pmem s) pt 0 k" "same_off (foot (pmem s) pt k) (pmem s) (pmem s')"
proof -
  have "uvmunmap pt 0 (of_nat k) True s = uvmunmap_from pt (of_nat 0) (of_nat (0 + k)) True s"
    by (simp add: uvmunmap_def PGSIZE_def)
  then show thesis
    using unmap_spec [of s pt ps k 0 k] assms that unfolding foot_def by auto
qed

subsection \<open>A new entry\<close>

lemma flags_small: "drop_bit 10 (PTE_FLAGS e OR PTE_V) = 0"
proof -
  have m: "(0x3FF :: u32) = mask 10" by (simp add: mask_eq_exp_minus_1)
  show ?thesis unfolding PTE_FLAGS_def PTE_V_def m by (rule bit_word_eqI) (auto simp: bit_simps)
qed

lemma flags_valid:
  assumes "e AND PTE_V \<noteq> 0" shows "PTE_FLAGS e OR PTE_V = PTE_FLAGS e"
proof -
  have m: "(0x3FF :: u32) = mask 10" by (simp add: mask_eq_exp_minus_1)
  show ?thesis
    using assms [unfolded and_PTE_V] unfolding PTE_FLAGS_def PTE_V_def m by (intro bit_word_eqI) (auto simp: bit_simps)
qed

lemma copied_entry:
  assumes "page_aligned p" "e AND PTE_V \<noteq> 0"
  defines "e' \<equiv> PA2PTE p OR PTE_FLAGS e OR PTE_V"
  shows "PTE2PA e' = p" "PTE_FLAGS e' = PTE_FLAGS e" "e' AND PTE_V \<noteq> 0"
proof -
  show "PTE2PA e' = p" unfolding e'_def or.assoc by (rule PTE2PA_PA2PTE [OF assms(1) flags_small])
  show "PTE_FLAGS e' = PTE_FLAGS e"
    unfolding e'_def or.assoc using PTE_FLAGS_PA2PTE [OF flags_small] flags_valid [OF assms(2)] by metis
  show "e' AND PTE_V \<noteq> 0" unfolding e'_def by (rule or_or_PTE_V)
qed

lemma map_page:
  assumes inv: "vm_inv s pt ps" and k: "k < 2 ^ 20" and un: "pmap (pmem s) pt k = None"
  obtains (ok) s' ps' where "mappages pt (pg k) PGSIZE pa perm s = Ok (0, s')" "vm_ext pt s ps s' ps'"
      "\<forall>j < 2 ^ 20. pmap (pmem s') pt j = (if j = k then Some (PA2PTE pa OR perm OR PTE_V) else pmap (pmem s) pt j)"
      "length ps \<le> Suc (length ps')"
  | (full) s' where "mappages pt (pg k) PGSIZE pa perm s = Ok (-1, s')" "vm_ext pt s ps s' []" "pmap (pmem s') pt = pmap (pmem s) pt"
      "ps = []"
proof -
  have al: "page_aligned (pg k)" using k by simp
  have "PGROUNDDOWN (pg k + PGSIZE - 1) = pg k"
  proof -
    have "unat (pg k + 4095) = unat (pg k) + 4095"
      using unat_pg [OF k] k by (subst unat_add_u32) simp_all
    then have "PGROUNDDOWN (pg k + 4095) = pg (unat (pg k + 4095) div 4096)" "unat (pg k + 4095) div 4096 = k"
      unfolding PGROUNDDOWN_pg using unat_pg [OF k] by simp_all
    then show ?thesis by (simp add: PGSIZE_def add.commute)
  qed
  then have eq: "mappages pt (pg k) PGSIZE pa perm s = mappages_loop n_pages pt (pg k) (pg k) pa perm s"
    using al by (simp add: mappages_def PGROUNDDOWN_aligned PGSIZE_def)
  have "mapping (pmem s) pt v = None" if "in_range (pg k) (Suc 0) v" for v
    using that un same_page_pg [OF k, of v] unfolding in_range_1 [OF al] mapping_pmap by simp
  then obtain r s' ps' where r: "mappages_loop n_pages pt (pg k) (pg k) pa perm s = Ok (r, s')" "vm_ext pt s ps s' ps'"
    "r = 0 \<and> length ps \<le> Suc 0 + length ps' \<and> mapping (pmem s') pt = map_range (pg k) (Suc 0) pa perm (mapping (pmem s) pt) \<or>
     r = -1 \<and> ps' = [] \<and> (\<exists>j \<le> 0. length ps \<le> j \<and> mapping (pmem s') pt = map_range (pg k) j pa perm (mapping (pmem s) pt))"
    using mappages_loop_spec [OF inv al, of "pg k" 0 n_pages pa perm] by (auto simp: n_pages_def)
  from r(3) show thesis
  proof (elim disjE conjE exE)
    assume m: "r = 0" "length ps \<le> Suc 0 + length ps'" "mapping (pmem s') pt = map_range (pg k) (Suc 0) pa perm (mapping (pmem s) pt)"
    have "pmap (pmem s') pt j = (if j = k then Some (PA2PTE pa OR perm OR PTE_V) else pmap (pmem s) pt j)" if j: "j < 2 ^ 20" for j
    proof -
      have "same_page (pg k) (pg j) \<longleftrightarrow> j = k" unfolding same_page_pg [OF k] unat_pg [OF j] by auto
      then show ?thesis
        using al by (simp add: pmap_def m(3) map_range_def in_range_1 [OF al] PGROUNDDOWN_aligned)
    qed
    then show thesis using ok r(1,2) m(1,2) eq by auto
  next
    fix j assume "r = -1" "ps' = []" "j \<le> 0" "length ps \<le> j" "mapping (pmem s') pt = map_range (pg k) j pa perm (mapping (pmem s) pt)"
    moreover from this have "pmap (pmem s') pt = pmap (pmem s) pt" by (simp add: pmap_def map_range_def fun_eq_iff)
    ultimately show thesis using full r(1,2) eq by auto
  qed
qed

subsection \<open>uvmcopy\<close>

text \<open>
  The state of the copy after \<open>k\<close> pages. \<open>R\<close>: the child's entries from \<open>k\<close> on; \<open>T\<close>: the
  pages that are free or the child's; \<open>W\<close>: the pages whose contents may have changed.
\<close>

definition twin :: "mem \<Rightarrow> u32 \<Rightarrow> u32 \<Rightarrow> nat \<Rightarrow> bool" where
  "twin m old new i \<longleftrightarrow> (\<exists>e e'. pmap m old i = Some e \<and> pmap m new i = Some e' \<and> PTE_FLAGS e' = PTE_FLAGS e \<and>
     (\<forall>x. unat x < 4096 \<longrightarrow> m (PTE2PA e' + x) = m (PTE2PA e + x)))"

definition copying :: "u32 set \<Rightarrow> phys \<Rightarrow> u32 \<Rightarrow> u32 \<Rightarrow> nat \<Rightarrow> (nat \<Rightarrow> u32 option) \<Rightarrow> u32 set \<Rightarrow> phys \<Rightarrow> u32 list \<Rightarrow> nat \<Rightarrow> bool" where
  "copying W s0 old new N R T s ps k \<longleftrightarrow> aspace s old ps N \<and> aspace s new ps k \<and>
     foot (pmem s) old N \<inter> foot (pmem s) new k = {} \<and> same_on (foot (pmem s0) old N) (pmem s0) (pmem s) \<and>
     (\<forall>i < k. twin (pmem s) old new i) \<and> (\<forall>j. k \<le> j \<longrightarrow> j < 2 ^ 20 \<longrightarrow> pmap (pmem s) new j = R j) \<and>
     kend s = kend s0 \<and> set ps \<union> foot (pmem s) new k = T \<and> T \<subseteq> W \<and> same_off W (pmem s0) (pmem s)"

lemma copyingD:
  assumes "copying W s0 old new N R T s ps k"
  shows "aspace s old ps N" "aspace s new ps k" "foot (pmem s) old N \<inter> foot (pmem s) new k = {}"
    "same_on (foot (pmem s0) old N) (pmem s0) (pmem s)" "i < k \<Longrightarrow> twin (pmem s) old new i"
    "k \<le> j \<Longrightarrow> j < 2 ^ 20 \<Longrightarrow> pmap (pmem s) new j = R j" "kend s = kend s0" "set ps \<union> foot (pmem s) new k = T"
    "T \<subseteq> W" "same_off W (pmem s0) (pmem s)"
  using assms unfolding copying_def by blast+

lemma foot_not_free: "aspace s pt ps N \<Longrightarrow> set ps \<inter> foot (pmem s) pt N = {}"
  using aspaceD(4) [of s pt ps N] unfolding aspace_def vm_inv_def foot_def frames_def by fastforce

lemma copying_old:
  assumes "copying W s0 old new N R T s ps k" "pt_wf (pmem s0) old"
  shows "pmap (pmem s) old = pmap (pmem s0) old" "foot (pmem s) old N = foot (pmem s0) old N"
  using tree_same [OF assms(2) same_on_mono [OF copyingD(4) [OF assms(1)]]] by (simp_all add: foot_def)

lemma twin_frame:
  assumes t: "twin m old new i" and "i < N" "i < k"
    and p: "pmap m' old i = pmap m old i" "pmap m' new i = pmap m new i"
    and o: "same_on (frames m old 0 N) m m'" and n: "same_on (frames m new 0 k) m m'"
  shows "twin m' old new i"
proof -
  obtain e e' where e: "pmap m old i = Some e" "pmap m new i = Some e'" "PTE_FLAGS e' = PTE_FLAGS e"
    "\<forall>x. unat x < 4096 \<longrightarrow> m (PTE2PA e' + x) = m (PTE2PA e + x)"
    using t by (auto simp: twin_def)
  have "m' (PTE2PA e + x) = m (PTE2PA e + x)" "m' (PTE2PA e' + x) = m (PTE2PA e' + x)" if "unat x < 4096" for x
    using o n frames_entry [OF e(1), of 0 N] frames_entry [OF e(2), of 0 k] assms(2,3) in_page_plus [OF that]
    unfolding same_on_def by simp_all
  then show ?thesis using e p by (simp add: twin_def)
qed

text \<open>A change of memory outside both spaces, with a new free list.\<close>

lemma copying_frame:
  assumes C: "copying W s0 old new N R T s ps k" and wf: "pt_wf (pmem s0) old" and kN: "k \<le> N"
    and k: "kinv s' ps'" "kend s' = kend s"
    and d: "set ps' \<inter> foot (pmem s) old N = {}" "set ps' \<inter> foot (pmem s) new k = {}"
    and m: "same_on (foot (pmem s) old N) (pmem s) (pmem s')" "same_on (foot (pmem s) new k) (pmem s) (pmem s')"
    and w: "set ps' \<subseteq> W" "same_off W (pmem s) (pmem s')"
  shows "copying W s0 old new N R (set ps' \<union> foot (pmem s) new k) s' ps' k"
proof -
  note D = copyingD [OF C]
  have mo: "same_on (pt_pages (pmem s) old) (pmem s) (pmem s')" "same_on (frames (pmem s) old 0 N) (pmem s) (pmem s')"
    and mn: "same_on (pt_pages (pmem s) new) (pmem s) (pmem s')" "same_on (frames (pmem s) new 0 k) (pmem s) (pmem s')"
    using m by (auto intro: same_on_mono simp: foot_def)
  note to = tree_same [OF aspaceD(3) [OF D(1)] mo(1)] and tn = tree_same [OF aspaceD(3) [OF D(2)] mn(1)]
  show ?thesis
    unfolding copying_def to(6) tn(6) tn(4)
  proof (intro conjI allI impI)
    show "aspace s' old ps' N" by (rule aspace_frame [OF D(1) k d(1) mo(1)])
    show "aspace s' new ps' k" by (rule aspace_frame [OF D(2) k d(2) mn(1)])
    show "same_on (foot (pmem s0) old N) (pmem s0) (pmem s')"
      by (rule same_on_trans [OF D(4)]) (use m(1) copying_old(2) [OF C wf] in simp)
    show "twin (pmem s') old new i" if "i < k" for i
      by (rule twin_frame [OF D(5) [OF that] _ that _ _ mo(2) mn(2)]) (use that kN to(4) tn(4) in simp_all)
    show "kend s' = kend s0" using k(2) D(7) by simp
    show "set ps' \<union> foot (pmem s) new k \<subseteq> W" using w(1) D(8,9) by blast
    show "same_off W (pmem s0) (pmem s')" by (rule same_off_trans [OF D(10) w(2)])
  qed (use D(3,6) in simp_all)
qed

text \<open>The child's tables grow and its entry \<open>k\<close> may be set: the first \<open>k\<close> entries stay.\<close>

lemma copying_ext:
  assumes C: "copying W s0 old new N R T s ps k" and wf: "pt_wf (pmem s0) old" and kN: "k \<le> N" "N \<le> 2 ^ 20"
    and ext: "vm_ext new s ps s' ps'"
    and pm: "\<forall>j < 2 ^ 20. pmap (pmem s') new j = (if j < k then pmap (pmem s) new j else R' j)"
  shows "copying W s0 old new N R' T s' ps' k"
proof -
  note D = copyingD [OF C]
  have E: "vm_inv s' new ps'" "kend s' = kend s" "set ps' \<subseteq> set ps" "pt_pages (pmem s) new \<subseteq> pt_pages (pmem s') new"
    "pt_pages (pmem s') new - pt_pages (pmem s) new = set ps - set ps'"
    and off: "same_off (pt_pages (pmem s') new) (pmem s) (pmem s')"
    using ext unfolding vm_ext_def same_off_def by blast+
  have fn: "frames (pmem s') new 0 k = frames (pmem s) new 0 k" by (rule frames_eq) (use pm kN in simp)
  have al: "\<forall>q \<in> pt_pages (pmem s') new. page_aligned q" using E(1) pt_pages_aligned by (auto simp: vm_inv_def)
  have free: "set ps \<inter> foot (pmem s) old N = {}" "set ps \<inter> foot (pmem s) new k = {}"
    by (rule foot_not_free [OF D(1)], rule foot_not_free [OF D(2)])
  have dn: "frames (pmem s) new 0 k \<inter> pt_pages (pmem s) new = {}"
    using aspaceD(4) [OF D(2)] by (fastforce simp: frames_def)
  have do: "foot (pmem s) old N \<inter> pt_pages (pmem s') new = {}" "frames (pmem s) new 0 k \<inter> pt_pages (pmem s') new = {}"
    using E(5) D(3) free dn unfolding foot_def by blast+
  have mo: "same_on (foot (pmem s) old N) (pmem s) (pmem s')"
    by (rule same_off_on [OF off _ al do(1)]) (use foot_aligned [OF aspaceD(3) [OF D(1)]] in blast)
  have mf: "same_on (frames (pmem s) new 0 k) (pmem s) (pmem s')"
    by (rule same_off_on [OF off _ al do(2)]) (use frames_aligned in blast)
  have mo': "same_on (pt_pages (pmem s) old) (pmem s) (pmem s')" "same_on (frames (pmem s) old 0 N) (pmem s) (pmem s')"
    using mo by (auto intro: same_on_mono simp: foot_def)
  note to = tree_same [OF aspaceD(3) [OF D(1)] mo'(1)]
  have foot': "foot (pmem s') new k = foot (pmem s) new k \<union> (set ps - set ps')"
    using E(4,5) unfolding foot_def fn by blast
  have ok: "page_ok s' p = page_ok s p" for p using E(2) by (simp add: page_ok_def)
  have ent: "pmap (pmem s) new i = Some e" if "i < k" "pmap (pmem s') new i = Some e" for i e
    using pm that kN by simp
  show ?thesis
    unfolding copying_def to(6) foot'
  proof (intro conjI allI impI)
    show "aspace s' old ps' N" by (rule aspace_frame [OF D(1) _ E(2) _ mo'(1)]) (use E(1,3) free in \<open>auto simp: vm_inv_def\<close>)
    show "aspace s' new ps' k"
      unfolding aspace_def ok
    proof (intro conjI allI impI)
      fix i e assume i: "i < k" "pmap (pmem s') new i = Some e"
      note a = aspaceD(4) [OF D(2) i(1) ent [OF i]]
      show "page_ok s (PTE2PA e)" "PTE_FLAGS e \<noteq> PTE_V" "PTE2PA e \<notin> set ps'" using a E(3) by blast+
      show "PTE2PA e \<notin> pt_pages (pmem s') new" using a E(5) by blast
    next
      fix i j e e' assume i: "i < k" "j < k" "pmap (pmem s') new i = Some e" "pmap (pmem s') new j = Some e'" "PTE2PA e = PTE2PA e'"
      show "i = j" by (rule aspaceD(5) [OF D(2) i(1,2) ent [OF i(1,3)] ent [OF i(2,4)] i(5)])
    qed (rule E(1))
    show "foot (pmem s) old N \<inter> (foot (pmem s) new k \<union> (set ps - set ps')) = {}" using D(3) free by blast
    show "same_on (foot (pmem s0) old N) (pmem s0) (pmem s')"
      by (rule same_on_trans [OF D(4)]) (use mo copying_old(2) [OF C wf] in simp)
    show "twin (pmem s') old new i" if "i < k" for i
      by (rule twin_frame [OF D(5) [OF that] _ that _ _ mo'(2) mf]) (use that kN to(4) pm in simp_all)
    show "pmap (pmem s') new j = R' j" if "k \<le> j" "j < 2 ^ 20" for j using pm that by simp
    show "kend s' = kend s0" using E(2) D(7) by simp
    show T: "set ps' \<union> (foot (pmem s) new k \<union> (set ps - set ps')) = T" using D(8) E(3) by blast
    show "T \<subseteq> W" by (rule D(9))
    have "pt_pages (pmem s') new \<subseteq> W" using T D(9) foot' by (auto simp: foot_def)
    then show "same_off W (pmem s0) (pmem s')" using same_off_trans [OF D(10) same_off_mono [OF off]] by blast
  qed
qed

text \<open>The page set at \<open>k\<close> joins the child.\<close>

lemma copying_add:
  assumes C: "copying W s0 old new N (R(k := Some e')) T s ps k" and k: "k < N" "N \<le> 2 ^ 20" and wf: "pt_wf (pmem s0) old"
    and e: "pmap (pmem s) old k = Some e" "PTE_FLAGS e' = PTE_FLAGS e" "PTE_FLAGS e \<noteq> PTE_V"
    and p: "page_ok s (PTE2PA e')" "PTE2PA e' \<notin> foot (pmem s) old N" "PTE2PA e' \<notin> T"
    and x: "\<forall>x. unat x < 4096 \<longrightarrow> pmem s (PTE2PA e' + x) = pmem s (PTE2PA e + x)" and w: "PTE2PA e' \<in> W"
  shows "copying W s0 old new N R (insert (PTE2PA e') T) s ps (Suc k)"
proof -
  note D = copyingD [OF C]
  have ek: "pmap (pmem s) new k = Some e'" using D(6) [of k] k by simp
  have fn: "foot (pmem s) new (Suc k) = insert (PTE2PA e') (foot (pmem s) new k)"
    by (simp add: foot_def frames_Suc ek)
  have new: "PTE2PA e' \<notin> pt_pages (pmem s) new" "PTE2PA e' \<notin> set ps" using p(3) D(8) by (auto simp: foot_def)
  have ne: "PTE2PA d \<noteq> PTE2PA e'" if "i < k" "pmap (pmem s) new i = Some d" for i d
    using frames_entry [OF that(2), of 0 k] that(1) p(3) D(8) by (auto simp: foot_def)
  show ?thesis
    unfolding copying_def fn
  proof (intro conjI allI impI)
    show "aspace s new ps (Suc k)"
      unfolding aspace_def
    proof (intro conjI allI impI)
      fix i d assume i: "i < Suc k" "pmap (pmem s) new i = Some d"
      have "i < k \<or> d = e'" using i ek by (auto simp: less_Suc_eq)
      then show "page_ok s (PTE2PA d)" "PTE2PA d \<notin> pt_pages (pmem s) new" "PTE2PA d \<notin> set ps" "PTE_FLAGS d \<noteq> PTE_V"
        using aspaceD(4) [OF D(2) _ i(2)] p(1) new e(2,3) by auto
    next
      fix i j d d' assume i: "i < Suc k" "j < Suc k" "pmap (pmem s) new i = Some d" "pmap (pmem s) new j = Some d'" "PTE2PA d = PTE2PA d'"
      have i': "i < k \<or> i = k \<and> d = e'" "j < k \<or> j = k \<and> d' = e'" using i(1-4) ek by (auto simp: less_Suc_eq)
      then consider "i < k" "j < k" | "i < k" "d' = e'" | "d = e'" "j < k" | "i = k" "j = k" by blast
      then show "i = j"
      proof cases
        case 1 then show ?thesis using aspaceD(5) [OF D(2) _ _ i(3,4)] i(5) by blast
      qed (use ne i(3-5) in auto)
    qed (rule aspaceD(1) [OF D(2)])
    show "foot (pmem s) old N \<inter> insert (PTE2PA e') (foot (pmem s) new k) = {}" using D(3) p(2) by blast
    show "twin (pmem s) old new i" if "i < Suc k" for i
    proof (cases "i = k")
      case True then show ?thesis using e ek x by (simp add: twin_def)
    next
      case False then show ?thesis using D(5) that by simp
    qed
    show "pmap (pmem s) new j = R j" if "Suc k \<le> j" "j < 2 ^ 20" for j using D(6) [of j] that by simp
    show "set ps \<union> insert (PTE2PA e') (foot (pmem s) new k) = insert (PTE2PA e') T" using D(8) by blast
    show "insert (PTE2PA e') T \<subseteq> W" using w D(9) by blast
  qed (use D in simp_all)
qed

text \<open>A page is taken from the allocator and filled with the parent's.\<close>

lemma copying_take:
  assumes C: "copying W s0 old new N R T s (p # ps) k" and wf: "pt_wf (pmem s0) old" and k: "k \<le> N"
    and q: "page_ok s q" "q \<in> foot (pmem s) old N"
  obtains s1 where "kalloc s = (p, s1)" "p \<noteq> 0"
    "copying W s0 old new N R (T - {p}) (s1\<lparr>pmem := memmove (pmem s1) p q PGSIZE\<rparr>) ps k"
    "page_ok s p" "p \<notin> foot (pmem s) old N" "p \<in> T"
    "\<forall>x. unat x < 4096 \<longrightarrow> memmove (pmem s1) p q PGSIZE (p + x) = memmove (pmem s1) p q PGSIZE (q + x)"
proof -
  note D = copyingD [OF C]
  obtain s1 where s1: "kalloc s = (p, s1)" "kinv s1 ps" "same_outside p s s1" "page_ok s1 p" "p \<noteq> 0" "p \<notin> set ps"
    by (rule kalloc_ok [OF aspaceD(2) [OF D(1)]])
  let ?m = "memmove (pmem s1) p q PGSIZE"
  have al: "page_aligned p" "page_aligned q" using s1(4) q(1) by (simp_all add: page_ok_def)
  have w: "no_wrap a PGSIZE" if "page_ok s' a" for s' a
    using that by (auto simp: no_wrap_def page_ok_def layout_defs word_less_nat_alt)
  have mm: "?m = fill (pmem s1) p 4096 (\<lambda>i. pmem s1 (q + of_nat i))"
    using memmove_fill [OF w [OF s1(4)] w [OF q(1)]] by (simp add: PGSIZE_def)
  have off: "same_off {p} (pmem s) ?m" "same_off {p} (pmem s1) ?m"
    using s1(3) unfolding mm by (simp_all add: same_off_def same_outside_def fill_other_page)
  have free: "p \<notin> foot (pmem s) old N" "p \<notin> foot (pmem s) new k"
    using foot_not_free [OF D(1)] foot_not_free [OF D(2)] by auto
  then have pq: "p \<noteq> q" using q(2) by auto
  have on: "same_on (foot (pmem s) old N) (pmem s) ?m" "same_on (foot (pmem s) new k) (pmem s) ?m"
    by (rule same_off_on [OF off(1)]; use foot_aligned [OF aspaceD(3) [OF D(1)]] foot_aligned [OF aspaceD(3) [OF D(2)]] al free in blast)+
  have "free_chain ?m (freelist s1) ps = free_chain (pmem s1) (freelist s1) ps"
    by (rule free_chain_other_page [where q = p])
       (use off(2) al s1(2,6) in \<open>auto simp: same_off_def kinv_def page_ok_def\<close>)
  then have kv: "kinv (s1\<lparr>pmem := ?m\<rparr>) ps" using s1(2) by (simp add: kinv_def page_ok_def)
  have pW: "p \<in> W" "set ps \<subseteq> W" using D(8,9) by auto
  have "copying W s0 old new N R (set ps \<union> foot (pmem s) new k) (s1\<lparr>pmem := ?m\<rparr>) ps k"
    by (rule copying_frame [OF C wf k kv])
       (use s1(3) on foot_not_free [OF D(1)] foot_not_free [OF D(2)] pW same_off_mono [OF off(1)] in \<open>auto simp: same_outside_def\<close>)
  moreover have "set ps \<union> foot (pmem s) new k = T - {p}" using D(8) s1(6) free by auto
  moreover have "?m (p + x) = ?m (q + x)" if "unat x < 4096" for x
  proof -
    have "\<not> in_page p (q + x)" using pages_disjoint [OF al(2,1)] pq in_page_plus [OF that] by metis
    then have "?m (q + x) = pmem s1 (q + x)" unfolding mm by (rule fill_other_page)
    moreover have "?m (p + x) = pmem s1 (q + of_nat (unat x))" unfolding mm by (subst fill_in) (simp_all add: that)
    ultimately show ?thesis by simp
  qed
  moreover have "page_ok s p" using s1(3,4) by (simp add: page_ok_def same_outside_def)
  moreover have "p \<in> T" using D(8) by auto
  ultimately show thesis using that [OF s1(1,5)] free(1) by metis
qed

text \<open>The error path: \<open>uvmunmap\<close> gives all the child's pages back.\<close>

lemma copying_undo:
  assumes C: "copying W s0 old new N R T s ps k" and wf: "pt_wf (pmem s0) old" and k: "k \<le> N" "N < 2 ^ 20"
    and R: "\<forall>j < N. R j = None"
  obtains s' ps' where "uvmunmap new 0 (of_nat k) True s = Ok s'" "copying W s0 old new N R T s' ps' 0"
proof -
  note D = copyingD [OF C]
  have k20: "k < 2 ^ 20" using k by simp
  have all: "\<forall>i < k. pmap (pmem s) new i \<noteq> None" using D(5) by (auto simp: twin_def)
  obtain s' ps' where u: "uvmunmap new 0 (of_nat k) True s = Ok s'" "aspace s' new ps' k" "kend s' = kend s"
    "pt_pages (pmem s') new = pt_pages (pmem s) new"
    "\<forall>j < 2 ^ 20. pmap (pmem s') new j = (if j < k then None else pmap (pmem s) new j)"
    "set ps' = set ps \<union> frames (pmem s) new 0 k" "same_off (foot (pmem s) new k) (pmem s) (pmem s')"
    by (rule uvmunmap_pages [OF D(2) k20 all])
  have mo: "same_on (foot (pmem s) old N) (pmem s) (pmem s')"
    by (rule same_off_on [OF u(7)])
       (use foot_aligned [OF aspaceD(3) [OF D(1)]] foot_aligned [OF aspaceD(3) [OF D(2)]] D(3) in blast)+
  have mo': "same_on (pt_pages (pmem s) old) (pmem s) (pmem s')" using mo by (rule same_on_mono) (simp add: foot_def)
  note to = tree_same [OF aspaceD(3) [OF D(1)] mo']
  have "copying W s0 old new N R T s' ps' 0"
    unfolding copying_def to(6)
  proof (intro conjI allI impI)
    show "aspace s' old ps' N"
    proof (rule aspace_frame [OF D(1) aspaceD(2) [OF u(2)] u(3) _ mo'])
      show "set ps' \<inter> foot (pmem s) old N = {}"
        using foot_not_free [OF D(1)] D(3) unfolding u(6) foot_def by blast
    qed
    show "aspace s' new ps' 0" using u(2) by (simp add: aspace_def)
    show "foot (pmem s) old N \<inter> foot (pmem s') new 0 = {}" using D(3) u(4) by (auto simp: foot_def)
    show "same_on (foot (pmem s0) old N) (pmem s0) (pmem s')"
      by (rule same_on_trans [OF D(4)]) (use mo copying_old(2) [OF C wf] in simp)
    show "pmap (pmem s') new j = R j" if "j < 2 ^ 20" for j
      using u(5) D(6) [of j] that R k by (cases "j < k") auto
    show "kend s' = kend s0" using u(3) D(7) by simp
    show "set ps' \<union> foot (pmem s') new 0 = T" using D(8) unfolding u(6) by (auto simp: foot_def u(4))
    show "T \<subseteq> W" by (rule D(9))
    have "foot (pmem s) new k \<subseteq> W" using D(8,9) by blast
    then show "same_off W (pmem s0) (pmem s')" using same_off_trans [OF D(10) same_off_mono [OF u(7)]] by blast
  qed simp
  then show thesis using that u(1) by blast
qed

lemma pg_below:
  assumes "k < 2 ^ 20"
  shows "pg k < sz \<longleftrightarrow> k < (unat sz + 4095) div 4096"
proof -
  have "4096 * k < n \<longleftrightarrow> k < (n + 4095) div 4096" for n :: nat by linarith
  then show ?thesis using unat_pg [OF assms] by (simp add: word_less_nat_alt)
qed

lemma pg_Suc: "pg k + PGSIZE = pg (Suc k)"
proof -
  have "push_bit 12 (of_nat (Suc k) :: u32) = push_bit 12 (of_nat k) + push_bit 12 1"
    by (simp add: push_bit_eq_mult algebra_simps)
  then show ?thesis by (simp add: pg_def PGSIZE_def)
qed

lemma pg_div: "k < 2 ^ 20 \<Longrightarrow> pg k div PGSIZE = of_nat k"
  by (simp add: word_unat_eq_iff unat_div_distrib unat_pg unat_of_nat_page PGSIZE_def)

text \<open>One round of the loop, in the three ways it can go.\<close>

lemma uvmcopy_round:
  assumes C: "copying W s0 old new N R T s ps k" and wf: "pt_wf (pmem s0) old" and k: "k < N" "N < 2 ^ 20"
    and R: "\<forall>j < N. R j = None" and all: "pmap (pmem s0) old k \<noteq> None" and sz: "N = (unat sz + 4095) div 4096"
  obtains (copied) s' ps' where "copying W s0 old new N R T s' ps' (Suc k)" "length ps \<le> length ps' + 2"
      "uvmcopy_loop (Suc n) old new (pg k) sz s = uvmcopy_loop n old new (pg (Suc k)) sz s'"
  | (undone) s' ps' where "copying W s0 old new N R T s' ps' 0" "uvmcopy_loop (Suc n) old new (pg k) sz s = Ok (-1, s')" "length ps \<le> 1"
proof -
  note D = copyingD [OF C]
  have k20: "k < 2 ^ 20" and kN: "k \<le> N" and N20: "N \<le> 2 ^ 20" using k by simp_all
  have lt: "pg k < sz" using pg_below [OF k20] k(1) sz by simp
  obtain e where e: "pmap (pmem s) old k = Some e" using all copying_old(1) [OF C wf] by auto
  note own = aspaceD(4) [OF D(1) k(1) e]
  obtain a where a: "walk old (pg k) False s = Ok (a, s)" "a \<noteq> 0" "load32 (pmem s) a = e" "e AND PTE_V \<noteq> 0"
    by (rule walk_page [OF aspaceD(1) [OF D(1)] e])
  have fe: "PTE2PA e \<in> foot (pmem s) old N" using frames_entry [OF e, of 0 N] k(1) by (simp add: foot_def)
  note enter = uvmcopy_loop.simps(2) [of n old new "pg k" sz s, unfolded pg_div [OF k20] pg_Suc]
  show thesis
  proof (cases ps)
    case Nil
    obtain s' ps' where u: "uvmunmap new 0 (of_nat k) True s = Ok s'" "copying W s0 old new N R T s' ps' 0"
      by (rule copying_undo [OF C wf kN k(2) R])
    have "kalloc s = (0, s)" using kalloc_empty aspaceD(2) [OF D(1)] Nil by simp
    then have "uvmcopy_loop (Suc n) old new (pg k) sz s = Ok (-1, s')"
      using enter lt a u(1) by (simp add: Let_def)
    then show thesis by (rule undone [OF u(2)]) (simp add: Nil)
  next
    case (Cons p ps1)
    obtain s1 where t: "kalloc s = (p, s1)" "p \<noteq> 0"
      "copying W s0 old new N R (T - {p}) (s1\<lparr>pmem := memmove (pmem s1) p (PTE2PA e) PGSIZE\<rparr>) ps1 k"
      "page_ok s p" "p \<notin> foot (pmem s) old N" "p \<in> T"
      "\<forall>x. unat x < 4096 \<longrightarrow> memmove (pmem s1) p (PTE2PA e) PGSIZE (p + x) = memmove (pmem s1) p (PTE2PA e) PGSIZE (PTE2PA e + x)"
      by (rule copying_take [OF C [unfolded Cons] wf kN conjunct1 [OF own] fe])
    define s2 where "s2 = s1\<lparr>pmem := memmove (pmem s1) p (PTE2PA e) PGSIZE\<rparr>"
    have m2: "pmem s2 = memmove (pmem s1) p (PTE2PA e) PGSIZE" by (simp add: s2_def)
    note C2 = t(3) [folded s2_def] and same = t(7) [folded m2]
    note D2 = copyingD [OF C2]
    have un: "pmap (pmem s2) new k = None" using D2(6) [of k] R k by simp
    have round: "uvmcopy_loop (Suc n) old new (pg k) sz s =
        seq (mappages new (pg k) PGSIZE p (PTE_FLAGS e) s2) (\<lambda>(r, s).
          if r \<noteq> 0 then seq (kfree p s) (\<lambda>s. seq (uvmunmap new 0 (of_nat k) True s) (\<lambda>s. Ok (-1, s)))
          else uvmcopy_loop n old new (pg (Suc k)) sz s)"
      using enter lt a t(1,2) by (simp add: Let_def s2_def)
    have ok2: "page_ok s2 p" using t(4) D(7) D2(7) by (simp add: page_ok_def)
    have pf: "p \<notin> foot (pmem s2) old N"
      using t(5) copying_old(2) [OF C wf] copying_old(2) [OF C2 wf] by simp
    have al: "page_aligned p" using t(4) by (simp add: page_ok_def)
    show thesis
    using aspaceD(1) [OF D2(2)] k20 un
    proof (cases rule: map_page [where pa = p and perm = "PTE_FLAGS e", case_names ok full])
      case (ok s3 ps3)
      define e' where "e' = PA2PTE p OR PTE_FLAGS e OR PTE_V"
      have E: "PTE2PA e' = p" "PTE_FLAGS e' = PTE_FLAGS e" unfolding e'_def by (rule copied_entry [OF al a(4)])+
      have "copying W s0 old new N (R(k := Some e')) (T - {p}) s3 ps3 k"
        by (rule copying_ext [OF C2 wf kN N20 ok(2)]) (use ok(3) D2(6) e'_def in auto)
      note C3 = this
      note D3 = copyingD [OF C3]
      have off: "same_off (pt_pages (pmem s3) new) (pmem s2) (pmem s3)" and ke: "kend s3 = kend s2"
        using ok(2) by (auto simp: vm_ext_def same_off_def)
      have pn: "{p} \<inter> pt_pages (pmem s3) new = {}" using D3(8) by (auto simp: foot_def)
      have tp: "\<forall>q \<in> pt_pages (pmem s3) new. page_aligned q" using pt_pages_aligned [OF aspaceD(3) [OF D3(2)]] by blast
      have onp: "same_on {p} (pmem s2) (pmem s3)" by (rule same_off_on [OF off _ tp pn]) (simp add: al)
      have ono: "same_on (foot (pmem s2) old N) (pmem s2) (pmem s3)"
      proof (rule same_off_on [OF off _ tp])
        show "\<forall>p \<in> foot (pmem s2) old N. page_aligned p" using foot_aligned [OF aspaceD(3) [OF D2(1)]] by blast
        show "foot (pmem s2) old N \<inter> pt_pages (pmem s3) new = {}"
          using D3(3) copying_old(2) [OF C2 wf] copying_old(2) [OF C3 wf] by (auto simp: foot_def)
      qed
      have fe2: "PTE2PA e \<in> foot (pmem s2) old N" using fe copying_old(2) [OF C wf] copying_old(2) [OF C2 wf] by simp
      have "copying W s0 old new N R (insert (PTE2PA e') (T - {p})) s3 ps3 (Suc k)"
      proof (rule copying_add [OF C3 k(1) N20 wf _ E(2)])
        show "pmap (pmem s3) old k = Some e" using e copying_old(1) [OF C wf] copying_old(1) [OF C3 wf] by simp
        show "page_ok s3 (PTE2PA e')" using ok2 ke E(1) by (simp add: page_ok_def)
        show "PTE2PA e' \<notin> foot (pmem s3) old N" using pf E(1) copying_old(2) [OF C2 wf] copying_old(2) [OF C3 wf] by simp
        show "\<forall>x. unat x < 4096 \<longrightarrow> pmem s3 (PTE2PA e' + x) = pmem s3 (PTE2PA e + x)"
          using same onp ono fe2 in_page_plus unfolding E(1) same_on_def by auto
      qed (use own E(1) t(6) D(9) in auto)
      moreover have "insert (PTE2PA e') (T - {p}) = T" using t(6) E(1) by auto
      moreover have "uvmcopy_loop (Suc n) old new (pg k) sz s = uvmcopy_loop n old new (pg (Suc k)) sz s3"
        using round ok(1) by simp
      moreover have "length ps \<le> length ps3 + 2" using ok(4) Cons by simp
      ultimately show thesis using copied by metis
    next
      case (full s3)
      have C3: "copying W s0 old new N R (T - {p}) s3 [] k"
        by (rule copying_ext [OF C2 wf kN N20 full(2)]) (use full(3) D2(6) in auto)
      note D3 = copyingD [OF C3]
      have ok3: "page_ok s3 p" using ok2 full(2) by (simp add: page_ok_def vm_ext_def)
      obtain s4 where f: "kfree p s3 = Ok s4" "kinv s4 [p]" "same_outside p s3 s4"
        using kfree_ok [OF aspaceD(2) [OF D3(1)] ok3] by auto
      have off: "same_off {p} (pmem s3) (pmem s4)" and ke: "kend s4 = kend s3"
        using f(3) by (auto simp: same_outside_def same_off_def)
      have pf3: "p \<notin> foot (pmem s3) old N" "p \<notin> foot (pmem s3) new k"
        using pf copying_old(2) [OF C2 wf] copying_old(2) [OF C3 wf] D3(8) by auto
      have C4: "copying W s0 old new N R (set [p] \<union> foot (pmem s3) new k) s4 [p] k"
      proof (rule copying_frame [OF C3 wf kN f(2) ke])
        show "same_on (foot (pmem s3) old N) (pmem s3) (pmem s4)" "same_on (foot (pmem s3) new k) (pmem s3) (pmem s4)"
          by (rule same_off_on [OF off]; use foot_aligned [OF aspaceD(3) [OF D3(1)]] foot_aligned [OF aspaceD(3) [OF D3(2)]] al pf3 in blast)+
      next
        have "p \<in> W" using t(6) D(9) by blast
        then show "set [p] \<subseteq> W" "same_off W (pmem s3) (pmem s4)" using same_off_mono [OF off] by auto
      qed (use pf3 in auto)
      have "set [p] \<union> foot (pmem s3) new k = T" using D3(8) t(6) by auto
      note C5 = C4 [unfolded this]
      obtain s' ps' where u: "uvmunmap new 0 (of_nat k) True s4 = Ok s'" "copying W s0 old new N R T s' ps' 0"
        by (rule copying_undo [OF C5 wf kN k(2) R])
      have "uvmcopy_loop (Suc n) old new (pg k) sz s = Ok (-1, s')" using round full(1) f(1) u(1) by simp
      then show thesis by (rule undone [OF u(2)]) (simp add: Cons full(4))
    qed
  qed
qed

lemma uvmcopy_loop_spec:
  assumes "copying W s0 old new N R T s ps k" "pt_wf (pmem s0) old" "k \<le> N" "N < 2 ^ 20"
    "\<forall>j < N. R j = None" "\<forall>j < N. pmap (pmem s0) old j \<noteq> None" "N = (unat sz + 4095) div 4096" "N - k < n"
  shows "\<exists>r s' ps'. uvmcopy_loop n old new (pg k) sz s = Ok (r, s') \<and>
    (r = 0 \<and> copying W s0 old new N R T s' ps' N \<or>
     r = -1 \<and> copying W s0 old new N R T s' ps' 0 \<and> length ps < 2 * (N - k))"
  using assms
proof (induction n arbitrary: s ps k)
  case (Suc n)
  show ?case
  proof (cases "k < N")
    case True
    have all: "pmap (pmem s0) old k \<noteq> None" using Suc.prems(6) True by blast
    from Suc.prems(1,2) True Suc.prems(4,5) all Suc.prems(7) show ?thesis
    proof (cases rule: uvmcopy_round [where n = n, case_names copied undone])
      case (copied s' ps')
      have "Suc k \<le> N" "N - Suc k < n" using True Suc.prems(8) by simp_all
      from Suc.IH [OF copied(1) Suc.prems(2) this(1) Suc.prems(4-7) this(2)] obtain r t qs where
        r: "uvmcopy_loop n old new (pg (Suc k)) sz s' = Ok (r, t)" "r = 0 \<and> copying W s0 old new N R T t qs N \<or>
          r = -1 \<and> copying W s0 old new N R T t qs 0 \<and> length ps' < 2 * (N - Suc k)" by blast
      have "length ps < 2 * (N - k)" if "length ps' < 2 * (N - Suc k)" using that copied(2) by simp
      then show ?thesis using r unfolding copied(3) by blast
    next
      case (undone s' ps')
      then have "length ps < 2 * (N - k)" using True by simp
      then show ?thesis using undone(1,2) by blast
    qed
  next
    case False
    then have "k = N" "\<not> pg k < sz" using Suc.prems(3,4,7) pg_below [of k sz] by simp_all
    then show ?thesis using Suc.prems(1) by auto
  qed
qed simp

subsection \<open>The copy seen from user space\<close>

lemma user_byte_pmap:
  "user_byte m pt va = (case pmap m pt (unat va div 4096) of None \<Rightarrow> None
     | Some e \<Rightarrow> if PTE_FLAGS e AND PTE_U \<noteq> 0 then Some (m (PTE2PA e + (va - PGROUNDDOWN va))) else None)"
proof -
  have "e AND PTE_U = PTE_FLAGS e AND PTE_U" for e :: u32
    by (simp add: PTE_FLAGS_def PTE_U_def and.assoc)
  then show ?thesis by (simp add: user_byte_def user_entry_def mapping_pmap split: option.split)
qed

lemma user_entry_below:
  assumes "space_inv s pt ps (4096 * N)" "N \<le> unat va div 4096"
  shows "user_byte (pmem s) pt va = None"
proof (rule ccontr)
  assume "user_byte (pmem s) pt va \<noteq> None"
  then have "unat va < 4096 * N" using assms(1) by (auto simp: user_byte_def space_inv_def)
  then show False using assms(2) by linarith
qed

lemma user_byte_same:
  assumes "pmap m' pt = pmap m pt" "same_on (frames m pt 0 N) m m'" "\<And>va. N \<le> unat va div 4096 \<Longrightarrow> user_byte m pt va = None"
  shows "user_byte m' pt = user_byte m pt"
proof
  fix va
  show "user_byte m' pt va = user_byte m pt va"
  proof (cases "unat va div 4096 < N")
    case True
    have "m' (PTE2PA e + (va - PGROUNDDOWN va)) = m (PTE2PA e + (va - PGROUNDDOWN va))" if "pmap m pt (unat va div 4096) = Some e" for e
      using assms(2) frames_entry [OF that, of 0 N] True in_page_plus [OF page_offset_less] unfolding same_on_def by simp
    then show ?thesis by (simp add: user_byte_pmap assms(1) split: option.split)
  next
    case False
    then have "user_byte m pt va = None" using assms(3) by simp
    then show ?thesis
      by (cases "pmap m pt (unat va div 4096)") (simp_all add: user_byte_pmap assms(1) split: if_splits)
  qed
qed

lemma twin_user_byte:
  assumes "twin m old new (unat va div 4096)"
  shows "user_byte m new va = user_byte m old va"
  using assms page_offset_less [of va] by (auto simp: twin_def user_byte_pmap)

lemma aspace_0: "aspace s pt ps 0 \<longleftrightarrow> vm_inv s pt ps"
  by (simp add: aspace_def)

lemma user_entry_pmap: "user_entry m pt va = (case pmap m pt (unat va div 4096) of None \<Rightarrow> None
     | Some e \<Rightarrow> if e AND PTE_U \<noteq> 0 then Some e else None)"
  by (simp add: user_entry_def mapping_pmap)

subsection \<open>A parent, a child and free pages\<close>

text \<open>\<open>demo_space\<close> with an empty child table and two free pages below it.\<close>

definition demo_fork :: phys where
  "demo_fork = demo_space\<lparr>pmem := store32 (pmem demo_space) 0x8007B000 0x8007A000, freelist := 0x8007B000, kend := 0x8007A000\<rparr>"

definition demo_new :: u32 where "demo_new = 0x8007C000"

lemma demo_fork_aligned [simp]:
  "page_aligned 0x8007A000" "page_aligned 0x8007B000" "page_aligned 0x8007C000"
  by (simp_all add: page_aligned_def)

lemma demo_fork_same: "same_on {0x8007C000, 0x8007D000, 0x8007E000, 0x8007F000} (pmem demo_space) (pmem demo_fork)"
proof (rule same_off_on [of "{0x8007B000}"])
  show "same_off {0x8007B000} (pmem demo_space) (pmem demo_fork)"
    by (simp add: demo_fork_def same_off_def store32_other_page)
qed simp_all

text \<open>The space of \<open>demo_space\<close> in any state with its three pages.\<close>

lemma demo_tree_keep:
  assumes m: "same_on {0x8007D000, 0x8007E000, 0x8007F000} (pmem demo_space) (pmem s)"
  shows "pt_wf (pmem s) 0x8007D000" "pt_pages (pmem s) 0x8007D000 = {0x8007D000, 0x8007E000}"
    "mapping (pmem s) 0x8007D000 va = (if same_page 0 va then Some demo_entry else None)"
proof -
  have wf: "pt_wf (pmem demo_space) 0x8007D000" using demo_vm_inv by (simp add: vm_inv_def)
  have "same_on (pt_pages (pmem demo_space) 0x8007D000) (pmem demo_space) (pmem s)"
    unfolding demo_pages by (rule same_on_mono [OF m]) simp
  note t = tree_same [OF wf this]
  show "pt_wf (pmem s) 0x8007D000" "pt_pages (pmem s) 0x8007D000 = {0x8007D000, 0x8007E000}"
    "mapping (pmem s) 0x8007D000 va = (if same_page 0 va then Some demo_entry else None)"
    using t(1-3) by (simp_all add: demo_pages demo_mapping)
qed

lemma demo_space_keep:
  assumes m: "same_on {0x8007D000, 0x8007E000, 0x8007F000} (pmem demo_space) (pmem s)"
    and k: "kinv s ps" "set ps \<inter> {0x8007D000, 0x8007E000, 0x8007F000} = {}" "kend s \<le> 0x8007D000"
  shows "space_inv s 0x8007D000 ps (4096 * 1)"
proof -
  note t = demo_tree_keep [OF m]
  have ok: "page_ok s 0x8007F000" "page_ok s 0x8007D000" "page_ok s 0x8007E000"
    using k(3) by (auto simp: page_ok_def layout_defs word_le_nat_alt)
  have "vm_inv s 0x8007D000 ps" unfolding vm_inv_def t(2) using k t(1) ok by auto
  moreover have "unat va < 4096" if "same_page 0 va" for va
    using that in_page_PGROUNDDOWN [of va]
    by (simp add: same_page_PGROUNDDOWN PGROUNDDOWN_def in_page_def)
  moreover have "same_page va va'" if "same_page 0 va" "same_page 0 va'" for va va'
    using that by (simp add: same_page_def)
  ultimately show ?thesis
    unfolding space_inv_def user_entry_def t(2,3) using ok(1) k(2) by (auto simp: demo_entry_facts split: if_splits)
qed

lemmas demo_fork_tree = demo_tree_keep [OF same_on_mono [OF demo_fork_same], simplified]

lemma demo_new_table: "i < 1024 \<Longrightarrow> l1 (pmem demo_fork) demo_new i = 0"
  using slot_pages_differ [of "0x8007D000" demo_new 0 i] slot_pages_differ [of "0x8007E000" demo_new 0 i]
    slot_pages_differ [of "0x8007B000" demo_new 0 i]
  by (simp add: l1_def demo_fork_def demo_space_def demo_new_def load32_store32_aligned aligned4_slot page_aligned_aligned4
      slot_def [of "0x8007B000" 0])

lemma demo_new_absent: "i < 1024 \<Longrightarrow> \<not> present (pmem demo_fork) demo_new i"
  by (simp add: present_def demo_new_table)

lemma demo_new_map: "mapping (pmem demo_fork) demo_new va = None"
  by (simp add: mapping_def leaf_def demo_new_absent)

lemma demo_new_pages: "pt_pages (pmem demo_fork) demo_new = {demo_new}"
  using demo_new_absent by (auto simp: pt_pages_def)

lemma demo_fork_free: "kinv demo_fork [0x8007B000, 0x8007A000]"
proof -
  have "load32 (pmem demo_fork) 0x8007B000 = 0x8007A000" by (simp add: demo_fork_def)
  moreover have "load32 (pmem demo_fork) 0x8007A000 = 0"
    using slot_pages_differ [of "0x8007D000" "0x8007A000" 0 0] slot_pages_differ [of "0x8007E000" "0x8007A000" 0 0]
    by (simp add: demo_fork_def demo_space_def load32_store32_aligned aligned4_slot page_aligned_aligned4
        slot_def [of "0x8007A000" 0])
  ultimately show ?thesis
    by (simp add: kinv_def page_ok_def) (simp add: demo_fork_def layout_defs)
qed

lemma demo_fork_space: "space_inv demo_fork 0x8007D000 [0x8007B000, 0x8007A000] (4096 * 1)"
  by (rule demo_space_keep [OF same_on_mono [OF demo_fork_same] demo_fork_free]) (simp_all add: demo_fork_def)

lemma demo_fork_child: "vm_inv demo_fork demo_new [0x8007B000, 0x8007A000]"
  unfolding vm_inv_def demo_new_pages
  using demo_fork_free demo_new_absent
  by (simp add: pt_wf_def) (simp add: demo_new_def page_ok_def demo_fork_def layout_defs)

lemma demo_fork_apart: "foot (pmem demo_fork) 0x8007D000 1 \<inter> pt_pages (pmem demo_fork) demo_new = {}"
proof -
  have "foot (pmem demo_fork) 0x8007D000 1 \<subseteq> {0x8007D000, 0x8007E000, 0x8007F000}"
    unfolding foot_def demo_fork_tree(2) frames_def pmap_def demo_fork_tree(3)
    by (auto simp: demo_entry_facts split: if_splits)
  then show ?thesis unfolding demo_new_pages by (auto simp: demo_new_def)
qed

text \<open>The copy with what it keeps: only pages that were free or the child's are written.\<close>

lemma uvmcopy_spec:
  assumes "space_inv s old ps (4096 * N)" "vm_inv s new ps" "N = (unat sz + 4095) div 4096" "N < 2 ^ 20"
    "\<And>i. i < N \<Longrightarrow> mapping (pmem s) old (pg i) \<noteq> None" "\<And>i. i < N \<Longrightarrow> mapping (pmem s) new (pg i) = None"
    "\<And>va. user_entry (pmem s) new va = None" "foot (pmem s) old N \<inter> pt_pages (pmem s) new = {}"
  shows "\<exists>r s' ps'. uvmcopy old new sz s = Ok (r, s') \<and>
    kend s' = kend s \<and> same_off (set ps \<union> pt_pages (pmem s) new) (pmem s) (pmem s') \<and>
    set ps' \<union> foot (pmem s') new (if r = 0 then N else 0) = set ps \<union> pt_pages (pmem s) new \<and>
    foot (pmem s') old N = foot (pmem s) old N \<and>
    (\<forall>j. N \<le> j \<longrightarrow> j < 2 ^ 20 \<longrightarrow> pmap (pmem s') new j = pmap (pmem s) new j) \<and>
    (r = 0 \<longrightarrow> (\<forall>j < N. pmap (pmem s') new j \<noteq> None)) \<and>
    space_inv s' old ps' (4096 * N) \<and> user_byte (pmem s') old = user_byte (pmem s) old \<and>
    (r = 0 \<and> space_inv s' new ps' (4096 * N) \<and> user_byte (pmem s') new = user_byte (pmem s) old \<and>
       foot (pmem s') old N \<inter> foot (pmem s') new N = {} \<or>
     r = -1 \<and> length ps < 2 * N \<and> vm_inv s' new ps' \<and> mapping (pmem s') new = mapping (pmem s) new \<and>
       set ps' \<union> pt_pages (pmem s') new = set ps \<union> pt_pages (pmem s) new)"
proof -
  let ?R = "pmap (pmem s) new" and ?T = "set ps \<union> foot (pmem s) new 0"
  have N20: "N \<le> 2 ^ 20" using assms(4) by simp
  note A = conjunct1 [OF assms(1) [unfolded space_inv_aspace [OF N20]]]
  have f0: "foot m new 0 = pt_pages m new" for m by (simp add: foot_def)
  have C: "copying ?T s old new N ?R ?T s ps 0"
    using A assms(2,8) by (simp add: copying_def aspace_0 f0 same_on_def same_off_def)
  have wf: "pt_wf (pmem s) old" by (rule aspaceD(3) [OF A])
  have R: "\<forall>j < N. ?R j = None" "\<forall>j < N. pmap (pmem s) old j \<noteq> None" using assms(5,6) by (simp_all add: pmap_def)
  have fuel: "N - 0 < Suc n_pages" using assms(4) by (simp add: n_pages_def)
  have "uvmcopy old new sz s = uvmcopy_loop (Suc n_pages) old new (pg 0) sz s" by (simp add: uvmcopy_def pg_def)
  then obtain r s' ps' where u: "uvmcopy old new sz s = Ok (r, s')"
    "r = 0 \<and> copying ?T s old new N ?R ?T s' ps' N \<or> r = -1 \<and> copying ?T s old new N ?R ?T s' ps' 0 \<and> length ps < 2 * (N - 0)"
    using uvmcopy_loop_spec [OF C wf _ assms(4) R assms(3) fuel] by auto
  have parent: "space_inv s' old ps' (4096 * N) \<and> user_byte (pmem s') old = user_byte (pmem s) old"
    if "copying ?T s old new N ?R ?T s' ps' k" for k
  proof -
    note D = copyingD [OF that]
    note eq = copying_old [OF that wf]
    have "same_on (frames (pmem s) old 0 N) (pmem s) (pmem s')" using D(4) by (rule same_on_mono) (simp add: foot_def)
    then have "user_byte (pmem s') old = user_byte (pmem s) old"
      by (rule user_byte_same [OF eq(1) _ user_entry_below [OF assms(1)]])
    moreover have "user_entry (pmem s') old = user_entry (pmem s) old" by (simp add: fun_eq_iff user_entry_pmap eq(1))
    ultimately show ?thesis using D(1) assms(1) by (simp add: space_inv_aspace [OF N20])
  qed
  from u(2) show ?thesis
  proof (elim disjE conjE)
    assume r: "r = 0" and C': "copying ?T s old new N ?R ?T s' ps' N"
    note D = copyingD [OF C']
    have high: "user_entry (pmem s') new va = None" if "N \<le> unat va div 4096" for va
      using D(6) [OF that page_number_less] assms(7) [of va] by (simp add: user_entry_pmap)
    have ub: "user_byte (pmem s') new = user_byte (pmem s') old"
    proof
      fix va
      show "user_byte (pmem s') new va = user_byte (pmem s') old va"
      proof (cases "unat va div 4096 < N")
        case True then show ?thesis using twin_user_byte D(5) by blast
      next
        case False
        then have "N \<le> unat va div 4096" by simp
        then show ?thesis
          using high user_entry_below [OF conjunct1 [OF parent [OF C']]] by (simp add: user_byte_def)
      qed
    qed
    have below: "unat va < 4096 * N" if "user_entry (pmem s') new va = Some e" for va e
    proof (rule ccontr)
      assume "\<not> unat va < 4096 * N"
      then have "N \<le> unat va div 4096" by linarith
      then show False using high that by simp
    qed
    have all: "\<forall>j < N. pmap (pmem s') new j \<noteq> None" using D(5) by (auto simp: twin_def)
    from below have "space_inv s' new ps' (4096 * N)" using D(2) by (simp add: space_inv_aspace [OF N20])
    then show ?thesis using u(1) r parent [OF C'] ub all D(3,6-8,10) copying_old(2) [OF C' wf] by (intro exI [of _ r] exI [of _ s'] exI [of _ ps']) (simp add: f0)
  next
    assume r: "r = -1" and C': "copying ?T s old new N ?R ?T s' ps' 0" and few: "length ps < 2 * (N - 0)"
    note D = copyingD [OF C']
    have "mapping (pmem s') new = mapping (pmem s) new"
      using D(6) page_number_less by (simp add: fun_eq_iff mapping_pmap)
    then show ?thesis using u(1) r few parent [OF C'] D(2,6-8,10) copying_old(2) [OF C' wf]
      by (intro exI [of _ r] exI [of _ s'] exI [of _ ps']) (simp add: aspace_0 f0)
  qed
qed

text \<open>
  C18: \<open>uvmcopy\<close> gives the child a copy of the parent's memory or nothing. For a parent whose pages
  below \<open>sz\<close> are mapped and its own, and a child with none of them, either it returns 0 and every
  user address reads the same byte in the child as in the parent, the two spaces sharing no page
  (what one writes the other does not see), or it returns -1 and the child maps what it did before:
  the pages taken for memory are free again, those taken for page tables stay in the child's table,
  and no page is lost. That happens only when fewer than two free pages were left for each page to
  copy. In both cases the parent's memory and map are what they were.
\<close>

theorem uvmcopy_copies_memory:
  assumes "space_inv s old ps (4096 * N)" "vm_inv s new ps" "N = (unat sz + 4095) div 4096" "N < 2 ^ 20"
    "\<And>i. i < N \<Longrightarrow> mapping (pmem s) old (pg i) \<noteq> None" "\<And>i. i < N \<Longrightarrow> mapping (pmem s) new (pg i) = None"
    "\<And>va. user_entry (pmem s) new va = None" "foot (pmem s) old N \<inter> pt_pages (pmem s) new = {}"
  shows "\<exists>r s' ps'. uvmcopy old new sz s = Ok (r, s') \<and>
    space_inv s' old ps' (4096 * N) \<and> user_byte (pmem s') old = user_byte (pmem s) old \<and>
    (r = 0 \<and> space_inv s' new ps' (4096 * N) \<and> user_byte (pmem s') new = user_byte (pmem s) old \<and>
       foot (pmem s') old N \<inter> foot (pmem s') new N = {} \<or>
     r = -1 \<and> length ps < 2 * N \<and> vm_inv s' new ps' \<and> mapping (pmem s') new = mapping (pmem s) new \<and>
       set ps' \<union> pt_pages (pmem s') new = set ps \<union> pt_pages (pmem s) new)"
  using uvmcopy_spec [OF assms] by blast

lemma uvmcopy_copies_memory_witness:
  "\<exists>s' ps'. uvmcopy 0x8007D000 demo_new 4096 demo_fork = Ok (0, s') \<and>
    space_inv s' demo_new ps' (4096 * 1) \<and> user_byte (pmem s') demo_new = user_byte (pmem demo_fork) 0x8007D000 \<and>
    foot (pmem s') 0x8007D000 1 \<inter> foot (pmem s') demo_new 1 = {}"
proof -
  have "mapping (pmem demo_fork) 0x8007D000 (pg i) \<noteq> None" if "i < 1" for i
    using that by (simp add: demo_fork_tree(3) pg_def same_page_def)
  from uvmcopy_copies_memory [OF demo_fork_space demo_fork_child _ _ this _ _ demo_fork_apart, of 4096]
  show ?thesis by (auto simp: demo_new_map user_entry_def)
qed

end
