(* ===== verification/Spinlock.thy ===== *)
theory Spinlock
  imports Xv6_Prelude
begin

text \<open>
  Spin locks (\<open>kernel/spinlock.c\<close>) and the per-hart interrupt nesting count. A lock is a
  word and the hart that holds it; \<open>push_off\<close> and \<open>pop_off\<close> act on the hart's interrupt
  enable bit. The sequential functions are the code run without interference. The step
  relation \<open>lstep\<close> interleaves the atomic actions of \<open>acquire\<close> and \<open>release\<close> of any number of
  harts, and mutual exclusion is an invariant of its reachable states.
\<close>

subsection \<open>State\<close>

datatype lock =
    PidLock | WaitLock | ProcLock nat | TicksLock | KmemLock | BcacheLock | LogLock
  | ItableLock | FtableLock | PipeLock u32 | ConsLock | UartLock | PrLock | SleepGuard nat

record spinlock =
  locked :: u32
  lcpu :: "nat option"

record cpu =
  noff :: int
  intena :: bool
  sie :: bool

record lstate =
  cpus :: "nat \<Rightarrow> cpu"
  lk :: "lock \<Rightarrow> spinlock"

definition upd_cpu :: "nat \<Rightarrow> (cpu \<Rightarrow> cpu) \<Rightarrow> lstate \<Rightarrow> lstate" where
  "upd_cpu h f s = s\<lparr>cpus := (cpus s)(h := f (cpus s h))\<rparr>"

definition upd_lk :: "lock \<Rightarrow> (spinlock \<Rightarrow> spinlock) \<Rightarrow> lstate \<Rightarrow> lstate" where
  "upd_lk l f s = s\<lparr>lk := (lk s)(l := f (lk s l))\<rparr>"

lemma upd_sel [simp]:
  "cpus (upd_cpu h f s) = (cpus s)(h := f (cpus s h))" "lk (upd_cpu h f s) = lk s"
  "cpus (upd_lk l g s) = cpus s" "lk (upd_lk l g s) = (lk s)(l := g (lk s l))"
  by (simp_all add: upd_cpu_def upd_lk_def)

subsection \<open>Operations\<close>

definition initlock :: "lock \<Rightarrow> lstate \<Rightarrow> lstate" where
  "initlock l s = upd_lk l (\<lambda>k. k\<lparr>locked := 0, lcpu := None\<rparr>) s"

definition holding :: "nat \<Rightarrow> lock \<Rightarrow> lstate \<Rightarrow> bool" where
  "holding h l s \<longleftrightarrow> locked (lk s l) \<noteq> 0 \<and> lcpu (lk s l) = Some h"

definition push_off :: "nat \<Rightarrow> lstate \<Rightarrow> lstate" where
  "push_off h s =
     upd_cpu h (\<lambda>c. let old = sie c; c = c\<lparr>sie := False\<rparr>;
                        c = (if noff c = 0 then c\<lparr>intena := old\<rparr> else c)
                    in c\<lparr>noff := noff c + 1\<rparr>) s"

definition pop_off :: "nat \<Rightarrow> lstate \<Rightarrow> lstate res" where
  "pop_off h s =
     (if sie (cpus s h) then Fail (Panic ''pop_off - interruptible'')
      else if noff (cpus s h) < 1 then Fail (Panic ''pop_off'')
      else Ok (upd_cpu h (\<lambda>c. let c = c\<lparr>noff := noff c - 1\<rparr>
                              in if noff c = 0 \<and> intena c then c\<lparr>sie := True\<rparr> else c) s))"

lemma lk_push_off [simp]: "lk (push_off h s) = lk s"
  by (simp add: push_off_def)

text \<open>The atomic swap: the old value of the lock word, which becomes 1.\<close>

definition test_and_set :: "lock \<Rightarrow> lstate \<Rightarrow> u32 \<times> lstate" where
  "test_and_set l s = (locked (lk s l), upd_lk l (\<lambda>k. k\<lparr>locked := 1\<rparr>) s)"

text \<open>Run without interference, a swap that finds the lock taken spins for ever.\<close>

definition acquire :: "nat \<Rightarrow> lock \<Rightarrow> lstate \<Rightarrow> lstate res" where
  "acquire h l s =
     (let s = push_off h s
      in if holding h l s then Fail (Panic ''acquire'')
         else case test_and_set l s of (old, s) \<Rightarrow>
                if old \<noteq> 0 then Fail Spins
                else Ok (upd_lk l (\<lambda>k. k\<lparr>lcpu := Some h\<rparr>) s))"

definition release :: "nat \<Rightarrow> lock \<Rightarrow> lstate \<Rightarrow> lstate res" where
  "release h l s =
     (if \<not> holding h l s then Fail (Panic ''release'')
      else let s = upd_lk l (\<lambda>k. k\<lparr>lcpu := None\<rparr>) s;
               s = upd_lk l (\<lambda>k. k\<lparr>locked := 0\<rparr>) s
           in pop_off h s)"

subsection \<open>Nesting of push_off and pop_off\<close>

primrec push_offs :: "nat \<Rightarrow> nat \<Rightarrow> lstate \<Rightarrow> lstate" where
  "push_offs h 0 s = s"
| "push_offs h (Suc n) s = push_off h (push_offs h n s)"

primrec pop_offs :: "nat \<Rightarrow> nat \<Rightarrow> lstate \<Rightarrow> lstate res" where
  "pop_offs h 0 s = Ok s"
| "pop_offs h (Suc n) s = seq (pop_off h s) (pop_offs h n)"

text \<open>
  The hart invariant: the count is never negative, and interrupts are off while it is
  positive.
\<close>

definition hart_ok :: "cpu \<Rightarrow> bool" where
  "hart_ok c \<longleftrightarrow> 0 \<le> noff c \<and> (0 < noff c \<longrightarrow> \<not> sie c)"

lemma push_offs_effect:
  assumes "hart_ok (cpus s h)"
  shows "push_offs h (Suc n) s = upd_cpu h (\<lambda>c. c\<lparr>sie := False, noff := noff c + 1 + int n,
     intena := (if noff c = 0 then sie c else intena c)\<rparr>) s"
proof (induction n)
  case (Suc n)
  have "noff (cpus s h) + 1 + int n \<noteq> 0" using assms by (simp add: hart_ok_def)
  then show ?case
    by (simp only: push_offs.simps(2) [of h "Suc n"] Suc.IH)
       (cases "cpus s h"; simp add: push_off_def upd_cpu_def Let_def)
qed (cases "cpus s h"; simp add: push_off_def upd_cpu_def Let_def)

lemma pop_offs_down:
  assumes "\<not> sie (cpus s h)" "int n < noff (cpus s h)"
  shows "pop_offs h n s = Ok (upd_cpu h (\<lambda>c. c\<lparr>noff := noff c - int n\<rparr>) s)"
  using assms
proof (induction n arbitrary: s)
  case (Suc n)
  let ?s = "upd_cpu h (\<lambda>c. c\<lparr>noff := noff c - 1\<rparr>) s"
  have "pop_off h s = Ok ?s" using Suc.prems by (simp add: pop_off_def upd_cpu_def)
  moreover have "pop_offs h n ?s = Ok (upd_cpu h (\<lambda>c. c\<lparr>noff := noff c - int n\<rparr>) ?s)"
    using Suc.prems by (intro Suc.IH) simp_all
  ultimately show ?case by (simp add: upd_cpu_def diff_diff_eq)
qed (simp add: upd_cpu_def)

lemma pop_offs_add: "pop_offs h (n + k) s = seq (pop_offs h n s) (pop_offs h k)"
  by (induction n arbitrary: s) (auto simp: seq_assoc intro: seq_cong)

lemma push_pop_restores:
  assumes "hart_ok (cpus s h)"
  shows "pop_offs h n (push_offs h n s) = Ok (if n = 0 then s else
    upd_cpu h (\<lambda>c. c\<lparr>intena := (if noff c = 0 then sie c else intena c)\<rparr>) s)"
proof (cases n)
  case (Suc k)
  let ?s = "push_offs h (Suc k) s"
  let ?t = "upd_cpu h (\<lambda>c. c\<lparr>noff := noff c - int k\<rparr>) ?s"
  note push = push_offs_effect [OF assms, of k]
  have n: "0 \<le> noff (cpus s h)" "0 < noff (cpus s h) \<Longrightarrow> \<not> sie (cpus s h)"
    using assms by (auto simp: hart_ok_def)
  have down: "pop_offs h k ?s = Ok ?t"
    unfolding push using n by (intro pop_offs_down) simp_all
  have "pop_offs h (k + 1) ?s = seq (pop_offs h k ?s) (pop_offs h 1)" by (rule pop_offs_add)
  then have "pop_offs h (Suc k) ?s = pop_off h ?t"
    unfolding down by (cases "pop_off h ?t") simp_all
  also have "\<dots> = Ok (upd_cpu h (\<lambda>c. c\<lparr>intena := (if noff c = 0 then sie c else intena c)\<rparr>) s)"
    unfolding push using n by (cases "cpus s h") (auto simp: pop_off_def upd_cpu_def Let_def)
  finally show ?thesis using Suc by simp
qed simp

subsection \<open>Interleaved harts\<close>

text \<open>
  What a hart is doing: nothing with locks, spinning for one, past the swap but not yet
  recorded as holder, or past clearing the holder but not yet the word. Each step is one
  atomic action of \<open>acquire\<close> or \<open>release\<close>. A step that would panic is not a step; that no
  run gets stuck in one is a lemma.
\<close>

datatype activity = Idle | Spinning lock | Swapped lock | Cleared lock

record hart =
  held :: "lock list"
  act :: activity

type_synonym config = "lstate \<times> (nat \<Rightarrow> hart)"

inductive lstep :: "config \<Rightarrow> config \<Rightarrow> bool" where
  acquire_start:
    "act (p h) = Idle \<Longrightarrow> s' = push_off h s \<Longrightarrow> \<not> holding h l s' \<Longrightarrow>
     lstep (s, p) (s', p(h := (p h)\<lparr>act := Spinning l\<rparr>))"
| acquire_retry:
    "act (p h) = Spinning l \<Longrightarrow> test_and_set l s = (old, s') \<Longrightarrow> old \<noteq> 0 \<Longrightarrow> lstep (s, p) (s', p)"
| acquire_swap:
    "act (p h) = Spinning l \<Longrightarrow> test_and_set l s = (0, s') \<Longrightarrow>
     lstep (s, p) (s', p(h := (p h)\<lparr>act := Swapped l\<rparr>))"
| acquire_record:
    "act (p h) = Swapped l \<Longrightarrow>
     lstep (s, p) (upd_lk l (\<lambda>k. k\<lparr>lcpu := Some h\<rparr>) s,
                   p(h := \<lparr>held = l # held (p h), act = Idle\<rparr>))"
| release_clear:
    "act (p h) = Idle \<Longrightarrow> holding h l s \<Longrightarrow>
     lstep (s, p) (upd_lk l (\<lambda>k. k\<lparr>lcpu := None\<rparr>) s,
                   p(h := \<lparr>held = remove1 l (held (p h)), act = Cleared l\<rparr>))"
| release_store:
    "act (p h) = Cleared l \<Longrightarrow> pop_off h (upd_lk l (\<lambda>k. k\<lparr>locked := 0\<rparr>) s) = Ok s' \<Longrightarrow>
     lstep (s, p) (s', p(h := (p h)\<lparr>act := Idle\<rparr>))"
| set_interrupts:
    "act (p h) = Idle \<Longrightarrow> noff (cpus s h) = 0 \<Longrightarrow>
     lstep (s, p) (upd_cpu h (\<lambda>c. c\<lparr>sie := b\<rparr>) s, p)"

inductive_cases lstep_elim: "lstep c c'"

definition lock_start :: config where
  "lock_start =
     (\<lparr>cpus = (\<lambda>_. \<lparr>noff = 0, intena = False, sie = False\<rparr>),
       lk = (\<lambda>_. \<lparr>locked = 0, lcpu = None\<rparr>)\<rparr>,
      \<lambda>_. \<lparr>held = [], act = Idle\<rparr>)"

inductive lreach :: "config \<Rightarrow> bool" where
  lreach_start: "lreach lock_start"
| lreach_step: "lreach c \<Longrightarrow> lstep c c' \<Longrightarrow> lreach c'"

definition owns :: "hart \<Rightarrow> lock \<Rightarrow> bool" where
  "owns x l \<longleftrightarrow> l \<in> set (held x) \<or> act x = Swapped l \<or> act x = Cleared l"

definition linv :: "config \<Rightarrow> bool" where
  "linv c \<longleftrightarrow> (case c of (s, p) \<Rightarrow>
     (\<forall>l. locked (lk s l) \<noteq> 0 \<longleftrightarrow> (\<exists>h. owns (p h) l)) \<and>
     (\<forall>l h h'. owns (p h) l \<longrightarrow> owns (p h') l \<longrightarrow> h = h') \<and>
     (\<forall>l h. lcpu (lk s l) = Some h \<longleftrightarrow> l \<in> set (held (p h))) \<and>
     (\<forall>h. distinct (held (p h)) \<and> act (p h) \<notin> Swapped ` set (held (p h)) \<union> Cleared ` set (held (p h))) \<and>
     (\<forall>h. noff (cpus s h) = int (length (held (p h))) + (if act (p h) = Idle then 0 else 1)) \<and>
     (\<forall>h. 0 < noff (cpus s h) \<longrightarrow> \<not> sie (cpus s h)))"

lemma linv_holding: "linv (s, p) \<Longrightarrow> holding h l s \<longleftrightarrow> l \<in> set (held (p h))"
  unfolding linv_def holding_def by (auto simp: owns_def)

lemma linvI:
  assumes "\<And>l. locked (lk s l) \<noteq> 0 \<longleftrightarrow> (\<exists>h. owns (p h) l)"
    "\<And>l h h'. owns (p h) l \<Longrightarrow> owns (p h') l \<Longrightarrow> h = h'"
    "\<And>l h. lcpu (lk s l) = Some h \<longleftrightarrow> l \<in> set (held (p h))"
    "\<And>h. distinct (held (p h)) \<and> act (p h) \<notin> Swapped ` set (held (p h)) \<union> Cleared ` set (held (p h))"
    "\<And>h. noff (cpus s h) = int (length (held (p h))) + (if act (p h) = Idle then 0 else 1)"
    "\<And>h. 0 < noff (cpus s h) \<Longrightarrow> \<not> sie (cpus s h)"
  shows "linv (s, p)"
  using assms unfolding linv_def by auto

lemma linvD:
  assumes "linv (s, p)"
  shows "locked (lk s l) \<noteq> 0 \<longleftrightarrow> (\<exists>h. owns (p h) l)"
    "owns (p h) l \<Longrightarrow> owns (p h') l \<Longrightarrow> h = h'"
    "lcpu (lk s l) = Some h \<longleftrightarrow> l \<in> set (held (p h))"
    "distinct (held (p h))" "act (p h) \<notin> Swapped ` set (held (p h)) \<union> Cleared ` set (held (p h))"
    "noff (cpus s h) = int (length (held (p h))) + (if act (p h) = Idle then 0 else 1)"
    "0 < noff (cpus s h) \<Longrightarrow> \<not> sie (cpus s h)"
  using assms unfolding linv_def by auto

lemma linv_start: "linv lock_start"
  by (simp add: linv_def lock_start_def owns_def)

text \<open>How the steps change ownership: only the swap adds an owner and only the store removes one.\<close>

lemma linv_same_owners:
  assumes D: "linv (s, p)" and o: "\<And>k m. owns (p' k) m = owns (p k) m"
    and l: "\<And>m. locked (lk s' m) \<noteq> 0 \<longleftrightarrow> locked (lk s m) \<noteq> 0"
    and rest: "\<And>m k. lcpu (lk s' m) = Some k \<longleftrightarrow> m \<in> set (held (p' k))"
      "\<And>k. distinct (held (p' k)) \<and> act (p' k) \<notin> Swapped ` set (held (p' k)) \<union> Cleared ` set (held (p' k))"
      "\<And>k. noff (cpus s' k) = int (length (held (p' k))) + (if act (p' k) = Idle then 0 else 1)"
      "\<And>k. 0 < noff (cpus s' k) \<Longrightarrow> \<not> sie (cpus s' k)"
  shows "linv (s', p')"
  by (rule linvI) (use linvD(1,2) [OF D] rest in \<open>auto simp: o l\<close>)

lemma linv_step: "lstep c c' \<Longrightarrow> linv c \<Longrightarrow> linv c'"
proof (induction rule: lstep.induct)
  case (acquire_start p h s' s l)
  note D = linvD [OF acquire_start.prems]
  show ?case
    by (rule linv_same_owners [OF acquire_start.prems])
       (use D acquire_start.hyps in \<open>auto simp: push_off_def owns_def Let_def split: if_splits\<close>)
next
  case (acquire_retry p h l s old s')
  note D = linvD [OF acquire_retry.prems]
  show ?case
    by (rule linv_same_owners [OF acquire_retry.prems])
       (use D(3-) acquire_retry.hyps in \<open>auto simp: test_and_set_def split: if_splits\<close>)
next
  case (acquire_swap p h l s s')
  note D = linvD [OF acquire_swap.prems]
  have s': "locked (lk s l) = 0" "s' = upd_lk l (\<lambda>k. k\<lparr>locked := 1\<rparr>) s"
    using acquire_swap.hyps by (auto simp: test_and_set_def)
  have o: "owns ((p(h := (p h)\<lparr>act := Swapped l\<rparr>)) k) m \<longleftrightarrow> owns (p k) m \<or> k = h \<and> m = l" for k m
    using acquire_swap.hyps(1) by (auto simp: owns_def)
  have free: "\<not> owns (p k) l" for k using D(1) s'(1) by blast
  show ?case
  proof (rule linvI)
    show "(locked (lk s' m) \<noteq> 0) = (\<exists>k. owns ((p(h := (p h)\<lparr>act := Swapped l\<rparr>)) k) m)" for m
      unfolding o using D(1) [of m] s' by auto
    show "k = k'" if "owns ((p(h := (p h)\<lparr>act := Swapped l\<rparr>)) k) m"
      "owns ((p(h := (p h)\<lparr>act := Swapped l\<rparr>)) k') m" for m k k'
      using that free D(2) unfolding o by blast
  qed (use D(3-) free s' acquire_swap.hyps(1) in \<open>auto simp: owns_def\<close>)
next
  case (acquire_record p h l s)
  note D = linvD [OF acquire_record.prems]
  have "owns (p h) l" using acquire_record.hyps by (simp add: owns_def)
  have lh: "l \<notin> set (held (p h))" using D(5) [of h] acquire_record.hyps by auto
  have l: "l \<notin> set (held (p k))" for k
  proof
    assume k: "l \<in> set (held (p k))"
    then have "k = h" using D(2) [of k l h] \<open>owns (p h) l\<close> by (simp add: owns_def)
    then show False using k lh by simp
  qed
  let ?p = "p(h := \<lparr>held = l # held (p h), act = Idle\<rparr>)"
  show ?case
  proof (rule linv_same_owners [OF acquire_record.prems])
    show "owns (?p k) m = owns (p k) m" for k m using acquire_record.hyps by (auto simp: owns_def)
    show "lcpu (lk (upd_lk l (\<lambda>k. k\<lparr>lcpu := Some h\<rparr>) s) m) = Some k \<longleftrightarrow> m \<in> set (held (?p k))" for m k
      using D(3) [of m k] l [of k] by auto
    show "distinct (held (?p k)) \<and>
        act (?p k) \<notin> Swapped ` set (held (?p k)) \<union> Cleared ` set (held (?p k))" for k
      using D(4) [of k] D(5) [of k] l [of h] by auto
    show "noff (cpus (upd_lk l (\<lambda>k. k\<lparr>lcpu := Some h\<rparr>) s) k) =
        int (length (held (?p k))) + (if act (?p k) = Idle then 0 else 1)" for k
      using D(6) [of k] acquire_record.hyps by auto
  qed (use D(7) in auto)
next
  case (release_clear p h l s)
  note D = linvD [OF release_clear.prems]
  have l: "l \<in> set (held (p h))" using D(3) release_clear.hyps by (simp add: holding_def)
  have only: "k = h" if "l \<in> set (held (p k))" for k
    using that D(3) release_clear.hyps(2) by (metis holding_def option.inject)
  have no: "act (p k) \<noteq> Swapped l \<and> act (p k) \<noteq> Cleared l" for k
    using D(2) [of k l h] D(5) [of h] l by (auto simp: owns_def)
  let ?p = "p(h := \<lparr>held = remove1 l (held (p h)), act = Cleared l\<rparr>)"
  have rem: "set (remove1 l (held (p h))) = set (held (p h)) - {l}"
    using D(4) [of h] by (simp add: set_remove1_eq)
  show ?case
  proof (rule linv_same_owners [OF release_clear.prems])
    show "owns (?p k) m = owns (p k) m" for k m
      using l no release_clear.hyps(1) by (auto simp: owns_def rem)
    show "lcpu (lk (upd_lk l (\<lambda>k. k\<lparr>lcpu := None\<rparr>) s) m) = Some k \<longleftrightarrow> m \<in> set (held (?p k))" for m k
      using D(3) [of m k] only [of k] by (auto simp: rem)
    show "distinct (held (?p k)) \<and>
        act (?p k) \<notin> Swapped ` set (held (?p k)) \<union> Cleared ` set (held (?p k))" for k
      using D(4) [of k] D(5) [of k] by (auto simp: rem)
    obtain n where "length (held (p h)) = Suc n" using l by (cases "held (p h)") auto
    then show "noff (cpus (upd_lk l (\<lambda>k. k\<lparr>lcpu := None\<rparr>) s) k) =
        int (length (held (?p k))) + (if act (?p k) = Idle then 0 else 1)" for k
      using D(6) [of k] release_clear.hyps l by (auto simp: length_remove1)
  qed (use D(7) in auto)
next
  case (release_store p h l s s')
  note D = linvD [OF release_store.prems]
  have lks: "lk s' = (lk s)(l := (lk s l)\<lparr>locked := 0\<rparr>)"
    using release_store.hyps(2) by (auto simp: pop_off_def split: if_splits)
  have o: "owns ((p(h := (p h)\<lparr>act := Idle\<rparr>)) k) m \<longleftrightarrow> owns (p k) m \<and> \<not> (k = h \<and> m = l)" for k m
    using release_store.hyps(1) D(5) [of h] by (auto simp: owns_def)
  have "owns (p h) l" using release_store.hyps(1) by (simp add: owns_def)
  then have own: "owns (p k) l \<Longrightarrow> k = h" for k using D(2) by blast
  show ?case
  proof (rule linvI)
    show "(locked (lk s' m) \<noteq> 0) = (\<exists>k. owns ((p(h := (p h)\<lparr>act := Idle\<rparr>)) k) m)" for m
      unfolding o using D(1) [of m] own lks by (cases "m = l") auto
    show "k = k'" if "owns ((p(h := (p h)\<lparr>act := Idle\<rparr>)) k) m"
      "owns ((p(h := (p h)\<lparr>act := Idle\<rparr>)) k') m" for m k k'
      using that D(2) unfolding o by blast
    show "lcpu (lk s' m) = Some k \<longleftrightarrow> m \<in> set (held ((p(h := (p h)\<lparr>act := Idle\<rparr>)) k))" for m k
      using D(3) [of m k] lks by auto
    show "noff (cpus s' k) = int (length (held ((p(h := (p h)\<lparr>act := Idle\<rparr>)) k))) +
        (if act ((p(h := (p h)\<lparr>act := Idle\<rparr>)) k) = Idle then 0 else 1)" for k
      using D(6) [of k] release_store.hyps by (auto simp: pop_off_def Let_def split: if_splits)
    show "\<not> sie (cpus s' k)" if "0 < noff (cpus s' k)" for k
      using that D(7) [of k] release_store.hyps by (auto simp: pop_off_def Let_def split: if_splits)
  qed (use D(4,5) in auto)
next
  case (set_interrupts p h s b)
  note D = linvD [OF set_interrupts.prems]
  show ?case
    by (rule linv_same_owners [OF set_interrupts.prems])
       (use D(3-) set_interrupts.hyps in \<open>auto split: if_splits\<close>)
qed

lemma linv_reach: "lreach c \<Longrightarrow> linv c"
  by (induction rule: lreach.induct) (auto simp: linv_start linv_step)

text \<open>The sequential \<open>acquire\<close> is a run of the hart's own steps.\<close>

lemma acquire_runs:
  assumes "acquire h l s = Ok s'" "act (p h) = Idle"
  shows "\<exists>p'. lstep\<^sup>*\<^sup>* (s, p) (s', p') \<and> held (p' h) = l # held (p h) \<and> act (p' h) = Idle"
proof -
  let ?s1 = "push_off h s" and ?p1 = "p(h := (p h)\<lparr>act := Spinning l\<rparr>)"
  let ?s2 = "upd_lk l (\<lambda>k. k\<lparr>locked := 1\<rparr>) ?s1" and ?p2 = "p(h := (p h)\<lparr>act := Swapped l\<rparr>)"
  have a: "\<not> holding h l ?s1" "locked (lk ?s1 l) = 0" "s' = upd_lk l (\<lambda>k. k\<lparr>lcpu := Some h\<rparr>) ?s2"
    using assms(1) by (auto simp: acquire_def test_and_set_def Let_def split: if_splits)
  have "lstep (s, p) (?s1, ?p1)" using a(1) assms(2) by (intro lstep.intros(1)) simp_all
  moreover have "lstep (?s1, ?p1) (?s2, ?p1(h := (?p1 h)\<lparr>act := Swapped l\<rparr>))"
    using a(2) by (intro lstep.intros(3)) (simp_all add: test_and_set_def)
  moreover have "lstep (?s2, ?p2) (s', ?p2(h := \<lparr>held = l # held (?p2 h), act = Idle\<rparr>))"
    unfolding a(3) by (rule lstep.intros(4)) simp
  ultimately show ?thesis
    by (intro exI [of _ "?p2(h := \<lparr>held = l # held (?p2 h), act = Idle\<rparr>)"])
       (auto intro: converse_rtranclp_into_rtranclp)
qed

lemma acquire_release_neutral:
  assumes "acquire h l s = Ok s1" "hart_ok (cpus s h)"
  shows "release h l s1 =
    Ok (upd_cpu h (\<lambda>c. c\<lparr>intena := (if noff c = 0 then sie c else intena c)\<rparr>)
          (upd_lk l (\<lambda>k. k\<lparr>locked := 0, lcpu := None\<rparr>) s))"
proof -
  have l: "locked (lk s l) = 0"
    and s1: "s1 = upd_lk l (\<lambda>k. k\<lparr>lcpu := Some h\<rparr>) (upd_lk l (\<lambda>k. k\<lparr>locked := 1\<rparr>) (push_off h s))"
    using assms(1)
    by (auto simp: acquire_def test_and_set_def push_off_def Let_def split: if_splits)
  show ?thesis
    using assms(2) unfolding s1
    by (cases "cpus s h"; cases "lk s l")
       (auto simp: release_def holding_def push_off_def pop_off_def hart_ok_def Let_def upd_cpu_def
         upd_lk_def)
qed

subsection \<open>Properties\<close>

text \<open>
  C9: In every state that any number of harts can reach by acquiring and releasing locks in
  any interleaving, no lock is held by two harts, and a hart passes \<open>holding\<close> for exactly
  the locks it holds.
\<close>

theorem spinlock_mutual_exclusion:
  assumes "lreach (s, p)"
  shows "(\<forall>h h' l. l \<in> set (held (p h)) \<longrightarrow> l \<in> set (held (p h')) \<longrightarrow> h = h') \<and>
         (\<forall>h l. holding h l s \<longleftrightarrow> l \<in> set (held (p h)))"
proof -
  have inv: "linv (s, p)" using linv_reach [OF assms] .
  then have "h = h'" if "l \<in> set (held (p h))" "l \<in> set (held (p h'))" for h h' l
    using that linvD(2) [OF inv, of h l h'] by (simp add: owns_def)
  then show ?thesis using linv_holding [OF inv] by blast
qed

lemma spinlock_mutual_exclusion_witness:
  "\<exists>s p. lreach (s, p) \<and> held (p 0) = [PidLock] \<and>
     (\<forall>h h' l. l \<in> set (held (p h)) \<longrightarrow> l \<in> set (held (p h')) \<longrightarrow> h = h') \<and>
     (\<forall>h l. holding h l s \<longleftrightarrow> l \<in> set (held (p h)))"
proof -
  obtain s0 p0 where c0: "lock_start = (s0, p0)" by (cases lock_start) simp
  have "\<exists>s. acquire 0 PidLock s0 = Ok s"
    using c0 by (auto simp: lock_start_def acquire_def test_and_set_def holding_def push_off_def Let_def)
  then obtain s where "acquire 0 PidLock s0 = Ok s" ..
  then obtain p where p: "lstep\<^sup>*\<^sup>* (s0, p0) (s, p)" "held (p 0) = [PidLock]"
    using acquire_runs [of 0 PidLock s0 s p0] c0 by (auto simp: lock_start_def)
  have "lreach c" if "lstep\<^sup>*\<^sup>* lock_start c" for c
    using that by (induction rule: rtranclp_induct) (auto intro: lreach.intros)
  then have "lreach (s, p)" using p(1) c0 by simp
  then show ?thesis using p(2) spinlock_mutual_exclusion [OF \<open>lreach (s, p)\<close>] by blast
qed

text \<open>
  No reachable hart is ever stuck in \<open>release\<close>: once it has cleared the holder, storing
  the word and \<open>pop_off\<close> succeed (neither of its two panics can happen).
\<close>

theorem release_never_panics:
  assumes "lreach (s, p)" "act (p h) = Cleared l"
  shows "\<exists>s'. pop_off h (upd_lk l (\<lambda>k. k\<lparr>locked := 0\<rparr>) s) = Ok s' \<and>
           lstep (s, p) (s', p(h := (p h)\<lparr>act := Idle\<rparr>))"
proof -
  note D = linvD [OF linv_reach [OF assms(1)]]
  have "1 \<le> noff (cpus s h)" using D(6) [of h] assms(2) by simp
  moreover then have "\<not> sie (cpus s h)" using D(7) [of h] by simp
  ultimately show ?thesis using lstep.intros(6) assms(2) by (simp add: pop_off_def)
qed

lemma release_never_panics_witness:
  "\<exists>s p. lreach (s, p) \<and> act (p 0) = Cleared PidLock \<and>
     (\<exists>s'. pop_off 0 (upd_lk PidLock (\<lambda>k. k\<lparr>locked := 0\<rparr>) s) = Ok s' \<and>
           lstep (s, p) (s', p(0 := (p 0)\<lparr>act := Idle\<rparr>)))"
proof -
  obtain s0 p0 where c0: "lock_start = (s0, p0)" by (cases lock_start) simp
  have "\<exists>s. acquire 0 PidLock s0 = Ok s"
    using c0 by (auto simp: lock_start_def acquire_def test_and_set_def holding_def push_off_def Let_def)
  then obtain s where "acquire 0 PidLock s0 = Ok s" ..
  then obtain p where p: "lstep\<^sup>*\<^sup>* (s0, p0) (s, p)" "held (p 0) = [PidLock]" "act (p 0) = Idle"
    using acquire_runs [of 0 PidLock s0 s p0] c0 by (auto simp: lock_start_def)
  have r: "lreach c" if "lstep\<^sup>*\<^sup>* lock_start c" for c
    using that by (induction rule: rtranclp_induct) (auto intro: lreach.intros)
  then have "lreach (s, p)" using p(1) c0 by simp
  moreover then have "holding 0 PidLock s" using linv_holding [OF linv_reach] p(2) by fastforce
  ultimately have "lreach (upd_lk PidLock (\<lambda>k. k\<lparr>lcpu := None\<rparr>) s,
      p(0 := \<lparr>held = remove1 PidLock (held (p 0)), act = Cleared PidLock\<rparr>))"
    using p(3) by (blast intro: lreach_step release_clear)
  from release_never_panics [OF this, of 0 PidLock] this show ?thesis by fastforce
qed

text \<open>
  Any number of \<open>push_off\<close> calls is undone by the same number of \<open>pop_off\<close> calls: the
  nesting count and the interrupt enable bit are what they were, and only the saved
  \<open>intena\<close> may differ. So is an \<open>acquire\<close> by a \<open>release\<close>.
\<close>

theorem push_pop_nest:
  assumes "hart_ok (cpus s h)"
  shows "pop_offs h n (push_offs h n s) = Ok (if n = 0 then s else
           upd_cpu h (\<lambda>c. c\<lparr>intena := (if noff c = 0 then sie c else intena c)\<rparr>) s) \<and>
         (\<forall>l s1. acquire h l s = Ok s1 \<longrightarrow> release h l s1 =
           Ok (upd_cpu h (\<lambda>c. c\<lparr>intena := (if noff c = 0 then sie c else intena c)\<rparr>)
             (upd_lk l (\<lambda>k. k\<lparr>locked := 0, lcpu := None\<rparr>) s)))"
  using push_pop_restores [OF assms] acquire_release_neutral [OF _ assms] by blast

lemma push_pop_nest_witness:
  "pop_offs 0 3 (push_offs 0 3 (fst lock_start)) =
     Ok (upd_cpu 0 (\<lambda>c. c\<lparr>intena := (if noff c = 0 then sie c else intena c)\<rparr>) (fst lock_start)) \<and>
   (\<exists>s1. acquire 0 PidLock (fst lock_start) = Ok s1 \<and> release 0 PidLock s1 =
      Ok (upd_cpu 0 (\<lambda>c. c\<lparr>intena := (if noff c = 0 then sie c else intena c)\<rparr>)
        (upd_lk PidLock (\<lambda>k. k\<lparr>locked := 0, lcpu := None\<rparr>) (fst lock_start))))"
proof -
  have h: "hart_ok (cpus (fst lock_start) 0)" by (simp add: hart_ok_def lock_start_def)
  have "is_ok (acquire 0 PidLock (fst lock_start))"
    by (simp add: acquire_def holding_def test_and_set_def push_off_def lock_start_def Let_def)
  then obtain s1 where "acquire 0 PidLock (fst lock_start) = Ok s1"
    by (cases "acquire 0 PidLock (fst lock_start)") auto
  then show ?thesis using push_pop_nest [OF h, of 3] by auto
qed

end
