(* ===== verification/Proc.thy ===== *)
theory Proc
  imports Spinlock
begin

text \<open>
  Processes and the scheduler (\<open>kernel/proc.h\<close>, the scheduling half of \<open>kernel/proc.c\<close>) on
  the one hart this machine has (\<open>NCPU\<close> is 1, \<open>tp\<close> is 0). Every lock operation is kept. A
  function that calls \<open>sched\<close> is split at \<open>swtch\<close>: the half before it ends with the process
  off the processor, the half after it runs when the scheduler picks the process again.
\<close>

subsection \<open>proc.h\<close>

datatype procstate = UNUSED | USED | SLEEPING | RUNNABLE | RUNNING | ZOMBIE

record kcontext =
  ctx_ra :: u32
  ctx_sp :: u32
  ctx_s :: "u32 list"

record proc =
  state :: procstate
  chan :: "chan option"
  killed :: int
  xstate :: u32
  pid :: int
  parent :: "nat option"
  kstack :: u32
  sz :: u32
  pagetable :: u32
  trapframe :: u32
  pcontext :: kcontext
  ofile :: "nat option list"
  cwd :: "nat option"
  pname :: "u8 list"

definition NPROC :: nat where "NPROC = 8"
definition NOFILE :: nat where "NOFILE = 8"

record sched_state =
  procs :: "proc list"
  cur :: "nat option"
  initproc :: "nat option"
  nextpid :: int
  locks :: lstate

definition upd_proc :: "nat \<Rightarrow> (proc \<Rightarrow> proc) \<Rightarrow> sched_state \<Rightarrow> sched_state" where
  "upd_proc i f s = s\<lparr>procs := (procs s)[i := f (procs s ! i)]\<rparr>"

lemma upd_proc_sel [simp]:
  "procs (upd_proc i f s) = (procs s)[i := f (procs s ! i)]"
  "cur (upd_proc i f s) = cur s" "locks (upd_proc i f s) = locks s"
  "initproc (upd_proc i f s) = initproc s" "nextpid (upd_proc i f s) = nextpid s"
  by (simp_all add: upd_proc_def)

text \<open>One order of the field updates.\<close>

lemma sched_upd_order [simp]:
  "s\<lparr>locks := L, procs := ps\<rparr> = s\<lparr>procs := ps, locks := L\<rparr>"
  "s\<lparr>locks := L, cur := c\<rparr> = s\<lparr>cur := c, locks := L\<rparr>"
  "s\<lparr>cur := c, procs := ps\<rparr> = s\<lparr>procs := ps, cur := c\<rparr>"
  "s\<lparr>locks := L, nextpid := n\<rparr> = s\<lparr>nextpid := n, locks := L\<rparr>"
  by simp_all

definition lift_locks :: "(lstate \<Rightarrow> lstate res) \<Rightarrow> sched_state \<Rightarrow> sched_state res" where
  "lift_locks f s = seq (f (locks s)) (\<lambda>l. Ok (s\<lparr>locks := l\<rparr>))"

definition kacquire :: "lock \<Rightarrow> sched_state \<Rightarrow> sched_state res" where
  "kacquire l = lift_locks (acquire 0 l)"

definition krelease :: "lock \<Rightarrow> sched_state \<Rightarrow> sched_state res" where
  "krelease l = lift_locks (release 0 l)"

subsection \<open>The current process\<close>

definition cpuid :: nat where "cpuid = 0"

definition mycpu :: "sched_state \<Rightarrow> cpu" where
  "mycpu s = cpus (locks s) cpuid"

definition myproc :: "sched_state \<Rightarrow> (nat option \<times> sched_state) res" where
  "myproc s =
     (let s = s\<lparr>locks := push_off cpuid (locks s)\<rparr>; p = cur s
      in seq (lift_locks (pop_off cpuid) s) (\<lambda>s. Ok (p, s)))"

definition allocpid :: "sched_state \<Rightarrow> (int \<times> sched_state) res" where
  "allocpid s =
     seq (kacquire PidLock s) (\<lambda>s.
     let p = nextpid s; s = s\<lparr>nextpid := nextpid s + 1\<rparr>
     in seq (krelease PidLock s) (\<lambda>s. Ok (p, s)))"

definition setkilled :: "nat \<Rightarrow> sched_state \<Rightarrow> sched_state res" where
  "setkilled i s =
     seq (kacquire (ProcLock i) s) (\<lambda>s. krelease (ProcLock i) (upd_proc i (killed_update (\<lambda>_. 1)) s))"

definition get_killed :: "nat \<Rightarrow> sched_state \<Rightarrow> (int \<times> sched_state) res" where
  "get_killed i s =
     seq (kacquire (ProcLock i) s) (\<lambda>s.
     let k = killed (procs s ! i) in seq (krelease (ProcLock i) s) (\<lambda>s. Ok (k, s)))"

subsection \<open>wakeup and kill\<close>

text \<open>The loops run over the indices still to visit.\<close>

primrec wakeup_loop :: "chan \<Rightarrow> nat list \<Rightarrow> sched_state \<Rightarrow> sched_state res" where
  "wakeup_loop c [] s = Ok s"
| "wakeup_loop c (i # is) s =
     seq (myproc s) (\<lambda>(me, s).
       if me \<noteq> Some i
       then seq (kacquire (ProcLock i) s) (\<lambda>s.
         let p = procs s ! i;
             s = (if state p = SLEEPING \<and> chan p = Some c
                  then upd_proc i (state_update (\<lambda>_. RUNNABLE)) s else s)
         in seq (krelease (ProcLock i) s) (wakeup_loop c is))
       else wakeup_loop c is s)"

definition wakeup :: "chan \<Rightarrow> sched_state \<Rightarrow> sched_state res" where
  "wakeup c s = wakeup_loop c [0..<NPROC] s"

primrec kill_loop :: "int \<Rightarrow> nat list \<Rightarrow> sched_state \<Rightarrow> (int \<times> sched_state) res" where
  "kill_loop n [] s = Ok (-1, s)"
| "kill_loop n (i # is) s =
     seq (kacquire (ProcLock i) s) (\<lambda>s.
       if pid (procs s ! i) = n
       then
         let s = upd_proc i (killed_update (\<lambda>_. 1)) s;
             s = (if state (procs s ! i) = SLEEPING
                  then upd_proc i (state_update (\<lambda>_. RUNNABLE)) s else s)
         in seq (krelease (ProcLock i) s) (\<lambda>s. Ok (0, s))
       else seq (krelease (ProcLock i) s) (kill_loop n is))"

definition kill :: "int \<Rightarrow> sched_state \<Rightarrow> (int \<times> sched_state) res" where
  "kill n s = kill_loop n [0..<NPROC] s"

subsection \<open>Giving up the processor\<close>

text \<open>
  \<open>sched\<close> up to \<open>swtch\<close>: the checks, and the saved \<open>intena\<close>. After the switch the second
  half restores it.
\<close>

definition sched_out :: "sched_state \<Rightarrow> (bool \<times> sched_state) res" where
  "sched_out s =
     seq (myproc s) (\<lambda>(me, s).
       case me of
         None \<Rightarrow> Fail OutOfBounds
       | Some i \<Rightarrow>
           if \<not> holding cpuid (ProcLock i) (locks s) then Fail (Panic ''sched p->lock'')
           else if noff (mycpu s) \<noteq> 1 then Fail (Panic ''sched locks'')
           else if state (procs s ! i) = RUNNING then Fail (Panic ''sched running'')
           else if sie (mycpu s) then Fail (Panic ''sched interruptible'')
           else Ok (intena (mycpu s), s))"

definition sched_in :: "bool \<Rightarrow> sched_state \<Rightarrow> sched_state" where
  "sched_in saved s = s\<lparr>locks := upd_cpu cpuid (intena_update (\<lambda>_. saved)) (locks s)\<rparr>"

definition yield_out :: "sched_state \<Rightarrow> (bool \<times> sched_state) res" where
  "yield_out s =
     seq (myproc s) (\<lambda>(me, s).
       case me of
         None \<Rightarrow> Fail OutOfBounds
       | Some i \<Rightarrow>
           seq (kacquire (ProcLock i) s) (\<lambda>s.
             sched_out (upd_proc i (state_update (\<lambda>_. RUNNABLE)) s)))"

definition yield_in :: "nat \<Rightarrow> bool \<Rightarrow> sched_state \<Rightarrow> sched_state res" where
  "yield_in i saved s = krelease (ProcLock i) (sched_in saved s)"

definition sleep_out :: "chan \<Rightarrow> lock \<Rightarrow> sched_state \<Rightarrow> (bool \<times> sched_state) res" where
  "sleep_out c l s =
     seq (myproc s) (\<lambda>(me, s).
       case me of
         None \<Rightarrow> Fail OutOfBounds
       | Some i \<Rightarrow>
           seq (kacquire (ProcLock i) s) (\<lambda>s.
           seq (krelease l s) (\<lambda>s.
             sched_out (upd_proc i (\<lambda>p. p\<lparr>chan := Some c, state := SLEEPING\<rparr>) s))))"

definition sleep_in :: "nat \<Rightarrow> lock \<Rightarrow> bool \<Rightarrow> sched_state \<Rightarrow> sched_state res" where
  "sleep_in i l saved s =
     (let s = upd_proc i (chan_update (\<lambda>_. None)) (sched_in saved s)
      in seq (krelease (ProcLock i) s) (kacquire l))"

subsection \<open>The scheduler\<close>

text \<open>
  One visit of the inner loop, up to \<open>swtch\<close>: \<open>True\<close> when the process was chosen (its lock
  is then held across the switch). The outer loop turns interrupts on before each pass.
\<close>

definition intr_on :: "sched_state \<Rightarrow> sched_state" where
  "intr_on s = s\<lparr>locks := upd_cpu cpuid (sie_update (\<lambda>_. True)) (locks s)\<rparr>"

definition scheduler_visit :: "nat \<Rightarrow> sched_state \<Rightarrow> (bool \<times> sched_state) res" where
  "scheduler_visit i s =
     seq (kacquire (ProcLock i) s) (\<lambda>s.
       if state (procs s ! i) = RUNNABLE
       then Ok (True, (upd_proc i (state_update (\<lambda>_. RUNNING)) s)\<lparr>cur := Some i\<rparr>)
       else seq (krelease (ProcLock i) s) (\<lambda>s. Ok (False, s)))"

text \<open>Back from \<open>swtch\<close>.\<close>

definition scheduler_back :: "nat \<Rightarrow> sched_state \<Rightarrow> sched_state res" where
  "scheduler_back i s = krelease (ProcLock i) (s\<lparr>cur := None\<rparr>)"

subsection \<open>The locks the hart holds\<close>

text \<open>\<open>holds L A\<close>: the hart holds exactly the locks \<open>A\<close>, and its nesting count is their number.\<close>

definition holds :: "lstate \<Rightarrow> lock set \<Rightarrow> bool" where
  "holds L A \<longleftrightarrow>
     finite A \<and> (\<forall>l. lk L l = (if l \<in> A then \<lparr>locked = 1, lcpu = Some 0\<rparr> else \<lparr>locked = 0, lcpu = None\<rparr>)) \<and>
     noff (cpus L 0) = int (card A) \<and> (A \<noteq> {} \<longrightarrow> \<not> sie (cpus L 0))"

lemma holds_holding: "holds L A \<Longrightarrow> holding 0 l L \<longleftrightarrow> l \<in> A"
  by (simp add: holds_def holding_def)

lemma acquire_holds:
  assumes "holds L A" "l \<notin> A"
  obtains L' where "acquire 0 l L = Ok L'" "holds L' (insert l A)"
proof -
  let ?L = "upd_lk l (\<lambda>k. k\<lparr>lcpu := Some 0\<rparr>) (upd_lk l (\<lambda>k. k\<lparr>locked := 1\<rparr>) (push_off 0 L))"
  have free: "lk L l = \<lparr>locked = 0, lcpu = None\<rparr>" using assms by (simp add: holds_def)
  then have "acquire 0 l L = Ok ?L"
    by (simp add: acquire_def holding_def test_and_set_def Let_def)
  moreover have fin: "finite A" "noff (cpus L 0) = int (card A)"
    and lks: "\<And>k. lk L k = (if k \<in> A then \<lparr>locked = 1, lcpu = Some 0\<rparr> else \<lparr>locked = 0, lcpu = None\<rparr>)"
    using assms by (auto simp: holds_def)
  have "card (insert l A) = Suc (card A)" using fin(1) assms(2) by simp
  then have "holds ?L (insert l A)"
    unfolding holds_def by (simp add: push_off_def fin Let_def) (simp add: lks)
  ultimately show ?thesis using that by blast
qed

lemma release_holds:
  assumes "holds L A" "l \<in> A"
  obtains L' where "release 0 l L = Ok L'" "holds L' (A - {l})"
proof -
  have n: "card A = Suc (card (A - {l}))" using assms by (intro card.remove) (simp_all add: holds_def)
  have lkl: "lk L l = \<lparr>locked = 1, lcpu = Some 0\<rparr>" and sie: "\<not> sie (cpus L 0)"
    using assms by (auto simp: holds_def)
  let ?L1 = "upd_lk l (\<lambda>k. k\<lparr>locked := 0\<rparr>) (upd_lk l (\<lambda>k. k\<lparr>lcpu := None\<rparr>) L)"
  let ?L2 = "upd_cpu 0 (\<lambda>c. let c = c\<lparr>noff := noff c - 1\<rparr>
      in if noff c = 0 \<and> intena c then c\<lparr>sie := True\<rparr> else c) ?L1"
  have fin: "finite A" "noff (cpus L 0) = int (card A)"
    and lks: "\<And>k. lk L k = (if k \<in> A then \<lparr>locked = 1, lcpu = Some 0\<rparr> else \<lparr>locked = 0, lcpu = None\<rparr>)"
    using assms by (auto simp: holds_def)
  have "release 0 l L = Ok ?L2"
    using lkl sie fin n by (simp add: release_def holding_def pop_off_def)
  moreover have "holds ?L2 (A - {l})"
    unfolding holds_def using fin sie n
    by (auto simp: Let_def lks card_gt_0_iff)
  ultimately show ?thesis using that by blast
qed

lemma kacquire_ok:
  assumes "holds (locks s) A" "l \<notin> A"
  obtains L where "kacquire l s = Ok (s\<lparr>locks := L\<rparr>)" "holds L (insert l A)"
  by (rule acquire_holds [OF assms]) (auto simp: kacquire_def lift_locks_def)

lemma krelease_ok:
  assumes "holds (locks s) A" "l \<in> A"
  obtains L where "krelease l s = Ok (s\<lparr>locks := L\<rparr>)" "holds L (A - {l})"
  by (rule release_holds [OF assms]) (auto simp: krelease_def lift_locks_def)

lemma myproc_ok:
  assumes "holds (locks s) A"
  obtains L where "myproc s = Ok (cur s, s\<lparr>locks := L\<rparr>)" "holds L A"
proof -
  have "\<exists>L. pop_off 0 (push_off 0 (locks s)) = Ok L \<and> holds L A"
    using assms
    by (cases "cpus (locks s) 0")
       (auto simp: pop_off_def push_off_def holds_def Let_def)
  then show ?thesis using that by (auto simp: myproc_def lift_locks_def cpuid_def Let_def)
qed

subsection \<open>wakeup and kill without the locks\<close>

definition wake_one :: "chan \<Rightarrow> proc \<Rightarrow> proc" where
  "wake_one c p = (if state p = SLEEPING \<and> chan p = Some c then p\<lparr>state := RUNNABLE\<rparr> else p)"

definition wake_procs :: "chan \<Rightarrow> nat option \<Rightarrow> proc list \<Rightarrow> proc list" where
  "wake_procs c me ps = map (\<lambda>i. if me = Some i then ps ! i else wake_one c (ps ! i)) [0..<length ps]"

lemma length_wake_procs [simp]: "length (wake_procs c me ps) = length ps"
  by (simp add: wake_procs_def)

lemma nth_wake_procs [simp]:
  "i < length ps \<Longrightarrow> wake_procs c me ps ! i = (if me = Some i then ps ! i else wake_one c (ps ! i))"
  by (simp add: wake_procs_def)

definition wake_some :: "chan \<Rightarrow> nat list \<Rightarrow> nat option \<Rightarrow> proc list \<Rightarrow> proc list" where
  "wake_some c is me ps =
     map (\<lambda>i. if i \<in> set is \<and> me \<noteq> Some i then wake_one c (ps ! i) else ps ! i) [0..<length ps]"

lemma wake_some_Nil: "wake_some c [] me ps = ps"
  by (simp add: wake_some_def map_nth)

lemma wake_some_skip: "wake_some c (i # is) (Some i) ps = wake_some c is (Some i) ps"
  unfolding wake_some_def by (intro map_cong) auto

lemma wake_some_Cons:
  "me \<noteq> Some i \<Longrightarrow> i \<notin> set is \<Longrightarrow> i < length ps \<Longrightarrow>
   wake_some c (i # is) me ps = wake_some c is me (ps[i := wake_one c (ps ! i)])"
  unfolding wake_some_def by (intro map_cong) (auto simp: nth_list_update)

lemma wake_some_all: "wake_some c [0..<length ps] me ps = wake_procs c me ps"
  unfolding wake_procs_def wake_some_def by (intro map_cong) auto

lemma wakeup_loop_spec:
  assumes "holds (locks s) A" "\<forall>i \<in> set is. i < length (procs s) \<and> ProcLock i \<notin> A" "distinct is"
  shows "\<exists>L. wakeup_loop c is s = Ok (s\<lparr>procs := wake_some c is (cur s) (procs s), locks := L\<rparr>) \<and>
    holds L A"
  using assms
proof (induction "is" arbitrary: s)
  case Nil
  then show ?case by (auto simp: wake_some_Nil intro: exI [of _ "locks s"])
next
  case (Cons i "is")
  obtain L1 where L1: "myproc s = Ok (cur s, s\<lparr>locks := L1\<rparr>)" "holds L1 A"
    by (rule myproc_ok [OF Cons.prems(1)])
  let ?s1 = "s\<lparr>locks := L1\<rparr>"
  show ?case
  proof (cases "cur s = Some i")
    case True
    then show ?thesis
      using Cons.IH [of ?s1] L1 Cons.prems by (auto simp: wake_some_skip)
  next
    case False
    obtain L2 where L2: "kacquire (ProcLock i) ?s1 = Ok (?s1\<lparr>locks := L2\<rparr>)"
      "holds L2 (insert (ProcLock i) A)"
      by (rule kacquire_ok [of ?s1 A "ProcLock i"]) (use L1(2) Cons.prems in auto)
    let ?s2 = "s\<lparr>procs := (procs s)[i := wake_one c (procs s ! i)], locks := L2\<rparr>"
    have upd: "(if state (procs s ! i) = SLEEPING \<and> chan (procs s ! i) = Some c
        then upd_proc i (state_update (\<lambda>_. RUNNABLE)) (s\<lparr>locks := L2\<rparr>) else s\<lparr>locks := L2\<rparr>) = ?s2"
      by (simp add: upd_proc_def wake_one_def)
    obtain L3 where L3: "krelease (ProcLock i) ?s2 = Ok (?s2\<lparr>locks := L3\<rparr>)"
      "holds L3 (insert (ProcLock i) A - {ProcLock i})"
      by (rule krelease_ok [of ?s2 "insert (ProcLock i) A" "ProcLock i"]) (use L2(2) in auto)
    have h3: "holds L3 A" using L3(2) Cons.prems(2) by auto
    let ?s3 = "?s2\<lparr>locks := L3\<rparr>"
    have step: "wakeup_loop c (i # is) s = wakeup_loop c is ?s3"
      using L1(1) L2(1) L3(1) False by (simp add: Let_def upd)
    obtain L where "wakeup_loop c is ?s3 =
        Ok (?s3\<lparr>procs := wake_some c is (cur s) (procs ?s3), locks := L\<rparr>)" "holds L A"
      using Cons.IH [of ?s3] h3 Cons.prems by auto
    then show ?thesis using step False Cons.prems by (auto simp: wake_some_Cons)
  qed
qed

lemma wakeup_spec:
  assumes "holds (locks s) A" "length (procs s) = NPROC" "\<forall>i < NPROC. ProcLock i \<notin> A"
  obtains L where "wakeup c s = Ok (s\<lparr>procs := wake_procs c (cur s) (procs s), locks := L\<rparr>)" "holds L A"
proof -
  have "[0..<NPROC] = [0..<length (procs s)]" using assms(2) by simp
  moreover obtain L where "wakeup_loop c [0..<NPROC] s =
      Ok (s\<lparr>procs := wake_some c [0..<NPROC] (cur s) (procs s), locks := L\<rparr>)" "holds L A"
    using wakeup_loop_spec [OF assms(1), of "[0..<NPROC]" c] assms(2,3) by auto
  ultimately show ?thesis using that by (simp only: wakeup_def wake_some_all)
qed

definition kill_one :: "proc \<Rightarrow> proc" where
  "kill_one p = (let p = p\<lparr>killed := 1\<rparr> in if state p = SLEEPING then p\<lparr>state := RUNNABLE\<rparr> else p)"

primrec kill_procs :: "int \<Rightarrow> nat list \<Rightarrow> proc list \<Rightarrow> int \<times> proc list" where
  "kill_procs n [] ps = (-1, ps)"
| "kill_procs n (i # is) ps =
     (if pid (ps ! i) = n then (0, ps[i := kill_one (ps ! i)]) else kill_procs n is ps)"

lemma kill_loop_spec:
  assumes "holds (locks s) A" "\<forall>i \<in> set is. i < length (procs s) \<and> ProcLock i \<notin> A"
  shows "\<exists>L. kill_loop n is s = Ok (fst (kill_procs n is (procs s)),
      s\<lparr>procs := snd (kill_procs n is (procs s)), locks := L\<rparr>) \<and> holds L A"
  using assms
proof (induction "is" arbitrary: s)
  case (Cons i "is")
  obtain L1 where L1: "kacquire (ProcLock i) s = Ok (s\<lparr>locks := L1\<rparr>)" "holds L1 (insert (ProcLock i) A)"
    by (rule kacquire_ok [of s A "ProcLock i"]) (use Cons.prems in auto)
  have rel: "\<exists>L. krelease (ProcLock i) (s\<lparr>procs := ps, locks := L1\<rparr>) = Ok (s\<lparr>procs := ps, locks := L\<rparr>) \<and>
      holds L A" for ps
    using krelease_ok [of "s\<lparr>procs := ps, locks := L1\<rparr>" "insert (ProcLock i) A" "ProcLock i"]
      L1(2) Cons.prems(2) by auto
  show ?case
  proof (cases "pid (procs s ! i) = n")
    case True
    have "(if state (procs (upd_proc i (killed_update (\<lambda>_. 1)) (s\<lparr>locks := L1\<rparr>)) ! i) = SLEEPING
        then upd_proc i (state_update (\<lambda>_. RUNNABLE)) (upd_proc i (killed_update (\<lambda>_. 1)) (s\<lparr>locks := L1\<rparr>))
        else upd_proc i (killed_update (\<lambda>_. 1)) (s\<lparr>locks := L1\<rparr>)) =
      s\<lparr>procs := (procs s)[i := kill_one (procs s ! i)], locks := L1\<rparr>"
      using Cons.prems(2) by (simp add: upd_proc_def kill_one_def Let_def)
    then show ?thesis
      using rel [of "(procs s)[i := kill_one (procs s ! i)]"] L1(1) True by (auto simp: Let_def)
  next
    case False
    obtain L2 where L2: "krelease (ProcLock i) (s\<lparr>locks := L1\<rparr>) = Ok (s\<lparr>locks := L2\<rparr>)" "holds L2 A"
      using rel [of "procs s"] by auto
    then show ?thesis
      using Cons.IH [of "s\<lparr>locks := L2\<rparr>"] L1(1) False Cons.prems by (auto simp: Let_def)
  qed
next
  case Nil
  then show ?case by (auto intro: exI [of _ "locks s"])
qed

lemma kill_spec:
  assumes "holds (locks s) A" "length (procs s) = NPROC" "\<forall>i < NPROC. ProcLock i \<notin> A"
  obtains L where "kill n s = Ok (fst (kill_procs n [0..<NPROC] (procs s)),
      s\<lparr>procs := snd (kill_procs n [0..<NPROC] (procs s)), locks := L\<rparr>)" "holds L A"
  using kill_loop_spec [OF assms(1), of "[0..<NPROC]" n] assms(2,3) that by (auto simp: kill_def)

subsection \<open>The two halves of sched, yield and sleep\<close>

lemma sched_out_ok:
  assumes "holds (locks s) {ProcLock i}" "cur s = Some i" "state (procs s ! i) \<noteq> RUNNING"
  obtains saved L where "sched_out s = Ok (saved, s\<lparr>locks := L\<rparr>)" "holds L {ProcLock i}"
proof -
  obtain L where L: "myproc s = Ok (cur s, s\<lparr>locks := L\<rparr>)" "holds L {ProcLock i}"
    by (rule myproc_ok [OF assms(1)])
  moreover have "holding 0 (ProcLock i) L" "noff (cpus L 0) = 1" "\<not> sie (cpus L 0)"
    using L(2) by (auto simp: holds_def holding_def)
  ultimately have "sched_out s = Ok (intena (cpus L 0), s\<lparr>locks := L\<rparr>)"
    using assms(2,3) by (simp add: sched_out_def mycpu_def cpuid_def)
  then show ?thesis using that L(2) by blast
qed

lemma yield_out_ok:
  assumes "holds (locks s) {}" "cur s = Some i" "i < length (procs s)"
  obtains saved L where "yield_out s = Ok (saved,
      s\<lparr>procs := (procs s)[i := (procs s ! i)\<lparr>state := RUNNABLE\<rparr>], locks := L\<rparr>)"
    "holds L {ProcLock i}"
proof -
  obtain L1 where L1: "myproc s = Ok (cur s, s\<lparr>locks := L1\<rparr>)" "holds L1 {}"
    by (rule myproc_ok [OF assms(1)])
  obtain L2 where L2: "kacquire (ProcLock i) (s\<lparr>locks := L1\<rparr>) = Ok (s\<lparr>locks := L2\<rparr>)"
    "holds L2 {ProcLock i}"
    using kacquire_ok [of "s\<lparr>locks := L1\<rparr>" "{}" "ProcLock i"] L1(2) by auto
  let ?s = "s\<lparr>procs := (procs s)[i := (procs s ! i)\<lparr>state := RUNNABLE\<rparr>], locks := L2\<rparr>"
  obtain saved L where "sched_out ?s = Ok (saved, ?s\<lparr>locks := L\<rparr>)" "holds L {ProcLock i}"
    by (rule sched_out_ok [of ?s i]) (use L2(2) assms in auto)
  then show ?thesis
    using that L1(1) L2(1) assms(2) by (simp add: yield_out_def upd_proc_def)
qed

lemma sleep_out_ok:
  assumes "holds (locks s) {l}" "cur s = Some i" "i < length (procs s)" "l \<noteq> ProcLock i"
  obtains saved L where "sleep_out c l s = Ok (saved,
      s\<lparr>procs := (procs s)[i := (procs s ! i)\<lparr>chan := Some c, state := SLEEPING\<rparr>], locks := L\<rparr>)"
    "holds L {ProcLock i}"
proof -
  obtain L1 where L1: "myproc s = Ok (cur s, s\<lparr>locks := L1\<rparr>)" "holds L1 {l}"
    by (rule myproc_ok [OF assms(1)])
  obtain L2 where L2: "kacquire (ProcLock i) (s\<lparr>locks := L1\<rparr>) = Ok (s\<lparr>locks := L2\<rparr>)"
    "holds L2 {ProcLock i, l}"
    using kacquire_ok [of "s\<lparr>locks := L1\<rparr>" "{l}" "ProcLock i"] L1(2) assms(4) by auto
  obtain L3 where L3: "krelease l (s\<lparr>locks := L2\<rparr>) = Ok (s\<lparr>locks := L3\<rparr>)"
    "holds L3 ({ProcLock i, l} - {l})"
    using krelease_ok [of "s\<lparr>locks := L2\<rparr>" "{ProcLock i, l}" l] L2(2) by auto
  have h3: "holds L3 {ProcLock i}" using L3(2) assms(4) by (simp add: insert_Diff_if)
  let ?s = "s\<lparr>procs := (procs s)[i := (procs s ! i)\<lparr>chan := Some c, state := SLEEPING\<rparr>], locks := L3\<rparr>"
  obtain saved L where "sched_out ?s = Ok (saved, ?s\<lparr>locks := L\<rparr>)" "holds L {ProcLock i}"
    by (rule sched_out_ok [of ?s i]) (use h3 assms in auto)
  then show ?thesis
    using that L1(1) L2(1) L3(1) assms(2) by (simp add: sleep_out_def upd_proc_def)
qed

lemma holds_intena: "holds L A \<Longrightarrow> holds (upd_cpu 0 (intena_update f) L) A"
  by (simp add: holds_def)

lemma yield_in_ok:
  assumes "holds (locks s) {ProcLock i}"
  obtains L where "yield_in i saved s = Ok (s\<lparr>locks := L\<rparr>)" "holds L {}"
  using krelease_ok [of "sched_in saved s" "{ProcLock i}" "ProcLock i"] assms that
  by (auto simp: yield_in_def sched_in_def cpuid_def holds_intena)

lemma sleep_in_ok:
  assumes "holds (locks s) {ProcLock i}" "l \<noteq> ProcLock i"
  obtains L where "sleep_in i l saved s =
      Ok (s\<lparr>procs := (procs s)[i := (procs s ! i)\<lparr>chan := None\<rparr>], locks := L\<rparr>)" "holds L {l}"
proof -
  let ?s = "upd_proc i (chan_update (\<lambda>_. None)) (sched_in saved s)"
  have "holds (locks ?s) {ProcLock i}"
    using assms(1) by (simp add: sched_in_def cpuid_def holds_intena)
  then obtain L1 where L1: "krelease (ProcLock i) ?s = Ok (?s\<lparr>locks := L1\<rparr>)" "holds L1 {}"
    using krelease_ok [of ?s "{ProcLock i}" "ProcLock i"] by auto
  obtain L where "kacquire l (?s\<lparr>locks := L1\<rparr>) = Ok (?s\<lparr>locks := L\<rparr>)" "holds L {l}"
    using kacquire_ok [of "?s\<lparr>locks := L1\<rparr>" "{}" l] L1(2) by auto
  then show ?thesis
    using that L1(1) by (simp add: sleep_in_def Let_def upd_proc_def sched_in_def)
qed

lemma scheduler_visit_ok:
  assumes "holds (locks s) {}" "i < length (procs s)"
  obtains (run) L where "state (procs s ! i) = RUNNABLE" "scheduler_visit i s = Ok (True,
      s\<lparr>procs := (procs s)[i := (procs s ! i)\<lparr>state := RUNNING\<rparr>], cur := Some i, locks := L\<rparr>)"
      "holds L {ProcLock i}"
  | (skip) L where "state (procs s ! i) \<noteq> RUNNABLE" "scheduler_visit i s = Ok (False, s\<lparr>locks := L\<rparr>)"
      "holds L {}"
proof -
  obtain L1 where L1: "kacquire (ProcLock i) s = Ok (s\<lparr>locks := L1\<rparr>)" "holds L1 {ProcLock i}"
    using kacquire_ok [of s "{}" "ProcLock i"] assms(1) by auto
  obtain L2 where L2: "krelease (ProcLock i) (s\<lparr>locks := L1\<rparr>) = Ok (s\<lparr>locks := L2\<rparr>)" "holds L2 {}"
    using krelease_ok [of "s\<lparr>locks := L1\<rparr>" "{ProcLock i}" "ProcLock i"] L1(2) by auto
  show ?thesis
  proof (cases "state (procs s ! i) = RUNNABLE")
    case True
    then show ?thesis using run L1 by (simp add: scheduler_visit_def upd_proc_def)
  next
    case False
    then show ?thesis using skip L1 L2 by (simp add: scheduler_visit_def)
  qed
qed

lemma scheduler_back_ok:
  assumes "holds (locks s) {ProcLock i}"
  obtains L where "scheduler_back i s = Ok (s\<lparr>cur := None, locks := L\<rparr>)" "holds L {}"
  using krelease_ok [of "s\<lparr>cur := None\<rparr>" "{ProcLock i}" "ProcLock i"] assms that
  by (auto simp: scheduler_back_def)

end
