(* ===== verification/Kstate.thy ===== *)
theory Kstate
  imports Vm Proc
begin

text \<open>
  The state the file system, pipe, file and process life-cycle code share: the structs of
  \<open>buf.h\<close>, \<open>sleeplock.h\<close>, \<open>fs.h\<close>, \<open>file.h\<close>, \<open>log.c\<close>, \<open>pipe.c\<close>, and one record that holds
  every table of the kernel. In the components above this theory the spin-lock brackets
  are left out (each bracketed region runs without interference on one hart, and theory
  Spinlock shows a bracket to be neutral); sleep locks are kept.
  A buffer, inode or file pointer is an index into its table.
\<close>

definition NBUF :: nat where "NBUF = 16"
definition NINODE :: nat where "NINODE = 8"
definition NFILE :: nat where "NFILE = 8"
definition NDEV :: nat where "NDEV = 8"
definition ROOTDEV :: u32 where "ROOTDEV = 1"
definition MAXOPBLOCKS :: nat where "MAXOPBLOCKS = 16"
definition LOGSIZE :: nat where "LOGSIZE = MAXOPBLOCKS"
definition BSIZE :: nat where "BSIZE = 512"
definition NDIRECT :: nat where "NDIRECT = 12"
definition NINDIRECT :: nat where "NINDIRECT = BSIZE div 4"
definition MAXFILE :: nat where "MAXFILE = NDIRECT + NINDIRECT"
definition DIRSIZ :: nat where "DIRSIZ = 14"
definition ROOTINO :: u32 where "ROOTINO = 1"
definition FSMAGIC :: u32 where "FSMAGIC = 0x10203040"
definition MAXPATH :: nat where "MAXPATH = 32"
definition MAXARG :: nat where "MAXARG = 16"
definition PIPESIZE :: nat where "PIPESIZE = 512"

lemmas fs_params = NBUF_def NINODE_def NFILE_def NDEV_def MAXOPBLOCKS_def LOGSIZE_def BSIZE_def
  NDIRECT_def NINDIRECT_def MAXFILE_def DIRSIZ_def

subsection \<open>Structs\<close>

record sleeplock =
  slocked :: bool
  slpid :: int

record buf =
  bvalid :: bool
  bdev :: u32
  bblockno :: u32
  block :: sleeplock
  brefcnt :: u32
  bdata :: "u8 list"

record logst =
  lstart :: u32
  lsize :: int
  outstanding :: int
  committing :: bool
  ldev :: u32
  lh_n :: int
  lh_block :: "u32 list"

record superblock =
  sb_magic :: u32
  sb_size :: u32
  sb_nblocks :: u32
  sb_ninodes :: u32
  sb_nlog :: u32
  sb_logstart :: u32
  sb_inodestart :: u32
  sb_bmapstart :: u32

record dinode =
  d_type :: u16
  d_major :: u16
  d_minor :: u16
  d_nlink :: u16
  d_size :: u32
  d_addrs :: "u32 list"

record inode =
  idev :: u32
  inum :: u32
  iref :: int
  ilk :: sleeplock
  ivalid :: bool
  idata :: dinode

datatype filetype = FD_NONE | FD_PIPE | FD_INODE | FD_DEVICE

record kfile =
  ftype :: filetype
  fref :: int
  freadable :: bool
  fwritable :: bool
  fpipe :: u32
  fip :: nat
  foff :: u32
  fmajor :: u16

record pipe =
  pdata :: "u8 list"
  nread :: u32
  nwrite :: u32
  readopen :: bool
  writeopen :: bool

text \<open>
  The console's input ring (\<open>console.c\<close>) and the transmit ring of the UART (\<open>uart.c\<close>). The
  device: what it has sent, the control registers written, whether the transmitter is idle
  at each of the coming reads of its status register, and the bytes it has received.
\<close>

record console =
  cbuf :: "u8 list"
  con_r :: u32
  con_w :: u32
  con_e :: u32

record uart =
  tx_buf :: "u8 list"
  tx_w :: u32
  tx_r :: u32
  usent :: "u8 list"
  uregs :: "(nat \<times> u8) list"
  uidle :: "bool list"
  urx :: "u8 list"

text \<open>
  The disk is a function from block numbers to blocks; \<open>dtrace\<close> is the list of block writes
  made so far, newest first, so that a crash can be placed between any two of them.
\<close>

record kst =
  ph :: phys
  sch :: sched_state
  bufs :: "buf list"
  lru :: "nat list"
  dsk :: "u32 \<Rightarrow> u8 list"
  dtrace :: "(u32 \<times> u8 list) list"
  lg :: logst
  sb :: superblock
  itab :: "inode list"
  ftab :: "kfile list"
  pipes :: "u32 \<Rightarrow> pipe"
  ticks :: u32
  cons :: console
  utx :: uart
  condev :: bool
  kpt :: u32

text \<open>One order of the field updates.\<close>

lemma kst_upd_order [simp]:
  "s\<lparr>sch := v1, ph := v0\<rparr> = s\<lparr>ph := v0, sch := v1\<rparr>"
  "s\<lparr>bufs := v2, ph := v0\<rparr> = s\<lparr>ph := v0, bufs := v2\<rparr>"
  "s\<lparr>lru := v3, ph := v0\<rparr> = s\<lparr>ph := v0, lru := v3\<rparr>"
  "s\<lparr>dsk := v4, ph := v0\<rparr> = s\<lparr>ph := v0, dsk := v4\<rparr>"
  "s\<lparr>dtrace := v5, ph := v0\<rparr> = s\<lparr>ph := v0, dtrace := v5\<rparr>"
  "s\<lparr>lg := v6, ph := v0\<rparr> = s\<lparr>ph := v0, lg := v6\<rparr>"
  "s\<lparr>sb := v7, ph := v0\<rparr> = s\<lparr>ph := v0, sb := v7\<rparr>"
  "s\<lparr>itab := v8, ph := v0\<rparr> = s\<lparr>ph := v0, itab := v8\<rparr>"
  "s\<lparr>ftab := v9, ph := v0\<rparr> = s\<lparr>ph := v0, ftab := v9\<rparr>"
  "s\<lparr>pipes := v10, ph := v0\<rparr> = s\<lparr>ph := v0, pipes := v10\<rparr>"
  "s\<lparr>ticks := v11, ph := v0\<rparr> = s\<lparr>ph := v0, ticks := v11\<rparr>"
  "s\<lparr>cons := v12, ph := v0\<rparr> = s\<lparr>ph := v0, cons := v12\<rparr>"
  "s\<lparr>utx := v13, ph := v0\<rparr> = s\<lparr>ph := v0, utx := v13\<rparr>"
  "s\<lparr>condev := v14, ph := v0\<rparr> = s\<lparr>ph := v0, condev := v14\<rparr>"
  "s\<lparr>kpt := v15, ph := v0\<rparr> = s\<lparr>ph := v0, kpt := v15\<rparr>"
  "s\<lparr>bufs := v2, sch := v1\<rparr> = s\<lparr>sch := v1, bufs := v2\<rparr>"
  "s\<lparr>lru := v3, sch := v1\<rparr> = s\<lparr>sch := v1, lru := v3\<rparr>"
  "s\<lparr>dsk := v4, sch := v1\<rparr> = s\<lparr>sch := v1, dsk := v4\<rparr>"
  "s\<lparr>dtrace := v5, sch := v1\<rparr> = s\<lparr>sch := v1, dtrace := v5\<rparr>"
  "s\<lparr>lg := v6, sch := v1\<rparr> = s\<lparr>sch := v1, lg := v6\<rparr>"
  "s\<lparr>sb := v7, sch := v1\<rparr> = s\<lparr>sch := v1, sb := v7\<rparr>"
  "s\<lparr>itab := v8, sch := v1\<rparr> = s\<lparr>sch := v1, itab := v8\<rparr>"
  "s\<lparr>ftab := v9, sch := v1\<rparr> = s\<lparr>sch := v1, ftab := v9\<rparr>"
  "s\<lparr>pipes := v10, sch := v1\<rparr> = s\<lparr>sch := v1, pipes := v10\<rparr>"
  "s\<lparr>ticks := v11, sch := v1\<rparr> = s\<lparr>sch := v1, ticks := v11\<rparr>"
  "s\<lparr>cons := v12, sch := v1\<rparr> = s\<lparr>sch := v1, cons := v12\<rparr>"
  "s\<lparr>utx := v13, sch := v1\<rparr> = s\<lparr>sch := v1, utx := v13\<rparr>"
  "s\<lparr>condev := v14, sch := v1\<rparr> = s\<lparr>sch := v1, condev := v14\<rparr>"
  "s\<lparr>kpt := v15, sch := v1\<rparr> = s\<lparr>sch := v1, kpt := v15\<rparr>"
  "s\<lparr>lru := v3, bufs := v2\<rparr> = s\<lparr>bufs := v2, lru := v3\<rparr>"
  "s\<lparr>dsk := v4, bufs := v2\<rparr> = s\<lparr>bufs := v2, dsk := v4\<rparr>"
  "s\<lparr>dtrace := v5, bufs := v2\<rparr> = s\<lparr>bufs := v2, dtrace := v5\<rparr>"
  "s\<lparr>lg := v6, bufs := v2\<rparr> = s\<lparr>bufs := v2, lg := v6\<rparr>"
  "s\<lparr>sb := v7, bufs := v2\<rparr> = s\<lparr>bufs := v2, sb := v7\<rparr>"
  "s\<lparr>itab := v8, bufs := v2\<rparr> = s\<lparr>bufs := v2, itab := v8\<rparr>"
  "s\<lparr>ftab := v9, bufs := v2\<rparr> = s\<lparr>bufs := v2, ftab := v9\<rparr>"
  "s\<lparr>pipes := v10, bufs := v2\<rparr> = s\<lparr>bufs := v2, pipes := v10\<rparr>"
  "s\<lparr>ticks := v11, bufs := v2\<rparr> = s\<lparr>bufs := v2, ticks := v11\<rparr>"
  "s\<lparr>cons := v12, bufs := v2\<rparr> = s\<lparr>bufs := v2, cons := v12\<rparr>"
  "s\<lparr>utx := v13, bufs := v2\<rparr> = s\<lparr>bufs := v2, utx := v13\<rparr>"
  "s\<lparr>condev := v14, bufs := v2\<rparr> = s\<lparr>bufs := v2, condev := v14\<rparr>"
  "s\<lparr>kpt := v15, bufs := v2\<rparr> = s\<lparr>bufs := v2, kpt := v15\<rparr>"
  "s\<lparr>dsk := v4, lru := v3\<rparr> = s\<lparr>lru := v3, dsk := v4\<rparr>"
  "s\<lparr>dtrace := v5, lru := v3\<rparr> = s\<lparr>lru := v3, dtrace := v5\<rparr>"
  "s\<lparr>lg := v6, lru := v3\<rparr> = s\<lparr>lru := v3, lg := v6\<rparr>"
  "s\<lparr>sb := v7, lru := v3\<rparr> = s\<lparr>lru := v3, sb := v7\<rparr>"
  "s\<lparr>itab := v8, lru := v3\<rparr> = s\<lparr>lru := v3, itab := v8\<rparr>"
  "s\<lparr>ftab := v9, lru := v3\<rparr> = s\<lparr>lru := v3, ftab := v9\<rparr>"
  "s\<lparr>pipes := v10, lru := v3\<rparr> = s\<lparr>lru := v3, pipes := v10\<rparr>"
  "s\<lparr>ticks := v11, lru := v3\<rparr> = s\<lparr>lru := v3, ticks := v11\<rparr>"
  "s\<lparr>cons := v12, lru := v3\<rparr> = s\<lparr>lru := v3, cons := v12\<rparr>"
  "s\<lparr>utx := v13, lru := v3\<rparr> = s\<lparr>lru := v3, utx := v13\<rparr>"
  "s\<lparr>condev := v14, lru := v3\<rparr> = s\<lparr>lru := v3, condev := v14\<rparr>"
  "s\<lparr>kpt := v15, lru := v3\<rparr> = s\<lparr>lru := v3, kpt := v15\<rparr>"
  "s\<lparr>dtrace := v5, dsk := v4\<rparr> = s\<lparr>dsk := v4, dtrace := v5\<rparr>"
  "s\<lparr>lg := v6, dsk := v4\<rparr> = s\<lparr>dsk := v4, lg := v6\<rparr>"
  "s\<lparr>sb := v7, dsk := v4\<rparr> = s\<lparr>dsk := v4, sb := v7\<rparr>"
  "s\<lparr>itab := v8, dsk := v4\<rparr> = s\<lparr>dsk := v4, itab := v8\<rparr>"
  "s\<lparr>ftab := v9, dsk := v4\<rparr> = s\<lparr>dsk := v4, ftab := v9\<rparr>"
  "s\<lparr>pipes := v10, dsk := v4\<rparr> = s\<lparr>dsk := v4, pipes := v10\<rparr>"
  "s\<lparr>ticks := v11, dsk := v4\<rparr> = s\<lparr>dsk := v4, ticks := v11\<rparr>"
  "s\<lparr>cons := v12, dsk := v4\<rparr> = s\<lparr>dsk := v4, cons := v12\<rparr>"
  "s\<lparr>utx := v13, dsk := v4\<rparr> = s\<lparr>dsk := v4, utx := v13\<rparr>"
  "s\<lparr>condev := v14, dsk := v4\<rparr> = s\<lparr>dsk := v4, condev := v14\<rparr>"
  "s\<lparr>kpt := v15, dsk := v4\<rparr> = s\<lparr>dsk := v4, kpt := v15\<rparr>"
  "s\<lparr>lg := v6, dtrace := v5\<rparr> = s\<lparr>dtrace := v5, lg := v6\<rparr>"
  "s\<lparr>sb := v7, dtrace := v5\<rparr> = s\<lparr>dtrace := v5, sb := v7\<rparr>"
  "s\<lparr>itab := v8, dtrace := v5\<rparr> = s\<lparr>dtrace := v5, itab := v8\<rparr>"
  "s\<lparr>ftab := v9, dtrace := v5\<rparr> = s\<lparr>dtrace := v5, ftab := v9\<rparr>"
  "s\<lparr>pipes := v10, dtrace := v5\<rparr> = s\<lparr>dtrace := v5, pipes := v10\<rparr>"
  "s\<lparr>ticks := v11, dtrace := v5\<rparr> = s\<lparr>dtrace := v5, ticks := v11\<rparr>"
  "s\<lparr>cons := v12, dtrace := v5\<rparr> = s\<lparr>dtrace := v5, cons := v12\<rparr>"
  "s\<lparr>utx := v13, dtrace := v5\<rparr> = s\<lparr>dtrace := v5, utx := v13\<rparr>"
  "s\<lparr>condev := v14, dtrace := v5\<rparr> = s\<lparr>dtrace := v5, condev := v14\<rparr>"
  "s\<lparr>kpt := v15, dtrace := v5\<rparr> = s\<lparr>dtrace := v5, kpt := v15\<rparr>"
  "s\<lparr>sb := v7, lg := v6\<rparr> = s\<lparr>lg := v6, sb := v7\<rparr>"
  "s\<lparr>itab := v8, lg := v6\<rparr> = s\<lparr>lg := v6, itab := v8\<rparr>"
  "s\<lparr>ftab := v9, lg := v6\<rparr> = s\<lparr>lg := v6, ftab := v9\<rparr>"
  "s\<lparr>pipes := v10, lg := v6\<rparr> = s\<lparr>lg := v6, pipes := v10\<rparr>"
  "s\<lparr>ticks := v11, lg := v6\<rparr> = s\<lparr>lg := v6, ticks := v11\<rparr>"
  "s\<lparr>cons := v12, lg := v6\<rparr> = s\<lparr>lg := v6, cons := v12\<rparr>"
  "s\<lparr>utx := v13, lg := v6\<rparr> = s\<lparr>lg := v6, utx := v13\<rparr>"
  "s\<lparr>condev := v14, lg := v6\<rparr> = s\<lparr>lg := v6, condev := v14\<rparr>"
  "s\<lparr>kpt := v15, lg := v6\<rparr> = s\<lparr>lg := v6, kpt := v15\<rparr>"
  "s\<lparr>itab := v8, sb := v7\<rparr> = s\<lparr>sb := v7, itab := v8\<rparr>"
  "s\<lparr>ftab := v9, sb := v7\<rparr> = s\<lparr>sb := v7, ftab := v9\<rparr>"
  "s\<lparr>pipes := v10, sb := v7\<rparr> = s\<lparr>sb := v7, pipes := v10\<rparr>"
  "s\<lparr>ticks := v11, sb := v7\<rparr> = s\<lparr>sb := v7, ticks := v11\<rparr>"
  "s\<lparr>cons := v12, sb := v7\<rparr> = s\<lparr>sb := v7, cons := v12\<rparr>"
  "s\<lparr>utx := v13, sb := v7\<rparr> = s\<lparr>sb := v7, utx := v13\<rparr>"
  "s\<lparr>condev := v14, sb := v7\<rparr> = s\<lparr>sb := v7, condev := v14\<rparr>"
  "s\<lparr>kpt := v15, sb := v7\<rparr> = s\<lparr>sb := v7, kpt := v15\<rparr>"
  "s\<lparr>ftab := v9, itab := v8\<rparr> = s\<lparr>itab := v8, ftab := v9\<rparr>"
  "s\<lparr>pipes := v10, itab := v8\<rparr> = s\<lparr>itab := v8, pipes := v10\<rparr>"
  "s\<lparr>ticks := v11, itab := v8\<rparr> = s\<lparr>itab := v8, ticks := v11\<rparr>"
  "s\<lparr>cons := v12, itab := v8\<rparr> = s\<lparr>itab := v8, cons := v12\<rparr>"
  "s\<lparr>utx := v13, itab := v8\<rparr> = s\<lparr>itab := v8, utx := v13\<rparr>"
  "s\<lparr>condev := v14, itab := v8\<rparr> = s\<lparr>itab := v8, condev := v14\<rparr>"
  "s\<lparr>kpt := v15, itab := v8\<rparr> = s\<lparr>itab := v8, kpt := v15\<rparr>"
  "s\<lparr>pipes := v10, ftab := v9\<rparr> = s\<lparr>ftab := v9, pipes := v10\<rparr>"
  "s\<lparr>ticks := v11, ftab := v9\<rparr> = s\<lparr>ftab := v9, ticks := v11\<rparr>"
  "s\<lparr>cons := v12, ftab := v9\<rparr> = s\<lparr>ftab := v9, cons := v12\<rparr>"
  "s\<lparr>utx := v13, ftab := v9\<rparr> = s\<lparr>ftab := v9, utx := v13\<rparr>"
  "s\<lparr>condev := v14, ftab := v9\<rparr> = s\<lparr>ftab := v9, condev := v14\<rparr>"
  "s\<lparr>kpt := v15, ftab := v9\<rparr> = s\<lparr>ftab := v9, kpt := v15\<rparr>"
  "s\<lparr>ticks := v11, pipes := v10\<rparr> = s\<lparr>pipes := v10, ticks := v11\<rparr>"
  "s\<lparr>cons := v12, pipes := v10\<rparr> = s\<lparr>pipes := v10, cons := v12\<rparr>"
  "s\<lparr>utx := v13, pipes := v10\<rparr> = s\<lparr>pipes := v10, utx := v13\<rparr>"
  "s\<lparr>condev := v14, pipes := v10\<rparr> = s\<lparr>pipes := v10, condev := v14\<rparr>"
  "s\<lparr>kpt := v15, pipes := v10\<rparr> = s\<lparr>pipes := v10, kpt := v15\<rparr>"
  "s\<lparr>cons := v12, ticks := v11\<rparr> = s\<lparr>ticks := v11, cons := v12\<rparr>"
  "s\<lparr>utx := v13, ticks := v11\<rparr> = s\<lparr>ticks := v11, utx := v13\<rparr>"
  "s\<lparr>condev := v14, ticks := v11\<rparr> = s\<lparr>ticks := v11, condev := v14\<rparr>"
  "s\<lparr>kpt := v15, ticks := v11\<rparr> = s\<lparr>ticks := v11, kpt := v15\<rparr>"
  "s\<lparr>utx := v13, cons := v12\<rparr> = s\<lparr>cons := v12, utx := v13\<rparr>"
  "s\<lparr>condev := v14, cons := v12\<rparr> = s\<lparr>cons := v12, condev := v14\<rparr>"
  "s\<lparr>kpt := v15, cons := v12\<rparr> = s\<lparr>cons := v12, kpt := v15\<rparr>"
  "s\<lparr>condev := v14, utx := v13\<rparr> = s\<lparr>utx := v13, condev := v14\<rparr>"
  "s\<lparr>kpt := v15, utx := v13\<rparr> = s\<lparr>utx := v13, kpt := v15\<rparr>"
  "s\<lparr>kpt := v15, condev := v14\<rparr> = s\<lparr>condev := v14, kpt := v15\<rparr>"
  by simp_all

subsection \<open>The current process and wakeup\<close>

text \<open>\<open>myproc()\<close> as an index; a null process pointer would be dereferenced.\<close>

definition me :: "kst \<Rightarrow> nat res" where
  "me s = (case cur (sch s) of None \<Rightarrow> Fail OutOfBounds | Some i \<Rightarrow> Ok i)"

definition mypid :: "kst \<Rightarrow> int res" where
  "mypid s = seq (me s) (\<lambda>i. Ok (pid (procs (sch s) ! i)))"

definition set_procs :: "proc list \<Rightarrow> kst \<Rightarrow> kst" where
  "set_procs ps s = s\<lparr>sch := (sch s)\<lparr>procs := ps\<rparr>\<rparr>"

definition upd_my :: "nat \<Rightarrow> (proc \<Rightarrow> proc) \<Rightarrow> kst \<Rightarrow> kst" where
  "upd_my i f s = set_procs ((procs (sch s))[i := f (procs (sch s) ! i)]) s"

text \<open>\<open>wakeup\<close> with its lock operations left out (\<open>wakeup_spec\<close> in theory Proc).\<close>

definition kwakeup :: "chan \<Rightarrow> kst \<Rightarrow> kst" where
  "kwakeup c s = set_procs (wake_procs c (cur (sch s)) (procs (sch s))) s"

subsection \<open>Sleep locks (sleeplock.c)\<close>

text \<open>
  The lock operations on a lock value: \<open>acquiresleep\<close> sleeps while the lock is taken, which
  is the value \<open>WouldSleep\<close>; \<open>releasesleep\<close> also wakes the sleepers.
\<close>

definition initsleeplock :: "sleeplock" where
  "initsleeplock = \<lparr>slocked = False, slpid = 0\<rparr>"

definition acquiresleep :: "chan \<Rightarrow> sleeplock \<Rightarrow> kst \<Rightarrow> sleeplock res" where
  "acquiresleep c k s =
     (if slocked k then Fail (WouldSleep c)
      else seq (mypid s) (\<lambda>p. Ok (k\<lparr>slocked := True, slpid := p\<rparr>)))"

definition releasesleep :: "sleeplock \<Rightarrow> sleeplock" where
  "releasesleep k = k\<lparr>slocked := False, slpid := 0\<rparr>"

definition holdingsleep :: "sleeplock \<Rightarrow> kst \<Rightarrow> bool res" where
  "holdingsleep k s = seq (mypid s) (\<lambda>p. Ok (slocked k \<and> slpid k = p))"

end
