(* ===== verification/Bio.thy ===== *)
theory Bio
  imports Kstate
begin

text \<open>
  The buffer cache (\<open>kernel/bio.c\<close>). The circular list through \<open>bcache.head\<close> is the list of
  buffer indices from \<open>head.next\<close> (most recently used) to \<open>head.prev\<close>.
\<close>

subsection \<open>The disk\<close>

text \<open>What \<open>spi_rb\<close> and \<open>spi_wb\<close> do on a card that works (theory Sdcard).\<close>

definition disk_read :: "u32 \<Rightarrow> kst \<Rightarrow> u8 list" where
  "disk_read b s = dsk s b"

definition disk_write :: "u32 \<Rightarrow> u8 list \<Rightarrow> kst \<Rightarrow> kst" where
  "disk_write b d s = s\<lparr>dsk := (dsk s)(b := d), dtrace := (b, d) # dtrace s\<rparr>"

subsection \<open>Operations\<close>

definition upd_buf :: "nat \<Rightarrow> (buf \<Rightarrow> buf) \<Rightarrow> kst \<Rightarrow> kst" where
  "upd_buf i f s = s\<lparr>bufs := (bufs s)[i := f (bufs s ! i)]\<rparr>"

definition binit :: "kst \<Rightarrow> kst" where
  "binit s = s\<lparr>bufs := map (block_update (\<lambda>_. initsleeplock)) (bufs s), lru := rev [0..<NBUF]\<rparr>"

primrec find_buf :: "(nat \<Rightarrow> bool) \<Rightarrow> nat list \<Rightarrow> nat option" where
  "find_buf P [] = None"
| "find_buf P (i # is) = (if P i then Some i else find_buf P is)"

definition lock_buf :: "nat \<Rightarrow> kst \<Rightarrow> (nat \<times> kst) res" where
  "lock_buf i s =
     seq (acquiresleep (ChanBuf i) (block (bufs s ! i)) s) (\<lambda>k.
       Ok (i, upd_buf i (block_update (\<lambda>_. k)) s))"

definition bget :: "u32 \<Rightarrow> u32 \<Rightarrow> kst \<Rightarrow> (nat \<times> kst) res" where
  "bget dev blockno s =
     (case find_buf (\<lambda>i. bdev (bufs s ! i) = dev \<and> bblockno (bufs s ! i) = blockno) (lru s) of
        Some i \<Rightarrow> lock_buf i (upd_buf i (\<lambda>b. b\<lparr>brefcnt := brefcnt b + 1\<rparr>) s)
      | None \<Rightarrow>
          (case find_buf (\<lambda>i. brefcnt (bufs s ! i) = 0) (rev (lru s)) of
             Some i \<Rightarrow> lock_buf i (upd_buf i
               (\<lambda>b. b\<lparr>bdev := dev, bblockno := blockno, bvalid := False, brefcnt := 1\<rparr>) s)
           | None \<Rightarrow> Fail (Panic ''bget: no buffers'')))"

definition bread :: "u32 \<Rightarrow> u32 \<Rightarrow> kst \<Rightarrow> (nat \<times> kst) res" where
  "bread dev blockno s =
     seq (bget dev blockno s) (\<lambda>(i, s).
       if \<not> bvalid (bufs s ! i)
       then Ok (i, upd_buf i
              (\<lambda>b. b\<lparr>bdata := disk_read (bblockno b) s, bvalid := True\<rparr>) s)
       else Ok (i, s))"

definition bwrite :: "nat \<Rightarrow> kst \<Rightarrow> kst res" where
  "bwrite i s =
     seq (holdingsleep (block (bufs s ! i)) s) (\<lambda>h.
       if \<not> h then Fail (Panic ''bwrite'')
       else Ok (disk_write (bblockno (bufs s ! i)) (bdata (bufs s ! i)) s))"

definition brelse :: "nat \<Rightarrow> kst \<Rightarrow> kst res" where
  "brelse i s =
     seq (holdingsleep (block (bufs s ! i)) s) (\<lambda>h.
       if \<not> h then Fail (Panic ''brelse'')
       else
         let s = kwakeup (ChanBuf i) (upd_buf i (\<lambda>b. b\<lparr>block := releasesleep (block b)\<rparr>) s);
             s = upd_buf i (\<lambda>b. b\<lparr>brefcnt := brefcnt b - 1\<rparr>) s
         in Ok (if brefcnt (bufs s ! i) = 0 then s\<lparr>lru := i # remove1 i (lru s)\<rparr> else s))"

definition bpin :: "nat \<Rightarrow> kst \<Rightarrow> kst" where
  "bpin i s = upd_buf i (\<lambda>b. b\<lparr>brefcnt := brefcnt b + 1\<rparr>) s"

definition bunpin :: "nat \<Rightarrow> kst \<Rightarrow> kst" where
  "bunpin i s = upd_buf i (\<lambda>b. b\<lparr>brefcnt := brefcnt b - 1\<rparr>) s"

text \<open>The kernel's direct writes to \<open>b->data\<close>.\<close>

definition set_data :: "nat \<Rightarrow> u8 list \<Rightarrow> kst \<Rightarrow> kst" where
  "set_data i d s = upd_buf i (\<lambda>b. b\<lparr>bdata := d\<rparr>) s"

definition buf_data :: "nat \<Rightarrow> kst \<Rightarrow> u8 list" where
  "buf_data i s = bdata (bufs s ! i)"

end
