(* ===== verification/Log.thy ===== *)
theory Log
  imports Bio
begin

text \<open>
  The write-ahead log (\<open>kernel/log.c\<close>). The header block holds the count and the block
  numbers as little-endian words; the in-memory header is \<open>lh_n\<close> and \<open>lh_block\<close>. An index
  past the \<open>LOGSIZE\<close> entries of \<open>block\<close> is out of bounds.
\<close>

subsection \<open>The header in a block\<close>

definition get32 :: "u8 list \<Rightarrow> nat \<Rightarrow> u32" where
  "get32 d o4 = of_le32 (d ! o4) (d ! (o4 + 1)) (d ! (o4 + 2)) (d ! (o4 + 3))"

definition put32 :: "nat \<Rightarrow> u32 \<Rightarrow> u8 list \<Rightarrow> u8 list" where
  "put32 o4 w d = take o4 d @ le32 w @ drop (o4 + 4) d"

definition upd_log :: "(logst \<Rightarrow> logst) \<Rightarrow> kst \<Rightarrow> kst" where
  "upd_log f s = s\<lparr>lg := f (lg s)\<rparr>"

subsection \<open>Operations\<close>

text \<open>\<open>lh->block[i]\<close> for \<open>i = 0 .. n - 1\<close> copied from a header block, and to one.\<close>

primrec head_from :: "nat \<Rightarrow> nat \<Rightarrow> u8 list \<Rightarrow> u32 list \<Rightarrow> u32 list res" where
  "head_from i 0 d bl = Ok bl"
| "head_from i (Suc n) d bl =
     (if LOGSIZE \<le> i then Fail OutOfBounds
      else head_from (Suc i) n d (bl[i := get32 d (4 + 4 * i)]))"

primrec head_to :: "nat \<Rightarrow> nat \<Rightarrow> u32 list \<Rightarrow> u8 list \<Rightarrow> u8 list res" where
  "head_to i 0 bl d = Ok d"
| "head_to i (Suc n) bl d =
     (if LOGSIZE \<le> i then Fail OutOfBounds
      else head_to (Suc i) n bl (put32 (4 + 4 * i) (bl ! i) d))"

definition log_block :: "nat \<Rightarrow> kst \<Rightarrow> u32 res" where
  "log_block tail s = (if LOGSIZE \<le> tail then Fail OutOfBounds else Ok (lh_block (lg s) ! tail))"

primrec install_from :: "bool \<Rightarrow> nat \<Rightarrow> nat \<Rightarrow> kst \<Rightarrow> kst res" where
  "install_from recovering tail 0 s = Ok s"
| "install_from recovering tail (Suc n) s =
     seq (bread (ldev (lg s)) (lstart (lg s) + of_nat tail + 1) s) (\<lambda>(lbuf, s).
     seq (log_block tail s) (\<lambda>b.
     seq (bread (ldev (lg s)) b s) (\<lambda>(dbuf, s).
       let s = set_data dbuf (buf_data lbuf s) s
       in seq (bwrite dbuf s) (\<lambda>s.
          let s = (if \<not> recovering then bunpin dbuf s else s)
          in seq (brelse lbuf s) (\<lambda>s.
             seq (brelse dbuf s) (install_from recovering (Suc tail) n))))))"

definition install_trans :: "bool \<Rightarrow> kst \<Rightarrow> kst res" where
  "install_trans recovering s = install_from recovering 0 (nat (lh_n (lg s))) s"

definition read_head :: "kst \<Rightarrow> kst res" where
  "read_head s =
     seq (bread (ldev (lg s)) (lstart (lg s)) s) (\<lambda>(i, s).
       let d = buf_data i s; n = sint (get32 d 0)
       in seq (head_from 0 (nat n) d (lh_block (lg s))) (\<lambda>bl.
            brelse i (upd_log (\<lambda>l. l\<lparr>lh_n := n, lh_block := bl\<rparr>) s)))"

definition write_head :: "kst \<Rightarrow> kst res" where
  "write_head s =
     seq (bread (ldev (lg s)) (lstart (lg s)) s) (\<lambda>(i, s).
       let d = put32 0 (word_of_int (lh_n (lg s))) (buf_data i s)
       in seq (head_to 0 (nat (lh_n (lg s))) (lh_block (lg s)) d) (\<lambda>d.
          let s = set_data i d s in seq (bwrite i s) (brelse i)))"

definition recover_from_log :: "kst \<Rightarrow> kst res" where
  "recover_from_log s =
     seq (read_head s) (\<lambda>s.
     seq (install_trans True s) (\<lambda>s.
       write_head (upd_log (\<lambda>l. l\<lparr>lh_n := 0\<rparr>) s)))"

definition initlog :: "u32 \<Rightarrow> superblock \<Rightarrow> kst \<Rightarrow> kst res" where
  "initlog dev sblk s =
     (if BSIZE \<le> 4 + 4 * LOGSIZE then Fail (Panic ''initlog: too big logheader'')
      else recover_from_log (upd_log (\<lambda>l. l\<lparr>lstart := sb_logstart sblk,
             lsize := sint (sb_nlog sblk), ldev := dev\<rparr>) s))"

definition begin_op :: "kst \<Rightarrow> kst res" where
  "begin_op s =
     (let l = lg s
      in if committing l then Fail (WouldSleep ChanLog)
         else if int LOGSIZE < lh_n l + (outstanding l + 1) * int MAXOPBLOCKS
         then Fail (WouldSleep ChanLog)
         else Ok (upd_log (\<lambda>l. l\<lparr>outstanding := outstanding l + 1\<rparr>) s))"

primrec write_log_from :: "nat \<Rightarrow> nat \<Rightarrow> kst \<Rightarrow> kst res" where
  "write_log_from tail 0 s = Ok s"
| "write_log_from tail (Suc n) s =
     seq (bread (ldev (lg s)) (lstart (lg s) + of_nat tail + 1) s) (\<lambda>(to_b, s).
     seq (log_block tail s) (\<lambda>b.
     seq (bread (ldev (lg s)) b s) (\<lambda>(from_b, s).
       let s = set_data to_b (buf_data from_b s) s
       in seq (bwrite to_b s) (\<lambda>s.
          seq (brelse from_b s) (\<lambda>s.
          seq (brelse to_b s) (write_log_from (Suc tail) n))))))"

definition write_log :: "kst \<Rightarrow> kst res" where
  "write_log s = write_log_from 0 (nat (lh_n (lg s))) s"

definition commit :: "kst \<Rightarrow> kst res" where
  "commit s =
     (if 0 < lh_n (lg s)
      then seq (write_log s) (\<lambda>s.
           seq (write_head s) (\<lambda>s.
           seq (install_trans False s) (\<lambda>s.
             write_head (upd_log (\<lambda>l. l\<lparr>lh_n := 0\<rparr>) s))))
      else Ok s)"

definition end_op :: "kst \<Rightarrow> kst res" where
  "end_op s =
     (let s = upd_log (\<lambda>l. l\<lparr>outstanding := outstanding l - 1\<rparr>) s
      in if committing (lg s) then Fail (Panic ''log.committing'')
         else if outstanding (lg s) = 0
         then seq (commit (upd_log (\<lambda>l. l\<lparr>committing := True\<rparr>) s)) (\<lambda>s.
                Ok (kwakeup ChanLog (upd_log (\<lambda>l. l\<lparr>committing := False\<rparr>) s)))
         else Ok (kwakeup ChanLog s))"

text \<open>The index the search loop of \<open>log_write\<close> stops at.\<close>

primrec absorb_from :: "u32 \<Rightarrow> u32 list \<Rightarrow> nat \<Rightarrow> nat \<Rightarrow> nat" where
  "absorb_from b bl i 0 = i"
| "absorb_from b bl i (Suc n) = (if bl ! i = b then i else absorb_from b bl (Suc i) n)"

definition log_write :: "nat \<Rightarrow> kst \<Rightarrow> kst res" where
  "log_write j s =
     (let l = lg s
      in if int LOGSIZE \<le> lh_n l \<or> lsize l - 1 \<le> lh_n l then Fail (Panic ''too big a transaction'')
         else if outstanding l < 1 then Fail (Panic ''log_write outside of trans'')
         else
           let b = bblockno (bufs s ! j); i = absorb_from b (lh_block l) 0 (nat (lh_n l));
               s = upd_log (\<lambda>l. l\<lparr>lh_block := (lh_block l)[i := b]\<rparr>) s
           in if int i = lh_n l
              then Ok (upd_log (\<lambda>l. l\<lparr>lh_n := lh_n l + 1\<rparr>) (bpin j s))
              else Ok s)"

end
