(* ===== verification/Copyio.thy ===== *)
theory Copyio
  imports Kstate
begin

text \<open>
  \<open>either_copyout\<close> and \<open>either_copyin\<close> of \<open>kernel/proc.c\<close>. The kernel side of a copy is a
  byte list. The other side is a user address of the current process, a kernel address, or
  a local variable of the caller (a \<open>struct dirent\<close>, an ELF header), which is the list of
  the bytes stored in it so far.
\<close>

datatype dest = UserDst u32 | KernDst u32 | LocalDst "u8 list"

datatype source = UserSrc u32 | KernSrc u32 | LocalSrc "u8 list"

definition upd_ph :: "phys \<Rightarrow> kst \<Rightarrow> kst" where
  "upd_ph p s = s\<lparr>ph := p\<rparr>"

definition my_pagetable :: "kst \<Rightarrow> u32 res" where
  "my_pagetable s = seq (me s) (\<lambda>i. Ok (pagetable (procs (sch s) ! i)))"

definition either_copyout :: "dest \<Rightarrow> u8 list \<Rightarrow> kst \<Rightarrow> (int \<times> kst) res" where
  "either_copyout d src s =
     (case d of
        UserDst va \<Rightarrow>
          seq (my_pagetable s) (\<lambda>pt.
          seq (copyout pt va src (ph s)) (\<lambda>(r, p). Ok (r, upd_ph p s)))
      | KernDst a \<Rightarrow> Ok (0, upd_ph ((ph s)\<lparr>pmem := put_bytes (pmem (ph s)) a src\<rparr>) s)
      | LocalDst bs \<Rightarrow> Ok (0, s))"

text \<open>The destination after \<open>dst += m\<close>, with the bytes a local variable has received.\<close>

primrec advance :: "dest \<Rightarrow> u8 list \<Rightarrow> dest" where
  "advance (UserDst va) bs = UserDst (va + of_nat (length bs))"
| "advance (KernDst a) bs = KernDst (a + of_nat (length bs))"
| "advance (LocalDst acc) bs = LocalDst (acc @ bs)"

definition either_copyin :: "source \<Rightarrow> nat \<Rightarrow> kst \<Rightarrow> (int \<times> u8 list) res" where
  "either_copyin src len s =
     (case src of
        UserSrc va \<Rightarrow> seq (my_pagetable s) (\<lambda>pt. copyin pt va len (ph s))
      | KernSrc a \<Rightarrow> Ok (0, get_bytes (pmem (ph s)) a len)
      | LocalSrc bs \<Rightarrow> Ok (0, take len bs))"

primrec consume :: "source \<Rightarrow> nat \<Rightarrow> source" where
  "consume (UserSrc va) m = UserSrc (va + of_nat m)"
| "consume (KernSrc a) m = KernSrc (a + of_nat m)"
| "consume (LocalSrc bs) m = LocalSrc (drop m bs)"

end
