(* ===== verification/Fs.thy ===== *)
theory Fs
  imports Log Copyio
begin

text \<open>
  The file system on top of the log (\<open>kernel/fs.c\<close>): block and inode allocation, the inode
  table, file contents through \<open>bmap\<close>, directories and paths. On-disk structures are
  read from and written to the bytes of the buffers. A path is the list of its bytes up to
  the NUL. Messages printed when the disk is full are left out.
\<close>

subsection \<open>fs.h\<close>

definition IPB :: nat where "IPB = BSIZE div 64"
definition BPB :: nat where "BPB = BSIZE * 8"
definition T_DIR :: u16 where "T_DIR = 1"
definition T_FILE :: u16 where "T_FILE = 2"
definition T_DEVICE :: u16 where "T_DEVICE = 3"

definition IBLOCK :: "u32 \<Rightarrow> superblock \<Rightarrow> u32" where
  "IBLOCK i sblk = i div of_nat IPB + sb_inodestart sblk"

definition BBLOCK :: "u32 \<Rightarrow> superblock \<Rightarrow> u32" where
  "BBLOCK b sblk = b div of_nat BPB + sb_bmapstart sblk"

definition get16 :: "u8 list \<Rightarrow> nat \<Rightarrow> u16" where
  "get16 d k = of_le16 (d ! k) (d ! (k + 1))"

text \<open>\<open>struct superblock\<close> at the start of a block.\<close>

definition sb_of_bytes :: "u8 list \<Rightarrow> superblock" where
  "sb_of_bytes d =
     \<lparr>sb_magic = get32 d 0, sb_size = get32 d 4, sb_nblocks = get32 d 8, sb_ninodes = get32 d 12,
      sb_nlog = get32 d 16, sb_logstart = get32 d 20, sb_inodestart = get32 d 24,
      sb_bmapstart = get32 d 28\<rparr>"

text \<open>\<open>struct dinode\<close> as its 64 bytes, and slot \<open>k\<close> of a block of them.\<close>

definition dinode_bytes :: "dinode \<Rightarrow> u8 list" where
  "dinode_bytes d =
     le16 (d_type d) @ le16 (d_major d) @ le16 (d_minor d) @ le16 (d_nlink d) @ le32 (d_size d) @
     concat (map le32 (d_addrs d))"

definition dinode_at :: "u8 list \<Rightarrow> nat \<Rightarrow> dinode" where
  "dinode_at d k =
     (let o0 = 64 * k
      in \<lparr>d_type = get16 d o0, d_major = get16 d (o0 + 2), d_minor = get16 d (o0 + 4),
          d_nlink = get16 d (o0 + 6), d_size = get32 d (o0 + 8),
          d_addrs = map (\<lambda>j. get32 d (o0 + 12 + 4 * j)) [0..<Suc NDIRECT]\<rparr>)"

definition put_dinode :: "nat \<Rightarrow> dinode \<Rightarrow> u8 list \<Rightarrow> u8 list" where
  "put_dinode k di d = take (64 * k) d @ dinode_bytes di @ drop (64 * k + 64) d"

text \<open>\<open>struct dirent\<close>: an inode number and \<open>DIRSIZ\<close> bytes of name.\<close>

definition DIRENT :: nat where "DIRENT = 2 + DIRSIZ"

definition dirent_bytes :: "u16 \<Rightarrow> u8 list \<Rightarrow> u8 list" where
  "dirent_bytes n name = le16 n @ name"

definition de_inum :: "u8 list \<Rightarrow> u16" where "de_inum de = get16 de 0"
definition de_name :: "u8 list \<Rightarrow> u8 list" where "de_name de = drop 2 de"

subsection \<open>The super block\<close>

definition readsb :: "u32 \<Rightarrow> kst \<Rightarrow> (superblock \<times> kst) res" where
  "readsb dev s =
     seq (bread dev 1 s) (\<lambda>(i, s).
       let sblk = sb_of_bytes (buf_data i s) in seq (brelse i s) (\<lambda>s. Ok (sblk, s)))"

definition fsinit :: "u32 \<Rightarrow> kst \<Rightarrow> kst res" where
  "fsinit dev s =
     seq (readsb dev s) (\<lambda>(sblk, s).
       let s = s\<lparr>sb := sblk\<rparr>
       in if sb_magic sblk \<noteq> FSMAGIC then Fail (Panic ''invalid file system'')
          else initlog dev sblk s)"

subsection \<open>Blocks\<close>

definition bzero :: "u32 \<Rightarrow> u32 \<Rightarrow> kst \<Rightarrow> kst res" where
  "bzero dev bno s =
     seq (bread dev bno s) (\<lambda>(i, s).
       let s = set_data i (replicate BSIZE 0) s
       in seq (log_write i s) (brelse i))"

definition bit_mask :: "nat \<Rightarrow> u8" where
  "bit_mask bi = push_bit (bi mod 8) 1"

definition bit_free :: "u8 list \<Rightarrow> nat \<Rightarrow> bool" where
  "bit_free d bi \<longleftrightarrow> d ! (bi div 8) AND bit_mask bi = 0"

text \<open>The inner loop of \<open>balloc\<close>: the first clear bit below the end of the disk.\<close>

primrec balloc_scan :: "nat \<Rightarrow> nat \<Rightarrow> nat \<Rightarrow> nat \<Rightarrow> u8 list \<Rightarrow> nat option" where
  "balloc_scan 0 bi b nblk d = None"
| "balloc_scan (Suc n) bi b nblk d =
     (if \<not> b + bi < nblk then None
      else if bit_free d bi then Some bi
      else balloc_scan n (Suc bi) b nblk d)"

primrec balloc_from :: "nat \<Rightarrow> nat \<Rightarrow> u32 \<Rightarrow> kst \<Rightarrow> (u32 \<times> kst) res" where
  "balloc_from 0 b dev s = Ok (0, s)"
| "balloc_from (Suc n) b dev s =
     (if b < unat (sb_size (sb s))
      then seq (bread dev (BBLOCK (of_nat b) (sb s)) s) (\<lambda>(i, s).
        case balloc_scan BPB 0 b (unat (sb_size (sb s))) (buf_data i s) of
          Some bi \<Rightarrow>
            let d = buf_data i s;
                s = set_data i (d[bi div 8 := d ! (bi div 8) OR bit_mask bi]) s
            in seq (log_write i s) (\<lambda>s.
               seq (brelse i s) (\<lambda>s.
               seq (bzero dev (of_nat (b + bi)) s) (\<lambda>s.
                 Ok (of_nat (b + bi), s))))
        | None \<Rightarrow> seq (brelse i s) (balloc_from n (b + BPB) dev))
      else Ok (0, s))"

text \<open>The outer loop runs once per bitmap block.\<close>

definition balloc :: "u32 \<Rightarrow> kst \<Rightarrow> (u32 \<times> kst) res" where
  "balloc dev s = balloc_from (unat (sb_size (sb s)) div BPB + 1) 0 dev s"

definition bfree :: "u32 \<Rightarrow> u32 \<Rightarrow> kst \<Rightarrow> kst res" where
  "bfree dev b s =
     seq (bread dev (BBLOCK b (sb s)) s) (\<lambda>(i, s).
       let bi = unat b mod BPB; d = buf_data i s
       in if bit_free d bi then Fail (Panic ''freeing free block'')
          else
            let s = set_data i (d[bi div 8 := d ! (bi div 8) AND NOT (bit_mask bi)]) s
            in seq (log_write i s) (brelse i))"

subsection \<open>The inode table\<close>

definition upd_inode :: "nat \<Rightarrow> (inode \<Rightarrow> inode) \<Rightarrow> kst \<Rightarrow> kst" where
  "upd_inode ip f s = s\<lparr>itab := (itab s)[ip := f (itab s ! ip)]\<rparr>"

definition upd_idata :: "nat \<Rightarrow> (dinode \<Rightarrow> dinode) \<Rightarrow> kst \<Rightarrow> kst" where
  "upd_idata ip f = upd_inode ip (\<lambda>i. i\<lparr>idata := f (idata i)\<rparr>)"

definition iinit :: "kst \<Rightarrow> kst" where
  "iinit s = s\<lparr>itab := map (ilk_update (\<lambda>_. initsleeplock)) (itab s)\<rparr>"

text \<open>The slot that holds the inode, or else the first free slot, in one pass over the table.\<close>

primrec iget_scan :: "u32 \<Rightarrow> u32 \<Rightarrow> nat option \<Rightarrow> nat \<Rightarrow> inode list \<Rightarrow> nat option \<times> nat option" where
  "iget_scan dev n free k [] = (None, free)"
| "iget_scan dev n free k (x # xs) =
     (if 0 < iref x \<and> idev x = dev \<and> inum x = n then (Some k, free)
      else iget_scan dev n (if free = None \<and> iref x = 0 then Some k else free) (Suc k) xs)"

definition iget :: "u32 \<Rightarrow> u32 \<Rightarrow> kst \<Rightarrow> (nat \<times> kst) res" where
  "iget dev n s =
     (case iget_scan dev n None 0 (itab s) of
        (Some ip, _) \<Rightarrow> Ok (ip, upd_inode ip (\<lambda>i. i\<lparr>iref := iref i + 1\<rparr>) s)
      | (None, None) \<Rightarrow> Fail (Panic ''iget: no inodes'')
      | (None, Some ip) \<Rightarrow>
          Ok (ip, upd_inode ip (\<lambda>i. i\<lparr>idev := dev, inum := n, iref := 1, ivalid := False\<rparr>) s))"

definition idup :: "nat \<Rightarrow> kst \<Rightarrow> nat \<times> kst" where
  "idup ip s = (ip, upd_inode ip (\<lambda>i. i\<lparr>iref := iref i + 1\<rparr>) s)"

definition dinode_zero :: dinode where
  "dinode_zero = \<lparr>d_type = 0, d_major = 0, d_minor = 0, d_nlink = 0, d_size = 0,
     d_addrs = replicate (Suc NDIRECT) 0\<rparr>"

definition inode_slot :: "u32 \<Rightarrow> nat" where
  "inode_slot n = unat n mod IPB"

primrec ialloc_from :: "nat \<Rightarrow> u32 \<Rightarrow> u32 \<Rightarrow> u16 \<Rightarrow> kst \<Rightarrow> (nat option \<times> kst) res" where
  "ialloc_from 0 n dev type s = Ok (None, s)"
| "ialloc_from (Suc k) n dev type s =
     (if n < sb_ninodes (sb s)
      then seq (bread dev (IBLOCK n (sb s)) s) (\<lambda>(i, s).
        let d = buf_data i s
        in if d_type (dinode_at d (inode_slot n)) = 0
           then
             let s = set_data i (put_dinode (inode_slot n) (dinode_zero\<lparr>d_type := type\<rparr>) d) s
             in seq (log_write i s) (\<lambda>s.
                seq (brelse i s) (\<lambda>s.
                seq (iget dev n s) (\<lambda>(ip, s). Ok (Some ip, s))))
           else seq (brelse i s) (ialloc_from k (n + 1) dev type))
      else Ok (None, s))"

definition ialloc :: "u32 \<Rightarrow> u16 \<Rightarrow> kst \<Rightarrow> (nat option \<times> kst) res" where
  "ialloc dev type s = ialloc_from (unat (sb_ninodes (sb s))) 1 dev type s"

definition iupdate :: "nat \<Rightarrow> kst \<Rightarrow> kst res" where
  "iupdate ip s =
     (let x = itab s ! ip
      in seq (bread (idev x) (IBLOCK (inum x) (sb s)) s) (\<lambda>(i, s).
           let s = set_data i (put_dinode (inode_slot (inum x)) (idata x) (buf_data i s)) s
           in seq (log_write i s) (brelse i)))"

definition ilock :: "nat \<Rightarrow> kst \<Rightarrow> kst res" where
  "ilock ip s =
     (let x = itab s ! ip
      in if iref x < 1 then Fail (Panic ''ilock'')
         else seq (acquiresleep (ChanInode ip) (ilk x) s) (\<lambda>k.
           let s = upd_inode ip (ilk_update (\<lambda>_. k)) s
           in if \<not> ivalid x
              then seq (bread (idev x) (IBLOCK (inum x) (sb s)) s) (\<lambda>(i, s).
                let di = dinode_at (buf_data i s) (inode_slot (inum x));
                    s = upd_idata ip (\<lambda>_. di) s
                in seq (brelse i s) (\<lambda>s.
                   let s = upd_inode ip (ivalid_update (\<lambda>_. True)) s
                   in if d_type di = 0 then Fail (Panic ''ilock: no type'') else Ok s))
              else Ok s))"

definition iunlock :: "nat \<Rightarrow> kst \<Rightarrow> kst res" where
  "iunlock ip s =
     (let x = itab s ! ip
      in seq (holdingsleep (ilk x) s) (\<lambda>h.
         if \<not> h \<or> iref x < 1 then Fail (Panic ''iunlock'')
         else Ok (kwakeup (ChanInode ip) (upd_inode ip (\<lambda>i. i\<lparr>ilk := releasesleep (ilk i)\<rparr>) s))))"

subsection \<open>Inode contents\<close>

definition iaddr :: "nat \<Rightarrow> nat \<Rightarrow> kst \<Rightarrow> u32" where
  "iaddr ip k s = d_addrs (idata (itab s ! ip)) ! k"

definition set_iaddr :: "nat \<Rightarrow> nat \<Rightarrow> u32 \<Rightarrow> kst \<Rightarrow> kst" where
  "set_iaddr ip k a = upd_idata ip (\<lambda>d. d\<lparr>d_addrs := (d_addrs d)[k := a]\<rparr>)"

text \<open>The block in slot \<open>k\<close> of \<open>addrs\<close>, allocated when the slot is empty.\<close>

definition addr_or_alloc :: "nat \<Rightarrow> nat \<Rightarrow> kst \<Rightarrow> (u32 \<times> kst) res" where
  "addr_or_alloc ip k s =
     (if iaddr ip k s = 0
      then seq (balloc (idev (itab s ! ip)) s) (\<lambda>(a, s).
        if a = 0 then Ok (0, s) else Ok (a, set_iaddr ip k a s))
      else Ok (iaddr ip k s, s))"

definition bmap :: "nat \<Rightarrow> u32 \<Rightarrow> kst \<Rightarrow> (u32 \<times> kst) res" where
  "bmap ip bn s =
     (if bn < of_nat NDIRECT then addr_or_alloc ip (unat bn) s
      else
        let bn = bn - of_nat NDIRECT
        in if bn < of_nat NINDIRECT
           then seq (addr_or_alloc ip NDIRECT s) (\<lambda>(addr, s).
             if addr = 0 then Ok (0, s)
             else seq (bread (idev (itab s ! ip)) addr s) (\<lambda>(i, s).
               let a = get32 (buf_data i s) (4 * unat bn)
               in if a = 0
                  then seq (balloc (idev (itab s ! ip)) s) (\<lambda>(a, s).
                    seq (if a \<noteq> 0
                         then log_write i (set_data i (put32 (4 * unat bn) a (buf_data i s)) s)
                         else Ok s) (\<lambda>s.
                    seq (brelse i s) (\<lambda>s. Ok (a, s))))
                  else seq (brelse i s) (\<lambda>s. Ok (a, s))))
           else Fail (Panic ''bmap: out of range''))"

primrec itrunc_direct :: "nat \<Rightarrow> nat list \<Rightarrow> kst \<Rightarrow> kst res" where
  "itrunc_direct ip [] s = Ok s"
| "itrunc_direct ip (k # ks) s =
     (if iaddr ip k s \<noteq> 0
      then seq (bfree (idev (itab s ! ip)) (iaddr ip k s) s) (\<lambda>s.
        itrunc_direct ip ks (set_iaddr ip k 0 s))
      else itrunc_direct ip ks s)"

text \<open>The entries of the indirect block in buffer \<open>i\<close>.\<close>

primrec itrunc_indirect :: "u32 \<Rightarrow> nat \<Rightarrow> nat list \<Rightarrow> kst \<Rightarrow> kst res" where
  "itrunc_indirect dev i [] s = Ok s"
| "itrunc_indirect dev i (j # js) s =
     (let a = get32 (buf_data i s) (4 * j)
      in if a \<noteq> 0 then seq (bfree dev a s) (itrunc_indirect dev i js)
         else itrunc_indirect dev i js s)"

definition itrunc :: "nat \<Rightarrow> kst \<Rightarrow> kst res" where
  "itrunc ip s =
     seq (itrunc_direct ip [0..<NDIRECT] s) (\<lambda>s.
     seq (if iaddr ip NDIRECT s \<noteq> 0
          then
            let dev = idev (itab s ! ip); a = iaddr ip NDIRECT s
            in seq (bread dev a s) (\<lambda>(i, s).
               seq (itrunc_indirect dev i [0..<NINDIRECT] s) (\<lambda>s.
               seq (brelse i s) (\<lambda>s.
               seq (bfree dev a s) (\<lambda>s.
                 Ok (set_iaddr ip NDIRECT 0 s)))))
          else Ok s) (\<lambda>s.
       iupdate ip (upd_idata ip (\<lambda>d. d\<lparr>d_size := 0\<rparr>) s)))"

definition iput :: "nat \<Rightarrow> kst \<Rightarrow> kst res" where
  "iput ip s =
     (let x = itab s ! ip
      in seq (if iref x = 1 \<and> ivalid x \<and> d_nlink (idata x) = 0
              then seq (acquiresleep (ChanInode ip) (ilk x) s) (\<lambda>k.
                   seq (itrunc ip (upd_inode ip (ilk_update (\<lambda>_. k)) s)) (\<lambda>s.
                   seq (iupdate ip (upd_idata ip (\<lambda>d. d\<lparr>d_type := 0\<rparr>) s)) (\<lambda>s.
                     Ok (kwakeup (ChanInode ip)
                       (upd_inode ip (\<lambda>i. i\<lparr>ivalid := False, ilk := releasesleep (ilk i)\<rparr>) s)))))
              else Ok s) (\<lambda>s.
           Ok (upd_inode ip (\<lambda>i. i\<lparr>iref := iref i - 1\<rparr>) s)))"

definition iunlockput :: "nat \<Rightarrow> kst \<Rightarrow> kst res" where
  "iunlockput ip s = seq (iunlock ip s) (iput ip)"

text \<open>
  \<open>struct stat\<close> as its 24 bytes; the four bytes of padding before \<open>size\<close> are whatever the
  stack held.
\<close>

definition stat_bytes :: "u8 list \<Rightarrow> inode \<Rightarrow> u8 list" where
  "stat_bytes pad x =
     le32 (idev x) @ le32 (inum x) @ le16 (d_type (idata x)) @ le16 (d_nlink (idata x)) @
     take 4 pad @ le32 (d_size (idata x)) @ [0, 0, 0, 0]"

subsection \<open>Reading and writing a file\<close>

text \<open>
  The bytes of one block that a transfer of \<open>left\<close> bytes at offset \<open>off\<close> handles at a time:
  \<open>min(n - tot, BSIZE - off%BSIZE)\<close>.
\<close>

definition block_chunk :: "u32 \<Rightarrow> nat \<Rightarrow> nat" where
  "block_chunk off left = min left (BSIZE - unat off mod BSIZE)"

lemma block_chunk_pos: "0 < left \<Longrightarrow> 0 < block_chunk off left"
  by (simp add: block_chunk_def BSIZE_def)

lemma block_chunk_le: "block_chunk off left \<le> left"
  by (simp add: block_chunk_def)

function readi_loop :: "nat \<Rightarrow> dest \<Rightarrow> u32 \<Rightarrow> nat \<Rightarrow> nat \<Rightarrow> kst \<Rightarrow> (int \<times> dest \<times> kst) res" where
  "readi_loop ip dst off tot n s =
     (if n \<le> tot then Ok (int tot, dst, s)
      else seq (bmap ip (off div of_nat BSIZE) s) (\<lambda>(addr, s).
        if addr = 0 then Ok (int tot, dst, s)
        else seq (bread (idev (itab s ! ip)) addr s) (\<lambda>(i, s).
          let m = block_chunk off (n - tot);
              bs = take m (drop (unat off mod BSIZE) (buf_data i s))
          in seq (either_copyout dst bs s) (\<lambda>(r, s).
             if r = -1 then seq (brelse i s) (\<lambda>s. Ok (-1, dst, s))
             else seq (brelse i s)
               (readi_loop ip (advance dst bs) (off + of_nat m) (tot + m) n)))))"
  by pat_completeness auto
termination
  by (relation "measure (\<lambda>(ip, dst, off, tot, n, s). n - tot)")
     (use block_chunk_pos in \<open>auto intro!: diff_less_mono2\<close>)

declare readi_loop.simps [simp del]

definition readi :: "nat \<Rightarrow> dest \<Rightarrow> u32 \<Rightarrow> u32 \<Rightarrow> kst \<Rightarrow> (int \<times> dest \<times> kst) res" where
  "readi ip dst off n s =
     (let fsize = d_size (idata (itab s ! ip))
      in if fsize < off \<or> off + n < off then Ok (0, dst, s)
         else readi_loop ip dst off 0 (unat (if fsize < off + n then fsize - off else n)) s)"

text \<open>The result, the offset reached and the state.\<close>

function writei_loop :: "nat \<Rightarrow> source \<Rightarrow> u32 \<Rightarrow> nat \<Rightarrow> nat \<Rightarrow> kst \<Rightarrow> (nat \<times> u32 \<times> kst) res" where
  "writei_loop ip src off tot n s =
     (if n \<le> tot then Ok (tot, off, s)
      else seq (bmap ip (off div of_nat BSIZE) s) (\<lambda>(addr, s).
        if addr = 0 then Ok (tot, off, s)
        else seq (bread (idev (itab s ! ip)) addr s) (\<lambda>(i, s).
          let m = block_chunk off (n - tot); o1 = unat off mod BSIZE
          in seq (either_copyin src m s) (\<lambda>(r, bs).
             let d = buf_data i s;
                 s = set_data i (take o1 d @ bs @ drop (o1 + length bs) d) s
             in if r = -1 then seq (brelse i s) (\<lambda>s. Ok (tot, off, s))
                else seq (log_write i s) (\<lambda>s.
                  seq (brelse i s)
                    (writei_loop ip (consume src m) (off + of_nat m) (tot + m) n))))))"
  by pat_completeness auto
termination
  by (relation "measure (\<lambda>(ip, src, off, tot, n, s). n - tot)")
     (use block_chunk_pos in \<open>auto intro!: diff_less_mono2\<close>)

declare writei_loop.simps [simp del]

definition writei :: "nat \<Rightarrow> source \<Rightarrow> u32 \<Rightarrow> u32 \<Rightarrow> kst \<Rightarrow> (int \<times> kst) res" where
  "writei ip src off n s =
     (if d_size (idata (itab s ! ip)) < off \<or> off + n < off then Ok (-1, s)
      else if of_nat (MAXFILE * BSIZE) < off + n then Ok (-1, s)
      else seq (writei_loop ip src off 0 (unat n) s) (\<lambda>(tot, off, s).
        let s = (if d_size (idata (itab s ! ip)) < off
                 then upd_idata ip (\<lambda>d. d\<lparr>d_size := off\<rparr>) s else s)
        in seq (iupdate ip s) (\<lambda>s. Ok (int tot, s))))"

subsection \<open>Directories\<close>

text \<open>
  \<open>strncmp\<close> on the bytes from two addresses on, where a list stands for its bytes followed
  by a NUL (\<open>strncmp_names\<close> relates it to theory Kstring).
\<close>

definition char_at :: "u8 list \<Rightarrow> u8" where
  "char_at p = (case p of [] \<Rightarrow> 0 | c # _ \<Rightarrow> c)"

primrec strncmp_list :: "nat \<Rightarrow> u8 list \<Rightarrow> u8 list \<Rightarrow> int" where
  "strncmp_list 0 p q = 0"
| "strncmp_list (Suc n) p q =
     (if char_at p \<noteq> 0 \<and> char_at p = char_at q then strncmp_list n (tl p) (tl q)
      else uint (char_at p) - uint (char_at q))"

definition namecmp :: "u8 list \<Rightarrow> u8 list \<Rightarrow> int" where
  "namecmp s t = strncmp_list DIRSIZ s t"

text \<open>\<open>readi\<close> of the directory entry at \<open>off\<close> into a local \<open>de\<close>; \<open>None\<close> when it is short.\<close>

definition read_dirent :: "nat \<Rightarrow> u32 \<Rightarrow> kst \<Rightarrow> (u8 list option \<times> kst) res" where
  "read_dirent dp off s =
     seq (readi dp (LocalDst []) off (of_nat DIRENT) s) (\<lambda>(r, dst, s).
       Ok (if r = int DIRENT then (case dst of LocalDst de \<Rightarrow> Some de | _ \<Rightarrow> None) else None, s))"

primrec dirlookup_from :: "nat \<Rightarrow> u32 \<Rightarrow> nat \<Rightarrow> u8 list \<Rightarrow> kst \<Rightarrow> ((nat \<times> u32) option \<times> kst) res" where
  "dirlookup_from 0 off dp name s = Fail Diverges"
| "dirlookup_from (Suc k) off dp name s =
     (if off < d_size (idata (itab s ! dp))
      then seq (read_dirent dp off s) (\<lambda>(r, s).
        case r of
          None \<Rightarrow> Fail (Panic ''dirlookup read'')
        | Some de \<Rightarrow>
            if de_inum de \<noteq> 0 \<and> namecmp name (de_name de) = 0
            then seq (iget (idev (itab s ! dp)) (ucast (de_inum de)) s) (\<lambda>(ip, s).
                   Ok (Some (ip, off), s))
            else dirlookup_from k (off + of_nat DIRENT) dp name s)
      else Ok (None, s))"

text \<open>One round per entry of the directory, and the round that finds its end.\<close>

definition dir_rounds :: "nat \<Rightarrow> kst \<Rightarrow> nat" where
  "dir_rounds dp s = unat (d_size (idata (itab s ! dp))) div DIRENT + 2"

definition dirlookup :: "nat \<Rightarrow> u8 list \<Rightarrow> kst \<Rightarrow> ((nat \<times> u32) option \<times> kst) res" where
  "dirlookup dp name s =
     (if d_type (idata (itab s ! dp)) \<noteq> T_DIR then Fail (Panic ''dirlookup not DIR'')
      else dirlookup_from (dir_rounds dp s) 0 dp name s)"

primrec dirlink_slot :: "nat \<Rightarrow> u32 \<Rightarrow> nat \<Rightarrow> kst \<Rightarrow> (u32 \<times> kst) res" where
  "dirlink_slot 0 off dp s = Fail Diverges"
| "dirlink_slot (Suc k) off dp s =
     (if off < d_size (idata (itab s ! dp))
      then seq (read_dirent dp off s) (\<lambda>(r, s).
        case r of
          None \<Rightarrow> Fail (Panic ''dirlink read'')
        | Some de \<Rightarrow>
            if de_inum de = 0 then Ok (off, s) else dirlink_slot k (off + of_nat DIRENT) dp s)
      else Ok (off, s))"

text \<open>\<open>strncpy(de.name, name, DIRSIZ)\<close>\<close>

definition name_field :: "u8 list \<Rightarrow> u8 list" where
  "name_field name =
     (let n = take DIRSIZ (takeWhile (\<lambda>c. c \<noteq> 0) name) in n @ replicate (DIRSIZ - length n) 0)"

definition dirlink :: "nat \<Rightarrow> u8 list \<Rightarrow> u32 \<Rightarrow> kst \<Rightarrow> (int \<times> kst) res" where
  "dirlink dp name n s =
     seq (dirlookup dp name s) (\<lambda>(r, s).
       case r of
         Some (ip, _) \<Rightarrow> seq (iput ip s) (\<lambda>s. Ok (-1, s))
       | None \<Rightarrow>
           seq (dirlink_slot (dir_rounds dp s) 0 dp s) (\<lambda>(off, s).
             let de = dirent_bytes (ucast n) (name_field name)
             in seq (writei dp (LocalSrc de) off (of_nat DIRENT) s) (\<lambda>(r, s).
                  Ok (if r \<noteq> int DIRENT then -1 else 0, s))))"

subsection \<open>Paths\<close>

definition slash :: u8 where "slash = 47"

definition skipelem :: "u8 list \<Rightarrow> (u8 list \<times> u8 list) option" where
  "skipelem path =
     (let p = dropWhile (\<lambda>c. c = slash) path
      in if p = [] then None
         else
           let elem = takeWhile (\<lambda>c. c \<noteq> slash) p; rest = dropWhile (\<lambda>c. c \<noteq> slash) p
           in Some (dropWhile (\<lambda>c. c = slash) rest, take DIRSIZ elem))"

lemma skipelem_shorter: "skipelem path = Some (rest, name) \<Longrightarrow> length rest < length path"
proof -
  assume a: "skipelem path = Some (rest, name)"
  let ?p = "dropWhile (\<lambda>c. c = slash) path"
  have ne: "?p \<noteq> []" and rest: "rest = dropWhile (\<lambda>c. c = slash) (dropWhile (\<lambda>c. c \<noteq> slash) ?p)"
    using a by (auto simp: skipelem_def Let_def split: if_splits)
  have "hd ?p \<noteq> slash" using hd_dropWhile [OF ne] .
  then have "dropWhile (\<lambda>c. c \<noteq> slash) ?p = dropWhile (\<lambda>c. c \<noteq> slash) (tl ?p)"
    using ne by (cases ?p) auto
  then have "length rest \<le> length (tl ?p)"
    unfolding rest by (metis length_dropWhile_le le_trans)
  moreover have "length (tl ?p) < length ?p" using ne by (cases ?p) auto
  moreover have "length ?p \<le> length path" by (rule length_dropWhile_le)
  ultimately show ?thesis by linarith
qed

text \<open>The inode the walk ends at, and the last element for \<open>nameiparent\<close>.\<close>

function namex_from ::
  "u8 list \<Rightarrow> bool \<Rightarrow> u8 list \<Rightarrow> nat \<Rightarrow> kst \<Rightarrow> ((nat \<times> u8 list) option \<times> kst) res" where
  "namex_from path par name ip s =
     (case skipelem path of
        None \<Rightarrow>
          if par then seq (iput ip s) (\<lambda>s. Ok (None, s)) else Ok (Some (ip, name), s)
      | Some (rest, name) \<Rightarrow>
          seq (ilock ip s) (\<lambda>s.
            if d_type (idata (itab s ! ip)) \<noteq> T_DIR
            then seq (iunlockput ip s) (\<lambda>s. Ok (None, s))
            else if par \<and> rest = []
            then seq (iunlock ip s) (\<lambda>s. Ok (Some (ip, name), s))
            else seq (dirlookup ip name s) (\<lambda>(r, s).
              case r of
                None \<Rightarrow> seq (iunlockput ip s) (\<lambda>s. Ok (None, s))
              | Some (nxt, _) \<Rightarrow>
                  seq (iunlockput ip s) (\<lambda>s. namex_from rest par name nxt s))))"
  by pat_completeness auto
termination
  by (relation "measure (\<lambda>(path, par, name, ip, s). length path)")
     (auto dest: skipelem_shorter)

declare namex_from.simps [simp del]

definition namex :: "u8 list \<Rightarrow> bool \<Rightarrow> kst \<Rightarrow> ((nat \<times> u8 list) option \<times> kst) res" where
  "namex path par s =
     seq (if path \<noteq> [] \<and> hd path = slash then iget ROOTDEV ROOTINO s
          else seq (me s) (\<lambda>i.
            case cwd (procs (sch s) ! i) of
              None \<Rightarrow> Fail OutOfBounds
            | Some ip \<Rightarrow> Ok (idup ip s)))
       (\<lambda>(ip, s). namex_from path par [] ip s)"

definition namei :: "u8 list \<Rightarrow> kst \<Rightarrow> (nat option \<times> kst) res" where
  "namei path s = seq (namex path False s) (\<lambda>(r, s). Ok (map_option fst r, s))"

definition nameiparent :: "u8 list \<Rightarrow> kst \<Rightarrow> ((nat \<times> u8 list) option \<times> kst) res" where
  "nameiparent path s = namex path True s"

end
