(* ===== verification/Ring.thy ===== *)
theory Ring
  imports Xv6_Prelude
begin

text \<open>
  Byte rings with free-running 32-bit counters, as the pipe, the console and the UART have
  them, and the interface they share: a bounded first-in first-out queue. The counters
  wrap around; because the size of the buffer divides \<open>2 ^ 32\<close>, the positions do not jump.
\<close>

subsection \<open>The contents of a ring\<close>

definition ring_content :: "u8 list \<Rightarrow> u32 \<Rightarrow> u32 \<Rightarrow> u8 list" where
  "ring_content b r w = map (\<lambda>i. b ! (unat (r + of_nat i) mod length b)) [0..<unat (w - r)]"

lemma length_ring_content [simp]: "length (ring_content b r w) = unat (w - r)"
  by (simp add: ring_content_def)

lemma ring_content_empty: "ring_content b r w = [] \<longleftrightarrow> r = w"
  by (auto simp: ring_content_def unat_eq_0)

lemma ring_step: "unat (w + 1 - r) = Suc (unat (w - r))" if "unat (w - r) < 2 ^ 32 - 1" for r w :: u32
proof -
  have "w + 1 - r = (w - r) + 1" by simp
  moreover have "unat ((w - r) + 1) = unat (w - r) + unat (1 :: u32)"
    by (rule unat_add_u32) (use that in simp)
  ultimately show ?thesis by (simp only: unat_1)
qed

lemma mod_window: "(a + i) mod N = (a + j) mod N \<Longrightarrow> i < N \<Longrightarrow> j < N \<Longrightarrow> i = j" for a i j N :: nat
proof (induction i j rule: linorder_wlog)
  case (le i j)
  then have "N dvd (a + j) - (a + i)" by (intro iffD1 [OF mod_eq_dvd_iff_nat]) auto
  then show ?case using le by (auto dest: dvd_imp_le)
qed simp

lemma ring_pos:
  assumes "N dvd 2 ^ 32" "i < N" "j < N"
  shows "unat ((r :: u32) + of_nat i) mod N = unat (r + of_nat j) mod N \<longleftrightarrow> i = j"
proof -
  have p: "unat (r + of_nat k) mod N = (unat r + k) mod N" if "k < N" for k
  proof -
    have "N \<le> 2 ^ 32" using assms(1) by (simp add: dvd_imp_le)
    then have "unat (of_nat k :: u32) = k" using that by simp
    then have "unat (r + of_nat k) = (unat r + k) mod 2 ^ 32" by (simp add: unat_word_ariths)
    then show ?thesis using assms(1) by (simp add: mod_mod_cancel)
  qed
  show ?thesis using assms mod_window [of "unat r" i N j] by (auto simp: p)
qed

lemma ring_put:
  assumes N: "length b = N" "N dvd 2 ^ 32" and room: "unat (w - r) < N" "N < 2 ^ 32"
  shows "ring_content (b[unat w mod N := c]) r (w + 1) = ring_content b r w @ [c]"
proof -
  let ?n = "unat (w - r)"
  have w: "w = r + of_nat ?n" by simp
  have suc: "unat (w + 1 - r) = Suc ?n" by (rule ring_step) (use room in simp)
  have old: "(b[unat w mod N := c]) ! (unat (r + of_nat i) mod N) = b ! (unat (r + of_nat i) mod N)"
    if "i < ?n" for i
  proof -
    have "unat (r + of_nat ?n) mod N \<noteq> unat (r + of_nat i) mod N"
      using ring_pos [OF N(2), of ?n i r] that room(1) by simp
    then show ?thesis using w by simp
  qed
  have "unat w mod N < N" using room by simp
  then have new: "(b[unat w mod N := c]) ! (unat (r + of_nat ?n) mod N) = c" using w N(1) by simp
  show ?thesis
    unfolding ring_content_def suc length_list_update N(1) upt_Suc_append [OF le0] map_append
    using old new by simp
qed

lemma ring_get:
  assumes "r \<noteq> w"
  shows "ring_content b r w = b ! (unat r mod length b) # ring_content b (r + 1) w"
proof -
  have "unat (w - r) = Suc (unat (w - (r + 1)))" by (rule unat_diff_Suc) (use assms in simp)
  then show ?thesis
    unfolding ring_content_def
    by (simp add: map_upt_Suc add.assoc del: upt_Suc)
qed

text \<open>A ring whose counters are at most its size apart, put to and taken from.\<close>

definition ring_ok :: "nat \<Rightarrow> u8 list \<Rightarrow> u32 \<Rightarrow> u32 \<Rightarrow> bool" where
  "ring_ok N b r w \<longleftrightarrow> length b = N \<and> unat (w - r) \<le> N \<and> N dvd 2 ^ 32 \<and> N < 2 ^ 32"

lemma ring_full_iff:
  assumes "N < 2 ^ 32"
  shows "w = r + of_nat N \<longleftrightarrow> unat (w - r :: u32) = N"
proof
  assume "unat (w - r) = N"
  then have "w - r = of_nat N" by (metis diff_eq_of_nat)
  then show "w = r + of_nat N" by (simp add: algebra_simps)
qed (use assms in simp)

lemma ring_ok_put:
  assumes "ring_ok N b r w" "w \<noteq> r + of_nat N"
  shows "ring_ok N (b[unat w mod N := c]) r (w + 1) \<and>
    ring_content (b[unat w mod N := c]) r (w + 1) = ring_content b r w @ [c]"
proof -
  have lt: "unat (w - r) < N" and N: "length b = N" "N dvd 2 ^ 32" "N < 2 ^ 32"
    using assms ring_full_iff [of N w r] by (auto simp: ring_ok_def)
  note c = ring_put [OF N(1,2) lt N(3), of c]
  have "length (ring_content (b[unat w mod N := c]) r (w + 1)) = Suc (unat (w - r))" unfolding c by simp
  then have "unat (w + 1 - r) \<le> N" using lt by (simp only: length_ring_content)
  then show ?thesis using c N by (simp add: ring_ok_def)
qed

lemma ring_ok_get:
  assumes "ring_ok N b r w" "ring_content b r w \<noteq> []"
  shows "ring_ok N b (r + 1) w \<and> ring_content b r w = b ! (unat r mod N) # ring_content b (r + 1) w"
proof -
  have ne: "r \<noteq> w" using assms(2) ring_content_empty by blast
  have c: "ring_content b r w = b ! (unat r mod N) # ring_content b (r + 1) w"
    using ring_get [OF ne, of b] assms(1) by (simp add: ring_ok_def)
  have "length (ring_content b r w) = Suc (length (ring_content b (r + 1) w))" by (subst c) simp
  then have "unat (w - (r + 1)) \<le> N" using assms(1) by (simp only: length_ring_content) (simp add: ring_ok_def)
  then show ?thesis using c assms(1) by (simp add: ring_ok_def)
qed

text \<open>Taking back the byte put last.\<close>

lemma ring_unput:
  assumes "r \<noteq> w"
  shows "ring_content b r (w - 1) = butlast (ring_content b r w)"
    "last (ring_content b r w) = b ! (unat (w - 1) mod length b)"
proof -
  have s: "unat (w - r) = Suc (unat (w - 1 - r))"
    using unat_diff_Suc [of w r] assms by (simp add: diff_diff_eq add.commute)
  have w: "r + of_nat (unat (w - 1 - r)) = w - 1" by simp
  show "ring_content b r (w - 1) = butlast (ring_content b r w)"
    "last (ring_content b r w) = b ! (unat (w - 1) mod length b)"
    unfolding ring_content_def s using w by (simp_all add: butlast_append)
qed

subsection \<open>The interface\<close>

datatype fifo_op = Put u8 | Get

locale fifo =
  fixes inv :: "'s \<Rightarrow> bool" and content :: "'s \<Rightarrow> u8 list" and full :: "'s \<Rightarrow> bool"
    and put :: "u8 \<Rightarrow> 's \<Rightarrow> 's" and first :: "'s \<Rightarrow> u8" and rest :: "'s \<Rightarrow> 's"
  assumes put_law: "inv s \<Longrightarrow> \<not> full s \<Longrightarrow> inv (put c s) \<and> content (put c s) = content s @ [c]"
    and get_law: "inv s \<Longrightarrow> content s \<noteq> [] \<Longrightarrow>
      inv (rest s) \<and> content s = first s # content (rest s)"
begin

text \<open>
  Running a sequence of attempts: a \<open>Put\<close> on a full ring and a \<open>Get\<close> on an empty one do
  nothing. The result is the bytes accepted, the bytes delivered and the final state.
\<close>

primrec run :: "fifo_op list \<Rightarrow> 's \<Rightarrow> u8 list \<times> u8 list \<times> 's" where
  "run [] s = ([], [], s)"
| "run (x # xs) s =
     (case x of
        Put c \<Rightarrow> if full s then run xs s
                 else (case run xs (put c s) of (ins, outs, s) \<Rightarrow> (c # ins, outs, s))
      | Get \<Rightarrow> if content s = [] then run xs s
               else (case run xs (rest s) of (ins, outs, t) \<Rightarrow> (ins, first s # outs, t)))"

lemma run_fifo: "inv s \<Longrightarrow> run xs s = (ins, outs, t) \<Longrightarrow> inv t \<and> outs @ content t = content s @ ins"
proof (induction xs arbitrary: s ins outs)
  case (Cons x xs)
  show ?case
  proof (cases x)
    case (Put c)
    obtain i o' u where r: "run xs (put c s) = (i, o', u)" by (metis prod_cases3)
    show ?thesis
    proof (cases "full s")
      case True
      then show ?thesis using Cons Put by simp
    next
      case False
      then have "ins = c # i" "outs = o'" "t = u" using Cons.prems(2) Put r by simp_all
      then show ?thesis using Cons.IH [of "put c s" i o'] put_law [OF Cons.prems(1) False] r by simp
    qed
  next
    case Get
    obtain i o' u where r: "run xs (rest s) = (i, o', u)" by (metis prod_cases3)
    show ?thesis
    proof (cases "content s = []")
      case True
      then show ?thesis using Cons Get by simp
    next
      case False
      then have "ins = i" "outs = first s # o'" "t = u" using Cons.prems(2) Get r by simp_all
      then show ?thesis using Cons.IH [of "rest s" i o'] get_law [OF Cons.prems(1) False] r by simp
    qed
  qed
qed simp

text \<open>Nothing delivered is lost, duplicated or reordered.\<close>

lemma delivered_prefix:
  assumes "inv s" "content s = []" "run xs s = (ins, outs, t)"
  shows "outs = take (length outs) ins" "ins = outs @ content t"
proof -
  have "ins = outs @ content t" using run_fifo [OF assms(1,3)] assms(2) by simp
  then show "ins = outs @ content t" "outs = take (length outs) ins" by simp_all
qed

end

end
