(* ===== verification/Pipe.thy ===== *)
theory Pipe
  imports Copyio Ring
begin

text \<open>
  Pipes (\<open>kernel/pipe.c\<close>). A pipe is named by the address of its page. A call that sleeps
  ends with \<open>Sleeping\<close>, the channel and the loop index; \<open>pipewrite\<close> goes on from that index
  and \<open>piperead\<close> starts over, as the loops around \<open>sleep\<close> do.
\<close>

datatype 'a outcome = Returned 'a | Sleeping chan nat

definition upd_pipe :: "u32 \<Rightarrow> (pipe \<Rightarrow> pipe) \<Rightarrow> kst \<Rightarrow> kst" where
  "upd_pipe pi f s = s\<lparr>pipes := (pipes s)(pi := f (pipes s pi))\<rparr>"

definition pipeclose :: "u32 \<Rightarrow> bool \<Rightarrow> kst \<Rightarrow> kst res" where
  "pipeclose pi writable s =
     (let s = (if writable then kwakeup (ChanPipeRead pi) (upd_pipe pi (writeopen_update (\<lambda>_. False)) s)
               else kwakeup (ChanPipeWrite pi) (upd_pipe pi (readopen_update (\<lambda>_. False)) s))
      in if \<not> readopen (pipes s pi) \<and> \<not> writeopen (pipes s pi)
         then seq (kfree pi (ph s)) (\<lambda>p. Ok (upd_ph p s))
         else Ok s)"

definition pipe_full :: "pipe \<Rightarrow> bool" where
  "pipe_full q \<longleftrightarrow> nwrite q = nread q + of_nat PIPESIZE"

definition pipe_put :: "u8 \<Rightarrow> pipe \<Rightarrow> pipe" where
  "pipe_put ch q =
     q\<lparr>pdata := (pdata q)[unat (nwrite q) mod PIPESIZE := ch], nwrite := nwrite q + 1\<rparr>"

definition pipe_first :: "pipe \<Rightarrow> u8" where
  "pipe_first q = pdata q ! (unat (nread q) mod PIPESIZE)"

definition pipe_rest :: "pipe \<Rightarrow> pipe" where
  "pipe_rest q = q\<lparr>nread := nread q + 1\<rparr>"

definition is_killed :: "nat \<Rightarrow> kst \<Rightarrow> bool" where
  "is_killed i s \<longleftrightarrow> killed (procs (sch s) ! i) \<noteq> 0"

text \<open>The loop of \<open>pipewrite\<close> with \<open>k = n - i\<close> bytes to go, for the process in slot \<open>pr\<close>.\<close>

primrec pipewrite_from ::
  "nat \<Rightarrow> u32 \<Rightarrow> u32 \<Rightarrow> nat \<Rightarrow> nat \<Rightarrow> kst \<Rightarrow> (int outcome \<times> kst) res" where
  "pipewrite_from pr pi addr i 0 s = Ok (Returned (int i), kwakeup (ChanPipeRead pi) s)"
| "pipewrite_from pr pi addr i (Suc k) s =
     (if \<not> readopen (pipes s pi) \<or> is_killed pr s then Ok (Returned (-1), s)
      else if pipe_full (pipes s pi)
      then Ok (Sleeping (ChanPipeWrite pi) i, kwakeup (ChanPipeRead pi) s)
      else seq (copyin (pagetable (procs (sch s) ! pr)) (addr + of_nat i) 1 (ph s)) (\<lambda>(r, bs).
        if r = -1 then Ok (Returned (int i), kwakeup (ChanPipeRead pi) s)
        else pipewrite_from pr pi addr (Suc i) k (upd_pipe pi (pipe_put (bs ! 0)) s)))"

definition pipewrite :: "u32 \<Rightarrow> u32 \<Rightarrow> int \<Rightarrow> kst \<Rightarrow> (int outcome \<times> kst) res" where
  "pipewrite pi addr n s = seq (me s) (\<lambda>pr. pipewrite_from pr pi addr 0 (nat n) s)"

primrec piperead_from :: "nat \<Rightarrow> u32 \<Rightarrow> u32 \<Rightarrow> nat \<Rightarrow> nat \<Rightarrow> kst \<Rightarrow> (nat \<times> kst) res" where
  "piperead_from pr pi addr i 0 s = Ok (i, s)"
| "piperead_from pr pi addr i (Suc k) s =
     (if nread (pipes s pi) = nwrite (pipes s pi) then Ok (i, s)
      else
        let ch = pipe_first (pipes s pi); s = upd_pipe pi pipe_rest s
        in seq (copyout (pagetable (procs (sch s) ! pr)) (addr + of_nat i) [ch] (ph s)) (\<lambda>(r, p).
             if r = -1 then Ok (i, upd_ph p s)
             else piperead_from pr pi addr (Suc i) k (upd_ph p s)))"

definition piperead :: "u32 \<Rightarrow> u32 \<Rightarrow> int \<Rightarrow> kst \<Rightarrow> (int outcome \<times> kst) res" where
  "piperead pi addr n s =
     seq (me s) (\<lambda>pr.
       if nread (pipes s pi) = nwrite (pipes s pi) \<and> writeopen (pipes s pi)
       then Ok (if is_killed pr s then Returned (-1) else Sleeping (ChanPipeRead pi) 0, s)
       else seq (piperead_from pr pi addr 0 (nat n) s) (\<lambda>(i, s).
         Ok (Returned (int i), kwakeup (ChanPipeWrite pi) s)))"

end
