(* ===== verification/Uart.thy ===== *)
theory Uart
  imports Pipe
begin

text \<open>
  The UART driver (\<open>kernel/uart.c\<close>). The device answers each read of its status register
  with the next element of \<open>uidle\<close>; after the last one it stays busy. A panicked kernel has
  stopped (the fault \<open>Panic\<close>), so the tests of \<open>panicked\<close> are left out.
\<close>

definition UART_TX_BUF_SIZE :: nat where "UART_TX_BUF_SIZE = 32"

definition upd_uart :: "(uart \<Rightarrow> uart) \<Rightarrow> kst \<Rightarrow> kst" where
  "upd_uart f s = s\<lparr>utx := f (utx s)\<rparr>"

definition uart_reg :: "nat \<Rightarrow> u8 \<Rightarrow> uart \<Rightarrow> uart" where
  "uart_reg r v u = u\<lparr>uregs := (r, v) # uregs u\<rparr>"

definition uartinit :: "kst \<Rightarrow> kst" where
  "uartinit s = upd_uart (\<lambda>u.
     let u = uart_reg 1 0 u; u = uart_reg 3 0x80 u;
         u = uart_reg 0 (of_nat (32000000 div 115200 mod 256)) u;
         u = uart_reg 1 (of_nat (32000000 div 115200 div 256)) u;
         u = uart_reg 3 0 u; u = uart_reg 2 7 u
     in uart_reg 1 3 u) s"

text \<open>\<open>ReadReg(LSR) & LSR_TX_IDLE\<close>\<close>

definition tx_idle :: "uart \<Rightarrow> bool \<times> uart" where
  "tx_idle u = (case uidle u of [] \<Rightarrow> (False, u) | b # bs \<Rightarrow> (b, u\<lparr>uidle := bs\<rparr>))"

definition uart_send :: "u8 \<Rightarrow> uart \<Rightarrow> uart" where
  "uart_send c u = u\<lparr>usent := usent u @ [c]\<rparr>"

primrec wait_idle :: "bool list \<Rightarrow> bool list res" where
  "wait_idle [] = Fail Diverges"
| "wait_idle (b # bs) = (if b then Ok bs else wait_idle bs)"

definition uartputc_sync :: "u8 \<Rightarrow> kst \<Rightarrow> kst res" where
  "uartputc_sync c s =
     seq (wait_idle (uidle (utx s))) (\<lambda>bs. Ok (upd_uart (\<lambda>u. uart_send c (u\<lparr>uidle := bs\<rparr>)) s))"

definition tx_full :: "uart \<Rightarrow> bool" where
  "tx_full u \<longleftrightarrow> tx_w u = tx_r u + of_nat UART_TX_BUF_SIZE"

definition tx_put :: "u8 \<Rightarrow> uart \<Rightarrow> uart" where
  "tx_put c u = u\<lparr>tx_buf := (tx_buf u)[unat (tx_w u) mod UART_TX_BUF_SIZE := c], tx_w := tx_w u + 1\<rparr>"

definition tx_first :: "uart \<Rightarrow> u8" where
  "tx_first u = tx_buf u ! (unat (tx_r u) mod UART_TX_BUF_SIZE)"

definition tx_rest :: "uart \<Rightarrow> uart" where
  "tx_rest u = u\<lparr>tx_r := tx_r u + 1\<rparr>"

text \<open>Each round sends one byte of the ring, so its fill level bounds the rounds.\<close>

primrec uartstart_from :: "nat \<Rightarrow> kst \<Rightarrow> kst" where
  "uartstart_from 0 s = s"
| "uartstart_from (Suc k) s =
     (if tx_w (utx s) = tx_r (utx s) then s
      else case tx_idle (utx s) of (idle, u) \<Rightarrow>
        let s = upd_uart (\<lambda>_. u) s
        in if \<not> idle then s
           else
             let c = tx_first (utx s); s = kwakeup ChanUartTx (upd_uart tx_rest s)
             in uartstart_from k (upd_uart (uart_send c) s))"

definition uartstart :: "kst \<Rightarrow> kst" where
  "uartstart s = uartstart_from (Suc (unat (tx_w (utx s) - tx_r (utx s)))) s"

text \<open>\<open>None\<close> when the caller has to sleep for room.\<close>

definition uartputc :: "u8 \<Rightarrow> kst \<Rightarrow> kst option" where
  "uartputc c s = (if tx_full (utx s) then None else Some (uartstart (upd_uart (tx_put c) s)))"

definition uartgetc :: "kst \<Rightarrow> u8 option \<times> kst" where
  "uartgetc s = (case urx (utx s) of [] \<Rightarrow> (None, s) | c # cs \<Rightarrow> (Some c, upd_uart (urx_update (\<lambda>_. cs)) s))"

end
