(* ===== verification/Printf.thy ===== *)
theory Printf
  imports Xv6_Prelude
begin

text \<open>
  Formatted output (\<open>kernel/printf.c\<close>) as the bytes handed to \<open>consputc\<close>. An argument that
  is missing or of the wrong type is undefined behaviour, and a digit past the end of the
  local buffer is out of bounds. \<open>panic\<close> is the fault \<open>Panic\<close>; its message is the fault's
  argument.
\<close>

datatype parg = PInt u32 | PPtr u32 | PStr "u8 list option"

definition digits :: "u8 list" where
  "digits = map of_nat [48, 49, 50, 51, 52, 53, 54, 55, 56, 57, 97, 98, 99, 100, 101, 102]"

definition DIGIT_BUF :: nat where "DIGIT_BUF = 16"

text \<open>The digits least significant first, with \<open>k\<close> places left in the buffer.\<close>

primrec digits_from :: "nat \<Rightarrow> u32 \<Rightarrow> u32 \<Rightarrow> u8 list res" where
  "digits_from 0 x base = Fail OutOfBounds"
| "digits_from (Suc k) x base =
     (let d = digits ! unat (x mod base)
      in if x div base = 0 then Ok [d]
         else seq (digits_from k (x div base) base) (\<lambda>ds. Ok (d # ds)))"

definition printint :: "u32 \<Rightarrow> u32 \<Rightarrow> bool \<Rightarrow> u8 list res" where
  "printint xx base sign =
     (let neg = (sign \<and> sint xx < 0); x = (if neg then - xx else xx)
      in seq (digits_from DIGIT_BUF x base) (\<lambda>ds.
           if \<not> neg then Ok (rev ds)
           else if length ds = DIGIT_BUF then Fail OutOfBounds
           else Ok (rev (ds @ [45]))))"

primrec printptr_from :: "nat \<Rightarrow> u32 \<Rightarrow> u8 list" where
  "printptr_from 0 x = []"
| "printptr_from (Suc k) x = digits ! unat (drop_bit 28 x) # printptr_from k (push_bit 4 x)"

definition printptr :: "u32 \<Rightarrow> u8 list" where
  "printptr x = [48, 120] @ printptr_from 8 x"

definition null_string :: "u8 list" where
  "null_string = [40, 110, 117, 108, 108, 41]"

text \<open>One conversion: the bytes it prints and the arguments left.\<close>

definition print_conv :: "u8 \<Rightarrow> parg list \<Rightarrow> (u8 list \<times> parg list) res" where
  "print_conv c args =
     (if c = 100 then
        (case args of PInt x # rest \<Rightarrow> seq (printint x 10 True) (\<lambda>o'. Ok (o', rest)) | _ \<Rightarrow> Fail OutOfBounds)
      else if c = 120 then
        (case args of PInt x # rest \<Rightarrow> seq (printint x 16 True) (\<lambda>o'. Ok (o', rest)) | _ \<Rightarrow> Fail OutOfBounds)
      else if c = 112 then
        (case args of PPtr x # rest \<Rightarrow> Ok (printptr x, rest) | _ \<Rightarrow> Fail OutOfBounds)
      else if c = 115 then
        (case args of
           PStr None # rest \<Rightarrow> Ok (null_string, rest)
         | PStr (Some t) # rest \<Rightarrow> Ok (takeWhile (\<lambda>b. b \<noteq> 0) t, rest)
         | _ \<Rightarrow> Fail OutOfBounds)
      else if c = 37 then Ok ([37], args)
      else Ok ([37, c], args))"

fun printf :: "u8 list \<Rightarrow> parg list \<Rightarrow> u8 list res" where
  "printf [] args = Ok []"
| "printf [c] args = (if c = 37 then Ok [] else Ok [c])"
| "printf (c # d # fmt) args =
     (if c \<noteq> 37 then seq (printf (d # fmt) args) (\<lambda>o'. Ok (c # o'))
      else seq (print_conv d args) (\<lambda>(o1, args).
           seq (printf fmt args) (\<lambda>o2. Ok (o1 @ o2))))"

end
