(* ===== verification/Console.thy ===== *)
theory Console
  imports Uart Printf
begin

text \<open>
  The console (\<open>kernel/console.c\<close>): output through the UART, input edited a line at a time
  by the interrupt handler, and \<open>procdump\<close> of \<open>kernel/proc.c\<close>, which control-P calls.
\<close>

definition INPUT_BUF_SIZE :: nat where "INPUT_BUF_SIZE = 128"
definition CONSOLE :: nat where "CONSOLE = 1"

definition upd_cons :: "(console \<Rightarrow> console) \<Rightarrow> kst \<Rightarrow> kst" where
  "upd_cons f s = s\<lparr>cons := f (cons s)\<rparr>"

text \<open>The argument of \<open>consputc\<close>: a character, or \<open>BACKSPACE\<close>.\<close>

datatype conout = Chr u8 | Backspace

definition consputc :: "conout \<Rightarrow> kst \<Rightarrow> kst res" where
  "consputc c s =
     (case c of
        Backspace \<Rightarrow> seq (uartputc_sync 8 s) (\<lambda>s. seq (uartputc_sync 32 s) (uartputc_sync 8))
      | Chr b \<Rightarrow> uartputc_sync b s)"

primrec consputs :: "u8 list \<Rightarrow> kst \<Rightarrow> kst res" where
  "consputs [] s = Ok s"
| "consputs (b # bs) s = seq (consputc (Chr b) s) (consputs bs)"

definition kprintf :: "u8 list \<Rightarrow> parg list \<Rightarrow> kst \<Rightarrow> kst res" where
  "kprintf fmt args s = seq (printf fmt args) (\<lambda>bs. consputs bs s)"

primrec state_name :: "procstate \<Rightarrow> u8 list" where
  "state_name UNUSED = ascii ''unused''"
| "state_name USED = ascii ''used  ''"
| "state_name SLEEPING = ascii ''sleep ''"
| "state_name RUNNABLE = ascii ''runble''"
| "state_name RUNNING = ascii ''run   ''"
| "state_name ZOMBIE = ascii ''zombie''"

primrec procdump_from :: "proc list \<Rightarrow> kst \<Rightarrow> kst res" where
  "procdump_from [] s = Ok s"
| "procdump_from (p # ps) s =
     (if state p = UNUSED then procdump_from ps s
      else seq (kprintf (ascii ''%d %s %s'')
             [PInt (word_of_int (pid p)), PStr (Some (state_name (state p))), PStr (Some (pname p))] s) (\<lambda>s.
           seq (kprintf [10] [] s) (procdump_from ps)))"

definition procdump :: "kst \<Rightarrow> kst res" where
  "procdump s = seq (kprintf [10] [] s) (\<lambda>s. procdump_from (procs (sch s)) s)"

subsection \<open>Input\<close>

definition con_at :: "u32 \<Rightarrow> console \<Rightarrow> u8" where
  "con_at k c = cbuf c ! (unat k mod INPUT_BUF_SIZE)"

text \<open>\<open>k\<close> bounds the characters of the line that control-U erases.\<close>

primrec kill_line :: "nat \<Rightarrow> kst \<Rightarrow> kst res" where
  "kill_line 0 s = Ok s"
| "kill_line (Suc k) s =
     (if con_e (cons s) \<noteq> con_w (cons s) \<and> con_at (con_e (cons s) - 1) (cons s) \<noteq> 10
      then seq (consputc Backspace (upd_cons (\<lambda>c. c\<lparr>con_e := con_e c - 1\<rparr>) s)) (kill_line k)
      else Ok s)"

definition con_put :: "u8 \<Rightarrow> console \<Rightarrow> console" where
  "con_put c k = k\<lparr>cbuf := (cbuf k)[unat (con_e k) mod INPUT_BUF_SIZE := c], con_e := con_e k + 1\<rparr>"

definition consoleintr :: "u8 \<Rightarrow> kst \<Rightarrow> kst res" where
  "consoleintr c s =
     (if c = 16 then procdump s
      else if c = 21 then kill_line (unat (con_e (cons s) - con_w (cons s))) s
      else if c = 8 \<or> c = 127 then
        (if con_e (cons s) \<noteq> con_w (cons s)
         then consputc Backspace (upd_cons (\<lambda>k. k\<lparr>con_e := con_e k - 1\<rparr>) s)
         else Ok s)
      else if c \<noteq> 0 \<and> con_e (cons s) - con_r (cons s) < of_nat INPUT_BUF_SIZE then
        let c = (if c = 13 then 10 else c)
        in seq (consputc (Chr c) s) (\<lambda>s.
           let s = upd_cons (con_put c) s
           in if c = 10 \<or> c = 4 \<or> con_e (cons s) - con_r (cons s) = of_nat INPUT_BUF_SIZE
              then Ok (kwakeup ChanConsR (upd_cons (\<lambda>k. k\<lparr>con_w := con_e k\<rparr>) s))
              else Ok s)
      else Ok s)"

definition consoleinit :: "kst \<Rightarrow> kst" where
  "consoleinit s = (uartinit s)\<lparr>condev := True\<rparr>"

text \<open>
  \<open>uartintr\<close> of \<open>uart.c\<close>: the received bytes go through \<open>consoleintr\<close>, then waiting output is
  started.
\<close>

primrec uartintr_rx :: "nat \<Rightarrow> kst \<Rightarrow> kst res" where
  "uartintr_rx 0 s = Ok s"
| "uartintr_rx (Suc k) s =
     (case uartgetc s of
        (None, s) \<Rightarrow> Ok s
      | (Some c, s) \<Rightarrow> seq (consoleintr c s) (uartintr_rx k))"

definition uartintr :: "kst \<Rightarrow> kst res" where
  "uartintr s = seq (uartintr_rx (Suc (length (urx (utx s)))) s) (\<lambda>s. Ok (uartstart s))"

subsection \<open>read and write\<close>

text \<open>\<open>target\<close> bytes were asked for, \<open>Suc k\<close> are still wanted.\<close>

primrec consoleread_from :: "nat \<Rightarrow> nat \<Rightarrow> dest \<Rightarrow> nat \<Rightarrow> kst \<Rightarrow> (int outcome \<times> kst) res" where
  "consoleread_from pr target dst 0 s = Ok (Returned (int target), s)"
| "consoleread_from pr target dst (Suc k) s =
     (if con_r (cons s) = con_w (cons s)
      then Ok (if is_killed pr s then Returned (-1) else Sleeping ChanConsR (target - Suc k), s)
      else
        let c = con_at (con_r (cons s)) (cons s);
            s = upd_cons (\<lambda>k. k\<lparr>con_r := con_r k + 1\<rparr>) s
        in if c = 4
           then Ok (Returned (int (target - Suc k)),
                  if Suc k < target then upd_cons (\<lambda>k. k\<lparr>con_r := con_r k - 1\<rparr>) s else s)
           else seq (either_copyout dst [c] s) (\<lambda>(r, s).
             if r = -1 then Ok (Returned (int (target - Suc k)), s)
             else if c = 10 then Ok (Returned (int (target - k)), s)
             else consoleread_from pr target (advance dst [c]) k s))"

definition consoleread :: "dest \<Rightarrow> int \<Rightarrow> kst \<Rightarrow> (int outcome \<times> kst) res" where
  "consoleread dst n s = seq (me s) (\<lambda>pr. consoleread_from pr (nat n) dst (nat n) s)"

primrec consolewrite_from :: "source \<Rightarrow> nat \<Rightarrow> nat \<Rightarrow> kst \<Rightarrow> (int outcome \<times> kst) res" where
  "consolewrite_from src i 0 s = Ok (Returned (int i), s)"
| "consolewrite_from src i (Suc k) s =
     seq (either_copyin (consume src i) 1 s) (\<lambda>(r, bs).
       if r = -1 then Ok (Returned (int i), s)
       else case uartputc (bs ! 0) s of
              None \<Rightarrow> Ok (Sleeping ChanUartTx i, s)
            | Some s \<Rightarrow> consolewrite_from src (Suc i) k s)"

definition consolewrite :: "source \<Rightarrow> int \<Rightarrow> kst \<Rightarrow> (int outcome \<times> kst) res" where
  "consolewrite src n s = consolewrite_from src 0 (nat n) s"

end
