(* ===== verification/File.thy ===== *)
theory File
  imports Fs Console
begin

text \<open>
  The file table (\<open>kernel/file.c\<close>) and \<open>pipealloc\<close> of \<open>kernel/pipe.c\<close>. The device table has
  one entry, the console, once \<open>consoleinit\<close> has run. A negative count reaches
  \<open>readi\<close> and \<open>writei\<close> as the large unsigned number it converts to.
\<close>

definition upd_file :: "nat \<Rightarrow> (kfile \<Rightarrow> kfile) \<Rightarrow> kst \<Rightarrow> kst" where
  "upd_file f g s = s\<lparr>ftab := (ftab s)[f := g (ftab s ! f)]\<rparr>"

definition filealloc :: "kst \<Rightarrow> nat option \<times> kst" where
  "filealloc s =
     (case find_buf (\<lambda>f. fref (ftab s ! f) = 0) [0..<NFILE] of
        None \<Rightarrow> (None, s)
      | Some f \<Rightarrow> (Some f, upd_file f (fref_update (\<lambda>_. 1)) s))"

definition filedup :: "nat \<Rightarrow> kst \<Rightarrow> (nat \<times> kst) res" where
  "filedup f s =
     (if fref (ftab s ! f) < 1 then Fail (Panic ''filedup'')
      else Ok (f, upd_file f (\<lambda>x. x\<lparr>fref := fref x + 1\<rparr>) s))"

definition fileclose :: "nat \<Rightarrow> kst \<Rightarrow> kst res" where
  "fileclose f s =
     (if fref (ftab s ! f) < 1 then Fail (Panic ''fileclose'')
      else
        let s = upd_file f (\<lambda>x. x\<lparr>fref := fref x - 1\<rparr>) s
        in if 0 < fref (ftab s ! f) then Ok s
           else
             let ff = ftab s ! f; s = upd_file f (\<lambda>x. x\<lparr>fref := 0, ftype := FD_NONE\<rparr>) s
             in case ftype ff of
                  FD_PIPE \<Rightarrow> pipeclose (fpipe ff) (fwritable ff) s
                | FD_INODE \<Rightarrow> seq (begin_op s) (\<lambda>s. seq (iput (fip ff) s) end_op)
                | FD_DEVICE \<Rightarrow> seq (begin_op s) (\<lambda>s. seq (iput (fip ff) s) end_op)
                | FD_NONE \<Rightarrow> Ok s)"

text \<open>\<open>pad\<close> is what the padding of the local \<open>struct stat\<close> holds.\<close>

definition filestat :: "u8 list \<Rightarrow> nat \<Rightarrow> u32 \<Rightarrow> kst \<Rightarrow> (int \<times> kst) res" where
  "filestat pad f addr s =
     (let x = ftab s ! f
      in if ftype x = FD_INODE \<or> ftype x = FD_DEVICE
         then seq (ilock (fip x) s) (\<lambda>s.
           let st = stat_bytes pad (itab s ! fip x)
           in seq (iunlock (fip x) s) (\<lambda>s.
              seq (either_copyout (UserDst addr) st s) (\<lambda>(r, s).
                Ok (if r < 0 then -1 else 0, s))))
         else Ok (-1, s))"

definition bad_major :: "u16 \<Rightarrow> bool" where
  "bad_major m \<longleftrightarrow> sint m < 0 \<or> int NDEV \<le> sint m"

definition no_device :: "u16 \<Rightarrow> kst \<Rightarrow> bool" where
  "no_device m s \<longleftrightarrow> bad_major m \<or> unat m \<noteq> CONSOLE \<or> \<not> condev s"

definition fileread :: "nat \<Rightarrow> u32 \<Rightarrow> int \<Rightarrow> kst \<Rightarrow> (int outcome \<times> kst) res" where
  "fileread f addr n s =
     (let x = ftab s ! f
      in if \<not> freadable x then Ok (Returned (-1), s)
         else case ftype x of
           FD_PIPE \<Rightarrow> piperead (fpipe x) addr n s
         | FD_DEVICE \<Rightarrow>
             if no_device (fmajor x) s then Ok (Returned (-1), s)
             else consoleread (UserDst addr) n s
         | FD_INODE \<Rightarrow>
             seq (ilock (fip x) s) (\<lambda>s.
             seq (readi (fip x) (UserDst addr) (foff x) (word_of_int n) s) (\<lambda>(r, _, s).
               let s = (if 0 < r then upd_file f (\<lambda>x. x\<lparr>foff := foff x + word_of_int r\<rparr>) s else s)
               in seq (iunlock (fip x) s) (\<lambda>s. Ok (Returned r, s))))
         | FD_NONE \<Rightarrow> Fail (Panic ''fileread''))"

definition write_max :: int where
  "write_max = int ((MAXOPBLOCKS - 1 - 1 - 2) div 2 * BSIZE)"

text \<open>Each round writes at least one byte or leaves the loop.\<close>

primrec filewrite_from :: "nat \<Rightarrow> nat \<Rightarrow> u32 \<Rightarrow> int \<Rightarrow> int \<Rightarrow> kst \<Rightarrow> (int \<times> kst) res" where
  "filewrite_from 0 f addr n i s = Fail Diverges"
| "filewrite_from (Suc k) f addr n i s =
     (if i < n then
        let n1 = min (n - i) write_max; ip = fip (ftab s ! f)
        in seq (begin_op s) (\<lambda>s.
           seq (ilock ip s) (\<lambda>s.
           seq (writei ip (UserSrc (addr + word_of_int i)) (foff (ftab s ! f)) (word_of_int n1) s) (\<lambda>(r, s).
             let s = (if 0 < r then upd_file f (\<lambda>x. x\<lparr>foff := foff x + word_of_int r\<rparr>) s else s)
             in seq (iunlock ip s) (\<lambda>s.
                seq (end_op s) (\<lambda>s.
                  if r \<noteq> n1 then Ok (i, s) else filewrite_from k f addr n (i + r) s)))))
      else Ok (i, s))"

definition filewrite :: "nat \<Rightarrow> u32 \<Rightarrow> int \<Rightarrow> kst \<Rightarrow> (int outcome \<times> kst) res" where
  "filewrite f addr n s =
     (let x = ftab s ! f
      in if \<not> fwritable x then Ok (Returned (-1), s)
         else case ftype x of
           FD_PIPE \<Rightarrow> pipewrite (fpipe x) addr n s
         | FD_DEVICE \<Rightarrow>
             if no_device (fmajor x) s then Ok (Returned (-1), s)
             else consolewrite (UserSrc addr) n s
         | FD_INODE \<Rightarrow>
             seq (filewrite_from (Suc (nat n)) f addr n 0 s) (\<lambda>(i, s).
               Ok (Returned (if i = n then n else -1), s))
         | FD_NONE \<Rightarrow> Fail (Panic ''filewrite''))"

subsection \<open>pipealloc\<close>

definition new_pipe :: "u32 \<Rightarrow> kst \<Rightarrow> kst" where
  "new_pipe pi = upd_pipe pi (\<lambda>q. q\<lparr>readopen := True, writeopen := True, nwrite := 0, nread := 0\<rparr>)"

definition close_if :: "nat option \<Rightarrow> kst \<Rightarrow> kst res" where
  "close_if f s = (case f of None \<Rightarrow> Ok s | Some f \<Rightarrow> fileclose f s)"

definition pipealloc :: "kst \<Rightarrow> ((nat \<times> nat) option \<times> kst) res" where
  "pipealloc s =
     (case filealloc s of (f0, s) \<Rightarrow>
      case (if f0 = None then (None, s) else filealloc s) of (f1, s) \<Rightarrow>
      let bad = (\<lambda>s. seq (close_if f0 s) (\<lambda>s. seq (close_if f1 s) (\<lambda>s. Ok (None, s))))
      in case (f0, f1) of
           (Some a, Some b) \<Rightarrow>
             (case kalloc (ph s) of (pi, p) \<Rightarrow>
                let s = upd_ph p s
                in if pi = 0 then bad s
                   else
                     let s = new_pipe pi s;
                         s = upd_file a (\<lambda>x. x\<lparr>ftype := FD_PIPE, freadable := True, fwritable := False, fpipe := pi\<rparr>) s;
                         s = upd_file b (\<lambda>x. x\<lparr>ftype := FD_PIPE, freadable := False, fwritable := True, fpipe := pi\<rparr>) s
                     in Ok (Some (a, b), s))
         | _ \<Rightarrow> bad s)"

end
