(* ===== verification/Proc_Life.thy ===== *)
theory Proc_Life
  imports File
begin

text \<open>
  The life cycle of processes (\<open>kernel/proc.c\<close>): allocation and freeing of a process, \<open>fork\<close>,
  \<open>exit\<close>, \<open>wait\<close>, \<open>growproc\<close>, the first process. Addresses the linker chooses
  (\<open>trampoline\<close>, \<open>forkret\<close>, \<open>etext\<close>, \<dots>) are the record \<open>ksyms\<close>. Process locks and
  \<open>wait_lock\<close> are left out, as is everything \<open>exit\<close> does after it has become a zombie (theory
  Proc_Sched has that part).
\<close>

record ksyms =
  sym_trampoline :: u32
  sym_forkret :: u32
  sym_etext :: u32
  sym_usertrap :: u32
  sym_kernelvec :: u32
  sym_uservec :: u32
  sym_userret :: u32
  sym_main :: u32
  sym_timervec :: u32
  sym_scratch :: u32

definition KSTACK :: "nat \<Rightarrow> u32" where
  "KSTACK p = TRAMPOLINE - (of_nat p + 1) * 2 * PGSIZE"

primrec proc_mapstacks_from :: "nat \<Rightarrow> nat \<Rightarrow> u32 \<Rightarrow> phys \<Rightarrow> phys res" where
  "proc_mapstacks_from p 0 kpgtbl s = Ok s"
| "proc_mapstacks_from p (Suc n) kpgtbl s =
     (case kalloc s of (pa, s) \<Rightarrow>
        if pa = 0 then Fail (Panic ''kalloc'')
        else seq (kvmmap kpgtbl (KSTACK p) pa PGSIZE (PTE_R OR PTE_W) s)
               (proc_mapstacks_from (Suc p) n kpgtbl))"

definition proc_mapstacks :: "u32 \<Rightarrow> phys \<Rightarrow> phys res" where
  "proc_mapstacks kpgtbl s = proc_mapstacks_from 0 NPROC kpgtbl s"

definition procinit :: "kst \<Rightarrow> kst" where
  "procinit s =
     set_procs (map (\<lambda>i. (procs (sch s) ! i)\<lparr>state := UNUSED, kstack := KSTACK i\<rparr>) [0..<NPROC]) s"

subsection \<open>The trap frame\<close>

text \<open>Word \<open>k\<close> of the trap frame of the process in slot \<open>i\<close>; the frame has 36 words.\<close>

definition TF_SIZE :: u32 where "TF_SIZE = 144"
definition TF_kernel_satp :: nat where "TF_kernel_satp = 0"
definition TF_kernel_sp :: nat where "TF_kernel_sp = 1"
definition TF_kernel_trap :: nat where "TF_kernel_trap = 2"
definition TF_epc :: nat where "TF_epc = 3"
definition TF_kernel_hartid :: nat where "TF_kernel_hartid = 4"
definition TF_sp :: nat where "TF_sp = 6"
definition TF_a0 :: nat where "TF_a0 = 14"
definition TF_a1 :: nat where "TF_a1 = 15"
definition TF_a7 :: nat where "TF_a7 = 21"

definition tf_get :: "nat \<Rightarrow> nat \<Rightarrow> kst \<Rightarrow> u32" where
  "tf_get i k s = load32 (pmem (ph s)) (trapframe (procs (sch s) ! i) + 4 * of_nat k)"

definition tf_set :: "nat \<Rightarrow> nat \<Rightarrow> u32 \<Rightarrow> kst \<Rightarrow> kst" where
  "tf_set i k w s =
     upd_ph ((ph s)\<lparr>pmem := store32 (pmem (ph s)) (trapframe (procs (sch s) ! i) + 4 * of_nat k) w\<rparr>) s"

text \<open>\<open>safestrcpy\<close> on a buffer that is an array of bytes.\<close>

definition safestrcpy_bytes :: "u8 list \<Rightarrow> u8 list \<Rightarrow> u8 list" where
  "safestrcpy_bytes dst src =
     (let t = take (length dst - 1) (takeWhile (\<lambda>b. b \<noteq> 0) src)
      in t @ [0] @ drop (length t + 1) dst)"

subsection \<open>Page tables of processes\<close>

definition proc_pagetable :: "ksyms \<Rightarrow> u32 \<Rightarrow> phys \<Rightarrow> (u32 \<times> phys) res" where
  "proc_pagetable K tf s =
     (case uvmcreate s of (pt, s) \<Rightarrow>
        if pt = 0 then Ok (0, s)
        else seq (mappages pt TRAMPOLINE PGSIZE (sym_trampoline K) (PTE_R OR PTE_X) s) (\<lambda>(r, s).
          if r < 0 then seq (uvmfree pt 0 s) (\<lambda>s. Ok (0, s))
          else seq (mappages pt TRAPFRAME PGSIZE tf (PTE_R OR PTE_W) s) (\<lambda>(r, s).
            if r < 0
            then seq (uvmunmap pt TRAMPOLINE 1 False s) (\<lambda>s. seq (uvmfree pt 0 s) (\<lambda>s. Ok (0, s)))
            else Ok (pt, s))))"

definition proc_freepagetable :: "u32 \<Rightarrow> u32 \<Rightarrow> phys \<Rightarrow> phys res" where
  "proc_freepagetable pt psize s =
     seq (uvmunmap pt TRAMPOLINE 1 False s) (\<lambda>s.
     seq (uvmunmap pt TRAPFRAME 1 False s) (\<lambda>s. uvmfree pt psize s))"

subsection \<open>Allocation\<close>

definition freeproc :: "nat \<Rightarrow> kst \<Rightarrow> kst res" where
  "freeproc i s =
     (let p = procs (sch s) ! i
      in seq (if trapframe p \<noteq> 0 then kfree (trapframe p) (ph s) else Ok (ph s)) (\<lambda>m.
         seq (if pagetable p \<noteq> 0 then proc_freepagetable (pagetable p) (sz p) m else Ok m) (\<lambda>m.
           Ok (upd_my i (\<lambda>p. p\<lparr>trapframe := 0, pagetable := 0, sz := 0, pid := 0, parent := None,
                 pname := (pname p)[0 := 0], chan := None, killed := 0, xstate := 0, state := UNUSED\<rparr>)
               (upd_ph m s)))))"

definition take_pid :: "kst \<Rightarrow> int \<times> kst" where
  "take_pid s = (nextpid (sch s), s\<lparr>sch := (sch s)\<lparr>nextpid := nextpid (sch s) + 1\<rparr>\<rparr>)"

definition allocproc :: "ksyms \<Rightarrow> kst \<Rightarrow> (nat option \<times> kst) res" where
  "allocproc K s =
     (case find_buf (\<lambda>i. state (procs (sch s) ! i) = UNUSED) [0..<NPROC] of
        None \<Rightarrow> Ok (None, s)
      | Some i \<Rightarrow>
          (case take_pid s of (n, s) \<Rightarrow>
           let s = upd_my i (\<lambda>p. p\<lparr>pid := n, state := USED\<rparr>) s
           in case kalloc (ph s) of (tf, m) \<Rightarrow>
             let s = upd_my i (trapframe_update (\<lambda>_. tf)) (upd_ph m s)
             in if tf = 0 then seq (freeproc i s) (\<lambda>s. Ok (None, s))
                else seq (proc_pagetable K tf (ph s)) (\<lambda>(pt, m).
                  let s = upd_my i (pagetable_update (\<lambda>_. pt)) (upd_ph m s)
                  in if pt = 0 then seq (freeproc i s) (\<lambda>s. Ok (None, s))
                     else Ok (Some i, upd_my i (\<lambda>p. p\<lparr>pcontext := \<lparr>ctx_ra = sym_forkret K,
                            ctx_sp = kstack p + PGSIZE, ctx_s = replicate 12 0\<rparr>\<rparr>) s))))"

definition initcode :: "u8 list" where
  "initcode = map of_nat
     [0x17, 0x05, 0x00, 0x00, 0x13, 0x05, 0x45, 0x02, 0x97, 0x05, 0x00, 0x00, 0x93, 0x85, 0x45, 0x02,
      0x93, 0x08, 0x70, 0x00, 0x73, 0x00, 0x00, 0x00, 0x93, 0x08, 0x20, 0x00, 0x73, 0x00, 0x00, 0x00,
      0xef, 0xf0, 0x9f, 0xff, 0x2f, 0x69, 0x6e, 0x69, 0x74, 0x00, 0x00, 0x00, 0x24, 0x00, 0x00, 0x00,
      0x00, 0x00, 0x00, 0x00]"

definition userinit :: "ksyms \<Rightarrow> kst \<Rightarrow> kst res" where
  "userinit K s =
     seq (allocproc K s) (\<lambda>(r, s).
       let s = s\<lparr>sch := (sch s)\<lparr>initproc := r\<rparr>\<rparr>
       in case r of
            None \<Rightarrow> Fail OutOfBounds
          | Some i \<Rightarrow>
              seq (uvmfirst (pagetable (procs (sch s) ! i)) initcode (ph s)) (\<lambda>m.
                let s = upd_my i (sz_update (\<lambda>_. PGSIZE)) (upd_ph m s);
                    s = tf_set i TF_epc 0 s; s = tf_set i TF_sp PGSIZE s;
                    s = upd_my i (\<lambda>p. p\<lparr>pname := safestrcpy_bytes (pname p) (ascii ''initcode'')\<rparr>) s
                in seq (namei [slash] s) (\<lambda>(ip, s).
                     Ok (upd_my i (\<lambda>p. p\<lparr>cwd := ip, state := RUNNABLE\<rparr>) s))))"

definition growproc :: "int \<Rightarrow> kst \<Rightarrow> (int \<times> kst) res" where
  "growproc n s =
     seq (me s) (\<lambda>i.
       let p = procs (sch s) ! i; oldsz = sz p
       in if 0 < n
          then seq (uvmalloc (pagetable p) oldsz (oldsz + word_of_int n) PTE_W (ph s)) (\<lambda>(sz1, m).
            if sz1 = 0 then Ok (-1, upd_ph m s)
            else Ok (0, upd_my i (sz_update (\<lambda>_. sz1)) (upd_ph m s)))
          else if n < 0
          then seq (uvmdealloc (pagetable p) oldsz (oldsz + word_of_int n) (ph s)) (\<lambda>(sz1, m).
            Ok (0, upd_my i (sz_update (\<lambda>_. sz1)) (upd_ph m s)))
          else Ok (0, s))"

subsection \<open>fork\<close>

primrec dup_files :: "nat \<Rightarrow> nat \<Rightarrow> nat list \<Rightarrow> kst \<Rightarrow> kst res" where
  "dup_files i np [] s = Ok s"
| "dup_files i np (fd # fds) s =
     (case ofile (procs (sch s) ! i) ! fd of
        None \<Rightarrow> dup_files i np fds s
      | Some f \<Rightarrow>
          seq (filedup f s) (\<lambda>(f, s).
            dup_files i np fds (upd_my np (\<lambda>p. p\<lparr>ofile := (ofile p)[fd := Some f]\<rparr>) s)))"

definition fork :: "ksyms \<Rightarrow> kst \<Rightarrow> (int \<times> kst) res" where
  "fork K s =
     seq (me s) (\<lambda>i.
     seq (allocproc K s) (\<lambda>(r, s).
       case r of
         None \<Rightarrow> Ok (-1, s)
       | Some np \<Rightarrow>
           let p = procs (sch s) ! i
           in seq (uvmcopy (pagetable p) (pagetable (procs (sch s) ! np)) (sz p) (ph s)) (\<lambda>(r, m).
              let s = upd_ph m s
              in if r < 0 then seq (freeproc np s) (\<lambda>s. Ok (-1, s))
                 else
                   let s = upd_my np (sz_update (\<lambda>_. sz p)) s;
                       s = upd_ph ((ph s)\<lparr>pmem := memmove (pmem (ph s))
                             (trapframe (procs (sch s) ! np)) (trapframe p) TF_SIZE\<rparr>) s;
                       s = tf_set np TF_a0 0 s
                   in seq (dup_files i np [0..<NOFILE] s) (\<lambda>s.
                        case cwd p of
                          None \<Rightarrow> Fail OutOfBounds
                        | Some dir \<Rightarrow>
                            (case idup dir s of (ip, s) \<Rightarrow>
                             let s = upd_my np (\<lambda>q. q\<lparr>cwd := Some ip,
                                   pname := safestrcpy_bytes (pname q) (pname p)\<rparr>) s
                             in Ok (pid (procs (sch s) ! np),
                                    upd_my np (\<lambda>q. q\<lparr>parent := Some i, state := RUNNABLE\<rparr>) s))))))"

subsection \<open>exit and wait\<close>

primrec reparent_from :: "nat \<Rightarrow> nat list \<Rightarrow> kst \<Rightarrow> kst" where
  "reparent_from i [] s = s"
| "reparent_from i (j # js) s =
     (if parent (procs (sch s) ! j) = Some i
      then
        let s = upd_my j (parent_update (\<lambda>_. initproc (sch s))) s
        in reparent_from i js (case initproc (sch s) of None \<Rightarrow> s | Some q \<Rightarrow> kwakeup (ChanProc q) s)
      else reparent_from i js s)"

definition reparent :: "nat \<Rightarrow> kst \<Rightarrow> kst" where
  "reparent i s = reparent_from i [0..<NPROC] s"

primrec close_files :: "nat \<Rightarrow> nat list \<Rightarrow> kst \<Rightarrow> kst res" where
  "close_files i [] s = Ok s"
| "close_files i (fd # fds) s =
     (case ofile (procs (sch s) ! i) ! fd of
        None \<Rightarrow> close_files i fds s
      | Some f \<Rightarrow>
          seq (fileclose f s) (\<lambda>s.
            close_files i fds (upd_my i (\<lambda>p. p\<lparr>ofile := (ofile p)[fd := None]\<rparr>) s)))"

text \<open>\<open>exit\<close> up to its call of \<open>sched\<close>.\<close>

definition exit :: "u32 \<Rightarrow> kst \<Rightarrow> kst res" where
  "exit status s =
     seq (me s) (\<lambda>i.
       if initproc (sch s) = Some i then Fail (Panic ''init exiting'')
       else seq (close_files i [0..<NOFILE] s) (\<lambda>s.
         seq (begin_op s) (\<lambda>s.
           case cwd (procs (sch s) ! i) of
             None \<Rightarrow> Fail OutOfBounds
           | Some dir \<Rightarrow>
               seq (iput dir s) (\<lambda>s.
               seq (end_op s) (\<lambda>s.
                 let s = reparent i (upd_my i (cwd_update (\<lambda>_. None)) s);
                     s = (case parent (procs (sch s) ! i) of
                            None \<Rightarrow> s | Some q \<Rightarrow> kwakeup (ChanProc q) s)
                 in Ok (upd_my i (\<lambda>p. p\<lparr>xstate := status, state := ZOMBIE\<rparr>) s))))))"

text \<open>One pass of \<open>wait\<close> over the table; \<open>Sleeping\<close> starts over when it is woken.\<close>

primrec wait_scan :: "nat \<Rightarrow> u32 \<Rightarrow> bool \<Rightarrow> nat list \<Rightarrow> kst \<Rightarrow> (int outcome \<times> kst) res" where
  "wait_scan i addr kids [] s =
     Ok (if \<not> kids \<or> is_killed i s then Returned (-1) else Sleeping (ChanProc i) 0, s)"
| "wait_scan i addr kids (j # js) s =
     (let pp = procs (sch s) ! j
      in if parent pp = Some i
         then if state pp = ZOMBIE
              then seq (if addr \<noteq> 0
                        then seq (copyout (pagetable (procs (sch s) ! i)) addr (le32 (xstate pp)) (ph s))
                               (\<lambda>(r, m). Ok (r < 0, upd_ph m s))
                        else Ok (False, s)) (\<lambda>(bad, s).
                   if bad then Ok (Returned (-1), s)
                   else seq (freeproc j s) (\<lambda>s. Ok (Returned (pid pp), s)))
              else wait_scan i addr True js s
         else wait_scan i addr kids js s)"

definition wait :: "u32 \<Rightarrow> kst \<Rightarrow> (int outcome \<times> kst) res" where
  "wait addr s = seq (me s) (\<lambda>i. wait_scan i addr False [0..<NPROC] s)"

end
