(* ===== verification/Vm_Free.thy ===== *)
theory Vm_Free
  imports Vm_Copy
begin

text \<open>
  Giving an address space back: \<open>freewalk\<close> frees the pages of an empty page table, \<open>uvmfree\<close>
  every page of a process.
\<close>

subsection \<open>Entries by number\<close>

lemma pg_index:
  assumes "i < 1024" "j < 1024"
  shows "ix1 (pg (1024 * i + j)) = i" "ix0 (pg (1024 * i + j)) = j"
proof -
  let ?n = "1024 * i + j"
  have n: "?n < 2 ^ 20" using assms by simp
  have u: "unat (pg ?n) = 4096 * ?n" by (rule unat_pg [OF n])
  have m: "(0x3FF :: u32) = mask 10" by (simp add: mask_eq_exp_minus_1)
  have px: "unat (PX l va) = unat va div 2 ^ (12 + 10 * l) mod 1024" if "l = 0 \<or> l = 1" for l va
  proof -
    have "PX l va = take_bit 10 (drop_bit (12 + 10 * l) va)" by (simp only: PX_def m take_bit_eq_mask)
    then have "unat (PX l va) = take_bit 10 (drop_bit (12 + 10 * l) (unat va))"
      by (simp only: unsigned_take_bit_eq unsigned_drop_bit_eq) (use that in \<open>auto simp: take_bit_drop_bit\<close>)
    then show ?thesis by (simp only: take_bit_eq_mod drop_bit_eq_div) simp
  qed
  have "?n div 1024 = i" "?n mod 1024 = j" using assms by simp_all
  then show "ix1 (pg ?n) = i" "ix0 (pg ?n) = j"
    using px [of 1 "pg ?n"] px [of 0 "pg ?n"] assms(1) unfolding ix1_def ix0_def u
    by (simp_all add: div_mult2_eq [of _ 4096 1024, simplified])
qed

text \<open>The number of a page of the address space, and whether the table maps nothing at all.\<close>

definition unmapped :: "mem \<Rightarrow> u32 \<Rightarrow> bool" where
  "unmapped m pt \<longleftrightarrow> (\<forall>j < 2 ^ 20. pmap m pt j = None)"

lemma unmapped_leaf:
  assumes "unmapped m pt" "i < 1024" "present m pt i" "j < 1024"
  shows "load32 m (slot (kid m pt i) j) AND PTE_V = 0"
proof -
  have "1024 * i + j < 2 ^ 20" using assms(2,4) by simp
  then have "mapping m pt (pg (1024 * i + j)) = None" using assms(1) by (simp add: unmapped_def pmap_def)
  then show ?thesis
    using assms(3) by (simp add: mapping_def leaf_def pg_index [OF assms(2,4)] split: if_splits)
qed

subsection \<open>freewalk\<close>

lemma slot_Suc_fold: "pt + 4 * of_nat i = slot pt i"
  by (simp add: slot_def)

lemma freewalk_empty:
  assumes "i + n \<le> 1024" "\<forall>j < 1024. load32 (pmem s) (slot pt j) AND PTE_V = 0"
  shows "freewalk_from r pt i n s = Ok s"
  using assms
  by (induction n arbitrary: i) (simp_all add: Let_def slot_Suc_fold)

lemma freewalk_kid:
  "\<forall>j < 1024. load32 (pmem s) (slot pt j) AND PTE_V = 0 \<Longrightarrow> freewalk (Suc d) pt s = kfree pt s"
  using freewalk_empty [of 0 1024 s pt] by simp

text \<open>The tables linked from entry \<open>i\<close> on.\<close>

definition kids :: "mem \<Rightarrow> u32 \<Rightarrow> nat \<Rightarrow> u32 set" where
  "kids m pt i = {kid m pt j | j. i \<le> j \<and> j < 1024 \<and> present m pt j}"

lemma kids_Suc:
  assumes "i < 1024"
  shows "kids m pt i = (if present m pt i then insert (kid m pt i) (kids m pt (Suc i)) else kids m pt (Suc i))"
proof -
  have "i \<le> j \<and> j < 1024 \<and> present m pt j \<longleftrightarrow> j = i \<and> present m pt i \<or> Suc i \<le> j \<and> j < 1024 \<and> present m pt j" for j
    using assms by (cases "j = i") auto
  then show ?thesis unfolding kids_def by auto
qed

lemma pt_pages_kids: "pt_pages m pt = insert pt (kids m pt 0)"
  by (simp add: pt_pages_def kids_def)

text \<open>What \<open>freewalk\<close> needs of the entries from \<open>i\<close> on; \<open>m\<close> is the memory it was called on.\<close>

definition walkable :: "mem \<Rightarrow> u32 \<Rightarrow> nat \<Rightarrow> phys \<Rightarrow> u32 list \<Rightarrow> bool" where
  "walkable m pt i s ps \<longleftrightarrow>
     kinv s ps \<and> pt \<notin> set ps \<and> kids m pt i \<inter> set ps = {} \<and> (\<forall>q \<in> kids m pt i. page_ok s q) \<and>
     (\<forall>j. i \<le> j \<longrightarrow> j < 1024 \<longrightarrow> l1 (pmem s) pt j = l1 m pt j) \<and> same_on (kids m pt i) m (pmem s)"

lemma freewalk_links:
  assumes wf: "pt_wf m pt" and un: "unmapped m pt" and i: "i + n = 1024" and w: "walkable m pt i s ps"
  shows "\<exists>s' ps'. freewalk_from (freewalk (Suc d)) pt i n s = Ok s' \<and> kinv s' ps' \<and> kend s' = kend s \<and>
    set ps' = set ps \<union> kids m pt i \<and> same_off (insert pt (kids m pt i)) (pmem s) (pmem s')"
  using i w
proof (induction n arbitrary: i s ps)
  case 0
  then have "kids m pt i = {}" by (auto simp: kids_def)
  then show ?case using 0 by (auto simp: walkable_def same_off_def)
next
  case (Suc n)
  have i: "i < 1024" "Suc i + n = 1024" using Suc.prems(1) by simp_all
  have al: "page_aligned pt" using wf by (simp add: pt_wf_def)
  have l1: "load32 (pmem s) (slot pt i) = l1 m pt i" using Suc.prems(2) i(1) by (simp add: walkable_def l1_def)
  show ?case
  proof (cases "present m pt i")
    case False
    then have "walkable m pt (Suc i) s ps" and k: "kids m pt i = kids m pt (Suc i)"
      using Suc.prems(2) kids_Suc [OF i(1), of m pt] by (auto simp: walkable_def)
    then show ?thesis
      using Suc.IH [OF i(2), of s ps] False l1 by (simp add: Let_def slot_Suc_fold present_def)
  next
    case True
    let ?k = "kid m pt i"
    have k: "kids m pt i = insert ?k (kids m pt (Suc i))" using kids_Suc [OF i(1), of m pt] True by simp
    have fresh: "?k \<notin> kids m pt (Suc i)" "?k \<noteq> pt" "pt \<notin> kids m pt (Suc i)"
      using wf True i(1) by (auto simp: pt_wf_def kids_def Suc_le_eq)
    have link: "l1 m pt i AND PTE_V \<noteq> 0" "l1 m pt i AND (PTE_R OR PTE_W OR PTE_X) = 0"
      using wf True i(1) by (auto simp: pt_wf_def present_def)
    have own: "page_ok s ?k" "?k \<notin> set ps" "kinv s ps" using Suc.prems(2) unfolding walkable_def k by auto
    have kal: "page_aligned q" if "q \<in> kids m pt j" for q j using that by (auto simp: kids_def kid_def)
    have same: "same_on {?k} m (pmem s)" using Suc.prems(2) unfolding walkable_def k same_on_def by blast
    have "\<forall>j < 1024. load32 (pmem s) (slot ?k j) AND PTE_V = 0"
    proof (intro allI impI)
      fix j assume j: "j < (1024 :: nat)"
      have "load32 (pmem s) (slot ?k j) = load32 m (slot ?k j)"
        by (rule load32_slot_cong [OF _ j]) (use same in \<open>simp_all add: kid_def same_on_def\<close>)
      then show "load32 (pmem s) (slot ?k j) AND PTE_V = 0" using unmapped_leaf [OF un i(1) True j] by simp
    qed
    then have call: "freewalk (Suc d) ?k s = kfree ?k s" by (rule freewalk_kid)
    obtain s1 where s1: "kfree ?k s = Ok s1" "kinv s1 (?k # ps)" "same_outside ?k s s1"
      using kfree_ok [OF own(3,1,2)] .
    let ?s2 = "s1\<lparr>pmem := store32 (pmem s1) (slot pt i) 0\<rparr>"
    have step: "freewalk_from (freewalk (Suc d)) pt i (Suc n) s = freewalk_from (freewalk (Suc d)) pt (Suc i) n ?s2"
      using l1 link call s1(1) by (simp add: Let_def slot_Suc_fold kid_def)
    have off1: "same_off {?k} (pmem s) (pmem s1)" and ke: "kend s1 = kend s"
      using s1(3) by (simp_all add: same_outside_def same_off_def)
    have st: "store32 (pmem s1) (slot pt i) 0 x = pmem s1 x" if "\<not> in_page pt x" for x
      using slot_bytes_in_page [OF i(1)] that not_less by (metis store32_other)
    have off2: "same_off {pt} (pmem s1) (pmem ?s2)" using st by (simp add: same_off_def)
    have ptps: "pt \<notin> set (?k # ps)" using Suc.prems(2) fresh(2) by (auto simp: walkable_def)
    have ok: "page_ok ?s2 q = page_ok s q" for q using ke by (simp add: page_ok_def)
    have kinv2: "kinv ?s2 (?k # ps)"
    proof -
      have "free_chain (pmem ?s2) (freelist s1) (?k # ps) = free_chain (pmem s1) (freelist s1) (?k # ps)"
        by (rule free_chain_other_page [of pt]) (use st ptps al s1(2) in \<open>auto simp: kinv_def page_ok_def\<close>)
      then show ?thesis using s1(2) by (simp add: kinv_def page_ok_def)
    qed
    have l1': "l1 (pmem ?s2) pt j = l1 m pt j" if j: "Suc i \<le> j" "j < 1024" for j
    proof -
      have "slot pt i \<noteq> slot pt j" using slot_inj [OF i(1) j(2)] j(1) by auto
      then have "l1 (pmem ?s2) pt j = l1 (pmem s1) pt j"
        unfolding l1_def using al i(1) j(2) by (simp add: load32_store32_aligned aligned4_slot)
      also have "\<dots> = l1 (pmem s) pt j"
        unfolding l1_def using off1 pages_disjoint [OF al _ fresh(2) [symmetric]] kal [of ?k i] k
        by (intro load32_slot_cong [OF al j(2)]) (auto simp: same_off_def)
      finally show ?thesis using Suc.prems(2) j by (simp add: walkable_def)
    qed
    have on: "same_on (kids m pt (Suc i)) m (pmem ?s2)"
    proof (rule same_on_trans, rule same_on_trans)
      show "same_on (kids m pt (Suc i)) m (pmem s)" using Suc.prems(2) unfolding walkable_def k same_on_def by blast
      show "same_on (kids m pt (Suc i)) (pmem s) (pmem s1)"
        by (rule same_off_on [OF off1]) (use kal fresh(1) in \<open>auto simp: kid_def\<close>)
      show "same_on (kids m pt (Suc i)) (pmem s1) (pmem ?s2)"
        by (rule same_off_on [OF off2]) (use kal fresh(3) al in auto)
    qed
    have "walkable m pt (Suc i) ?s2 (?k # ps)"
      unfolding walkable_def ok using kinv2 ptps on l1' Suc.prems(2) fresh(1) unfolding walkable_def k by auto
    then obtain s' ps' where r: "freewalk_from (freewalk (Suc d)) pt (Suc i) n ?s2 = Ok s'" "kinv s' ps'" "kend s' = kend ?s2"
      "set ps' = set (?k # ps) \<union> kids m pt (Suc i)" "same_off (insert pt (kids m pt (Suc i))) (pmem ?s2) (pmem s')"
      using Suc.IH [OF i(2)] by blast
    have "same_off (insert pt (kids m pt i)) (pmem s) (pmem s')"
      by (rule same_off_trans [OF same_off_trans], rule same_off_mono [OF off1], use k in blast,
          rule same_off_mono [OF off2], blast, rule same_off_mono [OF r(5)], use k in blast)
    then show ?thesis
      unfolding step using r(1-4) ke k by (intro exI [of _ s'] exI [of _ ps']) auto
  qed
qed

lemma freewalk_spec:
  assumes inv: "vm_inv s pt ps" and un: "unmapped (pmem s) pt"
  obtains s' ps' where "freewalk freewalk_depth pt s = Ok s'" "kinv s' ps'" "kend s' = kend s"
    "set ps' = set ps \<union> pt_pages (pmem s) pt" "same_off (pt_pages (pmem s) pt) (pmem s) (pmem s')"
proof -
  have wf: "pt_wf (pmem s) pt" using inv by (simp add: vm_inv_def)
  have pt: "pt \<notin> kids (pmem s) pt 0" using wf by (auto simp: pt_wf_def kids_def)
  have "walkable (pmem s) pt 0 s ps"
    using inv by (auto simp: walkable_def vm_inv_def pt_pages_kids same_on_def)
  then obtain s1 ps1 where 1: "freewalk_from (freewalk (Suc 0)) pt 0 1024 s = Ok s1" "kinv s1 ps1" "kend s1 = kend s"
    "set ps1 = set ps \<union> kids (pmem s) pt 0" "same_off (insert pt (kids (pmem s) pt 0)) (pmem s) (pmem s1)"
    using freewalk_links [OF wf un, of 0 1024 s ps 0] by auto
  have "page_ok s1 pt" "pt \<notin> set ps1"
    using inv pt 1(3,4) by (auto simp: vm_inv_def pt_pages_kids page_ok_def)
  then obtain s2 where 2: "kfree pt s1 = Ok s2" "kinv s2 (pt # ps1)" "same_outside pt s1 s2"
    using kfree_ok 1(2) by blast
  have "same_off (pt_pages (pmem s) pt) (pmem s) (pmem s2)"
    using 1(5) 2(3) unfolding pt_pages_kids by (auto simp: same_off_def same_outside_def)
  moreover have "freewalk freewalk_depth pt s = Ok s2"
    unfolding freewalk_depth_def numeral_2_eq_2 freewalk.simps(2) [of "Suc 0"] using 1(1) 2(1) by simp
  ultimately show ?thesis
    using that 2(2,3) 1(3,4) by (auto simp: pt_pages_kids same_outside_def)
qed

subsection \<open>uvmfree\<close>

lemma PGROUNDUP_pages:
  assumes "N = (unat sz + 4095) div 4096" "N < 2 ^ 20"
  shows "PGROUNDUP sz div PGSIZE = of_nat N"
proof -
  have "unat sz + 4095 < 2 ^ 32" using assms by (simp add: div_less_iff_less_mult)
  then have "unat (PGROUNDUP sz) = N * 4096" unfolding assms(1) by (rule unat_PGROUNDUP)
  then show ?thesis using assms(2) by (simp add: word_unat_eq_iff unat_div PGSIZE_def unat_of_nat_page)
qed

lemma uvmfree_spec:
  assumes A: "aspace s pt ps N" and N: "N = (unat sz + 4095) div 4096" "N < 2 ^ 20"
    and m: "\<forall>i < N. pmap (pmem s) pt i \<noteq> None" and un: "\<forall>j. N \<le> j \<longrightarrow> j < 2 ^ 20 \<longrightarrow> pmap (pmem s) pt j = None"
  obtains s' ps' where "uvmfree pt sz s = Ok s'" "kinv s' ps'" "kend s' = kend s"
    "set ps' = set ps \<union> foot (pmem s) pt N" "same_off (foot (pmem s) pt N) (pmem s) (pmem s')"
proof -
  have "\<exists>s1 ps1. (if 0 < sz then uvmunmap pt 0 (PGROUNDUP sz div PGSIZE) True s else Ok s) = Ok s1 \<and> vm_inv s1 pt ps1 \<and>
    kend s1 = kend s \<and> pt_pages (pmem s1) pt = pt_pages (pmem s) pt \<and> unmapped (pmem s1) pt \<and>
    set ps1 = set ps \<union> frames (pmem s) pt 0 N \<and> same_off (foot (pmem s) pt N) (pmem s) (pmem s1)"
  proof (cases "0 < sz")
    case False
    then have "sz = 0" by (simp add: word_neq_0_conv [symmetric])
    then have "N = 0" using N(1) by simp
    then show ?thesis
      using False aspaceD(1) [OF A] un by (auto simp: unmapped_def same_off_def intro!: exI [of _ s] exI [of _ ps])
  next
    case True
    obtain s1 ps1 where 1: "uvmunmap pt 0 (of_nat N) True s = Ok s1" "aspace s1 pt ps1 N" "kend s1 = kend s"
      "pt_pages (pmem s1) pt = pt_pages (pmem s) pt"
      "\<forall>j < 2 ^ 20. pmap (pmem s1) pt j = (if j < N then None else pmap (pmem s) pt j)"
      "set ps1 = set ps \<union> frames (pmem s) pt 0 N" "same_off (foot (pmem s) pt N) (pmem s) (pmem s1)"
      using uvmunmap_pages [OF A N(2) m] by blast
    have "unmapped (pmem s1) pt" using 1(5) un by (auto simp: unmapped_def)
    then show ?thesis using True 1 aspaceD(1) [OF 1(2)] by (auto simp: PGROUNDUP_pages [OF N])
  qed
  then obtain s1 ps1 where 1: "(if 0 < sz then uvmunmap pt 0 (PGROUNDUP sz div PGSIZE) True s else Ok s) = Ok s1" "vm_inv s1 pt ps1"
    "kend s1 = kend s" "pt_pages (pmem s1) pt = pt_pages (pmem s) pt" "unmapped (pmem s1) pt"
    "set ps1 = set ps \<union> frames (pmem s) pt 0 N" "same_off (foot (pmem s) pt N) (pmem s) (pmem s1)" by (elim exE conjE)
  obtain s' ps' where 2: "freewalk freewalk_depth pt s1 = Ok s'" "kinv s' ps'" "kend s' = kend s1"
    "set ps' = set ps1 \<union> pt_pages (pmem s1) pt" "same_off (pt_pages (pmem s1) pt) (pmem s1) (pmem s')"
    using freewalk_spec [OF 1(2,5)] .
  have "same_off (foot (pmem s) pt N) (pmem s) (pmem s')"
    by (rule same_off_trans [OF 1(7)], rule same_off_mono [OF 2(5)]) (simp add: 1(4) foot_def)
  moreover have "set ps' = set ps \<union> foot (pmem s) pt N" using 2(4) 1(4,6) by (auto simp: foot_def)
  moreover have "uvmfree pt sz s = Ok s'" unfolding uvmfree_def 1(1) using 2(1) by simp
  ultimately show ?thesis using that 2(2,3) 1(3) by simp
qed

text \<open>
  C19: \<open>uvmfree\<close> gives back all of an address space. When the pages below \<open>sz\<close> and no others are
  mapped and belong to it alone, \<open>uvmfree\<close> returns without a panic, the free list then holds
  exactly what it held before, the pages that were mapped and the pages of the table, each once,
  and nothing outside those pages has changed.
\<close>

theorem uvmfree_returns_every_page:
  assumes "space_inv s pt ps (4096 * N)" "N = (unat sz + 4095) div 4096" "N < 2 ^ 20"
    "\<And>i. i < N \<Longrightarrow> mapping (pmem s) pt (pg i) \<noteq> None" "\<And>va. 4096 * N \<le> unat va \<Longrightarrow> mapping (pmem s) pt va = None"
  shows "\<exists>s' ps'. uvmfree pt sz s = Ok s' \<and> kinv s' ps' \<and> set ps' = set ps \<union> foot (pmem s) pt N \<and>
    same_off (foot (pmem s) pt N) (pmem s) (pmem s')"
proof -
  have A: "aspace s pt ps N" using assms(1,3) space_inv_aspace [of N s pt ps] by simp
  have "\<forall>i < N. pmap (pmem s) pt i \<noteq> None" "\<forall>j. N \<le> j \<longrightarrow> j < 2 ^ 20 \<longrightarrow> pmap (pmem s) pt j = None"
    using assms(4,5) unat_pg by (auto simp: pmap_def)
  then show ?thesis using uvmfree_spec [OF A assms(2,3)] by metis
qed

lemma uvmfree_returns_every_page_witness:
  "\<exists>s' ps'. uvmfree 0x8007D000 100 demo_space = Ok s' \<and> kinv s' ps' \<and> set ps' = {0x8007D000, 0x8007E000, 0x8007F000}"
proof -
  have m: "mapping (pmem demo_space) 0x8007D000 va = None" if "4096 * 1 \<le> unat va" for va
    using that in_page_PGROUNDDOWN [of va]
    by (auto simp: demo_mapping same_page_PGROUNDDOWN PGROUNDDOWN_def in_page_def)
  have z: "pg 0 = 0" by (simp add: pg_def)
  have one: "mapping (pmem demo_space) 0x8007D000 (pg i) \<noteq> None" if "i < 1" for i
    using that by (simp add: z demo_mapping same_page_def)
  have f: "foot (pmem demo_space) 0x8007D000 1 = {0x8007D000, 0x8007E000, 0x8007F000}"
    using one [of 0] by (auto simp: foot_def demo_pages frames_def pmap_def z demo_mapping same_page_def demo_entry_facts)
  have "space_inv demo_space 0x8007D000 [] (4096 * 1)" using demo_space_inv by simp
  from uvmfree_returns_every_page [OF this, of 100] show ?thesis unfolding f using one m by auto
qed

end
