(* ===== verification/Bio_Cache.thy ===== *)
theory Bio_Cache
  imports Bio
begin

text \<open>
  The buffer cache as a view of the disk. \<open>binv s H P\<close>: the buffers in \<open>H\<close> are locked by the
  current process, buffer \<open>i\<close> is pinned \<open>P i\<close> times, every block of the root device is in at
  most one buffer, and a buffer that is neither locked nor pinned agrees with the disk.
  \<open>view s b\<close> is the content the file system sees of block \<open>b\<close>. The lemmas give the effect of
  each operation of \<open>bio.c\<close> on the invariant and on the view.
\<close>

definition cached :: "kst \<Rightarrow> u32 \<Rightarrow> nat \<Rightarrow> bool" where
  "cached s b i \<longleftrightarrow> i < NBUF \<and> bdev (bufs s ! i) = ROOTDEV \<and> bblockno (bufs s ! i) = b"

definition view :: "kst \<Rightarrow> u32 \<Rightarrow> u8 list" where
  "view s b = (case find_buf (cached s b) [0..<NBUF] of
     Some i \<Rightarrow> bdata (bufs s ! i) | None \<Rightarrow> dsk s b)"

definition binv :: "kst \<Rightarrow> nat set \<Rightarrow> (nat \<Rightarrow> nat) \<Rightarrow> bool" where
  "binv s H P \<longleftrightarrow>
     length (bufs s) = NBUF \<and> distinct (lru s) \<and> set (lru s) = {..<NBUF} \<and> H \<subseteq> {..<NBUF} \<and>
     (\<exists>q. mypid s = Ok q \<and> (\<forall>i \<in> H. slpid (block (bufs s ! i)) = q)) \<and>
     (\<forall>b i j. cached s b i \<longrightarrow> cached s b j \<longrightarrow> i = j) \<and>
     (\<forall>i < NBUF. slocked (block (bufs s ! i)) \<longleftrightarrow> i \<in> H) \<and>
     (\<forall>i < NBUF. P i < 2 ^ 31 \<and> brefcnt (bufs s ! i) = of_nat (P i + (if i \<in> H then 1 else 0))) \<and>
     (\<forall>i < NBUF. bdev (bufs s ! i) \<noteq> ROOTDEV \<longrightarrow> P i = 0 \<and> i \<notin> H) \<and>
     (\<forall>b i. cached s b i \<longrightarrow> bvalid (bufs s ! i) \<and> length (bdata (bufs s ! i)) = BSIZE) \<and>
     (\<forall>b i. cached s b i \<longrightarrow> P i = 0 \<longrightarrow> i \<notin> H \<longrightarrow> bdata (bufs s ! i) = dsk s b) \<and>
     (\<forall>b. length (dsk s b) = BSIZE)"

lemma find_buf_Some: "find_buf P xs = Some i \<Longrightarrow> i \<in> set xs \<and> P i"
  by (induction xs) (auto split: if_splits)

lemma find_buf_None: "find_buf P xs = None \<longleftrightarrow> (\<forall>i \<in> set xs. \<not> P i)"
  by (induction xs) auto

lemma find_buf_unique:
  assumes "i \<in> set xs" "P i" "\<And>j. j \<in> set xs \<Longrightarrow> P j \<Longrightarrow> j = i"
  shows "find_buf P xs = Some i"
proof (cases "find_buf P xs")
  case None
  then show ?thesis using assms(1,2) by (auto simp: find_buf_None)
next
  case (Some j)
  then show ?thesis using find_buf_Some assms(3) by metis
qed

lemma binvD:
  assumes "binv s H P"
  shows "length (bufs s) = NBUF" "distinct (lru s)" "set (lru s) = {..<NBUF}" "H \<subseteq> {..<NBUF}"
    "\<exists>q. mypid s = Ok q \<and> (\<forall>i \<in> H. slpid (block (bufs s ! i)) = q)"
    "cached s b i \<Longrightarrow> cached s b j \<Longrightarrow> i = j"
    "i < NBUF \<Longrightarrow> slocked (block (bufs s ! i)) \<longleftrightarrow> i \<in> H"
    "i < NBUF \<Longrightarrow> P i < 2 ^ 31"
    "i < NBUF \<Longrightarrow> brefcnt (bufs s ! i) = of_nat (P i + (if i \<in> H then 1 else 0))"
    "i < NBUF \<Longrightarrow> bdev (bufs s ! i) \<noteq> ROOTDEV \<Longrightarrow> P i = 0 \<and> i \<notin> H"
    "cached s b i \<Longrightarrow> bvalid (bufs s ! i) \<and> length (bdata (bufs s ! i)) = BSIZE"
    "cached s b i \<Longrightarrow> P i = 0 \<Longrightarrow> i \<notin> H \<Longrightarrow> bdata (bufs s ! i) = dsk s b"
    "length (dsk s b) = BSIZE"
  using assms unfolding binv_def by auto

lemma binvI:
  assumes "length (bufs s) = NBUF" "distinct (lru s)" "set (lru s) = {..<NBUF}" "H \<subseteq> {..<NBUF}"
    "mypid s = Ok q" "\<And>i. i \<in> H \<Longrightarrow> slpid (block (bufs s ! i)) = q"
    "\<And>b i j. cached s b i \<Longrightarrow> cached s b j \<Longrightarrow> i = j"
    "\<And>i. i < NBUF \<Longrightarrow> slocked (block (bufs s ! i)) \<longleftrightarrow> i \<in> H"
    "\<And>i. i < NBUF \<Longrightarrow> P i < 2 ^ 31"
    "\<And>i. i < NBUF \<Longrightarrow> brefcnt (bufs s ! i) = of_nat (P i + (if i \<in> H then 1 else 0))"
    "\<And>i. i < NBUF \<Longrightarrow> bdev (bufs s ! i) \<noteq> ROOTDEV \<Longrightarrow> P i = 0 \<and> i \<notin> H"
    "\<And>b i. cached s b i \<Longrightarrow> bvalid (bufs s ! i) \<and> length (bdata (bufs s ! i)) = BSIZE"
    "\<And>b i. cached s b i \<Longrightarrow> P i = 0 \<Longrightarrow> i \<notin> H \<Longrightarrow> bdata (bufs s ! i) = dsk s b"
    "\<And>b. length (dsk s b) = BSIZE"
  shows "binv s H P"
  using assms unfolding binv_def by blast

lemma view_cached: "binv s H P \<Longrightarrow> cached s b i \<Longrightarrow> view s b = bdata (bufs s ! i)"
  using find_buf_unique [of i "[0..<NBUF]" "cached s b"] binvD(6)
  by (auto simp: view_def cached_def)

lemma view_uncached: "(\<And>i. \<not> cached s b i) \<Longrightarrow> view s b = dsk s b"
  unfolding view_def by (simp add: find_buf_None option.case_eq_if)

lemma length_view: "binv s H P \<Longrightarrow> length (view s b) = BSIZE"
  using view_cached view_uncached binvD(11,13) by metis

subsection \<open>Single buffers\<close>

lemma upd_buf_sel [simp]:
  "bufs (upd_buf i f s) = (bufs s)[i := f (bufs s ! i)]" "lru (upd_buf i f s) = lru s"
  "dsk (upd_buf i f s) = dsk s" "dtrace (upd_buf i f s) = dtrace s" "lg (upd_buf i f s) = lg s"
  "sch (upd_buf i f s) = sch s" "sb (upd_buf i f s) = sb s"
  by (simp_all add: upd_buf_def)

lemma mypid_sch: "sch s' = sch s \<Longrightarrow> mypid s' = mypid s"
  by (simp add: mypid_def me_def)

lemma mypid_upd_buf [simp]: "mypid (upd_buf i f s) = mypid s"
  by (rule mypid_sch) simp

text \<open>
  A change to buffer \<open>i\<close> alone, with what the invariant needs to know of it.
\<close>

lemma binv_upd_buf:
  assumes inv: "binv s H P" and i: "i < NBUF" and b': "b' = f (bufs s ! i)"
    and H': "H' = insert i H \<or> H' = H - {i} \<or> H' = H" and P': "\<And>j. j \<noteq> i \<Longrightarrow> P' j = P j"
    and pid: "i \<in> H' \<Longrightarrow> mypid s = Ok (slpid (block b'))"
    and uniq: "\<And>j. j < NBUF \<Longrightarrow> j \<noteq> i \<Longrightarrow> bdev b' = ROOTDEV \<Longrightarrow> \<not> cached s (bblockno b') j"
    and lk: "slocked (block b') \<longleftrightarrow> i \<in> H'"
    and ref: "P' i < 2 ^ 31" "brefcnt b' = of_nat (P' i + (if i \<in> H' then 1 else 0))"
    and dev: "bdev b' = ROOTDEV \<or> P' i = 0 \<and> i \<notin> H'"
    and val: "bdev b' = ROOTDEV \<Longrightarrow> bvalid b' \<and> length (bdata b') = BSIZE"
    and cln: "bdev b' = ROOTDEV \<Longrightarrow> P' i = 0 \<Longrightarrow> i \<notin> H' \<Longrightarrow> bdata b' = dsk s (bblockno b')"
  shows "binv (upd_buf i f s) H' P'"
proof -
  note D = binvD [OF inv]
  have nth: "bufs (upd_buf i f s) ! j = (if j = i then b' else bufs s ! j)" if "j < NBUF" for j
    using that D(1) i by (simp add: nth_list_update b')
  have mem: "j \<in> H' \<longleftrightarrow> j \<in> H" if "j \<noteq> i" for j using H' that by auto
  have c: "cached (upd_buf i f s) b j \<longleftrightarrow>
      (if j = i then bdev b' = ROOTDEV \<and> bblockno b' = b else cached s b j)" for b j
    using i nth [of j] by (auto simp: cached_def simp del: upd_buf_sel)
  obtain q where q: "mypid s = Ok q" "\<forall>j \<in> H. slpid (block (bufs s ! j)) = q" using D(5) by auto
  show ?thesis
  proof (rule binvI)
    show "H' \<subseteq> {..<NBUF}" using H' D(4) i by auto
    show "mypid (upd_buf i f s) = Ok q" using q by simp
    show "slpid (block (bufs (upd_buf i f s) ! j)) = q" if "j \<in> H'" for j
      using that q pid mem [of j] nth [of j] H' D(4) i
      by (cases "j = i") (auto simp del: upd_buf_sel)
    show "j = k" if "cached (upd_buf i f s) b j" "cached (upd_buf i f s) b k" for b j k
      using that uniq [of j] uniq [of k] D(6) [of b j k] unfolding c
      by (auto simp: cached_def split: if_splits)
    show "slocked (block (bufs (upd_buf i f s) ! j)) \<longleftrightarrow> j \<in> H'" if "j < NBUF" for j
      using that D(7) [of j] lk mem [of j] by (simp add: nth del: upd_buf_sel)
    show "P' j < 2 ^ 31" if "j < NBUF" for j using that D(8) [of j] ref P' by (cases "j = i") auto
    show "brefcnt (bufs (upd_buf i f s) ! j) = of_nat (P' j + (if j \<in> H' then 1 else 0))"
      if "j < NBUF" for j
      using that D(9) [of j] ref P' mem [of j] by (cases "j = i") (simp_all add: nth del: upd_buf_sel)
    show "P' j = 0 \<and> j \<notin> H'" if "j < NBUF" "bdev (bufs (upd_buf i f s) ! j) \<noteq> ROOTDEV" for j
      using that D(10) [of j] dev P' mem [of j] by (cases "j = i") (auto simp: nth simp del: upd_buf_sel)
    show "bvalid (bufs (upd_buf i f s) ! j) \<and> length (bdata (bufs (upd_buf i f s) ! j)) = BSIZE"
      if "cached (upd_buf i f s) b j" for b j
      using that D(11) [of b j] val unfolding c
      by (cases "j = i") (auto simp: nth cached_def i simp del: upd_buf_sel)
    show "bdata (bufs (upd_buf i f s) ! j) = dsk (upd_buf i f s) b"
      if "cached (upd_buf i f s) b j" "P' j = 0" "j \<notin> H'" for b j
      using that D(12) [of b j] cln P' mem [of j] unfolding c
      by (cases "j = i") (auto simp: nth cached_def i simp del: upd_buf_sel(1))
  qed (use D in simp_all)
qed

subsection \<open>Getting and releasing buffers\<close>

lemma upd_buf_upd_buf [simp]:
  "length (bufs s) = NBUF \<Longrightarrow> i < NBUF \<Longrightarrow> upd_buf i f (upd_buf i g s) = upd_buf i (\<lambda>b. f (g b)) s"
  by (simp add: upd_buf_def)

lemma lock_buf_ok:
  assumes "i < NBUF" "length (bufs s) = NBUF" "\<not> slocked (block (bufs s ! i))" "mypid s = Ok q"
  shows "lock_buf i s = Ok (i, upd_buf i (\<lambda>b. b\<lparr>block := \<lparr>slocked = True, slpid = q\<rparr>\<rparr>) s)"
  using assms by (cases "block (bufs s ! i)") (simp add: lock_buf_def acquiresleep_def)

text \<open>There is a buffer for block \<open>b\<close>: it is cached, or some buffer is neither locked nor pinned.\<close>

definition room :: "kst \<Rightarrow> nat set \<Rightarrow> (nat \<Rightarrow> nat) \<Rightarrow> u32 \<Rightarrow> bool" where
  "room s H P b \<longleftrightarrow> (\<exists>i. cached s b i) \<or> (\<exists>i < NBUF. P i = 0 \<and> i \<notin> H)"

lemma of_nat_refcnt_0: "n < 2 ^ 31 \<Longrightarrow> (of_nat (n + (if p then 1 else 0)) :: u32) = 0 \<longleftrightarrow> n = 0 \<and> \<not> p"
proof -
  assume "n < 2 ^ 31"
  then have "unat (of_nat (n + (if p then 1 else 0)) :: u32) = n + (if p then 1 else 0)"
    by (intro unat_of_nat_eq) simp
  moreover have "(of_nat (n + (if p then 1 else 0)) :: u32) = 0 \<longleftrightarrow>
      unat (of_nat (n + (if p then 1 else 0)) :: u32) = 0"
    by (simp only: unat_eq_0)
  ultimately show ?thesis by simp
qed

definition got :: "kst \<Rightarrow> nat set \<Rightarrow> (nat \<Rightarrow> nat) \<Rightarrow> u32 \<Rightarrow> nat \<Rightarrow> kst \<Rightarrow> bool" where
  "got s H P b i s' \<longleftrightarrow>
     binv s' (insert i H) P \<and> i \<notin> H \<and> cached s' b i \<and> bdata (bufs s' ! i) = view s b \<and>
     view s' = view s \<and> s' = s\<lparr>bufs := bufs s'\<rparr> \<and> (\<forall>j. j \<noteq> i \<longrightarrow> bufs s' ! j = bufs s ! j) \<and>
     (cached s b i \<or> P i = 0)"

lemma bread_cached:
  assumes inv: "binv s H P" and c: "cached s b i" "i \<notin> H"
  shows "\<exists>s'. bread ROOTDEV b s = Ok (i, s') \<and> got s H P b i s'"
proof -
  note D = binvD [OF inv]
  have i: "i < NBUF" using c by (simp add: cached_def)
  obtain q where q: "mypid s = Ok q" using D(5) by blast
  let ?f = "\<lambda>b. b\<lparr>brefcnt := brefcnt b + 1, block := \<lparr>slocked = True, slpid = q\<rparr>\<rparr>"
  let ?b = "?f (bufs s ! i)" and ?s = "upd_buf i ?f s"
  have "find_buf (\<lambda>i. bdev (bufs s ! i) = ROOTDEV \<and> bblockno (bufs s ! i) = b) (lru s) = Some i"
  proof (rule find_buf_unique)
    show "i \<in> set (lru s)" using i D(3) by simp
    show "bdev (bufs s ! i) = ROOTDEV \<and> bblockno (bufs s ! i) = b" using c by (simp add: cached_def)
    show "j = i" if "j \<in> set (lru s)" "bdev (bufs s ! j) = ROOTDEV \<and> bblockno (bufs s ! j) = b" for j
      using that c D(3) D(6) [of b j i] by (simp add: cached_def)
  qed
  then have get: "bget ROOTDEV b s = Ok (i, ?s)"
    using i D(1) D(7) [OF i] c(2) q by (simp add: bget_def lock_buf_ok)
  have val: "bvalid (bufs s ! i)" "length (bdata (bufs s ! i)) = BSIZE" using D(11) [OF c(1)] by auto
  have read: "bread ROOTDEV b s = Ok (i, ?s)"
    using get val i D(1) by (simp add: bread_def)
  have inv': "binv ?s (insert i H) P"
  proof (rule binv_upd_buf [OF inv i refl])
    show "\<not> cached s (bblockno ?b) j" if "j < NBUF" "j \<noteq> i" for j
      using that D(6) [of b j i] c by (auto simp: cached_def)
    show "brefcnt ?b = of_nat (P i + (if i \<in> insert i H then 1 else 0))"
      using D(9) [OF i] c(2) by simp
  qed (use c D(8) [OF i] val q in \<open>auto simp: cached_def\<close>)
  have nth: "bufs ?s ! j = (if j = i then ?b else bufs s ! j)" if "j < NBUF" for j
    using that D(1) i by (simp add: nth_list_update)
  have cc: "cached ?s d j \<longleftrightarrow> cached s d j" for d j
    using nth [of j] by (auto simp: cached_def simp del: upd_buf_sel split: if_splits)
  have "view ?s d = view s d" for d
  proof (cases "\<exists>j. cached s d j")
    case True
    then obtain j where j: "cached s d j" by blast
    then have "bdata (bufs ?s ! j) = bdata (bufs s ! j)"
      using nth [of j] unfolding cached_def by simp
    moreover have c': "cached ?s d j" using cc j by blast
    ultimately show ?thesis unfolding view_cached [OF inv j] view_cached [OF inv' c'] by (simp only:)
  next
    case False
    then show ?thesis using view_uncached [of s d] view_uncached [of ?s d] cc by simp
  qed
  then have "got s H P b i ?s"
    using inv' c cc nth [OF i] view_cached [OF inv c(1)] i D(1)
    by (auto simp: got_def upd_buf_def)
  then show ?thesis using read by blast
qed

lemma bread_fresh:
  assumes inv: "binv s H P" and nc: "\<And>i. \<not> cached s b i" and r: "\<exists>i < NBUF. P i = 0 \<and> i \<notin> H"
  shows "\<exists>i s'. bread ROOTDEV b s = Ok (i, s') \<and> got s H P b i s'"
proof -
  note D = binvD [OF inv]
  obtain q where q: "mypid s = Ok q" using D(5) by blast
  have none: "find_buf (\<lambda>i. bdev (bufs s ! i) = ROOTDEV \<and> bblockno (bufs s ! i) = b) (lru s) = None"
    using nc D(3) by (auto simp: find_buf_None cached_def)
  have free: "brefcnt (bufs s ! j) = 0 \<longleftrightarrow> P j = 0 \<and> j \<notin> H" if "j < NBUF" for j
    using D(8,9) [OF that] of_nat_refcnt_0 by metis
  have "find_buf (\<lambda>i. brefcnt (bufs s ! i) = 0) (rev (lru s)) \<noteq> None"
    using r free unfolding find_buf_None set_rev D(3) by blast
  then obtain i where fi: "find_buf (\<lambda>i. brefcnt (bufs s ! i) = 0) (rev (lru s)) = Some i" by blast
  then have i: "i < NBUF" "P i = 0" "i \<notin> H"
    using find_buf_Some [OF fi] D(3) free by auto
  let ?f = "\<lambda>x. x\<lparr>bdev := ROOTDEV, bblockno := b, bvalid := True, brefcnt := 1, bdata := dsk s b,
    block := \<lparr>slocked = True, slpid = q\<rparr>\<rparr>"
  let ?b = "?f (bufs s ! i)" and ?s = "upd_buf i ?f s"
  have read: "bread ROOTDEV b s = Ok (i, ?s)"
    using none fi i D(1) D(7) [OF i(1)] q
    by (simp add: bread_def bget_def lock_buf_ok disk_read_def) (cases "bufs s ! i"; simp add: upd_buf_def)
  have inv': "binv ?s (insert i H) P"
  proof (rule binv_upd_buf [OF inv i(1) refl])
    show "\<not> cached s (bblockno ?b) j" if "j < NBUF" "j \<noteq> i" for j using nc by simp
  qed (use i D(13) q in auto)
  have nth: "bufs ?s ! j = (if j = i then ?b else bufs s ! j)" if "j < NBUF" for j
    using that D(1) i by (simp add: nth_list_update)
  have ci: "cached ?s b i" using nth i by (simp add: cached_def del: upd_buf_sel)
  have "view ?s d = view s d" for d
  proof (cases "d = b")
    case True
    then show ?thesis using view_cached [OF inv' ci] view_uncached nc nth [OF i(1)] by simp
  next
    case False
    have cc: "cached ?s d j \<longleftrightarrow> cached s d j \<and> j \<noteq> i" for j
      using nth [of j] False by (auto simp: cached_def simp del: upd_buf_sel split: if_splits)
    show ?thesis
    proof (cases "\<exists>j. cached s d j")
      case True
      then obtain j where j: "cached s d j" by blast
      show ?thesis
      proof (cases "j = i")
        case True
        then have "view s d = dsk s d" using view_cached [OF inv j] D(12) [OF j] i by simp
        moreover have "\<not> cached ?s d k" for k using cc j True D(6) [of d k j] by metis
        ultimately show ?thesis using view_uncached [of ?s d] by simp
      next
        case False
        then have "bdata (bufs ?s ! j) = bdata (bufs s ! j)"
          using nth [of j] j unfolding cached_def by simp
        moreover have c': "cached ?s d j" using cc j False by blast
        ultimately show ?thesis unfolding view_cached [OF inv j] view_cached [OF inv' c'] by (simp only:)
      qed
    next
      case False
      then show ?thesis using view_uncached [of s d] view_uncached [of ?s d] cc by simp
    qed
  qed
  then have "got s H P b i ?s"
    using inv' ci i view_uncached [of s b] nc nth [OF i(1)] D(1)
    by (auto simp: got_def upd_buf_def)
  then show ?thesis using read by blast
qed

lemma bread_ok:
  assumes "binv s H P" "room s H P b" "\<And>i. cached s b i \<Longrightarrow> i \<notin> H"
  obtains i s' where "bread ROOTDEV b s = Ok (i, s')" "got s H P b i s'"
  using assms bread_cached bread_fresh unfolding room_def by metis

text \<open>
  A buffer that stays on its block: only its data, its lock and its counts change.
\<close>

lemma same_block_view:
  assumes inv: "binv s H P" and i: "cached s b i" and f: "bdev (f (bufs s ! i)) = ROOTDEV"
    "bblockno (f (bufs s ! i)) = b" and inv': "binv (upd_buf i f s) H' P'"
  shows "view (upd_buf i f s) = (view s)(b := bdata (f (bufs s ! i)))"
    "cached (upd_buf i f s) = cached s"
proof -
  note D = binvD [OF inv]
  have i': "i < NBUF" using i by (simp add: cached_def)
  have nth: "bufs (upd_buf i f s) ! j = (if j = i then f (bufs s ! i) else bufs s ! j)" if "j < NBUF" for j
    using that D(1) i' by (simp add: nth_list_update)
  have cc: "cached (upd_buf i f s) d j \<longleftrightarrow> cached s d j" for d j
    using nth [of j] i f by (cases "j = i") (auto simp: cached_def simp del: upd_buf_sel)
  then show "cached (upd_buf i f s) = cached s" by (simp add: fun_eq_iff)
  show "view (upd_buf i f s) = (view s)(b := bdata (f (bufs s ! i)))"
  proof
    fix d
    show "view (upd_buf i f s) d = ((view s)(b := bdata (f (bufs s ! i)))) d"
    proof (cases "\<exists>j. cached s d j")
      case True
      then obtain j where j: "cached s d j" by blast
      then have c': "cached (upd_buf i f s) d j" using cc by blast
      have "d = b \<longleftrightarrow> j = i" using i j D(6) by (auto simp: cached_def)
      then show ?thesis
        using view_cached [OF inv j] view_cached [OF inv' c'] nth [of j] j
        by (auto simp: cached_def simp del: upd_buf_sel)
    next
      case False
      then have "d \<noteq> b" using i by blast
      then show ?thesis using False view_uncached [of s d] view_uncached [of "upd_buf i f s" d] cc by simp
    qed
  qed
qed

lemma locked_cached: "binv s H P \<Longrightarrow> i \<in> H \<Longrightarrow> cached s (bblockno (bufs s ! i)) i"
  using binvD(4,10) [of s H P] unfolding cached_def by blast

lemma set_data_ok:
  assumes inv: "binv s H P" and i: "i \<in> H" "length d = BSIZE"
  shows "binv (set_data i d s) H P"
    "view (set_data i d s) = (view s)(bblockno (bufs s ! i) := d)"
    "cached (set_data i d s) = cached s"
proof -
  note D = binvD [OF inv]
  note c = locked_cached [OF inv i(1)]
  have i': "i < NBUF" using c by (simp add: cached_def)
  obtain q where q: "mypid s = Ok q" "slpid (block (bufs s ! i)) = q" using D(5) i by blast
  show inv': "binv (set_data i d s) H P"
    unfolding set_data_def
  proof (rule binv_upd_buf [OF inv i' refl])
    show "\<not> cached s (bblockno ((bufs s ! i)\<lparr>bdata := d\<rparr>)) j" if "j < NBUF" "j \<noteq> i" for j
      using that D(6) c by auto
    show "brefcnt ((bufs s ! i)\<lparr>bdata := d\<rparr>) = of_nat (P i + (if i \<in> H then 1 else 0))"
      using D(9) [OF i'] by simp
  qed (use D(7,8) [OF i'] D(11) [OF c] q i c in \<open>auto simp: cached_def\<close>)
  show "view (set_data i d s) = (view s)(bblockno (bufs s ! i) := d)" "cached (set_data i d s) = cached s"
    using same_block_view [OF inv c _ _ inv' [unfolded set_data_def]] c
    by (simp_all add: set_data_def cached_def)
qed

lemma set_data_sel [simp]:
  "lru (set_data i d s) = lru s" "dsk (set_data i d s) = dsk s" "dtrace (set_data i d s) = dtrace s"
  "lg (set_data i d s) = lg s" "sch (set_data i d s) = sch s" "sb (set_data i d s) = sb s"
  by (simp_all add: set_data_def)

lemma mypid_disk_write [simp]: "mypid (disk_write b d s) = mypid s"
  by (rule mypid_sch) (simp add: disk_write_def)

lemma bwrite_ok:
  assumes inv: "binv s H P" and i: "i \<in> H"
  defines "b \<equiv> bblockno (bufs s ! i)"
  shows "bwrite i s = Ok (disk_write b (view s b) s)" "binv (disk_write b (view s b) s) H P"
    "view (disk_write b (view s b) s) = view s" "cached (disk_write b (view s b) s) = cached s"
proof -
  note D = binvD [OF inv]
  have c: "cached s b i" using locked_cached [OF inv i] by (simp add: b_def)
  have i': "i < NBUF" using c by (simp add: cached_def)
  obtain q where q: "mypid s = Ok q" "slpid (block (bufs s ! i)) = q" using D(5) i by blast
  have d: "view s b = bdata (bufs s ! i)" by (rule view_cached [OF inv c])
  show "bwrite i s = Ok (disk_write b (view s b) s)"
    using q D(7) [OF i'] i by (simp add: bwrite_def holdingsleep_def d) (simp add: b_def)
  show cc: "cached (disk_write b (view s b) s) = cached s"
    by (simp add: fun_eq_iff cached_def disk_write_def)
  have len: "length (view s b) = BSIZE" by (rule length_view [OF inv])
  obtain p where p: "mypid s = Ok p" "\<forall>j \<in> H. slpid (block (bufs s ! j)) = p" using D(5) by blast
  show inv': "binv (disk_write b (view s b) s) H P"
  proof (rule binvI)
    show "mypid (disk_write b (view s b) s) = Ok p" using p by simp
    show "slpid (block (bufs (disk_write b (view s b) s) ! j)) = p" if "j \<in> H" for j
      using that p by (simp add: disk_write_def)
    show "bdata (bufs (disk_write b (view s b) s) ! j) = dsk (disk_write b (view s b) s) d"
      if "cached (disk_write b (view s b) s) d j" "P j = 0" "j \<notin> H" for d j
      using that D(12) [of d j] D(6) [of b i j] i c unfolding cc by (auto simp: disk_write_def)
  qed (use D len in \<open>simp_all add: disk_write_def cc [unfolded disk_write_def]\<close>)
  show "view (disk_write b (view s b) s) = view s"
  proof
    fix d
    show "view (disk_write b (view s b) s) d = view s d"
    proof (cases "\<exists>j. cached s d j")
      case True
      then obtain j where "cached s d j" by blast
      then show ?thesis using view_cached [OF inv] view_cached [OF inv'] cc by (simp add: disk_write_def)
    next
      case False
      then show ?thesis
        using view_uncached [of s d] view_uncached [of "disk_write b (view s b) s" d] c
        unfolding cc by (auto simp: disk_write_def)
    qed
  qed
qed

lemma bpin_ok:
  assumes inv: "binv s H P" and i: "i \<in> H" "P i + 1 < 2 ^ 31"
  shows "binv (bpin i s) H (P(i := P i + 1))" "view (bpin i s) = view s" "cached (bpin i s) = cached s"
proof -
  note D = binvD [OF inv]
  note c = locked_cached [OF inv i(1)]
  have i': "i < NBUF" using c by (simp add: cached_def)
  obtain q where q: "mypid s = Ok q" "slpid (block (bufs s ! i)) = q" using D(5) i by blast
  show inv': "binv (bpin i s) H (P(i := P i + 1))"
    unfolding bpin_def
  proof (rule binv_upd_buf [OF inv i' refl])
    show "\<not> cached s (bblockno ((bufs s ! i)\<lparr>brefcnt := brefcnt (bufs s ! i) + 1\<rparr>)) j"
      if "j < NBUF" "j \<noteq> i" for j using that D(6) c by auto
  qed (use D(7,8,9) [OF i'] D(11) [OF c] q i c in \<open>auto simp: cached_def\<close>)
  show "view (bpin i s) = view s" "cached (bpin i s) = cached s"
    using same_block_view [OF inv c _ _ inv' [unfolded bpin_def]] c view_cached [OF inv c]
    by (simp_all add: bpin_def cached_def fun_upd_idem)
qed

lemma bunpin_ok:
  assumes inv: "binv s H P" and i: "i \<in> H" "0 < P i"
  shows "binv (bunpin i s) H (P(i := P i - 1))" "view (bunpin i s) = view s" "cached (bunpin i s) = cached s"
proof -
  note D = binvD [OF inv]
  note c = locked_cached [OF inv i(1)]
  have i': "i < NBUF" using c by (simp add: cached_def)
  obtain q where q: "mypid s = Ok q" "slpid (block (bufs s ! i)) = q" using D(5) i by blast
  obtain n where n: "P i = Suc n" using i(2) by (cases "P i") auto
  show inv': "binv (bunpin i s) H (P(i := P i - 1))"
    unfolding bunpin_def
  proof (rule binv_upd_buf [OF inv i' refl])
    show "\<not> cached s (bblockno ((bufs s ! i)\<lparr>brefcnt := brefcnt (bufs s ! i) - 1\<rparr>)) j"
      if "j < NBUF" "j \<noteq> i" for j using that D(6) c by auto
  qed (use D(7,8,9) [OF i'] D(11) [OF c] q i c n in \<open>auto simp: cached_def\<close>)
  show "view (bunpin i s) = view s" "cached (bunpin i s) = cached s"
    using same_block_view [OF inv c _ _ inv' [unfolded bunpin_def]] c view_cached [OF inv c]
    by (simp_all add: bunpin_def cached_def fun_upd_idem)
qed

lemma kwakeup_sel [simp]:
  "bufs (kwakeup c s) = bufs s" "lru (kwakeup c s) = lru s" "dsk (kwakeup c s) = dsk s"
  "dtrace (kwakeup c s) = dtrace s" "lg (kwakeup c s) = lg s" "sb (kwakeup c s) = sb s"
  "itab (kwakeup c s) = itab s" "ftab (kwakeup c s) = ftab s" "ph (kwakeup c s) = ph s"
  "pipes (kwakeup c s) = pipes s" "ticks (kwakeup c s) = ticks s"
  "cur (sch (kwakeup c s)) = cur (sch s)"
  by (simp_all add: kwakeup_def set_procs_def)

lemma pid_wake_one [simp]: "pid (wake_one c p) = pid p"
  by (simp add: wake_one_def)

text \<open>The current process exists.\<close>

definition running :: "kst \<Rightarrow> bool" where
  "running s \<longleftrightarrow> (\<exists>i. cur (sch s) = Some i \<and> i < length (procs (sch s)))"

lemma mypid_kwakeup: "running s \<Longrightarrow> mypid (kwakeup c s) = mypid s"
  by (auto simp: running_def mypid_def me_def kwakeup_def set_procs_def)

lemma running_kwakeup [simp]: "running (kwakeup c s) = running s"
  by (simp add: running_def kwakeup_def set_procs_def)

lemma binv_cong:
  assumes "binv s H P" "bufs s' = bufs s" "dsk s' = dsk s" "mypid s' = mypid s"
    "distinct (lru s')" "set (lru s') = {..<NBUF}"
  shows "binv s' H P"
  using assms unfolding binv_def cached_def by simp

lemma cached_cong: "bufs s' = bufs s \<Longrightarrow> cached s' = cached s"
  by (simp add: fun_eq_iff cached_def)

lemma view_cong: "bufs s' = bufs s \<Longrightarrow> dsk s' = dsk s \<Longrightarrow> view s' = view s"
  by (rule ext) (simp add: view_def cached_cong [of s' s] split: option.split)

lemma brelse_ok:
  assumes inv: "binv s H P" and run: "running s" and i: "i \<in> H"
    and clean: "P i = 0 \<Longrightarrow> view s (bblockno (bufs s ! i)) = dsk s (bblockno (bufs s ! i))"
  obtains s' where "brelse i s = Ok s'" "binv s' (H - {i}) P" "view s' = view s" "cached s' = cached s"
    "s' = s\<lparr>bufs := bufs s', lru := lru s', sch := sch (kwakeup (ChanBuf i) s)\<rparr>"
    "\<And>j. j \<noteq> i \<Longrightarrow> bufs s' ! j = bufs s ! j"
proof -
  note D = binvD [OF inv]
  note c = locked_cached [OF inv i]
  have i': "i < NBUF" using c by (simp add: cached_def)
  obtain q where q: "mypid s = Ok q" "slpid (block (bufs s ! i)) = q" using D(5) i by blast
  let ?f = "\<lambda>b. b\<lparr>block := releasesleep (block b), brefcnt := brefcnt b - 1\<rparr>"
  let ?s1 = "upd_buf i ?f s"
  let ?s2 = "kwakeup (ChanBuf i) ?s1"
  define s' where "s' = (if brefcnt (bufs ?s2 ! i) = 0 then ?s2\<lparr>lru := i # remove1 i (lru ?s2)\<rparr> else ?s2)"
  have order: "upd_buf i (\<lambda>b. b\<lparr>brefcnt := brefcnt b - 1\<rparr>)
      (kwakeup (ChanBuf i) (upd_buf i (\<lambda>b. b\<lparr>block := releasesleep (block b)\<rparr>) s)) = ?s2"
    using D(1) i'
    by (cases "bufs s ! i") (simp add: upd_buf_def kwakeup_def set_procs_def)
  have eq: "brelse i s = Ok s'"
    using q D(1) D(7) [OF i'] i i' order unfolding s'_def
    by (simp add: brelse_def holdingsleep_def Let_def)
  have inv1: "binv ?s1 (H - {i}) P"
  proof (rule binv_upd_buf [OF inv i' refl])
    show "\<not> cached s (bblockno (?f (bufs s ! i))) j" if "j < NBUF" "j \<noteq> i" for j
      using that D(6) c by auto
    show "bdata (?f (bufs s ! i)) = dsk s (bblockno (?f (bufs s ! i)))" if "P i = 0"
      using clean [OF that] view_cached [OF inv c] by simp
  qed (use D(8,9) [OF i'] D(11) [OF c] i c in \<open>auto simp: cached_def releasesleep_def\<close>)
  have view1: "view ?s1 = view s" "cached ?s1 = cached s"
    using same_block_view [OF inv c _ _ inv1] c view_cached [OF inv c]
    by (simp_all add: cached_def fun_upd_idem)
  have lru': "distinct (lru s')" "set (lru s') = {..<NBUF}"
    using D(2,3) i' by (auto simp: s'_def distinct_remove1)
  have same: "bufs s' = bufs ?s1" "dsk s' = dsk ?s1" "sch s' = sch (kwakeup (ChanBuf i) s)"
    by (simp_all add: s'_def kwakeup_def set_procs_def)
  have "mypid s' = mypid s"
    using mypid_sch [OF same(3)] mypid_kwakeup [OF run] by simp
  then have inv': "binv s' (H - {i}) P"
    using binv_cong [OF inv1 same(1,2) _ lru'] by simp
  have frame: "s' = s\<lparr>bufs := bufs s', lru := lru s', sch := sch (kwakeup (ChanBuf i) s)\<rparr>"
    by (simp add: s'_def upd_buf_def kwakeup_def set_procs_def)
  have other: "bufs s' ! j = bufs s ! j" if "j \<noteq> i" for j using same(1) that by simp
  show ?thesis
    by (rule that [OF eq inv' _ _ frame other])
       (use view_cong [OF same(1,2)] cached_cong [OF same(1)] view1 in simp_all)
qed

end
