(* ===== verification/Proc_Alloc.thy ===== *)
theory Proc_Alloc
  imports Proc_Life Vm_Free Bio_Cache
begin

text \<open>
  Making and freeing processes: the page table a process starts with, what \<open>freeproc\<close> gives back
  and what \<open>allocproc\<close> takes.
\<close>

subsection \<open>The two pages every process maps\<close>

text \<open>The trampoline is the last page of the address space, the trap frame the one before.\<close>

lemma high_pages: "TRAMPOLINE = pg (2 ^ 20 - 1)" "TRAPFRAME = pg (2 ^ 20 - 2)"
  by (simp_all add: TRAMPOLINE_def TRAPFRAME_def MAXVA_def PGSIZE_def pg_def push_bit_eq_mult)

text \<open>Taking one page out of the map without freeing it.\<close>

lemma unmap_high:
  assumes inv: "vm_inv s pt ps" and i: "i < 2 ^ 20" and e: "pmap (pmem s) pt i = Some e" "PTE_FLAGS e \<noteq> PTE_V"
  obtains s' where "uvmunmap pt (pg i) 1 False s = Ok s'" "vm_ext pt s ps s' ps" "pt_pages (pmem s') pt = pt_pages (pmem s) pt"
    "\<forall>j < 2 ^ 20. pmap (pmem s') pt j = (if j = i then None else pmap (pmem s) pt j)"
proof -
  obtain a where a: "walk pt (pg i) False s = Ok (a, s)" "a \<noteq> 0" "load32 (pmem s) a = e" "e AND PTE_V \<noteq> 0"
    "leaf (pmem s) pt (pg i) = Some a" by (rule walk_page [OF inv e(1)])
  let ?s = "s\<lparr>pmem := store32 (pmem s) a 0\<rparr>"
  have d: "drop_bit 12 (pg i) = of_nat i"
    using pg_div [OF i] by (simp add: drop_bit_eq_div PGSIZE_def)
  have p: "push_bit 12 (of_nat i) = pg i" by (simp add: pg_def)
  have lt: "(of_nat i :: u32) < of_nat i + 1" "\<not> (of_nat i :: u32) + 1 < of_nat i + 1"
  proof -
    have "unat ((of_nat i :: u32) + 1) = i + 1"
      using i by (subst unat_add_u32) (simp_all add: unat_of_nat_page)
    then show "(of_nat i :: u32) < of_nat i + 1" using i by (simp add: word_less_nat_alt unat_of_nat_page)
  qed simp
  have al: "pg i mod PGSIZE = 0" using pg_aligned [OF i] by (simp add: page_aligned_mod)
  have "uvmunmap_from pt (of_nat i) (of_nat i + 1) False s = Ok ?s"
    using a e lt by (subst uvmunmap_from.simps) (simp add: p Let_def, subst uvmunmap_from.simps, simp)
  then have "uvmunmap pt (pg i) 1 False s = Ok ?s" using al by (simp add: uvmunmap_def d PGSIZE_def)
  moreover have "vm_ext pt s ps ?s ps" by (rule store_leaf_ext [OF inv a(5)])
  moreover have wf: "pt_wf (pmem s) pt" using inv by (simp add: vm_inv_def)
  moreover have "pt_pages (pmem ?s) pt = pt_pages (pmem s) pt" using store_leaf(2) [OF wf a(5)] by simp
  moreover have "\<forall>j < 2 ^ 20. pmap (pmem ?s) pt j = (if j = i then None else pmap (pmem s) pt j)"
    using pmap_store [OF wf i _ a(5), of _ 0] by simp
  ultimately show ?thesis using that by blast
qed

lemma vm_ext_off: "vm_ext pt s ps s' ps' \<Longrightarrow> same_off (pt_pages (pmem s') pt) (pmem s) (pmem s')"
  by (simp add: vm_ext_def same_off_def)

lemma vm_ext_inv: "vm_ext pt s ps s' ps' \<Longrightarrow> vm_inv s' pt ps'" "vm_ext pt s ps s' ps' \<Longrightarrow> kend s' = kend s"
  by (simp_all add: vm_ext_def)

text \<open>The pages of a table that maps nothing come back when it is freed with size 0.\<close>

lemma uvmfree_empty:
  assumes "vm_inv s pt ps" "unmapped (pmem s) pt"
  obtains s' ps' where "uvmfree pt 0 s = Ok s'" "kinv s' ps'" "kend s' = kend s"
    "set ps' = set ps \<union> pt_pages (pmem s) pt" "same_off (pt_pages (pmem s) pt) (pmem s) (pmem s')"
proof -
  have "uvmfree pt 0 s = freewalk freewalk_depth pt s" by (simp add: uvmfree_def)
  then show ?thesis using freewalk_spec [OF assms] that by metis
qed

lemma high_flags:
  "PTE_FLAGS (PA2PTE p OR (PTE_R OR PTE_X) OR PTE_V) \<noteq> PTE_V" "PTE_FLAGS (PA2PTE p OR (PTE_R OR PTE_W) OR PTE_V) \<noteq> PTE_V"
  unfolding or.assoc [of "PA2PTE p"] by (subst PTE_FLAGS_PA2PTE; simp add: pte_bits)+

subsection \<open>A new page table\<close>

lemma uvmcreate_spec:
  assumes k: "kinv s ps"
  obtains (full) "uvmcreate s = (0, s)" "ps = []"
  | (made) pt s' ps' where "uvmcreate s = (pt, s')" "pt \<noteq> 0" "vm_inv s' pt ps'" "kend s' = kend s" "set ps = insert pt (set ps')"
      "pt_pages (pmem s') pt = {pt}" "unmapped (pmem s') pt" "same_off {pt} (pmem s) (pmem s')" "length ps = Suc (length ps')"
proof (cases ps)
  case Nil
  then show thesis using full kalloc_empty k by (simp add: uvmcreate_def)
next
  case (Cons pt ps')
  obtain s1 where s1: "kalloc s = (pt, s1)" "kinv s1 ps'" "same_outside pt s s1" "page_ok s1 pt" "pt \<noteq> 0" "pt \<notin> set ps'"
    using kalloc_ok k unfolding Cons by blast
  let ?s = "s1\<lparr>pmem := memset (pmem s1) pt 0 PGSIZE\<rparr>"
  have al: "page_aligned pt" using s1(4) by (simp add: page_ok_def)
  have out: "pmem ?s x = pmem s1 x" if "\<not> in_page pt x" for x using that by (simp add: memset_page fill_other_page)
  have zero: "l1 (pmem ?s) pt j = 0" if "j < 1024" for j
  proof -
    have "load32 (pmem ?s) (slot pt j) = load32 (\<lambda>_. 0) (slot pt j)"
      by (rule load32_slot_cong [OF al that]) (simp add: memset_page fill_in in_page_def)
    then show ?thesis by (simp add: l1_def)
  qed
  have ab: "\<not> present (pmem ?s) pt j" if "j < 1024" for j using zero [OF that] by (simp add: present_def)
  have chain: "free_chain (pmem ?s) (freelist s1) ps' = free_chain (pmem s1) (freelist s1) ps'"
    by (rule free_chain_other_page [of pt]) (use out s1(2,6) al in \<open>auto simp: kinv_def page_ok_def\<close>)
  have pp: "pt_pages (pmem ?s) pt = {pt}" using ab by (auto simp: pt_pages_def)
  have "vm_inv ?s pt ps'"
    unfolding vm_inv_def pp using s1(2,4,6) ab al chain by (auto simp: kinv_def page_ok_def pt_wf_def)
  moreover have "unmapped (pmem ?s) pt" using ab by (auto simp: unmapped_def pmap_def mapping_def leaf_def)
  moreover have "same_off {pt} (pmem s) (pmem ?s)" using s1(3) out by (simp add: same_off_def same_outside_def)
  ultimately show thesis
    using made [of pt ?s ps'] s1(1,3,5) pp Cons by (simp add: uvmcreate_def same_outside_def)
qed

lemma proc_pagetable_spec:
  assumes k: "kinv s ps"
  obtains (full) s' ps' where "proc_pagetable K tf s = Ok (0, s')" "kinv s' ps'" "kend s' = kend s" "set ps' = set ps"
      "same_off (set ps) (pmem s) (pmem s')" "length ps \<le> 2"
  | (made) pt s' ps' where "proc_pagetable K tf s = Ok (pt, s')" "pt \<noteq> 0" "vm_inv s' pt ps'" "kend s' = kend s"
      "set ps = set ps' \<union> pt_pages (pmem s') pt" "same_off (set ps) (pmem s) (pmem s')"
      "pmap (pmem s') pt (2 ^ 20 - 1) = Some (PA2PTE (sym_trampoline K) OR (PTE_R OR PTE_X) OR PTE_V)"
      "pmap (pmem s') pt (2 ^ 20 - 2) = Some (PA2PTE tf OR (PTE_R OR PTE_W) OR PTE_V)"
      "\<forall>j < 2 ^ 20 - 2. pmap (pmem s') pt j = None" "length ps \<le> length ps' + 3"
  using k
proof (cases rule: uvmcreate_spec [case_names none root])
  case none
  then show thesis using full [of s ps] k by (simp add: proc_pagetable_def same_off_def)
next
  case (root pt s1 ps1)
  let ?T = "(2 :: nat) ^ 20 - 1" and ?F = "(2 :: nat) ^ 20 - 2"
  note enter = proc_pagetable_def [of K tf s, unfolded high_pages root(1) prod.case if_not_P [OF root(2)]]
  have un: "pmap (pmem s1) pt j = None" if "j < 2 ^ 20" for j using root(7) that by (simp add: unmapped_def)
  have T: "?T < 2 ^ 20" "pmap (pmem s1) pt ?T = None" using un by simp_all
  from root(3) T show thesis
  proof (cases rule: map_page [where pa = "sym_trampoline K" and perm = "PTE_R OR PTE_X", case_names one none])
    case (none s2)
    note inv2 = vm_ext_inv [OF none(2)]
    have e2: "set ps = pt_pages (pmem s2) pt" "kend s2 = kend s"
      using none(2) root(4-6) by (auto simp: vm_ext_def vm_inv_def)
    have "unmapped (pmem s2) pt" using none(3) root(7) by (simp add: unmapped_def)
    then obtain s3 ps3 where f: "uvmfree pt 0 s2 = Ok s3" "kinv s3 ps3" "kend s3 = kend s2" "set ps3 = set [] \<union> pt_pages (pmem s2) pt"
      "same_off (pt_pages (pmem s2) pt) (pmem s2) (pmem s3)" using uvmfree_empty [OF inv2(1)] by metis
    have "same_off (set ps) (pmem s) (pmem s3)"
      by (rule same_off_trans [OF same_off_trans], rule same_off_mono [OF root(8)], use root(5) in blast,
          use vm_ext_off [OF none(2)] e2 f(5) in simp_all)
    then show thesis using full [of s3 ps3] f e2 none(1,4) root(9) by (simp add: enter)
  next
    case (one s2 ps2)
    note inv2 = vm_ext_inv [OF one(2)]
    have ps2: "set ps = set ps2 \<union> pt_pages (pmem s2) pt" "kend s2 = kend s"
      using one(2) root(4-6) by (auto simp: vm_ext_def vm_inv_def)
    have off2: "same_off (set ps) (pmem s) (pmem s2)"
      by (rule same_off_trans, rule same_off_mono [OF root(8)], use root(5) in blast,
          rule same_off_mono [OF vm_ext_off [OF one(2)]], use ps2 in blast)
    have F: "?F < 2 ^ 20" "pmap (pmem s2) pt ?F = None" using one(3) un by simp_all
    from inv2(1) F show thesis
    proof (cases rule: map_page [where pa = tf and perm = "PTE_R OR PTE_W", case_names two none])
      case (two s3 ps3)
      have ps3: "set ps = set ps3 \<union> pt_pages (pmem s3) pt" "kend s3 = kend s"
        using two(2) ps2 by (auto simp: vm_ext_def vm_inv_def)
      have "same_off (set ps) (pmem s) (pmem s3)"
        by (rule same_off_trans [OF off2], rule same_off_mono [OF vm_ext_off [OF two(2)]], use ps3 in blast)
      moreover have "proc_pagetable K tf s = Ok (pt, s3)" using one(1) two(1) by (simp add: enter)
      moreover have "pmap (pmem s3) pt ?T = Some (PA2PTE (sym_trampoline K) OR (PTE_R OR PTE_X) OR PTE_V)"
        "pmap (pmem s3) pt ?F = Some (PA2PTE tf OR (PTE_R OR PTE_W) OR PTE_V)" "\<forall>j < ?F. pmap (pmem s3) pt j = None"
        using two(3) one(3) un by simp_all
      moreover have "length ps \<le> length ps3 + 3" using root(9) one(4) two(4) by simp
      ultimately show thesis using made root(2) vm_ext_inv [OF two(2)] ps3 by blast
    next
      case (none s3)
      note inv3 = vm_ext_inv [OF none(2)]
      have e3: "set ps = pt_pages (pmem s3) pt" "kend s3 = kend s"
        using none(2) ps2 by (auto simp: vm_ext_def vm_inv_def)
      have "pmap (pmem s3) pt ?T = Some (PA2PTE (sym_trampoline K) OR (PTE_R OR PTE_X) OR PTE_V)"
        using none(3) one(3) by simp
      then obtain s4 where u: "uvmunmap pt (pg ?T) 1 False s3 = Ok s4" "vm_ext pt s3 [] s4 []" "pt_pages (pmem s4) pt = pt_pages (pmem s3) pt"
        "\<forall>j < 2 ^ 20. pmap (pmem s4) pt j = (if j = ?T then None else pmap (pmem s3) pt j)"
        using unmap_high [OF inv3(1) _ _ high_flags(1), of ?T] by auto
      have "unmapped (pmem s4) pt" using u(4) none(3) one(3) un by (auto simp: unmapped_def)
      then obtain s5 ps5 where f: "uvmfree pt 0 s4 = Ok s5" "kinv s5 ps5" "kend s5 = kend s4" "set ps5 = set [] \<union> pt_pages (pmem s4) pt"
        "same_off (pt_pages (pmem s4) pt) (pmem s4) (pmem s5)" using uvmfree_empty [OF vm_ext_inv(1) [OF u(2)]] by metis
      have "same_off (set ps) (pmem s) (pmem s5)"
        by (rule same_off_trans [OF same_off_trans [OF same_off_trans [OF off2]]])
           (use vm_ext_off [OF none(2)] vm_ext_off [OF u(2)] u(3) e3 f(5) in simp_all)
      then show thesis
        using full [of s5 ps5] one(1,4) none(1,4) root(9) u(1,3) f e3 vm_ext_inv(2) [OF u(2)] by (simp add: enter)
    qed
  qed
qed

subsection \<open>Freeing a process\<close>

text \<open>
  A process with its memory: its pages below \<open>sz\<close> and the two high pages are mapped and nothing
  else, and the trap frame has a page of its own.
\<close>

definition user_space :: "phys \<Rightarrow> u32 \<Rightarrow> u32 \<Rightarrow> u32 list \<Rightarrow> nat \<Rightarrow> bool" where
  "user_space s pt psize ps N \<longleftrightarrow>
     aspace s pt ps N \<and> N = (unat psize + 4095) div 4096 \<and> N \<le> 2 ^ 20 - 2 \<and>
     (\<forall>i < N. pmap (pmem s) pt i \<noteq> None) \<and> (\<forall>i. N \<le> i \<longrightarrow> i < 2 ^ 20 - 2 \<longrightarrow> pmap (pmem s) pt i = None) \<and>
     (\<forall>i \<in> {2 ^ 20 - 2, 2 ^ 20 - 1}. \<exists>e. pmap (pmem s) pt i = Some e \<and> PTE_FLAGS e \<noteq> PTE_V)"

lemma aspace_unmap:
  assumes A: "aspace s pt ps N" and ext: "vm_ext pt s ps s' ps" "pt_pages (pmem s') pt = pt_pages (pmem s) pt"
    and p: "\<forall>j < N. pmap (pmem s') pt j = pmap (pmem s) pt j"
  shows "aspace s' pt ps N"
proof -
  have ok: "page_ok s' q = page_ok s q" for q using vm_ext_inv(2) [OF ext(1)] by (simp add: page_ok_def)
  show ?thesis
    using A p vm_ext_inv(1) [OF ext(1)] unfolding aspace_def ok ext(2) by auto
qed

lemma proc_freepagetable_spec:
  assumes U: "user_space s pt psize ps N"
  obtains s' ps' where "proc_freepagetable pt psize s = Ok s'" "kinv s' ps'" "kend s' = kend s"
    "set ps' = set ps \<union> foot (pmem s) pt N" "same_off (foot (pmem s) pt N) (pmem s) (pmem s')"
proof -
  let ?T = "(2 :: nat) ^ 20 - 1" and ?F = "(2 :: nat) ^ 20 - 2"
  have A: "aspace s pt ps N" and N: "N = (unat psize + 4095) div 4096" "N \<le> ?F" "N < 2 ^ 20"
    and m: "\<forall>i < N. pmap (pmem s) pt i \<noteq> None" and un: "\<forall>i. N \<le> i \<longrightarrow> i < ?F \<longrightarrow> pmap (pmem s) pt i = None"
    using U by (auto simp: user_space_def)
  have lt: "?T < 2 ^ 20" "?F < 2 ^ 20" by simp_all
  obtain e1 where e1: "pmap (pmem s) pt ?T = Some e1" "PTE_FLAGS e1 \<noteq> PTE_V" using U by (auto simp: user_space_def)
  obtain e2 where e2: "pmap (pmem s) pt ?F = Some e2" "PTE_FLAGS e2 \<noteq> PTE_V" using U by (auto simp: user_space_def)
  obtain s1 where 1: "uvmunmap pt (pg ?T) 1 False s = Ok s1" "vm_ext pt s ps s1 ps" "pt_pages (pmem s1) pt = pt_pages (pmem s) pt"
    "\<forall>j < 2 ^ 20. pmap (pmem s1) pt j = (if j = ?T then None else pmap (pmem s) pt j)"
    by (rule unmap_high [OF aspaceD(1) [OF A] lt(1) e1])
  have e2': "pmap (pmem s1) pt ?F = Some e2" using 1(4) e2(1) by simp
  obtain s2 where 2: "uvmunmap pt (pg ?F) 1 False s1 = Ok s2" "vm_ext pt s1 ps s2 ps" "pt_pages (pmem s2) pt = pt_pages (pmem s1) pt"
    "\<forall>j < 2 ^ 20. pmap (pmem s2) pt j = (if j = ?F then None else pmap (pmem s1) pt j)"
    by (rule unmap_high [OF vm_ext_inv(1) [OF 1(2)] lt(2) e2' e2(2)])
  have low: "\<forall>j < N. pmap (pmem s1) pt j = pmap (pmem s) pt j" "\<forall>j < N. pmap (pmem s2) pt j = pmap (pmem s1) pt j"
    using 1(4) 2(4) N(2,3) by auto
  have A2: "aspace s2 pt ps N"
    by (rule aspace_unmap [OF aspace_unmap [OF A 1(2,3) low(1)] 2(2,3) low(2)])
  have ft: "foot (pmem s2) pt N = foot (pmem s) pt N"
    unfolding foot_def 1(3) 2(3) using frames_eq [of 0 N "pmem s2" pt "pmem s"] low by simp
  have m2: "\<forall>i < N. pmap (pmem s2) pt i \<noteq> None" using low m by simp
  have un2: "\<forall>j. N \<le> j \<longrightarrow> j < 2 ^ 20 \<longrightarrow> pmap (pmem s2) pt j = None"
  proof (intro allI impI)
    fix j assume j: "N \<le> j" "j < (2 :: nat) ^ 20"
    then have "j < ?F \<or> j = ?F \<or> j = ?T" by auto
    then show "pmap (pmem s2) pt j = None" using 1(4) 2(4) un j by auto
  qed
  obtain s' ps' where 3: "uvmfree pt psize s2 = Ok s'" "kinv s' ps'" "kend s' = kend s2" "set ps' = set ps \<union> foot (pmem s2) pt N"
    "same_off (foot (pmem s2) pt N) (pmem s2) (pmem s')"
    by (rule uvmfree_spec [OF A2 N(1,3) m2 un2])
  have "same_off (foot (pmem s) pt N) (pmem s) (pmem s')"
    by (rule same_off_trans [OF same_off_trans], rule same_off_mono [OF vm_ext_off [OF 1(2)]], simp add: 1(3) foot_def,
        rule same_off_mono [OF vm_ext_off [OF 2(2)]], simp add: 1(3) 2(3) foot_def, use 3(5) ft in simp)
  then show thesis
    using that 3 1(1) 2(1) ft vm_ext_inv(2) [OF 1(2)] vm_ext_inv(2) [OF 2(2)] by (simp add: proc_freepagetable_def high_pages)
qed

definition cleared :: "proc \<Rightarrow> proc" where
  "cleared p = p\<lparr>trapframe := 0, pagetable := 0, sz := 0, pid := 0, parent := None,
     pname := (pname p)[0 := 0], chan := None, killed := 0, xstate := 0, state := UNUSED\<rparr>"

lemma freeproc_spec:
  assumes p: "procs (sch s) ! i = p" "trapframe p \<noteq> 0" "pagetable p \<noteq> 0"
    and U: "user_space (ph s) (pagetable p) (sz p) ps N"
    and t: "page_ok (ph s) (trapframe p)" "trapframe p \<notin> set ps" "trapframe p \<notin> foot (pmem (ph s)) (pagetable p) N"
  obtains m ps' where "freeproc i s = Ok (upd_my i cleared (upd_ph m s))" "kinv m ps'" "kend m = kend (ph s)"
    "set ps' = set ps \<union> insert (trapframe p) (foot (pmem (ph s)) (pagetable p) N)"
    "same_off (insert (trapframe p) (foot (pmem (ph s)) (pagetable p) N)) (pmem (ph s)) (pmem m)"
proof -
  let ?pt = "pagetable p" and ?tf = "trapframe p"
  have A: "aspace (ph s) ?pt ps N" using U unfolding user_space_def by (rule conjunct1)
  obtain m1 where 1: "kfree ?tf (ph s) = Ok m1" "kinv m1 (?tf # ps)" "same_outside ?tf (ph s) m1"
    by (rule kfree_ok [OF aspaceD(2) [OF A] t(1,2)])
  have ke: "kend m1 = kend (ph s)" and off: "same_off {?tf} (pmem (ph s)) (pmem m1)"
    using 1(3) by (simp_all add: same_outside_def same_off_def)
  have on: "same_on (pt_pages (pmem (ph s)) ?pt) (pmem (ph s)) (pmem m1)"
    by (rule same_off_on [OF off])
       (use t pt_pages_aligned [OF aspaceD(3) [OF A]] in \<open>auto simp: foot_def page_ok_def\<close>)
  note eq = tree_same [OF aspaceD(3) [OF A] on]
  have "aspace m1 ?pt (?tf # ps) N"
    by (rule aspace_frame [OF A 1(2) ke _ on]) (use t foot_not_free [OF A] in auto)
  then have "user_space m1 ?pt (sz p) (?tf # ps) N" using U unfolding user_space_def eq(4) by blast
  then obtain m2 ps2 where 2: "proc_freepagetable ?pt (sz p) m1 = Ok m2" "kinv m2 ps2" "kend m2 = kend m1"
    "set ps2 = set (?tf # ps) \<union> foot (pmem m1) ?pt N" "same_off (foot (pmem m1) ?pt N) (pmem m1) (pmem m2)"
    by (rule proc_freepagetable_spec)
  have "freeproc i s = Ok (upd_my i cleared (upd_ph m2 s))"
    unfolding cleared_def using p 1(1) 2(1) by (simp add: freeproc_def Let_def)
  moreover have "same_off (insert ?tf (foot (pmem (ph s)) ?pt N)) (pmem (ph s)) (pmem m2)"
    by (rule same_off_trans, rule same_off_mono [OF off], blast, rule same_off_mono [OF 2(5)], use eq(6) in blast)
  ultimately show thesis using that 2(2-4) ke eq(6) by simp
qed

subsection \<open>Allocating a process\<close>

text \<open>A process slot that is not in use holds no memory and no file; descriptors are those of open files.\<close>

definition procs_ok :: "kst \<Rightarrow> bool" where
  "procs_ok s \<longleftrightarrow> length (procs (sch s)) = NPROC \<and>
     (\<forall>j < NPROC. let p = procs (sch s) ! j in
        length (ofile p) = NOFILE \<and>
        (state p = UNUSED \<longrightarrow> trapframe p = 0 \<and> pagetable p = 0 \<and> sz p = 0 \<and> ofile p = replicate NOFILE None) \<and>
        (\<forall>f. Some f \<in> set (ofile p) \<longrightarrow> f < length (ftab s) \<and> 1 \<le> fref (ftab s ! f)))"

definition new_proc :: "ksyms \<Rightarrow> int \<Rightarrow> u32 \<Rightarrow> u32 \<Rightarrow> proc \<Rightarrow> proc" where
  "new_proc K n tf pt p = p\<lparr>pid := n, state := USED, trapframe := tf, pagetable := pt,
     pcontext := \<lparr>ctx_ra = sym_forkret K, ctx_sp = kstack p + PGSIZE, ctx_s = replicate 12 0\<rparr>\<rparr>"

definition next_pid :: "kst \<Rightarrow> kst" where
  "next_pid s = snd (take_pid s)"

lemma upd_my_simps [simp]:
  "ph (upd_my i f s) = ph s" "ftab (upd_my i f s) = ftab s" "itab (upd_my i f s) = itab s" "ph (upd_ph m s) = m"
  "ftab (upd_ph m s) = ftab s" "itab (upd_ph m s) = itab s" "sch (upd_ph m s) = sch s"
  "procs (sch (upd_my i f s)) = (procs (sch s))[i := f (procs (sch s) ! i)]" "cur (sch (upd_my i f s)) = cur (sch s)"
  "nextpid (sch (upd_my i f s)) = nextpid (sch s)" "initproc (sch (upd_my i f s)) = initproc (sch s)"
  by (simp_all add: upd_my_def set_procs_def upd_ph_def)

lemma upd_my_upd_my: "i < length (procs (sch s)) \<Longrightarrow> upd_my i f (upd_my i g s) = upd_my i (\<lambda>p. f (g p)) s"
  by (simp add: upd_my_def set_procs_def)

lemma upd_my_upd_ph: "upd_ph m (upd_my i f s) = upd_my i f (upd_ph m s)" "upd_ph m (upd_ph m' s) = upd_ph m s"
  by (simp_all add: upd_my_def set_procs_def upd_ph_def)

lemma next_pid_simps [simp]:
  "ph (next_pid s) = ph s" "ftab (next_pid s) = ftab s" "itab (next_pid s) = itab s" "procs (sch (next_pid s)) = procs (sch s)"
  "nextpid (sch (next_pid s)) = nextpid (sch s) + 1" "cur (sch (next_pid s)) = cur (sch s)"
  by (simp_all add: next_pid_def take_pid_def)

lemma allocproc_spec:
  assumes k: "kinv (ph s) ps" and P: "procs_ok s"
  obtains (none) "allocproc K s = Ok (None, s)" "\<forall>j < NPROC. state (procs (sch s) ! j) \<noteq> UNUSED"
  | (full) c f m ps' where "allocproc K s = Ok (None, upd_my c f (upd_ph m (next_pid s)))" "c < NPROC"
      "state (procs (sch s) ! c) = UNUSED" "\<forall>p. state (f p) = UNUSED" "kinv m ps'" "set ps' = set ps" "kend m = kend (ph s)"
      "same_off (set ps) (pmem (ph s)) (pmem m)" "length ps \<le> 3"
  | (made) c tf pt m ps' where "allocproc K s = Ok (Some c, upd_my c (new_proc K (nextpid (sch s)) tf pt) (upd_ph m (next_pid s)))"
      "c < NPROC" "state (procs (sch s) ! c) = UNUSED" "tf \<noteq> 0" "pt \<noteq> 0" "page_ok (ph s) tf" "vm_inv m pt ps'" "kend m = kend (ph s)"
      "set ps = insert tf (set ps' \<union> pt_pages (pmem m) pt)" "tf \<notin> set ps' \<union> pt_pages (pmem m) pt"
      "same_off (set ps) (pmem (ph s)) (pmem m)"
      "pmap (pmem m) pt (2 ^ 20 - 1) = Some (PA2PTE (sym_trampoline K) OR (PTE_R OR PTE_X) OR PTE_V)"
      "pmap (pmem m) pt (2 ^ 20 - 2) = Some (PA2PTE tf OR (PTE_R OR PTE_W) OR PTE_V)"
      "\<forall>j < 2 ^ 20 - 2. pmap (pmem m) pt j = None" "length ps \<le> length ps' + 4"
proof (cases "find_buf (\<lambda>j. state (procs (sch s) ! j) = UNUSED) [0..<NPROC]")
  case None
  then have "\<forall>j < NPROC. state (procs (sch s) ! j) \<noteq> UNUSED" by (simp add: find_buf_None)
  moreover have "allocproc K s = Ok (None, s)" by (simp add: allocproc_def None)
  ultimately show thesis using none by blast
next
  case (Some c)
  have c: "c < NPROC" "state (procs (sch s) ! c) = UNUSED" using find_buf_Some [OF Some] by auto
  then have len: "c < length (procs (sch s))" and clean: "trapframe (procs (sch s) ! c) = 0" "pagetable (procs (sch s) ! c) = 0"
    using P by (auto simp: procs_ok_def Let_def)
  let ?n = "nextpid (sch s)" and ?s = "next_pid s"
  have enter: "allocproc K s = (case kalloc (ph s) of (tf, m) \<Rightarrow>
      let s' = upd_my c (\<lambda>p. p\<lparr>pid := ?n, state := USED, trapframe := tf\<rparr>) (upd_ph m ?s)
      in if tf = 0 then seq (freeproc c s') (\<lambda>s. Ok (None, s))
         else seq (proc_pagetable K tf (ph s')) (\<lambda>(pt, m).
           let s' = upd_my c (pagetable_update (\<lambda>_. pt)) (upd_ph m s')
           in if pt = 0 then seq (freeproc c s') (\<lambda>s. Ok (None, s))
              else Ok (Some c, upd_my c (\<lambda>p. p\<lparr>pcontext := \<lparr>ctx_ra = sym_forkret K,
                     ctx_sp = kstack p + PGSIZE, ctx_s = replicate 12 0\<rparr>\<rparr>) s')))"
    unfolding allocproc_def Some next_pid_def
    by (simp add: take_pid_def upd_my_upd_ph upd_my_upd_my len split: prod.split)
  show thesis
  proof (cases ps)
    case Nil
    then have "kalloc (ph s) = (0, ph s)" using k kalloc_empty by simp
    then have "allocproc K s = Ok (None, upd_my c (\<lambda>p. cleared (p\<lparr>pid := ?n, state := USED, trapframe := 0\<rparr>)) (upd_ph (ph s) ?s))"
      unfolding enter using len clean by (simp add: freeproc_def cleared_def Let_def upd_my_upd_ph upd_my_upd_my)
    then show thesis by (rule full) (use c k Nil in \<open>simp_all add: cleared_def same_off_def\<close>)
  next
    case (Cons tf ps1)
    obtain m1 where m1: "kalloc (ph s) = (tf, m1)" "kinv m1 ps1" "same_outside tf (ph s) m1" "page_ok m1 tf" "tf \<noteq> 0" "tf \<notin> set ps1"
      using kalloc_ok k unfolding Cons by blast
    have ke: "kend m1 = kend (ph s)" and off: "same_off {tf} (pmem (ph s)) (pmem m1)"
      using m1(3) by (simp_all add: same_outside_def same_off_def)
    have off1: "same_off (set ps) (pmem (ph s)) (pmem m1)" by (rule same_off_mono [OF off]) (simp add: Cons)
    have sub: "set ps1 \<subseteq> set ps" by (auto simp: Cons)
    from m1(2) show thesis
    proof (cases rule: proc_pagetable_spec [where K = K and tf = tf, case_names full made])
      case (full m2 ps2)
      have "page_ok m2 tf" "tf \<notin> set ps2" using m1(4,6) full(3,4) by (simp_all add: page_ok_def)
      then obtain m3 where m3: "kfree tf m2 = Ok m3" "kinv m3 (tf # ps2)" "same_outside tf m2 m3" using kfree_ok full(2) by blast
      have "same_off (set ps) (pmem (ph s)) (pmem m3)"
        by (rule same_off_trans [OF same_off_trans [OF off1]], rule same_off_mono [OF full(5) sub])
           (use m3(3) Cons in \<open>simp add: same_outside_def same_off_def\<close>)
      moreover have "allocproc K s = Ok (None, upd_my c (\<lambda>p. cleared (p\<lparr>pid := ?n, state := USED, trapframe := tf, pagetable := 0\<rparr>)) (upd_ph m3 ?s))"
        unfolding enter using len m1(1,5) full(1) m3(1)
        by (simp add: freeproc_def cleared_def Let_def upd_my_upd_ph upd_my_upd_my)
      ultimately show thesis
        using that(2) [of c _ m3 "tf # ps2"] c m3(2,3) full(3,4,6) ke Cons by (simp add: cleared_def same_outside_def)
    next
      case (made pt m2 ps2)
      have "same_off (set ps) (pmem (ph s)) (pmem m2)"
        by (rule same_off_trans [OF off1]) (rule same_off_mono [OF made(6) sub])
      moreover have "allocproc K s = Ok (Some c, upd_my c (new_proc K ?n tf pt) (upd_ph m2 ?s))"
        unfolding enter using len m1(1,5) made(1,2)
        by (simp add: new_proc_def [abs_def] Let_def upd_my_upd_ph upd_my_upd_my)
      moreover have "set ps = insert tf (set ps2 \<union> pt_pages (pmem m2) pt)" "tf \<notin> set ps2 \<union> pt_pages (pmem m2) pt"
        using Cons made(5) m1(6) by simp_all
      moreover have "page_ok (ph s) tf" using m1(4) ke by (simp add: page_ok_def)
      moreover have "length ps \<le> length ps2 + 4" using made(10) Cons by simp
      ultimately show thesis using that(3) c m1(5) made(2-4,7-9) ke by metis
    qed
  qed
qed

end
