(* ===== verification/Proc_Sched.thy ===== *)
theory Proc_Sched
  imports Proc_Alloc
begin

text \<open>
  The scheduler's loop and the operations that change the process table, with every lock they
  take (\<open>kernel/proc.c\<close>), and the machine they make on one hart. Taking a spin lock turns the
  hart's interrupts off, so what runs from the \<open>acquire\<close> of a lock to the \<open>release\<close> of the last
  one held is atomic: a step of the machine is one such section, or one turn of the scheduler's
  loop, and a device or timer interrupt can come between any two. A function that holds no lock
  between two sections (\<open>fork\<close>, \<open>wakeup\<close>, \<open>kill\<close>) is several steps.
\<close>

subsection \<open>The scheduler's loop\<close>

text \<open>
  The head of the inner \<open>for\<close> with \<open>p\<close> at slot \<open>p\<close>, up to the next head or to \<open>swtch\<close>. Past the
  last slot the outer loop turns interrupts on and starts again.
\<close>

datatype sched_at = LoopHead nat | SwitchTo nat

definition scheduler_at :: "nat \<Rightarrow> sched_state \<Rightarrow> (sched_at \<times> sched_state) res" where
  "scheduler_at p s =
     (if p < NPROC
      then seq (scheduler_visit p s) (\<lambda>(chosen, s).
        Ok (if chosen then SwitchTo p else LoopHead (p + 1), s))
      else Ok (LoopHead 0, intr_on s))"

text \<open>From the entry of \<open>scheduler\<close> to the first head; and from \<open>swtch\<close>'s return to the next one.\<close>

definition scheduler_enter :: "sched_state \<Rightarrow> sched_at \<times> sched_state" where
  "scheduler_enter s = (LoopHead NPROC, s\<lparr>cur := None\<rparr>)"

definition scheduler_resume :: "nat \<Rightarrow> sched_state \<Rightarrow> (sched_at \<times> sched_state) res" where
  "scheduler_resume p s = seq (scheduler_back p s) (\<lambda>s. Ok (LoopHead (p + 1), s))"

subsection \<open>exit\<close>

text \<open>
  \<open>exit\<close> from its \<open>acquire(&wait_lock)\<close> to \<open>swtch\<close>: the children go to \<open>init\<close>, the parent is woken
  (no process sleeps on the null channel), the process becomes a zombie and never resumes. What
  \<open>exit\<close> does before is in theory Proc_Life.
\<close>

definition wakeup_proc :: "nat option \<Rightarrow> sched_state \<Rightarrow> sched_state res" where
  "wakeup_proc q s = (case q of None \<Rightarrow> Ok s | Some k \<Rightarrow> wakeup (ChanProc k) s)"

primrec reparent_loop :: "nat \<Rightarrow> nat list \<Rightarrow> sched_state \<Rightarrow> sched_state res" where
  "reparent_loop i [] s = Ok s"
| "reparent_loop i (j # js) s =
     (if parent (procs s ! j) = Some i
      then seq (wakeup_proc (initproc s) (upd_proc j (parent_update (\<lambda>_. initproc s)) s))
             (reparent_loop i js)
      else reparent_loop i js s)"

definition exit_out :: "u32 \<Rightarrow> sched_state \<Rightarrow> (bool \<times> sched_state) res" where
  "exit_out status s =
     seq (myproc s) (\<lambda>(me, s).
       case me of
         None \<Rightarrow> Fail OutOfBounds
       | Some i \<Rightarrow>
           seq (kacquire WaitLock s) (\<lambda>s.
           seq (reparent_loop i [0..<NPROC] s) (\<lambda>s.
           seq (wakeup_proc (parent (procs s ! i)) s) (\<lambda>s.
           seq (kacquire (ProcLock i) s) (\<lambda>s.
           seq (krelease WaitLock (upd_proc i (\<lambda>p. p\<lparr>xstate := status, state := ZOMBIE\<rparr>) s))
             sched_out)))))"

subsection \<open>fork and wait\<close>

text \<open>
  What \<open>fork\<close> does to the table, one definition for each of its three critical sections; \<open>i\<close> is
  the caller and \<open>j\<close> the slot \<open>allocproc\<close> looks at. The memory is a matter of theory Proc_Life: here
  \<open>tf\<close> and \<open>pt\<close> are the pages \<open>kalloc\<close> and \<open>proc_pagetable\<close> return (0 when there is none) and
  \<open>copied\<close> says that \<open>uvmcopy\<close> succeeded. On failure the slot is cleared as \<open>freeproc\<close> does.
\<close>

definition fork_inherit :: "proc \<Rightarrow> proc \<Rightarrow> proc" where
  "fork_inherit p q = q\<lparr>sz := sz p,
     ofile := map (\<lambda>fd. if ofile p ! fd \<noteq> None then ofile p ! fd else ofile q ! fd) [0..<NOFILE],
     cwd := cwd p, pname := safestrcpy_bytes (pname q) (pname p)\<rparr>"

definition fork_alloc ::
  "ksyms \<Rightarrow> u32 \<Rightarrow> u32 \<Rightarrow> bool \<Rightarrow> nat \<Rightarrow> nat \<Rightarrow> sched_state \<Rightarrow> sched_state res" where
  "fork_alloc K tf pt copied i j s =
     seq (kacquire (ProcLock j) s) (\<lambda>s.
       if state (procs s ! j) \<noteq> UNUSED then krelease (ProcLock j) s
       else seq (allocpid s) (\<lambda>(n, s).
         if tf = 0 \<or> pt = 0
         then krelease (ProcLock j) (upd_proc j (\<lambda>q. cleared (q\<lparr>pid := n, state := USED\<rparr>)) s)
         else if \<not> copied
         then krelease (ProcLock j) (upd_proc j (\<lambda>q. cleared (new_proc K n tf pt q)) s)
         else krelease (ProcLock j)
                (upd_proc j (\<lambda>q. fork_inherit (procs s ! i) (new_proc K n tf pt q)) s)))"

definition fork_parent :: "nat \<Rightarrow> nat \<Rightarrow> sched_state \<Rightarrow> sched_state res" where
  "fork_parent i j s =
     seq (kacquire WaitLock s) (\<lambda>s. krelease WaitLock (upd_proc j (parent_update (\<lambda>_. Some i)) s))"

definition fork_ready :: "nat \<Rightarrow> sched_state \<Rightarrow> sched_state res" where
  "fork_ready j s =
     seq (kacquire (ProcLock j) s) (\<lambda>s.
       krelease (ProcLock j) (upd_proc j (state_update (\<lambda>_. RUNNABLE)) s))"

text \<open>
  One turn of \<open>wait\<close>'s loop over the table, inside \<open>wait_lock\<close>; \<open>stored\<close> says that the exit status
  could be copied out.
\<close>

definition wait_visit :: "bool \<Rightarrow> nat \<Rightarrow> nat \<Rightarrow> sched_state \<Rightarrow> sched_state res" where
  "wait_visit stored i j s =
     (if parent (procs s ! j) = Some i
      then seq (kacquire (ProcLock j) s) (\<lambda>s.
        if state (procs s ! j) = ZOMBIE \<and> stored then krelease (ProcLock j) (upd_proc j cleared s)
        else krelease (ProcLock j) s)
      else Ok s)"

text \<open>\<open>sleep\<close> after \<open>swtch\<close>, up to the release of the process's lock; then it retakes the other lock.\<close>

definition sleep_wake :: "nat \<Rightarrow> bool \<Rightarrow> sched_state \<Rightarrow> sched_state res" where
  "sleep_wake i saved s = krelease (ProcLock i) (upd_proc i (chan_update (\<lambda>_. None)) (sched_in saved s))"

lemma sleep_in_wake: "sleep_in i l saved s = seq (sleep_wake i saved s) (kacquire l)"
  by (simp add: sleep_in_def sleep_wake_def Let_def)

subsection \<open>Interrupts\<close>

text \<open>
  What the handlers do to the process table. \<open>clockintr\<close> wakes the sleepers on \<open>ticks\<close>.
  \<open>consoleintr\<close>, called for one character, wakes the readers when the character ends a line.
  \<open>uartintr\<close> calls it for every character that has arrived and then \<open>uartstart\<close>, which wakes the
  writers once for each byte it sends. \<open>devintr\<close> chooses between the clock and the UART. The hart
  takes an interrupt with interrupts off and turns them on again if they were.
\<close>

primrec wakeup_times :: "chan \<Rightarrow> nat \<Rightarrow> sched_state \<Rightarrow> sched_state res" where
  "wakeup_times c 0 s = Ok s"
| "wakeup_times c (Suc n) s = seq (wakeup c s) (wakeup_times c n)"

definition clock_wakes :: "sched_state \<Rightarrow> sched_state res" where
  "clock_wakes s = seq (kacquire TicksLock s) (\<lambda>s. seq (wakeup ChanTicks s) (krelease TicksLock))"

definition console_wakes :: "bool \<Rightarrow> sched_state \<Rightarrow> sched_state res" where
  "console_wakes line s =
     seq (kacquire ConsLock s) (\<lambda>s. seq (if line then wakeup ChanConsR s else Ok s) (krelease ConsLock))"

primrec uart_wakes :: "bool list \<Rightarrow> nat \<Rightarrow> sched_state \<Rightarrow> sched_state res" where
  "uart_wakes [] n s =
     seq (kacquire UartLock s) (\<lambda>s. seq (wakeup_times ChanUartTx n s) (krelease UartLock))"
| "uart_wakes (line # cs) n s = seq (console_wakes line s) (uart_wakes cs n)"

datatype intr_device = ClockDev | UartDev "bool list" nat

definition intr_handler :: "intr_device \<Rightarrow> sched_state \<Rightarrow> sched_state res" where
  "intr_handler d s = (case d of ClockDev \<Rightarrow> clock_wakes s | UartDev cs n \<Rightarrow> uart_wakes cs n s)"

definition set_sie :: "bool \<Rightarrow> sched_state \<Rightarrow> sched_state" where
  "set_sie b s = s\<lparr>locks := upd_cpu cpuid (sie_update (\<lambda>_. b)) (locks s)\<rparr>"

definition take_interrupt :: "intr_device \<Rightarrow> sched_state \<Rightarrow> sched_state res" where
  "take_interrupt d s = seq (intr_handler d (set_sie False s)) (\<lambda>t. Ok (set_sie (sie (mycpu s)) t))"

subsection \<open>The machine\<close>

text \<open>
  Control is at a head of the scheduler's loop or in a process. A process off the processor
  remembers where in \<open>sched\<close>'s callers it will resume. The trace of a step is the slot the
  scheduler looked at and whether it ran the process there.
\<close>

datatype resume = FromFork | FromYield bool | FromSleep bool

datatype control = InScheduler nat | InProcess nat

record machine =
  ks :: sched_state
  ctl :: control
  conts :: "nat \<Rightarrow> resume"

definition resume_proc :: "nat \<Rightarrow> resume \<Rightarrow> sched_state \<Rightarrow> sched_state res" where
  "resume_proc i r s =
     (case r of
        FromFork \<Rightarrow> krelease (ProcLock i) s
      | FromYield saved \<Rightarrow> yield_in i saved s
      | FromSleep saved \<Rightarrow> sleep_wake i saved s)"

definition is_proc_lock :: "lock \<Rightarrow> bool" where
  "is_proc_lock l = (case l of ProcLock _ \<Rightarrow> True | _ \<Rightarrow> False)"

text \<open>
  What a process does between two switches: the sections above, other locks, the fields of its
  own that only it writes, and turning interrupts on or off when it holds no lock.
\<close>

inductive section_step :: "nat \<Rightarrow> sched_state \<Rightarrow> sched_state \<Rightarrow> bool" where
  wakes: "j < NPROC \<Longrightarrow> wakeup_loop c [j] s = Ok s' \<Longrightarrow> section_step i s s'"
| kills: "j < NPROC \<Longrightarrow> kill_loop n [j] s = Ok (r, s') \<Longrightarrow> section_step i s s'"
| marks: "j < NPROC \<Longrightarrow> setkilled j s = Ok s' \<Longrightarrow> section_step i s s'"
| asks: "j < NPROC \<Longrightarrow> get_killed j s = Ok (k, s') \<Longrightarrow> section_step i s s'"
| locking: "\<not> is_proc_lock l \<Longrightarrow> kacquire l s = Ok s' \<Longrightarrow> section_step i s s'"
| unlocking: "\<not> is_proc_lock l \<Longrightarrow> krelease l s = Ok s' \<Longrightarrow> section_step i s s'"
| parents: "j < NPROC \<Longrightarrow> fork_parent i j s = Ok s' \<Longrightarrow> section_step i s s'"
| readies: "j < NPROC \<Longrightarrow> state (procs s ! j) = USED \<Longrightarrow> fork_ready j s = Ok s' \<Longrightarrow> section_step i s s'"
| reaps: "j < NPROC \<Longrightarrow> holding cpuid WaitLock (locks s) \<Longrightarrow> wait_visit stored i j s = Ok s' \<Longrightarrow>
    section_step i s s'"
| own: "section_step i s (upd_proc i (\<lambda>p. p\<lparr>sz := z, pagetable := pt, ofile := fs, cwd := d, pname := n\<rparr>) s)"
| masks: "noff (mycpu s) = 0 \<Longrightarrow> section_step i s (set_sie b s)"
| interrupted: "noff (mycpu s) = 0 \<Longrightarrow> take_interrupt d s = Ok s' \<Longrightarrow> section_step i s s'"

inductive sstep :: "machine \<Rightarrow> (nat \<times> bool) list \<Rightarrow> machine \<Rightarrow> bool" where
  pass: "ctl m = InScheduler p \<Longrightarrow> scheduler_at p (ks m) = Ok (LoopHead q, s) \<Longrightarrow>
    sstep m (if p < NPROC then [(p, False)] else []) (m\<lparr>ks := s, ctl := InScheduler q\<rparr>)"
| run: "ctl m = InScheduler p \<Longrightarrow> scheduler_at p (ks m) = Ok (SwitchTo i, s) \<Longrightarrow>
    resume_proc i (conts m i) s = Ok s' \<Longrightarrow> sstep m [(p, True)] (m\<lparr>ks := s', ctl := InProcess i\<rparr>)"
| intr: "ctl m = InScheduler p \<Longrightarrow> sie (mycpu (ks m)) \<Longrightarrow> take_interrupt d (ks m) = Ok s \<Longrightarrow>
    sstep m [] (m\<lparr>ks := s\<rparr>)"
| yield: "ctl m = InProcess i \<Longrightarrow> yield_out (ks m) = Ok (saved, s) \<Longrightarrow>
    scheduler_resume i s = Ok (LoopHead q, s') \<Longrightarrow>
    sstep m [] (m\<lparr>ks := s', ctl := InScheduler q, conts := (conts m)(i := FromYield saved)\<rparr>)"
| sleep: "ctl m = InProcess i \<Longrightarrow> \<not> is_proc_lock l \<Longrightarrow> sleep_out c l (ks m) = Ok (saved, s) \<Longrightarrow>
    scheduler_resume i s = Ok (LoopHead q, s') \<Longrightarrow>
    sstep m [] (m\<lparr>ks := s', ctl := InScheduler q, conts := (conts m)(i := FromSleep saved)\<rparr>)"
| exit: "ctl m = InProcess i \<Longrightarrow> initproc (ks m) \<noteq> Some i \<Longrightarrow> exit_out status (ks m) = Ok (saved, s) \<Longrightarrow>
    scheduler_resume i s = Ok (LoopHead q, s') \<Longrightarrow> sstep m [] (m\<lparr>ks := s', ctl := InScheduler q\<rparr>)"
| section_of: "ctl m = InProcess i \<Longrightarrow> section_step i (ks m) s \<Longrightarrow> sstep m [] (m\<lparr>ks := s\<rparr>)"
| forks: "ctl m = InProcess i \<Longrightarrow> j < NPROC \<Longrightarrow> fork_alloc K tf pt copied i j (ks m) = Ok s \<Longrightarrow>
    sstep m [] (m\<lparr>ks := s, conts := (if state (procs (ks m) ! j) = UNUSED then (conts m)(j := FromFork) else conts m)\<rparr>)"

inductive_cases sstep_elim: "sstep m v m'"

text \<open>Boot: \<open>userinit\<close> has made process 0 runnable, all other slots are free, \<open>scheduler\<close> is entered.\<close>

definition boot_state :: "machine \<Rightarrow> bool" where
  "boot_state m \<longleftrightarrow>
     length (procs (ks m)) = NPROC \<and> state (procs (ks m) ! 0) = RUNNABLE \<and>
     (\<forall>j < NPROC. j \<noteq> 0 \<longrightarrow> state (procs (ks m) ! j) = UNUSED) \<and> initproc (ks m) = Some 0 \<and>
     holds (locks (ks m)) {} \<and> conts m 0 = FromFork \<and>
     (\<exists>s p. scheduler_enter s = (LoopHead p, ks m) \<and> ctl m = InScheduler p)"

inductive reachable :: "machine \<Rightarrow> bool" where
  boot: "boot_state m \<Longrightarrow> reachable m"
| step: "reachable m \<Longrightarrow> sstep m v m' \<Longrightarrow> reachable m'"

text \<open>A run and its trace.\<close>

inductive srun :: "machine \<Rightarrow> (nat \<times> bool) list \<Rightarrow> machine \<Rightarrow> bool" where
  none: "srun m [] m"
| more: "srun m vs m' \<Longrightarrow> sstep m' v m'' \<Longrightarrow> srun m (vs @ v) m''"

subsection \<open>What a section leaves alone\<close>

lemma not_proc_lock [simp]: "\<not> is_proc_lock l \<Longrightarrow> l \<noteq> ProcLock i"
  by (auto simp: is_proc_lock_def)

lemma is_proc_lock_simps [simp]: "is_proc_lock (ProcLock i)" "\<not> is_proc_lock WaitLock" "\<not> is_proc_lock PidLock"
  "\<not> is_proc_lock TicksLock" "\<not> is_proc_lock ConsLock" "\<not> is_proc_lock UartLock"
  by (simp_all add: is_proc_lock_def)

lemma seq_Ok_iff: "seq x f = Ok y \<longleftrightarrow> (\<exists>a. x = Ok a \<and> f a = Ok y)"
  by (cases x) auto

lemma seq_Ok_pair_iff: "seq x (\<lambda>(a, b). f a b) = Ok y \<longleftrightarrow> (\<exists>a b. x = Ok (a, b) \<and> f a b = Ok y)"
  by (cases x) auto

lemma kacquire_D:
  assumes "kacquire l s = Ok s'" "holds (locks s) A"
  obtains L where "s' = s\<lparr>locks := L\<rparr>" "holds L (insert l A)" "l \<notin> A"
proof -
  have "l \<notin> A"
  proof
    assume "l \<in> A"
    then have "lk (locks s) l = \<lparr>locked = 1, lcpu = Some 0\<rparr>" using assms(2) by (simp add: holds_def)
    then show False using assms(1) by (simp add: kacquire_def lift_locks_def acquire_def holding_def Let_def)
  qed
  with assms that show thesis by (metis kacquire_ok res.inject(1))
qed

lemma krelease_D:
  assumes "krelease l s = Ok s'" "holds (locks s) A"
  obtains L where "s' = s\<lparr>locks := L\<rparr>" "holds L (A - {l})" "l \<in> A"
proof -
  have "l \<in> A"
  proof (rule ccontr)
    assume "l \<notin> A"
    then have "\<not> holding 0 l (locks s)" using holds_holding [OF assms(2)] by simp
    then show False using assms(1) by (simp add: krelease_def lift_locks_def release_def)
  qed
  with assms that show thesis by (metis krelease_ok res.inject(1))
qed

text \<open>A section that changes the table between the two lock operations.\<close>

lemma locked_D:
  assumes "seq (kacquire l s) (\<lambda>s. krelease l (F s)) = Ok s'" "holds (locks s) A"
    "\<And>L. F (s\<lparr>locks := L\<rparr>) = s\<lparr>procs := ps, locks := L\<rparr>"
  obtains L where "s' = s\<lparr>procs := ps, locks := L\<rparr>" "holds L A"
proof -
  obtain t where t: "kacquire l s = Ok t" "krelease l (F t) = Ok s'" using assms(1) by (auto simp: seq_Ok_iff)
  obtain L1 where L1: "t = s\<lparr>locks := L1\<rparr>" "holds L1 (insert l A)" "l \<notin> A" by (rule kacquire_D [OF t(1) assms(2)])
  have "holds (locks (F t)) (insert l A)" using L1 assms(3) by simp
  from krelease_D [OF t(2) this] L1(1,3) assms(3) that show thesis by auto
qed

definition keeps_state :: "procstate \<Rightarrow> procstate \<Rightarrow> bool" where
  "keeps_state a b \<longleftrightarrow> (b = RUNNING \<longleftrightarrow> a = RUNNING) \<and> (a = RUNNABLE \<longrightarrow> b = RUNNABLE)"

definition quiet_section :: "sched_state \<Rightarrow> sched_state \<Rightarrow> bool" where
  "quiet_section s s' \<longleftrightarrow> length (procs s') = length (procs s) \<and> cur s' = cur s \<and>
     (\<exists>A. holds (locks s') A \<and> (\<forall>l \<in> A. \<not> is_proc_lock l)) \<and>
     (\<forall>j < length (procs s). keeps_state (state (procs s ! j)) (state (procs s' ! j)))"

lemma keeps_state_refl [simp]: "keeps_state a a"
  by (simp add: keeps_state_def)

lemma keeps_wake_one [simp]: "keeps_state (state p) (state (wake_one c p))"
  by (simp add: keeps_state_def wake_one_def)

lemma keeps_wake_some: "j < length ps \<Longrightarrow> keeps_state (state (ps ! j)) (state (wake_some c js w ps ! j))"
  by (simp add: wake_some_def)

lemma nth_upd: "j < length xs \<Longrightarrow> xs[a := v] ! j = (if a = j then v else xs ! j)"
  by (cases "a = j") simp_all

lemma keeps_kill_procs: "j < length ps \<Longrightarrow> keeps_state (state (ps ! j)) (state (snd (kill_procs n js ps) ! j))"
  by (induction js) (auto simp: kill_one_def keeps_state_def Let_def nth_upd)

lemma length_kill_procs [simp]: "length (snd (kill_procs n js ps)) = length ps"
  by (induction js) auto

lemma length_wake_some [simp]: "length (wake_some c js w ps) = length ps"
  by (simp add: wake_some_def)

lemma quiet_procs:
  assumes "holds L A" "\<forall>l \<in> A. \<not> is_proc_lock l" "length ps = length (procs s)"
    "\<And>j. j < length (procs s) \<Longrightarrow> keeps_state (state (procs s ! j)) (state (ps ! j))"
  shows "quiet_section s (s\<lparr>procs := ps, locks := L\<rparr>)"
  using assms by (auto simp: quiet_section_def)

lemma quiet_one:
  assumes "seq (kacquire l s) (\<lambda>s. krelease l (upd_proc j f s)) = Ok s'" "holds (locks s) A"
    "\<forall>l \<in> A. \<not> is_proc_lock l" "keeps_state (state (procs s ! j)) (state (f (procs s ! j)))"
  shows "quiet_section s s'"
proof -
  obtain L where L: "s' = s\<lparr>procs := (procs s)[j := f (procs s ! j)], locks := L\<rparr>" "holds L A"
    by (rule locked_D [OF assms(1,2), where ps = "(procs s)[j := f (procs s ! j)]"]) (simp_all add: upd_proc_def)
  show ?thesis unfolding L(1) by (rule quiet_procs [OF L(2) assms(3)]) (use assms(4) in \<open>auto simp: nth_upd\<close>)
qed

lemma locked_id: "seq (kacquire l s) (krelease l) = seq (kacquire l s) (\<lambda>s. krelease l (upd_proc j (\<lambda>p. p) s))"
  by (rule arg_cong2 [where f = seq]) (simp_all add: upd_proc_def)

lemma wakeups_ok:
  assumes "holds (locks s) A" "length (procs s) = NPROC" "\<forall>l \<in> A. \<not> is_proc_lock l"
  shows "\<exists>ps L. wakeup_times c n s = Ok (s\<lparr>procs := ps, locks := L\<rparr>) \<and> holds L A \<and> length ps = NPROC \<and>
    (\<forall>j < NPROC. keeps_state (state (procs s ! j)) (state (ps ! j)))"
  using assms
proof (induction n arbitrary: s)
  case 0
  then show ?case by (intro exI [of _ "procs s"] exI [of _ "locks s"]) simp
next
  case (Suc n)
  have "\<forall>i < NPROC. ProcLock i \<notin> A" using Suc.prems(3) by auto
  from wakeup_spec [OF Suc.prems(1,2) this, of c] obtain L where
    L: "wakeup c s = Ok (s\<lparr>procs := wake_procs c (cur s) (procs s), locks := L\<rparr>)" "holds L A" .
  let ?s = "s\<lparr>procs := wake_procs c (cur s) (procs s), locks := L\<rparr>"
  obtain ps L2 where 2: "wakeup_times c n ?s = Ok (?s\<lparr>procs := ps, locks := L2\<rparr>)" "holds L2 A" "length ps = NPROC"
    "\<forall>j < NPROC. keeps_state (state (procs ?s ! j)) (state (ps ! j))"
    using Suc.IH [of ?s] L(2) Suc.prems by auto
  have "keeps_state (state (procs s ! j)) (state (ps ! j))" if "j < NPROC" for j
    using 2(4) [rule_format, OF that] Suc.prems(2) that by (auto simp: keeps_state_def wake_one_def split: if_splits)
  then show ?case using L(1) 2(1-3) by auto
qed

text \<open>Every part of a handler takes a lock, wakes and gives the lock back.\<close>

definition only_wakes :: "sched_state \<Rightarrow> sched_state res \<Rightarrow> bool" where
  "only_wakes s r \<longleftrightarrow> (\<exists>ps L. r = Ok (s\<lparr>procs := ps, locks := L\<rparr>) \<and> holds L {} \<and> length ps = NPROC \<and>
     (\<forall>j < NPROC. keeps_state (state (procs s ! j)) (state (ps ! j))))"

lemma locked_wakeups:
  assumes "holds (locks s) {}" "length (procs s) = NPROC" "\<not> is_proc_lock l"
  shows "only_wakes s (seq (kacquire l s) (\<lambda>s. seq (wakeup_times c n s) (krelease l)))"
proof -
  obtain L1 where L1: "kacquire l s = Ok (s\<lparr>locks := L1\<rparr>)" "holds L1 {l}"
    using kacquire_ok [OF assms(1), of l] by auto
  obtain ps L2 where 2: "wakeup_times c n (s\<lparr>locks := L1\<rparr>) = Ok (s\<lparr>locks := L1\<rparr>\<lparr>procs := ps, locks := L2\<rparr>)"
    "holds L2 {l}" "length ps = NPROC" "\<forall>j < NPROC. keeps_state (state (procs s ! j)) (state (ps ! j))"
    using wakeups_ok [of "s\<lparr>locks := L1\<rparr>" "{l}" c n] L1(2) assms(2,3) by auto
  obtain L3 where L3: "krelease l (s\<lparr>procs := ps, locks := L2\<rparr>) = Ok (s\<lparr>procs := ps, locks := L3\<rparr>)" "holds L3 {}"
    using krelease_ok [of "s\<lparr>procs := ps, locks := L2\<rparr>" "{l}" l] 2(2) by auto
  show ?thesis
    unfolding only_wakes_def by (intro exI [of _ ps] exI [of _ L3]) (use L1(1) 2 L3 in simp)
qed

lemma clock_wakes_ok:
  assumes "holds (locks s) {}" "length (procs s) = NPROC"
  shows "only_wakes s (clock_wakes s)"
proof -
  have "wakeup_times ChanTicks 1 = wakeup ChanTicks" by (rule ext) (simp, case_tac "wakeup ChanTicks x", simp_all)
  then show ?thesis using locked_wakeups [OF assms, of TicksLock ChanTicks 1] by (simp add: clock_wakes_def)
qed

lemma console_wakes_ok:
  assumes "holds (locks s) {}" "length (procs s) = NPROC"
  shows "only_wakes s (console_wakes line s)"
proof -
  have "wakeup_times ChanConsR (if line then 1 else 0) s = (if line then wakeup ChanConsR s else Ok s)" for s
    by (cases "wakeup ChanConsR s") simp_all
  then show ?thesis
    using locked_wakeups [OF assms, of ConsLock ChanConsR "if line then 1 else 0"] by (simp add: console_wakes_def)
qed

lemma uart_wakes_ok:
  assumes "holds (locks s) {}" "length (procs s) = NPROC"
  shows "only_wakes s (uart_wakes cs n s)"
  using assms
proof (induction cs arbitrary: s)
  case Nil
  then show ?case by (simp add: locked_wakeups)
next
  case (Cons line cs)
  from console_wakes_ok [OF Cons.prems, of line] obtain ps L where
    1: "console_wakes line s = Ok (s\<lparr>procs := ps, locks := L\<rparr>)" "holds L {}" "length ps = NPROC"
      "\<forall>j < NPROC. keeps_state (state (procs s ! j)) (state (ps ! j))"
    by (auto simp: only_wakes_def)
  let ?s = "s\<lparr>procs := ps, locks := L\<rparr>"
  obtain ps' L' where 2: "uart_wakes cs n ?s = Ok (?s\<lparr>procs := ps', locks := L'\<rparr>)" "holds L' {}" "length ps' = NPROC"
      "\<forall>j < NPROC. keeps_state (state (procs ?s ! j)) (state (ps' ! j))"
    using Cons.IH [of ?s] 1(2,3) by (auto simp: only_wakes_def)
  have "keeps_state (state (procs s ! j)) (state (ps' ! j))" if "j < NPROC" for j
    using 1(4) [rule_format, OF that] 2(4) [rule_format, OF that] by (auto simp: keeps_state_def)
  then show ?case unfolding only_wakes_def
    by (intro exI [of _ ps'] exI [of _ L']) (use 1(1) 2(1-3) in simp)
qed

lemma handler_ok:
  assumes "holds (locks s) {}" "length (procs s) = NPROC"
  shows "only_wakes s (intr_handler d s)"
  using clock_wakes_ok [OF assms] uart_wakes_ok [OF assms] by (simp add: intr_handler_def split: intr_device.split)

lemma interrupt_ok:
  assumes "holds (locks s) {}" "length (procs s) = NPROC"
  obtains ps L where "take_interrupt d s = Ok (s\<lparr>procs := ps, locks := L\<rparr>)" "holds L {}" "length ps = NPROC"
    "\<forall>j < NPROC. keeps_state (state (procs s ! j)) (state (ps ! j))"
proof -
  let ?s = "set_sie False s"
  have h: "holds (locks ?s) {}" using assms(1) by (simp add: set_sie_def holds_def cpuid_def)
  have "only_wakes ?s (intr_handler d ?s)" using handler_ok [OF h] assms(2) by (simp add: set_sie_def)
  then obtain ps L3 where 2: "intr_handler d ?s = Ok (?s\<lparr>procs := ps, locks := L3\<rparr>)" "holds L3 {}" "length ps = NPROC"
    "\<forall>j < NPROC. keeps_state (state (procs s ! j)) (state (ps ! j))"
    by (auto simp: only_wakes_def set_sie_def)
  have "take_interrupt d s = Ok (s\<lparr>procs := ps, locks := upd_cpu cpuid (sie_update (\<lambda>_. sie (mycpu s))) L3\<rparr>)"
    using 2(1) by (simp add: take_interrupt_def set_sie_def)
  moreover have "holds (upd_cpu cpuid (sie_update (\<lambda>_. sie (mycpu s))) L3) {}"
    using 2(2) by (simp add: holds_def cpuid_def)
  ultimately show thesis using that 2(3,4) by blast
qed

lemma noff_no_lock: "holds (locks s) A \<Longrightarrow> noff (mycpu s) = 0 \<Longrightarrow> A = {}"
  by (auto simp: holds_def mycpu_def cpuid_def)

lemma section_quiet:
  assumes "section_step i s s'" "holds (locks s) A" "\<forall>l \<in> A. \<not> is_proc_lock l" "length (procs s) = NPROC"
  shows "quiet_section s s'"
  using assms
proof (induction rule: section_step.induct)
  case (wakes j c s s' i)
  have "\<exists>L. wakeup_loop c [j] s = Ok (s\<lparr>procs := wake_some c [j] (cur s) (procs s), locks := L\<rparr>) \<and> holds L A"
    by (rule wakeup_loop_spec) (use wakes in auto)
  then show ?case using wakes.hyps(2) wakes.prems(2) by (auto intro!: quiet_procs keeps_wake_some)
next
  case (kills j n s r s' i)
  have "\<exists>L. kill_loop n [j] s = Ok (fst (kill_procs n [j] (procs s)), s\<lparr>procs := snd (kill_procs n [j] (procs s)), locks := L\<rparr>) \<and> holds L A"
    by (rule kill_loop_spec) (use kills in auto)
  then obtain L where L: "s' = s\<lparr>procs := snd (kill_procs n [j] (procs s)), locks := L\<rparr>" "holds L A"
    using kills.hyps(2) by auto
  show ?case unfolding L(1) by (rule quiet_procs [OF L(2) kills.prems(2)]) (simp_all only: length_kill_procs keeps_kill_procs)
next
  case (marks j s s' i)
  then show ?case by (intro quiet_one [of "ProcLock j" s j "killed_update (\<lambda>_. 1)"]) (simp_all add: setkilled_def)
next
  case (asks j s k s' i)
  then have "seq (kacquire (ProcLock j) s) (krelease (ProcLock j)) = Ok s'"
    by (auto simp: get_killed_def seq_Ok_iff seq_Ok_pair_iff Let_def)
  then show ?case unfolding locked_id [where j = j] by (rule quiet_one [OF _ asks.prems(1,2)]) simp
next
  case (locking l s s' i)
  then show ?case by (auto elim!: kacquire_D simp: quiet_section_def)
next
  case (unlocking l s s' i)
  then show ?case by (auto elim!: krelease_D simp: quiet_section_def)
next
  case (parents j i s s')
  then show ?case by (intro quiet_one [of WaitLock s j "parent_update (\<lambda>_. Some i)"]) (simp_all add: fork_parent_def)
next
  case (readies j s s' i)
  then show ?case
    by (intro quiet_one [of "ProcLock j" s j "state_update (\<lambda>_. RUNNABLE)"]) (simp_all add: fork_ready_def keeps_state_def)
next
  case (reaps j s stored i s')
  show ?case
  proof (cases "parent (procs s ! j) = Some i")
    case True
    let ?f = "if state (procs s ! j) = ZOMBIE \<and> stored then cleared else (\<lambda>p. p)"
    have "seq (kacquire (ProcLock j) s) (\<lambda>s. krelease (ProcLock j) (upd_proc j ?f s)) = Ok s'"
    proof -
      obtain t where t: "kacquire (ProcLock j) s = Ok t"
        "(if state (procs t ! j) = ZOMBIE \<and> stored then krelease (ProcLock j) (upd_proc j cleared t)
          else krelease (ProcLock j) t) = Ok s'"
        using reaps.hyps(3) True by (auto simp: wait_visit_def seq_Ok_iff)
      obtain L where "t = s\<lparr>locks := L\<rparr>" by (rule kacquire_D [OF t(1) reaps.prems(1)])
      with t show ?thesis by (cases stored) (auto simp: upd_proc_def split: if_splits)
    qed
    then show ?thesis
      by (rule quiet_one [OF _ reaps.prems(1,2)]) (auto simp: keeps_state_def cleared_def)
  next
    case False
    then show ?thesis using reaps by (auto simp: wait_visit_def quiet_section_def)
  qed
next
  case (own i s z pt fs d n)
  then show ?case by (auto simp: quiet_section_def nth_upd)
next
  case (masks s i b)
  have "holds (locks s) {}" using masks.prems(1) noff_no_lock [OF masks.prems(1) masks.hyps(1)] by simp
  then have "holds (locks (set_sie b s)) {}" by (simp add: set_sie_def holds_def cpuid_def)
  then show ?case unfolding quiet_section_def by (intro conjI exI [of _ "{}"]) (simp_all add: set_sie_def)
next
  case (interrupted s d s' i)
  have h: "holds (locks s) {}" using interrupted.prems(1) noff_no_lock [OF interrupted.prems(1) interrupted.hyps(1)] by simp
  obtain ps L where "take_interrupt d s = Ok (s\<lparr>procs := ps, locks := L\<rparr>)" "holds L {}" "length ps = NPROC"
    "\<forall>j < NPROC. keeps_state (state (procs s ! j)) (state (ps ! j))"
    by (rule interrupt_ok [OF h interrupted.prems(3)])
  then show ?case using interrupted.hyps(2) interrupted.prems(3) by (auto intro!: quiet_procs [where A = "{}"])
qed

subsection \<open>Leaving the processor\<close>

text \<open>\<open>sched\<close>'s checks force a process that gives up the processor to hold its own lock and no other.\<close>

lemma sched_out_D:
  assumes "sched_out s = Ok (saved, s')" "holds (locks s) A" "cur s = Some i"
  obtains L where "s' = s\<lparr>locks := L\<rparr>" "holds L A" "A = {ProcLock i}"
proof -
  obtain L where L: "myproc s = Ok (cur s, s\<lparr>locks := L\<rparr>)" "holds L A" by (rule myproc_ok [OF assms(2)])
  then have s': "s' = s\<lparr>locks := L\<rparr>" and h: "holding 0 (ProcLock i) L" "noff (cpus L 0) = 1"
    using assms(1,3) by (auto simp: sched_out_def mycpu_def cpuid_def split: if_splits)
  have "ProcLock i \<in> A" using h(1) holds_holding [OF L(2)] by simp
  moreover have "card A = 1" using h(2) L(2) by (simp add: holds_def)
  ultimately have "A = {ProcLock i}" by (auto simp: card_1_singleton_iff)
  then show thesis using that s' L(2) by blast
qed

text \<open>What the process that leaves may have done to the table.\<close>

definition gave_up :: "nat \<Rightarrow> procstate \<Rightarrow> sched_state \<Rightarrow> sched_state \<Rightarrow> bool" where
  "gave_up i st s s' \<longleftrightarrow> length (procs s') = length (procs s) \<and> holds (locks s') {ProcLock i} \<and> st \<noteq> RUNNING \<and>
     state (procs s' ! i) = st \<and>
     (\<forall>j < length (procs s). j \<noteq> i \<longrightarrow> keeps_state (state (procs s ! j)) (state (procs s' ! j)))"

lemma only_own_lock: "insert (ProcLock i) A = {ProcLock i} \<Longrightarrow> \<forall>l \<in> A. \<not> is_proc_lock l \<Longrightarrow> A = {}"
  by (metis insertI2 is_proc_lock_simps(1) singletonD equals0I)

lemma yield_D:
  assumes "yield_out s = Ok (saved, s')" "holds (locks s) A" "\<forall>l \<in> A. \<not> is_proc_lock l" "cur s = Some i" "i < length (procs s)"
  shows "gave_up i RUNNABLE s s'"
proof -
  obtain L1 where L1: "myproc s = Ok (cur s, s\<lparr>locks := L1\<rparr>)" "holds L1 A" by (rule myproc_ok [OF assms(2)])
  obtain L2 where L2: "kacquire (ProcLock i) (s\<lparr>locks := L1\<rparr>) = Ok (s\<lparr>locks := L2\<rparr>)" "holds L2 (insert (ProcLock i) A)"
    by (rule kacquire_ok [of "s\<lparr>locks := L1\<rparr>" A "ProcLock i"]) (use L1(2) assms(3) in auto)
  let ?s = "s\<lparr>procs := (procs s)[i := (procs s ! i)\<lparr>state := RUNNABLE\<rparr>], locks := L2\<rparr>"
  have o: "sched_out ?s = Ok (saved, s')" using assms(1,4) L1(1) L2(1) by (simp add: yield_out_def upd_proc_def)
  obtain L where "s' = ?s\<lparr>locks := L\<rparr>" "holds L (insert (ProcLock i) A)" "insert (ProcLock i) A = {ProcLock i}"
    by (rule sched_out_D [OF o, where A = "insert (ProcLock i) A" and i = i]) (use L2(2) assms(4) in simp_all)
  then show ?thesis using assms(5) by (simp add: gave_up_def)
qed

lemma sleep_D:
  assumes "sleep_out c l s = Ok (saved, s')" "holds (locks s) A" "\<forall>l \<in> A. \<not> is_proc_lock l" "cur s = Some i"
    "i < length (procs s)"
  shows "gave_up i SLEEPING s s'"
proof -
  obtain L1 where L1: "myproc s = Ok (cur s, s\<lparr>locks := L1\<rparr>)" "holds L1 A" by (rule myproc_ok [OF assms(2)])
  obtain L2 where L2: "kacquire (ProcLock i) (s\<lparr>locks := L1\<rparr>) = Ok (s\<lparr>locks := L2\<rparr>)" "holds L2 (insert (ProcLock i) A)"
    by (rule kacquire_ok [of "s\<lparr>locks := L1\<rparr>" A "ProcLock i"]) (use L1(2) assms(3) in auto)
  have rest: "seq (krelease l (s\<lparr>locks := L2\<rparr>)) (\<lambda>s.
      sched_out (upd_proc i (\<lambda>p. p\<lparr>chan := Some c, state := SLEEPING\<rparr>) s)) = Ok (saved, s')"
    using assms(1,4) L1(1) L2(1) by (simp add: sleep_out_def)
  then obtain t where t: "krelease l (s\<lparr>locks := L2\<rparr>) = Ok t"
    "sched_out (upd_proc i (\<lambda>p. p\<lparr>chan := Some c, state := SLEEPING\<rparr>) t) = Ok (saved, s')"
    by (auto simp: seq_Ok_iff)
  obtain L3 where L3: "t = s\<lparr>locks := L3\<rparr>" "holds L3 (insert (ProcLock i) A - {l})"
    by (rule krelease_D [OF t(1), where A = "insert (ProcLock i) A"]) (use L2(2) in simp_all)
  let ?s = "s\<lparr>procs := (procs s)[i := (procs s ! i)\<lparr>chan := Some c, state := SLEEPING\<rparr>], locks := L3\<rparr>"
  have o: "sched_out ?s = Ok (saved, s')" using t(2) L3(1) by (simp add: upd_proc_def)
  obtain L where L: "s' = ?s\<lparr>locks := L\<rparr>" "holds L (insert (ProcLock i) A - {l})"
    "insert (ProcLock i) A - {l} = {ProcLock i}"
    by (rule sched_out_D [OF o, where A = "insert (ProcLock i) A - {l}" and i = i]) (use L3(2) assms(4) in simp_all)
  have "holds L {ProcLock i}" using L(2) unfolding L(3) .
  then show ?thesis using L(1) assms(5) by (simp add: gave_up_def)
qed

subsection \<open>exit\<close>

definition wake_proc :: "nat option \<Rightarrow> nat option \<Rightarrow> proc list \<Rightarrow> proc list" where
  "wake_proc q w ps = (case q of None \<Rightarrow> ps | Some k \<Rightarrow> wake_procs (ChanProc k) w ps)"

lemma length_wake_proc [simp]: "length (wake_proc q w ps) = length ps"
  by (simp add: wake_proc_def split: option.split)

lemma wake_one_fields [simp]: "parent (wake_one c p) = parent p" "xstate (wake_one c p) = xstate p"
  by (simp_all add: wake_one_def)

lemma nth_wake_proc:
  assumes "j < length ps"
  shows "parent (wake_proc q w ps ! j) = parent (ps ! j)" "keeps_state (state (ps ! j)) (state (wake_proc q w ps ! j))"
    "w = Some j \<Longrightarrow> wake_proc q w ps ! j = ps ! j"
  using assms by (simp_all add: wake_proc_def split: option.split)

lemma wakeup_proc_ok:
  assumes "holds (locks s) A" "length (procs s) = NPROC" "\<forall>l \<in> A. \<not> is_proc_lock l"
  obtains L where "wakeup_proc q s = Ok (s\<lparr>procs := wake_proc q (cur s) (procs s), locks := L\<rparr>)" "holds L A"
proof (cases q)
  case None
  then show thesis using that [of "locks s"] assms(1) by (simp add: wakeup_proc_def wake_proc_def)
next
  case (Some k)
  have "\<forall>i < NPROC. ProcLock i \<notin> A" using assms(3) by auto
  from wakeup_spec [OF assms(1,2) this, of "ChanProc k"] show thesis
    using that Some by (auto simp: wakeup_proc_def wake_proc_def)
qed

text \<open>The effect of \<open>reparent\<close>: the children of \<open>i\<close> among the slots \<open>js\<close> become children of \<open>q\<close>.\<close>

definition reparented_to :: "nat \<Rightarrow> nat option \<Rightarrow> nat list \<Rightarrow> proc list \<Rightarrow> proc list \<Rightarrow> bool" where
  "reparented_to i q js ps ps' \<longleftrightarrow> length ps' = length ps \<and>
     (\<forall>j < length ps. keeps_state (state (ps ! j)) (state (ps' ! j)) \<and>
        parent (ps' ! j) = (if j \<in> set js \<and> parent (ps ! j) = Some i then q else parent (ps ! j)))"

lemma reparent_loop_ok:
  assumes "holds (locks s) A" "length (procs s) = NPROC" "\<forall>l \<in> A. \<not> is_proc_lock l" "distinct js"
  shows "\<exists>ps L. reparent_loop i js s = Ok (s\<lparr>procs := ps, locks := L\<rparr>) \<and> holds L A \<and>
    reparented_to i (initproc s) js (procs s) ps"
  using assms
proof (induction js arbitrary: s)
  case Nil
  then show ?case by (intro exI [of _ "procs s"] exI [of _ "locks s"]) (simp add: reparented_to_def)
next
  case (Cons j js)
  show ?case
  proof (cases "parent (procs s ! j) = Some i")
    case True
    let ?ps = "(procs s)[j := (procs s ! j)\<lparr>parent := initproc s\<rparr>]"
    let ?qs = "wake_proc (initproc s) (cur s) ?ps"
    obtain L1 where L1: "wakeup_proc (initproc s) (s\<lparr>procs := ?ps\<rparr>) = Ok (s\<lparr>procs := ?qs, locks := L1\<rparr>)" "holds L1 A"
      by (rule wakeup_proc_ok [of "s\<lparr>procs := ?ps\<rparr>" A "initproc s"]) (use Cons.prems in simp_all)
    let ?s = "s\<lparr>procs := ?qs, locks := L1\<rparr>"
    obtain ps L where 2: "reparent_loop i js ?s = Ok (?s\<lparr>procs := ps, locks := L\<rparr>)" "holds L A"
      "reparented_to i (initproc s) js ?qs ps"
      using Cons.IH [of ?s] L1(2) Cons.prems by auto
    have "keeps_state (state (procs s ! k)) (state (ps ! k)) \<and>
        parent (ps ! k) = (if k \<in> set (j # js) \<and> parent (procs s ! k) = Some i then initproc s else parent (procs s ! k))"
      if k: "k < length (procs s)" for k
    proof -
      have "keeps_state (state (?ps ! k)) (state (?qs ! k))" "parent (?qs ! k) = parent (?ps ! k)"
        using nth_wake_proc [of k ?ps] k by simp_all
      then show ?thesis using 2(3) k True Cons.prems(4) by (auto simp: reparented_to_def keeps_state_def nth_upd)
    qed
    moreover have "length ps = length (procs s)" using 2(3) by (simp add: reparented_to_def)
    ultimately have "reparented_to i (initproc s) (j # js) (procs s) ps" unfolding reparented_to_def by blast
    then show ?thesis
      using True L1(1) 2(1,2) by (intro exI [of _ ps] exI [of _ L]) (simp add: upd_proc_def)
  next
    case False
    obtain ps L where 1: "reparent_loop i js s = Ok (s\<lparr>procs := ps, locks := L\<rparr>)" "holds L A"
      "reparented_to i (initproc s) js (procs s) ps"
      using Cons.IH [of s] Cons.prems by auto
    have "reparented_to i (initproc s) (j # js) (procs s) ps" using 1(3) False by (auto simp: reparented_to_def)
    then show ?thesis using False 1(1,2) by (intro exI [of _ ps] exI [of _ L]) simp
  qed
qed

text \<open>Up to \<open>sched\<close>, from a process that holds the locks \<open>A\<close>.\<close>

lemma exit_to_sched:
  assumes "holds (locks s) A" "\<forall>l \<in> A. \<not> is_proc_lock l" "WaitLock \<notin> A" "cur s = Some i" "i < NPROC" "length (procs s) = NPROC"
  obtains ps L where "exit_out st s = sched_out (s\<lparr>procs := ps, locks := L\<rparr>)" "holds L (insert (ProcLock i) A)"
    "length ps = NPROC" "state (ps ! i) = ZOMBIE" "xstate (ps ! i) = st"
    "\<forall>j < NPROC. j \<noteq> i \<longrightarrow> keeps_state (state (procs s ! j)) (state (ps ! j))"
    "\<forall>j < NPROC. parent (ps ! j) = (if parent (procs s ! j) = Some i then initproc s else parent (procs s ! j))"
proof -
  obtain L1 where L1: "myproc s = Ok (cur s, s\<lparr>locks := L1\<rparr>)" "holds L1 A" by (rule myproc_ok [OF assms(1)])
  obtain L2 where L2: "kacquire WaitLock (s\<lparr>locks := L1\<rparr>) = Ok (s\<lparr>locks := L2\<rparr>)" "holds L2 (insert WaitLock A)"
    by (rule kacquire_ok [of "s\<lparr>locks := L1\<rparr>" A WaitLock]) (use L1(2) assms(3) in auto)
  obtain ps1 L3 where 3: "reparent_loop i [0..<NPROC] (s\<lparr>locks := L2\<rparr>) = Ok (s\<lparr>procs := ps1, locks := L3\<rparr>)"
    "holds L3 (insert WaitLock A)" "reparented_to i (initproc s) [0..<NPROC] (procs s) ps1"
    using reparent_loop_ok [of "s\<lparr>locks := L2\<rparr>" "insert WaitLock A" "[0..<NPROC]" i] L2(2) assms(2,6) by auto
  let ?q = "parent (ps1 ! i)" and ?ps2 = "wake_proc (parent (ps1 ! i)) (cur s) ps1"
  have len: "length ps1 = NPROC" using 3(3) assms(6) by (simp add: reparented_to_def)
  obtain L4 where L4: "wakeup_proc ?q (s\<lparr>procs := ps1, locks := L3\<rparr>) = Ok (s\<lparr>procs := ?ps2, locks := L4\<rparr>)"
    "holds L4 (insert WaitLock A)"
    by (rule wakeup_proc_ok [of "s\<lparr>procs := ps1, locks := L3\<rparr>" "insert WaitLock A" ?q]) (use 3(2) len assms(2) in auto)
  obtain L5 where L5: "kacquire (ProcLock i) (s\<lparr>procs := ?ps2, locks := L4\<rparr>) = Ok (s\<lparr>procs := ?ps2, locks := L5\<rparr>)"
    "holds L5 (insert (ProcLock i) (insert WaitLock A))"
    by (rule kacquire_ok [of "s\<lparr>procs := ?ps2, locks := L4\<rparr>" "insert WaitLock A" "ProcLock i"]) (use L4(2) assms(2) in auto)
  let ?ps = "?ps2[i := (?ps2 ! i)\<lparr>xstate := st, state := ZOMBIE\<rparr>]"
  obtain L6 where L6: "krelease WaitLock (s\<lparr>procs := ?ps, locks := L5\<rparr>) = Ok (s\<lparr>procs := ?ps, locks := L6\<rparr>)"
    "holds L6 (insert (ProcLock i) (insert WaitLock A) - {WaitLock})"
    by (rule krelease_ok [of "s\<lparr>procs := ?ps, locks := L5\<rparr>" "insert (ProcLock i) (insert WaitLock A)" WaitLock])
       (use L5(2) in auto)
  have A: "insert (ProcLock i) (insert WaitLock A) - {WaitLock} = insert (ProcLock i) A" using assms(3) by auto
  have "exit_out st s = sched_out (s\<lparr>procs := ?ps, locks := L6\<rparr>)"
    using L1(1) L2(1) 3(1) L4(1) L5(1) L6(1) assms(4) by (simp add: exit_out_def upd_proc_def)
  moreover have "keeps_state (state (procs s ! j)) (state (?ps ! j))" if "j < NPROC" "j \<noteq> i" for j
    using 3(3) nth_wake_proc(2) [of j ps1 ?q "cur s"] that len assms(6) by (auto simp: reparented_to_def keeps_state_def)
  moreover have "parent (?ps ! j) = (if parent (procs s ! j) = Some i then initproc s else parent (procs s ! j))"
    if "j < NPROC" for j
    using 3(3) nth_wake_proc(1) [of j ps1 ?q "cur s"] that len assms(6) by (auto simp: reparented_to_def nth_upd)
  ultimately show thesis using that [where ps = ?ps and L = L6] L6(2) assms(5) len unfolding A by simp
qed

lemma exit_D:
  assumes "exit_out st s = Ok (saved, s')" "holds (locks s) A" "\<forall>l \<in> A. \<not> is_proc_lock l" "cur s = Some i"
    "i < NPROC" "length (procs s) = NPROC"
  shows "gave_up i ZOMBIE s s'"
proof -
  obtain L1 where L1: "myproc s = Ok (cur s, s\<lparr>locks := L1\<rparr>)" "holds L1 A" by (rule myproc_ok [OF assms(2)])
  obtain t where "kacquire WaitLock (s\<lparr>locks := L1\<rparr>) = Ok t"
    using assms(1,4) L1(1) by (auto simp: exit_out_def seq_Ok_iff)
  then have w: "WaitLock \<notin> A" by (rule kacquire_D [where A = A]) (use L1(2) in auto)
  obtain ps L where e: "exit_out st s = sched_out (s\<lparr>procs := ps, locks := L\<rparr>)" "holds L (insert (ProcLock i) A)"
    "length ps = NPROC" "state (ps ! i) = ZOMBIE" "\<forall>j < NPROC. j \<noteq> i \<longrightarrow> keeps_state (state (procs s ! j)) (state (ps ! j))"
    by (rule exit_to_sched [OF assms(2,3) w assms(4-6)])
  have o: "sched_out (s\<lparr>procs := ps, locks := L\<rparr>) = Ok (saved, s')" using assms(1) e(1) by simp
  obtain L2 where "s' = s\<lparr>procs := ps, locks := L\<rparr>\<lparr>locks := L2\<rparr>" "holds L2 (insert (ProcLock i) A)"
    "insert (ProcLock i) A = {ProcLock i}"
    by (rule sched_out_D [OF o, where A = "insert (ProcLock i) A" and i = i]) (use e(2) assms(4) in simp_all)
  then show ?thesis using e(3-5) assms(6) by (simp add: gave_up_def)
qed

subsection \<open>The invariant of the machine\<close>

definition run_inv :: "machine \<Rightarrow> bool" where
  "run_inv m \<longleftrightarrow>
     length (procs (ks m)) = NPROC \<and>
     (case ctl m of
        InScheduler p \<Rightarrow> p \<le> NPROC \<and> cur (ks m) = None \<and> holds (locks (ks m)) {} \<and>
          (\<forall>j < NPROC. state (procs (ks m) ! j) \<noteq> RUNNING)
      | InProcess i \<Rightarrow> i < NPROC \<and> cur (ks m) = Some i \<and>
          (\<exists>A. holds (locks (ks m)) A \<and> (\<forall>l \<in> A. \<not> is_proc_lock l)) \<and>
          (\<forall>j < NPROC. state (procs (ks m) ! j) = RUNNING \<longleftrightarrow> j = i))"

lemma run_inv_scheduler:
  "ctl m = InScheduler p \<Longrightarrow> run_inv m \<longleftrightarrow>
     length (procs (ks m)) = NPROC \<and> p \<le> NPROC \<and> cur (ks m) = None \<and> holds (locks (ks m)) {} \<and>
     (\<forall>j < NPROC. state (procs (ks m) ! j) \<noteq> RUNNING)"
  by (simp add: run_inv_def)

lemma run_inv_process:
  "ctl m = InProcess i \<Longrightarrow> run_inv m \<longleftrightarrow>
     length (procs (ks m)) = NPROC \<and> i < NPROC \<and> cur (ks m) = Some i \<and>
     (\<exists>A. holds (locks (ks m)) A \<and> (\<forall>l \<in> A. \<not> is_proc_lock l)) \<and>
     (\<forall>j < NPROC. state (procs (ks m) ! j) = RUNNING \<longleftrightarrow> j = i)"
  by (simp add: run_inv_def)

lemma run_inv_processD:
  assumes "run_inv m" "ctl m = InProcess i"
  obtains A where "holds (locks (ks m)) A" "\<forall>l \<in> A. \<not> is_proc_lock l" "length (procs (ks m)) = NPROC"
    "i < NPROC" "cur (ks m) = Some i" "\<And>j. j < NPROC \<Longrightarrow> state (procs (ks m) ! j) = RUNNING \<longleftrightarrow> j = i"
  using assms by (auto simp: run_inv_process)

text \<open>One turn of the scheduler's loop.\<close>

lemma scheduler_at_ok:
  assumes "length (procs s) = NPROC" "p \<le> NPROC" "holds (locks s) {}"
  obtains (next_pass) L where "p = NPROC" "scheduler_at p s = Ok (LoopHead 0, s\<lparr>locks := L\<rparr>)" "holds L {}"
  | (skip) L where "p < NPROC" "state (procs s ! p) \<noteq> RUNNABLE" "scheduler_at p s = Ok (LoopHead (p + 1), s\<lparr>locks := L\<rparr>)"
      "holds L {}"
  | (run) L where "p < NPROC" "state (procs s ! p) = RUNNABLE" "scheduler_at p s = Ok (SwitchTo p,
      s\<lparr>procs := (procs s)[p := (procs s ! p)\<lparr>state := RUNNING\<rparr>], cur := Some p, locks := L\<rparr>)" "holds L {ProcLock p}"
proof (cases "p < NPROC")
  case True
  then have p: "p < length (procs s)" using assms(1) by simp
  from assms(3) p show thesis
  proof (cases rule: scheduler_visit_ok)
    case (run L)
    then show thesis using that(3) True by (simp add: scheduler_at_def)
  next
    case (skip L)
    then show thesis using that(2) True by (simp add: scheduler_at_def)
  qed
next
  case False
  have "holds (upd_cpu cpuid (sie_update (\<lambda>_. True)) (locks s)) {}" using assms(3) by (simp add: holds_def cpuid_def)
  then show thesis using that(1) False assms(2) by (simp add: scheduler_at_def intr_on_def)
qed

lemma resume_proc_ok:
  assumes "holds (locks s) {ProcLock i}" "i < length (procs s)"
  obtains ps L where "resume_proc i r s = Ok (s\<lparr>procs := ps, locks := L\<rparr>)" "holds L {}"
    "length ps = length (procs s)" "\<forall>j < length (procs s). state (ps ! j) = state (procs s ! j)"
proof (cases r)
  case FromFork
  obtain L where "krelease (ProcLock i) s = Ok (s\<lparr>locks := L\<rparr>)" "holds L {}"
    using krelease_ok [OF assms(1), of "ProcLock i"] by auto
  then show ?thesis using that [where ps = "procs s" and L = L] FromFork by (simp add: resume_proc_def)
next
  case (FromYield b)
  obtain L where "yield_in i b s = Ok (s\<lparr>locks := L\<rparr>)" "holds L {}" by (rule yield_in_ok [OF assms(1)])
  then show ?thesis using that [where ps = "procs s" and L = L] FromYield by (simp add: resume_proc_def)
next
  case (FromSleep b)
  let ?ps = "(procs s)[i := (procs s ! i)\<lparr>chan := None\<rparr>]"
  have "holds (locks (upd_proc i (chan_update (\<lambda>_. None)) (sched_in b s))) {ProcLock i}"
    using assms(1) by (simp add: sched_in_def cpuid_def holds_intena)
  from krelease_ok [OF this, of "ProcLock i"] obtain L where
    "sleep_wake i b s = Ok (s\<lparr>procs := ?ps, locks := L\<rparr>)" "holds L {}"
    by (auto simp: sleep_wake_def upd_proc_def sched_in_def)
  then show ?thesis
    using that [where ps = ?ps and L = L] FromSleep by (simp add: resume_proc_def nth_upd)
qed

lemma scheduler_resume_ok:
  assumes "holds (locks s) {ProcLock i}"
  obtains L where "scheduler_resume i s = Ok (LoopHead (i + 1), s\<lparr>cur := None, locks := L\<rparr>)" "holds L {}"
proof -
  obtain L where "scheduler_back i s = Ok (s\<lparr>cur := None, locks := L\<rparr>)" "holds L {}"
    by (rule scheduler_back_ok [OF assms])
  then show thesis using that by (simp add: scheduler_resume_def)
qed

lemma to_scheduler:
  assumes "run_inv m" "ctl m = InProcess i" "gave_up i st (ks m) s" "scheduler_resume i s = Ok (LoopHead q, s')"
  shows "q = i + 1" "run_inv (m\<lparr>ks := s', ctl := InScheduler q, conts := k\<rparr>)"
    "j < NPROC \<Longrightarrow> state (procs (ks m) ! j) = RUNNABLE \<Longrightarrow> state (procs s' ! j) = RUNNABLE"
proof -
  have h: "holds (locks s) {ProcLock i}" using assms(3) by (simp add: gave_up_def)
  obtain L where L: "scheduler_resume i s = Ok (LoopHead (i + 1), s\<lparr>cur := None, locks := L\<rparr>)" "holds L {}"
    by (rule scheduler_resume_ok [OF h])
  then have s': "q = i + 1" "s' = s\<lparr>cur := None, locks := L\<rparr>" using assms(4) by simp_all
  show "q = i + 1" by (rule s'(1))
  have I: "length (procs (ks m)) = NPROC" "i < NPROC"
    and run: "\<And>j. j < NPROC \<Longrightarrow> state (procs (ks m) ! j) = RUNNING \<longleftrightarrow> j = i"
    using assms(1,2) by (simp_all add: run_inv_process)
  have len: "length (procs s) = NPROC" using assms(3) I(1) by (simp add: gave_up_def)
  have st: "state (procs s ! i) \<noteq> RUNNING" using assms(3) by (simp add: gave_up_def)
  have k: "keeps_state (state (procs (ks m) ! j)) (state (procs s ! j))" if "j < NPROC" "j \<noteq> i" for j
    using assms(3) I(1) that by (simp add: gave_up_def)
  have "state (procs s ! j) \<noteq> RUNNING" if "j < NPROC" for j
  proof (cases "j = i")
    case False
    then show ?thesis using k [OF that False] run [OF that] by (simp add: keeps_state_def)
  qed (use st in simp)
  then show "run_inv (m\<lparr>ks := s', ctl := InScheduler q, conts := k\<rparr>)"
    using I(2) len L(2) by (simp add: s' run_inv_def)
  show "state (procs s' ! j) = RUNNABLE" if "j < NPROC" "state (procs (ks m) ! j) = RUNNABLE"
  proof -
    have "j \<noteq> i" using run [OF that(1)] that(2) by auto
    then show ?thesis using k [OF that(1)] that(2) by (simp add: s' keeps_state_def)
  qed
qed

lemma quiet_step:
  assumes "run_inv m" "ctl m = InProcess i" "quiet_section (ks m) s"
  shows "run_inv (m\<lparr>ks := s, conts := k\<rparr>)"
    "j < NPROC \<Longrightarrow> state (procs (ks m) ! j) = RUNNABLE \<Longrightarrow> state (procs s ! j) = RUNNABLE"
proof -
  have I: "length (procs (ks m)) = NPROC" "i < NPROC" "cur (ks m) = Some i"
    and run: "\<And>j. j < NPROC \<Longrightarrow> state (procs (ks m) ! j) = RUNNING \<longleftrightarrow> j = i"
    using assms(1,2) by (simp_all add: run_inv_process)
  have k: "keeps_state (state (procs (ks m) ! j)) (state (procs s ! j))" if "j < NPROC" for j
    using assms(3) I(1) that by (simp add: quiet_section_def)
  have "state (procs s ! j) = RUNNING \<longleftrightarrow> j = i" if "j < NPROC" for j
    using k [OF that] run [OF that] by (simp add: keeps_state_def)
  moreover have "length (procs s) = NPROC" "cur s = Some i" "\<exists>A. holds (locks s) A \<and> (\<forall>l \<in> A. \<not> is_proc_lock l)"
    using assms(3) I(1,3) by (simp_all add: quiet_section_def)
  ultimately show "run_inv (m\<lparr>ks := s, conts := k\<rparr>)"
    using assms(2) I(2) by (simp add: run_inv_def)
  show "state (procs s ! j) = RUNNABLE" if "j < NPROC" "state (procs (ks m) ! j) = RUNNABLE"
    using k [OF that(1)] that(2) by (simp add: keeps_state_def)
qed

lemma fork_alloc_quiet:
  assumes "fork_alloc K tf pt copied i j s = Ok s'" "holds (locks s) A" "\<forall>l \<in> A. \<not> is_proc_lock l" "j < length (procs s)"
  shows "quiet_section s s'"
proof -
  obtain t where t: "kacquire (ProcLock j) s = Ok t"
    "(if state (procs t ! j) \<noteq> UNUSED then krelease (ProcLock j) t
      else seq (allocpid t) (\<lambda>(n, s).
        if tf = 0 \<or> pt = 0
        then krelease (ProcLock j) (upd_proc j (\<lambda>q. cleared (q\<lparr>pid := n, state := USED\<rparr>)) s)
        else if \<not> copied then krelease (ProcLock j) (upd_proc j (\<lambda>q. cleared (new_proc K n tf pt q)) s)
        else krelease (ProcLock j) (upd_proc j (\<lambda>q. fork_inherit (procs s ! i) (new_proc K n tf pt q)) s))) = Ok s'"
    using assms(1) by (auto simp: fork_alloc_def seq_Ok_iff)
  obtain L1 where L1: "t = s\<lparr>locks := L1\<rparr>" "holds L1 (insert (ProcLock j) A)" "ProcLock j \<notin> A"
    by (rule kacquire_D [OF t(1) assms(2)])
  have A: "insert (ProcLock j) A - {ProcLock j} = A" using L1(3) by simp
  show ?thesis
  proof (cases "state (procs s ! j) = UNUSED")
    case False
    then have "krelease (ProcLock j) (s\<lparr>locks := L1\<rparr>) = Ok s'" using t(2) L1(1) by simp
    then obtain L where "s' = s\<lparr>locks := L\<rparr>" "holds L A"
      by (rule krelease_D [where A = "insert (ProcLock j) A"]) (use L1(2) A in auto)
    then show ?thesis using assms(3) by (auto simp: quiet_section_def)
  next
    case True
    obtain n u where u: "allocpid (s\<lparr>locks := L1\<rparr>) = Ok (n, u)"
      using t(2) L1(1) True by (cases "allocpid (s\<lparr>locks := L1\<rparr>)") auto
    then obtain v where v: "kacquire PidLock (s\<lparr>locks := L1\<rparr>) = Ok v" "krelease PidLock (v\<lparr>nextpid := nextpid v + 1\<rparr>) = Ok u"
      by (auto simp: allocpid_def seq_Ok_iff Let_def)
    obtain L2 where L2: "v = s\<lparr>locks := L2\<rparr>" "holds L2 (insert PidLock (insert (ProcLock j) A))" "PidLock \<notin> insert (ProcLock j) A"
      by (rule kacquire_D [OF v(1), where A = "insert (ProcLock j) A"]) (use L1(2) in auto)
    obtain L3 where L3: "u = s\<lparr>nextpid := nextpid s + 1, locks := L3\<rparr>" "holds L3 (insert (ProcLock j) A)"
      by (rule krelease_D [OF v(2), where A = "insert PidLock (insert (ProcLock j) A)"]) (use L2 in auto)
    define f where "f = (if tf = 0 \<or> pt = 0 then (\<lambda>q. cleared (q\<lparr>pid := n, state := USED\<rparr>))
      else if \<not> copied then (\<lambda>q. cleared (new_proc K n tf pt q)) else (\<lambda>q. fork_inherit (procs s ! i) (new_proc K n tf pt q)))"
    have "krelease (ProcLock j) (upd_proc j f u) = Ok s'"
      using t(2) u True L1(1) L3(1) by (auto simp: f_def split: if_splits)
    then obtain L where L: "s' = (upd_proc j f u)\<lparr>locks := L\<rparr>" "holds L A"
      by (rule krelease_D [where A = "insert (ProcLock j) A"]) (use L3 A in auto)
    have "keeps_state UNUSED (state (f (procs s ! j)))"
      by (simp add: f_def keeps_state_def cleared_def fork_inherit_def new_proc_def)
    then have "keeps_state (state (procs s ! k)) (state ((procs s)[j := f (procs s ! j)] ! k))" if "k < length (procs s)" for k
      using True that by (auto simp: nth_upd)
    then show ?thesis
      using L(2) assms(3) by (auto simp: L(1) L3(1) quiet_section_def)
  qed
qed

text \<open>
  A step keeps the invariant, and a process that is runnable stays so unless it is the one the
  scheduler runs.
\<close>

lemma sstep_inv:
  assumes "sstep m v m'" "run_inv m"
  shows "run_inv m' \<and> (\<forall>j < NPROC. state (procs (ks m) ! j) = RUNNABLE \<longrightarrow> (j, True) \<notin> set v \<longrightarrow>
    state (procs (ks m') ! j) = RUNNABLE)"
  using assms
proof (induction rule: sstep.induct)
  case (pass m p q s)
  have i: "length (procs (ks m)) = NPROC" "p \<le> NPROC" "holds (locks (ks m)) {}"
    using pass by (simp_all add: run_inv_scheduler)
  from i show ?case
    by (cases rule: scheduler_at_ok) (use pass in \<open>auto simp: run_inv_scheduler\<close>)
next
  case (run m p i s s')
  have i: "length (procs (ks m)) = NPROC" "p \<le> NPROC" "holds (locks (ks m)) {}"
    using run by (simp_all add: run_inv_scheduler)
  from i show ?case
  proof (cases rule: scheduler_at_ok)
    case (run L)
    let ?t = "(ks m)\<lparr>procs := (procs (ks m))[p := (procs (ks m) ! p)\<lparr>state := RUNNING\<rparr>], cur := Some p, locks := L\<rparr>"
    have "Ok (SwitchTo i, s) = Ok (SwitchTo p, ?t)" by (rule trans [OF run.hyps(2) [symmetric] run(3)])
    then have e: "i = p" "s = ?t" by simp_all
    have h: "holds (locks ?t) {ProcLock p}" "p < length (procs ?t)" using run i by simp_all
    obtain ps L' where r: "resume_proc p (conts m p) ?t = Ok (?t\<lparr>procs := ps, locks := L'\<rparr>)" "holds L' {}"
      "length ps = length (procs ?t)" "\<forall>j < length (procs ?t). state (ps ! j) = state (procs ?t ! j)"
      by (rule resume_proc_ok [OF h])
    have s': "s' = ?t\<lparr>procs := ps, locks := L'\<rparr>" using r(1) run.hyps(3) unfolding e by simp
    have st: "state (ps ! j) = (if j = p then RUNNING else state (procs (ks m) ! j))" if "j < NPROC" for j
      using r(4) that i(1) by (auto simp: nth_upd)
    show ?thesis
      using st r(2,3) i(1) run(1) run.prems run.hyps(1) by (auto simp: s' e(1) run_inv_def intro!: exI [of _ "{}"])
  qed (use run.hyps(2) in auto)
next
  case (intr m p d s)
  have i: "length (procs (ks m)) = NPROC" "holds (locks (ks m)) {}" using intr by (simp_all add: run_inv_scheduler)
  obtain ps L where "take_interrupt d (ks m) = Ok ((ks m)\<lparr>procs := ps, locks := L\<rparr>)" "holds L {}" "length ps = NPROC"
    "\<forall>j < NPROC. keeps_state (state (procs (ks m) ! j)) (state (ps ! j))"
    by (rule interrupt_ok [OF i(2,1)])
  then show ?case using intr by (auto simp: run_inv_scheduler keeps_state_def)
next
  case (yield m i saved s q s')
  from yield.prems yield.hyps(1) obtain A where A: "holds (locks (ks m)) A" "\<forall>l \<in> A. \<not> is_proc_lock l"
    "length (procs (ks m)) = NPROC" "i < NPROC" "cur (ks m) = Some i" "state (procs (ks m) ! i) = RUNNING"
    by (rule run_inv_processD) blast
  have "gave_up i RUNNABLE (ks m) s" by (rule yield_D [OF yield.hyps(2) A(1,2,5)]) (use A(3,4) in simp)
  from to_scheduler [OF yield.prems yield.hyps(1) this yield.hyps(3)] show ?case by simp
next
  case (sleep m i l c saved s q s')
  from sleep.prems sleep.hyps(1) obtain A where A: "holds (locks (ks m)) A" "\<forall>l \<in> A. \<not> is_proc_lock l"
    "length (procs (ks m)) = NPROC" "i < NPROC" "cur (ks m) = Some i" "state (procs (ks m) ! i) = RUNNING"
    by (rule run_inv_processD) blast
  have "gave_up i SLEEPING (ks m) s" by (rule sleep_D [OF sleep.hyps(3) A(1,2,5)]) (use A(3,4) in simp)
  from to_scheduler [OF sleep.prems sleep.hyps(1) this sleep.hyps(4)] show ?case by simp
next
  case (exit m i status saved s q s')
  from exit.prems exit.hyps(1) obtain A where A: "holds (locks (ks m)) A" "\<forall>l \<in> A. \<not> is_proc_lock l"
    "length (procs (ks m)) = NPROC" "i < NPROC" "cur (ks m) = Some i" "state (procs (ks m) ! i) = RUNNING"
    by (rule run_inv_processD) blast
  have "gave_up i ZOMBIE (ks m) s" by (rule exit_D [OF exit.hyps(3) A(1,2,5,4,3)])
  note l = exit.prems exit.hyps(1) this exit.hyps(4)
  from to_scheduler(2) [OF l, where k = "conts m"] to_scheduler(3) [OF l] show ?case by simp
next
  case (section_of m i s)
  from section_of.prems section_of.hyps(1) obtain A where A: "holds (locks (ks m)) A" "\<forall>l \<in> A. \<not> is_proc_lock l"
    "length (procs (ks m)) = NPROC"
    by (rule run_inv_processD) blast
  note q = section_quiet [OF section_of.hyps(2) A]
  from quiet_step(1) [OF section_of.prems section_of.hyps(1) q, where k = "conts m"]
    quiet_step(2) [OF section_of.prems section_of.hyps(1) q]
  show ?case by simp
next
  case (forks m i j K tf pt copied s)
  from forks.prems forks.hyps(1) obtain A where A: "holds (locks (ks m)) A" "\<forall>l \<in> A. \<not> is_proc_lock l"
    "length (procs (ks m)) = NPROC"
    by (rule run_inv_processD) blast
  have "quiet_section (ks m) s" by (rule fork_alloc_quiet [OF forks.hyps(3) A(1,2)]) (use forks.hyps(2) A(3) in simp)
  from quiet_step [OF forks.prems forks.hyps(1) this] show ?case by simp
qed

lemma reachable_inv: "reachable m \<Longrightarrow> run_inv m"
proof (induction rule: reachable.induct)
  case (boot m)
  then obtain s where "ctl m = InScheduler NPROC" "ks m = s\<lparr>cur := None\<rparr>"
    unfolding boot_state_def scheduler_enter_def by (metis prod.inject sched_at.inject(1))
  moreover have "state (procs (ks m) ! j) \<noteq> RUNNING" if "j < NPROC" for j
    using boot that by (cases "j = 0") (auto simp: boot_state_def)
  ultimately show ?case using boot by (simp add: boot_state_def run_inv_scheduler)
next
  case (step m v m')
  then show ?case using sstep_inv by blast
qed

subsection \<open>The order of the scheduler\<close>

text \<open>Where the loop stands, and the slots it looks at from there before slot \<open>j\<close>.\<close>

definition loop_pos :: "machine \<Rightarrow> nat" where
  "loop_pos m = (case ctl m of InScheduler p \<Rightarrow> p | InProcess i \<Rightarrow> i + 1)"

definition slots_before :: "nat \<Rightarrow> nat \<Rightarrow> nat list" where
  "slots_before p j = (if p \<le> j then [p..<j] else [p..<NPROC] @ [0..<j])"

lemma slots_before_wrap: "slots_before NPROC j = slots_before 0 j" if "j < NPROC"
  using that by (simp add: slots_before_def)

lemma slots_before_step: "p < NPROC \<Longrightarrow> p \<noteq> j \<Longrightarrow> slots_before p j = p # slots_before (p + 1) j"
  by (auto simp: slots_before_def upt_conv_Cons)

lemma slots_before_self [simp]: "slots_before j j = []"
  by (simp add: slots_before_def)

text \<open>What a step does to that list while process \<open>j\<close> waits.\<close>

lemma sstep_order:
  assumes "sstep m v m'" "run_inv m" "j < NPROC" "state (procs (ks m) ! j) = RUNNABLE"
  shows "(v = [(j, True)] \<and> slots_before (loop_pos m) j = []) \<or>
    (slots_before (loop_pos m) j = map fst v @ slots_before (loop_pos m') j \<and> state (procs (ks m') ! j) = RUNNABLE)"
  using assms
proof (cases rule: sstep.cases)
  case (pass p q s)
  have i: "length (procs (ks m)) = NPROC" "p \<le> NPROC" "holds (locks (ks m)) {}"
    using pass assms(2) by (simp_all add: run_inv_scheduler)
  have keep: "state (procs (ks m') ! j) = RUNNABLE"
    using sstep_inv [OF assms(1,2)] assms(3,4) pass(1) by (auto split: if_splits)
  from i show ?thesis
  proof (cases rule: scheduler_at_ok)
    case (next_pass L)
    then have "q = 0" using pass by simp
    then show ?thesis using next_pass(1) keep pass assms(3) by (simp add: loop_pos_def slots_before_wrap)
  next
    case (skip L)
    have "p \<noteq> j" using skip(2) assms(4) by auto
    moreover have "q = p + 1" using skip pass by simp
    ultimately show ?thesis using skip(1) keep pass by (simp add: loop_pos_def slots_before_step)
  next
    case (run L)
    then show ?thesis using pass by simp
  qed
next
  case (run p i s s')
  have i: "length (procs (ks m)) = NPROC" "p \<le> NPROC" "holds (locks (ks m)) {}"
    using run assms(2) by (simp_all add: run_inv_scheduler)
  from i have e: "i = p" "p < NPROC" by (cases rule: scheduler_at_ok; use run in simp)+
  show ?thesis
  proof (cases "p = j")
    case True
    then show ?thesis using run by (simp add: loop_pos_def)
  next
    case False
    then have "state (procs (ks m') ! j) = RUNNABLE"
      using sstep_inv [OF assms(1,2)] assms(3,4) run(1) by auto
    then show ?thesis using run e False by (simp add: loop_pos_def slots_before_step)
  qed
next
  case (yield i saved s q s')
  from assms(2) yield(3) obtain A where A: "holds (locks (ks m)) A" "\<forall>l \<in> A. \<not> is_proc_lock l"
    "length (procs (ks m)) = NPROC" "i < NPROC" "cur (ks m) = Some i"
    by (rule run_inv_processD) blast
  have "gave_up i RUNNABLE (ks m) s" by (rule yield_D [OF yield(4) A(1,2,5)]) (use A(3,4) in simp)
  from to_scheduler(1,3) [OF assms(2) yield(3) this yield(5)] show ?thesis using yield assms(3,4) by (simp add: loop_pos_def)
next
  case (sleep i l c saved s q s')
  from assms(2) sleep(3) obtain A where A: "holds (locks (ks m)) A" "\<forall>l \<in> A. \<not> is_proc_lock l"
    "length (procs (ks m)) = NPROC" "i < NPROC" "cur (ks m) = Some i"
    by (rule run_inv_processD) blast
  have "gave_up i SLEEPING (ks m) s" by (rule sleep_D [OF sleep(5) A(1,2,5)]) (use A(3,4) in simp)
  from to_scheduler(1,3) [OF assms(2) sleep(3) this sleep(6)] show ?thesis using sleep assms(3,4) by (simp add: loop_pos_def)
next
  case (exit i status saved s q s')
  from assms(2) exit(3) obtain A where A: "holds (locks (ks m)) A" "\<forall>l \<in> A. \<not> is_proc_lock l"
    "length (procs (ks m)) = NPROC" "i < NPROC" "cur (ks m) = Some i"
    by (rule run_inv_processD) blast
  have "gave_up i ZOMBIE (ks m) s" by (rule exit_D [OF exit(5) A(1,2,5,4,3)])
  from to_scheduler(1,3) [OF assms(2) exit(3) this exit(6)] show ?thesis using exit assms(3,4) by (simp add: loop_pos_def)
qed (use sstep_inv [OF assms(1,2)] assms(3,4) in \<open>simp_all add: loop_pos_def\<close>)

lemma srun_inv: "srun m vs m' \<Longrightarrow> run_inv m \<Longrightarrow> run_inv m'"
  by (induction rule: srun.induct) (use sstep_inv in blast)+

lemma srun_order:
  assumes "srun m vs m'" "run_inv m" "j < NPROC" "state (procs (ks m) ! j) = RUNNABLE"
  shows "(\<exists>us ws. vs = us @ (j, True) # ws \<and> map fst us = slots_before (loop_pos m) j) \<or>
    (slots_before (loop_pos m) j = map fst vs @ slots_before (loop_pos m') j \<and> state (procs (ks m') ! j) = RUNNABLE)"
  using assms
proof (induction rule: srun.induct)
  case (more m vs m' v m'')
  have inv: "run_inv m'" by (rule srun_inv [OF more.hyps(1) more.prems(1)])
  from more.IH [OF more.prems] show ?case
  proof
    assume "\<exists>us ws. vs = us @ (j, True) # ws \<and> map fst us = slots_before (loop_pos m) j"
    then show ?thesis by (metis append.assoc append_Cons)
  next
    assume w: "slots_before (loop_pos m) j = map fst vs @ slots_before (loop_pos m') j \<and> state (procs (ks m') ! j) = RUNNABLE"
    then consider "v = [(j, True)]" "slots_before (loop_pos m') j = []"
      | "slots_before (loop_pos m') j = map fst v @ slots_before (loop_pos m'') j" "state (procs (ks m'') ! j) = RUNNABLE"
      using sstep_order [OF more.hyps(2) inv more.prems(2)] by blast
    then show ?thesis
    proof cases
      case 1
      then have "vs @ v = vs @ (j, True) # [] \<and> map fst vs = slots_before (loop_pos m) j" using w by simp
      then show ?thesis by blast
    next
      case 2
      then show ?thesis using w by simp
    qed
  qed
qed simp

text \<open>The scheduler itself never stops.\<close>

lemma scheduler_moves:
  assumes "run_inv m" "ctl m = InScheduler p"
  shows "\<exists>v m'. sstep m v m' \<and> ctl m' \<noteq> ctl m"
proof -
  have i: "length (procs (ks m)) = NPROC" "p \<le> NPROC" "holds (locks (ks m)) {}"
    using assms by (simp_all add: run_inv_scheduler)
  from i show ?thesis
  proof (cases rule: scheduler_at_ok)
    case (next_pass L)
    have "InScheduler 0 \<noteq> InScheduler p" using next_pass(1) by (simp add: NPROC_def)
    then show ?thesis using sstep.pass [OF assms(2) next_pass(2)] assms(2) by force
  next
    case (skip L)
    then show ?thesis using sstep.pass [OF assms(2) skip(3)] assms(2) by force
  next
    case (run L)
    let ?t = "(ks m)\<lparr>procs := (procs (ks m))[p := (procs (ks m) ! p)\<lparr>state := RUNNING\<rparr>], cur := Some p, locks := L\<rparr>"
    have h: "holds (locks ?t) {ProcLock p}" "p < length (procs ?t)" using run i by simp_all
    obtain ps L' where r: "resume_proc p (conts m p) ?t = Ok (?t\<lparr>procs := ps, locks := L'\<rparr>)"
      by (rule resume_proc_ok [OF h])
    then show ?thesis using sstep.run [OF assms(2) run(3) r] assms(2) by force
  qed
qed

text \<open>Every operation that leaves the processor succeeds where its locks allow it.\<close>

lemma leave_ok:
  assumes "holds (locks s) {ProcLock i}"
  obtains s' where "scheduler_resume i s = Ok (LoopHead (i + 1), s')" "holds (locks s') {}" "procs s' = procs s"
  by (rule scheduler_resume_ok [OF assms]) (rule that, assumption, simp_all)

lemma exit_out_ok:
  assumes "holds (locks s) {}" "cur s = Some i" "i < NPROC" "length (procs s) = NPROC"
  obtains saved t where "exit_out st s = Ok (saved, t)" "holds (locks t) {ProcLock i}"
    "state (procs t ! i) = ZOMBIE" "xstate (procs t ! i) = st"
    "\<forall>j < NPROC. parent (procs t ! j) = (if parent (procs s ! j) = Some i then initproc s else parent (procs s ! j))"
proof -
  obtain ps L where e: "exit_out st s = sched_out (s\<lparr>procs := ps, locks := L\<rparr>)" "holds L {ProcLock i}"
    "length ps = NPROC" "state (ps ! i) = ZOMBIE" "xstate (ps ! i) = st"
    "\<forall>j < NPROC. parent (ps ! j) = (if parent (procs s ! j) = Some i then initproc s else parent (procs s ! j))"
    by (rule exit_to_sched [OF assms(1) _ _ assms(2-4)]) simp_all
  let ?s = "s\<lparr>procs := ps, locks := L\<rparr>"
  obtain saved L2 where "sched_out ?s = Ok (saved, ?s\<lparr>locks := L2\<rparr>)" "holds L2 {ProcLock i}"
    by (rule sched_out_ok [of ?s i]) (use e(2,4) assms(2) in simp_all)
  then show thesis using that e by simp
qed

subsection \<open>Boot\<close>

definition proc_zero :: proc where
  "proc_zero = \<lparr>state = UNUSED, chan = None, killed = 0, xstate = 0, pid = 0, parent = None,
     kstack = 0, sz = 0, pagetable = 0, trapframe = 0,
     pcontext = \<lparr>ctx_ra = 0, ctx_sp = 0, ctx_s = replicate 12 0\<rparr>,
     ofile = replicate NOFILE None, cwd = None, pname = replicate 16 0\<rparr>"

definition machine_boot :: machine where
  "machine_boot =
     \<lparr>ks = \<lparr>procs = (replicate NPROC proc_zero)[0 := proc_zero\<lparr>state := RUNNABLE, pid := 1\<rparr>],
            cur = None, initproc = Some 0, nextpid = 2, locks = fst lock_start\<rparr>,
      ctl = InScheduler NPROC, conts = (\<lambda>_. FromFork)\<rparr>"

lemma holds_start: "holds (fst lock_start) {}"
  by (simp add: holds_def lock_start_def)

lemma reachable_boot: "reachable machine_boot"
proof (rule reachable.boot)
  have "scheduler_enter (ks machine_boot) = (LoopHead NPROC, ks machine_boot)"
    by (simp add: scheduler_enter_def machine_boot_def)
  then show "boot_state machine_boot"
    by (auto simp: boot_state_def machine_boot_def holds_start nth_list_update NPROC_def proc_zero_def)
qed

lemma boot_runs_init:
  obtains m where "srun machine_boot [(0, True)] m" "reachable m" "ctl m = InProcess 0" "cur (ks m) = Some 0"
proof -
  have c: "ctl machine_boot = InScheduler NPROC" and r: "state (procs (ks machine_boot) ! 0) = RUNNABLE"
    by (simp_all add: machine_boot_def NPROC_def)
  let ?m1 = "machine_boot\<lparr>ks := intr_on (ks machine_boot), ctl := InScheduler 0\<rparr>"
  have "scheduler_at NPROC (ks machine_boot) = Ok (LoopHead 0, intr_on (ks machine_boot))"
    by (simp add: scheduler_at_def)
  from sstep.pass [OF c this] have 1: "sstep machine_boot [] ?m1" by simp
  have i1: "run_inv ?m1" and re1: "reachable ?m1"
    using sstep_inv [OF 1 reachable_inv [OF reachable_boot]] reachable.step [OF reachable_boot 1] by simp_all
  then have i: "length (procs (ks ?m1)) = NPROC" "(0::nat) \<le> NPROC" "holds (locks (ks ?m1)) {}"
    by (simp_all add: run_inv_scheduler)
  have r1: "state (procs (ks ?m1) ! 0) = RUNNABLE" using r by (simp add: intr_on_def)
  obtain m where m: "sstep ?m1 [(0, True)] m" "ctl m = InProcess 0"
  proof -
    from i show thesis
    proof (cases rule: scheduler_at_ok)
      case (run L)
      let ?t = "(ks ?m1)\<lparr>procs := (procs (ks ?m1))[0 := (procs (ks ?m1) ! 0)\<lparr>state := RUNNING\<rparr>], cur := Some 0, locks := L\<rparr>"
      have h: "holds (locks ?t) {ProcLock 0}" "0 < length (procs ?t)" using run i by simp_all
      obtain ps L' where "resume_proc 0 (conts ?m1 0) ?t = Ok (?t\<lparr>procs := ps, locks := L'\<rparr>)"
        by (rule resume_proc_ok [OF h])
      then show thesis using that [OF sstep.run [OF _ run(3)]] by simp
    qed (use r1 in \<open>simp_all add: NPROC_def\<close>)
  qed
  have "reachable m" by (rule reachable.step [OF re1 m(1)])
  moreover have "cur (ks m) = Some 0" using reachable_inv [OF calculation] m(2) by (simp add: run_inv_process)
  moreover have "srun machine_boot [(0, True)] m" using srun.more [OF srun.more [OF srun.none 1] m(1)] by simp
  ultimately show thesis using that m(2) by blast
qed

subsection \<open>Properties\<close>

text \<open>
  C22: In every reachable state a process is \<open>RUNNING\<close> exactly when it is the hart's current one;
  in the scheduler there is none and no lock is held, and a process holds no process lock when it
  is between two of its critical sections.
\<close>

theorem one_running_process:
  assumes "reachable m"
  shows "(\<forall>j < NPROC. state (procs (ks m) ! j) = RUNNING \<longleftrightarrow> cur (ks m) = Some j) \<and>
         (case ctl m of
            InScheduler p \<Rightarrow> cur (ks m) = None \<and> holds (locks (ks m)) {}
          | InProcess i \<Rightarrow> cur (ks m) = Some i \<and> (\<forall>j. \<not> holding cpuid (ProcLock j) (locks (ks m))))"
proof (cases "ctl m")
  case (InScheduler p)
  then show ?thesis using reachable_inv [OF assms] by (auto simp: run_inv_scheduler)
next
  case (InProcess i)
  from reachable_inv [OF assms] this obtain A where A: "holds (locks (ks m)) A" "\<forall>l \<in> A. \<not> is_proc_lock l"
    "cur (ks m) = Some i" "\<And>j. j < NPROC \<Longrightarrow> state (procs (ks m) ! j) = RUNNING \<longleftrightarrow> j = i"
    by (rule run_inv_processD) blast
  then show ?thesis using InProcess holds_holding [OF A(1)] by (auto simp: cpuid_def)
qed

lemma one_running_process_witness:
  "\<exists>m. reachable m \<and> cur (ks m) = Some 0 \<and>
     (\<forall>j < NPROC. state (procs (ks m) ! j) = RUNNING \<longleftrightarrow> cur (ks m) = Some j)"
proof -
  obtain m where "reachable m" "cur (ks m) = Some 0" by (rule boot_runs_init)
  with one_running_process [of m] show ?thesis by blast
qed

text \<open>
  C23: None of the panics of \<open>sched\<close>, \<open>acquire\<close>, \<open>release\<close> and \<open>pop_off\<close> can happen in a
  process that follows the locking rules: in a reachable state a process that holds no lock can
  \<open>yield\<close> and \<open>exit\<close> (which takes and releases \<open>wait_lock\<close>, the parent's and its own lock), one that
  holds exactly \<open>l\<close> can \<open>sleep\<close> on it, and each hands the processor to the next turn of the
  scheduler's loop with no lock held. The zombie keeps its exit status and leaves no child; the
  sleeper, when it is run again, holds exactly \<open>l\<close>.
\<close>

theorem sched_checks_pass:
  assumes "reachable m" "ctl m = InProcess i"
  shows "(holds (locks (ks m)) {} \<longrightarrow>
           (\<exists>saved s s'. yield_out (ks m) = Ok (saved, s) \<and> scheduler_resume i s = Ok (LoopHead (i + 1), s') \<and>
              holds (locks s') {} \<and> state (procs s' ! i) = RUNNABLE) \<and>
           (\<forall>st. \<exists>saved s s'. exit_out st (ks m) = Ok (saved, s) \<and> scheduler_resume i s = Ok (LoopHead (i + 1), s') \<and>
              holds (locks s') {} \<and> state (procs s' ! i) = ZOMBIE \<and> xstate (procs s' ! i) = st \<and>
              (initproc (ks m) \<noteq> Some i \<longrightarrow> (\<forall>j < NPROC. parent (procs s' ! j) \<noteq> Some i)))) \<and>
         (\<forall>l c. holds (locks (ks m)) {l} \<longrightarrow> \<not> is_proc_lock l \<longrightarrow>
           (\<exists>saved s s'. sleep_out c l (ks m) = Ok (saved, s) \<and> scheduler_resume i s = Ok (LoopHead (i + 1), s') \<and>
              holds (locks s') {} \<and> state (procs s' ! i) = SLEEPING \<and> chan (procs s' ! i) = Some c \<and>
              (\<forall>t. holds (locks t) {ProcLock i} \<longrightarrow>
                 (\<exists>t'. sleep_in i l saved t = Ok t' \<and> holds (locks t') {l}))))"
proof -
  from reachable_inv [OF assms(1)] assms(2) have I: "length (procs (ks m)) = NPROC" "i < NPROC" "cur (ks m) = Some i"
    by (simp_all add: run_inv_process)
  have "\<exists>saved s s'. yield_out (ks m) = Ok (saved, s) \<and> scheduler_resume i s = Ok (LoopHead (i + 1), s') \<and>
      holds (locks s') {} \<and> state (procs s' ! i) = RUNNABLE" if h: "holds (locks (ks m)) {}"
  proof -
    obtain saved L where y: "yield_out (ks m) = Ok (saved, (ks m)\<lparr>procs :=
      (procs (ks m))[i := (procs (ks m) ! i)\<lparr>state := RUNNABLE\<rparr>], locks := L\<rparr>)" "holds L {ProcLock i}"
      by (rule yield_out_ok [OF h I(3)]) (use I in simp_all)
    let ?s = "(ks m)\<lparr>procs := (procs (ks m))[i := (procs (ks m) ! i)\<lparr>state := RUNNABLE\<rparr>], locks := L\<rparr>"
    obtain s' where "scheduler_resume i ?s = Ok (LoopHead (i + 1), s')" "holds (locks s') {}" "procs s' = procs ?s"
      by (rule leave_ok [of ?s i]) (use y(2) in simp)
    then show ?thesis using y(1) I by (intro exI [of _ saved] exI [of _ ?s] exI [of _ s']) simp
  qed
  moreover have "\<exists>saved s s'. exit_out st (ks m) = Ok (saved, s) \<and> scheduler_resume i s = Ok (LoopHead (i + 1), s') \<and>
      holds (locks s') {} \<and> state (procs s' ! i) = ZOMBIE \<and> xstate (procs s' ! i) = st \<and>
      (initproc (ks m) \<noteq> Some i \<longrightarrow> (\<forall>j < NPROC. parent (procs s' ! j) \<noteq> Some i))"
    if h: "holds (locks (ks m)) {}" for st
  proof -
    obtain saved t where e: "exit_out st (ks m) = Ok (saved, t)" "holds (locks t) {ProcLock i}"
      "state (procs t ! i) = ZOMBIE" "xstate (procs t ! i) = st"
      "\<forall>j < NPROC. parent (procs t ! j) = (if parent (procs (ks m) ! j) = Some i then initproc (ks m) else parent (procs (ks m) ! j))"
      by (rule exit_out_ok [OF h I(3,2,1)])
    obtain s' where s': "scheduler_resume i t = Ok (LoopHead (i + 1), s')" "holds (locks s') {}" "procs s' = procs t"
      by (rule leave_ok [OF e(2)])
    then show ?thesis using e by (intro exI [of _ saved] exI [of _ t] exI [of _ s']) auto
  qed
  moreover have "\<exists>saved s s'. sleep_out c l (ks m) = Ok (saved, s) \<and> scheduler_resume i s = Ok (LoopHead (i + 1), s') \<and>
      holds (locks s') {} \<and> state (procs s' ! i) = SLEEPING \<and> chan (procs s' ! i) = Some c \<and>
      (\<forall>t. holds (locks t) {ProcLock i} \<longrightarrow> (\<exists>t'. sleep_in i l saved t = Ok t' \<and> holds (locks t') {l}))"
    if h: "holds (locks (ks m)) {l}" "\<not> is_proc_lock l" for l c
  proof -
    obtain saved L where y: "sleep_out c l (ks m) = Ok (saved, (ks m)\<lparr>procs :=
      (procs (ks m))[i := (procs (ks m) ! i)\<lparr>chan := Some c, state := SLEEPING\<rparr>], locks := L\<rparr>)" "holds L {ProcLock i}"
      by (rule sleep_out_ok [OF h(1) I(3)]) (use I h(2) in simp_all)
    have "\<exists>t'. sleep_in i l saved t = Ok t' \<and> holds (locks t') {l}" if "holds (locks t) {ProcLock i}" for t
      by (rule sleep_in_ok [OF that, of l saved]) (use h(2) in auto)
    moreover let ?s = "(ks m)\<lparr>procs := (procs (ks m))[i := (procs (ks m) ! i)\<lparr>chan := Some c, state := SLEEPING\<rparr>], locks := L\<rparr>"
    obtain s' where "scheduler_resume i ?s = Ok (LoopHead (i + 1), s')" "holds (locks s') {}" "procs s' = procs ?s"
      by (rule leave_ok [of ?s i]) (use y(2) in simp)
    ultimately show ?thesis using y(1) I by (intro exI [of _ saved] exI [of _ ?s] exI [of _ s']) simp
  qed
  ultimately show ?thesis by blast
qed

lemma sched_checks_pass_witness:
  "\<exists>m. reachable m \<and> ctl m = InProcess 0 \<and>
     (holds (locks (ks m)) {} \<longrightarrow>
       (\<exists>saved s s'. yield_out (ks m) = Ok (saved, s) \<and> scheduler_resume 0 s = Ok (LoopHead (0 + 1), s') \<and>
          holds (locks s') {} \<and> state (procs s' ! 0) = RUNNABLE))"
proof -
  obtain m where "reachable m" "ctl m = InProcess 0" by (rule boot_runs_init)
  with sched_checks_pass [of m 0] show ?thesis by blast
qed

text \<open>
  C24: The scheduler is round robin and no runnable process is passed over. Take any run from a
  reachable state in which process \<open>j\<close> is runnable, with interrupts, switches and the operations of
  other processes wherever they can happen. Either the scheduler has run \<open>j\<close>, and what it looked
  at before are the slots from where its loop stood up to \<open>j\<close>, each once and in order (so each other
  process ran at most once); or what it looked at is a beginning of that list, \<open>j\<close> is still
  runnable, and a scheduler that has control can go on to another slot or process.
\<close>

theorem scheduler_round_robin:
  assumes "reachable m" "j < NPROC" "state (procs (ks m) ! j) = RUNNABLE" "srun m vs m'"
  shows "(\<exists>us ws. vs = us @ (j, True) # ws \<and> map fst us = slots_before (loop_pos m) j) \<or>
         (slots_before (loop_pos m) j = map fst vs @ slots_before (loop_pos m') j \<and>
          state (procs (ks m') ! j) = RUNNABLE \<and>
          (\<forall>p. ctl m' = InScheduler p \<longrightarrow> (\<exists>v m''. sstep m' v m'' \<and> ctl m'' \<noteq> ctl m')))"
proof -
  note inv = reachable_inv [OF assms(1)]
  have "\<exists>v m''. sstep m' v m'' \<and> ctl m'' \<noteq> ctl m'" if "ctl m' = InScheduler p" for p
    by (rule scheduler_moves [OF srun_inv [OF assms(4) inv] that])
  then show ?thesis using srun_order [OF assms(4) inv assms(2,3)] by blast
qed

lemma scheduler_round_robin_witness:
  "\<exists>m vs m'. reachable m \<and> state (procs (ks m) ! 0) = RUNNABLE \<and> srun m vs m' \<and>
     (\<exists>us ws. vs = us @ (0, True) # ws \<and> map fst us = slots_before (loop_pos m) 0)"
proof -
  obtain m where m: "srun machine_boot [(0, True)] m" "ctl m = InProcess 0" "reachable m" by (rule boot_runs_init)
  have s: "state (procs (ks machine_boot) ! 0) = RUNNABLE" by (simp add: machine_boot_def NPROC_def)
  have "state (procs (ks m) ! 0) = RUNNING" using reachable_inv [OF m(3)] m(2) by (simp add: run_inv_process)
  moreover have "(0::nat) < NPROC" by (simp add: NPROC_def)
  ultimately have "\<exists>us ws. [(0, True)] = us @ (0, True) # ws \<and> map fst us = slots_before (loop_pos machine_boot) 0"
    using scheduler_round_robin [OF reachable_boot _ s m(1)] by simp
  then show ?thesis using s m(1) reachable_boot by blast
qed

text \<open>
  C30: \<open>wakeup\<close> makes runnable exactly the processes, other than the caller, that sleep on the
  channel, and \<open>kill\<close> marks exactly the first process with the pid, waking it if it sleeps
  (and returns -1 when there is none); both take and drop every process lock and leave the
  hart holding what it held.
\<close>

theorem wakeup_kill_effect:
  assumes "holds (locks s) A" "length (procs s) = NPROC" "\<forall>i < NPROC. ProcLock i \<notin> A"
  shows "(\<exists>L. wakeup c s = Ok (s\<lparr>procs := wake_procs c (cur s) (procs s), locks := L\<rparr>) \<and> holds L A) \<and>
         (\<exists>L. kill n s = Ok (fst (kill_procs n [0..<NPROC] (procs s)),
            s\<lparr>procs := snd (kill_procs n [0..<NPROC] (procs s)), locks := L\<rparr>) \<and> holds L A)"
  using wakeup_spec [OF assms] kill_spec [OF assms] by metis

lemma wakeup_kill_effect_witness:
  "(\<exists>L. wakeup ChanLog (ks machine_boot) = Ok ((ks machine_boot)\<lparr>procs :=
      wake_procs ChanLog (cur (ks machine_boot)) (procs (ks machine_boot)), locks := L\<rparr>) \<and> holds L {}) \<and>
   (\<exists>L. kill 1 (ks machine_boot) = Ok (fst (kill_procs 1 [0..<NPROC] (procs (ks machine_boot))),
      (ks machine_boot)\<lparr>procs := snd (kill_procs 1 [0..<NPROC] (procs (ks machine_boot))), locks := L\<rparr>) \<and>
      holds L {})"
  by (rule wakeup_kill_effect) (simp_all add: machine_boot_def holds_start)

end
