(* ===== verification/Log_Disk.thy ===== *)
theory Log_Disk
  imports Log
begin

text \<open>
  The log on the disk, without the cache: reading back a header block, a sequence of block
  writes as a function on disks, what recovery makes of a disk, and the crash argument for
  the sequence of writes a commit issues.
\<close>

subsection \<open>Words in a block\<close>

lemma length_put32 [simp]: "k + 4 \<le> length d \<Longrightarrow> length (put32 k w d) = length d"
  by (simp add: put32_def)

lemma get32_put32_same [simp]: "k + 4 \<le> length d \<Longrightarrow> get32 (put32 k w d) k = w"
  by (simp add: get32_def put32_def nth_append le32_def)

lemma nth_put32_other:
  "k + 4 \<le> length d \<Longrightarrow> j < k \<or> k + 4 \<le> j \<Longrightarrow> put32 k w d ! j = d ! j"
  by (auto simp: put32_def nth_append min_def)

lemma get32_put32_other [simp]:
  "k + 4 \<le> length d \<Longrightarrow> j + 4 \<le> k \<or> k + 4 \<le> j \<Longrightarrow> get32 (put32 k w d) j = get32 d j"
  by (auto simp: get32_def nth_put32_other)

subsection \<open>Header blocks\<close>

lemma head_to_spec:
  "i + n \<le> LOGSIZE \<Longrightarrow> length d = BSIZE \<Longrightarrow>
   \<exists>d'. head_to i n bl d = Ok d' \<and> length d' = BSIZE \<and>
     (\<forall>k. i \<le> k \<longrightarrow> k < i + n \<longrightarrow> get32 d' (4 + 4 * k) = bl ! k) \<and>
     (\<forall>k < i. get32 d' (4 + 4 * k) = get32 d (4 + 4 * k)) \<and> get32 d' 0 = get32 d 0"
proof (induction n arbitrary: i d)
  case (Suc n)
  let ?d = "put32 (4 + 4 * i) (bl ! i) d"
  have fit: "4 + 4 * i + 4 \<le> length d" using Suc.prems by (simp add: fs_params)
  obtain d' where d': "head_to (Suc i) n bl ?d = Ok d'" "length d' = BSIZE"
    "\<forall>k. Suc i \<le> k \<longrightarrow> k < Suc i + n \<longrightarrow> get32 d' (4 + 4 * k) = bl ! k"
    "\<forall>k < Suc i. get32 d' (4 + 4 * k) = get32 ?d (4 + 4 * k)" "get32 d' 0 = get32 ?d 0"
    using Suc.IH [of "Suc i" ?d] Suc.prems fit by auto
  have "get32 d' (4 + 4 * i) = bl ! i" using d'(4) fit by simp
  moreover have "get32 d' (4 + 4 * k) = get32 d (4 + 4 * k)" if "k < i" for k
    using that d'(4) fit by simp
  moreover have "get32 d' 0 = get32 d 0" using d'(5) fit by simp
  moreover have "get32 d' (4 + 4 * k) = bl ! k" if "i \<le> k" "k < i + Suc n" for k
    using that d'(3) \<open>get32 d' (4 + 4 * i) = bl ! i\<close> by (cases "k = i") auto
  moreover have "head_to i (Suc n) bl d = Ok d'" using d'(1) Suc.prems(1) by simp
  ultimately show ?case using d'(2) by blast
qed simp

lemma head_from_spec:
  "i + n \<le> LOGSIZE \<Longrightarrow> length bl = LOGSIZE \<Longrightarrow>
   \<exists>bl'. head_from i n d bl = Ok bl' \<and> length bl' = LOGSIZE \<and>
     (\<forall>k < i. bl' ! k = bl ! k) \<and> (\<forall>k. i \<le> k \<longrightarrow> k < i + n \<longrightarrow> bl' ! k = get32 d (4 + 4 * k))"
proof (induction n arbitrary: i bl)
  case (Suc n)
  obtain bl' where bl': "head_from (Suc i) n d (bl[i := get32 d (4 + 4 * i)]) = Ok bl'"
    "length bl' = LOGSIZE" "\<forall>k < Suc i. bl' ! k = (bl[i := get32 d (4 + 4 * i)]) ! k"
    "\<forall>k. Suc i \<le> k \<longrightarrow> k < Suc i + n \<longrightarrow> bl' ! k = get32 d (4 + 4 * k)"
    using Suc.IH [of "Suc i" "bl[i := get32 d (4 + 4 * i)]"] Suc.prems by auto
  have "bl' ! i = get32 d (4 + 4 * i)" using bl'(3) Suc.prems by simp
  then have "bl' ! k = get32 d (4 + 4 * k)" if "i \<le> k" "k < i + Suc n" for k
    using that bl'(4) by (cases "k = i") auto
  moreover have "bl' ! k = bl ! k" if "k < i" for k using that bl'(3) by simp
  moreover have "head_from i (Suc n) d bl = Ok bl'" using bl'(1) Suc.prems(1) by simp
  ultimately show ?case using bl'(2) by blast
qed simp

text \<open>\<open>is_head d bl\<close>: the block \<open>d\<close> is a header that lists the blocks \<open>bl\<close>.\<close>

definition is_head :: "u8 list \<Rightarrow> u32 list \<Rightarrow> bool" where
  "is_head d bl \<longleftrightarrow>
     length bl \<le> LOGSIZE \<and> get32 d 0 = of_nat (length bl) \<and>
     (\<forall>k < length bl. get32 d (4 + 4 * k) = bl ! k)"

lemma is_head_Nil: "is_head d [] \<longleftrightarrow> get32 d 0 = 0"
  by (simp add: is_head_def)

lemma sint_of_nat_small: "n < 2 ^ 31 \<Longrightarrow> sint (of_nat n :: u32) = int n"
  by (simp add: signed_of_nat signed_take_bit_int_eq_self)

lemma is_head_count: "is_head d bl \<Longrightarrow> sint (get32 d 0) = int (length bl)"
  by (simp add: is_head_def sint_of_nat_small fs_params)

subsection \<open>Sequences of writes\<close>

type_synonym disk = "u32 \<Rightarrow> u8 list"

definition apply_writes :: "(u32 \<times> u8 list) list \<Rightarrow> disk \<Rightarrow> disk" where
  "apply_writes ws = fold (\<lambda>(b, d) f. f(b := d)) ws"

lemma apply_writes_Nil [simp]: "apply_writes [] d = d"
  by (simp add: apply_writes_def)

lemma apply_writes_Cons [simp]: "apply_writes ((b, x) # ws) d = apply_writes ws (d(b := x))"
  by (simp add: apply_writes_def)

lemma apply_writes_append [simp]: "apply_writes (xs @ ys) d = apply_writes ys (apply_writes xs d)"
  by (simp add: apply_writes_def)

lemma apply_writes_other: "b \<notin> fst ` set ws \<Longrightarrow> apply_writes ws d b = d b"
  by (induction ws arbitrary: d) auto

lemma apply_writes_mem:
  "distinct (map fst ws) \<Longrightarrow> (b, x) \<in> set ws \<Longrightarrow> apply_writes ws d b = x"
proof (induction ws arbitrary: d)
  case (Cons w ws)
  then show ?case by (cases w) (auto simp: apply_writes_other rev_image_eqI)
qed simp

lemma apply_writes_same: "\<forall>(b, x) \<in> set ws. d b = x \<Longrightarrow> apply_writes ws d = d"
  by (induction ws) auto

subsection \<open>The writes of a commit and of a recovery\<close>

text \<open>\<open>log_slot L k\<close> is the disk block of log entry \<open>k\<close>; the area is the header and the
  slots that can be used: a log of \<open>LOGSIZE\<close> blocks has its header and \<open>LOGSIZE - 1\<close> slots.\<close>

definition log_slot :: "u32 \<Rightarrow> nat \<Rightarrow> u32" where
  "log_slot L k = L + of_nat k + 1"

definition log_area :: "u32 \<Rightarrow> u32 set" where
  "log_area L = insert L (log_slot L ` {..<LOGSIZE - 1})"

definition log_writes :: "u32 \<Rightarrow> u32 list \<Rightarrow> disk \<Rightarrow> (u32 \<times> u8 list) list" where
  "log_writes L bl v = map (\<lambda>k. (log_slot L k, v (bl ! k))) [0..<length bl]"

definition home_writes :: "u32 list \<Rightarrow> disk \<Rightarrow> (u32 \<times> u8 list) list" where
  "home_writes bl v = map (\<lambda>b. (b, v b)) bl"

definition commit_writes :: "u32 \<Rightarrow> u32 list \<Rightarrow> disk \<Rightarrow> u8 list \<Rightarrow> u8 list \<Rightarrow> (u32 \<times> u8 list) list" where
  "commit_writes L bl v h h0 = log_writes L bl v @ [(L, h)] @ home_writes bl v @ [(L, h0)]"

text \<open>The home blocks after recovery: those the header lists come from the log.\<close>

definition replay :: "u32 \<Rightarrow> u32 list \<Rightarrow> disk \<Rightarrow> disk" where
  "replay L bl d = apply_writes (map (\<lambda>k. (bl ! k, d (log_slot L k))) [0..<length bl]) d"

definition log_ok :: "u32 \<Rightarrow> u32 list \<Rightarrow> bool" where
  "log_ok L bl \<longleftrightarrow>
     unat L + LOGSIZE < 2 ^ 32 \<and> length bl < LOGSIZE \<and> distinct bl \<and> set bl \<inter> log_area L = {}"

lemma log_slot_inj:
  assumes "unat L + LOGSIZE < 2 ^ 32" "i < LOGSIZE" "j < LOGSIZE"
  shows "log_slot L i = log_slot L j \<longleftrightarrow> i = j" "log_slot L i \<noteq> L"
proof -
  have u: "unat (log_slot L k) = unat L + (k + 1)" if "k < LOGSIZE" for k
  proof -
    have n: "unat (of_nat (k + 1) :: u32) = k + 1"
      using that by (intro unat_of_nat_eq) (simp add: fs_params)
    have "unat (L + of_nat (k + 1)) = unat L + unat (of_nat (k + 1) :: u32)"
    proof (rule unat_add_u32)
      have "unat L + (k + 1) < 2 ^ 32" using that assms(1) by linarith
      then show "unat L + unat (of_nat (k + 1) :: u32) < 2 ^ 32" by (simp only: n)
    qed
    moreover have "log_slot L k = L + of_nat (k + 1)" by (simp add: log_slot_def)
    ultimately show ?thesis unfolding n by (simp only:)
  qed
  have "i = j" if "log_slot L i = log_slot L j"
  proof -
    have "unat L + (i + 1) = unat L + (j + 1)"
      unfolding u [OF assms(2), symmetric] u [OF assms(3), symmetric] that ..
    then show ?thesis by simp
  qed
  then show "log_slot L i = log_slot L j \<longleftrightarrow> i = j" by blast
  show "log_slot L i \<noteq> L"
  proof
    assume "log_slot L i = L"
    then have "unat L = unat L + (i + 1)" using u [OF assms(2)] by (simp only:)
    then show False by simp
  qed
qed

lemma log_slot_bound: "0 < LOGSIZE"
  by (simp add: fs_params)

lemma log_slot_area: "k < LOGSIZE - 1 \<Longrightarrow> log_slot L k \<in> log_area L"
  by (simp add: log_area_def)

lemma slot_in_area: "log_ok L bl \<Longrightarrow> k < length bl \<Longrightarrow> log_slot L k \<in> log_area L"
  unfolding log_ok_def by (rule log_slot_area) linarith

lemma slot_not_home: "log_ok L bl \<Longrightarrow> k < length bl \<Longrightarrow> log_slot L k \<notin> set bl"
  using slot_in_area [of L bl k] by (auto simp: log_ok_def)

lemma replay_home:
  assumes "log_ok L bl" "b \<notin> set bl" shows "replay L bl d b = d b"
  unfolding replay_def using assms by (intro apply_writes_other) (auto simp: set_conv_nth)

lemma replay_logged:
  assumes "log_ok L bl" "k < length bl" shows "replay L bl d (bl ! k) = d (log_slot L k)"
proof -
  have "map fst (map (\<lambda>k. (bl ! k, d (log_slot L k))) [0..<length bl]) = bl"
    by (simp add: comp_def map_nth)
  then show ?thesis
    unfolding replay_def using assms by (intro apply_writes_mem) (auto simp: log_ok_def)
qed

text \<open>A disk whose log holds the committed values replays to them, whatever its home blocks are.\<close>

lemma replay_committed:
  assumes ok: "log_ok L bl" and slots: "\<And>k. k < length bl \<Longrightarrow> d (log_slot L k) = v (bl ! k)"
    and rest: "\<And>b. b \<notin> set bl \<Longrightarrow> b \<notin> log_area L \<Longrightarrow> d b = v b" and b: "b \<notin> log_area L"
  shows "replay L bl d b = v b"
proof (cases "b \<in> set bl")
  case True
  then obtain k where "k < length bl" "b = bl ! k" by (auto simp: set_conv_nth)
  then show ?thesis using replay_logged [OF ok] slots by simp
next
  case False
  then show ?thesis using replay_home [OF ok] rest b by simp
qed

subsection \<open>The crash argument\<close>

text \<open>
  The disk after a crash in the middle of a commit: some prefix of the commit's writes has
  reached it. The header then lists either nothing or exactly \<open>bl\<close>, and replaying it gives
  the old home blocks in the first case and the new ones in the second.
\<close>

lemma crash_cases:
  assumes ok: "log_ok L bl" and h: "is_head h bl" "is_head h0 []" and d0: "is_head (d0 L) []"
    and old: "\<And>b. b \<notin> set bl \<Longrightarrow> b \<notin> log_area L \<Longrightarrow> d0 b = v b"
    and ws: "commit_writes L bl v h h0 = ws @ rest"
  defines "d \<equiv> apply_writes ws d0"
  shows "(is_head (d L) [] \<and> (\<forall>b. b \<notin> log_area L \<longrightarrow> d b = d0 b)) \<or>
         (is_head (d L) bl \<and> (\<forall>b. b \<notin> log_area L \<longrightarrow> replay L bl d b = v b)) \<or>
         (is_head (d L) [] \<and> (\<forall>b. b \<notin> log_area L \<longrightarrow> d b = v b))"
proof -
  have len: "length bl < LOGSIZE" and wrap: "unat L + LOGSIZE < 2 ^ 32" and dist: "distinct bl"
    and apart: "set bl \<inter> log_area L = {}"
    using ok by (auto simp: log_ok_def)
  have slots_area: "fst ` set (log_writes L bl v) \<subseteq> log_area L - {L}"
    using len log_slot_inj(2) [OF wrap _ log_slot_bound] by (auto simp: log_writes_def slot_in_area [OF ok])
  have homes: "fst ` set (home_writes bl v) = set bl" by (auto simp: home_writes_def image_image)
  have LA: "L \<in> log_area L" by (simp add: log_area_def)
  have dl: "distinct (map fst (log_writes L bl v))"
    using len log_slot_inj(1) [OF wrap]
    by (auto simp: log_writes_def comp_def distinct_map inj_on_def)
  define d1 where "d1 = apply_writes (log_writes L bl v) d0"
  have d1: "d1 (log_slot L k) = v (bl ! k)" if "k < length bl" for k
    unfolding d1_def using that by (intro apply_writes_mem [OF dl]) (auto simp: log_writes_def)
  have d1': "d1 b = d0 b" if "b \<notin> log_area L \<or> b = L" for b
    unfolding d1_def using that slots_area by (intro apply_writes_other) blast
  consider (slots) xs where "log_writes L bl v = ws @ xs"
    | (head) ys where "ws = log_writes L bl v @ (L, h) # ys" "home_writes bl v @ [(L, h0)] = ys @ rest"
  proof -
    obtain us where us: "log_writes L bl v = ws @ us \<or>
        log_writes L bl v @ us = ws \<and> [(L, h)] @ home_writes bl v @ [(L, h0)] = us @ rest"
      using ws unfolding commit_writes_def append_eq_append_conv2 by blast
    show ?thesis
    proof (cases "log_writes L bl v = ws @ us")
      case True
      then show ?thesis by (rule that(1))
    next
      case False
      then have u: "ws = log_writes L bl v @ us" "[(L, h)] @ home_writes bl v @ [(L, h0)] = us @ rest"
        using us by auto
      show ?thesis
      proof (cases us)
        case Nil
        then show ?thesis using u(1) that(1) [of "[]"] by simp
      next
        case (Cons w ys)
        then show ?thesis using u that(2) [of ys] by auto
      qed
    qed
  qed
  then show ?thesis
  proof cases
    case slots
    then have sub: "fst ` set ws \<subseteq> log_area L - {L}" using slots_area by auto
    have "d L = d0 L" unfolding d_def using sub by (intro apply_writes_other) blast
    moreover have "d b = d0 b" if "b \<notin> log_area L" for b
      unfolding d_def using sub that by (intro apply_writes_other) blast
    ultimately show ?thesis using d0 by simp
  next
    case head
    have d_eq: "d = apply_writes ys (d1(L := h))" unfolding d_def head(1) by (simp add: d1_def)
    consider (inst) zs where "home_writes bl v = ys @ zs" | (erased) "ys = home_writes bl v @ [(L, h0)]"
    proof -
      obtain us where us: "home_writes bl v = ys @ us \<or>
          home_writes bl v @ us = ys \<and> [(L, h0)] = us @ rest"
        using head(2) unfolding append_eq_append_conv2 by blast
      show ?thesis using that us by (cases us) auto
    qed
    then show ?thesis
    proof cases
      case inst
      then have ysub: "fst ` set ys \<subseteq> set bl" using homes by auto
      have dL: "d L = h" unfolding d_eq using ysub apart LA by (subst apply_writes_other) auto
      have keep: "d b = (d1(L := h)) b" if "b \<notin> set bl" for b
        unfolding d_eq using that ysub by (intro apply_writes_other) blast
      have "replay L bl d b = v b" if "b \<notin> log_area L" for b
      proof (rule replay_committed [OF ok _ _ that])
        show "d (log_slot L k) = v (bl ! k)" if "k < length bl" for k
        proof -
          have "log_slot L k \<in> log_area L" "log_slot L k \<noteq> L"
            using that len slot_in_area [OF ok] log_slot_inj(2) [OF wrap, of k 0] log_slot_bound by auto
          then show ?thesis using keep [of "log_slot L k"] d1 [OF that] apart by auto
        qed
        show "d c = v c" if "c \<notin> set bl" "c \<notin> log_area L" for c
          using that keep [of c] d1' [of c] old LA by auto
      qed
      then show ?thesis using dL h(1) by simp
    next
      case erased
      have dL: "d L = h0" unfolding d_eq erased by simp
      have "d b = v b" if b: "b \<notin> log_area L" for b
      proof -
        have "b \<noteq> L" using b LA by auto
        then have e: "d b = apply_writes (home_writes bl v) (d1(L := h)) b" unfolding d_eq erased by simp
        show ?thesis
        proof (cases "b \<in> set bl")
          case True
          have "distinct (map fst (home_writes bl v))" using dist by (simp add: home_writes_def comp_def)
          then show ?thesis
            unfolding e using True by (intro apply_writes_mem) (auto simp: home_writes_def)
        next
          case False
          then show ?thesis
            unfolding e using homes \<open>b \<noteq> L\<close> d1' [of b] b old by (subst apply_writes_other) auto
        qed
      qed
      then show ?thesis using dL h(2) by simp
    qed
  qed
qed

end
