(* ===== verification/Log_Commit.thy ===== *)
theory Log_Commit
  imports Bio_Cache Log_Disk
begin

text \<open>
  \<open>commit\<close> and \<open>recover_from_log\<close> as sequences of disk writes: the code, run through the
  buffer cache, issues exactly \<open>commit_writes\<close> (theory Log_Disk), never runs out of
  buffers, and leaves the view of every block but the log's unchanged.
\<close>

subsection \<open>What block operations leave alone\<close>

definition same_procs :: "sched_state \<Rightarrow> sched_state \<Rightarrow> bool" where
  "same_procs a b \<longleftrightarrow>
     b = a\<lparr>procs := procs b\<rparr> \<and> length (procs b) = length (procs a) \<and>
     (\<forall>i < length (procs a). (procs b ! i)\<lparr>state := UNUSED\<rparr> = (procs a ! i)\<lparr>state := UNUSED\<rparr>)"

definition keeps :: "kst \<Rightarrow> kst \<Rightarrow> bool" where
  "keeps s s' \<longleftrightarrow>
     lg s' = lg s \<and> sb s' = sb s \<and> itab s' = itab s \<and> ftab s' = ftab s \<and> ph s' = ph s \<and>
     pipes s' = pipes s \<and> ticks s' = ticks s \<and> same_procs (sch s) (sch s')"

lemma same_procs_refl [simp]: "same_procs a a"
  by (simp add: same_procs_def)

lemma same_procs_trans: "same_procs a b \<Longrightarrow> same_procs b c \<Longrightarrow> same_procs a c"
  unfolding same_procs_def by (metis sched_state.surjective sched_state.update_convs(1))

lemma keeps_refl [simp]: "keeps s s"
  by (simp add: keeps_def)

lemma keeps_trans: "keeps s s' \<Longrightarrow> keeps s' s'' \<Longrightarrow> keeps s s''"
  unfolding keeps_def using same_procs_trans by auto

lemma same_procs_wake: "same_procs (sch s) (sch (kwakeup c s))"
  by (auto simp: same_procs_def kwakeup_def set_procs_def wake_one_def)

lemma keeps_running: "keeps s s' \<Longrightarrow> running s \<Longrightarrow> running s'"
  unfolding keeps_def same_procs_def running_def
  by (metis sched_state.select_convs(2) sched_state.surjective sched_state.update_convs(1))

lemma got_keeps:
  assumes "got s H P b i s'"
  shows "keeps s s'" "dsk s' = dsk s" "dtrace s' = dtrace s" "sch s' = sch s"
proof -
  have "s' = s\<lparr>bufs := bufs s'\<rparr>" using assms by (simp add: got_def)
  then have eqs: "lg s' = lg s" "sb s' = sb s" "itab s' = itab s" "ftab s' = ftab s" "ph s' = ph s"
    "pipes s' = pipes s" "ticks s' = ticks s" "sch s' = sch s" "dsk s' = dsk s" "dtrace s' = dtrace s"
    by (metis kst.select_convs kst.surjective kst.update_convs(3))+
  then show "keeps s s'" "dsk s' = dsk s" "dtrace s' = dtrace s" "sch s' = sch s"
    by (simp_all add: keeps_def)
qed

lemma frame_sel:
  assumes "s' = s\<lparr>bufs := x, lru := y, sch := z\<rparr>"
  shows "lg s' = lg s" "sb s' = sb s" "itab s' = itab s" "ftab s' = ftab s" "ph s' = ph s"
    "pipes s' = pipes s" "ticks s' = ticks s" "sch s' = z" "dsk s' = dsk s" "dtrace s' = dtrace s"
  using assms by simp_all

subsection \<open>Pinned blocks\<close>

definition pins :: "kst \<Rightarrow> u32 list \<Rightarrow> (nat \<Rightarrow> nat) \<Rightarrow> bool" where
  "pins s bl P \<longleftrightarrow>
     (\<forall>i < NBUF. P i = (if \<exists>b \<in> set bl. cached s b i then 1 else 0)) \<and> (\<forall>b \<in> set bl. \<exists>i. cached s b i)"

lemma pins_cong: "cached s' = cached s \<Longrightarrow> pins s' bl P = pins s bl P"
  by (simp add: pins_def)

lemma cached_less: "cached s b i \<Longrightarrow> i < NBUF"
  by (simp add: cached_def)

lemma cached_block: "cached s b i \<Longrightarrow> cached s c i \<Longrightarrow> b = c"
  by (simp add: cached_def)

lemma pins_pinned: "pins s bl P \<Longrightarrow> b \<in> set bl \<Longrightarrow> cached s b i \<Longrightarrow> P i = 1"
  using cached_less unfolding pins_def by auto

lemma pins_unpinned: "pins s bl P \<Longrightarrow> b \<notin> set bl \<Longrightarrow> cached s b i \<Longrightarrow> P i = 0"
  using cached_less cached_block unfolding pins_def by metis

lemma pins_free:
  assumes "binv s H P" "pins s bl P" "length bl + card H < NBUF"
  shows "\<exists>i < NBUF. P i = 0 \<and> i \<notin> H"
proof (rule ccontr)
  assume "\<not> ?thesis"
  then have all: "i \<in> {i. i < NBUF \<and> P i \<noteq> 0} \<union> H" if "i < NBUF" for i using that by auto
  let ?g = "\<lambda>b. THE i. cached s b i"
  have "{i. i < NBUF \<and> P i \<noteq> 0} \<subseteq> ?g ` set bl"
  proof
    fix i assume "i \<in> {i. i < NBUF \<and> P i \<noteq> 0}"
    then obtain b where b: "b \<in> set bl" "cached s b i"
      using assms(2) unfolding pins_def by (auto split: if_splits)
    then have "?g b = i" using binvD(6) [OF assms(1)] by (intro the_equality) auto
    then show "i \<in> ?g ` set bl" using b by blast
  qed
  then have "card {i. i < NBUF \<and> P i \<noteq> 0} \<le> length bl"
    by (meson List.finite_set card_image_le card_length card_mono finite_imageI le_trans)
  moreover have "NBUF \<le> card ({i. i < NBUF \<and> P i \<noteq> 0} \<union> H)"
  proof -
    have "finite H" using binvD(4) [OF assms(1)] finite_subset by blast
    then have "card {..<NBUF} \<le> card ({i. i < NBUF \<and> P i \<noteq> 0} \<union> H)"
      using all by (intro card_mono) auto
    then show ?thesis by simp
  qed
  moreover have "card ({i. i < NBUF \<and> P i \<noteq> 0} \<union> H) \<le> card {i. i < NBUF \<and> P i \<noteq> 0} + card H"
    by (rule card_Un_le)
  ultimately show False using assms(3) by linarith
qed

lemma got_cached_other: "got s H P b i s' \<Longrightarrow> j \<noteq> i \<Longrightarrow> cached s' c j = cached s c j"
  by (simp add: got_def cached_def)

lemma got_pins:
  assumes inv: "binv s H P" and g: "got s H P b i s'" and p: "pins s bl P"
  shows "pins s' bl P"
proof -
  note D = binvD [OF inv]
  have inv': "binv s' (insert i H) P" and c: "cached s' b i" and d: "cached s b i \<or> P i = 0"
    using g by (auto simp: got_def)
  have iff: "(\<exists>c \<in> set bl. cached s' c j) \<longleftrightarrow> (\<exists>c \<in> set bl. cached s c j)" if "j < NBUF" for j
  proof (cases "j = i")
    case True
    show ?thesis
    proof (cases "cached s b i")
      case True
      then show ?thesis using \<open>j = i\<close> c cached_block by metis
    next
      case False
      then have "P i = 0" using d by simp
      then have no: "\<not> (\<exists>c \<in> set bl. cached s c i)"
        using p that \<open>j = i\<close> unfolding pins_def by (metis zero_neq_one)
      have "b \<notin> set bl"
      proof
        assume "b \<in> set bl"
        then obtain k where k: "cached s b k" using p by (auto simp: pins_def)
        then have "k \<noteq> i" using False by auto
        then have "cached s' b k" using got_cached_other [OF g] k by simp
        then show False using binvD(6) [OF inv'] c \<open>k \<noteq> i\<close> by blast
      qed
      then show ?thesis using no c cached_block \<open>j = i\<close> by metis
    qed
  qed (simp add: got_cached_other [OF g])
  have "\<exists>k. cached s' c k" if cc: "c \<in> set bl" for c
  proof -
    obtain k where k: "cached s c k" using p cc by (auto simp: pins_def)
    show ?thesis
    proof (cases "k = i")
      case True
      have "P i = 1" using pins_pinned [OF p cc k] True by simp
      then have "cached s b i" using d by simp
      then have "b = c" using k True cached_block by metis
      then show ?thesis using c by blast
    next
      case False
      then show ?thesis using got_cached_other [OF g] k by blast
    qed
  qed
  then show ?thesis using p iff unfolding pins_def by simp
qed

lemma unpinned_clean:
  assumes "binv s {} P" "pins s bl P" "b \<notin> set bl"
  shows "view s b = dsk s b"
proof (cases "\<exists>i. cached s b i")
  case True
  then obtain i where "cached s b i" by blast
  then show ?thesis
    using view_cached [OF assms(1)] binvD(12) [OF assms(1)] pins_unpinned [OF assms(2,3)] by force
qed (simp add: view_uncached)

text \<open>Two different blocks read one after the other.\<close>

lemma two_breads:
  assumes inv: "binv s {} P" and p: "pins s bl P" and ne: "b1 \<noteq> b2"
    and few: "length bl < NBUF" "b2 \<in> set bl \<or> length bl + 1 < NBUF"
  obtains i1 s1 i2 s2 where "bread ROOTDEV b1 s = Ok (i1, s1)" "bread ROOTDEV b2 s1 = Ok (i2, s2)"
    "binv s2 {i1, i2} P" "pins s2 bl P" "i1 \<noteq> i2" "cached s2 b1 i1" "cached s2 b2 i2"
    "view s2 = view s" "keeps s s2" "sch s2 = sch s" "dsk s2 = dsk s" "dtrace s2 = dtrace s"
    "keeps s s1"
proof -
  have r1: "room s {} P b1" unfolding room_def using pins_free [OF inv p] few(1) by simp
  obtain i1 s1 where 1: "bread ROOTDEV b1 s = Ok (i1, s1)" "got s {} P b1 i1 s1"
    by (rule bread_ok [OF inv r1]) auto
  have inv1: "binv s1 {i1} P" and c1: "cached s1 b1 i1" and v1: "view s1 = view s"
    using 1(2) by (auto simp: got_def)
  have p1: "pins s1 bl P" by (rule got_pins [OF inv 1(2) p])
  have r2: "room s1 {i1} P b2"
    using few(2) p1 pins_free [OF inv1 p1] unfolding room_def pins_def by auto
  have n2: "i \<notin> {i1}" if "cached s1 b2 i" for i using that c1 ne cached_block by auto
  obtain i2 s2 where 2: "bread ROOTDEV b2 s1 = Ok (i2, s2)" "got s1 {i1} P b2 i2 s2"
    by (rule bread_ok [OF inv1 r2 n2])
  have i12: "i1 \<noteq> i2" using 2(2) by (auto simp: got_def)
  have k: "keeps s s1" "keeps s1 s2" using got_keeps 1(2) 2(2) by blast+
  show ?thesis
  proof (rule that [OF 1(1) 2(1)])
    show "binv s2 {i1, i2} P" using 2(2) by (simp add: got_def insert_commute)
    show "pins s2 bl P" by (rule got_pins [OF inv1 2(2) p1])
    show "cached s2 b1 i1" using got_cached_other [OF 2(2) i12] c1 by simp
    show "cached s2 b2 i2" "view s2 = view s" using 2(2) v1 by (auto simp: got_def)
    show "keeps s s2" by (rule keeps_trans [OF k])
    show "sch s2 = sch s" "dsk s2 = dsk s" "dtrace s2 = dtrace s"
      using got_keeps(2-4) [OF 1(2)] got_keeps(2-4) [OF 2(2)] by simp_all
  qed (use i12 k in auto)
qed

subsection \<open>Iterations of the copy loops\<close>

lemma keeps_set_data [simp]: "keeps s (set_data i d s)"
  by (simp add: keeps_def set_data_def upd_buf_def)

lemma keeps_disk_write [simp]: "keeps s (disk_write b d s)"
  by (simp add: keeps_def disk_write_def)

lemma keeps_bunpin [simp]: "keeps s (bunpin i s)"
  by (simp add: keeps_def bunpin_def upd_buf_def)

lemma disk_write_sel [simp]:
  "bufs (disk_write b d s) = bufs s" "dsk (disk_write b d s) = (dsk s)(b := d)"
  "dtrace (disk_write b d s) = (b, d) # dtrace s"
  by (simp_all add: disk_write_def)

lemma keeps_release:
  assumes "s' = s\<lparr>bufs := x, lru := y, sch := sch (kwakeup c s)\<rparr>"
  shows "keeps s s'" "dsk s' = dsk s" "dtrace s' = dtrace s"
  using frame_sel [OF assms] same_procs_wake by (simp_all add: keeps_def)

text \<open>Releasing two buffers that agree with the disk or are pinned.\<close>

lemma two_brelses:
  assumes inv: "binv s {i, j} P" and run: "running s" and ij: "i \<noteq> j"
    and ci: "P i = 0 \<Longrightarrow> view s (bblockno (bufs s ! i)) = dsk s (bblockno (bufs s ! i))"
    and cj: "P j = 0 \<Longrightarrow> view s (bblockno (bufs s ! j)) = dsk s (bblockno (bufs s ! j))"
  obtains s1 s2 where "brelse i s = Ok s1" "brelse j s1 = Ok s2" "binv s2 {} P"
    "view s2 = view s" "cached s2 = cached s" "keeps s s2" "dsk s2 = dsk s" "dtrace s2 = dtrace s"
proof -
  obtain s1 where 1: "brelse i s = Ok s1" "binv s1 ({i, j} - {i}) P" "view s1 = view s"
    "cached s1 = cached s" "s1 = s\<lparr>bufs := bufs s1, lru := lru s1, sch := sch (kwakeup (ChanBuf i) s)\<rparr>"
    "\<And>k. k \<noteq> i \<Longrightarrow> bufs s1 ! k = bufs s ! k"
    by (rule brelse_ok [OF inv run _ ci]) auto
  note k1 = keeps_release [OF 1(5)]
  have "{i, j} - {i} = {j}" using ij by auto
  then have inv1: "binv s1 {j} P" using 1(2) by simp
  obtain s2 where 2: "brelse j s1 = Ok s2" "binv s2 ({j} - {j}) P" "view s2 = view s1"
    "cached s2 = cached s1" "s2 = s1\<lparr>bufs := bufs s2, lru := lru s2, sch := sch (kwakeup (ChanBuf j) s1)\<rparr>"
    "\<And>k. k \<noteq> j \<Longrightarrow> bufs s2 ! k = bufs s1 ! k"
    by (rule brelse_ok [OF inv1 keeps_running [OF k1(1) run]])
       (use cj 1(3) 1(6) ij k1(2) in auto)
  note k2 = keeps_release [OF 2(5)]
  show ?thesis
    by (rule that [OF 1(1) 2(1)]) (use 1 2 k1 k2 keeps_trans in auto)
qed

definition log_ready :: "kst \<Rightarrow> u32 \<Rightarrow> u32 list \<Rightarrow> bool" where
  "log_ready s L bl \<longleftrightarrow>
     running s \<and> ldev (lg s) = ROOTDEV \<and> lstart (lg s) = L \<and> length (lh_block (lg s)) = LOGSIZE \<and>
     take (length bl) (lh_block (lg s)) = bl \<and> log_ok L bl \<and> length bl < NBUF"

lemma log_ready_keeps: "log_ready s L bl \<Longrightarrow> keeps s s' \<Longrightarrow> log_ready s' L bl"
  unfolding log_ready_def using keeps_running by (auto simp: keeps_def)

lemma log_ready_dev: "log_ready s L bl \<Longrightarrow> ldev (lg s) = ROOTDEV" "log_ready s L bl \<Longrightarrow> lstart (lg s) = L"
  by (simp_all add: log_ready_def)

lemma log_ready_block:
  "log_ready s L bl \<Longrightarrow> k < length bl \<Longrightarrow> log_block k s = Ok (bl ! k)"
  by (auto simp: log_ready_def log_block_def log_ok_def)
     (metis linorder_not_less nth_take order.trans)

lemma slot_ne_home:
  "log_ok L bl \<Longrightarrow> k < length bl \<Longrightarrow> j < length bl \<Longrightarrow> log_slot L k \<noteq> bl ! j"
  using slot_not_home [of L bl k] nth_mem [of j bl] by auto

lemma write_log_step:
  assumes inv: "binv s {} P" and p: "pins s bl P" and rdy: "log_ready s L bl" and k: "k < length bl"
  shows "\<exists>s'. (\<forall>n. write_log_from k (Suc n) s = write_log_from (Suc k) n s') \<and> binv s' {} P \<and> pins s' bl P \<and>
    keeps s s' \<and> dsk s' = (dsk s)(log_slot L k := view s (bl ! k)) \<and>
    dtrace s' = (log_slot L k, view s (bl ! k)) # dtrace s \<and>
    view s' = (view s)(log_slot L k := view s (bl ! k))"
proof -
  have ok: "log_ok L bl" and few: "length bl < NBUF" using rdy by (simp_all add: log_ready_def)
  have kl: "k < LOGSIZE" using ok k by (simp add: log_ok_def)
  let ?b = "log_slot L k" and ?v = "view s (bl ! k)"
  obtain i1 s1 i2 s2 where r: "bread ROOTDEV ?b s = Ok (i1, s1)" "bread ROOTDEV (bl ! k) s1 = Ok (i2, s2)"
    "binv s2 {i1, i2} P" "pins s2 bl P" "i1 \<noteq> i2" "cached s2 ?b i1" "cached s2 (bl ! k) i2"
    "view s2 = view s" "keeps s s2" "sch s2 = sch s" "dsk s2 = dsk s" "dtrace s2 = dtrace s" "keeps s s1"
    by (rule two_breads [OF inv p slot_ne_home [OF ok k k] few]) (use k in auto)
  have rdy1: "log_ready s1 L bl" by (rule log_ready_keeps [OF rdy r(13)])
  have d2: "buf_data i2 s2 = ?v" using view_cached [OF r(3,7)] r(8) by (simp add: buf_data_def)
  have len: "length ?v = BSIZE" by (rule length_view [OF inv])
  have bn: "bblockno (bufs s2 ! i1) = ?b" "bblockno (bufs s2 ! i2) = bl ! k"
    using r(6,7) by (simp_all add: cached_def)
  let ?s3 = "set_data i1 ?v s2"
  note sd = set_data_ok [OF r(3) _ len, of i1]
  have inv3: "binv ?s3 {i1, i2} P" using sd(1) by simp
  have v3: "view ?s3 = (view s)(?b := ?v)" using sd(2) bn r(8) by simp
  have c3: "cached ?s3 = cached s2" using sd(3) by simp
  have bn3: "bblockno (bufs ?s3 ! i1) = ?b" "bblockno (bufs ?s3 ! i2) = bl ! k"
    using r(6,7) c3 by (metis cached_def)+
  let ?s4 = "disk_write ?b ?v ?s3"
  have w: "bwrite i1 ?s3 = Ok ?s4" "binv ?s4 {i1, i2} P" "view ?s4 = view ?s3" "cached ?s4 = cached ?s3"
    using bwrite_ok [OF inv3, of i1] v3 bn3 by simp_all
  have k4: "keeps s ?s4" using r(9) keeps_trans keeps_set_data keeps_disk_write by blast
  have pin2: "P i2 = 1" using pins_pinned [OF r(4) _ r(7)] k by simp
  have run: "running s" using rdy by (simp add: log_ready_def)
  have inv4: "binv ?s4 {i2, i1} P" using w(2) by (simp add: insert_commute)
  obtain s5 s6 where e: "brelse i2 ?s4 = Ok s5" "brelse i1 s5 = Ok s6" "binv s6 {} P" "view s6 = view ?s4"
    "cached s6 = cached ?s4" "keeps ?s4 s6" "dsk s6 = dsk ?s4" "dtrace s6 = dtrace ?s4"
  proof (rule two_brelses [OF inv4 keeps_running [OF k4 run]])
    show "i2 \<noteq> i1" using r(5) by simp
    show "view ?s4 (bblockno (bufs ?s4 ! i2)) = dsk ?s4 (bblockno (bufs ?s4 ! i2))" if "P i2 = 0"
      using that pin2 by simp
    show "view ?s4 (bblockno (bufs ?s4 ! i1)) = dsk ?s4 (bblockno (bufs ?s4 ! i1))" if "P i1 = 0"
      unfolding disk_write_sel bn3 w(3) v3 by simp
  qed
  have "bread (ldev (lg s)) (lstart (lg s) + of_nat k + 1) s = Ok (i1, s1)"
    using r(1) log_ready_dev [OF rdy] by (simp only: log_slot_def)
  moreover have "bread (ldev (lg s1)) (bl ! k) s1 = Ok (i2, s2)"
    using r(2) log_ready_dev [OF rdy1] by (simp only:)
  ultimately have "write_log_from k (Suc n) s = write_log_from (Suc k) n s6" for n
    by (simp only: write_log_from.simps seq.simps prod.case Let_def d2 w(1) e(1,2)
        log_ready_block [OF rdy1 k])
  moreover have "cached s6 = cached s2" using e(5) w(4) c3 by (simp only:)
  then have "pins s6 bl P" using r(4) pins_cong by blast
  moreover have "keeps s s6" by (rule keeps_trans [OF k4 e(6)])
  moreover have "dsk s6 = (dsk s)(?b := ?v)" "dtrace s6 = (?b, ?v) # dtrace s"
    "view s6 = (view s)(?b := ?v)"
    using e(4,7,8) w(3) v3 r(11,12) by simp_all
  ultimately show ?thesis using e(3) by blast
qed

lemma write_log_spec:
  assumes "binv s {} P" "pins s bl P" "log_ready s L bl" "k + n = length bl"
  shows "\<exists>s'. write_log_from k n s = Ok s' \<and> binv s' {} P \<and> pins s' bl P \<and> keeps s s' \<and>
    (let ws = map (\<lambda>j. (log_slot L j, view s (bl ! j))) [k..<length bl]
     in dsk s' = apply_writes ws (dsk s) \<and> dtrace s' = rev ws @ dtrace s \<and>
        view s' = apply_writes ws (view s))"
  using assms
proof (induction n arbitrary: k s)
  case (Suc n)
  have k: "k < length bl" using Suc.prems by simp
  obtain s1 where 1: "\<forall>n. write_log_from k (Suc n) s = write_log_from (Suc k) n s1" "binv s1 {} P"
    "pins s1 bl P" "keeps s s1" "dsk s1 = (dsk s)(log_slot L k := view s (bl ! k))"
    "dtrace s1 = (log_slot L k, view s (bl ! k)) # dtrace s"
    "view s1 = (view s)(log_slot L k := view s (bl ! k))"
    using write_log_step [OF Suc.prems(1-3) k] by blast
  have eq: "Suc k + n = length bl" using Suc.prems(4) by simp
  obtain s2 where 2: "write_log_from (Suc k) n s1 = Ok s2" "binv s2 {} P" "pins s2 bl P" "keeps s1 s2"
    "let ws = map (\<lambda>j. (log_slot L j, view s1 (bl ! j))) [Suc k..<length bl]
     in dsk s2 = apply_writes ws (dsk s1) \<and> dtrace s2 = rev ws @ dtrace s1 \<and>
        view s2 = apply_writes ws (view s1)"
    using Suc.IH [OF 1(2,3) log_ready_keeps [OF Suc.prems(3) 1(4)] eq] by blast
  have ok: "log_ok L bl" using Suc.prems(3) by (simp add: log_ready_def)
  have same: "view s1 (bl ! j) = view s (bl ! j)" if "j < length bl" for j
    using 1(7) slot_ne_home [OF ok k that] by simp
  have ws: "map (\<lambda>j. (log_slot L j, view s1 (bl ! j))) [Suc k..<length bl] =
      map (\<lambda>j. (log_slot L j, view s (bl ! j))) [Suc k..<length bl]"
    using same by simp
  have up: "[k..<length bl] = k # [Suc k..<length bl]" using k by (simp add: upt_conv_Cons)
  show ?case
    using 1 2 keeps_trans [OF 1(4) 2(4)] unfolding ws up by (intro exI [of _ s2]) (simp add: Let_def)
qed (simp add: Let_def)

lemma pins_drop:
  assumes inv: "binv s H P" and p: "pins s (b # bs) P" and b: "b \<notin> set bs" "cached s b i"
  shows "pins s bs (P(i := 0))"
  unfolding pins_def
proof (intro conjI allI impI ballI)
  fix j assume j: "j < NBUF"
  show "(P(i := 0)) j = (if \<exists>c \<in> set bs. cached s c j then 1 else 0)"
  proof (cases "j = i")
    case True
    then show ?thesis using b cached_block by auto
  next
    case False
    then have "\<not> cached s b j" using binvD(6) [OF inv] b(2) by blast
    then show ?thesis using p j False unfolding pins_def by simp
  qed
qed (use p in \<open>auto simp: pins_def\<close>)

definition still_pinned :: "bool \<Rightarrow> nat \<Rightarrow> u32 list \<Rightarrow> u32 list" where
  "still_pinned recovering k bl = (if recovering then [] else drop k bl)"

lemma install_step:
  assumes inv: "binv s {} P" and p: "pins s (still_pinned recovering k bl) P"
    and rdy: "log_ready s L bl" and k: "k < length bl"
  shows "\<exists>s' P'. (\<forall>n. install_from recovering k (Suc n) s = install_from recovering (Suc k) n s') \<and>
    binv s' {} P' \<and> pins s' (still_pinned recovering (Suc k) bl) P' \<and> keeps s s' \<and>
    dsk s' = (dsk s)(bl ! k := view s (log_slot L k)) \<and>
    dtrace s' = (bl ! k, view s (log_slot L k)) # dtrace s \<and>
    view s' = (view s)(bl ! k := view s (log_slot L k))"
proof -
  have ok: "log_ok L bl" and few: "length bl < NBUF" using rdy by (simp_all add: log_ready_def)
  have kl: "k < LOGSIZE" using ok k by (simp add: log_ok_def)
  let ?b = "bl ! k" and ?v = "view s (log_slot L k)" and ?pl = "still_pinned recovering k bl"
  have pl: "length ?pl < NBUF" "?b \<in> set ?pl \<or> length ?pl + 1 < NBUF"
    using few k by (auto simp: still_pinned_def NBUF_def Cons_nth_drop_Suc [symmetric])
  have slot: "log_slot L k \<notin> set ?pl"
    using slot_not_home [OF ok k] by (auto simp: still_pinned_def dest: in_set_dropD)
  obtain i1 s1 i2 s2 where r: "bread ROOTDEV (log_slot L k) s = Ok (i1, s1)"
    "bread ROOTDEV ?b s1 = Ok (i2, s2)"
    "binv s2 {i1, i2} P" "pins s2 ?pl P" "i1 \<noteq> i2" "cached s2 (log_slot L k) i1" "cached s2 ?b i2"
    "view s2 = view s" "keeps s s2" "sch s2 = sch s" "dsk s2 = dsk s" "dtrace s2 = dtrace s" "keeps s s1"
    by (rule two_breads [OF inv p slot_ne_home [OF ok k k] pl])
  have rdy1: "log_ready s1 L bl" by (rule log_ready_keeps [OF rdy r(13)])
  have d1: "buf_data i1 s2 = ?v" using view_cached [OF r(3,6)] r(8) by (simp add: buf_data_def)
  have len: "length ?v = BSIZE" by (rule length_view [OF inv])
  have bn: "bblockno (bufs s2 ! i2) = ?b" using r(7) by (simp add: cached_def)
  let ?s3 = "set_data i2 ?v s2"
  note sd = set_data_ok [OF r(3) _ len, of i2]
  have inv3: "binv ?s3 {i1, i2} P" using sd(1) by simp
  have v3: "view ?s3 = (view s)(?b := ?v)" using sd(2) bn r(8) by simp
  have c3: "cached ?s3 = cached s2" using sd(3) by simp
  have bn3: "bblockno (bufs ?s3 ! i1) = log_slot L k" "bblockno (bufs ?s3 ! i2) = ?b"
    using r(6,7) c3 by (metis cached_def)+
  let ?s4 = "disk_write ?b ?v ?s3"
  have w: "bwrite i2 ?s3 = Ok ?s4" "binv ?s4 {i1, i2} P" "view ?s4 = view ?s3" "cached ?s4 = cached ?s3"
    using bwrite_ok [OF inv3, of i2] v3 bn3 by simp_all
  define s5 where "s5 = (if \<not> recovering then bunpin i2 ?s4 else ?s4)"
  define P' where "P' = (if \<not> recovering then P(i2 := 0) else P)"
  have c4: "cached ?s4 = cached s2" using w(4) c3 by (simp only:)
  have p4: "pins ?s4 ?pl P" using r(4) pins_cong [OF c4] by simp
  have "binv s5 {i1, i2} P' \<and> view s5 = view ?s4 \<and> cached s5 = cached ?s4 \<and>
      pins s5 (still_pinned recovering (Suc k) bl) P'"
  proof (cases recovering)
    case True
    then show ?thesis using w(2) p4 by (simp add: s5_def P'_def still_pinned_def)
  next
    case False
    have "P i2 = 1" by (rule pins_pinned [OF r(4) _ r(7)]) (use False k in \<open>simp add: still_pinned_def Cons_nth_drop_Suc [symmetric]\<close>)
    then have u: "binv s5 {i1, i2} P'" "view s5 = view ?s4" "cached s5 = cached ?s4"
      using bunpin_ok [OF w(2), of i2] False by (simp_all add: s5_def P'_def)
    have pl': "?pl = ?b # drop (Suc k) bl" using False k by (simp add: still_pinned_def Cons_nth_drop_Suc)
    have "distinct (drop k bl)" using ok by (simp add: log_ok_def)
    then have b: "?b \<notin> set (drop (Suc k) bl)" using k by (simp add: Cons_nth_drop_Suc [symmetric])
    have ci: "cached ?s4 ?b i2" using c4 r(7) by simp
    have "pins ?s4 (drop (Suc k) bl) (P(i2 := 0))"
      by (rule pins_drop [OF w(2) p4 [unfolded pl'] b ci])
    then have "pins s5 (still_pinned recovering (Suc k) bl) P'"
      using pins_cong [OF u(3)] False by (simp add: still_pinned_def P'_def)
    then show ?thesis using u by blast
  qed
  then have 5: "binv s5 {i1, i2} P'" "view s5 = view ?s4" "cached s5 = cached ?s4"
    "pins s5 (still_pinned recovering (Suc k) bl) P'"
    by blast+
  have same5: "dsk s5 = dsk ?s4" "dtrace s5 = dtrace ?s4"
    by (simp_all add: s5_def bunpin_def)
  have k4: "keeps s ?s4" using r(9) keeps_trans keeps_set_data keeps_disk_write by blast
  then have "keeps s (bunpin i2 ?s4)" using keeps_trans keeps_bunpin by blast
  with k4 have k5: "keeps s s5" by (simp add: s5_def)
  have bn5: "bblockno (bufs s5 ! i1) = log_slot L k" "bblockno (bufs s5 ! i2) = ?b"
    using r(6,7) 5(3) c4 by (metis cached_def)+
  have clean: "view s (log_slot L k) = dsk s (log_slot L k)" by (rule unpinned_clean [OF inv p slot])
  have ne: "log_slot L k \<noteq> ?b" by (rule slot_ne_home [OF ok k k])
  have run: "running s" using rdy by (simp add: log_ready_def)
  obtain s6 s7 where e: "brelse i1 s5 = Ok s6" "brelse i2 s6 = Ok s7" "binv s7 {} P'" "view s7 = view s5"
    "cached s7 = cached s5" "keeps s5 s7" "dsk s7 = dsk s5" "dtrace s7 = dtrace s5"
  proof (rule two_brelses [OF 5(1) keeps_running [OF k5 run] r(5)])
    show "view s5 (bblockno (bufs s5 ! i1)) = dsk s5 (bblockno (bufs s5 ! i1))" if "P' i1 = 0"
      unfolding bn5 5(2) w(3) v3 same5 disk_write_sel using ne clean r(11) by simp
    show "view s5 (bblockno (bufs s5 ! i2)) = dsk s5 (bblockno (bufs s5 ! i2))" if "P' i2 = 0"
      unfolding bn5 5(2) w(3) v3 same5 disk_write_sel by simp
  qed
  have "bread (ldev (lg s)) (lstart (lg s) + of_nat k + 1) s = Ok (i1, s1)"
    using r(1) log_ready_dev [OF rdy] by (simp only: log_slot_def)
  moreover have "bread (ldev (lg s1)) ?b s1 = Ok (i2, s2)"
    using r(2) log_ready_dev [OF rdy1] by (simp only:)
  ultimately have "install_from recovering k (Suc n) s = install_from recovering (Suc k) n s7" for n
    by (simp only: install_from.simps seq.simps prod.case Let_def d1 w(1) e(1,2)
        log_ready_block [OF rdy1 k] s5_def [symmetric])
  moreover have "pins s7 (still_pinned recovering (Suc k) bl) P'" using 5(4) pins_cong [OF e(5)] by simp
  moreover have "keeps s s7" by (rule keeps_trans [OF k5 e(6)])
  moreover have "dsk s7 = (dsk s)(?b := ?v)" "dtrace s7 = (?b, ?v) # dtrace s"
    "view s7 = (view s)(?b := ?v)"
    using e(4,7,8) same5 5(2) w(3) v3 r(11,12) by simp_all
  ultimately show ?thesis using e(3) by blast
qed

lemma install_spec:
  assumes "binv s {} P" "pins s (still_pinned recovering k bl) P" "log_ready s L bl" "k + n = length bl"
  shows "\<exists>s' P'. install_from recovering k n s = Ok s' \<and> binv s' {} P' \<and> pins s' [] P' \<and> keeps s s' \<and>
    (let ws = map (\<lambda>j. (bl ! j, view s (log_slot L j))) [k..<length bl]
     in dsk s' = apply_writes ws (dsk s) \<and> dtrace s' = rev ws @ dtrace s \<and>
        view s' = apply_writes ws (view s))"
  using assms
proof (induction n arbitrary: k s P)
  case 0
  then have "pins s [] P" by (auto simp: still_pinned_def split: if_splits)
  then show ?case using 0 by (intro exI [of _ s] exI [of _ P]) (simp add: Let_def)
next
  case (Suc n)
  have k: "k < length bl" using Suc.prems by simp
  obtain s1 P1 where 1: "\<forall>n. install_from recovering k (Suc n) s = install_from recovering (Suc k) n s1"
    "binv s1 {} P1" "pins s1 (still_pinned recovering (Suc k) bl) P1" "keeps s s1"
    "dsk s1 = (dsk s)(bl ! k := view s (log_slot L k))"
    "dtrace s1 = (bl ! k, view s (log_slot L k)) # dtrace s"
    "view s1 = (view s)(bl ! k := view s (log_slot L k))"
    using install_step [OF Suc.prems(1-3) k] by blast
  have eq: "Suc k + n = length bl" using Suc.prems(4) by simp
  obtain s2 P2 where 2: "install_from recovering (Suc k) n s1 = Ok s2" "binv s2 {} P2" "pins s2 [] P2"
    "keeps s1 s2"
    "let ws = map (\<lambda>j. (bl ! j, view s1 (log_slot L j))) [Suc k..<length bl]
     in dsk s2 = apply_writes ws (dsk s1) \<and> dtrace s2 = rev ws @ dtrace s1 \<and>
        view s2 = apply_writes ws (view s1)"
    using Suc.IH [OF 1(2,3) log_ready_keeps [OF Suc.prems(3) 1(4)] eq] by blast
  have ok: "log_ok L bl" using Suc.prems(3) by (simp add: log_ready_def)
  have same: "view s1 (log_slot L j) = view s (log_slot L j)" if "j < length bl" for j
    using 1(7) slot_ne_home [OF ok that k] by simp
  have ws: "map (\<lambda>j. (bl ! j, view s1 (log_slot L j))) [Suc k..<length bl] =
      map (\<lambda>j. (bl ! j, view s (log_slot L j))) [Suc k..<length bl]"
    using same by simp
  have up: "[k..<length bl] = k # [Suc k..<length bl]" using k by (simp add: upt_conv_Cons)
  show ?case
    using 1 2 keeps_trans [OF 1(4) 2(4)] unfolding ws up
    by (intro exI [of _ s2] exI [of _ P2]) (simp add: Let_def)
qed

subsection \<open>The header\<close>

text \<open>One block read, changed, written and released.\<close>

lemma one_bread:
  assumes inv: "binv s {} P" and p: "pins s pl P" and few: "length pl < NBUF"
  obtains i s1 where "bread ROOTDEV b s = Ok (i, s1)" "binv s1 {i} P" "pins s1 pl P" "cached s1 b i"
    "buf_data i s1 = view s b" "view s1 = view s" "keeps s s1" "dsk s1 = dsk s" "dtrace s1 = dtrace s"
proof -
  have r: "room s {} P b" unfolding room_def using pins_free [OF inv p] few by simp
  obtain i s1 where 1: "bread ROOTDEV b s = Ok (i, s1)" "got s {} P b i s1"
    by (rule bread_ok [OF inv r]) auto
  show ?thesis
    by (rule that [OF 1(1)])
       (use 1(2) got_pins [OF inv 1(2) p] got_keeps [OF 1(2)] in \<open>auto simp: got_def buf_data_def\<close>)
qed

lemma one_brelse:
  assumes inv: "binv s {i} P" and run: "running s"
    and clean: "P i = 0 \<Longrightarrow> view s (bblockno (bufs s ! i)) = dsk s (bblockno (bufs s ! i))"
  obtains s' where "brelse i s = Ok s'" "binv s' {} P" "view s' = view s" "cached s' = cached s"
    "keeps s s'" "dsk s' = dsk s" "dtrace s' = dtrace s"
proof -
  obtain s1 where 1: "brelse i s = Ok s1" "binv s1 ({i} - {i}) P" "view s1 = view s"
    "cached s1 = cached s" "s1 = s\<lparr>bufs := bufs s1, lru := lru s1, sch := sch (kwakeup (ChanBuf i) s)\<rparr>"
    "\<And>k. k \<noteq> i \<Longrightarrow> bufs s1 ! k = bufs s ! k"
    by (rule brelse_ok [OF inv run _ clean]) auto
  then show ?thesis using that keeps_release [OF 1(5)] by simp
qed

lemma write_head_spec:
  assumes inv: "binv s {} P" and p: "pins s pl P" and few: "length pl < NBUF" and run: "running s"
    and dev: "ldev (lg s) = ROOTDEV" "lstart (lg s) = L"
    and n: "lh_n (lg s) = int (length bl)" "length bl \<le> LOGSIZE" "take (length bl) (lh_block (lg s)) = bl"
  shows "\<exists>s' h. write_head s = Ok s' \<and> binv s' {} P \<and> pins s' pl P \<and> keeps s s' \<and> is_head h bl \<and>
    dsk s' = (dsk s)(L := h) \<and> dtrace s' = (L, h) # dtrace s \<and> view s' = (view s)(L := h)"
proof -
  obtain i s1 where 1: "bread ROOTDEV L s = Ok (i, s1)" "binv s1 {i} P" "pins s1 pl P" "cached s1 L i"
    "buf_data i s1 = view s L" "view s1 = view s" "keeps s s1" "dsk s1 = dsk s" "dtrace s1 = dtrace s"
    by (rule one_bread [OF inv p few])
  have lg1: "lg s1 = lg s" using 1(7) by (simp add: keeps_def)
  let ?d = "put32 0 (of_nat (length bl)) (view s L)"
  have lend: "length (view s L) = BSIZE" by (rule length_view [OF inv])
  then have "length ?d = BSIZE" by (simp add: fs_params)
  then obtain h where h: "head_to 0 (length bl) (lh_block (lg s)) ?d = Ok h" "length h = BSIZE"
    "\<forall>k. k < length bl \<longrightarrow> get32 h (4 + 4 * k) = lh_block (lg s) ! k" "get32 h 0 = get32 ?d 0"
    using head_to_spec [of 0 "length bl" ?d "lh_block (lg s)"] n(2) by auto
  have "get32 h (4 + 4 * k) = bl ! k" if "k < length bl" for k
    using that h(3) n(3) by (metis nth_take)
  moreover have "get32 h 0 = of_nat (length bl)" using h(4) lend by (simp add: fs_params)
  ultimately have ish: "is_head h bl" using n(2) by (simp add: is_head_def)
  let ?s2 = "set_data i h s1"
  note sd = set_data_ok [OF 1(2) _ h(2), of i]
  have bn: "bblockno (bufs s1 ! i) = L" using 1(4) by (simp add: cached_def)
  have inv2: "binv ?s2 {i} P" and v2: "view ?s2 = (view s)(L := h)" and c2: "cached ?s2 = cached s1"
    using sd bn 1(6) by simp_all
  have bn2: "bblockno (bufs ?s2 ! i) = L" using 1(4) c2 by (metis cached_def)
  let ?s3 = "disk_write L h ?s2"
  have w: "bwrite i ?s2 = Ok ?s3" "binv ?s3 {i} P" "view ?s3 = view ?s2" "cached ?s3 = cached ?s2"
    using bwrite_ok [OF inv2, of i] v2 bn2 by simp_all
  have k3: "keeps s ?s3" using 1(7) keeps_trans keeps_set_data keeps_disk_write by blast
  obtain s4 where e: "brelse i ?s3 = Ok s4" "binv s4 {} P" "view s4 = view ?s3" "cached s4 = cached ?s3"
    "keeps ?s3 s4" "dsk s4 = dsk ?s3" "dtrace s4 = dtrace ?s3"
  proof (rule one_brelse [OF w(2) keeps_running [OF k3 run]])
    show "view ?s3 (bblockno (bufs ?s3 ! i)) = dsk ?s3 (bblockno (bufs ?s3 ! i))"
      unfolding disk_write_sel bn2 w(3) v2 by simp
  qed
  have "write_head s = Ok s4"
    unfolding write_head_def dev 1(1) seq.simps prod.case Let_def lg1 n(1) nat_int 1(5)
    using h(1) w(1) e(1) by simp
  moreover have "cached s4 = cached s1" using e(4) w(4) c2 by (simp only:)
  then have "pins s4 pl P" using 1(3) pins_cong by blast
  moreover have "keeps s s4" by (rule keeps_trans [OF k3 e(5)])
  moreover have "dsk s4 = (dsk s)(L := h)" "dtrace s4 = (L, h) # dtrace s" "view s4 = (view s)(L := h)"
    using e(3,6,7) w(3) v2 1(8,9) by simp_all
  ultimately show ?thesis using e(2) ish by blast
qed

lemma binv_upd_log [simp]: "binv (upd_log f s) H P = binv s H P"
proof -
  have "mypid (upd_log f s) = mypid s" by (rule mypid_sch) (simp add: upd_log_def)
  then show ?thesis unfolding binv_def cached_def by (simp add: upd_log_def)
qed

lemma upd_log_sel [simp]:
  "bufs (upd_log f s) = bufs s" "dsk (upd_log f s) = dsk s" "dtrace (upd_log f s) = dtrace s"
  "lg (upd_log f s) = f (lg s)" "sch (upd_log f s) = sch s" "sb (upd_log f s) = sb s"
  "itab (upd_log f s) = itab s" "ftab (upd_log f s) = ftab s" "ph (upd_log f s) = ph s"
  "pipes (upd_log f s) = pipes s" "ticks (upd_log f s) = ticks s" "lru (upd_log f s) = lru s"
  by (simp_all add: upd_log_def)

lemma view_upd_log [simp]: "view (upd_log f s) = view s"
  by (rule view_cong) simp_all

lemma pins_upd_log [simp]: "pins (upd_log f s) bl P = pins s bl P"
  by (rule pins_cong) (rule cached_cong, simp)

lemma running_upd_log [simp]: "running (upd_log f s) = running s"
  by (simp add: running_def)

text \<open>What \<open>keeps\<close> says, but for the log's own fields.\<close>

definition keeps_but_log :: "kst \<Rightarrow> kst \<Rightarrow> bool" where
  "keeps_but_log s s' \<longleftrightarrow> keeps (upd_log (\<lambda>_. lg s') s) s'"

lemma keeps_but_log_simp:
  "keeps_but_log s s' \<longleftrightarrow> sb s' = sb s \<and> itab s' = itab s \<and> ftab s' = ftab s \<and> ph s' = ph s \<and>
     pipes s' = pipes s \<and> ticks s' = ticks s \<and> same_procs (sch s) (sch s')"
  by (simp add: keeps_but_log_def keeps_def)

lemma keeps_but_log_trans: "keeps_but_log s s' \<Longrightarrow> keeps_but_log s' s'' \<Longrightarrow> keeps_but_log s s''"
  unfolding keeps_but_log_simp using same_procs_trans by auto

lemma keeps_weaken: "keeps s s' \<Longrightarrow> keeps_but_log s s'"
  by (simp add: keeps_but_log_simp keeps_def)

lemma keeps_but_log_upd [simp]: "keeps_but_log s (upd_log f s)"
  by (simp add: keeps_but_log_simp)

lemma read_head_spec:
  assumes inv: "binv s {} P" and p: "pins s [] P" and run: "running s"
    and dev: "ldev (lg s) = ROOTDEV" "lstart (lg s) = L" and len: "length (lh_block (lg s)) = LOGSIZE"
    and h: "is_head (view s L) bl"
  shows "\<exists>s' hb. read_head s = Ok s' \<and> binv s' {} P \<and> pins s' [] P \<and> keeps_but_log s s' \<and>
    lg s' = (lg s)\<lparr>lh_n := int (length bl), lh_block := hb\<rparr> \<and> length hb = LOGSIZE \<and>
    take (length bl) hb = bl \<and> dsk s' = dsk s \<and> dtrace s' = dtrace s \<and> view s' = view s"
proof -
  obtain i s1 where 1: "bread ROOTDEV L s = Ok (i, s1)" "binv s1 {i} P" "pins s1 [] P" "cached s1 L i"
    "buf_data i s1 = view s L" "view s1 = view s" "keeps s s1" "dsk s1 = dsk s" "dtrace s1 = dtrace s"
    by (rule one_bread [OF inv p]) (simp add: NBUF_def)
  have lg1: "lg s1 = lg s" using 1(7) by (simp add: keeps_def)
  have n: "sint (get32 (view s L) 0) = int (length bl)" by (rule is_head_count [OF h])
  obtain hb where hb: "head_from 0 (length bl) (view s L) (lh_block (lg s)) = Ok hb" "length hb = LOGSIZE"
    "\<forall>k. k < length bl \<longrightarrow> hb ! k = get32 (view s L) (4 + 4 * k)"
    using head_from_spec [of 0 "length bl" "lh_block (lg s)" "view s L"] len h
    by (auto simp: is_head_def)
  have tk: "take (length bl) hb = bl"
    using hb(2,3) h by (intro nth_equalityI) (auto simp: is_head_def)
  let ?s2 = "upd_log (\<lambda>l. l\<lparr>lh_n := int (length bl), lh_block := hb\<rparr>) s1"
  have bn: "bblockno (bufs s1 ! i) = L" using 1(4) by (simp add: cached_def)
  have run1: "running ?s2" using keeps_running [OF 1(7) run] by simp
  have inv2: "binv ?s2 {i} P" using 1(2) by simp
  obtain s3 where e: "brelse i ?s2 = Ok s3" "binv s3 {} P" "view s3 = view ?s2" "cached s3 = cached ?s2"
    "keeps ?s2 s3" "dsk s3 = dsk ?s2" "dtrace s3 = dtrace ?s2"
  proof (rule one_brelse [OF inv2 run1])
    show "view ?s2 (bblockno (bufs ?s2 ! i)) = dsk ?s2 (bblockno (bufs ?s2 ! i))"
      using unpinned_clean [OF inv p, of L] 1(6,8) bn by simp
  qed
  have "read_head s = Ok s3"
    unfolding read_head_def dev 1(1) seq.simps prod.case Let_def 1(5) n nat_int lg1 hb(1) e(1) ..
  moreover have "cached s3 = cached s1" using e(4) cached_cong [of ?s2 s1] by simp
  then have "pins s3 [] P" using 1(3) pins_cong by blast
  moreover have "keeps_but_log s s3"
    by (rule keeps_but_log_trans [OF keeps_but_log_trans [OF keeps_weaken [OF 1(7)] keeps_but_log_upd]
          keeps_weaken [OF e(5)]])
  moreover have "lg s3 = (lg s)\<lparr>lh_n := int (length bl), lh_block := hb\<rparr>"
    using e(5) lg1 by (simp add: keeps_def)
  ultimately show ?thesis using e hb(2) tk 1(6,8,9) by (intro exI [of _ s3] exI [of _ hb]) simp
qed

subsection \<open>commit\<close>

definition commit_ready :: "kst \<Rightarrow> u32 \<Rightarrow> u32 list \<Rightarrow> (nat \<Rightarrow> nat) \<Rightarrow> bool" where
  "commit_ready s L bl P \<longleftrightarrow>
     binv s {} P \<and> pins s bl P \<and> log_ready s L bl \<and> lh_n (lg s) = int (length bl)"

lemma home_writes_from_log:
  assumes "log_ok L bl" "\<And>j. j < length bl \<Longrightarrow> v' (log_slot L j) = v (bl ! j)"
  shows "map (\<lambda>j. (bl ! j, v' (log_slot L j))) [0..<length bl] = home_writes bl v"
proof -
  have "map (\<lambda>j. (bl ! j, v' (log_slot L j))) [0..<length bl] = map (\<lambda>j. (bl ! j, v (bl ! j))) [0..<length bl]"
    using assms(2) by simp
  also have "\<dots> = map (\<lambda>b. (b, v b)) (map (\<lambda>j. bl ! j) [0..<length bl])" by simp
  finally show ?thesis by (simp add: home_writes_def map_nth del: map_map)
qed

lemma log_writes_slots:
  assumes "log_ok L bl" "j < length bl"
  shows "apply_writes (log_writes L bl v) d (log_slot L j) = v (bl ! j)"
proof -
  have "distinct (map fst (log_writes L bl v))"
    using assms(1) log_slot_inj(1) [of L] by (auto simp: log_ok_def log_writes_def comp_def distinct_map inj_on_def)
  then show ?thesis using assms(2) by (intro apply_writes_mem) (auto simp: log_writes_def)
qed

lemma commit_spec:
  assumes rdy: "commit_ready s L bl P" and ne: "bl \<noteq> []"
  shows "\<exists>s' P' h h0. commit s = Ok s' \<and> is_head h bl \<and> is_head h0 [] \<and>
    length h = BSIZE \<and> length h0 = BSIZE \<and>
    dsk s' = apply_writes (commit_writes L bl (view s) h h0) (dsk s) \<and>
    dtrace s' = rev (commit_writes L bl (view s) h h0) @ dtrace s \<and>
    commit_ready s' L [] P' \<and> keeps_but_log s s' \<and> lg s' = (lg s)\<lparr>lh_n := 0\<rparr> \<and>
    (\<forall>b. b \<notin> log_area L \<longrightarrow> view s' b = view s b)"
proof -
  let ?v = "view s"
  have inv: "binv s {} P" and p: "pins s bl P" and lr: "log_ready s L bl"
    and n: "lh_n (lg s) = int (length bl)"
    using rdy by (simp_all add: commit_ready_def)
  have ok: "log_ok L bl" and few: "length bl < NBUF" and run: "running s"
    and dev: "ldev (lg s) = ROOTDEV" "lstart (lg s) = L" and tk: "take (length bl) (lh_block (lg s)) = bl"
    and lenb: "length bl \<le> LOGSIZE" and L: "L \<notin> set bl"
    using lr by (auto simp: log_ready_def log_ok_def log_area_def)
  have k0: "0 + length bl = length bl" by simp
  obtain s1 where 1: "write_log_from 0 (length bl) s = Ok s1" "binv s1 {} P" "pins s1 bl P" "keeps s s1"
    "dsk s1 = apply_writes (log_writes L bl ?v) (dsk s)"
    "dtrace s1 = rev (log_writes L bl ?v) @ dtrace s" "view s1 = apply_writes (log_writes L bl ?v) ?v"
    using write_log_spec [OF inv p lr k0] by (auto simp: log_writes_def Let_def)
  have lg1: "lg s1 = lg s" using 1(4) by (simp add: keeps_def)
  have run1: "running s1" by (rule keeps_running [OF 1(4) run])
  obtain s2 h where 2: "write_head s1 = Ok s2" "binv s2 {} P" "pins s2 bl P" "keeps s1 s2" "is_head h bl"
    "dsk s2 = (dsk s1)(L := h)" "dtrace s2 = (L, h) # dtrace s1" "view s2 = (view s1)(L := h)"
    using write_head_spec [OF 1(2,3) few run1, of L bl] dev n lenb tk lg1 by auto
  have lr2: "log_ready s2 L bl" by (rule log_ready_keeps [OF lr keeps_trans [OF 1(4) 2(4)]])
  have p2: "pins s2 (still_pinned False 0 bl) P" using 2(3) by (simp add: still_pinned_def)
  obtain s3 P3 where 3: "install_from False 0 (length bl) s2 = Ok s3" "binv s3 {} P3" "pins s3 [] P3"
    "keeps s2 s3"
    "let ws = map (\<lambda>j. (bl ! j, view s2 (log_slot L j))) [0..<length bl]
     in dsk s3 = apply_writes ws (dsk s2) \<and> dtrace s3 = rev ws @ dtrace s2 \<and>
        view s3 = apply_writes ws (view s2)"
    using install_spec [OF 2(2) p2 lr2 k0] by blast
  have slot_ne: "log_slot L j \<noteq> L" if "j < length bl" for j
    using that log_slot_inj(2) [of L j 0] ok log_slot_bound by (auto simp: log_ok_def)
  have v2: "view s2 (log_slot L j) = ?v (bl ! j)" if "j < length bl" for j
    unfolding 2(8) 1(7) using slot_ne [OF that] log_writes_slots [OF ok that] by simp
  have ws: "map (\<lambda>j. (bl ! j, view s2 (log_slot L j))) [0..<length bl] = home_writes bl ?v"
    by (rule home_writes_from_log [where v' = "view s2", OF ok]) (rule v2)
  note 3 = 3(1-4) 3(5) [unfolded ws Let_def]
  have lg3: "lg s3 = lg s" using 3(4) 2(4) lg1 by (simp add: keeps_def)
  let ?s3 = "upd_log (\<lambda>l. l\<lparr>lh_n := 0\<rparr>) s3"
  have run3: "running ?s3" using keeps_running [OF 3(4)] keeps_running [OF 2(4)] run1 by simp
  have b3: "binv ?s3 {} P3" "pins ?s3 [] P3" using 3(2,3) by simp_all
  have few3: "length ([] :: u32 list) < NBUF" by (simp add: NBUF_def)
  have "\<exists>s4 h0. write_head ?s3 = Ok s4 \<and> binv s4 {} P3 \<and> pins s4 [] P3 \<and> keeps ?s3 s4 \<and> is_head h0 [] \<and>
      dsk s4 = (dsk ?s3)(L := h0) \<and> dtrace s4 = (L, h0) # dtrace ?s3 \<and> view s4 = (view ?s3)(L := h0)"
    by (rule write_head_spec [OF b3 few3 run3]) (use dev lg3 in auto)
  then obtain s4 h0 where 4: "write_head ?s3 = Ok s4" "binv s4 {} P3" "pins s4 [] P3" "keeps ?s3 s4"
    "is_head h0 []" "dsk s4 = (dsk ?s3)(L := h0)" "dtrace s4 = (L, h0) # dtrace ?s3"
    "view s4 = (view ?s3)(L := h0)"
    by blast
  have n1: "lh_n (lg s1) = int (length bl)" "lh_n (lg s2) = int (length bl)"
    using n lg1 2(4) by (simp_all add: keeps_def)
  have c: "commit s = Ok s4"
    using ne n n1 1(1) 2(1) 3(1) 4(1)
    by (simp add: commit_def write_log_def install_trans_def)
  have lg4: "lg s4 = (lg s)\<lparr>lh_n := 0\<rparr>" using 4(4) lg3 by (simp add: keeps_def)
  have "keeps_but_log s s3" by (rule keeps_weaken [OF keeps_trans [OF keeps_trans [OF 1(4) 2(4)] 3(4)]])
  from keeps_but_log_trans [OF keeps_but_log_trans [OF this keeps_but_log_upd] keeps_weaken [OF 4(4)]]
  have kb: "keeps_but_log s s4" .
  have run4: "running s4" by (rule keeps_running [OF 4(4) run3])
  have ready: "commit_ready s4 L [] P3"
    using 4(2,3) run4 lg4 lr few3 by (auto simp: commit_ready_def log_ready_def log_ok_def)
  have dsk4: "dsk s4 = apply_writes (commit_writes L bl ?v h h0) (dsk s)"
    and tr4: "dtrace s4 = rev (commit_writes L bl ?v h h0) @ dtrace s"
    using 4(6,7) 3(5) 2(6,7) 1(5,6) by (simp_all add: commit_writes_def)
  have "view s4 b = ?v b" if b: "b \<notin> log_area L" for b
  proof -
    have bL: "b \<noteq> L" using b by (auto simp: log_area_def)
    have out: "b \<notin> fst ` set (log_writes L bl ?v)"
      using b slot_in_area [OF ok] by (auto simp: log_writes_def)
    have "view s2 b = ?v b"
      unfolding 2(8) 1(7) using bL apply_writes_other [OF out] by simp
    moreover have "view s4 b = apply_writes (home_writes bl ?v) (view s2) b"
      using 4(8) 3(5) bL by simp
    moreover have "apply_writes (home_writes bl ?v) (view s2) b = ?v b" if "b \<in> set bl"
      using that ok by (intro apply_writes_mem) (auto simp: home_writes_def log_ok_def comp_def)
    moreover have "apply_writes (home_writes bl ?v) (view s2) b = view s2 b" if "b \<notin> set bl"
      using that by (intro apply_writes_other) (auto simp: home_writes_def)
    ultimately show ?thesis by metis
  qed
  moreover have "length h = BSIZE" "length h0 = BSIZE"
    using binvD(13) [OF 2(2), of L] binvD(13) [OF 4(2), of L] 2(6) 4(6) by simp_all
  ultimately show ?thesis using c 2(5) 4(5) dsk4 tr4 ready kb lg4 by blast
qed

subsection \<open>Recovery\<close>

lemma recover_spec:
  assumes inv: "binv s {} P" and p: "pins s [] P" and run: "running s"
    and dev: "ldev (lg s) = ROOTDEV" "lstart (lg s) = L" and len: "length (lh_block (lg s)) = LOGSIZE"
    and h: "is_head (view s L) bl" and ok: "log_ok L bl" "length bl < NBUF"
  shows "\<exists>s' P'. recover_from_log s = Ok s' \<and> commit_ready s' L [] P' \<and> is_head (dsk s' L) [] \<and>
    (\<forall>b. b \<notin> log_area L \<longrightarrow> dsk s' b = replay L bl (dsk s) b \<and> view s' b = dsk s' b)"
proof -
  have vd: "view s = dsk s" using unpinned_clean [OF inv p] by (auto simp: fun_eq_iff)
  obtain s1 hb where 1: "read_head s = Ok s1" "binv s1 {} P" "pins s1 [] P" "keeps_but_log s s1"
    "lg s1 = (lg s)\<lparr>lh_n := int (length bl), lh_block := hb\<rparr>" "length hb = LOGSIZE"
    "take (length bl) hb = bl" "dsk s1 = dsk s" "dtrace s1 = dtrace s" "view s1 = view s"
    using read_head_spec [OF inv p run dev len h] by blast
  have run1: "running s1"
    using keeps_running [of "upd_log (\<lambda>_. lg s1) s" s1] 1(4) run by (simp add: keeps_but_log_def)
  have lr1: "log_ready s1 L bl" using run1 1(5-7) dev ok by (simp add: log_ready_def)
  have p1: "pins s1 (still_pinned True 0 bl) P" using 1(3) by (simp add: still_pinned_def)
  have k0: "0 + length bl = length bl" by simp
  obtain s2 P2 where 2: "install_from True 0 (length bl) s1 = Ok s2" "binv s2 {} P2" "pins s2 [] P2"
    "keeps s1 s2"
    "let ws = map (\<lambda>j. (bl ! j, view s1 (log_slot L j))) [0..<length bl]
     in dsk s2 = apply_writes ws (dsk s1) \<and> dtrace s2 = rev ws @ dtrace s1 \<and>
        view s2 = apply_writes ws (view s1)"
    using install_spec [OF 1(2) p1 lr1 k0] by blast
  have d2: "dsk s2 = replay L bl (dsk s)" "view s2 = dsk s2"
    using 2(5) 1(8,10) vd by (simp_all add: replay_def Let_def)
  let ?s2 = "upd_log (\<lambda>l. l\<lparr>lh_n := 0\<rparr>) s2"
  have run2: "running ?s2" using keeps_running [OF 2(4) run1] by simp
  have b2: "binv ?s2 {} P2" "pins ?s2 [] P2" using 2(2,3) by simp_all
  have few: "length ([] :: u32 list) < NBUF" by (simp add: NBUF_def)
  have lg2: "lg s2 = lg s1" using 2(4) by (simp add: keeps_def)
  have "\<exists>s3 h0. write_head ?s2 = Ok s3 \<and> binv s3 {} P2 \<and> pins s3 [] P2 \<and> keeps ?s2 s3 \<and> is_head h0 [] \<and>
      dsk s3 = (dsk ?s2)(L := h0) \<and> dtrace s3 = (L, h0) # dtrace ?s2 \<and> view s3 = (view ?s2)(L := h0)"
    by (rule write_head_spec [OF b2 few run2]) (use dev lg2 1(5) in auto)
  then obtain s3 h0 where 3: "write_head ?s2 = Ok s3" "binv s3 {} P2" "pins s3 [] P2" "keeps ?s2 s3"
    "is_head h0 []" "dsk s3 = (dsk ?s2)(L := h0)" "view s3 = (view ?s2)(L := h0)"
    by blast
  have r: "recover_from_log s = Ok s3"
    using 1(1) 2(1) 3(1) by (simp add: recover_from_log_def install_trans_def 1(5))
  have run3: "running s3" by (rule keeps_running [OF 3(4) run2])
  have "lg s3 = (lg s1)\<lparr>lh_n := 0\<rparr>" using 3(4) lg2 by (simp add: keeps_def)
  then have ready: "commit_ready s3 L [] P2"
    using 3(2,3) run3 1(5,6) dev ok few by (auto simp: commit_ready_def log_ready_def log_ok_def)
  have "dsk s3 b = replay L bl (dsk s) b \<and> view s3 b = dsk s3 b" if "b \<notin> log_area L" for b
    using that 3(6,7) d2 by (auto simp: log_area_def)
  moreover have "is_head (dsk s3 L) []" using 3(5,6) by simp
  ultimately show ?thesis using r ready by blast
qed

end
