(* ===== verification/Log_Props.thy ===== *)
theory Log_Props
  imports Log_Commit Proc_Sched
begin

text \<open>
  Properties of the log: a commit returns, issues exactly its write sequence and preserves
  what the file system sees; a crash after any prefix of that sequence followed by
  \<open>recover_from_log\<close> leaves the home blocks all old or all new; \<open>begin_op\<close> admits one
  operation at a time; \<open>log_write\<close> absorbs.
\<close>

subsection \<open>A freshly booted machine\<close>

definition zero_buf :: buf where
  "zero_buf = \<lparr>bvalid = False, bdev = 0, bblockno = 0, block = initsleeplock, brefcnt = 0,
     bdata = replicate BSIZE 0\<rparr>"

text \<open>
  After power-on: \<open>binit\<close> has run over zeroed buffers, \<open>initlog\<close> has set the log's place,
  and some process (the first one, in \<open>forkret\<close>) is running.
\<close>

definition rebooted :: "kst \<Rightarrow> disk \<Rightarrow> u32 \<Rightarrow> bool" where
  "rebooted r d L \<longleftrightarrow>
     bufs r = replicate NBUF zero_buf \<and> lru r = rev [0..<NBUF] \<and> dsk r = d \<and> running r \<and>
     ldev (lg r) = ROOTDEV \<and> lstart (lg r) = L \<and> length (lh_block (lg r)) = LOGSIZE"

lemma no_cached_reboot: "bufs r = replicate NBUF zero_buf \<Longrightarrow> \<not> cached r b i"
  by (auto simp: cached_def zero_buf_def ROOTDEV_def)

lemma rebooted_binv:
  assumes "rebooted r d L" "\<And>b. length (d b) = BSIZE"
  shows "binv r {} (\<lambda>_. 0)" "pins r [] (\<lambda>_. 0)"
proof -
  have b: "bufs r = replicate NBUF zero_buf" using assms(1) by (simp add: rebooted_def)
  obtain q where q: "mypid r = Ok q"
    using assms(1) by (auto simp: rebooted_def running_def mypid_def me_def)
  have "mypid r = Ok q \<and> (\<forall>i \<in> {}. slpid (block (bufs r ! i)) = q)" using q by simp
  then show "binv r {} (\<lambda>_. 0)"
    unfolding binv_def using assms no_cached_reboot [OF b]
    by (auto simp: b rebooted_def zero_buf_def initsleeplock_def)
  show "pins r [] (\<lambda>_. 0)" by (simp add: pins_def)
qed

subsection \<open>Crash atomicity\<close>

lemma commit_crash:
  assumes rdy: "commit_ready s L bl P" and ne: "bl \<noteq> []" and d0: "is_head (dsk s L) []"
    and heads: "is_head h bl" "is_head h0 []" "length h = BSIZE" "length h0 = BSIZE"
    and cw: "commit_writes L bl (view s) h h0 = ws @ rest"
    and boot: "rebooted r (apply_writes ws (dsk s)) L"
  shows "\<exists>r'. recover_from_log r = Ok r' \<and> is_head (dsk r' L) [] \<and>
    ((\<forall>b. b \<notin> log_area L \<longrightarrow> dsk r' b = dsk s b) \<or> (\<forall>b. b \<notin> log_area L \<longrightarrow> dsk r' b = view s b))"
proof -
  have inv: "binv s {} P" and p: "pins s bl P" and ok: "log_ok L bl" and few: "length bl < NBUF"
    using rdy by (simp_all add: commit_ready_def log_ready_def)
  let ?d = "apply_writes ws (dsk s)"
  have old: "dsk s b = view s b" if "b \<notin> set bl" "b \<notin> log_area L" for b
    using unpinned_clean [OF inv p that(1)] by simp
  note cases3 = crash_cases [OF ok heads(1,2) d0 old cw]
  have "\<forall>(b, d) \<in> set (commit_writes L bl (view s) h h0). length d = BSIZE"
    using heads(3,4) length_view [OF inv]
    by (auto simp: commit_writes_def log_writes_def home_writes_def)
  then have len: "\<forall>(b, d) \<in> set ws. length d = BSIZE" unfolding cw by auto
  have lens: "length (?d b) = BSIZE" for b
    using len binvD(13) [OF inv]
  proof (induction ws rule: rev_induct)
    case (snoc w ws)
    then show ?case by (cases w) auto
  qed simp
  note rb = rebooted_binv [OF boot lens]
  have run: "running r" "ldev (lg r) = ROOTDEV" "lstart (lg r) = L" "length (lh_block (lg r)) = LOGSIZE"
    and dr: "dsk r = ?d"
    using boot by (simp_all add: rebooted_def)
  have vr: "view r L = ?d L"
    using view_uncached no_cached_reboot dr boot by (simp add: rebooted_def)
  have ok0: "log_ok L []" using ok by (simp add: log_ok_def)
  have few0: "length ([] :: u32 list) < NBUF" by (simp add: NBUF_def)
  show ?thesis
  proof (cases "is_head (?d L) []")
    case True
    obtain r' where r': "recover_from_log r = Ok r'" "is_head (dsk r' L) []"
      "\<forall>b. b \<notin> log_area L \<longrightarrow> dsk r' b = replay L [] ?d b \<and> view r' b = dsk r' b"
      using recover_spec [OF rb run _ ok0 few0] True vr dr by auto
    have "\<not> is_head (?d L) bl"
      using True ne is_head_count [OF True] is_head_count [of "?d L" bl] by auto
    then have "(\<forall>b. b \<notin> log_area L \<longrightarrow> ?d b = dsk s b) \<or> (\<forall>b. b \<notin> log_area L \<longrightarrow> ?d b = view s b)"
      using cases3 by blast
    then show ?thesis using r' by (auto simp: replay_def)
  next
    case False
    then have hb: "is_head (?d L) bl" "\<forall>b. b \<notin> log_area L \<longrightarrow> replay L bl ?d b = view s b"
      using cases3 by blast+
    obtain r' where "recover_from_log r = Ok r'" "is_head (dsk r' L) []"
      "\<forall>b. b \<notin> log_area L \<longrightarrow> dsk r' b = replay L bl ?d b \<and> view r' b = dsk r' b"
      using recover_spec [OF rb run _ ok few] hb(1) vr dr by auto
    then show ?thesis using hb(2) by auto
  qed
qed

subsection \<open>A concrete transaction\<close>

text \<open>Block 40 modified in buffer 0 and logged, the log at block 2, an all-zero disk.\<close>

definition zero_log :: logst where
  "zero_log = \<lparr>lstart = 2, lsize = 16, outstanding = 0, committing = False, ldev = ROOTDEV, lh_n = 0,
     lh_block = replicate LOGSIZE 0\<rparr>"

definition zero_sb :: superblock where
  "zero_sb = \<lparr>sb_magic = FSMAGIC, sb_size = 2000, sb_nblocks = 1954, sb_ninodes = 200, sb_nlog = 16,
     sb_logstart = 2, sb_inodestart = 18, sb_bmapstart = 44\<rparr>"

definition demo_kst :: kst where
  "demo_kst =
     \<lparr>ph = boot_phys, sch = (ks machine_boot)\<lparr>cur := Some 0\<rparr>, bufs = replicate NBUF zero_buf,
      lru = rev [0..<NBUF], dsk = (\<lambda>_. replicate BSIZE 0), dtrace = [], lg = zero_log, sb = zero_sb,
      itab = [], ftab = [], pipes = (\<lambda>_. \<lparr>pdata = replicate PIPESIZE 0, nread = 0, nwrite = 0,
        readopen = False, writeopen = False\<rparr>), ticks = 0,
      cons = \<lparr>cbuf = replicate 128 0, con_r = 0, con_w = 0, con_e = 0\<rparr>,
      utx = \<lparr>tx_buf = replicate 32 0, tx_w = 0, tx_r = 0, usent = [], uregs = [], uidle = [], urx = []\<rparr>,
      condev = False, kpt = 0\<rparr>"

definition demo_buf :: buf where
  "demo_buf = \<lparr>bvalid = True, bdev = ROOTDEV, bblockno = 40, block = initsleeplock, brefcnt = 1,
     bdata = replicate BSIZE 7\<rparr>"

definition demo_txn :: kst where
  "demo_txn = demo_kst\<lparr>bufs := (replicate NBUF zero_buf)[0 := demo_buf],
     lg := zero_log\<lparr>lh_n := 1, lh_block := (replicate LOGSIZE 0)[0 := 40]\<rparr>\<rparr>"

lemma demo_running: "running demo_txn" "running demo_kst"
  by (simp_all add: running_def demo_txn_def demo_kst_def machine_boot_def NPROC_def)

lemma demo_cached: "cached demo_txn b i \<longleftrightarrow> b = 40 \<and> i = 0"
  by (cases i) (auto simp: cached_def demo_txn_def demo_kst_def demo_buf_def zero_buf_def ROOTDEV_def NBUF_def)

lemma not_log_block_40: "(40 :: u32) \<notin> log_area 2"
proof
  assume "(40 :: u32) \<in> log_area 2"
  then obtain k where k: "k < 15" "(40 :: u32) = 2 + of_nat k + 1"
    by (auto simp: log_area_def log_slot_def fs_params)
  then have "(of_nat k :: u32) = 37" by simp
  then have "unat (of_nat k :: u32) = 37" by simp
  then show False using k(1) by simp
qed

lemma demo_log_ok: "log_ok 2 [40]"
  using not_log_block_40 by (simp add: log_ok_def fs_params)

lemma take_demo_block: "take (Suc 0) ((replicate LOGSIZE 0)[0 := 40]) = [40 :: u32]"
  by (simp add: fs_params numeral_eq_Suc)

lemma demo_ready: "commit_ready demo_txn 2 [40] ((\<lambda>_. 0)(0 := 1))"
proof -
  have q: "mypid demo_txn = Ok 1"
    by (simp add: mypid_def me_def demo_txn_def demo_kst_def machine_boot_def NPROC_def)
  have "binv demo_txn {} ((\<lambda>_. 0)(0 := 1))"
    unfolding binv_def demo_cached q
    by (auto simp: demo_txn_def demo_kst_def demo_buf_def zero_buf_def initsleeplock_def NBUF_def
        nth_list_update split: if_splits)
  moreover have "pins demo_txn [40] ((\<lambda>_. 0)(0 := 1))"
    unfolding pins_def demo_cached by (simp add: NBUF_def)
  moreover have "lg demo_txn = zero_log\<lparr>lh_n := 1, lh_block := (replicate LOGSIZE 0)[0 := 40]\<rparr>"
    by (simp add: demo_txn_def demo_kst_def)
  then have "log_ready demo_txn 2 [40]" "lh_n (lg demo_txn) = 1"
    using demo_running demo_log_ok take_demo_block by (simp_all add: log_ready_def zero_log_def NBUF_def)
  ultimately show ?thesis by (simp add: commit_ready_def)
qed

lemma zero_is_head: "is_head (replicate BSIZE 0) []"
  by (simp add: is_head_Nil get32_def of_le32_def fs_params)

subsection \<open>The end of a transaction\<close>

lemma end_op_commit:
  assumes rdy: "commit_ready s L bl P" and ne: "bl \<noteq> []"
    and st: "outstanding (lg s) = 1" "\<not> committing (lg s)"
  shows "\<exists>s' P' h h0. end_op s = Ok s' \<and> is_head h bl \<and> is_head h0 [] \<and>
    length h = BSIZE \<and> length h0 = BSIZE \<and>
    dtrace s' = rev (commit_writes L bl (view s) h h0) @ dtrace s \<and>
    dsk s' = apply_writes (commit_writes L bl (view s) h h0) (dsk s) \<and>
    commit_ready s' L [] P' \<and> lg s' = (lg s)\<lparr>lh_n := 0, outstanding := 0, committing := False\<rparr> \<and>
    (\<forall>b. b \<notin> log_area L \<longrightarrow> view s' b = view s b)"
proof -
  let ?s = "upd_log (\<lambda>l. l\<lparr>committing := True\<rparr>) (upd_log (\<lambda>l. l\<lparr>outstanding := outstanding l - 1\<rparr>) s)"
  have r: "commit_ready ?s L bl P" using rdy by (simp add: commit_ready_def log_ready_def)
  obtain s1 P1 h h0 where 1: "commit ?s = Ok s1" "is_head h bl" "is_head h0 []"
    "dsk s1 = apply_writes (commit_writes L bl (view s) h h0) (dsk s)"
    "dtrace s1 = rev (commit_writes L bl (view s) h h0) @ dtrace s"
    "commit_ready s1 L [] P1" "lg s1 = (lg ?s)\<lparr>lh_n := 0\<rparr>"
    "\<forall>b. b \<notin> log_area L \<longrightarrow> view s1 b = view s b" "length h = BSIZE" "length h0 = BSIZE"
    using commit_spec [OF r ne] by auto
  let ?s2 = "upd_log (\<lambda>l. l\<lparr>committing := False\<rparr>) s1"
  let ?s' = "kwakeup ChanLog ?s2"
  have e: "end_op s = Ok ?s'" using st 1(1) by (simp add: end_op_def Let_def)
  have run: "running ?s2" using 1(6) by (simp add: commit_ready_def log_ready_def)
  have "binv ?s' {} P1"
    by (rule binv_cong [of ?s2]) (use 1(6) mypid_kwakeup [OF run] in \<open>auto simp: commit_ready_def binvD(2,3)\<close>)
  moreover have "pins ?s' [] P1" using 1(6) pins_cong [OF cached_cong [of ?s' s1]] by (simp add: commit_ready_def)
  ultimately have "commit_ready ?s' L [] P1"
    using 1(6) by (simp add: commit_ready_def log_ready_def)
  moreover have "view ?s' = view s1" by (rule view_cong) simp_all
  moreover have "lg ?s' = (lg s)\<lparr>lh_n := 0, outstanding := 0, committing := False\<rparr>"
    using 1(7) st by (cases "lg s") simp
  ultimately show ?thesis using e 1(2-5,8-10) by (intro exI [of _ ?s'] exI [of _ P1] exI [of _ h] exI [of _ h0]) simp
qed

subsection \<open>log_write\<close>

lemma absorb_from_spec:
  "i + n \<le> length bl \<Longrightarrow>
   (absorb_from b bl i n < i + n \<longrightarrow> i \<le> absorb_from b bl i n \<and> bl ! absorb_from b bl i n = b) \<and>
   absorb_from b bl i n \<le> i + n \<and> (absorb_from b bl i n = i + n \<longrightarrow> b \<notin> set (take n (drop i bl)))"
proof (induction n arbitrary: i)
  case (Suc n)
  then have "Suc i + n \<le> length bl" by simp
  from Suc.IH [OF this] have IH:
    "absorb_from b bl (Suc i) n < Suc i + n \<longrightarrow>
       Suc i \<le> absorb_from b bl (Suc i) n \<and> bl ! absorb_from b bl (Suc i) n = b"
    "absorb_from b bl (Suc i) n \<le> Suc i + n"
    "absorb_from b bl (Suc i) n = Suc i + n \<longrightarrow> b \<notin> set (take n (drop (Suc i) bl))"
    by auto
  have "drop i bl = bl ! i # drop (Suc i) bl" using Suc.prems by (intro Cons_nth_drop_Suc [symmetric]) simp
  then show ?case using IH Suc.prems by auto
qed simp

lemma log_write_spec:
  assumes inv: "binv s H P" and p: "pins s bl P" and lr: "log_ready s L bl" and j: "j \<in> H"
    and n: "lh_n (lg s) = int (length bl)" and op: "1 \<le> outstanding (lg s)"
    and room: "length bl + 1 < LOGSIZE" "int (length bl) < lsize (lg s) - 1" "length bl + 1 < NBUF"
    and home: "b \<notin> log_area L" and b: "bblockno (bufs s ! j) = b"
  defines "bl' \<equiv> if b \<in> set bl then bl else bl @ [b]"
  shows "\<exists>s' P'. log_write j s = Ok s' \<and> binv s' H P' \<and> pins s' bl' P' \<and> log_ready s' L bl' \<and>
    lh_n (lg s') = int (length bl') \<and> view s' = view s \<and> dsk s' = dsk s \<and> dtrace s' = dtrace s \<and>
    cached s' = cached s \<and> keeps_but_log s s' \<and>
    lg s' = (lg s)\<lparr>lh_n := lh_n (lg s'), lh_block := lh_block (lg s')\<rparr>"
proof -
  let ?hb = "lh_block (lg s)" let ?n = "length bl"
  have run: "running s" and len: "length ?hb = LOGSIZE" and tk: "take ?n ?hb = bl" and ok: "log_ok L bl"
    using lr by (simp_all add: log_ready_def)
  let ?i = "absorb_from b ?hb 0 ?n"
  have i: "?i < ?n \<longrightarrow> ?hb ! ?i = b" "?i \<le> ?n" "?i = ?n \<longrightarrow> b \<notin> set bl"
    using absorb_from_spec [of 0 ?n ?hb b] room(1) len tk by auto
  let ?s = "upd_log (\<lambda>l. l\<lparr>lh_block := (lh_block l)[?i := b]\<rparr>) s"
  have c: "cached s b j" using locked_cached [OF inv j] b by simp
  have w: "log_write j s = (if ?i = ?n then Ok (upd_log (\<lambda>l. l\<lparr>lh_n := lh_n l + 1\<rparr>) (bpin j ?s)) else Ok ?s)"
    using n op room by (simp add: log_write_def Let_def b)
  show ?thesis
  proof (cases "b \<in> set bl")
    case True
    then have lt: "?i < ?n" using i by (cases "?i = ?n") auto
    then have same: "?hb[?i := b] = ?hb" using i(1) by (metis list_update_id)
    then have "?s = s" by (cases s) (simp add: upd_log_def)
    then have "log_write j s = Ok s" using w lt by simp
    moreover have "keeps_but_log s s" by (simp add: keeps_but_log_simp)
    ultimately show ?thesis using inv p lr n True unfolding bl'_def by (intro exI [of _ s] exI [of _ P]) simp
  next
    case False
    then have e: "?i = ?n"
      using i(1,2) tk room(1) len by (metis in_set_conv_nth le_neq_implies_less nth_take)
    have inv1: "binv ?s H P" using inv by simp
    have P0: "P j = 0" by (rule pins_unpinned [OF p False c])
    note bp = bpin_ok [OF inv1 j]
    let ?s' = "upd_log (\<lambda>l. l\<lparr>lh_n := lh_n l + 1\<rparr>) (bpin j ?s)"
    have cc: "cached ?s' = cached s"
      using bp(3) P0 cached_cong [of ?s s] cached_cong [of ?s' "bpin j ?s"] by simp
    have P': "pins ?s' (bl @ [b]) (P(j := 1))"
      unfolding pins_def cc
    proof (intro conjI allI impI ballI)
      fix k assume k: "k < NBUF"
      have "(\<exists>d \<in> set (bl @ [b]). cached s d k) \<longleftrightarrow> k = j \<or> (\<exists>d \<in> set bl. cached s d k)"
        using c binvD(6) [OF inv, of b j k] by auto
      then show "(P(j := 1)) k = (if \<exists>d \<in> set (bl @ [b]). cached s d k then 1 else 0)"
        using p k by (simp add: pins_def)
    qed (use p c in \<open>auto simp: pins_def\<close>)
    have tk': "take (?n + 1) (?hb[?n := b]) = bl @ [b]"
      using tk room(1) len by (simp add: take_Suc_conv_app_nth)
    have lr': "log_ready ?s' L (bl @ [b])"
      using lr room home False tk' e len P0
      by (auto simp: log_ready_def log_ok_def bpin_def running_def)
    have "log_write j s = Ok ?s'" using w e by simp
    moreover have "binv ?s' H (P(j := 1))" using bp(1) P0 by simp
    moreover have "lg ?s' = (lg s)\<lparr>lh_n := lh_n (lg ?s'), lh_block := lh_block (lg ?s')\<rparr>"
      by (cases "lg s") (simp add: bpin_def)
    moreover have "keeps_but_log s ?s'" by (simp add: keeps_but_log_simp bpin_def upd_log_def upd_buf_def)
    ultimately show ?thesis
      using P' lr' cc bp(2) P0 n False unfolding bl'_def
      by (intro exI [of _ ?s'] exI [of _ "P(j := 1)"]) (simp add: bpin_def)
  qed
qed

subsection \<open>Properties\<close>

definition demo_open :: kst where
  "demo_open = upd_log (\<lambda>l. l\<lparr>outstanding := 1\<rparr>) demo_txn"

lemma demo_open_ready:
  "commit_ready demo_open 2 [40] ((\<lambda>_. 0)(0 := 1))" "outstanding (lg demo_open) = 1"
  "\<not> committing (lg demo_open)" "dsk demo_open = (\<lambda>_. replicate BSIZE 0)" "dtrace demo_open = []"
  "lsize (lg demo_open) = 16"
  using demo_ready
  by (simp_all add: demo_open_def commit_ready_def log_ready_def)
     (simp_all add: demo_txn_def demo_kst_def zero_log_def)

text \<open>
  C12: the last \<open>end_op\<close> of a transaction returns, writes exactly the modified blocks to the
  log, the header, the blocks to their home places and the cleared header, in this order,
  and leaves an empty log and the blocks the file system sees as they were.
\<close>

theorem end_op_commits:
  assumes "commit_ready s L bl P" "bl \<noteq> []" "outstanding (lg s) = 1" "\<not> committing (lg s)"
  shows "\<exists>s' P' h h0. end_op s = Ok s' \<and> is_head h bl \<and> is_head h0 [] \<and>
    dtrace s' = rev (map (\<lambda>k. (log_slot L k, view s (bl ! k))) [0..<length bl] @ [(L, h)] @
      map (\<lambda>b. (b, view s b)) bl @ [(L, h0)]) @ dtrace s \<and>
    commit_ready s' L [] P' \<and> lg s' = (lg s)\<lparr>lh_n := 0, outstanding := 0, committing := False\<rparr> \<and>
    (\<forall>b. b \<notin> log_area L \<longrightarrow> view s' b = view s b \<and> dsk s' b = view s b)"
proof -
  obtain s' P' h h0 where e: "end_op s = Ok s'" "is_head h bl" "is_head h0 []"
    "dtrace s' = rev (commit_writes L bl (view s) h h0) @ dtrace s"
    "commit_ready s' L [] P'" "lg s' = (lg s)\<lparr>lh_n := 0, outstanding := 0, committing := False\<rparr>"
    "\<forall>b. b \<notin> log_area L \<longrightarrow> view s' b = view s b"
    using end_op_commit [OF assms] by auto
  have "view s' b = dsk s' b" for b
    using e(5) by (auto simp: commit_ready_def intro: unpinned_clean)
  then show ?thesis
    using e by (intro exI [of _ s'] exI [of _ P'] exI [of _ h] exI [of _ h0])
      (auto simp: commit_writes_def log_writes_def home_writes_def)
qed

theorem end_op_commits_witness:
  "\<exists>s' h h0. end_op demo_open = Ok s' \<and> is_head h [40] \<and>
    dtrace s' = [(2, h0), (40, view demo_open 40), (2, h), (3, view demo_open 40)]"
  using end_op_commits [OF demo_open_ready(1) _ demo_open_ready(2,3)] demo_open_ready(5)
  by (auto simp: log_slot_def)


lemma demo_rebooted: "rebooted (demo_kst\<lparr>dsk := d\<rparr>) d 2"
  using demo_running(2) by (simp add: rebooted_def running_def) (simp add: demo_kst_def zero_log_def)


text \<open>
  since \<open>LOGSIZE\<close> equals \<open>MAXOPBLOCKS\<close>, \<open>begin_op\<close> admits an operation only when no other
  is open and the log is empty, and makes the caller sleep otherwise.
\<close>

theorem begin_op_admits_one:
  assumes "0 \<le> lh_n (lg s)" "0 \<le> outstanding (lg s)"
  shows "begin_op s =
    (if committing (lg s) \<or> outstanding (lg s) \<noteq> 0 \<or> lh_n (lg s) \<noteq> 0 then Fail (WouldSleep ChanLog)
     else Ok (s\<lparr>lg := (lg s)\<lparr>outstanding := 1\<rparr>\<rparr>))"
  using assms by (auto simp: begin_op_def Let_def upd_log_def fs_params)

theorem begin_op_admits_one_witness:
  "begin_op demo_kst = Ok (demo_kst\<lparr>lg := zero_log\<lparr>outstanding := 1\<rparr>\<rparr>) \<and>
   begin_op demo_open = Fail (WouldSleep ChanLog)"
  using begin_op_admits_one [of demo_kst] begin_op_admits_one [of demo_open] demo_open_ready(2)
    demo_open_ready(1)
  by (simp add: commit_ready_def) (simp add: demo_kst_def zero_log_def)

text \<open>
  \<open>log_write\<close> of a locked buffer inside a transaction adds its block to the log once
  (a block already there is absorbed), pins the buffer so that it stays in the cache until
  the commit, and changes nothing the file system sees and nothing on the disk. It
  panics when the transaction already holds \<open>log.size - 1\<close> blocks.
\<close>

theorem log_write_absorbs:
  assumes "binv s H P" "pins s bl P" "log_ready s L bl" "j \<in> H" "lh_n (lg s) = int (length bl)"
    and "1 \<le> outstanding (lg s)" "length bl + 1 < NBUF" "bblockno (bufs s ! j) \<notin> log_area L"
  shows "if lsize (lg s) - 1 \<le> int (length bl) then log_write j s = Fail (Panic ''too big a transaction'')
    else \<exists>s' P'. log_write j s = Ok s' \<and> binv s' H P' \<and>
      (let b = bblockno (bufs s ! j); bl' = if b \<in> set bl then bl else bl @ [b]
       in pins s' bl' P' \<and> log_ready s' L bl' \<and> lh_n (lg s') = int (length bl') \<and>
          0 < brefcnt (bufs s' ! j) - 1) \<and>
      view s' = view s \<and> dsk s' = dsk s \<and> dtrace s' = dtrace s"
proof (cases "lsize (lg s) - 1 \<le> int (length bl)")
  case False
  let ?b = "bblockno (bufs s ! j)" let ?bl = "if ?b \<in> set bl then bl else bl @ [?b]"
  have room: "length bl + 1 < LOGSIZE" "int (length bl) < lsize (lg s) - 1"
    using assms(7) False by (simp_all add: fs_params)
  obtain s' P' where s': "log_write j s = Ok s'" "binv s' H P'" "pins s' ?bl P'" "log_ready s' L ?bl"
    "lh_n (lg s') = int (length ?bl)" "view s' = view s" "dsk s' = dsk s" "dtrace s' = dtrace s"
    "cached s' = cached s"
    using log_write_spec [OF assms(1-6) room assms(7,8) refl] by blast
  have c: "cached s' ?b j" using locked_cached [OF assms(1,4)] s'(9) by simp
  then have "P' j = 1" by (intro pins_pinned [OF s'(3)]) auto
  then have "brefcnt (bufs s' ! j) = 2" using binvD(9) [OF s'(2)] assms(4) c by (auto simp: cached_def)
  then show ?thesis using False s' by (auto simp: Let_def)
qed (use assms in \<open>simp add: log_write_def Let_def\<close>)

definition demo_held :: kst where
  "demo_held = demo_kst\<lparr>bufs := (replicate NBUF zero_buf)[0 := demo_buf\<lparr>block := \<lparr>slocked = True, slpid = 1\<rparr>\<rparr>],
     lg := zero_log\<lparr>outstanding := 1\<rparr>\<rparr>"

lemma demo_held_cached: "cached demo_held b i \<longleftrightarrow> b = 40 \<and> i = 0"
  by (cases i) (auto simp: cached_def demo_held_def demo_kst_def demo_buf_def zero_buf_def ROOTDEV_def NBUF_def)

lemma demo_held_ok: "binv demo_held {0} (\<lambda>_. 0)" "pins demo_held [] (\<lambda>_. 0)" "log_ready demo_held 2 []"
  "bblockno (bufs demo_held ! 0) = 40"
proof -
  have q: "mypid demo_held = Ok 1"
    by (simp add: mypid_def me_def demo_held_def demo_kst_def machine_boot_def NPROC_def)
  show "binv demo_held {0} (\<lambda>_. 0)"
    unfolding binv_def demo_held_cached q
    by (auto simp: demo_held_def demo_kst_def demo_buf_def zero_buf_def initsleeplock_def NBUF_def
        nth_list_update split: if_splits)
  show "pins demo_held [] (\<lambda>_. 0)" by (simp add: pins_def)
  have "running demo_held" using demo_running(2) by (simp add: running_def demo_held_def)
  then show "log_ready demo_held 2 []"
    using demo_log_ok by (simp add: log_ready_def log_ok_def NBUF_def) (simp add: demo_held_def zero_log_def)
  show "bblockno (bufs demo_held ! 0) = 40" by (simp add: demo_held_def demo_buf_def NBUF_def)
qed

theorem log_write_absorbs_witness:
  "\<exists>s' P'. log_write 0 demo_held = Ok s' \<and> pins s' [40] P' \<and> view s' = view demo_held"
proof -
  have "lh_n (lg demo_held) = 0" "outstanding (lg demo_held) = 1" "lsize (lg demo_held) = 16"
    by (simp_all add: demo_held_def zero_log_def)
  then show ?thesis
    using log_write_absorbs [OF demo_held_ok(1-3), of 0] demo_held_ok(4) not_log_block_40
    by (auto simp: NBUF_def Let_def)
qed

end
