(* ===== verification/Pipe_Props.thy ===== *)
theory Pipe_Props
  imports Pipe Vm_Space Log_Props
begin

text \<open>
  Pipes deliver what is written to them: the ring of a pipe is a queue of at most
  \<open>PIPESIZE\<close> bytes, \<open>pipewrite\<close> appends bytes of user memory to it and \<open>piperead\<close> moves bytes
  from its front to user memory.
\<close>

definition pipe_inv :: "pipe \<Rightarrow> bool" where
  "pipe_inv q \<longleftrightarrow> ring_ok PIPESIZE (pdata q) (nread q) (nwrite q)"

definition pipe_content :: "pipe \<Rightarrow> u8 list" where
  "pipe_content q = ring_content (pdata q) (nread q) (nwrite q)"

lemma length_pipe_content [simp]: "length (pipe_content q) = unat (nwrite q - nread q)"
  by (simp add: pipe_content_def)

lemma pipe_full_iff: "pipe_full q \<longleftrightarrow> unat (nwrite q - nread q) = PIPESIZE"
  unfolding pipe_full_def by (rule ring_full_iff) (simp add: PIPESIZE_def)

lemma pipe_put_ok:
  "pipe_inv q \<Longrightarrow> \<not> pipe_full q \<Longrightarrow>
   pipe_inv (pipe_put c q) \<and> pipe_content (pipe_put c q) = pipe_content q @ [c]"
  using ring_ok_put [of PIPESIZE "pdata q" "nread q" "nwrite q" c]
  by (simp add: pipe_inv_def pipe_content_def pipe_full_def pipe_put_def)

lemma pipe_get_ok:
  "pipe_inv q \<Longrightarrow> pipe_content q \<noteq> [] \<Longrightarrow>
   pipe_inv (pipe_rest q) \<and> pipe_content q = pipe_first q # pipe_content (pipe_rest q)"
  using ring_ok_get [of PIPESIZE "pdata q" "nread q" "nwrite q"]
  by (simp add: pipe_inv_def pipe_content_def pipe_first_def pipe_rest_def)

interpretation pipeq: fifo pipe_inv pipe_content pipe_full pipe_put pipe_first pipe_rest
  by unfold_locales (rule pipe_put_ok pipe_get_ok; assumption)+

lemma pipe_empty_iff: "nread q = nwrite q \<longleftrightarrow> pipe_content q = []"
  by (simp add: pipe_content_def ring_content_empty)

subsection \<open>pipewrite\<close>

lemma upd_pipe_sel [simp]:
  "pipes (upd_pipe pi f s) = (pipes s)(pi := f (pipes s pi))" "ph (upd_pipe pi f s) = ph s"
  "sch (upd_pipe pi f s) = sch s"
  by (simp_all add: upd_pipe_def)

lemma upd_ph_sel [simp]:
  "ph (upd_ph p s) = p" "pipes (upd_ph p s) = pipes s" "sch (upd_ph p s) = sch s"
  by (simp_all add: upd_ph_def)

lemma is_killed_upd [simp]:
  "is_killed i (upd_pipe pi f s) = is_killed i s" "is_killed i (upd_ph p s) = is_killed i s"
  by (simp_all add: is_killed_def)

lemma copyin_one:
  assumes "space_inv m pt ps B"
  shows "copyin pt va 1 m =
    Ok (case user_byte (pmem m) pt va of None \<Rightarrow> (-1, []) | Some b \<Rightarrow> (0, [b]))"
  using copyin_spec [OF assms, of va 1] by (simp split: option.split)

definition user_bytes :: "kst \<Rightarrow> u32 \<Rightarrow> u32 \<Rightarrow> nat list \<Rightarrow> u8 list" where
  "user_bytes s pt addr is = map (\<lambda>x. the (user_byte (pmem (ph s)) pt (addr + of_nat x))) is"

lemma pipewrite_from_spec:
  assumes "space_inv (ph s) pt ps B" "pagetable (procs (sch s) ! pr) = pt" "pipe_inv (pipes s pi)"
  shows "\<exists>out s' j. pipewrite_from pr pi addr i k s = Ok (out, s') \<and> i \<le> j \<and> j \<le> i + k \<and>
    pipe_inv (pipes s' pi) \<and>
    pipe_content (pipes s' pi) = pipe_content (pipes s pi) @ user_bytes s pt addr [i..<j] \<and>
    ph s' = ph s \<and> (\<forall>q. q \<noteq> pi \<longrightarrow> pipes s' q = pipes s q) \<and>
    (out = Returned (int j) \<and> (j = i + k \<or> user_byte (pmem (ph s)) pt (addr + of_nat j) = None) \<or>
     out = Returned (-1) \<and> j = i \<and> (\<not> readopen (pipes s pi) \<or> is_killed pr s) \<or>
     out = Sleeping (ChanPipeWrite pi) j \<and> length (pipe_content (pipes s' pi)) = PIPESIZE)"
  using assms
proof (induction k arbitrary: i s)
  case 0
  show ?case
    by (intro exI [of _ "Returned (int i)"] exI [of _ "kwakeup (ChanPipeRead pi) s"] exI [of _ i])
       (use 0 in \<open>simp add: user_bytes_def\<close>)
next
  case (Suc k)
  let ?w = "kwakeup (ChanPipeRead pi) s" and ?b = "user_byte (pmem (ph s)) pt (addr + of_nat i)"
  consider (dead) "\<not> readopen (pipes s pi) \<or> is_killed pr s"
    | (full) "readopen (pipes s pi)" "\<not> is_killed pr s" "pipe_full (pipes s pi)"
    | (bad) "readopen (pipes s pi)" "\<not> is_killed pr s" "\<not> pipe_full (pipes s pi)" "?b = None"
    | (good) b where "readopen (pipes s pi)" "\<not> is_killed pr s" "\<not> pipe_full (pipes s pi)" "?b = Some b"
    by blast
  then show ?case
  proof cases
    case dead
    then show ?thesis
      by (intro exI [of _ "Returned (-1)"] exI [of _ s] exI [of _ i])
         (use Suc.prems in \<open>auto simp: user_bytes_def\<close>)
  next
    case full
    then show ?thesis
      using pipe_full_iff [of "pipes s pi"]
      by (intro exI [of _ "Sleeping (ChanPipeWrite pi) i"] exI [of _ ?w] exI [of _ i])
         (use Suc.prems in \<open>simp add: user_bytes_def\<close>)
  next
    case bad
    then show ?thesis
      using copyin_one [OF Suc.prems(1), of "addr + of_nat i"]
      by (intro exI [of _ "Returned (int i)"] exI [of _ ?w] exI [of _ i])
         (use Suc.prems in \<open>simp add: user_bytes_def\<close>)
  next
    case good
    let ?s = "upd_pipe pi (pipe_put b) s"
    note put = pipe_put_ok [OF Suc.prems(3) good(3), of b]
    have step: "pipewrite_from pr pi addr i (Suc k) s = pipewrite_from pr pi addr (Suc i) k ?s"
      using good copyin_one [OF Suc.prems(1), of "addr + of_nat i"] Suc.prems(2) by simp
    have p: "space_inv (ph ?s) pt ps B" "pagetable (procs (sch ?s) ! pr) = pt" "pipe_inv (pipes ?s pi)"
      using Suc.prems put by simp_all
    obtain out s' j where IH: "pipewrite_from pr pi addr (Suc i) k ?s = Ok (out, s')" "Suc i \<le> j"
      "j \<le> Suc i + k" "pipe_inv (pipes s' pi)"
      "pipe_content (pipes s' pi) = pipe_content (pipes ?s pi) @ user_bytes ?s pt addr [Suc i..<j]"
      "ph s' = ph ?s" "\<forall>q. q \<noteq> pi \<longrightarrow> pipes s' q = pipes ?s q"
      "out = Returned (int j) \<and> (j = Suc i + k \<or> user_byte (pmem (ph ?s)) pt (addr + of_nat j) = None) \<or>
       out = Returned (-1) \<and> j = Suc i \<and> (\<not> readopen (pipes ?s pi) \<or> is_killed pr ?s) \<or>
       out = Sleeping (ChanPipeWrite pi) j \<and> length (pipe_content (pipes s' pi)) = PIPESIZE"
      using Suc.IH [OF p, of "Suc i"] by (elim exE conjE)
    have upt: "[i..<j] = i # [Suc i..<j]" using IH(2) by (simp add: upt_conv_Cons)
    have ro: "readopen (pipes ?s pi)" using good by (simp add: pipe_put_def)
    have bytes: "user_bytes ?s pt addr [Suc i..<j] = user_bytes s pt addr [Suc i..<j]"
      by (simp add: user_bytes_def)
    have "pipe_content (pipes s' pi) = pipe_content (pipes s pi) @ user_bytes s pt addr [i..<j]"
      unfolding IH(5) bytes upt using put good(4) by (simp add: user_bytes_def)
    moreover have "out = Returned (int j) \<and> (j = i + Suc k \<or> user_byte (pmem (ph s)) pt (addr + of_nat j) = None) \<or>
       out = Sleeping (ChanPipeWrite pi) j \<and> length (pipe_content (pipes s' pi)) = PIPESIZE"
      using IH(8) ro good(2) by auto
    ultimately show ?thesis
      unfolding step using IH(1-4,6,7) by (intro exI [of _ out] exI [of _ s'] exI [of _ j]) auto
  qed
qed

subsection \<open>piperead\<close>

lemma user_write_cons:
  assumes "Suc (length bs) < 2 ^ 32"
  shows "user_write (a + 1) bs (user_write a [c] f) = user_write a (c # bs) f"
proof
  fix v
  show "user_write (a + 1) bs (user_write a [c] f) v = user_write a (c # bs) f v"
  proof (cases "v = a")
    case True
    have "unat (a - (a + 1)) = 2 ^ 32 - 1"
      by (simp add: unsigned_minus_1_eq_mask mask_eq_exp_minus_1)
    then show ?thesis using True assms by (simp add: user_write_def)
  next
    case False
    then show ?thesis using unat_diff_Suc [of v a] by (simp add: user_write_def)
  qed
qed

lemma copyout_one:
  assumes "space_inv m pt ps B"
  obtains r m' where "copyout pt va [c] m = Ok (r, m')" "space_inv m' pt ps B"
    "user_entry (pmem m') pt = user_entry (pmem m) pt"
    "user_byte (pmem m') pt = (if r = -1 then user_byte (pmem m) pt else user_write va [c] (user_byte (pmem m) pt))"
    "r = -1 \<longleftrightarrow> user_entry (pmem m) pt va = None"
proof -
  have fit: "unat va + length [c] \<le> 2 ^ 32" using unat_u32_lt [of va] by simp
  obtain r m' k where k: "copyout pt va [c] m = Ok (r, m')" "space_inv m' pt ps B"
    "user_entry (pmem m') pt = user_entry (pmem m) pt"
    "user_byte (pmem m') pt = user_write va (take k [c]) (user_byte (pmem m) pt)"
    "if \<forall>i < length [c]. user_entry (pmem m) pt (va + of_nat i) \<noteq> None then r = 0 \<and> k = length [c]
     else r = -1 \<and> k < length [c]"
    using copyout_spec [OF assms fit] by blast
  show ?thesis
    by (rule that [OF k(1-3)]) (use k(4,5) in \<open>auto split: if_splits\<close>)
qed

lemma piperead_from_spec:
  assumes "space_inv (ph s) pt ps B" "pagetable (procs (sch s) ! pr) = pt" "pipe_inv (pipes s pi)"
    and "k < 2 ^ 32 - 1"
  shows "\<exists>j s' bs. piperead_from pr pi addr i k s = Ok (i + j, s') \<and> j \<le> k \<and> length bs = j \<and>
    space_inv (ph s') pt ps B \<and> pipe_inv (pipes s' pi) \<and>
    user_byte (pmem (ph s')) pt = user_write (addr + of_nat i) bs (user_byte (pmem (ph s)) pt) \<and>
    (\<forall>q. q \<noteq> pi \<longrightarrow> pipes s' q = pipes s q) \<and> sch s' = sch s \<and>
    (pipe_content (pipes s pi) = bs @ pipe_content (pipes s' pi) \<and> (j = k \<or> pipe_content (pipes s' pi) = []) \<or>
     user_entry (pmem (ph s)) pt (addr + of_nat (i + j)) = None \<and>
     (\<exists>lost. pipe_content (pipes s pi) = bs @ lost # pipe_content (pipes s' pi)))"
  using assms
proof (induction k arbitrary: i s)
  case 0
  show ?case by (intro exI [of _ 0] exI [of _ s] exI [of _ "[]"]) (use 0 in simp)
next
  case (Suc k)
  show ?case
  proof (cases "pipe_content (pipes s pi) = []")
    case True
    then show ?thesis
      by (intro exI [of _ 0] exI [of _ s] exI [of _ "[]"]) (use Suc.prems pipe_empty_iff in simp)
  next
    case False
    let ?c = "pipe_first (pipes s pi)" and ?s = "upd_pipe pi pipe_rest s"
    note get = pipe_get_ok [OF Suc.prems(3) False]
    obtain r m where m: "copyout pt (addr + of_nat i) [?c] (ph s) = Ok (r, m)" "space_inv m pt ps B"
      "user_entry (pmem m) pt = user_entry (pmem (ph s)) pt"
      "user_byte (pmem m) pt = (if r = -1 then user_byte (pmem (ph s)) pt
        else user_write (addr + of_nat i) [?c] (user_byte (pmem (ph s)) pt))"
      "r = -1 \<longleftrightarrow> user_entry (pmem (ph s)) pt (addr + of_nat i) = None"
      by (rule copyout_one [OF Suc.prems(1)])
    have step: "piperead_from pr pi addr i (Suc k) s =
        (if r = -1 then Ok (i, upd_ph m ?s) else piperead_from pr pi addr (Suc i) k (upd_ph m ?s))"
      using False m(1) Suc.prems(2) by (simp add: pipe_empty_iff Let_def)
    show ?thesis
    proof (cases "r = -1")
      case True
      show ?thesis
        by (intro exI [of _ 0] exI [of _ "upd_ph m ?s"] exI [of _ "[]"])
           (use True step m get in auto)
    next
      case False
      let ?t = "upd_ph m ?s"
      have p: "space_inv (ph ?t) pt ps B" "pagetable (procs (sch ?t) ! pr) = pt" "pipe_inv (pipes ?t pi)"
        "k < 2 ^ 32 - 1"
        using Suc.prems m(2) get by simp_all
      obtain j s' bs where IH: "piperead_from pr pi addr (Suc i) k ?t = Ok (Suc i + j, s')" "j \<le> k"
        "length bs = j" "space_inv (ph s') pt ps B" "pipe_inv (pipes s' pi)"
        "user_byte (pmem (ph s')) pt = user_write (addr + of_nat (Suc i)) bs (user_byte (pmem (ph ?t)) pt)"
        "\<forall>q. q \<noteq> pi \<longrightarrow> pipes s' q = pipes ?t q" "sch s' = sch ?t"
        "pipe_content (pipes ?t pi) = bs @ pipe_content (pipes s' pi) \<and> (j = k \<or> pipe_content (pipes s' pi) = []) \<or>
         user_entry (pmem (ph ?t)) pt (addr + of_nat (Suc i + j)) = None \<and>
         (\<exists>lost. pipe_content (pipes ?t pi) = bs @ lost # pipe_content (pipes s' pi))"
        using Suc.IH [OF p, of "Suc i"] by (elim exE conjE)
      have w: "user_byte (pmem (ph s')) pt = user_write (addr + of_nat i) (?c # bs) (user_byte (pmem (ph s)) pt)"
        using user_write_cons [of bs "addr + of_nat i" ?c "user_byte (pmem (ph s)) pt"] IH(2,3,6) m(4) False
          Suc.prems(4) by (simp add: add.assoc add.commute [of 1])
      show ?thesis
        by (intro exI [of _ "Suc j"] exI [of _ s'] exI [of _ "?c # bs"])
           (use step False IH(1-5,7-9) w get m(3) in auto)
    qed
  qed
qed

subsection \<open>Properties\<close>

text \<open>Process 0 runs on the demo address space; an open, empty pipe whose counters are about to wrap.\<close>

definition demo_pipe :: pipe where
  "demo_pipe = \<lparr>pdata = replicate PIPESIZE 9, nread = 0xFFFFFFFE, nwrite = 0xFFFFFFFE,
     readopen = True, writeopen = True\<rparr>"

definition demo_user :: kst where
  "demo_user = demo_kst\<lparr>ph := demo_space, pipes := (\<lambda>_. demo_pipe),
     sch := (sch demo_kst)\<lparr>procs := (procs (sch demo_kst))[0 := (procs (sch demo_kst) ! 0)\<lparr>pagetable := 0x8007D000\<rparr>]\<rparr>\<rparr>"

lemma demo_user_ok:
  "space_inv (ph demo_user) 0x8007D000 [] 4096" "me demo_user = Ok 0"
  "pagetable (procs (sch demo_user) ! 0) = 0x8007D000" "pipe_inv (pipes demo_user pi)"
  "pipe_content (pipes demo_user pi) = []"
  using demo_space_inv
  by (simp_all add: demo_user_def demo_kst_def me_def machine_boot_def NPROC_def demo_pipe_def
      pipe_inv_def ring_ok_def PIPESIZE_def pipe_content_def ring_content_def)

text \<open>
  C33: \<open>pipewrite\<close> appends to the pipe exactly the first \<open>j\<close> bytes of the caller's buffer, in
  order and without overrunning the ring, changes no other pipe and no memory, and returns
  \<open>j\<close> (all \<open>n\<close>, or up to an unmapped byte), goes to sleep on a full pipe, or fails because no
  reader is left or the caller was killed.
\<close>

theorem pipewrite_appends:
  assumes "space_inv (ph s) pt ps B" "me s = Ok pr" "pagetable (procs (sch s) ! pr) = pt"
    and "pipe_inv (pipes s pi)"
  shows "\<exists>out s' j. pipewrite pi addr n s = Ok (out, s') \<and> j \<le> nat n \<and> pipe_inv (pipes s' pi) \<and>
    pipe_content (pipes s' pi) = pipe_content (pipes s pi) @ user_bytes s pt addr [0..<j] \<and>
    ph s' = ph s \<and> (\<forall>q. q \<noteq> pi \<longrightarrow> pipes s' q = pipes s q) \<and>
    (out = Returned (int j) \<and> (j = nat n \<or> user_byte (pmem (ph s)) pt (addr + of_nat j) = None) \<or>
     out = Returned (-1) \<and> j = 0 \<and> (\<not> readopen (pipes s pi) \<or> is_killed pr s) \<or>
     out = Sleeping (ChanPipeWrite pi) j \<and> length (pipe_content (pipes s' pi)) = PIPESIZE)"
  using pipewrite_from_spec [OF assms(1,3,4), of addr 0 "nat n"] assms(2)
  by (simp add: pipewrite_def)

theorem pipewrite_appends_witness:
  "\<exists>out s' j. pipewrite 0 0x10 3 demo_user = Ok (out, s') \<and> j \<le> 3 \<and>
    pipe_content (pipes s' 0) = user_bytes demo_user 0x8007D000 0x10 [0..<j]"
  using pipewrite_appends [OF demo_user_ok(1-4), of 0 "0x10" 3] demo_user_ok(5) by auto

text \<open>
  C34: when the pipe holds bytes or has no writer left, \<open>piperead\<close> takes \<open>j\<close> bytes off its
  front and writes exactly those to the caller's buffer: all that are there, up to \<open>n\<close>. It
  stops early only at an unmapped user address, and then the byte it could not store is
  lost. An empty pipe with a writer makes it sleep.
\<close>

theorem piperead_delivers:
  assumes "space_inv (ph s) pt ps B" "me s = Ok pr" "pagetable (procs (sch s) ! pr) = pt"
    and "pipe_inv (pipes s pi)" "n < 2 ^ 31"
  shows "if pipe_content (pipes s pi) = [] \<and> writeopen (pipes s pi)
    then piperead pi addr n s = Ok (if is_killed pr s then Returned (-1) else Sleeping (ChanPipeRead pi) 0, s)
    else \<exists>bs s'. piperead pi addr n s = Ok (Returned (int (length bs)), s') \<and> length bs \<le> nat n \<and>
      pipe_inv (pipes s' pi) \<and>
      user_byte (pmem (ph s')) pt = user_write addr bs (user_byte (pmem (ph s)) pt) \<and>
      (pipe_content (pipes s pi) = bs @ pipe_content (pipes s' pi) \<and>
         (length bs = nat n \<or> pipe_content (pipes s' pi) = []) \<or>
       user_entry (pmem (ph s)) pt (addr + of_nat (length bs)) = None \<and>
         (\<exists>lost. pipe_content (pipes s pi) = bs @ lost # pipe_content (pipes s' pi)))"
proof (cases "pipe_content (pipes s pi) = [] \<and> writeopen (pipes s pi)")
  case True
  then show ?thesis using assms(2) by (simp add: piperead_def pipe_empty_iff)
next
  case False
  have k: "nat n < 2 ^ 32 - 1" using assms(5) by simp
  obtain j s1 bs where r: "piperead_from pr pi addr 0 (nat n) s = Ok (0 + j, s1)" "j \<le> nat n" "length bs = j"
    "pipe_inv (pipes s1 pi)"
    "user_byte (pmem (ph s1)) pt = user_write (addr + of_nat 0) bs (user_byte (pmem (ph s)) pt)"
    "pipe_content (pipes s pi) = bs @ pipe_content (pipes s1 pi) \<and> (j = nat n \<or> pipe_content (pipes s1 pi) = []) \<or>
     user_entry (pmem (ph s)) pt (addr + of_nat (0 + j)) = None \<and>
     (\<exists>lost. pipe_content (pipes s pi) = bs @ lost # pipe_content (pipes s1 pi))"
    using piperead_from_spec [OF assms(1,3,4) k, of addr 0] by blast
  have "piperead pi addr n s = Ok (Returned (int j), kwakeup (ChanPipeWrite pi) s1)"
    using False r(1) assms(2) by (auto simp: piperead_def pipe_empty_iff)
  then show ?thesis
    unfolding if_not_P [OF False] using r
    by (intro exI [of _ bs] exI [of _ "kwakeup (ChanPipeWrite pi) s1"]) auto
qed

theorem piperead_delivers_witness:
  "\<exists>k s'. piperead 0 0x10 3 (upd_pipe 0 (pipe_put 7) demo_user) = Ok (Returned (int k), s') \<and> k \<le> 3"
proof -
  let ?s = "upd_pipe 0 (pipe_put 7) demo_user"
  have full: "\<not> pipe_full (pipes demo_user 0)"
    by (simp add: demo_user_def demo_pipe_def pipe_full_def PIPESIZE_def)
  note put = pipe_put_ok [OF demo_user_ok(4) full, of 7]
  have h: "space_inv (ph ?s) 0x8007D000 [] 4096" "me ?s = Ok 0" "pagetable (procs (sch ?s) ! 0) = 0x8007D000"
    "pipe_inv (pipes ?s 0)" "(3 :: int) < 2 ^ 31"
    using demo_user_ok(1-3) put by (simp_all add: me_def)
  have c: "\<not> (pipe_content (pipes ?s 0) = [] \<and> writeopen (pipes ?s 0))" using put by simp
  obtain bs :: "u8 list" and s' where "piperead 0 0x10 3 ?s = Ok (Returned (int (length bs)), s')" "length bs \<le> nat 3"
    using piperead_delivers [OF h, of "0x10"] unfolding if_not_P [OF c] by blast
  then show ?thesis by (intro exI [of _ "length bs"] exI [of _ s']) simp
qed

text \<open>
  C26: whatever the order of attempts to put a byte into a pipe and to take one out, the
  bytes taken out are a prefix of the bytes accepted, in order, and the rest is still in
  the pipe; the counters may wrap around \<open>2 ^ 32\<close> on the way.
\<close>

theorem pipe_is_fifo:
  assumes "pipe_inv q" "nread q = nwrite q" "pipeq.run xs q = (ins, outs, q')"
  shows "pipe_inv q' \<and> ins = outs @ pipe_content q' \<and> length (pipe_content q') \<le> PIPESIZE"
proof -
  have "pipe_content q = []" using assms(2) pipe_empty_iff by blast
  then have "pipe_inv q'" "ins = outs @ pipe_content q'"
    using pipeq.run_fifo [OF assms(1,3)] by auto
  then show ?thesis by (simp add: pipe_inv_def ring_ok_def)
qed

theorem pipe_is_fifo_witness:
  "fst (pipeq.run [Put 1, Get, Put 2, Put 3] demo_pipe) =
     fst (snd (pipeq.run [Put 1, Get, Put 2, Put 3] demo_pipe)) @
     pipe_content (snd (snd (pipeq.run [Put 1, Get, Put 2, Put 3] demo_pipe)))"
  using pipe_is_fifo [of demo_pipe "[Put 1, Get, Put 2, Put 3]"]
  by (simp add: pipe_inv_def ring_ok_def PIPESIZE_def demo_pipe_def prod_eq_iff [symmetric] surjective_pairing [symmetric])

end
