(* ===== verification/Console_Props.thy ===== *)
theory Console_Props
  imports Pipe_Props Console
begin

text \<open>
  The UART sends the bytes it was given, in order; the console's interrupt handler is a line
  editor on two byte strings, the finished lines and the line being typed; \<open>consoleread\<close> hands
  out one line at a time.
\<close>

subsection \<open>The transmit ring\<close>

definition uart_inv :: "uart \<Rightarrow> bool" where
  "uart_inv u \<longleftrightarrow> ring_ok UART_TX_BUF_SIZE (tx_buf u) (tx_r u) (tx_w u)"

definition uart_content :: "uart \<Rightarrow> u8 list" where
  "uart_content u = ring_content (tx_buf u) (tx_r u) (tx_w u)"

lemma uart_put_ok:
  "uart_inv u \<Longrightarrow> \<not> tx_full u \<Longrightarrow>
   uart_inv (tx_put c u) \<and> uart_content (tx_put c u) = uart_content u @ [c]"
  using ring_ok_put [of UART_TX_BUF_SIZE "tx_buf u" "tx_r u" "tx_w u" c]
  by (simp add: uart_inv_def uart_content_def tx_full_def tx_put_def)

lemma uart_get_ok:
  "uart_inv u \<Longrightarrow> uart_content u \<noteq> [] \<Longrightarrow>
   uart_inv (tx_rest u) \<and> uart_content u = tx_first u # uart_content (tx_rest u)"
  using ring_ok_get [of UART_TX_BUF_SIZE "tx_buf u" "tx_r u" "tx_w u"]
  by (simp add: uart_inv_def uart_content_def tx_first_def tx_rest_def)

interpretation uartq: fifo uart_inv uart_content tx_full tx_put tx_first tx_rest
  by unfold_locales (rule uart_put_ok uart_get_ok; assumption)+

lemma uart_empty_iff: "tx_w u = tx_r u \<longleftrightarrow> uart_content u = []"
  using ring_content_empty [of "tx_buf u" "tx_r u" "tx_w u"] by (auto simp: uart_content_def)

lemma uart_full_iff: "tx_full u \<longleftrightarrow> length (uart_content u) = UART_TX_BUF_SIZE"
  unfolding tx_full_def uart_content_def length_ring_content
  by (rule ring_full_iff) (simp add: UART_TX_BUF_SIZE_def)

lemma upd_uart_sel [simp]:
  "utx (upd_uart f s) = f (utx s)" "cons (upd_uart f s) = cons s" "ph (upd_uart f s) = ph s"
  "sch (upd_uart f s) = sch s" "utx (kwakeup c s) = utx s" "cons (kwakeup c s) = cons s"
  by (simp_all add: upd_uart_def kwakeup_def set_procs_def)

lemma uart_device_sel [simp]:
  "uart_content (uart_send c u) = uart_content u" "uart_inv (uart_send c u) = uart_inv u"
  "usent (uart_send c u) = usent u @ [c]" "uidle (uart_send c u) = uidle u"
  "uart_content (u\<lparr>uidle := bs\<rparr>) = uart_content u" "uart_inv (u\<lparr>uidle := bs\<rparr>) = uart_inv u"
  "usent (tx_rest u) = usent u" "uidle (tx_rest u) = uidle u"
  "usent (tx_put c u) = usent u" "uidle (tx_put c u) = uidle u"
  by (simp_all add: uart_send_def uart_content_def uart_inv_def tx_rest_def tx_put_def)

lemma uartstart_from_spec:
  assumes "uart_inv (utx s)" "length (uart_content (utx s)) < k"
  shows "(let u = utx s; u' = utx (uartstart_from k s);
              n = min (length (uart_content u)) (length (takeWhile id (uidle u)))
          in uart_inv u' \<and> usent u' = usent u @ take n (uart_content u) \<and>
             uart_content u' = drop n (uart_content u))"
  using assms
proof (induction k arbitrary: s)
  case (Suc k)
  let ?u = "utx s"
  show ?case
  proof (cases "uart_content ?u")
    case Nil
    then show ?thesis using Suc.prems by (simp add: uart_empty_iff Let_def)
  next
    case (Cons c cs)
    then have ne: "tx_w ?u \<noteq> tx_r ?u" and get: "uart_inv (tx_rest ?u)" "c = tx_first ?u" "cs = uart_content (tx_rest ?u)"
      using uart_get_ok [of ?u] Suc.prems(1) by (auto simp: uart_empty_iff)
    show ?thesis
    proof (cases "uidle ?u")
      case Nil
      then show ?thesis using Suc.prems ne Cons by (simp add: tx_idle_def Let_def)
    next
      case idle: (Cons b bs)
      show ?thesis
      proof (cases b)
        case False
        then show ?thesis using Suc.prems ne Cons idle by (simp add: tx_idle_def Let_def)
      next
        case True
        let ?t = "upd_uart (uart_send (tx_first ?u)) (kwakeup ChanUartTx (upd_uart tx_rest (upd_uart (\<lambda>_. ?u\<lparr>uidle := bs\<rparr>) s)))"
        have same: "tx_first (?u\<lparr>uidle := bs\<rparr>) = tx_first ?u"
          "uart_content (tx_rest (?u\<lparr>uidle := bs\<rparr>)) = cs" "uart_inv (tx_rest (?u\<lparr>uidle := bs\<rparr>))"
          using get by (simp_all add: tx_first_def tx_rest_def uart_content_def uart_inv_def)
        have step: "uartstart_from (Suc k) s = uartstart_from k ?t"
          using ne idle True same(1) by (simp add: tx_idle_def Let_def)
        have p: "uart_inv (utx ?t)" "length (uart_content (utx ?t)) < k"
          using same Suc.prems(2) Cons by simp_all
        show ?thesis
          using Suc.IH [OF p] Cons get(2) idle True same(2) unfolding step by (simp add: Let_def)
      qed
    qed
  qed
qed simp

lemma uartstart_spec:
  assumes "uart_inv (utx s)"
  shows "(let u = utx s; u' = utx (uartstart s);
              n = min (length (uart_content u)) (length (takeWhile id (uidle u)))
          in uart_inv u' \<and> usent u' = usent u @ take n (uart_content u) \<and>
             uart_content u' = drop n (uart_content u))"
  unfolding uartstart_def
  by (rule uartstart_from_spec [OF assms]) (simp add: uart_content_def)


lemma uartstart_total:
  assumes "uart_inv (utx s)"
  shows "usent (utx (uartstart s)) @ uart_content (utx (uartstart s)) = usent (utx s) @ uart_content (utx s)"
    "uart_inv (utx (uartstart s))"
  using uartstart_spec [OF assms] by (simp_all only: Let_def append_assoc append_take_drop_id)

subsection \<open>What the console prints\<close>

text \<open>Each byte sent synchronously uses up one idle answer of the device.\<close>

definition polls :: "kst \<Rightarrow> nat" where
  "polls s = count_list (uidle (utx s)) True"

definition printed :: "u8 list \<Rightarrow> kst \<Rightarrow> kst \<Rightarrow> bool" where
  "printed bs s s' \<longleftrightarrow>
     (\<exists>is. s' = upd_uart (\<lambda>u. u\<lparr>usent := usent u @ bs, uidle := is\<rparr>) s \<and>
        polls s = count_list is True + length bs)"

lemma printed_Nil [simp]: "printed [] s s"
  unfolding printed_def by (rule exI [of _ "uidle (utx s)"]) (simp add: upd_uart_def polls_def)

lemma printed_trans: "printed a s t \<Longrightarrow> printed b t u \<Longrightarrow> printed (a @ b) s u"
  by (auto simp: printed_def upd_uart_def polls_def)

lemma printed_sel:
  assumes "printed bs s s'"
  shows "cons s' = cons s" "usent (utx s') = usent (utx s) @ bs" "ph s' = ph s" "sch s' = sch s"
    "polls s' = polls s - length bs"
  using assms by (auto simp: printed_def polls_def)

lemma wait_idle_ok: "0 < count_list bs True \<Longrightarrow>
  \<exists>bs'. wait_idle bs = Ok bs' \<and> count_list bs True = Suc (count_list bs' True)"
  by (induction bs) auto

lemma uartputc_sync_ok:
  assumes "0 < polls s"
  shows "\<exists>s'. uartputc_sync c s = Ok s' \<and> printed [c] s s'"
proof -
  obtain bs where "wait_idle (uidle (utx s)) = Ok bs" "polls s = Suc (count_list bs True)"
    using wait_idle_ok assms unfolding polls_def by blast
  then show ?thesis
    unfolding printed_def
    by (intro exI [of _ "upd_uart (\<lambda>u. uart_send c (u\<lparr>uidle := bs\<rparr>)) s"] conjI exI [of _ bs])
       (simp_all add: uartputc_sync_def upd_uart_def uart_send_def)
qed

primrec con_bytes :: "conout \<Rightarrow> u8 list" where
  "con_bytes (Chr b) = [b]"
| "con_bytes Backspace = [8, 32, 8]"

lemma consputc_ok:
  assumes "length (con_bytes c) \<le> polls s"
  shows "\<exists>s'. consputc c s = Ok s' \<and> printed (con_bytes c) s s'"
proof (cases c)
  case (Chr b)
  then show ?thesis using uartputc_sync_ok [of s b] assms by (simp add: consputc_def)
next
  case Backspace
  obtain s1 where 1: "uartputc_sync 8 s = Ok s1" "printed [8] s s1"
    using uartputc_sync_ok [of s 8] assms Backspace by auto
  obtain s2 where 2: "uartputc_sync 32 s1 = Ok s2" "printed [32] s1 s2"
    using uartputc_sync_ok [of s1 32] assms Backspace printed_sel(5) [OF 1(2)] by auto
  obtain s3 where 3: "uartputc_sync 8 s2 = Ok s3" "printed [8] s2 s3"
    using uartputc_sync_ok [of s2 8] assms Backspace printed_sel(5) [OF 1(2)] printed_sel(5) [OF 2(2)] by auto
  show ?thesis
    using 1(1) 2(1) 3(1) Backspace printed_trans [OF 1(2) printed_trans [OF 2(2) 3(2)]]
    by (simp add: consputc_def)
qed


subsection \<open>The line editor\<close>

definition con_inv :: "console \<Rightarrow> bool" where
  "con_inv k \<longleftrightarrow>
     ring_ok INPUT_BUF_SIZE (cbuf k) (con_r k) (con_e k) \<and>
     unat (con_w k - con_r k) \<le> unat (con_e k - con_r k) \<and>
     10 \<notin> set (ring_content (cbuf k) (con_w k) (con_e k))"

text \<open>The bytes ready to be read, and the line being typed.\<close>

definition con_ready :: "console \<Rightarrow> u8 list" where
  "con_ready k = ring_content (cbuf k) (con_r k) (con_w k)"

definition con_line :: "console \<Rightarrow> u8 list" where
  "con_line k = ring_content (cbuf k) (con_w k) (con_e k)"

definition line_edit :: "u8 \<Rightarrow> u8 list \<times> u8 list \<Rightarrow> u8 list \<times> u8 list" where
  "line_edit c = (\<lambda>(ready, line).
     if c = 21 then (ready, [])
     else if c = 8 \<or> c = 127 then (ready, butlast line)
     else if c = 0 \<or> c = 16 \<or> length ready + length line = INPUT_BUF_SIZE then (ready, line)
     else
       let c = (if c = 13 then 10 else c)
       in if c = 10 \<or> c = 4 \<or> length ready + length line + 1 = INPUT_BUF_SIZE
          then (ready @ line @ [c], []) else (ready, line @ [c]))"

definition line_echo :: "u8 \<Rightarrow> u8 list \<times> u8 list \<Rightarrow> u8 list" where
  "line_echo c = (\<lambda>(ready, line).
     if c = 21 then concat (replicate (length line) [8, 32, 8])
     else if c = 8 \<or> c = 127 then (if line = [] then [] else [8, 32, 8])
     else if c = 0 \<or> length ready + length line = INPUT_BUF_SIZE then []
     else [if c = 13 then 10 else c])"

lemma ring_split:
  assumes "unat (w - r) \<le> unat (e - r)"
  shows "ring_content b r e = ring_content b r w @ ring_content b w e"
    "unat (e - r) = unat (w - r) + unat (e - w)"
proof -
  have "e - w = (e - r) - (w - r)" by simp
  then have d: "unat (e - w) = unat (e - r) - unat (w - r)"
    using assms unat_sub_eq [of "e - r" "w - r"] by (simp only: word_le_nat_alt if_True)
  then show len: "unat (e - r) = unat (w - r) + unat (e - w)" using assms by simp
  have w: "w + of_nat i = r + of_nat (i + unat (w - r))" for i by simp
  have upt: "[0..<unat (e - r)] = [0..<unat (w - r)] @ map (\<lambda>i. i + unat (w - r)) [0..<unat (e - w)]"
    unfolding len map_add_upt add.commute [of "unat (e - w)"]
    by (rule upt_add_eq_append [OF le0])
  show "ring_content b r e = ring_content b r w @ ring_content b w e"
    by (simp only: ring_content_def upt map_append map_map o_def w)
qed


lemma con_invD:
  assumes "con_inv k"
  shows "ring_content (cbuf k) (con_r k) (con_e k) = con_ready k @ con_line k"
    "unat (con_e k - con_r k) = length (con_ready k) + length (con_line k)"
    "length (cbuf k) = INPUT_BUF_SIZE" "length (con_ready k) + length (con_line k) \<le> INPUT_BUF_SIZE"
    "10 \<notin> set (con_line k)"
  using assms ring_split(1) [of "con_w k" "con_r k" "con_e k" "cbuf k"]
    ring_split(2) [of "con_w k" "con_r k" "con_e k"]
  by (simp_all add: con_inv_def con_ready_def con_line_def ring_ok_def)

lemma con_line_empty: "con_line k = [] \<longleftrightarrow> con_e k = con_w k"
  using ring_content_empty [of "cbuf k" "con_w k" "con_e k"] by (auto simp: con_line_def)

text \<open>Erasing the last character of the line.\<close>

lemma con_erase:
  assumes "con_inv k" "con_line k \<noteq> []"
  defines "k' \<equiv> k\<lparr>con_e := con_e k - 1\<rparr>"
  shows "con_inv k'" "con_ready k' = con_ready k" "con_line k' = butlast (con_line k)"
    "con_at (con_e k - 1) k \<noteq> 10"
proof -
  note D = con_invD [OF assms(1)]
  have ne: "con_w k \<noteq> con_e k" using assms(2) con_line_empty by metis
  note u = ring_unput [OF ne, of "cbuf k"]
  show r: "con_ready k' = con_ready k" by (simp add: k'_def con_ready_def)
  show l: "con_line k' = butlast (con_line k)" using u(1) by (simp add: k'_def con_line_def)
  have "con_at (con_e k - 1) k = last (con_line k)"
    using u(2) D(3) by (simp add: con_at_def con_line_def)
  then show "con_at (con_e k - 1) k \<noteq> 10" using D(5) assms(2) last_in_set by metis
  have lt: "unat (con_w k - con_r k) < unat (con_e k - con_r k)"
    using D(2) assms(2) by (simp add: con_ready_def)
  then have "unat (con_e k - con_r k) = Suc (unat (con_e k - 1 - con_r k))"
    using unat_diff_Suc [of "con_e k" "con_r k"] by (cases "con_e k = con_r k") (simp_all add: diff_diff_eq add.commute)
  then show "con_inv k'"
    using assms(1) lt l D(5) in_set_butlastD [of 10 "con_line k"]
    by (auto simp: con_inv_def k'_def ring_ok_def con_line_def)
qed


text \<open>Typing a character, and ending the line after it.\<close>

lemma con_type:
  assumes "con_inv k" "length (con_ready k) + length (con_line k) < INPUT_BUF_SIZE"
  shows "con_ready (con_put c k) = con_ready k" "con_line (con_put c k) = con_line k @ [c]"
    "c \<noteq> 10 \<Longrightarrow> con_inv (con_put c k)"
    "con_inv ((con_put c k)\<lparr>con_w := con_e (con_put c k)\<rparr>)"
    "con_ready ((con_put c k)\<lparr>con_w := con_e (con_put c k)\<rparr>) = con_ready k @ con_line k @ [c]"
    "con_line ((con_put c k)\<lparr>con_w := con_e (con_put c k)\<rparr>) = []"
    "unat (con_e (con_put c k) - con_r (con_put c k)) = length (con_ready k) + length (con_line k) + 1"
proof -
  let ?b = "(cbuf k)[unat (con_e k) mod INPUT_BUF_SIZE := c]"
  note D = con_invD [OF assms(1)]
  have N: "length (cbuf k) = INPUT_BUF_SIZE" "INPUT_BUF_SIZE dvd 2 ^ 32" "INPUT_BUF_SIZE < 2 ^ 32"
    using D(3) by (simp_all add: INPUT_BUF_SIZE_def)
  have len: "length (con_line k) = unat (con_e k - con_w k)" by (simp add: con_line_def)
  then have lt: "unat (con_e k - con_w k) < INPUT_BUF_SIZE" "unat (con_e k - con_r k) < INPUT_BUF_SIZE"
    using assms(2) D(2) by simp_all
  have s: "unat (con_e k + 1 - con_r k) = Suc (unat (con_e k - con_r k))"
    by (rule ring_step) (use lt in \<open>simp add: INPUT_BUF_SIZE_def\<close>)
  have all: "ring_content ?b (con_r k) (con_e k + 1) = (con_ready k @ con_line k) @ [c]"
    unfolding D(1) [symmetric] by (rule ring_put [OF N(1,2) lt(2) N(3)])
  have line: "ring_content ?b (con_w k) (con_e k + 1) = con_line k @ [c]"
    unfolding con_line_def by (rule ring_put [OF N(1,2) lt(1) N(3)])
  have le: "unat (con_w k - con_r k) \<le> unat (con_e k + 1 - con_r k)"
    using assms(1) s by (simp add: con_inv_def)
  have ready: "ring_content ?b (con_r k) (con_w k) = con_ready k"
    using ring_split(1) [OF le, of ?b] all line by simp
  show "con_ready (con_put c k) = con_ready k" "con_line (con_put c k) = con_line k @ [c]"
    using ready line by (simp_all add: con_put_def con_ready_def con_line_def)
  show "unat (con_e (con_put c k) - con_r (con_put c k)) = length (con_ready k) + length (con_line k) + 1"
    using s D(2) by (simp add: con_put_def)
  have ok: "ring_ok INPUT_BUF_SIZE ?b (con_r k) (con_e k + 1)"
    unfolding ring_ok_def s using N lt(2) by simp
  show "con_inv (con_put c k)" if "c \<noteq> 10"
    using ok le line D(5) that by (simp add: con_inv_def con_put_def)
  show "con_inv ((con_put c k)\<lparr>con_w := con_e (con_put c k)\<rparr>)"
    using ok ring_content_empty by (auto simp: con_inv_def con_put_def ring_content_def)
  show "con_ready ((con_put c k)\<lparr>con_w := con_e (con_put c k)\<rparr>) = con_ready k @ con_line k @ [c]"
    "con_line ((con_put c k)\<lparr>con_w := con_e (con_put c k)\<rparr>) = []"
    using all by (simp_all add: con_put_def con_ready_def con_line_def ring_content_def)
qed

lemma upd_cons_sel [simp]:
  "cons (upd_cons f s) = f (cons s)" "utx (upd_cons f s) = utx s" "ph (upd_cons f s) = ph s"
  "sch (upd_cons f s) = sch s" "polls (upd_cons f s) = polls s"
  by (simp_all add: upd_cons_def polls_def)

lemma kill_line_spec:
  assumes "con_inv (cons s)" "length (con_line (cons s)) \<le> k" "3 * length (con_line (cons s)) \<le> polls s"
  shows "\<exists>s'. kill_line k s = Ok s' \<and> con_inv (cons s') \<and> con_ready (cons s') = con_ready (cons s) \<and>
    con_line (cons s') = [] \<and>
    usent (utx s') = usent (utx s) @ concat (replicate (length (con_line (cons s))) [8, 32, 8])"
  using assms
proof (induction k arbitrary: s)
  case (Suc k)
  show ?case
  proof (cases "con_line (cons s) = []")
    case True
    then show ?thesis using Suc.prems by (simp add: con_line_empty)
  next
    case False
    let ?s = "upd_cons (\<lambda>c. c\<lparr>con_e := con_e c - 1\<rparr>) s"
    note e = con_erase [OF Suc.prems(1) False]
    have pos: "0 < length (con_line (cons s))" using False by simp
    obtain t where t: "consputc Backspace ?s = Ok t" "printed [8, 32, 8] ?s t"
      using consputc_ok [of Backspace ?s] Suc.prems(3) pos by auto
    note pt = printed_sel [OF t(2)]
    have step: "kill_line (Suc k) s = kill_line k t"
      using False e(4) t(1) by (simp add: con_line_empty)
    have p: "con_inv (cons t)" "length (con_line (cons t)) \<le> k" "3 * length (con_line (cons t)) \<le> polls t"
      using e pt Suc.prems(2,3) by simp_all
    obtain s' where IH: "kill_line k t = Ok s'" "con_inv (cons s')" "con_ready (cons s') = con_ready (cons t)"
      "con_line (cons s') = []"
      "usent (utx s') = usent (utx t) @ concat (replicate (length (con_line (cons t))) [8, 32, 8])"
      using Suc.IH [OF p] by (elim exE conjE)
    have "Suc (length (con_line (cons t))) = length (con_line (cons s))" using pt(1) e(3) pos by simp
    then have "concat (replicate (length (con_line (cons s))) [8, 32, 8]) =
        [8, 32, 8] @ concat (replicate (length (con_line (cons t))) [8, 32, 8 :: u8])"
      by (simp only: replicate_Suc concat.simps flip: \<open>Suc (length (con_line (cons t))) = _\<close>)
    then show ?thesis unfolding step using IH pt e(2) by simp
  qed
qed simp


lemma consoleintr_spec:
  assumes "con_inv (cons s)" "c \<noteq> 16" "3 * length (con_line (cons s)) + 3 \<le> polls s"
  defines "e \<equiv> (con_ready (cons s), con_line (cons s))"
  shows "\<exists>s'. consoleintr c s = Ok s' \<and> con_inv (cons s') \<and>
    (con_ready (cons s'), con_line (cons s')) = line_edit c e \<and>
    usent (utx s') = usent (utx s) @ line_echo c e"
proof -
  let ?k = "cons s" let ?r = "con_ready ?k" and ?l = "con_line ?k"
  note D = con_invD [OF assms(1)]
  consider (kill) "c = 21" | (erase) "c = 8 \<or> c = 127" "c \<noteq> 21"
    | (ignore) "c = 0 \<or> length ?r + length ?l = INPUT_BUF_SIZE" "c \<noteq> 21" "c \<noteq> 8" "c \<noteq> 127"
    | (char) "c \<noteq> 0" "length ?r + length ?l < INPUT_BUF_SIZE" "c \<noteq> 21" "c \<noteq> 8" "c \<noteq> 127"
    using D(4) by fastforce
  then show ?thesis
  proof cases
    case kill
    then show ?thesis
      using kill_line_spec [OF assms(1), of "unat (con_e ?k - con_w ?k)"] assms(3)
      by (simp add: consoleintr_def line_edit_def line_echo_def e_def con_line_def)
  next
    case erase
    show ?thesis
    proof (cases "?l = []")
      case True
      then show ?thesis using erase assms con_line_empty [of ?k]
        by (simp add: consoleintr_def line_edit_def line_echo_def)
    next
      case False
      let ?s = "upd_cons (\<lambda>k. k\<lparr>con_e := con_e k - 1\<rparr>) s"
      note er = con_erase [OF assms(1) False]
      obtain t where t: "consputc Backspace ?s = Ok t" "printed [8, 32, 8] ?s t"
        using consputc_ok [of Backspace ?s] assms(3) by auto
      have "consoleintr c s = Ok t"
        using erase assms(2) False t(1) by (simp add: consoleintr_def con_line_empty)
      then show ?thesis
        using printed_sel [OF t(2)] er erase False by (auto simp: line_edit_def line_echo_def e_def)
    qed
  next
    case ignore
    have "\<not> con_e ?k - con_r ?k < of_nat INPUT_BUF_SIZE" if "length ?r + length ?l = INPUT_BUF_SIZE"
      using that D(2) by (simp add: word_less_nat_alt INPUT_BUF_SIZE_def)
    then have "consoleintr c s = Ok s" using ignore assms(2) by (auto simp: consoleintr_def)
    then show ?thesis using ignore assms(1) by (auto simp: line_edit_def line_echo_def e_def)
  next
    case char
    let ?c = "if c = 13 then 10 else c"
    note ty = con_type [OF assms(1) char(2), of ?c]
    obtain t where t: "consputc (Chr ?c) s = Ok t" "printed [?c] s t"
      using consputc_ok [of "Chr ?c" s] assms(3) by auto
    note pt = printed_sel [OF t(2)]
    let ?u = "upd_cons (con_put ?c) t"
    have lt: "con_e ?k - con_r ?k < of_nat INPUT_BUF_SIZE"
      using char(2) D(2) by (simp add: word_less_nat_alt INPUT_BUF_SIZE_def)
    have full: "con_e (cons ?u) - con_r (cons ?u) = of_nat INPUT_BUF_SIZE \<longleftrightarrow>
        length ?r + length ?l + 1 = INPUT_BUF_SIZE"
      using ty(7) pt(1) by (simp add: word_unat_eq_iff INPUT_BUF_SIZE_def)
    let ?ends = "?c = 10 \<or> ?c = 4 \<or> length ?r + length ?l + 1 = INPUT_BUF_SIZE"
    have step: "consoleintr c s = Ok (if ?ends
        then kwakeup ChanConsR (upd_cons (\<lambda>k. k\<lparr>con_w := con_e k\<rparr>) ?u) else ?u)"
      using char assms(2) lt t(1) full by (simp add: consoleintr_def Let_def)
    have ch: "line_echo c e = [?c]"
      "line_edit c e = (if ?ends then (?r @ ?l @ [?c], []) else (?r, ?l @ [?c]))"
      using char assms(2) by (auto simp: line_echo_def line_edit_def e_def Let_def)
    show ?thesis
    proof (cases ?ends)
      case True
      then show ?thesis unfolding step ch using ty(4-6) pt(1,2) by simp
    next
      case False
      then show ?thesis unfolding step ch using ty(1-3) pt(1,2) by simp
    qed
  qed
qed


subsection \<open>Reading a line\<close>

text \<open>
  What \<open>consoleread\<close> makes of the ready bytes when \<open>i\<close> are delivered and \<open>k\<close> still wanted:
  the outcome, the bytes delivered and the bytes left.
\<close>

fun con_deliver :: "nat \<Rightarrow> nat \<Rightarrow> u8 list \<Rightarrow> int outcome \<times> u8 list \<times> u8 list" where
  "con_deliver i 0 xs = (Returned (int i), [], xs)"
| "con_deliver i (Suc k) [] = (Sleeping ChanConsR i, [], [])"
| "con_deliver i (Suc k) (c # cs) =
     (if c = 4 then (Returned (int i), [], if 0 < i then c # cs else cs)
      else if c = 10 then (Returned (int i + 1), [c], cs)
      else (case con_deliver (Suc i) k cs of (x, bs, rest) \<Rightarrow> (x, c # bs, rest)))"

lemma con_get:
  assumes "con_inv k" "con_ready k \<noteq> []"
  shows "con_inv (k\<lparr>con_r := con_r k + 1\<rparr>)"
    "con_ready k = con_at (con_r k) k # con_ready (k\<lparr>con_r := con_r k + 1\<rparr>)"
    "con_line (k\<lparr>con_r := con_r k + 1\<rparr>) = con_line k"
proof -
  have ne: "con_r k \<noteq> con_w k" using assms(2) ring_content_empty by (auto simp: con_ready_def)
  note D = con_invD [OF assms(1)]
  show "con_ready k = con_at (con_r k) k # con_ready (k\<lparr>con_r := con_r k + 1\<rparr>)"
    using ring_get [OF ne, of "cbuf k"] D(3) by (simp add: con_ready_def con_at_def)
  show "con_line (k\<lparr>con_r := con_r k + 1\<rparr>) = con_line k" by (simp add: con_line_def)
  have w: "unat (con_w k - con_r k) = Suc (unat (con_w k - (con_r k + 1)))"
    by (rule unat_diff_Suc) (use ne in simp)
  then have "con_e k \<noteq> con_r k" using assms(1) by (auto simp: con_inv_def)
  then have "unat (con_e k - con_r k) = Suc (unat (con_e k - (con_r k + 1)))" by (rule unat_diff_Suc)
  then show "con_inv (k\<lparr>con_r := con_r k + 1\<rparr>)"
    using assms(1) w by (simp add: con_inv_def ring_ok_def)
qed

lemma con_ready_empty: "con_r k = con_w k \<longleftrightarrow> con_ready k = []"
  using ring_content_empty by (simp add: con_ready_def)

lemma upd_ph_cons [simp]: "cons (upd_ph p s) = cons s" "is_killed i (upd_cons f s) = is_killed i s"
  by (simp_all add: upd_ph_def is_killed_def)

lemma copyout_user:
  assumes "space_inv (ph s) pt ps B" "me s = Ok pr" "pagetable (procs (sch s) ! pr) = pt"
    and "user_entry (pmem (ph s)) pt va \<noteq> None"
  obtains m where "either_copyout (UserDst va) [c] s = Ok (0, upd_ph m s)" "space_inv m pt ps B"
    "user_entry (pmem m) pt = user_entry (pmem (ph s)) pt"
    "user_byte (pmem m) pt = user_write va [c] (user_byte (pmem (ph s)) pt)"
proof -
  have fit: "unat va + length [c] \<le> 2 ^ 32" using unat_u32_lt [of va] by simp
  obtain r m k where m: "copyout pt va [c] (ph s) = Ok (r, m)" "space_inv m pt ps B"
    "user_entry (pmem m) pt = user_entry (pmem (ph s)) pt"
    "user_byte (pmem m) pt = user_write va (take k [c]) (user_byte (pmem (ph s)) pt)"
    "if \<forall>i < length [c]. user_entry (pmem (ph s)) pt (va + of_nat i) \<noteq> None then r = 0 \<and> k = length [c]
     else r = -1 \<and> k < length [c]"
    using copyout_spec [OF assms(1) fit] by blast
  have "r = 0" "k = 1" using m(5) assms(4) by simp_all
  then show ?thesis
    using that m assms(2,3) by (simp add: either_copyout_def my_pagetable_def)
qed


lemma me_upd [simp]: "me (upd_cons f s) = me s" "me (upd_ph p s) = me s"
  by (simp_all add: me_def upd_ph_def)

lemma bspec_Suc: "\<forall>j < Suc k. Q (of_nat j :: u32) \<Longrightarrow> j < k \<Longrightarrow> Q (1 + of_nat j)"
  by (metis Suc_less_eq of_nat_Suc)

lemma consoleread_from_spec:
  assumes "con_inv (cons s)" "space_inv (ph s) pt ps B" "me s = Ok pr"
    and "pagetable (procs (sch s) ! pr) = pt" "\<not> is_killed pr s" "k < 2 ^ 32 - 1"
    and "\<forall>j < k. user_entry (pmem (ph s)) pt (va + of_nat j) \<noteq> None"
    and "con_deliver i k (con_ready (cons s)) = (x, bs, rest)"
  shows "\<exists>s'. consoleread_from pr (i + k) (UserDst va) k s = Ok (x, s') \<and> con_inv (cons s') \<and>
    con_ready (cons s') = rest \<and> con_line (cons s') = con_line (cons s) \<and>
    user_byte (pmem (ph s')) pt = user_write va bs (user_byte (pmem (ph s)) pt) \<and> length bs \<le> k"
  using assms
proof (induction k arbitrary: i va s bs)
  case (Suc k)
  show ?case
  proof (cases "con_ready (cons s)")
    case Nil
    then show ?thesis using Suc.prems con_ready_empty by simp
  next
    case (Cons c cs)
    let ?s = "upd_cons (\<lambda>k. k\<lparr>con_r := con_r k + 1\<rparr>) s"
    have ne: "con_ready (cons s) \<noteq> []" using Cons by simp
    note get = con_get [OF Suc.prems(1) ne]
    have c: "con_at (con_r (cons s)) (cons s) = c" "con_ready (cons ?s) = cs"
      using get(2) Cons by simp_all
    have nr: "con_r (cons s) \<noteq> con_w (cons s)" using ne con_ready_empty by simp
    show ?thesis
    proof (cases "c = 4")
      case True
      then have r: "x = Returned (int i)" "bs = []" "rest = (if 0 < i then c # cs else cs)"
        using Suc.prems(8) Cons by auto
      have undo: "upd_cons (\<lambda>k. k\<lparr>con_r := con_r k - 1\<rparr>) ?s = s" by (simp add: upd_cons_def)
      show ?thesis
        using True r nr c Suc.prems(1) get Cons undo by (simp add: Let_def)
    next
      case False
      have m1: "space_inv (ph ?s) pt ps B" "me ?s = Ok pr" "pagetable (procs (sch ?s) ! pr) = pt"
        "user_entry (pmem (ph ?s)) pt va \<noteq> None"
        using Suc.prems(2-4) Suc.prems(7) [rule_format, of 0] by simp_all
      obtain m where m: "either_copyout (UserDst va) [c] ?s = Ok (0, upd_ph m ?s)" "space_inv m pt ps B"
        "user_entry (pmem m) pt = user_entry (pmem (ph ?s)) pt"
        "user_byte (pmem m) pt = user_write va [c] (user_byte (pmem (ph ?s)) pt)"
        by (rule copyout_user [OF m1])
      let ?t = "upd_ph m ?s"
      show ?thesis
      proof (cases "c = 10")
        case True
        then have r: "x = Returned (int i + 1)" "bs = [10]" "rest = cs"
          using Suc.prems(8) Cons by simp_all
        show ?thesis
          using True r nr c m get by (simp add: Let_def)
      next
        case nl: False
        obtain bs1 where b: "con_deliver (Suc i) k cs = (x, bs1, rest)" "bs = c # bs1"
          using Suc.prems(8) Cons False nl by (auto split: prod.splits)
        have step: "consoleread_from pr (i + Suc k) (UserDst va) (Suc k) s =
            consoleread_from pr (Suc i + k) (UserDst (va + 1)) k ?t"
          using False nl nr c m(1) by (simp add: Let_def)
        have p: "con_inv (cons ?t)" "space_inv (ph ?t) pt ps B" "me ?t = Ok pr"
          "pagetable (procs (sch ?t) ! pr) = pt" "\<not> is_killed pr ?t" "k < 2 ^ 32 - 1"
          "\<forall>j < k. user_entry (pmem (ph ?t)) pt ((va + 1) + of_nat j) \<noteq> None"
          "con_deliver (Suc i) k (con_ready (cons ?t)) = (x, bs1, rest)"
          using Suc.prems(2-6) get(1) m b(1) c(2) bspec_Suc [OF Suc.prems(7)] by (simp_all add: add.assoc)
        obtain s' where IH: "consoleread_from pr (Suc i + k) (UserDst (va + 1)) k ?t = Ok (x, s')"
          "con_inv (cons s')" "con_ready (cons s') = rest" "con_line (cons s') = con_line (cons ?t)"
          "user_byte (pmem (ph s')) pt = user_write (va + 1) bs1 (user_byte (pmem (ph ?t)) pt)" "length bs1 \<le> k"
          using Suc.IH [OF p] by (elim exE conjE)
        have "user_byte (pmem (ph s')) pt = user_write va bs (user_byte (pmem (ph s)) pt)"
          using user_write_cons [of bs1 va c "user_byte (pmem (ph s)) pt"] IH(5,6) m(4) b(2) Suc.prems(6) by simp
        then show ?thesis unfolding step using IH get(3) b(2) by simp
      qed
    qed
  qed
qed simp


lemma con_deliver_stop:
  assumes "10 \<notin> set ln" "4 \<notin> set ln" "rest \<noteq> [] \<longrightarrow> hd rest \<in> {4, 10}"
  shows "con_deliver i k (ln @ rest) =
    (if k \<le> length ln then (Returned (int (i + k)), take k ln, drop k ln @ rest)
     else if rest = [] then (Sleeping ChanConsR (i + length ln), ln, [])
     else if hd rest = 10 then (Returned (int (i + length ln + 1)), ln @ [10], tl rest)
     else (Returned (int (i + length ln)), ln, if i + length ln = 0 then tl rest else rest))"
  using assms
proof (induction ln arbitrary: i k)
  case Nil
  show ?case
  proof (cases k)
    case (Suc j)
    show ?thesis using Nil Suc by (cases rest) auto
  qed simp
next
  case (Cons c ln)
  show ?case
  proof (cases k)
    case (Suc j)
    have "con_deliver (Suc i) j (ln @ rest) =
      (if j \<le> length ln then (Returned (int (Suc i + j)), take j ln, drop j ln @ rest)
       else if rest = [] then (Sleeping ChanConsR (Suc i + length ln), ln, [])
       else if hd rest = 10 then (Returned (int (Suc i + length ln + 1)), ln @ [10], tl rest)
       else (Returned (int (Suc i + length ln)), ln, if Suc i + length ln = 0 then tl rest else rest))"
      by (rule Cons.IH) (use Cons.prems in simp_all)
    note IH = this
    consider "j \<le> length ln" | "\<not> j \<le> length ln" "rest = []" | "\<not> j \<le> length ln" "rest \<noteq> []" "hd rest = 10"
      | "\<not> j \<le> length ln" "rest \<noteq> []" "hd rest \<noteq> 10" by blast
    then show ?thesis using IH Cons.prems(1,2) Suc by cases simp_all
  qed simp
qed

subsection \<open>Properties\<close>

definition demo_con :: kst where
  "demo_con = demo_user\<lparr>utx := (utx demo_user)\<lparr>uidle := replicate 6 True\<rparr>\<rparr>"

lemma demo_con_ok:
  "con_inv (cons demo_con)" "con_ready (cons demo_con) = []" "con_line (cons demo_con) = []"
  "polls demo_con = 6" "uart_inv (utx demo_con)" "uart_content (utx demo_con) = []"
  "usent (utx demo_con) = []"
proof -
  have "count_list (replicate 6 True) True = 6" by (simp add: numeral_eq_Suc)
  then show "polls demo_con = 6" by (simp add: demo_con_def polls_def)
qed (simp_all add: demo_con_def demo_user_def demo_kst_def con_inv_def ring_ok_def INPUT_BUF_SIZE_def
      ring_content_def con_ready_def con_line_def uart_inv_def UART_TX_BUF_SIZE_def uart_content_def)

text \<open>
  the UART sends what it was given, in order. \<open>uartputc\<close> either finds the ring full and
  lets its caller sleep, or the bytes sent followed by the bytes waiting grow by exactly the
  new byte; \<open>uartstart\<close> sends as many waiting bytes as the transmitter takes before it is
  busy, and loses none.
\<close>

theorem uart_sends_in_order:
  assumes "uart_inv (utx s)"
  shows "(case uartputc c s of
       None \<Rightarrow> length (uart_content (utx s)) = UART_TX_BUF_SIZE
     | Some s' \<Rightarrow> uart_inv (utx s') \<and>
         usent (utx s') @ uart_content (utx s') = usent (utx s) @ uart_content (utx s) @ [c]) \<and>
    (let n = length (takeWhile id (uidle (utx s)))
     in usent (utx (uartstart s)) = usent (utx s) @ take n (uart_content (utx s)) \<and>
        uart_content (utx (uartstart s)) = drop n (uart_content (utx s)))"
proof -
  have take_min: "take (min (length xs) n) xs = take n xs" "drop (min (length xs) n) xs = drop n xs"
    for xs :: "u8 list" and n by (simp_all add: min_def)
  have "case uartputc c s of
       None \<Rightarrow> length (uart_content (utx s)) = UART_TX_BUF_SIZE
     | Some s' \<Rightarrow> uart_inv (utx s') \<and>
         usent (utx s') @ uart_content (utx s') = usent (utx s) @ uart_content (utx s) @ [c]"
  proof (cases "tx_full (utx s)")
    case True
    then show ?thesis by (simp add: uartputc_def uart_full_iff)
  next
    case False
    note put = uartq.put_law [OF assms False, of c]
    have inv: "uart_inv (utx (upd_uart (tx_put c) s))" using put by simp
    show ?thesis
      using uartstart_total [OF inv] put False by (simp add: uartputc_def)
  qed
  then show ?thesis using uartstart_spec [OF assms] by (simp add: Let_def take_min)
qed

theorem uart_sends_in_order_witness:
  "case uartputc 65 demo_con of None \<Rightarrow> False
   | Some s' \<Rightarrow> usent (utx s') @ uart_content (utx s') = [65]"
  using uart_sends_in_order [OF demo_con_ok(5), of 65] demo_con_ok(6,7)
  by (simp add: UART_TX_BUF_SIZE_def split: option.splits)

text \<open>
  C27: the console's interrupt handler is the line editor \<open>line_edit\<close>. Whatever the positions
  of its three wrapping counters, a key other than control-P changes the pair of finished
  lines and unfinished line as \<open>line_edit\<close> says (control-U kills the line, backspace and
  delete erase one character and never past its start, carriage return becomes newline, a
  newline, control-D or full buffer finishes the line, a key that does not fit is dropped)
  and prints the echo. It returns whenever the transmitter becomes idle often enough.
\<close>

theorem console_edits_lines:
  assumes "con_inv (cons s)" "c \<noteq> 16" "3 * length (con_line (cons s)) + 3 \<le> polls s"
  shows "\<exists>s'. consoleintr c s = Ok s' \<and> con_inv (cons s') \<and>
    (con_ready (cons s'), con_line (cons s')) = line_edit c (con_ready (cons s), con_line (cons s)) \<and>
    usent (utx s') = usent (utx s) @ line_echo c (con_ready (cons s), con_line (cons s))"
  using consoleintr_spec [OF assms] .

theorem console_edits_lines_witness:
  "\<exists>s'. consoleintr 13 demo_con = Ok s' \<and> con_ready (cons s') = [10] \<and> con_line (cons s') = [] \<and>
    usent (utx s') = [10]"
  using console_edits_lines [OF demo_con_ok(1), of 13] demo_con_ok(2,3,4,7)
  by (auto simp: line_edit_def line_echo_def INPUT_BUF_SIZE_def)

text \<open>
  A read from the console delivers one line. With the characters \<open>ln\<close> before the first
  newline or control-D, \<open>consoleread\<close> of \<open>n\<close> bytes into mapped user memory returns at most
  \<open>n\<close> bytes of \<open>ln\<close>, then the newline if it fits; a control-D ends the read, is consumed
  when it comes first and left for the next read otherwise; with no line finished the
  reader sleeps after taking what is there. What is not delivered stays.
\<close>

theorem consoleread_one_line:
  assumes "con_inv (cons s)" "space_inv (ph s) pt ps B" "me s = Ok pr"
    and "pagetable (procs (sch s) ! pr) = pt" "\<not> is_killed pr s" "n < 2 ^ 31"
    and "\<forall>j < nat n. user_entry (pmem (ph s)) pt (va + of_nat j) \<noteq> None"
    and "con_ready (cons s) = ln @ rest" "10 \<notin> set ln" "4 \<notin> set ln" "rest \<noteq> [] \<longrightarrow> hd rest \<in> {4, 10}"
  shows "\<exists>x bs left s'. consoleread (UserDst va) n s = Ok (x, s') \<and>
    user_byte (pmem (ph s')) pt = user_write va bs (user_byte (pmem (ph s)) pt) \<and>
    con_ready (cons s') = left \<and> con_line (cons s') = con_line (cons s) \<and> con_inv (cons s') \<and>
    (x, bs, left) =
      (if nat n \<le> length ln then (Returned (int (nat n)), take (nat n) ln, drop (nat n) ln @ rest)
       else if rest = [] then (Sleeping ChanConsR (length ln), ln, [])
       else if hd rest = 10 then (Returned (int (length ln + 1)), ln @ [10], tl rest)
       else (Returned (int (length ln)), ln, if ln = [] then tl rest else rest))"
proof -
  obtain x bs left where d: "con_deliver 0 (nat n) (con_ready (cons s)) = (x, bs, left)"
    by (metis prod_cases3)
  have n: "nat n < 2 ^ 32 - 1" using assms(6) by simp
  obtain s' where s': "consoleread_from pr (0 + nat n) (UserDst va) (nat n) s = Ok (x, s')"
    "con_inv (cons s')" "con_ready (cons s') = left" "con_line (cons s') = con_line (cons s)"
    "user_byte (pmem (ph s')) pt = user_write va bs (user_byte (pmem (ph s)) pt)"
    using consoleread_from_spec [OF assms(1-5) n assms(7) d] by (elim exE conjE)
  have "(x, bs, left) =
      (if nat n \<le> length ln then (Returned (int (nat n)), take (nat n) ln, drop (nat n) ln @ rest)
       else if rest = [] then (Sleeping ChanConsR (length ln), ln, [])
       else if hd rest = 10 then (Returned (int (length ln + 1)), ln @ [10], tl rest)
       else (Returned (int (length ln)), ln, if ln = [] then tl rest else rest))"
    using con_deliver_stop [OF assms(9-11), of 0 "nat n"] d unfolding assms(8) by auto
  then show ?thesis using s' assms(3) by (auto simp: consoleread_def)
qed

text \<open>The line \<open>hi\<close> is waiting and a read of four bytes is made.\<close>

definition demo_hi :: kst where
  "demo_hi = demo_con\<lparr>cons := \<lparr>cbuf = [104, 105, 10] @ replicate 125 0, con_r = 0, con_w = 3, con_e = 3\<rparr>\<rparr>"

lemma all_less_4: "(\<forall>j < 4. P j) \<longleftrightarrow> P 0 \<and> P 1 \<and> P 2 \<and> P (3 :: nat)"
  by (simp add: numeral_eq_Suc All_less_Suc2)

theorem consoleread_one_line_witness:
  "\<exists>s'. consoleread (UserDst 0x10) 4 demo_hi = Ok (Returned 3, s') \<and> con_ready (cons s') = [] \<and>
     user_byte (pmem (ph s')) 0x8007D000 =
       user_write 0x10 [104, 105, 10] (user_byte (pmem (ph demo_hi)) 0x8007D000)"
proof -
  have c: "con_inv (cons demo_hi)" "con_ready (cons demo_hi) = [104, 105] @ [10]"
    by (simp_all add: demo_hi_def con_inv_def ring_ok_def INPUT_BUF_SIZE_def ring_content_def con_ready_def
        upt_conv_Cons)
  have p: "space_inv (ph demo_hi) 0x8007D000 [] 4096" "me demo_hi = Ok 0"
    "pagetable (procs (sch demo_hi) ! 0) = 0x8007D000" "\<not> is_killed 0 demo_hi" "(4 :: int) < 2 ^ 31"
    "ph demo_hi = demo_space"
    using demo_space_inv
    by (simp_all add: demo_hi_def demo_con_def demo_user_def demo_kst_def me_def is_killed_def
        machine_boot_def NPROC_def proc_zero_def)
  have m: "\<forall>j < nat 4. user_entry (pmem (ph demo_hi)) 0x8007D000 (0x10 + of_nat j) \<noteq> None"
    by (simp add: p(6) demo_user_entry same_page_def all_less_4)
  show ?thesis
    using consoleread_one_line [OF c(1) p(1-5) m c(2)] by auto
qed

end
