(* ===== verification/Printf_Props.thy ===== *)
theory Printf_Props
  imports Printf
begin

text \<open>
  Numbers printed by the kernel read back as the numbers they were: \<open>digit_value\<close> and
  \<open>number_of\<close> are a reader for what \<open>printint\<close> and \<open>printptr\<close> write.
\<close>

definition digit_value :: "u8 \<Rightarrow> nat" where
  "digit_value c = (if c < 58 then unat c - 48 else unat c - 87)"

primrec number_of :: "nat \<Rightarrow> nat \<Rightarrow> u8 list \<Rightarrow> nat" where
  "number_of b v [] = v"
| "number_of b v (c # cs) = number_of b (b * v + digit_value c) cs"

text \<open>A number in a base, with an optional minus sign.\<close>

definition read_number :: "nat \<Rightarrow> u8 list \<Rightarrow> int" where
  "read_number b cs =
     (case cs of [] \<Rightarrow> 0
      | c # ds \<Rightarrow> if c = 45 then - int (number_of b 0 ds) else int (number_of b 0 cs))"

lemma number_of_append: "number_of b v (xs @ ys) = number_of b (number_of b v xs) ys"
  by (induction xs arbitrary: v) simp_all

lemma sixteen: "n < 16 \<Longrightarrow> n \<in> {0, 1, 2, 3, 4, 5, 6, 7, 8, 9, 10, 11, 12, 13, 14, 15 :: nat}"
  by (simp add: numeral_eq_Suc less_Suc_eq)

lemma digit_value_digits: "n < 16 \<Longrightarrow> digit_value (digits ! n) = n \<and> digits ! n \<noteq> 45"
  by (drule sixteen) (auto simp: digits_def digit_value_def)

lemma digits_from_spec:
  assumes "unat x < unat base ^ j" "0 < j" "j \<le> k" "2 \<le> unat base" "unat base \<le> 16"
  shows "\<exists>ds. digits_from k x base = Ok ds \<and> ds \<noteq> [] \<and> length ds \<le> j \<and>
    number_of (unat base) 0 (rev ds) = unat x \<and> 45 \<notin> set ds"
  using assms
proof (induction k arbitrary: x j)
  case (Suc k)
  have m: "unat (x mod base) = unat x mod unat base" "unat (x div base) = unat x div unat base"
    by (simp_all add: unat_mod_distrib unat_div_distrib)
  have lt: "unat x mod unat base < 16" using Suc.prems(4,5) mod_less_divisor [of "unat base" "unat x"] by linarith
  let ?d = "digits ! unat (x mod base)"
  have d: "digit_value ?d = unat x mod unat base" "?d \<noteq> 45" using digit_value_digits [OF lt] m by simp_all
  show ?case
  proof (cases "x div base = 0")
    case True
    then have "unat x div unat base = 0" using m(2) by simp
    then have "unat x mod unat base = unat x" by (metis add_0 div_mult_mod_eq mult_0)
    then show ?thesis using True d Suc.prems(2) by (simp add: Let_def)
  next
    case False
    obtain i where j: "j = Suc i" using Suc.prems(2) by (cases j) auto
    have nz: "unat x div unat base \<noteq> 0" using False m(2) by (metis unat_eq_0)
    have lt': "unat (x div base) < unat base ^ i"
      using Suc.prems(1) unfolding m(2) j by (simp add: less_mult_imp_div_less mult.commute)
    have "0 < i" using lt' nz unfolding m(2) by (cases i) auto
    then obtain ds where ds: "digits_from k (x div base) base = Ok ds" "length ds \<le> i"
      "number_of (unat base) 0 (rev ds) = unat (x div base)" "45 \<notin> set ds"
      using Suc.IH [OF lt'] Suc.prems(3-5) j by auto
    have "number_of (unat base) 0 (rev (?d # ds)) = unat x"
      using ds(3) d(1) by (simp add: number_of_append m(2))
    then show ?thesis using False ds d(2) j by (simp add: Let_def)
  qed
qed simp


lemma read_number_plain: "45 \<notin> set cs \<Longrightarrow> cs \<noteq> [] \<Longrightarrow> read_number b cs = int (number_of b 0 cs)"
  by (cases cs) (auto simp: read_number_def)

lemma sint_cases: "sint (x :: u32) = uint x \<or> sint x = uint x - 2 ^ 32 \<and> sint x < 0"
proof -
  have "uint x = sint x mod 2 ^ 32" using uint_sint [of x] by (simp add: take_bit_eq_mod)
  moreover have "- (2 ^ 31) \<le> sint x" "sint x < 2 ^ 31"
    using sint_range_size [of x] by (simp_all add: word_size)
  moreover have "sint x mod 2 ^ 32 = (if sint x < 0 then sint x + 2 ^ 32 else sint x)"
    if "- (2 ^ 31) \<le> sint x" "sint x < 2 ^ 31"
    using that mod_pos_pos_trivial [of "sint x + 2 ^ 32" "2 ^ 32"] by auto
  ultimately show ?thesis by auto
qed

lemma unat_minus_neg: "sint (x :: u32) < 0 \<Longrightarrow> int (unat (- x)) = - sint x"
proof -
  assume neg: "sint x < 0"
  then have "uint x = sint x + 2 ^ 32" using sint_cases [of x] uint_nonnegative [of x] by linarith
  moreover have "x \<noteq> 0" using neg by auto
  then have "\<not> x \<le> 0" by simp
  then have "unat (0 - x) = 2 ^ 32 - unat x" using unat_sub_eq [of 0 x] by simp
  moreover have "int (2 ^ 32 - unat x) = 2 ^ 32 - uint x" by (simp add: of_nat_diff less_imp_le)
  ultimately show ?thesis by simp
qed

lemma unat_push4: "unat (push_bit 4 x :: u32) = 16 * (unat x mod 2 ^ 28)"
  by (simp add: push_bit_eq_mult unat_word_ariths mult_mod_right mult.commute)

lemma printptr_from_spec:
  "k \<le> 8 \<Longrightarrow>
   number_of 16 v (printptr_from k x) = 16 ^ k * v + unat x div 2 ^ (32 - 4 * k) \<and>
   45 \<notin> set (printptr_from k x) \<and> length (printptr_from k x) = k"
proof (induction k arbitrary: v x)
  case (Suc k)
  let ?n = "unat x" and ?m = "28 - 4 * k"
  have lt: "unat (drop_bit 28 x) < 16" "unat (drop_bit 28 x) = ?n div 2 ^ 28"
    using unat_u32_lt [of x] by (simp_all add: unat_drop_bit_eq drop_bit_eq_div [where 'a = nat] less_mult_imp_div_less del: unat_u32_lt)
  note d = digit_value_digits [OF lt(1)]
  have IH: "number_of 16 (16 * v + ?n div 2 ^ 28) (printptr_from k (push_bit 4 x)) =
      16 ^ k * (16 * v + ?n div 2 ^ 28) + 16 * (?n mod 2 ^ 28) div 2 ^ (32 - 4 * k)"
    "45 \<notin> set (printptr_from k (push_bit 4 x))" "length (printptr_from k (push_bit 4 x)) = k"
    using Suc.IH [of "16 * v + ?n div 2 ^ 28" "push_bit 4 x"] Suc.prems by (simp_all add: unat_push4)
  have "k = 0 \<or> k = 1 \<or> k = 2 \<or> k = 3 \<or> k = 4 \<or> k = 5 \<or> k = 6 \<or> k = 7" using Suc.prems by presburger
  then have p: "(2 :: nat) ^ (32 - 4 * k) = 16 * 2 ^ ?m" "(2 :: nat) ^ 28 = 2 ^ ?m * 16 ^ k"
    by (elim disjE; simp)+
  have r: "16 * (?n mod 2 ^ 28) div 2 ^ (32 - 4 * k) = (?n mod 2 ^ 28) div 2 ^ ?m"
    unfolding p(1) by simp
  have n: "?n = (?n div 2 ^ 28) * 16 ^ k * 2 ^ ?m + ?n mod 2 ^ 28"
    using div_mult_mod_eq [of ?n "2 ^ 28"] by (simp only: p(2) mult.assoc mult.commute [of "16 ^ k"])
  have q: "?n div 2 ^ ?m = (?n div 2 ^ 28) * 16 ^ k + (?n mod 2 ^ 28) div 2 ^ ?m"
    using arg_cong [OF n, of "\<lambda>z. z div 2 ^ ?m"] by simp
  have "32 - 4 * Suc k = ?m" by simp
  then show ?case using IH d lt(2) r q by (simp add: algebra_simps)
qed simp


subsection \<open>Properties\<close>

text \<open>
  C40: \<open>printint\<close> returns for every value, in decimal and in hexadecimal: its 16-byte buffer is
  never overrun, and reading the digits it prints gives back the signed value, the least
  value \<open>- 2 ^ 31\<close> included, whose negation overflows.
\<close>

theorem printint_reads_back:
  assumes "base \<in> {10, 16}"
  shows "\<exists>cs. printint x base True = Ok cs \<and> length cs \<le> 11 \<and> read_number (unat base) cs = sint x"
proof -
  let ?neg = "sint x < 0" let ?x = "if ?neg then - x else x"
  have b: "2 \<le> unat base" "unat base \<le> 16" using assms by auto
  have "(2 :: nat) ^ 32 \<le> unat base ^ 10" using assms by auto
  then have "unat ?x < unat base ^ 10" using unat_u32_lt less_le_trans by blast
  then obtain ds where ds: "digits_from DIGIT_BUF ?x base = Ok ds" "ds \<noteq> []" "length ds \<le> 10"
    "number_of (unat base) 0 (rev ds) = unat ?x" "45 \<notin> set ds"
    using digits_from_spec [of ?x base 10 DIGIT_BUF] b by (auto simp: DIGIT_BUF_def)
  show ?thesis
  proof (cases ?neg)
    case True
    then have "printint x base True = Ok (45 # rev ds)"
      using ds(1,3) by (simp add: printint_def DIGIT_BUF_def Let_def)
    moreover have "read_number (unat base) (45 # rev ds) = sint x"
      using ds(4) True unat_minus_neg [OF True] by (simp add: read_number_def)
    ultimately show ?thesis using ds(3) by auto
  next
    case False
    then have "printint x base True = Ok (rev ds)" using ds(1) by (simp add: printint_def Let_def)
    moreover have "sint x = uint x" using False sint_cases [of x] uint_lt2p [of x] by auto
    then have "read_number (unat base) (rev ds) = sint x"
      using ds(2,4,5) False by (simp add: read_number_plain)
    ultimately show ?thesis using ds(3) by auto
  qed
qed

theorem printint_reads_back_witness:
  "\<exists>cs. printint 0x80000000 10 True = Ok cs \<and> length cs \<le> 11 \<and> read_number 10 cs = - (2 ^ 31)"
  using printint_reads_back [of 10 "0x80000000"] by simp

text \<open>
  \<open>printptr\<close> prints the prefix 0x and eight hexadecimal digits that read back as the address.
\<close>

theorem printptr_reads_back:
  "\<exists>cs. printptr x = [48, 120] @ cs \<and> length cs = 8 \<and> read_number 16 cs = uint x"
proof -
  have "number_of 16 0 (printptr_from 8 x) = unat x" "45 \<notin> set (printptr_from 8 x)"
    "length (printptr_from 8 x) = 8"
    using printptr_from_spec [of 8 0 x] by simp_all
  then show ?thesis
    using read_number_plain [of "printptr_from 8 x" 16]
    by (cases "printptr_from 8 x") (auto simp: printptr_def simp del: printptr_from.simps)
qed

end
