(* ===== verification/Sdcard.thy ===== *)
theory Sdcard
  imports Xv6_Prelude
begin

text \<open>
  The SD card driver (\<open>kernel/sdcard.c\<close>). The card is a state \<open>'d\<close> and a function \<open>xfer\<close> for
  one byte exchanged over SPI: the byte sent, the byte received, the new state. Reading the
  register \<open>RW\<close> gives the last byte received. The control register \<open>CTR\<close> and the delays of
  the start-up sequence are a list of writes.
\<close>

record 'd spi =
  card :: 'd
  rw_reg :: u8
  ctr_writes :: "u8 list"

type_synonym 'd xfer = "u8 \<Rightarrow> 'd \<Rightarrow> u8 \<times> 'd"

definition spi_rw :: "'d xfer \<Rightarrow> u8 \<Rightarrow> 'd spi \<Rightarrow> u8 \<times> 'd spi" where
  "spi_rw xfer c s = (case xfer c (card s) of (r, d) \<Rightarrow> (r, s\<lparr>card := d, rw_reg := r\<rparr>))"

text \<open>\<open>WriteReg(RW, c)\<close> without reading the answer.\<close>

definition spi_send :: "'d xfer \<Rightarrow> u8 \<Rightarrow> 'd spi \<Rightarrow> 'd spi" where
  "spi_send xfer c s = snd (spi_rw xfer c s)"

definition ctr_write :: "u8 \<Rightarrow> 'd spi \<Rightarrow> 'd spi" where
  "ctr_write v s = s\<lparr>ctr_writes := ctr_writes s @ [v]\<rparr>"

subsection \<open>The time\<close>

text \<open>
  The cycle counter in two halves: \<open>hi\<close> and \<open>lo\<close> give what the \<open>t\<close>-th read of a counter
  register returns. The read is repeated until the high half is stable.
\<close>

partial_function (option) mtime ::
  "(nat \<Rightarrow> u32) \<Rightarrow> (nat \<Rightarrow> u32) \<Rightarrow> nat \<Rightarrow> (64 word \<times> nat) option" where
  "mtime hi lo t =
     (if hi t \<noteq> hi (t + 2) then mtime hi lo (t + 3)
      else Some (push_bit 32 (ucast (hi t)) OR ucast (lo (t + 1)), t + 3))"

partial_function (option) msleep_until ::
  "(nat \<Rightarrow> u32) \<Rightarrow> (nat \<Rightarrow> u32) \<Rightarrow> 64 word \<Rightarrow> u32 \<Rightarrow> nat \<Rightarrow> nat option" where
  "msleep_until hi lo t0 dt t =
     (case mtime hi lo t of
        None \<Rightarrow> None
      | Some (now, t) \<Rightarrow> if now - t0 < ucast dt then msleep_until hi lo t0 dt t else Some t)"

definition msleep :: "(nat \<Rightarrow> u32) \<Rightarrow> (nat \<Rightarrow> u32) \<Rightarrow> u32 \<Rightarrow> nat \<Rightarrow> nat option" where
  "msleep hi lo dt t =
     (case mtime hi lo t of
        None \<Rightarrow> None | Some (t0, t) \<Rightarrow> msleep_until hi lo t0 (dt * 32) t)"

subsection \<open>The checksum\<close>

primrec crc_bits :: "nat \<Rightarrow> u32 \<Rightarrow> u32" where
  "crc_bits 0 crc = crc"
| "crc_bits (Suc j) crc =
     (let crc = push_bit 1 crc
      in crc_bits j (if crc AND push_bit 16 1 \<noteq> 0 then crc XOR 0x11021 else crc))"

primrec crc_from :: "u32 \<Rightarrow> u8 list \<Rightarrow> u32" where
  "crc_from crc [] = crc"
| "crc_from crc (b # bs) = crc_from (crc_bits 8 (crc XOR push_bit 8 (ucast b))) bs"

definition getCRC16 :: "u8 list \<Rightarrow> u32" where
  "getCRC16 message = crc_from 0 message"

subsection \<open>Commands\<close>

text \<open>Bytes are clocked while the card answers 255, \<open>k\<close> more times at most.\<close>

primrec poll_ff :: "'d xfer \<Rightarrow> nat \<Rightarrow> 'd spi \<Rightarrow> 'd spi" where
  "poll_ff xfer 0 s = s"
| "poll_ff xfer (Suc k) s =
     (case spi_rw xfer 255 s of (r, s) \<Rightarrow> if r = 255 then poll_ff xfer k s else s)"

definition spi_cmd :: "'d xfer \<Rightarrow> u8 \<Rightarrow> u8 \<Rightarrow> u8 \<Rightarrow> u8 \<Rightarrow> u8 \<Rightarrow> u8 \<Rightarrow> 'd spi \<Rightarrow> u8 \<times> 'd spi" where
  "spi_cmd xfer cmd arg0 arg1 arg2 arg3 crc s =
     (let s = fold (spi_send xfer) [255, 64 OR cmd, arg0, arg1, arg2, arg3, crc] s;
          s = poll_ff xfer 10 s
      in (rw_reg s, s))"

primrec spi_bytes :: "'d xfer \<Rightarrow> nat \<Rightarrow> 'd spi \<Rightarrow> u8 list \<times> 'd spi" where
  "spi_bytes xfer 0 s = ([], s)"
| "spi_bytes xfer (Suc k) s =
     (case spi_rw xfer 255 s of (r, s) \<Rightarrow> case spi_bytes xfer k s of (rs, s) \<Rightarrow> (r # rs, s))"

definition spi_r :: "'d xfer \<Rightarrow> 'd spi \<Rightarrow> u32 \<times> 'd spi" where
  "spi_r xfer s =
     (case spi_bytes xfer 4 s of (bs, s) \<Rightarrow> (fold (\<lambda>b r. push_bit 8 r OR ucast b) bs 0, s))"

primrec init_retry :: "'d xfer \<Rightarrow> nat \<Rightarrow> 'd spi \<Rightarrow> 'd spi" where
  "init_retry xfer 0 s = s"
| "init_retry xfer (Suc k) s =
     (let s = snd (spi_cmd xfer 55 0 0 0 0 0 s); s = snd (spi_cmd xfer 41 0x40 0 0 0 0 s)
      in if rw_reg s = 0 then s else init_retry xfer k s)"

primrec clock_idle :: "nat \<Rightarrow> 'd spi \<Rightarrow> 'd spi" where
  "clock_idle 0 s = s"
| "clock_idle (Suc k) s = clock_idle k (ctr_write 1 (ctr_write 3 s))"

text \<open>The test of bit 30 of the OCR is \<open>~(ocr & (1 << 30))\<close>, a complement and not a negation.\<close>

definition spi_init :: "'d xfer \<Rightarrow> 'd spi \<Rightarrow> 'd spi" where
  "spi_init xfer s =
     (let s = ctr_write 0 (clock_idle 100 (ctr_write 1 s));
          s = snd (spi_cmd xfer 0 0 0 0 0 149 s);
          s = snd (spi_cmd xfer 8 0 0 1 170 135 s);
          s = snd (spi_r xfer s);
          s = init_retry xfer 10 s;
          s = snd (spi_cmd xfer 58 0 0 0 0 0 s)
      in case spi_r xfer s of (ocr, s) \<Rightarrow>
           if NOT (ocr AND push_bit 30 1) \<noteq> 0 then snd (spi_cmd xfer 16 0 0 2 0 0 s) else s)"

subsection \<open>Blocks\<close>

definition byte_of :: "nat \<Rightarrow> u32 \<Rightarrow> u8" where
  "byte_of k b = ucast (drop_bit (8 * k) b)"

text \<open>A buffer is its 512 bytes of data and the two bytes of the checksum behind them.\<close>

definition spi_rb :: "'d xfer \<Rightarrow> u32 \<Rightarrow> u8 list \<Rightarrow> 'd spi \<Rightarrow> (u8 list \<times> 'd spi) res" where
  "spi_rb xfer b buf s =
     (case spi_cmd xfer 17 (byte_of 3 b) (byte_of 2 b) (byte_of 1 b) (byte_of 0 b) 0 s of (r, s) \<Rightarrow>
      case (if r = 0 then spi_bytes xfer 514 (poll_ff xfer 100000 s) else (buf, s)) of (buf, s) \<Rightarrow>
        if getCRC16 buf \<noteq> 0 then Fail (Panic ''CRC16 error'') else Ok (buf, s))"

text \<open>Waiting while the card is busy; the panic comes after the counter has passed the limit.\<close>

primrec wait_ready :: "'d xfer \<Rightarrow> string \<Rightarrow> nat \<Rightarrow> 'd spi \<Rightarrow> 'd spi res" where
  "wait_ready xfer msg 0 s =
     (case spi_rw xfer 255 s of (r, s) \<Rightarrow> if r \<noteq> 255 then Fail (Panic msg) else Ok s)"
| "wait_ready xfer msg (Suc k) s =
     (case spi_rw xfer 255 s of (r, s) \<Rightarrow> if r \<noteq> 255 then wait_ready xfer msg k s else Ok s)"

definition spi_wb :: "'d xfer \<Rightarrow> u32 \<Rightarrow> u8 list \<Rightarrow> 'd spi \<Rightarrow> 'd spi res" where
  "spi_wb xfer b buf s =
     (let s = snd (spi_cmd xfer 24 (byte_of 3 b) (byte_of 2 b) (byte_of 1 b) (byte_of 0 b) 0 s)
      in seq (wait_ready xfer ''spi_wb1'' 100001 s) (\<lambda>s.
           let s = spi_send xfer 254 s; s = fold (spi_send xfer) (take 514 buf) s;
               s = spi_send xfer 255 s
           in wait_ready xfer ''spi_wb2'' 100001 s))"

end
