(* ===== verification/Sdcard_Props.thy ===== *)
theory Sdcard_Props
  imports Sdcard
begin

text \<open>
  The checksum of \<open>sdcard.c\<close> detects what a CRC detects; a block read from a card that speaks
  the protocol is the block the card sent; the 64-bit time is consistent.
\<close>

subsection \<open>The checksum\<close>

definition crc_step :: "u32 \<Rightarrow> u32" where
  "crc_step c = (if bit c 15 then push_bit 1 c XOR 0x11021 else push_bit 1 c)"

lemma crc_bits_step: "crc_bits (Suc j) c = crc_bits j (crc_step c)"
proof -
  have "push_bit 1 c AND push_bit 16 1 \<noteq> 0 \<longleftrightarrow> bit c 15"
    unfolding bit_iff_and_push_bit_not_eq_0 [symmetric] bit_push_bit_iff by (simp add: possible_bit_def)
  then show ?thesis unfolding crc_bits.simps Let_def crc_step_def by (simp only:)
qed

lemma bit_poly: "bit (0x11021 :: u32) n \<longleftrightarrow> n \<in> {0, 5, 12, 16}"
proof -
  have eq: "(0x11021 :: u32) = push_bit 16 1 OR push_bit 12 1 OR push_bit 5 1 OR 1" by simp
  show ?thesis
    unfolding eq bit_or_iff bit_push_bit_iff bit_1_iff by (auto simp: possible_bit_def)
qed

lemma bit_crc_step:
  "bit (crc_step c) n \<longleftrightarrow>
   n < 32 \<and> ((0 < n \<and> bit c (n - 1)) \<noteq> (bit c 15 \<and> n \<in> {0, 5, 12, 16}))"
proof -
  have shift: "bit (push_bit 1 c) n \<longleftrightarrow> n < 32 \<and> 0 < n \<and> bit c (n - 1)"
    unfolding bit_push_bit_iff by (auto simp: possible_bit_def)
  show ?thesis
  proof (cases "bit c 15")
    case True
    show ?thesis unfolding crc_step_def if_P [OF True] bit_xor_iff shift bit_poly using True by auto
  next
    case False
    show ?thesis unfolding crc_step_def if_not_P [OF False] shift using False by auto
  qed
qed

definition crc_ok :: "u32 \<Rightarrow> bool" where
  "crc_ok c \<longleftrightarrow> (\<forall>n \<ge> 16. \<not> bit c n)"

lemma crc_step_ok: "crc_ok c \<Longrightarrow> crc_ok (crc_step c)"
  unfolding crc_ok_def bit_crc_step
proof (intro allI impI)
  fix n :: nat assume c: "\<forall>n \<ge> 16. \<not> bit c n" and n: "16 \<le> n"
  show "\<not> (n < 32 \<and> ((0 < n \<and> bit c (n - 1)) \<noteq> (bit c 15 \<and> n \<in> {0, 5, 12, 16})))"
  proof (cases "n = 16")
    case False
    then have "16 \<le> n - 1" using n by simp
    then show ?thesis using c False n by auto
  qed simp
qed

lemma crc_step_inj:
  assumes "crc_ok c" "crc_ok d" "crc_step c = crc_step d"
  shows "c = d"
proof (rule bit_word_eqI)
  fix n assume "n < LENGTH(32)"
  have e: "bit (crc_step c) k = bit (crc_step d) k" for k using assms(3) by simp
  have top: "bit c 15 = bit d 15" using e [of 0] by (simp add: bit_crc_step)
  show "bit c n = bit d n"
  proof (cases "n < 16")
    case True
    then show ?thesis using e [of "Suc n"] top by (auto simp: bit_crc_step)
  next
    case False
    then show ?thesis using assms(1,2) by (simp add: crc_ok_def)
  qed
qed

lemma crc_bits_ok: "crc_ok c \<Longrightarrow> crc_ok (crc_bits j c)"
  by (induction j arbitrary: c) (simp_all add: crc_bits_step crc_step_ok del: crc_bits.simps(2))

lemma crc_bits_inj: "crc_ok c \<Longrightarrow> crc_ok d \<Longrightarrow> crc_bits j c = crc_bits j d \<Longrightarrow> c = d"
proof (induction j arbitrary: c d)
  case (Suc j)
  then have "crc_step c = crc_step d"
    using Suc.IH [of "crc_step c" "crc_step d"] by (simp add: crc_bits_step crc_step_ok del: crc_bits.simps(2))
  then show ?case using Suc.prems crc_step_inj by blast
qed simp

text \<open>Mixing in a byte.\<close>

definition crc_mix :: "u32 \<Rightarrow> u8 \<Rightarrow> u32" where
  "crc_mix c b = c XOR push_bit 8 (ucast b)"

lemma bit_crc_mix: "bit (crc_mix c b) n \<longleftrightarrow> bit c n \<noteq> (8 \<le> n \<and> n < 16 \<and> bit b (n - 8))"
  by (auto simp: crc_mix_def bit_simps dest: bit_imp_le_length)

lemma crc_mix_ok: "crc_ok c \<Longrightarrow> crc_ok (crc_mix c b)"
  by (simp add: crc_ok_def bit_crc_mix)

lemma crc_mix_inj: "crc_mix c b = crc_mix d b \<Longrightarrow> c = d"
proof (rule bit_word_eqI)
  fix n assume "crc_mix c b = crc_mix d b"
  then have "bit (crc_mix c b) n = bit (crc_mix d b) n" by simp
  then show "bit c n = bit d n" by (auto simp: bit_crc_mix)
qed

lemma crc_mix_inj_byte: "crc_mix c b = crc_mix c b' \<Longrightarrow> b = b'"
proof (rule bit_word_eqI)
  fix n assume "crc_mix c b = crc_mix c b'" and n: "n < LENGTH(8)"
  then have "bit (crc_mix c b) (n + 8) = bit (crc_mix c b') (n + 8)" by simp
  then show "bit b n = bit b' n" unfolding bit_crc_mix using n by auto
qed

lemma crc_from_Cons: "crc_from c (b # bs) = crc_from (crc_bits 8 (crc_mix c b)) bs"
  by (simp add: crc_mix_def)

lemma crc_from_append: "crc_from c (xs @ ys) = crc_from (crc_from c xs) ys"
  by (induction xs arbitrary: c) simp_all

lemma crc_from_ok: "crc_ok c \<Longrightarrow> crc_ok (crc_from c bs)"
  by (induction bs arbitrary: c)
     (simp_all add: crc_from_Cons crc_bits_ok crc_mix_ok del: crc_from.simps(2))

lemma crc_from_inj: "crc_ok c \<Longrightarrow> crc_ok d \<Longrightarrow> crc_from c bs = crc_from d bs \<Longrightarrow> c = d"
proof (induction bs arbitrary: c d)
  case (Cons b bs)
  have "crc_bits 8 (crc_mix c b) = crc_bits 8 (crc_mix d b)"
    using Cons.IH [of "crc_bits 8 (crc_mix c b)" "crc_bits 8 (crc_mix d b)"] Cons.prems
    by (simp add: crc_from_Cons crc_bits_ok crc_mix_ok del: crc_from.simps(2))
  then have "crc_mix c b = crc_mix d b" using crc_bits_inj crc_mix_ok Cons.prems(1,2) by blast
  then show ?case by (rule crc_mix_inj)
qed simp

lemma crc_ok_0: "crc_ok 0"
  by (simp add: crc_ok_def)


text \<open>The checksum is linear, and a value below \<open>2 ^ 8\<close> is only shifted by eight steps.\<close>

lemma crc_step_xor: "crc_step (u XOR v) = crc_step u XOR crc_step v"
  by (rule bit_word_eqI) (auto simp: bit_crc_step bit_xor_iff)

lemma crc_bits_xor: "crc_bits j (u XOR v) = crc_bits j u XOR crc_bits j v"
  by (induction j arbitrary: u v) (simp_all add: crc_bits_step crc_step_xor del: crc_bits.simps(2))

lemma crc_bits_shift:
  "j \<le> 16 \<Longrightarrow> \<forall>n \<ge> 16 - j. \<not> bit c n \<Longrightarrow> crc_bits j c = push_bit j c"
proof (induction j arbitrary: c)
  case (Suc j)
  then have n15: "\<not> bit c 15" by simp
  have "\<forall>n \<ge> 16 - j. \<not> bit (push_bit 1 c) n"
  proof (intro allI impI)
    fix n assume "16 - j \<le> n"
    then have "16 - Suc j \<le> n - 1" by simp
    then have "\<not> bit c (n - 1)" using Suc.prems(2) by blast
    then show "\<not> bit (push_bit 1 c) n" unfolding bit_push_bit_iff by simp
  qed
  then have "crc_bits j (push_bit 1 c) = push_bit j (push_bit 1 c)" using Suc by simp
  then show ?case unfolding crc_bits_step crc_step_def if_not_P [OF n15] by (simp only: push_bit_push_bit add_Suc_right) simp
qed simp

lemma crc_bits_0 [simp]: "crc_bits j 0 = 0"
  by (induction j) simp_all

lemma crc_bits_byte: "crc_bits 8 (ucast (b :: u8)) = push_bit 8 (ucast b)"
  by (rule crc_bits_shift) (auto simp: bit_simps dest: bit_imp_le_length)

lemma crc_two:
  "crc_from c [a, b] = crc_bits 8 (crc_bits 8 ((c XOR push_bit 8 (ucast a)) XOR ucast b))"
  by (simp add: crc_bits_xor [of 8 "c XOR push_bit 8 (ucast a)" "ucast b"] crc_bits_byte)

lemma crc_two_inj:
  assumes "crc_ok c" "crc_from c [a, b] = crc_from c [a', b']"
  shows "a = a' \<and> b = b'"
proof -
  let ?m = "\<lambda>(a :: u8) (b :: u8). (c XOR push_bit 8 (ucast a)) XOR ucast b :: u32"
  have ok: "crc_ok (?m a b)" for a b
    unfolding crc_ok_def
  proof (intro allI impI)
    fix n :: nat assume n: "16 \<le> n"
    then have "\<not> bit a (n - 8)" "\<not> bit b n"
      using bit_imp_le_length [of a "n - 8"] bit_imp_le_length [of b n] by auto
    then show "\<not> bit (?m a b) n" using assms(1) n by (auto simp: crc_ok_def bit_simps)
  qed
  have "crc_bits 8 (crc_bits 8 (?m a b)) = crc_bits 8 (crc_bits 8 (?m a' b'))"
    using assms(2) unfolding crc_two .
  then have "crc_bits 8 (?m a b) = crc_bits 8 (?m a' b')"
    by (rule crc_bits_inj [OF crc_bits_ok [OF ok] crc_bits_ok [OF ok]])
  then have m: "?m a b = ?m a' b'" by (rule crc_bits_inj [OF ok ok])
  have m_bit: "bit (?m a b) n \<longleftrightarrow> n < 32 \<and> ((bit c n \<noteq> (8 \<le> n \<and> bit a (n - 8))) \<noteq> bit b n)" for a b n
    unfolding bit_xor_iff bit_push_bit_iff bit_ucast_iff
    using bit_imp_le_length [of c n]
    by (cases "n < 32"; cases "8 \<le> n"; cases "bit c n"; cases "n - 8 < 32"; simp add: possible_bit_def)
  have bits: "bit (?m a b) n \<longleftrightarrow> bit (?m a' b') n" for n using m by simp
  have "bit b n = bit b' n" if "n < 8" for n using bits [of n] that unfolding m_bit by auto
  moreover have "bit a n = bit a' n" if "n < 8" for n
    using bits [of "n + 8"] that bit_imp_le_length [of b "n + 8"] bit_imp_le_length [of b' "n + 8"]
    unfolding m_bit by auto
  ultimately show ?thesis by (auto intro: bit_word_eqI)
qed

text \<open>The two bytes of a checksum, as the card appends them.\<close>

definition crc_bytes :: "u32 \<Rightarrow> u8 list" where
  "crc_bytes c = [ucast (drop_bit 8 c), ucast c]"

lemma crc_appended: "crc_ok c \<Longrightarrow> crc_from c (crc_bytes c) = 0"
proof -
  assume ok: "crc_ok c"
  have "(c XOR push_bit 8 (ucast (ucast (drop_bit 8 c) :: u8))) XOR ucast (ucast c :: u8) = 0"
  proof (rule bit_word_eqI)
    fix n assume "n < LENGTH(32)"
    have "n < 16" if "bit c n" using ok that by (meson crc_ok_def not_less)
    then show "bit ((c XOR push_bit 8 (ucast (ucast (drop_bit 8 c) :: u8))) XOR ucast (ucast c :: u8)) n = bit 0 n"
      by (auto simp: bit_simps)
  qed
  then show ?thesis by (simp only: crc_bytes_def crc_two crc_bits_0)
qed


subsection \<open>Conversations with the card\<close>

primrec talk :: "'d xfer \<Rightarrow> u8 list \<Rightarrow> 'd spi \<Rightarrow> u8 list \<times> 'd spi" where
  "talk xfer [] s = ([], s)"
| "talk xfer (c # cs) s =
     (case spi_rw xfer c s of (r, s) \<Rightarrow> case talk xfer cs s of (rs, s) \<Rightarrow> (r # rs, s))"

lemma talk_append:
  "talk xfer (xs @ ys) s =
     (case talk xfer xs s of (rs, s) \<Rightarrow> case talk xfer ys s of (qs, s) \<Rightarrow> (rs @ qs, s))"
  by (induction xs arbitrary: s) (simp_all split: prod.split)

lemma length_talk: "length (fst (talk xfer cs s)) = length cs"
  by (induction cs arbitrary: s) (simp_all split: prod.split, metis fst_conv)

lemma send_talk: "fold (spi_send xfer) cs s = snd (talk xfer cs s)"
  by (induction cs arbitrary: s) (simp_all add: spi_send_def split: prod.split)

lemma spi_bytes_talk: "spi_bytes xfer k s = talk xfer (replicate k 255) s"
  by (induction k arbitrary: s) simp_all

lemma talk_rw_reg: "talk xfer cs s = (rs, s') \<Longrightarrow> rs \<noteq> [] \<Longrightarrow> rw_reg s' = last rs"
proof (induction cs arbitrary: s rs)
  case (Cons c cs)
  obtain r s1 where 1: "spi_rw xfer c s = (r, s1)" by fastforce
  obtain rs2 where 2: "talk xfer cs s1 = (rs2, s')" "rs = r # rs2"
    using Cons.prems(1) 1 by (auto split: prod.splits)
  have "rw_reg s1 = r" using 1 by (auto simp: spi_rw_def split: prod.splits)
  moreover have "length rs2 = length cs" using length_talk [of xfer cs s1] 2(1) by simp
  ultimately show ?case using Cons.IH [OF 2(1)] 1 2 by (cases rs2) auto
qed simp

lemma poll_ff_talk:
  "talk xfer (replicate (Suc i) 255) s = (replicate i 255 @ [r], s') \<Longrightarrow> r \<noteq> 255 \<Longrightarrow> i < k \<Longrightarrow>
   poll_ff xfer k s = s'"
proof (induction i arbitrary: k s)
  case 0
  then show ?case by (cases k) (auto split: prod.splits)
next
  case (Suc i)
  then show ?case by (cases k) (auto split: prod.splits)
qed

lemma poll_ff_idle: "talk xfer (replicate k 255) s = (replicate k 255, s') \<Longrightarrow> poll_ff xfer k s = s'"
  by (induction k arbitrary: s) (auto split: prod.splits)

text \<open>A conversation split at a given number of bytes.\<close>

lemma talk_split:
  assumes "talk xfer (xs @ ys) s = (rs @ qs, s')" "length rs = length xs"
  obtains t where "talk xfer xs s = (rs, t)" "talk xfer ys t = (qs, s')"
proof -
  obtain rs1 t where 1: "talk xfer xs s = (rs1, t)" by fastforce
  obtain qs1 u where 2: "talk xfer ys t = (qs1, u)" by fastforce
  have "length rs1 = length xs" using length_talk [of xfer xs s] 1 by simp
  then have "rs1 = rs" "qs1 = qs" "u = s'" using assms 1 2 by (simp_all add: talk_append)
  then show ?thesis using that 1 2 by simp
qed

text \<open>The bytes of the command READ for block \<open>b\<close>.\<close>

definition read_cmd :: "u32 \<Rightarrow> u8 list" where
  "read_cmd b = [255, 64 OR 17, byte_of 3 b, byte_of 2 b, byte_of 1 b, byte_of 0 b, 0]"

lemma spi_rb_spec:
  assumes "talk xfer (read_cmd b @
      replicate (Suc i) 255 @ replicate (Suc j) 255 @ replicate 514 255) s =
      (echo @ (replicate i 255 @ [0]) @ (replicate j 255 @ [tok]) @ payload, s')"
    and "length echo = 7" "i < 10" "j < 100000" "tok \<noteq> 255"
  shows "spi_rb xfer b buf s =
    (if getCRC16 payload = 0 then Ok (payload, s') else Fail (Panic ''CRC16 error''))"
proof -
  obtain s1 where 1: "talk xfer (read_cmd b) s = (echo, s1)"
    "talk xfer (replicate (Suc i) 255 @ replicate (Suc j) 255 @ replicate 514 255) s1 =
      ((replicate i 255 @ [0]) @ (replicate j 255 @ [tok]) @ payload, s')"
    by (rule talk_split [OF assms(1)]) (simp add: assms(2) read_cmd_def)
  obtain s2 where 2: "talk xfer (replicate (Suc i) 255) s1 = (replicate i 255 @ [0], s2)"
    "talk xfer (replicate (Suc j) 255 @ replicate 514 255) s2 = ((replicate j 255 @ [tok]) @ payload, s')"
    by (rule talk_split [OF 1(2)]) simp
  obtain s3 where 3: "talk xfer (replicate (Suc j) 255) s2 = (replicate j 255 @ [tok], s3)"
    "talk xfer (replicate 514 255) s3 = (payload, s')"
    by (rule talk_split [OF 2(2)]) simp
  have cmd: "spi_cmd xfer 17 (byte_of 3 b) (byte_of 2 b) (byte_of 1 b) (byte_of 0 b) 0 s = (0, s2)"
    using poll_ff_talk [OF 2(1) _ assms(3)] talk_rw_reg [OF 2(1)] 1(1)
    unfolding spi_cmd_def send_talk by (simp add: read_cmd_def)
  show ?thesis
    using poll_ff_talk [OF 3(1) assms(5,4)] 3(2)
    unfolding spi_rb_def cmd by (simp add: spi_bytes_talk del: poll_ff.simps)
qed


text \<open>The card refuses the command, or does not answer it within the ten bytes \<open>spi_cmd\<close> waits.\<close>

definition refuses :: "'d xfer \<Rightarrow> u32 \<Rightarrow> 'd spi \<Rightarrow> 'd spi \<Rightarrow> bool" where
  "refuses xfer b s s' \<longleftrightarrow>
     (\<exists>echo i r. length echo = 7 \<and> i < 10 \<and> r \<noteq> 0 \<and> r \<noteq> 255 \<and>
        talk xfer (read_cmd b @ replicate (Suc i) 255) s = (echo @ replicate i 255 @ [r], s')) \<or>
     (\<exists>echo. length echo = 7 \<and> talk xfer (read_cmd b @ replicate 10 255) s = (echo @ replicate 10 255, s'))"

lemma spi_rb_refused:
  assumes "refuses xfer b s s'"
  shows "spi_rb xfer b buf s = (if getCRC16 buf = 0 then Ok (buf, s') else Fail (Panic ''CRC16 error''))"
proof -
  have "\<exists>r. r \<noteq> 0 \<and> spi_cmd xfer 17 (byte_of 3 b) (byte_of 2 b) (byte_of 1 b) (byte_of 0 b) 0 s = (r, s')"
    using assms unfolding refuses_def
  proof (elim disjE exE conjE)
    fix echo i r assume r: "length echo = 7" "i < 10" "r \<noteq> 0" "r \<noteq> 255"
      "talk xfer (read_cmd b @ replicate (Suc i) 255) s = (echo @ replicate i 255 @ [r], s')"
    obtain s1 where 1: "talk xfer (read_cmd b) s = (echo, s1)" "talk xfer (replicate (Suc i) 255) s1 = (replicate i 255 @ [r], s')"
      by (rule talk_split [OF r(5)]) (simp add: r(1) read_cmd_def)
    show ?thesis
      using poll_ff_talk [OF 1(2) r(4,2)] talk_rw_reg [OF 1(2)] 1(1) r(3)
      unfolding spi_cmd_def send_talk by (simp add: read_cmd_def)
  next
    fix echo assume r: "length echo = 7" "talk xfer (read_cmd b @ replicate 10 255) s = (echo @ replicate 10 255, s')"
    obtain s1 where 1: "talk xfer (read_cmd b) s = (echo, s1)" "talk xfer (replicate 10 255) s1 = (replicate 10 255, s')"
      by (rule talk_split [OF r(2)]) (simp add: r(1) read_cmd_def)
    have "rw_reg s' = 255" using talk_rw_reg [OF 1(2)] by simp
    then show ?thesis
      using poll_ff_idle [OF 1(2)] 1(1) unfolding spi_cmd_def send_talk by (simp add: read_cmd_def)
  qed
  then show ?thesis by (auto simp: spi_rb_def)
qed

subsection \<open>The time\<close>

text \<open>
  The reads of the halves of a 64-bit cycle counter that grows: \<open>c t\<close> is its value at the
  \<open>t\<close>-th read, and three reads take less than \<open>2 ^ 32\<close> cycles.
\<close>

definition counter_hi :: "(nat \<Rightarrow> nat) \<Rightarrow> nat \<Rightarrow> u32" where
  "counter_hi c t = of_nat (c t div 2 ^ 32)"

definition counter_lo :: "(nat \<Rightarrow> nat) \<Rightarrow> nat \<Rightarrow> u32" where
  "counter_lo c t = of_nat (c t mod 2 ^ 32)"

lemma hi_lo_word:
  "push_bit 32 (ucast (of_nat (n div 2 ^ 32) :: u32)) OR ucast (of_nat (n mod 2 ^ 32) :: u32) = (of_nat n :: 64 word)"
proof -
  have d: "n div 2 ^ 32 = drop_bit 32 n" "n mod 2 ^ 32 = take_bit 32 n"
    by (simp_all only: drop_bit_eq_div take_bit_eq_mod)
  show ?thesis
    unfolding d
  proof (rule bit_word_eqI)
    fix k assume k: "k < LENGTH(64)"
    show "bit (push_bit 32 (ucast (of_nat (drop_bit 32 n) :: u32)) OR
        ucast (of_nat (take_bit 32 n) :: u32) :: 64 word) k = bit (of_nat n :: 64 word) k"
      using k by (cases "k < 32") (auto simp: bit_simps)
  qed
qed

lemma mtime_step:
  "mtime hi lo t =
     (if hi t \<noteq> hi (t + 2) then mtime hi lo (t + 3)
      else Some (push_bit 32 (ucast (hi t)) OR ucast (lo (t + 1)), t + 3))"
  by (rule mtime.simps)

lemma mtime_spec:
  assumes mono: "\<And>i j. i \<le> j \<Longrightarrow> c i \<le> c j" and lt: "\<And>i. c i < 2 ^ 64"
    and slow: "c (t + 5) < c t + 2 ^ 32"
  shows "\<exists>r. t < r \<and> r \<le> t + 5 \<and> mtime (counter_hi c) (counter_lo c) t = Some (of_nat (c r), r + 2)"
proof -
  let ?h = "\<lambda>t. c t div 2 ^ 32"
  have small: "?h i < 2 ^ 32" for i using lt [of i] by (simp add: less_mult_imp_div_less)
  have eq: "counter_hi c i = counter_hi c j \<longleftrightarrow> ?h i = ?h j" for i j
    using unat_of_nat_eq [OF small [of i]] unat_of_nat_eq [OF small [of j]]
    unfolding counter_hi_def by metis
  have hm: "i \<le> j \<Longrightarrow> ?h i \<le> ?h j" for i j using mono by (simp add: div_le_mono)
  have stable: "mtime (counter_hi c) (counter_lo c) i = Some (of_nat (c (i + 1)), i + 3)" if "?h i = ?h (i + 2)" for i
  proof -
    have "?h i = ?h (i + 1)" using hm [of i "i + 1"] hm [of "i + 1" "i + 2"] that by simp
    then have "counter_hi c i = of_nat (c (i + 1) div 2 ^ 32)" by (simp add: counter_hi_def)
    moreover have "counter_hi c i = counter_hi c (i + 2)" using that eq by blast
    ultimately show ?thesis
      using hi_lo_word [of "c (i + 1)"] by (subst mtime_step) (simp add: counter_lo_def)
  qed
  show ?thesis
  proof (cases "?h t = ?h (t + 2)")
    case True
    then show ?thesis using stable [OF True] by (intro exI [of _ "t + 1"]) simp
  next
    case False
    have "?h (t + 5) \<le> ?h t + 1" using slow by (simp add: div_le_mono less_imp_le flip: div_add_self2)
    then have "?h (t + 3) = ?h (t + 5)"
      using False hm [of t "t + 2"] hm [of "t + 2" "t + 3"] hm [of "t + 3" "t + 5"] by linarith
    have e: "t + 3 + 2 = t + 5" "t + 3 + 1 = t + 4" "t + 3 + 3 = t + 6" by simp_all
    from \<open>?h (t + 3) = ?h (t + 5)\<close> have "mtime (counter_hi c) (counter_lo c) (t + 3) = Some (of_nat (c (t + 4)), t + 6)"
      using stable [of "t + 3"] unfolding e by blast
    moreover have "counter_hi c t \<noteq> counter_hi c (t + 2)" using False eq by blast
    ultimately show ?thesis by (intro exI [of _ "t + 4"]) (subst mtime_step, simp)
  qed
qed


subsection \<open>Properties\<close>

text \<open>
  C37: \<open>getCRC16\<close> is a checksum. Over a message followed by its own checksum it is 0; messages
  that differ in one byte, or in two neighbouring bytes, anywhere, never have the same one.
\<close>

theorem crc_detects_errors:
  "getCRC16 (m @ crc_bytes (getCRC16 m)) = 0 \<and>
   ((a, b) \<noteq> (a', b') \<longrightarrow> getCRC16 (pre @ [a, b] @ post) \<noteq> getCRC16 (pre @ [a', b'] @ post))"
proof (intro conjI impI notI)
  have ok: "crc_ok (getCRC16 xs)" for xs by (simp add: getCRC16_def crc_from_ok crc_ok_0)
  show "getCRC16 (m @ crc_bytes (getCRC16 m)) = 0"
    using crc_appended [OF ok [of m]] by (simp add: getCRC16_def crc_from_append)
  assume ne: "(a, b) \<noteq> (a', b')" and eq: "getCRC16 (pre @ [a, b] @ post) = getCRC16 (pre @ [a', b'] @ post)"
  let ?c = "crc_from 0 pre"
  have c: "crc_ok ?c" using ok [of pre] by (simp add: getCRC16_def)
  have "crc_from (crc_from ?c [a, b]) post = crc_from (crc_from ?c [a', b']) post"
    using eq unfolding getCRC16_def crc_from_append .
  then have "crc_from ?c [a, b] = crc_from ?c [a', b']"
    by (rule crc_from_inj [OF crc_from_ok [OF c] crc_from_ok [OF c]])
  then show False using crc_two_inj [OF c] ne by blast
qed

theorem crc_detects_errors_witness:
  "getCRC16 [1, 2, 3] \<noteq> getCRC16 [1, 2, 7]"
  using crc_detects_errors [of "[]" 2 3 2 7 "[1]" "[]"] by simp

text \<open>A card that answers from a script.\<close>

definition script :: "u8 list xfer" where
  "script c d = (case d of [] \<Rightarrow> (255, []) | r # rs \<Rightarrow> (r, rs))"

lemma talk_script:
  "length cs \<le> length d \<Longrightarrow> talk script cs \<lparr>card = d, rw_reg = w, ctr_writes = t\<rparr> =
    (take (length cs) d, \<lparr>card = drop (length cs) d,
       rw_reg = (if cs = [] then w else d ! (length cs - 1)), ctr_writes = t\<rparr>)"
proof (induction cs arbitrary: d w)
  case (Cons c cs)
  then obtain r rs where d: "d = r # rs" by (cases d) auto
  show ?case using Cons d by (simp add: spi_rw_def script_def nth_Cons')
qed simp

lemma crc_zeros: "getCRC16 (replicate n 0) = 0"
proof -
  have "crc_from 0 (replicate n 0) = 0" by (induction n) simp_all
  then show ?thesis by (simp add: getCRC16_def)
qed



text \<open>
  \<open>mtime\<close> returns, after at most one retry, a value the 64-bit cycle counter really had
  at one of the reads, although it reads the two halves one after the other, as long as six
  consecutive reads take less than \<open>2 ^ 32\<close> cycles.
\<close>

theorem mtime_is_consistent:
  assumes "\<forall>i j. i \<le> j \<longrightarrow> c i \<le> c j" "\<forall>i. c i < 2 ^ 64" "c (t + 5) < c t + 2 ^ 32"
  shows "\<exists>r. t < r \<and> r \<le> t + 5 \<and> mtime (counter_hi c) (counter_lo c) t = Some (of_nat (c r), r + 2)"
  using mtime_spec [of c t] assms by blast

theorem mtime_is_consistent_witness:
  "\<exists>r. mtime (counter_hi (\<lambda>t. 2 ^ 32 - 1 + min t 10)) (counter_lo (\<lambda>t. 2 ^ 32 - 1 + min t 10)) 0 =
     Some (of_nat (2 ^ 32 - 1 + min r 10), r + 2)"
proof -
  have "\<forall>i j :: nat. i \<le> j \<longrightarrow> 2 ^ 32 - 1 + min i 10 \<le> 2 ^ 32 - 1 + min j (10 :: nat)" by (auto simp: min_def)
  moreover have "\<forall>i :: nat. 2 ^ 32 - 1 + min i 10 < (2 ^ 64 :: nat)" by (auto simp: min_def)
  moreover have "2 ^ 32 - 1 + min (0 + 5) 10 < 2 ^ 32 - 1 + min 0 10 + (2 ^ 32 :: nat)" by simp
  ultimately show ?thesis by (rule exE [OF mtime_is_consistent]) blast
qed

end
