(* ===== verification/Fs_Txn.thy ===== *)
theory Fs_Txn
  imports Fs Log_Props
begin

text \<open>
  What the file system code sees of the layers below it: blocks are read through a view and,
  inside a transaction, written through it, and every changed block is logged.
  \<open>txn s L bl H\<close>: the log starts at block \<open>L\<close> and holds the blocks \<open>bl\<close> so far, and the code
  holds the buffers \<open>H\<close>.
\<close>

definition txn :: "kst \<Rightarrow> u32 \<Rightarrow> u32 list \<Rightarrow> nat set \<Rightarrow> bool" where
  "txn s L bl H \<longleftrightarrow>
     (\<exists>P. binv s H P \<and> pins s bl P) \<and> log_ready s L bl \<and> lh_n (lg s) = int (length bl) \<and>
     (\<forall>b. b \<notin> set bl \<longrightarrow> view s b = dsk s b)"

definition log_add :: "u32 \<Rightarrow> u32 list \<Rightarrow> u32 list" where
  "log_add b bl = (if b \<in> set bl then bl else bl @ [b])"

text \<open>A transaction is open and there is room to log \<open>k\<close> more blocks.\<close>

definition log_room :: "kst \<Rightarrow> u32 list \<Rightarrow> nat \<Rightarrow> bool" where
  "log_room s bl k \<longleftrightarrow> 1 \<le> outstanding (lg s) \<and> length bl + k < NBUF \<and> int (length bl + k) < lsize (lg s)"

text \<open>What reading and writing blocks leaves alone.\<close>

definition fsame :: "kst \<Rightarrow> kst \<Rightarrow> bool" where
  "fsame s s' \<longleftrightarrow> keeps_but_log s s' \<and> lsize (lg s') = lsize (lg s) \<and> outstanding (lg s') = outstanding (lg s)"

lemma fsame_refl [simp]: "fsame s s"
  by (simp add: fsame_def keeps_but_log_simp)

lemma fsame_trans [trans]: "fsame s s' \<Longrightarrow> fsame s' s'' \<Longrightarrow> fsame s s''"
  unfolding fsame_def using keeps_but_log_trans by auto

lemma fsame_keeps: "keeps s s' \<Longrightarrow> fsame s s'"
  using keeps_weaken by (auto simp: fsame_def keeps_def)

lemma fsame_sel:
  assumes "fsame s s'"
  shows "sb s' = sb s" "itab s' = itab s" "ftab s' = ftab s" "ph s' = ph s" "pipes s' = pipes s"
    "ticks s' = ticks s" "lsize (lg s') = lsize (lg s)" "outstanding (lg s') = outstanding (lg s)" "same_procs (sch s) (sch s')"
  using assms by (simp_all add: fsame_def keeps_but_log_simp)

lemma log_room_same: "fsame s s' \<Longrightarrow> log_room s' bl k = log_room s bl k"
  by (simp add: log_room_def fsame_sel)

lemma log_room_add: "log_room s bl (Suc k) \<Longrightarrow> log_room s (log_add b bl) k"
  by (auto simp: log_room_def log_add_def)

lemma log_room_less: "log_room s bl k \<Longrightarrow> j \<le> k \<Longrightarrow> log_room s bl j"
  by (simp add: log_room_def)

lemma set_log_add [simp]: "set (log_add b bl) = insert b (set bl)"
  by (auto simp: log_add_def)

lemma txn_length_view: "txn s L bl H \<Longrightarrow> length (view s b) = BSIZE"
  unfolding txn_def by (elim conjE exE) (rule length_view)

lemma card_held: "binv s H P \<Longrightarrow> finite H"
  by (rule finite_subset [OF binvD(4)]) simp_all

text \<open>Reading a block that is not held yet.\<close>

lemma txn_bread:
  assumes "txn s L bl H" "length bl + card H < NBUF" "\<forall>i \<in> H. \<not> cached s b i"
  obtains i s' where "bread ROOTDEV b s = Ok (i, s')" "txn s' L bl (insert i H)" "i \<notin> H"
    "cached s' b i" "buf_data i s' = view s b" "view s' = view s" "fsame s s'"
    "\<And>c j. j \<noteq> i \<Longrightarrow> cached s' c j = cached s c j"
proof -
  obtain P where P: "binv s H P" "pins s bl P" and lr: "log_ready s L bl"
    and r: "lh_n (lg s) = int (length bl)" "\<forall>b. b \<notin> set bl \<longrightarrow> view s b = dsk s b"
    using assms(1) unfolding txn_def by blast
  have "room s H P b" unfolding room_def using pins_free [OF P assms(2)] by blast
  then obtain i s1 where 1: "bread ROOTDEV b s = Ok (i, s1)" "got s H P b i s1"
    using bread_ok [OF P(1)] assms(3) by metis
  note k = got_keeps [OF 1(2)]
  have lg: "lg s1 = lg s" using k(1) by (simp add: keeps_def)
  have g: "binv s1 (insert i H) P" "i \<notin> H" "cached s1 b i" "bdata (bufs s1 ! i) = view s b" "view s1 = view s"
    using 1(2) by (simp_all add: got_def)
  have "pins s1 bl P" by (rule got_pins [OF P(1) 1(2) P(2)])
  then have "txn s1 L bl (insert i H)"
    unfolding txn_def using g(1,5) log_ready_keeps [OF lr k(1)] r k(2) lg by auto
  then show ?thesis
    using that 1(1) g k(1) fsame_keeps got_cached_other [OF 1(2)] by (simp add: buf_data_def)
qed

text \<open>Releasing a buffer.\<close>

lemma txn_brelse:
  assumes "txn s L bl H" "i \<in> H"
  obtains s' where "brelse i s = Ok s'" "txn s' L bl (H - {i})" "view s' = view s"
    "cached s' = cached s" "fsame s s'"
proof -
  obtain P where P: "binv s H P" "pins s bl P" and lr: "log_ready s L bl"
    and r: "lh_n (lg s) = int (length bl)" "\<forall>b. b \<notin> set bl \<longrightarrow> view s b = dsk s b"
    using assms(1) unfolding txn_def by blast
  have run: "running s" using lr by (simp add: log_ready_def)
  have c: "cached s (bblockno (bufs s ! i)) i" by (rule locked_cached [OF P(1) assms(2)])
  have clean: "view s (bblockno (bufs s ! i)) = dsk s (bblockno (bufs s ! i))" if "P i = 0"
    using r(2) pins_pinned [OF P(2) _ c] that by fastforce
  obtain s1 where 1: "brelse i s = Ok s1" "binv s1 (H - {i}) P" "view s1 = view s" "cached s1 = cached s"
    "s1 = s\<lparr>bufs := bufs s1, lru := lru s1, sch := sch (kwakeup (ChanBuf i) s)\<rparr>"
    using brelse_ok [OF P(1) run assms(2) clean] by metis
  note k = keeps_release [OF 1(5)]
  have lg: "lg s1 = lg s" using k(1) by (simp add: keeps_def)
  have "txn s1 L bl (H - {i})"
    unfolding txn_def using 1(2-4) P(2) pins_cong [OF 1(4)] log_ready_keeps [OF lr k(1)] r k(2) lg by auto
  then show ?thesis using that 1 k(1) fsame_keeps by blast
qed

text \<open>Changing the data of a held buffer and logging it.\<close>

lemma txn_put:
  assumes "txn s L bl H" "i \<in> H" "cached s b i" "length d = BSIZE" "b \<notin> log_area L" "log_room s bl 1"
  obtains s' where "log_write i (set_data i d s) = Ok s'" "txn s' L (log_add b bl) H"
    "view s' = (view s)(b := d)" "cached s' = cached s" "fsame s s'"
proof -
  obtain P where P: "binv s H P" "pins s bl P" and lr: "log_ready s L bl"
    and r: "lh_n (lg s) = int (length bl)" "\<forall>b. b \<notin> set bl \<longrightarrow> view s b = dsk s b"
    using assms(1) unfolding txn_def by blast
  have b: "bblockno (bufs s ! i) = b" using assms(3) by (simp add: cached_def)
  note sd = set_data_ok [OF P(1) assms(2,4)]
  let ?s = "set_data i d s"
  have h: "pins ?s bl P" "log_ready ?s L bl" "bblockno (bufs ?s ! i) = b"
    using P(2) pins_cong [OF sd(3)] log_ready_keeps [OF lr keeps_set_data] sd(3) assms(3)
    by (auto simp: cached_def fun_eq_iff)
  have op: "1 \<le> outstanding (lg ?s)" using assms(6) by (simp add: log_room_def)
  have rm: "length bl + 1 < LOGSIZE" "int (length bl) < lsize (lg ?s) - 1" "length bl + 1 < NBUF"
    using assms(6) by (simp_all add: log_room_def fs_params)
  obtain s1 P1 where 1: "log_write i ?s = Ok s1" "binv s1 H P1" "pins s1 (log_add b bl) P1"
    "log_ready s1 L (log_add b bl)" "lh_n (lg s1) = int (length (log_add b bl))" "view s1 = view ?s"
    "dsk s1 = dsk ?s" "cached s1 = cached ?s" "keeps_but_log ?s s1"
    "lg s1 = (lg ?s)\<lparr>lh_n := lh_n (lg s1), lh_block := lh_block (lg s1)\<rparr>"
    using log_write_spec [OF sd(1) h(1,2) assms(2) _ op rm assms(5) h(3)] r(1)
    unfolding log_add_def by auto
  have lgs: "lsize (lg s1) = lsize (lg s)" "outstanding (lg s1) = outstanding (lg s)"
    by (subst 1(10), simp)+
  have same: "fsame s s1"
    using 1(9) keeps_weaken [OF keeps_set_data [of s i d]] keeps_but_log_trans lgs by (auto simp: fsame_def)
  have v: "view s1 = (view s)(b := d)" using 1(6) sd(2) b by simp
  have "txn s1 L (log_add b bl) H"
    unfolding txn_def using 1(2-5) r lgs v 1(7) by auto
  then show ?thesis using that 1(1,8) v sd(3) same by simp
qed


text \<open>The same with one buffer held at a time.\<close>

lemma txn_bread1:
  assumes "txn s L bl {}"
  obtains i s' where "bread ROOTDEV b s = Ok (i, s')" "txn s' L bl {i}" "cached s' b i"
    "buf_data i s' = view s b" "view s' = view s" "fsame s s'"
proof -
  have few: "length bl + card ({} :: nat set) < NBUF" using assms by (simp add: txn_def log_ready_def)
  have none: "\<forall>i \<in> {}. \<not> cached s b i" by simp
  show ?thesis by (rule txn_bread [OF assms few none]) (rule that; assumption)
qed

lemma txn_brelse1:
  assumes "txn s L bl {i}"
  obtains s' where "brelse i s = Ok s'" "txn s' L bl {}" "view s' = view s" "fsame s s'"
proof (rule txn_brelse [OF assms insertI1])
  fix s' assume a: "brelse i s = Ok s'" "txn s' L bl ({i} - {i})" "view s' = view s" "fsame s s'"
  show thesis by (rule that [OF a(1) _ a(3,4)]) (use a(2) in simp)
qed

lemma txn_put1:
  assumes "txn s L bl {i}" "cached s b i" "length d = BSIZE" "b \<notin> log_area L" "log_room s bl 1"
  obtains s' where "log_write i (set_data i d s) = Ok s'" "txn s' L (log_add b bl) {i}"
    "view s' = (view s)(b := d)" "fsame s s'"
  by (rule txn_put [OF assms(1) insertI1 assms(2-5)]) (rule that; assumption)

text \<open>Changes of the other tables do not matter to the blocks.\<close>

lemma txn_cong:
  assumes "bufs s' = bufs s" "lru s' = lru s" "dsk s' = dsk s" "lg s' = lg s" "mypid s' = mypid s"
    "running s' = running s"
  shows "txn s' L bl H = txn s L bl H" "view s' = view s" "cached s' = cached s"
proof -
  have c: "cached s' = cached s" by (rule cached_cong) (rule assms(1))
  show v: "view s' = view s" by (rule view_cong) (rule assms(1,3))+
  show "cached s' = cached s" by (rule c)
  have "binv s' H P = binv s H P" for P using assms c unfolding binv_def by simp
  moreover have "log_ready s' L bl = log_ready s L bl" using assms by (simp add: log_ready_def)
  ultimately show "txn s' L bl H = txn s L bl H"
    using assms v pins_cong [OF c] by (simp add: txn_def)
qed

lemma txn_upd [simp]:
  "txn (upd_ph p s) L bl H = txn s L bl H" "view (upd_ph p s) = view s" "cached (upd_ph p s) = cached s"
  "txn (upd_inode ip f s) L bl H = txn s L bl H" "view (upd_inode ip f s) = view s"
  "cached (upd_inode ip f s) = cached s"
  by (rule txn_cong; simp add: upd_ph_def upd_inode_def mypid_def me_def running_def)+

subsection \<open>The bitmap\<close>

lemma bit_free_iff: "bit_free d j \<longleftrightarrow> \<not> bit (d ! (j div 8)) (j mod 8)"
  unfolding bit_free_def bit_mask_def bit_iff_and_push_bit_not_eq_0 by simp

lemma bit_bit_mask: "bit (bit_mask j) n \<longleftrightarrow> n = j mod 8"
  unfolding bit_mask_def bit_push_bit_iff bit_1_iff by (auto simp: possible_bit_def)

definition mark :: "nat \<Rightarrow> u8 list \<Rightarrow> u8 list" where
  "mark j d = d[j div 8 := d ! (j div 8) OR bit_mask j]"

definition unmark :: "nat \<Rightarrow> u8 list \<Rightarrow> u8 list" where
  "unmark j d = d[j div 8 := d ! (j div 8) AND NOT (bit_mask j)]"

lemma same_byte_bit: "j div 8 = k div 8 \<Longrightarrow> j mod 8 = k mod 8 \<Longrightarrow> j = (k :: nat)"
  by (metis div_mult_mod_eq)

lemma bit_free_mark:
  assumes "j < 8 * length d" "k < 8 * length d"
  shows "bit_free (mark j d) k \<longleftrightarrow> bit_free d k \<and> k \<noteq> j"
proof (cases "j div 8 = k div 8")
  case True
  moreover have "k div 8 < length d" using assms(2) by (simp add: less_mult_imp_div_less mult.commute)
  ultimately show ?thesis
    using same_byte_bit [of k j] by (auto simp: bit_free_iff mark_def bit_or_iff bit_bit_mask)
qed (auto simp: bit_free_iff mark_def)

lemma bit_free_unmark:
  assumes "j < 8 * length d" "k < 8 * length d"
  shows "bit_free (unmark j d) k \<longleftrightarrow> bit_free d k \<or> k = j"
proof (cases "j div 8 = k div 8")
  case True
  moreover have "k div 8 < length d" using assms(2) by (simp add: less_mult_imp_div_less mult.commute)
  moreover have "k mod 8 < 8" by simp
  ultimately show ?thesis
    using same_byte_bit [of k j]
    by (auto simp: bit_free_iff unmark_def bit_and_iff bit_not_iff possible_bit_def bit_bit_mask)
qed (auto simp: bit_free_iff unmark_def)

lemma length_mark [simp]: "length (mark j d) = length d" "length (unmark j d) = length d"
  by (simp_all add: mark_def unmark_def)

text \<open>The blocks the bitmap marks as used.\<close>

definition used :: "kst \<Rightarrow> nat \<Rightarrow> bool" where
  "used s b \<longleftrightarrow> \<not> bit_free (view s (BBLOCK (of_nat b) (sb s))) (b mod BPB)"

definition bitmap_blocks :: "superblock \<Rightarrow> u32 set" where
  "bitmap_blocks sblk = (\<lambda>b. BBLOCK (of_nat b) sblk) ` {..<unat (sb_size sblk)}"

text \<open>The bitmap is not in the log, and no free block is in the log or in the bitmap.\<close>

definition bitmap_ok :: "kst \<Rightarrow> u32 \<Rightarrow> bool" where
  "bitmap_ok s L \<longleftrightarrow>
     bitmap_blocks (sb s) \<inter> log_area L = {} \<and>
     (\<forall>b < unat (sb_size (sb s)). \<not> used s b \<longrightarrow> of_nat b \<notin> log_area L \<union> bitmap_blocks (sb s))"

lemma BBLOCK_in: "b < unat (sb_size sblk) \<Longrightarrow> BBLOCK (of_nat b) sblk \<in> bitmap_blocks sblk"
  by (simp add: bitmap_blocks_def)

lemma bitmap_okD:
  assumes "bitmap_ok s L"
  shows "b < unat (sb_size (sb s)) \<Longrightarrow> \<not> used s b \<Longrightarrow> of_nat b \<notin> log_area L"
    "b < unat (sb_size (sb s)) \<Longrightarrow> \<not> used s b \<Longrightarrow> of_nat b \<notin> bitmap_blocks (sb s)"
    "B \<in> bitmap_blocks (sb s) \<Longrightarrow> B \<notin> log_area L"
  using assms unfolding bitmap_ok_def disjoint_iff by simp_all

lemma BBLOCK_eq:
  assumes "b < 2 ^ 32" "c < 2 ^ 32"
  shows "BBLOCK (of_nat b) sblk = BBLOCK (of_nat c) sblk \<longleftrightarrow> b div BPB = c div BPB"
proof -
  have u: "unat (of_nat x div of_nat BPB :: u32) = x div BPB" if "x < 2 ^ 32" for x
    using that by (simp add: unat_div_distrib BPB_def BSIZE_def)
  show ?thesis
    unfolding BBLOCK_def add_right_cancel
    unfolding word_unat_eq_iff u [OF assms(1)] u [OF assms(2)] ..
qed

lemma balloc_scan_Some:
  "balloc_scan n bi b nblk d = Some j \<Longrightarrow>
   bi \<le> j \<and> j < bi + n \<and> b + j < nblk \<and> bit_free d j \<and> (\<forall>i. bi \<le> i \<longrightarrow> i < j \<longrightarrow> \<not> bit_free d i)"
proof (induction n arbitrary: bi)
  case (Suc n)
  show ?case
  proof (cases "bit_free d bi")
    case True
    then show ?thesis using Suc.prems by (auto split: if_splits)
  next
    case False
    then have "balloc_scan n (Suc bi) b nblk d = Some j" using Suc.prems by (auto split: if_splits)
    then show ?thesis using Suc.IH [of "Suc bi"] False
      by (metis Suc_leD Suc_leI add_Suc_right add_Suc_shift le_neq_implies_less)
  qed
qed simp

lemma balloc_scan_None:
  "balloc_scan n bi b nblk d = None \<Longrightarrow> bi \<le> j \<Longrightarrow> j < bi + n \<Longrightarrow> b + j < nblk \<Longrightarrow> \<not> bit_free d j"
proof (induction n arbitrary: bi)
  case (Suc n)
  then show ?case by (cases "j = bi") (auto split: if_splits)
qed simp

subsection \<open>Zeroing, allocating and freeing blocks\<close>

lemma bzero_spec:
  assumes "txn s L bl H" "\<forall>i \<in> H. \<not> cached s b i" "b \<notin> log_area L" "log_room s bl 1"
    "length bl + card H < NBUF"
  obtains s' where "bzero ROOTDEV b s = Ok s'" "txn s' L (log_add b bl) H"
    "view s' = (view s)(b := replicate BSIZE 0)" "fsame s s'" "\<And>c i. i \<in> H \<Longrightarrow> cached s' c i = cached s c i"
proof -
  obtain i s1 where 1: "bread ROOTDEV b s = Ok (i, s1)" "txn s1 L bl (insert i H)" "i \<notin> H" "cached s1 b i"
    "view s1 = view s" "fsame s s1" "\<And>c j. j \<noteq> i \<Longrightarrow> cached s1 c j = cached s c j"
    using txn_bread [OF assms(1,5,2)] by metis
  have r: "log_room s1 bl 1" using assms(4) log_room_same [OF 1(6)] by simp
  obtain s2 where 2: "log_write i (set_data i (replicate BSIZE 0) s1) = Ok s2"
    "txn s2 L (log_add b bl) (insert i H)" "view s2 = (view s1)(b := replicate BSIZE 0)"
    "cached s2 = cached s1" "fsame s1 s2"
    by (rule txn_put [OF 1(2) insertI1 1(4) length_replicate assms(3) r])
  obtain s3 where 3: "brelse i s2 = Ok s3" "txn s3 L (log_add b bl) (insert i H - {i})" "view s3 = view s2"
    "cached s3 = cached s2" "fsame s2 s3"
    by (rule txn_brelse [OF 2(2) insertI1])
  show ?thesis
  proof (rule that)
    show "bzero ROOTDEV b s = Ok s3" using 1(1) 2(1) 3(1) by (simp add: bzero_def)
    show "txn s3 L (log_add b bl) H" using 3(2) 1(3) by simp
    show "view s3 = (view s)(b := replicate BSIZE 0)" using 3(3) 2(3) 1(5) by simp
    show "fsame s s3" using 1(6) 2(5) 3(5) fsame_trans by blast
    show "cached s3 c j = cached s c j" if "j \<in> H" for c j using 1(3,7) 2(4) 3(4) that by metis
  qed
qed


lemma used_same: "view s' = view s \<Longrightarrow> sb s' = sb s \<Longrightarrow> used s' = used s"
  by (simp add: used_def fun_eq_iff)

lemma used_update:
  assumes "c < 2 ^ 32" "length (view s (BBLOCK (of_nat c) (sb s))) = BSIZE" "sb s' = sb s"
    and "BBLOCK (of_nat d) (sb s) \<noteq> BBLOCK (of_nat c) (sb s) \<Longrightarrow>
      view s' (BBLOCK (of_nat d) (sb s)) = view s (BBLOCK (of_nat d) (sb s))"
    and "d < 2 ^ 32"
  shows "view s' (BBLOCK (of_nat c) (sb s)) = mark (c mod BPB) (view s (BBLOCK (of_nat c) (sb s))) \<Longrightarrow>
      used s' d \<longleftrightarrow> used s d \<or> d = c"
    "view s' (BBLOCK (of_nat c) (sb s)) = unmark (c mod BPB) (view s (BBLOCK (of_nat c) (sb s))) \<Longrightarrow>
      used s' d \<longleftrightarrow> used s d \<and> d \<noteq> c"
proof -
  have lt: "x mod BPB < 8 * BSIZE" for x by (simp add: BPB_def BSIZE_def)
  have same: "d div BPB = c div BPB \<Longrightarrow> d mod BPB = c mod BPB \<Longrightarrow> d = c" by (metis div_mult_mod_eq)
  show "view s' (BBLOCK (of_nat c) (sb s)) = mark (c mod BPB) (view s (BBLOCK (of_nat c) (sb s))) \<Longrightarrow>
      used s' d \<longleftrightarrow> used s d \<or> d = c"
  proof (cases "BBLOCK (of_nat d) (sb s) = BBLOCK (of_nat c) (sb s)")
    case True
    assume m: "view s' (BBLOCK (of_nat c) (sb s)) = mark (c mod BPB) (view s (BBLOCK (of_nat c) (sb s)))"
    show ?thesis
      using True same lt BBLOCK_eq [OF assms(5,1), of "sb s"] assms(2,3) m
        bit_free_mark [of "c mod BPB" "view s (BBLOCK (of_nat c) (sb s))" "d mod BPB"]
      by (auto simp: used_def)
  next
    case False
    then show ?thesis using assms(3) assms(4) [OF False] by (auto simp: used_def)
  qed
  show "view s' (BBLOCK (of_nat c) (sb s)) = unmark (c mod BPB) (view s (BBLOCK (of_nat c) (sb s))) \<Longrightarrow>
      used s' d \<longleftrightarrow> used s d \<and> d \<noteq> c"
  proof (cases "BBLOCK (of_nat d) (sb s) = BBLOCK (of_nat c) (sb s)")
    case True
    assume m: "view s' (BBLOCK (of_nat c) (sb s)) = unmark (c mod BPB) (view s (BBLOCK (of_nat c) (sb s)))"
    show ?thesis
      using True same lt BBLOCK_eq [OF assms(5,1), of "sb s"] assms(2,3) m
        bit_free_unmark [of "c mod BPB" "view s (BBLOCK (of_nat c) (sb s))" "d mod BPB"]
      by (auto simp: used_def)
  next
    case False
    then show ?thesis using assms(3) assms(4) [OF False] by (auto simp: used_def)
  qed
qed

lemma bfree_spec:
  assumes "txn s L bl H" "\<forall>i \<in> H. \<not> cached s (BBLOCK b (sb s)) i" "BBLOCK b (sb s) \<notin> log_area L"
    "log_room s bl 1" "length bl + card H < NBUF"
  shows "used s (unat b) \<Longrightarrow> \<exists>s'. bfree ROOTDEV b s = Ok s' \<and> txn s' L (log_add (BBLOCK b (sb s)) bl) H \<and>
      view s' = (view s)(BBLOCK b (sb s) := unmark (unat b mod BPB) (view s (BBLOCK b (sb s)))) \<and>
      fsame s s' \<and> (\<forall>c. \<forall>i \<in> H. cached s' c i = cached s c i)"
    "\<not> used s (unat b) \<Longrightarrow> bfree ROOTDEV b s = Fail (Panic ''freeing free block'')"
proof -
  let ?B = "BBLOCK b (sb s)" and ?bi = "unat b mod BPB"
  obtain i s1 where 1: "bread ROOTDEV ?B s = Ok (i, s1)" "txn s1 L bl (insert i H)" "i \<notin> H" "cached s1 ?B i"
    "buf_data i s1 = view s ?B" "view s1 = view s" "fsame s s1" "\<And>c j. j \<noteq> i \<Longrightarrow> cached s1 c j = cached s c j"
    using txn_bread [OF assms(1,5,2)] by metis
  have u: "used s (unat b) \<longleftrightarrow> \<not> bit_free (view s ?B) ?bi" by (simp add: used_def)
  show "bfree ROOTDEV b s = Fail (Panic ''freeing free block'')" if "\<not> used s (unat b)"
    using that u 1(1,5) by (simp add: bfree_def Let_def)
  assume us: "used s (unat b)"
  let ?d = "unmark ?bi (view s ?B)"
  have len: "length ?d = BSIZE" using txn_length_view [OF assms(1)] by simp
  have r: "log_room s1 bl 1" using assms(4) log_room_same [OF 1(7)] by simp
  obtain s2 where 2: "log_write i (set_data i ?d s1) = Ok s2" "txn s2 L (log_add ?B bl) (insert i H)"
    "view s2 = (view s1)(?B := ?d)" "cached s2 = cached s1" "fsame s1 s2"
    by (rule txn_put [OF 1(2) insertI1 1(4) len assms(3) r])
  obtain s3 where 3: "brelse i s2 = Ok s3" "txn s3 L (log_add ?B bl) (insert i H - {i})" "view s3 = view s2"
    "cached s3 = cached s2" "fsame s2 s3"
    by (rule txn_brelse [OF 2(2) insertI1])
  have e: "bfree ROOTDEV b s = Ok s3"
    using 1(1,5) 2(1) 3(1) us u by (simp add: bfree_def Let_def unmark_def)
  have "cached s3 c j = cached s c j" if "j \<in> H" for c j using 1(3,8) 2(4) 3(4) that by metis
  then show "\<exists>s'. bfree ROOTDEV b s = Ok s' \<and> txn s' L (log_add ?B bl) H \<and>
      view s' = (view s)(?B := ?d) \<and> fsame s s' \<and> (\<forall>c. \<forall>i \<in> H. cached s' c i = cached s c i)"
    using e 3(2,3) 2(3) 1(3,6) fsame_trans [OF 1(7) fsame_trans [OF 2(5) 3(5)]]
    by (intro exI [of _ s3]) simp
qed


text \<open>
  The buffers held across an allocation are of used blocks outside the bitmap.
\<close>

definition held_ok :: "kst \<Rightarrow> nat set \<Rightarrow> bool" where
  "held_ok s H \<longleftrightarrow> (\<forall>i \<in> H. \<forall>b < unat (sb_size (sb s)).
     \<not> cached s (BBLOCK (of_nat b) (sb s)) i \<and> (\<not> used s b \<longrightarrow> \<not> cached s (of_nat b) i))"

text \<open>The first free block taken: its bit set and its contents zeroed.\<close>

definition took :: "kst \<Rightarrow> nat \<Rightarrow> kst \<Rightarrow> bool" where
  "took s c s' \<longleftrightarrow>
     c < unat (sb_size (sb s)) \<and> \<not> used s c \<and> (\<forall>d < c. used s d) \<and>
     view s' = (view s)(BBLOCK (of_nat c) (sb s) := mark (c mod BPB) (view s (BBLOCK (of_nat c) (sb s))),
                        of_nat c := replicate BSIZE 0)"

lemma balloc_from_spec:
  assumes "txn s L bl H" "bitmap_ok s L" "held_ok s H" "log_room s bl 2" "length bl + 1 + card H < NBUF"
    and "BPB dvd b" "unat (sb_size (sb s)) < b + n * BPB"
    and "\<forall>c < b. c < unat (sb_size (sb s)) \<longrightarrow> used s c"
  shows "\<exists>r s'. balloc_from n b ROOTDEV s = Ok (r, s') \<and> fsame s s' \<and>
    (\<forall>c. \<forall>i \<in> H. cached s' c i = cached s c i) \<and>
    (r = 0 \<and> (\<forall>c < unat (sb_size (sb s)). used s c) \<and> txn s' L bl H \<and> view s' = view s \<or>
     (\<exists>c. r = of_nat c \<and> took s c s' \<and>
        txn s' L (log_add (of_nat c) (log_add (BBLOCK (of_nat c) (sb s)) bl)) H))"
  using assms
proof (induction n arbitrary: b s)
  case 0
  then show ?case by auto
next
  case (Suc n)
  let ?size = "unat (sb_size (sb s))"
  show ?case
  proof (cases "b < ?size")
    case False
    then have "\<forall>c < ?size. used s c" using Suc.prems(8) by auto
    then show ?thesis using False Suc.prems(1) by simp
  next
    case True
    let ?B = "BBLOCK (of_nat b) (sb s)" and ?d = "view s (BBLOCK (of_nat b) (sb s))"
    have b32: "b < 2 ^ 32" using True unat_u32_lt less_trans by blast
    have notheld: "\<forall>i \<in> H. \<not> cached s ?B i" using Suc.prems(3) True by (simp add: held_ok_def)
    have few: "length bl + card H < NBUF" using Suc.prems(5) by simp
    obtain i s1 where 1: "bread ROOTDEV ?B s = Ok (i, s1)" "txn s1 L bl (insert i H)" "i \<notin> H" "cached s1 ?B i"
      "buf_data i s1 = ?d" "view s1 = view s" "fsame s s1" "\<And>c j. j \<noteq> i \<Longrightarrow> cached s1 c j = cached s c j"
      using txn_bread [OF Suc.prems(1) few notheld] by metis
    note same1 = fsame_sel [OF 1(7)]
    have in_block: "BBLOCK (of_nat (b + j)) (sb s) = ?B" "(b + j) mod BPB = j" "used s (b + j) \<longleftrightarrow> \<not> bit_free ?d j"
      if "j < BPB" "b + j < ?size" for j
    proof -
      have lt: "b + j < 2 ^ 32" using that(2) unat_u32_lt less_trans by blast
      show m: "(b + j) mod BPB = j" using Suc.prems(6) that(1) by (auto simp: dvd_def)
      have "(b + j) div BPB = b div BPB" using Suc.prems(6) that(1) by (auto simp: dvd_def)
      then show B: "BBLOCK (of_nat (b + j)) (sb s) = ?B" using BBLOCK_eq [OF lt b32] by blast
      show "used s (b + j) \<longleftrightarrow> \<not> bit_free ?d j" unfolding used_def B m ..
    qed
    show ?thesis
    proof (cases "balloc_scan BPB 0 b ?size ?d")
      case None
      obtain s2 where 2: "brelse i s1 = Ok s2" "txn s2 L bl (insert i H - {i})" "view s2 = view s1"
        "cached s2 = cached s1" "fsame s1 s2"
        by (rule txn_brelse [OF 1(2) insertI1])
      have same: "fsame s s2" "view s2 = view s" using fsame_trans [OF 1(7) 2(5)] 2(3) 1(6) by simp_all
      have u: "used s2 = used s" by (rule used_same [OF same(2)]) (simp add: fsame_sel [OF same(1)])
      have c2: "cached s2 c j = cached s c j" if "j \<in> H" for c j using 1(3,8) 2(4) that by metis
      have all: "used s c" if "c < b + BPB" "c < ?size" for c
      proof (cases "c < b")
        case True
        then show ?thesis using Suc.prems(8) that(2) by blast
      next
        case False
        then obtain j where j: "c = b + j" by (metis le_add_diff_inverse not_less)
        then show ?thesis
          using in_block(3) [of j] balloc_scan_None [OF None, of j] that by simp
      qed
      have p: "txn s2 L bl H" "bitmap_ok s2 L" "held_ok s2 H" "log_room s2 bl 2" "length bl + 1 + card H < NBUF"
        "BPB dvd b + BPB" "unat (sb_size (sb s2)) < b + BPB + n * BPB"
        "\<forall>c < b + BPB. c < unat (sb_size (sb s2)) \<longrightarrow> used s2 c"
        using 2(2) 1(3) Suc.prems(2-7) u fsame_sel [OF same(1)] log_room_same [OF same(1)] c2 all
        by (simp_all add: bitmap_ok_def held_ok_def algebra_simps)
      obtain r s' where IH: "balloc_from n (b + BPB) ROOTDEV s2 = Ok (r, s')" "fsame s2 s'"
        "\<forall>c. \<forall>i \<in> H. cached s' c i = cached s2 c i"
        "r = 0 \<and> (\<forall>c < unat (sb_size (sb s2)). used s2 c) \<and> txn s' L bl H \<and> view s' = view s2 \<or>
         (\<exists>c. r = of_nat c \<and> took s2 c s' \<and>
           txn s' L (log_add (of_nat c) (log_add (BBLOCK (of_nat c) (sb s2)) bl)) H)"
        using Suc.IH [OF p] by (elim exE conjE)
      have step: "balloc_from (Suc n) b ROOTDEV s = balloc_from n (b + BPB) ROOTDEV s2"
        using True 1(1,5) 2(1) None same1(1) by simp
      have t: "took s2 c s' = took s c s'" for c
        using u same fsame_sel [OF same(1)] by (simp add: took_def)
      show ?thesis
        unfolding step using IH(1,3,4) fsame_trans [OF same(1) IH(2)] c2 u same(2) fsame_sel(1) [OF same(1)] t
        by (intro exI [of _ r] exI [of _ s']) auto
    next
      case (Some j)
      note sc = balloc_scan_Some [OF Some]
      let ?c = "b + j" and ?d' = "mark j ?d"
      have j: "j < BPB" "?c < ?size" "bit_free ?d j" using sc by simp_all
      note ib = in_block [OF j(1,2)]
      have free: "\<not> used s ?c" using ib(3) j(3) by simp
      have first: "used s e" if "e < ?c" for e
      proof (cases "e < b")
        case True
        then show ?thesis using Suc.prems(8) that j(2) by auto
      next
        case False
        then obtain k where k: "e = b + k" by (metis le_add_diff_inverse not_less)
        then show ?thesis using in_block(3) [of k] sc that j by simp
      qed
      have inB: "?B \<in> bitmap_blocks (sb s)" using True by (rule BBLOCK_in)
      have ok: "of_nat ?c \<notin> log_area L" "of_nat ?c \<noteq> ?B" "?B \<notin> log_area L"
        using bitmap_okD [OF Suc.prems(2)] free j(2) inB by metis+
      have len: "length ?d' = BSIZE" using txn_length_view [OF Suc.prems(1)] by simp
      have r1: "log_room s1 bl 1" using Suc.prems(4) log_room_same [OF 1(7)] log_room_less by simp
      obtain s2 where 2: "log_write i (set_data i ?d' s1) = Ok s2" "txn s2 L (log_add ?B bl) (insert i H)"
        "view s2 = (view s1)(?B := ?d')" "cached s2 = cached s1" "fsame s1 s2"
        by (rule txn_put [OF 1(2) insertI1 1(4) len ok(3) r1])
      obtain s3 where 3: "brelse i s2 = Ok s3" "txn s3 L (log_add ?B bl) (insert i H - {i})" "view s3 = view s2"
        "cached s3 = cached s2" "fsame s2 s3"
        by (rule txn_brelse [OF 2(2) insertI1])
      have t3: "txn s3 L (log_add ?B bl) H" using 3(2) 1(3) by simp
      have c3: "cached s3 c k = cached s c k" if "k \<in> H" for c k using 1(3,8) 2(4) 3(4) that by metis
      have nh: "\<forall>k \<in> H. \<not> cached s3 (of_nat ?c) k"
        using Suc.prems(3) free j(2) c3 by (simp add: held_ok_def del: of_nat_add)
      have same3: "fsame s s3" using 1(7) 2(5) 3(5) fsame_trans by blast
      have r3: "log_room s3 (log_add ?B bl) 1"
        using Suc.prems(4) log_room_same [OF same3] log_room_add [of s3 bl 1 ?B] by (simp add: numeral_2_eq_2)
      have few3: "length (log_add ?B bl) + card H < NBUF" using Suc.prems(5) by (simp add: log_add_def)
      obtain s4 where 4: "bzero ROOTDEV (of_nat ?c) s3 = Ok s4" "txn s4 L (log_add (of_nat ?c) (log_add ?B bl)) H"
        "view s4 = (view s3)(of_nat ?c := replicate BSIZE 0)" "fsame s3 s4"
        "\<And>c k. k \<in> H \<Longrightarrow> cached s4 c k = cached s3 c k"
        using bzero_spec [OF t3 nh ok(1) r3 few3] by metis
      have step: "balloc_from (Suc n) b ROOTDEV s = Ok (of_nat ?c, s4)"
        using True 1(1,5) 2(1) 3(1) 4(1) Some same1(1) by (simp add: Let_def mark_def)
      have v: "view s4 = (view s)(?B := ?d', of_nat ?c := replicate BSIZE 0)"
        using 4(3) 3(3) 2(3) 1(6) by simp
      have tk: "took s ?c s4" unfolding took_def ib(1,2) using j(2) free first v by blast
      have t4: "txn s4 L (log_add (of_nat ?c) (log_add (BBLOCK (of_nat ?c) (sb s)) bl)) H"
        unfolding ib(1) by (rule 4(2))
      have "\<exists>c. of_nat ?c = (of_nat c :: u32) \<and> took s c s4 \<and>
          txn s4 L (log_add (of_nat c) (log_add (BBLOCK (of_nat c) (sb s)) bl)) H"
        using tk t4 by blast
      moreover have "\<forall>c. \<forall>i \<in> H. cached s4 c i = cached s c i" using c3 4(5) by simp
      ultimately show ?thesis using step fsame_trans [OF same3 4(4)] by blast
    qed
  qed
qed


lemma balloc_spec:
  assumes "txn s L bl H" "bitmap_ok s L" "held_ok s H" "log_room s bl 2" "length bl + 1 + card H < NBUF"
  shows "\<exists>r s'. balloc ROOTDEV s = Ok (r, s') \<and> fsame s s' \<and>
    (\<forall>c. \<forall>i \<in> H. cached s' c i = cached s c i) \<and>
    (r = 0 \<and> (\<forall>c < unat (sb_size (sb s)). used s c) \<and> txn s' L bl H \<and> view s' = view s \<or>
     (\<exists>c. r = of_nat c \<and> took s c s' \<and>
        txn s' L (log_add (of_nat c) (log_add (BBLOCK (of_nat c) (sb s)) bl)) H))"
proof -
  have "unat (sb_size (sb s)) < 0 + (unat (sb_size (sb s)) div BPB + 1) * BPB"
    using dividend_less_div_times [of BPB "unat (sb_size (sb s))"] by (simp add: BPB_def BSIZE_def)
  then show ?thesis
    unfolding balloc_def by (intro balloc_from_spec [OF assms]) simp_all
qed

lemma took_used:
  assumes "took s c s'" "bitmap_ok s L" "txn s L bl H" "sb s' = sb s" "d < unat (sb_size (sb s))"
  shows "used s' d \<longleftrightarrow> used s d \<or> d = c"
proof -
  have c: "c < unat (sb_size (sb s))" "\<not> used s c"
    and v: "view s' = (view s)(BBLOCK (of_nat c) (sb s) := mark (c mod BPB) (view s (BBLOCK (of_nat c) (sb s))),
                        of_nat c := replicate BSIZE 0)"
    using assms(1) by (simp_all add: took_def)
  have lt: "c < 2 ^ 32" "d < 2 ^ 32" using c(1) assms(5) unat_u32_lt less_trans by blast+
  have ne: "BBLOCK (of_nat b) (sb s) \<noteq> of_nat c" if "b < unat (sb_size (sb s))" for b
    using bitmap_okD(2) [OF assms(2) c] BBLOCK_in [OF that] by metis
  show ?thesis
    by (rule used_update(1) [OF lt(1) txn_length_view [OF assms(3)] assms(4) _ lt(2)])
       (use v ne c(1) assms(5) in auto)
qed


lemma took_bitmap_ok:
  assumes "took s c s'" "bitmap_ok s L" "txn s L bl H" "sb s' = sb s"
  shows "bitmap_ok s' L"
  using assms(2,4) took_used [OF assms] unfolding bitmap_ok_def by auto

subsection \<open>A concrete file system\<close>

text \<open>
  The super block \<open>zero_sb\<close>: inodes from block 18, the bitmap in block 44. Blocks 0 to 47 are
  used. The root directory, inode 1, holds its two entries in block 46.
\<close>

definition demo_inode :: dinode where
  "demo_inode = \<lparr>d_type = T_DIR, d_major = 0, d_minor = 0, d_nlink = 1, d_size = 32,
     d_addrs = 46 # replicate NDIRECT 0\<rparr>"

definition demo_dir :: "u8 list" where
  "demo_dir = dirent_bytes 1 (name_field [46]) @ dirent_bytes 1 (name_field [46, 46])"

definition demo_disk :: "u32 \<Rightarrow> u8 list" where
  "demo_disk = (\<lambda>_. replicate BSIZE 0)
     (18 := put_dinode 1 demo_inode (replicate BSIZE 0),
      44 := replicate 6 255 @ replicate 506 0,
      46 := demo_dir @ replicate 480 0)"

definition demo_slot :: inode where
  "demo_slot = \<lparr>idev = 0, inum = 0, iref = 0, ilk = initsleeplock, ivalid = False, idata = dinode_zero\<rparr>"

definition demo_fs :: kst where
  "demo_fs = demo_kst\<lparr>dsk := demo_disk, lg := zero_log\<lparr>outstanding := 1\<rparr>,
     itab := (replicate NINODE demo_slot)[0 := \<lparr>idev = ROOTDEV, inum = 1, iref = 1, ilk = initsleeplock,
       ivalid = True, idata = demo_inode\<rparr>]\<rparr>"

lemma length_demo_disk: "length (demo_disk b) = BSIZE"
proof -
  have "length (demo_dir @ replicate 480 0) = BSIZE"
    by (simp add: demo_dir_def dirent_bytes_def name_field_def BSIZE_def DIRSIZ_def)
  moreover have "length (put_dinode 1 demo_inode (replicate BSIZE 0)) = BSIZE"
    by (simp add: put_dinode_def dinode_bytes_def demo_inode_def BSIZE_def NDIRECT_def numeral_eq_Suc)
  ultimately show ?thesis by (auto simp: demo_disk_def BSIZE_def)
qed

lemma demo_fs_txn: "txn demo_fs 2 [] {}" "log_room demo_fs [] 14" "view demo_fs = demo_disk"
  "sb demo_fs = zero_sb"
proof -
  have b: "bufs demo_fs = replicate NBUF zero_buf" by (simp add: demo_fs_def demo_kst_def)
  note nc = no_cached_reboot [OF b]
  show v: "view demo_fs = demo_disk"
    by (rule ext) (use view_uncached [of demo_fs] nc in \<open>simp add: demo_fs_def demo_kst_def\<close>)
  have "running demo_fs" using demo_running(2) by (simp add: running_def demo_fs_def)
  then have "rebooted demo_fs demo_disk 2"
    by (simp add: rebooted_def demo_fs_def demo_kst_def zero_log_def)
  note rb = rebooted_binv [OF this length_demo_disk]
  have "log_ready demo_fs 2 []"
    using \<open>running demo_fs\<close> by (simp add: log_ready_def demo_fs_def zero_log_def log_ok_def NBUF_def LOGSIZE_def MAXOPBLOCKS_def)
  then show "txn demo_fs 2 [] {}"
    using rb v by (auto simp: txn_def demo_fs_def zero_log_def)
  show "log_room demo_fs [] 14" by (simp add: log_room_def demo_fs_def zero_log_def NBUF_def)
  show "sb demo_fs = zero_sb" by (simp add: demo_fs_def demo_kst_def)
qed

lemma demo_used: "b < 2000 \<Longrightarrow> used demo_fs b \<longleftrightarrow> b < 48"
proof -
  assume b: "b < 2000"
  have B: "BBLOCK (of_nat b) zero_sb = 44"
    using BBLOCK_eq [of b 0 zero_sb] b by (simp add: BPB_def BSIZE_def BBLOCK_def zero_sb_def)
  have m: "b mod BPB = b" using b by (simp add: BPB_def BSIZE_def)
  have d: "demo_disk 44 = replicate 6 255 @ replicate 506 0" by (simp add: demo_disk_def)
  have "bit (255 :: u8) (b mod 8)"
  proof -
    have "(255 :: u8) = mask 8" by (simp add: mask_eq_exp_minus_1)
    show ?thesis unfolding \<open>255 = mask 8\<close> bit_mask_iff by (simp add: possible_bit_def)
  qed
  moreover have "b div 8 < 6 \<longleftrightarrow> b < 48" by auto
  moreover have "b div 8 < 512" using b by auto
  ultimately show "used demo_fs b \<longleftrightarrow> b < 48"
    unfolding used_def demo_fs_txn(3,4) B m d bit_free_iff by (auto simp: nth_append)
qed

lemma demo_area: "18 \<le> unat c \<Longrightarrow> c \<notin> log_area 2"
proof
  assume c: "18 \<le> unat c" "c \<in> log_area 2"
  then consider "c = 2" | k where "k < 15" "c = 3 + of_nat k"
    by (auto simp: log_area_def log_slot_def LOGSIZE_def MAXOPBLOCKS_def)
  then show False
  proof cases
    case 2
    then have "unat c = 3 + k" by (simp add: unat_word_ariths)
    then show False using c 2(1) by simp
  qed (use c in simp)
qed

lemma demo_bitmap_ok: "bitmap_ok demo_fs 2"
proof -
  have size: "unat (sb_size (sb demo_fs)) = 2000" by (simp add: demo_fs_txn(4) zero_sb_def)
  have "BBLOCK (of_nat b) zero_sb = 44" if "b < 2000" for b
    using BBLOCK_eq [of b 0 zero_sb] that by (simp add: BPB_def BSIZE_def BBLOCK_def zero_sb_def)
  then have bb: "bitmap_blocks (sb demo_fs) = {44}"
    unfolding bitmap_blocks_def size by (auto simp: demo_fs_txn(4) intro!: image_eqI [of _ _ 0])
  note area = demo_area
  have "of_nat b \<notin> log_area 2 \<union> {44}" if "b < 2000" "\<not> used demo_fs b" for b
  proof -
    have u: "unat (of_nat b :: u32) = b" "\<not> b < 48" using that demo_used [OF that(1)] by simp_all
    then have "(of_nat b :: u32) \<noteq> 44" by auto
    then show ?thesis using area [of "of_nat b"] u by simp
  qed
  then show ?thesis unfolding bitmap_ok_def size bb using area [of 44] by simp
qed


subsection \<open>Properties\<close>

text \<open>
  C35: \<open>balloc\<close> in a transaction returns. When every block is in use it returns 0 and changes
  no block; otherwise it returns the first free block \<open>c\<close>, which is then zeroed, logged and
  the only block newly in use, and no other block outside the bitmap changes.
\<close>

theorem balloc_takes_first_free:
  assumes "txn s L bl {}" "bitmap_ok s L" "log_room s bl 2"
  shows "\<exists>r s'. balloc ROOTDEV s = Ok (r, s') \<and> fsame s s' \<and> bitmap_ok s' L \<and>
    (if \<forall>b < unat (sb_size (sb s)). used s b then r = 0 \<and> view s' = view s \<and> txn s' L bl {}
     else \<exists>c. r = of_nat c \<and> c < unat (sb_size (sb s)) \<and> \<not> used s c \<and> (\<forall>b < c. used s b) \<and>
       view s' r = replicate BSIZE 0 \<and>
       (\<forall>b < unat (sb_size (sb s)). used s' b \<longleftrightarrow> used s b \<or> b = c) \<and>
       (\<forall>B. B \<noteq> r \<longrightarrow> B \<notin> bitmap_blocks (sb s) \<longrightarrow> view s' B = view s B) \<and>
       (\<exists>bl'. txn s' L bl' {} \<and> set bl \<union> {r} \<subseteq> set bl' \<and> length bl' \<le> length bl + 2))"
proof -
  have few: "length bl + 1 + card ({} :: nat set) < NBUF" using assms(3) by (simp add: log_room_def)
  obtain r s' where 1: "balloc ROOTDEV s = Ok (r, s')" "fsame s s'"
    "r = 0 \<and> (\<forall>c < unat (sb_size (sb s)). used s c) \<and> txn s' L bl {} \<and> view s' = view s \<or>
     (\<exists>c. r = of_nat c \<and> took s c s' \<and> txn s' L (log_add (of_nat c) (log_add (BBLOCK (of_nat c) (sb s)) bl)) {})"
    using balloc_spec [OF assms(1,2) _ assms(3) few] by (auto simp: held_ok_def)
  note sb' = fsame_sel(1) [OF 1(2)]
  show ?thesis
  proof (cases "\<forall>b < unat (sb_size (sb s)). used s b")
    case True
    then have "\<not> took s c s'" for c by (auto simp: took_def)
    then have e: "r = 0" "txn s' L bl {}" "view s' = view s" using 1(3) by auto
    have "bitmap_ok s' L" using assms(2) used_same [OF e(3) sb'] sb' by (simp add: bitmap_ok_def)
    then show ?thesis using 1(1,2) e True by auto
  next
    case False
    then obtain c where c: "r = of_nat c" "took s c s'"
      "txn s' L (log_add r (log_add (BBLOCK r (sb s)) bl)) {}"
      using 1(3) by auto
    have cs: "c < unat (sb_size (sb s))" using c(2) by (simp add: took_def)
    have "view s' B = view s B" if "B \<noteq> r" "B \<notin> bitmap_blocks (sb s)" for B
      using c(1,2) that BBLOCK_in [OF cs] by (auto simp: took_def)
    moreover have "view s' r = replicate BSIZE 0" using c(1,2) by (simp add: took_def)
    moreover have "length (log_add r (log_add (BBLOCK r (sb s)) bl)) \<le> length bl + 2"
      "set bl \<union> {r} \<subseteq> set (log_add r (log_add (BBLOCK r (sb s)) bl))"
      by (auto simp: log_add_def)
    ultimately show ?thesis
      unfolding if_not_P [OF False]
      using 1(1,2) c took_used [OF c(2) assms(2,1) sb'] took_bitmap_ok [OF c(2) assms(2,1) sb'] cs
      by (intro exI [of _ r] exI [of _ s'] conjI exI [of _ c]) (auto simp: took_def)
  qed
qed

theorem balloc_takes_first_free_witness:
  "\<exists>s'. balloc ROOTDEV demo_fs = Ok (48, s') \<and> view s' 48 = replicate BSIZE 0 \<and>
    used s' 48 \<and> \<not> used s' 49"
proof -
  have size: "unat (sb_size (sb demo_fs)) = 2000" by (simp add: demo_fs_txn(4) zero_sb_def)
  have room: "log_room demo_fs [] 2" by (rule log_room_less [OF demo_fs_txn(2)]) simp
  have free: "\<not> used demo_fs 48" "\<not> used demo_fs 49" using demo_used [of 48] demo_used [of 49] by simp_all
  have some: "\<not> (\<forall>b < 2000. used demo_fs b)" using free(1) by (auto intro: exI [of _ 48])
  obtain r s' c where 1: "balloc ROOTDEV demo_fs = Ok (r, s')" "r = of_nat c" "c < 2000" "\<not> used demo_fs c"
    "\<forall>b < c. used demo_fs b" "view s' r = replicate BSIZE 0"
    "\<forall>b < 2000. used s' b \<longleftrightarrow> used demo_fs b \<or> b = c"
    using balloc_takes_first_free [OF demo_fs_txn(1) demo_bitmap_ok room]
    unfolding size if_not_P [OF some] by blast
  have "c = 48"
  proof (rule ccontr)
    assume "c \<noteq> 48"
    then consider "c < 48" | "48 < c" by linarith
    then show False using 1(3-5) demo_used [of c] free(1) by cases auto
  qed
  then show ?thesis using 1 free by (intro exI [of _ s']) auto
qed

text \<open>
  \<open>bfree\<close> of a block in use clears its bit and nothing else: after it that block is free
  again and every other block is as before; freeing a free block panics.
\<close>

theorem bfree_frees_one:
  assumes "txn s L bl {}" "bitmap_ok s L" "log_room s bl 1" "unat b < unat (sb_size (sb s))"
  shows "if used s (unat b)
    then \<exists>s'. bfree ROOTDEV b s = Ok s' \<and> fsame s s' \<and>
      txn s' L (log_add (BBLOCK b (sb s)) bl) {} \<and>
      (\<forall>c < unat (sb_size (sb s)). used s' c \<longleftrightarrow> used s c \<and> c \<noteq> unat b) \<and>
      (\<forall>B. B \<noteq> BBLOCK b (sb s) \<longrightarrow> view s' B = view s B)
    else bfree ROOTDEV b s = Fail (Panic ''freeing free block'')"
proof -
  let ?B = "BBLOCK b (sb s)"
  have B: "?B = BBLOCK (of_nat (unat b)) (sb s)" by simp
  have nl: "?B \<notin> log_area L" using bitmap_okD(3) [OF assms(2) BBLOCK_in [OF assms(4)]] by simp
  have few: "length bl + card ({} :: nat set) < NBUF" using assms(3) by (simp add: log_room_def)
  note bf = bfree_spec [OF assms(1) _ nl assms(3) few]
  show ?thesis
  proof (cases "used s (unat b)")
    case True
    obtain s' where 1: "bfree ROOTDEV b s = Ok s'" "txn s' L (log_add ?B bl) {}"
      "view s' = (view s)(?B := unmark (unat b mod BPB) (view s ?B))" "fsame s s'"
      using bf(1) True by auto
    have "used s' c \<longleftrightarrow> used s c \<and> c \<noteq> unat b" if "c < unat (sb_size (sb s))" for c
    proof (rule used_update(2))
      show "c < 2 ^ 32" using that unat_u32_lt less_trans by blast
      show "length (view s (BBLOCK (of_nat (unat b)) (sb s))) = BSIZE" by (rule txn_length_view [OF assms(1)])
      show "sb s' = sb s" by (rule fsame_sel(1) [OF 1(4)])
    qed (use 1(3) in auto)
    then show ?thesis using True 1 by auto
  next
    case False
    then show ?thesis using bf(2) by simp
  qed
qed

theorem bfree_frees_one_witness:
  "\<exists>s'. bfree ROOTDEV 47 demo_fs = Ok s' \<and> \<not> used s' 47 \<and> used s' 46"
proof -
  have room: "log_room demo_fs [] 1" by (rule log_room_less [OF demo_fs_txn(2)]) simp
  have lt: "unat (47 :: u32) < unat (sb_size (sb demo_fs))" by (simp add: demo_fs_txn(4) zero_sb_def)
  have u: "used demo_fs 47" "used demo_fs 46" using demo_used [of 47] demo_used [of 46] by simp_all
  have size: "unat (sb_size (sb demo_fs)) = 2000" by (simp add: demo_fs_txn(4) zero_sb_def)
  show ?thesis
    using bfree_frees_one [OF demo_fs_txn(1) demo_bitmap_ok room lt] u size by auto
qed

end
