(* ===== verification/Fs_Inode.thy ===== *)
theory Fs_Inode
  imports Fs_Txn
begin

text \<open>
  Inodes on disk and files as byte strings: \<open>iupdate\<close> and \<open>ilock\<close> carry an inode to its slot on
  the disk and back; \<open>readi\<close> returns the bytes of a file, which are found through the direct
  and indirect block numbers by \<open>bmap\<close>.
\<close>

subsection \<open>The bytes of an inode\<close>

lemma get32_append: "get32 (p @ q) (length p + k) = get32 q k"
  by (simp add: get32_def nth_append add.assoc)

lemma get32_take: "k + 4 \<le> length p \<Longrightarrow> get32 (p @ q) k = get32 p k"
  by (simp add: get32_def nth_append)

lemma get16_append: "get16 (p @ q) (length p + k) = get16 q k"
  by (simp add: get16_def nth_append add.assoc)

lemma get16_take: "k + 2 \<le> length p \<Longrightarrow> get16 (p @ q) k = get16 p k"
  by (simp add: get16_def nth_append)

lemma get32_le32: "get32 (le32 w @ q) 0 = w"
  by (simp add: get32_def le32_def)

lemma get16_le16: "get16 (le16 w @ q) 0 = w"
  by (simp add: get16_def le16_def)

lemma get32_addrs: "j < length xs \<Longrightarrow> get32 (concat (map le32 xs)) (4 * j) = xs ! j"
proof (induction xs arbitrary: j)
  case (Cons x xs)
  show ?case
  proof (cases j)
    case 0
    then show ?thesis by (simp add: get32_le32)
  next
    case (Suc i)
    then have "get32 (concat (map le32 (x # xs))) (length (le32 x) + 4 * i) = xs ! i"
      using Cons by (simp only: list.map concat.simps get32_append) simp
    then show ?thesis using Suc by simp
  qed
qed simp

lemma length_addrs: "length (concat (map le32 xs)) = 4 * length xs"
  by (induction xs) simp_all

lemma length_dinode_bytes: "length (d_addrs di) = Suc NDIRECT \<Longrightarrow> length (dinode_bytes di) = 64"
  by (simp add: dinode_bytes_def length_addrs NDIRECT_def)

text \<open>The fields of an inode at the front of a byte list.\<close>

lemma dinode_at_front:
  assumes "length (d_addrs di) = Suc NDIRECT"
  shows "dinode_at (dinode_bytes di @ q) 0 = di"
proof -
  let ?h = "le16 (d_type di) @ le16 (d_major di) @ le16 (d_minor di) @ le16 (d_nlink di) @ le32 (d_size di)"
  have "map (\<lambda>j. get32 (?h @ concat (map le32 (d_addrs di)) @ q) (12 + 4 * j)) [0..<Suc NDIRECT] = d_addrs di"
  proof (rule nth_equalityI)
    fix j assume "j < length (map (\<lambda>j. get32 (?h @ concat (map le32 (d_addrs di)) @ q) (12 + 4 * j)) [0..<Suc NDIRECT])"
    then have j: "j < Suc NDIRECT" by simp
    have "get32 (?h @ concat (map le32 (d_addrs di)) @ q) (length ?h + 4 * j) =
        get32 (concat (map le32 (d_addrs di)) @ q) (4 * j)" by (rule get32_append)
    also have "\<dots> = get32 (concat (map le32 (d_addrs di))) (4 * j)"
      by (rule get32_take) (use j assms in \<open>simp add: length_addrs\<close>)
    also have "\<dots> = d_addrs di ! j" using get32_addrs j assms by simp
    finally show "map (\<lambda>j. get32 (?h @ concat (map le32 (d_addrs di)) @ q) (12 + 4 * j)) [0..<Suc NDIRECT] ! j =
        d_addrs di ! j" using j by (simp del: upt_Suc)
  qed (use assms in simp)
  then show ?thesis
    by (simp add: dinode_at_def dinode_bytes_def get16_def get32_def le16_def le32_def Let_def del: upt_Suc)
qed

lemma get_drop:
  "n \<le> length d \<Longrightarrow> get32 (drop n d) k = get32 d (n + k)"
  "n \<le> length d \<Longrightarrow> get16 (drop n d) k = get16 d (n + k)"
  by (simp_all add: get32_def get16_def add.assoc)

lemma dinode_at_drop:
  "64 * k \<le> length d \<Longrightarrow> dinode_at d k = dinode_at (drop (64 * k) d) 0"
  by (simp add: dinode_at_def Let_def get_drop add.assoc del: upt_Suc drop_drop)

lemma dinode_at_cong:
  "length d = length d' \<Longrightarrow> 64 * k + 64 \<le> length d \<Longrightarrow>
   (\<And>i. 64 * k \<le> i \<Longrightarrow> i < 64 * k + 64 \<Longrightarrow> d ! i = d' ! i) \<Longrightarrow> dinode_at d k = dinode_at d' k"
  by (simp add: dinode_at_def Let_def get16_def get32_def NDIRECT_def del: upt_Suc)

lemma dinode_at_put:
  assumes "length (d_addrs di) = Suc NDIRECT" "64 * k + 64 \<le> length d" "64 * j + 64 \<le> length d"
  shows "dinode_at (put_dinode k di d) j = (if j = k then di else dinode_at d j)"
    "length (put_dinode k di d) = length d"
proof -
  have len: "length (dinode_bytes di) = 64" by (rule length_dinode_bytes [OF assms(1)])
  show l: "length (put_dinode k di d) = length d" using len assms(2) by (simp add: put_dinode_def)
  show "dinode_at (put_dinode k di d) j = (if j = k then di else dinode_at d j)"
  proof (cases "j = k")
    case True
    have "drop (64 * k) (put_dinode k di d) = dinode_bytes di @ drop (64 * k + 64) d"
      using assms(2) by (simp add: put_dinode_def)
    then show ?thesis
      using True dinode_at_drop [of k "put_dinode k di d"] assms(2) l dinode_at_front [OF assms(1)] by simp
  next
    case False
    have "dinode_at (put_dinode k di d) j = dinode_at d j"
    proof (rule dinode_at_cong)
      fix i assume i: "64 * j \<le> i" "i < 64 * j + 64"
      then have out: "i < 64 * k \<or> 64 * k + 64 \<le> i" using False by linarith
      then show "put_dinode k di d ! i = d ! i"
        using i assms len by (auto simp: put_dinode_def nth_append)
    qed (use l assms(3) in simp_all)
    then show ?thesis using False by simp
  qed
qed


subsection \<open>Inodes on the disk\<close>

definition inode_on :: "kst \<Rightarrow> u32 \<Rightarrow> dinode" where
  "inode_on s n = dinode_at (view s (IBLOCK n (sb s))) (inode_slot n)"

lemma inode_slot_fits: "64 * inode_slot n + 64 \<le> BSIZE"
proof -
  have "inode_slot n < 8" by (simp add: inode_slot_def IPB_def BSIZE_def)
  then show ?thesis by (simp add: BSIZE_def)
qed

lemma IBLOCK_slot_inj: "IBLOCK n sblk = IBLOCK m sblk \<Longrightarrow> inode_slot n = inode_slot m \<Longrightarrow> n = m"
proof -
  assume "IBLOCK n sblk = IBLOCK m sblk" "inode_slot n = inode_slot m"
  then have "n div of_nat IPB = m div of_nat IPB" "unat n mod IPB = unat m mod IPB"
    by (simp_all add: IBLOCK_def inode_slot_def)
  moreover have "unat (k div of_nat IPB) = unat k div IPB" for k :: u32
    by (simp add: unat_div_distrib IPB_def BSIZE_def)
  ultimately have "unat n div IPB = unat m div IPB" "unat n mod IPB = unat m mod IPB" by metis+
  then have "unat n = unat m" by (metis div_mult_mod_eq)
  then show "n = m" by (simp add: word_unat_eq_iff)
qed

text \<open>What changes of the inode table leave alone.\<close>

lemma upd_inode_sel [simp]:
  "sb (upd_inode ip f s) = sb s" "ph (upd_inode ip f s) = ph s" "lg (upd_inode ip f s) = lg s"
  "sch (upd_inode ip f s) = sch s" "ftab (upd_inode ip f s) = ftab s"
  "itab (upd_inode ip f s) = (itab s)[ip := f (itab s ! ip)]"
  by (simp_all add: upd_inode_def)

lemma iupdate_spec:
  fixes s ip
  defines "x \<equiv> itab s ! ip"
  defines "B \<equiv> IBLOCK (inum x) (sb s)"
  assumes "txn s L bl {}" "log_room s bl 1" "idev x = ROOTDEV" "length (d_addrs (idata x)) = Suc NDIRECT"
    "B \<notin> log_area L"
  obtains s' where "iupdate ip s = Ok s'" "txn s' L (log_add B bl) {}"
    "view s' = (view s)(B := put_dinode (inode_slot (inum x)) (idata x) (view s B))" "fsame s s'"
proof -
  have fits: "64 * inode_slot (inum x) + 64 \<le> length (view s B)"
    using inode_slot_fits txn_length_view [OF assms(3)] by simp
  obtain i s1 where 1: "bread ROOTDEV B s = Ok (i, s1)" "txn s1 L bl {i}" "cached s1 B i"
    "buf_data i s1 = view s B" "view s1 = view s" "fsame s s1"
    by (rule txn_bread1 [OF assms(3)])
  let ?d = "put_dinode (inode_slot (inum x)) (idata x) (view s B)"
  have len: "length ?d = BSIZE"
    using dinode_at_put(2) [OF assms(6) fits fits] txn_length_view [OF assms(3)] by simp
  have r: "log_room s1 bl 1" using assms(4) log_room_same [OF 1(6)] by simp
  obtain s2 where 2: "log_write i (set_data i ?d s1) = Ok s2" "txn s2 L (log_add B bl) {i}"
    "view s2 = (view s1)(B := ?d)" "fsame s1 s2"
    by (rule txn_put1 [OF 1(2,3) len assms(7) r])
  obtain s3 where 3: "brelse i s2 = Ok s3" "txn s3 L (log_add B bl) {}" "view s3 = view s2" "fsame s2 s3"
    by (rule txn_brelse1 [OF 2(2)])
  have "iupdate ip s = Ok s3"
    using 1(1,4) 2(1) 3(1) assms(5) fsame_sel(1) [OF 1(6)]
    by (simp add: iupdate_def x_def [symmetric] B_def [symmetric] Let_def)
  then show ?thesis
    using that 3(2,3) 2(3) 1(5) fsame_trans [OF 1(6) fsame_trans [OF 2(4) 3(4)]] by simp
qed

lemma iupdate_inode_on:
  assumes "view s' = (view s)(IBLOCK n (sb s) := put_dinode (inode_slot n) di (view s (IBLOCK n (sb s))))"
    "sb s' = sb s" "length (d_addrs di) = Suc NDIRECT" "\<And>b. length (view s b) = BSIZE"
  shows "inode_on s' m = (if m = n then di else inode_on s m)"
proof (cases "IBLOCK m (sb s) = IBLOCK n (sb s)")
  case True
  then show ?thesis
    using dinode_at_put(1) [OF assms(3), of "inode_slot n" "view s (IBLOCK n (sb s))" "inode_slot m"]
      inode_slot_fits assms(1,2,4) IBLOCK_slot_inj [of m "sb s" n] by (auto simp: inode_on_def)
qed (use assms(1,2) in \<open>auto simp: inode_on_def\<close>)

subsection \<open>Locking an inode\<close>

lemma txn_mypid: "txn s L bl H \<Longrightarrow> \<exists>q. mypid s = Ok q"
  unfolding txn_def binv_def by blast

lemma ilock_spec:
  fixes s ip
  defines "x \<equiv> itab s ! ip"
  assumes "txn s L bl {}" "ip < length (itab s)" "1 \<le> iref x" "idev x = ROOTDEV"
  shows "slocked (ilk x) \<Longrightarrow> ilock ip s = Fail (WouldSleep (ChanInode ip))"
    "\<not> slocked (ilk x) \<Longrightarrow> ivalid x \<Longrightarrow> \<exists>q. mypid s = Ok q \<and>
       ilock ip s = Ok (upd_inode ip (ilk_update (\<lambda>_. \<lparr>slocked = True, slpid = q\<rparr>)) s)"
    "\<not> slocked (ilk x) \<Longrightarrow> \<not> ivalid x \<Longrightarrow> d_type (inode_on s (inum x)) = 0 \<Longrightarrow>
       ilock ip s = Fail (Panic ''ilock: no type'')"
    "\<not> slocked (ilk x) \<Longrightarrow> \<not> ivalid x \<Longrightarrow> d_type (inode_on s (inum x)) \<noteq> 0 \<Longrightarrow>
       \<exists>q s'. mypid s = Ok q \<and> ilock ip s = Ok s' \<and> txn s' L bl {} \<and> view s' = view s \<and>
         itab s' = (itab s)[ip := x\<lparr>ilk := \<lparr>slocked = True, slpid = q\<rparr>, idata := inode_on s (inum x),
            ivalid := True\<rparr>] \<and> sb s' = sb s \<and> ftab s' = ftab s \<and> ph s' = ph s \<and> log_room s' bl k = log_room s bl k"
proof -
  obtain q where q: "mypid s = Ok q" using txn_mypid [OF assms(2)] by blast
  have ref: "\<not> iref x < 1" using assms(4) by simp
  let ?k = "\<lparr>slocked = True, slpid = q\<rparr>"
  show "ilock ip s = Fail (WouldSleep (ChanInode ip))" if "slocked (ilk x)"
    using that ref by (simp add: ilock_def acquiresleep_def x_def [symmetric] Let_def)
  assume un: "\<not> slocked (ilk x)"
  have acq: "acquiresleep (ChanInode ip) (ilk x) s = Ok ?k"
    using un q by (cases "ilk x") (simp add: acquiresleep_def)
  show "\<exists>q. mypid s = Ok q \<and> ilock ip s = Ok (upd_inode ip (ilk_update (\<lambda>_. \<lparr>slocked = True, slpid = q\<rparr>)) s)"
    if "ivalid x"
    using that q ref acq by (simp add: ilock_def x_def [symmetric] Let_def)
  assume inv: "\<not> ivalid x"
  let ?s = "upd_inode ip (ilk_update (\<lambda>_. ?k)) s" and ?B = "IBLOCK (inum x) (sb s)"
  have t: "txn ?s L bl {}" using assms(2) by simp
  obtain i s1 where 1: "bread ROOTDEV ?B ?s = Ok (i, s1)" "txn s1 L bl {i}" "cached s1 ?B i"
    "buf_data i s1 = view ?s ?B" "view s1 = view ?s" "fsame ?s s1"
    by (rule txn_bread1 [OF t])
  note same1 = fsame_sel [OF 1(6)]
  have di: "dinode_at (buf_data i s1) (inode_slot (inum x)) = inode_on s (inum x)"
    using 1(4) by (simp add: inode_on_def)
  let ?s1 = "upd_idata ip (\<lambda>_. inode_on s (inum x)) s1"
  have t1: "txn ?s1 L bl {i}" using 1(2) by (simp add: upd_idata_def)
  obtain s2 where 2: "brelse i ?s1 = Ok s2" "txn s2 L bl {}" "view s2 = view ?s1" "fsame ?s1 s2"
    by (rule txn_brelse1 [OF t1])
  note same2 = fsame_sel [OF 2(4)]
  let ?s2 = "upd_inode ip (ivalid_update (\<lambda>_. True)) s2"
  have e: "ilock ip s = (if d_type (inode_on s (inum x)) = 0 then Fail (Panic ''ilock: no type'') else Ok ?s2)"
    using ref acq inv 1(1) di 2(1) assms(5) by (simp add: ilock_def x_def [symmetric] Let_def)
  show "ilock ip s = Fail (Panic ''ilock: no type'')" if "d_type (inode_on s (inum x)) = 0"
    using e that by simp
  assume ty: "d_type (inode_on s (inum x)) \<noteq> 0"
  have "itab ?s2 = (itab s)[ip := x\<lparr>ilk := ?k, idata := inode_on s (inum x), ivalid := True\<rparr>]"
    using same1(2) same2(2) assms(3) by (simp add: upd_idata_def x_def)
  moreover have "txn ?s2 L bl {}" "view ?s2 = view s" "log_room ?s2 bl k = log_room s bl k"
    using 2(2,3) 1(5) same1 same2 by (simp_all add: upd_idata_def log_room_def)
  moreover have "sb ?s2 = sb s" "ftab ?s2 = ftab s" "ph ?s2 = ph s"
    using same1 same2 by (simp_all add: upd_idata_def)
  ultimately show "\<exists>q s'. mypid s = Ok q \<and> ilock ip s = Ok s' \<and> txn s' L bl {} \<and> view s' = view s \<and>
         itab s' = (itab s)[ip := x\<lparr>ilk := \<lparr>slocked = True, slpid = q\<rparr>, idata := inode_on s (inum x),
            ivalid := True\<rparr>] \<and> sb s' = sb s \<and> ftab s' = ftab s \<and> ph s' = ph s \<and> log_room s' bl k = log_room s bl k"
    using e ty q by (intro exI [of _ q] exI [of _ ?s2]) simp
qed

end
