(* ===== verification/Fs_File.thy ===== *)
theory Fs_File
  imports Fs_Inode Pipe_Props
begin

text \<open>
  Files as byte strings: \<open>bmap\<close> finds the blocks of a file, \<open>readi\<close> delivers its bytes to
  whatever place they go to (the locale \<open>sink\<close>), \<open>writei\<close> replaces bytes of it.
\<close>

subsection \<open>The blocks of a file\<close>

definition file_block :: "kst \<Rightarrow> nat \<Rightarrow> nat \<Rightarrow> u32" where
  "file_block s ip bn =
     (if bn < NDIRECT then iaddr ip bn s
      else if iaddr ip NDIRECT s = 0 then 0
      else get32 (view s (iaddr ip NDIRECT s)) (4 * (bn - NDIRECT)))"

lemma file_block_same: "view s' = view s \<Longrightarrow> itab s' ! ip = itab s ! ip \<Longrightarrow> file_block s' ip = file_block s ip"
  by (simp add: file_block_def iaddr_def fun_eq_iff)

lemma bmap_found:
  assumes t: "txn s L bl {}" and dev: "idev (itab s ! ip) = ROOTDEV" and bn: "unat bn < MAXFILE"
    and nz: "file_block s ip (unat bn) \<noteq> 0"
  obtains s' where "bmap ip bn s = Ok (file_block s ip (unat bn), s')" "txn s' L bl {}" "view s' = view s" "fsame s s'"
proof (cases "unat bn < NDIRECT")
  case True
  then have lt: "bn < of_nat NDIRECT" by (simp add: word_less_nat_alt NDIRECT_def)
  have e: "file_block s ip (unat bn) = iaddr ip (unat bn) s" using True by (simp add: file_block_def)
  have "bmap ip bn s = Ok (file_block s ip (unat bn), s)"
    using lt nz unfolding e by (simp add: bmap_def addr_or_alloc_def)
  then show ?thesis using that [OF _ t] by simp
next
  case False
  then have ge: "\<not> bn < of_nat NDIRECT" by (simp add: word_less_nat_alt NDIRECT_def)
  let ?k = "bn - of_nat NDIRECT" and ?a = "iaddr ip NDIRECT s"
  have k: "unat ?k = unat bn - NDIRECT"
    using False unat_sub_eq [of bn "of_nat NDIRECT"] by (simp add: word_le_nat_alt NDIRECT_def)
  then have lt: "?k < of_nat NINDIRECT"
    using bn by (simp add: word_less_nat_alt NINDIRECT_def MAXFILE_def BSIZE_def)
  have e: "?a \<noteq> 0" "file_block s ip (unat bn) = get32 (view s ?a) (4 * unat ?k)"
    using nz False k by (auto simp: file_block_def split: if_splits)
  obtain i s1 where 1: "bread ROOTDEV ?a s = Ok (i, s1)" "txn s1 L bl {i}" "cached s1 ?a i"
    "buf_data i s1 = view s ?a" "view s1 = view s" "fsame s s1"
    by (rule txn_bread1 [OF t])
  obtain s2 where 2: "brelse i s1 = Ok s2" "txn s2 L bl {}" "view s2 = view s1" "fsame s1 s2"
    by (rule txn_brelse1 [OF 1(2)])
  have "bmap ip bn s = Ok (file_block s ip (unat bn), s2)"
    using ge lt e nz 1(1,4) 2(1) dev by (simp add: bmap_def addr_or_alloc_def Let_def)
  then show ?thesis using that [OF _ 2(2)] 2(3) 1(5) fsame_trans [OF 1(6) 2(4)] by simp
qed

text \<open>Byte \<open>i\<close> of a file, and the blocks below byte \<open>n\<close> all there.\<close>

definition file_byte :: "kst \<Rightarrow> nat \<Rightarrow> nat \<Rightarrow> u8" where
  "file_byte s ip i = view s (file_block s ip (i div BSIZE)) ! (i mod BSIZE)"

definition file_bytes :: "kst \<Rightarrow> nat \<Rightarrow> nat \<Rightarrow> nat \<Rightarrow> u8 list" where
  "file_bytes s ip i n = map (file_byte s ip) [i..<i + n]"

definition mapped :: "kst \<Rightarrow> nat \<Rightarrow> nat \<Rightarrow> bool" where
  "mapped s ip n \<longleftrightarrow> n \<le> MAXFILE * BSIZE \<and> (\<forall>i < n. file_block s ip (i div BSIZE) \<noteq> 0)"

lemma file_same:
  assumes "view s' = view s" "itab s' ! ip = itab s ! ip"
  shows "file_byte s' ip = file_byte s ip" "file_bytes s' ip = file_bytes s ip" "mapped s' ip = mapped s ip"
  using assms file_block_same [OF assms]
  by (simp_all add: file_byte_def file_bytes_def mapped_def fun_eq_iff)

lemma length_file_bytes [simp]: "length (file_bytes s ip i n) = n"
  by (simp add: file_bytes_def)

lemma file_bytes_append: "file_bytes s ip i (m + n) = file_bytes s ip i m @ file_bytes s ip (i + m) n"
  unfolding file_bytes_def add.assoc [symmetric] upt_add_eq_append [OF le_add1] map_append ..

text \<open>The bytes of one block that \<open>readi\<close> handles in one round.\<close>

lemma chunk_bytes:
  assumes "m \<le> BSIZE - i mod BSIZE" "length (view s (file_block s ip (i div BSIZE))) = BSIZE"
  shows "take m (drop (i mod BSIZE) (view s (file_block s ip (i div BSIZE)))) = file_bytes s ip i m"
proof (rule nth_equalityI)
  show "length (take m (drop (i mod BSIZE) (view s (file_block s ip (i div BSIZE))))) = length (file_bytes s ip i m)"
    using assms by simp
  fix j assume "j < length (take m (drop (i mod BSIZE) (view s (file_block s ip (i div BSIZE)))))"
  then have j: "j < m" "i mod BSIZE + j < BSIZE" using assms by auto
  then have "(i + j) div BSIZE = i div BSIZE" "(i + j) mod BSIZE = i mod BSIZE + j"
    using div_mult_self3 [of BSIZE "i div BSIZE" "i mod BSIZE + j"] mod_mult_self3 [of "i div BSIZE" BSIZE "i mod BSIZE + j"]
    by (simp_all add: BSIZE_def)
  then show "take m (drop (i mod BSIZE) (view s (file_block s ip (i div BSIZE)))) ! j = file_bytes s ip i m ! j"
    using j assms(2) by (simp add: file_bytes_def file_byte_def)
qed

subsection \<open>Where bytes go\<close>

text \<open>What changes when bytes are copied out: the memory besides what \<open>fsame\<close> allows.\<close>

definition msame :: "kst \<Rightarrow> kst \<Rightarrow> bool" where
  "msame s s' \<longleftrightarrow> fsame (upd_ph (ph s') s) s'"

lemma msame_iff:
  "msame s s' \<longleftrightarrow> sb s' = sb s \<and> itab s' = itab s \<and> ftab s' = ftab s \<and> pipes s' = pipes s \<and>
     ticks s' = ticks s \<and> lsize (lg s') = lsize (lg s) \<and> outstanding (lg s') = outstanding (lg s) \<and>
     same_procs (sch s) (sch s')"
  by (auto simp: msame_def fsame_def keeps_but_log_simp upd_ph_def)

lemma msame_trans: "msame s t \<Longrightarrow> msame t u \<Longrightarrow> msame s u"
  unfolding msame_iff using same_procs_trans by auto

lemma fsame_msame: "fsame s s' \<Longrightarrow> msame s s'"
  by (simp add: msame_iff fsame_def keeps_but_log_simp)

lemma msame_upd_ph [simp]: "msame s (upd_ph p s)"
  by (simp add: msame_iff upd_ph_def)

text \<open>
  The contract of a destination: it takes bytes in pieces, and \<open>delivered d s bs s'\<close> says what
  has become of \<open>bs\<close>.
\<close>

locale sink =
  fixes fits :: "dest \<Rightarrow> nat \<Rightarrow> kst \<Rightarrow> bool" and delivered :: "dest \<Rightarrow> kst \<Rightarrow> u8 list \<Rightarrow> kst \<Rightarrow> bool"
  assumes copy: "fits d (length bs + k) s \<Longrightarrow>
      \<exists>p. either_copyout d bs s = Ok (0, upd_ph p s) \<and> fits (advance d bs) k (upd_ph p s) \<and>
        delivered d s bs (upd_ph p s)"
    and fits_same: "fits d k s \<Longrightarrow> fsame s s' \<Longrightarrow> fits d k s'"
    and nil: "fits d k s \<Longrightarrow> delivered d s [] s"
    and more: "delivered d s bs t \<Longrightarrow> delivered (advance d bs) t cs u \<Longrightarrow> delivered d s (bs @ cs) u"
    and widen: "fsame s t \<Longrightarrow> delivered d t bs u \<Longrightarrow> fsame u v \<Longrightarrow> delivered d s bs v"
begin

lemma advance_append: "advance (advance d bs) cs = advance d (bs @ cs)"
  by (cases d) (simp_all add: add.assoc)

lemma advance_Nil: "advance d [] = d"
  by (cases d) simp_all

lemma readi_loop_spec:
  assumes "txn s L bl {}" "idev (itab s ! ip) = ROOTDEV" "tot \<le> n" "mapped s ip (unat off + (n - tot))"
    "fits d (n - tot) s"
  shows "\<exists>s'. readi_loop ip d off tot n s = Ok (int n, advance d (file_bytes s ip (unat off) (n - tot)), s') \<and>
    txn s' L bl {} \<and> view s' = view s \<and> msame s s' \<and> delivered d s (file_bytes s ip (unat off) (n - tot)) s'"
  using assms
proof (induction "n - tot" arbitrary: d off tot s rule: less_induct)
  case less
  show ?case
  proof (cases "n \<le> tot")
    case True
    then have "n = tot" using less.prems(3) by simp
    moreover have "delivered d s [] s" by (rule nil [OF less.prems(5)])
    ultimately show ?thesis
      using less.prems(1) by (subst readi_loop.simps) (simp add: file_bytes_def advance_Nil msame_iff)
  next
    case False
    let ?i = "unat off" let ?bn = "off div of_nat BSIZE" and ?m = "block_chunk off (n - tot)"
    let ?a = "file_block s ip (?i div BSIZE)" let ?bs = "file_bytes s ip ?i ?m"
    have bn: "unat ?bn = ?i div BSIZE" by (simp add: unat_div_distrib BSIZE_def)
    have m: "0 < ?m" "?m \<le> n - tot" "?m \<le> BSIZE - ?i mod BSIZE"
      using block_chunk_pos [of "n - tot" off] False by (simp_all add: block_chunk_def)
    have top: "?i + (n - tot) \<le> MAXFILE * BSIZE" and nz: "?a \<noteq> 0"
      using less.prems(4) False by (auto simp: mapped_def)
    have lt: "unat ?bn < MAXFILE"
      unfolding bn using top False by (auto simp: MAXFILE_def BSIZE_def NDIRECT_def NINDIRECT_def)
    obtain s1 where 1: "bmap ip ?bn s = Ok (?a, s1)" "txn s1 L bl {}" "view s1 = view s" "fsame s s1"
      using bmap_found [OF less.prems(1,2) lt] nz unfolding bn by metis
    have dev1: "idev (itab s1 ! ip) = ROOTDEV" using less.prems(2) fsame_sel(2) [OF 1(4)] by simp
    obtain i s2 where 2: "bread ROOTDEV ?a s1 = Ok (i, s2)" "txn s2 L bl {i}" "cached s2 ?a i"
      "buf_data i s2 = view s1 ?a" "view s2 = view s1" "fsame s1 s2"
      by (rule txn_bread1 [OF 1(2)])
    have bs: "take ?m (drop (?i mod BSIZE) (buf_data i s2)) = ?bs"
      using chunk_bytes [OF m(3)] txn_length_view [OF less.prems(1)] 2(4) 1(3) by simp
    have "length ?bs + (n - (tot + ?m)) = n - tot" using m(2) False by simp
    then have f2: "fits d (length ?bs + (n - (tot + ?m))) s2"
      using fits_same [OF less.prems(5) fsame_trans [OF 1(4) 2(6)]] by (simp only:)
    obtain p where 3: "either_copyout d ?bs s2 = Ok (0, upd_ph p s2)"
      "fits (advance d ?bs) (n - (tot + ?m)) (upd_ph p s2)" "delivered d s2 ?bs (upd_ph p s2)"
      using copy [OF f2] by blast
    have t3: "txn (upd_ph p s2) L bl {i}" using 2(2) by simp
    obtain s4 where 4: "brelse i (upd_ph p s2) = Ok s4" "txn s4 L bl {}" "view s4 = view (upd_ph p s2)"
      "fsame (upd_ph p s2) s4"
      by (rule txn_brelse1 [OF t3])
    have v4: "view s4 = view s" using 4(3) 2(5) 1(3) by simp
    have same4: "msame s s4"
      by (rule msame_trans [OF fsame_msame [OF fsame_trans [OF 1(4) 2(6)]]
            msame_trans [OF msame_upd_ph fsame_msame [OF 4(4)]]])
    then have it4: "itab s4 = itab s" by (simp add: msame_iff)
    have fb: "file_bytes s4 ip = file_bytes s ip" "mapped s4 ip = mapped s ip"
      using file_same [OF v4, of ip] it4 by simp_all
    have off': "unat (off + of_nat ?m) = ?i + ?m"
    proof (rule trans [OF unat_add_u32])
      have "?m \<le> BSIZE" using m(3) by simp
      then show "?i + unat (of_nat ?m :: u32) < 2 ^ 32" "?i + unat (of_nat ?m :: u32) = ?i + ?m"
        using top m(2) by (simp_all add: MAXFILE_def BSIZE_def NDIRECT_def NINDIRECT_def)
    qed
    have dec: "n - (tot + ?m) < n - tot" using m(1) False by linarith
    have p: "txn s4 L bl {}" "idev (itab s4 ! ip) = ROOTDEV" "tot + ?m \<le> n"
      "mapped s4 ip (unat (off + of_nat ?m) + (n - (tot + ?m)))" "fits (advance d ?bs) (n - (tot + ?m)) s4"
      using m less.prems(2,4) it4 4(2) fb(2) off' fits_same [OF 3(2) 4(4)] by simp_all
    obtain s' where IH: "readi_loop ip (advance d ?bs) (off + of_nat ?m) (tot + ?m) n s4 =
        Ok (int n, advance (advance d ?bs) (file_bytes s4 ip (unat (off + of_nat ?m)) (n - (tot + ?m))), s')"
      "txn s' L bl {}" "view s' = view s4" "msame s4 s'"
      "delivered (advance d ?bs) s4 (file_bytes s4 ip (unat (off + of_nat ?m)) (n - (tot + ?m))) s'"
      using less.hyps [OF dec p] by (elim exE conjE)
    have all: "?bs @ file_bytes s4 ip (unat (off + of_nat ?m)) (n - (tot + ?m)) = file_bytes s ip ?i (n - tot)"
      using file_bytes_append [of s ip ?i ?m "n - (tot + ?m)"] le_add_diff_inverse [OF m(2)]
      unfolding fb(1) off' diff_diff_left [symmetric] by simp
    have step: "readi_loop ip d off tot n s = readi_loop ip (advance d ?bs) (off + of_nat ?m) (tot + ?m) n s4"
      using False 1(1) nz dev1 2(1) bs 3(1) 4(1) by (subst readi_loop.simps) (simp add: Let_def)
    have del: "delivered d s (file_bytes s ip ?i (n - tot)) s'"
      unfolding all [symmetric]
      by (rule more [OF widen [OF fsame_trans [OF 1(4) 2(6)] 3(3) 4(4)] IH(5)])
    show ?thesis
      unfolding step IH(1) advance_append all
      using IH(2,3) v4 msame_trans [OF same4 IH(4)] del by auto
  qed
qed


text \<open>\<open>readi\<close> delivers the bytes of the file from \<open>off\<close> on, at most \<open>n\<close> and up to its end.\<close>

lemma readi_spec:
  fixes s ip off n
  defines "fsz \<equiv> unat (d_size (idata (itab s ! ip)))"
  defines "k \<equiv> min (unat n) (fsz - unat off)"
  assumes "txn s L bl {}" "idev (itab s ! ip) = ROOTDEV" "mapped s ip fsz" "unat off + unat n < 2 ^ 32"
    and "fits d k s"
  shows "\<exists>s'. readi ip d off n s = Ok (int k, advance d (file_bytes s ip (unat off) k), s') \<and>
    txn s' L bl {} \<and> view s' = view s \<and> msame s s' \<and> delivered d s (file_bytes s ip (unat off) k) s'"
proof -
  let ?fs = "d_size (idata (itab s ! ip))"
  have sum: "unat (off + n) = unat off + unat n" by (rule unat_add_u32) (use assms(6) in simp)
  then have nw: "\<not> off + n < off" by (simp add: word_less_nat_alt)
  show ?thesis
  proof (cases "?fs < off")
    case True
    then have "k = 0" by (simp add: k_def fsz_def word_less_nat_alt)
    then show ?thesis
      using True assms(3) nil [OF assms(7)] by (simp add: readi_def file_bytes_def advance_Nil msame_iff)
  next
    case False
    then have le: "unat off \<le> fsz" by (simp add: fsz_def word_less_nat_alt)
    have cnt: "unat (if ?fs < off + n then ?fs - off else n) = k"
    proof (cases "?fs < off + n")
      case True
      then have "fsz < unat off + unat n" unfolding fsz_def word_less_nat_alt sum .
      moreover have "unat (?fs - off) = fsz - unat off"
        using unat_sub_eq [of ?fs off] le by (simp add: fsz_def word_le_nat_alt)
      ultimately show ?thesis using True by (simp add: k_def)
    next
      case False
      then have "\<not> fsz < unat off + unat n" unfolding fsz_def word_less_nat_alt sum .
      then show ?thesis using False by (simp add: k_def)
    qed
    have mp: "mapped s ip (unat off + (k - 0))" using assms(5) le by (auto simp: mapped_def k_def)
    have ft: "fits d (k - 0) s" using assms(7) by simp
    obtain s' where "readi_loop ip d off 0 k s = Ok (int k, advance d (file_bytes s ip (unat off) (k - 0)), s')"
      "txn s' L bl {} \<and> view s' = view s \<and> msame s s' \<and> delivered d s (file_bytes s ip (unat off) (k - 0)) s'"
      using readi_loop_spec [OF assms(3,4) le0 mp ft] by (elim exE conjE) blast
    then show ?thesis
      unfolding readi_def Let_def cnt using False nw by simp
  qed
qed

end

text \<open>A local variable takes any number of bytes.\<close>

definition local_fits :: "dest \<Rightarrow> nat \<Rightarrow> kst \<Rightarrow> bool" where
  "local_fits d n s \<longleftrightarrow> (\<exists>acc. d = LocalDst acc)"

definition local_delivered :: "dest \<Rightarrow> kst \<Rightarrow> u8 list \<Rightarrow> kst \<Rightarrow> bool" where
  "local_delivered d s bs s' \<longleftrightarrow> ph s' = ph s"

interpretation local_sink: sink local_fits local_delivered
proof
  show "local_fits d (length bs + k) s \<Longrightarrow>
      \<exists>p. either_copyout d bs s = Ok (0, upd_ph p s) \<and> local_fits (advance d bs) k (upd_ph p s) \<and>
        local_delivered d s bs (upd_ph p s)" for d bs k s
    by (intro exI [of _ "ph s"]) (auto simp: local_fits_def local_delivered_def either_copyout_def upd_ph_def)
qed (simp_all add: local_fits_def local_delivered_def fsame_sel)

text \<open>Kernel memory takes the bytes at the address given.\<close>

lemma put_bytes_append:
  assumes "length xs + length ys \<le> 2 ^ 32"
  shows "put_bytes (put_bytes m a xs) (a + of_nat (length xs)) ys = put_bytes m a (xs @ ys)"
proof
  have u: "Some (put_bytes m b zs x) = user_write b zs (\<lambda>x. Some (m x)) x" for m b zs x
    by (cases "unat (x - b) < length zs") (simp_all add: put_bytes_in put_bytes_out user_write_def)
  fix x
  have "Some (put_bytes (put_bytes m a xs) (a + of_nat (length xs)) ys x) = Some (put_bytes m a (xs @ ys) x)"
    unfolding u by (simp add: user_write_append [OF assms])
  then show "put_bytes (put_bytes m a xs) (a + of_nat (length xs)) ys x = put_bytes m a (xs @ ys) x" by simp
qed

definition kern_fits :: "dest \<Rightarrow> nat \<Rightarrow> kst \<Rightarrow> bool" where
  "kern_fits d n s \<longleftrightarrow> (\<exists>a. d = KernDst a)"

definition kern_delivered :: "dest \<Rightarrow> kst \<Rightarrow> u8 list \<Rightarrow> kst \<Rightarrow> bool" where
  "kern_delivered d s bs s' \<longleftrightarrow> (\<exists>a. d = KernDst a \<and>
     (length bs \<le> 2 ^ 32 \<longrightarrow> ph s' = (ph s)\<lparr>pmem := put_bytes (pmem (ph s)) a bs\<rparr>))"

interpretation kern_sink: sink kern_fits kern_delivered
proof
  show "kern_fits d (length bs + k) s \<Longrightarrow>
      \<exists>p. either_copyout d bs s = Ok (0, upd_ph p s) \<and> kern_fits (advance d bs) k (upd_ph p s) \<and>
        kern_delivered d s bs (upd_ph p s)" for d bs k s
    by (auto simp: kern_fits_def kern_delivered_def either_copyout_def upd_ph_def)
  have "put_bytes m a [] = m" for m a by (rule ext) (simp add: put_bytes_out)
  then show "kern_fits d k s \<Longrightarrow> kern_delivered d s [] s" for d k s
    by (auto simp: kern_fits_def kern_delivered_def)
  show "kern_delivered d s (bs @ cs) u" if "kern_delivered d s bs t" "kern_delivered (advance d bs) t cs u" for d s bs t cs u
    using that put_bytes_append [of bs cs] by (auto simp: kern_delivered_def)
qed (auto simp: kern_fits_def kern_delivered_def fsame_sel)

text \<open>User memory: the range has to be mapped.\<close>

definition user_pt :: "kst \<Rightarrow> u32" where
  "user_pt s = pagetable (procs (sch s) ! the (cur (sch s)))"

definition user_fits :: "dest \<Rightarrow> nat \<Rightarrow> kst \<Rightarrow> bool" where
  "user_fits d n s \<longleftrightarrow> running s \<and> (\<exists>va ps B. d = UserDst va \<and> unat va + n \<le> 2 ^ 32 \<and>
     space_inv (ph s) (user_pt s) ps B \<and>
     (\<forall>j < n. user_entry (pmem (ph s)) (user_pt s) (va + of_nat j) \<noteq> None))"

definition user_delivered :: "dest \<Rightarrow> kst \<Rightarrow> u8 list \<Rightarrow> kst \<Rightarrow> bool" where
  "user_delivered d s bs s' \<longleftrightarrow> running s \<and> running s' \<and> user_pt s' = user_pt s \<and>
     (\<exists>va. d = UserDst va \<and> (length bs \<le> 2 ^ 32 \<longrightarrow>
      user_byte (pmem (ph s')) (user_pt s') = user_write va bs (user_byte (pmem (ph s)) (user_pt s))))"

lemma same_procs_user:
  assumes "same_procs (sch s) (sch s')"
  shows "running s' = running s" "running s \<Longrightarrow> user_pt s' = user_pt s"
proof -
  have e: "sch s' = (sch s)\<lparr>procs := procs (sch s')\<rparr>" and len: "length (procs (sch s')) = length (procs (sch s))"
    using assms by (simp_all add: same_procs_def)
  have c: "cur (sch s') = cur (sch s)" by (subst e) simp
  show "running s' = running s" using c len by (simp add: running_def)
  assume "running s"
  then obtain i where i: "cur (sch s) = Some i" "i < length (procs (sch s))" by (auto simp: running_def)
  then have "(procs (sch s') ! i)\<lparr>state := UNUSED\<rparr> = (procs (sch s) ! i)\<lparr>state := UNUSED\<rparr>"
    using assms by (simp add: same_procs_def)
  then have "pagetable (procs (sch s') ! i) = pagetable (procs (sch s) ! i)"
    by (metis proc.select_convs proc.surjective proc.update_convs(1))
  then show "user_pt s' = user_pt s" using c i(1) by (simp add: user_pt_def)
qed

lemma fsame_user:
  assumes "fsame s s'"
  shows "running s' = running s" "running s \<Longrightarrow> user_pt s' = user_pt s" "ph s' = ph s"
  using same_procs_user [OF fsame_sel(9) [OF assms]] fsame_sel(4) [OF assms] by simp_all

interpretation user_sink: sink user_fits user_delivered
proof
  fix d k s and bs :: "u8 list"
  assume "user_fits d (length bs + k) s"
  then obtain va ps B where u: "d = UserDst va" "unat va + (length bs + k) \<le> 2 ^ 32" "running s"
    "space_inv (ph s) (user_pt s) ps B"
    "\<forall>j < length bs + k. user_entry (pmem (ph s)) (user_pt s) (va + of_nat j) \<noteq> None"
    unfolding user_fits_def by blast
  have fit: "unat va + length bs \<le> 2 ^ 32" using u(2) by simp
  obtain r p n where c: "copyout (user_pt s) va bs (ph s) = Ok (r, p)" "space_inv p (user_pt s) ps B"
    "user_entry (pmem p) (user_pt s) = user_entry (pmem (ph s)) (user_pt s)"
    "user_byte (pmem p) (user_pt s) = user_write va (take n bs) (user_byte (pmem (ph s)) (user_pt s))"
    "if \<forall>i < length bs. user_entry (pmem (ph s)) (user_pt s) (va + of_nat i) \<noteq> None
     then r = 0 \<and> n = length bs else r = -1 \<and> n < length bs"
    using copyout_spec [OF u(4) fit] by (elim exE conjE)
  have rn: "r = 0" "n = length bs" using c(5) u(5) by (auto split: if_splits)
  have pt: "my_pagetable s = Ok (user_pt s)" "user_pt (upd_ph p s) = user_pt s" "running (upd_ph p s)"
    using u(3) by (auto simp: my_pagetable_def me_def user_pt_def running_def)
  have e: "either_copyout d bs s = Ok (0, upd_ph p s)"
    using c(1) rn(1) pt(1) by (simp add: either_copyout_def u(1))
  have entry: "\<forall>j < k. user_entry (pmem p) (user_pt s) (va + of_nat (length bs) + of_nat j) \<noteq> None"
    unfolding c(3) using u(5) by (auto simp: add.assoc simp flip: of_nat_add)
  have va': "unat (va + of_nat (length bs)) + k \<le> 2 ^ 32"
  proof (cases "k = 0")
    case False
    then have "unat va + unat (of_nat (length bs) :: u32) < 2 ^ 32" using u(2) by simp
    then show ?thesis using u(2) False unat_add_u32 [of va "of_nat (length bs)"] by simp
  qed (use unat_u32_le [of "va + of_nat (length bs)"] in simp)
  have "user_fits (advance d bs) k (upd_ph p s)"
    unfolding user_fits_def pt(2) using u(1) pt(3) c(2) entry va' by auto
  moreover have "user_delivered d s bs (upd_ph p s)"
    using c(4) rn(2) u(1,3) pt(2,3) by (simp add: user_delivered_def)
  ultimately show "\<exists>p. either_copyout d bs s = Ok (0, upd_ph p s) \<and> user_fits (advance d bs) k (upd_ph p s) \<and>
      user_delivered d s bs (upd_ph p s)" using e by blast
next
  show "user_fits d k s'" if "user_fits d k s" "fsame s s'" for d k s s'
    using that fsame_user [OF that(2)] by (auto simp: user_fits_def)
  show "user_delivered d s [] s" if "user_fits d k s" for d k s
    using that by (auto simp: user_fits_def user_delivered_def)
  show "user_delivered d s (bs @ cs) u" if "user_delivered d s bs t" "user_delivered (advance d bs) t cs u" for d s bs t cs u
    using that user_write_append [of bs cs] by (auto simp: user_delivered_def)
  show "user_delivered d s bs v" if "fsame s t" "user_delivered d t bs u" "fsame u v" for s t d bs u v
    using that fsame_user [OF that(1)] fsame_user [OF that(3)] by (auto simp: user_delivered_def)
qed


subsection \<open>Properties of inodes and files\<close>

text \<open>The file system of \<open>demo_fs\<close> with a user page mapped for process 0.\<close>

definition demo_fsu :: kst where
  "demo_fsu = demo_fs\<lparr>ph := demo_space, sch := sch demo_user\<rparr>"

lemma demo_fsu_ok:
  "txn demo_fsu 2 [] {}" "log_room demo_fsu [] 14" "view demo_fsu = demo_disk" "sb demo_fsu = zero_sb"
  "running demo_fsu" "user_pt demo_fsu = 0x8007D000" "ph demo_fsu = demo_space"
  "itab demo_fsu = itab demo_fs"
proof -
  have procs: "length (procs (sch demo_user)) = NPROC" "cur (sch demo_user) = Some 0"
    by (simp_all add: demo_user_def demo_kst_def machine_boot_def)
  have m: "mypid demo_fsu = mypid demo_fs" "running demo_fsu = running demo_fs" "running demo_fs"
    using demo_running(2)
    by (simp_all add: demo_fsu_def demo_fs_def demo_user_def mypid_def me_def running_def demo_kst_def machine_boot_def NPROC_def)
  have c: "bufs demo_fsu = bufs demo_fs" "lru demo_fsu = lru demo_fs" "dsk demo_fsu = dsk demo_fs" "lg demo_fsu = lg demo_fs"
    by (simp_all add: demo_fsu_def)
  show "txn demo_fsu 2 [] {}" "view demo_fsu = demo_disk"
    using txn_cong [OF c m(1,2)] demo_fs_txn by simp_all
  show "log_room demo_fsu [] 14" using demo_fs_txn(2) by (simp add: log_room_def demo_fsu_def)
  show "sb demo_fsu = zero_sb" "ph demo_fsu = demo_space" "itab demo_fsu = itab demo_fs"
    using demo_fs_txn(4) by (simp_all add: demo_fsu_def)
  show "running demo_fsu" using m by simp
  show "user_pt demo_fsu = 0x8007D000"
    by (simp add: user_pt_def demo_fsu_def demo_user_def demo_kst_def machine_boot_def NPROC_def)
qed

text \<open>
  an inode survives the trip to the disk. \<open>iupdate\<close> writes the inode to its slot, leaves
  every other inode and block alone and logs one block; \<open>ilock\<close> of a table entry for that
  inode that holds no copy then loads exactly what was written.
\<close>

theorem iupdate_ilock_roundtrip:
  assumes "txn s L bl {}" "log_room s bl 1" "ip < length (itab s)" "jp < length (itab s)" "ip \<noteq> jp"
    and "idev (itab s ! ip) = ROOTDEV" "length (d_addrs (idata (itab s ! ip))) = Suc NDIRECT"
    and "d_type (idata (itab s ! ip)) \<noteq> 0" "IBLOCK (inum (itab s ! ip)) (sb s) \<notin> log_area L"
    and "idev (itab s ! jp) = ROOTDEV" "inum (itab s ! jp) = inum (itab s ! ip)" "1 \<le> iref (itab s ! jp)"
    and "\<not> ivalid (itab s ! jp)" "\<not> slocked (ilk (itab s ! jp))"
  shows "\<exists>s1 s2. iupdate ip s = Ok s1 \<and> ilock jp s1 = Ok s2 \<and>
    idata (itab s2 ! jp) = idata (itab s ! ip) \<and>
    (\<forall>n. n \<noteq> inum (itab s ! ip) \<longrightarrow> inode_on s2 n = inode_on s n) \<and>
    (\<forall>B. B \<noteq> IBLOCK (inum (itab s ! ip)) (sb s) \<longrightarrow> view s2 B = view s B) \<and>
    txn s2 L (log_add (IBLOCK (inum (itab s ! ip)) (sb s)) bl) {}"
proof -
  let ?x = "itab s ! ip" let ?n = "inum ?x" let ?B = "IBLOCK ?n (sb s)"
  obtain s1 where 1: "iupdate ip s = Ok s1" "txn s1 L (log_add ?B bl) {}"
    "view s1 = (view s)(?B := put_dinode (inode_slot ?n) (idata ?x) (view s ?B))" "fsame s s1"
    by (rule iupdate_spec [OF assms(1,2,6,7,9)])
  note same1 = fsame_sel [OF 1(4)]
  have on: "inode_on s1 m = (if m = ?n then idata ?x else inode_on s m)" for m
    by (rule iupdate_inode_on [OF 1(3) same1(1) assms(7) txn_length_view [OF assms(1)]])
  have j: "jp < length (itab s1)" "1 \<le> iref (itab s1 ! jp)" "idev (itab s1 ! jp) = ROOTDEV"
    "\<not> slocked (ilk (itab s1 ! jp))" "\<not> ivalid (itab s1 ! jp)"
    "d_type (inode_on s1 (inum (itab s1 ! jp))) \<noteq> 0"
    using assms(4,8,10-14) on same1(2) by simp_all
  obtain q s2 where 2: "ilock jp s1 = Ok s2" "txn s2 L (log_add ?B bl) {}" "view s2 = view s1"
    "itab s2 = (itab s1)[jp := (itab s1 ! jp)\<lparr>ilk := \<lparr>slocked = True, slpid = q\<rparr>,
       idata := inode_on s1 (inum (itab s1 ! jp)), ivalid := True\<rparr>]" "sb s2 = sb s1"
    using ilock_spec(4) [OF 1(2) j(1-6)] by blast
  have "inode_on s2 n = inode_on s1 n" for n using 2(3,5) by (simp add: inode_on_def)
  moreover have "idata (itab s2 ! jp) = idata ?x"
    unfolding 2(4) using j(1) on [of ?n] assms(11) same1(2) by simp
  moreover have "view s2 B = view s B" if "B \<noteq> ?B" for B using that 2(3) 1(3) by simp
  ultimately show ?thesis using 1(1) 2(1,2) on by (intro exI [of _ s1] exI [of _ s2]) simp
qed

definition demo_two :: kst where
  "demo_two = upd_inode 1 (\<lambda>_. demo_slot\<lparr>idev := ROOTDEV, inum := 1, iref := 1\<rparr>) demo_fs"

theorem iupdate_ilock_roundtrip_witness:
  "\<exists>s1 s2. iupdate 0 demo_two = Ok s1 \<and> ilock 1 s1 = Ok s2 \<and> idata (itab s2 ! 1) = demo_inode"
proof -
  have it: "itab demo_two ! 0 = \<lparr>idev = ROOTDEV, inum = 1, iref = 1, ilk = initsleeplock, ivalid = True, idata = demo_inode\<rparr>"
    "itab demo_two ! 1 = demo_slot\<lparr>idev := ROOTDEV, inum := 1, iref := 1\<rparr>" "length (itab demo_two) = NINODE"
    by (simp_all add: demo_two_def demo_fs_def NINODE_def)
  have t: "txn demo_two 2 [] {}" "log_room demo_two [] 1" "sb demo_two = zero_sb"
    using demo_fs_txn log_room_less [OF demo_fs_txn(2), of 1] by (simp_all add: demo_two_def log_room_def)
  have B: "IBLOCK 1 zero_sb = 18" by (simp add: IBLOCK_def zero_sb_def IPB_def BSIZE_def)
  have area: "(18 :: u32) \<notin> log_area 2" by (rule demo_area) simp
  show ?thesis
    using iupdate_ilock_roundtrip [OF t(1,2), of 0 1] B area
    by (auto simp: it t(3) NINODE_def demo_inode_def demo_slot_def initsleeplock_def T_DIR_def NDIRECT_def
        simp del: One_nat_def)
qed


text \<open>
  C13: \<open>readi\<close> returns the number of bytes from \<open>off\<close> to the end of the file, at most \<open>n\<close>, and
  stores exactly those bytes of the file at its destination, gathered from the direct and indirect
  blocks in whatever pieces they come; it changes no block and no inode. The destination is a
  range of the running process's memory that is mapped, or any range of kernel memory, of which
  then no other byte changes.
\<close>

theorem readi_reads_file:
  fixes s ip off n
  defines "fsz \<equiv> unat (d_size (idata (itab s ! ip)))"
  defines "k \<equiv> min (unat n) (fsz - unat off)"
  assumes "txn s L bl {}" "idev (itab s ! ip) = ROOTDEV" "mapped s ip fsz" "unat off + unat n < 2 ^ 32"
  shows "(running s \<longrightarrow> space_inv (ph s) (user_pt s) ps B \<longrightarrow> unat va + k \<le> 2 ^ 32 \<longrightarrow>
      (\<forall>j < k. user_entry (pmem (ph s)) (user_pt s) (va + of_nat j) \<noteq> None) \<longrightarrow>
      (\<exists>s'. readi ip (UserDst va) off n s = Ok (int k, UserDst (va + of_nat k), s') \<and>
        user_byte (pmem (ph s')) (user_pt s') =
          user_write va (file_bytes s ip (unat off) k) (user_byte (pmem (ph s)) (user_pt s)) \<and>
        txn s' L bl {} \<and> view s' = view s \<and> itab s' = itab s)) \<and>
    (\<exists>s'. readi ip (KernDst a) off n s = Ok (int k, KernDst (a + of_nat k), s') \<and>
      ph s' = (ph s)\<lparr>pmem := put_bytes (pmem (ph s)) a (file_bytes s ip (unat off) k)\<rparr> \<and>
      txn s' L bl {} \<and> view s' = view s \<and> itab s' = itab s)"
proof -
  have k: "k \<le> 2 ^ 32" using unat_u32_le [of n] by (simp add: k_def)
  have user: "\<exists>s'. readi ip (UserDst va) off n s = Ok (int k, UserDst (va + of_nat k), s') \<and>
        user_byte (pmem (ph s')) (user_pt s') =
          user_write va (file_bytes s ip (unat off) k) (user_byte (pmem (ph s)) (user_pt s)) \<and>
        txn s' L bl {} \<and> view s' = view s \<and> itab s' = itab s"
    if "running s" "space_inv (ph s) (user_pt s) ps B" "unat va + k \<le> 2 ^ 32"
      "\<forall>j < k. user_entry (pmem (ph s)) (user_pt s) (va + of_nat j) \<noteq> None"
  proof -
    have f: "user_fits (UserDst va) k s" using that by (auto simp: user_fits_def)
    show ?thesis
      using user_sink.readi_spec [OF assms(3,4) assms(5) [unfolded fsz_def] assms(6) f [unfolded k_def fsz_def]] k
      unfolding k_def [unfolded fsz_def, symmetric] by (auto simp: user_delivered_def msame_iff)
  qed
  have f: "kern_fits (KernDst a) k s" by (simp add: kern_fits_def)
  have "\<exists>s'. readi ip (KernDst a) off n s = Ok (int k, KernDst (a + of_nat k), s') \<and>
      ph s' = (ph s)\<lparr>pmem := put_bytes (pmem (ph s)) a (file_bytes s ip (unat off) k)\<rparr> \<and>
      txn s' L bl {} \<and> view s' = view s \<and> itab s' = itab s"
    using kern_sink.readi_spec [OF assms(3,4) assms(5) [unfolded fsz_def] assms(6) f [unfolded k_def fsz_def]] k
    unfolding k_def [unfolded fsz_def, symmetric] by (auto simp: kern_delivered_def msame_iff)
  then show ?thesis using user by blast
qed

lemma demo_near: "j < 1000 \<Longrightarrow> same_page 0 (0x10 + of_nat j)"
proof -
  assume j: "j < 1000"
  then have "unat (0x10 + of_nat j :: u32) = 16 + j" by (simp add: unat_word_ariths)
  then have "unat ((0x10 + of_nat j :: u32) div 4096) = 0" using j by (simp add: unat_div_distrib)
  then have "(0x10 + of_nat j :: u32) div 4096 = 0" by (simp only: unat_eq_0)
  then show ?thesis by (simp add: same_page_def drop_bit_eq_div)
qed

lemma demo_dir_bytes:
  "demo_dir = [1, 0, 46, 0, 0, 0, 0, 0, 0, 0, 0, 0, 0, 0, 0, 0, 1, 0, 46, 46, 0, 0, 0, 0, 0, 0, 0, 0, 0, 0, 0, 0]"
  by (simp add: demo_dir_def dirent_bytes_def name_field_def DIRSIZ_def le16_def numeral_eq_Suc)

lemma demo_mapped: "mapped demo_fsu 0 32" "file_bytes demo_fsu 0 0 32 = demo_dir"
proof -
  have it: "itab demo_fsu ! 0 = \<lparr>idev = ROOTDEV, inum = 1, iref = 1, ilk = initsleeplock, ivalid = True, idata = demo_inode\<rparr>"
    by (simp add: demo_fsu_ok(8) demo_fs_def NINODE_def)
  have b: "file_block demo_fsu 0 0 = 46"
    by (simp add: file_block_def iaddr_def it demo_inode_def NDIRECT_def)
  have z: "i div BSIZE = 0" "i mod BSIZE = i" if "i < 32" for i using that by (simp_all add: BSIZE_def)
  show "mapped demo_fsu 0 32"
    using z b by (simp add: mapped_def MAXFILE_def BSIZE_def NDIRECT_def NINDIRECT_def)
  have len: "length demo_dir = 32" by (simp add: demo_dir_bytes)
  show "file_bytes demo_fsu 0 0 32 = demo_dir"
  proof (rule nth_equalityI)
    fix i assume "i < length (file_bytes demo_fsu 0 0 32)"
    then have i: "i < 32" by simp
    then show "file_bytes demo_fsu 0 0 32 ! i = demo_dir ! i"
      using z [OF i] b len by (simp add: file_bytes_def file_byte_def demo_fsu_ok(3) demo_disk_def nth_append)
  qed (simp add: len)
qed

theorem readi_reads_file_witness:
  "(\<exists>s'. readi 0 (UserDst 0x10) 0 100 demo_fsu = Ok (32, UserDst 0x30, s') \<and>
    user_byte (pmem (ph s')) (user_pt s') = user_write 0x10 demo_dir (user_byte (pmem demo_space) 0x8007D000)) \<and>
   (\<exists>s'. readi 0 (KernDst 0x80070000) 0 100 demo_fsu = Ok (32, KernDst 0x80070020, s') \<and>
    ph s' = demo_space\<lparr>pmem := put_bytes (pmem demo_space) 0x80070000 demo_dir\<rparr>)"
proof -
  have it: "itab demo_fsu ! 0 = \<lparr>idev = ROOTDEV, inum = 1, iref = 1, ilk = initsleeplock, ivalid = True, idata = demo_inode\<rparr>"
    by (simp add: demo_fsu_ok(8) demo_fs_def NINODE_def)
  have sz: "unat (d_size (idata (itab demo_fsu ! 0))) = 32" by (simp add: it demo_inode_def)
  have e: "user_entry (pmem (ph demo_fsu)) (user_pt demo_fsu) (0x10 + of_nat j) \<noteq> None" if "j < 32" for j
    using demo_near [of j] that by (simp add: demo_fsu_ok(6,7) demo_user_entry)
  have k: "min (unat (100 :: u32)) (unat (d_size (idata (itab demo_fsu ! 0))) - unat (0 :: u32)) = 32" by (simp add: sz)
  show ?thesis
    using readi_reads_file [OF demo_fsu_ok(1), of 0 0 100 "[]" 4096 "0x10" "0x80070000"] demo_space_inv e
    unfolding k sz by (auto simp: it demo_mapped demo_fsu_ok(5-7))
qed

end
