(* ===== verification/Fs_Dir.thy ===== *)
theory Fs_Dir
  imports Fs_File
begin

text \<open>
  Paths and directories: \<open>skipelem\<close> splits a path at its slashes, names compare by their
  first \<open>DIRSIZ\<close> characters, and \<open>dirlookup\<close> finds the first entry of that name.
\<close>

subsection \<open>Paths\<close>

fun split_slash :: "u8 list \<Rightarrow> u8 list list" where
  "split_slash [] = [[]]"
| "split_slash (c # cs) =
     (if c = slash then [] # split_slash cs
      else (c # hd (split_slash cs)) # tl (split_slash cs))"

definition words :: "u8 list \<Rightarrow> u8 list list" where
  "words p = filter (\<lambda>w. w \<noteq> []) (split_slash p)"

definition path_elems :: "u8 list \<Rightarrow> u8 list list" where
  "path_elems p = map (take DIRSIZ) (words p)"

lemma split_slash_ne [simp]: "split_slash p \<noteq> []"
  by (cases p) auto

lemma words_slash [simp]: "words (slash # p) = words p"
  by (simp add: words_def)

lemma words_dropWhile: "words (dropWhile (\<lambda>c. c = slash) p) = words p"
  by (induction p) (simp_all add: words_def)

lemma split_word:
  "split_slash p = takeWhile (\<lambda>c. c \<noteq> slash) p #
     (case dropWhile (\<lambda>c. c \<noteq> slash) p of [] \<Rightarrow> [] | _ # r \<Rightarrow> split_slash r)"
  by (induction p) (auto split: list.split)

lemma words_word:
  assumes "p \<noteq> []" "hd p \<noteq> slash"
  shows "words p = takeWhile (\<lambda>c. c \<noteq> slash) p # words (dropWhile (\<lambda>c. c \<noteq> slash) p)"
proof -
  have ne: "takeWhile (\<lambda>c. c \<noteq> slash) p \<noteq> []" using assms by (cases p) auto
  show ?thesis
  proof (cases "dropWhile (\<lambda>c. c \<noteq> slash) p")
    case Nil
    then show ?thesis
      unfolding words_def by (subst split_word) (simp add: ne del: dropWhile_eq_Nil_conv)
  next
    case (Cons c r)
    then have "c = slash" using hd_dropWhile [of "\<lambda>c. c \<noteq> slash" p] by simp
    then show ?thesis using ne split_word [of p] Cons by (simp add: words_def)
  qed
qed

lemma words_empty: "words p = [] \<longleftrightarrow> dropWhile (\<lambda>c. c = slash) p = []"
proof (cases "dropWhile (\<lambda>c. c = slash) p = []")
  case True
  have "words p = words []" using words_dropWhile [of p] unfolding True by simp
  then show ?thesis using True by (simp add: words_def)
next
  case False
  then have "hd (dropWhile (\<lambda>c. c = slash) p) \<noteq> slash" using hd_dropWhile by fast
  then show ?thesis using words_word [OF False] words_dropWhile [of p] False by simp
qed

lemma skipelem_words:
  "skipelem p =
     (case words p of [] \<Rightarrow> None
      | w # ws \<Rightarrow> Some (dropWhile (\<lambda>c. c = slash) (dropWhile (\<lambda>c. c \<noteq> slash) (dropWhile (\<lambda>c. c = slash) p)),
                        take DIRSIZ w))"
proof (cases "dropWhile (\<lambda>c. c = slash) p = []")
  case True
  then show ?thesis using words_empty [of p] by (simp add: skipelem_def)
next
  case False
  then have h: "hd (dropWhile (\<lambda>c. c = slash) p) \<noteq> slash" using hd_dropWhile by fast
  then show ?thesis
    using words_word [OF False h] words_dropWhile [of p] False by (simp add: skipelem_def Let_def)
qed

lemma skipelem_rest:
  assumes "skipelem p = Some (rest, name)"
  shows "words p = hd (words p) # words rest" "name = take DIRSIZ (hd (words p))"
    "rest = [] \<longleftrightarrow> words rest = []" "rest \<noteq> [] \<Longrightarrow> hd rest \<noteq> slash"
proof -
  let ?p = "dropWhile (\<lambda>c. c = slash) p" let ?r = "dropWhile (\<lambda>c. c \<noteq> slash) ?p"
  obtain w ws where w: "words p = w # ws" and r: "rest = dropWhile (\<lambda>c. c = slash) ?r" "name = take DIRSIZ w"
    using assms unfolding skipelem_words by (auto split: list.splits)
  have ne: "?p \<noteq> []" using w words_empty [of p] by auto
  then have h: "hd ?p \<noteq> slash" using hd_dropWhile by fast
  have "words p = takeWhile (\<lambda>c. c \<noteq> slash) ?p # words ?r"
    using words_word [OF ne h] words_dropWhile [of p] by simp
  then have ws: "ws = words rest" using w r(1) words_dropWhile [of ?r] by simp
  show "words p = hd (words p) # words rest" "name = take DIRSIZ (hd (words p))"
    using w ws r(2) by simp_all
  show "rest = [] \<longleftrightarrow> words rest = []"
    using words_empty [of rest] r(1) by (simp add: dropWhile_idem)
  show "rest \<noteq> [] \<Longrightarrow> hd rest \<noteq> slash" unfolding r(1) using hd_dropWhile by fast
qed

subsection \<open>Names\<close>

definition c_string :: "u8 list \<Rightarrow> u8 list" where
  "c_string p = takeWhile (\<lambda>c. c \<noteq> 0) p"

lemma c_string_simps [simp]:
  "c_string [] = []" "c_string (c # p) = (if c = 0 then [] else c # c_string p)"
  by (simp_all add: c_string_def)

lemma strncmp_list_0: "strncmp_list n p q = 0 \<longleftrightarrow> take n (c_string p) = take n (c_string q)"
proof (induction n arbitrary: p q)
  case (Suc n)
  have d: "uint a - uint b = 0 \<longleftrightarrow> a = b" for a b :: u8 by (simp add: word_uint_eq_iff)
  show ?case
    by (cases p; cases q) (simp_all add: char_at_def Suc.IH d del: right_minus_eq)
qed simp

text \<open>The comparison on lists is the one of theory Kstring on two NUL-terminated strings in memory.\<close>

lemma strncmp_names:
  assumes "cstring m p xs" "cstring m q ys"
  shows "strncmp_list n xs ys = strncmp_loop m p q n"
  using assms
proof (induction n arbitrary: p q xs ys)
  case (Suc n)
  then show ?case by (cases xs; cases ys) (auto simp: cstring_Cons char_at_def)
qed simp

lemma namecmp_0: "namecmp p q = 0 \<longleftrightarrow> take DIRSIZ (c_string p) = take DIRSIZ (c_string q)"
  unfolding namecmp_def by (rule strncmp_list_0)


lemma c_string_pad: "0 \<notin> set xs \<Longrightarrow> c_string (xs @ replicate k 0) = xs"
  by (induction xs) (cases k, auto)

text \<open>The name field of an entry keeps the part of the name that comparisons look at.\<close>

lemma c_string_name_field: "take DIRSIZ (c_string (name_field q)) = take DIRSIZ (c_string q)"
proof -
  let ?n = "take DIRSIZ (c_string q)"
  have "0 \<notin> set ?n" unfolding c_string_def by (metis in_set_takeD set_takeWhileD)
  then have "c_string (?n @ replicate (DIRSIZ - length ?n) 0) = ?n" by (rule c_string_pad)
  moreover have "name_field q = ?n @ replicate (DIRSIZ - length ?n) 0" by (simp only: name_field_def c_string_def Let_def)
  ultimately show ?thesis by simp
qed

lemma length_name_field [simp]: "length (name_field q) = DIRSIZ"
  by (simp add: name_field_def)

subsection \<open>Looking up a name\<close>

text \<open>Entry \<open>k\<close> of a directory, and whether it is an entry of the given name.\<close>

definition dirent_at :: "kst \<Rightarrow> nat \<Rightarrow> nat \<Rightarrow> u8 list" where
  "dirent_at s dp k = file_bytes s dp (DIRENT * k) DIRENT"

definition names :: "u8 list \<Rightarrow> u8 list \<Rightarrow> bool" where
  "names name de \<longleftrightarrow> de_inum de \<noteq> 0 \<and> take DIRSIZ (c_string name) = take DIRSIZ (c_string (de_name de))"

lemma split_no_slash: "w \<in> set (split_slash p) \<Longrightarrow> slash \<notin> set w"
proof (induction p arbitrary: w)
  case (Cons c cs)
  have "hd (split_slash cs) \<in> set (split_slash cs)" by simp
  moreover have "x \<in> set (tl (split_slash cs)) \<Longrightarrow> x \<in> set (split_slash cs)" for x
    by (cases "split_slash cs") auto
  ultimately show ?case using Cons by (auto split: if_splits)
qed simp

text \<open>A directory: its entries are all there.\<close>

definition is_dir :: "kst \<Rightarrow> nat \<Rightarrow> nat \<Rightarrow> bool" where
  "is_dir s dp n \<longleftrightarrow> idev (itab s ! dp) = ROOTDEV \<and> d_type (idata (itab s ! dp)) = T_DIR \<and>
     unat (d_size (idata (itab s ! dp))) = DIRENT * n \<and> mapped s dp (DIRENT * n)"

lemma is_dir_same:
  "view s' = view s \<Longrightarrow> itab s' ! dp = itab s ! dp \<Longrightarrow> is_dir s' dp n = is_dir s dp n"
  "view s' = view s \<Longrightarrow> itab s' ! dp = itab s ! dp \<Longrightarrow> dirent_at s' dp = dirent_at s dp"
  using file_same [of s' s dp] by (simp_all add: is_dir_def dirent_at_def fun_eq_iff)

lemma is_dir_small: "is_dir s dp n \<Longrightarrow> DIRENT * n \<le> 71680"
  by (simp add: is_dir_def mapped_def MAXFILE_def BSIZE_def NDIRECT_def NINDIRECT_def)

lemma read_dirent_spec:
  assumes t: "txn s L bl {}" and d: "is_dir s dp n" and k: "k < n"
  obtains s' where "read_dirent dp (of_nat (DIRENT * k)) s = Ok (Some (dirent_at s dp k), s')"
    "txn s' L bl {}" "view s' = view s" "fsame s s'"
proof -
  have le: "DIRENT * k + DIRENT \<le> DIRENT * n" using k by (metis Suc_leI add.commute mult_Suc_right mult_le_mono2)
  have small: "DIRENT * k + DIRENT \<le> 71680" using le is_dir_small [OF d] by linarith
  have off: "unat (of_nat (DIRENT * k) :: u32) = DIRENT * k" using small by (intro unat_of_nat_eq) simp
  have len: "unat (of_nat DIRENT :: u32) = DIRENT" by (simp add: DIRENT_def DIRSIZ_def)
  have sz: "unat (d_size (idata (itab s ! dp))) = DIRENT * n" using d by (simp add: is_dir_def)
  have cnt: "min (unat (of_nat DIRENT :: u32)) (unat (d_size (idata (itab s ! dp))) - unat (of_nat (DIRENT * k) :: u32)) = DIRENT"
    unfolding off len sz using le by simp
  have sum: "unat (of_nat (DIRENT * k) :: u32) + unat (of_nat DIRENT :: u32) < 2 ^ 32"
    unfolding off len using small by simp
  have m: "mapped s dp (unat (d_size (idata (itab s ! dp))))" "idev (itab s ! dp) = ROOTDEV"
    using d by (simp_all add: is_dir_def)
  have f: "local_fits (LocalDst []) DIRENT s" by (simp add: local_fits_def)
  obtain s' where 1: "readi dp (LocalDst []) (of_nat (DIRENT * k)) (of_nat DIRENT) s =
      Ok (int DIRENT, advance (LocalDst []) (file_bytes s dp (DIRENT * k) DIRENT), s')"
    "txn s' L bl {}" "view s' = view s" "msame s s'" "local_delivered (LocalDst []) s (file_bytes s dp (DIRENT * k) DIRENT) s'"
    using local_sink.readi_spec [OF t m(2,1) sum, unfolded cnt, OF f] unfolding off by (elim exE conjE)
  have "fsame s s'"
    using 1(4,5) by (simp add: msame_iff local_delivered_def fsame_def keeps_but_log_simp)
  then show ?thesis using that 1(1-3) by (simp add: read_dirent_def dirent_at_def)
qed

lemma dirlookup_from_spec:
  assumes "txn s L bl {}" "is_dir s dp n" "j \<le> n" "n - j < k"
  shows "\<exists>s'. fsame s s' \<and> txn s' L bl {} \<and> view s' = view s \<and>
    dirlookup_from k (of_nat (DIRENT * j)) dp name s =
      (case find (\<lambda>i. names name (dirent_at s dp i)) [j..<n] of
         None \<Rightarrow> Ok (None, s')
       | Some i \<Rightarrow> seq (iget ROOTDEV (ucast (de_inum (dirent_at s dp i))) s') (\<lambda>(ip, t).
           Ok (Some (ip, of_nat (DIRENT * i)), t)))"
  using assms
proof (induction k arbitrary: j s)
  case (Suc k)
  have small: "DIRENT * n \<le> 71680" using is_dir_small [OF Suc.prems(2)] .
  then have "DIRENT * j \<le> 71680" using mult_le_mono2 [OF Suc.prems(3), of DIRENT] by linarith
  then have off: "unat (of_nat (DIRENT * j) :: u32) = DIRENT * j" by (intro unat_of_nat_eq) simp
  have sz: "unat (d_size (idata (itab s ! dp))) = DIRENT * n" using Suc.prems(2) by (simp add: is_dir_def)
  have pos: "0 < DIRENT" by (simp add: DIRENT_def)
  have more: "of_nat (DIRENT * j) < d_size (idata (itab s ! dp)) \<longleftrightarrow> j < n"
    unfolding word_less_nat_alt off sz using pos by simp
  show ?case
  proof (cases "j < n")
    case False
    then show ?thesis
      using Suc.prems(1,3) more by (intro exI [of _ s]) simp
  next
    case True
    obtain s1 where 1: "read_dirent dp (of_nat (DIRENT * j)) s = Ok (Some (dirent_at s dp j), s1)"
      "txn s1 L bl {}" "view s1 = view s" "fsame s s1"
      by (rule read_dirent_spec [OF Suc.prems(1,2) True])
    have it: "itab s1 = itab s" by (rule fsame_sel(2) [OF 1(4)])
    have dev: "idev (itab s ! dp) = ROOTDEV" using Suc.prems(2) by (simp add: is_dir_def)
    have upt: "[j..<n] = j # [Suc j..<n]" using True by (simp add: upt_conv_Cons)
    have nm: "de_inum (dirent_at s dp j) \<noteq> 0 \<and> namecmp name (de_name (dirent_at s dp j)) = 0 \<longleftrightarrow>
        names name (dirent_at s dp j)"
      by (simp add: names_def namecmp_0)
    have step: "dirlookup_from (Suc k) (of_nat (DIRENT * j)) dp name s =
      (if names name (dirent_at s dp j)
       then seq (iget ROOTDEV (ucast (de_inum (dirent_at s dp j))) s1) (\<lambda>(ip, t). Ok (Some (ip, of_nat (DIRENT * j)), t))
       else dirlookup_from k (of_nat (DIRENT * Suc j)) dp name s1)"
      using True more 1(1) it dev nm by (auto simp: add.commute)
    show ?thesis
    proof (cases "names name (dirent_at s dp j)")
      case yes: True
      then show ?thesis
        unfolding step upt using 1(2-4) by (intro exI [of _ s1]) simp
    next
      case no: False
      have le: "Suc j \<le> n" "n - Suc j < k" using True Suc.prems(4) by simp_all
      have same: "is_dir s1 dp n" "dirent_at s1 dp = dirent_at s dp"
        using is_dir_same [OF 1(3), of dp] it Suc.prems(2) by simp_all
      obtain s' where IH: "fsame s1 s'" "txn s' L bl {}" "view s' = view s1"
        "dirlookup_from k (of_nat (DIRENT * Suc j)) dp name s1 =
          (case find (\<lambda>i. names name (dirent_at s dp i)) [Suc j..<n] of
             None \<Rightarrow> Ok (None, s')
           | Some i \<Rightarrow> seq (iget ROOTDEV (ucast (de_inum (dirent_at s dp i))) s') (\<lambda>(ip, t).
               Ok (Some (ip, of_nat (DIRENT * i)), t)))"
        using Suc.IH [OF 1(2) same(1) le] unfolding same(2) by (elim exE conjE)
      show ?thesis
        unfolding step upt using no IH(2-4) 1(3) fsame_trans [OF 1(4) IH(1)]
        by (intro exI [of _ s']) simp
    qed
  qed
qed simp


subsection \<open>The inode table\<close>

text \<open>No inode is in two slots, and the counts are not negative.\<close>

definition itab_ok :: "inode list \<Rightarrow> bool" where
  "itab_ok xs \<longleftrightarrow>
     (\<forall>i < length xs. \<forall>j < length xs. 0 < iref (xs ! i) \<longrightarrow> 0 < iref (xs ! j) \<longrightarrow>
        idev (xs ! i) = idev (xs ! j) \<longrightarrow> inum (xs ! i) = inum (xs ! j) \<longrightarrow> i = j) \<and>
     (\<forall>i < length xs. 0 \<le> iref (xs ! i))"

definition in_use :: "u32 \<Rightarrow> u32 \<Rightarrow> inode \<Rightarrow> bool" where
  "in_use dev n x \<longleftrightarrow> 0 < iref x \<and> idev x = dev \<and> inum x = n"

lemma iget_scan_spec:
  "iget_scan dev n free k xs =
     (case find (\<lambda>j. in_use dev n (xs ! j)) [0..<length xs] of
        Some j \<Rightarrow> (Some (k + j), if free = None then map_option ((+) k) (find (\<lambda>j. iref (xs ! j) = 0) [0..<j]) else free)
      | None \<Rightarrow> (None, if free = None then map_option ((+) k) (find (\<lambda>j. iref (xs ! j) = 0) [0..<length xs]) else free))"
proof (induction xs arbitrary: free k)
  case (Cons x xs)
  have u: "[0..<Suc j] = 0 # map Suc [0..<j]" for j by (simp add: upt_conv_Cons map_Suc_upt del: upt_Suc)
  have fm: "find P (map Suc ys) = map_option Suc (find (P \<circ> Suc) ys)" for P ys
    by (induction ys) auto
  show ?case
  proof (cases "in_use dev n x")
    case True
    then show ?thesis by (simp add: in_use_def u del: upt_Suc)
  next
    case False
    have step: "iget_scan dev n free k (x # xs) =
        iget_scan dev n (if free = None \<and> iref x = 0 then Some k else free) (Suc k) xs"
      using False by (auto simp: in_use_def)
    have plus: "(+) (Suc k) = (\<lambda>x. Suc (k + x))" by auto
    show ?thesis
      unfolding step Cons.IH plus using False
      by (auto simp: fm o_def u in_use_def option.map_comp split: option.split simp del: upt_Suc)
  qed
qed simp

text \<open>The slot \<open>iget\<close> picks: the one that holds the inode, or else the first free one.\<close>

lemma iget_spec:
  "iget dev n s =
     (case find (\<lambda>j. in_use dev n (itab s ! j)) [0..<length (itab s)] of
        Some j \<Rightarrow> Ok (j, upd_inode j (\<lambda>i. i\<lparr>iref := iref i + 1\<rparr>) s)
      | None \<Rightarrow>
          (case find (\<lambda>j. iref (itab s ! j) = 0) [0..<length (itab s)] of
             None \<Rightarrow> Fail (Panic ''iget: no inodes'')
           | Some j \<Rightarrow> Ok (j, upd_inode j (\<lambda>i. i\<lparr>idev := dev, inum := n, iref := 1, ivalid := False\<rparr>) s)))"
  by (simp add: iget_def iget_scan_spec split: option.split)

lemma find_upt_Some: "find P [0..<m] = Some j \<Longrightarrow> j < m \<and> P j \<and> (\<forall>i < j. \<not> P i)"
  by (auto simp: find_Some_iff)

lemma find_upt_None: "find P [0..<m] = None \<longleftrightarrow> (\<forall>i < m. \<not> P i)"
  by (auto simp: find_None_iff)


lemma iget_itab_ok:
  assumes "itab_ok (itab s)" "iget dev n s = Ok (ip, s')"
  shows "itab_ok (itab s') \<and> ip < length (itab s) \<and> in_use dev n (itab s' ! ip) \<and>
    (\<forall>j. j \<noteq> ip \<longrightarrow> itab s' ! j = itab s ! j) \<and>
    iref (itab s' ! ip) = (if in_use dev n (itab s ! ip) then iref (itab s ! ip) + 1 else 1) \<and>
    s' = s\<lparr>itab := itab s'\<rparr>"
proof (cases "find (\<lambda>j. in_use dev n (itab s ! j)) [0..<length (itab s)]")
  case (Some j)
  then have j: "j < length (itab s)" "in_use dev n (itab s ! j)" using find_upt_Some by blast+
  have r: "ip = j" "s' = upd_inode j (\<lambda>i. i\<lparr>iref := iref i + 1\<rparr>) s"
    using assms(2) Some by (auto simp: iget_spec)
  have "itab_ok (itab s')"
    using assms(1) j unfolding itab_ok_def in_use_def r by (auto simp: upd_inode_def nth_list_update)
  then show ?thesis using j r by (simp add: upd_inode_def in_use_def nth_list_update)
next
  case None
  then have free: "\<forall>i < length (itab s). \<not> in_use dev n (itab s ! i)" by (simp add: find_upt_None)
  then obtain j where f: "find (\<lambda>j. iref (itab s ! j) = 0) [0..<length (itab s)] = Some j"
    and r: "ip = j" "s' = upd_inode j (\<lambda>i. i\<lparr>idev := dev, inum := n, iref := 1, ivalid := False\<rparr>) s"
    using assms(2) None by (auto simp: iget_spec split: option.splits)
  have j: "j < length (itab s)" "iref (itab s ! j) = 0" using find_upt_Some [OF f] by auto
  have "itab_ok (itab s')"
    using assms(1) j free unfolding itab_ok_def in_use_def r by (auto simp: upd_inode_def nth_list_update)
  then show ?thesis using j free r by (simp add: upd_inode_def in_use_def nth_list_update)
qed

lemma iget_with_free_slot:
  assumes "i < length (itab s)" "iref (itab s ! i) = 0"
  obtains ip t where "iget dev n s = Ok (ip, t)"
proof -
  have "find (\<lambda>j. iref (itab s ! j) = 0) [0..<length (itab s)] \<noteq> None"
    unfolding find_upt_None using assms by auto
  then obtain y where "find (\<lambda>j. iref (itab s ! j) = 0) [0..<length (itab s)] = Some y" by blast
  then have "\<exists>r. iget dev n s = Ok r" by (simp add: iget_spec split: option.splits)
  then show ?thesis using that by (auto simp: split_paired_all)
qed

lemma iget_view: "iget dev n s = Ok (ip, s') \<Longrightarrow> view s' = view s"
  by (rule view_cong) (auto simp: iget_spec upd_inode_def split: option.splits)

lemma dirlookup_spec:
  assumes "txn s L bl {}" "is_dir s dp n"
  shows "\<exists>s1. fsame s s1 \<and> txn s1 L bl {} \<and> view s1 = view s \<and>
    dirlookup dp name s =
      (case find (\<lambda>i. names name (dirent_at s dp i)) [0..<n] of
         None \<Rightarrow> Ok (None, s1)
       | Some i \<Rightarrow> seq (iget ROOTDEV (ucast (de_inum (dirent_at s dp i))) s1) (\<lambda>(ip, t).
           Ok (Some (ip, of_nat (DIRENT * i)), t)))"
proof -
  have "n - 0 < dir_rounds dp s"
    using assms(2) by (simp add: dir_rounds_def is_dir_def DIRENT_def DIRSIZ_def)
  then show ?thesis
    using dirlookup_from_spec [OF assms, of 0 "dir_rounds dp s" name] assms(2)
    by (simp add: dirlookup_def is_dir_def)
qed


subsection \<open>The concrete file system\<close>

lemma demo_slots: "length (itab demo_fs) = NINODE"
  by (simp add: demo_fs_def)

lemma demo_root:
  "itab demo_fs ! 0 = \<lparr>idev = ROOTDEV, inum = 1, iref = 1, ilk = initsleeplock, ivalid = True, idata = demo_inode\<rparr>"
  by (simp add: demo_fs_def NINODE_def)

lemma demo_itab_ok: "itab_ok (itab demo_fs)"
  by (auto simp: itab_ok_def demo_fs_def nth_list_update demo_slot_def)

lemma find_upt_0: "0 < n \<Longrightarrow> P 0 \<Longrightarrow> find P [0..<n] = Some 0"
  by (simp add: upt_conv_Cons)

lemma demo_dirents:
  "is_dir demo_fsu 0 2" "dirent_at demo_fsu 0 0 = dirent_bytes 1 (name_field [46])"
  "dirent_at demo_fsu 0 1 = dirent_bytes 1 (name_field [46, 46])"
proof -
  show "is_dir demo_fsu 0 2"
    using demo_mapped(1) by (simp add: is_dir_def demo_fsu_ok(8) demo_root demo_inode_def DIRENT_def DIRSIZ_def)
  have cut: "file_bytes demo_fsu 0 a n = take n (drop a demo_dir)" if "a + n \<le> 32" for a n
    unfolding demo_mapped(2) [symmetric] using that
    by (intro nth_equalityI) (simp_all add: file_bytes_def)
  show "dirent_at demo_fsu 0 0 = dirent_bytes 1 (name_field [46])"
    "dirent_at demo_fsu 0 1 = dirent_bytes 1 (name_field [46, 46])"
    by (simp_all add: dirent_at_def cut DIRENT_def DIRSIZ_def demo_dir_def dirent_bytes_def name_field_def le16_def)
qed


subsection \<open>Properties\<close>

text \<open>
  \<open>skipelem\<close> takes the first element off a path, cut to \<open>DIRSIZ\<close> characters, and leaves a
  shorter path that stands for the remaining elements and is empty exactly after the last one
  (what \<open>nameiparent\<close> tests); it answers 0 exactly when the path has no element. So the elements
  \<open>namex\<close> walks are the non-empty pieces between slashes.
\<close>

theorem skipelem_splits_path:
  "case skipelem p of
     None \<Rightarrow> path_elems p = []
   | Some (rest, name) \<Rightarrow>
       path_elems p = name # path_elems rest \<and> length rest < length p \<and>
       (rest = [] \<longleftrightarrow> path_elems rest = []) \<and> (rest \<noteq> [] \<longrightarrow> hd rest \<noteq> slash) \<and>
       name \<noteq> [] \<and> length name \<le> DIRSIZ \<and> slash \<notin> set name"
proof (cases "skipelem p")
  case None
  then show ?thesis by (simp add: skipelem_words path_elems_def split: list.splits)
next
  case (Some r)
  obtain rest name where r: "r = (rest, name)" by force
  note k = skipelem_rest [OF Some [unfolded r]]
  have "hd (words p) \<in> set (words p)" using k(1) by (metis list.set_intros(1))
  then have w: "hd (words p) \<noteq> []" "slash \<notin> set (hd (words p))"
    using split_no_slash [of "hd (words p)" p] by (simp_all add: words_def)
  have "name \<noteq> []" "slash \<notin> set name" "length name \<le> DIRSIZ"
    unfolding k(2) using w set_take_subset [of DIRSIZ "hd (words p)"] by (auto simp: DIRSIZ_def)
  moreover have "path_elems p = name # path_elems rest"
    unfolding path_elems_def k(2) by (subst k(1)) simp
  moreover have "path_elems rest = [] \<longleftrightarrow> rest = []" unfolding path_elems_def using k(3) by simp
  ultimately show ?thesis
    using k(4) skipelem_shorter [OF Some [unfolded r]] by (simp add: Some r)
qed

theorem skipelem_splits_path_witness:
  "skipelem [slash, 97, 98, slash, slash, 99] = Some ([99], [97, 98]) \<and>
   path_elems [slash, 97, 98, slash, slash, 99] = [[97, 98], [99]]"
proof -
  have s: "skipelem [slash, 97, 98, slash, slash, 99] = Some ([99], [97, 98])"
    "skipelem [99] = Some ([], [99])"
    by (simp_all add: skipelem_def slash_def DIRSIZ_def)
  show ?thesis
    using skipelem_splits_path [of "[slash, 97, 98, slash, slash, 99]"] skipelem_splits_path [of "[99]"]
    by (simp add: s)
qed

text \<open>
  \<open>iget\<close> keeps one slot per inode: the slot it returns holds the inode, with one reference
  more when the table had it and with one reference when the slot was free; no other slot
  changes. It panics exactly when the inode is not in the table and no slot is free.
\<close>

theorem iget_one_slot:
  assumes "itab_ok (itab s)"
  shows "case iget dev n s of
      Ok (ip, s') \<Rightarrow> itab_ok (itab s') \<and> ip < length (itab s) \<and> in_use dev n (itab s' ! ip) \<and>
        (\<forall>j. j \<noteq> ip \<longrightarrow> itab s' ! j = itab s ! j) \<and>
        iref (itab s' ! ip) = (if in_use dev n (itab s ! ip) then iref (itab s ! ip) + 1 else 1)
    | Fail e \<Rightarrow> e = Panic ''iget: no inodes'' \<and>
        (\<forall>j < length (itab s). 0 < iref (itab s ! j) \<and> \<not> in_use dev n (itab s ! j))"
proof (cases "iget dev n s")
  case (Ok r)
  then show ?thesis using iget_itab_ok [OF assms, of dev n "fst r" "snd r"] by (simp add: split_beta)
next
  case (Fail e)
  then have "find (\<lambda>j. in_use dev n (itab s ! j)) [0..<length (itab s)] = None"
    "find (\<lambda>j. iref (itab s ! j) = 0) [0..<length (itab s)] = None" "e = Panic ''iget: no inodes''"
    by (auto simp: iget_spec split: option.splits)
  then show ?thesis using Fail assms by (force simp: find_upt_None itab_ok_def)
qed

theorem iget_one_slot_witness:
  "\<exists>s'. iget ROOTDEV 1 demo_fs = Ok (0, s') \<and> iref (itab s' ! 0) = 2 \<and> itab_ok (itab s')"
proof -
  have g: "iget ROOTDEV 1 demo_fs = Ok (0, upd_inode 0 (\<lambda>i. i\<lparr>iref := iref i + 1\<rparr>) demo_fs)"
    by (simp add: iget_spec demo_slots in_use_def demo_root find_upt_0 NINODE_def)
  show ?thesis
    using iget_one_slot [OF demo_itab_ok, of ROOTDEV 1] unfolding g
    by (simp add: upd_inode_def in_use_def demo_slots demo_root NINODE_def)
qed

text \<open>
  C36: \<open>dirlookup\<close> finds the first entry in use whose first \<open>DIRSIZ\<close> characters are those of the
  name: it returns its offset and the slot \<open>iget\<close> gives its inode number, or reports that no
  entry has the name; no block and no other slot changes. It fails only when the inode table
  is full.
\<close>

theorem dirlookup_finds_first:
  assumes "txn s L bl {}" "is_dir s dp n" "itab_ok (itab s)"
  shows "case find (\<lambda>k. names name (dirent_at s dp k)) [0..<n] of
      None \<Rightarrow> \<exists>s'. dirlookup dp name s = Ok (None, s') \<and> txn s' L bl {} \<and> view s' = view s \<and> fsame s s'
    | Some k \<Rightarrow>
        (\<exists>ip s'. dirlookup dp name s = Ok (Some (ip, of_nat (DIRENT * k)), s') \<and> view s' = view s \<and>
           in_use ROOTDEV (ucast (de_inum (dirent_at s dp k))) (itab s' ! ip) \<and> itab_ok (itab s') \<and>
           (\<forall>j. j \<noteq> ip \<longrightarrow> itab s' ! j = itab s ! j)) \<or>
        dirlookup dp name s = Fail (Panic ''iget: no inodes'') \<and> (\<forall>j < length (itab s). 0 < iref (itab s ! j))"
proof -
  obtain s1 where s1: "fsame s s1" "txn s1 L bl {}" "view s1 = view s"
    "dirlookup dp name s =
      (case find (\<lambda>i. names name (dirent_at s dp i)) [0..<n] of
         None \<Rightarrow> Ok (None, s1)
       | Some i \<Rightarrow> seq (iget ROOTDEV (ucast (de_inum (dirent_at s dp i))) s1) (\<lambda>(ip, t).
           Ok (Some (ip, of_nat (DIRENT * i)), t)))"
    using dirlookup_spec [OF assms(1,2), of name] by (elim exE conjE)
  have it: "itab s1 = itab s" by (rule fsame_sel(2) [OF s1(1)])
  have ok: "itab_ok (itab s1)" using assms(3) it by simp
  show ?thesis
  proof (cases "find (\<lambda>k. names name (dirent_at s dp k)) [0..<n]")
    case None
    then show ?thesis using s1 by simp
  next
    case (Some k)
    show ?thesis
    proof (cases "iget ROOTDEV (ucast (de_inum (dirent_at s dp k))) s1")
      case (Ok r)
      obtain ip s' where r: "r = (ip, s')" by force
      note g = iget_itab_ok [OF ok Ok [unfolded r]]
      have "view s' = view s" using iget_view [OF Ok [unfolded r]] s1(3) by simp
      moreover have "dirlookup dp name s = Ok (Some (ip, of_nat (DIRENT * k)), s')"
        using s1(4) Some Ok r by simp
      ultimately show ?thesis using Some g unfolding it by auto
    next
      case (Fail e)
      then have "e = Panic ''iget: no inodes''" "\<forall>j < length (itab s1). iref (itab s1 ! j) \<noteq> 0"
        by (auto simp: iget_spec find_upt_None split: option.splits)
      then show ?thesis using Some s1(4) Fail it assms(3) by (force simp: itab_ok_def)
    qed
  qed
qed

theorem dirlookup_finds_first_witness:
  "\<exists>ip s'. dirlookup 0 [46, 46] demo_fsu = Ok (Some (ip, 16), s') \<and> inum (itab s' ! ip) = 1 \<and>
     view s' = demo_disk"
proof -
  have one: "of_le16 1 0 = 1" by (simp add: of_le16_def)
  have replicate_numeral: "replicate 13 0 = (0 :: u8) # replicate 12 0" "replicate 12 0 = (0 :: u8) # replicate 11 0"
    by (simp_all add: numeral_eq_Suc)
  have two: "[0..<2] = [0, 1 :: nat]" by (simp add: upt_rec)
  have "\<not> names [46, 46] (dirent_at demo_fsu 0 0)" "names [46, 46] (dirent_at demo_fsu 0 1)"
    "ucast (de_inum (dirent_at demo_fsu 0 1)) = (1 :: u32)"
    unfolding demo_dirents names_def
    by (simp_all add: one de_inum_def de_name_def dirent_bytes_def name_field_def DIRSIZ_def le16_def get16_def
        replicate_numeral)
  then have f: "find (\<lambda>k. names [46, 46] (dirent_at demo_fsu 0 k)) [0..<2] = Some 1"
    "ucast (de_inum (dirent_at demo_fsu 0 1)) = (1 :: u32)"
    unfolding two by simp_all
  have off: "of_nat (DIRENT * 1) = (16 :: u32)" by (simp add: DIRENT_def DIRSIZ_def)
  have "iref (itab demo_fsu ! 1) = 0" "1 < length (itab demo_fsu)"
    by (simp_all add: demo_fsu_ok(8) demo_fs_def NINODE_def demo_slot_def)
  then have room: "\<not> (\<forall>j < length (itab demo_fsu). 0 < iref (itab demo_fsu ! j))" by force
  have "itab_ok (itab demo_fsu)" using demo_itab_ok by (simp add: demo_fsu_ok(8))
  from dirlookup_finds_first [OF demo_fsu_ok(1) demo_dirents(1) this, of "[46, 46]"]
  show ?thesis
    unfolding f option.case off demo_fsu_ok(3) in_use_def using room by blast
qed

end
