(* ===== verification/Fs_Write.thy ===== *)
theory Fs_Write
  imports Fs_File
begin

text \<open>
  Writing a file: \<open>bmap\<close> allocates the blocks that are missing, \<open>writei\<close> replaces bytes of the
  file, extends it, and leaves every other file as it is. The places the bytes come from
  share the contract \<open>feed\<close>.
\<close>

subsection \<open>The blocks of an inode\<close>

text \<open>Block \<open>k\<close> of the file, and as block \<open>MAXFILE\<close> the indirect block.\<close>

definition owned :: "kst \<Rightarrow> nat \<Rightarrow> nat \<Rightarrow> u32" where
  "owned s ip k = (if k = MAXFILE then iaddr ip NDIRECT s else file_block s ip k)"

definition inode_block :: "kst \<Rightarrow> nat \<Rightarrow> u32" where
  "inode_block s ip = IBLOCK (inum (itab s ! ip)) (sb s)"

text \<open>A block that is in use and holds neither log nor bitmap.\<close>

definition data_block :: "kst \<Rightarrow> u32 \<Rightarrow> u32 \<Rightarrow> bool" where
  "data_block s L b \<longleftrightarrow> unat b < unat (sb_size (sb s)) \<and> used s (unat b) \<and> b \<notin> log_area L \<and> b \<notin> bitmap_blocks (sb s)"

text \<open>
  The blocks of the inode are distinct data blocks and not the one that holds the inode; the
  file system has one bitmap block, and block 0 is in use.
\<close>

definition inode_ok :: "kst \<Rightarrow> nat \<Rightarrow> u32 \<Rightarrow> bool" where
  "inode_ok s ip L \<longleftrightarrow>
     ip < length (itab s) \<and> idev (itab s ! ip) = ROOTDEV \<and>
     length (d_addrs (idata (itab s ! ip))) = Suc NDIRECT \<and>
     unat (sb_size (sb s)) \<le> BPB \<and> used s 0 \<and> data_block s L (inode_block s ip) \<and> inode_block s ip \<noteq> 0 \<and>
     (\<forall>k \<le> MAXFILE. owned s ip k \<noteq> 0 \<longrightarrow> data_block s L (owned s ip k) \<and> owned s ip k \<noteq> inode_block s ip) \<and>
     (\<forall>j \<le> MAXFILE. \<forall>k \<le> MAXFILE. owned s ip j \<noteq> 0 \<longrightarrow> owned s ip j = owned s ip k \<longrightarrow> j = k)"

lemma inode_okD:
  assumes "inode_ok s ip L"
  shows "ip < length (itab s)" "idev (itab s ! ip) = ROOTDEV" "length (d_addrs (idata (itab s ! ip))) = Suc NDIRECT"
    "unat (sb_size (sb s)) \<le> BPB" "used s 0" "data_block s L (inode_block s ip)"
    "k \<le> MAXFILE \<Longrightarrow> owned s ip k \<noteq> 0 \<Longrightarrow> data_block s L (owned s ip k)"
    "k \<le> MAXFILE \<Longrightarrow> owned s ip k \<noteq> 0 \<Longrightarrow> owned s ip k \<noteq> inode_block s ip"
    "j \<le> MAXFILE \<Longrightarrow> k \<le> MAXFILE \<Longrightarrow> owned s ip j \<noteq> 0 \<Longrightarrow> owned s ip j = owned s ip k \<Longrightarrow> j = k"
    "inode_block s ip \<noteq> 0"
  using assms by (simp_all add: inode_ok_def)

lemma owned_same:
  "view s' = view s \<Longrightarrow> itab s' ! ip = itab s ! ip \<Longrightarrow> owned s' ip = owned s ip"
  using file_block_same [of s' s ip] by (simp add: owned_def iaddr_def fun_eq_iff)

lemma unat_nonzero_block: "used s 0 \<Longrightarrow> \<not> used s (unat b) \<Longrightarrow> b \<noteq> 0"
  by auto

text \<open>
  What a step that adds blocks to the file leaves alone: everything but the addresses of the
  inode, the bitmap, the blocks of the file and blocks that were free.
\<close>

definition asame :: "nat \<Rightarrow> kst \<Rightarrow> kst \<Rightarrow> bool" where
  "asame ip s s' \<longleftrightarrow> fsame (s\<lparr>itab := itab s'\<rparr>) s' \<and>
     (\<exists>as. itab s' = (itab s)[ip := (itab s ! ip)\<lparr>idata := (idata (itab s ! ip))\<lparr>d_addrs := as\<rparr>\<rparr>])"

definition grows :: "nat \<Rightarrow> kst \<Rightarrow> kst \<Rightarrow> bool" where
  "grows ip s s' \<longleftrightarrow> asame ip s s' \<and>
     (\<forall>d < unat (sb_size (sb s)). used s d \<longrightarrow> used s' d) \<and>
     (\<forall>k \<le> MAXFILE. owned s ip k \<noteq> 0 \<longrightarrow> owned s' ip k = owned s ip k) \<and>
     (\<forall>k \<le> MAXFILE. owned s ip k = 0 \<longrightarrow> owned s' ip k \<noteq> 0 \<longrightarrow>
        unat (owned s' ip k) < unat (sb_size (sb s)) \<and> \<not> used s (unat (owned s' ip k))) \<and>
     (\<forall>b. unat b < unat (sb_size (sb s)) \<longrightarrow> used s (unat b) \<longrightarrow> b \<notin> bitmap_blocks (sb s) \<longrightarrow>
        (\<forall>k \<le> MAXFILE. owned s ip k \<noteq> b) \<longrightarrow> view s' b = view s b)"

lemma asame_refl [simp]: "ip < length (itab s) \<Longrightarrow> asame ip s s"
  unfolding asame_def
  by (rule conjI) (simp, rule exI [of _ "d_addrs (idata (itab s ! ip))"], simp)

lemma asame_fsame: "fsame s s' \<Longrightarrow> asame ip s s'"
  unfolding asame_def
  by (rule conjI) (simp add: fsame_sel(2), rule exI [of _ "d_addrs (idata (itab s ! ip))"], simp add: fsame_sel(2))

lemma asame_set_iaddr: "asame ip s (set_iaddr ip k a s)"
  unfolding asame_def
  by (rule conjI)
     (simp add: set_iaddr_def upd_idata_def upd_inode_def fsame_def keeps_but_log_simp,
      rule exI [of _ "(d_addrs (idata (itab s ! ip)))[k := a]"], simp add: set_iaddr_def upd_idata_def)

lemma asame_sel:
  assumes "asame ip s s'"
  shows "sb s' = sb s" "ph s' = ph s" "lsize (lg s') = lsize (lg s)" "outstanding (lg s') = outstanding (lg s)"
    "same_procs (sch s) (sch s')" "length (itab s') = length (itab s)" "idev (itab s' ! ip) = idev (itab s ! ip)"
    "inum (itab s' ! ip) = inum (itab s ! ip)" "d_size (idata (itab s' ! ip)) = d_size (idata (itab s ! ip))"
    "j \<noteq> ip \<Longrightarrow> itab s' ! j = itab s ! j" "ftab s' = ftab s" "pipes s' = pipes s" "inode_block s' ip = inode_block s ip"
proof -
  obtain as where it: "itab s' = (itab s)[ip := (itab s ! ip)\<lparr>idata := (idata (itab s ! ip))\<lparr>d_addrs := as\<rparr>\<rparr>]"
    and f: "fsame (s\<lparr>itab := itab s'\<rparr>) s'" using assms unfolding asame_def by blast
  note g = fsame_sel [OF f]
  show sb: "sb s' = sb s" and "ph s' = ph s" "lsize (lg s') = lsize (lg s)" "outstanding (lg s') = outstanding (lg s)"
    "same_procs (sch s) (sch s')" "ftab s' = ftab s" "pipes s' = pipes s" using g by simp_all
  show "length (itab s') = length (itab s)" unfolding it by simp
  have x: "itab s' ! ip = (if ip < length (itab s) then (itab s ! ip)\<lparr>idata := (idata (itab s ! ip))\<lparr>d_addrs := as\<rparr>\<rparr>
      else itab s ! ip)"
    unfolding it by (cases "ip < length (itab s)") (simp_all add: list_update_beyond)
  show "idev (itab s' ! ip) = idev (itab s ! ip)" and n: "inum (itab s' ! ip) = inum (itab s ! ip)"
    and "d_size (idata (itab s' ! ip)) = d_size (idata (itab s ! ip))"
    unfolding x by simp_all
  show "itab s' ! j = itab s ! j" if "j \<noteq> ip" using that unfolding it by simp
  show "inode_block s' ip = inode_block s ip" unfolding inode_block_def sb n ..
qed


lemma grows_refl: "ip < length (itab s) \<Longrightarrow> grows ip s s"
  by (simp add: grows_def)

lemma asame_trans:
  assumes "asame ip s t" "asame ip t u"
  shows "asame ip s u"
proof -
  obtain as where t: "itab t = (itab s)[ip := (itab s ! ip)\<lparr>idata := (idata (itab s ! ip))\<lparr>d_addrs := as\<rparr>\<rparr>]"
    and f: "fsame (s\<lparr>itab := itab t\<rparr>) t" using assms(1) unfolding asame_def by blast
  obtain bs where u: "itab u = (itab t)[ip := (itab t ! ip)\<lparr>idata := (idata (itab t ! ip))\<lparr>d_addrs := bs\<rparr>\<rparr>]"
    and g: "fsame (t\<lparr>itab := itab u\<rparr>) u" using assms(2) unfolding asame_def by blast
  have "fsame (s\<lparr>itab := itab u\<rparr>) (t\<lparr>itab := itab u\<rparr>)"
    using f by (simp add: fsame_def keeps_but_log_simp)
  then have "fsame (s\<lparr>itab := itab u\<rparr>) u" using g fsame_trans by blast
  moreover have "itab u = (itab s)[ip := (itab s ! ip)\<lparr>idata := (idata (itab s ! ip))\<lparr>d_addrs := bs\<rparr>\<rparr>]"
    unfolding u t by (cases "ip < length (itab s)") (simp_all add: list_update_beyond)
  ultimately show ?thesis unfolding asame_def by blast
qed

lemma growsD:
  assumes "grows ip s s'"
  shows "asame ip s s'" "d < unat (sb_size (sb s)) \<Longrightarrow> used s d \<Longrightarrow> used s' d"
    "k \<le> MAXFILE \<Longrightarrow> owned s ip k \<noteq> 0 \<Longrightarrow> owned s' ip k = owned s ip k"
    "k \<le> MAXFILE \<Longrightarrow> owned s ip k = 0 \<Longrightarrow> owned s' ip k \<noteq> 0 \<Longrightarrow>
       unat (owned s' ip k) < unat (sb_size (sb s)) \<and> \<not> used s (unat (owned s' ip k))"
    "unat b < unat (sb_size (sb s)) \<Longrightarrow> used s (unat b) \<Longrightarrow> b \<notin> bitmap_blocks (sb s) \<Longrightarrow>
        (\<And>k. k \<le> MAXFILE \<Longrightarrow> owned s ip k \<noteq> b) \<Longrightarrow> view s' b = view s b"
  using assms unfolding grows_def by blast+

lemma grows_trans:
  assumes "grows ip s t" "grows ip t u"
  shows "grows ip s u"
proof -
  note D = growsD [OF assms(1)] growsD [OF assms(2)]
  note sel = asame_sel(1) [OF D(1)]
  have new: "unat (owned u ip k) < unat (sb_size (sb s)) \<and> \<not> used s (unat (owned u ip k))"
    if "k \<le> MAXFILE" "owned s ip k = 0" "owned u ip k \<noteq> 0" for k
    using D(4) [OF that(1,2)] D(8,9) [OF that(1)] that(3) D(2) sel by metis
  have "view u b = view s b"
    if b: "unat b < unat (sb_size (sb s))" "used s (unat b)" "b \<notin> bitmap_blocks (sb s)" "\<forall>k \<le> MAXFILE. owned s ip k \<noteq> b" for b
  proof -
    have "owned t ip k \<noteq> b" if "k \<le> MAXFILE" for k
      using D(3,4) [OF that] b(2,4) that by metis
    then show ?thesis using D(5) [OF b(1-3)] D(10) [of b] D(2) b sel by metis
  qed
  moreover have "owned u ip k = owned s ip k" if "k \<le> MAXFILE" "owned s ip k \<noteq> 0" for k
    using D(3,8) that by metis
  moreover have "used u d" if "d < unat (sb_size (sb s))" "used s d" for d
    using D(2,7) that sel by metis
  ultimately show ?thesis
    unfolding grows_def using asame_trans [OF D(1,6)] new by blast
qed

subsection \<open>Allocating a block\<close>

lemma length_log_add: "length (log_add b bl) = length bl + (if b \<in> set bl then 0 else 1)"
  by (simp add: log_add_def)

lemma balloc1:
  assumes "txn s L bl H" "bitmap_ok s L" "held_ok s H" "log_room s bl 2" "length bl + 1 + card H < NBUF"
    and small: "unat (sb_size (sb s)) \<le> BPB" and u0: "used s 0"
  obtains (full) s' where "balloc ROOTDEV s = Ok (0, s')" "\<forall>b < unat (sb_size (sb s)). used s b" "txn s' L bl H"
      "view s' = view s" "fsame s s'" "\<forall>c. \<forall>i \<in> H. cached s' c i = cached s c i"
    | (new) c s' where "balloc ROOTDEV s = Ok (c, s')" "c \<noteq> 0" "unat c < unat (sb_size (sb s))" "\<not> used s (unat c)"
      "txn s' L (log_add c (log_add (BBLOCK 0 (sb s)) bl)) H" "view s' c = replicate BSIZE 0"
      "\<forall>b. b \<noteq> c \<longrightarrow> b \<notin> bitmap_blocks (sb s) \<longrightarrow> view s' b = view s b"
      "\<forall>d < unat (sb_size (sb s)). used s' d \<longleftrightarrow> used s d \<or> d = unat c" "bitmap_ok s' L" "fsame s s'"
      "\<forall>c. \<forall>i \<in> H. cached s' c i = cached s c i"
proof -
  obtain r s' where 1: "balloc ROOTDEV s = Ok (r, s')" "fsame s s'" "\<forall>c. \<forall>i \<in> H. cached s' c i = cached s c i"
    "r = 0 \<and> (\<forall>c < unat (sb_size (sb s)). used s c) \<and> txn s' L bl H \<and> view s' = view s \<or>
     (\<exists>c. r = of_nat c \<and> took s c s' \<and> txn s' L (log_add (of_nat c) (log_add (BBLOCK (of_nat c) (sb s)) bl)) H)"
    using balloc_spec [OF assms(1-5)] by (elim exE conjE)
  note sb' = fsame_sel(1) [OF 1(2)]
  from 1(4) show thesis
  proof (elim disjE exE conjE)
    assume "r = 0" "\<forall>c < unat (sb_size (sb s)). used s c" "txn s' L bl H" "view s' = view s"
    then show thesis using full 1(1-3) by simp
  next
    fix c assume c: "r = of_nat c" "took s c s'" "txn s' L (log_add (of_nat c) (log_add (BBLOCK (of_nat c) (sb s)) bl)) H"
    have t: "c < unat (sb_size (sb s))" "\<not> used s c" and
      v: "view s' = (view s)(BBLOCK (of_nat c) (sb s) := mark (c mod BPB) (view s (BBLOCK (of_nat c) (sb s))),
                        of_nat c := replicate BSIZE 0)" using c(2) by (simp_all add: took_def)
    have u: "unat r = c" unfolding c(1) using t(1) unat_u32_lt less_trans by (intro unat_of_nat_eq) blast
    have lt: "c < 2 ^ 32" using t(1) unat_u32_lt less_trans by blast
    have "c div BPB = 0 div BPB" using t(1) small by simp
    then have B: "BBLOCK (of_nat c) (sb s) = BBLOCK 0 (sb s)" using BBLOCK_eq [OF lt, of 0] by simp
    have mem: "BBLOCK (of_nat c) (sb s) \<in> bitmap_blocks (sb s)" using t(1) by (rule BBLOCK_in)
    have nz: "r \<noteq> 0" using unat_nonzero_block [OF u0] t(2) u by metis
    show thesis
    proof (rule new [OF 1(1) nz])
      show "unat r < unat (sb_size (sb s))" "\<not> used s (unat r)" using t u by simp_all
      show "txn s' L (log_add r (log_add (BBLOCK 0 (sb s)) bl)) H" using c(3) unfolding B c(1) .
      show "view s' r = replicate BSIZE 0" unfolding v c(1) by simp
      show "\<forall>b. b \<noteq> r \<longrightarrow> b \<notin> bitmap_blocks (sb s) \<longrightarrow> view s' b = view s b" unfolding v c(1) using mem by auto
      show "\<forall>d < unat (sb_size (sb s)). used s' d \<longleftrightarrow> used s d \<or> d = unat r"
        using took_used [OF c(2) assms(2,1) sb'] u by blast
      show "bitmap_ok s' L" by (rule took_bitmap_ok [OF c(2) assms(2,1) sb'])
      show "fsame s s'" "\<forall>c. \<forall>i \<in> H. cached s' c i = cached s c i" using 1(2,3) by blast+
    qed
  qed
qed

text \<open>A block that was free and now is block \<open>k\<close> of the file.\<close>

lemma grows_by_one:
  assumes ok: "inode_ok s ip L" and bm: "bitmap_ok s L" and as: "asame ip s s'"
    and len: "length (d_addrs (idata (itab s' ! ip))) = Suc NDIRECT"
    and c: "c \<noteq> 0" "unat c < unat (sb_size (sb s))" "\<not> used s (unat c)" and k: "k \<le> MAXFILE" "owned s ip k = 0"
    and own: "\<And>j. j \<le> MAXFILE \<Longrightarrow> owned s' ip j = (if j = k then c else owned s ip j)"
    and us: "\<And>d. d < unat (sb_size (sb s)) \<Longrightarrow> used s' d \<longleftrightarrow> used s d \<or> d = unat c"
    and fr: "\<And>b. b \<noteq> c \<Longrightarrow> b \<notin> bitmap_blocks (sb s) \<Longrightarrow> (\<And>k. k \<le> MAXFILE \<Longrightarrow> owned s ip k \<noteq> b) \<Longrightarrow> view s' b = view s b"
  shows "inode_ok s' ip L" "grows ip s s'"
proof -
  note D = inode_okD [OF ok]
  note sel = asame_sel [OF as]
  have nb: "c \<notin> log_area L" "c \<notin> bitmap_blocks (sb s)"
    using bitmap_okD(1,2) [OF bm c(2,3)] by simp_all
  have db: "data_block s' L b" if "data_block s L b" for b
    using that us sel(1) by (simp add: data_block_def)
  have dc: "data_block s' L c" using c(2) us nb sel(1) by (simp add: data_block_def)
  have size: "0 < unat (sb_size (sb s))" using c(2) by simp
  have fresh: "owned s ip j \<noteq> c" if "j \<le> MAXFILE" for j
    using D(7) [OF that] c(1,3) unfolding data_block_def by metis
  have ci: "c \<noteq> inode_block s ip" using D(6) c(3) unfolding data_block_def by metis
  have own_ok: "data_block s' L (owned s' ip j) \<and> owned s' ip j \<noteq> inode_block s' ip"
    if "j \<le> MAXFILE" "owned s' ip j \<noteq> 0" for j
    using that own [OF that(1)] dc db D(7,8) [OF that(1)] ci sel(13) by (auto split: if_splits)
  have inj: "i = j" if "i \<le> MAXFILE" "j \<le> MAXFILE" "owned s' ip i \<noteq> 0" "owned s' ip i = owned s' ip j" for i j
    using that own [OF that(1)] own [OF that(2)] D(9) [OF that(1,2)] fresh [OF that(1)] fresh [OF that(2)]
    by (auto split: if_splits)
  have u0: "used s' 0" using us [OF size] D(5) by simp
  show "inode_ok s' ip L"
    unfolding inode_ok_def using D(1,2,4,10) len sel(1,6,7,13) u0 db [OF D(6)] own_ok inj by simp
  have "view s' b = view s b" if "used s (unat b)" "b \<notin> bitmap_blocks (sb s)" "\<forall>k \<le> MAXFILE. owned s ip k \<noteq> b" for b
    using fr [of b] that c(3) by metis
  then show "grows ip s s'"
    unfolding grows_def using as us own k c fresh by (auto split: if_splits)
qed


lemma get32_zeros: "k + 3 < n \<Longrightarrow> get32 (replicate n 0) k = 0"
  by (simp add: get32_def of_le32_def)

lemma set_iaddr_sel [simp]:
  "sb (set_iaddr ip k a s) = sb s" "view (set_iaddr ip k a s) = view s" "lg (set_iaddr ip k a s) = lg s"
  "txn (set_iaddr ip k a s) L bl H = txn s L bl H" "used (set_iaddr ip k a s) = used s"
  by (simp_all add: set_iaddr_def upd_idata_def used_def fun_eq_iff)

lemma iaddr_set_iaddr:
  assumes "ip < length (itab s)" "length (d_addrs (idata (itab s ! ip))) = Suc NDIRECT" "k \<le> NDIRECT"
  shows "iaddr ip j (set_iaddr ip k a s) = (if j = k then a else iaddr ip j s)"
    "length (d_addrs (idata (itab (set_iaddr ip k a s) ! ip))) = Suc NDIRECT"
  using assms by (simp_all add: iaddr_def set_iaddr_def upd_idata_def nth_list_update)

text \<open>The number of the block that slot \<open>k\<close> of \<open>addrs\<close> holds.\<close>

definition slot_block :: "nat \<Rightarrow> nat" where
  "slot_block k = (if k = NDIRECT then MAXFILE else k)"

lemma addr_or_alloc_spec:
  assumes t: "txn s L bl {}" and bm: "bitmap_ok s L" and ok: "inode_ok s ip L" and r: "log_room s bl 2"
    and k: "k \<le> NDIRECT" and z: "iaddr ip k s = 0"
  obtains (full) s' where "addr_or_alloc ip k s = Ok (0, s')" "\<forall>b < unat (sb_size (sb s)). used s b" "txn s' L bl {}"
      "view s' = view s" "fsame s s'"
    | (new) c s' where "addr_or_alloc ip k s = Ok (c, s')" "c \<noteq> 0"
      "txn s' L (log_add c (log_add (BBLOCK 0 (sb s)) bl)) {}" "bitmap_ok s' L" "inode_ok s' ip L" "grows ip s s'"
      "\<forall>j \<le> MAXFILE. owned s' ip j = (if j = slot_block k then c else owned s ip j)"
      "view s' c = replicate BSIZE 0" "\<forall>b. b \<noteq> c \<longrightarrow> b \<notin> bitmap_blocks (sb s) \<longrightarrow> view s' b = view s b"
      "unat c < unat (sb_size (sb s))" "\<not> used s (unat c)"
proof -
  note D = inode_okD [OF ok]
  have few: "length bl + 1 + card ({} :: nat set) < NBUF" using r by (simp add: log_room_def)
  have h: "held_ok s {}" by (simp add: held_ok_def)
  have dev: "idev (itab s ! ip) = ROOTDEV" by (rule D(2))
  from balloc1 [OF t bm h r few D(4,5)] show thesis
  proof cases
    case full: (1 s')
    then show thesis using that(1) z dev by (simp add: addr_or_alloc_def)
  next
    case new: (2 c s1)
    define s2 where "s2 = set_iaddr ip k c s1"
    have sel2: "sb s2 = sb s1" "view s2 = view s1" "used s2 = used s1" "txn s2 L bl H = txn s1 L bl H" for bl H
      by (simp_all add: s2_def)
    have it: "itab s1 = itab s" by (rule fsame_sel(2) [OF new(10)])
    have sb1: "sb s1 = sb s" by (rule fsame_sel(1) [OF new(10)])
    have L: "ip < length (itab s1)" "length (d_addrs (idata (itab s1 ! ip))) = Suc NDIRECT" using D(1,3) it by simp_all
    note ia = iaddr_set_iaddr [OF L k, where a = c, folded s2_def]
    have ia1: "iaddr ip j s1 = iaddr ip j s" for j by (simp add: iaddr_def it)
    have e: "addr_or_alloc ip k s = Ok (c, s2)" using z dev new(1,2) by (simp add: addr_or_alloc_def s2_def)
    have ind: "view s1 (iaddr ip NDIRECT s) = view s (iaddr ip NDIRECT s)" if "iaddr ip NDIRECT s \<noteq> 0"
    proof -
      have "data_block s L (iaddr ip NDIRECT s)" using D(7) [of MAXFILE] that by (simp add: owned_def)
      then show ?thesis using new(4,7) unfolding data_block_def by metis
    qed
    have own: "owned s2 ip j = (if j = slot_block k then c else owned s ip j)" if j: "j \<le> MAXFILE" for j
    proof -
      have lt: "NDIRECT < MAXFILE" by (simp add: NDIRECT_def MAXFILE_def NINDIRECT_def BSIZE_def)
      have far: "4 * (j - NDIRECT) + 3 < BSIZE" if "j < MAXFILE"
        using that by (simp add: NDIRECT_def MAXFILE_def NINDIRECT_def BSIZE_def)
      show ?thesis
        using ind k lt z new(2,6) j get32_zeros [OF far]
        by (auto simp: owned_def file_block_def slot_block_def ia(1) ia1 sel2)
    qed
    have own0: "slot_block k \<le> MAXFILE" "owned s ip (slot_block k) = 0"
      using k z by (auto simp: slot_block_def owned_def file_block_def NDIRECT_def MAXFILE_def NINDIRECT_def BSIZE_def)
    have as: "asame ip s s2" unfolding s2_def by (rule asame_trans [OF asame_fsame [OF new(10)] asame_set_iaddr])
    have us: "used s2 d \<longleftrightarrow> used s d \<or> d = unat c" if "d < unat (sb_size (sb s))" for d using new(8) that by (simp add: sel2)
    have fr: "view s2 b = view s b" if "b \<noteq> c" "b \<notin> bitmap_blocks (sb s)" "\<And>k. k \<le> MAXFILE \<Longrightarrow> owned s ip k \<noteq> b" for b
      using new(7) that by (simp add: sel2)
    note g = grows_by_one [OF ok bm as ia(2) new(2-4) own0 own us fr]
    have b': "bitmap_ok s2 L" using new(9) by (simp add: bitmap_ok_def sel2)
    show thesis
      by (rule that(2) [OF e new(2) _ b' g]) (use new own in \<open>simp_all add: sel2\<close>)
  qed
qed


subsection \<open>bmap\<close>

text \<open>What the bitmap and the indirect block can still cost in the log.\<close>

definition log_cost :: "kst \<Rightarrow> nat \<Rightarrow> u32 list \<Rightarrow> nat" where
  "log_cost s ip bl = (if BBLOCK 0 (sb s) \<in> set bl then 0 else 1) +
     (if iaddr ip NDIRECT s \<noteq> 0 \<and> iaddr ip NDIRECT s \<in> set bl then 0 else 1)"

definition extends :: "kst \<Rightarrow> u32 \<Rightarrow> nat \<Rightarrow> u32 list \<Rightarrow> nat \<Rightarrow> kst \<Rightarrow> u32 list \<Rightarrow> bool" where
  "extends s L ip bl n s' bl' \<longleftrightarrow>
     txn s' L bl' {} \<and> bitmap_ok s' L \<and> inode_ok s' ip L \<and> grows ip s s' \<and>
     (\<forall>j < MAXFILE. owned s ip j \<noteq> 0 \<longrightarrow> view s' (owned s ip j) = view s (owned s ip j)) \<and>
     length bl' + log_cost s' ip bl' \<le> length bl + log_cost s ip bl + n"

lemma extendsD:
  assumes "extends s L ip bl n s' bl'"
  shows "txn s' L bl' {}" "bitmap_ok s' L" "inode_ok s' ip L" "grows ip s s'" "asame ip s s'"
    "j < MAXFILE \<Longrightarrow> owned s ip j \<noteq> 0 \<Longrightarrow> view s' (owned s ip j) = view s (owned s ip j)"
    "length bl' + log_cost s' ip bl' \<le> length bl + log_cost s ip bl + n"
    "j \<le> MAXFILE \<Longrightarrow> owned s ip j \<noteq> 0 \<Longrightarrow> owned s' ip j = owned s ip j"
  using assms growsD(1,3) unfolding extends_def by blast+

lemma extends_trans:
  assumes "extends s L ip bl m t bl1" "extends t L ip bl1 n u bl2"
  shows "extends s L ip bl (m + n) u bl2"
proof -
  note D = extendsD [OF assms(1)] and E = extendsD [OF assms(2)]
  have "view u (owned s ip j) = view s (owned s ip j)" if "j < MAXFILE" "owned s ip j \<noteq> 0" for j
    using D(6) [OF that] D(8) [of j] E(6) [of j] that by simp
  then show ?thesis
    unfolding extends_def using E D(7) grows_trans [OF D(4) E(4)] by simp
qed

lemma extends_same:
  assumes "fsame s s'" "view s' = view s" "txn s' L bl {}" "bitmap_ok s L" "inode_ok s ip L"
  shows "extends s L ip bl 0 s' bl" "owned s' ip = owned s ip"
proof -
  have it: "itab s' = itab s" and sb: "sb s' = sb s" using fsame_sel [OF assms(1)] by simp_all
  show own: "owned s' ip = owned s ip" by (rule owned_same) (simp_all add: assms(2) it)
  have u: "used s' = used s" by (rule used_same) (simp_all add: assms(2) sb)
  have "bitmap_ok s' L" "inode_ok s' ip L"
    using assms(4,5) unfolding bitmap_ok_def inode_ok_def data_block_def inode_block_def own u it sb by simp_all
  moreover have "grows ip s s'"
    unfolding grows_def own u using asame_fsame [OF assms(1)] assms(2) by simp
  ultimately show "extends s L ip bl 0 s' bl"
    unfolding extends_def using assms(2,3) by (simp add: log_cost_def iaddr_def it sb)
qed

lemma log_room_asame: "asame ip s s' \<Longrightarrow> log_room s' bl k = log_room s bl k"
  by (simp add: log_room_def asame_sel)

lemma log_room_length: "log_room s bl k \<Longrightarrow> length bl' + k' \<le> length bl + k \<Longrightarrow> log_room s bl' k'"
  by (auto simp: log_room_def)

lemma extends_room:
  assumes "extends s L ip bl n s' bl'" "log_room s bl (log_cost s ip bl + k + n)"
  shows "log_room s' bl' (log_cost s' ip bl' + k)"
  using log_room_length [OF assms(2), of bl' "log_cost s' ip bl' + k"] extendsD(7) [OF assms(1)]
    log_room_asame [OF extendsD(5) [OF assms(1)]] by simp

lemma txn_buf:
  assumes "txn s L bl H" "cached s b i"
  shows "buf_data i s = view s b"
proof -
  obtain P where "binv s H P" using assms(1) unfolding txn_def by blast
  then show ?thesis using view_cached [OF _ assms(2)] by (simp add: buf_data_def)
qed

lemma inode_data_view:
  assumes ok: "inode_ok s ip L" and c: "\<not> used s (unat c)"
    and fr: "\<forall>b. b \<noteq> c \<longrightarrow> b \<notin> bitmap_blocks (sb s) \<longrightarrow> view s' b = view s b"
  shows "j \<le> MAXFILE \<Longrightarrow> owned s ip j \<noteq> 0 \<Longrightarrow> view s' (owned s ip j) = view s (owned s ip j)"
  using inode_okD(7) [OF ok] c fr unfolding data_block_def by metis

text \<open>The indirect block, there or newly allocated.\<close>

lemma indirect_spec:
  assumes t: "txn s L bl {}" and bm: "bitmap_ok s L" and ok: "inode_ok s ip L"
    and r: "log_room s bl (log_cost s ip bl + 2)"
  obtains (full) s' where "addr_or_alloc ip NDIRECT s = Ok (0, s')" "\<forall>b < unat (sb_size (sb s)). used s b"
      "extends s L ip bl 0 s' bl" "owned s' ip = owned s ip" "view s' = view s"
    | (found) a s' bl' where "addr_or_alloc ip NDIRECT s = Ok (a, s')" "a \<noteq> 0" "a = iaddr ip NDIRECT s'"
      "extends s L ip bl 0 s' bl'" "\<forall>j < MAXFILE. owned s' ip j = owned s ip j"
proof (cases "iaddr ip NDIRECT s = 0")
  case False
  have l: "ip < length (itab s)" by (rule inode_okD(1) [OF ok])
  have "extends s L ip bl 0 s bl" using extends_same [OF fsame_refl refl t bm ok] by blast
  then show ?thesis using that(2) [of "iaddr ip NDIRECT s" s bl] False by (simp add: addr_or_alloc_def)
next
  case True
  have r2: "log_room s bl 2" by (rule log_room_less [OF r]) simp
  show ?thesis
  proof (cases rule: addr_or_alloc_spec [OF t bm ok r2 le_refl True, case_names full new])
    case (full s')
    then show ?thesis using that(1) extends_same [OF full(5,4,3) bm ok] by blast
  next
    case (new c s')
    let ?bl = "log_add c (log_add (BBLOCK 0 (sb s)) bl)"
    have ia: "iaddr ip NDIRECT s' = c" using new(7) [THEN spec, of MAXFILE] by (simp add: owned_def slot_block_def)
    have sb': "sb s' = sb s" by (rule asame_sel(1) [OF growsD(1) [OF new(6)]])
    have cost: "length ?bl + log_cost s' ip ?bl \<le> length bl + log_cost s ip bl"
      using True new(2) by (simp add: log_cost_def ia sb' length_log_add)
    have "extends s L ip bl 0 s' ?bl"
      unfolding extends_def using new(3-6) cost inode_data_view [OF ok new(11,9)] by simp
    then show ?thesis using that(2) new(1,2,7) ia by (simp add: slot_block_def)
  qed
qed


text \<open>An entry of the indirect block that is 0 and gets a new block.\<close>

lemma entry_spec:
  assumes t: "txn s L bl {}" and bm: "bitmap_ok s L" and ok: "inode_ok s ip L"
    and r: "log_room s bl (log_cost s ip bl + 2)"
    and ind: "iaddr ip NDIRECT s \<noteq> 0" and k: "k < NINDIRECT" and z: "owned s ip (NDIRECT + k) = 0"
    and b: "bread ROOTDEV (iaddr ip NDIRECT s) s = Ok (i, s1)" "txn s1 L bl {i}" "cached s1 (iaddr ip NDIRECT s) i"
      "view s1 = view s" "fsame s s1"
  obtains a s2 where "balloc ROOTDEV s1 = Ok (a, s2)" "fsame s s2"
    "a = 0 \<longrightarrow> (\<exists>s3. brelse i s2 = Ok s3 \<and> (\<forall>b < unat (sb_size (sb s)). used s b) \<and>
        extends s L ip bl 0 s3 bl \<and> owned s3 ip = owned s ip)"
    "a \<noteq> 0 \<longrightarrow> (\<exists>s3 s4 bl'. log_write i (set_data i (put32 (4 * k) a (buf_data i s2)) s2) = Ok s3 \<and>
        brelse i s3 = Ok s4 \<and> extends s L ip bl 1 s4 bl' \<and> a \<in> set bl' \<and> view s4 a = replicate BSIZE 0 \<and>
        (\<forall>j \<le> MAXFILE. owned s4 ip j = (if j = NDIRECT + k then a else owned s ip j)))"
proof -
  note D = inode_okD [OF ok]
  let ?I = "iaddr ip NDIRECT s"
  note f = fsame_sel [OF b(5)]
  have kM: "NDIRECT + k < MAXFILE" using k by (simp add: MAXFILE_def)
  have dI: "data_block s L ?I" using D(7) [of MAXFILE] ind by (simp add: owned_def)
  have u1: "used s1 = used s" by (rule used_same) (simp_all add: b(4) f)
  have bm1: "bitmap_ok s1 L" using bm by (simp add: bitmap_ok_def u1 f)
  have ub: "unat (of_nat d :: u32) = d" if "d < unat (sb_size (sb s))" for d
    using that unat_u32_lt less_trans by (intro unat_of_nat_eq) blast
  have h: "held_ok s1 {i}"
    using b(3) dI BBLOCK_in [of _ "sb s"] ub
    by (auto simp: held_ok_def u1 f data_block_def cached_def)
  have few: "length bl + 1 + card {i} < NBUF" using r by (simp add: log_room_def)
  have r1: "log_room s1 bl 2" using log_room_same [OF b(5)] log_room_less [OF r, of 2] by simp
  have small: "unat (sb_size (sb s1)) \<le> BPB" "used s1 0" using D(4,5) by (simp_all add: f u1)
  show thesis
  proof (cases rule: balloc1 [OF b(2) bm1 h r1 few small, case_names full new])
    case (full s2)
    have s2: "fsame s s2" by (rule fsame_trans [OF b(5) full(5)])
    obtain s3 where 3: "brelse i s2 = Ok s3" "txn s3 L bl {}" "view s3 = view s2" "fsame s2 s3"
      by (rule txn_brelse1 [OF full(3)])
    have v: "view s3 = view s" using 3(3) full(4) b(4) by simp
    have e: "extends s L ip bl 0 s3 bl" "owned s3 ip = owned s ip"
      by (rule extends_same [OF fsame_trans [OF s2 3(4)] v 3(2) bm ok])+
    show thesis by (rule that [OF full(1) s2]) (use 3(1) e full(2) in \<open>simp_all add: u1 f\<close>)
  next
    case (new c s2)
    have s2: "fsame s s2" by (rule fsame_trans [OF b(5) new(10)])
    note g = fsame_sel [OF s2]
    let ?bl = "log_add c (log_add (BBLOCK 0 (sb s)) bl)" and ?d = "put32 (4 * k) c (buf_data i s2)"
    have c: "\<not> used s (unat c)" "unat c < unat (sb_size (sb s))" using new(3,4) by (simp_all add: u1 f)
    have cI: "c \<noteq> ?I" using c dI unfolding data_block_def by metis
    have c2: "cached s2 ?I i" using new(11) b(3) by simp
    have t2: "txn s2 L ?bl {i}" using new(5) by (simp add: f)
    have vI: "view s2 ?I = view s ?I" using new(7) dI cI by (simp add: data_block_def f b(4))
    have d: "buf_data i s2 = view s ?I" "length (view s ?I) = BSIZE"
      using txn_buf [OF t2 c2] vI txn_length_view [OF t] by simp_all
    have len: "length ?d = BSIZE" using d k by (simp add: length_put32 NINDIRECT_def BSIZE_def)
    have area: "?I \<notin> log_area L" using dI by (simp add: data_block_def)
    have bound: "length ?bl + 1 \<le> length bl + (log_cost s ip bl + 2)"
      by (simp add: length_log_add log_cost_def)
    have r2: "log_room s2 ?bl 1" using log_room_same [OF s2] log_room_length [OF r bound] by simp
    obtain s3 where 3: "log_write i (set_data i ?d s2) = Ok s3" "txn s3 L (log_add ?I ?bl) {i}"
      "view s3 = (view s2)(?I := ?d)" "fsame s2 s3"
      by (rule txn_put1 [OF t2 c2 len area r2])
    obtain s4 where 4: "brelse i s3 = Ok s4" "txn s4 L (log_add ?I ?bl) {}" "view s4 = view s3" "fsame s3 s4"
      by (rule txn_brelse1 [OF 3(2)])
    have f4: "fsame s s4" by (rule fsame_trans [OF s2 fsame_trans [OF 3(4) 4(4)]])
    note q = fsame_sel [OF f4]
    have v4: "view s4 = (view s2)(?I := ?d)" using 3(3) 4(3) by simp
    have fr: "view s4 b = view s b" if "b \<noteq> c" "b \<notin> bitmap_blocks (sb s)" "b \<noteq> ?I" for b
      using new(7) that by (simp add: v4 f b(4))
    have ia4: "iaddr ip j s4 = iaddr ip j s" for j by (simp add: iaddr_def q)
    have own: "owned s4 ip j = (if j = NDIRECT + k then c else owned s ip j)" if j: "j \<le> MAXFILE" for j
    proof -
      have e: "get32 ?d (4 * (j - NDIRECT)) = (if j = NDIRECT + k then c else get32 (view s ?I) (4 * (j - NDIRECT)))"
        if "NDIRECT \<le> j" "j < MAXFILE"
      proof (cases "j = NDIRECT + k")
        case False
        then have "4 * (j - NDIRECT) + 4 \<le> 4 * k \<or> 4 * k + 4 \<le> 4 * (j - NDIRECT)" using that by linarith
        then show ?thesis using False d that k
          by (auto simp: get32_put32_other MAXFILE_def NINDIRECT_def BSIZE_def)
      qed (use d k in \<open>simp add: NINDIRECT_def BSIZE_def\<close>)
      show ?thesis using j kM ind e by (auto simp: owned_def file_block_def ia4 v4)
    qed
    have us: "used s4 b \<longleftrightarrow> used s b \<or> b = unat c" if "b < unat (sb_size (sb s))" for b
    proof -
      have "BBLOCK (of_nat b) (sb s) \<noteq> ?I" using BBLOCK_in [OF that] dI unfolding data_block_def by metis
      then have "used s4 b = used s2 b" by (simp add: used_def v4 q g)
      then show ?thesis using new(8) that by (simp add: u1 f)
    qed
    have len4: "length (d_addrs (idata (itab s4 ! ip))) = Suc NDIRECT" using D(3) by (simp add: q)
    have frw: "view s4 b = view s b" if "b \<noteq> c" "b \<notin> bitmap_blocks (sb s)" "\<And>k. k \<le> MAXFILE \<Longrightarrow> owned s ip k \<noteq> b" for b
      by (rule fr [OF that(1,2)]) (use that(3) [of MAXFILE] in \<open>simp add: owned_def\<close>)
    note G = grows_by_one [OF ok bm asame_fsame [OF f4] len4 new(2) c(2,1) less_imp_le [OF kM] z own us frw]
    have bm4: "bitmap_ok s4 L"
      using bm us unfolding bitmap_ok_def q by simp
    have dv: "view s4 (owned s ip j) = view s (owned s ip j)" if "j < MAXFILE" "owned s ip j \<noteq> 0" for j
    proof (rule fr)
      have dj: "data_block s L (owned s ip j)" using D(7) that by simp
      show "owned s ip j \<noteq> c" using dj c(1) unfolding data_block_def by metis
      show "owned s ip j \<notin> bitmap_blocks (sb s)" using dj by (simp add: data_block_def)
      have "owned s ip j \<noteq> owned s ip MAXFILE" using D(9) [of j MAXFILE] that by auto
      then show "owned s ip j \<noteq> ?I" by (simp add: owned_def)
    qed
    have cost: "length (log_add ?I ?bl) + log_cost s4 ip (log_add ?I ?bl) \<le> length bl + log_cost s ip bl + 1"
      using ind by (simp add: log_cost_def ia4 q length_log_add)
    have ext: "extends s L ip bl 1 s4 (log_add ?I ?bl)"
      unfolding extends_def by (intro conjI allI impI 4(2) bm4 G cost dv)
    have "view s4 c = replicate BSIZE 0" using new(6) cI by (simp add: v4)
    note v = this
    show thesis
    proof (rule that [OF new(1) s2])
      show "c = 0 \<longrightarrow> (\<exists>s3. brelse i s2 = Ok s3 \<and> (\<forall>b < unat (sb_size (sb s)). used s b) \<and>
          extends s L ip bl 0 s3 bl \<and> owned s3 ip = owned s ip)"
        by (rule impI) (rule notE [OF new(2)])
      show "c \<noteq> 0 \<longrightarrow> (\<exists>s3 s4 bl'. log_write i (set_data i ?d s2) = Ok s3 \<and>
          brelse i s3 = Ok s4 \<and> extends s L ip bl 1 s4 bl' \<and> c \<in> set bl' \<and> view s4 c = replicate BSIZE 0 \<and>
          (\<forall>j \<le> MAXFILE. owned s4 ip j = (if j = NDIRECT + k then c else owned s ip j)))"
        by (rule impI, rule exI [of _ s3], rule exI [of _ s4], rule exI [of _ "log_add ?I ?bl"])
           (use 3(1) 4(1) ext own v in simp)
    qed
  qed
qed


text \<open>
  \<open>bmap\<close> returns block \<open>bn\<close> of the file, a zeroed new one when there was none, or 0 when no block
  is free; the other blocks of the file stay where and what they are.
\<close>

lemma bmap_spec:
  fixes s ip bn
  defines "k \<equiv> unat bn"
  assumes t: "txn s L bl {}" and bm: "bitmap_ok s L" and ok: "inode_ok s ip L"
    and r: "log_room s bl (log_cost s ip bl + 2)" and kM: "k < MAXFILE"
  shows "\<exists>s' bl'. bmap ip bn s = Ok (owned s' ip k, s') \<and>
     extends s L ip bl (if owned s ip k = 0 \<and> owned s' ip k \<noteq> 0 then 1 else 0) s' bl' \<and>
     (owned s' ip k = 0 \<longrightarrow> (\<forall>b < unat (sb_size (sb s)). used s' b)) \<and>
     (\<forall>j < MAXFILE. j \<noteq> k \<longrightarrow> owned s' ip j = owned s ip j) \<and>
     (owned s ip k = 0 \<longrightarrow> owned s' ip k \<noteq> 0 \<longrightarrow>
        view s' (owned s' ip k) = replicate BSIZE 0 \<and> owned s' ip k \<in> set bl')"
proof (cases "owned s ip k = 0")
  case False
  have fb: "owned s ip k = file_block s ip (unat bn)" using kM by (simp add: owned_def k_def)
  obtain s' where 1: "bmap ip bn s = Ok (file_block s ip (unat bn), s')" "txn s' L bl {}" "view s' = view s" "fsame s s'"
    by (rule bmap_found [OF t inode_okD(2) [OF ok] kM [unfolded k_def]]) (use False fb in simp)
  note e = extends_same [OF 1(4,3,2) bm ok]
  show ?thesis using 1(1) e False fb by (intro exI [of _ s'] exI [of _ bl]) simp
next
  case z: True
  have r2: "log_room s bl 2" by (rule log_room_less [OF r]) simp
  have dev: "idev (itab s ! ip) = ROOTDEV" by (rule inode_okD(2) [OF ok])
  show ?thesis
  proof (cases "k < NDIRECT")
    case True
    then have lt: "bn < of_nat NDIRECT" by (simp add: k_def word_less_nat_alt NDIRECT_def)
    have sl: "slot_block k = k" using True by (simp add: slot_block_def)
    have z0: "iaddr ip k s = 0" using z True kM by (simp add: owned_def file_block_def)
    have e: "bmap ip bn s = addr_or_alloc ip k s" using lt by (simp add: bmap_def k_def)
    show ?thesis
    proof (cases rule: addr_or_alloc_spec [OF t bm ok r2 less_imp_le [OF True] z0, case_names full new])
      case (full s')
      note x = extends_same [OF full(5,4,3) bm ok]
      have "\<forall>b < unat (sb_size (sb s)). used s' b" using extendsD(4) [OF x(1)] full(2) growsD(2) by blast
      then show ?thesis using full(1) x z unfolding e by (intro exI [of _ s'] exI [of _ bl]) auto
    next
      case (new c s')
      let ?bl = "log_add c (log_add (BBLOCK 0 (sb s)) bl)"
      have own: "owned s' ip k = c" "\<forall>j < MAXFILE. j \<noteq> k \<longrightarrow> owned s' ip j = owned s ip j"
        using new(7) kM by (simp_all add: sl)
      have "owned s' ip MAXFILE = owned s ip MAXFILE" using new(7) kM by (simp add: sl)
      then have ia: "iaddr ip NDIRECT s' = iaddr ip NDIRECT s" by (simp add: owned_def)
      have sb': "sb s' = sb s" by (rule asame_sel(1) [OF growsD(1) [OF new(6)]])
      have cost: "length ?bl + log_cost s' ip ?bl \<le> length bl + log_cost s ip bl + 1"
        by (simp add: log_cost_def ia sb' length_log_add)
      have "extends s L ip bl 1 s' ?bl"
        unfolding extends_def using new(3-6) cost inode_data_view [OF ok new(11,9)] by simp
      then show ?thesis
        using new(1,2,8) own z unfolding e by (intro exI [of _ s'] exI [of _ ?bl]) simp
    qed
  next
    case False
    then have ge: "\<not> bn < of_nat NDIRECT" by (simp add: k_def word_less_nat_alt NDIRECT_def)
    let ?j = "k - NDIRECT"
    have j: "unat (bn - of_nat NDIRECT) = ?j"
      using False unat_sub_eq [of bn "of_nat NDIRECT"] by (simp add: k_def word_le_nat_alt NDIRECT_def)
    have jN: "?j < NINDIRECT" "NDIRECT + ?j = k" using kM False by (simp_all add: MAXFILE_def)
    then have lt: "bn - of_nat NDIRECT < of_nat NINDIRECT"
      using j by (simp add: word_less_nat_alt NINDIRECT_def BSIZE_def)
    show ?thesis
    proof (cases rule: indirect_spec [OF t bm ok r, case_names full found])
      case (full s')
      have "\<forall>b < unat (sb_size (sb s)). used s' b" using extendsD(4) [OF full(3)] full(2) growsD(2) by blast
      moreover have "bmap ip bn s = Ok (0, s')" using ge lt full(1) by (simp add: bmap_def)
      ultimately show ?thesis using full z by (intro exI [of _ s'] exI [of _ bl]) auto
    next
      case (found a s1 bl1)
      note x = extendsD [OF found(4)]
      have r1: "log_room s1 bl1 (log_cost s1 ip bl1 + 2)" using extends_room [OF found(4), of 2] r by (simp only: add_0_right)
      have z1: "owned s1 ip (NDIRECT + ?j) = 0" using found(5) kM z jN(2) by simp
      have dev1: "idev (itab s1 ! ip) = ROOTDEV" using dev asame_sel(7) [OF x(5)] by simp
      obtain i s2 where 2: "bread ROOTDEV a s1 = Ok (i, s2)" "txn s2 L bl1 {i}" "cached s2 a i"
        "buf_data i s2 = view s1 a" "view s2 = view s1" "fsame s1 s2"
        by (rule txn_bread1 [OF x(1)])
      have dev2: "idev (itab s2 ! ip) = ROOTDEV" using dev1 fsame_sel(2) [OF 2(6)] by simp
      have ind: "iaddr ip NDIRECT s1 \<noteq> 0" using found(2,3) by simp
      have ent: "get32 (buf_data i s2) (4 * ?j) = 0"
        using z1 kM False ind by (simp add: owned_def file_block_def jN(2) 2(4) found(3))
      obtain c s3 where 3: "balloc ROOTDEV s2 = Ok (c, s3)" "fsame s1 s3"
        "c = 0 \<longrightarrow> (\<exists>s4. brelse i s3 = Ok s4 \<and> (\<forall>b < unat (sb_size (sb s1)). used s1 b) \<and>
            extends s1 L ip bl1 0 s4 bl1 \<and> owned s4 ip = owned s1 ip)"
        "c \<noteq> 0 \<longrightarrow> (\<exists>s4 s5 bl'. log_write i (set_data i (put32 (4 * ?j) c (buf_data i s3)) s3) = Ok s4 \<and>
            brelse i s4 = Ok s5 \<and> extends s1 L ip bl1 1 s5 bl' \<and> c \<in> set bl' \<and> view s5 c = replicate BSIZE 0 \<and>
            (\<forall>j \<le> MAXFILE. owned s5 ip j = (if j = NDIRECT + ?j then c else owned s1 ip j)))"
        by (rule entry_spec [OF x(1-3) r1 ind jN(1) z1 2(1,2,3) [unfolded found(3)] 2(5,6)])
      have step: "bmap ip bn s = seq (if c \<noteq> 0
              then log_write i (set_data i (put32 (4 * ?j) c (buf_data i s3)) s3) else Ok s3) (\<lambda>s.
            seq (brelse i s) (\<lambda>s. Ok (c, s)))"
        using ge lt found(1,2) dev1 dev2 2(1) ent 3(1) by (simp add: bmap_def Let_def j)
      show ?thesis
      proof (cases "c = 0")
        case True
        then obtain s4 where 4: "brelse i s3 = Ok s4" "\<forall>b < unat (sb_size (sb s1)). used s1 b"
          "extends s1 L ip bl1 0 s4 bl1" "owned s4 ip = owned s1 ip" using 3(3) by blast
        have "extends s L ip bl 0 s4 bl1" using extends_trans [OF found(4) 4(3)] by simp
        moreover have "\<forall>b < unat (sb_size (sb s)). used s4 b"
          using 4(2) growsD(2) [OF extendsD(4) [OF 4(3)]] asame_sel(1) [OF x(5)] by simp
        ultimately show ?thesis
          using step True 4(1,4) z z1 jN(2) found(5) kM
          by (intro exI [of _ s4] exI [of _ bl1]) auto
      next
        case False
        then obtain s4 s5 bl' where 5: "log_write i (set_data i (put32 (4 * ?j) c (buf_data i s3)) s3) = Ok s4"
          "brelse i s4 = Ok s5" "extends s1 L ip bl1 1 s5 bl'" "c \<in> set bl'" "view s5 c = replicate BSIZE 0"
          "\<forall>j \<le> MAXFILE. owned s5 ip j = (if j = NDIRECT + ?j then c else owned s1 ip j)" using 3(4) by blast
        have "extends s L ip bl 1 s5 bl'" using extends_trans [OF found(4) 5(3)] by simp
        then show ?thesis
          using step False 5 z jN(2) found(5) kM by (intro exI [of _ s5] exI [of _ bl']) simp
      qed
    qed
  qed
qed


subsection \<open>Writing\<close>

text \<open>Byte \<open>i\<close> of the file; a block that is not there reads as zeros.\<close>

definition fdata :: "kst \<Rightarrow> nat \<Rightarrow> nat \<Rightarrow> u8" where
  "fdata s ip i = (if owned s ip (i div BSIZE) = 0 then 0 else view s (owned s ip (i div BSIZE)) ! (i mod BSIZE))"

definition wrote :: "kst \<Rightarrow> u32 \<Rightarrow> nat \<Rightarrow> nat \<Rightarrow> u8 list \<Rightarrow> kst \<Rightarrow> bool" where
  "wrote s L ip off data s' \<longleftrightarrow>
     bitmap_ok s' L \<and> inode_ok s' ip L \<and> grows ip s s' \<and>
     (\<forall>i < MAXFILE * BSIZE. fdata s' ip i =
        (if off \<le> i \<and> i < off + length data then data ! (i - off) else fdata s ip i)) \<and>
     (\<forall>i. off \<le> i \<longrightarrow> i < off + length data \<longrightarrow> owned s' ip (i div BSIZE) \<noteq> 0)"

lemma wroteD:
  assumes "wrote s L ip off data s'"
  shows "bitmap_ok s' L" "inode_ok s' ip L" "grows ip s s'" "asame ip s s'"
    "i < MAXFILE * BSIZE \<Longrightarrow> fdata s' ip i =
        (if off \<le> i \<and> i < off + length data then data ! (i - off) else fdata s ip i)"
    "off \<le> i \<Longrightarrow> i < off + length data \<Longrightarrow> owned s' ip (i div BSIZE) \<noteq> 0"
  using assms growsD(1) unfolding wrote_def by blast+

lemma block_less: "i < MAXFILE * BSIZE \<Longrightarrow> i div BSIZE < MAXFILE"
  by (simp add: less_mult_imp_div_less)

lemma block_of: "k * BSIZE \<le> i \<Longrightarrow> i < k * BSIZE + BSIZE \<Longrightarrow> i div BSIZE = k"
  by (rule div_nat_eqI) (simp_all add: mult.commute)

lemma wrote_append:
  assumes "wrote s L ip off xs t" "wrote t L ip (off + length xs) ys u" "off + length xs + length ys \<le> MAXFILE * BSIZE"
  shows "wrote s L ip off (xs @ ys) u"
proof -
  note D = wroteD [OF assms(1)] and E = wroteD [OF assms(2)]
  have "fdata u ip i = (if off \<le> i \<and> i < off + length (xs @ ys) then (xs @ ys) ! (i - off) else fdata s ip i)"
    if "i < MAXFILE * BSIZE" for i
    using D(5) [OF that] E(5) [OF that] by (auto simp: nth_append)
  moreover have "owned u ip (i div BSIZE) \<noteq> 0" if "off \<le> i" "i < off + length (xs @ ys)" for i
  proof (cases "i < off + length xs")
    case True
    have "i div BSIZE \<le> MAXFILE" using block_less [of i] assms(3) that by simp
    then show ?thesis using D(6) [OF that(1) True] growsD(3) [OF E(3)] by metis
  next
    case False
    then show ?thesis using E(6) [of i] that by simp
  qed
  ultimately show ?thesis unfolding wrote_def using E(1,2) grows_trans [OF D(3) E(3)] by blast
qed

text \<open>Storing \<open>d\<close> in block \<open>k\<close> of the file.\<close>

lemma put_block:
  assumes t: "txn s L bl {}" and bm: "bitmap_ok s L" and ok: "inode_ok s ip L" and k: "k < MAXFILE"
    and a: "owned s ip k \<noteq> 0" and v: "view s' = (view s)(owned s ip k := d)" and f: "fsame s s'"
  shows "bitmap_ok s' L" "inode_ok s' ip L" "grows ip s s'" "\<forall>j \<le> MAXFILE. owned s' ip j = owned s ip j"
    "i < MAXFILE * BSIZE \<Longrightarrow> fdata s' ip i = (if i div BSIZE = k then d ! (i mod BSIZE) else fdata s ip i)"
proof -
  note D = inode_okD [OF ok]
  note q = fsame_sel [OF f]
  let ?a = "owned s ip k"
  have da: "data_block s L ?a" using D(7) a k by simp
  have ia: "iaddr ip j s' = iaddr ip j s" for j by (simp add: iaddr_def q)
  have "?a \<noteq> iaddr ip NDIRECT s" using D(9) [of k MAXFILE] a k by (auto simp: owned_def)
  then show own: "\<forall>j \<le> MAXFILE. owned s' ip j = owned s ip j"
    by (simp add: owned_def file_block_def ia v)
  have us: "used s' b \<longleftrightarrow> used s b" if "b < unat (sb_size (sb s))" for b
    using BBLOCK_in [OF that] da by (auto simp: used_def v q data_block_def)
  have pos: "0 < unat (sb_size (sb s))" using da by (simp add: data_block_def)
  show "bitmap_ok s' L" using bm us unfolding bitmap_ok_def q by simp
  have db: "data_block s' L b = data_block s L b" for b using us by (auto simp: data_block_def q)
  show "inode_ok s' ip L"
    unfolding inode_ok_def inode_block_def q db
    using D(1-4) us [OF pos] D(5-10) own by (simp add: inode_block_def)
  have "view s' b = view s b" if "\<forall>k \<le> MAXFILE. owned s ip k \<noteq> b" for b
    using spec [OF that, of k] k by (simp add: v)
  then show "grows ip s s'"
    unfolding grows_def using asame_fsame [OF f] own us by auto
  show "fdata s' ip i = (if i div BSIZE = k then d ! (i mod BSIZE) else fdata s ip i)" if "i < MAXFILE * BSIZE"
  proof -
    have i: "i div BSIZE \<le> MAXFILE" using block_less [OF that] by simp
    then show ?thesis
      using own a D(9) [OF i, of k] k by (auto simp: fdata_def v)
  qed
qed


text \<open>The blocks a transfer of \<open>n\<close> bytes at \<open>off\<close> touches.\<close>

definition chunks :: "nat \<Rightarrow> nat \<Rightarrow> nat" where
  "chunks off n = (if n = 0 then 0 else (off + n - 1) div BSIZE - off div BSIZE + 1)"

lemma chunks_step:
  assumes "0 < n" "m = min n (BSIZE - off mod BSIZE)"
  shows "chunks off n = 1 + chunks (off + m) (n - m)"
proof -
  have b: "0 < BSIZE" by (simp add: BSIZE_def)
  have off: "off = off div BSIZE * BSIZE + off mod BSIZE" by simp
  show ?thesis
  proof (cases "n \<le> BSIZE - off mod BSIZE")
    case True
    have "off mod BSIZE < BSIZE" using b by simp
    then have "off + n - 1 = off div BSIZE * BSIZE + (off mod BSIZE + n - 1)" "off mod BSIZE + n - 1 < BSIZE"
      using assms(1) True off by linarith+
    then have "(off + n - 1) div BSIZE = off div BSIZE" by simp
    then show ?thesis using True assms by (simp add: chunks_def)
  next
    case False
    then have m: "m = BSIZE - off mod BSIZE" "m < n" using assms by simp_all
    have "off mod BSIZE < BSIZE" using b by simp
    moreover have "(off div BSIZE + 1) * BSIZE = off div BSIZE * BSIZE + BSIZE" by simp
    ultimately have "off + m = (off div BSIZE + 1) * BSIZE" using m(1) off by linarith
    then have d: "(off + m) div BSIZE = off div BSIZE + 1" using b by simp
    have "(off + m) div BSIZE \<le> (off + n - 1) div BSIZE" using m(2) by (intro div_le_mono) simp
    then show ?thesis using assms(1) m(2) d by (simp add: chunks_def)
  qed
qed

text \<open>Replacing the bytes \<open>bs\<close> at \<open>off\<close> within one block.\<close>

lemma splice_block:
  assumes "off mod BSIZE + length bs \<le> BSIZE" "length d = BSIZE" "i div BSIZE = off div BSIZE"
  shows "(take (off mod BSIZE) d @ bs @ drop (off mod BSIZE + length bs) d) ! (i mod BSIZE) =
    (if off \<le> i \<and> i < off + length bs then bs ! (i - off) else d ! (i mod BSIZE))"
proof -
  have e: "i = i div BSIZE * BSIZE + i mod BSIZE" "off = i div BSIZE * BSIZE + off mod BSIZE"
    using assms(3) by (metis div_mult_mod_eq)+
  have lt: "i mod BSIZE < BSIZE" by (simp add: BSIZE_def)
  have "off \<le> i \<longleftrightarrow> off mod BSIZE \<le> i mod BSIZE" "i < off + length bs \<longleftrightarrow> i mod BSIZE < off mod BSIZE + length bs"
    "i - off = i mod BSIZE - off mod BSIZE" using e by linarith+
  then show ?thesis using assms(1,2) lt by (auto simp: nth_append)
qed

text \<open>Changing the size and writing the inode back.\<close>

definition resized :: "nat \<Rightarrow> kst \<Rightarrow> u32 \<Rightarrow> kst" where
  "resized ip s n = (if d_size (idata (itab s ! ip)) < n then upd_idata ip (\<lambda>d. d\<lparr>d_size := n\<rparr>) s else s)"

lemma resized_sel:
  "view (resized ip s n) = view s" "sb (resized ip s n) = sb s" "lg (resized ip s n) = lg s" "ph (resized ip s n) = ph s"
  "txn (resized ip s n) L bl H = txn s L bl H" "log_room (resized ip s n) bl k = log_room s bl k"
  "length (itab (resized ip s n)) = length (itab s)" "sch (resized ip s n) = sch s"
  by (simp_all add: resized_def upd_idata_def log_room_def)

lemma resized_inode:
  assumes "ip < length (itab s)"
  shows "idev (itab (resized ip s n) ! ip) = idev (itab s ! ip)" "inum (itab (resized ip s n) ! ip) = inum (itab s ! ip)"
    "d_addrs (idata (itab (resized ip s n) ! ip)) = d_addrs (idata (itab s ! ip))"
    "unat (d_size (idata (itab (resized ip s n) ! ip))) = max (unat (d_size (idata (itab s ! ip)))) (unat n)"
  using assms by (simp_all add: resized_def upd_idata_def word_less_nat_alt)

lemma flush_inode:
  fixes s ip n
  defines "t \<equiv> resized ip s n"
  assumes t: "txn s L bl {}" and bm: "bitmap_ok s L" and ok: "inode_ok s ip L" and r: "log_room s bl 1"
  obtains s' where "iupdate ip t = Ok s'" "txn s' L (log_add (inode_block s ip) bl) {}" "bitmap_ok s' L" "inode_ok s' ip L"
    "\<forall>j \<le> MAXFILE. owned s' ip j = owned s ip j" "\<forall>b. b \<noteq> inode_block s ip \<longrightarrow> view s' b = view s b"
    "\<forall>d < unat (sb_size (sb s)). used s' d = used s d" "itab s' = itab t" "sb s' = sb s"
    "\<forall>m. IBLOCK m (sb s) = inode_block s ip \<longrightarrow>
       inode_on s' m = (if m = inum (itab s ! ip) then idata (itab s' ! ip) else inode_on s m)"
    "\<forall>i < MAXFILE * BSIZE. fdata s' ip i = fdata s ip i"
proof -
  note D = inode_okD [OF ok]
  note R = resized_sel [of ip s n, folded t_def] and I = resized_inode [OF D(1), of n, folded t_def]
  let ?B = "inode_block s ip"
  have B: "IBLOCK (inum (itab t ! ip)) (sb t) = ?B" by (simp add: inode_block_def R I)
  have t1: "txn t L bl {}" "log_room t bl 1" "idev (itab t ! ip) = ROOTDEV"
    "length (d_addrs (idata (itab t ! ip))) = Suc NDIRECT" "IBLOCK (inum (itab t ! ip)) (sb t) \<notin> log_area L"
    using t r D(2,3,6) unfolding B by (simp_all add: R I data_block_def)
  obtain s' where 1: "iupdate ip t = Ok s'" "txn s' L (log_add ?B bl) {}"
    "view s' = (view t)(?B := put_dinode (inode_slot (inum (itab t ! ip))) (idata (itab t ! ip)) (view t ?B))" "fsame t s'"
    by (rule iupdate_spec [OF t1, unfolded B])
  note q = fsame_sel [OF 1(4)]
  have v: "view s' b = view s b" if "b \<noteq> ?B" for b using that 1(3) by (simp add: R)
  have ia: "iaddr ip j s' = iaddr ip j s" for j by (simp add: iaddr_def q I)
  have nB: "owned s ip j \<noteq> ?B" if "j \<le> MAXFILE" "owned s ip j \<noteq> 0" for j by (rule D(8) [OF that])
  have own: "owned s' ip j = owned s ip j" if "j \<le> MAXFILE" for j
    using nB [of MAXFILE] v by (simp add: owned_def file_block_def ia)
  have us: "used s' d = used s d" if "d < unat (sb_size (sb s))" for d
  proof -
    have "BBLOCK (of_nat d) (sb s) \<noteq> ?B" using BBLOCK_in [OF that] D(6) unfolding data_block_def by metis
    then show ?thesis using v by (simp add: used_def q R)
  qed
  have db: "data_block s' L b = data_block s L b" for b using us by (auto simp: data_block_def q R)
  have ib: "inode_block s' ip = ?B" by (simp add: inode_block_def q R I)
  have pos: "0 < unat (sb_size (sb s))" using D(6) by (simp add: data_block_def)
  have iok: "inode_ok s' ip L"
    unfolding inode_ok_def db ib q R
    using D(1-3) D(4) us [OF pos] D(5-10) own by (simp add: I R)
  have bok: "bitmap_ok s' L" using bm us unfolding bitmap_ok_def q R by simp
  have fd: "fdata s' ip i = fdata s ip i" if "i < MAXFILE * BSIZE" for i
    using block_less [OF that] own nB [of "i div BSIZE"] v by (auto simp: fdata_def)
  have on: "inode_on s' m = (if m = inum (itab s ! ip) then idata (itab s' ! ip) else inode_on s m)"
    if "IBLOCK m (sb s) = ?B" for m
    using iupdate_inode_on [of s' t "inum (itab t ! ip)" "idata (itab t ! ip)" m, unfolded B]
      1(3) t1(4) q I(2) R txn_length_view [OF t] by (simp add: inode_on_def)
  show ?thesis
    by (rule that [OF 1(1,2) bok iok]) (use own v us q R on fd in simp_all)
qed

text \<open>
  \<open>writei\<close>: a bad range is refused.
\<close>

lemma writei_rejects:
  assumes "unat (d_size (idata (itab s ! ip))) < unat off \<or> MAXFILE * BSIZE < unat off + unat n"
  shows "writei ip src off n s = Ok (-1, s)"
proof (cases "d_size (idata (itab s ! ip)) < off \<or> off + n < off")
  case False
  have "\<not> off + n < off" using False by simp
  then have "unat off + unat n < 2 ^ 32" using no_olen_add_nat [of off n] by (simp add: not_less)
  then have "unat (off + n) = unat off + unat n" by (rule unat_add_u32)
  then have "of_nat (MAXFILE * BSIZE) < off + n"
    using assms False by (auto simp: word_less_nat_alt MAXFILE_def BSIZE_def NDIRECT_def NINDIRECT_def)
  then show ?thesis by (simp add: writei_def)
qed (simp add: writei_def)

text \<open>The contract of a place bytes come from.\<close>

locale feed =
  fixes holds_data :: "source \<Rightarrow> u8 list \<Rightarrow> kst \<Rightarrow> bool"
  assumes copy: "holds_data src (bs @ cs) s \<Longrightarrow> either_copyin src (length bs) s = Ok (0, bs)"
    and rest: "holds_data src (bs @ cs) s \<Longrightarrow> holds_data (consume src (length bs)) cs s"
    and steady: "holds_data src bs s \<Longrightarrow> ph s' = ph s \<Longrightarrow> same_procs (sch s) (sch s') \<Longrightarrow> holds_data src bs s'"
begin

lemma writei_loop_spec:
  assumes "txn s L bl {}" "bitmap_ok s L" "inode_ok s ip L" "tot \<le> n" "unat off + (n - tot) \<le> MAXFILE * BSIZE"
    "log_room s bl (log_cost s ip bl + chunks (unat off) (n - tot) + 1)" "length data = n - tot" "holds_data src data s"
  shows "\<exists>j s' bl'. writei_loop ip src off tot n s = Ok (tot + j, off + of_nat j, s') \<and> j \<le> n - tot \<and>
    txn s' L bl' {} \<and> log_room s' bl' 1 \<and> wrote s L ip (unat off) (take j data) s' \<and>
    (j < n - tot \<longrightarrow> (\<forall>b < unat (sb_size (sb s)). used s' b))"
  using assms
proof (induction "n - tot" arbitrary: src off tot s bl data rule: less_induct)
  case less
  show ?case
  proof (cases "n \<le> tot")
    case True
    then have z: "n - tot = 0" by simp
    have w: "wrote s L ip (unat off) [] s"
      unfolding wrote_def using less.prems(2,3) grows_refl [OF inode_okD(1) [OF less.prems(3)]] by auto
    have r: "log_room s bl 1" by (rule log_room_less [OF less.prems(6)]) simp
    show ?thesis
      using True z w r less.prems(1)
      by (intro exI [of _ 0] exI [of _ s] exI [of _ bl]) (simp add: writei_loop.simps)
  next
    case False
    let ?o = "unat off" and ?m = "block_chunk off (n - tot)" and ?bn = "off div of_nat BSIZE"
    let ?k = "unat off div BSIZE" let ?bs = "take ?m data"
    have bn: "unat ?bn = ?k" by (simp add: unat_div_distrib BSIZE_def)
    have m: "0 < ?m" "?m \<le> n - tot" "?m = min (n - tot) (BSIZE - ?o mod BSIZE)"
      using block_chunk_pos [of "n - tot" off] block_chunk_le [of off "n - tot"] False by (simp_all add: block_chunk_def)
    have lb: "length ?bs = ?m" using less.prems(7) m(2) by simp
    have kM: "?k < MAXFILE" using block_less [of ?o] less.prems(5) False by linarith
    have ch: "chunks ?o (n - tot) = 1 + chunks (?o + ?m) (n - (tot + ?m))"
      using chunks_step [OF _ m(3)] False by simp
    have r: "log_room s bl (log_cost s ip bl + 2)" by (rule log_room_less [OF less.prems(6)]) (simp add: ch)
    obtain s1 bl1 where 1: "bmap ip ?bn s = Ok (owned s1 ip ?k, s1)"
      "extends s L ip bl (if owned s ip ?k = 0 \<and> owned s1 ip ?k \<noteq> 0 then 1 else 0) s1 bl1"
      "owned s1 ip ?k = 0 \<longrightarrow> (\<forall>b < unat (sb_size (sb s)). used s1 b)"
      "\<forall>j < MAXFILE. j \<noteq> ?k \<longrightarrow> owned s1 ip j = owned s ip j"
      "owned s ip ?k = 0 \<longrightarrow> owned s1 ip ?k \<noteq> 0 \<longrightarrow> view s1 (owned s1 ip ?k) = replicate BSIZE 0 \<and> owned s1 ip ?k \<in> set bl1"
      using bmap_spec [OF less.prems(1-3) r, of ?bn] kM unfolding bn by blast
    note x = extendsD [OF 1(2)]
    have fd: "fdata s1 ip i = fdata s ip i" if "i < MAXFILE * BSIZE" for i
    proof -
      have i: "i div BSIZE < MAXFILE" by (rule block_less [OF that])
      have z: "replicate BSIZE 0 ! (i mod BSIZE) = (0 :: u8)" by (simp add: BSIZE_def)
      show ?thesis
      proof (cases "owned s ip (i div BSIZE) = 0")
        case False
        then show ?thesis using x(6) [OF i] x(8) [of "i div BSIZE"] i by (simp add: fdata_def)
      next
        case True
        then show ?thesis using 1(4,5) i z by (cases "i div BSIZE = ?k") (auto simp: fdata_def)
      qed
    qed
    have w1: "wrote s L ip ?o [] s1" unfolding wrote_def using x(2-4) fd by auto
    show ?thesis
    proof (cases "owned s1 ip ?k = 0")
      case True
      have e: "writei_loop ip src off tot n s = Ok (tot, off, s1)"
        using False 1(1) True by (subst writei_loop.simps) simp
      have r1: "log_room s1 bl1 1"
        using log_room_length [OF less.prems(6), of bl1 1] x(7) True log_room_asame [OF x(5)] by simp
      have all: "\<forall>b < unat (sb_size (sb s)). used s1 b" using 1(3) True by simp
      show ?thesis
        using e x(1) r1 w1 all by (intro exI [of _ 0] exI [of _ s1] exI [of _ bl1]) simp
    next
      case nz: False
      let ?a = "owned s1 ip ?k" and ?o1 = "?o mod BSIZE"
      have dev1: "idev (itab s1 ! ip) = ROOTDEV" by (rule inode_okD(2) [OF x(3)])
      obtain i s2 where 2: "bread ROOTDEV ?a s1 = Ok (i, s2)" "txn s2 L bl1 {i}" "cached s2 ?a i"
        "buf_data i s2 = view s1 ?a" "view s2 = view s1" "fsame s1 s2"
        by (rule txn_bread1 [OF x(1)])
      note f2 = fsame_sel [OF 2(6)]
      have split: "data = ?bs @ drop ?m data" by simp
      have "ph s2 = ph s" "same_procs (sch s) (sch s2)"
        using f2 asame_sel(2,5) [OF x(5)] same_procs_trans by metis+
      then have hold: "holds_data src (?bs @ drop ?m data) s2" using steady [OF less.prems(8)] by simp
      have cp: "either_copyin src ?m s2 = Ok (0, ?bs)" using copy [OF hold] unfolding lb .
      let ?d = "take ?o1 (view s1 ?a) @ ?bs @ drop (?o1 + ?m) (view s1 ?a)"
      have "?o1 < BSIZE" by (simp add: BSIZE_def)
      then have fit: "?o1 + length ?bs \<le> BSIZE" using m(3) lb by linarith
      have lenv: "length (view s1 ?a) = BSIZE" by (rule txn_length_view [OF x(1)])
      have len: "length ?d = BSIZE" using fit lb lenv by simp
      have area: "?a \<notin> log_area L" using inode_okD(7) [OF x(3), of ?k] nz kM by (simp add: data_block_def)
      have r2: "log_room s2 bl1 1"
        using log_room_length [OF less.prems(6), of bl1 1] x(7) ch log_room_asame [OF x(5)] log_room_same [OF 2(6)]
        by (simp split: if_splits)
      obtain s3 where 3: "log_write i (set_data i ?d s2) = Ok s3" "txn s3 L (log_add ?a bl1) {i}"
        "view s3 = (view s2)(?a := ?d)" "fsame s2 s3"
        by (rule txn_put1 [OF 2(2,3) len area r2])
      obtain s4 where 4: "brelse i s3 = Ok s4" "txn s4 L (log_add ?a bl1) {}" "view s4 = view s3" "fsame s3 s4"
        by (rule txn_brelse1 [OF 3(2)])
      have v4: "view s4 = (view s1)(?a := ?d)" using 4(3) 3(3) 2(5) by simp
      have f4: "fsame s1 s4" by (rule fsame_trans [OF 2(6) fsame_trans [OF 3(4) 4(4)]])
      note P = put_block [OF x(1-3) kM nz v4 f4]
      have fd4: "fdata s4 ip i = (if ?o \<le> i \<and> i < ?o + length ?bs then ?bs ! (i - ?o) else fdata s1 ip i)"
        if "i < MAXFILE * BSIZE" for i
      proof (cases "i div BSIZE = ?k")
        case True
        have "fdata s4 ip i = ?d ! (i mod BSIZE)" using P(5) [OF that] unfolding if_P [OF True] .
        moreover have "fdata s1 ip i = view s1 ?a ! (i mod BSIZE)" using nz True by (simp add: fdata_def)
        ultimately show ?thesis using splice_block [OF fit lenv True] unfolding lb by (simp only:)
      next
        case False
        have out: "\<not> (?o \<le> i \<and> i < ?o + length ?bs)"
        proof
          assume i: "?o \<le> i \<and> i < ?o + length ?bs"
          have "?o = ?k * BSIZE + ?o1" by simp
          then have "?k * BSIZE \<le> i" "i < ?k * BSIZE + BSIZE" using i fit by linarith+
          then have "i div BSIZE = ?k" by (rule block_of)
          then show False using False by simp
        qed
        show ?thesis using P(5) [OF that] unfolding if_not_P [OF out] if_not_P [OF False] .
      qed
      have own4: "owned s4 ip (i div BSIZE) \<noteq> 0" if "?o \<le> i" "i < ?o + length ?bs" for i
      proof -
        have "?o = ?k * BSIZE + ?o1" by simp
        then have "?k * BSIZE \<le> i" "i < ?k * BSIZE + BSIZE" using that fit by linarith+
        then have "i div BSIZE = ?k" by (rule block_of)
        then show ?thesis using P(4) kM nz by simp
      qed
      have w4: "wrote s L ip ?o ?bs s4"
      proof -
        have "wrote s1 L ip (?o + length []) ?bs s4" unfolding wrote_def using P(1-3) fd4 own4 by simp
        then show ?thesis using wrote_append [OF w1] less.prems(5) lb m(2) by simp
      qed
      let ?bl = "log_add ?a bl1" and ?off = "off + of_nat ?m"
      have off': "unat ?off = ?o + ?m"
      proof (rule trans [OF unat_add_u32])
        show "?o + unat (of_nat ?m :: u32) < 2 ^ 32" "?o + unat (of_nat ?m :: u32) = ?o + ?m"
          using less.prems(5) m(2) by (simp_all add: MAXFILE_def BSIZE_def NDIRECT_def NINDIRECT_def)
      qed
      have cost: "length ?bl + log_cost s4 ip ?bl \<le> length bl + log_cost s ip bl + 1"
      proof -
        have "iaddr ip NDIRECT s4 = iaddr ip NDIRECT s1" "sb s4 = sb s1" by (simp_all add: iaddr_def fsame_sel [OF f4])
        then have "length ?bl + log_cost s4 ip ?bl \<le> length bl1 + log_cost s1 ip bl1 + (if ?a \<in> set bl1 then 0 else 1)"
          by (simp add: log_cost_def length_log_add)
        then show ?thesis using x(7) 1(5) nz by (auto split: if_splits)
      qed
      have room: "length ?bl + (log_cost s4 ip ?bl + chunks (?o + ?m) (n - (tot + ?m)) + 1) \<le>
          length bl + (log_cost s ip bl + chunks ?o (n - tot) + 1)" using cost ch by linarith
      have dec: "n - (tot + ?m) < n - tot" using m(1) False by linarith
      have "ph s4 = ph s2" "same_procs (sch s2) (sch s4)"
        using fsame_sel [OF fsame_trans [OF 3(4) 4(4)]] by simp_all
      then have hold4: "holds_data (consume src ?m) (drop ?m data) s4"
        using steady [OF rest [OF hold]] unfolding lb by blast
      have p: "tot + ?m \<le> n" "unat ?off + (n - (tot + ?m)) \<le> MAXFILE * BSIZE"
        "log_room s4 ?bl (log_cost s4 ip ?bl + chunks (unat ?off) (n - (tot + ?m)) + 1)"
        "length (drop ?m data) = n - (tot + ?m)"
        using m(2) less.prems(4,5,7) off' log_room_length [OF less.prems(6) room]
          log_room_asame [OF x(5)] log_room_same [OF f4] False by simp_all
      obtain j s' bl' where IH: "writei_loop ip (consume src ?m) ?off (tot + ?m) n s4 = Ok (tot + ?m + j, ?off + of_nat j, s')"
        "j \<le> n - (tot + ?m)" "txn s' L bl' {}" "log_room s' bl' 1" "wrote s4 L ip (unat ?off) (take j (drop ?m data)) s'"
        "j < n - (tot + ?m) \<longrightarrow> (\<forall>b < unat (sb_size (sb s4)). used s' b)"
        using less.hyps [OF dec 4(2) P(1,2) p hold4] by (elim exE conjE)
      have step: "writei_loop ip src off tot n s = writei_loop ip (consume src ?m) ?off (tot + ?m) n s4"
        using False 1(1) nz dev1 2(1) 2(4) cp lb 3(1) 4(1)
        by (subst writei_loop.simps) (simp add: Let_def)
      have all: "take (?m + j) data = ?bs @ take j (drop ?m data)" by (simp add: take_add)
      have ljn: "?o + length ?bs + length (take j (drop ?m data)) \<le> MAXFILE * BSIZE"
      proof -
        have "length (take j (drop ?m data)) \<le> j" by simp
        then show ?thesis using less.prems(5) lb IH(2) m(2) by linarith
      qed
      have w: "wrote s L ip ?o (take (?m + j) data) s'"
        unfolding all by (rule wrote_append [OF w4 _ ljn]) (use IH(5) off' lb in simp)
      have sbs: "sb s4 = sb s" using fsame_sel(1) [OF f4] asame_sel(1) [OF x(5)] by simp
      show ?thesis
        using IH(1,2,3,4,6) step w m(2) sbs
        by (intro exI [of _ "?m + j"] exI [of _ s'] exI [of _ bl']) (auto simp: add.assoc)
    qed
  qed
qed

lemma writei_spec:
  fixes s ip off n
  defines "at \<equiv> unat off" and "fsz \<equiv> unat (d_size (idata (itab s ! ip)))"
  assumes t: "txn s L bl {}" and bm: "bitmap_ok s L" and ok: "inode_ok s ip L"
    and r: "log_room s bl (log_cost s ip bl + chunks at (unat n) + 1)"
    and rng: "at \<le> fsz" "at + unat n \<le> MAXFILE * BSIZE"
    and src: "length data = unat n" "holds_data src data s"
  shows "\<exists>j s' bl'. writei ip src off n s = Ok (int j, s') \<and> j \<le> unat n \<and>
    (j < unat n \<longrightarrow> (\<forall>b < unat (sb_size (sb s)). used s' b)) \<and>
    txn s' L bl' {} \<and> bitmap_ok s' L \<and> inode_ok s' ip L \<and>
    unat (d_size (idata (itab s' ! ip))) = max fsz (at + j) \<and>
    (\<forall>i < MAXFILE * BSIZE. fdata s' ip i = (if at \<le> i \<and> i < at + j then data ! (i - at) else fdata s ip i)) \<and>
    (\<forall>i. at \<le> i \<longrightarrow> i < at + j \<longrightarrow> owned s' ip (i div BSIZE) \<noteq> 0) \<and>
    (\<forall>m. IBLOCK m (sb s) = inode_block s ip \<longrightarrow>
       inode_on s' m = (if m = inum (itab s ! ip) then idata (itab s' ! ip) else inode_on s m)) \<and>
    (\<forall>b. data_block s L b \<longrightarrow> b \<noteq> inode_block s ip \<longrightarrow> (\<forall>k \<le> MAXFILE. owned s ip k \<noteq> b) \<longrightarrow>
       view s' b = view s b \<and> used s' (unat b)) \<and>
    (\<forall>k \<le> MAXFILE. owned s ip k \<noteq> 0 \<longrightarrow> owned s' ip k = owned s ip k) \<and> idev (itab s' ! ip) = ROOTDEV \<and>
    (\<exists>d. itab s' = (itab s)[ip := (itab s ! ip)\<lparr>idata := d\<rparr>] \<and> d_type d = d_type (idata (itab s ! ip)))"
proof -
  have big: "MAXFILE * BSIZE < 2 ^ 32" by (simp add: MAXFILE_def BSIZE_def NDIRECT_def NINDIRECT_def)
  have sum: "unat (off + n) = at + unat n" unfolding at_def by (rule unat_add_u32) (use rng(2) big in \<open>simp add: at_def\<close>)
  have go: "\<not> (d_size (idata (itab s ! ip)) < off \<or> off + n < off)" "\<not> of_nat (MAXFILE * BSIZE) < off + n"
    using rng sum big by (simp_all add: word_less_nat_alt at_def fsz_def MAXFILE_def BSIZE_def NDIRECT_def NINDIRECT_def)
  have pre: "0 \<le> unat n" "unat off + (unat n - 0) \<le> MAXFILE * BSIZE"
    "log_room s bl (log_cost s ip bl + chunks (unat off) (unat n - 0) + 1)" "length data = unat n - 0"
    using r rng(2) src(1) by (simp_all add: at_def)
  obtain j s1 bl1 where 1: "writei_loop ip src off 0 (unat n) s = Ok (0 + j, off + of_nat j, s1)" "j \<le> unat n - 0"
    "txn s1 L bl1 {}" "log_room s1 bl1 1" "wrote s L ip (unat off) (take j data) s1"
    "j < unat n - 0 \<longrightarrow> (\<forall>b < unat (sb_size (sb s)). used s1 b)"
    using writei_loop_spec [OF t bm ok pre src(2)] by (elim exE conjE)
  note W = wroteD [OF 1(5)]
  have lj: "length (take j data) = j" using 1(2) src(1) by simp
  have off': "unat (off + of_nat j) = at + j"
    unfolding at_def
  proof (rule trans [OF unat_add_u32])
    have "at + j \<le> MAXFILE * BSIZE" using rng(2) 1(2) by simp
    then show "unat off + unat (of_nat j :: u32) < 2 ^ 32" "unat off + unat (of_nat j :: u32) = unat off + j"
      using big by (simp_all add: at_def)
  qed
  let ?t = "resized ip s1 (off + of_nat j)"
  obtain s2 where 2: "iupdate ip ?t = Ok s2" "txn s2 L (log_add (inode_block s1 ip) bl1) {}" "bitmap_ok s2 L" "inode_ok s2 ip L"
    "\<forall>j \<le> MAXFILE. owned s2 ip j = owned s1 ip j" "\<forall>b. b \<noteq> inode_block s1 ip \<longrightarrow> view s2 b = view s1 b"
    "\<forall>d < unat (sb_size (sb s1)). used s2 d = used s1 d" "itab s2 = itab ?t" "sb s2 = sb s1"
    "\<forall>m. IBLOCK m (sb s1) = inode_block s1 ip \<longrightarrow>
       inode_on s2 m = (if m = inum (itab s1 ! ip) then idata (itab s2 ! ip) else inode_on s1 m)"
    "\<forall>i < MAXFILE * BSIZE. fdata s2 ip i = fdata s1 ip i"
    by (rule flush_inode [OF 1(3) W(1,2) 1(4)])
  note A = asame_sel [OF W(4)] and G = growsD [OF W(3)]
  have e: "writei ip src off n s = Ok (int j, s2)"
    unfolding writei_def if_not_P [OF go(1)] if_not_P [OF go(2)] using 1(1) 2(1) by (simp add: resized_def Let_def)
  have size': "unat (d_size (idata (itab s2 ! ip))) = max fsz (at + j)"
    using resized_inode(4) [OF inode_okD(1) [OF W(2)], of "off + of_nat j"] A(9) off' by (simp add: 2(8) fsz_def)
  have fd: "fdata s2 ip i = (if at \<le> i \<and> i < at + j then data ! (i - at) else fdata s ip i)" if "i < MAXFILE * BSIZE" for i
    using 2(11) that W(5) [OF that] lj by (simp add: at_def) (use 1(2) src(1) in auto)
  have own: "owned s2 ip (i div BSIZE) \<noteq> 0" if "at \<le> i" "i < at + j" for i
  proof -
    have "i div BSIZE \<le> MAXFILE" using block_less [of i] rng(2) 1(2) that by simp
    then show ?thesis using 2(5) W(6) [of i] that lj by (simp add: at_def)
  qed
  have ib: "view s1 (inode_block s ip) = view s (inode_block s ip)"
  proof (rule G(5))
    show "\<And>k. k \<le> MAXFILE \<Longrightarrow> owned s ip k \<noteq> inode_block s ip"
      using inode_okD(8,10) [OF ok] by metis
  qed (use inode_okD(6) [OF ok] in \<open>simp_all add: data_block_def\<close>)
  have on: "inode_on s2 m = (if m = inum (itab s ! ip) then idata (itab s2 ! ip) else inode_on s m)"
    if "IBLOCK m (sb s) = inode_block s ip" for m
  proof -
    have "inode_on s1 m = inode_on s m" unfolding inode_on_def A(1) that ib ..
    then show ?thesis using 2(10) that A(1,8,13) by simp
  qed
  have fr: "view s2 b = view s b \<and> used s2 (unat b)"
    if "data_block s L b" "b \<noteq> inode_block s ip" "\<forall>k \<le> MAXFILE. owned s ip k \<noteq> b" for b
    using G(5) [of b] G(2) [of "unat b"] that 2(6,7) A(1,13) by (auto simp: data_block_def)
  have kp: "owned s2 ip k = owned s ip k" if "k \<le> MAXFILE" "owned s ip k \<noteq> 0" for k
    using 2(5) G(3) [OF that] that by simp
  have all: "\<forall>b < unat (sb_size (sb s)). used s2 b" if "j < unat n" using 1(6) that 2(7) A(1) by simp
  have it: "\<exists>d. itab s2 = (itab s)[ip := (itab s ! ip)\<lparr>idata := d\<rparr>] \<and> d_type d = d_type (idata (itab s ! ip))"
    using W(4) inode_okD(1) [OF ok] unfolding 2(8) asame_def by (auto simp: resized_def upd_idata_def)
  show ?thesis
    using 1(2) 2(2-4) all size' fd own on fr kp inode_okD(2) [OF 2(4)] it
    by (intro exI [of _ j] exI [of _ s2] exI [of _ "log_add (inode_block s1 ip) bl1"] conjI e) simp_all
qed

end


text \<open>A local variable supplies its bytes; user memory supplies what it holds.\<close>

definition local_data :: "source \<Rightarrow> u8 list \<Rightarrow> kst \<Rightarrow> bool" where
  "local_data src data s \<longleftrightarrow> (\<exists>r. src = LocalSrc (data @ r))"

interpretation local_feed: feed local_data
  by unfold_locales (auto simp: local_data_def either_copyin_def)

definition user_data :: "source \<Rightarrow> u8 list \<Rightarrow> kst \<Rightarrow> bool" where
  "user_data src data s \<longleftrightarrow> running s \<and> (\<exists>va ps B. src = UserSrc va \<and> space_inv (ph s) (user_pt s) ps B \<and>
     (\<forall>i < length data. user_byte (pmem (ph s)) (user_pt s) (va + of_nat i) = Some (data ! i)))"

interpretation user_feed: feed user_data
proof
  fix src s and bs cs :: "u8 list"
  assume "user_data src (bs @ cs) s"
  then obtain va ps B where u: "running s" "src = UserSrc va" "space_inv (ph s) (user_pt s) ps B"
    "\<forall>i < length (bs @ cs). user_byte (pmem (ph s)) (user_pt s) (va + of_nat i) = Some ((bs @ cs) ! i)"
    unfolding user_data_def by blast
  have "map (\<lambda>i. user_byte (pmem (ph s)) (user_pt s) (va + of_nat i)) [0..<length bs] = map Some bs"
    by (rule nth_equalityI) (use u(4) in \<open>simp_all add: nth_append\<close>)
  then have "copyin (user_pt s) va (length bs) (ph s) = Ok (0, bs)"
    unfolding copyin_spec [OF u(3)] by (simp add: takeWhile_eq_all_conv [THEN iffD2] o_def)
  moreover have "my_pagetable s = Ok (user_pt s)"
    using u(1) by (auto simp: my_pagetable_def me_def user_pt_def running_def)
  ultimately show "either_copyin src (length bs) s = Ok (0, bs)" by (simp add: either_copyin_def u(2))
  have "user_byte (pmem (ph s)) (user_pt s) (va + of_nat (length bs) + of_nat i) = Some (cs ! i)" if "i < length cs" for i
    using spec [OF u(4), of "length bs + i"] that by (simp add: add.assoc)
  then show "user_data (consume src (length bs)) cs s"
    unfolding user_data_def u(2) using u(1,3) by auto
next
  show "user_data src bs s'" if "user_data src bs s" "ph s' = ph s" "same_procs (sch s) (sch s')" for src bs s s'
    using that same_procs_user [OF that(3)] by (auto simp: user_data_def)
qed


subsection \<open>The concrete file system\<close>

lemma demo_inode0:
  "itab demo_fsu ! 0 = \<lparr>idev = ROOTDEV, inum = 1, iref = 1, ilk = initsleeplock, ivalid = True, idata = demo_inode\<rparr>"
  "length (itab demo_fsu) = NINODE"
  by (simp_all add: demo_fsu_ok(8) demo_fs_def NINODE_def)

lemma demo_owned: "k \<le> MAXFILE \<Longrightarrow> owned demo_fsu 0 k = (if k = 0 then 46 else 0)"
  by (auto simp: owned_def file_block_def iaddr_def demo_inode0 demo_inode_def NDIRECT_def MAXFILE_def nth_Cons')

lemma demo_used_fsu: "b < 2000 \<Longrightarrow> used demo_fsu b \<longleftrightarrow> b < 48"
  using demo_used [of b] by (simp add: used_def demo_fsu_ok(3,4) demo_fs_txn(3,4))

lemma demo_bitmap: "bitmap_ok demo_fsu 2" "bitmap_blocks zero_sb = {44}"
proof -
  have u: "used demo_fsu = used demo_fs" by (simp add: used_def demo_fsu_ok(3,4) demo_fs_txn(3,4) fun_eq_iff)
  show "bitmap_ok demo_fsu 2"
    using demo_bitmap_ok unfolding bitmap_ok_def u demo_fsu_ok(4) demo_fs_txn(4) .
  have "BBLOCK (of_nat b) zero_sb = 44" if "b < 2000" for b
    using BBLOCK_eq [of b 0 zero_sb] that by (simp add: BPB_def BSIZE_def BBLOCK_def zero_sb_def)
  then show "bitmap_blocks zero_sb = {44}"
    unfolding bitmap_blocks_def by (auto simp: zero_sb_def intro!: image_eqI [of _ _ 0])
qed

lemma demo_inode_ok: "inode_ok demo_fsu 0 2"
proof -
  have db: "data_block demo_fsu 2 b" if "18 \<le> unat b" "unat b < 48" "b \<noteq> 44" for b
    using that demo_used_fsu [of "unat b"] demo_area [of b]
    by (simp add: data_block_def demo_fsu_ok(4) demo_bitmap(2)) (simp add: zero_sb_def)
  have ib: "inode_block demo_fsu 0 = 18"
    by (simp add: inode_block_def demo_inode0 demo_fsu_ok(4) IBLOCK_def zero_sb_def IPB_def BSIZE_def)
  have "used demo_fsu 0" using demo_used_fsu [of 0] by simp
  then show ?thesis
    unfolding inode_ok_def ib
    using db [of 18] db [of 46] demo_owned
    by (auto simp: demo_inode0 NINODE_def demo_inode_def demo_fsu_ok(4) zero_sb_def BPB_def BSIZE_def NDIRECT_def)
qed

lemma demo_log_cost: "log_cost demo_fsu 0 [] = 2"
  by (simp add: log_cost_def)

subsection \<open>Properties\<close>

text \<open>
  C2: \<open>writei\<close> of \<open>n\<close> bytes of user memory at an offset within the file, in a transaction with
  room for its blocks, writes the first \<open>j\<close> of them: all, unless no block of the disk is free.
  Exactly those bytes of the file change, its size grows to cover them, missing blocks are
  allocated, the inode is written back, and no block of another file changes. A range that
  starts past the end or ends past the largest size is refused.
\<close>

theorem writei_writes_file:
  assumes "txn s L bl {}" "bitmap_ok s L" "inode_ok s ip L"
    "log_room s bl (log_cost s ip bl + chunks (unat off) (unat n) + 1)"
    "running s" "space_inv (ph s) (user_pt s) ps B" "length data = unat n"
    "\<forall>i < unat n. user_byte (pmem (ph s)) (user_pt s) (va + of_nat i) = Some (data ! i)"
  shows "if unat (d_size (idata (itab s ! ip))) < unat off \<or> MAXFILE * BSIZE < unat off + unat n
    then writei ip (UserSrc va) off n s = Ok (-1, s)
    else \<exists>j s' bl'. writei ip (UserSrc va) off n s = Ok (int j, s') \<and> j \<le> unat n \<and>
      (j < unat n \<longrightarrow> (\<forall>b < unat (sb_size (sb s)). used s' b)) \<and>
      txn s' L bl' {} \<and> bitmap_ok s' L \<and> inode_ok s' ip L \<and>
      unat (d_size (idata (itab s' ! ip))) = max (unat (d_size (idata (itab s ! ip)))) (unat off + j) \<and>
      (\<forall>i < MAXFILE * BSIZE. fdata s' ip i =
         (if unat off \<le> i \<and> i < unat off + j then data ! (i - unat off) else fdata s ip i)) \<and>
      (\<forall>i. unat off \<le> i \<longrightarrow> i < unat off + j \<longrightarrow> owned s' ip (i div BSIZE) \<noteq> 0) \<and>
      (\<forall>m. IBLOCK m (sb s) = inode_block s ip \<longrightarrow>
         inode_on s' m = (if m = inum (itab s ! ip) then idata (itab s' ! ip) else inode_on s m)) \<and>
      (\<forall>b. data_block s L b \<longrightarrow> b \<noteq> inode_block s ip \<longrightarrow> (\<forall>k \<le> MAXFILE. owned s ip k \<noteq> b) \<longrightarrow>
         view s' b = view s b \<and> used s' (unat b))"
proof (cases "unat (d_size (idata (itab s ! ip))) < unat off \<or> MAXFILE * BSIZE < unat off + unat n")
  case True
  then show ?thesis using writei_rejects by simp
next
  case False
  have rng: "unat off \<le> unat (d_size (idata (itab s ! ip)))" "unat off + unat n \<le> MAXFILE * BSIZE" using False by simp_all
  have h: "user_data (UserSrc va) data s" using assms(5-8) by (auto simp: user_data_def)
  show ?thesis
    unfolding if_not_P [OF False] using user_feed.writei_spec [OF assms(1-4) rng assms(7) h] by (elim exE conjE) blast
qed

theorem writei_writes_file_witness:
  "\<exists>j s'. writei 0 (UserSrc 0x10) 32 16 demo_fsu = Ok (int j, s') \<and> j \<le> 16 \<and>
     unat (d_size (idata (itab s' ! 0))) = 32 + j \<and> (\<forall>i < 32. fdata s' 0 i = fdata demo_fsu 0 i)"
proof -
  have sz: "unat (d_size (idata (itab demo_fsu ! 0))) = 32" by (simp add: demo_inode0 demo_inode_def)
  have c: "chunks (unat (32 :: u32)) (unat (16 :: u32)) = 1" by (simp add: chunks_def BSIZE_def)
  have r: "log_room demo_fsu [] (log_cost demo_fsu 0 [] + chunks (unat (32 :: u32)) (unat (16 :: u32)) + 1)"
    unfolding c demo_log_cost by (rule log_room_less [OF demo_fsu_ok(2)]) simp
  have sp: "same_page 0 (0x10 + of_nat i)" if "i < 16" for i
    using demo_near [of i] that by simp
  have ub: "\<forall>i < unat (16 :: u32). user_byte (pmem (ph demo_fsu)) (user_pt demo_fsu) (0x10 + of_nat i) =
      Some (map (\<lambda>i. the (user_byte (pmem demo_space) 0x8007D000 (0x10 + of_nat i))) [0..<16] ! i)"
    using sp by (simp add: demo_fsu_ok(6,7) user_byte_def demo_user_entry)
  have ok: "\<not> (unat (d_size (idata (itab demo_fsu ! 0))) < unat (32 :: u32) \<or> MAXFILE * BSIZE < unat (32 :: u32) + unat (16 :: u32))"
    by (simp add: sz MAXFILE_def BSIZE_def NDIRECT_def NINDIRECT_def)
  have len: "length (map (\<lambda>i. the (user_byte (pmem demo_space) 0x8007D000 (0x10 + of_nat i))) [0..<16]) = unat (16 :: u32)"
    by simp
  have si: "space_inv (ph demo_fsu) (user_pt demo_fsu) [] 4096" using demo_space_inv by (simp add: demo_fsu_ok(6,7))
  obtain j s' where 1: "writei 0 (UserSrc 0x10) 32 16 demo_fsu = Ok (int j, s')" "j \<le> unat (16 :: u32)"
    "unat (d_size (idata (itab s' ! 0))) = max (unat (d_size (idata (itab demo_fsu ! 0)))) (unat (32 :: u32) + j)"
    "\<forall>i < MAXFILE * BSIZE. fdata s' 0 i = (if unat (32 :: u32) \<le> i \<and> i < unat (32 :: u32) + j
        then map (\<lambda>i. the (user_byte (pmem demo_space) 0x8007D000 (0x10 + of_nat i))) [0..<16] ! (i - unat (32 :: u32))
        else fdata demo_fsu 0 i)"
    using writei_writes_file [OF demo_fsu_ok(1) demo_bitmap(1) demo_inode_ok r demo_fsu_ok(5) si len ub]
    unfolding if_not_P [OF ok] by (elim exE conjE)
  have "fdata s' 0 i = fdata demo_fsu 0 i" if "i < 32" for i
    using 1(4) that by (simp add: MAXFILE_def BSIZE_def NDIRECT_def NINDIRECT_def)
  then show ?thesis using 1(1-3) sz by (intro exI [of _ j] exI [of _ s']) simp
qed

text \<open>
  C16: what \<open>writei\<close> stored is what \<open>readi\<close> reads: after a write from a kernel buffer into a file
  without holes, reading as many bytes at the same offset returns the bytes written.
\<close>

theorem readi_after_writei:
  assumes "txn s L bl {}" "bitmap_ok s L" "inode_ok s ip L"
    "log_room s bl (log_cost s ip bl + chunks (unat off) (unat n) + 1)"
    "unat off \<le> unat (d_size (idata (itab s ! ip)))" "unat off + unat n \<le> MAXFILE * BSIZE"
    "mapped s ip (unat (d_size (idata (itab s ! ip))))" "length bs = unat n"
  shows "\<exists>j s1 s2. writei ip (LocalSrc bs) off n s = Ok (int j, s1) \<and>
    (j = unat n \<or> (\<forall>b < unat (sb_size (sb s)). used s1 b)) \<and>
    readi ip (LocalDst []) off (of_nat j) s1 = Ok (int j, LocalDst (take j bs), s2)"
proof -
  have h: "local_data (LocalSrc bs) bs s" by (simp add: local_data_def)
  obtain j s1 bl1 where 1: "writei ip (LocalSrc bs) off n s = Ok (int j, s1)" "j \<le> unat n"
    "j < unat n \<longrightarrow> (\<forall>b < unat (sb_size (sb s)). used s1 b)" "txn s1 L bl1 {}"
    "unat (d_size (idata (itab s1 ! ip))) = max (unat (d_size (idata (itab s ! ip)))) (unat off + j)"
    "\<forall>i < MAXFILE * BSIZE. fdata s1 ip i =
         (if unat off \<le> i \<and> i < unat off + j then bs ! (i - unat off) else fdata s ip i)"
    "\<forall>i. unat off \<le> i \<longrightarrow> i < unat off + j \<longrightarrow> owned s1 ip (i div BSIZE) \<noteq> 0"
    "\<forall>k \<le> MAXFILE. owned s ip k \<noteq> 0 \<longrightarrow> owned s1 ip k = owned s ip k" "idev (itab s1 ! ip) = ROOTDEV"
    using local_feed.writei_spec [OF assms(1-6,8) h] by (elim exE conjE)
  let ?fs = "unat (d_size (idata (itab s1 ! ip)))"
  have top: "?fs \<le> MAXFILE * BSIZE" using 1(2,5) assms(6,7) by (simp add: mapped_def)
  have own: "owned s1 ip (i div BSIZE) = file_block s1 ip (i div BSIZE)" "owned s ip (i div BSIZE) = file_block s ip (i div BSIZE)"
    if "i < MAXFILE * BSIZE" for i using block_less [OF that] by (simp_all add: owned_def)
  have "file_block s1 ip (i div BSIZE) \<noteq> 0" if i: "i < ?fs" for i
  proof -
    have iM: "i < MAXFILE * BSIZE" using i top by simp
    show ?thesis
    proof (cases "i < unat (d_size (idata (itab s ! ip)))")
      case True
      then have "owned s ip (i div BSIZE) \<noteq> 0" using assms(7) own(2) [OF iM] by (simp add: mapped_def)
      then show ?thesis using 1(8) block_less [OF iM] own(1) [OF iM] by simp
    next
      case False
      then show ?thesis using 1(5,7) i assms(5) own(1) [OF iM] by auto
    qed
  qed
  then have mp: "mapped s1 ip ?fs" using top by (simp add: mapped_def)
  have small: "unat off + j < 2 ^ 32"
    using assms(6) 1(2) by (simp add: MAXFILE_def BSIZE_def NDIRECT_def NINDIRECT_def)
  then have uj: "unat (of_nat j :: u32) = j" by (intro unat_of_nat_eq) simp
  have sum: "unat off + unat (of_nat j :: u32) < 2 ^ 32" using small uj by simp
  have k: "min (unat (of_nat j :: u32)) (?fs - unat off) = j" using 1(5) uj by simp
  have bytes: "file_bytes s1 ip (unat off) j = take j bs"
  proof (rule nth_equalityI)
    fix i assume "i < length (file_bytes s1 ip (unat off) j)"
    then have i: "i < j" by simp
    have lt: "unat off + i < MAXFILE * BSIZE" "unat off + i < ?fs" using i 1(2,5) assms(6) by simp_all
    have "file_byte s1 ip (unat off + i) = fdata s1 ip (unat off + i)"
      using own(1) [OF lt(1)] mp lt(2) by (simp add: file_byte_def fdata_def mapped_def)
    then show "file_bytes s1 ip (unat off) j ! i = take j bs ! i"
      using 1(6) lt(1) i by (simp add: file_bytes_def)
  qed (use 1(2) assms(8) in simp)
  have f: "local_fits (LocalDst []) j s1" by (simp add: local_fits_def)
  obtain s2 where "readi ip (LocalDst []) off (of_nat j) s1 = Ok (int j, advance (LocalDst []) (file_bytes s1 ip (unat off) j), s2)"
    using local_sink.readi_spec [OF 1(4,9) mp sum, unfolded k, OF f] by (elim exE conjE)
  then show ?thesis using 1(1-3) unfolding bytes by auto
qed

theorem readi_after_writei_witness:
  "\<exists>j s1 s2. writei 0 (LocalSrc [2, 0, 97, 98]) 16 4 demo_fsu = Ok (int j, s1) \<and>
     readi 0 (LocalDst []) 16 (of_nat j) s1 = Ok (int j, LocalDst (take j [2, 0, 97, 98]), s2)"
proof -
  have sz: "unat (d_size (idata (itab demo_fsu ! 0))) = 32" by (simp add: demo_inode0 demo_inode_def)
  have c: "chunks (unat (16 :: u32)) (unat (4 :: u32)) = 1" by (simp add: chunks_def BSIZE_def)
  have r: "log_room demo_fsu [] (log_cost demo_fsu 0 [] + chunks (unat (16 :: u32)) (unat (4 :: u32)) + 1)"
    unfolding c demo_log_cost by (rule log_room_less [OF demo_fsu_ok(2)]) simp
  have "mapped demo_fsu 0 (unat (d_size (idata (itab demo_fsu ! 0))))" unfolding sz by (rule demo_mapped(1))
  then show ?thesis
    using readi_after_writei [OF demo_fsu_ok(1) demo_bitmap(1) demo_inode_ok r, of "[2, 0, 97, 98]"] sz
    by (simp add: MAXFILE_def BSIZE_def NDIRECT_def NINDIRECT_def) blast
qed

end
