(* ===== verification/Exec.thy ===== *)
theory Exec
  imports Proc_Life
begin

text \<open>
  Program loading (\<open>kernel/exec.c\<close>, \<open>kernel/elf32.h\<close>). The argument strings and the path are
  byte lists without their NUL. The result of the loading loop says whether to go on and
  the size reached, which the error path frees.
\<close>

definition ELF_MAGIC :: u32 where "ELF_MAGIC = 0x464C457F"
definition ELFHDR :: nat where "ELFHDR = 52"
definition PROGHDR :: nat where "PROGHDR = 32"
definition ELF_PROG_LOAD :: u32 where "ELF_PROG_LOAD = 1"

record elfhdr =
  elf_magic :: u32
  elf_entry :: u32
  elf_phoff :: u32
  elf_phnum :: u16

record proghdr =
  ph_type :: u32
  ph_off :: u32
  ph_vaddr :: u32
  ph_filesz :: u32
  ph_memsz :: u32
  ph_flags :: u32

definition elfhdr_of :: "u8 list \<Rightarrow> elfhdr" where
  "elfhdr_of d = \<lparr>elf_magic = get32 d 0, elf_entry = get32 d 24, elf_phoff = get32 d 28, elf_phnum = get16 d 44\<rparr>"

definition proghdr_of :: "u8 list \<Rightarrow> proghdr" where
  "proghdr_of d = \<lparr>ph_type = get32 d 0, ph_off = get32 d 4, ph_vaddr = get32 d 8,
     ph_filesz = get32 d 16, ph_memsz = get32 d 20, ph_flags = get32 d 24\<rparr>"

definition flags2perm :: "u32 \<Rightarrow> u32" where
  "flags2perm flags =
     (let perm = (if flags AND 1 \<noteq> 0 then PTE_X else 0)
      in if flags AND 2 \<noteq> 0 then perm OR PTE_W else perm)"

text \<open>\<open>readi\<close> of a header into a local variable; \<open>None\<close> when it is short.\<close>

definition read_local :: "nat \<Rightarrow> u32 \<Rightarrow> nat \<Rightarrow> kst \<Rightarrow> (u8 list option \<times> kst) res" where
  "read_local ip off n s =
     seq (readi ip (LocalDst []) off (of_nat n) s) (\<lambda>(r, dst, s).
       Ok (if r = int n then (case dst of LocalDst bs \<Rightarrow> Some bs | _ \<Rightarrow> None) else None, s))"

text \<open>One round per page of the segment.\<close>

primrec loadseg_from ::
  "nat \<Rightarrow> u32 \<Rightarrow> u32 \<Rightarrow> u32 \<Rightarrow> nat \<Rightarrow> u32 \<Rightarrow> u32 \<Rightarrow> kst \<Rightarrow> (int \<times> kst) res" where
  "loadseg_from 0 i pt va ip offset fsz s = Fail Diverges"
| "loadseg_from (Suc k) i pt va ip offset fsz s =
     (if i < fsz
      then seq (walkaddr pt (va + i) (ph s)) (\<lambda>pa.
        if pa = 0 then Fail (Panic ''loadseg: address should exist'')
        else
          let n = (if fsz - i < PGSIZE then fsz - i else PGSIZE)
          in seq (readi ip (KernDst pa) (offset + i) n s) (\<lambda>(r, _, s).
               if r \<noteq> int (unat n) then Ok (-1, s)
               else loadseg_from k (i + PGSIZE) pt va ip offset fsz s))
      else Ok (0, s))"

definition loadseg :: "u32 \<Rightarrow> u32 \<Rightarrow> nat \<Rightarrow> u32 \<Rightarrow> u32 \<Rightarrow> kst \<Rightarrow> (int \<times> kst) res" where
  "loadseg pt va ip offset fsz s = loadseg_from (unat fsz div 4096 + 2) 0 pt va ip offset fsz s"

definition segment_ok :: "proghdr \<Rightarrow> bool" where
  "segment_ok h \<longleftrightarrow>
     \<not> ph_memsz h < ph_filesz h \<and> \<not> ph_vaddr h + ph_memsz h < ph_vaddr h \<and> ph_vaddr h mod PGSIZE = 0"

text \<open>The program headers, \<open>k\<close> of them to go from offset \<open>off\<close> on.\<close>

primrec exec_load :: "nat \<Rightarrow> u32 \<Rightarrow> u32 \<Rightarrow> nat \<Rightarrow> u32 \<Rightarrow> kst \<Rightarrow> (bool \<times> u32 \<times> kst) res" where
  "exec_load 0 off pt ip sz0 s = Ok (True, sz0, s)"
| "exec_load (Suc k) off pt ip sz0 s =
     seq (read_local ip off PROGHDR s) (\<lambda>(r, s).
       case r of
         None \<Rightarrow> Ok (False, sz0, s)
       | Some d \<Rightarrow>
           let h = proghdr_of d; next_off = off + of_nat PROGHDR
           in if ph_type h \<noteq> ELF_PROG_LOAD then exec_load k next_off pt ip sz0 s
              else if \<not> segment_ok h then Ok (False, sz0, s)
              else seq (uvmalloc pt sz0 (ph_vaddr h + ph_memsz h) (flags2perm (ph_flags h)) (ph s)) (\<lambda>(sz1, m).
                let s = upd_ph m s
                in if sz1 = 0 then Ok (False, sz0, s)
                   else seq (loadseg pt (ph_vaddr h) ip (ph_off h) (ph_filesz h) s) (\<lambda>(r, s).
                     if r < 0 then Ok (False, sz1, s) else exec_load k next_off pt ip sz1 s)))"

text \<open>The argument strings pushed below \<open>sp\<close>; \<open>None\<close> on any error.\<close>

definition align16 :: "u32 \<Rightarrow> u32" where
  "align16 sp = sp - sp mod 16"

primrec push_args ::
  "u32 \<Rightarrow> u32 \<Rightarrow> u8 list list \<Rightarrow> u32 \<Rightarrow> u32 list \<Rightarrow> phys \<Rightarrow> ((u32 \<times> u32 list) option \<times> phys) res" where
  "push_args pt stackbase [] sp ustack m = Ok (Some (sp, ustack), m)"
| "push_args pt stackbase (a # as) sp ustack m =
     (if MAXARG \<le> length ustack then Ok (None, m)
      else
        let sp = align16 (sp - (of_nat (length a) + 1))
        in if sp < stackbase then Ok (None, m)
           else seq (copyout pt sp (a @ [0]) m) (\<lambda>(r, m).
             if r < 0 then Ok (None, m)
             else push_args pt stackbase as sp (ustack @ [sp]) m))"

text \<open>Two pages above the program: a guard page and the stack, with the arguments on it.\<close>

definition exec_stack :: "u32 \<Rightarrow> u32 \<Rightarrow> u8 list list \<Rightarrow> phys \<Rightarrow> ((u32 \<times> u32) option \<times> u32 \<times> phys) res" where
  "exec_stack pt sz0 argv m =
     (let sz0 = PGROUNDUP sz0
      in seq (uvmalloc pt sz0 (sz0 + 2 * PGSIZE) PTE_W m) (\<lambda>(sz1, m).
        if sz1 = 0 then Ok (None, sz0, m)
        else seq (uvmclear pt (sz1 - 2 * PGSIZE) m) (\<lambda>m.
          let stackbase = sz1 - PGSIZE
          in seq (push_args pt stackbase argv sz1 [] m) (\<lambda>(r, m).
            case r of
              None \<Rightarrow> Ok (None, sz1, m)
            | Some (sp, ustack) \<Rightarrow>
                let argc = length ustack; sp = align16 (sp - (of_nat argc + 1) * 4)
                in if sp < stackbase then Ok (None, sz1, m)
                   else seq (copyout pt sp (concat (map le32 (ustack @ [0]))) m) (\<lambda>(r, m).
                     if r < 0 then Ok (None, sz1, m)
                     else Ok (Some (sp, of_nat argc), sz1, m))))))"

text \<open>The part of the path after the last slash.\<close>

definition last_elem :: "u8 list \<Rightarrow> u8 list" where
  "last_elem path = rev (takeWhile (\<lambda>c. c \<noteq> slash) (rev path))"

definition exec_bad :: "u32 \<Rightarrow> u32 \<Rightarrow> nat option \<Rightarrow> kst \<Rightarrow> (int \<times> kst) res" where
  "exec_bad pt sz0 ip s =
     seq (if pt \<noteq> 0 then proc_freepagetable pt sz0 (ph s) else Ok (ph s)) (\<lambda>m.
       let s = upd_ph m s
       in case ip of
            None \<Rightarrow> Ok (-1, s)
          | Some ip \<Rightarrow> seq (iunlockput ip s) (\<lambda>s. seq (end_op s) (\<lambda>s. Ok (-1, s))))"

definition exec_commit :: "nat \<Rightarrow> u8 list \<Rightarrow> u32 \<Rightarrow> u32 \<Rightarrow> u32 \<Rightarrow> u32 \<Rightarrow> kst \<Rightarrow> kst res" where
  "exec_commit i path pt sz1 sp entry s =
     (let s = tf_set i TF_a1 sp s;
          s = upd_my i (\<lambda>p. p\<lparr>pname := safestrcpy_bytes (pname p) (last_elem path)\<rparr>) s;
          oldpt = pagetable (procs (sch s) ! i); oldsz = sz (procs (sch s) ! i);
          s = upd_my i (\<lambda>p. p\<lparr>pagetable := pt, sz := sz1\<rparr>) s;
          s = tf_set i TF_epc entry s; s = tf_set i TF_sp sp s
      in seq (proc_freepagetable oldpt oldsz (ph s)) (\<lambda>m. Ok (upd_ph m s)))"

definition exec :: "ksyms \<Rightarrow> u8 list \<Rightarrow> u8 list list \<Rightarrow> kst \<Rightarrow> (int \<times> kst) res" where
  "exec K path argv s =
     seq (me s) (\<lambda>i.
     seq (begin_op s) (\<lambda>s.
     seq (namei path s) (\<lambda>(r, s).
       case r of
         None \<Rightarrow> seq (end_op s) (\<lambda>s. Ok (-1, s))
       | Some ip \<Rightarrow>
           seq (ilock ip s) (\<lambda>s.
           seq (read_local ip 0 ELFHDR s) (\<lambda>(r, s).
             case r of
               None \<Rightarrow> exec_bad 0 0 (Some ip) s
             | Some d \<Rightarrow>
                 let elf = elfhdr_of d
                 in if elf_magic elf \<noteq> ELF_MAGIC then exec_bad 0 0 (Some ip) s
                    else seq (proc_pagetable K (trapframe (procs (sch s) ! i)) (ph s)) (\<lambda>(pt, m).
                      let s = upd_ph m s
                      in if pt = 0 then exec_bad 0 0 (Some ip) s
                         else seq (exec_load (unat (elf_phnum elf)) (elf_phoff elf) pt ip 0 s) (\<lambda>(good, sz0, s).
                           if \<not> good then exec_bad pt sz0 (Some ip) s
                           else seq (iunlockput ip s) (\<lambda>s.
                             seq (end_op s) (\<lambda>s.
                             seq (exec_stack pt sz0 argv (ph s)) (\<lambda>(r, sz1, m).
                               let s = upd_ph m s
                               in case r of
                                    None \<Rightarrow> exec_bad pt sz1 None s
                                  | Some (sp, argc) \<Rightarrow>
                                      seq (exec_commit i path pt sz1 sp (elf_entry elf) s) (\<lambda>s.
                                        Ok (int (unat argc), s))))))))))))"

end
