(* ===== verification/Sysfile.thy ===== *)
theory Sysfile
  imports Exec
begin

text \<open>
  System call arguments (\<open>kernel/syscall.c\<close>) and the file system calls
  (\<open>kernel/sysfile.c\<close>). A call returns \<open>Returned r\<close>, or \<open>Sleeping\<close> where it blocks in a pipe
  or the console.
\<close>

subsection \<open>Fetching arguments\<close>

text \<open>Word \<open>n\<close> of \<open>a0 \<dots> a5\<close> in the trap frame.\<close>

definition argraw :: "nat \<Rightarrow> kst \<Rightarrow> u32 res" where
  "argraw n s = seq (me s) (\<lambda>i. if n < 6 then Ok (tf_get i (TF_a0 + n) s) else Fail (Panic ''argraw''))"

definition argint :: "nat \<Rightarrow> kst \<Rightarrow> int res" where
  "argint n s = seq (argraw n s) (\<lambda>w. Ok (sint w))"

definition argaddr :: "nat \<Rightarrow> kst \<Rightarrow> u32 res" where
  "argaddr n s = argraw n s"

definition fetchaddr :: "u32 \<Rightarrow> kst \<Rightarrow> u32 option res" where
  "fetchaddr addr s =
     seq (me s) (\<lambda>i.
       let p = procs (sch s) ! i
       in if sz p \<le> addr \<or> sz p < addr + 4 then Ok None
          else seq (copyin (pagetable p) addr 4 (ph s)) (\<lambda>(r, bs).
            Ok (if r \<noteq> 0 then None else Some (get32 bs 0))))"

text \<open>The string without its NUL; its length is the C function's result.\<close>

definition fetchstr :: "u32 \<Rightarrow> nat \<Rightarrow> kst \<Rightarrow> u8 list option res" where
  "fetchstr addr maxn s =
     seq (my_pagetable s) (\<lambda>pt.
     seq (copyinstr pt addr maxn (ph s)) (\<lambda>(r, bs).
       Ok (if r < 0 then None else Some (butlast bs))))"

definition argstr :: "nat \<Rightarrow> nat \<Rightarrow> kst \<Rightarrow> u8 list option res" where
  "argstr n maxn s = seq (argaddr n s) (\<lambda>a. fetchstr a maxn s)"

subsection \<open>File descriptors\<close>

definition argfd :: "nat \<Rightarrow> kst \<Rightarrow> (nat \<times> nat) option res" where
  "argfd n s =
     seq (argint n s) (\<lambda>fd.
     seq (me s) (\<lambda>i.
       Ok (if fd < 0 \<or> int NOFILE \<le> fd then None
           else map_option (\<lambda>f. (nat fd, f)) (ofile (procs (sch s) ! i) ! nat fd))))"

definition set_ofile :: "nat \<Rightarrow> nat \<Rightarrow> nat option \<Rightarrow> kst \<Rightarrow> kst" where
  "set_ofile i fd f = upd_my i (\<lambda>p. p\<lparr>ofile := (ofile p)[fd := f]\<rparr>)"

definition fdalloc :: "nat \<Rightarrow> kst \<Rightarrow> (int \<times> kst) res" where
  "fdalloc f s =
     seq (me s) (\<lambda>i.
       case find_buf (\<lambda>fd. ofile (procs (sch s) ! i) ! fd = None) [0..<NOFILE] of
         None \<Rightarrow> Ok (-1, s)
       | Some fd \<Rightarrow> Ok (int fd, set_ofile i fd (Some f) s))"

type_synonym sys = "kst \<Rightarrow> (int outcome \<times> kst) res"

definition ret :: "int \<Rightarrow> sys" where
  "ret r s = Ok (Returned r, s)"

definition sys_dup :: sys where
  "sys_dup s =
     seq (argfd 0 s) (\<lambda>r.
       case r of
         None \<Rightarrow> ret (-1) s
       | Some (_, f) \<Rightarrow>
           seq (fdalloc f s) (\<lambda>(fd, s).
             if fd < 0 then ret (-1) s else seq (filedup f s) (\<lambda>(_, s). ret fd s)))"

definition sys_read :: sys where
  "sys_read s =
     seq (argaddr 1 s) (\<lambda>p.
     seq (argint 2 s) (\<lambda>n.
     seq (argfd 0 s) (\<lambda>r.
       case r of None \<Rightarrow> ret (-1) s | Some (_, f) \<Rightarrow> fileread f p n s)))"

definition sys_write :: sys where
  "sys_write s =
     seq (argaddr 1 s) (\<lambda>p.
     seq (argint 2 s) (\<lambda>n.
     seq (argfd 0 s) (\<lambda>r.
       case r of None \<Rightarrow> ret (-1) s | Some (_, f) \<Rightarrow> filewrite f p n s)))"

definition sys_close :: sys where
  "sys_close s =
     seq (argfd 0 s) (\<lambda>r.
     seq (me s) (\<lambda>i.
       case r of
         None \<Rightarrow> ret (-1) s
       | Some (fd, f) \<Rightarrow> seq (fileclose f (set_ofile i fd None s)) (ret 0)))"

definition sys_fstat :: "u8 list \<Rightarrow> sys" where
  "sys_fstat pad s =
     seq (argaddr 1 s) (\<lambda>st.
     seq (argfd 0 s) (\<lambda>r.
       case r of
         None \<Rightarrow> ret (-1) s
       | Some (_, f) \<Rightarrow> seq (filestat pad f st s) (\<lambda>(r, s). ret r s)))"

subsection \<open>Directories and names\<close>

definition add_nlink :: "u16 \<Rightarrow> nat \<Rightarrow> kst \<Rightarrow> kst" where
  "add_nlink k ip = upd_idata ip (\<lambda>d. d\<lparr>d_nlink := d_nlink d + k\<rparr>)"

text \<open>\<open>end_op\<close> and the result of the call.\<close>

definition end_ret :: "int \<Rightarrow> sys" where
  "end_ret r s = seq (end_op s) (ret r)"

definition link_undo :: "nat \<Rightarrow> sys" where
  "link_undo ip s =
     seq (ilock ip s) (\<lambda>s.
     seq (iupdate ip (add_nlink (-1) ip s)) (\<lambda>s.
     seq (iunlockput ip s) (end_ret (-1))))"

definition sys_link :: sys where
  "sys_link s =
     seq (argstr 0 MAXPATH s) (\<lambda>r0. case r0 of None \<Rightarrow> ret (-1) s | Some oldp \<Rightarrow>
     seq (argstr 1 MAXPATH s) (\<lambda>r1. case r1 of None \<Rightarrow> ret (-1) s | Some newp \<Rightarrow>
     seq (begin_op s) (\<lambda>s.
     seq (namei oldp s) (\<lambda>(r, s).
       case r of
         None \<Rightarrow> end_ret (-1) s
       | Some ip \<Rightarrow>
           seq (ilock ip s) (\<lambda>s.
             if d_type (idata (itab s ! ip)) = T_DIR
             then seq (iunlockput ip s) (end_ret (-1))
             else
               seq (iupdate ip (add_nlink 1 ip s)) (\<lambda>s.
               seq (iunlock ip s) (\<lambda>s.
               seq (nameiparent newp s) (\<lambda>(r, s).
                 case r of
                   None \<Rightarrow> link_undo ip s
                 | Some (dp, name) \<Rightarrow>
                     seq (ilock dp s) (\<lambda>s.
                     seq (if idev (itab s ! dp) \<noteq> idev (itab s ! ip) then Ok (-1, s)
                          else dirlink dp name (inum (itab s ! ip)) s) (\<lambda>(r, s).
                     seq (iunlockput dp s) (\<lambda>s.
                       if r < 0 then link_undo ip s
                       else seq (iput ip s) (end_ret 0))))))))))))"

primrec isdirempty_from :: "nat \<Rightarrow> u32 \<Rightarrow> nat \<Rightarrow> kst \<Rightarrow> (bool \<times> kst) res" where
  "isdirempty_from 0 off dp s = Fail Diverges"
| "isdirempty_from (Suc k) off dp s =
     (if off < d_size (idata (itab s ! dp))
      then seq (read_dirent dp off s) (\<lambda>(r, s).
        case r of
          None \<Rightarrow> Fail (Panic ''isdirempty: readi'')
        | Some de \<Rightarrow>
            if de_inum de \<noteq> 0 then Ok (False, s) else isdirempty_from k (off + of_nat DIRENT) dp s)
      else Ok (True, s))"

definition isdirempty :: "nat \<Rightarrow> kst \<Rightarrow> (bool \<times> kst) res" where
  "isdirempty dp s = isdirempty_from (dir_rounds dp s) (of_nat (2 * DIRENT)) dp s"

definition dot :: "u8 list" where "dot = [46]"
definition dotdot :: "u8 list" where "dotdot = [46, 46]"

definition unlink_bad :: "nat \<Rightarrow> sys" where
  "unlink_bad dp s = seq (iunlockput dp s) (end_ret (-1))"

definition sys_unlink :: sys where
  "sys_unlink s =
     seq (argstr 0 MAXPATH s) (\<lambda>r0. case r0 of None \<Rightarrow> ret (-1) s | Some path \<Rightarrow>
     seq (begin_op s) (\<lambda>s.
     seq (nameiparent path s) (\<lambda>(r, s).
       case r of
         None \<Rightarrow> end_ret (-1) s
       | Some (dp, name) \<Rightarrow>
           seq (ilock dp s) (\<lambda>s.
             if namecmp name dot = 0 \<or> namecmp name dotdot = 0 then unlink_bad dp s
             else seq (dirlookup dp name s) (\<lambda>(r, s).
               case r of
                 None \<Rightarrow> unlink_bad dp s
               | Some (ip, off) \<Rightarrow>
                   seq (ilock ip s) (\<lambda>s.
                     if sint (d_nlink (idata (itab s ! ip))) < 1 then Fail (Panic ''unlink: nlink < 1'')
                     else
                       let isdir = (d_type (idata (itab s ! ip)) = T_DIR)
                       in seq (if isdir then isdirempty ip s else Ok (True, s)) (\<lambda>(can_go, s).
                         if \<not> can_go then seq (iunlockput ip s) (unlink_bad dp)
                         else seq (writei dp (LocalSrc (replicate DIRENT 0)) off (of_nat DIRENT) s) (\<lambda>(r, s).
                           if r \<noteq> int DIRENT then Fail (Panic ''unlink: writei'')
                           else
                             seq (if isdir then iupdate dp (add_nlink (-1) dp s) else Ok s) (\<lambda>s.
                             seq (iunlockput dp s) (\<lambda>s.
                             seq (iupdate ip (add_nlink (-1) ip s)) (\<lambda>s.
                             seq (iunlockput ip s) (end_ret 0))))))))))))"

text \<open>The new inode locked; \<open>None\<close> when it cannot be made.\<close>

definition create_fail :: "nat \<Rightarrow> nat \<Rightarrow> kst \<Rightarrow> (nat option \<times> kst) res" where
  "create_fail ip dp s =
     seq (iupdate ip (upd_idata ip (\<lambda>d. d\<lparr>d_nlink := 0\<rparr>) s)) (\<lambda>s.
     seq (iunlockput ip s) (\<lambda>s.
     seq (iunlockput dp s) (\<lambda>s. Ok (None, s))))"

definition create :: "u8 list \<Rightarrow> u16 \<Rightarrow> u16 \<Rightarrow> u16 \<Rightarrow> kst \<Rightarrow> (nat option \<times> kst) res" where
  "create path type major minor s =
     seq (nameiparent path s) (\<lambda>(r, s).
       case r of
         None \<Rightarrow> Ok (None, s)
       | Some (dp, name) \<Rightarrow>
           seq (ilock dp s) (\<lambda>s.
           seq (dirlookup dp name s) (\<lambda>(r, s).
             case r of
               Some (ip, _) \<Rightarrow>
                 seq (iunlockput dp s) (\<lambda>s.
                 seq (ilock ip s) (\<lambda>s.
                   let t = d_type (idata (itab s ! ip))
                   in if type = T_FILE \<and> (t = T_FILE \<or> t = T_DEVICE) then Ok (Some ip, s)
                      else seq (iunlockput ip s) (\<lambda>s. Ok (None, s))))
             | None \<Rightarrow>
                 seq (ialloc (idev (itab s ! dp)) type s) (\<lambda>(r, s).
                   case r of
                     None \<Rightarrow> seq (iunlockput dp s) (\<lambda>s. Ok (None, s))
                   | Some ip \<Rightarrow>
                       seq (ilock ip s) (\<lambda>s.
                       seq (iupdate ip (upd_idata ip (\<lambda>d. d\<lparr>d_major := major, d_minor := minor, d_nlink := 1\<rparr>) s)) (\<lambda>s.
                       seq (if type = T_DIR
                            then seq (dirlink ip dot (inum (itab s ! ip)) s) (\<lambda>(r, s).
                              if r < 0 then Ok (r, s) else dirlink ip dotdot (inum (itab s ! dp)) s)
                            else Ok (0, s)) (\<lambda>(r, s).
                         if r < 0 then create_fail ip dp s
                         else seq (dirlink dp name (inum (itab s ! ip)) s) (\<lambda>(r, s).
                           if r < 0 then create_fail ip dp s
                           else
                             seq (if type = T_DIR then iupdate dp (add_nlink 1 dp s) else Ok s) (\<lambda>s.
                             seq (iunlockput dp s) (\<lambda>s. Ok (Some ip, s)))))))))))"

subsection \<open>open, mkdir, mknod, chdir\<close>

definition O_WRONLY :: u32 where "O_WRONLY = 1"
definition O_RDWR :: u32 where "O_RDWR = 2"
definition O_CREATE :: u32 where "O_CREATE = 0x200"
definition O_TRUNC :: u32 where "O_TRUNC = 0x400"

text \<open>The locked inode to open, by creation or by lookup.\<close>

definition open_inode :: "u8 list \<Rightarrow> u32 \<Rightarrow> kst \<Rightarrow> (nat option \<times> kst) res" where
  "open_inode path omode s =
     (if omode AND O_CREATE \<noteq> 0 then create path T_FILE 0 0 s
      else seq (namei path s) (\<lambda>(r, s).
        case r of
          None \<Rightarrow> Ok (None, s)
        | Some ip \<Rightarrow>
            seq (ilock ip s) (\<lambda>s.
              if d_type (idata (itab s ! ip)) = T_DIR \<and> omode \<noteq> 0
              then seq (iunlockput ip s) (\<lambda>s. Ok (None, s))
              else Ok (Some ip, s))))"

definition open_file :: "nat \<Rightarrow> u32 \<Rightarrow> nat \<Rightarrow> kst \<Rightarrow> kst" where
  "open_file ip omode f s =
     (let d = idata (itab s ! ip); wr = (omode AND O_WRONLY \<noteq> 0)
      in upd_file f (\<lambda>x.
           (if d_type d = T_DEVICE then x\<lparr>ftype := FD_DEVICE, fmajor := d_major d\<rparr>
            else x\<lparr>ftype := FD_INODE, foff := 0\<rparr>)
           \<lparr>fip := ip, freadable := \<not> wr, fwritable := wr \<or> omode AND O_RDWR \<noteq> 0\<rparr>) s)"

definition sys_open :: sys where
  "sys_open s =
     seq (argraw 1 s) (\<lambda>omode.
     seq (argstr 0 MAXPATH s) (\<lambda>r0. case r0 of None \<Rightarrow> ret (-1) s | Some path \<Rightarrow>
     seq (begin_op s) (\<lambda>s.
     seq (open_inode path omode s) (\<lambda>(r, s).
       case r of
         None \<Rightarrow> end_ret (-1) s
       | Some ip \<Rightarrow>
           let d = idata (itab s ! ip)
           in if d_type d = T_DEVICE \<and> bad_major (d_major d) then seq (iunlockput ip s) (end_ret (-1))
              else
                (case filealloc s of
                   (None, s) \<Rightarrow> seq (iunlockput ip s) (end_ret (-1))
                 | (Some f, s) \<Rightarrow>
                     seq (fdalloc f s) (\<lambda>(fd, s).
                       if fd < 0
                       then seq (fileclose f s) (\<lambda>s. seq (iunlockput ip s) (end_ret (-1)))
                       else
                         let s = open_file ip omode f s
                         in seq (if omode AND O_TRUNC \<noteq> 0 \<and> d_type d = T_FILE then itrunc ip s else Ok s) (\<lambda>s.
                            seq (iunlock ip s) (end_ret fd))))))))"

text \<open>\<open>mkdir\<close> and \<open>mknod\<close> make the inode and let it go.\<close>

definition create_put :: "u8 list option \<Rightarrow> u16 \<Rightarrow> u16 \<Rightarrow> u16 \<Rightarrow> sys" where
  "create_put path type major minor s =
     (case path of
        None \<Rightarrow> end_ret (-1) s
      | Some path \<Rightarrow>
          seq (create path type major minor s) (\<lambda>(r, s).
            case r of
              None \<Rightarrow> end_ret (-1) s
            | Some ip \<Rightarrow> seq (iunlockput ip s) (end_ret 0)))"

definition sys_mkdir :: sys where
  "sys_mkdir s =
     seq (begin_op s) (\<lambda>s. seq (argstr 0 MAXPATH s) (\<lambda>path. create_put path T_DIR 0 0 s))"

definition sys_mknod :: sys where
  "sys_mknod s =
     seq (begin_op s) (\<lambda>s.
     seq (argraw 1 s) (\<lambda>major.
     seq (argraw 2 s) (\<lambda>minor.
     seq (argstr 0 MAXPATH s) (\<lambda>path. create_put path T_DEVICE (ucast major) (ucast minor) s))))"

definition sys_chdir :: sys where
  "sys_chdir s =
     seq (me s) (\<lambda>i.
     seq (begin_op s) (\<lambda>s.
     seq (argstr 0 MAXPATH s) (\<lambda>r0. case r0 of None \<Rightarrow> end_ret (-1) s | Some path \<Rightarrow>
     seq (namei path s) (\<lambda>(r, s).
       case r of
         None \<Rightarrow> end_ret (-1) s
       | Some ip \<Rightarrow>
           seq (ilock ip s) (\<lambda>s.
             if d_type (idata (itab s ! ip)) \<noteq> T_DIR then seq (iunlockput ip s) (end_ret (-1))
             else seq (iunlock ip s) (\<lambda>s.
               case cwd (procs (sch s) ! i) of
                 None \<Rightarrow> Fail OutOfBounds
               | Some old \<Rightarrow>
                   seq (iput old s) (\<lambda>s.
                   seq (end_op s) (\<lambda>s.
                     ret 0 (upd_my i (cwd_update (\<lambda>_. Some ip)) s)))))))))"

subsection \<open>exec\<close>

text \<open>
  The argument strings, fetched into a page each: the strings (\<open>None\<close> on an error) and the
  pages taken, with \<open>k\<close> entries of \<open>argv\<close> left.
\<close>

primrec fetch_args ::
  "nat \<Rightarrow> u32 \<Rightarrow> u32 list \<Rightarrow> u8 list list \<Rightarrow> kst \<Rightarrow> (u8 list list option \<times> u32 list \<times> kst) res" where
  "fetch_args 0 uargv pages strs s = Ok (None, pages, s)"
| "fetch_args (Suc k) uargv pages strs s =
     seq (fetchaddr (uargv + 4 * of_nat (length pages)) s) (\<lambda>r.
       case r of
         None \<Rightarrow> Ok (None, pages, s)
       | Some uarg \<Rightarrow>
           if uarg = 0 then Ok (Some strs, pages, s)
           else
             case kalloc (ph s) of (pa, m) \<Rightarrow>
               let s = upd_ph m s
               in if pa = 0 then Ok (None, pages, s)
                  else seq (fetchstr uarg 4096 s) (\<lambda>r.
                    case r of
                      None \<Rightarrow> Ok (None, pages @ [pa], s)
                    | Some str \<Rightarrow>
                        fetch_args k uargv (pages @ [pa]) (strs @ [str])
                          (upd_ph (m\<lparr>pmem := put_bytes (pmem m) pa (str @ [0])\<rparr>) s)))"

primrec free_pages :: "u32 list \<Rightarrow> phys \<Rightarrow> phys res" where
  "free_pages [] m = Ok m"
| "free_pages (pa # pas) m = seq (kfree pa m) (free_pages pas)"

definition sys_exec :: "ksyms \<Rightarrow> sys" where
  "sys_exec K s =
     seq (argaddr 1 s) (\<lambda>uargv.
     seq (argstr 0 MAXPATH s) (\<lambda>r0. case r0 of None \<Rightarrow> ret (-1) s | Some path \<Rightarrow>
     seq (fetch_args MAXARG uargv [] [] s) (\<lambda>(r, pages, s).
     seq (case r of None \<Rightarrow> Ok (-1, s) | Some strs \<Rightarrow> exec K path strs s) (\<lambda>(r, s).
     seq (free_pages pages (ph s)) (\<lambda>m. ret r (upd_ph m s))))))"

subsection \<open>pipe\<close>

definition copy_fd :: "u32 \<Rightarrow> int \<Rightarrow> kst \<Rightarrow> (bool \<times> kst) res" where
  "copy_fd addr fd s =
     seq (either_copyout (UserDst addr) (le32 (word_of_int fd)) s) (\<lambda>(r, s). Ok (r < 0, s))"

definition sys_pipe :: sys where
  "sys_pipe s =
     seq (argaddr 0 s) (\<lambda>fdarray.
     seq (me s) (\<lambda>i.
     seq (pipealloc s) (\<lambda>(r, s).
       case r of
         None \<Rightarrow> ret (-1) s
       | Some (rfile, wfile) \<Rightarrow>
           let close2 = (\<lambda>s. seq (fileclose rfile s) (\<lambda>s. seq (fileclose wfile s) (ret (-1))))
           in seq (fdalloc rfile s) (\<lambda>(fd0, s).
              if fd0 < 0 then close2 s
              else seq (fdalloc wfile s) (\<lambda>(fd1, s).
                if fd1 < 0 then close2 (set_ofile i (nat fd0) None s)
                else
                  seq (copy_fd fdarray fd0 s) (\<lambda>(bad, s).
                  seq (if bad then Ok (True, s) else copy_fd (fdarray + 4) fd1 s) (\<lambda>(bad, s).
                    if bad then close2 (set_ofile i (nat fd1) None (set_ofile i (nat fd0) None s))
                    else ret 0 s)))))))"

end
