(* ===== verification/Syscall.thy ===== *)
theory Syscall
  imports Sysfile
begin

text \<open>
  The process system calls (\<open>kernel/sysproc.c\<close>) and the dispatcher (\<open>kernel/syscall.c\<close>). A call
  ends with a result for \<open>a0\<close>, blocked in \<open>sleep\<close>, or, after \<open>exit\<close>, without ever returning.
\<close>

datatype sysend = Ret int | Blocked chan nat | Gone

definition ends :: "(int outcome \<times> kst) res \<Rightarrow> (sysend \<times> kst) res" where
  "ends r = seq r (\<lambda>(x, s). Ok (case x of Returned v \<Rightarrow> Ret v | Sleeping c k \<Rightarrow> Blocked c k, s))"

definition sys_exit :: "kst \<Rightarrow> (sysend \<times> kst) res" where
  "sys_exit s = seq (argraw 0 s) (\<lambda>n. seq (exit n s) (\<lambda>s. Ok (Gone, s)))"

definition sys_getpid :: sys where
  "sys_getpid s = seq (mypid s) (\<lambda>p. ret p s)"

definition sys_fork :: "ksyms \<Rightarrow> sys" where
  "sys_fork K s = seq (fork K s) (\<lambda>(r, s). ret r s)"

definition sys_wait :: sys where
  "sys_wait s = seq (argaddr 0 s) (\<lambda>p. wait p s)"

definition sys_sbrk :: sys where
  "sys_sbrk s =
     seq (argint 0 s) (\<lambda>n.
     seq (me s) (\<lambda>i.
       let addr = sz (procs (sch s) ! i)
       in seq (growproc n s) (\<lambda>(r, s). ret (if r < 0 then -1 else sint addr) s)))"

text \<open>
  The loop of \<open>sys_sleep\<close> for a call that began at tick \<open>ticks0\<close>, which is what it is resumed
  with; \<open>n\<close> is compared as an unsigned number.
\<close>

definition sleep_loop :: "u32 \<Rightarrow> u32 \<Rightarrow> sys" where
  "sleep_loop ticks0 n s =
     seq (me s) (\<lambda>i.
       if ticks s - ticks0 < n
       then if is_killed i s then ret (-1) s else Ok (Sleeping ChanTicks (unat ticks0), s)
       else ret 0 s)"

definition sys_sleep :: sys where
  "sys_sleep s = seq (argraw 0 s) (\<lambda>n. sleep_loop (ticks s) n s)"

text \<open>\<open>kill\<close> with its lock operations left out (theory Proc_Sched has them).\<close>

definition kkill :: "int \<Rightarrow> kst \<Rightarrow> int \<times> kst" where
  "kkill n s = (case kill_procs n [0..<NPROC] (procs (sch s)) of (r, ps) \<Rightarrow> (r, set_procs ps s))"

definition sys_kill :: sys where
  "sys_kill s = seq (argint 0 s) (\<lambda>n. case kkill n s of (r, s) \<Rightarrow> ret r s)"

definition sys_uptime :: sys where
  "sys_uptime s = ret (sint (ticks s)) s"

definition sys_memory :: sys where
  "sys_memory s = (case kmemory (ph s) of None \<Rightarrow> Fail Diverges | Some n \<Rightarrow> ret (int n) s)"

subsection \<open>The dispatcher\<close>

definition syscalls :: "ksyms \<Rightarrow> u8 list \<Rightarrow> int \<Rightarrow> (kst \<Rightarrow> (sysend \<times> kst) res) option" where
  "syscalls K pad n =
     (if n = 1 then Some (\<lambda>s. ends (sys_fork K s))
      else if n = 2 then Some sys_exit
      else if n = 3 then Some (\<lambda>s. ends (sys_wait s))
      else if n = 4 then Some (\<lambda>s. ends (sys_pipe s))
      else if n = 5 then Some (\<lambda>s. ends (sys_read s))
      else if n = 6 then Some (\<lambda>s. ends (sys_kill s))
      else if n = 7 then Some (\<lambda>s. ends (sys_exec K s))
      else if n = 8 then Some (\<lambda>s. ends (sys_fstat pad s))
      else if n = 9 then Some (\<lambda>s. ends (sys_chdir s))
      else if n = 10 then Some (\<lambda>s. ends (sys_dup s))
      else if n = 11 then Some (\<lambda>s. ends (sys_getpid s))
      else if n = 12 then Some (\<lambda>s. ends (sys_sbrk s))
      else if n = 13 then Some (\<lambda>s. ends (sys_sleep s))
      else if n = 14 then Some (\<lambda>s. ends (sys_uptime s))
      else if n = 15 then Some (\<lambda>s. ends (sys_open s))
      else if n = 16 then Some (\<lambda>s. ends (sys_write s))
      else if n = 17 then Some (\<lambda>s. ends (sys_mknod s))
      else if n = 18 then Some (\<lambda>s. ends (sys_unlink s))
      else if n = 19 then Some (\<lambda>s. ends (sys_link s))
      else if n = 20 then Some (\<lambda>s. ends (sys_mkdir s))
      else if n = 21 then Some (\<lambda>s. ends (sys_close s))
      else if n = 22 then Some (\<lambda>s. ends (sys_memory s))
      else None)"

definition syscall :: "ksyms \<Rightarrow> u8 list \<Rightarrow> kst \<Rightarrow> (sysend \<times> kst) res" where
  "syscall K pad s =
     seq (me s) (\<lambda>i.
       let num = sint (tf_get i TF_a7 s)
       in case syscalls K pad num of
            Some f \<Rightarrow>
              seq (f s) (\<lambda>(x, s).
                Ok (x, case x of Ret v \<Rightarrow> tf_set i TF_a0 (word_of_int v) s | _ \<Rightarrow> s))
          | None \<Rightarrow>
              let p = procs (sch s) ! i
              in seq (kprintf (ascii ''%d %s: unknown sys call %d'' @ [10])
                   [PInt (word_of_int (pid p)), PStr (Some (pname p)), PInt (word_of_int num)] s) (\<lambda>s.
                 Ok (Ret (-1), tf_set i TF_a0 (-1) s)))"

end
