(* ===== verification/Trap.thy ===== *)
theory Trap
  imports Syscall
begin

text \<open>
  Traps (\<open>kernel/trap.c\<close>) and the interrupt controller (\<open>kernel/plic.c\<close>). The control and
  status registers are a record; the interrupt controller answers each claim with the next
  element of \<open>plic_claims\<close>. A trap from user mode ends on the way back to user mode, in
  \<open>yield\<close>, blocked in a system call, or with the process gone.
\<close>

record csrs =
  scause :: u32
  sepc :: u32
  stval :: u32
  sstatus :: u32
  stvec :: u32
  satp :: u32
  sip :: u32
  plic_claims :: "u32 list"
  plic_writes :: "(u32 \<times> u32) list"

definition SSTATUS_SPP :: u32 where "SSTATUS_SPP = push_bit 8 1"
definition SSTATUS_SPIE :: u32 where "SSTATUS_SPIE = push_bit 5 1"
definition SSTATUS_SIE :: u32 where "SSTATUS_SIE = push_bit 1 1"

definition MAKE_SATP :: "u32 \<Rightarrow> u32" where
  "MAKE_SATP pt = push_bit 31 1 OR drop_bit 12 pt"

subsection \<open>The interrupt controller\<close>

definition PLIC :: u32 where "PLIC = 0x0c000000"
definition UART0_IRQ :: u32 where "UART0_IRQ = 10"
definition PLIC_SENABLE :: "u32 \<Rightarrow> u32" where "PLIC_SENABLE h = PLIC + 0x2080 + h * 0x100"
definition PLIC_SPRIORITY :: "u32 \<Rightarrow> u32" where "PLIC_SPRIORITY h = PLIC + 0x201000 + h * 0x2000"
definition PLIC_SCLAIM :: "u32 \<Rightarrow> u32" where "PLIC_SCLAIM h = PLIC + 0x201004 + h * 0x2000"

definition plic_write :: "u32 \<Rightarrow> u32 \<Rightarrow> csrs \<Rightarrow> csrs" where
  "plic_write a v c = c\<lparr>plic_writes := (a, v) # plic_writes c\<rparr>"

definition plicinit :: "csrs \<Rightarrow> csrs" where
  "plicinit c = plic_write (PLIC + UART0_IRQ * 4) 1 c"

definition plicinithart :: "csrs \<Rightarrow> csrs" where
  "plicinithart c =
     plic_write (PLIC_SPRIORITY 0) 0 (plic_write (PLIC_SENABLE 0) (push_bit (unat UART0_IRQ) 1) c)"

definition plic_claim :: "csrs \<Rightarrow> u32 \<times> csrs" where
  "plic_claim c = (case plic_claims c of [] \<Rightarrow> (0, c) | q # qs \<Rightarrow> (q, c\<lparr>plic_claims := qs\<rparr>))"

definition plic_complete :: "u32 \<Rightarrow> csrs \<Rightarrow> csrs" where
  "plic_complete irq c = plic_write (PLIC_SCLAIM 0) irq c"

subsection \<open>Device and timer interrupts\<close>

definition clockintr :: "kst \<Rightarrow> kst" where
  "clockintr s = kwakeup ChanTicks (s\<lparr>ticks := ticks s + 1\<rparr>)"

definition devintr :: "csrs \<Rightarrow> kst \<Rightarrow> (int \<times> csrs \<times> kst) res" where
  "devintr c s =
     (if scause c AND 0x80000000 \<noteq> 0 \<and> scause c AND 0xff = 9
      then case plic_claim c of (irq, c) \<Rightarrow>
        seq (if irq = UART0_IRQ then uartintr s
             else if irq \<noteq> 0 then kprintf (ascii ''unexpected interrupt irq=%d'' @ [10]) [PInt irq] s
             else Ok s) (\<lambda>s.
          Ok (1, if irq \<noteq> 0 then plic_complete irq c else c, s))
      else if scause c = 0x80000001
      then Ok (2, c\<lparr>sip := sip c AND NOT 2\<rparr>, clockintr s)
      else Ok (0, c, s))"

subsection \<open>Traps from user mode\<close>

datatype trapend = ToUser u32 | Yields | Blocks chan nat | Exits

text \<open>\<open>usertrapret\<close> up to the jump to \<open>userret\<close>, whose argument is the result.\<close>

definition usertrapret :: "ksyms \<Rightarrow> nat \<Rightarrow> csrs \<Rightarrow> kst \<Rightarrow> u32 \<times> csrs \<times> kst" where
  "usertrapret K i c s =
     (let c = c\<lparr>sstatus := sstatus c AND NOT SSTATUS_SIE\<rparr>;
          c = c\<lparr>stvec := TRAMPOLINE + (sym_uservec K - sym_trampoline K)\<rparr>;
          s = tf_set i TF_kernel_satp (satp c) s;
          s = tf_set i TF_kernel_sp (kstack (procs (sch s) ! i) + PGSIZE) s;
          s = tf_set i TF_kernel_trap (sym_usertrap K) s;
          s = tf_set i TF_kernel_hartid 0 s;
          c = c\<lparr>sstatus := (sstatus c AND NOT SSTATUS_SPP) OR SSTATUS_SPIE\<rparr>;
          c = c\<lparr>sepc := tf_get i TF_epc s\<rparr>
      in (MAKE_SATP (pagetable (procs (sch s) ! i)), c, s))"

definition setkilled_k :: "nat \<Rightarrow> kst \<Rightarrow> kst" where
  "setkilled_k i s = upd_my i (killed_update (\<lambda>_. 1)) s"

text \<open>The end of \<open>usertrap\<close>, after the trap has been handled.\<close>

definition usertrap_end ::
  "ksyms \<Rightarrow> nat \<Rightarrow> int \<Rightarrow> csrs \<Rightarrow> kst \<Rightarrow> (trapend \<times> csrs \<times> kst) res" where
  "usertrap_end K i which_dev c s =
     (if is_killed i s then seq (exit (-1) s) (\<lambda>s. Ok (Exits, c, s))
      else if which_dev = 2 then Ok (Yields, c, s)
      else case usertrapret K i c s of (v, c, s) \<Rightarrow> Ok (ToUser v, c, s))"

definition usertrap :: "ksyms \<Rightarrow> u8 list \<Rightarrow> csrs \<Rightarrow> kst \<Rightarrow> (trapend \<times> csrs \<times> kst) res" where
  "usertrap K pad c s =
     (if sstatus c AND SSTATUS_SPP \<noteq> 0 then Fail (Panic ''usertrap: not from user mode'')
      else
        let c = c\<lparr>stvec := sym_kernelvec K\<rparr>
        in seq (me s) (\<lambda>i.
          let s = tf_set i TF_epc (sepc c) s
          in if scause c = 8
             then if is_killed i s then seq (exit (-1) s) (\<lambda>s. Ok (Exits, c, s))
                  else
                    let s = tf_set i TF_epc (tf_get i TF_epc s + 4) s;
                        c = c\<lparr>sstatus := sstatus c OR SSTATUS_SIE\<rparr>
                    in seq (syscall K pad s) (\<lambda>(x, s).
                         case x of
                           Ret _ \<Rightarrow> usertrap_end K i 0 c s
                         | Blocked ch k \<Rightarrow> Ok (Blocks ch k, c, s)
                         | Gone \<Rightarrow> Ok (Exits, c, s))
             else seq (devintr c s) (\<lambda>(which_dev, c, s).
               if which_dev \<noteq> 0 then usertrap_end K i which_dev c s
               else
                 seq (kprintf (ascii ''usertrap(): unexpected scause %p pid=%d'' @ [10])
                        [PPtr (scause c), PInt (word_of_int (pid (procs (sch s) ! i)))] s) (\<lambda>s.
                 seq (kprintf (ascii ''            sepc=%p stval=%p'' @ [10]) [PPtr (sepc c), PPtr (stval c)] s) (\<lambda>s.
                   usertrap_end K i 0 c (setkilled_k i s))))))"

subsection \<open>Traps from the kernel\<close>

text \<open>
  \<open>True\<close> when the interrupted process yields; afterwards \<open>sepc\<close> and \<open>sstatus\<close> are restored.
\<close>

definition kerneltrap :: "csrs \<Rightarrow> kst \<Rightarrow> (bool \<times> csrs \<times> kst) res" where
  "kerneltrap c s =
     (let pc = sepc c; st = sstatus c
      in if st AND SSTATUS_SPP = 0 then Fail (Panic ''kerneltrap: not from supervisor mode'')
         else if st AND SSTATUS_SIE \<noteq> 0 then Fail (Panic ''kerneltrap: interrupts enabled'')
         else seq (devintr c s) (\<lambda>(which_dev, c, s).
           if which_dev = 0
           then seq (kprintf (ascii ''scause %p'' @ [10]) [PPtr (scause c)] s) (\<lambda>s.
                seq (kprintf (ascii ''sepc=%p stval=%p'' @ [10]) [PPtr (sepc c), PPtr (stval c)] s) (\<lambda>s.
                  Fail (Panic ''kerneltrap'')))
           else
             let yields = (which_dev = 2 \<and>
                   (case cur (sch s) of None \<Rightarrow> False | Some i \<Rightarrow> state (procs (sch s) ! i) = RUNNING))
             in Ok (yields, c\<lparr>sepc := pc, sstatus := st\<rparr>, s)))"

definition trapinithart :: "ksyms \<Rightarrow> csrs \<Rightarrow> csrs" where
  "trapinithart K c = c\<lparr>stvec := sym_kernelvec K\<rparr>"

text \<open>The first run of a process: once in the life of the system it initialises the file system.\<close>

definition forkret :: "ksyms \<Rightarrow> bool \<Rightarrow> csrs \<Rightarrow> kst \<Rightarrow> (u32 \<times> csrs \<times> kst) res" where
  "forkret K first c s =
     seq (me s) (\<lambda>i.
     seq (if first then fsinit ROOTDEV s else Ok s) (\<lambda>s. Ok (usertrapret K i c s)))"

end
