(* ===== verification/Boot.thy ===== *)
theory Boot
  imports Trap Sdcard
begin

text \<open>
  Start-up: the machine-mode entry (\<open>kernel/start.c\<close>), the kernel page table
  (\<open>kernel/vm.c\<close>) and the order of initialisation (\<open>kernel/main.c\<close>) on the one hart. The
  assembly that enters \<open>start\<close> is not modelled.
\<close>

subsection \<open>Machine mode\<close>

record mregs =
  mstatus :: u32
  mepc :: u32
  m_satp :: u32
  medeleg :: u32
  mideleg :: u32
  m_sie :: u32
  mie :: u32
  mtvec :: u32
  mscratch :: u32
  m_tp :: u32
  mtime_reg :: "64 word"
  mtimecmp :: "64 word"
  tscratch :: "u32 list"

definition CLINT_MTIMECMP :: "u32 \<Rightarrow> u32" where
  "CLINT_MTIMECMP h = 0x2000000 + 0x4000 + 8 * h"

definition timer_interval :: u32 where "timer_interval = 3200000"

definition timerinit :: "ksyms \<Rightarrow> u32 \<Rightarrow> mregs \<Rightarrow> mregs" where
  "timerinit K hart r =
     (let r = r\<lparr>mtimecmp := mtime_reg r + ucast timer_interval\<rparr>;
          r = r\<lparr>tscratch := (tscratch r)[4 := CLINT_MTIMECMP hart, 5 := timer_interval]\<rparr>;
          r = r\<lparr>mscratch := sym_scratch K + 24 * hart\<rparr>;
          r = r\<lparr>mtvec := sym_timervec K\<rparr>;
          r = r\<lparr>mstatus := mstatus r OR push_bit 3 1\<rparr>
      in r\<lparr>mie := mie r OR push_bit 7 1\<rparr>)"

definition start :: "ksyms \<Rightarrow> u32 \<Rightarrow> mregs \<Rightarrow> mregs" where
  "start K hart r =
     (let r = r\<lparr>mstatus := (mstatus r AND NOT (push_bit 11 3)) OR push_bit 11 1\<rparr>;
          r = r\<lparr>mepc := sym_main K\<rparr>;
          r = r\<lparr>m_satp := 0, medeleg := 0xffff, mideleg := 0xffff\<rparr>;
          r = r\<lparr>m_sie := m_sie r OR push_bit 9 1 OR push_bit 5 1 OR push_bit 1 1\<rparr>;
          r = timerinit K hart r
      in r\<lparr>m_tp := hart\<rparr>)"

subsection \<open>The kernel page table\<close>

definition UART0 :: u32 where "UART0 = 0x10000000"
definition SDCARD :: u32 where "SDCARD = 0x10001000"

definition kvmmake :: "ksyms \<Rightarrow> phys \<Rightarrow> (u32 \<times> phys) res" where
  "kvmmake K s =
     (case kalloc s of (pt, s) \<Rightarrow>
        let s = s\<lparr>pmem := memset (pmem s) pt 0 PGSIZE\<rparr>; etext = sym_etext K
        in seq (kvmmap pt UART0 UART0 PGSIZE (PTE_R OR PTE_W) s) (\<lambda>s.
           seq (kvmmap pt SDCARD SDCARD PGSIZE (PTE_R OR PTE_W) s) (\<lambda>s.
           seq (kvmmap pt PLIC PLIC 0x400000 (PTE_R OR PTE_W) s) (\<lambda>s.
           seq (kvmmap pt KERNBASE KERNBASE (etext - KERNBASE) (PTE_R OR PTE_X) s) (\<lambda>s.
           seq (kvmmap pt etext etext (PHYSTOP - etext) (PTE_R OR PTE_W) s) (\<lambda>s.
           seq (kvmmap pt TRAMPOLINE (sym_trampoline K) PGSIZE (PTE_R OR PTE_X) s) (\<lambda>s.
           seq (proc_mapstacks pt s) (\<lambda>s. Ok (pt, s)))))))))"

definition kvminit :: "ksyms \<Rightarrow> kst \<Rightarrow> kst res" where
  "kvminit K s = seq (kvmmake K (ph s)) (\<lambda>(pt, m). Ok ((upd_ph m s)\<lparr>kpt := pt\<rparr>))"

definition kvminithart :: "kst \<Rightarrow> csrs \<Rightarrow> csrs" where
  "kvminithart s c = c\<lparr>satp := MAKE_SATP (kpt s)\<rparr>"

subsection \<open>main\<close>

definition kmain ::
  "ksyms \<Rightarrow> 'd xfer \<Rightarrow> csrs \<Rightarrow> 'd spi \<Rightarrow> kst \<Rightarrow> (csrs \<times> 'd spi \<times> kst) res" where
  "kmain K xfer c d s =
     (let s = consoleinit s
      in seq (kprintf [10] [] s) (\<lambda>s.
         seq (kprintf (ascii ''xv6 kernel is booting'' @ [10]) [] s) (\<lambda>s.
         seq (kprintf [10] [] s) (\<lambda>s.
         seq (kinit (ph s)) (\<lambda>m.
         seq (kvminit K (upd_ph m s)) (\<lambda>s.
           let c = kvminithart s c; s = procinit s; c = trapinithart K c;
               c = plicinithart (plicinit c); s = iinit (binit s); d = spi_init xfer d
           in seq (userinit K s) (\<lambda>s. Ok (c, d, s))))))))"

end
