(* ===== verification/User_Ulib.thy ===== *)
theory User_Ulib
  imports Kstring Printf_Props
begin

text \<open>
  The C library of the user programs (\<open>user/ulib.c\<close>, \<open>user/printf.c\<close>) over the byte memory of
  a process; formatted output as the bytes given to \<open>write\<close>, one at a time. \<open>char\<close> is unsigned
  on this machine. The functions on strings stop at a NUL and run on without one, so they are
  partial; input comes in the pieces that \<open>read\<close> returns. The program's \<open>memmove\<close> is shown equal
  to the kernel's, and \<open>atoi\<close> to read back what \<open>printf\<close> writes.
\<close>

subsection \<open>Strings\<close>

partial_function (option) strcpy_from :: "mem \<Rightarrow> u32 \<Rightarrow> u32 \<Rightarrow> mem option" where
  "strcpy_from m s t =
     (let m' = m(s := m t) in if m t \<noteq> 0 then strcpy_from m' (s + 1) (t + 1) else Some m')"

definition strcpy :: "mem \<Rightarrow> u32 \<Rightarrow> u32 \<Rightarrow> mem option" where
  "strcpy m s t = strcpy_from m s t"

partial_function (option) strcmp :: "mem \<Rightarrow> u32 \<Rightarrow> u32 \<Rightarrow> int option" where
  "strcmp m p q = (if m p \<noteq> 0 \<and> m p = m q then strcmp m (p + 1) (q + 1) else Some (uint (m p) - uint (m q)))"

partial_function (option) ustrlen_from :: "mem \<Rightarrow> u32 \<Rightarrow> nat \<Rightarrow> nat option" where
  "ustrlen_from m s n = (if m (s + of_nat n) \<noteq> 0 then ustrlen_from m s (Suc n) else Some n)"

definition ustrlen :: "mem \<Rightarrow> u32 \<Rightarrow> nat option" where
  "ustrlen m s = ustrlen_from m s 0"

text \<open>The address of the first \<open>c\<close>, or 0 when the string ends before it.\<close>

partial_function (option) strchr :: "mem \<Rightarrow> u32 \<Rightarrow> u8 \<Rightarrow> u32 option" where
  "strchr m s c = (if m s \<noteq> 0 then if m s = c then Some s else strchr m (s + 1) c else Some 0)"

text \<open>The counter of \<open>memset\<close> is an \<open>int\<close> compared with the \<open>uint\<close> count, so as unsigned.\<close>

primrec umemset_from :: "nat \<Rightarrow> mem \<Rightarrow> u32 \<Rightarrow> u8 \<Rightarrow> nat \<Rightarrow> mem" where
  "umemset_from i m dst c 0 = m"
| "umemset_from i m dst c (Suc k) = umemset_from (Suc i) (m(dst + of_nat i := c)) dst c k"

definition umemset :: "mem \<Rightarrow> u32 \<Rightarrow> u32 \<Rightarrow> u32 \<Rightarrow> mem" where
  "umemset m dst c n = umemset_from 0 m dst (ucast c) (unat n)"

primrec umemcmp_loop :: "mem \<Rightarrow> u32 \<Rightarrow> u32 \<Rightarrow> nat \<Rightarrow> int" where
  "umemcmp_loop m p1 p2 0 = 0"
| "umemcmp_loop m p1 p2 (Suc n) =
     (if m p1 \<noteq> m p2 then uint (m p1) - uint (m p2) else umemcmp_loop m (p1 + 1) (p2 + 1) n)"

definition umemcmp :: "mem \<Rightarrow> u32 \<Rightarrow> u32 \<Rightarrow> u32 \<Rightarrow> int" where
  "umemcmp m s1 s2 n = umemcmp_loop m s1 s2 (unat n)"

primrec move_up :: "mem \<Rightarrow> u32 \<Rightarrow> u32 \<Rightarrow> nat \<Rightarrow> mem" where
  "move_up m dst src 0 = m"
| "move_up m dst src (Suc n) = move_up (m(dst := m src)) (dst + 1) (src + 1) n"

primrec move_down :: "mem \<Rightarrow> u32 \<Rightarrow> u32 \<Rightarrow> nat \<Rightarrow> mem" where
  "move_down m dst src 0 = m"
| "move_down m dst src (Suc n) = move_down (m(dst - 1 := m (src - 1))) (dst - 1) (src - 1) n"

definition umemmove :: "mem \<Rightarrow> u32 \<Rightarrow> u32 \<Rightarrow> int \<Rightarrow> mem" where
  "umemmove m dst src n =
     (if src > dst then move_up m dst src (nat n)
      else move_down m (dst + word_of_int n) (src + word_of_int n) (nat n))"

definition umemcpy :: "mem \<Rightarrow> u32 \<Rightarrow> u32 \<Rightarrow> u32 \<Rightarrow> mem" where
  "umemcpy m dst src n = umemmove m dst src (sint n)"

text \<open>A string that is never written is the list of its bytes: \<open>s[i]\<close>, the NUL included.\<close>

definition char_in :: "u8 list \<Rightarrow> nat \<Rightarrow> u8" where
  "char_in s i = (if i < length s then s ! i else 0)"

lemma char_in_0 [simp]: "char_in [] i = 0" "char_in (c # s) 0 = c" "char_in (c # s) (Suc i) = char_in s i"
  by (simp_all add: char_in_def)

lemma char_in_nonzero: "char_in s i \<noteq> 0 \<Longrightarrow> i < length s"
  by (auto simp: char_in_def split: if_splits)

subsection \<open>Numbers and input\<close>

partial_function (option) atoi_from :: "mem \<Rightarrow> u32 \<Rightarrow> u32 \<Rightarrow> u32 option" where
  "atoi_from m s n =
     (if 48 \<le> m s \<and> m s \<le> 57 then atoi_from m (s + 1) (n * 10 + ucast (m s) - 48) else Some n)"

definition atoi :: "mem \<Rightarrow> u32 \<Rightarrow> u32 option" where
  "atoi m s = atoi_from m s 0"

text \<open>What \<open>read\<close> returns: the pieces of input there are, no more than asked for; \<open>[]\<close> at the end.\<close>

fun read_piece :: "nat \<Rightarrow> u8 list list \<Rightarrow> u8 list \<times> u8 list list" where
  "read_piece n [] = ([], [])"
| "read_piece n (p # ps) = (take n p, if length p \<le> n then ps else drop n p # ps)"

lemma read_piece_eq: "read_piece n ps = (d, ps') \<Longrightarrow> concat ps = d @ concat ps'"
  by (cases "(n, ps)" rule: read_piece.cases) (auto split: if_splits)

lemma read_piece_less:
  "read_piece n ps = (d, ps') \<Longrightarrow> d \<noteq> [] \<Longrightarrow> length (concat ps') < length (concat ps)"
  using read_piece_eq [of n ps d ps'] by simp

text \<open>\<open>gets\<close> with room for \<open>k\<close> more bytes: the bytes stored before the NUL.\<close>

primrec gets_from :: "nat \<Rightarrow> u8 list list \<Rightarrow> u8 list \<times> u8 list list" where
  "gets_from 0 inp = ([], inp)"
| "gets_from (Suc k) inp =
     (case read_piece 1 inp of
        ([], inp) \<Rightarrow> ([], inp)
      | (c # _, inp) \<Rightarrow>
          if c = 10 \<or> c = 13 then ([c], inp)
          else case gets_from k inp of (cs, inp) \<Rightarrow> (c # cs, inp))"

definition gets :: "int \<Rightarrow> u8 list list \<Rightarrow> u8 list \<times> u8 list list" where
  "gets maxn inp = (case gets_from (nat (maxn - 1)) inp of (cs, inp) \<Rightarrow> (cs @ [0], inp))"

subsection \<open>printf.c\<close>

datatype uarg = UInt u32 | UStr "u8 list option"

definition udigits :: "u8 list" where
  "udigits = map of_nat [48, 49, 50, 51, 52, 53, 54, 55, 56, 57, 65, 66, 67, 68, 69, 70]"

definition UBUF :: nat where "UBUF = 16"

primrec udigits_from :: "nat \<Rightarrow> u32 \<Rightarrow> u32 \<Rightarrow> u8 list res" where
  "udigits_from 0 x base = Fail OutOfBounds"
| "udigits_from (Suc k) x base =
     (let d = udigits ! unat (x mod base)
      in if x div base \<noteq> 0 then seq (udigits_from k (x div base) base) (\<lambda>ds. Ok (d # ds)) else Ok [d])"

definition uprintint :: "u32 \<Rightarrow> u32 \<Rightarrow> bool \<Rightarrow> u8 list res" where
  "uprintint xx base sg =
     (let neg = (sg \<and> sint xx < 0); x = (if neg then - xx else xx)
      in seq (udigits_from UBUF x base) (\<lambda>ds.
           if \<not> neg then Ok (rev ds)
           else if length ds = UBUF then Fail OutOfBounds
           else Ok (rev (ds @ [45]))))"

primrec uprintptr_from :: "nat \<Rightarrow> u32 \<Rightarrow> u8 list" where
  "uprintptr_from 0 x = []"
| "uprintptr_from (Suc k) x = udigits ! unat (drop_bit 28 x) # uprintptr_from k (push_bit 4 x)"

definition uprintptr :: "u32 \<Rightarrow> u8 list" where
  "uprintptr x = [48, 120] @ uprintptr_from 8 x"

text \<open>The character after a percent sign: what it prints and the arguments left.\<close>

definition uconv :: "u8 \<Rightarrow> uarg list \<Rightarrow> (u8 list \<times> uarg list) res" where
  "uconv c args =
     (let num = (\<lambda>f. case args of UInt x # rest \<Rightarrow> seq (f x) (\<lambda>b. Ok (b, rest)) | _ \<Rightarrow> Fail OutOfBounds)
      in if c = 100 then num (\<lambda>x. uprintint x 10 True)
         else if c = 108 then num (\<lambda>x. uprintint x 10 False)
         else if c = 120 then num (\<lambda>x. uprintint x 16 False)
         else if c = 112 then num (\<lambda>x. Ok (uprintptr x))
         else if c = 115 then
           (case args of
              UStr None # rest \<Rightarrow> Ok (null_string, rest)
            | UStr (Some t) # rest \<Rightarrow> Ok (takeWhile (\<lambda>b. b \<noteq> 0) t, rest)
            | _ \<Rightarrow> Fail OutOfBounds)
         else if c = 99 then num (\<lambda>x. Ok [ucast x])
         else if c = 37 then Ok ([37], args)
         else Ok ([37, c], args))"

text \<open>The flag is the state of the loop: a percent sign has been read.\<close>

fun vprintf_from :: "bool \<Rightarrow> u8 list \<Rightarrow> uarg list \<Rightarrow> u8 list res" where
  "vprintf_from pct [] args = Ok []"
| "vprintf_from False (c # fmt) args =
     (if c = 37 then vprintf_from True fmt args
      else seq (vprintf_from False fmt args) (\<lambda>b. Ok (c # b)))"
| "vprintf_from True (c # fmt) args =
     seq (uconv c args) (\<lambda>(b, args). seq (vprintf_from False fmt args) (\<lambda>b'. Ok (b @ b')))"

definition vprintf :: "u8 list \<Rightarrow> uarg list \<Rightarrow> u8 list res" where
  "vprintf fmt args = vprintf_from False fmt args"

subsection \<open>The two memmoves\<close>

lemma move_up_forward: "move_up m d s n = copy_forward m d s n"
  by (induction n arbitrary: m d s) simp_all

lemma move_down_backward: "move_down m d s n = copy_backward m d s n"
  by (induction n arbitrary: m d s) simp_all

lemma umemmove_fill:
  assumes "no_wrap dst n" "no_wrap src n"
  shows "umemmove m dst src (uint n) = fill m dst (unat n) (\<lambda>i. m (src + of_nat i))"
proof -
  have n: "unat n \<le> 2 ^ 32" by (rule unat_u32_le)
  show ?thesis
  proof (cases "src > dst")
    case True
    then have "\<not> (0 < unat (dst - src) \<and> unat (dst - src) < unat n)"
      using assms unfolding no_wrap_def unat_sub_eq
      by (auto simp: word_less_nat_alt word_le_nat_alt)
    then show ?thesis
      using copy_forward_fill [OF n, of dst src m] True by (simp add: umemmove_def move_up_forward)
  next
    case False
    then have "\<not> (0 < unat (src - dst) \<and> unat (src - dst) < unat n)"
      using assms unfolding no_wrap_def unat_sub_eq
      by (auto simp: word_less_nat_alt word_le_nat_alt)
    then show ?thesis
      using copy_backward_fill [OF n, of src dst m] False by (simp add: umemmove_def move_down_backward)
  qed
qed

subsection \<open>atoi\<close>

lemma udigits_base10: "udigits_from k x 10 = digits_from k x 10"
proof (induction k arbitrary: x)
  case (Suc k)
  have "unat (x mod 10) < 10" by (simp add: unat_mod_distrib)
  then have "udigits ! unat (x mod 10) = digits ! unat (x mod 10)"
    by (simp add: udigits_def digits_def nth_Cons' )
  then show ?case using Suc by (simp add: Let_def)
qed simp

definition decimal :: "u8 \<Rightarrow> bool" where
  "decimal c \<longleftrightarrow> 48 \<le> c \<and> c \<le> 57"

lemma digits_decimal:
  assumes "n < 10" shows "decimal (digits ! n)"
proof -
  have "\<forall>i \<in> set [0..<10]. decimal (digits ! i)" by (simp add: upt_rec digits_def decimal_def)
  then show ?thesis using assms by auto
qed

lemma digits_from_decimal: "digits_from k x 10 = Ok ds \<Longrightarrow> \<forall>c \<in> set ds. decimal c"
proof (induction k arbitrary: x ds)
  case (Suc k)
  have "decimal (digits ! unat (x mod 10))" by (rule digits_decimal) (simp add: unat_mod_distrib)
  then show ?case using Suc by (auto simp: Let_def seq_eq_Ok split: if_splits)
qed simp

lemma decimal_value:
  assumes "decimal c" shows "of_nat v * 10 + ucast c - 48 = (of_nat (10 * v + digit_value c) :: u32)"
proof -
  have c: "48 \<le> unat c" "unat c \<le> 57" "c < 58" using assms by (auto simp: decimal_def word_le_nat_alt word_less_nat_alt)
  have "(ucast c :: u32) = of_nat (unat c)" by (simp add: unsigned_of_nat)
  moreover have "(of_nat (unat c - 48) :: u32) = of_nat (unat c) - 48" using c(1) by (simp add: of_nat_diff)
  ultimately show ?thesis using c(3) by (simp add: digit_value_def)
qed

lemma atoi_from_reads:
  assumes "cstring m s cs" "\<forall>c \<in> set cs. decimal c"
  shows "atoi_from m s (of_nat v) = Some (of_nat (number_of 10 v cs))"
  using assms
proof (induction cs arbitrary: s v)
  case Nil
  then show ?case by (subst atoi_from.simps) simp
next
  case (Cons c cs)
  have c: "m s = c" "cstring m (s + 1) cs" "decimal c" using Cons.prems by (auto simp: cstring_Cons)
  have "atoi_from m s (of_nat v) = atoi_from m (s + 1) (of_nat v * 10 + ucast c - 48)"
    using c by (subst atoi_from.simps) (simp add: decimal_def)
  also have "\<dots> = atoi_from m (s + 1) (of_nat (10 * v + digit_value c))" unfolding decimal_value [OF c(3)] ..
  also have "\<dots> = Some (of_nat (number_of 10 (10 * v + digit_value c) cs))"
    by (rule Cons.IH [OF c(2)]) (use Cons.prems(2) in simp)
  finally show ?case by simp
qed

subsection \<open>Properties\<close>

text \<open>
  The user library's \<open>memmove\<close>, which copies down whenever the source is not above the
  destination, and the kernel's, which copies down only when the areas overlap that way, agree on
  every memory and every pair of areas inside the address space.
\<close>

theorem umemmove_is_memmove:
  assumes "no_wrap dst n" "no_wrap src n"
  shows "umemmove m dst src (uint n) = memmove m dst src n"
  unfolding umemmove_fill [OF assms] memmove_fill [OF assms] ..

lemma umemmove_is_memmove_witness:
  "umemmove (\<lambda>a. ucast a) 0x1001 0x1000 (uint (5 :: u32)) = memmove (\<lambda>a. ucast a) 0x1001 0x1000 5"
  by (rule umemmove_is_memmove) (simp_all add: no_wrap_def)

text \<open>
  \<open>atoi\<close> reads back what \<open>printf\<close> prints: for every 32-bit value the unsigned conversion of
  the user library's \<open>printint\<close> returns, within its buffer, and \<open>atoi\<close> on the printed characters,
  stored anywhere with a NUL behind them, returns the value, whatever its size.
\<close>

theorem atoi_reads_printint:
  "\<exists>cs. uprintint x 10 False = Ok cs \<and> length cs \<le> 10 \<and>
     (\<forall>m s. atoi (fill m s (length cs + 1) (\<lambda>i. (cs @ [0]) ! i)) s = Some x)"
proof -
  have lt: "unat x < unat (10 :: u32) ^ 10"
    using unat_u32_lt [of x] by (rule less_le_trans) simp
  obtain ds where ds: "digits_from UBUF x 10 = Ok ds" "number_of 10 0 (rev ds) = unat x" "length ds \<le> 10"
    using digits_from_spec [OF lt, of UBUF] by (auto simp: UBUF_def)
  have "uprintint x 10 False = Ok (rev ds)" using ds(1) by (simp add: uprintint_def udigits_base10)
  moreover have "atoi (fill m s (length (rev ds) + 1) (\<lambda>i. (rev ds @ [0]) ! i)) s = Some x" for m s
  proof -
    let ?m = "fill m s (length (rev ds) + 1) (\<lambda>i. (rev ds @ [0]) ! i)"
    have nz: "c \<noteq> 0" if "c \<in> set ds" for c
      using digits_from_decimal [OF ds(1)] that by (auto simp: decimal_def)
    have at: "?m (s + of_nat i) = (rev ds @ [0]) ! i" if "i < length ds + 1" for i
      using that ds(3) by (subst fill_in) simp_all
    have "cstring ?m s (rev ds)"
      unfolding cstring_def
    proof (intro conjI allI impI)
      fix i assume i: "i < length (rev ds)"
      show "?m (s + of_nat i) = rev ds ! i" using at [of i] i by (simp add: nth_append)
      have "rev ds ! i \<in> set ds" using i nth_mem [OF i] by simp
      then show "rev ds ! i \<noteq> 0" by (rule nz)
    next
      have "(rev ds @ [0]) ! length (rev ds) = 0" by (rule nth_append_length)
      then show "?m (s + of_nat (length (rev ds))) = 0" using at [of "length ds"] by simp
    qed
    then show ?thesis
      using atoi_from_reads [of ?m s "rev ds" 0] digits_from_decimal [OF ds(1)] ds(2) by (simp add: atoi_def)
  qed
  ultimately show ?thesis using ds(3) by (intro exI [of _ "rev ds"]) simp
qed

end
