(* ===== verification/User_Grep.thy ===== *)
theory User_Grep
  imports User_Ulib
begin

text \<open>
  The user program \<open>grep\<close> (\<open>user/grep.c\<close>): its matcher for the operators caret, dot, star and
  dollar, and the loop that cuts what it reads into lines. A string is the list of its bytes up
  to the NUL; the buffer is the list of the bytes it holds. The matcher is shown to decide the
  language of the pattern, read as a regular expression, and the loop to print the matching lines
  however the input arrives.
\<close>

subsection \<open>The matcher\<close>

function (sequential) matchhere :: "u8 list \<Rightarrow> u8 list \<Rightarrow> bool" and matchstar :: "u8 \<Rightarrow> u8 list \<Rightarrow> u8 list \<Rightarrow> bool" where
  "matchhere re text =
     (if char_in re 0 = 0 then True
      else if char_in re 1 = 42 then matchstar (char_in re 0) (drop 2 re) text
      else if char_in re 0 = 36 \<and> char_in re 1 = 0 then char_in text 0 = 0
      else if char_in text 0 \<noteq> 0 \<and> (char_in re 0 = 46 \<or> char_in re 0 = char_in text 0)
      then matchhere (drop 1 re) (drop 1 text)
      else False)"
| "matchstar c re text =
     (if matchhere re text then True
      else if char_in text 0 \<noteq> 0 \<and> (char_in text 0 = c \<or> c = 46) then matchstar c re (drop 1 text)
      else False)"
  by pat_completeness auto
termination
  by (relation "inv_image (less_than <*lex*> less_than <*lex*> less_than)
        (case_sum (\<lambda>(re, text). (length re, length text, 0)) (\<lambda>(c, re, text). (length re, length text, 1 :: nat)))")
     (auto dest!: char_in_nonzero)

declare matchhere.simps [simp del] matchstar.simps [simp del]

function match_from :: "u8 list \<Rightarrow> u8 list \<Rightarrow> bool" where
  "match_from re text =
     (if matchhere re text then True
      else if char_in text 0 \<noteq> 0 then match_from re (drop 1 text) else False)"
  by pat_completeness auto
termination
  by (relation "measure (\<lambda>(re, text). length text)") (auto dest!: char_in_nonzero)

declare match_from.simps [simp del]

definition match :: "u8 list \<Rightarrow> u8 list \<Rightarrow> bool" where
  "match re text = (if char_in re 0 = 94 then matchhere (drop 1 re) text else match_from re text)"

subsection \<open>The loop over the input\<close>

text \<open>\<open>strchr (p, c)\<close> on the bytes held from \<open>p\<close> on, as an offset.\<close>

fun find_char :: "u8 list \<Rightarrow> u8 \<Rightarrow> nat option" where
  "find_char [] c = None"
| "find_char (b # bs) c =
     (if b = 0 then None else if b = c then Some 0 else map_option Suc (find_char bs c))"

lemma find_char_less: "find_char bs c = Some k \<Longrightarrow> k < length bs"
  by (induction bs arbitrary: k) (auto split: if_splits)

text \<open>The inner loop: what is written and the bytes left from \<open>p\<close> on.\<close>

function grep_lines :: "u8 list \<Rightarrow> u8 list \<Rightarrow> u8 list \<times> u8 list" where
  "grep_lines pattern p =
     (case find_char p 10 of
        None \<Rightarrow> ([], p)
      | Some k \<Rightarrow>
          case grep_lines pattern (drop (Suc k) p) of
            (w, rest) \<Rightarrow> (if match pattern (take k p) then take (Suc k) p @ w else w, rest))"
  by pat_completeness auto
termination
  by (relation "measure (\<lambda>(pattern, p). length p)") (auto dest!: find_char_less)

declare grep_lines.simps [simp del]

definition GREP_BUF :: nat where "GREP_BUF = 1024"

text \<open>The outer loop with the bytes \<open>held\<close> in \<open>buf\<close>.\<close>

function grep_from :: "u8 list \<Rightarrow> u8 list \<Rightarrow> u8 list list \<Rightarrow> u8 list" where
  "grep_from pattern held inp =
     (case read_piece (GREP_BUF - length held - 1) inp of
        (d, inp) \<Rightarrow>
          if d = [] then []
          else case grep_lines pattern (held @ d) of
            (w, rest) \<Rightarrow> w @ grep_from pattern rest inp)"
  by pat_completeness auto
termination
  by (relation "measure (\<lambda>(pattern, held, inp). length (concat inp))")
     (simp_all, metis read_piece_less)

declare grep_from.simps [simp del]

definition grep :: "u8 list \<Rightarrow> u8 list list \<Rightarrow> u8 list" where
  "grep pattern inp = grep_from pattern [] inp"

text \<open>
  \<open>main\<close>: the bytes written to standard output and to standard error, and the exit status.
  \<open>fs name\<close> is the input behind a file, \<open>None\<close> if it cannot be opened.
\<close>

definition cannot_open :: "u8 list" where
  "cannot_open = ascii ''grep: cannot open %s'' @ [10]"

definition usage :: "u8 list" where
  "usage = ascii ''usage: grep pattern [file ...]'' @ [10]"

primrec grep_files :: "(u8 list \<Rightarrow> u8 list list option) \<Rightarrow> u8 list \<Rightarrow> u8 list list \<Rightarrow> u8 list res \<times> nat" where
  "grep_files fs pattern [] = (Ok [], 0)"
| "grep_files fs pattern (f # names) =
     (case fs f of
        None \<Rightarrow> (vprintf cannot_open [UStr (Some f)], 1)
      | Some inp \<Rightarrow>
          case grep_files fs pattern names of
            (w, st) \<Rightarrow> (seq w (\<lambda>w. Ok (grep pattern inp @ w)), st))"

definition grep_main :: "(u8 list \<Rightarrow> u8 list list option) \<Rightarrow> u8 list list \<Rightarrow> u8 list list \<Rightarrow> u8 list res \<times> u8 list res \<times> nat" where
  "grep_main fs stdin argv =
     (case argv of
        _ # pattern # names \<Rightarrow>
          if names = [] then (Ok (grep pattern stdin), Ok [], 0)
          else case grep_files fs pattern names of (w, st) \<Rightarrow> (w, Ok [], st)
      | _ \<Rightarrow> (Ok [], vprintf usage [], 1))"

subsection \<open>Patterns as regular expressions\<close>

datatype item = One u8 | Many u8

text \<open>The items of a pattern, and whether it ends in a dollar.\<close>

fun items :: "u8 list \<Rightarrow> item list \<times> bool" where
  "items [] = ([], False)"
| "items [c] = (if c = 36 then ([], True) else ([One c], False))"
| "items (c # d # re) =
     (if d = 42 then (case items re of (its, e) \<Rightarrow> (Many c # its, e))
      else (case items (d # re) of (its, e) \<Rightarrow> (One c # its, e)))"

definition accepts :: "u8 \<Rightarrow> u8 \<Rightarrow> bool" where
  "accepts c x \<longleftrightarrow> c = 46 \<or> x = c"

fun words_of :: "item list \<Rightarrow> u8 list set" where
  "words_of [] = {[]}"
| "words_of (One c # its) = {x # w | x w. accepts c x \<and> w \<in> words_of its}"
| "words_of (Many c # its) = {u @ w | u w. (\<forall>x \<in> set u. accepts c x) \<and> w \<in> words_of its}"

text \<open>\<open>found p text\<close>: the language of the items has a prefix of the text, all of it after a dollar.\<close>

definition found :: "item list \<times> bool \<Rightarrow> u8 list \<Rightarrow> bool" where
  "found p text \<longleftrightarrow> (\<exists>w v. text = w @ v \<and> w \<in> words_of (fst p) \<and> (snd p \<longrightarrow> v = []))"

lemma foundI: "w \<in> words_of its \<Longrightarrow> (e \<Longrightarrow> v = []) \<Longrightarrow> found (its, e) (w @ v)"
  unfolding found_def by auto

lemma foundE:
  assumes "found (its, e) text" obtains w v where "text = w @ v" "w \<in> words_of its" "e \<longrightarrow> v = []"
  using assms unfolding found_def by auto

lemma found_Nil: "found ([], e) text \<longleftrightarrow> (e \<longrightarrow> text = [])"
  by (auto simp: found_def)

lemma found_One: "found (One c # its, e) text \<longleftrightarrow> (\<exists>x t. text = x # t \<and> accepts c x \<and> found (its, e) t)"
proof
  assume "found (One c # its, e) text"
  then obtain w v where "text = w @ v" "w \<in> words_of (One c # its)" "e \<longrightarrow> v = []" by (rule foundE)
  moreover from this obtain x w' where x: "w = x # w'" "accepts c x" "w' \<in> words_of its" by auto
  ultimately have "found (its, e) (w' @ v)" by (intro foundI) auto
  then show "\<exists>x t. text = x # t \<and> accepts c x \<and> found (its, e) t" using x \<open>text = w @ v\<close> by simp
next
  assume "\<exists>x t. text = x # t \<and> accepts c x \<and> found (its, e) t"
  then obtain x w v where h: "text = (x # w) @ v" "accepts c x" "w \<in> words_of its" "e \<longrightarrow> v = []" by (auto elim!: foundE)
  then show "found (One c # its, e) text" unfolding h(1) by (intro foundI) auto
qed

lemma found_Many:
  "found (Many c # its, e) text \<longleftrightarrow>
     found (its, e) text \<or> (\<exists>x t. text = x # t \<and> accepts c x \<and> found (Many c # its, e) t)"
proof
  assume "found (Many c # its, e) text"
  then obtain z v where z: "text = z @ v" "z \<in> words_of (Many c # its)" "e \<longrightarrow> v = []" by (rule foundE)
  then obtain u w where h: "z = u @ w" "\<forall>x \<in> set u. accepts c x" "w \<in> words_of its" by auto
  show "found (its, e) text \<or> (\<exists>x t. text = x # t \<and> accepts c x \<and> found (Many c # its, e) t)"
  proof (cases u)
    case Nil
    then show ?thesis using h z by (auto intro: foundI)
  next
    case (Cons x u')
    have "found (Many c # its, e) ((u' @ w) @ v)" by (rule foundI) (use h Cons z(3) in auto)
    then show ?thesis using h z(1) Cons by simp
  qed
next
  assume "found (its, e) text \<or> (\<exists>x t. text = x # t \<and> accepts c x \<and> found (Many c # its, e) t)"
  then show "found (Many c # its, e) text"
  proof (elim disjE exE conjE)
    assume "found (its, e) text"
    then obtain w v where h: "text = w @ v" "w \<in> words_of its" "e \<longrightarrow> v = []" by (rule foundE)
    show ?thesis unfolding h(1) by (rule foundI) (use h in \<open>auto intro: exI [of _ "[]"]\<close>)
  next
    fix x t assume t: "text = x # t" "accepts c x" "found (Many c # its, e) t"
    obtain z v where z: "t = z @ v" "z \<in> words_of (Many c # its)" "e \<longrightarrow> v = []" by (rule foundE [OF t(3)])
    then obtain u w where h: "z = u @ w" "\<forall>x \<in> set u. accepts c x" "w \<in> words_of its" by auto
    have "(x # u) @ w \<in> words_of (Many c # its)" 
      unfolding words_of.simps mem_Collect_eq by (intro exI [of _ "x # u"] exI [of _ w]) (use h t(2) in auto)
    then have "found (Many c # its, e) (((x # u) @ w) @ v)" by (rule foundI) (use z(3) in blast)
    then show ?thesis using t(1) z(1) h(1) by simp
  qed
qed

lemma char_in_drop: "char_in (drop k s) 0 = char_in s k"
  by (simp add: char_in_def)

lemma found_items:
  assumes "0 \<notin> set re" "0 \<notin> set text"
  shows "found (items re) text \<longleftrightarrow>
    (if char_in re 0 = 0 then True
     else if char_in re 1 = 42
     then found (case items (drop 2 re) of (its, e) \<Rightarrow> (Many (char_in re 0) # its, e)) text
     else if char_in re 0 = 36 \<and> char_in re 1 = 0 then char_in text 0 = 0
     else char_in text 0 \<noteq> 0 \<and> (char_in re 0 = 46 \<or> char_in re 0 = char_in text 0) \<and>
       found (items (drop 1 re)) (drop 1 text))"
  using assms
proof (cases re rule: items.cases)
  case 1
  then show ?thesis by (simp add: found_Nil)
next
  case (2 c)
  then show ?thesis using assms
    by (cases "text") (auto simp: found_Nil found_One accepts_def)
next
  case (3 c d re')
  then show ?thesis using assms
    by (cases "text") (auto simp: found_One accepts_def split: prod.split)
qed

lemma matcher_spec:
  "0 \<notin> set re \<Longrightarrow> 0 \<notin> set text \<Longrightarrow> matchhere re text \<longleftrightarrow> found (items re) text"
  "0 \<notin> set re' \<Longrightarrow> 0 \<notin> set text' \<Longrightarrow>
     matchstar c re' text' \<longleftrightarrow> found (case items re' of (its, e) \<Rightarrow> (Many c # its, e)) text'"
proof (induction re "text" and c re' text' rule: matchhere_matchstar.induct)
  case (1 re "text")
  have d: "0 \<notin> set (drop k re)" "0 \<notin> set (drop k text)" for k
    using "1.prems" in_set_dropD by metis+
  show ?case
    unfolding matchhere.simps [of re "text"] found_items [OF "1.prems"]
    using "1.IH" "1.prems" d by simp
next
  case (2 c re "text")
  have d: "0 \<notin> set (drop 1 text)" using "2.prems" in_set_dropD by metis
  obtain its e where i: "items re = (its, e)" by (cases "items re")
  show ?case
    unfolding matchstar.simps [of c re "text"] i prod.case found_Many [of c its e "text"]
    using "2.IH" "2.prems" d i by (cases "text") (auto simp: accepts_def)
qed

lemma match_from_iff: "0 \<notin> set text \<Longrightarrow> match_from re text \<longleftrightarrow> (\<exists>u t. text = u @ t \<and> matchhere re t)"
proof (induction re "text" rule: match_from.induct)
  case (1 re "text")
  show ?case
  proof (cases "text")
    case Nil
    then show ?thesis by (simp add: match_from.simps)
  next
    case (Cons x t)
    then have "match_from re text \<longleftrightarrow> matchhere re text \<or> match_from re t"
      using "1.prems" match_from.simps [of re "text"] by simp
    then have "match_from re text \<longleftrightarrow> matchhere re text \<or> (\<exists>u t'. t = u @ t' \<and> matchhere re t')"
      using 1 Cons by auto
    then show ?thesis unfolding Cons by (auto simp: Cons_eq_append_conv)
  qed
qed

subsection \<open>Lines\<close>

lemma drop_Suc_less: "x \<in> set s \<Longrightarrow> length s - Suc n < length s"
  by (cases s) auto

text \<open>The lines of a text, each with its newline, and what follows the last newline.\<close>

function full_lines :: "u8 list \<Rightarrow> u8 list list" where
  "full_lines s =
     (if 10 \<in> set s
      then (takeWhile (\<lambda>b. b \<noteq> 10) s @ [10]) # full_lines (drop (Suc (length (takeWhile (\<lambda>b. b \<noteq> 10) s))) s)
      else [])"
  by pat_completeness auto
termination by (relation "measure length") (auto simp: drop_Suc_less)

declare full_lines.simps [simp del]

function last_line :: "u8 list \<Rightarrow> u8 list" where
  "last_line s =
     (if 10 \<in> set s then last_line (drop (Suc (length (takeWhile (\<lambda>b. b \<noteq> 10) s))) s) else s)"
  by pat_completeness auto
termination by (relation "measure length") (auto simp: drop_Suc_less)

declare last_line.simps [simp del]

lemma line_split:
  assumes "10 \<in> set s" obtains l t where "s = l @ 10 # t" "10 \<notin> set l"
    "takeWhile (\<lambda>b. b \<noteq> 10) s = l" "full_lines s = (l @ [10]) # full_lines t" "last_line s = last_line t"
proof -
  obtain l t where s: "s = l @ 10 # t" "10 \<notin> set l" using split_list_first [OF assms] by blast
  then have tw: "takeWhile (\<lambda>b. b \<noteq> 10) s = l" by (auto simp: takeWhile_append)
  have "drop (Suc (length l)) s = t" using s(1) by simp
  then show thesis
    using that [OF s tw] full_lines.simps [of s] last_line.simps [of s] assms unfolding tw by simp
qed

lemma no_line: "10 \<notin> set s \<Longrightarrow> full_lines s = []" "10 \<notin> set s \<Longrightarrow> last_line s = s"
  by (simp_all add: full_lines.simps last_line.simps)

lemma full_lines_append: "full_lines (p @ q) = full_lines p @ full_lines (last_line p @ q)"
proof (induction p rule: length_induct)
  case (1 p)
  show ?case
  proof (cases "10 \<in> set p")
    case True
    then obtain l t where p: "p = l @ 10 # t" "10 \<notin> set l" "full_lines p = (l @ [10]) # full_lines t" "last_line p = last_line t"
      by (rule line_split)
    have "full_lines (p @ q) = (l @ [10]) # full_lines (t @ q)"
      using p(1,2) by (subst full_lines.simps) (auto simp: takeWhile_append)
    then show ?thesis using 1 p by simp
  qed (simp add: no_line)
qed

lemma last_line_no_newline: "10 \<notin> set (last_line p)"
proof (induction p rule: last_line.induct)
  case (1 s)
  then show ?case by (cases "10 \<in> set s") (simp_all add: last_line.simps [of s])
qed

lemma last_line_subset: "set (last_line p) \<subseteq> set p"
proof (induction p rule: last_line.induct)
  case (1 s)
  show ?case
  proof (cases "10 \<in> set s")
    case True
    then show ?thesis using 1 set_drop_subset by (fastforce simp: last_line.simps [of s])
  qed (simp add: last_line.simps)
qed

lemma find_newline:
  "0 \<notin> set p \<Longrightarrow> find_char p 10 = (if 10 \<in> set p then Some (length (takeWhile (\<lambda>b. b \<noteq> 10) p)) else None)"
  by (induction p) auto

lemma grep_lines_spec:
  "0 \<notin> set p \<Longrightarrow>
   grep_lines pattern p = (concat (filter (\<lambda>l. match pattern (butlast l)) (full_lines p)), last_line p)"
proof (induction pattern p rule: grep_lines.induct)
  case (1 pattern p)
  show ?case
  proof (cases "10 \<in> set p")
    case True
    then obtain l t where p: "p = l @ 10 # t" "10 \<notin> set l" "takeWhile (\<lambda>b. b \<noteq> 10) p = l"
      "full_lines p = (l @ [10]) # full_lines t" "last_line p = last_line t"
      by (rule line_split)
    have f: "find_char p 10 = Some (length l)" using find_newline [OF "1.prems"] True p(3) by simp
    have d: "drop (Suc (length l)) p = t" "take (length l) p = l" "take (Suc (length l)) p = l @ [10]" using p(1) by simp_all
    have "0 \<notin> set t" using "1.prems" p(1) by simp
    then have "grep_lines pattern t = (concat (filter (\<lambda>l. match pattern (butlast l)) (full_lines t)), last_line t)"
      using "1.IH" [OF f] unfolding d by simp
    then show ?thesis using grep_lines.simps [of pattern p] unfolding f option.case d p(4,5) by simp
  next
    case False
    then have "find_char p 10 = None" using find_newline "1.prems" by simp
    then show ?thesis using False by (simp add: grep_lines.simps [of pattern p] no_line)
  qed
qed

lemma read_piece_room:
  assumes "read_piece n inp = (d, inp')" "[] \<notin> set inp"
  shows "length d \<le> n" "[] \<notin> set inp'" "d = [] \<longleftrightarrow> n = 0 \<or> inp = []"
proof -
  have "length d \<le> n \<and> [] \<notin> set inp' \<and> (d = [] \<longleftrightarrow> n = 0 \<or> inp = [])"
    using assms by (cases inp; cases n) (auto split: if_splits)
  then show "length d \<le> n" "[] \<notin> set inp'" "d = [] \<longleftrightarrow> n = 0 \<or> inp = []" by blast+
qed

lemma grep_from_spec:
  assumes "0 \<notin> set (held @ concat inp)" "[] \<notin> set inp" "10 \<notin> set held"
    "\<forall>l \<in> set (full_lines (held @ concat inp)). length l < GREP_BUF"
  shows "grep_from pattern held inp =
    concat (filter (\<lambda>l. match pattern (butlast l)) (full_lines (held @ concat inp)))"
  using assms
proof (induction pattern held inp rule: grep_from.induct)
  case (1 pattern held inp)
  obtain d inp' where r: "read_piece (GREP_BUF - length held - 1) inp = (d, inp')" by (metis surj_pair)
  note room = read_piece_room [OF r "1.prems"(2)]
  have split: "concat inp = d @ concat inp'" by (rule read_piece_eq [OF r])
  show ?case
  proof (cases "d = []")
    case True
    have "full_lines (held @ concat inp) = []"
    proof (cases "10 \<in> set (concat inp)")
      case newline: True
      then have "10 \<in> set (held @ concat inp)" by simp
      then obtain l t where l: "held @ concat inp = l @ 10 # t" "10 \<notin> set l"
        "full_lines (held @ concat inp) = (l @ [10]) # full_lines t"
        by (rule line_split)
      have "length held \<le> length l"
      proof (rule ccontr)
        assume "\<not> length held \<le> length l"
        then have "held ! length l = 10" "length l < length held"
          using arg_cong [OF l(1), of "\<lambda>z. z ! length l"] by (auto simp: nth_append)
        then have "10 \<in> set held" using nth_mem by metis
        then show False using "1.prems"(3) by simp
      qed
      moreover have "length l + 1 < GREP_BUF" using "1.prems"(4) l(3) by simp
      ultimately have "GREP_BUF - length held - 1 \<noteq> 0" by simp
      moreover have "inp \<noteq> []" using newline by auto
      ultimately show ?thesis using room(3) True by simp
    next
      case False
      then show ?thesis using "1.prems"(3) by (intro no_line) simp
    qed
    then show ?thesis using r True by (simp add: grep_from.simps [of pattern held])
  next
    case False
    let ?p = "held @ d"
    have z: "0 \<notin> set ?p" using "1.prems"(1) split by simp
    note gl = grep_lines_spec [OF z, of pattern]
    have fl: "full_lines (held @ concat inp) = full_lines ?p @ full_lines (last_line ?p @ concat inp')"
      using full_lines_append [of ?p "concat inp'"] split by simp
    have "grep_from pattern (last_line ?p) inp' =
        concat (filter (\<lambda>l. match pattern (butlast l)) (full_lines (last_line ?p @ concat inp')))"
    proof (rule "1.IH" [OF r [symmetric] False gl [symmetric]])
      show "0 \<notin> set (last_line ?p @ concat inp')" using last_line_subset [of ?p] z "1.prems"(1) split by auto
      show "\<forall>l \<in> set (full_lines (last_line ?p @ concat inp')). length l < GREP_BUF" using "1.prems"(4) fl by simp
    qed (use room(2) last_line_no_newline in auto)
    then show ?thesis
      using grep_from.simps [of pattern held inp] False unfolding r prod.case gl fl by simp
  qed
qed

subsection \<open>Properties\<close>

text \<open>
  C21: \<open>match\<close> decides the regular language of its pattern. The pattern without a leading caret is
  a sequence of items, a byte or a dot, each perhaps starred, and perhaps a final dollar; \<open>match\<close>
  returns true exactly if some piece of the text is a word of the items, where the piece must be
  at the front after a caret and at the end before a dollar.
\<close>

theorem match_is_regexp:
  assumes "0 \<notin> set re" "0 \<notin> set text"
  defines "caret \<equiv> re \<noteq> [] \<and> hd re = 94"
  defines "body \<equiv> items (if caret then tl re else re)"
  shows "match re text \<longleftrightarrow> (\<exists>u w v. text = u @ w @ v \<and> w \<in> words_of (fst body) \<and>
    (caret \<longrightarrow> u = []) \<and> (snd body \<longrightarrow> v = []))"
proof (cases caret)
  case True
  then have "match re text = matchhere (tl re) text"
    by (cases re) (auto simp: match_def caret_def)
  moreover have "0 \<notin> set (tl re)" using assms(1) by (cases re) auto
  ultimately show ?thesis
    using matcher_spec(1) assms(2) True unfolding found_def by (simp add: body_def)
next
  case False
  then have "match re text = match_from re text"
    by (cases re) (auto simp: match_def caret_def)
  also have "\<dots> \<longleftrightarrow> (\<exists>u t. text = u @ t \<and> found (items re) t)"
    unfolding match_from_iff [OF assms(2)]
  proof (intro iff_exI conj_cong refl)
    fix u t assume "text = u @ t"
    then show "matchhere re t \<longleftrightarrow> found (items re) t" using matcher_spec(1) [OF assms(1)] assms(2) by simp
  qed
  finally show ?thesis using False unfolding found_def body_def by auto
qed

lemma match_is_regexp_witness:
  "match [97, 46, 42, 99, 36] [120, 97, 98, 98, 99] \<longleftrightarrow>
    (\<exists>u w v. [120, 97, 98, 98, 99] = u @ w @ v \<and> w \<in> words_of [One 97, Many 46, One 99] \<and>
      (False \<longrightarrow> u = []) \<and> (True \<longrightarrow> v = []))"
  using match_is_regexp [of "[97, 46, 42, 99, 36]" "[120, 97, 98, 98, 99]"] by simp

text \<open>
  C39: \<open>grep\<close> writes exactly the lines of its input that match, each with its newline, in order,
  however \<open>read\<close> cuts the input into pieces, if the input holds no NUL and no line is longer than
  the buffer allows. What follows the last newline is never written.
\<close>

theorem grep_prints_matching_lines:
  assumes "0 \<notin> set (concat inp)" "[] \<notin> set inp" "\<forall>l \<in> set (full_lines (concat inp)). length l < GREP_BUF"
  shows "grep pattern inp = concat (filter (\<lambda>l. match pattern (butlast l)) (full_lines (concat inp)))"
  using grep_from_spec [of "[]" inp pattern] assms by (simp add: grep_def)

lemma grep_prints_matching_lines_witness:
  "grep [98] [[97, 98], [10, 97, 10, 98]] = concat (filter (\<lambda>l. match [98] (butlast l)) [[97, 98, 10], [97, 10]])"
proof -
  have l: "full_lines [97, 98, 10, 97, 10, 98] = [[97, 98, 10], [97, 10]]" by (simp add: full_lines.simps)
  show ?thesis
    using grep_prints_matching_lines [of "[[97, 98], [10, 97, 10, 98]]" "[98]"] by (simp add: l GREP_BUF_def)
qed

end
