(* ===== verification/User_Sh.thy ===== *)
theory User_Sh
  imports User_Ulib
begin

text \<open>
  The shell (\<open>user/sh.c\<close>). The command line is the list of its bytes, \<open>es\<close> its length and a
  pointer into it an offset; the byte at \<open>es\<close> is the NUL. A command is a tree whose words are
  pairs of offsets, the allocator is assumed to return memory. \<open>runcmd\<close> is what each process it
  forks does: the program it executes and its calls of \<open>wait\<close>, with its open files, and its exit.
\<close>

subsection \<open>Tokens\<close>

definition whitespace :: "u8 list" where "whitespace = [32, 9, 13, 10, 11]"
definition sh_symbols :: "u8 list" where "sh_symbols = [60, 124, 62, 38, 59, 40, 41]"

definition is_ws :: "u8 \<Rightarrow> bool" where "is_ws c \<longleftrightarrow> c \<in> set whitespace"
definition is_word :: "u8 \<Rightarrow> bool" where "is_word c \<longleftrightarrow> \<not> is_ws c \<and> c \<notin> set sh_symbols"

function skip_while :: "(u8 \<Rightarrow> bool) \<Rightarrow> u8 list \<Rightarrow> nat \<Rightarrow> nat" where
  "skip_while P b s = (if s < length b \<and> P (b ! s) then skip_while P b (Suc s) else s)"
  by pat_completeness auto
termination by (relation "measure (\<lambda>(P, b, s). length b - s)") auto

declare skip_while.simps [simp del]

text \<open>The token, its first byte and end, and the position after the blanks that follow.\<close>

definition gettoken :: "u8 list \<Rightarrow> nat \<Rightarrow> u8 \<times> nat \<times> nat \<times> nat" where
  "gettoken b s =
     (let q = skip_while is_ws b s;
          c = char_in b q;
          (ret, eq) =
            (if c = 0 then (0, q)
             else if c \<in> {124, 40, 41, 59, 38, 60} then (c, q + 1)
             else if c = 62 then (if char_in b (q + 1) = 62 then (43, q + 2) else (62, q + 1))
             else (97, skip_while is_word b q))
      in (ret, q, eq, skip_while is_ws b eq))"

definition peek :: "u8 list \<Rightarrow> nat \<Rightarrow> u8 list \<Rightarrow> nat \<times> bool" where
  "peek b s toks =
     (let s = skip_while is_ws b s in (s, char_in b s \<noteq> 0 \<and> char_in b s \<in> set toks))"

lemma skip_step:
  "s < length b \<Longrightarrow> P (b ! s) \<Longrightarrow> skip_while P b s = skip_while P b (Suc s)"
  "\<not> (s < length b \<and> P (b ! s)) \<Longrightarrow> skip_while P b s = s"
proof -
  assume "s < length b" "P (b ! s)"
  then have c: "s < length b \<and> P (b ! s)" by (rule conjI)
  show "skip_while P b s = skip_while P b (Suc s)" by (rule trans [OF skip_while.simps [of P b s] if_P [OF c]])
next
  assume c: "\<not> (s < length b \<and> P (b ! s))"
  show "skip_while P b s = s" by (rule trans [OF skip_while.simps [of P b s] if_not_P [OF c]])
qed

lemma skip_while_le: "s \<le> skip_while P b s"
proof (induction P b s rule: skip_while.induct)
  case (1 P b s)
  show ?case
  proof (cases "s < length b \<and> P (b ! s)")
    case True
    then show ?thesis using 1 skip_step(1) [of s b P] by auto
  next
    case False
    then show ?thesis using skip_step(2) [of s b P, OF False] by simp
  qed
qed

lemma skip_while_bound: "s \<le> length b \<Longrightarrow> skip_while P b s \<le> length b"
proof (induction P b s rule: skip_while.induct)
  case (1 P b s)
  show ?case
  proof (cases "s < length b \<and> P (b ! s)")
    case True
    then show ?thesis using 1 skip_step(1) [of s b P] by auto
  next
    case False
    then show ?thesis using "1.prems" skip_step(2) [of s b P, OF False] by simp
  qed
qed

lemma skip_while_beyond: "length b \<le> s \<Longrightarrow> skip_while P b s = s"
  by (rule skip_step(2)) simp

lemma skip_while_all: "s \<le> j \<Longrightarrow> j < skip_while P b s \<Longrightarrow> j < length b \<and> P (b ! j)"
proof (induction P b s rule: skip_while.induct)
  case (1 P b s)
  show ?case
  proof (cases "s < length b \<and> P (b ! s)")
    case True
    then have "skip_while P b s = skip_while P b (Suc s)" by (intro skip_step(1)) simp_all
    then have "j < skip_while P b (Suc s)" using "1.prems"(2) by simp
    then show ?thesis using "1.IH" [OF True] "1.prems"(1) True by (cases "s = j") simp_all
  next
    case False
    then show ?thesis using "1.prems" skip_step(2) [of s b P, OF False] by simp
  qed
qed

lemma skip_while_stop: "skip_while P b s < length b \<Longrightarrow> \<not> P (b ! skip_while P b s)"
proof (induction P b s rule: skip_while.induct)
  case (1 P b s)
  show ?case
  proof (cases "s < length b \<and> P (b ! s)")
    case True
    then show ?thesis using 1 skip_step(1) [of s b P] by auto
  next
    case False
    then show ?thesis using "1.prems" skip_step(2) [of s b P, OF False] by auto
  qed
qed

lemma char_in_char: "char_in b i \<noteq> 0 \<Longrightarrow> i < length b \<and> char_in b i = b ! i"
  by (auto simp: char_in_def split: if_splits)

lemma skip_while_first:
  assumes "P (char_in b s)" "char_in b s \<noteq> 0" shows "s < skip_while P b s"
proof -
  have "s < length b" "P (b ! s)" using char_in_char [OF assms(2)] assms(1) by simp_all
  then show ?thesis using skip_step(1) [of s b P] skip_while_le [of "Suc s" P b] by simp
qed

lemma no_ws_here: "char_in b (skip_while is_ws b s) \<noteq> 0 \<Longrightarrow> \<not> is_ws (char_in b (skip_while is_ws b s))"
  using skip_while_stop [of is_ws b s] by (auto dest!: char_in_char)

lemma gettoken_cases:
  assumes "gettoken b s = (t, q, eq, s')"
  obtains (fin) "t = 0" "q = skip_while is_ws b s" "eq = q" "char_in b q = 0" "s' = skip_while is_ws b eq"
  | (tok) "t \<noteq> 0" "q = skip_while is_ws b s" "q < eq" "s' = skip_while is_ws b eq" "char_in b q \<noteq> 0"
      "eq = Suc q \<or> eq = Suc (Suc q) \<and> char_in b (Suc q) = 62" "t = char_in b q \<or> t = 43" "t \<noteq> 97"
  | (arg) "t = 97" "q = skip_while is_ws b s" "q < eq" "eq = skip_while is_word b q" "s' = skip_while is_ws b eq"
      "is_word (char_in b q)" "char_in b q \<noteq> 0"
proof -
  let ?q = "skip_while is_ws b s"
  have q: "q = ?q" "s' = skip_while is_ws b eq" using assms by (auto simp: gettoken_def Let_def split: if_splits)
  consider "char_in b ?q = 0" | "char_in b ?q \<in> {124, 40, 41, 59, 38, 60}" | "char_in b ?q = 62"
    | "char_in b ?q \<noteq> 0" "char_in b ?q \<notin> {124, 40, 41, 59, 38, 60, 62}" by blast
  then show thesis
  proof cases
    case 1
    then have "t = 0" "eq = ?q" using assms by (simp_all add: gettoken_def Let_def)
    then show ?thesis using fin q 1 by simp
  next
    case 2
    then have "char_in b ?q \<noteq> 0" "char_in b ?q \<noteq> 97" by auto
    then have "t = char_in b ?q" "eq = Suc ?q" using assms 2 by (auto simp: gettoken_def Let_def)
    then show ?thesis using tok q \<open>char_in b ?q \<noteq> 0\<close> \<open>char_in b ?q \<noteq> 97\<close> by simp
  next
    case 3
    then have "char_in b (Suc ?q) = 62 \<and> t = 43 \<and> eq = Suc (Suc ?q) \<or> t = 62 \<and> eq = Suc ?q"
      using assms by (simp add: gettoken_def Let_def split: if_splits)
    then show ?thesis using tok q 3 by auto
  next
    case 4
    then have w: "is_word (char_in b ?q)" using no_ws_here by (simp add: is_word_def sh_symbols_def)
    have "t = 97" "eq = skip_while is_word b ?q" using assms 4 by (auto simp: gettoken_def Let_def)
    then show ?thesis using arg q w 4(1) skip_while_first [of is_word b ?q, OF w 4(1)] by simp
  qed
qed

text \<open>A token moves the pointer on and stays inside the line.\<close>

lemma gettoken_progress:
  assumes g: "gettoken b s = (t, q, eq, s')" and t: "t \<noteq> 0" and s: "s \<le> length b"
  shows "s < s'" "s' \<le> length b" "q < eq" "eq \<le> length b"
proof -
  have "s \<le> q \<and> q < eq \<and> eq \<le> length b \<and> s' = skip_while is_ws b eq"
    using g
  proof (cases rule: gettoken_cases)
    case fin
    then show ?thesis using t by simp
  next
    case tok
    then show ?thesis using skip_while_le [of s is_ws b] char_in_char [of b q] char_in_char [of b "Suc q"] by auto
  next
    case arg
    then show ?thesis
      using skip_while_le [of s is_ws b] skip_while_bound [OF skip_while_bound [OF s], of is_word is_ws] by auto
  qed
  then show "s < s'" "s' \<le> length b" "q < eq" "eq \<le> length b"
    using skip_while_le [of eq is_ws b] skip_while_bound [of eq b is_ws] by auto
qed

lemma peek_progress: "peek b s toks = (s', r) \<Longrightarrow> s \<le> s' \<and> (s \<le> length b \<longrightarrow> s' \<le> length b)"
  by (auto simp: peek_def Let_def skip_while_le skip_while_bound)

lemma peek_token:
  assumes "peek b s toks = (s', True)" "gettoken b s' = (t, q, eq, s'')"
  shows "t \<noteq> 0" "s' < length b"
proof -
  have c: "char_in b s' \<noteq> 0" "s' = skip_while is_ws b s" using assms(1) by (auto simp: peek_def Let_def)
  have "skip_while is_ws b s' = s'"
    using skip_while_stop [of is_ws b s] c(2) by (subst skip_while.simps) auto
  then show "t \<noteq> 0" using assms(2) c(1) by (auto elim!: gettoken_cases)
  show "s' < length b" using char_in_char [OF c(1)] by simp
qed

lemma one_token:
  assumes "peek b s toks = (s1, True)" "gettoken b s1 = (t, q, eq, s2)"
  shows "s < s2" "s2 \<le> length b" "length b - s2 < length b - s" "t \<noteq> 0"
proof -
  note t = peek_token [OF assms]
  note g = gettoken_progress [OF assms(2) t(1) less_imp_le [OF t(2)]]
  then show "s < s2" "s2 \<le> length b" using peek_progress [OF assms(1)] by auto
  then show "length b - s2 < length b - s" by simp
  show "t \<noteq> 0" by (rule t(1))
qed

lemma one_token_less:
  "(s1, True) = peek b s toks \<Longrightarrow> (t, q, eq, s2) = gettoken b s1 \<Longrightarrow> length b - s2 < length b - s"
  using one_token(3) [OF sym sym] .

lemma redir_progress:
  assumes "(s1, True) = peek b s toks" "(t, q, eq, s2) = gettoken b s1" "(97, q', eq', s3) = gettoken b s2"
  shows "length b - s3 < length b - s"
proof -
  note one = one_token [OF assms(1,2) [symmetric]]
  have "s2 < s3" using gettoken_progress(1) [OF assms(3) [symmetric] _ one(2)] by simp
  then show ?thesis using one(1-3) by simp
qed

subsection \<open>Commands\<close>

datatype 'w cmd =
    Exec "'w list"
  | Redir "'w cmd" 'w int int
  | PipeCmd "'w cmd" "'w cmd"
  | ListCmd "'w cmd" "'w cmd"
  | Back "'w cmd"

definition MAXARGS :: nat where "MAXARGS = 10"

text \<open>A redirection that is still to be put around a command: word, mode and descriptor.\<close>

type_synonym 'w redir = "'w \<times> int \<times> int"

definition redir_of :: "u8 \<Rightarrow> 'w \<Rightarrow> 'w redir" where
  "redir_of tok w =
     (if tok = 60 then (w, 0, 0) else if tok = 62 then (w, 0x601, 1) else (w, 0x201, 1))"

primrec redircmds :: "'w cmd \<Rightarrow> 'w redir list \<Rightarrow> 'w cmd" where
  "redircmds c [] = c"
| "redircmds c (r # rs) = (case r of (w, mode, fd) \<Rightarrow> redircmds (Redir c w mode fd) rs)"

subsection \<open>The parser\<close>

text \<open>
  \<open>parseredirs\<close> gives the redirections found: in \<open>parseexec\<close> they are put around a command whose
  arguments are still being added.
\<close>

function parseredirs :: "u8 list \<Rightarrow> nat \<Rightarrow> ((nat \<times> nat) redir list \<times> nat) res" where
  "parseredirs b s =
     (case peek b s [60, 62] of
        (s, False) \<Rightarrow> Ok ([], s)
      | (s, True) \<Rightarrow>
          case gettoken b s of (tok, _, _, s) \<Rightarrow>
          case gettoken b s of (t, q, eq, s) \<Rightarrow>
            if t \<noteq> 97 then Fail (Panic ''missing file for redirection'')
            else seq (parseredirs b s) (\<lambda>(rs, s). Ok (redir_of tok (q, eq) # rs, s)))"
  by pat_completeness auto
termination
  by (relation "measure (\<lambda>(b, s). length b - s)") (auto dest: redir_progress)

declare parseredirs.simps [simp del]

lemma parseredirs_progress:
  "parseredirs b s = Ok (rs, s') \<Longrightarrow> s \<le> s' \<and> (s \<le> length b \<longrightarrow> s' \<le> length b)"
proof (induction b s arbitrary: rs s' rule: parseredirs.induct)
  case (1 b s)
  obtain s1 r where p: "peek b s [60, 62] = (s1, r)" by (metis surj_pair)
  show ?case
  proof (cases r)
    case False
    then show ?thesis using "1.prems" p peek_progress [OF p] by (simp add: parseredirs.simps [of b s])
  next
    case True
    obtain tok q0 eq0 s2 where g1: "gettoken b s1 = (tok, q0, eq0, s2)" by (metis prod_cases4)
    obtain t q eq s3 where g2: "gettoken b s2 = (t, q, eq, s3)" by (metis prod_cases4)
    have t: "t = 97" and rec: "\<exists>rs'. parseredirs b s3 = Ok (rs', s')"
      using "1.prems" p True g1 g2 by (auto simp: parseredirs.simps [of b s] seq_eq_Ok split: if_splits prod.splits)
    have p': "peek b s [60, 62] = (s1, True)" using p True by simp
    note one = one_token [OF p' g1]
    have "s3 \<le> s' \<and> (s3 \<le> length b \<longrightarrow> s' \<le> length b)"
      using "1.IH" [OF p' [symmetric] refl g1 [symmetric] refl refl g2 [symmetric] refl refl] rec t by auto
    then show ?thesis using one gettoken_progress(1,2) [OF g2 _ one(2)] t by auto
  qed
qed

text \<open>The loop of \<open>parseexec\<close> over the arguments, with what it has collected.\<close>

function parse_args ::
  "u8 list \<Rightarrow> nat \<Rightarrow> (nat \<times> nat) list \<Rightarrow> (nat \<times> nat) redir list \<Rightarrow> ((nat \<times> nat) cmd \<times> nat) res" where
  "parse_args b s argv rs =
     (case peek b s [124, 41, 38, 59] of
        (s, True) \<Rightarrow> Ok (redircmds (Exec argv) rs, s)
      | (s, False) \<Rightarrow>
          case gettoken b s of (tok, q, eq, s) \<Rightarrow>
            if tok = 0 then Ok (redircmds (Exec argv) rs, s)
            else if tok \<noteq> 97 then Fail (Panic ''syntax'')
            else if MAXARGS \<le> length (argv @ [(q, eq)]) then Fail (Panic ''too many args'')
            else seq (parseredirs b s) (\<lambda>(rs', s). parse_args b s (argv @ [(q, eq)]) (rs @ rs')))"
  by pat_completeness auto
termination
proof (relation "measure (\<lambda>(b, s, argv, rs). MAXARGS - length argv)", goal_cases)
  case 2
  then show ?case by auto
qed simp

declare parse_args.simps [simp del]

text \<open>\<open>while(peek(ps, es, "&"))\<close>\<close>

function parse_backs :: "u8 list \<Rightarrow> 'w cmd \<Rightarrow> nat \<Rightarrow> 'w cmd \<times> nat" where
  "parse_backs b c s =
     (case peek b s [38] of
        (s, False) \<Rightarrow> (c, s)
      | (s, True) \<Rightarrow> case gettoken b s of (_, _, _, s) \<Rightarrow> parse_backs b (Back c) s)"
  by pat_completeness auto
termination
  by (relation "measure (\<lambda>(b, c, s). length b - s)") (auto dest: one_token_less)

declare parse_backs.simps [simp del]

text \<open>
  The mutual recursion. The first argument bounds the number of operators and parentheses
  entered: each of them is a byte of the line, so its length is enough (theory User_Sh_Text).
\<close>

function (sequential) parseline :: "nat \<Rightarrow> u8 list \<Rightarrow> nat \<Rightarrow> ((nat \<times> nat) cmd \<times> nat) res"
  and parsepipe :: "nat \<Rightarrow> u8 list \<Rightarrow> nat \<Rightarrow> ((nat \<times> nat) cmd \<times> nat) res"
  and parseblock :: "nat \<Rightarrow> u8 list \<Rightarrow> nat \<Rightarrow> ((nat \<times> nat) cmd \<times> nat) res"
  and parseexec :: "nat \<Rightarrow> u8 list \<Rightarrow> nat \<Rightarrow> ((nat \<times> nat) cmd \<times> nat) res" where
  "parseline 0 b s = Fail Diverges"
| "parseline (Suc n) b s =
     seq (parsepipe (Suc n) b s) (\<lambda>(c, s).
     case parse_backs b c s of (c, s) \<Rightarrow>
     case peek b s [59] of
       (s, False) \<Rightarrow> Ok (c, s)
     | (s, True) \<Rightarrow>
         case gettoken b s of (_, _, _, s) \<Rightarrow>
         seq (parseline n b s) (\<lambda>(d, s). Ok (ListCmd c d, s)))"
| "parsepipe 0 b s = Fail Diverges"
| "parsepipe (Suc n) b s =
     seq (parseexec (Suc n) b s) (\<lambda>(c, s).
     case peek b s [124] of
       (s, False) \<Rightarrow> Ok (c, s)
     | (s, True) \<Rightarrow>
         case gettoken b s of (_, _, _, s) \<Rightarrow>
         seq (parsepipe n b s) (\<lambda>(d, s). Ok (PipeCmd c d, s)))"
| "parseblock 0 b s = Fail Diverges"
| "parseblock (Suc n) b s =
     (case peek b s [40] of
        (s, False) \<Rightarrow> Fail (Panic ''parseblock'')
      | (s, True) \<Rightarrow>
          case gettoken b s of (_, _, _, s) \<Rightarrow>
          seq (parseline n b s) (\<lambda>(c, s).
          case peek b s [41] of
            (s, False) \<Rightarrow> Fail (Panic ''syntax - missing )'')
          | (s, True) \<Rightarrow>
              case gettoken b s of (_, _, _, s) \<Rightarrow>
              seq (parseredirs b s) (\<lambda>(rs, s). Ok (redircmds c rs, s))))"
| "parseexec n b s =
     (case peek b s [40] of
        (s, True) \<Rightarrow> parseblock n b s
      | (s, False) \<Rightarrow> seq (parseredirs b s) (\<lambda>(rs, s). parse_args b s [] rs))"
  by pat_completeness auto
termination
  by (relation "measure (case_sum (case_sum (\<lambda>(n, b, s). 4 * n + 3) (\<lambda>(n, b, s). 4 * n + 2))
        (case_sum (\<lambda>(n, b, s). 4 * n) (\<lambda>(n, b, s). 4 * n + 1)))") auto

declare parseline.simps [simp del] parsepipe.simps [simp del] parseblock.simps [simp del] parseexec.simps [simp del]

text \<open>\<open>nulterminate\<close> writes a NUL behind each word.\<close>

fun nulterminate :: "(nat \<times> nat) cmd \<Rightarrow> u8 list \<Rightarrow> u8 list" where
  "nulterminate (Exec argv) buf = fold (\<lambda>(q, eq) buf. buf[eq := 0]) argv buf"
| "nulterminate (Redir c w mode fd) buf = (nulterminate c buf)[snd w := 0]"
| "nulterminate (PipeCmd l r) buf = nulterminate r (nulterminate l buf)"
| "nulterminate (ListCmd l r) buf = nulterminate r (nulterminate l buf)"
| "nulterminate (Back c) buf = nulterminate c buf"

text \<open>The command with its words as pointers, and the line after the NULs are written.\<close>

definition parsecmd :: "u8 list \<Rightarrow> ((nat \<times> nat) cmd \<times> u8 list) res" where
  "parsecmd b =
     seq (parseline (Suc (length b)) b 0) (\<lambda>(c, s).
     case peek b s [] of (s, _) \<Rightarrow>
       if s \<noteq> length b then Fail (Panic ''syntax'')
       else Ok (c, nulterminate c (b @ [0])))"

text \<open>The string a pointer into the line stands for, and the command with its strings.\<close>

definition str_at :: "u8 list \<Rightarrow> nat \<times> nat \<Rightarrow> u8 list" where
  "str_at buf w = takeWhile (\<lambda>c. c \<noteq> 0) (drop (fst w) buf)"

definition strings_of :: "(nat \<times> nat) cmd \<times> u8 list \<Rightarrow> u8 list cmd" where
  "strings_of p = map_cmd (str_at (snd p)) (fst p)"

subsection \<open>Running a command\<close>

text \<open>
  An open file is named by what it was opened as; a pipe by the path in the tree of forks to the
  process that made it. \<open>answers\<close>: what the kernel replies to the calls that can fail.
\<close>

datatype sh_file = Inherited nat | OpenedAs "u8 list" int | PipeRd "nat list" | PipeWr "nat list"

type_synonym fd_table = "sh_file option list"

record answers =
  k_open :: "u8 list \<Rightarrow> int \<Rightarrow> bool"
  k_exec :: "u8 list list \<Rightarrow> bool"
  k_fork :: "nat list \<Rightarrow> nat \<Rightarrow> bool"
  k_pipe :: "nat list \<Rightarrow> bool"
  k_chdir :: "u8 list \<Rightarrow> bool"

text \<open>
  What a process does in the end, with what it has printed if it exits, and its calls of \<open>wait(0)\<close>
  on the way, with the path of the process and its open files. The list of a command has the acts of
  a child where it is forked, before those of the process itself that come later.
\<close>

datatype proc_act = Executes "u8 list list" fd_table | Waits "nat list" fd_table | Exits int "u8 list"

fun lowest_free :: "fd_table \<Rightarrow> nat option" where
  "lowest_free [] = None"
| "lowest_free (f # fds) = (if f = None then Some 0 else map_option Suc (lowest_free fds))"

definition fd_new :: "sh_file \<Rightarrow> fd_table \<Rightarrow> (nat \<times> fd_table) option" where
  "fd_new f fds = (case lowest_free fds of None \<Rightarrow> None | Some i \<Rightarrow> Some (i, fds[i := Some f]))"

definition fd_close :: "nat \<Rightarrow> fd_table \<Rightarrow> fd_table" where
  "fd_close i fds = fds[i := None]"

definition fd_dup :: "nat \<Rightarrow> fd_table \<Rightarrow> fd_table" where
  "fd_dup i fds =
     (if i < length fds
      then case fds ! i of
             None \<Rightarrow> fds
           | Some f \<Rightarrow> (case fd_new f fds of None \<Rightarrow> fds | Some (_, fds) \<Rightarrow> fds)
      else fds)"

text \<open>\<open>pipe(p)\<close>: the two descriptors.\<close>

definition fd_pipe :: "nat list \<Rightarrow> fd_table \<Rightarrow> (nat \<times> nat \<times> fd_table) option" where
  "fd_pipe path fds =
     (case fd_new (PipeRd path) fds of
        None \<Rightarrow> None
      | Some (p0, fds) \<Rightarrow> map_option (\<lambda>(p1, fds). (p0, p1, fds)) (fd_new (PipeWr path) fds))"

definition sh_panic :: "string \<Rightarrow> proc_act" where
  "sh_panic s = Exits 1 (ascii s @ [10])"

definition failed :: "string \<Rightarrow> u8 list \<Rightarrow> u8 list" where
  "failed what name = ascii what @ ascii '' '' @ name @ ascii '' failed'' @ [10]"

text \<open>A child of a pipe: its end takes the place of descriptor \<open>fd\<close>.\<close>

definition plug :: "nat \<Rightarrow> nat \<Rightarrow> nat \<Rightarrow> nat \<Rightarrow> fd_table \<Rightarrow> fd_table" where
  "plug fd p p0 p1 fds = fd_close p1 (fd_close p0 (fd_dup p (fd_close fd fds)))"

fun runcmd :: "answers \<Rightarrow> nat list \<Rightarrow> u8 list cmd \<Rightarrow> fd_table \<Rightarrow> proc_act list" where
  "runcmd K path (Exec argv) fds =
     (if argv = [] then [Exits 1 []]
      else if k_exec K argv then [Executes argv fds]
      else [Exits 0 (failed ''exec'' (hd argv))])"
| "runcmd K path (Redir c file mode fd) fds =
     (case if k_open K file mode then fd_new (OpenedAs file mode) (fd_close (nat fd) fds) else None of
        None \<Rightarrow> [Exits 1 (failed ''open'' file)]
      | Some (_, fds) \<Rightarrow> runcmd K path c fds)"
| "runcmd K path (ListCmd l r) fds =
     (if \<not> k_fork K path 0 then [sh_panic ''fork'']
      else runcmd K (path @ [0]) l fds @ Waits path fds # runcmd K (path @ [1]) r fds)"
| "runcmd K path (PipeCmd l r) fds =
     (case if k_pipe K path then fd_pipe path fds else None of
        None \<Rightarrow> [sh_panic ''pipe'']
      | Some (p0, p1, fds) \<Rightarrow>
          if \<not> k_fork K path 0 then [sh_panic ''fork'']
          else runcmd K (path @ [0]) l (plug 1 p1 p0 p1 fds) @
            (if \<not> k_fork K path 1 then [sh_panic ''fork'']
             else runcmd K (path @ [1]) r (plug 0 p0 p0 p1 fds) @
               (let fds = fd_close p1 (fd_close p0 fds) in [Waits path fds, Waits path fds, Exits 0 []])))"
| "runcmd K path (Back c) fds =
     (if \<not> k_fork K path 0 then [sh_panic ''fork'']
      else runcmd K (path @ [0]) c fds @ [Exits 0 []])"

subsection \<open>The loop of the shell\<close>

definition SH_BUF :: int where "SH_BUF = 100"

text \<open>The line read, as the string in \<open>buf\<close>; \<open>None\<close> at the end of the input.\<close>

definition getcmd :: "u8 list list \<Rightarrow> u8 list option \<times> u8 list list" where
  "getcmd inp =
     (case gets SH_BUF inp of
        (buf, inp) \<Rightarrow> (if hd buf = 0 then None else Some (takeWhile (\<lambda>c. c \<noteq> 0) buf), inp))"

datatype sh_event = Chdir "u8 list" bool | Ran "proc_act list"

text \<open>What \<open>parsecmd\<close> prints before it panics when the line is not read to its end.\<close>

definition leftovers :: "u8 list \<Rightarrow> u8 list" where
  "leftovers b =
     (case parseline (Suc (length b)) b 0 of
        Fail e \<Rightarrow> []
      | Ok (c, s) \<Rightarrow> case peek b s [] of (s, _) \<Rightarrow>
          if s \<noteq> length b then ascii ''leftovers: '' @ drop s b @ [10] else [])"

definition sh_line :: "answers \<Rightarrow> nat \<Rightarrow> u8 list \<Rightarrow> fd_table \<Rightarrow> sh_event" where
  "sh_line K n b fds =
     (if char_in b 0 = 99 \<and> char_in b 1 = 100 \<and> char_in b 2 = 32
      then let dir = drop 3 (butlast b) in Chdir dir (k_chdir K dir)
      else if \<not> k_fork K [n] 0 then Ran [sh_panic ''fork'']
      else Ran ((case parsecmd b of
                   Ok p \<Rightarrow> runcmd K [n] (strings_of p) fds
                 | Fail (Panic s) \<Rightarrow> [Exits 1 (leftovers b @ ascii s @ [10])]
                 | Fail e \<Rightarrow> []) @ [Waits [] fds]))"

lemma gets_from_eq: "gets_from k inp = (cs, inp') \<Longrightarrow> concat inp = cs @ concat inp'"
proof (induction k arbitrary: inp cs inp')
  case (Suc k)
  obtain d inp1 where r: "read_piece 1 inp = (d, inp1)" by (metis surj_pair)
  have e: "concat inp = d @ concat inp1" by (rule read_piece_eq [OF r])
  show ?case
  proof (cases d)
    case Nil
    then show ?thesis using Suc.prems r e by simp
  next
    case (Cons c d')
    have "length d \<le> 1" using r by (cases inp) auto
    then have d: "d = [c]" using Cons by simp
    obtain cs1 inp2 where g: "gets_from k inp1 = (cs1, inp2)" by (metis surj_pair)
    show ?thesis using Suc.prems r e d g Suc.IH [OF g] by (auto split: if_splits)
  qed
qed simp

lemma getcmd_less: "(Some b, inp') = getcmd inp \<Longrightarrow> length (concat inp') < length (concat inp)"
proof -
  assume a: "(Some b, inp') = getcmd inp"
  obtain cs where g: "gets_from (nat (SH_BUF - 1)) inp = (cs, inp')" "hd (cs @ [0]) \<noteq> 0"
    using a by (auto simp: getcmd_def gets_def split: prod.splits if_splits)
  then have "cs \<noteq> []" by auto
  then show ?thesis using gets_from_eq [OF g(1)] by simp
qed

text \<open>The commands of the input, until it ends or \<open>fork\<close> fails in the shell itself.\<close>

function sh_loop :: "answers \<Rightarrow> nat \<Rightarrow> fd_table \<Rightarrow> u8 list list \<Rightarrow> sh_event list" where
  "sh_loop K n fds inp =
     (case getcmd inp of
        (None, inp) \<Rightarrow> []
      | (Some b, inp) \<Rightarrow>
          (case sh_line K n b fds of
             Chdir d r \<Rightarrow> Chdir d r # sh_loop K (Suc n) fds inp
           | Ran ps \<Rightarrow> Ran ps # (if k_fork K [n] 0 then sh_loop K (Suc n) fds inp else [])))"
  by pat_completeness auto
termination
  by (relation "measure (\<lambda>(K, n, fds, inp). length (concat inp))") (simp_all add: getcmd_less del: length_concat)

declare sh_loop.simps [simp del]

definition fd_free :: "fd_table \<Rightarrow> nat" where
  "fd_free fds = length (filter (\<lambda>f. f = None) fds)"

lemma lowest_freeD: "lowest_free fds = Some i \<Longrightarrow> i < length fds \<and> fds ! i = None \<and> (\<forall>j < i. fds ! j \<noteq> None)"
proof (induction fds arbitrary: i)
  case (Cons f fds)
  then show ?case by (cases i) (auto split: if_splits simp: All_less_Suc2)
qed simp

lemma fd_free_update:
  "i < length fds \<Longrightarrow> fds ! i = None \<Longrightarrow> fd_free (fds[i := Some f]) < fd_free fds"
proof (induction fds arbitrary: i)
  case (Cons g fds)
  then show ?case by (cases i) (auto simp: fd_free_def)
qed simp

lemma fd_new_less: "fd_new f fds = Some (i, fds') \<Longrightarrow> fd_free fds' < fd_free fds"
  using fd_free_update lowest_freeD by (fastforce simp: fd_new_def split: option.splits)

text \<open>\<open>main\<close> opens the console until descriptors 0, 1 and 2 are in use; then the loop.\<close>

function sh_open_console :: "bool \<Rightarrow> fd_table \<Rightarrow> fd_table" where
  "sh_open_console ok fds =
     (case if ok then fd_new (OpenedAs (ascii ''console'') 2) fds else None of
        None \<Rightarrow> fds
      | Some (fd, fds) \<Rightarrow> if 3 \<le> fd then fd_close fd fds else sh_open_console ok fds)"
  by pat_completeness auto
termination
  by (relation "measure (\<lambda>(ok, fds). fd_free fds)") (auto dest: fd_new_less split: if_splits)

declare sh_open_console.simps [simp del]

definition sh_main :: "answers \<Rightarrow> bool \<Rightarrow> fd_table \<Rightarrow> u8 list list \<Rightarrow> sh_event list" where
  "sh_main K console fds inp = sh_loop K 0 (sh_open_console console fds) inp"

end
