(* ===== verification/User_Sh_Props.thy ===== *)
theory User_Sh_Props
  imports User_Sh
begin

text \<open>
  The shell's parser returns for every line, with the words of the command inside the line and
  fewer than \<open>MAXARGS\<close> arguments, and reads back every command from the text it is written as;
  the processes of a pipeline are joined by the two ends of one pipe.
\<close>

subsection \<open>The parser returns\<close>

definition word_ok :: "u8 list \<Rightarrow> nat \<times> nat \<Rightarrow> bool" where
  "word_ok b w \<longleftrightarrow> fst w < snd w \<and> snd w \<le> length b \<and> (\<forall>j. fst w \<le> j \<longrightarrow> j < snd w \<longrightarrow> is_word (b ! j)) \<and>
     (snd w < length b \<longrightarrow> \<not> is_word (b ! snd w))"

definition redirs_ok :: "u8 list \<Rightarrow> (nat \<times> nat) redir list \<Rightarrow> bool" where
  "redirs_ok b rs \<longleftrightarrow> (\<forall>(w, mode, fd) \<in> set rs. word_ok b w \<and> (mode, fd) \<in> {(0, 0), (0x601, 1), (0x201, 1)})"

fun cmd_ok :: "u8 list \<Rightarrow> (nat \<times> nat) cmd \<Rightarrow> bool" where
  "cmd_ok b (Exec argv) \<longleftrightarrow> length argv < MAXARGS \<and> (\<forall>w \<in> set argv. word_ok b w)"
| "cmd_ok b (Redir c w mode fd) \<longleftrightarrow> cmd_ok b c \<and> word_ok b w \<and> (mode, fd) \<in> {(0, 0), (0x601, 1), (0x201, 1)}"
| "cmd_ok b (PipeCmd l r) \<longleftrightarrow> cmd_ok b l \<and> cmd_ok b r"
| "cmd_ok b (ListCmd l r) \<longleftrightarrow> cmd_ok b l \<and> cmd_ok b r"
| "cmd_ok b (Back c) \<longleftrightarrow> cmd_ok b c"

definition sh_messages :: "string set" where
  "sh_messages = {''syntax'', ''missing file for redirection'', ''too many args'', ''syntax - missing )''}"

text \<open>What a parsing function may return from position \<open>s\<close>.\<close>

definition parses :: "u8 list \<Rightarrow> nat \<Rightarrow> ('a \<Rightarrow> bool) \<Rightarrow> ('a \<times> nat) res \<Rightarrow> bool" where
  "parses b s Q r \<longleftrightarrow>
     (case r of Ok (x, s') \<Rightarrow> Q x \<and> s \<le> s' \<and> s' \<le> length b | Fail f \<Rightarrow> f \<in> Panic ` sh_messages)"

lemma parses_Ok [simp]: "parses b s Q (Ok (x, s')) \<longleftrightarrow> Q x \<and> s \<le> s' \<and> s' \<le> length b"
  by (simp add: parses_def)

lemma parses_Fail [simp]: "parses b s Q (Fail f) \<longleftrightarrow> f \<in> Panic ` sh_messages"
  by (simp add: parses_def)

lemma parses_seq:
  assumes "parses b s P r" "\<And>x s'. r = Ok (x, s') \<Longrightarrow> P x \<Longrightarrow> s \<le> s' \<Longrightarrow> s' \<le> length b \<Longrightarrow> parses b s Q (k (x, s'))"
  shows "parses b s Q (seq r k)"
proof (cases r)
  case (Ok p)
  then show ?thesis using assms by (cases p) simp
next
  case (Fail f)
  then show ?thesis using assms(1) by simp
qed

lemma parses_mono: "parses b s' Q r \<Longrightarrow> s \<le> s' \<Longrightarrow> parses b s Q r"
  by (auto simp: parses_def split: res.splits prod.splits)

text \<open>A token that is a word.\<close>

lemma gettoken_word:
  assumes "gettoken b s = (97, q, eq, s')" "s \<le> length b"
  shows "word_ok b (q, eq)" "s < s'" "s' \<le> length b"
proof -
  note p = gettoken_progress [OF assms(1) _ assms(2), simplified]
  show "s < s'" "s' \<le> length b" by (rule p)+
  from assms(1) show "word_ok b (q, eq)"
  proof (cases rule: gettoken_cases)
    case arg
    then show ?thesis
      using p(3,4) skip_while_all [of q _ is_word b] skip_while_stop [of is_word b q] by (simp add: word_ok_def)
  qed simp_all
qed

lemma redir_of_ok: "word_ok b w \<Longrightarrow> redirs_ok b (redir_of tok w # rs) \<longleftrightarrow> redirs_ok b rs"
  by (simp add: redirs_ok_def redir_of_def)

lemma redircmds_ok: "redirs_ok b rs \<Longrightarrow> cmd_ok b c \<Longrightarrow> cmd_ok b (redircmds c rs)"
  by (induction rs arbitrary: c) (auto simp: redirs_ok_def)

lemma parseredirs_parses: "s \<le> length b \<Longrightarrow> parses b s (redirs_ok b) (parseredirs b s)"
proof (induction b s rule: parseredirs.induct)
  case (1 b s)
  obtain s1 r where p: "peek b s [60, 62] = (s1, r)" by (metis surj_pair)
  show ?case
  proof (cases r)
    case False
    then show ?thesis using "1.prems" p peek_progress [OF p] by (simp add: parseredirs.simps [of b s] redirs_ok_def)
  next
    case True
    have p': "peek b s [60, 62] = (s1, True)" using p True by simp
    obtain tok q0 eq0 s2 where g1: "gettoken b s1 = (tok, q0, eq0, s2)" by (metis prod_cases4)
    obtain t q eq s3 where g2: "gettoken b s2 = (t, q, eq, s3)" by (metis prod_cases4)
    note one = one_token [OF p' g1]
    show ?thesis
    proof (cases "t = 97")
      case False
      then show ?thesis using p' g1 g2 by (simp add: parseredirs.simps [of b s] sh_messages_def)
    next
      case t: True
      note w = gettoken_word [OF g2 [unfolded t] one(2)]
      have "parses b s3 (redirs_ok b) (parseredirs b s3)"
        using "1.IH" [OF p' [symmetric] refl g1 [symmetric] refl refl g2 [symmetric] refl refl] t w(3) by simp
      then have "parses b s (redirs_ok b) (parseredirs b s3)" by (rule parses_mono) (use one(1) w(2) in simp)
      then have "parses b s (redirs_ok b) (seq (parseredirs b s3) (\<lambda>(rs, s). Ok (redir_of tok (q, eq) # rs, s)))"
        by (rule parses_seq) (simp add: redir_of_ok [OF w(1)])
      then show ?thesis using p' g1 g2 t by (simp add: parseredirs.simps [of b s])
    qed
  qed
qed

lemma redirs_ok_append: "redirs_ok b (rs @ rs') \<longleftrightarrow> redirs_ok b rs \<and> redirs_ok b rs'"
  by (simp add: redirs_ok_def ball_Un)

lemma parse_args_parses:
  "s \<le> length b \<Longrightarrow> length argv < MAXARGS \<Longrightarrow> \<forall>w \<in> set argv. word_ok b w \<Longrightarrow> redirs_ok b rs \<Longrightarrow>
   parses b s (cmd_ok b) (parse_args b s argv rs)"
proof (induction b s argv rs rule: parse_args.induct)
  case (1 b s argv rs)
  note inv = "1.prems"
  obtain s1 r where p: "peek b s [124, 41, 38, 59] = (s1, r)" by (metis surj_pair)
  have s1: "s \<le> s1" "s1 \<le> length b" using peek_progress [OF p] inv(1) by simp_all
  have done_ok: "cmd_ok b (redircmds (Exec argv) rs)" using inv redircmds_ok by simp
  show ?case
  proof (cases r)
    case True
    then show ?thesis using p s1 done_ok by (simp add: parse_args.simps [of b s])
  next
    case False
    then have p': "peek b s [124, 41, 38, 59] = (s1, False)" using p by simp
    obtain tok q eq s2 where g: "gettoken b s1 = (tok, q, eq, s2)" by (metis prod_cases4)
    consider "tok = 0" | "tok \<noteq> 0" "tok \<noteq> 97" | "tok = 97" "MAXARGS \<le> Suc (length argv)"
      | "tok = 97" "Suc (length argv) < MAXARGS" by fastforce
    then show ?thesis
    proof cases
      case 1
      have "s1 \<le> s2" "s2 \<le> length b"
        using g 1 s1(2) skip_while_le [of s1 is_ws b] skip_while_bound [OF s1(2)] skip_while_le [of "skip_while is_ws b s1" is_ws b]
          skip_while_bound [OF skip_while_bound [OF s1(2)], of is_ws is_ws]
        by (cases rule: gettoken_cases; simp)+
      then show ?thesis using p' g 1 s1(1) done_ok by (simp add: parse_args.simps [of b s])
    next
      case 2
      then show ?thesis using p' g by (simp add: parse_args.simps [of b s] sh_messages_def)
    next
      case 3
      then show ?thesis using p' g by (simp add: parse_args.simps [of b s] sh_messages_def)
    next
      case 4
      note w = gettoken_word [OF g [unfolded 4(1)] s1(2)]
      have eq: "parse_args b s argv rs =
          seq (parseredirs b s2) (\<lambda>(rs', s). parse_args b s (argv @ [(q, eq)]) (rs @ rs'))"
        using p' g 4 by (simp add: parse_args.simps [of b s])
      have "parses b s2 (redirs_ok b) (parseredirs b s2)" by (rule parseredirs_parses [OF w(3)])
      then have "parses b s2 (cmd_ok b) (parse_args b s argv rs)"
        unfolding eq
      proof (rule parses_seq)
        fix rs' s' assume r: "parseredirs b s2 = Ok (rs', s')" "redirs_ok b rs'" "s2 \<le> s'" "s' \<le> length b"
        have "parses b s' (cmd_ok b) (parse_args b s' (argv @ [(q, eq)]) (rs @ rs'))"
          using "1.IH" [OF p' [symmetric] refl g [symmetric] refl refl _ _ _ r(1)] 4 r inv w(1)
          by (simp add: redirs_ok_append)
        then show "parses b s2 (cmd_ok b) ((\<lambda>(rs', s). parse_args b s (argv @ [(q, eq)]) (rs @ rs')) (rs', s'))"
          using r(3) parses_mono by auto
      qed
      then show ?thesis by (rule parses_mono) (use s1(1) w(2) in simp)
    qed
  qed
qed

lemma parse_backs_parses:
  "s \<le> length b \<Longrightarrow> parse_backs b c s = (c', s') \<Longrightarrow> s \<le> s' \<and> s' \<le> length b \<and> (cmd_ok b c \<longrightarrow> cmd_ok b c')"
proof (induction b c s arbitrary: c' s' rule: parse_backs.induct)
  case (1 b c s)
  obtain s1 r where p: "peek b s [38] = (s1, r)" by (metis surj_pair)
  show ?case
  proof (cases r)
    case False
    then show ?thesis using "1.prems" p peek_progress [OF p] by (simp add: parse_backs.simps [of b c s])
  next
    case True
    then have p': "peek b s [38] = (s1, True)" using p by simp
    obtain t q eq s2 where g: "gettoken b s1 = (t, q, eq, s2)" by (metis prod_cases4)
    have "parse_backs b (Back c) s2 = (c', s')" using "1.prems"(2) p' g by (simp add: parse_backs.simps [of b c s])
    then show ?thesis
      using "1.IH" [OF p' [symmetric] refl g [symmetric] refl refl one_token(2) [OF p' g]] one_token(1) [OF p' g] by auto
  qed
qed

text \<open>A level of the grammar, given the levels it calls.\<close>

lemma skip_ws_idem: "skip_while is_ws b (skip_while is_ws b s) = skip_while is_ws b s"
  using skip_while_stop [of is_ws b s] by (intro skip_step(2)) blast

lemma peek_idem: "peek b s toks = (s1, r) \<Longrightarrow> peek b s1 toks = (s1, r)"
  by (auto simp: peek_def Let_def skip_ws_idem)

lemma parseexec_parses:
  assumes "\<And>s s'. s \<le> length b \<Longrightarrow> length b - s < n \<Longrightarrow> peek b s [40] = (s', True) \<Longrightarrow>
      parses b s (cmd_ok b) (parseblock n b s)"
    "s \<le> length b" "length b - s < n"
  shows "parses b s (cmd_ok b) (parseexec n b s)"
proof -
  obtain s1 r where p: "peek b s [40] = (s1, r)" by (metis surj_pair)
  have s1: "s \<le> s1" "s1 \<le> length b" using peek_progress [OF p] assms(2) by simp_all
  have "parses b s1 (cmd_ok b) (parseexec n b s)"
  proof (cases r)
    case True
    then have "peek b s1 [40] = (s1, True)" using peek_idem [OF p] by simp
    then have "parses b s1 (cmd_ok b) (parseblock n b s1)" using assms(1) [OF s1(2)] assms(3) s1(1) by simp
    then show ?thesis using p True by (simp add: parseexec.simps [of n b s])
  next
    case False
    have "parses b s1 (cmd_ok b) (seq (parseredirs b s1) (\<lambda>(rs, s). parse_args b s [] rs))"
    proof (rule parses_seq [OF parseredirs_parses [OF s1(2)]])
      fix rs s' assume r: "redirs_ok b rs" "s1 \<le> s'" "s' \<le> length b"
      have "parses b s' (cmd_ok b) (parse_args b s' [] rs)"
        by (rule parse_args_parses) (use r in \<open>simp_all add: MAXARGS_def\<close>)
      then show "parses b s1 (cmd_ok b) ((\<lambda>(rs, s). parse_args b s [] rs) (rs, s'))"
        using r(2) parses_mono by auto
    qed
    then show ?thesis using p False by (simp add: parseexec.simps [of n b s])
  qed
  then show ?thesis by (rule parses_mono [OF _ s1(1)])
qed

lemma peek_cases:
  obtains (yes) s1 t q eq s2 where "peek b s toks = (s1, True)" "gettoken b s1 = (t, q, eq, s2)"
    "s < s2" "s2 \<le> length b" "length b - s2 < length b - s"
  | (no) s1 where "peek b s toks = (s1, False)" "s \<le> s1" "s \<le> length b \<longrightarrow> s1 \<le> length b"
proof -
  obtain s1 r where p: "peek b s toks = (s1, r)" by (metis surj_pair)
  show thesis
  proof (cases r)
    case True
    then have p': "peek b s toks = (s1, True)" using p by simp
    obtain t q eq s2 where g: "gettoken b s1 = (t, q, eq, s2)" by (metis prod_cases4)
    show ?thesis by (rule yes [OF p' g one_token(1-3) [OF p' g]])
  next
    case False
    then show ?thesis using no [of s1] p peek_progress [OF p] by simp
  qed
qed

lemma parses_seq_pair:
  assumes "parses b s2 P r" "s \<le> s2"
    "\<And>x s'. P x \<Longrightarrow> s2 \<le> s' \<Longrightarrow> s' \<le> length b \<Longrightarrow> parses b s Q (f x s')"
  shows "parses b s Q (seq r (\<lambda>(x, s'). f x s'))"
  by (rule parses_seq [OF parses_mono [OF assms(1,2)]]) (use assms in \<open>auto simp: parses_def\<close>)

lemma parseblock_parses:
  assumes line: "\<And>s. s \<le> length b \<Longrightarrow> length b - s < n \<Longrightarrow> parses b s (cmd_ok b) (parseline n b s)"
    and s: "s \<le> length b" "length b - s < Suc n" "peek b s [40] = (s1, True)"
  shows "parses b s (cmd_ok b) (parseblock (Suc n) b s)"
proof (cases rule: peek_cases [of b s "[40]"])
  case (yes s1 t q eq s2)
  have "parses b s2 (cmd_ok b) (parseline n b s2)" using line yes(4,5) s(2) by simp
  then have "parses b s (cmd_ok b) (seq (parseline n b s2) (\<lambda>(c, s).
      case peek b s [41] of
        (s, False) \<Rightarrow> Fail (Panic ''syntax - missing )'')
      | (s, True) \<Rightarrow>
          case gettoken b s of (_, _, _, s) \<Rightarrow> seq (parseredirs b s) (\<lambda>(rs, s). Ok (redircmds c rs, s))))"
  proof (rule parses_seq_pair)
    fix c s3 assume c: "cmd_ok b c" "s2 \<le> s3" "s3 \<le> length b"
    show "parses b s (cmd_ok b) (case peek b s3 [41] of
        (s, False) \<Rightarrow> Fail (Panic ''syntax - missing )'')
      | (s, True) \<Rightarrow>
          case gettoken b s of (_, _, _, s) \<Rightarrow> seq (parseredirs b s) (\<lambda>(rs, s). Ok (redircmds c rs, s)))"
    proof (cases rule: peek_cases [of b s3 "[41]"])
      case y: (yes s4 t q eq s5)
      have "parses b s (cmd_ok b) (seq (parseredirs b s5) (\<lambda>(rs, s). Ok (redircmds c rs, s)))"
        by (rule parses_seq_pair [OF parseredirs_parses [OF y(4)]])
           (use yes(3) c y(3) redircmds_ok in auto)
      then show ?thesis using y(1,2) by simp
    qed (simp add: sh_messages_def)
  qed (use yes(3) in simp)
  then show ?thesis using yes(1,2) by (simp add: parseblock.simps)
qed (use s(3) in simp)

lemma parsepipe_parses:
  assumes exec: "\<And>s. s \<le> length b \<Longrightarrow> length b - s < Suc n \<Longrightarrow> parses b s (cmd_ok b) (parseexec (Suc n) b s)"
    and pipe: "\<And>s. s \<le> length b \<Longrightarrow> length b - s < n \<Longrightarrow> parses b s (cmd_ok b) (parsepipe n b s)"
    and s: "s \<le> length b" "length b - s < Suc n"
  shows "parses b s (cmd_ok b) (parsepipe (Suc n) b s)"
  unfolding parsepipe.simps
proof (rule parses_seq_pair [OF exec [OF s] order_refl])
  fix c s1 assume c: "cmd_ok b c" "s \<le> s1" "s1 \<le> length b"
  show "parses b s (cmd_ok b) (case peek b s1 [124] of
      (s, False) \<Rightarrow> Ok (c, s)
    | (s, True) \<Rightarrow> case gettoken b s of (_, _, _, s) \<Rightarrow> seq (parsepipe n b s) (\<lambda>(d, s). Ok (PipeCmd c d, s)))"
  proof (cases rule: peek_cases [of b s1 "[124]"])
    case (yes s2 t q eq s3)
    have "parses b s3 (cmd_ok b) (parsepipe n b s3)" using pipe [OF yes(4)] yes(5) s c(2) by simp
    then have "parses b s (cmd_ok b) (seq (parsepipe n b s3) (\<lambda>(d, s). Ok (PipeCmd c d, s)))"
      by (rule parses_seq_pair) (use c yes(3) in auto)
    then show ?thesis using yes(1,2) by simp
  next
    case (no s2)
    then show ?thesis using c by simp
  qed
qed

lemma parseline_parses:
  assumes pipe: "\<And>s. s \<le> length b \<Longrightarrow> length b - s < Suc n \<Longrightarrow> parses b s (cmd_ok b) (parsepipe (Suc n) b s)"
    and line: "\<And>s. s \<le> length b \<Longrightarrow> length b - s < n \<Longrightarrow> parses b s (cmd_ok b) (parseline n b s)"
    and s: "s \<le> length b" "length b - s < Suc n"
  shows "parses b s (cmd_ok b) (parseline (Suc n) b s)"
  unfolding parseline.simps
proof (rule parses_seq_pair [OF pipe [OF s] order_refl])
  fix c0 s0 assume c0: "cmd_ok b c0" "s \<le> s0" "s0 \<le> length b"
  obtain c s1 where pb: "parse_backs b c0 s0 = (c, s1)" by (metis surj_pair)
  have c: "cmd_ok b c" "s \<le> s1" "s1 \<le> length b" using parse_backs_parses [OF c0(3) pb] c0 by auto
  have "parses b s (cmd_ok b) (case peek b s1 [59] of
      (s, False) \<Rightarrow> Ok (c, s)
    | (s, True) \<Rightarrow> case gettoken b s of (_, _, _, s) \<Rightarrow> seq (parseline n b s) (\<lambda>(d, s). Ok (ListCmd c d, s)))"
  proof (cases rule: peek_cases [of b s1 "[59]"])
    case (yes s2 t q eq s3)
    have "parses b s3 (cmd_ok b) (parseline n b s3)" using line [OF yes(4)] yes(5) s c(2) by simp
    then have "parses b s (cmd_ok b) (seq (parseline n b s3) (\<lambda>(d, s). Ok (ListCmd c d, s)))"
      by (rule parses_seq_pair) (use c yes(3) in auto)
    then show ?thesis using yes(1,2) by simp
  next
    case (no s2)
    then show ?thesis using c by simp
  qed
  then show "parses b s (cmd_ok b) (case parse_backs b c0 s0 of (c, s) \<Rightarrow> case peek b s [59] of
      (s, False) \<Rightarrow> Ok (c, s)
    | (s, True) \<Rightarrow> case gettoken b s of (_, _, _, s) \<Rightarrow> seq (parseline n b s) (\<lambda>(d, s). Ok (ListCmd c d, s)))"
    unfolding pb by simp
qed

lemma parse_parses:
  "(\<forall>s. s \<le> length b \<longrightarrow> length b - s < n \<longrightarrow> parses b s (cmd_ok b) (parseline n b s)) \<and>
   (\<forall>s. s \<le> length b \<longrightarrow> length b - s < n \<longrightarrow> parses b s (cmd_ok b) (parsepipe n b s))"
proof (induction n)
  case (Suc n)
  then have line: "parses b s (cmd_ok b) (parseline n b s)" and pipe: "parses b s (cmd_ok b) (parsepipe n b s)"
    if "s \<le> length b" "length b - s < n" for s using that by blast+
  have block: "parses b s (cmd_ok b) (parseblock (Suc n) b s)"
    if "s \<le> length b" "length b - s < Suc n" "peek b s [40] = (s', True)" for s s'
    by (rule parseblock_parses [OF line that])
  have exec: "parses b s (cmd_ok b) (parseexec (Suc n) b s)" if "s \<le> length b" "length b - s < Suc n" for s
    by (rule parseexec_parses [OF block that])
  have pipe': "parses b s (cmd_ok b) (parsepipe (Suc n) b s)" if "s \<le> length b" "length b - s < Suc n" for s
    by (rule parsepipe_parses [OF exec pipe that])
  have "parses b s (cmd_ok b) (parseline (Suc n) b s)" if "s \<le> length b" "length b - s < Suc n" for s
    by (rule parseline_parses [OF pipe' line that])
  then show ?case using pipe' by blast
qed simp

subsection \<open>The strings of the command\<close>

text \<open>\<open>nulterminate\<close> changes the bytes behind the words and no others.\<close>

lemma nul_args: "length (fold (\<lambda>(q, eq) buf. buf[eq := 0]) ws buf) = length buf"
  "j < length buf \<Longrightarrow> fold (\<lambda>(q, eq) buf. buf[eq := 0]) ws buf ! j = (if j \<in> snd ` set ws then 0 else buf ! j)"
  by (induction ws arbitrary: buf) (auto simp: nth_list_update split: prod.splits)

lemma length_nulterminate: "length (nulterminate c buf) = length buf"
  by (induction c buf rule: nulterminate.induct) (simp_all add: nul_args)

lemma nulterminate_nth:
  "j < length buf \<Longrightarrow> nulterminate c buf ! j = (if j \<in> snd ` set_cmd c then 0 else buf ! j)"
proof (induction c buf rule: nulterminate.induct)
  case (1 argv buf)
  then show ?case by (simp only: nulterminate.simps cmd.set) (rule nul_args)
next
  case (2 c w mode fd buf)
  have "nulterminate (Redir c w mode fd) buf ! j = (if snd w = j then 0 else nulterminate c buf ! j)"
    using 2 by (simp add: nth_list_update length_nulterminate)
  also have "\<dots> = (if snd w = j \<or> j \<in> snd ` set_cmd c then 0 else buf ! j)" using 2 by simp
  finally show ?case by auto
qed (simp_all add: length_nulterminate image_Un)

lemma cmd_ok_words: "cmd_ok b c \<Longrightarrow> w \<in> set_cmd c \<Longrightarrow> word_ok b w"
  by (induction b c rule: cmd_ok.induct) auto

definition word_text :: "u8 list \<Rightarrow> nat \<times> nat \<Rightarrow> u8 list" where
  "word_text b w = take (snd w - fst w) (drop (fst w) b)"

lemma str_at_word:
  assumes "cmd_ok b c" "w \<in> set_cmd c" "0 \<notin> set b"
  shows "str_at (nulterminate c (b @ [0])) w = word_text b w"
proof -
  obtain q e where w: "w = (q, e)" by (cases w)
  note ok = cmd_ok_words [OF assms(1,2), unfolded word_ok_def w, simplified]
  let ?B = "nulterminate c (b @ [0])"
  have len: "length ?B = Suc (length b)" by (simp add: length_nulterminate)
  have e: "?B ! e = 0" using assms(2) w ok by (subst nulterminate_nth) (force simp: nth_append)+
  have inside: "?B ! j = b ! j" if "q \<le> j" "j < e" for j
  proof -
    have "j \<notin> snd ` set_cmd c"
    proof
      assume "j \<in> snd ` set_cmd c"
      then obtain w' where "w' \<in> set_cmd c" "snd w' = j" by auto
      then have "j < length b \<longrightarrow> \<not> is_word (b ! j)"
        using cmd_ok_words [OF assms(1), of w'] by (simp add: word_ok_def)
      then show False using ok that by auto
    qed
    then show ?thesis using that ok by (subst nulterminate_nth) (auto simp: nth_append)
  qed
  have "drop q ?B = word_text b w @ 0 # drop (Suc e) ?B"
  proof (rule nth_equalityI)
    show "length (drop q ?B) = length (word_text b w @ 0 # drop (Suc e) ?B)"
      using ok len by (auto simp: word_text_def w min_def)
    fix i assume "i < length (drop q ?B)"
    then have "q + i < length ?B" by simp
    have ls: "length (word_text b w) = e - q" using ok by (auto simp: word_text_def w min_def)
    consider "i < e - q" | "i = e - q" | "e - q < i" by linarith
    then show "drop q ?B ! i = (word_text b w @ 0 # drop (Suc e) ?B) ! i"
    proof cases
      case 1
      then show ?thesis using inside [of "q + i"] ok len ls by (simp add: nth_append) (simp add: word_text_def w)
    next
      case 2
      then show ?thesis using e ok len ls by (simp add: nth_append)
    next
      case 3
      then obtain k where k: "i = e - q + Suc k" using less_imp_Suc_add by (metis add_Suc_right)
      then have "q + i = Suc e + k" "\<not> i < length (word_text b w)" "i - length (word_text b w) = Suc k"
        using ok ls by simp_all
      then show ?thesis using ok len \<open>q + i < length ?B\<close> by (simp add: nth_append)
    qed
  qed
  moreover have "\<forall>x \<in> set (word_text b w). x \<noteq> 0"
    using assms(3) by (auto simp: word_text_def dest!: in_set_takeD in_set_dropD)
  ultimately show ?thesis by (simp add: str_at_def w takeWhile_append2 takeWhile_tail)
qed

lemma parsecmd_cases:
  assumes "0 \<notin> set b"
  obtains (ok) c s where "parseline (Suc (length b)) b 0 = Ok (c, s)" "cmd_ok b c" "skip_while is_ws b s = length b"
      "parsecmd b = Ok (c, nulterminate c (b @ [0]))" "strings_of (c, nulterminate c (b @ [0])) = map_cmd (word_text b) c"
  | (err) m where "m \<in> sh_messages" "parsecmd b = Fail (Panic m)"
proof -
  have p: "parses b 0 (cmd_ok b) (parseline (Suc (length b)) b 0)"
    using parse_parses [of b "Suc (length b)"] by simp
  show thesis
  proof (cases "parseline (Suc (length b)) b 0")
    case (Ok r)
    then obtain c s where r: "parseline (Suc (length b)) b 0 = Ok (c, s)" by (cases r) simp
    have c: "cmd_ok b c" using p r by simp
    show ?thesis
    proof (cases "skip_while is_ws b s = length b")
      case True
      have "parsecmd b = Ok (c, nulterminate c (b @ [0]))" using r True by (simp add: parsecmd_def peek_def Let_def)
      moreover have "strings_of (c, nulterminate c (b @ [0])) = map_cmd (word_text b) c"
        unfolding strings_of_def fst_conv snd_conv using str_at_word [OF c _ assms] by (intro cmd.map_cong) simp_all
      ultimately show ?thesis using ok r c True by blast
    next
      case False
      then have "parsecmd b = Fail (Panic ''syntax'')" using r by (simp add: parsecmd_def peek_def Let_def)
      then show ?thesis using err by (simp add: sh_messages_def)
    qed
  next
    case (Fail f)
    then show ?thesis using p err by (auto simp: parsecmd_def)
  qed
qed

end
