(* ===== verification/User_Sh_Text.thy ===== *)
theory User_Sh_Text
  imports User_Sh_Props
begin

text \<open>
  Commands as text: \<open>show_cmd\<close> writes a command at one of the four levels of the grammar, with
  parentheses where the level needs them; the parser reads it back.
\<close>

subsection \<open>Writing a command\<close>

definition sh_word :: "u8 list \<Rightarrow> bool" where
  "sh_word w \<longleftrightarrow> w \<noteq> [] \<and> (\<forall>c \<in> set w. is_word c \<and> c \<noteq> 0)"

definition redir_text :: "u8 list redir \<Rightarrow> u8 list" where
  "redir_text r = (case r of (w, mode, fd) \<Rightarrow>
     (if mode = 0 then [32, 60, 32] else if mode = 0x601 then [32, 62, 32] else [32, 62, 62, 32]) @ w)"

definition redirs_text :: "u8 list redir list \<Rightarrow> u8 list" where
  "redirs_text rs = concat (map redir_text rs)"

definition args_text :: "u8 list list \<Rightarrow> u8 list" where
  "args_text ws = concat (map (\<lambda>w. 32 # w) ws)"

datatype level = LLine | LBack | LPipe | LExec

function (sequential) show_cmd :: "level \<Rightarrow> u8 list cmd \<Rightarrow> u8 list" where
  "show_cmd LExec (Exec argv) = args_text argv"
| "show_cmd LExec (Redir c w mode fd) = show_cmd LExec c @ redir_text (w, mode, fd)"
| "show_cmd LExec (PipeCmd l r) = [40] @ show_cmd LExec l @ [124] @ show_cmd LPipe r @ [41]"
| "show_cmd LExec (ListCmd l r) = [40] @ show_cmd LBack l @ [59] @ show_cmd LLine r @ [41]"
| "show_cmd LExec (Back c) = [40] @ show_cmd LBack c @ [38] @ [41]"
| "show_cmd LLine (ListCmd l r) = show_cmd LBack l @ [59] @ show_cmd LLine r"
| "show_cmd LLine (Back c) = show_cmd LBack c @ [38]"
| "show_cmd LLine (PipeCmd l r) = show_cmd LExec l @ [124] @ show_cmd LPipe r"
| "show_cmd LLine c = show_cmd LExec c"
| "show_cmd LBack (Back c) = show_cmd LBack c @ [38]"
| "show_cmd LBack (PipeCmd l r) = show_cmd LExec l @ [124] @ show_cmd LPipe r"
| "show_cmd LBack c = show_cmd LExec c"
| "show_cmd LPipe (PipeCmd l r) = show_cmd LExec l @ [124] @ show_cmd LPipe r"
| "show_cmd LPipe c = show_cmd LExec c"
  by pat_completeness auto
termination
  by (relation "measure (\<lambda>(l, c). 2 * size c + (if l = LExec then 0 else 1))") auto

fun writable :: "u8 list cmd \<Rightarrow> bool" where
  "writable (Exec argv) \<longleftrightarrow> length argv < MAXARGS \<and> (\<forall>w \<in> set argv. sh_word w)"
| "writable (Redir c w mode fd) \<longleftrightarrow> writable c \<and> sh_word w \<and> (mode, fd) \<in> {(0, 0), (0x601, 1), (0x201, 1)}"
| "writable (PipeCmd l r) \<longleftrightarrow> writable l \<and> writable r"
| "writable (ListCmd l r) \<longleftrightarrow> writable l \<and> writable r"
| "writable (Back c) \<longleftrightarrow> writable c"

subsection \<open>Reading at a known text\<close>

lemma drop_Cons_nth:
  assumes "drop s b = x # t" shows "s < length b" "b ! s = x" "drop (Suc s) b = t" "char_in b s = x"
proof -
  show l: "s < length b" using assms by (metis drop_all list.distinct(1) not_less)
  show "b ! s = x" "drop (Suc s) b = t" using assms Cons_nth_drop_Suc [OF l] by simp_all
  then show "char_in b s = x" using l by (simp add: char_in_def)
qed

lemma skip_blank: "drop s b = x # t \<Longrightarrow> is_ws x \<Longrightarrow> skip_while is_ws b s = skip_while is_ws b (Suc s)"
  using drop_Cons_nth by (intro skip_step(1)) auto

lemma skip_none: "drop s b = x # t \<Longrightarrow> \<not> P x \<Longrightarrow> skip_while P b s = s"
  using drop_Cons_nth(2) by (intro skip_step(2)) auto

lemma drop_Nil_char: "drop s b = [] \<Longrightarrow> char_in b s = 0 \<and> skip_while P b s = s"
  by (simp add: char_in_def skip_while_beyond)

lemma skip_word:
  "drop s b = w @ t \<Longrightarrow> \<forall>c \<in> set w. P c \<Longrightarrow> t = [] \<or> \<not> P (hd t) \<Longrightarrow> skip_while P b s = s + length w"
proof (induction w arbitrary: s)
  case Nil
  then show ?case by (cases t) (auto simp: skip_none drop_Nil_char)
next
  case (Cons x w)
  have d: "drop s b = x # w @ t" using Cons.prems(1) by simp
  have "skip_while P b s = skip_while P b (Suc s)"
    using drop_Cons_nth [OF d] Cons.prems(2) by (intro skip_step(1)) simp_all
  also have "\<dots> = Suc s + length w" using drop_Cons_nth(3) [OF d] Cons.prems by (intro Cons.IH) auto
  finally show ?case by simp
qed

lemma drop_append_length: "drop s b = w @ t \<Longrightarrow> drop (s + length w) b = t"
  by (metis append_eq_conv_conj drop_drop add.commute)

text \<open>Blanks before it make no difference to a token or a level.\<close>

lemma gettoken_skip: "gettoken b (skip_while is_ws b s) = gettoken b s"
  by (simp add: gettoken_def skip_ws_idem Let_def)

lemma peek_skip: "peek b (skip_while is_ws b s) toks = peek b s toks"
  by (simp add: peek_def skip_ws_idem Let_def)

lemma parseredirs_skip: "parseredirs b (skip_while is_ws b s) = parseredirs b s"
  by (simp add: parseredirs.simps [of b "skip_while is_ws b s"] parseredirs.simps [of b s] peek_skip)

lemma parse_args_skip: "parse_args b (skip_while is_ws b s) argv rs = parse_args b s argv rs"
  by (simp add: parse_args.simps [of b "skip_while is_ws b s"] parse_args.simps [of b s] peek_skip)

lemma parseexec_skip: "parseexec n b (skip_while is_ws b s) = parseexec n b s"
  by (simp add: parseexec.simps [of n b "skip_while is_ws b s"] parseexec.simps [of n b s] peek_skip)

lemma parsepipe_skip: "parsepipe n b (skip_while is_ws b s) = parsepipe n b s"
  by (cases n) (simp_all add: parsepipe.simps parseexec_skip)

lemma parseline_skip: "parseline n b (skip_while is_ws b s) = parseline n b s"
  by (cases n) (simp_all add: parseline.simps parsepipe_skip)

text \<open>The front of a text.\<close>

lemma peek_at: "drop s b = x # t \<Longrightarrow> \<not> is_ws x \<Longrightarrow> peek b s toks = (s, x \<noteq> 0 \<and> x \<in> set toks)"
  using drop_Cons_nth(4) [of s b x t] by (simp add: peek_def skip_none Let_def)

lemma peek_end: "drop s b = [] \<Longrightarrow> peek b s toks = (s, False)"
  by (simp add: peek_def drop_Nil_char Let_def)

lemma peek_blank: "drop s b = 32 # x # t \<Longrightarrow> \<not> is_ws x \<Longrightarrow> peek b s toks = (Suc s, x \<noteq> 0 \<and> x \<in> set toks)"
  using peek_skip [of b s toks] peek_skip [of b "Suc s" toks] skip_blank [of s b 32 "x # t"]
    peek_at [of "Suc s" b x t] drop_Cons_nth(3) [of s b 32 "x # t"]
  by (simp add: is_ws_def whitespace_def)

lemma symbol_token:
  assumes "drop s b = x # t" "x \<in> {124, 40, 41, 59, 38, 60}"
  shows "gettoken b s = (x, s, Suc s, skip_while is_ws b (Suc s))"
proof -
  have "\<not> is_ws x" "x \<noteq> 0" using assms(2) by (auto simp: is_ws_def whitespace_def)
  then show ?thesis
    using assms(2) drop_Cons_nth(4) [OF assms(1)] skip_none [OF assms(1)]
    by (auto simp: gettoken_def Let_def)
qed

lemma word_token:
  assumes "drop s b = w @ t" "sh_word w" "t = [] \<or> \<not> is_word (hd t)"
  shows "gettoken b s = (97, s, s + length w, skip_while is_ws b (s + length w))" "word_text b (s, s + length w) = w"
proof -
  obtain x w' where w: "w = x # w'" using assms(2) by (cases w) (auto simp: sh_word_def)
  then have x: "is_word x" "x \<noteq> 0" using assms(2) by (simp_all add: sh_word_def)
  have d: "drop s b = x # w' @ t" using assms(1) w by simp
  have "x \<notin> {124, 40, 41, 59, 38, 60, 62}" "\<not> is_ws x" using x(1) by (auto simp: is_word_def sh_symbols_def)
  then show "gettoken b s = (97, s, s + length w, skip_while is_ws b (s + length w))"
    using x drop_Cons_nth(4) [OF d] skip_none [OF d, of is_ws] skip_word [OF assms(1), of is_word] assms(2,3)
    by (simp add: gettoken_def Let_def sh_word_def)
  show "word_text b (s, s + length w) = w" using assms(1) by (simp add: word_text_def)
qed

subsection \<open>Redirections and arguments\<close>

definition stops :: "u8 set \<Rightarrow> u8 list \<Rightarrow> bool" where
  "stops F r \<longleftrightarrow> r = [] \<or> hd r \<in> F"

definition redir_ok :: "u8 list redir \<Rightarrow> bool" where
  "redir_ok r \<longleftrightarrow> (case r of (w, mode, fd) \<Rightarrow> sh_word w \<and> (mode, fd) \<in> {(0, 0), (0x601, 1), (0x201, 1)})"

definition redirs_read :: "u8 list \<Rightarrow> (nat \<times> nat) redir list \<Rightarrow> u8 list redir list" where
  "redirs_read b rs = map (map_prod (word_text b) id) rs"

lemma not_ws_symbols [simp]:
  "\<not> is_ws 124" "\<not> is_ws 40" "\<not> is_ws 41" "\<not> is_ws 59" "\<not> is_ws 38" "\<not> is_ws 60" "\<not> is_ws 62" "is_ws 32"
  "\<not> is_word 124" "\<not> is_word 40" "\<not> is_word 41" "\<not> is_word 59" "\<not> is_word 38" "\<not> is_word 60" "\<not> is_word 62" "\<not> is_word 32"
  by (simp_all add: is_word_def is_ws_def whitespace_def sh_symbols_def)

lemma sh_word_first: "sh_word w \<Longrightarrow> \<exists>x w'. w = x # w' \<and> is_word x \<and> x \<noteq> 0 \<and> \<not> is_ws x \<and> x \<notin> {60, 62, 124, 41, 38, 59, 40}"
  by (cases w) (auto simp: sh_word_def is_word_def sh_symbols_def)

lemma stops_peek:
  assumes "drop s b = r" "stops F r" "F \<subseteq> {124, 41, 59, 38}"
  shows "peek b s toks = (s, r \<noteq> [] \<and> hd r \<in> set toks)" "skip_while is_ws b s = s" "r = [] \<or> \<not> is_word (hd r)"
    "r = [] \<or> \<not> is_ws (hd r)"
proof -
  have F: "r = [] \<or> (\<exists>x t. r = x # t \<and> x \<in> {124, 41, 59, 38})" using assms(2,3) by (cases r) (auto simp: stops_def)
  then show "peek b s toks = (s, r \<noteq> [] \<and> hd r \<in> set toks)"
    using assms(1) by (auto simp: peek_end peek_at)
  show "skip_while is_ws b s = s" "r = [] \<or> \<not> is_word (hd r)" "r = [] \<or> \<not> is_ws (hd r)"
    using F assms(1) by (auto simp: drop_Nil_char skip_none)
qed

lemma redir_reads:
  assumes d: "drop s b = redir_text (w, mode, fd) @ t" and ok: "redir_ok (w, mode, fd)" and t: "t = [] \<or> \<not> is_word (hd t)"
  obtains o' where "parseredirs b s = seq (parseredirs b (s + length (redir_text (w, mode, fd))))
      (\<lambda>(rs, s). Ok ((o', mode, fd) # rs, s))" "word_text b o' = w"
proof -
  obtain x w' where w: "w = x # w'" "\<not> is_ws x" "sh_word w" using sh_word_first [of w] ok by (auto simp: redir_ok_def)
  let ?n = "length (redir_text (w, mode, fd))"
  let ?q = "s + (?n - length w)"
  have blank: "skip_while is_ws b p = Suc p" "drop (Suc p) b = w @ t" if "drop p b = 32 # w @ t" for p
    using drop_Cons_nth(3) [OF that] skip_blank [OF that] skip_none [of "Suc p" b x "w' @ t"] w by auto
  obtain tok eq where g: "peek b s [60, 62] = (Suc s, True)" "gettoken b (Suc s) = (tok, Suc s, eq, skip_while is_ws b eq)"
    "skip_while is_ws b eq = ?q" "drop ?q b = w @ t" "\<forall>z :: nat \<times> nat. redir_of tok z = (z, mode, fd)"
  proof -
    have modes: "(mode = 0 \<and> fd = 0) \<or> (mode = 0x601 \<and> fd = 1) \<or> (mode = 0x201 \<and> fd = 1)" using ok by (auto simp: redir_ok_def)
    have plus: "s + 3 = Suc (Suc (Suc s))" "s + 4 = Suc (Suc (Suc (Suc s)))" by simp_all
    from modes consider (lt) "mode = 0" "fd = 0" | (gt) "mode = 0x601" "fd = 1" | (gg) "mode = 0x201" "fd = 1" by blast
    then show thesis
    proof cases
      case lt
      have d1: "drop (Suc s) b = 60 # 32 # w @ t" using d lt by (simp add: redir_text_def drop_Cons_nth(3))
      have d2: "drop (Suc (Suc s)) b = 32 # w @ t" by (rule drop_Cons_nth(3) [OF d1])
      show thesis
        using that [of 60 "Suc (Suc s)"] peek_blank [of s b 60 "32 # w @ t"] d lt symbol_token [OF d1] blank [OF d2]
        by (simp add: redir_text_def redir_of_def plus)
    next
      case gt
      have d1: "drop (Suc s) b = 62 # 32 # w @ t" using d gt by (simp add: redir_text_def drop_Cons_nth(3))
      have d2: "drop (Suc (Suc s)) b = 32 # w @ t" by (rule drop_Cons_nth(3) [OF d1])
      have "gettoken b (Suc s) = (62, Suc s, Suc (Suc s), skip_while is_ws b (Suc (Suc s)))"
        using drop_Cons_nth(4) [OF d1] drop_Cons_nth(4) [OF d2] skip_none [OF d1, of is_ws] by (simp add: gettoken_def Let_def)
      then show thesis
        using that [of 62 "Suc (Suc s)"] peek_blank [of s b 62 "32 # w @ t"] d gt blank [OF d2]
        by (simp add: redir_text_def redir_of_def plus)
    next
      case gg
      have d1: "drop (Suc s) b = 62 # 62 # 32 # w @ t" using d gg by (simp add: redir_text_def drop_Cons_nth(3))
      have d2: "drop (Suc (Suc s)) b = 62 # 32 # w @ t" by (rule drop_Cons_nth(3) [OF d1])
      have d3: "drop (Suc (Suc (Suc s))) b = 32 # w @ t" by (rule drop_Cons_nth(3) [OF d2])
      have "gettoken b (Suc s) = (43, Suc s, Suc (Suc (Suc s)), skip_while is_ws b (Suc (Suc (Suc s))))"
        using drop_Cons_nth(4) [OF d1] drop_Cons_nth(4) [OF d2] skip_none [OF d1, of is_ws] by (simp add: gettoken_def Let_def)
      then show thesis
        using that [of 43 "Suc (Suc (Suc s))"] peek_blank [of s b 62 "62 # 32 # w @ t"] d gg blank [OF d3]
        by (simp add: redir_text_def redir_of_def plus)
    qed
  qed
  have "gettoken b ?q = (97, ?q, ?q + length w, skip_while is_ws b (?q + length w))" "word_text b (?q, ?q + length w) = w"
    by (rule word_token [OF g(4) w(3) t])+
  moreover have "?q + length w = s + ?n" by (simp add: redir_text_def)
  ultimately show thesis
    using that [of "(?q, ?q + length w)"] g(1-3) g(5) [THEN spec, of "(?q, ?q + length w)"]
    by (simp add: parseredirs.simps [of b s] parseredirs_skip)
qed

lemma redirs_reads:
  assumes "drop s b = redirs_text rs @ r" "\<forall>x \<in> set rs. redir_ok x" "stops {124, 41, 59, 38} r"
  shows "\<exists>rs'. parseredirs b s = Ok (rs', s + length (redirs_text rs)) \<and> redirs_read b rs' = rs"
  using assms
proof (induction rs arbitrary: s)
  case Nil
  then have d: "drop s b = r" by (simp add: redirs_text_def)
  have "peek b s [60, 62] = (s, r \<noteq> [] \<and> hd r \<in> set [60, 62])" by (rule stops_peek(1) [OF d Nil(3) order_refl])
  moreover have "\<not> (r \<noteq> [] \<and> hd r \<in> set [60, 62])" using Nil(3) by (auto simp: stops_def)
  ultimately have "peek b s [60, 62] = (s, False)" by simp
  then show ?case by (simp add: parseredirs.simps [of b s] redirs_text_def redirs_read_def)
next
  case (Cons x rs)
  obtain w mode fd where x: "x = (w, mode, fd)" by (cases x)
  have d: "drop s b = redir_text (w, mode, fd) @ (redirs_text rs @ r)" using Cons.prems(1) x by (simp add: redirs_text_def)
  have t: "redirs_text rs @ r = [] \<or> \<not> is_word (hd (redirs_text rs @ r))"
  proof (cases rs)
    case Nil
    then show ?thesis using stops_peek(3) [OF _ Cons.prems(3)] drop_append_length [OF d] by (auto simp: redirs_text_def)
  next
    case (Cons y ys)
    then show ?thesis by (cases y) (simp add: redirs_text_def redir_text_def)
  qed
  have ok: "redir_ok (w, mode, fd)" using Cons.prems(2) x by simp
  obtain z where z: "parseredirs b s = seq (parseredirs b (s + length (redir_text (w, mode, fd)))) (\<lambda>(rs, s). Ok ((z, mode, fd) # rs, s))"
    "word_text b z = w"
    by (rule redir_reads [OF d ok t])
  obtain rs' where "parseredirs b (s + length (redir_text (w, mode, fd))) =
      Ok (rs', s + length (redir_text (w, mode, fd)) + length (redirs_text rs))" "redirs_read b rs' = rs"
    using Cons.IH [OF drop_append_length [OF d]] Cons.prems by auto
  then show ?case using z x by (simp add: redirs_text_def redirs_read_def)
qed

lemma redirs_text_front: "rs \<noteq> [] \<Longrightarrow> \<exists>y. redirs_text rs = 32 # y"
  by (cases rs) (auto simp: redirs_text_def redir_text_def split: prod.splits)

lemma args_end:
  assumes "drop s b = r" "stops {124, 41, 59, 38} r"
  shows "parse_args b s argv rs = Ok (redircmds (Exec argv) rs, s)"
proof (cases "r = []")
  case True
  then have d: "drop s b = []" using assms(1) by simp
  have "gettoken b s = (0, s, s, s)" using drop_Nil_char [OF d] by (simp add: gettoken_def Let_def)
  then show ?thesis using peek_end [OF d] by (simp add: parse_args.simps [of b s])
next
  case False
  have "peek b s [124, 41, 38, 59] = (s, r \<noteq> [] \<and> hd r \<in> set [124, 41, 38, 59])" by (rule stops_peek(1) [OF assms order_refl])
  moreover have "hd r \<in> set [124, 41, 38, 59]" using assms(2) False by (auto simp: stops_def)
  ultimately show ?thesis using False by (simp add: parse_args.simps [of b s])
qed

lemma args_read:
  assumes "drop s b = args_text ws @ redirs_text rs @ r" "ws \<noteq> []" "\<forall>w \<in> set ws. sh_word w" "\<forall>x \<in> set rs. redir_ok x"
    "stops {124, 41, 59, 38} r" "length argv + length ws < MAXARGS"
  shows "\<exists>ws' rs'. parse_args b s argv rs0 = Ok (redircmds (Exec (argv @ ws')) (rs0 @ rs'), s + length (args_text ws @ redirs_text rs)) \<and>
    map (word_text b) ws' = ws \<and> redirs_read b rs' = rs"
  using assms
proof (induction ws arbitrary: s argv rs0)
  case (Cons w ws)
  let ?t = "args_text ws @ redirs_text rs @ r"
  obtain x w' where w: "w = x # w'" "\<not> is_ws x" "sh_word w" "x \<noteq> 0" "x \<notin> {124, 41, 38, 59}"
    using sh_word_first [of w] Cons.prems(3) by auto
  have d: "drop s b = 32 # w @ ?t" using Cons.prems(1) by (simp add: args_text_def)
  have d1: "drop (Suc s) b = w @ ?t" by (rule drop_Cons_nth(3) [OF d])
  have peek: "peek b s [124, 41, 38, 59] = (Suc s, False)" using peek_blank [of s b x "w' @ ?t"] d w by simp
  have t: "?t = [] \<or> \<not> is_word (hd ?t)"
  proof (cases ws)
    case Nil
    show ?thesis
    proof (cases "rs = []")
      case True
      then show ?thesis
        using stops_peek(3) [OF _ Cons.prems(5), of "Suc s + length w" b] drop_append_length [OF d1] Nil
        by (auto simp: args_text_def redirs_text_def)
    next
      case False
      then show ?thesis using redirs_text_front [OF False] Nil by (auto simp: args_text_def)
    qed
  next
    case (Cons v vs)
    then show ?thesis by (simp add: args_text_def)
  qed
  let ?e = "Suc s + length w"
  note tok = word_token [OF d1 w(3) t]
  have de: "drop ?e b = ?t" by (rule drop_append_length [OF d1])
  have step: "parse_args b s argv rs0 =
      seq (parseredirs b ?e) (\<lambda>(rs', s'). parse_args b s' (argv @ [(Suc s, ?e)]) (rs0 @ rs'))"
    using peek tok(1) Cons.prems(6) by (simp add: parse_args.simps [of b s] parseredirs_skip)
  show ?case
  proof (cases "ws = []")
    case True
    obtain rs' where r: "parseredirs b ?e = Ok (rs', ?e + length (redirs_text rs))" "redirs_read b rs' = rs"
      using redirs_reads [of ?e b rs r] de Cons.prems(4,5) True by (auto simp: args_text_def)
    have "drop (?e + length (redirs_text rs)) b = r"
      using drop_append_length [of ?e b "redirs_text rs" r] de True by (simp add: args_text_def)
    then have "parse_args b s argv rs0 = Ok (redircmds (Exec (argv @ [(Suc s, ?e)])) (rs0 @ rs'), ?e + length (redirs_text rs))"
      using step r(1) args_end Cons.prems(5) by simp
    then show ?thesis using tok(2) r(2) True by (intro exI [of _ "[(Suc s, ?e)]"] exI [of _ rs']) (simp add: args_text_def)
  next
    case False
    then obtain v vs where v: "ws = v # vs" by (cases ws) auto
    then obtain y v' where y: "v = y # v'" "\<not> is_ws y" "y \<notin> {60, 62}" using sh_word_first [of v] Cons.prems(3) by auto
    have de': "drop ?e b = 32 # y # v' @ args_text vs @ redirs_text rs @ r" using de v y by (simp add: args_text_def)
    have sk: "parse_args b (Suc ?e) argv' rs'' = parse_args b ?e argv' rs''" for argv' rs''
      using parse_args_skip [of b ?e] parse_args_skip [of b "Suc ?e"] skip_blank [OF de'] by simp
    have "parseredirs b ?e = Ok ([], Suc ?e)"
      using peek_blank [OF de' y(2), of "[60, 62]"] y(3) by (subst parseredirs.simps) simp
    then have eq: "parse_args b s argv rs0 = parse_args b ?e (argv @ [(Suc s, ?e)]) rs0"
      using step sk by simp
    obtain ws' rs' where "parse_args b ?e (argv @ [(Suc s, ?e)]) rs0 =
        Ok (redircmds (Exec ((argv @ [(Suc s, ?e)]) @ ws')) (rs0 @ rs'), ?e + length (args_text ws @ redirs_text rs))"
      "map (word_text b) ws' = ws" "redirs_read b rs' = rs"
      using Cons.IH [OF de False, of "argv @ [(Suc s, ?e)]" rs0] Cons.prems by auto
    then show ?thesis
      using eq tok(2) by (intro exI [of _ "(Suc s, ?e) # ws'"] exI [of _ rs']) (simp add: args_text_def)
  qed
qed simp

subsection \<open>The levels\<close>

abbreviation "reads b c' c \<equiv> map_cmd (word_text b) c' = c"

lemma reads_redircmds: "reads b c' c \<Longrightarrow> redirs_read b rs' = rs \<Longrightarrow> reads b (redircmds c' rs') (redircmds c rs)"
  by (induction rs' arbitrary: c' c rs) (auto simp: redirs_read_def)

text \<open>What reading back means at each level; \<open>n\<close> is the fuel.\<close>

definition exec_reads :: "u8 list cmd \<Rightarrow> bool" where
  "exec_reads c \<longleftrightarrow> (\<forall>rs b s r n. (\<forall>x \<in> set rs. redir_ok x) \<longrightarrow> drop s b = show_cmd LExec c @ redirs_text rs @ r \<longrightarrow>
     stops {124, 41, 59, 38} r \<longrightarrow> length b - s < n \<longrightarrow>
     (\<exists>c'. parseexec n b s = Ok (c', s + length (show_cmd LExec c @ redirs_text rs)) \<and> reads b c' (redircmds c rs)))"

definition pipe_reads :: "u8 list cmd \<Rightarrow> bool" where
  "pipe_reads c \<longleftrightarrow> (\<forall>b s r n. drop s b = show_cmd LPipe c @ r \<longrightarrow> stops {41, 59, 38} r \<longrightarrow> length b - s < n \<longrightarrow>
     (\<exists>c'. parsepipe n b s = Ok (c', s + length (show_cmd LPipe c)) \<and> reads b c' c))"

definition back_reads :: "u8 list cmd \<Rightarrow> bool" where
  "back_reads c \<longleftrightarrow> (\<forall>b s r n. drop s b = show_cmd LBack c @ r \<longrightarrow> stops {41, 59, 38} r \<longrightarrow> length b - s < n \<longrightarrow>
     (\<exists>c0 s0 c'. parsepipe n b s = Ok (c0, s0) \<and> reads b c' c \<and>
        parse_backs b c0 s0 = parse_backs b c' (s + length (show_cmd LBack c))))"

definition line_reads :: "u8 list cmd \<Rightarrow> bool" where
  "line_reads c \<longleftrightarrow> (\<forall>b s r n. drop s b = show_cmd LLine c @ r \<longrightarrow> stops {41} r \<longrightarrow> length b - s < n \<longrightarrow>
     (\<exists>c'. parseline n b s = Ok (c', s + length (show_cmd LLine c)) \<and> reads b c' c))"

lemma stops_mono: "stops F r \<Longrightarrow> F \<subseteq> G \<Longrightarrow> stops G r"
  by (auto simp: stops_def)

lemma peek_stop_no:
  assumes "drop s b = r" "stops F r" "F \<subseteq> {124, 41, 59, 38}" "F \<inter> set toks = {}"
  shows "peek b s toks = (s, False)"
  using stops_peek(1) [OF assms(1-3), of toks] assms(2,4) by (auto simp: stops_def)

lemma peek_stop_yes:
  assumes "drop s b = x # t" "x \<in> {124, 40, 41, 59, 38}"
  shows "peek b s [x] = (s, True)" "gettoken b s = (x, s, Suc s, skip_while is_ws b (Suc s))" "drop (Suc s) b = t"
proof -
  have "\<not> is_ws x" "x \<noteq> 0" using assms(2) by auto
  then show "peek b s [x] = (s, True)" using peek_at [OF assms(1), of "[x]"] by simp
  show "gettoken b s = (x, s, Suc s, skip_while is_ws b (Suc s))" by (rule symbol_token [OF assms(1)]) (use assms(2) in auto)
  show "drop (Suc s) b = t" by (rule drop_Cons_nth(3) [OF assms(1)])
qed

lemma drop_less: "drop s (b :: u8 list) = x # t \<Longrightarrow> length b - Suc s < length b - s"
  using drop_Cons_nth(1) [of s b x t] by simp

text \<open>From one level to the next.\<close>

lemma pipe_from_exec:
  assumes e: "exec_reads c" and t: "show_cmd LPipe c = show_cmd LExec c"
  shows "pipe_reads c"
  unfolding pipe_reads_def
proof (intro allI impI)
  fix b s r n assume d: "drop s b = show_cmd LPipe c @ r" and r: "stops {41, 59, 38} r" and n: "length b - s < n"
  obtain n' where n': "n = Suc n'" using n by (cases n) auto
  have r': "stops {124, 41, 59, 38} r" by (rule stops_mono [OF r]) auto
  have d': "drop s b = show_cmd LExec c @ redirs_text [] @ r" using d t by (simp add: redirs_text_def)
  obtain c' where c: "parseexec n b s = Ok (c', s + length (show_cmd LPipe c))" "reads b c' c"
    using e [unfolded exec_reads_def, rule_format, OF _ d' r' n] t by (auto simp: redirs_text_def)
  have "peek b (s + length (show_cmd LPipe c)) [124] = (s + length (show_cmd LPipe c), False)"
    by (rule peek_stop_no [OF drop_append_length [OF d] r]) auto
  then show "\<exists>c'. parsepipe n b s = Ok (c', s + length (show_cmd LPipe c)) \<and> reads b c' c"
    using c n' by (simp add: parsepipe.simps)
qed

lemma back_from_pipe:
  assumes "pipe_reads c" "show_cmd LBack c = show_cmd LPipe c"
  shows "back_reads c"
  using assms unfolding back_reads_def pipe_reads_def by metis

lemma line_from_back:
  assumes e: "back_reads c" and t: "show_cmd LLine c = show_cmd LBack c"
  shows "line_reads c"
  unfolding line_reads_def
proof (intro allI impI)
  fix b s r n assume d: "drop s b = show_cmd LLine c @ r" and r: "stops {41} r" and n: "length b - s < n"
  obtain n' where n': "n = Suc n'" using n by (cases n) auto
  let ?e = "s + length (show_cmd LLine c)"
  have r': "stops {41, 59, 38} r" by (rule stops_mono [OF r]) auto
  have d': "drop s b = show_cmd LBack c @ r" using d t by simp
  obtain c0 s0 c' where c: "parsepipe n b s = Ok (c0, s0)" "reads b c' c" "parse_backs b c0 s0 = parse_backs b c' ?e"
    using e [unfolded back_reads_def, rule_format, OF d' r' n] t by auto
  have p: "peek b ?e [38] = (?e, False)" "peek b ?e [59] = (?e, False)"
    by (rule peek_stop_no [OF drop_append_length [OF d] r]; simp)+
  have "parse_backs b c' ?e = (c', ?e)" by (simp only: parse_backs.simps [of b c' ?e] p prod.case bool.case)
  then have "parseline n b s = Ok (c', ?e)" using c(1,3) p(2) n' by (simp add: parseline.simps)
  then show "\<exists>c'. parseline n b s = Ok (c', ?e) \<and> reads b c' c" using c(2) by blast
qed

lemma exec_from_line:
  assumes e: "line_reads c" and t: "show_cmd LExec c = 40 # show_cmd LLine c @ [41]"
  shows "exec_reads c"
  unfolding exec_reads_def
proof (intro allI impI)
  fix rs b s r n
  assume rs: "\<forall>x \<in> set rs. redir_ok x" and d: "drop s b = show_cmd LExec c @ redirs_text rs @ r"
    and r: "stops {124, 41, 59, 38} r" and n: "length b - s < n"
  obtain n' where n': "n = Suc n'" using n by (cases n) auto
  let ?e = "Suc s + length (show_cmd LLine c)"
  have d1: "drop s b = 40 # (show_cmd LLine c @ 41 # redirs_text rs @ r)" using d t by simp
  note open_par = peek_stop_yes [OF d1, simplified]
  obtain c' where c: "parseline n' b (Suc s) = Ok (c', ?e)" "reads b c' c"
    using e [unfolded line_reads_def, rule_format, OF open_par(3), of n'] drop_less [OF d1] n n' by (auto simp: stops_def)
  note close_par = peek_stop_yes [OF drop_append_length [OF open_par(3)], simplified]
  obtain rs' where p: "parseredirs b (Suc ?e) = Ok (rs', Suc ?e + length (redirs_text rs))" "redirs_read b rs' = rs"
    using redirs_reads [OF close_par(3) rs r] by auto
  have "parseexec n b s = Ok (redircmds c' rs', Suc ?e + length (redirs_text rs))"
    using open_par(1,2) c(1) close_par(1,2) p(1) n'
    by (simp add: parseexec.simps parseblock.simps parseline_skip parseredirs_skip)
  then show "\<exists>c'. parseexec n b s = Ok (c', s + length (show_cmd LExec c @ redirs_text rs)) \<and> reads b c' (redircmds c rs)"
    using reads_redircmds [OF c(2) p(2)] t by auto
qed

lemma exec_reads_Exec:
  assumes "writable (Exec argv)" shows "exec_reads (Exec argv)"
  unfolding exec_reads_def
proof (intro allI impI)
  fix rs b s r n
  assume rs: "\<forall>x \<in> set rs. redir_ok x" and d: "drop s b = show_cmd LExec (Exec argv) @ redirs_text rs @ r"
    and r: "stops {124, 41, 59, 38} r" and n: "length b - s < n"
  show "\<exists>c'. parseexec n b s = Ok (c', s + length (show_cmd LExec (Exec argv) @ redirs_text rs)) \<and>
    reads b c' (redircmds (Exec argv) rs)"
  proof (cases argv)
    case Nil
    have d': "drop s b = redirs_text rs @ r" using d Nil by (simp add: args_text_def)
    obtain s1 where peek: "peek b s [40] = (s1, False)" "skip_while is_ws b s1 = skip_while is_ws b s"
    proof (cases rs)
      case rs_Nil: Nil
      then have "drop s b = r" using d' by (simp add: redirs_text_def)
      then show ?thesis using that [of s] peek_stop_no [OF _ r, of s b "[40]"] by simp
    next
      case (Cons x rs')
      obtain w mode fd where x: "x = (w, mode, fd)" by (cases x)
      obtain y z where yz: "drop s b = 32 # y # z" "y \<in> {60, 62}"
        using d' Cons x by (auto simp: redirs_text_def redir_text_def split: if_splits)
      then have "\<not> is_ws y" by auto
      from peek_blank [OF yz(1) this, of "[40]"] yz skip_blank [OF yz(1)] that [of "Suc s"] show ?thesis by auto
    qed
    have pr: "parseredirs b s1 = parseredirs b s" using peek(2) parseredirs_skip by metis
    obtain rs' where p: "parseredirs b s = Ok (rs', s + length (redirs_text rs))" "redirs_read b rs' = rs"
      using redirs_reads [OF d' rs r] by auto
    have "parseexec n b s = Ok (redircmds (Exec []) rs', s + length (redirs_text rs))"
      using peek(1) pr p(1) args_end [OF drop_append_length [OF d'] r] by (simp add: parseexec.simps)
    moreover have "reads b (redircmds (Exec []) rs') (redircmds (Exec []) rs)" by (rule reads_redircmds [OF _ p(2)]) simp
    ultimately show ?thesis using Nil by (auto simp: args_text_def)
  next
    case (Cons w ws)
    have words: "\<forall>w \<in> set argv. sh_word w" "length argv < MAXARGS" using assms by simp_all
    obtain x w' where w: "w = x # w'" "\<not> is_ws x" "x \<notin> {40, 60, 62}" using sh_word_first [of w] words(1) Cons by auto
    have d': "drop s b = args_text argv @ redirs_text rs @ r" using d by simp
    then have d1: "drop s b = 32 # x # (w' @ args_text ws @ redirs_text rs @ r)" using Cons w(1) by (simp add: args_text_def)
    have d2: "drop (Suc s) b = x # (w' @ args_text ws @ redirs_text rs @ r)" by (rule drop_Cons_nth(3) [OF d1])
    have p: "peek b s [40] = (Suc s, False)" "peek b (Suc s) [60, 62] = (Suc s, False)"
      using peek_blank [OF d1 w(2), of "[40]"] peek_at [OF d2 w(2), of "[60, 62]"] w(3) by auto
    have sk: "parse_args b (Suc s) [] [] = parse_args b s [] []"
      using parse_args_skip [of b s] parse_args_skip [of b "Suc s"] skip_blank [OF d1] by simp
    obtain ws' rs' where a: "parse_args b s [] [] = Ok (redircmds (Exec ws') rs', s + length (args_text argv @ redirs_text rs))"
      "map (word_text b) ws' = argv" "redirs_read b rs' = rs"
      using args_read [OF d' _ words(1) rs r, of "[]" "[]"] words(2) Cons by auto
    have "parseredirs b (Suc s) = Ok ([], Suc s)" using p(2) by (simp add: parseredirs.simps [of b "Suc s"])
    then have "parseexec n b s = Ok (redircmds (Exec ws') rs', s + length (args_text argv @ redirs_text rs))"
      using p(1) sk a(1) by (simp add: parseexec.simps)
    moreover have "reads b (redircmds (Exec ws') rs') (redircmds (Exec argv) rs)" by (rule reads_redircmds [OF _ a(3)]) (simp add: a(2))
    ultimately show ?thesis by auto
  qed
qed

lemma exec_reads_Redir:
  assumes "exec_reads c" "redir_ok (w, mode, fd)" shows "exec_reads (Redir c w mode fd)"
  unfolding exec_reads_def
proof (intro allI impI)
  fix rs b s r n
  assume rs: "\<forall>x \<in> set rs. redir_ok x" and d: "drop s b = show_cmd LExec (Redir c w mode fd) @ redirs_text rs @ r"
    and r: "stops {124, 41, 59, 38} r" and n: "length b - s < n"
  have "drop s b = show_cmd LExec c @ redirs_text ((w, mode, fd) # rs) @ r" using d by (simp add: redirs_text_def)
  from assms(1) [unfolded exec_reads_def, rule_format, OF _ this r n] assms(2) rs
  show "\<exists>c'. parseexec n b s = Ok (c', s + length (show_cmd LExec (Redir c w mode fd) @ redirs_text rs)) \<and>
    reads b c' (redircmds (Redir c w mode fd) rs)"
    by (auto simp: redirs_text_def)
qed

lemma pipe_reads_Pipe:
  assumes l: "exec_reads l" and r: "pipe_reads r" shows "pipe_reads (PipeCmd l r)"
  unfolding pipe_reads_def
proof (intro allI impI)
  fix b s t n assume d: "drop s b = show_cmd LPipe (PipeCmd l r) @ t" and t: "stops {41, 59, 38} t" and n: "length b - s < n"
  obtain n' where n': "n = Suc n'" using n by (cases n) auto
  let ?m = "s + length (show_cmd LExec l)"
  have d1: "drop s b = show_cmd LExec l @ redirs_text [] @ 124 # show_cmd LPipe r @ t" using d by (simp add: redirs_text_def)
  obtain l' where l': "parseexec n b s = Ok (l', ?m)" "reads b l' l"
    using l [unfolded exec_reads_def, rule_format, OF _ d1 _ n] by (auto simp: redirs_text_def stops_def)
  have d2: "drop ?m b = 124 # show_cmd LPipe r @ t" using drop_append_length [OF d1] by (simp add: redirs_text_def)
  note bar = peek_stop_yes [OF d2, simplified]
  have "length b - Suc ?m < n'" using drop_less [OF d2] n n' by linarith
  then obtain r' where r': "parsepipe n' b (Suc ?m) = Ok (r', Suc ?m + length (show_cmd LPipe r))" "reads b r' r"
    using r [unfolded pipe_reads_def, rule_format, OF bar(3) t] by auto
  have "parsepipe n b s = Ok (PipeCmd l' r', Suc ?m + length (show_cmd LPipe r))"
    using l'(1) bar(1,2) r'(1) n' by (simp add: parsepipe.simps parsepipe_skip)
  then show "\<exists>c'. parsepipe n b s = Ok (c', s + length (show_cmd LPipe (PipeCmd l r))) \<and> reads b c' (PipeCmd l r)"
    using l'(2) r'(2) by auto
qed

lemma parse_backs_skip: "parse_backs b c (skip_while is_ws b s) = parse_backs b c s"
  by (simp add: parse_backs.simps [of b c "skip_while is_ws b s"] parse_backs.simps [of b c s] peek_skip)

lemma back_reads_Back:
  assumes c: "back_reads c" shows "back_reads (Back c)"
  unfolding back_reads_def
proof (intro allI impI)
  fix b s r n assume d: "drop s b = show_cmd LBack (Back c) @ r" and r: "stops {41, 59, 38} r" and n: "length b - s < n"
  let ?m = "s + length (show_cmd LBack c)"
  have d1: "drop s b = show_cmd LBack c @ 38 # r" using d by simp
  obtain c0 s0 c' where c': "parsepipe n b s = Ok (c0, s0)" "reads b c' c" "parse_backs b c0 s0 = parse_backs b c' ?m"
    using c [unfolded back_reads_def, rule_format, OF d1 _ n] by (auto simp: stops_def)
  note amp = peek_stop_yes [OF drop_append_length [OF d1], simplified]
  have "parse_backs b c' ?m = parse_backs b (Back c') (Suc ?m)"
    using amp(1,2) by (simp add: parse_backs.simps [of b c' ?m] parse_backs_skip)
  then show "\<exists>c0 s0 c'. parsepipe n b s = Ok (c0, s0) \<and> reads b c' (Back c) \<and>
      parse_backs b c0 s0 = parse_backs b c' (s + length (show_cmd LBack (Back c)))"
    using c' by (intro exI [of _ c0] exI [of _ s0] exI [of _ "Back c'"]) simp
qed

lemma line_reads_List:
  assumes l: "back_reads l" and r: "line_reads r" shows "line_reads (ListCmd l r)"
  unfolding line_reads_def
proof (intro allI impI)
  fix b s t n assume d: "drop s b = show_cmd LLine (ListCmd l r) @ t" and t: "stops {41} t" and n: "length b - s < n"
  obtain n' where n': "n = Suc n'" using n by (cases n) auto
  let ?m = "s + length (show_cmd LBack l)"
  have d1: "drop s b = show_cmd LBack l @ 59 # show_cmd LLine r @ t" using d by simp
  obtain c0 s0 l' where l': "parsepipe n b s = Ok (c0, s0)" "reads b l' l" "parse_backs b c0 s0 = parse_backs b l' ?m"
    using l [unfolded back_reads_def, rule_format, OF d1 _ n] by (auto simp: stops_def)
  have d2: "drop ?m b = 59 # show_cmd LLine r @ t" by (rule drop_append_length [OF d1])
  note semi = peek_stop_yes [OF d2, simplified]
  have no: "peek b ?m [38] = (?m, False)" using peek_at [OF d2, of "[38]"] by simp
  have pb: "parse_backs b l' ?m = (l', ?m)" by (simp only: parse_backs.simps [of b l' ?m] no prod.case bool.case)
  have "length b - Suc ?m < n'" using drop_less [OF d2] n n' by linarith
  then obtain r' where r': "parseline n' b (Suc ?m) = Ok (r', Suc ?m + length (show_cmd LLine r))" "reads b r' r"
    using r [unfolded line_reads_def, rule_format, OF semi(3) t] by auto
  have "parseline n b s = Ok (ListCmd l' r', Suc ?m + length (show_cmd LLine r))"
    using l'(1,3) pb semi(1,2) r'(1) n' by (simp add: parseline.simps parseline_skip)
  then show "\<exists>c'. parseline n b s = Ok (c', s + length (show_cmd LLine (ListCmd l r))) \<and> reads b c' (ListCmd l r)"
    using l'(2) r'(2) by auto
qed

lemma writable_reads: "writable c \<Longrightarrow> exec_reads c \<and> pipe_reads c \<and> back_reads c \<and> line_reads c"
proof (induction c rule: writable.induct)
  case (1 argv)
  have e: "exec_reads (Exec argv)" by (rule exec_reads_Exec [OF 1])
  then show ?case by (simp add: pipe_from_exec back_from_pipe line_from_back)
next
  case (2 c w mode fd)
  then have "exec_reads (Redir c w mode fd)" by (intro exec_reads_Redir) (auto simp: redir_ok_def)
  then show ?case by (simp add: pipe_from_exec back_from_pipe line_from_back)
next
  case (3 l r)
  then have p: "pipe_reads (PipeCmd l r)" by (intro pipe_reads_Pipe) simp_all
  then have b: "back_reads (PipeCmd l r)" by (rule back_from_pipe) simp
  then have l: "line_reads (PipeCmd l r)" by (rule line_from_back) simp
  then have "exec_reads (PipeCmd l r)" by (rule exec_from_line) simp
  then show ?case using p b l by simp
next
  case (4 l r)
  then have l: "line_reads (ListCmd l r)" by (intro line_reads_List) simp_all
  then have "exec_reads (ListCmd l r)" by (rule exec_from_line) simp
  then show ?case using l by (simp add: pipe_from_exec back_from_pipe)
next
  case (5 c)
  then have b: "back_reads (Back c)" by (intro back_reads_Back) simp
  then have l: "line_reads (Back c)" by (rule line_from_back) simp
  then have "exec_reads (Back c)" by (rule exec_from_line) simp
  then show ?case using b l by (simp add: pipe_from_exec)
qed

lemma sh_word_nonzero: "sh_word w \<Longrightarrow> 0 \<notin> set w"
  by (auto simp: sh_word_def)

lemma show_cmd_nonzero: "writable c \<Longrightarrow> 0 \<notin> set (show_cmd l c)"
proof (induction l c rule: show_cmd.induct)
  case (1 argv)
  then show ?case using sh_word_nonzero by (auto simp: args_text_def)
next
  case (2 c w mode fd)
  then show ?case using sh_word_nonzero [of w] by (auto simp: redir_text_def)
qed auto

lemma read_back:
  assumes "writable c"
  obtains c' where "parseline (Suc (length (show_cmd LLine c))) (show_cmd LLine c) 0 = Ok (c', length (show_cmd LLine c))"
    "map_cmd (word_text (show_cmd LLine c)) c' = c"
proof -
  have "line_reads c" using writable_reads [OF assms] by blast
  then show thesis
    using that unfolding line_reads_def stops_def by (metis add.left_neutral append.right_neutral drop_0 lessI minus_nat.diff_0)
qed

subsection \<open>Pipelines\<close>

lemma lowest_free_None: "lowest_free fds = None \<Longrightarrow> j < length fds \<Longrightarrow> fds ! j \<noteq> None"
proof (induction fds arbitrary: j)
  case (Cons f fds)
  then show ?case by (cases j) (auto split: if_splits)
qed simp

lemma lowest_freeI:
  assumes "i < length fds" "fds ! i = None" "\<forall>j < i. fds ! j \<noteq> None" shows "lowest_free fds = Some i"
proof (cases "lowest_free fds")
  case None
  then show ?thesis using lowest_free_None [OF None assms(1)] assms(2) by simp
next
  case (Some k)
  then show ?thesis using lowest_freeD [OF Some] assms by (metis linorder_neqE_nat)
qed

text \<open>\<open>pipe\<close> takes the two lowest free descriptors.\<close>

lemma fd_pipe_spec:
  assumes "i < j" "j < length fds" "fds ! i = None" "fds ! j = None" "\<forall>k < j. k \<noteq> i \<longrightarrow> fds ! k \<noteq> None"
  shows "fd_pipe path fds = Some (i, j, fds[i := Some (PipeRd path), j := Some (PipeWr path)])"
proof -
  have "lowest_free fds = Some i" by (rule lowest_freeI) (use assms in auto)
  moreover have "lowest_free (fds[i := Some (PipeRd path)]) = Some j"
    by (rule lowest_freeI) (use assms in \<open>auto simp: nth_list_update\<close>)
  ultimately show ?thesis by (simp add: fd_pipe_def fd_new_def)
qed

lemma plug_spec:
  assumes "fd < i" "i < j" "j < length fds" "p \<in> {i, j}" "fds ! i = Some f" "fds ! j = Some g"
    "\<forall>k < fd. fds ! k \<noteq> None"
  shows "plug fd p i j fds = fds[fd := fds ! p, i := None, j := None]"
proof -
  have p: "p < length fds" "p \<noteq> fd" "fds ! p \<noteq> None" using assms by auto
  have "lowest_free (fds[fd := None]) = Some fd"
    by (rule lowest_freeI) (use assms in \<open>auto simp: nth_list_update\<close>)
  then have "fd_dup p (fd_close fd fds) = fds[fd := fds ! p]"
    using p by (auto simp: fd_dup_def fd_close_def fd_new_def)
  then show ?thesis by (simp add: plug_def fd_close_def)
qed

subsection \<open>Properties\<close>

text \<open>
  C31: The shell's parser returns for every line without a NUL: the recursion ends within the
  length of the line, and it either reports one of its syntax errors or yields a command in which
  every word is a non-empty stretch of word characters inside the line that ends where they end,
  every command has fewer than \<open>MAXARGS\<close> arguments (the array is never overrun), every redirection
  has one of the three modes, and each pointer, after the NULs have been written into the line, is
  the string of exactly its word.
\<close>

theorem parsecmd_returns:
  assumes "0 \<notin> set b"
  shows "(\<exists>m \<in> sh_messages. parsecmd b = Fail (Panic m)) \<or>
    (\<exists>c. parsecmd b = Ok (c, nulterminate c (b @ [0])) \<and> cmd_ok b c \<and>
       strings_of (c, nulterminate c (b @ [0])) = map_cmd (word_text b) c)"
  using assms
proof (cases rule: parsecmd_cases [of b, case_names ok err])
  case (ok c s)
  then show ?thesis by blast
next
  case (err m)
  then show ?thesis by blast
qed

lemma parsecmd_returns_witness:
  "(\<exists>m \<in> sh_messages. parsecmd [97, 32, 62, 32, 98] = Fail (Panic m)) \<or>
    (\<exists>c. parsecmd [97, 32, 62, 32, 98] = Ok (c, nulterminate c ([97, 32, 62, 32, 98] @ [0])) \<and> cmd_ok [97, 32, 62, 32, 98] c \<and>
       strings_of (c, nulterminate c ([97, 32, 62, 32, 98] @ [0])) = map_cmd (word_text [97, 32, 62, 32, 98]) c)"
  by (rule parsecmd_returns) simp

text \<open>
  C20: The parser reads back every command: any tree of commands with arguments and redirections,
  pipes, lists and background commands, nested in any way, written as text with parentheses where
  the grammar needs them, is parsed to the same tree with the same strings.
\<close>

theorem parsecmd_reads_back:
  assumes "writable c"
  shows "\<exists>p. parsecmd (show_cmd LLine c) = Ok p \<and> strings_of p = c"
proof -
  let ?b = "show_cmd LLine c"
  have z: "0 \<notin> set ?b" by (rule show_cmd_nonzero [OF assms])
  obtain c' where c': "parseline (Suc (length ?b)) ?b 0 = Ok (c', length ?b)" "map_cmd (word_text ?b) c' = c"
    by (rule read_back [OF assms])
  from z show ?thesis
  proof (cases rule: parsecmd_cases [of ?b, case_names ok err])
    case (ok d s)
    then have "d = c'" using c'(1) by simp
    then show ?thesis using ok(4,5) c'(2) by auto
  next
    case (err m)
    have "parsecmd ?b = Ok (c', nulterminate c' (?b @ [0]))"
      using c'(1) skip_while_beyond [of ?b "length ?b" is_ws] by (simp add: parsecmd_def peek_def Let_def)
    then show ?thesis using err by simp
  qed
qed

lemma parsecmd_reads_back_witness:
  "\<exists>p. parsecmd (show_cmd LLine (ListCmd (Back (Exec [[97]])) (PipeCmd (Redir (Exec [[98], [99]]) [100] 0 0) (Exec [[101]])))) = Ok p \<and>
    strings_of p = ListCmd (Back (Exec [[97]])) (PipeCmd (Redir (Exec [[98], [99]]) [100] 0 0) (Exec [[101]]))"
  by (rule parsecmd_reads_back)
     (simp add: sh_word_def is_word_def is_ws_def whitespace_def sh_symbols_def MAXARGS_def)

text \<open>
  C32: A pipeline runs its two commands with the two ends of one pipe: when the calls succeed and
  descriptors 0 and 1 are open, the left command runs with the write end as its standard output,
  the right one with the read end as its standard input, every other descriptor is as the shell
  had it. The shell process itself has closed both ends, so its open files are those it started with,
  before it waits for the two and exits with 0: no process keeps a stray end of the pipe.
\<close>

theorem pipeline_joins_commands:
  assumes "k_pipe K path" "k_fork K path 0" "k_fork K path 1" "1 < i" "i < j" "j < length fds"
    "fds ! i = None" "fds ! j = None" "\<forall>k < j. k \<noteq> i \<longrightarrow> fds ! k \<noteq> None"
  shows "runcmd K path (PipeCmd l r) fds =
    runcmd K (path @ [0]) l (fds[1 := Some (PipeWr path)]) @
    runcmd K (path @ [1]) r (fds[0 := Some (PipeRd path)]) @
    [Waits path fds, Waits path fds, Exits 0 []]"
proof -
  let ?fds = "fds[i := Some (PipeRd path), j := Some (PipeWr path)]"
  have p: "fd_pipe path fds = Some (i, j, ?fds)" by (rule fd_pipe_spec [OF assms(5-9)])
  have open01: "\<forall>k < 2. fds ! k \<noteq> None" using assms(4,5,9) by auto
  have restore: "?fds[k := x, i := None, j := None] = fds[k := x]" if "k < 2" for k x
    using assms(4-8) that by (intro nth_equalityI) (auto simp: nth_list_update)
  have "plug 1 j i j ?fds = fds[1 := Some (PipeWr path)]"
    using plug_spec [of 1 i j ?fds j] restore [of 1] assms(4-6) open01 by (simp add: nth_list_update)
  moreover have "plug 0 i i j ?fds = fds[0 := Some (PipeRd path)]"
    using plug_spec [of 0 i j ?fds i] restore [of 0] assms(4-6) open01 by (simp add: nth_list_update)
  moreover have "fd_close j (fd_close i ?fds) = fds"
    using restore [of 0 "fds ! 0"] assms(4-6) by (simp add: fd_close_def list_update_swap)
  ultimately show ?thesis using assms(1-3) p by simp
qed

definition demo_answers :: answers where
  "demo_answers = \<lparr>k_open = \<lambda>_ _. True, k_exec = \<lambda>_. True, k_fork = \<lambda>_ _. True, k_pipe = \<lambda>_. True, k_chdir = \<lambda>_. True\<rparr>"

definition demo_fds :: fd_table where
  "demo_fds = [Some (Inherited 0), Some (Inherited 1), Some (Inherited 2), None, None, None]"

lemma pipeline_joins_commands_witness:
  "runcmd demo_answers [0] (PipeCmd (Exec [[97]]) (Exec [[98]])) demo_fds =
    [Executes [[97]] (demo_fds[1 := Some (PipeWr [0])]), Executes [[98]] (demo_fds[0 := Some (PipeRd [0])]),
     Waits [0] demo_fds, Waits [0] demo_fds, Exits 0 []]"
proof -
  have "runcmd demo_answers [0] (PipeCmd (Exec [[97]]) (Exec [[98]])) demo_fds =
    runcmd demo_answers ([0] @ [0]) (Exec [[97]]) (demo_fds[1 := Some (PipeWr [0])]) @
    runcmd demo_answers ([0] @ [1]) (Exec [[98]]) (demo_fds[0 := Some (PipeRd [0])]) @
    [Waits [0] demo_fds, Waits [0] demo_fds, Exits 0 []]"
    by (rule pipeline_joins_commands [where i = 3 and j = 4])
       (simp_all add: demo_answers_def demo_fds_def less_Suc_eq numeral_eq_Suc)
  then show ?thesis by (simp add: demo_answers_def)
qed

end
