(* ===== verification/User_Lisp.thy ===== *)
theory User_Lisp
  imports User_Ulib
begin

text \<open>
  The Lisp interpreter (\<open>user/lisp.c\<close>). A value is a 16-bit word: a tag in the upper four bits and
  the index of a cell in the lower twelve; a cell is an entry of \<open>cars\<close> and one of \<open>cdrs\<close>. Integers,
  floats and symbols are cells too, whose two halves are the number or the address of the name.
  Names are kept in the list \<open>lnames\<close> and an address is the place in it. Floating point arithmetic
  is the compiler's run-time library, given as \<open>flops\<close> on bit patterns. \<open>exit\<close> is the fault \<open>Panic\<close>
  and an access outside the stack \<open>OutOfBounds\<close>; a count bounds the depth of \<open>eval\<close> and the length
  of a list. Arguments of a C call are evaluated from left to right.
\<close>

subsection \<open>Cells\<close>

definition LMAX :: nat where "LMAX = 0xFFF"
definition MASK_INDEX :: u16 where "MASK_INDEX = 0x0FFF"
definition MASK_TAG :: u16 where "MASK_TAG = 0xF000"
definition TAG_PAIR :: u16 where "TAG_PAIR = 0x4000"
definition TAG_INT :: u16 where "TAG_INT = 0x1000"
definition TAG_FLOAT :: u16 where "TAG_FLOAT = 0x8000"
definition TAG_SYM :: u16 where "TAG_SYM = 0x2000"
definition TAG_MARK :: u16 where "TAG_MARK = 0xF000"

record lisp =
  lcars :: "u16 list"
  lcdrs :: "u16 list"
  lfree :: nat
  lstack :: "u16 list"
  lsymbols :: u16
  lenv :: u16
  lnames :: "u8 list list"
  lout :: "u8 list"
  ltoken :: u16
  lten :: u32
  lstart :: nat

record flops =
  f_add :: "u32 \<Rightarrow> u32 \<Rightarrow> u32"
  f_sub :: "u32 \<Rightarrow> u32 \<Rightarrow> u32"
  f_mul :: "u32 \<Rightarrow> u32 \<Rightarrow> u32"
  f_div :: "u32 \<Rightarrow> u32 \<Rightarrow> u32"
  f_neg :: "u32 \<Rightarrow> u32"
  f_eq :: "u32 \<Rightarrow> u32 \<Rightarrow> bool"
  f_less :: "u32 \<Rightarrow> u32 \<Rightarrow> bool"
  f_int :: "u32 \<Rightarrow> u32"
  f_trunc :: "u32 \<Rightarrow> u32"

type_synonym 'a lres = "('a \<times> lisp) res"

definition idx :: "u16 \<Rightarrow> nat" where "idx p = unat (p AND MASK_INDEX)"

definition lcar :: "u16 \<Rightarrow> lisp \<Rightarrow> u16" where "lcar p s = lcars s ! idx p"
definition lcdr :: "u16 \<Rightarrow> lisp \<Rightarrow> u16" where "lcdr p s = lcdrs s ! idx p"

definition lsetcar :: "u16 \<Rightarrow> u16 \<Rightarrow> lisp \<Rightarrow> lisp" where
  "lsetcar p x s = s\<lparr>lcars := (lcars s)[idx p := x]\<rparr>"
definition lsetcdr :: "u16 \<Rightarrow> u16 \<Rightarrow> lisp \<Rightarrow> lisp" where
  "lsetcdr p x s = s\<lparr>lcdrs := (lcdrs s)[idx p := x]\<rparr>"

definition getint :: "u16 \<Rightarrow> lisp \<Rightarrow> u32" where
  "getint p s = push_bit 16 (ucast (lcar p s)) OR ucast (lcdr p s)"

definition getstr :: "u16 \<Rightarrow> lisp \<Rightarrow> u8 list" where
  "getstr p s = (let a = unat (getint p s) in if a < length (lnames s) then lnames s ! a else [])"

definition checkmem :: "lisp \<Rightarrow> lisp res" where
  "checkmem s = (if LMAX = lfree s then Fail (Panic ''out of memory:'') else Ok s)"

definition lcons :: "u16 \<Rightarrow> u16 \<Rightarrow> lisp \<Rightarrow> u16 lres" where
  "lcons a d s =
     seq (checkmem s) (\<lambda>s.
       let p = TAG_PAIR OR of_nat (lfree s); s = s\<lparr>lfree := lfree s + 1\<rparr>
       in Ok (p, lsetcdr p d (lsetcar p a s)))"

definition consint :: "u32 \<Rightarrow> lisp \<Rightarrow> u16 lres" where
  "consint n s =
     seq (lcons (ucast (drop_bit 16 n)) (ucast n) s) (\<lambda>(p, s). Ok (p AND MASK_INDEX OR TAG_INT, s))"

definition consfloat :: "u32 \<Rightarrow> lisp \<Rightarrow> u16 lres" where
  "consfloat x s =
     seq (checkmem s) (\<lambda>s. seq (consint x s) (\<lambda>(p, s). Ok (p AND MASK_INDEX OR TAG_FLOAT, s)))"

definition conssym :: "u8 list \<Rightarrow> lisp \<Rightarrow> u16 lres" where
  "conssym name s =
     (let a = of_nat (length (lnames s)); s = s\<lparr>lnames := lnames s @ [name]\<rparr>
      in seq (consint a s) (\<lambda>(p, s). Ok (p AND MASK_INDEX OR TAG_SYM, s)))"

definition nullq :: "u16 \<Rightarrow> bool" where "nullq p \<longleftrightarrow> p = 0"
definition numq :: "u16 \<Rightarrow> bool" where "numq p \<longleftrightarrow> p AND TAG_INT \<noteq> 0"
definition floatq :: "u16 \<Rightarrow> bool" where "floatq p \<longleftrightarrow> p AND TAG_FLOAT \<noteq> 0"
definition symq :: "u16 \<Rightarrow> bool" where "symq p \<longleftrightarrow> p AND TAG_SYM \<noteq> 0"
definition pairq :: "u16 \<Rightarrow> bool" where "pairq p \<longleftrightarrow> p AND TAG_PAIR \<noteq> 0"

definition eqq :: "flops \<Rightarrow> u16 \<Rightarrow> u16 \<Rightarrow> lisp \<Rightarrow> bool" where
  "eqq F a b s =
     (if a = b then True
      else if floatq a \<and> floatq b then f_eq F (getint a s) (getint b s)
      else if numq a \<and> numq b then getint a s = getint b s
      else False)"

text \<open>\<open>eq\<close>, \<open>lt\<close> and \<open>gt\<close> on the first two elements of a list.\<close>

definition compare_two :: "(u32 \<Rightarrow> u32 \<Rightarrow> bool) \<Rightarrow> (u32 \<Rightarrow> u32 \<Rightarrow> bool) \<Rightarrow> u16 \<Rightarrow> lisp \<Rightarrow> bool" where
  "compare_two fop iop l s =
     (let a = lcar l s; b = lcar (lcdr l s) s
      in if floatq a then fop (getint a s) (getint b s) else iop (getint a s) (getint b s))"

definition leq :: "flops \<Rightarrow> u16 \<Rightarrow> lisp \<Rightarrow> bool" where "leq F = compare_two (f_eq F) (=)"
definition llt :: "flops \<Rightarrow> u16 \<Rightarrow> lisp \<Rightarrow> bool" where "llt F = compare_two (f_less F) (\<lambda>a b. sint a < sint b)"
definition lgt :: "flops \<Rightarrow> u16 \<Rightarrow> lisp \<Rightarrow> bool" where
  "lgt F = compare_two (\<lambda>a b. f_less F b a) (\<lambda>a b. sint b < sint a)"

subsection \<open>The stack and lists\<close>

definition lpush :: "u16 \<Rightarrow> lisp \<Rightarrow> lisp res" where
  "lpush x s =
     (if length (lstack s) < LMAX then Ok (s\<lparr>lstack := lstack s @ [x]\<rparr>) else Fail OutOfBounds)"

definition lpop :: "lisp \<Rightarrow> u16 lres" where
  "lpop s = (if lstack s = [] then Fail OutOfBounds else Ok (last (lstack s), s\<lparr>lstack := butlast (lstack s)\<rparr>))"

definition ltop :: "lisp \<Rightarrow> u16 res" where
  "ltop s = (if lstack s = [] then Fail OutOfBounds else Ok (last (lstack s)))"

primrec last_cell :: "nat \<Rightarrow> u16 \<Rightarrow> lisp \<Rightarrow> u16 res" where
  "last_cell 0 q s = Fail Diverges"
| "last_cell (Suc n) q s = (if lcdr q s \<noteq> 0 then last_cell n (lcdr q s) s else Ok q)"

definition lappend :: "u16 \<Rightarrow> u16 \<Rightarrow> lisp \<Rightarrow> u16 lres" where
  "lappend q x s =
     (if q = 0 then lcons x 0 s
      else
        seq (lpush q s) (\<lambda>s.
        seq (last_cell LMAX q s) (\<lambda>e.
        seq (lcons x 0 s) (\<lambda>(p, s). lpop (lsetcdr e p s)))))"

primrec find_sym :: "nat \<Rightarrow> u8 list \<Rightarrow> u16 \<Rightarrow> lisp \<Rightarrow> u16 option res" where
  "find_sym 0 name l s = Fail Diverges"
| "find_sym (Suc n) name l s =
     (if l = 0 then Ok None
      else if getstr (lcar l s) s = name then Ok (Some (lcar l s))
      else find_sym n name (lcdr l s) s)"

definition getsym :: "u8 list \<Rightarrow> lisp \<Rightarrow> u16 lres" where
  "getsym name s =
     seq (find_sym LMAX name (lsymbols s) s) (\<lambda>r.
       case r of
         Some c \<Rightarrow> Ok (c, s)
       | None \<Rightarrow>
           seq (conssym name s) (\<lambda>(p, s).
           seq (lappend (lsymbols s) p s) (\<lambda>(l, s). Ok (p, s\<lparr>lsymbols := l\<rparr>))))"

definition sym :: "string \<Rightarrow> lisp \<Rightarrow> u16 lres" where
  "sym name s = getsym (ascii name) s"

definition is_sym :: "u16 \<Rightarrow> string \<Rightarrow> lisp \<Rightarrow> bool lres" where
  "is_sym x name s = seq (sym name s) (\<lambda>(p, s). Ok (x = p, s))"

definition truth :: "bool \<Rightarrow> lisp \<Rightarrow> u16 lres" where
  "truth b s = (if b then sym ''#t'' s else sym ''#f'' s)"

subsection \<open>The garbage collector\<close>

text \<open>\<open>gc\<close>: the working heap, marked as it is copied, and the new one.\<close>

record gc =
  ocars :: "u16 list"
  ocdrs :: "u16 list"
  ncars :: "u16 list"
  ncdrs :: "u16 list"
  nfree :: nat

definition gc_mark :: "u16 \<Rightarrow> u16 \<Rightarrow> gc \<Rightarrow> gc" where
  "gc_mark p n g = g\<lparr>ocars := (ocars g)[idx p := TAG_MARK], ocdrs := (ocdrs g)[idx p := n]\<rparr>"

definition ismark :: "u16 \<Rightarrow> gc \<Rightarrow> bool" where
  "ismark p g \<longleftrightarrow> ocars g ! idx p = TAG_MARK"

definition copy :: "u16 \<Rightarrow> gc \<Rightarrow> u16 \<times> gc" where
  "copy x g =
     (if ismark x g then (ocdrs g ! idx x, g)
      else
        let np = MASK_TAG AND x OR of_nat (nfree g);
            g = g\<lparr>nfree := nfree g + 1,
                  ncars := (ncars g)[idx np := ocars g ! idx x],
                  ncdrs := (ncdrs g)[idx np := ocdrs g ! idx x]\<rparr>
        in (np, gc_mark x np g))"

text \<open>A pass over the stack: entries that satisfy the test are replaced by their copies.\<close>

primrec gc_stack :: "(u16 \<Rightarrow> bool) \<Rightarrow> u16 list \<Rightarrow> gc \<Rightarrow> u16 list \<times> gc" where
  "gc_stack P [] g = ([], g)"
| "gc_stack P (x # st) g =
     (case (if P x then copy x g else (x, g)) of (y, g) \<Rightarrow>
      case gc_stack P st g of (st, g) \<Rightarrow> (y # st, g))"

definition gc_cell :: "(u16 \<Rightarrow> bool) \<Rightarrow> nat \<Rightarrow> gc \<Rightarrow> gc" where
  "gc_cell P k g =
     (let xcar = ncars g ! k; xcdr = ncdrs g ! k;
          g = (if P xcar then case copy xcar g of (y, g) \<Rightarrow> g\<lparr>ncars := (ncars g)[k := y]\<rparr> else g)
      in if P xcdr then case copy xcdr g of (y, g) \<Rightarrow> g\<lparr>ncdrs := (ncdrs g)[k := y]\<rparr> else g)"

text \<open>The scan runs over at most all cells of the new heap.\<close>

primrec gc_scan :: "nat \<Rightarrow> nat \<Rightarrow> gc \<Rightarrow> (nat \<times> gc) res" where
  "gc_scan 0 nscan g = Fail Diverges"
| "gc_scan (Suc n) nscan g =
     (if nscan < nfree g then gc_scan n (Suc nscan) (gc_cell pairq nscan g) else Ok (nscan, g))"

definition atomq :: "u16 \<Rightarrow> bool" where "atomq x \<longleftrightarrow> x \<noteq> 0 \<and> \<not> pairq x"

primrec gc_back :: "nat \<Rightarrow> gc \<Rightarrow> gc" where
  "gc_back 0 g = g"
| "gc_back (Suc k) g = gc_back k (gc_cell atomq (Suc k) g)"

definition garbage :: "lisp \<Rightarrow> lisp res" where
  "garbage s =
     seq (lpush (lsymbols s) s) (\<lambda>s. seq (lpush (lenv s) s) (\<lambda>s.
       let g = \<lparr>ocars = lcars s, ocdrs = lcdrs s, ncars = replicate LMAX 0, ncdrs = replicate LMAX 0, nfree = 1\<rparr>
       in case gc_stack pairq (lstack s) g of (st, g) \<Rightarrow>
          seq (gc_scan (Suc LMAX) 1 g) (\<lambda>(nscan, g).
          case gc_stack atomq st (gc_back (nscan - 1) g) of (st, g) \<Rightarrow>
            let s = s\<lparr>lstack := st, lcars := ncars g, lcdrs := ncdrs g, lfree := nfree g\<rparr>
            in seq (lpop s) (\<lambda>(e, s). seq (lpop s) (\<lambda>(y, s). Ok (s\<lparr>lenv := e, lsymbols := y\<rparr>))))))"

subsection \<open>Arithmetic and logic\<close>

text \<open>The result of an operation on two values, floating if one of them is.\<close>

definition arith :: "flops \<Rightarrow> (u32 \<Rightarrow> u32 \<Rightarrow> u32) \<Rightarrow> (u32 \<Rightarrow> u32 \<Rightarrow> u32) \<Rightarrow> u16 \<Rightarrow> u16 \<Rightarrow> lisp \<Rightarrow> u16 lres" where
  "arith F fop iop a b s =
     (if floatq a \<and> floatq b then consfloat (fop (getint a s) (getint b s)) s
      else if floatq a \<and> \<not> floatq b then consfloat (fop (getint a s) (f_int F (getint b s))) s
      else if \<not> floatq a \<and> floatq b then consfloat (fop (f_int F (getint a s)) (getint b s)) s
      else consint (iop (getint a s) (getint b s)) s)"

text \<open>\<open>f_add\<close> and \<open>f_mul\<close>: the list is summed from its end.\<close>

primrec fold_arith ::
  "flops \<Rightarrow> (u32 \<Rightarrow> u32 \<Rightarrow> u32) \<Rightarrow> (u32 \<Rightarrow> u32 \<Rightarrow> u32) \<Rightarrow> u32 \<Rightarrow> nat \<Rightarrow> u16 \<Rightarrow> lisp \<Rightarrow> u16 lres" where
  "fold_arith F fop iop unit_val 0 l s = Fail Diverges"
| "fold_arith F fop iop unit_val (Suc n) l s =
     (if l = 0 then consint unit_val s
      else seq (fold_arith F fop iop unit_val n (lcdr l s) s) (\<lambda>(b, s'). arith F fop iop (lcar l s) b s'))"

definition fn_add :: "flops \<Rightarrow> u16 \<Rightarrow> lisp \<Rightarrow> u16 lres" where
  "fn_add F l s = fold_arith F (f_add F) (+) 0 LMAX l s"

definition fn_mul :: "flops \<Rightarrow> u16 \<Rightarrow> lisp \<Rightarrow> u16 lres" where
  "fn_mul F l s = fold_arith F (f_mul F) (*) 1 LMAX l s"

definition fn_sub :: "flops \<Rightarrow> u16 \<Rightarrow> lisp \<Rightarrow> u16 lres" where
  "fn_sub F l s =
     (if l = 0 then consint 0 s
      else
        let a = lcar l s
        in if lcdr l s = 0
           then if floatq a then consfloat (f_neg F (getint a s)) s else consint (- getint a s) s
           else seq (fn_add F (lcdr l s) s) (\<lambda>(b, s). arith F (f_sub F) (-) a b s))"

text \<open>A signed quotient rounded towards zero; the machine gives -1 for a zero divisor.\<close>

definition int_div :: "u32 \<Rightarrow> u32 \<Rightarrow> u32" where
  "int_div a b =
     (if b = 0 then -1
      else word_of_int (sgn (sint a) * sgn (sint b) * (\<bar>sint a\<bar> div \<bar>sint b\<bar>)))"

definition fn_div :: "flops \<Rightarrow> u16 \<Rightarrow> lisp \<Rightarrow> u16 lres" where
  "fn_div F l s =
     (if l = 0 then consint 1 s
      else
        let a = lcar l s
        in seq (fn_mul F (lcdr l s) s) (\<lambda>(b, s). arith F (f_div F) int_div a b s))"

text \<open>\<open>and\<close> and \<open>or\<close>: the first false, the first true element decides.\<close>

primrec fn_until :: "string \<Rightarrow> string \<Rightarrow> nat \<Rightarrow> u16 \<Rightarrow> lisp \<Rightarrow> u16 lres" where
  "fn_until stop other 0 l s = Fail Diverges"
| "fn_until stop other (Suc n) l s =
     (if l = 0 then sym other s
      else seq (is_sym (lcar l s) stop s) (\<lambda>(b, s).
        if b then sym stop s else fn_until stop other n (lcdr l s) s))"

definition fn_and :: "u16 \<Rightarrow> lisp \<Rightarrow> u16 lres" where "fn_and = fn_until ''#f'' ''#t'' LMAX"
definition fn_or :: "u16 \<Rightarrow> lisp \<Rightarrow> u16 lres" where "fn_or = fn_until ''#t'' ''#f'' LMAX"

definition fn_not :: "u16 \<Rightarrow> lisp \<Rightarrow> u16 lres" where
  "fn_not l s = seq (is_sym (lcar l s) ''#t'' s) (\<lambda>(b, s). truth (\<not> b) s)"

subsection \<open>Printing\<close>

definition emit :: "u8 list \<Rightarrow> lisp \<Rightarrow> lisp" where
  "emit bs s = s\<lparr>lout := lout s @ bs\<rparr>"

definition emit_int :: "u32 \<Rightarrow> lisp \<Rightarrow> lisp res" where
  "emit_int n s = seq (uprintint n 10 True) (\<lambda>bs. Ok (emit bs s))"

text \<open>Six decimal places.\<close>

primrec emit_places :: "flops \<Rightarrow> nat \<Rightarrow> u32 \<Rightarrow> lisp \<Rightarrow> lisp res" where
  "emit_places F 0 a s = Ok s"
| "emit_places F (Suc k) a s =
     (let a = f_mul F a (f_int F 10)
      in seq (emit_int (f_trunc F a) s) (emit_places F k (f_sub F a (f_int F (f_trunc F a)))))"

fun print :: "flops \<Rightarrow> nat \<Rightarrow> u16 \<Rightarrow> lisp \<Rightarrow> lisp res" and
    print_rest :: "flops \<Rightarrow> nat \<Rightarrow> u16 \<Rightarrow> lisp \<Rightarrow> (u16 \<times> lisp) res" where
  "print F 0 p s = Fail Diverges"
| "print F (Suc n) p s =
     (if p = 0 then Ok (emit (ascii ''()'') s)
      else if floatq p then
        let a = getint p s
        in seq (emit_int (f_trunc F a) s) (\<lambda>s.
           emit_places F 6 (f_sub F a (f_int F (f_trunc F a))) (emit [46] s))
      else if numq p then emit_int (getint p s) s
      else if symq p then Ok (emit (getstr p s) s)
      else if pairq p then
        seq (sym ''procedure'' s) (\<lambda>(c, s).
          if eqq F (lcar p s) c s then Ok (emit (ascii ''(procedure)'') s)
          else
            seq (print F n (lcar p s) (emit [40] s)) (\<lambda>s.
            seq (print_rest F n (lcdr p s) s) (\<lambda>(p, s).
            seq (if p \<noteq> 0 then print F n p (emit (ascii '' . '') s) else Ok s) (\<lambda>s.
              Ok (emit [41] s)))))
      else Ok s)"
| "print_rest F 0 p s = Fail Diverges"
| "print_rest F (Suc n) p s =
     (if pairq p
      then seq (print F n (lcar p s) (emit [32] s)) (\<lambda>s. print_rest F n (lcdr p s) s)
      else Ok (p, s))"

subsection \<open>Environments\<close>

text \<open>The variables and values of a frame side by side: the value cell of \<open>var\<close>, or 0.\<close>

primrec find_var :: "flops \<Rightarrow> nat \<Rightarrow> u16 \<Rightarrow> u16 \<Rightarrow> u16 \<Rightarrow> lisp \<Rightarrow> u16 option res" where
  "find_var F 0 var vars vals s = Fail Diverges"
| "find_var F (Suc n) var vars vals s =
     (if vars = 0 then Ok None
      else if eqq F var (lcar vars s) s then Ok (Some vals)
      else find_var F n var (lcdr vars s) (lcdr vals s) s)"

text \<open>\<open>lookup\<close> compares symbols only.\<close>

primrec lookup :: "flops \<Rightarrow> nat \<Rightarrow> u16 \<Rightarrow> u16 \<Rightarrow> lisp \<Rightarrow> u16 lres" where
  "lookup F 0 var env s = Fail Diverges"
| "lookup F (Suc n) var env s =
     (if env = 0
      then seq (print F LMAX var (emit (ascii ''lookup error'') s)) (\<lambda>s. Fail (Panic ''lookup error''))
      else
        let frame = lcar env s
        in seq (if symq var then find_var F LMAX var (lcar frame s) (lcdr frame s) s else Ok None) (\<lambda>r.
             case r of Some v \<Rightarrow> Ok (lcar v s, s) | None \<Rightarrow> lookup F n var (lcdr env s) s))"

primrec set_var :: "flops \<Rightarrow> nat \<Rightarrow> u16 \<Rightarrow> u16 \<Rightarrow> u16 \<Rightarrow> lisp \<Rightarrow> u16 lres" where
  "set_var F 0 var val env s = Fail Diverges"
| "set_var F (Suc n) var val env s =
     (if env = 0 then Fail (Panic ''error'')
      else
        let frame = lcar env s
        in seq (find_var F LMAX var (lcar frame s) (lcdr frame s) s) (\<lambda>r.
             case r of
               Some v \<Rightarrow> sym ''ok'' (lsetcar v val s)
             | None \<Rightarrow> set_var F n var val (lcdr env s) s))"

definition define_var :: "flops \<Rightarrow> u16 \<Rightarrow> u16 \<Rightarrow> u16 \<Rightarrow> lisp \<Rightarrow> u16 lres" where
  "define_var F var val env s =
     (let frame = lcar env s; vars = lcar frame s; vals = lcdr frame s
      in seq (find_var F LMAX var vars vals s) (\<lambda>r.
           case r of
             Some v \<Rightarrow> sym ''ok'' (lsetcar v val s)
           | None \<Rightarrow>
               seq (lcons var vars s) (\<lambda>(vars, s).
               seq (lcons val vals s) (\<lambda>(vals, s).
               seq (lcons vars vals s) (\<lambda>(f, s). sym ''ok'' (lsetcar env f s))))))"

subsection \<open>Evaluation\<close>

type_synonym evaluator = "u16 \<Rightarrow> u16 \<Rightarrow> lisp \<Rightarrow> u16 lres"

text \<open>
  \<open>E\<close> stands for the call of \<open>eval\<close>. Only what is pushed on the stack is rewritten by a collection
  in that call; the other local variables keep the value they had. The loops run at most \<open>n\<close> times.
\<close>

primrec let_lists :: "evaluator \<Rightarrow> nat \<Rightarrow> u16 \<Rightarrow> u16 \<Rightarrow> u16 \<Rightarrow> u16 \<Rightarrow> lisp \<Rightarrow> (u16 \<times> u16) lres" where
  "let_lists E 0 e env args vals s = Fail Diverges"
| "let_lists E (Suc n) e env args vals s =
     (if e = 0 then Ok ((args, vals), s)
      else
        seq (lappend args (lcar (lcar e s) s) s) (\<lambda>(args, s).
        seq (E (lcar (lcdr (lcar e s) s) s) env s) (\<lambda>(r, s).
        seq (lappend vals r s) (\<lambda>(vals, s).
          let_lists E n (lcdr e s) env args vals s))))"

definition let2lambda :: "evaluator \<Rightarrow> nat \<Rightarrow> u16 \<Rightarrow> u16 \<Rightarrow> lisp \<Rightarrow> u16 lres" where
  "let2lambda E n e env s =
     (let body = lcdr e s
      in seq (let_lists E n (lcar e s) env 0 0 s) (\<lambda>((args, vals), s).
         seq (sym ''lambda'' s) (\<lambda>(y, s).
         seq (lappend 0 y s) (\<lambda>(l, s).
         seq (lappend l args s) (\<lambda>(l, s).
         seq (lappend l (lcar body s) s) (\<lambda>(l, s).
           lcons l vals s))))))"

text \<open>The bodies of \<open>begin\<close> and of a procedure: the last expression gives the value.\<close>

primrec eval_body :: "evaluator \<Rightarrow> nat \<Rightarrow> u16 \<Rightarrow> u16 \<Rightarrow> lisp \<Rightarrow> u16 lres" where
  "eval_body E 0 body env s = Fail Diverges"
| "eval_body E (Suc n) body env s =
     (if lcdr body s = 0 then E (lcar body s) env s
      else
        seq (lpush body s) (\<lambda>s. seq (lpush env s) (\<lambda>s.
        seq (E (lcar body s) env s) (\<lambda>(r, s).
        seq (lpop s) (\<lambda>(env, s). seq (lpop s) (\<lambda>(body, s).
          eval_body E n (lcdr body s) env s))))))"

primrec eval_conds :: "evaluator \<Rightarrow> nat \<Rightarrow> u16 \<Rightarrow> u16 \<Rightarrow> lisp \<Rightarrow> u16 lres" where
  "eval_conds E 0 conds env s = Fail Diverges"
| "eval_conds E (Suc n) conds env s =
     (if conds = 0 then sym ''#f'' s
      else
        let c = lcar conds s
        in seq (lpush conds s) (\<lambda>s. seq (lpush c s) (\<lambda>s. seq (lpush env s) (\<lambda>s.
           seq (E (lcar c s) env s) (\<lambda>(r, s).
           seq (is_sym r ''#t'' s) (\<lambda>(b, s).
           seq (lpop s) (\<lambda>(env, s). seq (lpop s) (\<lambda>(c, s). seq (lpop s) (\<lambda>(conds, s).
             if b then E (lcar (lcdr c s) s) env s
             else eval_conds E n (lcdr conds s) env s)))))))))"

primrec eval_args :: "evaluator \<Rightarrow> nat \<Rightarrow> u16 \<Rightarrow> u16 \<Rightarrow> u16 \<Rightarrow> lisp \<Rightarrow> u16 lres" where
  "eval_args E 0 e env args s = Fail Diverges"
| "eval_args E (Suc n) e env args s =
     (if e = 0 then Ok (args, s)
      else
        seq (lpush e s) (\<lambda>s. seq (lpush env s) (\<lambda>s. seq (lpush args s) (\<lambda>s.
        seq (E (lcar e s) env s) (\<lambda>(r, s).
        seq (lpop s) (\<lambda>(args, s). seq (lpop s) (\<lambda>(env, s). seq (lpop s) (\<lambda>(e, s).
        seq (lappend args r s) (\<lambda>(args, s).
          eval_args E n (lcdr e s) env args s)))))))))"

text \<open>Calls of the built-in functions; \<open>None\<close> when the operator is none of them.\<close>

definition builtins :: "flops \<Rightarrow> evaluator \<Rightarrow> (string \<times> (u16 \<Rightarrow> lisp \<Rightarrow> u16 lres)) list" where
  "builtins F E =
    [(''+'', fn_add F), (''-'', fn_sub F), (''*'', fn_mul F), (''/'', fn_div F),
     (''='', \<lambda>args s. truth (leq F args s) s),
     (''<'', \<lambda>args s. truth (llt F args s) s),
     (''>'', \<lambda>args s. truth (lgt F args s) s),
     (''and'', fn_and), (''or'', fn_or), (''not'', fn_not),
     (''null?'', \<lambda>args s. truth (nullq (lcar args s)) s),
     (''pair?'', \<lambda>args s. truth (pairq (lcar args s)) s),
     (''eq?'', \<lambda>args s. truth (eqq F (lcar args s) (lcar (lcdr args s) s) s) s),
     (''cons'', \<lambda>args s. lcons (lcar args s) (lcar (lcdr args s) s) s),
     (''car'', \<lambda>args s. Ok (lcar (lcar args s) s, s)),
     (''cdr'', \<lambda>args s. Ok (lcdr (lcar args s) s, s)),
     (''setcar!'', \<lambda>args s. sym ''ok'' (lsetcar (lcar args s) (lcar (lcdr args s) s) s)),
     (''setcdr!'', \<lambda>args s. sym ''ok'' (lsetcdr (lcar args s) (lcar (lcdr args s) s) s)),
     (''eval'', \<lambda>args s. E (lcar args s) (lenv s) s),
     (''display'', \<lambda>args s. seq (print F LMAX (lcar args s) s) (sym []))]"

primrec call_builtin ::
  "(string \<times> (u16 \<Rightarrow> lisp \<Rightarrow> u16 lres)) list \<Rightarrow> u16 \<Rightarrow> u16 \<Rightarrow> lisp \<Rightarrow> u16 option lres" where
  "call_builtin [] p args s = Ok (None, s)"
| "call_builtin (b # bs) p args s =
     seq (is_sym p (fst b) s) (\<lambda>(hit, s).
       if hit then seq (snd b args s) (\<lambda>(r, s). Ok (Some r, s)) else call_builtin bs p args s)"

text \<open>A closure holds its parameters, its body and its environment.\<close>

definition apply_closure :: "evaluator \<Rightarrow> nat \<Rightarrow> u16 \<Rightarrow> u16 \<Rightarrow> lisp \<Rightarrow> u16 lres" where
  "apply_closure E n p args s =
     (let param = lcar (lcdr p s) s
      in seq (if symq param
              then seq (lcons param 0 s) (\<lambda>(param, s). seq (lcons args 0 s) (\<lambda>(args, s). Ok ((param, args), s)))
              else Ok ((param, args), s)) (\<lambda>((param, args), s).
         let body = lcar (lcdr (lcdr p s) s) s
         in seq (lcons param args s) (\<lambda>(frame, s).
            let env = lcar (lcdr (lcdr (lcdr p s) s) s) s
            in seq (lcons frame env s) (\<lambda>(newenv, s). eval_body E n body newenv s))))"

definition apply_proc :: "flops \<Rightarrow> evaluator \<Rightarrow> nat \<Rightarrow> u16 \<Rightarrow> u16 \<Rightarrow> lisp \<Rightarrow> u16 lres" where
  "apply_proc F E n p args s =
     seq (call_builtin (builtins F E) p args s) (\<lambda>(r, s).
       case r of
         Some v \<Rightarrow> Ok (v, s)
       | None \<Rightarrow>
           seq (is_sym (lcar p s) ''procedure'' s) (\<lambda>(b, s).
             if b then apply_closure E n p args s else Fail (Panic ''error: apply'')))"

definition make_closure :: "u16 \<Rightarrow> u16 \<Rightarrow> lisp \<Rightarrow> u16 lres" where
  "make_closure e env s =
     seq (sym ''procedure'' s) (\<lambda>(y, s).
     seq (lcons env 0 s) (\<lambda>(l, s).
     seq (lcons (lcdr (lcdr e s) s) l s) (\<lambda>(l, s).
     seq (lcons (lcar (lcdr e s) s) l s) (\<lambda>(l, s). lcons y l s))))"

text \<open>A value computed while \<open>x\<close> and \<open>y\<close> are on the stack: both come back as they are after it.\<close>

definition eval_keeping :: "evaluator \<Rightarrow> u16 \<Rightarrow> u16 \<Rightarrow> u16 \<Rightarrow> u16 \<Rightarrow> lisp \<Rightarrow> (u16 \<times> u16 \<times> u16) lres" where
  "eval_keeping E x y e env s =
     seq (lpush x s) (\<lambda>s. seq (lpush y s) (\<lambda>s.
     seq (E e env s) (\<lambda>(r, s).
     seq (lpop s) (\<lambda>(y, s). seq (lpop s) (\<lambda>(x, s). Ok ((r, x, y), s))))))"

definition eval_define :: "flops \<Rightarrow> evaluator \<Rightarrow> u16 \<Rightarrow> u16 \<Rightarrow> lisp \<Rightarrow> u16 option lres" where
  "eval_define F E e env s =
     (let var = lcar (lcdr e s) s
      in if symq var then
           seq (eval_keeping E var env (lcar (lcdr (lcdr e s) s) s) env s) (\<lambda>((r, var, env), s).
           seq (define_var F var r env s) (\<lambda>(v, s). Ok (Some v, s)))
         else if pairq var then
           let f = lcar var s; par = lcdr var s; body = lcdr (lcdr e s) s
           in seq (sym ''lambda'' s) (\<lambda>(y, s).
              seq (lcons par body s) (\<lambda>(l, s).
              seq (lcons y l s) (\<lambda>(p, s).
              seq (eval_keeping E f env p env s) (\<lambda>((r, f, env), s).
              seq (define_var F f r env s) (\<lambda>(v, s). Ok (Some v, s))))))
         else Ok (None, s))"

definition eval_call :: "flops \<Rightarrow> evaluator \<Rightarrow> nat \<Rightarrow> u16 \<Rightarrow> u16 \<Rightarrow> lisp \<Rightarrow> u16 lres" where
  "eval_call F E n e env s =
     seq (eval_keeping E (lcdr e s) env (lcar e s) env s) (\<lambda>((f, e, env), s).
     seq (lpush f s) (\<lambda>s.
     seq (eval_args E n e env 0 s) (\<lambda>(args, s).
     seq (lpop s) (\<lambda>(f, s). apply_proc F E n f args s))))"

definition eval_if :: "evaluator \<Rightarrow> u16 \<Rightarrow> u16 \<Rightarrow> lisp \<Rightarrow> u16 lres" where
  "eval_if E e env s =
     seq (eval_keeping E e env (lcar (lcdr e s) s) env s) (\<lambda>((r, e, env), s).
     seq (is_sym r ''#t'' s) (\<lambda>(b, s).
       if b then E (lcar (lcdr (lcdr e s) s) s) env s
       else E (lcar (lcdr (lcdr (lcdr e s) s) s) s) env s))"

definition eval_set :: "flops \<Rightarrow> evaluator \<Rightarrow> u16 \<Rightarrow> u16 \<Rightarrow> lisp \<Rightarrow> u16 lres" where
  "eval_set F E e env s =
     (let var = lcar (lcdr e s) s
      in seq (eval_keeping E env var (lcar (lcdr (lcdr e s) s) s) env s) (\<lambda>((r, env, var), s).
           set_var F LMAX var r env s))"

text \<open>A form whose name matches is run; a definition of anything but a name falls through.\<close>

definition forms :: "flops \<Rightarrow> evaluator \<Rightarrow> nat \<Rightarrow> (string \<times> (u16 \<Rightarrow> u16 \<Rightarrow> lisp \<Rightarrow> u16 option lres)) list" where
  "forms F E n =
     (let some = (\<lambda>f e env s. seq (f e env s) (\<lambda>(r, s). Ok (Some r, s)))
      in [(''quote'', some (\<lambda>e env s. Ok (lcar (lcdr e s) s, s))),
          (''set!'', some (eval_set F E)),
          (''define'', eval_define F E),
          (''if'', some (eval_if E)),
          (''let'', some (\<lambda>e env s. seq (let2lambda E n (lcdr e s) env s) (\<lambda>(l, s). E l env s))),
          (''lambda'', some make_closure),
          (''begin'', some (\<lambda>e env s. eval_body E n (lcdr e s) env s)),
          (''cond'', some (\<lambda>e env s. eval_conds E n (lcdr e s) env s))])"

primrec eval_forms ::
  "flops \<Rightarrow> (string \<times> (u16 \<Rightarrow> u16 \<Rightarrow> lisp \<Rightarrow> u16 option lres)) list \<Rightarrow> (lisp \<Rightarrow> u16 lres) \<Rightarrow> u16 \<Rightarrow> u16 \<Rightarrow> lisp \<Rightarrow> u16 lres" where
  "eval_forms F [] other e env s = other s"
| "eval_forms F (f # fs) other e env s =
     seq (sym (fst f) s) (\<lambda>(y, s).
       if eqq F (lcar e s) y s
       then seq (snd f e env s) (\<lambda>(r, s). case r of Some v \<Rightarrow> Ok (v, s) | None \<Rightarrow> eval_forms F fs other e env s)
       else eval_forms F fs other e env s)"

definition eval_entry :: "u16 \<Rightarrow> u16 \<Rightarrow> lisp \<Rightarrow> (u16 \<times> u16) lres" where
  "eval_entry e env s =
     seq (lpush e s) (\<lambda>s. seq (lpush env s) (\<lambda>s.
     seq (if LMAX - lfree s < 500 then garbage s else Ok s) (\<lambda>s.
     seq (lpop s) (\<lambda>(env, s). seq (lpop s) (\<lambda>(e, s). Ok ((e, env), s))))))"

primrec leval :: "flops \<Rightarrow> nat \<Rightarrow> u16 \<Rightarrow> u16 \<Rightarrow> lisp \<Rightarrow> u16 lres" where
  "leval F 0 e env s = Fail Diverges"
| "leval F (Suc n) e env s =
     seq (eval_entry e env s) (\<lambda>((e, env), s).
       if e = 0 then Ok (0, s)
       else if numq e then Ok (e, s)
       else if floatq e then Ok (e, s)
       else if symq e then lookup F LMAX e env s
       else if pairq e
       then eval_forms F (forms F (leval F n) n) (\<lambda>s. eval_call F (leval F n) n e env s) e env s
       else Ok (0, s))"

subsection \<open>Reading\<close>

text \<open>
  \<open>repl\<close> adds every finished token to the list on top of the stack. The name of a symbol is read
  from the buffer up to its end, from the place \<open>lstart\<close> where the symbol began, which may be
  in the part of the buffer an earlier call of \<open>repl\<close> was given.
\<close>

definition add_top :: "(lisp \<Rightarrow> u16 lres) \<Rightarrow> lisp \<Rightarrow> lisp res" where
  "add_top f s =
     seq (lpop s) (\<lambda>(l, s). seq (f s) (\<lambda>(x, s). seq (lappend l x s) (\<lambda>(l, s). lpush l s)))"

definition close_list :: "lisp \<Rightarrow> lisp res" where
  "close_list s = seq (lpop s) (\<lambda>(x, s). add_top (\<lambda>s. Ok (x, s)) s)"

primrec close_quotes :: "nat \<Rightarrow> lisp \<Rightarrow> lisp res" where
  "close_quotes 0 s = Fail Diverges"
| "close_quotes (Suc n) s =
     seq (ltop s) (\<lambda>t.
     seq (is_sym (lcar t s) [CHR 0x27] s) (\<lambda>(b, s).
       if b then
         seq (sym ''quote'' s) (\<lambda>(q, s).
         seq (close_list (lsetcar t q s)) (close_quotes n))
       else Ok s))"

definition str_from :: "u8 list \<Rightarrow> nat \<Rightarrow> u8 list" where
  "str_from buf k = takeWhile (\<lambda>c. c \<noteq> 0) (drop k buf)"

definition end_token :: "nat \<Rightarrow> u8 list \<Rightarrow> lisp \<Rightarrow> (u8 list \<times> lisp) res" where
  "end_token i buf s =
     (if numq (ltoken s) \<or> floatq (ltoken s)
      then seq (add_top (\<lambda>s. Ok (ltoken s, s)) s) (\<lambda>s. Ok (buf, s\<lparr>ltoken := 0\<rparr>))
      else if symq (ltoken s)
      then let buf = buf[i := 0]
           in seq (add_top (getsym (str_from buf (lstart s))) s) (\<lambda>s. Ok (buf, s\<lparr>ltoken := 0\<rparr>))
      else Ok (buf, s\<lparr>ltoken := 0\<rparr>))"

definition eval_top :: "flops \<Rightarrow> nat \<Rightarrow> lisp \<Rightarrow> lisp res" where
  "eval_top F n s =
     seq (ltop s) (\<lambda>t.
       if length (lstack s) = 1 \<and> t \<noteq> 0
       then seq (leval F n (lcar t s) (lenv s) s) (\<lambda>(r, s).
            seq (print F LMAX r s) (\<lambda>s.
            seq (lpop (emit (10 # ascii ''lisp> '') s)) (\<lambda>(l, s). lpush (lcdr l s) s)))
       else Ok s)"

definition separator :: "flops \<Rightarrow> nat \<Rightarrow> u8 \<Rightarrow> lisp \<Rightarrow> lisp res" where
  "separator F n c s =
     (if c = 40 then lpush 0 s
      else if c = 41 then seq (close_quotes LMAX s) close_list
      else if c = 32 \<or> c = 9 \<or> c = 10 then seq (close_quotes LMAX s) (eval_top F n)
      else if c = 39 then seq (lpush 0 s) (add_top (sym [CHR 0x27]))
      else Ok s)"

definition read_char :: "flops \<Rightarrow> nat \<Rightarrow> u8 \<Rightarrow> lisp \<Rightarrow> lisp res" where
  "read_char F i c s =
     (if 48 \<le> c \<and> c \<le> 57 then
        let d = ucast (c - 48)
        in if ltoken s = 0 then seq (consint d s) (\<lambda>(t, s). Ok (s\<lparr>ltoken := t\<rparr>))
           else if numq (ltoken s)
           then seq (consint (getint (ltoken s) s * 10 + d) s) (\<lambda>(t, s). Ok (s\<lparr>ltoken := t\<rparr>))
           else if floatq (ltoken s)
           then seq (consfloat (f_add F (getint (ltoken s) s) (f_div F (f_int F d) (lten s))) s) (\<lambda>(t, s).
                  Ok (s\<lparr>ltoken := t, lten := f_mul F (lten s) (f_int F 10)\<rparr>))
           else Ok s
      else if c = 46 then
        if numq (ltoken s)
        then seq (consfloat (f_int F (getint (ltoken s) s)) s) (\<lambda>(t, s). Ok (s\<lparr>ltoken := t, lten := f_int F 10\<rparr>))
        else Ok s
      else if ltoken s = 0 then Ok (s\<lparr>lstart := i, ltoken := TAG_SYM\<rparr>)
      else Ok s)"

definition is_sep :: "u8 \<Rightarrow> bool" where
  "is_sep c \<longleftrightarrow> c = 39 \<or> c = 40 \<or> c = 41 \<or> c = 32 \<or> c = 9 \<or> c = 10"

text \<open>\<open>repl\<close> on the \<open>k\<close> bytes of the buffer from the \<open>i\<close>-th on.\<close>

primrec repl_from :: "flops \<Rightarrow> nat \<Rightarrow> nat \<Rightarrow> nat \<Rightarrow> u8 list \<Rightarrow> lisp \<Rightarrow> (u8 list \<times> lisp) res" where
  "repl_from F n 0 i buf s = Ok (buf, s)"
| "repl_from F n (Suc k) i buf s =
     (let c = buf ! i
      in if c = 0 then Ok (buf, s)
         else if is_sep c
         then seq (end_token i buf s) (\<lambda>(buf, s). seq (separator F n c s) (repl_from F n k (Suc i) buf))
         else seq (read_char F i c s) (repl_from F n k (Suc i) buf))"

definition repl :: "flops \<Rightarrow> nat \<Rightarrow> u8 list \<Rightarrow> lisp \<Rightarrow> (u8 list \<times> lisp) res" where
  "repl F n buf s = repl_from F n (length buf) 0 buf s"

subsection \<open>The program\<close>

definition globals :: "(string \<times> string) list" where
  "globals =
    map (\<lambda>x. (x, x))
      [''#f'', ''#t'', ''and'', ''or'', ''not'', ''+'', ''-'', ''*'', ''/'', ''='', ''>'', ''<'']
    @ [(''else'', ''#t'')]
    @ map (\<lambda>x. (x, x))
      [''eq?'', ''pair?'', ''null?'', ''cons'', ''car'', ''cdr'', ''setcar!'', ''setcdr!'', ''eval'', ''display'']"

primrec define_globals :: "flops \<Rightarrow> (string \<times> string) list \<Rightarrow> lisp \<Rightarrow> lisp res" where
  "define_globals F [] s = Ok s"
| "define_globals F (d # ds) s =
     seq (sym (fst d) s) (\<lambda>(x, s). seq (sym (snd d) s) (\<lambda>(v, s).
     seq (define_var F x v (lenv s) s) (\<lambda>(r, s). define_globals F ds s)))"

definition lisp_init :: "flops \<Rightarrow> lisp \<Rightarrow> lisp res" where
  "lisp_init F s =
     seq (sym ''nil'' s) (\<lambda>(x, s).
     seq (define_var F x 0 (lenv s) s) (\<lambda>(r, s). define_globals F globals s))"

definition LBUF :: nat where "LBUF = 512"

text \<open>Each \<open>read\<close> gives one of the chunks, at most 511 bytes of it; none or an empty one ends the input.\<close>

primrec lisp_loop :: "flops \<Rightarrow> nat \<Rightarrow> u8 list list \<Rightarrow> u8 list \<Rightarrow> lisp \<Rightarrow> lisp res" where
  "lisp_loop F n [] buf s = Ok s"
| "lisp_loop F n (c # cs) buf s =
     (let c = take (LBUF - 1) c
      in if c = [] then Ok s
         else seq (repl F n (c @ 0 # drop (Suc (length c)) buf) s) (\<lambda>(buf, s). lisp_loop F n cs buf s))"

definition lisp_start :: "flops \<Rightarrow> lisp" where
  "lisp_start F =
     \<lparr>lcars = replicate LMAX 0, lcdrs = replicate LMAX 0, lfree = 1, lstack = [], lsymbols = 0, lenv = 0,
      lnames = [], lout = [], ltoken = 0, lten = f_int F 1, lstart = 0\<rparr>"

definition lisp_banner :: "u8 list" where
  "lisp_banner =
     ascii ''lisp v6'' @ 10 # ascii ''sizeof pair: 2'' @ 10 # ascii ''size of number: 4''
     @ 10 # ascii ''size of float: 4'' @ 10 # ascii ''size of (char*): 4'' @ [10]"

definition lisp_main :: "flops \<Rightarrow> nat \<Rightarrow> u8 list \<Rightarrow> u8 list list \<Rightarrow> lisp res" where
  "lisp_main F n buf input =
     seq (lcons 0 0 (emit lisp_banner (lisp_start F))) (\<lambda>(p, s).
     seq (lcons p 0 s) (\<lambda>(e, s).
     seq (lisp_init F (s\<lparr>lenv := e\<rparr>)) (\<lambda>s.
     seq (lpush 0 (emit (ascii ''lisp> '') s)) (\<lambda>s.
     seq (lisp_loop F n input buf s) (\<lambda>s. Ok (emit (ascii ''bye'' @ [10]) s))))))"

end
