(* ===== verification/User_Lisp_Gc.thy ===== *)
theory User_Lisp_Gc
  imports User_Lisp
begin

text \<open>
  The collector of the Lisp interpreter: on a heap whose reachable values are well formed, \<open>garbage\<close>
  builds an isomorphic heap that holds the reachable cells and no other.
\<close>

subsection \<open>Tags and indices\<close>

definition moved :: "u16 \<Rightarrow> nat \<Rightarrow> u16" where
  "moved x n = MASK_TAG AND x OR of_nat n"

lemma small_index:
  assumes n: "n < 4096"
  shows "(of_nat n :: u16) AND MASK_INDEX = of_nat n" "(of_nat n :: u16) AND MASK_TAG = 0"
proof -
  have m: "MASK_INDEX = mask 12" by (simp add: MASK_INDEX_def mask_eq_exp_minus_1)
  have t: "MASK_TAG = NOT (mask 12)" by (simp add: MASK_TAG_def mask_eq_exp_minus_1)
  have "take_bit 12 (of_nat n :: u16) = of_nat n"
    using n by (simp add: take_bit_of_nat take_bit_nat_eq_self)
  then show a: "(of_nat n :: u16) AND MASK_INDEX = of_nat n"
    by (simp add: m flip: take_bit_eq_mask)
  have "(of_nat n :: u16) AND MASK_TAG = (of_nat n AND mask 12) AND NOT (mask 12)"
    using a by (simp add: t m)
  then show "(of_nat n :: u16) AND MASK_TAG = 0"
    by (simp add: and.assoc)
qed

lemma and_tag_index: "(MASK_TAG AND x) AND MASK_INDEX = 0"
proof -
  have "MASK_TAG AND MASK_INDEX = (0 :: u16)" by (simp add: MASK_TAG_def MASK_INDEX_def)
  moreover have "(MASK_TAG AND x) AND MASK_INDEX = x AND (MASK_TAG AND MASK_INDEX)"
    by (simp only: and.assoc and.left_commute)
  ultimately show ?thesis by simp
qed

lemma idx_moved [simp]: "n < 4096 \<Longrightarrow> idx (moved x n) = n"
  by (simp add: moved_def idx_def bit.conj_disj_distrib2 and_tag_index small_index take_bit_nat_eq_self
      unsigned_of_nat)

lemma tag_moved: "n < 4096 \<Longrightarrow> moved x n AND MASK_TAG = x AND MASK_TAG"
  by (simp add: moved_def bit.conj_disj_distrib2 small_index and.commute [of MASK_TAG] and.assoc)

lemma pairq_by_tag: "pairq x \<longleftrightarrow> (x AND MASK_TAG) AND TAG_PAIR \<noteq> 0"
  by (simp add: pairq_def and.assoc TAG_PAIR_def MASK_TAG_def)

lemma pairq_moved [simp]: "n < 4096 \<Longrightarrow> pairq (moved x n) = pairq x"
  by (simp add: pairq_by_tag tag_moved)

lemma pairq_0 [simp]: "\<not> pairq 0"
  by (simp add: pairq_def)

lemma moved_nonzero: "0 < n \<Longrightarrow> n < 4096 \<Longrightarrow> moved x n \<noteq> 0"
  by (metis idx_moved idx_def and_zero_eq bit.conj_zero_left unsigned_0 less_irrefl)

lemma atomq_moved [simp]: "0 < n \<Longrightarrow> n < 4096 \<Longrightarrow> atomq (moved x n) \<longleftrightarrow> \<not> pairq x"
  by (simp add: atomq_def moved_nonzero)

subsection \<open>The live values\<close>

inductive live :: "lisp \<Rightarrow> u16 \<Rightarrow> bool" for s where
  live_root: "x \<in> set (lstack s @ [lsymbols s, lenv s]) \<Longrightarrow> x \<noteq> 0 \<Longrightarrow> live s x"
| live_car: "live s p \<Longrightarrow> pairq p \<Longrightarrow> lcar p s \<noteq> 0 \<Longrightarrow> live s (lcar p s)"
| live_cdr: "live s p \<Longrightarrow> pairq p \<Longrightarrow> lcdr p s \<noteq> 0 \<Longrightarrow> live s (lcdr p s)"

text \<open>
  Every live value has a cell of its own, and no live cell looks like one the collector has marked.
\<close>

definition heap_ok :: "lisp \<Rightarrow> bool" where
  "heap_ok s \<longleftrightarrow>
     length (lcars s) = LMAX \<and> length (lcdrs s) = LMAX \<and> inj_on idx (Collect (live s))
     \<and> (\<forall>x. live s x \<longrightarrow> 0 < idx x \<and> idx x < LMAX \<and> lcar x s \<noteq> TAG_MARK)"

subsection \<open>The invariant of a collection\<close>

text \<open>
  \<open>xs\<close> lists the values copied so far, the \<open>k\<close>-th into cell \<open>k + 1\<close>. Of the two halves of this cell, those
  values that satisfy \<open>pa k\<close> and \<open>pd k\<close> have been replaced by their copies.
\<close>

definition fw :: "u16 list \<Rightarrow> u16 \<Rightarrow> u16" where
  "fw xs x = (if x = 0 then 0 else moved x (Suc (length (takeWhile (\<lambda>y. y \<noteq> x) xs))))"

definition tr :: "(u16 \<Rightarrow> bool) \<Rightarrow> u16 list \<Rightarrow> u16 \<Rightarrow> u16" where
  "tr P xs v = (if P v then fw xs v else v)"

definition gc_inv ::
  "lisp \<Rightarrow> (nat \<Rightarrow> u16 \<Rightarrow> bool) \<Rightarrow> (nat \<Rightarrow> u16 \<Rightarrow> bool) \<Rightarrow> u16 list \<Rightarrow> gc \<Rightarrow> bool" where
  "gc_inv s pa pd xs g \<longleftrightarrow>
     distinct xs \<and> set xs \<subseteq> Collect (live s) \<and> nfree g = Suc (length xs)
     \<and> length (ocars g) = LMAX \<and> length (ocdrs g) = LMAX \<and> length (ncars g) = LMAX \<and> length (ncdrs g) = LMAX
     \<and> (\<forall>x. live s x \<longrightarrow>
          (if x \<in> set xs then ocars g ! idx x = TAG_MARK \<and> ocdrs g ! idx x = fw xs x
           else ocars g ! idx x = lcar x s \<and> ocdrs g ! idx x = lcdr x s))
     \<and> (\<forall>k < length xs.
          ncars g ! Suc k = tr (pa k) xs (lcar (xs ! k) s) \<and> ncdrs g ! Suc k = tr (pd k) xs (lcdr (xs ! k) s)
          \<and> (pa k (lcar (xs ! k) s) \<longrightarrow> lcar (xs ! k) s \<in> set xs)
          \<and> (pd k (lcdr (xs ! k) s) \<longrightarrow> lcdr (xs ! k) s \<in> set xs))
     \<and> (\<forall>k \<ge> length xs. pa k = (\<lambda>_. False) \<and> pd k = (\<lambda>_. False))"

lemma live_pos: "heap_ok s \<Longrightarrow> live s x \<Longrightarrow> 0 < idx x \<and> idx x < LMAX"
  by (simp add: heap_ok_def)

lemma live_inj: "heap_ok s \<Longrightarrow> live s x \<Longrightarrow> live s y \<Longrightarrow> idx x = idx y \<Longrightarrow> x = y"
  by (auto simp: heap_ok_def inj_on_def)

lemma live_nonzero: "heap_ok s \<Longrightarrow> live s x \<Longrightarrow> x \<noteq> 0"
  using live_pos [of s 0] by (auto simp: idx_def)

text \<open>There are fewer live values than cells.\<close>

lemma live_count:
  assumes h: "heap_ok s" and d: "distinct xs" and l: "set xs \<subseteq> Collect (live s)"
  shows "length xs < LMAX"
proof -
  have "inj_on idx (set xs)" using h l inj_on_subset by (auto simp: heap_ok_def)
  moreover have "idx ` set xs \<subseteq> {1..<LMAX}" using live_pos [OF h] l by fastforce
  ultimately have "card (set xs) \<le> card {1..<LMAX}"
    by (metis card_image card_mono finite_atLeastLessThan)
  then show ?thesis using d by (simp add: distinct_card LMAX_def)
qed

lemma gc_inv_count: "heap_ok s \<Longrightarrow> gc_inv s pa pd xs g \<Longrightarrow> length xs < LMAX"
  by (rule live_count) (auto simp: gc_inv_def)

lemma fw_append [simp]: "x \<in> set xs \<Longrightarrow> fw (xs @ ys) x = fw xs x"
  by (simp add: fw_def takeWhile_append1)

lemma fw_0 [simp]: "fw xs 0 = 0"
  by (simp add: fw_def)

lemma tr_append: "(P v \<Longrightarrow> v \<in> set xs) \<Longrightarrow> tr P (xs @ ys) v = tr P xs v"
  by (simp add: tr_def)

lemma tr_False [simp]: "tr (\<lambda>_. False) xs = (\<lambda>v. v)"
  by (simp add: tr_def fun_eq_iff)

lemma fw_bound: "x \<in> set xs \<Longrightarrow> length (takeWhile (\<lambda>y. y \<noteq> x) xs) < length xs"
  by (induction xs) auto

lemma fw_new: "x \<notin> set xs \<Longrightarrow> x \<noteq> 0 \<Longrightarrow> fw (xs @ [x]) x = moved x (Suc (length xs))"
  by (subst fw_def, subst takeWhile_append2) auto

subsection \<open>Copying one value\<close>

definition copied :: "u16 list \<Rightarrow> u16 \<Rightarrow> u16 list" where
  "copied xs x = (if x \<in> set xs then xs else xs @ [x])"

lemma copied_set [simp]: "set (copied xs x) = insert x (set xs)"
  by (auto simp: copied_def)

lemma copied_append: "\<exists>ys. copied xs x = xs @ ys"
  by (simp add: copied_def)

lemma copy_known:
  assumes "gc_inv s pa pd xs g" "x \<in> set xs" "live s x"
  shows "copy x g = (fw xs x, g)"
  using assms by (simp add: gc_inv_def copy_def ismark_def)

lemma copy_new:
  assumes h: "heap_ok s" and i: "gc_inv s pa pd xs g" and n: "x \<notin> set xs" and l: "live s x"
  shows "\<exists>g'. copy x g = (fw (xs @ [x]) x, g') \<and> gc_inv s pa pd (xs @ [x]) g'"
proof -
  let ?n = "length xs" and ?xs = "xs @ [x]" and ?y = "moved x (Suc (length xs))"
  have b: "length ?xs < LMAX"
    using i n l by (intro live_count [OF h]) (auto simp: gc_inv_def)
  then have b': "Suc ?n < LMAX" "Suc ?n < 4096" by (simp_all add: LMAX_def)
  have f: "fw ?xs x = ?y" using n live_nonzero [OF h l] by (rule fw_new)
  have c: "ocars g ! idx x = lcar x s" "ocdrs g ! idx x = lcdr x s" "nfree g = Suc ?n"
    using i n l by (auto simp: gc_inv_def)
  have m: "\<not> ismark x g" using h l c by (simp add: ismark_def heap_ok_def)
  define g' where "g' = g\<lparr>nfree := Suc (Suc ?n), ncars := (ncars g)[Suc ?n := lcar x s],
      ncdrs := (ncdrs g)[Suc ?n := lcdr x s], ocars := (ocars g)[idx x := TAG_MARK],
      ocdrs := (ocdrs g)[idx x := ?y]\<rparr>"
  have idx: "idx ?y = Suc ?n" using b'(2) by (rule idx_moved)
  have "copy x g = (?y, g')"
    using m idx c unfolding copy_def moved_def g'_def
    by (simp add: Let_def gc_mark_def)
  moreover have "gc_inv s pa pd ?xs g'"
  proof -
    have old: "\<And>k. k < ?n \<Longrightarrow> ncars g ! Suc k = tr (pa k) xs (lcar (xs ! k) s)"
        "\<And>k. k < ?n \<Longrightarrow> ncdrs g ! Suc k = tr (pd k) xs (lcdr (xs ! k) s)"
        "\<And>k. k < ?n \<Longrightarrow> pa k (lcar (xs ! k) s) \<Longrightarrow> lcar (xs ! k) s \<in> set xs"
        "\<And>k. k < ?n \<Longrightarrow> pd k (lcdr (xs ! k) s) \<Longrightarrow> lcdr (xs ! k) s \<in> set xs"
        "\<And>k. ?n \<le> k \<Longrightarrow> pa k = (\<lambda>_. False)" "\<And>k. ?n \<le> k \<Longrightarrow> pd k = (\<lambda>_. False)"
      using i by (auto simp: gc_inv_def)
    have len: "length (ocars g) = LMAX" "length (ocdrs g) = LMAX" "length (ncars g) = LMAX" "length (ncdrs g) = LMAX"
      using i by (auto simp: gc_inv_def)
    have work: "if z \<in> set ?xs then ocars g' ! idx z = TAG_MARK \<and> ocdrs g' ! idx z = fw ?xs z
        else ocars g' ! idx z = lcar z s \<and> ocdrs g' ! idx z = lcdr z s" if z: "live s z" for z
    proof (cases "z = x")
      case True
      then show ?thesis using live_pos [OF h l] len f by (simp add: g'_def)
    next
      case False
      then have "idx x \<noteq> idx z" using live_inj [OF h l z] by auto
      then show ?thesis using i z False by (auto simp: g'_def gc_inv_def)
    qed
    have new: "ncars g' ! Suc k = tr (pa k) ?xs (lcar (?xs ! k) s)
        \<and> ncdrs g' ! Suc k = tr (pd k) ?xs (lcdr (?xs ! k) s)
        \<and> (pa k (lcar (?xs ! k) s) \<longrightarrow> lcar (?xs ! k) s \<in> set ?xs)
        \<and> (pd k (lcdr (?xs ! k) s) \<longrightarrow> lcdr (?xs ! k) s \<in> set ?xs)" if k: "k < length ?xs" for k
    proof (cases "k = ?n")
      case True
      then show ?thesis using b' len old(5,6) [of ?n] by (simp add: g'_def)
    next
      case False
      then have "k < ?n" using k by simp
      then show ?thesis using old [of k] by (auto simp: g'_def nth_append tr_append)
    qed
    have "distinct ?xs" "set ?xs \<subseteq> Collect (live s)" "nfree g' = Suc (length ?xs)"
        "length (ocars g') = LMAX" "length (ocdrs g') = LMAX" "length (ncars g') = LMAX" "length (ncdrs g') = LMAX"
      using i n l len by (auto simp: gc_inv_def g'_def)
    moreover have "\<forall>k \<ge> length ?xs. pa k = (\<lambda>_. False) \<and> pd k = (\<lambda>_. False)"
      using old(5,6) by simp
    ultimately show ?thesis unfolding gc_inv_def using work new by blast
  qed
  ultimately show ?thesis using f by auto
qed

lemma copy_step:
  assumes "heap_ok s" "gc_inv s pa pd xs g" "live s x"
  obtains g' where "copy x g = (fw (copied xs x) x, g')" "gc_inv s pa pd (copied xs x) g'"
proof (cases "x \<in> set xs")
  case True
  then show ?thesis using copy_known [OF assms(2) True assms(3)] assms(2) that by (simp add: copied_def)
next
  case False
  then show ?thesis using copy_new [OF assms(1,2) False assms(3)] that by (auto simp: copied_def)
qed

subsection \<open>One cell\<close>

lemma gc_inv_cell:
  assumes "gc_inv s pa pd xs g" "k < length xs"
  shows "ncars g ! Suc k = tr (pa k) xs (lcar (xs ! k) s)" "ncdrs g ! Suc k = tr (pd k) xs (lcdr (xs ! k) s)"
    "pa k (lcar (xs ! k) s) \<Longrightarrow> lcar (xs ! k) s \<in> set xs" "pd k (lcdr (xs ! k) s) \<Longrightarrow> lcdr (xs ! k) s \<in> set xs"
    "live s (xs ! k)"
  using assms(1) nth_mem [OF assms(2)] assms(2) unfolding gc_inv_def by blast+

text \<open>The phases: a half whose test is \<open>Q\<close> is visited by a pass with the test \<open>P\<close>.\<close>

definition phase :: "(u16 \<Rightarrow> bool) \<Rightarrow> (u16 \<Rightarrow> bool) \<Rightarrow> bool" where
  "phase Q P \<longleftrightarrow> (\<forall>v. P v \<longrightarrow> v \<noteq> 0 \<and> \<not> Q v)
     \<and> (\<forall>v xs. Q v \<and> v \<in> set xs \<and> length xs < LMAX \<longrightarrow> \<not> P (fw xs v))"

definition orelse :: "(u16 \<Rightarrow> bool) \<Rightarrow> (u16 \<Rightarrow> bool) \<Rightarrow> u16 \<Rightarrow> bool" where
  "orelse Q P = (\<lambda>v. Q v \<or> P v)"

lemma tr_test:
  assumes "phase Q P" "Q v \<Longrightarrow> v \<in> set xs" "length xs < LMAX"
  shows "P (tr Q xs v) \<longleftrightarrow> P v" "P v \<Longrightarrow> tr Q xs v = v"
  using assms by (auto simp: phase_def tr_def)

lemma car_step:
  assumes i: "gc_inv s pa pd xs g" and n: "length xs < LMAX" and k: "k < length xs"
    and v: "P (lcar (xs ! k) s) \<Longrightarrow> lcar (xs ! k) s \<in> set xs"
    and y: "y = tr (orelse (pa k) P) xs (lcar (xs ! k) s)"
  shows "gc_inv s (pa(k := orelse (pa k) P)) pd xs (g\<lparr>ncars := (ncars g)[Suc k := y]\<rparr>)"
  using i n k v y unfolding gc_inv_def by (auto simp: nth_list_update orelse_def)

lemma cdr_step:
  assumes i: "gc_inv s pa pd xs g" and n: "length xs < LMAX" and k: "k < length xs"
    and v: "P (lcdr (xs ! k) s) \<Longrightarrow> lcdr (xs ! k) s \<in> set xs"
    and y: "y = tr (orelse (pd k) P) xs (lcdr (xs ! k) s)"
  shows "gc_inv s pa (pd(k := orelse (pd k) P)) xs (g\<lparr>ncdrs := (ncdrs g)[Suc k := y]\<rparr>)"
  using i n k v y unfolding gc_inv_def by (auto simp: nth_list_update orelse_def)

text \<open>A half that fails the test is left as it is.\<close>

lemma car_skip:
  assumes "gc_inv s pa pd xs g" "k < length xs" "\<not> P (lcar (xs ! k) s)"
  shows "gc_inv s (pa(k := orelse (pa k) P)) pd xs g"
  using assms unfolding gc_inv_def by (auto simp: orelse_def tr_def)

lemma cdr_skip:
  assumes "gc_inv s pa pd xs g" "k < length xs" "\<not> P (lcdr (xs ! k) s)"
  shows "gc_inv s pa (pd(k := orelse (pd k) P)) xs g"
  using assms unfolding gc_inv_def by (auto simp: orelse_def tr_def)

definition more_copied :: "(u16 \<Rightarrow> bool) \<Rightarrow> u16 list \<Rightarrow> u16 list \<Rightarrow> bool" where
  "more_copied P xs xs' \<longleftrightarrow> (\<exists>ys. xs' = xs @ ys \<and> (\<forall>y \<in> set ys. P y))"

lemma more_copied_refl [simp]: "more_copied P xs xs"
  by (simp add: more_copied_def)

lemma more_copied_trans: "more_copied P xs ys \<Longrightarrow> more_copied P ys zs \<Longrightarrow> more_copied P xs zs"
  by (fastforce simp: more_copied_def)

lemma more_copied_copied: "P x \<Longrightarrow> more_copied P xs (copied xs x)"
  by (simp add: more_copied_def copied_def)

lemma more_copied_nth: "more_copied P xs xs' \<Longrightarrow> k < length xs \<Longrightarrow> xs' ! k = xs ! k \<and> k < length xs'"
  by (auto simp: more_copied_def nth_append)

lemma more_copied_set: "more_copied P xs xs' \<Longrightarrow> set xs \<subseteq> set xs'"
  by (auto simp: more_copied_def)

lemma more_copied_fw: "more_copied P xs xs' \<Longrightarrow> x \<in> set xs \<Longrightarrow> fw xs' x = fw xs x"
  by (auto simp: more_copied_def)

definition visit_car :: "(u16 \<Rightarrow> bool) \<Rightarrow> u16 \<Rightarrow> nat \<Rightarrow> gc \<Rightarrow> gc" where
  "visit_car P x k g = (if P x then case copy x g of (y, g) \<Rightarrow> g\<lparr>ncars := (ncars g)[k := y]\<rparr> else g)"

definition visit_cdr :: "(u16 \<Rightarrow> bool) \<Rightarrow> u16 \<Rightarrow> nat \<Rightarrow> gc \<Rightarrow> gc" where
  "visit_cdr P x k g = (if P x then case copy x g of (y, g) \<Rightarrow> g\<lparr>ncdrs := (ncdrs g)[k := y]\<rparr> else g)"

lemma gc_cell_visits:
  "gc_cell P k g = visit_cdr P (ncdrs g ! k) k (visit_car P (ncars g ! k) k g)"
  by (simp add: gc_cell_def visit_car_def visit_cdr_def Let_def)

lemma visit_car_inv:
  assumes h: "heap_ok s" and i: "gc_inv s pa pd xs g" and k: "k < length xs" "pairq (xs ! k)"
    and ph: "phase (pa k) P"
  shows "\<exists>xs'. more_copied P xs xs' \<and> (P (lcar (xs ! k) s) \<longrightarrow> lcar (xs ! k) s \<in> set xs')
    \<and> gc_inv s (pa(k := orelse (pa k) P)) pd xs' (visit_car P (ncars g ! Suc k) (Suc k) g)"
proof -
  let ?v = "lcar (xs ! k) s"
  note c = gc_inv_cell [OF i k(1)]
  have t: "P (ncars g ! Suc k) = P ?v" "P ?v \<Longrightarrow> ncars g ! Suc k = ?v"
    unfolding c(1) using tr_test [OF ph c(3) gc_inv_count [OF h i]] by auto
  show ?thesis
  proof (cases "P ?v")
    case False
    then show ?thesis using t car_skip [OF i k(1), of P] by (intro exI [of _ xs]) (simp add: visit_car_def)
  next
    case True
    then have z: "?v \<noteq> 0" using ph by (simp add: phase_def)
    from copy_step [OF h i live_car [OF c(5) k(2) z]]
    obtain g' where g': "copy ?v g = (fw (copied xs ?v) ?v, g')" "gc_inv s pa pd (copied xs ?v) g'" .
    have n: "(copied xs ?v) ! k = xs ! k" "k < length (copied xs ?v)"
      using more_copied_nth [OF more_copied_copied [of P, OF True] k(1)] by auto
    have "gc_inv s (pa(k := orelse (pa k) P)) pd (copied xs ?v)
        (g'\<lparr>ncars := (ncars g')[Suc k := fw (copied xs ?v) ?v]\<rparr>)"
      using n True by (intro car_step [OF g'(2) gc_inv_count [OF h g'(2)]]) (simp_all add: tr_def orelse_def)
    then have "gc_inv s (pa(k := orelse (pa k) P)) pd (copied xs ?v) (visit_car P (ncars g ! Suc k) (Suc k) g)"
      using True t g'(1) by (simp add: visit_car_def)
    then show ?thesis using more_copied_copied [of P, OF True] by (intro exI [of _ "copied xs ?v"]) simp
  qed
qed

lemma visit_cdr_inv:
  assumes h: "heap_ok s" and i: "gc_inv s pa pd xs g" and k: "k < length xs" "pairq (xs ! k)"
    and ph: "phase (pd k) P" and x: "P x = P (lcdr (xs ! k) s)" "P (lcdr (xs ! k) s) \<Longrightarrow> x = lcdr (xs ! k) s"
  shows "\<exists>xs'. more_copied P xs xs' \<and> (P (lcdr (xs ! k) s) \<longrightarrow> lcdr (xs ! k) s \<in> set xs')
    \<and> gc_inv s pa (pd(k := orelse (pd k) P)) xs' (visit_cdr P x (Suc k) g)"
proof -
  let ?v = "lcdr (xs ! k) s"
  note c = gc_inv_cell [OF i k(1)]
  show ?thesis
  proof (cases "P ?v")
    case False
    then show ?thesis using x cdr_skip [OF i k(1), of P] by (intro exI [of _ xs]) (simp add: visit_cdr_def)
  next
    case True
    then have z: "?v \<noteq> 0" using ph by (simp add: phase_def)
    from copy_step [OF h i live_cdr [OF c(5) k(2) z]]
    obtain g' where g': "copy ?v g = (fw (copied xs ?v) ?v, g')" "gc_inv s pa pd (copied xs ?v) g'" .
    have n: "(copied xs ?v) ! k = xs ! k" "k < length (copied xs ?v)"
      using more_copied_nth [OF more_copied_copied [of P, OF True] k(1)] by auto
    have "gc_inv s pa (pd(k := orelse (pd k) P)) (copied xs ?v)
        (g'\<lparr>ncdrs := (ncdrs g')[Suc k := fw (copied xs ?v) ?v]\<rparr>)"
      using n True by (intro cdr_step [OF g'(2) gc_inv_count [OF h g'(2)]]) (simp_all add: tr_def orelse_def)
    then have "gc_inv s pa (pd(k := orelse (pd k) P)) (copied xs ?v) (visit_cdr P x (Suc k) g)"
      using True x g'(1) by (simp add: visit_cdr_def)
    then show ?thesis using more_copied_copied [of P, OF True] by (intro exI [of _ "copied xs ?v"]) simp
  qed
qed

lemma gc_cell_inv:
  assumes h: "heap_ok s" and i: "gc_inv s pa pa xs g" and k: "k < length xs" "pairq (xs ! k)"
    and ph: "phase (pa k) P"
  shows "\<exists>xs'. more_copied P xs xs' \<and> gc_inv s (pa(k := orelse (pa k) P)) (pa(k := orelse (pa k) P)) xs' (gc_cell P (Suc k) g)"
proof -
  let ?p = "pa(k := orelse (pa k) P)" and ?g = "visit_car P (ncars g ! Suc k) (Suc k) g"
  obtain xs' where a: "more_copied P xs xs'" "gc_inv s ?p pa xs' ?g"
    using visit_car_inv [OF h i k ph] by auto
  have n: "k < length xs'" "xs' ! k = xs ! k" using more_copied_nth [OF a(1) k(1)] by auto
  note c = gc_inv_cell [OF i k(1)]
  have t: "P (ncdrs g ! Suc k) = P (lcdr (xs' ! k) s)"
      "P (lcdr (xs' ! k) s) \<Longrightarrow> ncdrs g ! Suc k = lcdr (xs' ! k) s"
    unfolding c(2) n(2) using tr_test [OF ph c(4) gc_inv_count [OF h i]] by auto
  obtain xs'' where b: "more_copied P xs' xs''" "gc_inv s ?p ?p xs'' (visit_cdr P (ncdrs g ! Suc k) (Suc k) ?g)"
    using visit_cdr_inv [OF h a(2) n(1) _ ph t] k(2) n(2) by auto
  show ?thesis using more_copied_trans [OF a(1) b(1)] b(2) by (auto simp: gc_cell_visits)
qed

subsection \<open>The passes\<close>

lemma phase_pairs: "phase (\<lambda>_. False) pairq"
  by (auto simp: phase_def)

lemma phase_atoms: "phase pairq atomq"
proof -
  have "\<not> atomq (fw xs v)" if v: "pairq v" "v \<in> set xs" "length xs < LMAX" for v xs
  proof -
    let ?n = "Suc (length (takeWhile (\<lambda>y. y \<noteq> v) xs))"
    have "?n < 4096" using fw_bound [OF v(2)] v(3) by (simp add: LMAX_def)
    then show ?thesis using v(1) by (auto simp: fw_def)
  qed
  then show ?thesis by (auto simp: phase_def atomq_def)
qed

lemma phase_stack: "phase (\<lambda>_. False) P \<longleftrightarrow> (\<forall>v. P v \<longrightarrow> v \<noteq> 0)"
  by (simp add: phase_def)

text \<open>Passes over the stack.\<close>

lemma gc_stack_inv:
  assumes h: "heap_ok s" and ph: "phase Q P"
  shows "\<lbrakk>gc_inv s pa pd xs g; \<forall>x \<in> set st. x = 0 \<or> live s x; \<forall>x \<in> set st. Q x \<longrightarrow> x \<in> set xs\<rbrakk>
    \<Longrightarrow> \<exists>xs' g'. gc_stack P (map (tr Q xs) st) g = (map (tr (orelse Q P) xs') st, g')
      \<and> more_copied P xs xs' \<and> gc_inv s pa pd xs' g' \<and> (\<forall>x \<in> set st. P x \<longrightarrow> x \<in> set xs')"
proof (induction st arbitrary: xs g)
  case Nil
  then show ?case by (intro exI [of _ xs] exI [of _ g]) simp
next
  case (Cons x st)
  note t = tr_test [OF ph, of x xs]
  have n: "length xs < LMAX" using gc_inv_count [OF h Cons.prems(1)] .
  have "\<exists>ys g1. (if P (tr Q xs x) then copy (tr Q xs x) g else (tr Q xs x, g)) = (tr (orelse Q P) ys x, g1)
      \<and> more_copied P xs ys \<and> gc_inv s pa pd ys g1 \<and> (P x \<longrightarrow> x \<in> set ys)"
  proof (cases "P x")
    case True
    then have "x \<noteq> 0" "\<not> Q x" using ph by (auto simp: phase_def)
    then have l: "live s x" using Cons.prems(2) by simp
    from copy_step [OF h Cons.prems(1) l]
    obtain g1 where "copy x g = (fw (copied xs x) x, g1)" "gc_inv s pa pd (copied xs x) g1" .
    then show ?thesis using t n True \<open>\<not> Q x\<close> more_copied_copied [of P x xs, OF True]
      by (intro exI [of _ "copied xs x"] exI [of _ g1]) (simp add: tr_def orelse_def)
  next
    case False
    then show ?thesis using t n Cons.prems
      by (intro exI [of _ xs] exI [of _ g]) (simp add: tr_def orelse_def)
  qed
  then obtain ys g1 where a: "(if P (tr Q xs x) then copy (tr Q xs x) g else (tr Q xs x, g)) = (tr (orelse Q P) ys x, g1)"
      "more_copied P xs ys" "gc_inv s pa pd ys g1" "P x \<longrightarrow> x \<in> set ys" by blast
  have "map (tr Q xs) st = map (tr Q ys) st"
    using Cons.prems(3) more_copied_fw [OF a(2)] by (simp add: tr_def)
  moreover have "\<forall>x \<in> set st. x = 0 \<or> live s x" "\<forall>x \<in> set st. Q x \<longrightarrow> x \<in> set ys"
    using Cons.prems(2,3) more_copied_set [OF a(2)] by auto
  ultimately obtain zs g2 where b: "gc_stack P (map (tr Q xs) st) g1 = (map (tr (orelse Q P) zs) st, g2)"
      "more_copied P ys zs" "gc_inv s pa pd zs g2" "\<forall>x \<in> set st. P x \<longrightarrow> x \<in> set zs"
    using Cons.IH [OF a(3)] by auto
  have "tr (orelse Q P) ys x = tr (orelse Q P) zs x"
    using Cons.prems(3) a(4) more_copied_set [OF a(2)] more_copied_fw [OF b(2)] by (auto simp: tr_def orelse_def)
  then show ?case
    using a b more_copied_trans [OF a(2) b(2)] more_copied_set [OF b(2)]
    by (intro exI [of _ zs] exI [of _ g2]) auto
qed

text \<open>The scan: the cells below \<open>nscan\<close> have been visited.\<close>

definition upto_phase :: "nat \<Rightarrow> nat \<Rightarrow> u16 \<Rightarrow> bool" where
  "upto_phase n k = (if k < n then pairq else (\<lambda>_. False))"

lemma upto_phase_step: "(upto_phase n)(n := orelse (upto_phase n n) pairq) = upto_phase (Suc n)"
  by (auto simp: upto_phase_def orelse_def fun_eq_iff less_Suc_eq)

lemma gc_scan_inv:
  assumes h: "heap_ok s"
  shows "\<lbrakk>gc_inv s (upto_phase k) (upto_phase k) xs g; \<forall>x \<in> set xs. pairq x; k \<le> length xs; LMAX < n + k\<rbrakk>
    \<Longrightarrow> \<exists>xs' g'. gc_scan n (Suc k) g = Ok (Suc (length xs'), g') \<and> more_copied pairq xs xs'
      \<and> gc_inv s (upto_phase (length xs')) (upto_phase (length xs')) xs' g'"
proof (induction n arbitrary: k xs g)
  case 0
  then show ?case using gc_inv_count [OF h 0(1)] by simp
next
  case (Suc n)
  have f: "nfree g = Suc (length xs)" using Suc.prems(1) by (simp add: gc_inv_def)
  show ?case
  proof (cases "k < length xs")
    case False
    then show ?thesis using Suc.prems f by (intro exI [of _ xs] exI [of _ g]) simp
  next
    case True
    have ph: "phase (upto_phase k k) pairq" by (simp add: upto_phase_def phase_pairs)
    obtain ys where a: "more_copied pairq xs ys" "gc_inv s (upto_phase (Suc k)) (upto_phase (Suc k)) ys (gc_cell pairq (Suc k) g)"
      using gc_cell_inv [OF h Suc.prems(1) True _ ph] Suc.prems(2) True by (auto simp: upto_phase_step)
    have "\<forall>x \<in> set ys. pairq x" using Suc.prems(2) a(1) by (auto simp: more_copied_def)
    moreover have "Suc k \<le> length ys" using more_copied_nth [OF a(1) True] by simp
    moreover have "LMAX < n + Suc k" using Suc.prems(4) by simp
    ultimately obtain zs g' where b: "gc_scan n (Suc (Suc k)) (gc_cell pairq (Suc k) g) = Ok (Suc (length zs), g')"
        "more_copied pairq ys zs" "gc_inv s (upto_phase (length zs)) (upto_phase (length zs)) zs g'"
      using Suc.IH [OF a(2)] by blast
    then show ?thesis using True f more_copied_trans [OF a(1) b(2)] by auto
  qed
qed

text \<open>The backward pass over the \<open>m\<close> pairs.\<close>

definition back_phase :: "nat \<Rightarrow> nat \<Rightarrow> nat \<Rightarrow> u16 \<Rightarrow> bool" where
  "back_phase m n k = (if k < n then pairq else if k < m then orelse pairq atomq else (\<lambda>_. False))"

lemma back_phase_step:
  "n < m \<Longrightarrow> (back_phase m (Suc n))(n := orelse (back_phase m (Suc n) n) atomq) = back_phase m n"
  by (auto simp: back_phase_def fun_eq_iff)

lemma back_phase_start: "back_phase m m = upto_phase m"
  by (auto simp: back_phase_def upto_phase_def fun_eq_iff)

lemma gc_back_inv:
  assumes h: "heap_ok s"
  shows "\<lbrakk>gc_inv s (back_phase m k) (back_phase m k) xs g; m \<le> length xs; \<forall>j < m. pairq (xs ! j); k \<le> m\<rbrakk>
    \<Longrightarrow> \<exists>xs'. more_copied atomq xs xs' \<and> gc_inv s (back_phase m 0) (back_phase m 0) xs' (gc_back k g)"
proof (induction k arbitrary: xs g)
  case 0
  then show ?case by (auto intro: exI [of _ xs])
next
  case (Suc k)
  have k: "k < length xs" "pairq (xs ! k)" "k < m" using Suc.prems by auto
  have ph: "phase (back_phase m (Suc k) k) atomq" by (simp add: back_phase_def phase_atoms)
  obtain ys where a: "more_copied atomq xs ys" "gc_inv s (back_phase m k) (back_phase m k) ys (gc_cell atomq (Suc k) g)"
    using gc_cell_inv [OF h Suc.prems(1) k(1,2) ph] by (auto simp: back_phase_step [OF k(3)])
  have "m \<le> length ys" "\<forall>j < m. pairq (ys ! j)"
    using a(1) Suc.prems(2,3) by (auto simp: more_copied_def nth_append)
  then obtain zs where "more_copied atomq ys zs" "gc_inv s (back_phase m 0) (back_phase m 0) zs (gc_back k (gc_cell atomq (Suc k) g))"
    using Suc.IH [OF a(2)] k(3) by auto
  then show ?case using more_copied_trans [OF a(1)] by auto
qed

subsection \<open>The collection\<close>

definition moved_heap :: "(u16 \<Rightarrow> u16) \<Rightarrow> lisp \<Rightarrow> lisp \<Rightarrow> bool" where
  "moved_heap f s s' \<longleftrightarrow>
     f 0 = 0 \<and> bij_betw (\<lambda>x. idx (f x)) (Collect (live s)) {1..<lfree s'} \<and> 0 < lfree s' \<and> lfree s' \<le> LMAX
     \<and> (\<forall>x. live s x \<longrightarrow>
          f x AND MASK_TAG = x AND MASK_TAG
          \<and> lcar (f x) s' = (if pairq x then f (lcar x s) else lcar x s)
          \<and> lcdr (f x) s' = (if pairq x then f (lcdr x s) else lcdr x s))
     \<and> s' = s\<lparr>lstack := map f (lstack s), lsymbols := f (lsymbols s), lenv := f (lenv s),
             lcars := lcars s', lcdrs := lcdrs s', lfree := lfree s'\<rparr>
     \<and> length (lcars s') = LMAX \<and> length (lcdrs s') = LMAX"

lemma position:
  assumes "distinct xs" "k < length xs"
  shows "length (takeWhile (\<lambda>y. y \<noteq> xs ! k) xs) = k"
  using assms
proof (induction xs arbitrary: k)
  case (Cons x xs)
  then show ?case by (cases k) (auto simp: nth_eq_iff_index_eq)
qed simp

lemma orelse_pairs: "orelse (\<lambda>_. False) pairq = pairq"
  by (simp add: orelse_def)

lemma tr_all: "tr (orelse pairq atomq) xs = fw xs"
  by (auto simp: tr_def orelse_def atomq_def fun_eq_iff)

lemma collect_phases:
  assumes h: "heap_ok s" and st: "st = lstack s @ [lsymbols s, lenv s]"
    and g: "g = \<lparr>ocars = lcars s, ocdrs = lcdrs s, ncars = replicate LMAX 0, ncdrs = replicate LMAX 0, nfree = 1\<rparr>"
  obtains st1 g1 m g2 g3 xs where
    "gc_stack pairq st g = (st1, g1)" "gc_scan (Suc LMAX) 1 g1 = Ok (Suc m, g2)"
    "gc_stack atomq st1 (gc_back m g2) = (map (fw xs) st, g3)"
    "gc_inv s (back_phase m 0) (back_phase m 0) xs g3" "m \<le> length xs"
    "\<forall>k < length xs. pairq (xs ! k) \<longleftrightarrow> k < m" "\<forall>x \<in> set st. x \<noteq> 0 \<longrightarrow> x \<in> set xs"
proof -
  have r: "\<forall>x \<in> set st. x = 0 \<or> live s x" using live_root by (auto simp: st)
  have "gc_inv s (upto_phase 0) (upto_phase 0) [] g"
    using h by (simp add: gc_inv_def g upto_phase_def heap_ok_def lcar_def lcdr_def)
  from gc_stack_inv [OF h phase_pairs this r]
  obtain xs1 g1 where a: "gc_stack pairq st g = (map (tr pairq xs1) st, g1)" "more_copied pairq [] xs1"
      "gc_inv s (upto_phase 0) (upto_phase 0) xs1 g1" "\<forall>x \<in> set st. pairq x \<longrightarrow> x \<in> set xs1"
    by (auto simp: orelse_pairs)
  have p1: "\<forall>x \<in> set xs1. pairq x" using a(2) by (auto simp: more_copied_def)
  from gc_scan_inv [OF h a(3) p1, of "Suc LMAX"]
  obtain xs2 g2 where b: "gc_scan (Suc LMAX) 1 g1 = Ok (Suc (length xs2), g2)" "more_copied pairq xs1 xs2"
      "gc_inv s (upto_phase (length xs2)) (upto_phase (length xs2)) xs2 g2" by auto
  let ?m = "length xs2"
  have p2: "\<forall>x \<in> set xs2. pairq x" using p1 b(2) by (auto simp: more_copied_def)
  from gc_back_inv [OF h, of ?m ?m xs2 g2]
  obtain xs3 where c: "more_copied atomq xs2 xs3" "gc_inv s (back_phase ?m 0) (back_phase ?m 0) xs3 (gc_back ?m g2)"
    using b(3) p2 by (auto simp: back_phase_start)
  have q3: "\<forall>x \<in> set st. pairq x \<longrightarrow> x \<in> set xs3" and f3: "map (tr pairq xs1) st = map (tr pairq xs3) st"
    using a(4) more_copied_set [OF b(2)] more_copied_set [OF c(1)] more_copied_fw [OF b(2)] more_copied_fw [OF c(1)]
    by (auto simp: tr_def)
  from gc_stack_inv [OF h phase_atoms c(2) r q3]
  obtain xs g3 where d: "gc_stack atomq (map (tr pairq xs1) st) (gc_back ?m g2) = (map (fw xs) st, g3)"
      "more_copied atomq xs3 xs" "gc_inv s (back_phase ?m 0) (back_phase ?m 0) xs g3" "\<forall>x \<in> set st. atomq x \<longrightarrow> x \<in> set xs"
    by (auto simp: tr_all f3)
  from more_copied_trans [OF c(1) d(2)] obtain ys where ys: "xs = xs2 @ ys" "\<forall>y \<in> set ys. atomq y"
    by (auto simp: more_copied_def)
  have "\<forall>k < length xs. pairq (xs ! k) \<longleftrightarrow> k < ?m"
  proof (intro allI impI)
    fix k assume k: "k < length xs"
    show "pairq (xs ! k) \<longleftrightarrow> k < ?m"
    proof (cases "k < ?m")
      case True
      then show ?thesis using p2 ys(1) by (simp add: nth_append)
    next
      case False
      then have "xs ! k \<in> set ys" using k ys(1) by (simp add: nth_append)
      then show ?thesis using ys(2) False by (auto simp: atomq_def)
    qed
  qed
  moreover have "\<forall>x \<in> set st. x \<noteq> 0 \<longrightarrow> x \<in> set xs"
    using q3 d(4) more_copied_set [OF d(2)] by (auto simp: atomq_def)
  ultimately show thesis using that [OF a(1) b(1) d(1,3)] ys(1) by simp
qed

lemma copied_all:
  assumes i: "gc_inv s (back_phase m 0) (back_phase m 0) xs g"
    and p: "\<forall>k < length xs. pairq (xs ! k) \<longleftrightarrow> k < m"
    and r: "\<forall>x \<in> set (lstack s @ [lsymbols s, lenv s]). x \<noteq> 0 \<longrightarrow> x \<in> set xs"
  shows "Collect (live s) = set xs"
proof -
  have c: "lcar x s \<noteq> 0 \<longrightarrow> lcar x s \<in> set xs" "lcdr x s \<noteq> 0 \<longrightarrow> lcdr x s \<in> set xs"
    if x: "x \<in> set xs" "pairq x" for x
  proof -
    obtain k where k: "k < length xs" "xs ! k = x" using x(1) by (auto simp: in_set_conv_nth)
    then have "k < m" using p x(2) by auto
    then have b: "back_phase m 0 k v \<longleftrightarrow> v \<noteq> 0" for v
      by (auto simp: back_phase_def orelse_def atomq_def)
    show "lcar x s \<noteq> 0 \<longrightarrow> lcar x s \<in> set xs" "lcdr x s \<noteq> 0 \<longrightarrow> lcdr x s \<in> set xs"
      using gc_inv_cell(3,4) [OF i k(1)] k(2) by (auto simp: b)
  qed
  have "x \<in> set xs" if "live s x" for x
    using that by (induction rule: live.induct) (use r c in auto)
  then show ?thesis using i by (auto simp: gc_inv_def)
qed

lemma garbage_runs:
  assumes "length (lstack s) + 2 \<le> LMAX"
    and "gc_stack pairq (lstack s @ [lsymbols s, lenv s])
           \<lparr>ocars = lcars s, ocdrs = lcdrs s, ncars = replicate LMAX 0, ncdrs = replicate LMAX 0, nfree = 1\<rparr> = (st1, g1)"
    and "gc_scan (Suc LMAX) 1 g1 = Ok (Suc m, g2)"
    and "gc_stack atomq st1 (gc_back m g2) = (map f (lstack s @ [lsymbols s, lenv s]), g3)"
  shows "garbage s = Ok (s\<lparr>lstack := map f (lstack s), lsymbols := f (lsymbols s), lenv := f (lenv s),
           lcars := ncars g3, lcdrs := ncdrs g3, lfree := nfree g3\<rparr>)"
  using assms by (simp add: garbage_def lpush_def lpop_def Let_def butlast_append del: gc_scan.simps One_nat_def)

lemma copied_image:
  assumes h: "heap_ok s" and i: "gc_inv s (back_phase m 0) (back_phase m 0) xs g"
    and p: "\<forall>k < length xs. pairq (xs ! k) \<longleftrightarrow> k < m"
    and l: "Collect (live s) = set xs" and m: "m \<le> length xs"
    and s': "s' = s\<lparr>lstack := map (fw xs) (lstack s), lsymbols := fw xs (lsymbols s), lenv := fw xs (lenv s),
           lcars := ncars g, lcdrs := ncdrs g, lfree := nfree g\<rparr>"
  shows "moved_heap (fw xs) s s'"
proof -
  have n: "length xs < LMAX" using gc_inv_count [OF h i] .
  have d: "distinct xs" "nfree g = Suc (length xs)" "length (ncars g) = LMAX" "length (ncdrs g) = LMAX"
    using i by (auto simp: gc_inv_def)
  have fk: "fw xs (xs ! k) = moved (xs ! k) (Suc k)" "idx (fw xs (xs ! k)) = Suc k"
      "fw xs (xs ! k) AND MASK_TAG = xs ! k AND MASK_TAG" if k: "k < length xs" for k
  proof -
    have "live s (xs ! k)" using l nth_mem [OF k] by blast
    then have "xs ! k \<noteq> 0" by (rule live_nonzero [OF h])
    moreover have "Suc k < 4096" using n k by (simp add: LMAX_def)
    ultimately show "fw xs (xs ! k) = moved (xs ! k) (Suc k)" "idx (fw xs (xs ! k)) = Suc k"
        "fw xs (xs ! k) AND MASK_TAG = xs ! k AND MASK_TAG"
      by (simp_all add: fw_def position [OF d(1) k] tag_moved)
  qed
  have cells: "lcar (fw xs (xs ! k)) s' = (if pairq (xs ! k) then fw xs (lcar (xs ! k) s) else lcar (xs ! k) s)"
      "lcdr (fw xs (xs ! k)) s' = (if pairq (xs ! k) then fw xs (lcdr (xs ! k) s) else lcdr (xs ! k) s)"
    if k: "k < length xs" for k
  proof -
    have b: "back_phase m 0 k = (if pairq (xs ! k) then orelse pairq atomq else (\<lambda>_. False))"
      using p k by (auto simp: back_phase_def)
    have "lcar (fw xs (xs ! k)) s' = ncars g ! Suc k" "lcdr (fw xs (xs ! k)) s' = ncdrs g ! Suc k"
      using fk(2) [OF k] by (simp_all add: lcar_def lcdr_def s')
    then show "lcar (fw xs (xs ! k)) s' = (if pairq (xs ! k) then fw xs (lcar (xs ! k) s) else lcar (xs ! k) s)"
        "lcdr (fw xs (xs ! k)) s' = (if pairq (xs ! k) then fw xs (lcdr (xs ! k) s) else lcdr (xs ! k) s)"
      using gc_inv_cell(1,2) [OF i k] by (auto simp: b tr_all)
  qed
  have bij: "bij_betw (\<lambda>x. idx (fw xs x)) (Collect (live s)) {1..<lfree s'}"
  proof (rule bij_betw_imageI)
    show "inj_on (\<lambda>x. idx (fw xs x)) (Collect (live s))"
      unfolding l by (auto simp: inj_on_def in_set_conv_nth fk(2))
    show "(\<lambda>x. idx (fw xs x)) ` Collect (live s) = {1..<lfree s'}"
    proof -
      have "set xs = (!) xs ` {0..<length xs}" by (simp add: nth_image)
      then have "(\<lambda>x. idx (fw xs x)) ` set xs = (\<lambda>k. idx (fw xs (xs ! k))) ` {0..<length xs}"
        by (metis image_image)
      also have "\<dots> = Suc ` {0..<length xs}" by (rule image_cong) (simp_all add: fk(2))
      finally have "(\<lambda>x. idx (fw xs x)) ` set xs = Suc ` {0..<length xs}" .
      then show ?thesis by (simp add: l s' d(2) image_Suc_atLeastLessThan)
    qed
  qed
  have "\<forall>x. live s x \<longrightarrow> fw xs x AND MASK_TAG = x AND MASK_TAG
      \<and> lcar (fw xs x) s' = (if pairq x then fw xs (lcar x s) else lcar x s)
      \<and> lcdr (fw xs x) s' = (if pairq x then fw xs (lcdr x s) else lcdr x s)"
  proof (intro allI impI)
    fix x assume "live s x"
    then have "x \<in> set xs" using l by blast
    then obtain k where "k < length xs" "x = xs ! k" by (auto simp: in_set_conv_nth)
    then show "fw xs x AND MASK_TAG = x AND MASK_TAG
      \<and> lcar (fw xs x) s' = (if pairq x then fw xs (lcar x s) else lcar x s)
      \<and> lcdr (fw xs x) s' = (if pairq x then fw xs (lcdr x s) else lcdr x s)"
      using fk(3) cells by simp
  qed
  then show ?thesis using bij n d by (simp add: moved_heap_def s')
qed

lemma garbage_moves:
  assumes h: "heap_ok s" and n: "length (lstack s) + 2 \<le> LMAX"
  shows "\<exists>f s'. garbage s = Ok s' \<and> moved_heap f s s'"
proof -
  let ?st = "lstack s @ [lsymbols s, lenv s]"
  let ?g = "\<lparr>ocars = lcars s, ocdrs = lcdrs s, ncars = replicate LMAX 0, ncdrs = replicate LMAX 0, nfree = 1\<rparr>"
  obtain st1 g1 m g2 g3 xs where a: "gc_stack pairq ?st ?g = (st1, g1)" "gc_scan (Suc LMAX) 1 g1 = Ok (Suc m, g2)"
      "gc_stack atomq st1 (gc_back m g2) = (map (fw xs) ?st, g3)"
      "gc_inv s (back_phase m 0) (back_phase m 0) xs g3" "m \<le> length xs"
      "\<forall>k < length xs. pairq (xs ! k) \<longleftrightarrow> k < m" "\<forall>x \<in> set ?st. x \<noteq> 0 \<longrightarrow> x \<in> set xs"
    by (rule collect_phases [OF h refl refl])
  show ?thesis
    using garbage_runs [OF n a(1-3)] copied_image [OF h a(4,6) copied_all [OF a(4,6,7)] a(5) refl]
    by blast
qed

text \<open>C10: When every reachable value has a cell of its own and no reachable cell looks marked, and the
  stack has room for the two roots, a collection ends; it moves the reachable values to the cells
  from 1 on without a gap and keeps their tags; numbers and names keep their contents and
  pairs point to the moved values; the stack, the symbol list and the environment are moved along.\<close>

theorem garbage_moves_the_heap:
  assumes "heap_ok s" and "length (lstack s) + 2 \<le> LMAX"
  shows "\<exists>f s'. garbage s = Ok s' \<and> moved_heap f s s'"
  using assms by (rule garbage_moves)

text \<open>A heap with the list of one number on the stack.\<close>

definition tiny_lisp :: lisp where
  "tiny_lisp =
     \<lparr>lcars = (replicate LMAX 0)[3 := 0x1005], lcdrs = (replicate LMAX 0)[5 := 42], lfree = 6, lstack = [0x4003],
      lsymbols = 0, lenv = 0, lnames = [], lout = [], ltoken = 0, lten = 0, lstart = 0\<rparr>"

lemma tiny_live: "live tiny_lisp x \<Longrightarrow> x = 0x4003 \<or> x = 0x1005"
  by (induction rule: live.induct)
    (auto simp: tiny_lisp_def lcar_def lcdr_def idx_def MASK_INDEX_def LMAX_def pairq_def TAG_PAIR_def)

lemma tiny_ok: "heap_ok tiny_lisp"
proof -
  have "live tiny_lisp x \<Longrightarrow> 0 < idx x \<and> idx x < LMAX \<and> lcar x tiny_lisp \<noteq> TAG_MARK" for x
    by (drule tiny_live)
      (auto simp: tiny_lisp_def lcar_def idx_def MASK_INDEX_def LMAX_def TAG_MARK_def)
  moreover have "inj_on idx (Collect (live tiny_lisp))"
    by (rule inj_onI) (auto dest!: tiny_live simp: idx_def MASK_INDEX_def)
  ultimately show ?thesis by (simp add: heap_ok_def) (simp add: tiny_lisp_def)
qed

lemma garbage_moves_the_heap_witness:
  "\<exists>f s'. garbage tiny_lisp = Ok s' \<and> moved_heap f tiny_lisp s'"
  by (rule garbage_moves_the_heap [OF tiny_ok]) (simp add: tiny_lisp_def LMAX_def)

subsection \<open>The heap afterwards\<close>

lemma moved_stack:
  assumes m: "moved_heap f s s'"
  shows "lstack s' = map f (lstack s)" "lsymbols s' = f (lsymbols s)" "lenv s' = f (lenv s)"
proof -
  have e: "s' = s\<lparr>lstack := map f (lstack s), lsymbols := f (lsymbols s), lenv := f (lenv s),
      lcars := lcars s', lcdrs := lcdrs s', lfree := lfree s'\<rparr>"
    using m by (simp add: moved_heap_def)
  show "lstack s' = map f (lstack s)" "lsymbols s' = f (lsymbols s)" "lenv s' = f (lenv s)"
    using arg_cong [OF e, of lstack] arg_cong [OF e, of lsymbols] arg_cong [OF e, of lenv] by simp_all
qed

lemma moved_live:
  assumes m: "moved_heap f s s'"
  shows "live s' y \<longleftrightarrow> (\<exists>x. live s x \<and> y = f x)"
proof -
  have f0: "f 0 = 0" using m by (simp add: moved_heap_def)
  note st = moved_stack [OF m]
  have nz: "f x \<noteq> 0" if "live s x" for x
  proof -
    have "idx (f x) \<in> {1..<lfree s'}" using m that by (auto simp: moved_heap_def bij_betw_def)
    then show ?thesis by (auto simp: idx_def)
  qed
  have pq: "pairq (f x) = pairq x" if "live s x" for x
    using m that by (simp add: moved_heap_def pairq_by_tag)
  have c: "lcar (f x) s' = f (lcar x s)" "lcdr (f x) s' = f (lcdr x s)" if "live s x" "pairq x" for x
    using m that by (auto simp: moved_heap_def)
  show ?thesis
  proof
    show "live s' y \<Longrightarrow> \<exists>x. live s x \<and> y = f x"
    proof (induction rule: live.induct)
      case (live_root y)
      then obtain x where x: "x \<in> set (lstack s @ [lsymbols s, lenv s])" "y = f x" by (auto simp: st)
      moreover have "x \<noteq> 0" using x live_root f0 by auto
      ultimately show ?case using live.live_root by blast
    next
      case (live_car p)
      then obtain x where x: "live s x" "p = f x" by blast
      then show ?case using live_car pq c f0 by (intro exI [of _ "lcar x s"]) (auto intro: live.live_car)
    next
      case (live_cdr p)
      then obtain x where x: "live s x" "p = f x" by blast
      then show ?case using live_cdr pq c f0 by (intro exI [of _ "lcdr x s"]) (auto intro: live.live_cdr)
    qed
    have "live s' (f x)" if "live s x" for x
      using that
    proof (induction rule: live.induct)
      case (live_root x)
      then have "f x \<in> set (lstack s' @ [lsymbols s', lenv s'])" by (auto simp: st)
      then show ?case using nz live.live_root live_root by blast
    next
      case (live_car p)
      then show ?case using live.live_car [of s' "f p"] nz [OF live.live_car [of s p]] pq c by auto
    next
      case (live_cdr p)
      then show ?case using live.live_cdr [of s' "f p"] nz [OF live.live_cdr [of s p]] pq c by auto
    qed
    then show "\<exists>x. live s x \<and> y = f x \<Longrightarrow> live s' y" by blast
  qed
qed

lemma moved_heap_ok:
  assumes h: "heap_ok s" and m: "moved_heap f s s'"
  shows "heap_ok s'"
proof -
  note l = moved_live [OF m]
  have b: "idx (f x) \<in> {1..<lfree s'}" if "live s x" for x
    using m that by (auto simp: moved_heap_def bij_betw_def)
  have f0: "f 0 = 0" and le: "lfree s' \<le> LMAX" using m by (auto simp: moved_heap_def)
  have gc_mark: "idx TAG_MARK = 0" "TAG_MARK \<noteq> 0" by (simp_all add: TAG_MARK_def idx_def MASK_INDEX_def)
  have nm: "lcar (f x) s' \<noteq> TAG_MARK" if x: "live s x" for x
  proof (cases "pairq x")
    case True
    then have c: "lcar (f x) s' = f (lcar x s)" using m x by (simp add: moved_heap_def)
    show ?thesis
    proof (cases "lcar x s = 0")
      case True
      then show ?thesis using c f0 gc_mark by simp
    next
      case False
      then show ?thesis using c b [OF live_car [OF x \<open>pairq x\<close>]] gc_mark by auto
    qed
  next
    case False
    then show ?thesis using m x h by (simp add: moved_heap_def heap_ok_def)
  qed
  have "inj_on (\<lambda>x. idx (f x)) (Collect (live s))" using m by (simp add: moved_heap_def bij_betw_def)
  then have "inj_on idx (Collect (live s'))" by (auto simp: inj_on_def l)
  moreover have "0 < idx y \<and> idx y < LMAX \<and> lcar y s' \<noteq> TAG_MARK" if "live s' y" for y
    using that b nm le by (force simp: l)
  ultimately show ?thesis using m by (auto simp: heap_ok_def moved_heap_def)
qed

text \<open>A collection leaves a heap that the next one can collect, with exactly one cell for every
  value that was reachable and all others free.\<close>

theorem garbage_keeps_the_heap:
  assumes h: "heap_ok s" and g: "garbage s = Ok s'" and n: "length (lstack s) + 2 \<le> LMAX"
  shows "heap_ok s' \<and> lfree s' = Suc (card (Collect (live s))) \<and> length (lstack s') = length (lstack s)"
proof -
  obtain f where m: "moved_heap f s s'" using garbage_moves [OF h n] g by auto
  then have "bij_betw (\<lambda>x. idx (f x)) (Collect (live s)) {1..<lfree s'}" "0 < lfree s'"
    by (simp_all add: moved_heap_def)
  then have "lfree s' = Suc (card (Collect (live s)))" by (auto dest!: bij_betw_same_card)
  moreover have "length (lstack s') = length (lstack s)" using moved_stack [OF m] by simp
  ultimately show ?thesis using moved_heap_ok [OF h m] by simp
qed

lemma garbage_keeps_the_heap_witness:
  "\<exists>s'. garbage tiny_lisp = Ok s' \<and> heap_ok s' \<and> lfree s' = Suc (card (Collect (live tiny_lisp)))
    \<and> length (lstack s') = length (lstack tiny_lisp)"
proof -
  have n: "length (lstack tiny_lisp) + 2 \<le> LMAX" by (simp add: tiny_lisp_def LMAX_def)
  obtain s' where "garbage tiny_lisp = Ok s'" using garbage_moves [OF tiny_ok n] by blast
  then show ?thesis using garbage_keeps_the_heap [OF tiny_ok _ n] by blast
qed

end
