(* ===== verification/User_Malloc.thy ===== *)
theory User_Malloc
  imports Xv6_Prelude
begin

text \<open>
  The allocator of the user programs (\<open>user/umalloc.c\<close>), after Kernighan and Ritchie: a ring of free
  blocks in the order of their addresses, each with a header of two words in front, starting from
  the static header \<open>base\<close>. Memory is bytes, so a header shares it with the data of other blocks.
  \<open>sbrk\<close> is the kernel's answer \<open>K old_break n\<close>; its result is the old break. The loops are partial
  functions; that they end is part of the theorems. These show that the free blocks and the blocks
  handed out always divide the heap among them, that neighbouring free blocks are joined, and that
  the contents of a block handed out are never touched.
\<close>

subsection \<open>The program\<close>

record uheap =
  hmem :: mem
  freep :: u32
  hbrk :: u32

definition hptr :: "uheap \<Rightarrow> u32 \<Rightarrow> u32" where "hptr s p = load32 (hmem s) p"
definition hsize :: "uheap \<Rightarrow> u32 \<Rightarrow> u32" where "hsize s p = load32 (hmem s) (p + 4)"

definition set_ptr :: "u32 \<Rightarrow> u32 \<Rightarrow> uheap \<Rightarrow> uheap" where
  "set_ptr p v s = s\<lparr>hmem := store32 (hmem s) p v\<rparr>"
definition set_hsize :: "u32 \<Rightarrow> u32 \<Rightarrow> uheap \<Rightarrow> uheap" where
  "set_hsize p v s = s\<lparr>hmem := store32 (hmem s) (p + 4) v\<rparr>"

definition HEADER :: u32 where "HEADER = 8"

text \<open>The loop of \<open>free\<close>.\<close>

partial_function (option) free_find :: "uheap \<Rightarrow> u32 \<Rightarrow> u32 \<Rightarrow> u32 option" where
  "free_find s bp p =
     (if bp > p \<and> bp < hptr s p then Some p
      else if p \<ge> hptr s p \<and> (bp > p \<or> bp < hptr s p) then Some p
      else free_find s bp (hptr s p))"

definition free_link :: "u32 \<Rightarrow> u32 \<Rightarrow> uheap \<Rightarrow> uheap" where
  "free_link bp p s =
     (let s = (if bp + HEADER * hsize s bp = hptr s p
               then let s = set_hsize bp (hsize s bp + hsize s (hptr s p)) s
                    in set_ptr bp (hptr s (hptr s p)) s
               else set_ptr bp (hptr s p) s);
          s = (if p + HEADER * hsize s p = bp
               then let s = set_hsize p (hsize s p + hsize s bp) s in set_ptr p (hptr s bp) s
               else set_ptr p bp s)
      in s\<lparr>freep := p\<rparr>)"

definition ufree :: "u32 \<Rightarrow> uheap \<Rightarrow> uheap option" where
  "ufree ap s =
     (let bp = ap - HEADER
      in case free_find s bp (freep s) of None \<Rightarrow> None | Some p \<Rightarrow> Some (free_link bp p s))"

definition morecore :: "(u32 \<Rightarrow> u32 \<Rightarrow> bool) \<Rightarrow> u32 \<Rightarrow> uheap \<Rightarrow> (u32 \<times> uheap) option" where
  "morecore K nu s =
     (let nu = (if nu < 4096 then 4096 else nu); hp = hbrk s
      in if \<not> K hp (nu * HEADER) then Some (0, s)
         else case ufree (hp + HEADER) (set_hsize hp nu (s\<lparr>hbrk := hbrk s + nu * HEADER\<rparr>)) of
                None \<Rightarrow> None
              | Some s \<Rightarrow> Some (freep s, s))"

text \<open>The block \<open>p\<close> after \<open>prevp\<close> is large enough.\<close>

definition take_block :: "u32 \<Rightarrow> u32 \<Rightarrow> u32 \<Rightarrow> uheap \<Rightarrow> u32 \<times> uheap" where
  "take_block nunits prevp p s =
     (if hsize s p = nunits then (p + HEADER, (set_ptr prevp (hptr s p) s)\<lparr>freep := prevp\<rparr>)
      else
        let s = set_hsize p (hsize s p - nunits) s; p = p + HEADER * hsize s p
        in (p + HEADER, (set_hsize p nunits s)\<lparr>freep := prevp\<rparr>))"

partial_function (option) malloc_from ::
  "(u32 \<Rightarrow> u32 \<Rightarrow> bool) \<Rightarrow> u32 \<Rightarrow> uheap \<Rightarrow> u32 \<Rightarrow> u32 \<Rightarrow> (u32 \<times> uheap) option" where
  "malloc_from K nunits s prevp p =
     (if nunits \<le> hsize s p then Some (take_block nunits prevp p s)
      else if p = freep s then
        Option.bind (morecore K nunits s) (\<lambda>r.
          if fst r = 0 then Some (0, snd r)
          else malloc_from K nunits (snd r) (fst r) (hptr (snd r) (fst r)))
      else malloc_from K nunits s p (hptr s p))"

definition units_for :: "u32 \<Rightarrow> u32" where
  "units_for nbytes = (nbytes + HEADER - 1) div HEADER + 1"

definition umalloc :: "u32 \<Rightarrow> (u32 \<Rightarrow> u32 \<Rightarrow> bool) \<Rightarrow> u32 \<Rightarrow> uheap \<Rightarrow> (u32 \<times> uheap) option" where
  "umalloc base K nbytes s =
     (let s = (if freep s = 0 then set_hsize base 0 ((set_ptr base base s)\<lparr>freep := base\<rparr>) else s)
      in malloc_from K (units_for nbytes) s (freep s) (hptr s (freep s)))"

subsection \<open>Headers in memory\<close>

text \<open>Addresses are natural numbers here; a block is its address and its number of units.\<close>

type_synonym block = "nat \<times> nat"

definition adr :: "nat \<Rightarrow> u32" where "adr a = of_nat a"

definition ext :: "block \<Rightarrow> nat set" where "ext b = {fst b ..< fst b + 8 * snd b}"

lemma unat_adr: "a < 2 ^ 32 \<Longrightarrow> unat (adr a) = a"
  by (simp add: adr_def unat_of_nat_eq)

lemma adr_unat [simp]: "adr (unat w) = w"
  by (simp add: adr_def)

lemma adr_less: "a < 2 ^ 32 \<Longrightarrow> b < 2 ^ 32 \<Longrightarrow> (adr a < adr b) = (a < b)"
  by (simp add: word_less_nat_alt unat_adr)

lemma adr_le: "a < 2 ^ 32 \<Longrightarrow> b < 2 ^ 32 \<Longrightarrow> (adr a \<le> adr b) = (a \<le> b)"
  by (simp add: word_le_nat_alt unat_adr)

lemma adr_eq: "a < 2 ^ 32 \<Longrightarrow> b < 2 ^ 32 \<Longrightarrow> (adr a = adr b) = (a = b)"
  by (metis unat_adr)

lemma adr_add [simp]: "adr a + adr b = adr (a + b)" "adr a + HEADER - HEADER = adr a"
    "adr (a + 8) - HEADER = adr a" "adr a + HEADER = adr (a + 8)" "adr a + HEADER * adr n = adr (a + 8 * n)" "adr a + 4 = adr (a + 4)"
  by (simp_all add: adr_def HEADER_def)

text \<open>The header at \<open>a\<close> holds the link \<open>q\<close> and the size \<open>n\<close>.\<close>

definition header :: "uheap \<Rightarrow> nat \<Rightarrow> nat \<Rightarrow> nat \<Rightarrow> bool" where
  "header s a q n \<longleftrightarrow> hptr s (adr a) = adr q \<and> hsize s (adr a) = adr n"

lemma apart_adr:
  assumes "a + 4 \<le> b \<or> b + 4 \<le> a" "a + 4 \<le> 2 ^ 32" "b + 4 \<le> 2 ^ 32"
  shows "apart4 (adr a) (adr b)"
proof -
  have "unat (adr a) = a" "unat (adr b) = b" using assms by (simp_all add: unat_adr)
  then show ?thesis using assms unfolding apart4_def unat_sub_eq by (auto simp: adr_le)
qed

definition off :: "nat \<Rightarrow> nat \<Rightarrow> bool" where
  "off a b \<longleftrightarrow> (a + 8 \<le> b \<or> b + 8 \<le> a) \<and> a + 8 \<le> 2 ^ 32 \<and> b + 8 \<le> 2 ^ 32"

lemma off_sym: "off a b = off b a"
  by (auto simp: off_def)

lemma hptr_set_ptr [simp]: "hptr (set_ptr p v s) p = v"
  by (simp add: hptr_def set_ptr_def)

lemma hsize_set_hsize [simp]: "hsize (set_hsize p v s) p = v"
  by (simp add: hsize_def set_hsize_def)

lemma self_apart: "a + 8 \<le> 2 ^ 32 \<Longrightarrow> apart4 (adr a) (adr (a + 4))"
  by (rule apart_adr) simp_all

lemma hsize_set_ptr [simp]: "a + 8 \<le> 2 ^ 32 \<Longrightarrow> hsize (set_ptr (adr a) v s) (adr a) = hsize s (adr a)"
  using load32_store32_apart [OF self_apart [of a]] by (simp add: hsize_def set_ptr_def)

lemma hptr_set_hsize [simp]: "a + 8 \<le> 2 ^ 32 \<Longrightarrow> hptr (set_hsize (adr a) v s) (adr a) = hptr s (adr a)"
  using load32_store32_apart [of "adr (a + 4)" "adr a"] self_apart [of a]
  by (simp add: hptr_def set_hsize_def apart4_def)

lemma off_apart:
  assumes "off a b"
  shows "apart4 (adr a) (adr b)" "apart4 (adr a) (adr (b + 4))" "apart4 (adr (a + 4)) (adr b)"
    "apart4 (adr (a + 4)) (adr (b + 4))"
  using assms unfolding off_def by (intro apart_adr; simp; linarith)+

lemma header_other:
  assumes "off a b"
  shows "hptr (set_ptr (adr a) v s) (adr b) = hptr s (adr b)" "hsize (set_ptr (adr a) v s) (adr b) = hsize s (adr b)"
    "hptr (set_hsize (adr a) v s) (adr b) = hptr s (adr b)" "hsize (set_hsize (adr a) v s) (adr b) = hsize s (adr b)"
  using off_apart [OF assms]
  by (simp_all add: hptr_def hsize_def set_ptr_def set_hsize_def load32_store32_apart)

lemma set_fields [simp]:
  "freep (set_ptr p v s) = freep s" "hbrk (set_ptr p v s) = hbrk s"
  "freep (set_hsize p v s) = freep s" "hbrk (set_hsize p v s) = hbrk s"
  "hptr (s\<lparr>freep := f\<rparr>) = hptr s" "hsize (s\<lparr>freep := f\<rparr>) = hsize s"
  "hptr (s\<lparr>hbrk := e\<rparr>) = hptr s" "hsize (s\<lparr>hbrk := e\<rparr>) = hsize s"
  by (simp_all add: set_ptr_def set_hsize_def hptr_def hsize_def fun_eq_iff)

subsection \<open>The ring\<close>

definition nxt :: "nat \<Rightarrow> block list \<Rightarrow> nat" where
  "nxt z bs = (case bs of [] \<Rightarrow> z | b # _ \<Rightarrow> fst b)"

primrec links :: "uheap \<Rightarrow> nat \<Rightarrow> block list \<Rightarrow> bool" where
  "links s z [] = True"
| "links s z (b # bs) = (header s (fst b) (nxt z bs) (snd b) \<and> links s z bs)"

definition chain :: "block list \<Rightarrow> bool" where
  "chain = sorted_wrt (\<lambda>x y. fst x + 8 * snd x < fst y)"

definition area :: "block set \<Rightarrow> nat set" where "area bs = (\<Union>b \<in> bs. ext b)"

lemma nxt_simps [simp]: "nxt z [] = z" "nxt z (b # bs) = fst b" "nxt z (xs @ y # ys) = nxt (fst y) xs"
  by (simp_all add: nxt_def split: list.split)

lemma links_append: "links s z (xs @ ys) \<longleftrightarrow> links s (nxt z ys) xs \<and> links s z ys"
  by (induction xs) (auto simp: nxt_def split: list.splits)

lemma links_frame:
  assumes "\<And>b. b \<in> set bs \<Longrightarrow> hptr s' (adr (fst b)) = hptr s (adr (fst b)) \<and> hsize s' (adr (fst b)) = hsize s (adr (fst b))"
  shows "links s' z bs = links s z bs"
  using assms by (induction bs) (auto simp: header_def)

lemma chain_append:
  "chain (xs @ ys) \<longleftrightarrow> chain xs \<and> chain ys \<and> (\<forall>x \<in> set xs. \<forall>y \<in> set ys. fst x + 8 * snd x < fst y)"
  by (simp add: chain_def sorted_wrt_append)

lemma chain_Cons: "chain (x # xs) \<longleftrightarrow> (\<forall>y \<in> set xs. fst x + 8 * snd x < fst y) \<and> chain xs"
  by (simp add: chain_def)

lemma chain_Nil [simp]: "chain []"
  by (simp add: chain_def)

lemma area_simps [simp]:
  "area {} = {}" "area (insert b bs) = ext b \<union> area bs" "area (xs \<union> ys) = area xs \<union> area ys"
  by (auto simp: area_def)

lemma ext_join: "ext (a, n) \<union> ext (a + 8 * n, k) = ext (a, n + k)"
  by (auto simp: ext_def)

lemma apart_blocks:
  assumes "ext x \<inter> ext y = {}" "0 < snd x" "0 < snd y"
  shows "fst x + 8 * snd x \<le> fst y \<or> fst y + 8 * snd y \<le> fst x"
proof (rule ccontr)
  assume "\<not> ?thesis"
  then have "max (fst x) (fst y) \<in> ext x \<inter> ext y" using assms by (auto simp: ext_def)
  then show False using assms by simp
qed

subsection \<open>Finding the place of a block\<close>

lemma free_find_step:
  assumes "\<not> (bp > p \<and> bp < hptr s p)" "\<not> (p \<ge> hptr s p \<and> (bp > p \<or> bp < hptr s p))"
  shows "free_find s bp p = free_find s bp (hptr s p)"
  by (subst free_find.simps) (simp only: assms if_False)

lemma free_find_before:
  assumes "links s z (us @ p # post)" "chain (us @ p # post)" "fst p < b" "\<forall>y \<in> set post. b < fst y"
    "\<forall>y \<in> set (us @ p # post). fst y < 2 ^ 32" "b < 2 ^ 32" "z \<le> nxt (fst p) us"
  shows "free_find s (adr b) (adr (nxt (fst p) us)) = Some (adr (fst p))"
  using assms
proof (induction us arbitrary: z)
  case Nil
  have h: "hptr s (adr (fst p)) = adr (nxt z post)" using Nil(1) by (simp add: header_def)
  show ?case
  proof (cases post)
    case Nil
    then show ?thesis using h assms(3,5,6) Nil.prems(7)
      by (subst free_find.simps) (simp add: adr_less adr_le)
  next
    case (Cons y ys)
    then show ?thesis using h Nil.prems
      by (subst free_find.simps) (simp add: adr_less adr_le)
  qed
next
  case (Cons u us)
  let ?v = "nxt (fst p) us"
  have h: "hptr s (adr (fst u)) = adr ?v" using Cons.prems(1) by (simp add: header_def)
  have v: "fst u < ?v" "?v \<le> fst p" "?v < 2 ^ 32" "fst u < 2 ^ 32"
    using Cons.prems(2,5) by (auto simp: nxt_def chain_Cons chain_append split: list.split)
  then have "free_find s (adr b) (adr (fst u)) = free_find s (adr b) (adr ?v)"
    using Cons.prems(3,6) h by (subst free_find_step) (simp_all add: adr_less adr_le)
  moreover have "free_find s (adr b) (adr ?v) = Some (adr (fst p))"
    using Cons.prems v by (intro Cons.IH [of z]) (auto simp: chain_Cons links_append)
  ultimately show ?case by simp
qed

lemma free_find_after:
  assumes "links s z ws" "chain ws" "\<forall>y \<in> set ws. b < fst y \<and> fst y < 2 ^ 32" "z < b" "b < 2 ^ 32"
    "free_find s (adr b) (adr z) = r"
  shows "free_find s (adr b) (adr (nxt z ws)) = r"
  using assms
proof (induction ws)
  case (Cons w ws)
  have h: "hptr s (adr (fst w)) = adr (nxt z ws)" using Cons.prems(1) by (simp add: header_def)
  have "free_find s (adr b) (adr (fst w)) = free_find s (adr b) (adr (nxt z ws))"
    using h Cons.prems(2-5)
    by (subst free_find_step) (auto simp: adr_less adr_le nxt_def chain_Cons split: list.splits)
  then show ?case using Cons by (simp add: chain_Cons)
qed simp

lemma free_find_pred:
  assumes l: "links s (fst c) (c # bs)" "chain (c # bs)" and L: "c # bs = pre @ p # post"
    and b: "fst p < b" "\<forall>y \<in> set post. b < fst y" "b < 2 ^ 32"
    and w: "\<forall>y \<in> set (c # bs). fst y < 2 ^ 32" and q: "q \<in> set (c # bs)"
  shows "free_find s (adr b) (adr (fst q)) = Some (adr (fst p))"
proof -
  have "\<forall>x \<in> set (c # bs). fst c \<le> fst x" using l(2) by (auto simp: chain_Cons)
  moreover have "nxt (fst p) pre = fst c" using L by (cases pre) auto
  ultimately have c: "nxt (fst p) pre = fst c" "\<forall>x \<in> set (c # bs). fst c \<le> fst x" by auto
  have r: "free_find s (adr b) (adr (fst c)) = Some (adr (fst p))"
    using free_find_before [of s "fst c" pre p post b] l w b c(1) unfolding L by simp
  consider (pre) us vs where "pre = us @ q # vs" | (eq) "q = p" | (post) us vs where "post = us @ q # vs"
    using q unfolding L by (auto simp: in_set_conv_decomp [of q pre] in_set_conv_decomp [of q post])
  then show ?thesis
  proof cases
    case pre
    have "free_find s (adr b) (adr (nxt (fst p) (q # vs))) = Some (adr (fst p))"
      using l w b c(2) unfolding L pre
      by (intro free_find_before [where z = "fst c" and post = post]) (auto simp: links_append chain_append chain_Cons)
    then show ?thesis by simp
  next
    case eq
    have "free_find s (adr b) (adr (nxt (fst p) [])) = Some (adr (fst p))"
      using l w b c(2) unfolding L
      by (intro free_find_before [where z = "fst c" and post = post]) (auto simp: links_append chain_append chain_Cons)
    then show ?thesis using eq by simp
  next
    case post
    have "fst c < b" using c(2) b(1) L by fastforce
    then have "free_find s (adr b) (adr (nxt (fst c) (q # vs))) = Some (adr (fst p))"
      using l w b r unfolding L post
      by (intro free_find_after) (auto simp: links_append chain_append chain_Cons)
    then show ?thesis by simp
  qed
qed

subsection \<open>The invariant\<close>

text \<open>
  \<open>fs\<close> are the free blocks in the order of their addresses, \<open>A\<close> the blocks handed out: together they are
  the heap between its start \<open>lo\<close> and the break, without overlap, and no two free blocks touch.
\<close>

definition heap_inv :: "nat \<Rightarrow> nat \<Rightarrow> block list \<Rightarrow> block set \<Rightarrow> uheap \<Rightarrow> bool" where
  "heap_inv B lo fs A s \<longleftrightarrow>
     0 < B \<and> B + 8 \<le> lo \<and> lo \<le> unat (hbrk s)
     \<and> chain fs \<and> (\<forall>b \<in> set fs \<union> A. 0 < snd b)
     \<and> (\<forall>y \<in> A. ext y \<inter> area (set fs) = {}) \<and> (\<forall>x \<in> A. \<forall>y \<in> A. x \<noteq> y \<longrightarrow> ext x \<inter> ext y = {})
     \<and> area (set fs) \<union> area A = {lo..<unat (hbrk s)}
     \<and> links s B ((B, 0) # fs) \<and> (\<forall>b \<in> A. hsize s (adr (fst b)) = adr (snd b))
     \<and> freep s \<in> adr ` fst ` set ((B, 0) # fs)"

lemma heap_bounds:
  assumes i: "heap_inv B lo fs A s" and b: "b \<in> set fs \<union> A"
  shows "lo \<le> fst b" "fst b + 8 * snd b \<le> unat (hbrk s)" "0 < snd b" "B + 8 \<le> fst b" "fst b + 8 * snd b < 2 ^ 32"
    "snd b < 2 ^ 32"
proof -
  have p: "0 < snd b" using i b by (simp add: heap_inv_def)
  have "ext b \<subseteq> {lo..<unat (hbrk s)}" using i b by (auto simp: heap_inv_def area_def)
  moreover have "fst b \<in> ext b" "fst b + 8 * snd b - 1 \<in> ext b" using p by (auto simp: ext_def)
  ultimately have "fst b \<in> {lo..<unat (hbrk s)}" "fst b + 8 * snd b - 1 \<in> {lo..<unat (hbrk s)}" by blast+
  then show "lo \<le> fst b" "fst b + 8 * snd b \<le> unat (hbrk s)" by auto
  then show "B + 8 \<le> fst b" using i by (simp add: heap_inv_def)
  show "fst b + 8 * snd b < 2 ^ 32"
    by (rule le_less_trans [OF \<open>fst b + 8 * snd b \<le> unat (hbrk s)\<close> unat_u32_lt])
  then show "snd b < 2 ^ 32" by simp
  show "0 < snd b" by (rule p)
qed

lemma chain_ext: "chain fs \<Longrightarrow> x \<in> set fs \<Longrightarrow> y \<in> set fs \<Longrightarrow> x \<noteq> y \<Longrightarrow> ext x \<inter> ext y = {}"
  by (induction fs) (fastforce simp: chain_Cons ext_def)+

lemma heap_off:
  assumes i: "heap_inv B lo fs A s" and x: "x \<in> set ((B, 0) # fs) \<union> A" and y: "y \<in> set fs \<union> A" and n: "x \<noteq> y"
  shows "off (fst x) (fst y)"
proof (cases "x = (B, 0)")
  case True
  then show ?thesis using heap_bounds [OF i y] by (simp add: off_def)
next
  case False
  then have x': "x \<in> set fs \<union> A" using x by auto
  have "ext x \<inter> ext y = {}"
  proof -
    consider "x \<in> set fs" "y \<in> set fs" | "x \<in> A" "y \<in> A" | "x \<in> A" "y \<in> set fs" | "x \<in> set fs" "y \<in> A"
      using x' y by blast
    then show ?thesis
      using i n chain_ext [of fs x y] by cases (auto simp: heap_inv_def area_def)
  qed
  from apart_blocks [OF this] show ?thesis
    using heap_bounds(3,5) [OF i x'] heap_bounds(3,5) [OF i y] by (auto simp: off_def)
qed

text \<open>A block handed out lies between its predecessor \<open>p\<close> in the ring and the free blocks after it.\<close>

lemma heap_split:
  assumes i: "heap_inv B lo fs A s" and b: "b \<in> A"
  obtains pre p post where "(B, 0) # fs = pre @ p # post" "fst p + 8 * snd p \<le> fst b" "fst p < fst b"
    "\<forall>y \<in> set post. fst b + 8 * snd b \<le> fst y"
proof -
  define us where "us = filter (\<lambda>x. fst x < fst b) fs"
  define vs where "vs = filter (\<lambda>x. \<not> fst x < fst b) fs"
  have ch: "chain fs" using i by (simp add: heap_inv_def)
  have fs: "fs = us @ vs"
    using ch unfolding us_def vs_def
  proof (induction fs)
    case (Cons x fs)
    show ?case
    proof (cases "fst x < fst b")
      case False
      then have "filter (\<lambda>x. fst x < fst b) fs = []" using Cons.prems
        by (auto simp: chain_Cons filter_empty_conv)
      moreover have "filter (\<lambda>x. \<not> fst x < fst b) fs = fs"
        using Cons.prems False by (auto simp: chain_Cons filter_id_conv)
      ultimately show ?thesis using False by simp
    qed (use Cons in \<open>simp add: chain_Cons\<close>)
  qed simp
  have sep: "fst x + 8 * snd x \<le> fst b \<or> fst b + 8 * snd b \<le> fst x" if "x \<in> set fs" for x
  proof -
    have "ext x \<inter> ext b = {}" using i b that by (auto simp: heap_inv_def area_def)
    from apart_blocks [OF this] show ?thesis
      using heap_bounds(3) [OF i, of x] heap_bounds(3) [OF i, of b] that b by auto
  qed
  have us: "\<forall>x \<in> set us. fst x + 8 * snd x \<le> fst b \<and> fst x < fst b"
  proof (intro ballI)
    fix x assume "x \<in> set us"
    then have "x \<in> set fs" "fst x < fst b" by (auto simp: us_def)
    then show "fst x + 8 * snd x \<le> fst b \<and> fst x < fst b" using sep [of x] by linarith
  qed
  have vs: "\<forall>x \<in> set vs. fst b + 8 * snd b \<le> fst x"
  proof (intro ballI)
    fix x assume "x \<in> set vs"
    then have "x \<in> set fs" "\<not> fst x < fst b" by (auto simp: vs_def)
    then show "fst b + 8 * snd b \<le> fst x" using sep [of x] heap_bounds(3) [OF i, of x] by fastforce
  qed
  have B: "B + 8 \<le> fst b" using heap_bounds(4) [OF i] b by simp
  let ?L = "(B, 0) # us"
  have "?L = butlast ?L @ [last ?L]" by (rule append_butlast_last_id [symmetric]) simp
  then have "(B, 0) # fs = butlast ?L @ last ?L # vs" using fs by simp
  moreover have "last ?L \<in> set ?L" by (rule last_in_set) simp
  then have "fst (last ?L) + 8 * snd (last ?L) \<le> fst b \<and> fst (last ?L) < fst b" using us B by auto
  ultimately show thesis using that vs by blast
qed

subsection \<open>Linking a block in\<close>

definition joins :: "block \<Rightarrow> block list \<Rightarrow> block list" where
  "joins b bs =
     (case bs of [] \<Rightarrow> [b] | c # cs \<Rightarrow> if fst b + 8 * snd b = fst c then (fst b, snd b + snd c) # cs else b # c # cs)"

lemma joins_area [simp]: "area (set (joins b bs)) = ext b \<union> area (set bs)"
  by (auto simp: joins_def ext_def split: list.split)

lemma joins_nonempty [simp]: "joins b bs \<noteq> []"
  by (simp add: joins_def split: list.split)

lemma fst_hd_joins [simp]: "fst (hd (joins b bs)) = fst b"
  by (simp add: joins_def split: list.split)

lemma joins_chain:
  assumes "chain bs" "\<forall>y \<in> set bs. fst b + 8 * snd b \<le> fst y"
  shows "chain (joins b bs)"
proof (cases bs)
  case (Cons c cs)
  show ?thesis
  proof (cases "fst b + 8 * snd b = fst c")
    case True
    then show ?thesis using assms Cons by (auto simp: joins_def chain_Cons)
  next
    case False
    have "fst b + 8 * snd b < fst y" if "y \<in> set bs" for y
      using that False assms Cons by (fastforce simp: chain_Cons)
    then show ?thesis using False assms(1) Cons by (auto simp: joins_def chain_Cons)
  qed
qed (simp add: joins_def chain_Cons)

definition linked :: "block list \<Rightarrow> block \<Rightarrow> block \<Rightarrow> block list \<Rightarrow> block list" where
  "linked pre p b post = pre @ joins p (joins b post)"

definition payload :: "block \<Rightarrow> uheap \<Rightarrow> uheap \<Rightarrow> bool" where
  "payload b s s' \<longleftrightarrow> (\<forall>x. fst b + 8 \<le> x \<and> x < fst b + 8 * snd b \<longrightarrow> hmem s' (adr x) = hmem s (adr x))"

lemma payload_refl: "payload b s s"
  by (simp add: payload_def)

lemma payload_trans: "payload b s s' \<Longrightarrow> payload b s' s'' \<Longrightarrow> payload b s s''"
  by (simp add: payload_def)

text \<open>A store to a header.\<close>

lemma store_away:
  assumes "h + 8 \<le> 2 ^ 32" "x < h \<or> h + 8 \<le> x" "x < 2 ^ 32"
  shows "hmem (set_ptr (adr h) v s) (adr x) = hmem s (adr x)"
    "hmem (set_hsize (adr h) v s) (adr x) = hmem s (adr x)"
proof -
  have u: "unat (adr x) = x" "unat (adr h) = h" "unat (adr (h + 4)) = h + 4"
    using assms by (simp_all add: unat_adr)
  have "4 \<le> unat (adr x - adr h)" "4 \<le> unat (adr x - adr (h + 4))"
    unfolding unat_sub_eq u using assms by (auto simp: adr_le)
  then show "hmem (set_ptr (adr h) v s) (adr x) = hmem s (adr x)"
    "hmem (set_hsize (adr h) v s) (adr x) = hmem s (adr x)"
    by (simp_all add: set_ptr_def set_hsize_def store32_other)
qed

text \<open>Both halves of \<open>free\<close>: block \<open>a\<close> comes before \<open>q\<close>.\<close>

definition link_one :: "u32 \<Rightarrow> u32 \<Rightarrow> uheap \<Rightarrow> uheap" where
  "link_one a q s =
     (if a + HEADER * hsize s a = q
      then let s = set_hsize a (hsize s a + hsize s q) s in set_ptr a (hptr s q) s
      else set_ptr a q s)"

lemma free_link_eq:
  assumes "off b p"
  shows "free_link (adr b) (adr p) s =
    (link_one (adr p) (adr b) (link_one (adr b) (hptr s (adr p)) s))\<lparr>freep := adr p\<rparr>"
  using header_other [OF assms] by (simp add: free_link_def link_one_def Let_def)

lemma link_one_other:
  assumes "off a c"
  shows "hptr (link_one (adr a) q s) (adr c) = hptr s (adr c)" "hsize (link_one (adr a) q s) (adr c) = hsize s (adr c)"
  using header_other [OF assms] by (simp_all add: link_one_def Let_def)

lemma link_one_fields [simp]: "freep (link_one a q s) = freep s" "hbrk (link_one a q s) = hbrk s"
  by (simp_all add: link_one_def Let_def)

lemma link_one_away:
  assumes "h + 8 \<le> 2 ^ 32" "x < h \<or> h + 8 \<le> x" "x < 2 ^ 32"
  shows "hmem (link_one (adr h) q s) (adr x) = hmem s (adr x)"
  using store_away [OF assms] by (simp add: link_one_def Let_def)

lemma links_link_one:
  assumes l: "links s z bs" "hsize s (adr (fst b)) = adr (snd b)"
    and o: "\<forall>y \<in> set bs. off (fst b) (fst y)" "fst b + 8 \<le> 2 ^ 32"
    and e: "fst b + 8 * snd b < 2 ^ 32" "\<forall>y \<in> set bs. fst y + 8 * snd y < 2 ^ 32"
    and z: "z < 2 ^ 32" "bs = [] \<Longrightarrow> fst b + 8 * snd b \<noteq> z"
  shows "links (link_one (adr (fst b)) (adr (nxt z bs)) s) z (joins b bs)"
proof -
  let ?s = "link_one (adr (fst b)) (adr (nxt z bs)) s"
  have fr: "links ?s z bs" using l(1) link_one_other o(1) by (subst links_frame) auto
  show ?thesis
  proof (cases bs)
    case Nil
    then have "\<not> adr (fst b + 8 * snd b) = adr z" using z e(1) by (simp add: adr_eq)
    then show ?thesis using Nil l(2) o(2) by (simp add: joins_def header_def link_one_def)
  next
    case (Cons c cs)
    have oc: "off (fst b) (fst c)" using o(1) Cons by simp
    have hc: "hptr s (adr (fst c)) = adr (nxt z cs)" "hsize s (adr (fst c)) = adr (snd c)"
      using l(1) Cons by (simp_all add: header_def)
    have eq: "adr (fst b + 8 * snd b) = adr (fst c) \<longleftrightarrow> fst b + 8 * snd b = fst c"
      using e Cons by (intro adr_eq) auto
    show ?thesis
    proof (cases "fst b + 8 * snd b = fst c")
      case True
      have "header ?s (fst b) (nxt z cs) (snd b + snd c)"
        using True l(2) hc oc o(2) Cons by (simp add: header_def link_one_def Let_def header_other)
      then show ?thesis using True fr Cons by (simp add: joins_def)
    next
      case False
      have "header ?s (fst b) (fst c) (snd b)"
        using False eq l(2) o(2) Cons by (simp add: header_def link_one_def)
      then show ?thesis using False fr Cons by (simp add: joins_def)
    qed
  qed
qed

lemma joins_off:
  assumes "\<forall>y \<in> set (b # bs). off a (fst y)"
  shows "\<forall>y \<in> set (joins b bs). off a (fst y)"
  using assms by (auto simp: joins_def split: list.splits if_splits)

lemma joins_end:
  assumes "\<forall>y \<in> set (b # bs). fst y + 8 * snd y < e"
  shows "\<forall>y \<in> set (joins b bs). fst y + 8 * snd y < e"
  using assms by (auto simp: joins_def split: list.splits if_splits)

lemma joins_above: "\<forall>y \<in> set bs. a \<le> fst y \<Longrightarrow> a \<le> fst b \<Longrightarrow> \<forall>y \<in> set (joins b bs). a \<le> fst y"
  by (auto simp: joins_def split: list.splits if_splits)

lemma joins_pos: "\<forall>y \<in> set (b # bs). 0 < snd y \<Longrightarrow> \<forall>y \<in> set (joins b bs). 0 < snd y"
  by (auto simp: joins_def split: list.splits if_splits)

lemma nxt_joins [simp]: "nxt z (joins b bs) = fst b"
  by (cases bs) (auto simp: joins_def)

lemma links_free_link:
  assumes l: "links s z (pre @ p # post)" "hsize s (adr (fst b)) = adr (snd b)"
    and o: "\<forall>y \<in> set (pre @ p # post). off (fst b) (fst y)" "\<forall>y \<in> set (pre @ post). off (fst p) (fst y)"
    and e: "fst b + 8 * snd b < 2 ^ 32" "\<forall>y \<in> set (pre @ p # post). fst y + 8 * snd y < 2 ^ 32"
    and z: "z < 2 ^ 32" "fst b + 8 * snd b \<noteq> z"
  shows "links (free_link (adr (fst b)) (adr (fst p)) s) z (linked pre p b post)"
proof -
  have bp: "off (fst b) (fst p)" "off (fst p) (fst b)" using o(1) by (auto simp: off_sym)
  let ?s1 = "link_one (adr (fst b)) (adr (nxt z post)) s"
  let ?s2 = "link_one (adr (fst p)) (adr (fst b)) ?s1"
  have h: "hptr s (adr (fst p)) = adr (nxt z post)" "hsize s (adr (fst p)) = adr (snd p)"
    using l(1) by (simp_all add: links_append header_def)
  have s1: "links ?s1 z (joins b post)"
  proof (rule links_link_one [OF _ l(2) _ _ e(1) _ z(1) z(2)])
    show "links s z post" using l(1) by (simp add: links_append)
    show "\<forall>y \<in> set post. off (fst b) (fst y)" using o(1) by simp
    show "fst b + 8 \<le> 2 ^ 32" using bp(1) by (simp add: off_def)
    show "\<forall>y \<in> set post. fst y + 8 * snd y < 2 ^ 32" using e(2) by simp
  qed
  have p1: "hsize ?s1 (adr (fst p)) = adr (snd p)" using h link_one_other [OF bp(1)] by simp
  have "links ?s2 z (joins p (joins b post))"
  proof (rule links_link_one [OF s1 p1 _ _ _ _ z(1), unfolded nxt_joins])
    show "\<forall>y \<in> set (joins b post). off (fst p) (fst y)"
      by (rule joins_off) (use o(2) bp(2) in auto)
    show "fst p + 8 \<le> 2 ^ 32" using bp(2) by (simp add: off_def)
    show "fst p + 8 * snd p < 2 ^ 32" using e(2) by simp
    show "\<forall>y \<in> set (joins b post). fst y + 8 * snd y < 2 ^ 32"
      by (rule joins_end) (use e in auto)
  qed simp
  moreover have "links ?s2 (fst p) pre"
  proof -
    have "links s (fst p) pre" using l(1) by (simp add: links_append)
    then show ?thesis using o link_one_other by (subst links_frame) auto
  qed
  ultimately have "links ?s2 z (linked pre p b post)" by (simp add: linked_def links_append)
  moreover have "free_link (adr (fst b)) (adr (fst p)) s = ?s2\<lparr>freep := adr (fst p)\<rparr>"
    using free_link_eq [OF bp(1), of s] h(1) by simp
  moreover have "links (t\<lparr>freep := f\<rparr>) z bs = links t z bs" for t f z bs
    by (rule links_frame) simp
  ultimately show ?thesis by simp
qed

lemma joins_first: "fst b \<in> fst ` set (joins b bs)"
  by (cases bs) (auto simp: joins_def image_iff)

lemma linked_ring:
  assumes L: "(B, 0) # fs = pre @ p # post" and B: "B \<noteq> fst b" and pos: "\<forall>y \<in> set fs. 0 < snd y" "0 < snd b"
  obtains fs' where "linked pre p b post = (B, 0) # fs'" "area (set fs') = ext b \<union> area (set fs)"
    "\<forall>y \<in> set fs'. 0 < snd y" "fst p \<in> fst ` set ((B, 0) # fs')"
proof (cases pre)
  case Nil
  then have p: "p = (B, 0)" "post = fs" using L by auto
  then have e: "linked pre p b post = (B, 0) # joins b fs" using Nil B
    by (cases fs) (auto simp: linked_def joins_def)
  have "\<forall>y \<in> set (joins b fs). 0 < snd y" by (rule joins_pos) (use pos in auto)
  then show thesis using p by (intro that [OF e]) auto
next
  case (Cons c cs)
  then have c: "c = (B, 0)" "fs = cs @ p # post" using L by auto
  then have e: "linked pre p b post = (B, 0) # cs @ joins p (joins b post)" using Cons by (simp add: linked_def)
  have "\<forall>y \<in> set (joins b post). 0 < snd y" by (rule joins_pos) (use pos c in auto)
  then have "\<forall>y \<in> set (joins p (joins b post)). 0 < snd y" by (intro joins_pos) (use pos c in auto)
  then show thesis using pos c joins_first [of p "joins b post"] by (intro that [OF e]) auto
qed

lemma linked_chain:
  assumes "chain (pre @ p # post)" "fst p + 8 * snd p \<le> fst b" "\<forall>y \<in> set post. fst b + 8 * snd b \<le> fst y"
  shows "chain (linked pre p b post)"
proof -
  have c: "chain (joins b post)" using assms by (intro joins_chain) (auto simp: chain_append chain_Cons)
  have a: "\<forall>y \<in> set (joins b post). fst p + 8 * snd p \<le> fst y"
    using assms by (intro joins_above) (auto simp: chain_append chain_Cons)
  have "\<forall>x \<in> set pre. \<forall>y \<in> set (joins p (joins b post)). fst x + 8 * snd x < fst y"
  proof
    fix x assume "x \<in> set pre"
    then have p: "Suc (fst x + 8 * snd x) \<le> fst p" using assms(1) by (auto simp: chain_append)
    have "\<forall>y \<in> set (joins b post). Suc (fst x + 8 * snd x) \<le> fst y" using a p by fastforce
    from joins_above [OF this p] have "\<forall>y \<in> set (joins p (joins b post)). Suc (fst x + 8 * snd x) \<le> fst y" .
    then show "\<forall>y \<in> set (joins p (joins b post)). fst x + 8 * snd x < fst y" by (simp add: Suc_le_eq)
  qed
  then show ?thesis using joins_chain [OF c a] assms(1) by (simp add: linked_def chain_append)
qed

lemma free_link_away:
  assumes "b + 8 \<le> 2 ^ 32" "x < b \<or> b + 8 \<le> x" "p + 8 \<le> 2 ^ 32" "x < p \<or> p + 8 \<le> x" "x < 2 ^ 32" "off b p"
  shows "hmem (free_link (adr b) (adr p) s) (adr x) = hmem s (adr x)"
  using link_one_away [OF assms(1,2,5)] link_one_away [OF assms(3,4,5)]
  by (simp add: free_link_eq [OF assms(6)])

lemma free_link_fields:
  "off b p \<Longrightarrow> freep (free_link (adr b) (adr p) s) = adr p \<and> hbrk (free_link (adr b) (adr p) s) = hbrk s"
  by (simp add: free_link_eq)

lemma ring_chain:
  assumes i: "heap_inv B lo fs A s" shows "chain ((B, 0) # fs)"
proof -
  have "\<forall>y \<in> set fs. B < fst y" using heap_bounds(4) [OF i] by fastforce
  then show ?thesis using i by (simp add: chain_Cons heap_inv_def)
qed

lemma chain_distinct: "chain bs \<Longrightarrow> distinct bs"
  by (induction bs) (auto simp: chain_Cons)

lemma hsize_eq_mem:
  assumes "\<And>i. i < 4 \<Longrightarrow> hmem s' (adr (a + 4 + i)) = hmem s (adr (a + 4 + i))"
  shows "hsize s' (adr a) = hsize s (adr a)"
proof -
  have "adr (a + 4) + 1 = adr (a + 4 + 1)" "adr (a + 4) + 2 = adr (a + 4 + 2)" "adr (a + 4) + 3 = adr (a + 4 + 3)"
    by (simp_all add: adr_def)
  then show ?thesis
    using assms [of 0] assms [of 1] assms [of 2] assms [of 3] by (simp add: hsize_def load32_def)
qed

text \<open>What is kept of a block handed out: its size and its contents.\<close>

definition kept :: "block \<Rightarrow> uheap \<Rightarrow> uheap \<Rightarrow> bool" where
  "kept b s s' \<longleftrightarrow> payload b s s' \<and> hsize s' (adr (fst b)) = hsize s (adr (fst b))"

lemma kept_byte:
  assumes "0 < snd b" and "\<And>x. fst b \<le> x \<Longrightarrow> x < fst b + 8 * snd b \<Longrightarrow> hmem s' (adr x) = hmem s (adr x)"
  shows "kept b s s'"
proof -
  have "hsize s' (adr (fst b)) = hsize s (adr (fst b))"
    using assms by (intro hsize_eq_mem) simp
  then show ?thesis using assms(2) by (simp add: kept_def payload_def)
qed

lemma kept_trans: "kept b s s' \<Longrightarrow> kept b s' s'' \<Longrightarrow> kept b s s''"
  by (simp add: kept_def payload_def)

lemma kept_refl: "kept b s s"
  by (simp add: kept_def payload_def)

lemma blocks_disjoint:
  assumes i: "heap_inv B lo fs A s" and y: "y \<in> A" and h: "h \<in> set fs \<union> (A - {y})"
  shows "ext y \<inter> ext h = {}"
proof (cases "h \<in> set fs")
  case True
  then have "ext h \<subseteq> area (set fs)" by (auto simp: area_def)
  moreover have "ext y \<inter> area (set fs) = {}" using i y by (simp add: heap_inv_def)
  ultimately show ?thesis by blast
next
  case False
  then have "h \<in> A" "h \<noteq> y" using h by auto
  moreover have "\<forall>x \<in> A. \<forall>y \<in> A. x \<noteq> y \<longrightarrow> ext x \<inter> ext y = {}" using i by (simp add: heap_inv_def)
  ultimately show ?thesis using y by blast
qed

text \<open>A block is clear of the header of another block or of the base.\<close>

lemma block_clear:
  assumes i: "heap_inv B lo fs A s" and y: "y \<in> A" and h: "h \<in> set ((B, 0) # fs) \<union> (A - {y})"
    and x: "fst y \<le> x" "x < fst y + 8 * snd y"
  shows "x < fst h \<or> fst h + 8 \<le> x" "fst h + 8 \<le> 2 ^ 32" "x < 2 ^ 32"
proof -
  have yb: "y \<in> set fs \<union> A" using y by simp
  note b = heap_bounds [OF i yb]
  show "x < 2 ^ 32" using b x by simp
  show "x < fst h \<or> fst h + 8 \<le> x"
  proof (cases "h = (B, 0)")
    case True
    then show ?thesis using b x by simp
  next
    case False
    then have hb: "h \<in> set fs \<union> A" "h \<in> set fs \<union> (A - {y})" using h by auto
    show ?thesis
      using apart_blocks [OF blocks_disjoint [OF i y hb(2)] b(3) heap_bounds(3) [OF i hb(1)]]
        heap_bounds(3) [OF i hb(1)] x by auto
  qed
  show "fst h + 8 \<le> 2 ^ 32"
  proof (cases "h = (B, 0)")
    case True
    then show ?thesis using b by simp
  next
    case False
    then have "h \<in> set fs \<union> A" using h by auto
    from heap_bounds(3,5) [OF i this] show ?thesis by simp
  qed
qed

lemma free_heap:
  assumes i: "heap_inv B lo fs A s" and b: "b \<in> A"
  shows "\<exists>fs' s'. ufree (adr (fst b + 8)) s = Some s' \<and> heap_inv B lo fs' (A - {b}) s' \<and> hbrk s' = hbrk s
    \<and> (\<forall>y \<in> A - {b}. kept y s s') \<and> area (set fs') = ext b \<union> area (set fs)"
proof -
  obtain pre p post where L: "(B, 0) # fs = pre @ p # post" and pb: "fst p + 8 * snd p \<le> fst b" "fst p < fst b"
    and post: "\<forall>y \<in> set post. fst b + 8 * snd b \<le> fst y" by (rule heap_split [OF i b])
  have bb: "b \<in> set fs \<union> A" using b by simp
  note bnd = heap_bounds [OF i bb]
  have lk: "links s B ((B, 0) # fs)" and sz: "hsize s (adr (fst b)) = adr (snd b)"
    and fp: "freep s \<in> adr ` fst ` set ((B, 0) # fs)" and B: "B \<noteq> fst b" "B < 2 ^ 32" "fst b + 8 * snd b \<noteq> B"
    using i b bnd by (auto simp: heap_inv_def)
  have ends: "\<forall>y \<in> set ((B, 0) # fs). fst y + 8 * snd y < 2 ^ 32" using heap_bounds(5) [OF i] B(2) by auto
  have bfs: "b \<notin> set ((B, 0) # fs)"
  proof
    assume "b \<in> set ((B, 0) # fs)"
    then have "b \<in> set fs" using B(1) by auto
    then have "ext b \<subseteq> area (set fs)" by (auto simp: area_def)
    then show False using i b bnd(3) by (force simp: heap_inv_def ext_def)
  qed
  have o: "\<forall>y \<in> set ((B, 0) # fs). off (fst b) (fst y)"
    using heap_off [OF i _ bb] bfs by (metis UnCI off_sym)
  have dist: "distinct (pre @ p # post)"
    using ring_chain [OF i] unfolding L by (rule chain_distinct)
  have op: "\<forall>y \<in> set (pre @ post). off (fst p) (fst y)"
  proof
    fix y assume y: "y \<in> set (pre @ post)"
    then have yp: "y \<noteq> p" "y \<in> set ((B, 0) # fs)" "p \<in> set ((B, 0) # fs)" using dist unfolding L by auto
    show "off (fst p) (fst y)"
    proof (cases "y = (B, 0)")
      case True
      then have "p \<in> set fs \<union> A" using yp by auto
      from heap_off [OF i _ this, of y] show ?thesis using yp by (auto simp: off_sym)
    next
      case False
      then have "y \<in> set fs \<union> A" using yp by auto
      from heap_off [OF i _ this, of p] show ?thesis using yp by auto
    qed
  qed
  let ?s = "free_link (adr (fst b)) (adr (fst p)) s"
  have opb: "off (fst b) (fst p)" using o L by auto
  have "free_find s (adr (fst b)) (freep s) = Some (adr (fst p))"
  proof -
    obtain q where q: "q \<in> set ((B, 0) # fs)" "freep s = adr (fst q)" using fp by blast
    have "\<forall>y \<in> set post. fst b < fst y" using post bnd(3) by fastforce
    moreover have "\<forall>y \<in> set ((B, 0) # fs). fst y < 2 ^ 32" using ends by (meson add_lessD1)
    moreover have "fst b < 2 ^ 32" using bnd(5) by simp
    ultimately have "free_find s (adr (fst b)) (adr (fst q)) = Some (adr (fst p))"
      using free_find_pred [of s "(B, 0)" fs, OF _ ring_chain [OF i] L pb(2) _ _ _ q(1)] lk by simp
    then show ?thesis using q(2) by simp
  qed
  then have u: "ufree (adr (fst b + 8)) s = Some ?s" by (simp add: ufree_def Let_def)
  have pos: "\<forall>y \<in> set fs. 0 < snd y" using i by (simp add: heap_inv_def)
  obtain fs' where fs': "linked pre p b post = (B, 0) # fs'" "area (set fs') = ext b \<union> area (set fs)"
    "\<forall>y \<in> set fs'. 0 < snd y" "fst p \<in> fst ` set ((B, 0) # fs')"
    by (rule linked_ring [OF L B(1) pos bnd(3)])
  have kept: "kept y s ?s" if y: "y \<in> A - {b}" for y
  proof (rule kept_byte)
    show "0 < snd y" using i y by (simp add: heap_inv_def)
    fix x assume x: "fst y \<le> x" "x < fst y + 8 * snd y"
    have "b \<in> set ((B, 0) # fs) \<union> (A - {y})" "p \<in> set ((B, 0) # fs) \<union> (A - {y})" using b y L by auto
    then show "hmem ?s (adr x) = hmem s (adr x)"
      using block_clear [OF i _ _ x] y by (intro free_link_away opb) blast+
  qed
  have "heap_inv B lo fs' (A - {b}) ?s"
  proof -
    have "links ?s B ((B, 0) # fs')"
      unfolding fs'(1) [symmetric]
      using lk o op ends bnd(5) sz B unfolding L by (intro links_free_link) auto
    moreover have "chain fs'"
      using linked_chain [OF _ pb(1) post, of pre] ring_chain [OF i] unfolding L fs'(1) by (simp add: chain_Cons)
    moreover have "\<forall>c \<in> set fs' \<union> (A - {b}). 0 < snd c" using fs'(3) i unfolding heap_inv_def by blast
    moreover have "adr (fst p) \<in> adr ` fst ` set ((B, 0) # fs')" by (rule imageI [OF fs'(4)])
    moreover have "\<forall>y \<in> A - {b}. ext y \<inter> area (set fs') = {}"
    proof
      fix y assume y: "y \<in> A - {b}"
      then have "ext y \<inter> ext b = {}" using blocks_disjoint [OF i, of y b] b by auto
      moreover have "ext y \<inter> area (set fs) = {}" using i y by (simp add: heap_inv_def)
      ultimately show "ext y \<inter> area (set fs') = {}" unfolding fs'(2) by blast
    qed
    moreover have "area (set fs') \<union> area (A - {b}) = {lo..<unat (hbrk s)}"
    proof -
      have "area A = ext b \<union> area (A - {b})" using area_simps(2) [of b "A - {b}"] b by (simp add: insert_absorb)
      moreover have "area (set fs) \<union> area A = {lo..<unat (hbrk s)}" using i by (simp add: heap_inv_def)
      ultimately show ?thesis unfolding fs'(2) by blast
    qed
    moreover have "\<forall>y \<in> A - {b}. hsize ?s (adr (fst y)) = adr (snd y)"
      using i kept unfolding heap_inv_def kept_def by auto
    ultimately show ?thesis
      using i unfolding heap_inv_def free_link_fields [OF opb, THEN conjunct1] free_link_fields [OF opb, THEN conjunct2]
      by blast
  qed
  then show ?thesis using u kept fs'(2) free_link_fields [OF opb] by blast
qed

subsection \<open>Taking a block\<close>

lemma heap_take:
  assumes i: "heap_inv B lo fs A s" and c: "chain fs'" "\<forall>c \<in> set fs'. 0 < snd c" and b: "0 < snd b"
    and a: "area (set fs') \<union> ext b = area (set fs)" "area (set fs') \<inter> ext b = {}"
    and l: "links s' B ((B, 0) # fs')" "hsize s' (adr (fst b)) = adr (snd b)"
    and k: "\<forall>y \<in> A. kept y s s'" and f: "freep s' \<in> adr ` fst ` set ((B, 0) # fs')" "hbrk s' = hbrk s"
  shows "heap_inv B lo fs' (insert b A) s'"
proof -
  have d: "ext y \<inter> ext b = {}" "ext y \<inter> area (set fs') = {}" if "y \<in> A" for y
  proof -
    have "ext y \<inter> area (set fs) = {}" using i that by (simp add: heap_inv_def)
    then show "ext y \<inter> ext b = {}" "ext y \<inter> area (set fs') = {}" using a(1) by blast+
  qed
  have "\<forall>x \<in> insert b A. \<forall>y \<in> insert b A. x \<noteq> y \<longrightarrow> ext x \<inter> ext y = {}"
    using i d(1) unfolding heap_inv_def by blast
  moreover have "\<forall>y \<in> insert b A. ext y \<inter> area (set fs') = {}" using d(2) a(2) by blast
  moreover have "area (set fs') \<union> area (insert b A) = {lo..<unat (hbrk s)}"
    using i a(1) unfolding heap_inv_def area_simps by blast
  moreover have "\<forall>y \<in> insert b A. hsize s' (adr (fst y)) = adr (snd y)"
    using i k l(2) unfolding heap_inv_def kept_def by simp
  moreover have "\<forall>y \<in> set fs' \<union> insert b A. 0 < snd y" using i c(2) b unfolding heap_inv_def by blast
  ultimately show ?thesis using i c(1) l(1) f unfolding heap_inv_def by simp
qed

lemma split_area:
  assumes "chain (us @ x # vs)"
  shows "area (set (us @ vs)) \<inter> ext x = {}"
proof -
  have "distinct (us @ x # vs)" using assms by (rule chain_distinct)
  then have "\<forall>y \<in> set (us @ vs). ext y \<inter> ext x = {}"
  proof (intro ballI)
    fix y assume "y \<in> set (us @ vs)"
    then show "ext y \<inter> ext x = {}"
      using \<open>distinct (us @ x # vs)\<close> by (intro chain_ext [OF assms]) auto
  qed
  then show ?thesis by (auto simp: area_def)
qed

lemma take_block_heap:
  assumes i: "heap_inv B lo fs A s" and L: "(B, 0) # fs = pre @ q # x # post" and n: "0 < n" "n \<le> snd x"
    and e: "take_block (adr n) (adr (fst q)) (adr (fst x)) s = (p, s')"
  shows "\<exists>a fs'. p = adr (a + 8) \<and> fst x \<le> a \<and> a + 8 * n = fst x + 8 * snd x \<and> heap_inv B lo fs' (insert (a, n) A) s'
    \<and> (\<forall>y \<in> A. kept y s s') \<and> hbrk s' = hbrk s \<and> ext (a, n) \<subseteq> area (set fs)"
proof -
  have ch: "chain (pre @ q # x # post)" using ring_chain [OF i] L by simp
  have dist: "distinct (pre @ q # x # post)" using chain_distinct [OF ch] .
  have xs: "x \<in> set fs" "\<forall>y \<in> set post. y \<in> set fs"
    using L by (cases pre; auto)+
  have xf: "x \<in> set fs \<union> A" using xs by simp
  note xb = heap_bounds [OF i xf]
  have lk: "links s B (pre @ q # x # post)" using i L by (simp add: heap_inv_def)
  then have h: "hptr s (adr (fst x)) = adr (nxt B post)" "hsize s (adr (fst x)) = adr (snd x)"
    "hsize s (adr (fst q)) = adr (snd q)"
    by (simp_all add: links_append header_def)
  have mem: "\<forall>y \<in> set (pre @ q # x # post). y \<in> set ((B, 0) # fs)" unfolding L by simp
  have ox: "\<forall>y \<in> set (pre @ q # post). off (fst x) (fst y)"
  proof
    fix y assume y: "y \<in> set (pre @ q # post)"
    then have "y \<noteq> x" "y \<in> set ((B, 0) # fs) \<union> A" using dist mem by auto
    from heap_off [OF i this(2) xf this(1)] show "off (fst x) (fst y)" by (simp add: off_sym)
  qed
  have oq: "\<forall>y \<in> set (pre @ post). off (fst q) (fst y)"
  proof
    fix y assume y: "y \<in> set (pre @ post)"
    then have yq: "y \<noteq> q" "y \<in> set ((B, 0) # fs) \<union> A" "q \<in> set ((B, 0) # fs) \<union> A" using dist mem by auto
    show "off (fst q) (fst y)"
    proof (cases "y = (B, 0)")
      case True
      then have "q \<in> set fs \<union> A" using yq by auto
      from heap_off [OF i yq(2) this yq(1)] show ?thesis by (simp add: off_sym)
    next
      case False
      then have "y \<in> set fs \<union> A" using yq by auto
      from heap_off [OF i yq(3) this] yq(1) show ?thesis by auto
    qed
  qed
  have q8: "fst q + 8 \<le> 2 ^ 32" using ox by (auto simp: off_def)
  have clear: "hmem (set_ptr (adr (fst q)) v t) (adr z) = hmem t (adr z)"
    if "y \<in> A" "fst y \<le> z" "z < fst y + 8 * snd y" for y z v t
    using block_clear [OF i that(1) _ that(2,3), of q] mem q8 by (intro store_away) auto
  have Lx: "\<exists>us. (fs = us @ x # post \<and> (B, 0) # us = pre @ [q])" using L by (cases pre) auto
  then obtain us where us: "fs = us @ x # post" "(B, 0) # us = pre @ [q]" by blast
  show ?thesis
  proof (cases "n = snd x")
    case True
    let ?s = "set_ptr (adr (fst q)) (adr (nxt B post)) s"
    have ps: "p = adr (fst x + 8)" "s' = ?s\<lparr>freep := adr (fst q)\<rparr>" using e True h by (simp_all add: take_block_def)
    have kept: "\<forall>y \<in> A. kept y s s'"
      using clear i unfolding ps(2) by (intro ballI kept_byte) (auto simp: heap_inv_def)
    have "heap_inv B lo (us @ post) (insert (fst x, n) A) s'"
    proof (rule heap_take [OF i])
      show "chain (us @ post)" using i us(1) by (auto simp: heap_inv_def chain_append chain_Cons)
      show "\<forall>c \<in> set (us @ post). 0 < snd c" using i us(1) by (auto simp: heap_inv_def)
      show "area (set (us @ post)) \<union> ext (fst x, n) = area (set fs)" using us(1) True by auto
      show "area (set (us @ post)) \<inter> ext (fst x, n) = {}"
        using split_area [of us x post] i us(1) True by (simp add: heap_inv_def)
      show "hsize s' (adr (fst (fst x, n))) = adr (snd (fst x, n))"
        using header_other [of "fst q" "fst x"] ox h True unfolding ps(2) by (simp add: off_sym)
      have "links ?s B (pre @ q # post)"
      proof -
        have "links ?s B post" using lk oq by (subst links_frame [where s = s]) (auto simp: header_other links_append)
        moreover have "links ?s (fst q) pre"
          using lk oq by (subst links_frame [where s = s]) (auto simp: header_other links_append)
        ultimately show ?thesis using h q8 by (simp add: links_append header_def)
      qed
      then have "links ?s B ((B, 0) # us @ post)" using us(2) by (metis append.assoc append_Cons append_Nil)
      then show "links s' B ((B, 0) # us @ post)" unfolding ps(2) by (subst links_frame [where s = ?s]) simp_all
      have "q \<in> set ((B, 0) # us)" unfolding us(2) by simp
      then show "freep s' \<in> adr ` fst ` set ((B, 0) # us @ post)" unfolding ps(2) by auto
      show "hbrk s' = hbrk s" unfolding ps(2) by simp
    qed (use n kept in auto)
    then show ?thesis
      using ps True kept us(1) by (intro exI [of _ "fst x"] exI [of _ "us @ post"]) auto
  next
    case False
    let ?k = "snd x - n" and ?a = "fst x + 8 * (snd x - n)"
    let ?s1 = "set_hsize (adr (fst x)) (adr ?k) s"
    let ?s = "set_hsize (adr ?a) (adr n) ?s1"
    have k: "0 < ?k" "?k + n = snd x" "adr (snd x) - adr n = adr ?k" using n False by (auto simp: adr_def)
    have ne: "adr (snd x) \<noteq> adr n" using False n xb(6) by (simp add: adr_eq)
    have ps: "p = adr (?a + 8)" "s' = ?s\<lparr>freep := adr (fst q)\<rparr>"
      using e ne h k(3) by (simp_all add: take_block_def Let_def)
    have oa: "off ?a (fst x)" "?a + 8 \<le> 2 ^ 32" "?a + 8 * n = fst x + 8 * snd x"
      using k(1,2) n xb(5) by (auto simp: off_def)
    have oay: "off ?a (fst y)" if "y \<in> set (pre @ q # post)" for y
    proof -
      have y: "y \<noteq> x" "y \<in> set ((B, 0) # fs)" using that dist mem by auto
      show ?thesis
      proof (cases "y = (B, 0)")
        case True
        then show ?thesis using oa(2) xb(4) by (simp add: off_def)
      next
        case False
        then have yf: "y \<in> set fs" using y by simp
        then have yb: "0 < snd y" "fst y + 8 * snd y < 2 ^ 32" using heap_bounds(3,5) [OF i, of y] by auto
        have "ext x \<inter> ext y = {}" using chain_ext [OF _ xs(1) yf] i y(1) by (auto simp: heap_inv_def)
        from apart_blocks [OF this xb(3) yb(1)] show ?thesis using yb oa(2,3) n by (auto simp: off_def)
      qed
    qed
    have inx: "hmem ?s (adr z) = hmem s (adr z)" if "y \<in> A" "fst y \<le> z" "z < fst y + 8 * snd y" for y z
    proof -
      have yb: "0 < snd y" "z < 2 ^ 32" using heap_bounds(3,5) [OF i, of y] that by auto
      have "ext y \<inter> ext x = {}" using blocks_disjoint [OF i that(1), of x] xs(1) by simp
      from apart_blocks [OF this yb(1) xb(3)] have "z < fst x \<or> fst x + 8 * snd x \<le> z" using that(2,3) by auto
      then have "z < fst x \<or> fst x + 8 \<le> z" "z < ?a \<or> ?a + 8 \<le> z" using k n oa(3) by auto
      then show ?thesis using store_away(2) [of "fst x" z] store_away(2) [of ?a z] yb oa(1,2) by (simp add: off_def)
    qed
    have kept: "\<forall>y \<in> A. kept y s s'"
      using inx i unfolding ps(2) by (intro ballI kept_byte) (auto simp: heap_inv_def)
    have ex: "ext (fst x, ?k) \<union> ext (?a, n) = ext x" "ext (fst x, ?k) \<inter> ext (?a, n) = {}"
      using k(2) ext_join [of "fst x" ?k n] by (auto simp: ext_def)
    have "heap_inv B lo (us @ (fst x, ?k) # post) (insert (?a, n) A) s'"
    proof (rule heap_take [OF i])
      show "chain (us @ (fst x, ?k) # post)"
        using i us(1) k(2) by (fastforce simp: heap_inv_def chain_append chain_Cons)
      show "\<forall>c \<in> set (us @ (fst x, ?k) # post). 0 < snd c" using i us(1) k(1) by (auto simp: heap_inv_def)
      show "area (set (us @ (fst x, ?k) # post)) \<union> ext (?a, n) = area (set fs)" using us(1) ex(1) by auto
      have "area (set (us @ post)) \<inter> ext x = {}" using split_area [of us x post] i us(1) by (simp add: heap_inv_def)
      then show "area (set (us @ (fst x, ?k) # post)) \<inter> ext (?a, n) = {}" using ex by auto
      show "hsize s' (adr (fst (?a, n))) = adr (snd (?a, n))" unfolding ps(2) by simp
      have "links ?s B (pre @ q # (fst x, ?k) # post)"
      proof -
        have fr: "hptr ?s (adr (fst y)) = hptr s (adr (fst y)) \<and> hsize ?s (adr (fst y)) = hsize s (adr (fst y))"
          if "y \<in> set (pre @ q # post)" for y
          using header_other [of "fst x" "fst y"] header_other [OF oay [OF that]] ox that by auto
        have "links ?s B post" "links ?s (fst q) pre"
          using lk fr by (subst links_frame [where s = s]; auto simp: links_append)+
        moreover have "header ?s (fst x) (nxt B post) ?k"
          using h oa by (simp add: header_def header_other off_def)
        moreover have "header ?s (fst q) (fst x) (snd q)"
          using lk fr by (simp add: links_append header_def)
        ultimately show ?thesis by (simp add: links_append)
      qed
      then have "links ?s B ((B, 0) # us @ (fst x, ?k) # post)" using us(2) by (metis append.assoc append_Cons append_Nil)
      then show "links s' B ((B, 0) # us @ (fst x, ?k) # post)"
        unfolding ps(2) by (subst links_frame [where s = ?s]) simp_all
      have "q \<in> set ((B, 0) # us)" unfolding us(2) by simp
      then show "freep s' \<in> adr ` fst ` set ((B, 0) # us @ (fst x, ?k) # post)" unfolding ps(2) by auto
      show "hbrk s' = hbrk s" unfolding ps(2) by simp
    qed (use n kept in auto)
    then show ?thesis
      using ps oa kept ex us(1)
      by (intro exI [of _ ?a] exI [of _ "us @ (fst x, ?k) # post"]) auto
  qed
qed

subsection \<open>More memory\<close>

lemma interval_in_block:
  assumes c: "chain fs" and a: "{a..<a + m} \<subseteq> area (set fs)" and m: "0 < m"
  shows "\<exists>c \<in> set fs. {a..<a + m} \<subseteq> ext c"
proof -
  have "a \<in> area (set fs)" using a m by auto
  then obtain c where c': "c \<in> set fs" "a \<in> ext c" by (auto simp: area_def)
  have "a + m \<le> fst c + 8 * snd c"
  proof (rule ccontr)
    assume n: "\<not> a + m \<le> fst c + 8 * snd c"
    let ?e = "fst c + 8 * snd c"
    have "?e \<in> area (set fs)" using n a c'(2) by (auto simp: ext_def)
    then obtain d where d: "d \<in> set fs" "?e \<in> ext d" by (auto simp: area_def)
    then have "d \<noteq> c" by (auto simp: ext_def)
    then have "?e < fst d \<or> fst d + 8 * snd d < fst c"
      using c c'(1) d(1) by (induction fs) (auto simp: chain_Cons)
    then show False using d(2) by (auto simp: ext_def)
  qed
  then show ?thesis using c' by (intro bexI [of _ c]) (auto simp: ext_def)
qed

lemma heap_extend:
  assumes i: "heap_inv B lo fs A s" and n: "0 < n" "unat (hbrk s) + 8 * n < 2 ^ 32"
  shows "heap_inv B lo fs (insert (unat (hbrk s), n) A) (set_hsize (hbrk s) (adr n) (s\<lparr>hbrk := hbrk s + adr (8 * n)\<rparr>))"
    "\<forall>y \<in> A. kept y s (set_hsize (hbrk s) (adr n) (s\<lparr>hbrk := hbrk s + adr (8 * n)\<rparr>))"
proof -
  let ?h = "unat (hbrk s)" and ?t = "s\<lparr>hbrk := hbrk s + adr (8 * n)\<rparr>"
  let ?s = "set_hsize (adr ?h) (adr n) ?t"
  have e: "hbrk s + adr (8 * n) = adr (?h + 8 * n)" by (metis adr_unat adr_add(1))
  have ub: "unat (hbrk ?s) = ?h + 8 * n" using n(2) by (simp add: e unat_adr)
  have bnd: "fst y + 8 * snd y \<le> ?h" "0 < snd y" if "y \<in> set fs \<union> A" for y using heap_bounds(2,3) [OF i that] by auto
  have off: "off ?h (fst y)" if "y \<in> set ((B, 0) # fs) \<union> A" for y
  proof (cases "y = (B, 0)")
    case True
    then show ?thesis using i n by (auto simp: off_def heap_inv_def)
  next
    case False
    then have "y \<in> set fs \<union> A" using that by auto
    from bnd [OF this] show ?thesis using n by (auto simp: off_def)
  qed
  have fr: "hptr ?s (adr (fst y)) = hptr s (adr (fst y)) \<and> hsize ?s (adr (fst y)) = hsize s (adr (fst y))"
    if "y \<in> set ((B, 0) # fs) \<union> A" for y
    using header_other [OF off [OF that], where s = ?t] by simp
  have k: "kept y s ?s" if y: "y \<in> A" for y
  proof (rule kept_byte)
    show "0 < snd y" using bnd y by simp
    fix x assume "fst y \<le> x" "x < fst y + 8 * snd y"
    then have x: "x < ?h" "?h + 8 \<le> 2 ^ 32" "x < 2 ^ 32" using bnd [of y] y n by auto
    have "hmem ?s (adr x) = hmem ?t (adr x)" using x by (intro store_away) auto
    then show "hmem ?s (adr x) = hmem s (adr x)" by simp
  qed
  then show "\<forall>y \<in> A. kept y s (set_hsize (hbrk s) (adr n) ?t)" by simp
  have new: "ext (?h, n) = {?h..<?h + 8 * n}" by (simp add: ext_def)
  have old: "ext y \<inter> ext (?h, n) = {}" if "y \<in> set fs \<union> A" for y
    using bnd(1) [OF that] by (auto simp: ext_def)
  have "links ?s B ((B, 0) # fs)"
    using i fr by (subst links_frame [where s = s]) (auto simp: heap_inv_def)
  moreover have "\<forall>y \<in> insert (?h, n) A. hsize ?s (adr (fst y)) = adr (snd y)"
    using i fr unfolding heap_inv_def by auto
  moreover have "area (set fs) \<union> area (insert (?h, n) A) = {lo..<unat (hbrk ?s)}"
  proof -
    have "area (set fs) \<union> area A = {lo..<?h}" "lo \<le> ?h" using i by (auto simp: heap_inv_def)
    then have "area (set fs) \<union> ({?h..<?h + 8 * n} \<union> area A) = {lo..<?h} \<union> {?h..<?h + 8 * n}" by blast
    also have "\<dots> = {lo..<?h + 8 * n}" using \<open>lo \<le> ?h\<close> by auto
    finally show ?thesis unfolding area_simps new ub .
  qed
  moreover have "\<forall>y \<in> insert (?h, n) A. ext y \<inter> area (set fs) = {}"
    using i old unfolding heap_inv_def area_def by blast
  moreover have "\<forall>x \<in> insert (?h, n) A. \<forall>y \<in> insert (?h, n) A. x \<noteq> y \<longrightarrow> ext x \<inter> ext y = {}"
    using i old unfolding heap_inv_def by blast
  moreover have "\<forall>y \<in> set fs \<union> insert (?h, n) A. 0 < snd y" using bnd n by auto
  moreover have "lo \<le> unat (hbrk ?s)" using i ub by (simp add: heap_inv_def)
  ultimately have "heap_inv B lo fs (insert (?h, n) A) ?s"
    using i unfolding heap_inv_def by simp
  then show "heap_inv B lo fs (insert (?h, n) A) (set_hsize (hbrk s) (adr n) ?t)" by simp
qed

text \<open>What the kernel promises of \<open>sbrk\<close>: the memory it grants ends below the top of the address space.\<close>

definition sbrk_ok :: "(u32 \<Rightarrow> u32 \<Rightarrow> bool) \<Rightarrow> bool" where
  "sbrk_ok K \<longleftrightarrow> (\<forall>b k. K b k \<and> unat k < 2 ^ 31 \<longrightarrow> unat b + unat k < 2 ^ 32)"

lemma freep_nonzero: "heap_inv B lo fs A s \<Longrightarrow> freep s \<noteq> 0"
proof -
  assume i: "heap_inv B lo fs A s"
  then have "freep s \<in> adr ` fst ` set ((B, 0) # fs)" unfolding heap_inv_def by blast
  then obtain f where f: "f \<in> set ((B, 0) # fs)" "freep s = adr (fst f)" by blast
  have "0 < fst f \<and> fst f < 2 ^ 32"
  proof (cases "f = (B, 0)")
    case True
    have "B < 2 ^ 32" using i le_less_trans [OF _ unat_u32_lt, of B "hbrk s"] by (auto simp: heap_inv_def)
    then show ?thesis using True i by (simp add: heap_inv_def)
  next
    case False
    then show ?thesis using f(1) heap_bounds(4,5) [OF i, of f] by auto
  qed
  then show ?thesis using f(2) unat_adr [of "fst f"] by (metis less_irrefl unsigned_0)
qed

lemma morecore_heap:
  assumes i: "heap_inv B lo fs A s" and n: "8 * n < 2 ^ 31" and K: "sbrk_ok K"
  shows "morecore K (adr n) s = Some (0, s) \<and> \<not> K (hbrk s) (adr (8 * max 4096 n))
    \<or> (\<exists>fs' s'. morecore K (adr n) s = Some (freep s', s') \<and> heap_inv B lo fs' A s'
        \<and> (\<forall>y \<in> A. kept y s s') \<and> (\<exists>c \<in> set fs'. n \<le> snd c))"
proof -
  let ?n = "max 4096 n"
  have nu: "(if adr n < 4096 then 4096 else adr n) = adr ?n"
  proof -
    have c: "adr 4096 = 4096" by (simp add: adr_def)
    have "adr n < adr 4096 \<longleftrightarrow> n < 4096" using n by (intro adr_less) simp_all
    then show ?thesis unfolding c by (auto simp: max_def c)
  qed
  have n8: "adr ?n * HEADER = adr (8 * ?n)" by (simp add: adr_def HEADER_def)
  have l31: "8 * ?n < 2 ^ 31" using n by simp
  show ?thesis
  proof (cases "K (hbrk s) (adr (8 * ?n))")
    case False
    then show ?thesis unfolding morecore_def nu n8 Let_def by simp
  next
    case True
    have u: "unat (adr (8 * ?n)) = 8 * ?n" using l31 by (intro unat_adr) simp
    then have "unat (hbrk s) + 8 * ?n < 2 ^ 32" using K True l31 unfolding sbrk_ok_def by metis
    note x = heap_extend [OF i _ this]
    let ?s = "set_hsize (hbrk s) (adr ?n) (s\<lparr>hbrk := hbrk s + adr (8 * ?n)\<rparr>)"
    let ?b = "(unat (hbrk s), ?n)"
    have i': "heap_inv B lo fs (insert ?b A) ?s" "\<forall>y \<in> A. kept y s ?s" using x by simp_all
    have nb: "?b \<notin> A"
    proof
      assume "?b \<in> A"
      from heap_bounds(2,3) [OF i, of ?b] this show False by simp
    qed
    obtain fs' s' where f: "ufree (adr (fst ?b + 8)) ?s = Some s'" "heap_inv B lo fs' (insert ?b A - {?b}) s'"
        "\<forall>y \<in> insert ?b A - {?b}. kept y ?s s'" "area (set fs') = ext ?b \<union> area (set fs)"
      using free_heap [OF i'(1), of ?b] by blast
    have A: "insert ?b A - {?b} = A" using nb by simp
    have "hbrk s + HEADER = adr (unat (hbrk s) + 8)" using adr_add(4) [of "unat (hbrk s)"] by simp
    then have "morecore K (adr n) s = Some (freep s', s')"
      using True f(1) unfolding morecore_def nu n8 Let_def by simp
    moreover have "\<forall>y \<in> A. kept y s s'" using i'(2) f(3) unfolding A by (blast intro: kept_trans)
    moreover have "\<exists>c \<in> set fs'. n \<le> snd c"
    proof -
      have "\<exists>c \<in> set fs'. {unat (hbrk s)..<unat (hbrk s) + 8 * ?n} \<subseteq> ext c"
        using f(2) unfolding f(4) by (intro interval_in_block) (auto simp: heap_inv_def f(4) ext_def)
      then obtain c where c: "c \<in> set fs'" "{unat (hbrk s)..<unat (hbrk s) + 8 * ?n} \<subseteq> ext c" by blast
      then have "card {unat (hbrk s)..<unat (hbrk s) + 8 * ?n} \<le> card (ext c)"
        by (intro card_mono) (auto simp: ext_def)
      then have "?n \<le> snd c" by (simp add: ext_def)
      then show ?thesis using c(1) by auto
    qed
    ultimately show ?thesis using f(2) unfolding A by blast
  qed
qed

subsection \<open>The search\<close>

lemma malloc_step:
  assumes "\<not> nu \<le> hsize s p" "p \<noteq> freep s"
  shows "malloc_from K nu s q p = malloc_from K nu s p (hptr s p)"
  using assms by (subst malloc_from.simps) simp

lemma malloc_take: "nu \<le> hsize s p \<Longrightarrow> malloc_from K nu s q p = Some (take_block nu q p s)"
  by (subst malloc_from.simps) simp

definition get_more :: "(u32 \<Rightarrow> u32 \<Rightarrow> bool) \<Rightarrow> u32 \<Rightarrow> uheap \<Rightarrow> (u32 \<times> uheap) option" where
  "get_more K nu s = Option.bind (morecore K nu s) (\<lambda>r.
     if fst r = 0 then Some (0, snd r) else malloc_from K nu (snd r) (fst r) (hptr (snd r) (fst r)))"

lemma malloc_more: "\<not> nu \<le> hsize s p \<Longrightarrow> p = freep s \<Longrightarrow> malloc_from K nu s q p = get_more K nu s"
  by (subst malloc_from.simps) (simp add: get_more_def)

text \<open>A walk along a part of the ring that does not meet \<open>freep\<close>.\<close>

definition fits_in :: "(u32 \<Rightarrow> u32 \<Rightarrow> bool) \<Rightarrow> nat \<Rightarrow> uheap \<Rightarrow> block list \<Rightarrow> u32 \<Rightarrow> u32 \<Rightarrow> bool" where
  "fits_in K n s L p0 p \<longleftrightarrow>
     (\<exists>pre q x post. L = pre @ q # x # post \<and> n \<le> snd x
        \<and> malloc_from K (adr n) s p0 p = Some (take_block (adr n) (adr (fst q)) (adr (fst x)) s))"

lemma fits_in_append: "fits_in K n s L p0 p \<Longrightarrow> fits_in K n s (xs @ L @ ys) p0 p"
proof -
  assume "fits_in K n s L p0 p"
  then obtain pre q x post where "L = pre @ q # x # post" "n \<le> snd x"
      "malloc_from K (adr n) s p0 p = Some (take_block (adr n) (adr (fst q)) (adr (fst x)) s)"
    by (auto simp: fits_in_def)
  then show ?thesis unfolding fits_in_def
    by (intro exI [of _ "xs @ pre"] exI [of _ q] exI [of _ x] exI [of _ "post @ ys"]) simp
qed

lemma walk:
  assumes "links s z ws" "\<forall>w \<in> set ws. snd w < 2 ^ 32 \<and> adr (fst w) \<noteq> freep s" "n < 2 ^ 32"
  shows "fits_in K n s (q # ws) (adr (fst q)) (adr (nxt z ws))
    \<or> (\<forall>w \<in> set ws. snd w < n) \<and> malloc_from K (adr n) s (adr (fst q)) (adr (nxt z ws))
        = malloc_from K (adr n) s (adr (fst (last (q # ws)))) (adr z)"
  using assms
proof (induction ws arbitrary: q)
  case (Cons w ws)
  have h: "hptr s (adr (fst w)) = adr (nxt z ws)" "hsize s (adr (fst w)) = adr (snd w)"
    using Cons.prems(1) by (simp_all add: header_def)
  have le: "adr n \<le> hsize s (adr (fst w)) \<longleftrightarrow> n \<le> snd w"
    unfolding h(2) using Cons.prems(2,3) by (intro adr_le) auto
  show ?case
  proof (cases "n \<le> snd w")
    case True
    then have "fits_in K n s (q # w # ws) (adr (fst q)) (adr (fst w))"
      unfolding fits_in_def using malloc_take le
      by (intro exI [of _ "[]"] exI [of _ q] exI [of _ w] exI [of _ ws]) simp
    then show ?thesis by simp
  next
    case False
    then have st: "malloc_from K (adr n) s (adr (fst q)) (adr (fst w))
        = malloc_from K (adr n) s (adr (fst w)) (adr (nxt z ws))"
      using malloc_step [of "adr n" s "adr (fst w)"] le Cons.prems(2) h(1) by simp
    have "fits_in K n s (w # ws) (adr (fst w)) (adr (nxt z ws))
      \<or> (\<forall>w \<in> set ws. snd w < n) \<and> malloc_from K (adr n) s (adr (fst w)) (adr (nxt z ws))
          = malloc_from K (adr n) s (adr (fst (last (w # ws)))) (adr z)"
      using Cons.prems by (intro Cons.IH) auto
    then show ?thesis
    proof
      assume "fits_in K n s (w # ws) (adr (fst w)) (adr (nxt z ws))"
      from fits_in_append [OF this, of "[q]" "[]"] show ?thesis using st by (simp add: fits_in_def)
    next
      assume "(\<forall>w \<in> set ws. snd w < n) \<and> malloc_from K (adr n) s (adr (fst w)) (adr (nxt z ws))
          = malloc_from K (adr n) s (adr (fst (last (w # ws)))) (adr z)"
      then show ?thesis using st False by simp
    qed
  qed
qed simp

lemma fits_in_eq:
  "malloc_from K (adr n) s p0 p = malloc_from K (adr n) s p1 p' \<Longrightarrow> fits_in K n s L p1 p' \<Longrightarrow> fits_in K n s L p0 p"
  by (simp add: fits_in_def)

lemma adr_fst_inj:
  assumes i: "heap_inv B lo fs A s" and x: "x \<in> set ((B, 0) # fs)" and y: "y \<in> set ((B, 0) # fs)"
    and e: "adr (fst x) = adr (fst y)"
  shows "x = y"
proof (rule ccontr)
  assume n: "x \<noteq> y"
  have "off (fst x) (fst y)"
  proof (cases "y = (B, 0)")
    case True
    then have "x \<in> set fs \<union> A" using n x by auto
    from heap_off [OF i _ this, of y] y n show ?thesis by (auto simp: off_sym)
  next
    case False
    then have "y \<in> set fs \<union> A" using y by auto
    from heap_off [OF i _ this n] x show ?thesis by auto
  qed
  then have "adr (fst x) \<noteq> adr (fst y)" by (subst adr_eq) (auto simp: off_def)
  then show False using e by simp
qed

lemma search:
  assumes i: "heap_inv B lo fs A s" and n: "0 < n" "n < 2 ^ 32"
  shows "fits_in K n s ((B, 0) # fs) (freep s) (hptr s (freep s))
    \<or> (\<forall>w \<in> set fs. snd w < n) \<and> malloc_from K (adr n) s (freep s) (hptr s (freep s)) = get_more K (adr n) s"
proof -
  obtain f where f: "f \<in> set ((B, 0) # fs)" "freep s = adr (fst f)"
  proof -
    have "freep s \<in> adr ` fst ` set ((B, 0) # fs)" using i unfolding heap_inv_def by blast
    then show thesis using that by blast
  qed
  have lk: "links s B ((B, 0) # fs)" using i by (simp add: heap_inv_def)
  have dist: "distinct ((B, 0) # fs)" using chain_distinct [OF ring_chain [OF i]] .
  have ok: "snd w < 2 ^ 32 \<and> adr (fst w) \<noteq> freep s" if "w \<in> set fs" "w \<noteq> f" for w
    using heap_bounds(6) [OF i, of w] adr_fst_inj [OF i _ f(1), of w] that f(2) by auto
  have hB: "hsize s (adr B) = adr 0" "hptr s (adr B) = adr (nxt B fs)" using lk by (simp_all add: header_def)
  have B0: "\<not> adr n \<le> hsize s (adr B)" unfolding hB(1) using n by (simp add: adr_le)
  let ?g = "\<lambda>q p. malloc_from K (adr n) s q p"
  show ?thesis
  proof (cases "f = (B, 0)")
    case True
    have "\<forall>w \<in> set fs. snd w < 2 ^ 32 \<and> adr (fst w) \<noteq> freep s" using ok dist True by auto
    moreover have "links s B fs" using lk by simp
    ultimately have "fits_in K n s ((B, 0) # fs) (adr B) (adr (nxt B fs))
      \<or> (\<forall>w \<in> set fs. snd w < n) \<and> ?g (adr B) (adr (nxt B fs)) = ?g (adr (fst (last ((B, 0) # fs)))) (adr B)"
      using walk [of s B fs n K "(B, 0)"] n(2) by simp
    then show ?thesis using f(2) True hB(2) malloc_more [OF B0, of K] by auto
  next
    case False
    then obtain us vs where fs: "fs = us @ f # vs" using f(1) by (auto simp: in_set_conv_decomp)
    have lk': "links s (fst f) us" "links s B vs" "hptr s (adr (fst f)) = adr (nxt B vs)" "hsize s (adr (fst f)) = adr (snd f)"
      using lk unfolding fs by (simp_all add: links_append header_def)
    have okv: "\<forall>w \<in> set vs. snd w < 2 ^ 32 \<and> adr (fst w) \<noteq> freep s"
      and oku: "\<forall>w \<in> set us. snd w < 2 ^ 32 \<and> adr (fst w) \<noteq> freep s"
      using ok dist fs by auto
    have Bf: "adr B \<noteq> freep s" using adr_fst_inj [OF i _ f(1), of "(B, 0)"] False f(2) by auto
    from walk [OF lk'(2) okv n(2), of K f]
    consider "fits_in K n s (f # vs) (freep s) (hptr s (freep s))"
      | "\<forall>w \<in> set vs. snd w < n" "?g (freep s) (hptr s (freep s)) = ?g (adr (fst (last (f # vs)))) (adr B)"
      using f(2) lk'(3) by auto
    then show ?thesis
    proof cases
      case 1
      from fits_in_append [OF this, of "(B, 0) # us" "[]"] show ?thesis by (simp add: fs)
    next
      case 2
      have e: "?g (freep s) (hptr s (freep s)) = ?g (adr B) (adr (nxt (fst f) us))"
        using 2(2) malloc_step [OF B0 Bf, of K] hB(2) by (simp add: fs)
      from walk [OF lk'(1) oku n(2), of K "(B, 0)"]
      consider "fits_in K n s ((B, 0) # us) (adr B) (adr (nxt (fst f) us))"
        | "\<forall>w \<in> set us. snd w < n" "?g (adr B) (adr (nxt (fst f) us)) = ?g (adr (fst (last ((B, 0) # us)))) (freep s)"
        using f(2) by auto
      then show ?thesis
      proof cases
        case 1
        from fits_in_eq [OF e fits_in_append [OF this, of "[]" "f # vs"]] show ?thesis by (simp add: fs)
      next
        case u: 2
        have e': "?g (freep s) (hptr s (freep s)) = ?g (adr (fst (last ((B, 0) # us)))) (freep s)"
          using e u(2) by simp
        have le: "adr n \<le> hsize s (freep s) \<longleftrightarrow> n \<le> snd f"
          unfolding f(2) lk'(4) using heap_bounds(6) [OF i, of f] fs n(2) by (intro adr_le) auto
        show ?thesis
        proof (cases "n \<le> snd f")
          case True
          let ?L = "(B, 0) # us"
          have "?L @ f # vs = butlast ?L @ last ?L # f # vs"
            using append_butlast_last_id [of ?L] by (metis append.assoc append_Cons append_Nil list.distinct(1))
          then have "(B, 0) # fs = butlast ?L @ last ?L # f # vs" by (simp add: fs)
          then have "fits_in K n s ((B, 0) # fs) (freep s) (hptr s (freep s))"
            unfolding fits_in_def using True le malloc_take [of "adr n" s "freep s" K] e' f(2)
            by (intro exI [of _ "butlast ?L"] exI [of _ "last ?L"] exI [of _ f] exI [of _ vs]) simp
          then show ?thesis by simp
        next
          case False
          then have "?g (freep s) (hptr s (freep s)) = get_more K (adr n) s"
            using e' le malloc_more [OF _ refl] by metis
          then show ?thesis using False 2(1) u(1) by (auto simp: fs)
        qed
      qed
    qed
  qed
qed

subsection \<open>malloc and free\<close>

lemma fits_in_heap:
  assumes i: "heap_inv B lo fs A s" and n: "0 < n" and f: "fits_in K n s ((B, 0) # fs) p0 p"
  shows "\<exists>a fs' s'. malloc_from K (adr n) s p0 p = Some (adr (a + 8), s')
    \<and> heap_inv B lo fs' (insert (a, n) A) s' \<and> (\<forall>y \<in> A. kept y s s') \<and> ext (a, n) \<subseteq> area (set fs)"
proof -
  obtain pre q x post where x: "(B, 0) # fs = pre @ q # x # post" "n \<le> snd x"
      "malloc_from K (adr n) s p0 p = Some (take_block (adr n) (adr (fst q)) (adr (fst x)) s)"
    using f by (auto simp: fits_in_def)
  obtain r s' where r: "take_block (adr n) (adr (fst q)) (adr (fst x)) s = (r, s')" by (cases "take_block (adr n) (adr (fst q)) (adr (fst x)) s")
  from take_block_heap [OF i x(1) n x(2) r] x(3) r show ?thesis by auto
qed

lemma malloc_heap:
  assumes i: "heap_inv B lo fs A s" and n: "0 < n" "8 * n < 2 ^ 31" and K: "sbrk_ok K"
  shows "\<exists>p s'. malloc_from K (adr n) s (freep s) (hptr s (freep s)) = Some (p, s') \<and> (\<forall>y \<in> A. kept y s s') \<and>
    (if p = 0 then \<not> K (hbrk s) (adr (8 * max 4096 n)) \<and> heap_inv B lo fs A s'
     else \<exists>a fs'. p = adr (a + 8) \<and> (a, n) \<notin> A \<and> heap_inv B lo fs' (insert (a, n) A) s')"
proof -
  have n32: "n < 2 ^ 32" using n by simp
  have got: ?thesis if g: "malloc_from K (adr n) s (freep s) (hptr s (freep s)) = malloc_from K (adr n) t (freep t) (hptr t (freep t))"
      "heap_inv B lo gs A t" "\<forall>y \<in> A. kept y s t" "fits_in K n t ((B, 0) # gs) (freep t) (hptr t (freep t))" for t gs
  proof -
    obtain a fs' s' where m: "malloc_from K (adr n) t (freep t) (hptr t (freep t)) = Some (adr (a + 8), s')"
        "heap_inv B lo fs' (insert (a, n) A) s'" "\<forall>y \<in> A. kept y t s'" "ext (a, n) \<subseteq> area (set gs)"
      using fits_in_heap [OF g(2) n(1) g(4)] by auto
    have "adr (a + 8) \<noteq> 0"
      using heap_bounds(4,5) [OF m(2), of "(a, n)"] n(1) unat_adr [of "a + 8"] by auto
    moreover have "(a, n) \<notin> A"
    proof
      assume y: "(a, n) \<in> A"
      then have "ext (a, n) \<inter> area (set gs) = {}" using g(2) by (simp add: heap_inv_def)
      moreover have "a \<in> ext (a, n)" using n(1) by (simp add: ext_def)
      ultimately show False using m(4) by blast
    qed
    moreover have "\<forall>y \<in> A. kept y s s'" using g(3) m(3) by (blast intro: kept_trans)
    ultimately show ?thesis using m(1,2) g(1) by auto
  qed
  from search [OF i n(1) n32]
  show ?thesis
  proof
    assume "fits_in K n s ((B, 0) # fs) (freep s) (hptr s (freep s))"
    then show ?thesis by (intro got [OF refl i]) (simp_all add: kept_refl)
  next
    assume "(\<forall>w \<in> set fs. snd w < n) \<and> malloc_from K (adr n) s (freep s) (hptr s (freep s)) = get_more K (adr n) s"
    then have g: "malloc_from K (adr n) s (freep s) (hptr s (freep s)) = get_more K (adr n) s" by simp
    from morecore_heap [OF i n(2) K]
    show ?thesis
    proof (elim disjE conjE exE bexE)
      assume "morecore K (adr n) s = Some (0, s)" "\<not> K (hbrk s) (adr (8 * max 4096 n))"
      then show ?thesis using g i by (auto simp: get_more_def kept_refl)
    next
      fix fs' s' c
      assume m: "morecore K (adr n) s = Some (freep s', s')" "heap_inv B lo fs' A s'" "\<forall>y \<in> A. kept y s s'"
        "c \<in> set fs'" "n \<le> snd c"
      have e: "malloc_from K (adr n) s (freep s) (hptr s (freep s)) = malloc_from K (adr n) s' (freep s') (hptr s' (freep s'))"
        using g m(1) freep_nonzero [OF m(2)] by (simp add: get_more_def)
      have "fits_in K n s' ((B, 0) # fs') (freep s') (hptr s' (freep s'))"
        using search [OF m(2) n(1) n32, of K] m(4,5) by fastforce
      then show ?thesis by (rule got [OF e m(2,3)])
    qed
  qed
qed

text \<open>
  The state of a program's heap with the blocks \<open>A\<close> handed out: before the first call \<open>freep\<close> is 0 and
  memory above the break is not in use yet.
\<close>

definition heap_state :: "nat \<Rightarrow> block set \<Rightarrow> uheap \<Rightarrow> bool" where
  "heap_state B A s \<longleftrightarrow>
     freep s = 0 \<and> A = {} \<and> 0 < B \<and> B + 8 \<le> unat (hbrk s) \<or> (\<exists>lo fs. heap_inv B lo fs A s)"

lemma first_heap:
  assumes "0 < B" "B + 8 \<le> unat (hbrk s)"
  shows "heap_inv B (unat (hbrk s)) [] {} (set_hsize (adr B) 0 ((set_ptr (adr B) (adr B) s)\<lparr>freep := adr B\<rparr>))"
proof -
  have "B + 8 \<le> 2 ^ 32" using assms(2) less_imp_le [OF unat_u32_lt [of "hbrk s"]] by (rule order_trans)
  then show ?thesis using assms by (simp add: heap_inv_def header_def area_def) (simp add: adr_def)
qed

lemma units_for_nat: "unat nbytes < 2 ^ 31 - 16 \<Longrightarrow> units_for nbytes = adr ((unat nbytes + 7) div 8 + 1)"
proof -
  assume n: "unat nbytes < 2 ^ 31 - 16"
  have "unat (nbytes + 7) = unat nbytes + 7" using n by (simp add: unat_word_ariths)
  then have "unat ((nbytes + 7) div 8) = (unat nbytes + 7) div 8" by (simp add: unat_div_distrib)
  then have "(nbytes + 7) div 8 = adr ((unat nbytes + 7) div 8)" by (metis adr_unat)
  then show ?thesis by (simp add: units_for_def HEADER_def adr_def add.commute [of nbytes])
qed

text \<open>C11: \<open>malloc\<close> returns. It gives back a block of at least the size asked for that overlaps neither
  the blocks handed out before nor anything below the heap, or 0 when the kernel refuses more memory;
  the contents and the sizes of all blocks handed out before stay as they are.\<close>

theorem malloc_gives_fresh_memory:
  assumes "heap_state B A s" and "unat nbytes < 2 ^ 31 - 16" and "sbrk_ok K"
  shows "\<exists>p s'. umalloc (adr B) K nbytes s = Some (p, s') \<and> (\<forall>y \<in> A. kept y s s') \<and>
    (if p = 0 then heap_state B A s' \<and> (\<exists>n. n \<le> unat nbytes div 8 + 2 \<and> \<not> K (hbrk s) (adr (8 * max 4096 n)))
     else \<exists>a n. p = adr (a + 8) \<and> unat nbytes \<le> 8 * n - 8 \<and> B + 8 \<le> a \<and> a + 8 * n \<le> unat (hbrk s')
       \<and> (\<forall>y \<in> A. ext y \<inter> ext (a, n) = {}) \<and> heap_state B (insert (a, n) A) s')"
proof -
  define t where "t = (if freep s = 0 then set_hsize (adr B) 0 ((set_ptr (adr B) (adr B) s)\<lparr>freep := adr B\<rparr>) else s)"
  define n where "n = (unat nbytes + 7) div 8 + 1"
  have n: "0 < n" "8 * n < 2 ^ 31" "unat nbytes \<le> 8 * n - 8" "units_for nbytes = adr n"
    using assms(2) units_for_nat by (auto simp: n_def)
  obtain lo fs where i: "heap_inv B lo fs A t" "\<forall>y \<in> A. kept y s t" "hbrk t = hbrk s"
  proof (cases "freep s = 0")
    case True
    then have e: "A = {}" "0 < B" "B + 8 \<le> unat (hbrk s)"
      using assms(1) freep_nonzero [of B _ _ A s] by (auto simp: heap_state_def)
    from first_heap [OF e(2,3)] show ?thesis using that True e(1) by (simp add: t_def)
  next
    case False
    then show ?thesis using that assms(1) by (auto simp: heap_state_def t_def kept_refl)
  qed
  from malloc_heap [OF i(1) n(1,2) assms(3)]
  obtain p s' where m: "malloc_from K (adr n) t (freep t) (hptr t (freep t)) = Some (p, s')" "\<forall>y \<in> A. kept y t s'"
      "if p = 0 then \<not> K (hbrk t) (adr (8 * max 4096 n)) \<and> heap_inv B lo fs A s'
       else \<exists>a fs'. p = adr (a + 8) \<and> (a, n) \<notin> A \<and> heap_inv B lo fs' (insert (a, n) A) s'" by blast
  have u: "umalloc (adr B) K nbytes s = Some (p, s')" using m(1) by (simp add: umalloc_def t_def [symmetric] n(4))
  have k: "\<forall>y \<in> A. kept y s s'" using i(2) m(2) by (blast intro: kept_trans)
  show ?thesis
  proof (cases "p = 0")
    case True
    moreover have "n \<le> unat nbytes div 8 + 2" by (simp add: n_def)
    moreover have "heap_state B A s'" using True m(3) unfolding heap_state_def by auto
    ultimately show ?thesis using u k m(3) i(3) by auto
  next
    case False
    then obtain a fs' where a: "p = adr (a + 8)" "(a, n) \<notin> A" "heap_inv B lo fs' (insert (a, n) A) s'" using m(3) by auto
    have "\<forall>y \<in> A. ext y \<inter> ext (a, n) = {}"
      using blocks_disjoint [OF a(3)] a(2) by blast
    moreover have "B + 8 \<le> a" "a + 8 * n \<le> unat (hbrk s')" using heap_bounds(2,4) [OF a(3), of "(a, n)"] by auto
    moreover have "heap_state B (insert (a, n) A) s'" using a(3) unfolding heap_state_def by blast
    ultimately have "\<exists>a n. p = adr (a + 8) \<and> unat nbytes \<le> 8 * n - 8 \<and> B + 8 \<le> a \<and> a + 8 * n \<le> unat (hbrk s')
       \<and> (\<forall>y \<in> A. ext y \<inter> ext (a, n) = {}) \<and> heap_state B (insert (a, n) A) s'"
      using a(1) n(3) by blast
    then show ?thesis using u k False by auto
  qed
qed

lemma malloc_gives_fresh_memory_witness:
  "\<exists>p s'. umalloc (adr 64) (\<lambda>b k. unat b + unat k < 2 ^ 32) 100 \<lparr>hmem = (\<lambda>_. 0), freep = 0, hbrk = 4096\<rparr> = Some (p, s')
    \<and> p \<noteq> 0"
proof -
  let ?s = "\<lparr>hmem = (\<lambda>_. 0), freep = 0, hbrk = 4096\<rparr>" and ?K = "\<lambda>b k :: u32. unat (b :: u32) + unat k < 2 ^ 32"
  have "heap_state 64 {} ?s" "unat (100 :: u32) < 2 ^ 31 - 16" "sbrk_ok ?K"
    by (simp_all add: heap_state_def sbrk_ok_def)
  from malloc_gives_fresh_memory [OF this]
  obtain p s' where m: "umalloc (adr 64) ?K 100 ?s = Some (p, s')"
      "if p = 0 then heap_state 64 {} s' \<and> (\<exists>n. n \<le> unat (100 :: u32) div 8 + 2 \<and> \<not> ?K (hbrk ?s) (adr (8 * max 4096 n)))
       else \<exists>a n. p = adr (a + 8) \<and> unat (100 :: u32) \<le> 8 * n - 8 \<and> 64 + 8 \<le> a \<and> a + 8 * n \<le> unat (hbrk s')
         \<and> (\<forall>y \<in> {}. ext y \<inter> ext (a, n) = {}) \<and> heap_state 64 (insert (a, n) {}) s'"
    by (elim exE conjE) (rule that, assumption+)
  have "?K (hbrk ?s) (adr (8 * max 4096 n))" if "n \<le> unat (100 :: u32) div 8 + 2" for n
    using that by (simp add: max_def unat_adr)
  then have "p \<noteq> 0" using m(2) by (auto split: if_splits)
  then show ?thesis using m(1) by blast
qed

text \<open>Free blocks that fill the heap are one block.\<close>

lemma one_free_block:
  assumes i: "heap_inv B lo fs {} s" and lo: "lo < unat (hbrk s)"
  shows "\<exists>n. fs = [(lo, n)] \<and> lo + 8 * n = unat (hbrk s)"
proof -
  let ?m = "unat (hbrk s) - lo"
  have a: "area (set fs) = {lo..<lo + ?m}" "chain fs" using i lo by (simp_all add: heap_inv_def)
  then obtain c where c: "c \<in> set fs" "{lo..<lo + ?m} \<subseteq> ext c"
    using interval_in_block [of fs lo ?m] lo by auto
  have cf: "c \<in> set fs \<union> {}" using c(1) by simp
  have "lo \<in> ext c" "lo + ?m - 1 \<in> ext c" using c(2) lo by auto
  then have fc: "fst c = lo" "lo + 8 * snd c = unat (hbrk s)"
    using heap_bounds(1,2) [OF i cf] lo by (auto simp: ext_def)
  have "d = c" if d: "d \<in> set fs" for d
  proof (rule ccontr)
    assume "d \<noteq> c"
    then have "ext c \<inter> ext d = {}" using chain_ext [OF a(2) c(1) d] by blast
    moreover have "fst d \<in> ext d" "ext d \<subseteq> {lo..<lo + ?m}"
      using heap_bounds(3) [OF i, of d] d unfolding a(1) [symmetric] by (auto simp: ext_def area_def)
    ultimately show False using c(2) by blast
  qed
  then have "set fs = {c}" using c(1) by blast
  moreover have "distinct fs" by (rule chain_distinct [OF a(2)])
  ultimately have "fs = [c]" by (cases fs; cases "tl fs") auto
  then show ?thesis using fc by (intro exI [of _ "snd c"]) (cases c; simp)
qed

text \<open>C25: \<open>free\<close> returns. It takes exactly the block it is given out of the blocks handed out and leaves
  the contents and the sizes of the others as they are; after the last block is freed, the free
  blocks have been joined to one.\<close>

theorem free_returns_the_block:
  assumes "heap_inv B lo fs A s" and "b \<in> A"
  shows "\<exists>fs' s'. ufree (adr (fst b + 8)) s = Some s' \<and> heap_inv B lo fs' (A - {b}) s'
    \<and> area (set fs') = ext b \<union> area (set fs) \<and> (\<forall>y \<in> A - {b}. kept y s s') \<and> hbrk s' = hbrk s
    \<and> (A = {b} \<longrightarrow> (\<exists>n. fs' = [(lo, n)] \<and> lo + 8 * n = unat (hbrk s)))"
proof -
  obtain fs' s' where f: "ufree (adr (fst b + 8)) s = Some s'" "heap_inv B lo fs' (A - {b}) s'" "hbrk s' = hbrk s"
      "\<forall>y \<in> A - {b}. kept y s s'" "area (set fs') = ext b \<union> area (set fs)"
    using free_heap [OF assms] by blast
  have "\<exists>n. fs' = [(lo, n)] \<and> lo + 8 * n = unat (hbrk s)" if "A = {b}"
  proof -
    have i: "heap_inv B lo fs' {} s'" using f(2) that by simp
    have "b \<in> set fs \<union> A" using assms(2) by simp
    then have "lo < unat (hbrk s')" using heap_bounds(1-3) [OF assms(1), of b] f(3) by simp
    from one_free_block [OF i this] show ?thesis using f(3) by auto
  qed
  then show ?thesis using f by blast
qed

lemma free_returns_the_block_witness:
  "\<exists>s fs' s'. hbrk s = 4128 \<and> ufree (adr 4104) s = Some s' \<and> heap_inv 64 4096 fs' {} s' \<and> fs' = [(4096, 4)]"
proof -
  let ?s = "\<lparr>hmem = (\<lambda>_. 0), freep = 0, hbrk = 4096\<rparr>"
  let ?t = "set_hsize (adr 64) 0 ((set_ptr (adr 64) (adr 64) ?s)\<lparr>freep := adr 64\<rparr>)"
  let ?u = "set_hsize (hbrk ?t) (adr 4) (?t\<lparr>hbrk := hbrk ?t + adr (8 * 4)\<rparr>)"
  have "heap_inv 64 4096 [] {} ?t" using first_heap [of 64 ?s] by simp
  from heap_extend(1) [OF this, of 4] have i: "heap_inv 64 4096 [] {(4096, 4)} ?u" by simp
  have e: "hbrk ?u = 4128" by (simp add: adr_def)
  obtain fs' s' where f: "ufree (adr 4104) ?u = Some s'" "heap_inv 64 4096 fs' {} s'" "fs' = [(4096, 4)]"
    using free_returns_the_block [OF i, of "(4096, 4)"] unfolding e by auto
  show ?thesis by (intro exI [of _ ?u] exI [of _ fs'] exI [of _ s'] conjI e f)
qed

end
