(* ===== verification/Boot_Loader.thy ===== *)
theory Boot_Loader
  imports Exec Sdcard Printf
begin

text \<open>
  The boot loader in the block RAM of the FPGA (\<open>fpga/boot/main.c\<close>, \<open>spi.c\<close>, \<open>printf.c\<close>). It looks on the
  card for the first inode whose file is an ELF program with entry 0x80000000, copies the segments of
  the program to RAM and jumps to the entry. Its SPI routines are those of the kernel's driver (theory
  Sdcard) except for the block read, which computes the checksum as it goes and keeps it in a global
  variable. The RAM is a memory of its own, as the loader's variables are in the block RAM. The loops
  over superblock reads and over inodes can go on forever and have fuel.
\<close>

record 'd boot =
  bspi :: "'d spi"
  bcrc :: u32
  bram :: mem
  bbuf :: "u8 list"
  bindirect :: "u8 list"
  bsb :: superblock
  bfile :: dinode
  belf :: elfhdr
  bout :: "u8 list"
  buart :: "(nat \<times> u8) list"

text \<open>The program header with the physical address, which the kernel's loader does not use.\<close>

record bproghdr =
  bp_type :: u32
  bp_off :: u32
  bp_paddr :: u32
  bp_filesz :: u32

definition bproghdr_of :: "u8 list \<Rightarrow> bproghdr" where
  "bproghdr_of d = \<lparr>bp_type = get32 d 0, bp_off = get32 d 4, bp_paddr = get32 d 12, bp_filesz = get32 d 16\<rparr>"

subsection \<open>Output\<close>

definition printbyte :: "u8 \<Rightarrow> u8 list" where
  "printbyte x = [digits ! unat (drop_bit 4 x AND 15), digits ! unat (x AND 15)]"

definition boot_conv :: "u8 \<Rightarrow> parg list \<Rightarrow> (u8 list \<times> parg list) res" where
  "boot_conv c args =
     (if c = 98 then (case args of PInt x # rest \<Rightarrow> Ok (printbyte (ucast x), rest) | _ \<Rightarrow> Fail OutOfBounds)
      else if c = 100 then
        (case args of PInt x # rest \<Rightarrow> seq (printint x 10 True) (\<lambda>t. Ok (t, rest)) | _ \<Rightarrow> Fail OutOfBounds)
      else if c = 120 then
        (case args of PInt x # rest \<Rightarrow> seq (printint x 16 True) (\<lambda>t. Ok (t, rest)) | _ \<Rightarrow> Fail OutOfBounds)
      else if c = 112 then (case args of PInt x # rest \<Rightarrow> Ok (printptr x, rest) | _ \<Rightarrow> Fail OutOfBounds)
      else if c = 115 then
        (case args of
           PStr None # rest \<Rightarrow> Ok (null_string, rest)
         | PStr (Some t) # rest \<Rightarrow> Ok (takeWhile (\<lambda>b. b \<noteq> 0) t, rest)
         | _ \<Rightarrow> Fail OutOfBounds)
      else if c = 37 then Ok ([37], args)
      else Ok ([37, c], args))"

fun boot_printf :: "u8 list \<Rightarrow> parg list \<Rightarrow> u8 list res" where
  "boot_printf [] args = Ok []"
| "boot_printf [c] args = (if c = 37 then Ok [] else Ok [c])"
| "boot_printf (c # d # fmt) args =
     (if c \<noteq> 37 then seq (boot_printf (d # fmt) args) (\<lambda>t. Ok (c # t))
      else seq (boot_conv d args) (\<lambda>(t, args). seq (boot_printf fmt args) (\<lambda>u. Ok (t @ u))))"

definition say :: "u8 list \<Rightarrow> parg list \<Rightarrow> 'd boot \<Rightarrow> 'd boot res" where
  "say fmt args s = seq (boot_printf fmt args) (\<lambda>t. Ok (s\<lparr>bout := bout s @ t\<rparr>))"

subsection \<open>The card\<close>

definition crc16 :: "u8 \<Rightarrow> u32 \<Rightarrow> u32" where
  "crc16 c crc = crc_bits 8 (crc XOR push_bit 8 (ucast c))"

text \<open>
  \<open>spi_rb\<close>: the value returned, which is the checksum, and the bytes stored, if any. When the card does
  not accept the command, nothing is stored and the checksum of the last block is returned.
\<close>

definition boot_rb :: "'d xfer \<Rightarrow> u32 \<Rightarrow> 'd boot \<Rightarrow> (u32 \<times> u8 list option) \<times> 'd boot" where
  "boot_rb xfer b s =
     (case spi_cmd xfer 17 (byte_of 3 b) (byte_of 2 b) (byte_of 1 b) (byte_of 0 b) 0 (bspi s) of (r, p) \<Rightarrow>
        if r = 0 then
          case spi_bytes xfer 512 (poll_ff xfer 100000 p) of (data, p) \<Rightarrow>
          case spi_bytes xfer 2 p of (cs, p) \<Rightarrow>
            let crc = fold crc16 cs (fold crc16 data 0)
            in ((crc, Some data), s\<lparr>bspi := p, bcrc := crc\<rparr>)
        else ((bcrc s, None), s\<lparr>bspi := p\<rparr>))"

definition read_buf :: "'d xfer \<Rightarrow> u32 \<Rightarrow> string \<Rightarrow> 'd boot \<Rightarrow> 'd boot res" where
  "read_buf xfer b msg s =
     (case boot_rb xfer b s of ((crc, d), s) \<Rightarrow>
        let s = (case d of None \<Rightarrow> s | Some d \<Rightarrow> s\<lparr>bbuf := d\<rparr>)
        in if crc \<noteq> 0 then Fail (Panic msg) else Ok s)"

definition getSuperblock :: "'d xfer \<Rightarrow> 'd boot \<Rightarrow> 'd boot res" where
  "getSuperblock xfer s =
     seq (read_buf xfer 1 ''getSuperblock()'' (s\<lparr>bspi := spi_init xfer (bspi s)\<rparr>)) (\<lambda>s.
       Ok (s\<lparr>bsb := sb_of_bytes (bbuf s)\<rparr>))"

definition getELFHeader :: "'d xfer \<Rightarrow> 'd boot \<Rightarrow> 'd boot res" where
  "getELFHeader xfer s =
     seq (read_buf xfer (d_addrs (bfile s) ! 0) ''getELFHeader()'' s) (\<lambda>s.
       Ok (s\<lparr>belf := elfhdr_of (bbuf s)\<rparr>))"

text \<open>The array of indirect entries is four times as long as the block read into it.\<close>

definition getInode :: "'d xfer \<Rightarrow> u32 \<Rightarrow> 'd boot \<Rightarrow> 'd boot res" where
  "getInode xfer n s =
     (let block = sb_inodestart (bsb s) + n * 64 div 512; off = n * 64 mod 512
      in seq (read_buf xfer block ''read block'' s) (\<lambda>s.
           let s = s\<lparr>bfile := dinode_at (bbuf s) (unat off div 64)\<rparr>
           in case boot_rb xfer (d_addrs (bfile s) ! 12) s of ((crc, d), s) \<Rightarrow>
                let s = (case d of None \<Rightarrow> s | Some d \<Rightarrow> s\<lparr>bindirect := d @ drop 512 (bindirect s)\<rparr>)
                in if crc \<noteq> 0 then Fail (Panic ''getInode()'') else Ok s))"

subsection \<open>Loading\<close>

text \<open>The number of the block of the file at \<open>off\<close>, a C \<open>int\<close>.\<close>

definition load_block :: "int \<Rightarrow> 'd boot \<Rightarrow> u32 res" where
  "load_block off s =
     (let k = off div 512
      in if k < 0 then Fail OutOfBounds
         else if k < 12 then Ok (d_addrs (bfile s) ! nat k)
         else if 4 * nat (k - 12) + 4 \<le> length (bindirect s) then Ok (get32 (bindirect s) (4 * nat (k - 12)))
         else Fail OutOfBounds)"

function load :: "'d xfer \<Rightarrow> int \<Rightarrow> u32 \<Rightarrow> int \<Rightarrow> 'd boot \<Rightarrow> 'd boot res" where
  "load xfer off pa n s =
     (if n > 0 then
        seq (load_block off s) (\<lambda>block.
          case boot_rb xfer block s of ((crc, d), s) \<Rightarrow>
            let s = (case d of None \<Rightarrow> s | Some d \<Rightarrow> s\<lparr>bram := fill (bram s) pa (length d) (\<lambda>i. d ! i)\<rparr>)
            in if crc \<noteq> 0 then Fail (Panic ''load()'') else load xfer (off + 512) (pa + 512) (n - 512) s)
      else Ok s)"
  by pat_completeness auto
termination by (relation "measure (\<lambda>(xfer, off, pa, n, s). nat n)") auto

declare load.simps [simp del]

text \<open>The loop over the program headers, which must be in the first block of the file.\<close>

primrec load_segments :: "'d xfer \<Rightarrow> nat \<Rightarrow> nat \<Rightarrow> 'd boot \<Rightarrow> 'd boot res" where
  "load_segments xfer 0 i s = Ok s"
| "load_segments xfer (Suc k) i s =
     (let at = unat (elf_phoff (belf s)) + 32 * i
      in if length (bbuf s) < at + 32 then Fail OutOfBounds
         else
           let prog = bproghdr_of (drop at (bbuf s))
           in seq (say (ascii ''%d  %p %p %p '') [PInt (of_nat i), PInt (bp_type prog), PInt (bp_paddr prog), PInt (bp_filesz prog)] s) (\<lambda>s.
              seq (if bp_type prog = 1
                   then seq (load xfer (sint (bp_off prog)) (bp_paddr prog) (sint (bp_filesz prog)) s) (say (ascii ''OK'') [])
                   else Ok s) (\<lambda>s.
              seq (say [10] [] s) (load_segments xfer k (Suc i)))))"

primrec find_superblock :: "'d xfer \<Rightarrow> nat \<Rightarrow> 'd boot \<Rightarrow> 'd boot res" where
  "find_superblock xfer 0 s = Fail Diverges"
| "find_superblock xfer (Suc k) s =
     (if sb_magic (bsb s) \<noteq> FSMAGIC
      then seq (getSuperblock xfer s) (\<lambda>s. seq (say (ascii ''.'') [] s) (find_superblock xfer k))
      else Ok s)"

primrec find_kernel :: "'d xfer \<Rightarrow> nat \<Rightarrow> u32 \<Rightarrow> 'd boot \<Rightarrow> 'd boot res" where
  "find_kernel xfer 0 inode s = Fail Diverges"
| "find_kernel xfer (Suc k) inode s =
     (if elf_magic (belf s) \<noteq> ELF_MAGIC \<or> elf_entry (belf s) \<noteq> 0x80000000
      then seq (getInode xfer (inode + 1) s) (\<lambda>s.
           seq (getELFHeader xfer s) (\<lambda>s.
           seq (say (ascii ''.'') [] s) (find_kernel xfer k (inode + 1))))
      else Ok s)"

primrec clear_words :: "nat \<Rightarrow> u32 \<Rightarrow> mem \<Rightarrow> mem" where
  "clear_words 0 i m = m"
| "clear_words (Suc k) i m = clear_words k (i + 4) (store32 m i 0)"

definition boot_banner :: "u8 list" where
  "boot_banner =
     [10] @ ascii '' ___ ___ ___  ___  __   __'' @ [10] @ ascii ''| _ '' @ [92] @ ascii ''_ _/ __|/ __|_'' @ [92] @ ascii '' '' @ [92]
     @ ascii '' / /'' @ [10] @ ascii ''|   /| |'' @ [92] @ ascii ''__ '' @ [92] @ ascii '' (_|___'' @ [92] @ ascii '' V / '' @ [10]
     @ ascii ''|_|_'' @ [92] @ ascii ''___|___/'' @ [92] @ ascii ''___|   '' @ [92] @ ascii ''_/  '' @ [10, 10]"

definition boot_devices :: "u8 list" where
  "boot_devices =
     ascii ''Processor: rv32ia @32MHz V1.3'' @ [10, 10] @ ascii ''0x00001000 BOOT (12 KB)'' @ [10]
     @ ascii ''0x02000000 CLINT'' @ [10] @ ascii ''0x0C000000 PLIC'' @ [10] @ ascii ''0x10000000 UART'' @ [10]
     @ ascii ''0x10001000 SD-CARD'' @ [10] @ ascii ''0x80000000 RAM (512 KB)'' @ [10, 10]"

text \<open>\<open>uart_init\<close>: the line's registers and what is written to them.\<close>

definition boot_uart_init :: "'d boot \<Rightarrow> 'd boot" where
  "boot_uart_init s = s\<lparr>buart := buart s @
     [(3, push_bit 7 1), (0, ucast ((32000000 div 115200 :: u32) AND 0xff)),
      (1, ucast (drop_bit 8 (32000000 div 115200 :: u32))), (3, 0)]\<rparr>"

text \<open>\<open>main\<close> after \<open>uart_init\<close>; the result is the address it jumps to.\<close>

definition boot_run :: "'d xfer \<Rightarrow> nat \<Rightarrow> 'd boot \<Rightarrow> (u32 \<times> 'd boot) res" where
  "boot_run xfer fuel s =
     seq (say (boot_banner @ boot_devices) [] s) (\<lambda>s.
     let s = s\<lparr>bram := clear_words 0x20000 0x80000000 (bram s)\<rparr>
     in seq (say (ascii ''sb_magic 0x10203040'') [] s) (\<lambda>s.
        seq (find_superblock xfer fuel s) (\<lambda>s.
        seq (say (ascii ''OK'' @ [10] @ ascii ''e_magic  0x464c457f'') [] s) (\<lambda>s.
        seq (find_kernel xfer fuel 0 s) (\<lambda>s.
        seq (say (ascii ''OK'' @ [10] @ ascii ''e_entry  %p.'') [PInt (elf_entry (belf s))] s) (\<lambda>s.
        seq (say (ascii ''OK'' @ [10, 10] @ ascii ''   p_type     p_addr     p_filesz   load'' @ [10]) [] s) (\<lambda>s.
        seq (load_segments xfer (unat (elf_phnum (belf s))) 0 s) (\<lambda>s.
        seq (say ([10] @ ascii ''Welcome to rv32ia 6th Edition UNIX'' @ [10]) [] s) (\<lambda>s.
          Ok (elf_entry (belf s), s))))))))))"

definition boot_main :: "'d xfer \<Rightarrow> nat \<Rightarrow> 'd boot \<Rightarrow> (u32 \<times> 'd boot) res" where
  "boot_main xfer fuel s = boot_run xfer fuel (boot_uart_init s)"

end
