(* ===== verification/Mkfs.thy ===== *)
theory Mkfs
  imports Fs_Inode User_Ulib
begin

text \<open>
  The program that makes the file system image (\<open>mkfs/mkfs.c\<close>). The image is the list of its blocks;
  structures are written in the byte order of the disk, as the host is little-endian; the
  files to be copied are given by what \<open>open\<close> and \<open>read\<close> return for their names. A failed \<open>assert\<close>
  and an \<open>exit(1)\<close> are panics. The messages printed are left out.
\<close>

subsection \<open>The image\<close>

definition FSSIZE :: nat where "FSSIZE = 2000"
definition NINODES :: nat where "NINODES = 400"
definition nbitmap :: nat where "nbitmap = FSSIZE div (BSIZE * 8) + 1"
definition ninodeblocks :: nat where "ninodeblocks = NINODES div IPB + 1"
definition nlog :: nat where "nlog = LOGSIZE"
definition nmeta :: nat where "nmeta = 2 + nlog + ninodeblocks + nbitmap"
definition nblocks :: nat where "nblocks = FSSIZE - nmeta"

text \<open>\<open>xshort\<close> and \<open>xint\<close>: the value whose bytes in memory are those of the disk format.\<close>

definition xshort :: "u16 \<Rightarrow> u16" where
  "xshort x = of_le16 (ucast x) (ucast (drop_bit 8 x))"

definition xint :: "u32 \<Rightarrow> u32" where
  "xint x = of_le32 (ucast x) (ucast (drop_bit 8 x)) (ucast (drop_bit 16 x)) (ucast (drop_bit 24 x))"

record mkst =
  img :: "u8 list list"
  freeinode :: u32
  freeblock :: u32

type_synonym 'a mres = "('a \<times> mkst) res"

definition wsect :: "nat \<Rightarrow> u8 list \<Rightarrow> mkst \<Rightarrow> mkst" where
  "wsect sec b m =
     m\<lparr>img := (if sec < length (img m) then (img m)[sec := b]
               else img m @ replicate (sec - length (img m)) (replicate BSIZE 0) @ [b])\<rparr>"

definition rsect :: "nat \<Rightarrow> mkst \<Rightarrow> u8 list res" where
  "rsect sec m = (if sec < length (img m) then Ok (img m ! sec) else Fail (Panic ''read''))"

definition mksb :: superblock where
  "mksb =
     \<lparr>sb_magic = FSMAGIC, sb_size = xint (of_nat FSSIZE), sb_nblocks = xint (of_nat nblocks),
      sb_ninodes = xint (of_nat NINODES), sb_nlog = xint (of_nat nlog), sb_logstart = xint 2,
      sb_inodestart = xint (of_nat (2 + nlog)), sb_bmapstart = xint (of_nat (2 + nlog + ninodeblocks))\<rparr>"

definition sb_bytes :: "superblock \<Rightarrow> u8 list" where
  "sb_bytes b =
     le32 (sb_magic b) @ le32 (sb_size b) @ le32 (sb_nblocks b) @ le32 (sb_ninodes b) @ le32 (sb_nlog b)
     @ le32 (sb_logstart b) @ le32 (sb_inodestart b) @ le32 (sb_bmapstart b)"

subsection \<open>Inodes\<close>

definition winode :: "u32 \<Rightarrow> dinode \<Rightarrow> mkst \<Rightarrow> mkst res" where
  "winode i ip m =
     (let bn = unat (IBLOCK i mksb)
      in seq (rsect bn m) (\<lambda>buf. Ok (wsect bn (put_dinode (unat i mod IPB) ip buf) m)))"

definition rinode :: "u32 \<Rightarrow> mkst \<Rightarrow> dinode res" where
  "rinode i m = seq (rsect (unat (IBLOCK i mksb)) m) (\<lambda>buf. Ok (dinode_at buf (unat i mod IPB)))"

definition mk_ialloc :: "u16 \<Rightarrow> mkst \<Rightarrow> u32 mres" where
  "mk_ialloc ty m =
     (let i = freeinode m; m = m\<lparr>freeinode := freeinode m + 1\<rparr>;
          din = \<lparr>d_type = xshort ty, d_major = 0, d_minor = 0, d_nlink = xshort 1, d_size = xint 0,
                 d_addrs = replicate (Suc NDIRECT) 0\<rparr>
      in seq (winode i din m) (\<lambda>m. Ok (i, m)))"

definition new_block :: "mkst \<Rightarrow> u32 \<times> mkst" where
  "new_block m = (xint (freeblock m), m\<lparr>freeblock := freeblock m + 1\<rparr>)"

text \<open>The block of the file that \<open>iappend\<close> writes to, allocated if there is none.\<close>

definition append_block :: "nat \<Rightarrow> dinode \<Rightarrow> mkst \<Rightarrow> (u32 \<times> dinode) mres" where
  "append_block fbn din m =
     (if fbn < NDIRECT then
        case (if xint (d_addrs din ! fbn) = 0
              then case new_block m of (b, m) \<Rightarrow> (din\<lparr>d_addrs := (d_addrs din)[fbn := b]\<rparr>, m) else (din, m)) of
          (din, m) \<Rightarrow> Ok ((xint (d_addrs din ! fbn), din), m)
      else
        case (if xint (d_addrs din ! NDIRECT) = 0
              then case new_block m of (b, m) \<Rightarrow> (din\<lparr>d_addrs := (d_addrs din)[NDIRECT := b]\<rparr>, m) else (din, m)) of
          (din, m) \<Rightarrow>
            let ib = unat (xint (d_addrs din ! NDIRECT)); k = 4 * (fbn - NDIRECT)
            in seq (rsect ib m) (\<lambda>ind.
                 case (if get32 ind k = 0
                       then case new_block m of (b, m) \<Rightarrow> let ind = put32 k b ind in (ind, wsect ib ind m) else (ind, m)) of
                   (ind, m) \<Rightarrow> Ok ((xint (get32 ind k), din), m)))"

function iappend_from :: "u8 list \<Rightarrow> nat \<Rightarrow> dinode \<Rightarrow> mkst \<Rightarrow> (nat \<times> dinode) mres" where
  "iappend_from p off din m =
     (if p = [] then Ok ((off, din), m)
      else
        let fbn = off div BSIZE
        in if \<not> fbn < MAXFILE then Fail (Panic ''assert'')
           else seq (append_block fbn din m) (\<lambda>((x, din), m).
             let n1 = min (length p) ((fbn + 1) * BSIZE - off); k = off - fbn * BSIZE
             in seq (rsect (unat x) m) (\<lambda>buf.
                  let m = wsect (unat x) (take k buf @ take n1 p @ drop (k + n1) buf) m
                  in iappend_from (drop n1 p) (off + n1) din m)))"
  by pat_completeness auto
termination
proof (relation "measure (\<lambda>(p, off, din, m). length p)", goal_cases)
  case (2 p off)
  have "off < (off div BSIZE + 1) * BSIZE"
    using dividend_less_times_div [of BSIZE off] by (simp add: BSIZE_def algebra_simps)
  then show ?case using 2 by (simp add: min_def)
qed simp

declare iappend_from.simps [simp del]

definition iappend :: "u32 \<Rightarrow> u8 list \<Rightarrow> mkst \<Rightarrow> mkst res" where
  "iappend i p m =
     seq (rinode i m) (\<lambda>din.
     seq (iappend_from p (unat (xint (d_size din))) din m) (\<lambda>((off, din), m).
       winode i (din\<lparr>d_size := xint (of_nat off)\<rparr>) m))"

primrec mk_bits :: "nat \<Rightarrow> u8 list \<Rightarrow> u8 list" where
  "mk_bits 0 buf = buf"
| "mk_bits (Suc i) buf = (let buf = mk_bits i buf in buf[i div 8 := buf ! (i div 8) OR push_bit (i mod 8) 1])"

definition mk_balloc :: "nat \<Rightarrow> mkst \<Rightarrow> mkst res" where
  "mk_balloc n m =
     (if \<not> n < BSIZE * 8 then Fail (Panic ''assert'')
      else Ok (wsect (unat (sb_bmapstart mksb)) (mk_bits n (replicate BSIZE 0)) m))"

subsection \<open>The program\<close>

definition entry :: "u32 \<Rightarrow> u8 list \<Rightarrow> u8 list" where
  "entry i name = dirent_bytes (xshort (ucast i)) name"

text \<open>The name in the image: without \<open>user/\<close> and without a leading underscore.\<close>

definition shortname :: "u8 list \<Rightarrow> u8 list res" where
  "shortname arg =
     (let s = (if strncmp_list 5 arg (ascii ''user/'') = 0 then drop 5 arg else arg)
      in if 47 \<in> set s then Fail (Panic ''assert'') else Ok s)"

definition skip_underscore :: "u8 list \<Rightarrow> u8 list" where
  "skip_underscore s = (if char_at s = 95 then tl s else s)"

function copy_file :: "u32 \<Rightarrow> u8 list list \<Rightarrow> mkst \<Rightarrow> mkst res" where
  "copy_file i inp m =
     (case read_piece BSIZE inp of (d, inp) \<Rightarrow>
        if d = [] then Ok m else seq (iappend i d m) (copy_file i inp))"
  by pat_completeness auto
termination
  by (relation "measure (\<lambda>(i, inp, m). length (concat inp))") (simp_all, metis read_piece_less)

declare copy_file.simps [simp del]

definition add_file :: "(u8 list \<Rightarrow> u8 list list option) \<Rightarrow> u32 \<Rightarrow> u8 list \<Rightarrow> mkst \<Rightarrow> mkst res" where
  "add_file fs rootino arg m =
     seq (shortname arg) (\<lambda>name.
       case fs arg of
         None \<Rightarrow> Fail (Panic ''open'')
       | Some inp \<Rightarrow>
           seq (mk_ialloc T_FILE m) (\<lambda>(i, m).
           seq (iappend rootino (entry i (name_field (skip_underscore name))) m) (copy_file i inp)))"

primrec add_files :: "(u8 list \<Rightarrow> u8 list list option) \<Rightarrow> u32 \<Rightarrow> u8 list list \<Rightarrow> mkst \<Rightarrow> mkst res" where
  "add_files fs rootino [] m = Ok m"
| "add_files fs rootino (a # as) m = seq (add_file fs rootino a m) (add_files fs rootino as)"

definition round_root :: "u32 \<Rightarrow> mkst \<Rightarrow> mkst res" where
  "round_root rootino m =
     seq (rinode rootino m) (\<lambda>din.
       let off = unat (xint (d_size din)); off = (off div BSIZE + 1) * BSIZE
       in winode rootino (din\<lparr>d_size := xint (of_nat off)\<rparr>) m)"

definition mk_blank :: mkst where
  "mk_blank = wsect 1 (sb_bytes mksb @ replicate (BSIZE - 32) 0)
     \<lparr>img = replicate FSSIZE (replicate BSIZE 0), freeinode = 1, freeblock = of_nat nmeta\<rparr>"

text \<open>\<open>main\<close> with the arguments after the name of the image, which is assumed to open.\<close>

definition mkfs :: "(u8 list \<Rightarrow> u8 list list option) \<Rightarrow> u8 list list \<Rightarrow> mkst res" where
  "mkfs fs files =
     seq (mk_ialloc T_DIR mk_blank) (\<lambda>(rootino, m).
       if rootino \<noteq> ROOTINO then Fail (Panic ''assert'')
       else
         seq (iappend rootino (entry rootino (name_field (ascii ''.''))) m) (\<lambda>m.
         seq (iappend rootino (entry rootino (name_field (ascii ''..''))) m) (\<lambda>m.
         seq (add_files fs rootino files m) (\<lambda>m.
         seq (round_root rootino m) (\<lambda>m. mk_balloc (unat (freeblock m)) m)))))"

end
