(* ===== verification/Mkfs_Props.thy ===== *)
theory Mkfs_Props
  imports Mkfs
begin

text \<open>
  What \<open>mkfs\<close> writes: the image holds every file under its name with its contents, in blocks that
  no two files share, and a bitmap in which exactly the blocks in use are marked.
\<close>

lemmas mk_params = FSSIZE_def NINODES_def nbitmap_def ninodeblocks_def nlog_def nmeta_def nblocks_def BSIZE_def
  IPB_def LOGSIZE_def MAXOPBLOCKS_def

lemma xint_id [simp]: "xint x = x" "xshort y = y"
  by (simp_all add: xint_def xshort_def)

subsection \<open>Files in an image\<close>

text \<open>Block \<open>k\<close> of a file and its byte \<open>q\<close>, as the kernel finds them.\<close>

definition blk :: "u8 list list \<Rightarrow> dinode \<Rightarrow> nat \<Rightarrow> nat" where
  "blk im d k =
     unat (if k < NDIRECT then d_addrs d ! k else get32 (im ! unat (d_addrs d ! NDIRECT)) (4 * (k - NDIRECT)))"

definition fbyte :: "u8 list list \<Rightarrow> dinode \<Rightarrow> nat \<Rightarrow> u8" where
  "fbyte im d q = im ! blk im d (q div BSIZE) ! (q mod BSIZE)"

text \<open>
  \<open>own\<close> gives for each block in use the inode and the number of the block in its file, \<open>MAXFILE\<close> for
  the indirect block; so no block is used twice. \<open>mapped_to\<close>: exactly the first \<open>c\<close> blocks are there.
\<close>

type_synonym owner = "nat \<Rightarrow> (nat \<times> nat) option"

definition disk_ok :: "owner \<Rightarrow> mkst \<Rightarrow> bool" where
  "disk_ok own m \<longleftrightarrow>
     length (img m) = FSSIZE \<and> (\<forall>b < FSSIZE. length (img m ! b) = BSIZE)
     \<and> nmeta \<le> unat (freeblock m) \<and> unat (freeblock m) \<le> FSSIZE
     \<and> (\<forall>b < FSSIZE. unat (freeblock m) \<le> b \<longrightarrow> img m ! b = replicate BSIZE 0)
     \<and> (\<forall>b. own b \<noteq> None \<longrightarrow> nmeta \<le> b \<and> b < unat (freeblock m))"

definition mapped_to :: "owner \<Rightarrow> u8 list list \<Rightarrow> nat \<Rightarrow> dinode \<Rightarrow> nat \<Rightarrow> bool" where
  "mapped_to own im i d c \<longleftrightarrow>
     length (d_addrs d) = Suc NDIRECT \<and> c \<le> MAXFILE
     \<and> (\<forall>k < c. own (blk im d k) = Some (i, k)) \<and> (\<forall>k < NDIRECT. c \<le> k \<longrightarrow> d_addrs d ! k = 0)
     \<and> (if NDIRECT < c
        then own (unat (d_addrs d ! NDIRECT)) = Some (i, MAXFILE)
          \<and> (\<forall>k < MAXFILE. c \<le> k \<longrightarrow> get32 (im ! unat (d_addrs d ! NDIRECT)) (4 * (k - NDIRECT)) = 0)
        else d_addrs d ! NDIRECT = 0)"

text \<open>Nothing of the files but their indirect blocks, and nothing before the data blocks, changes.\<close>

definition keeps_files :: "owner \<Rightarrow> owner \<Rightarrow> nat \<Rightarrow> u8 list list \<Rightarrow> u8 list list \<Rightarrow> bool" where
  "keeps_files own own' i im im' \<longleftrightarrow>
     (\<forall>b. own b \<noteq> None \<longrightarrow> own' b = own b)
     \<and> (\<forall>b. b < nmeta \<or> (\<exists>j k. own b = Some (j, k) \<and> j \<noteq> i) \<longrightarrow> im' ! b = im ! b)"

lemma keeps_files_refl [simp]: "keeps_files own own i im im"
  by (simp add: keeps_files_def)

lemma keeps_files_trans:
  "keeps_files own own' i im im' \<Longrightarrow> keeps_files own' own'' i im' im'' \<Longrightarrow> keeps_files own own'' i im im''"
proof -
  assume a: "keeps_files own own' i im im'" and b: "keeps_files own' own'' i im' im''"
  have up: "own' x = own x \<and> own'' x = own x" if "own x \<noteq> None" for x
    using a b that by (simp add: keeps_files_def)
  have "im'' ! x = im ! x" if x: "x < nmeta \<or> (\<exists>j k. own x = Some (j, k) \<and> j \<noteq> i)" for x
  proof -
    have "x < nmeta \<or> (\<exists>j k. own' x = Some (j, k) \<and> j \<noteq> i)" using x up [of x] by auto
    then have "im'' ! x = im' ! x" using b unfolding keeps_files_def by blast
    also have "im' ! x = im ! x" using a x unfolding keeps_files_def by blast
    finally show ?thesis .
  qed
  then show ?thesis using up unfolding keeps_files_def by simp
qed

text \<open>Nothing of file \<open>j\<close> has changed.\<close>

definition same_file :: "owner \<Rightarrow> owner \<Rightarrow> nat \<Rightarrow> u8 list list \<Rightarrow> u8 list list \<Rightarrow> bool" where
  "same_file own own' j im im' \<longleftrightarrow> (\<forall>b k. own b = Some (j, k) \<longrightarrow> own' b = own b \<and> im' ! b = im ! b)"

lemma keeps_files_same: "keeps_files own own' i im im' \<Longrightarrow> j \<noteq> i \<Longrightarrow> same_file own own' j im im'"
  unfolding keeps_files_def same_file_def by blast

lemma same_mapped:
  assumes s: "same_file own own' j im im'" and m: "mapped_to own im j d c"
  shows "mapped_to own' im' j d c" "q < c * BSIZE \<Longrightarrow> fbyte im' d q = fbyte im d q"
proof -
  have c: "c \<le> MAXFILE" using m by (simp add: mapped_to_def)
  have ind: "im' ! unat (d_addrs d ! NDIRECT) = im ! unat (d_addrs d ! NDIRECT)"
    "own' (unat (d_addrs d ! NDIRECT)) = own (unat (d_addrs d ! NDIRECT))" if "NDIRECT < c"
    using s m that by (auto simp: same_file_def mapped_to_def)
  have b: "blk im' d l = blk im d l" if "l < c" for l
    using that ind by (auto simp: blk_def)
  have x: "own (blk im d l) = Some (j, l)" if "l < c" for l using m that by (simp add: mapped_to_def)
  have up: "own' (blk im d l) = Some (j, l)" if "l < c" for l using s x [OF that] by (simp add: same_file_def)
  show "mapped_to own' im' j d c"
    using m b up ind unfolding mapped_to_def by auto
  show "fbyte im' d q = fbyte im d q" if "q < c * BSIZE"
  proof -
    have "q div BSIZE < c" using that by (simp add: less_mult_imp_div_less)
    then have "im' ! blk im d (q div BSIZE) = im ! blk im d (q div BSIZE)"
      using x s by (auto simp: same_file_def)
    then show ?thesis using b [OF \<open>q div BSIZE < c\<close>] by (simp add: fbyte_def)
  qed
qed

lemma owned_block:
  assumes "disk_ok own m" "own b = Some x"
  shows "nmeta \<le> b \<and> b < unat (freeblock m) \<and> b < FSSIZE \<and> b \<noteq> 0"
proof -
  have "nmeta \<le> b" "b < unat (freeblock m)" "unat (freeblock m) \<le> FSSIZE" using assms by (auto simp: disk_ok_def)
  moreover have "0 < nmeta" by (simp add: mk_params)
  ultimately show ?thesis by linarith
qed

lemma zero_word: "k + 4 \<le> n \<Longrightarrow> get32 (replicate n 0) k = 0"
  by (simp add: get32_def of_le32_def)

subsection \<open>A block for the next byte\<close>

lemma wsect_in: "sec < length (img m) \<Longrightarrow> wsect sec b m = m\<lparr>img := (img m)[sec := b]\<rparr>"
  by (simp add: wsect_def)

lemma fresh_block:
  assumes "disk_ok own m" "unat (freeblock m) < FSSIZE"
  shows "own (unat (freeblock m)) = None" "img m ! unat (freeblock m) = replicate BSIZE 0"
    "disk_ok (own(unat (freeblock m) \<mapsto> x)) (m\<lparr>freeblock := freeblock m + 1\<rparr>)"
    "unat (freeblock m + 1) = Suc (unat (freeblock m))" "unat (freeblock m) \<noteq> 0" "nmeta \<le> unat (freeblock m)"
proof -
  have u: "unat (freeblock m + 1) = Suc (unat (freeblock m))"
    using assms(2) by (simp add: unat_word_ariths FSSIZE_def)
  then show "unat (freeblock m + 1) = Suc (unat (freeblock m))" .
  show "own (unat (freeblock m)) = None" using owned_block [OF assms(1)] by (cases "own (unat (freeblock m))") auto
  show "img m ! unat (freeblock m) = replicate BSIZE 0" using assms by (simp add: disk_ok_def)
  show "disk_ok (own(unat (freeblock m) \<mapsto> x)) (m\<lparr>freeblock := freeblock m + 1\<rparr>)"
    using assms u by (auto simp: disk_ok_def less_Suc_eq)
  show "unat (freeblock m) \<noteq> 0" "nmeta \<le> unat (freeblock m)" using assms(1) by (auto simp: disk_ok_def mk_params)
qed

lemma append_direct:
  assumes d: "disk_ok own m" and a: "mapped_to own (img m) i di c" and c: "c = f \<or> c = Suc f" and f: "f < NDIRECT"
    and r: "append_block f di m = Ok ((x, di'), m')" and x: "unat x < FSSIZE"
  shows "\<exists>own'. disk_ok own' m' \<and> mapped_to own' (img m') i di' (Suc f) \<and> unat x = blk (img m') di' f
    \<and> img m' = img m \<and> freeinode m' = freeinode m \<and> (\<forall>k < c. blk (img m') di' k = blk (img m) di k)
    \<and> (c = f \<longrightarrow> img m ! unat x = replicate BSIZE 0)
    \<and> (\<exists>as. di' = di\<lparr>d_addrs := as\<rparr>) \<and> keeps_files own own' i (img m) (img m')"
  using c
proof
  assume c: "c = f"
  let ?own = "own(unat (freeblock m) \<mapsto> (i, f))"
  have z: "d_addrs di ! f = 0" "length (d_addrs di) = Suc NDIRECT" "d_addrs di ! NDIRECT = 0"
    using a c f by (auto simp: mapped_to_def split: if_splits)
  have e: "di' = di\<lparr>d_addrs := (d_addrs di)[f := freeblock m]\<rparr>" "m' = m\<lparr>freeblock := freeblock m + 1\<rparr>" "x = freeblock m"
    using r z f unfolding append_block_def new_block_def by auto
  have fb: "unat (freeblock m) < FSSIZE" using x e by simp
  note n = fresh_block [OF d fb]
  have b: "blk (img m) di' k = (if k = f then unat (freeblock m) else blk (img m) di k)" if "k < NDIRECT" for k
    using that f z(2) by (simp add: blk_def e(1))
  have "mapped_to ?own (img m') i di' (Suc f)"
  proof -
    have "?own (blk (img m') di' k) = Some (i, k)" if "k < Suc f" for k
      using that b [of k] f a c n(1) by (auto simp: mapped_to_def e(2) less_Suc_eq)
    then show ?thesis using a c f z by (auto simp: mapped_to_def e nth_list_update NDIRECT_def MAXFILE_def)
  qed
  moreover have "unat x = blk (img m') di' f" using b [OF f] by (simp add: e)
  moreover have "keeps_files own ?own i (img m) (img m')" using n(1) by (auto simp: keeps_files_def e)
  moreover have "disk_ok ?own m'" using n(3) [of "(i, f)"] by (simp add: e)
  moreover have "img m' = img m" "freeinode m' = freeinode m" by (simp_all add: e)
  moreover have "\<forall>k < c. blk (img m') di' k = blk (img m) di k" using b c f by (simp add: e(2))
  moreover have "img m ! unat x = replicate BSIZE 0" using n(2) by (simp add: e)
  moreover have "\<exists>as. di' = di\<lparr>d_addrs := as\<rparr>" unfolding e(1) by blast
  ultimately show ?thesis by (intro exI [of _ ?own]) simp
next
  assume c: "c = Suc f"
  have "own (blk (img m) di f) = Some (i, f)" using a c by (simp add: mapped_to_def)
  then have "d_addrs di ! f \<noteq> 0" using owned_block [OF d] f by (fastforce simp: blk_def)
  then have e: "di' = di" "m' = m" "x = d_addrs di ! f" using r f unfolding append_block_def by auto
  have "\<exists>as. di' = di\<lparr>d_addrs := as\<rparr>" unfolding e by (intro exI [of _ "d_addrs di"]) simp
  moreover have "unat x = blk (img m') di' f" using f by (simp add: e blk_def)
  moreover have "mapped_to own (img m') i di' (Suc f)" using a c unfolding e by blast
  moreover have "disk_ok own m'" using d unfolding e .
  moreover have "img m' = img m" "freeinode m' = freeinode m" "di' = di" by (simp_all add: e)
  ultimately show ?thesis using c by (intro exI [of _ own]) auto
qed

text \<open>The state after the block \<open>x\<close> has been found or allocated as block \<open>f\<close> of inode \<open>i\<close>.\<close>

definition extended :: "owner \<Rightarrow> mkst \<Rightarrow> nat \<Rightarrow> dinode \<Rightarrow> nat \<Rightarrow> owner \<Rightarrow> mkst \<Rightarrow> dinode \<Rightarrow> nat \<Rightarrow> nat \<Rightarrow> bool" where
  "extended own m i di c own' m' di' f x \<longleftrightarrow>
     disk_ok own' m' \<and> mapped_to own' (img m') i di' (Suc f) \<and> x = blk (img m') di' f \<and> freeinode m' = freeinode m
     \<and> (\<forall>k < c. blk (img m') di' k = blk (img m) di k
          \<and> img m' ! blk (img m) di k = img m ! blk (img m) di k)
     \<and> (c = f \<longrightarrow> img m' ! x = replicate BSIZE 0)
     \<and> (\<exists>as. di' = di\<lparr>d_addrs := as\<rparr>) \<and> keeps_files own own' i (img m) (img m')"

lemma append_direct_extended:
  assumes "disk_ok own m" "mapped_to own (img m) i di c" "c = f \<or> c = Suc f" "f < NDIRECT"
    "append_block f di m = Ok ((x, di'), m')" "unat x < FSSIZE"
  shows "\<exists>own'. extended own m i di c own' m' di' f (unat x)"
  using append_direct [OF assms] by (fastforce simp: extended_def)

lemma in_entry: "NDIRECT \<le> f \<Longrightarrow> f < MAXFILE \<Longrightarrow> 4 * (f - NDIRECT) + 4 \<le> BSIZE"
  by (simp add: NDIRECT_def MAXFILE_def NINDIRECT_def BSIZE_def)

lemma append_entry:
  assumes d: "disk_ok own m" and di: "length (d_addrs di) = Suc NDIRECT" and f: "NDIRECT \<le> f" "f < MAXFILE" "NDIRECT \<le> c"
    and c: "c = f \<or> c = Suc f" and ib: "ib = unat (d_addrs di ! NDIRECT)" "own ib = Some (i, MAXFILE)"
    and o: "\<forall>k < c. own (blk (img m) di k) = Some (i, k)"
    and z: "\<forall>k < MAXFILE. c \<le> k \<longrightarrow> get32 (img m ! ib) (4 * (k - NDIRECT)) = 0"
    and r: "(if get32 (img m ! ib) (4 * (f - NDIRECT)) = 0
             then case new_block m of (b, m1) \<Rightarrow>
                    let ind = put32 (4 * (f - NDIRECT)) b (img m ! ib) in (ind, wsect ib ind m1)
             else (img m ! ib, m)) = (ind, m')"
    and x: "x = get32 ind (4 * (f - NDIRECT))" "unat x < FSSIZE"
  shows "\<exists>own'. extended own m i di c own' m' di f (unat x)"
proof -
  let ?k = "\<lambda>f. 4 * (f - NDIRECT)"
  have ibb: "nmeta \<le> ib" "ib < unat (freeblock m)" "ib < FSSIZE" using owned_block [OF d ib(2)] by auto
  have len: "length (img m) = FSSIZE" "length (img m ! ib) = BSIZE" using d ibb by (auto simp: disk_ok_def)
  have e4: "?k f + 4 \<le> length (img m ! ib)" using in_entry f len by simp
  have same: "\<exists>as. di = di\<lparr>d_addrs := as\<rparr>" by (intro exI [of _ "d_addrs di"]) simp
  show ?thesis
    using c
  proof
    assume c: "c = Suc f"
    have bf: "blk (img m) di f = unat (get32 (img m ! ib) (?k f))" using f ib(1) by (simp add: blk_def)
    have "own (blk (img m) di f) = Some (i, f)" using o c by simp
    then have "get32 (img m ! ib) (?k f) \<noteq> 0" using owned_block [OF d, of "blk (img m) di f"] bf by auto
    then have m: "m' = m" "ind = img m ! ib" using r by auto
    have "mapped_to own (img m) i di (Suc f)"
      using di f o z ib c by (simp add: mapped_to_def)
    then show ?thesis
      using d bf c same by (intro exI [of _ own]) (simp add: extended_def m x(1))
  next
    assume c: "c = f"
    let ?own = "own(unat (freeblock m) \<mapsto> (i, f))" and ?ind = "put32 (?k f) (freeblock m) (img m ! ib)"
    have "get32 (img m ! ib) (?k f) = 0" using z c f by simp
    then have m: "ind = ?ind" "m' = wsect ib ?ind (m\<lparr>freeblock := freeblock m + 1\<rparr>)"
      using r by (auto simp: new_block_def Let_def)
    have im: "img m' = (img m)[ib := ?ind]" "freeblock m' = freeblock m + 1" "freeinode m' = freeinode m"
      using ibb len by (simp_all add: m wsect_in)
    have xf: "x = freeblock m" using x(1) e4 by (simp add: m)
    then have fb: "unat (freeblock m) < FSSIZE" using x(2) by simp
    note n = fresh_block [OF d fb]
    have ne: "unat (freeblock m) \<noteq> ib" using ibb by simp
    have ind: "img m' ! ib = ?ind" using ibb len im by simp
    have ent: "get32 ?ind (?k k) = (if k = f then freeblock m else get32 (img m ! ib) (?k k))"
      if "NDIRECT \<le> k" "k < MAXFILE" for k
    proof (cases "k = f")
      case False
      then have "?k k + 4 \<le> ?k f \<or> ?k f + 4 \<le> ?k k" using that f by auto
      then show ?thesis using False e4 by simp
    qed (use e4 in simp)
    have b: "blk (img m') di k = (if k = f then unat (freeblock m) else blk (img m) di k)" if "k < MAXFILE" for k
      using that ent [of k] ind f ib(1) by (auto simp: blk_def)
    have dk: "disk_ok ?own m'"
    proof -
      have "disk_ok ?own (m\<lparr>freeblock := freeblock m + 1\<rparr>)" by (rule n(3))
      then show ?thesis
        using ibb len e4 n(4) by (auto simp: disk_ok_def m wsect_in nth_list_update)
    qed
    have "mapped_to ?own (img m') i di (Suc f)"
    proof -
      have "?own (blk (img m') di k) = Some (i, k)" if "k < Suc f" for k
        using that b [of k] f o c n(1) by (auto simp: less_Suc_eq)
      moreover have "get32 (img m' ! unat (d_addrs di ! NDIRECT)) (?k k) = 0" if "k < MAXFILE" "Suc f \<le> k" for k
        using that ent [of k] ind z c f ib(1) by simp
      moreover have "?own (unat (d_addrs di ! NDIRECT)) = Some (i, MAXFILE)" using ib ne by simp
      ultimately show ?thesis using di f by (simp add: mapped_to_def)
    qed
    moreover have "unat x = blk (img m') di f" using b [OF f(2)] xf by simp
    moreover have "\<forall>k < c. blk (img m') di k = blk (img m) di k \<and> img m' ! blk (img m) di k = img m ! blk (img m) di k"
    proof (intro allI impI)
      fix k assume k: "k < c"
      have "own (blk (img m) di k) = Some (i, k)" using o k by simp
      then have "blk (img m) di k \<noteq> ib" using ib(2) k c f by auto
      then show "blk (img m') di k = blk (img m) di k \<and> img m' ! blk (img m) di k = img m ! blk (img m) di k"
        using b [of k] k c f im by simp
    qed
    moreover have "img m' ! unat x = replicate BSIZE 0" using n(2) ne im xf by simp
    moreover have "keeps_files own ?own i (img m) (img m')"
      using n(1) im ibb ib(2) len(1) by (auto simp: keeps_files_def nth_list_update)
    ultimately show ?thesis using dk im(3) same by (intro exI [of _ ?own]) (simp add: extended_def)
  qed
qed

lemma append_block_extended:
  assumes d: "disk_ok own m" and a: "mapped_to own (img m) i di c" and c: "c = f \<or> c = Suc f" and f: "f < MAXFILE"
    and r: "append_block f di m = Ok ((x, di'), m')" and x: "unat x < FSSIZE"
  shows "\<exists>own'. extended own m i di c own' m' di' f (unat x)"
proof (cases "f < NDIRECT")
  case True
  show ?thesis by (rule append_direct_extended [OF d a c True r x])
next
  case False
  then have f': "NDIRECT \<le> f" "NDIRECT \<le> c" using c by auto
  have len: "length (d_addrs di) = Suc NDIRECT" and o: "\<forall>k < c. own (blk (img m) di k) = Some (i, k)"
    using a by (auto simp: mapped_to_def)
  obtain di1 m1 where s: "(if xint (d_addrs di ! NDIRECT) = 0
      then case new_block m of (b, m) \<Rightarrow> (di\<lparr>d_addrs := (d_addrs di)[NDIRECT := b]\<rparr>, m) else (di, m)) = (di1, m1)"
    by (cases "if xint (d_addrs di ! NDIRECT) = 0
      then case new_block m of (b, m) \<Rightarrow> (di\<lparr>d_addrs := (d_addrs di)[NDIRECT := b]\<rparr>, m) else (di, m)")
  let ?ib = "unat (d_addrs di1 ! NDIRECT)" and ?k = "4 * (f - NDIRECT)"
  have ibl: "?ib < length (img m1)"
    using r s False unfolding append_block_def by (auto simp: rsect_def Let_def split: if_splits)
  obtain ind where e: "(if get32 (img m1 ! ?ib) ?k = 0
             then case new_block m1 of (b, m) \<Rightarrow> let ind = put32 ?k b (img m1 ! ?ib) in (ind, wsect ?ib ind m)
             else (img m1 ! ?ib, m1)) = (ind, m')" and xe: "x = get32 ind ?k" and di': "di' = di1"
    using r s False ibl unfolding append_block_def by (auto simp: rsect_def Let_def split: prod.splits)
  show ?thesis
  proof (cases "NDIRECT < c")
    case True
    have ib: "own (unat (d_addrs di ! NDIRECT)) = Some (i, MAXFILE)"
      and z: "\<forall>k < MAXFILE. c \<le> k \<longrightarrow> get32 (img m ! unat (d_addrs di ! NDIRECT)) (4 * (k - NDIRECT)) = 0"
      using a True by (auto simp: mapped_to_def)
    have "d_addrs di ! NDIRECT \<noteq> 0" using owned_block [OF d ib] by auto
    then have s': "di1 = di" "m1 = m" using s by auto
    show ?thesis
      unfolding di' s'(1) by (rule append_entry [OF d len f'(1) f f'(2) c refl ib o z e [unfolded s'] xe x])
  next
    case nd: False
    then have cn: "c = NDIRECT" "f = NDIRECT" using f' c by auto
    have z: "d_addrs di ! NDIRECT = 0" using a nd by (simp add: mapped_to_def)
    then have s': "di1 = di\<lparr>d_addrs := (d_addrs di)[NDIRECT := freeblock m]\<rparr>" "m1 = m\<lparr>freeblock := freeblock m + 1\<rparr>"
      using s by (auto simp: new_block_def)
    have ib: "?ib = unat (freeblock m)" using len by (simp add: s')
    have fb: "unat (freeblock m) < FSSIZE" using ibl d unfolding ib by (simp add: s'(2) disk_ok_def)
    note n = fresh_block [OF d fb]
    let ?own = "own(unat (freeblock m) \<mapsto> (i, MAXFILE))"
    have b: "blk (img m1) di1 k = blk (img m) di k" if "k < c" for k
      using that cn by (simp add: blk_def s')
    have o1: "\<forall>k < c. ?own (blk (img m1) di1 k) = Some (i, k)"
      using o b n(1) by auto
    have z1: "\<forall>k < MAXFILE. c \<le> k \<longrightarrow> get32 (img m1 ! ?ib) (4 * (k - NDIRECT)) = 0"
      using n(2) in_entry cn unfolding ib by (auto simp: s' intro: zero_word)
    have d1: "disk_ok ?own m1" using n(3) [of "(i, MAXFILE)"] unfolding s'(2) .
    have len1: "length (d_addrs di1) = Suc NDIRECT" using len by (simp add: s'(1))
    have ow: "?own ?ib = Some (i, MAXFILE)" unfolding ib by simp
    have "\<exists>own'. extended ?own m1 i di1 c own' m' di1 f (unat x)"
      by (rule append_entry [OF d1 len1 f'(1) f f'(2) c refl ow o1 z1 e xe x])
    then obtain own' where E: "extended ?own m1 i di1 c own' m' di1 f (unat x)" ..
    have k: "keeps_files own ?own i (img m) (img m1)" using n(1) by (auto simp: keeps_files_def s')
    have "\<exists>as. di1 = di\<lparr>d_addrs := as\<rparr>" unfolding s'(1) by blast
    then have "extended own m i di c own' m' di1 f (unat x)"
      using E keeps_files_trans [OF k] b unfolding extended_def s'(2) by auto
    then show ?thesis unfolding di' by blast
  qed
qed

subsection \<open>Appending\<close>

definition blocks_for :: "nat \<Rightarrow> nat" where
  "blocks_for n = (n + BSIZE - 1) div BSIZE"

lemma blocks_for_eq: "blocks_for n = n div BSIZE + (if n mod BSIZE = 0 then 0 else 1)"
proof -
  let ?a = "n div BSIZE" and ?r = "n mod BSIZE"
  have n: "n + BSIZE - 1 = (?r + (BSIZE - 1)) + ?a * BSIZE"
    using div_mult_mod_eq [of n BSIZE] by (simp add: BSIZE_def)
  have "(n + BSIZE - 1) div BSIZE = ?a + (?r + (BSIZE - 1)) div BSIZE"
    unfolding n by (rule div_mult_self1) (simp add: BSIZE_def)
  moreover have "(?r + (BSIZE - 1)) div BSIZE = (if ?r = 0 then 0 else 1)"
  proof (cases "?r = 0")
    case False
    have "?r < BSIZE" by (simp add: BSIZE_def)
    then show ?thesis using False by (simp add: BSIZE_def div_nat_eqI)
  qed (simp add: BSIZE_def)
  ultimately show ?thesis by (simp add: blocks_for_def)
qed

lemma blocks_for_le:
  assumes "q < n" shows "q div BSIZE < blocks_for n"
proof (cases "q div BSIZE = n div BSIZE")
  case True
  then have "n mod BSIZE \<noteq> 0"
    using assms div_mult_mod_eq [of n BSIZE] div_mult_mod_eq [of q BSIZE] by (metis add.right_neutral add_le_cancel_left le0 leD)
  then show ?thesis using True by (simp add: blocks_for_eq)
next
  case False
  moreover have "q div BSIZE \<le> n div BSIZE" using assms by (intro div_le_mono) simp
  ultimately show ?thesis by (simp add: blocks_for_eq)
qed

lemma blocks_for_div: "blocks_for n = n div BSIZE \<or> blocks_for n = Suc (n div BSIZE)"
  by (simp add: blocks_for_eq)

lemma blocks_for_step:
  assumes "0 < n1" "n1 \<le> Suc (n div BSIZE) * BSIZE - n"
  shows "blocks_for (n + n1) = Suc (n div BSIZE)"
proof (cases "n + n1 = Suc (n div BSIZE) * BSIZE")
  case True
  then show ?thesis unfolding True blocks_for_eq by (simp add: BSIZE_def)
next
  case False
  have "n div BSIZE * BSIZE \<le> n" by simp
  then have b: "n div BSIZE * BSIZE < n + n1" using assms by linarith
  have "n < Suc (n div BSIZE) * BSIZE" using dividend_less_div_times [of BSIZE n] by (simp add: BSIZE_def)
  then have b2: "n + n1 < Suc (n div BSIZE) * BSIZE" using assms False by linarith
  have d: "(n + n1) div BSIZE = n div BSIZE" using b b2 by (intro div_nat_eqI) (simp_all add: mult.commute)
  then have "(n + n1) mod BSIZE \<noteq> 0" using b div_mult_mod_eq [of "n + n1" BSIZE] by auto
  then show ?thesis using d by (simp add: blocks_for_eq)
qed

text \<open>The first \<open>off\<close> bytes of a file and the zeros up to the end of its last block.\<close>

definition file_holds :: "u8 list list \<Rightarrow> dinode \<Rightarrow> u8 list \<Rightarrow> bool" where
  "file_holds im di bs \<longleftrightarrow> (\<forall>q < length bs. fbyte im di q = bs ! q)
     \<and> (\<forall>q. length bs \<le> q \<and> q < blocks_for (length bs) * BSIZE \<longrightarrow> fbyte im di q = 0)"

lemma patch_after:
  assumes "k + n \<le> j" "j < length buf" "n \<le> length p"
  shows "(take k buf @ take n p @ drop (k + n) buf) ! j = buf ! j"
proof -
  have "length (take k buf @ take n p) = k + n" using assms by simp
  then show ?thesis using nth_append [of "take k buf @ take n p" "drop (k + n) buf" j] assms by simp
qed

lemma write_chunk:
  assumes E: "extended own m i di c own' m1 di1 f x" and h: "file_holds (img m) di bs" and c: "c = blocks_for (length bs)"
    and f: "f = length bs div BSIZE" and n1: "n1 = min (length p) (Suc f * BSIZE - length bs)" and p: "p \<noteq> []"
    and k: "k = length bs - f * BSIZE" and fm: "f < MAXFILE"
    and m2: "m2 = wsect x (take k (img m1 ! x) @ take n1 p @ drop (k + n1) (img m1 ! x)) m1"
  shows "disk_ok own' m2 \<and> mapped_to own' (img m2) i di1 (blocks_for (length bs + n1))
    \<and> file_holds (img m2) di1 (bs @ take n1 p) \<and> keeps_files own own' i (img m) (img m2) \<and> freeinode m2 = freeinode m
    \<and> 0 < n1 \<and> n1 \<le> length p"
proof -
  have d: "disk_ok own' m1" and a: "mapped_to own' (img m1) i di1 (Suc f)" and x: "x = blk (img m1) di1 f"
    and old: "\<forall>k < c. blk (img m1) di1 k = blk (img m) di k \<and> img m1 ! blk (img m) di k = img m ! blk (img m) di k"
    and new: "c = f \<longrightarrow> img m1 ! x = replicate BSIZE 0" and kf: "keeps_files own own' i (img m) (img m1)"
    and fi: "freeinode m1 = freeinode m"
    using E by (auto simp: extended_def)
  have kb: "k = length bs mod BSIZE" "length bs = f * BSIZE + k" "k < BSIZE"
    using f k by (simp_all add: minus_div_mult_eq_mod BSIZE_def)
  have n: "0 < n1" "n1 \<le> length p" "k + n1 \<le> BSIZE" using p kb(2,3) n1 by auto
  have ox: "own' x = Some (i, f)" using a x by (simp add: mapped_to_def)
  have xb: "x < length (img m1)" "length (img m1 ! x) = BSIZE"
    using owned_block [OF d ox] d by (auto simp: disk_ok_def)
  let ?B = "take k (img m1 ! x) @ take n1 p @ drop (k + n1) (img m1 ! x)"
  have lB: "length ?B = BSIZE" using n xb by simp
  have im: "img m2 = (img m1)[x := ?B]" "freeblock m2 = freeblock m1" "freeinode m2 = freeinode m1"
    using xb by (simp_all add: m2 wsect_in)
  have bl: "blk (img m2) di1 l = blk (img m1) di1 l" if "l < MAXFILE" for l
  proof (cases "l < NDIRECT")
    case False
    show ?thesis
    proof (cases "NDIRECT < Suc f")
      case True
      then have "own' (unat (d_addrs di1 ! NDIRECT)) = Some (i, MAXFILE)" using a by (simp add: mapped_to_def)
      then have "unat (d_addrs di1 ! NDIRECT) \<noteq> x" using ox fm by auto
      then show ?thesis by (simp add: blk_def im)
    next
      case nf: False
      then have "d_addrs di1 ! NDIRECT = 0" using a by (simp add: mapped_to_def)
      moreover have "x \<noteq> 0" using owned_block [OF d ox] by simp
      ultimately show ?thesis by (simp add: blk_def im)
    qed
  qed (simp add: blk_def)
  have other: "l \<noteq> f \<Longrightarrow> l < Suc f \<Longrightarrow> blk (img m1) di1 l \<noteq> x" for l
    using a ox by (auto simp: mapped_to_def)
  have dk: "disk_ok own' m2"
    using d xb lB owned_block [OF d ox] by (auto simp: disk_ok_def im nth_list_update)
  have ends: "blocks_for (length bs + n1) = Suc f"
    using blocks_for_step [of n1 "length bs"] n(1) n1 f by simp
  have map2: "mapped_to own' (img m2) i di1 (Suc f)"
  proof -
    have "img m2 ! unat (d_addrs di1 ! NDIRECT) = img m1 ! unat (d_addrs di1 ! NDIRECT)" if "NDIRECT < Suc f"
    proof -
      have "own' (unat (d_addrs di1 ! NDIRECT)) = Some (i, MAXFILE)" using a that by (simp add: mapped_to_def)
      then have "unat (d_addrs di1 ! NDIRECT) \<noteq> x" using ox fm by auto
      then show ?thesis by (simp add: im)
    qed
    then show ?thesis using a bl fm unfolding mapped_to_def by auto
  qed
  have byte: "fbyte (img m2) di1 q = (if q < f * BSIZE then fbyte (img m) di q else ?B ! (q - f * BSIZE))"
    if q: "q < Suc f * BSIZE" for q
  proof -
    have ql: "q div BSIZE < Suc f" using q by (simp add: less_mult_imp_div_less)
    have qm: "q div BSIZE < MAXFILE" using ql fm by simp
    show ?thesis
    proof (cases "q < f * BSIZE")
      case True
      then have lt: "q div BSIZE < f" by (simp add: less_mult_imp_div_less)
      then have "q div BSIZE < c" using blocks_for_div [of "length bs"] c f by auto
      then show ?thesis using True bl [OF qm] other [of "q div BSIZE"] lt old by (simp add: fbyte_def im)
    next
      case False
      then have "q div BSIZE = f" using q by (simp add: BSIZE_def div_nat_eqI)
      moreover have "q mod BSIZE = q - f * BSIZE"
        using \<open>q div BSIZE = f\<close> by (metis minus_div_mult_eq_mod)
      ultimately show ?thesis using False bl [OF fm] x xb by (simp add: fbyte_def im)
    qed
  qed
  have tail: "img m1 ! x ! j = (if j < k then fbyte (img m) di (f * BSIZE + j) else 0)" if j: "j < BSIZE" for j
  proof (cases "c = f")
    case True
    then have "k = 0" using c f kb(1) by (simp add: blocks_for_eq split: if_splits)
    then show ?thesis using new True j by simp
  next
    case False
    then have cf: "c = Suc f" using c f blocks_for_div [of "length bs"] by auto
    have dm: "(f * BSIZE + j) div BSIZE = f" "(f * BSIZE + j) mod BSIZE = j" using j by (simp_all add: BSIZE_def)
    have "img m1 ! x = img m ! blk (img m) di f" using old x cf by auto
    then have e: "img m1 ! x ! j = fbyte (img m) di (f * BSIZE + j)" unfolding fbyte_def dm by simp
    show ?thesis
    proof (cases "j < k")
      case False
      have "f * BSIZE + j < blocks_for (length bs) * BSIZE" using j cf c by simp
      then have "fbyte (img m) di (f * BSIZE + j) = 0" using h False kb(2) by (simp add: file_holds_def)
      then show ?thesis using e False by simp
    qed (use e in simp)
  qed
  have "file_holds (img m2) di1 (bs @ take n1 p)"
  proof -
    have lens: "length (bs @ take n1 p) = length bs + n1" using n(2) by simp
    have hq: "q < length bs \<Longrightarrow> fbyte (img m) di q = bs ! q" for q using h by (simp add: file_holds_def)
    have "fbyte (img m2) di1 q = (bs @ take n1 p) ! q" if q: "q < length bs + n1" for q
    proof -
      have q': "q < Suc f * BSIZE" using q kb(2) n(3) by simp
      consider "q < f * BSIZE" | "f * BSIZE \<le> q" "q < length bs" | "length bs \<le> q" by linarith
      then show ?thesis
      proof cases
        case 1
        then have "q < length bs" using kb(2) by linarith
        then show ?thesis using byte [OF q'] hq [of q] 1 by (simp add: nth_append)
      next
        case 2
        then have j: "q - f * BSIZE < k" "q - f * BSIZE < BSIZE" using kb(2,3) by linarith+
        have "?B ! (q - f * BSIZE) = img m1 ! x ! (q - f * BSIZE)" using j xb by (simp add: nth_append)
        also have "\<dots> = fbyte (img m) di q" using tail [OF j(2)] j(1) 2(1) by simp
        also have "\<dots> = bs ! q" using hq 2(2) .
        finally have "?B ! (q - f * BSIZE) = bs ! q" .
        moreover have "\<not> q < f * BSIZE" using 2(1) by simp
        ultimately have "fbyte (img m2) di1 q = bs ! q" using byte [OF q'] by presburger
        then show ?thesis using 2(2) by (simp only: nth_append if_True)
      next
        case 3
        have j: "\<not> q - f * BSIZE < k" "q - f * BSIZE - k = q - length bs" "q - length bs < n1" "\<not> q < f * BSIZE"
          using 3 kb(2) q by linarith+
        have lk: "length (take k (img m1 ! x)) = k" using kb(3) xb(2) by simp
        have "?B ! (q - f * BSIZE) = (take n1 p @ drop (k + n1) (img m1 ! x)) ! (q - length bs)"
          using j(1) by (simp only: nth_append lk j(2) if_False)
        also have "\<dots> = take n1 p ! (q - length bs)" using j(3) n(2) by (simp add: nth_append)
        finally have "?B ! (q - f * BSIZE) = take n1 p ! (q - length bs)" .
        then have "fbyte (img m2) di1 q = take n1 p ! (q - length bs)" using byte [OF q'] j(4) by presburger
        then show ?thesis using 3 by (simp only: nth_append not_less [symmetric] if_False)
      qed
    qed
    moreover have "fbyte (img m2) di1 q = 0" if q: "length bs + n1 \<le> q" "q < Suc f * BSIZE" for q
    proof -
      have j: "q - f * BSIZE < BSIZE" "k + n1 \<le> q - f * BSIZE" "\<not> q < f * BSIZE" "\<not> q - f * BSIZE < k"
        using q kb(2) n(1) unfolding mult_Suc by linarith+
      have "?B ! (q - f * BSIZE) = img m1 ! x ! (q - f * BSIZE)"
        using j(1,2) n(2,3) xb(2) by (intro patch_after) simp_all
      then show ?thesis using byte [OF q(2)] tail [OF j(1)] j(3,4) by presburger
    qed
    ultimately show ?thesis unfolding file_holds_def lens ends by blast
  qed
  moreover have "keeps_files own own' i (img m) (img m2)"
  proof -
    have "keeps_files own' own' i (img m1) (img m2)"
    proof -
      have "img m2 ! b = img m1 ! b" if "b < nmeta \<or> (\<exists>j k. own' b = Some (j, k) \<and> j \<noteq> i)" for b
      proof -
        have "b \<noteq> x" using that ox owned_block [OF d ox] by auto
        then show ?thesis by (simp add: im)
      qed
      then show ?thesis unfolding keeps_files_def by blast
    qed
    then show ?thesis by (rule keeps_files_trans [OF kf])
  qed
  ultimately show ?thesis using dk map2 ends n im(3) fi by simp
qed

lemma seq_Ok: "seq r f = Ok y \<longleftrightarrow> (\<exists>x. r = Ok x \<and> f x = Ok y)"
  by (cases r) auto

lemma append_block_length:
  assumes "append_block f di m = Ok (r, m')"
  shows "length (img m') = length (img m)"
  using assms unfolding append_block_def
  by (auto simp: new_block_def wsect_def rsect_def Let_def seq_Ok split: if_splits prod.splits)

lemma iappend_from_spec:
  assumes "disk_ok own m" "mapped_to own (img m) i di (blocks_for (length bs))" "file_holds (img m) di bs"
    "iappend_from p (length bs) di m = Ok ((off, di'), m')"
  shows "\<exists>own' as. disk_ok own' m' \<and> mapped_to own' (img m') i di' (blocks_for (length bs + length p))
    \<and> file_holds (img m') di' (bs @ p) \<and> keeps_files own own' i (img m) (img m') \<and> freeinode m' = freeinode m
    \<and> off = length bs + length p \<and> di' = di\<lparr>d_addrs := as\<rparr>"
  using assms
proof (induction "length p" arbitrary: p bs di m own rule: less_induct)
  case less
  show ?case
  proof (cases "p = []")
    case True
    then have "off = length bs" "di' = di" "m' = m" using less.prems(4) by (simp_all add: iappend_from.simps)
    then show ?thesis
      using less.prems(1-3) True by (intro exI [of _ own] exI [of _ "d_addrs di"]) simp
  next
    case False
    define f where "f = length bs div BSIZE"
    define n1 where "n1 = min (length p) ((f + 1) * BSIZE - length bs)"
    define k where "k = length bs - f * BSIZE"
    have fm: "f < MAXFILE" using less.prems(4) False by (auto simp: iappend_from.simps [of p] f_def Let_def split: if_splits)
    obtain x di1 m1 where a: "append_block f di m = Ok ((x, di1), m1)"
      and x: "unat x < length (img m1)"
      and rest: "iappend_from (drop n1 p) (length bs + n1) di1
          (wsect (unat x) (take k (img m1 ! unat x) @ take n1 p @ drop (k + n1) (img m1 ! unat x)) m1) = Ok ((off, di'), m')"
      using less.prems(4) False fm unfolding iappend_from.simps [of p]
      by (auto simp: f_def n1_def k_def Let_def seq_Ok rsect_def split: if_splits prod.splits)
    have "unat x < FSSIZE" using x append_block_length [OF a] less.prems(1) by (simp add: disk_ok_def)
    moreover have "blocks_for (length bs) = f \<or> blocks_for (length bs) = Suc f"
      using blocks_for_div unfolding f_def .
    ultimately obtain own1 where E: "extended own m i di (blocks_for (length bs)) own1 m1 di1 f (unat x)"
      using append_block_extended [OF less.prems(1,2) _ fm a] by blast
    define m2 where "m2 = wsect (unat x) (take k (img m1 ! unat x) @ take n1 p @ drop (k + n1) (img m1 ! unat x)) m1"
    have n1': "n1 = min (length p) (Suc f * BSIZE - length bs)" by (simp add: n1_def)
    have w: "disk_ok own1 m2 \<and> mapped_to own1 (img m2) i di1 (blocks_for (length bs + n1))
        \<and> file_holds (img m2) di1 (bs @ take n1 p) \<and> keeps_files own own1 i (img m) (img m2) \<and> freeinode m2 = freeinode m
        \<and> 0 < n1 \<and> n1 \<le> length p"
      by (rule write_chunk [OF E less.prems(3) refl f_def n1' False k_def fm m2_def])
    have len: "length (bs @ take n1 p) = length bs + n1" using w by simp
    obtain as1 where as1: "di1 = di\<lparr>d_addrs := as1\<rparr>" using E by (auto simp: extended_def)
    have n1s: "0 < n1" "n1 \<le> length p" using w by blast+
    then have "length (drop n1 p) < length p" unfolding length_drop by linarith
    moreover have "mapped_to own1 (img m2) i di1 (blocks_for (length (bs @ take n1 p)))" using w unfolding len by blast
    moreover have "iappend_from (drop n1 p) (length (bs @ take n1 p)) di1 m2 = Ok ((off, di'), m')"
      using rest unfolding len m2_def .
    ultimately obtain own' as where h: "disk_ok own' m'"
        "mapped_to own' (img m') i di' (blocks_for (length (bs @ take n1 p) + length (drop n1 p)))"
        "file_holds (img m') di' ((bs @ take n1 p) @ drop n1 p)" "keeps_files own1 own' i (img m2) (img m')"
        "freeinode m' = freeinode m2" "off = length (bs @ take n1 p) + length (drop n1 p)" "di' = di1\<lparr>d_addrs := as\<rparr>"
      using less.hyps [of "drop n1 p" own1 m2 di1 "bs @ take n1 p"] w by blast
    have l: "length (bs @ take n1 p) + length (drop n1 p) = length bs + length p" using n1s by simp
    have "keeps_files own own' i (img m) (img m')" using keeps_files_trans [OF _ h(4)] w by blast
    moreover have "di' = di\<lparr>d_addrs := as\<rparr>" by (simp add: h(7) as1)
    moreover have "file_holds (img m') di' (bs @ p)" using h(3) by simp
    ultimately show ?thesis
      using h(1,2,5,6) w unfolding l by (intro exI [of _ own'] exI [of _ as]) simp
  qed
qed

subsection \<open>Inodes in an image\<close>

definition inode_in :: "u8 list list \<Rightarrow> nat \<Rightarrow> dinode" where
  "inode_in im j = dinode_at (im ! (2 + nlog + j div IPB)) (j mod IPB)"

definition in_table :: "nat \<Rightarrow> bool" where
  "in_table b \<longleftrightarrow> 2 + nlog \<le> b \<and> b < 2 + nlog + ninodeblocks"

lemma table_block:
  assumes "j < NINODES"
  shows "unat (IBLOCK (of_nat j) mksb) = 2 + nlog + j div IPB" "unat (of_nat j :: u32) = j"
    "in_table (2 + nlog + j div IPB)" "2 + nlog + j div IPB < nmeta" "64 * (j mod IPB) + 64 \<le> BSIZE"
proof -
  have j: "j < 400" using assms by (simp add: NINODES_def)
  show u: "unat (of_nat j :: u32) = j" using j by (simp add: unat_of_nat_eq)
  have d: "unat (of_nat j div 8 :: u32) = j div 8" using u by (simp add: unat_div_distrib)
  have b: "j div 8 < 50" using j by auto
  show "unat (IBLOCK (of_nat j) mksb) = 2 + nlog + j div IPB"
    using d b by (simp add: IBLOCK_def mksb_def mk_params unat_word_ariths)
  show "in_table (2 + nlog + j div IPB)" "2 + nlog + j div IPB < nmeta"
    using b by (simp_all add: in_table_def mk_params)
  have "j mod 8 < 8" by simp
  then show "64 * (j mod IPB) + 64 \<le> BSIZE" unfolding mk_params by simp
qed

lemma rinode_in:
  "j < NINODES \<Longrightarrow> disk_ok own m \<Longrightarrow> rinode (of_nat j) m = Ok (inode_in (img m) j)"
  using table_block [of j] by (simp add: rinode_def rsect_def inode_in_def disk_ok_def mk_params)

text \<open>The image after a change of the inode table or of the bitmap.\<close>

definition meta_changed :: "(nat \<Rightarrow> bool) \<Rightarrow> mkst \<Rightarrow> mkst \<Rightarrow> bool" where
  "meta_changed P m m' \<longleftrightarrow> (\<forall>b. \<not> P b \<longrightarrow> img m' ! b = img m ! b) \<and> freeblock m' = freeblock m
     \<and> freeinode m' = freeinode m"

lemma meta_write:
  assumes "disk_ok own m" "b < nmeta" "length buf = BSIZE" "P b"
  shows "disk_ok own (wsect b buf m)" "meta_changed P m (wsect b buf m)" "img (wsect b buf m) ! b = buf"
proof -
  have b: "b < length (img m)" "length (img m) = FSSIZE" using assms by (simp_all add: disk_ok_def mk_params)
  show "disk_ok own (wsect b buf m)"
    using assms b by (auto simp: wsect_in disk_ok_def nth_list_update)
  show "meta_changed P m (wsect b buf m)" using assms(4) b by (auto simp: meta_changed_def wsect_in nth_list_update)
  show "img (wsect b buf m) ! b = buf" using b by (simp add: wsect_in)
qed

lemma meta_same_file:
  assumes "disk_ok own m" "meta_changed P m m'" "\<And>b. P b \<Longrightarrow> b < nmeta"
  shows "same_file own own j (img m) (img m')"
  unfolding same_file_def
proof (intro allI impI conjI refl)
  fix b k assume "own b = Some (j, k)"
  then have "nmeta \<le> b" using owned_block [OF assms(1)] by blast
  then have "\<not> P b" using assms(3) [of b] by auto
  then show "img m' ! b = img m ! b" using assms(2) by (simp add: meta_changed_def)
qed

lemma winode_in:
  assumes "j < NINODES" "disk_ok own m" "length (d_addrs d) = Suc NDIRECT"
  shows "\<exists>m'. winode (of_nat j) d m = Ok m' \<and> disk_ok own m' \<and> meta_changed in_table m m'
    \<and> (\<forall>j' < NINODES. inode_in (img m') j' = (if j' = j then d else inode_in (img m) j'))"
proof -
  let ?b = "2 + nlog + j div IPB"
  let ?m = "wsect ?b (put_dinode (j mod IPB) d (img m ! ?b)) m"
  note t = table_block [OF assms(1)]
  have b: "?b < length (img m)" "length (img m ! ?b) = BSIZE"
    using t(4) assms(2) by (simp_all add: disk_ok_def mk_params)
  have l: "length (put_dinode (j mod IPB) d (img m ! ?b)) = BSIZE"
    using dinode_at_put(2) [OF assms(3), of "j mod IPB" "img m ! ?b" "j mod IPB"] t(5) b(2) by simp
  have w: "winode (of_nat j) d m = Ok ?m" using t(1,2) b(1) by (simp add: winode_def rsect_def)
  note mw = meta_write [where P = in_table, OF assms(2) t(4) l t(3)]
  have "inode_in (img ?m) j' = (if j' = j then d else inode_in (img m) j')" if j': "j' < NINODES" for j'
  proof (cases "j' div IPB = j div IPB")
    case True
    have "j' mod IPB = j mod IPB \<longleftrightarrow> j' = j" using True by (metis div_mult_mod_eq)
    then show ?thesis
      using dinode_at_put(1) [OF assms(3), of "j mod IPB" "img m ! ?b" "j' mod IPB"] t(5) table_block(5) [OF j'] b(2) True mw(3)
      by (simp add: inode_in_def)
  next
    case False
    then have "img ?m ! (2 + nlog + j' div IPB) = img m ! (2 + nlog + j' div IPB)" using b(1) by (simp add: wsect_in)
    then show ?thesis using False by (auto simp: inode_in_def)
  qed
  then show ?thesis using w mw(1,2) by blast
qed

lemma inode_outside:
  assumes "meta_changed P m m'" "\<And>b. P b \<Longrightarrow> \<not> in_table b" "j < NINODES"
  shows "inode_in (img m') j = inode_in (img m) j"
proof -
  have "img m' ! (2 + nlog + j div IPB) = img m ! (2 + nlog + j div IPB)"
    using assms(1) assms(2) table_block(3) [OF assms(3)] unfolding meta_changed_def by blast
  then show ?thesis by (simp only: inode_in_def)
qed

subsection \<open>The files so far\<close>

type_synonym mkfile = "u16 \<times> u8 list"

definition holds_file :: "owner \<Rightarrow> u8 list list \<Rightarrow> nat \<Rightarrow> mkfile \<Rightarrow> dinode \<Rightarrow> bool" where
  "holds_file own im i f d \<longleftrightarrow>
     d_type d = fst f \<and> d_major d = 0 \<and> d_minor d = 0 \<and> d_nlink d = 1 \<and> unat (d_size d) = length (snd f)
     \<and> mapped_to own im i d (blocks_for (length (snd f))) \<and> file_holds im d (snd f)"

lemma resized [simp]:
  "mapped_to own im i (d\<lparr>d_size := n\<rparr>) c = mapped_to own im i d c"
  "file_holds im (d\<lparr>d_size := n\<rparr>) bs = file_holds im d bs"
  by (simp_all add: mapped_to_def file_holds_def fbyte_def blk_def)

lemma below_blocks: "q < n \<Longrightarrow> q < blocks_for n * BSIZE"
  using blocks_for_le [of q n] div_less_iff_less_mult [of BSIZE q "blocks_for n"] by (simp add: BSIZE_def)

lemma blocks_for_bound:
  assumes "blocks_for n \<le> c" shows "n \<le> c * BSIZE"
proof (rule ccontr)
  assume "\<not> n \<le> c * BSIZE"
  then have "c * BSIZE div BSIZE < blocks_for n" by (intro blocks_for_le) simp
  then show False using assms by (simp add: BSIZE_def)
qed

lemma file_holds_same:
  assumes "same_file own own' i im im'" "mapped_to own im i d (blocks_for (length bs))" "file_holds im d bs"
  shows "file_holds im' d bs"
proof -
  have b: "fbyte im' d q = fbyte im d q" if "q < blocks_for (length bs) * BSIZE" for q
    by (rule same_mapped(2) [OF assms(1,2) that])
  have "fbyte im' d q = bs ! q" if "q < length bs" for q
    using b [OF below_blocks [OF that]] that assms(3) by (simp add: file_holds_def)
  moreover have "fbyte im' d q = 0" if "length bs \<le> q" "q < blocks_for (length bs) * BSIZE" for q
    using b [OF that(2)] that assms(3) by (simp add: file_holds_def)
  ultimately show ?thesis unfolding file_holds_def by blast
qed

lemma holds_file_same:
  assumes "holds_file own im i f d" "same_file own own' i im im'"
  shows "holds_file own' im' i f d"
  using assms(1) same_mapped(1) [OF assms(2)] file_holds_same [OF assms(2)] by (simp add: holds_file_def)

text \<open>The image holds the files \<open>F\<close> in the inodes from 1 on; \<open>sbl\<close> are its first two blocks.\<close>

definition front :: "mkst \<Rightarrow> u8 list list" where
  "front m = [img m ! 0, img m ! 1]"

definition image_holds :: "owner \<Rightarrow> u8 list list \<Rightarrow> mkst \<Rightarrow> mkfile list \<Rightarrow> bool" where
  "image_holds own sbl m F \<longleftrightarrow>
     disk_ok own m \<and> front m = sbl \<and> length F < NINODES \<and> unat (freeinode m) = Suc (length F)
     \<and> (\<forall>j < length F. holds_file own (img m) (Suc j) (F ! j) (inode_in (img m) (Suc j)))"

lemma not_in_table [simp]: "\<not> in_table 0" "\<not> in_table (Suc 0)"
  by (simp_all add: in_table_def)

lemma in_table_meta: "in_table b \<Longrightarrow> b < nmeta"
  by (simp add: in_table_def nmeta_def nbitmap_def)

lemma mk_ialloc_spec:
  assumes h: "image_holds own sbl m F" and r: "Suc (length F) < NINODES"
  shows "\<exists>m'. mk_ialloc ty m = Ok (of_nat (Suc (length F)), m') \<and> image_holds own sbl m' (F @ [(ty, [])])
    \<and> freeblock m' = freeblock m"
proof -
  let ?m = "m\<lparr>freeinode := freeinode m + 1\<rparr>" and ?j = "Suc (length F)"
  let ?d = "\<lparr>d_type = ty, d_major = 0, d_minor = 0, d_nlink = 1, d_size = 0, d_addrs = replicate (Suc NDIRECT) 0\<rparr>"
  have fi: "freeinode m = of_nat ?j"
  proof -
    have "freeinode m = of_nat (unat (freeinode m))" by simp
    also have "unat (freeinode m) = ?j" using h by (simp add: image_holds_def)
    finally show ?thesis .
  qed
  have fi': "unat (freeinode m + 1) = Suc ?j"
    using r table_block(2) [of ?j] by (simp add: fi NINODES_def unat_word_ariths)
  have d: "disk_ok own ?m" using h by (simp add: image_holds_def disk_ok_def)
  obtain m' where m': "winode (of_nat ?j) ?d ?m = Ok m'" "disk_ok own m'" "meta_changed in_table ?m m'"
      "\<forall>j < NINODES. inode_in (img m') j = (if j = ?j then ?d else inode_in (img ?m) j)"
    using winode_in [OF r d, of ?d] by auto
  have "same_file own own j (img m) (img m')" for j
    using meta_same_file [OF d m'(3) in_table_meta, of j] by simp
  then have "holds_file own (img m') (Suc j) (F ! j) (inode_in (img m') (Suc j))" if "j < length F" for j
    using h m'(4) that r holds_file_same [of own "img m" "Suc j" "F ! j" "inode_in (img m) (Suc j)" own "img m'"]
    by (simp add: image_holds_def)
  moreover have "holds_file own (img m') ?j (ty, []) (inode_in (img m') ?j)"
    using m'(4) r by (simp add: holds_file_def file_holds_def mapped_to_def blocks_for_def BSIZE_def NDIRECT_def)
  moreover have "front m' = sbl" using m'(3) h by (simp add: front_def meta_changed_def image_holds_def)
  ultimately have "image_holds own sbl m' (F @ [(ty, [])])"
    using m'(2,3) r fi' unfolding image_holds_def by (auto simp: nth_append less_Suc_eq meta_changed_def)
  moreover have "mk_ialloc ty m = Ok (of_nat ?j, m')"
    using m'(1) by (simp add: mk_ialloc_def fi Let_def)
  ultimately show ?thesis using m'(3) by (simp add: meta_changed_def)
qed

lemma iappend_spec:
  assumes h: "image_holds own sbl m F" and j: "j < length F" and r: "iappend (of_nat (Suc j)) p m = Ok m'"
  shows "\<exists>own'. image_holds own' sbl m' (F[j := (fst (F ! j), snd (F ! j) @ p)])"
proof -
  let ?j = "Suc j" and ?ty = "fst (F ! j)" and ?bs = "snd (F ! j)"
  let ?d = "inode_in (img m) ?j"
  have n: "?j < NINODES" and dk: "disk_ok own m" using h j by (auto simp: image_holds_def)
  have hf: "holds_file own (img m) ?j (F ! j) ?d" using h j by (simp add: image_holds_def)
  then have f: "unat (d_size ?d) = length ?bs" "mapped_to own (img m) ?j ?d (blocks_for (length ?bs))"
      "file_holds (img m) ?d ?bs" by (auto simp: holds_file_def)
  obtain off d1 m1 where a: "iappend_from p (length ?bs) ?d m = Ok ((off, d1), m1)"
      "winode (of_nat ?j) (d1\<lparr>d_size := of_nat off\<rparr>) m1 = Ok m'"
    using r by (auto simp: iappend_def seq_Ok rinode_in [OF n dk] f(1) simp del: of_nat_Suc)
  obtain own' as where e: "disk_ok own' m1" "mapped_to own' (img m1) ?j d1 (blocks_for (length ?bs + length p))"
      "file_holds (img m1) d1 (?bs @ p)" "keeps_files own own' ?j (img m) (img m1)" "freeinode m1 = freeinode m"
      "off = length ?bs + length p" "d1 = ?d\<lparr>d_addrs := as\<rparr>"
    using iappend_from_spec [OF dk f(2,3) a(1)] by blast
  let ?d2 = "d1\<lparr>d_size := of_nat off\<rparr>"
  have la: "length (d_addrs ?d2) = Suc NDIRECT" using e(2) by (simp add: mapped_to_def)
  obtain m2 where w: "winode (of_nat ?j) ?d2 m1 = Ok m2" "disk_ok own' m2" "meta_changed in_table m1 m2"
      "\<forall>j' < NINODES. inode_in (img m2) j' = (if j' = ?j then ?d2 else inode_in (img m1) j')"
    using winode_in [OF n e(1) la] by blast
  have m2: "m' = m2" using a(2) w(1) by simp
  have same: "same_file own' own' i (img m1) (img m2)" for i
    by (rule meta_same_file [OF e(1) w(3) in_table_meta])
  have tab: "inode_in (img m1) j' = inode_in (img m) j'" if "j' < NINODES" for j'
    using e(4) table_block(4) [OF that] by (simp add: keeps_files_def inode_in_def)
  have "holds_file own' (img m2) (Suc l) (F[j := (?ty, ?bs @ p)] ! l) (inode_in (img m2) (Suc l))" if l: "l < length F" for l
  proof (cases "l = j")
    case True
    have c: "length ?bs + length p \<le> MAXFILE * BSIZE"
      using e(2) by (intro blocks_for_bound) (simp add: mapped_to_def)
    have head: "d_type d1 = d_type ?d" "d_major d1 = d_major ?d" "d_minor d1 = d_minor ?d" "d_nlink d1 = d_nlink ?d"
      by (simp_all add: e(7))
    have "unat (of_nat off :: u32) = length ?bs + length p"
      using c unfolding e(6) by (intro unat_of_nat_eq) (simp add: MAXFILE_def NDIRECT_def NINDIRECT_def BSIZE_def)
    then have "holds_file own' (img m1) ?j (?ty, ?bs @ p) ?d2"
      using e(2,3) hf by (simp add: holds_file_def head)
    then have "holds_file own' (img m2) ?j (?ty, ?bs @ p) ?d2" by (rule holds_file_same [OF _ same])
    then show ?thesis using True n w(4) j by simp
  next
    case False
    have "holds_file own (img m) (Suc l) (F ! l) (inode_in (img m) (Suc l))" using h l by (simp add: image_holds_def)
    then have "holds_file own' (img m1) (Suc l) (F ! l) (inode_in (img m) (Suc l))"
      by (rule holds_file_same) (rule keeps_files_same [OF e(4)], use False in simp)
    then have "holds_file own' (img m2) (Suc l) (F ! l) (inode_in (img m) (Suc l))" by (rule holds_file_same [OF _ same])
    moreover have "Suc l < NINODES" using l h by (simp add: image_holds_def)
    ultimately show ?thesis using False w(4) tab by simp
  qed
  moreover have "front m2 = sbl"
    using w(3) e(4) h by (simp add: front_def meta_changed_def keeps_files_def image_holds_def mk_params)
  ultimately show ?thesis
    using w(2,3) h e(5) unfolding m2 image_holds_def by (intro exI [of _ own']) (simp add: meta_changed_def)
qed

subsection \<open>The program\<close>

text \<open>What the reads of a file deliver up to the end of the input.\<close>

definition contents :: "u8 list list \<Rightarrow> u8 list" where
  "contents inp = concat (takeWhile (\<lambda>p. p \<noteq> []) inp)"

lemma read_piece_contents:
  assumes "read_piece n inp = (d, inp')" "0 < n"
  shows "contents inp = d @ (if d = [] then [] else contents inp')"
  using assms by (cases "(n, inp)" rule: read_piece.cases) (auto simp: contents_def split: if_splits)

lemma copy_file_spec:
  assumes "image_holds own sbl m F" "j < length F" "copy_file (of_nat (Suc j)) inp m = Ok m'"
  shows "\<exists>own'. image_holds own' sbl m' (F[j := (fst (F ! j), snd (F ! j) @ contents inp)])"
  using assms
proof (induction "length (concat inp)" arbitrary: inp m F own rule: less_induct)
  case less
  obtain d inp' where p: "read_piece BSIZE inp = (d, inp')" by fastforce
  note c = read_piece_contents [OF p]
  show ?case
  proof (cases "d = []")
    case True
    then have "m' = m" using less.prems(3) p by (simp add: copy_file.simps [of _ inp] del: of_nat_Suc)
    moreover have "contents inp = []" using c True by (simp add: BSIZE_def)
    ultimately show ?thesis using less.prems(1,2) by (intro exI [of _ own]) simp
  next
    case False
    let ?F = "F[j := (fst (F ! j), snd (F ! j) @ d)]"
    obtain m1 where m1: "iappend (of_nat (Suc j)) d m = Ok m1" "copy_file (of_nat (Suc j)) inp' m1 = Ok m'"
      using less.prems(3) p False by (auto simp: copy_file.simps [of _ inp] seq_Ok simp del: of_nat_Suc)
    obtain own1 where "image_holds own1 sbl m1 ?F" using iappend_spec [OF less.prems(1,2) m1(1)] by blast
    then obtain own' where
      "image_holds own' sbl m' (?F[j := (fst (?F ! j), snd (?F ! j) @ contents inp')])"
      using less.hyps [OF read_piece_less [OF p False], of own1 m1 ?F] m1(2) less.prems(2) by auto
    moreover have "contents inp = d @ contents inp'" using c False by (simp add: BSIZE_def)
    ultimately show ?thesis using less.prems(2) by auto
  qed
qed

text \<open>The directory entries of the files, numbered from \<open>n\<close>, and the files.\<close>

definition image_name :: "u8 list \<Rightarrow> u8 list" where
  "image_name arg = (case shortname arg of Ok s \<Rightarrow> skip_underscore s | Fail _ \<Rightarrow> [])"

primrec entries :: "nat \<Rightarrow> u8 list list \<Rightarrow> u8 list" where
  "entries n [] = []"
| "entries n (a # as) = entry (of_nat n) (name_field (image_name a)) @ entries (Suc n) as"

definition file_of :: "(u8 list \<Rightarrow> u8 list list option) \<Rightarrow> u8 list \<Rightarrow> mkfile" where
  "file_of fs a = (T_FILE, contents (case fs a of None \<Rightarrow> [] | Some inp \<Rightarrow> inp))"

lemma add_file_spec:
  assumes h: "image_holds own sbl m ((T_DIR, r) # G)" and n: "length G + 2 < NINODES"
    and a: "add_file fs ROOTINO a m = Ok m'"
  shows "\<exists>own' s. shortname a = Ok s \<and> fs a \<noteq> None
    \<and> image_holds own' sbl m' ((T_DIR, r @ entry (of_nat (length G + 2)) (name_field (image_name a))) # G @ [file_of fs a])"
proof -
  let ?F = "(T_DIR, r) # G" and ?i = "of_nat (Suc (length G + 1)) :: u32"
  obtain s inp m1 m2 where s: "shortname a = Ok s" "fs a = Some inp"
      and m1: "mk_ialloc T_FILE m = Ok (?i, m1)" "image_holds own sbl m1 (?F @ [(T_FILE, [])])"
      and m2: "iappend ROOTINO (entry ?i (name_field (skip_underscore s))) m1 = Ok m2" "copy_file ?i inp m2 = Ok m'"
    using a mk_ialloc_spec [OF h, of T_FILE] n unfolding add_file_def
    by (auto simp: seq_Ok split: option.splits)
  let ?e = "entry ?i (name_field (image_name a))"
  have root: "ROOTINO = of_nat (Suc 0)" by (simp add: ROOTINO_def)
  have e: "iappend (of_nat (Suc 0)) ?e m1 = Ok m2" using m2(1) s by (simp add: root image_name_def)
  obtain own1 where 1: "image_holds own1 sbl m2 ((T_DIR, r @ ?e) # G @ [(T_FILE, [])])"
    using iappend_spec [OF m1(2) _ e] by auto
  obtain own2 where "image_holds own2 sbl m' (((T_DIR, r @ ?e) # G @ [(T_FILE, [])])[length G + 1 := (T_FILE, contents inp)])"
    using copy_file_spec [OF 1 _ m2(2)] by auto
  then show ?thesis using s by (intro exI [of _ own2] exI [of _ s]) (simp add: file_of_def list_update_append)
qed

lemma add_files_spec:
  assumes "image_holds own sbl m ((T_DIR, r) # G)" "length G + length as + 1 < NINODES"
    "add_files fs ROOTINO as m = Ok m'"
  shows "\<exists>own'. image_holds own' sbl m' ((T_DIR, r @ entries (length G + 2) as) # G @ map (file_of fs) as)
    \<and> (\<forall>a \<in> set as. fs a \<noteq> None \<and> (\<exists>s. shortname a = Ok s))"
  using assms
proof (induction as arbitrary: own m r G)
  case Nil
  then show ?case by auto
next
  case (Cons a as)
  obtain m1 where m1: "add_file fs ROOTINO a m = Ok m1" "add_files fs ROOTINO as m1 = Ok m'"
    using Cons.prems(3) by (auto simp: seq_Ok)
  have n: "length G + 2 < NINODES" using Cons.prems(2) by simp
  obtain own1 s where 1: "shortname a = Ok s" "fs a \<noteq> None" "image_holds own1 sbl m1
      ((T_DIR, r @ entry (of_nat (length G + 2)) (name_field (image_name a))) # G @ [file_of fs a])"
    using add_file_spec [OF Cons.prems(1) n m1(1)] by blast
  have "length (G @ [file_of fs a]) + length as + 1 < NINODES" using Cons.prems(2) by simp
  from Cons.IH [OF 1(3) this m1(2)] show ?case using 1(1,2) by (auto simp del: of_nat_Suc of_nat_add)
qed

lemma mk_bits_spec:
  assumes "n \<le> 8 * length d"
  shows "length (mk_bits n d) = length d" "k < 8 * length d \<Longrightarrow> bit_free (mk_bits n d) k \<longleftrightarrow> bit_free d k \<and> n \<le> k"
proof -
  have "length (mk_bits n d) = length d \<and> (k < 8 * length d \<longrightarrow> (bit_free (mk_bits n d) k \<longleftrightarrow> bit_free d k \<and> n \<le> k))"
    using assms
  proof (induction n)
    case (Suc n)
    then have l: "length (mk_bits n d) = length d" by simp
    have e: "mk_bits (Suc n) d = mark n (mk_bits n d)" by (simp add: mark_def bit_mask_def Let_def)
    have "n < 8 * length (mk_bits n d)" using Suc.prems l by simp
    then show ?case
      using Suc bit_free_mark [of n "mk_bits n d" k] unfolding e l length_mark by (auto simp: Suc_le_eq)
  qed simp
  then show "length (mk_bits n d) = length d" "k < 8 * length d \<Longrightarrow> bit_free (mk_bits n d) k \<longleftrightarrow> bit_free d k \<and> n \<le> k"
    by blast+
qed

lemma bit_free_zero: "k < 8 * BSIZE \<Longrightarrow> bit_free (replicate BSIZE 0) k"
  by (simp add: bit_free_iff less_mult_imp_div_less mult.commute)

abbreviation first_block :: "u8 list" where
  "first_block \<equiv> sb_bytes mksb @ replicate (BSIZE - 32) 0"

abbreviation first_blocks :: "u8 list list" where
  "first_blocks \<equiv> [replicate BSIZE 0, first_block]"

lemma length_first_block: "length first_block = BSIZE"
  by (simp add: sb_bytes_def BSIZE_def)

lemma image_holds_blank: "image_holds (\<lambda>_. None) first_blocks mk_blank []"
proof -
  have nm: "unat (of_nat nmeta :: u32) = nmeta" by (simp add: mk_params)
  have i: "img mk_blank = (replicate FSSIZE (replicate BSIZE 0))[1 := first_block]"
    by (simp add: mk_blank_def wsect_def FSSIZE_def del: replicate.simps)
  have "disk_ok (\<lambda>_. None) mk_blank"
  proof -
    have "length (img mk_blank ! b) = BSIZE" if "b < FSSIZE" for b
      using that length_first_block unfolding i by (cases "b = 1") simp_all
    moreover have "freeblock mk_blank = of_nat nmeta" by (simp add: mk_blank_def wsect_def)
    moreover have "img mk_blank ! b = replicate BSIZE 0" if "b < FSSIZE" "nmeta \<le> b" for b
      using that unfolding i by (simp add: mk_params del: replicate.simps)
    moreover have "nmeta \<le> FSSIZE" by (simp add: mk_params)
    moreover have "length (img mk_blank) = FSSIZE" unfolding i by simp
    ultimately show ?thesis using nm by (simp add: disk_ok_def)
  qed
  moreover have "front mk_blank = [replicate BSIZE 0, first_block]" unfolding front_def i by (simp add: FSSIZE_def del: replicate.simps)
  moreover have "freeinode mk_blank = 1" by (simp add: mk_blank_def wsect_def)
  ultimately show ?thesis by (simp add: image_holds_def NINODES_def)
qed

text \<open>The root directory, whose size has been rounded up.\<close>

definition root_holds :: "owner \<Rightarrow> u8 list list \<Rightarrow> u8 list \<Rightarrow> dinode \<Rightarrow> bool" where
  "root_holds own im es d \<longleftrightarrow>
     d_type d = T_DIR \<and> d_nlink d = 1 \<and> unat (d_size d) = (length es div BSIZE + 1) * BSIZE
     \<and> mapped_to own im 1 d (blocks_for (length es)) \<and> file_holds im d es"

lemma round_root_spec:
  assumes h: "image_holds own sbl m ((T_DIR, es) # G)" and r: "round_root ROOTINO m = Ok m'"
  shows "disk_ok own m' \<and> front m' = sbl \<and> root_holds own (img m') es (inode_in (img m') 1)
    \<and> (\<forall>k < length G. holds_file own (img m') (k + 2) (G ! k) (inode_in (img m') (k + 2)))"
proof -
  let ?d = "inode_in (img m) 1" and ?off = "(length es div BSIZE + 1) * BSIZE"
  have dk: "disk_ok own m" and N: "length G + 1 < NINODES" using h by (simp_all add: image_holds_def)
  have hf: "holds_file own (img m) 1 (T_DIR, es) ?d" using h by (auto simp: image_holds_def)
  have n1: "(1 :: nat) < NINODES" by (simp add: NINODES_def)
  have sz: "unat (d_size ?d) = length es" using hf by (simp add: holds_file_def)
  have w: "winode (of_nat 1) (?d\<lparr>d_size := of_nat ?off\<rparr>) m = Ok m'"
  proof -
    have "rinode 1 m = Ok ?d" using rinode_in [OF n1 dk] by simp
    then show ?thesis using r sz by (simp add: round_root_def ROOTINO_def Let_def)
  qed
  have "length (d_addrs (?d\<lparr>d_size := of_nat ?off\<rparr>)) = Suc NDIRECT" using hf by (simp add: holds_file_def mapped_to_def)
  from winode_in [OF n1 dk this] obtain m2 where m2: "winode (of_nat 1) (?d\<lparr>d_size := of_nat ?off\<rparr>) m = Ok m2"
      "disk_ok own m2" "meta_changed in_table m m2"
      "\<forall>j < NINODES. inode_in (img m2) j = (if j = 1 then ?d\<lparr>d_size := of_nat ?off\<rparr> else inode_in (img m) j)"
    by blast
  have "m2 = m'" using m2(1) unfolding w by simp
  note m' = m2(2-4) [unfolded this]
  have same: "same_file own own i (img m) (img m')" for i by (rule meta_same_file [OF dk m'(2) in_table_meta])
  have c: "length es \<le> MAXFILE * BSIZE"
    using hf by (intro blocks_for_bound) (simp add: holds_file_def mapped_to_def)
  have "length es div BSIZE \<le> MAXFILE * BSIZE div BSIZE" using c by (rule div_le_mono)
  then have "?off \<le> (MAXFILE + 1) * BSIZE" by (simp add: BSIZE_def)
  then have "unat (of_nat ?off :: u32) = ?off"
    by (intro unat_of_nat_eq) (simp add: MAXFILE_def NDIRECT_def NINDIRECT_def BSIZE_def)
  moreover have "holds_file own (img m') 1 (T_DIR, es) ?d" by (rule holds_file_same [OF hf same])
  ultimately have "root_holds own (img m') es (inode_in (img m') 1)"
    using m'(3) n1 by (simp add: root_holds_def holds_file_def)
  moreover have "holds_file own (img m') (k + 2) (G ! k) (inode_in (img m') (k + 2))" if k: "k < length G" for k
  proof -
    have "holds_file own (img m) (k + 2) (G ! k) (inode_in (img m) (k + 2))"
      using h k by (auto simp: image_holds_def)
    then have "holds_file own (img m') (k + 2) (G ! k) (inode_in (img m) (k + 2))" by (rule holds_file_same [OF _ same])
    then show ?thesis using m'(3) N k by simp
  qed
  moreover have "front m' = sbl" using m'(2) h by (simp add: front_def meta_changed_def image_holds_def)
  ultimately show ?thesis using m'(1) by blast
qed

definition is_bitmap :: "nat \<Rightarrow> bool" where "is_bitmap b \<longleftrightarrow> b = unat (sb_bmapstart mksb)"

lemma is_bitmap_eq: "is_bitmap b \<longleftrightarrow> b = 69"
  by (simp add: is_bitmap_def mksb_def mk_params)

lemma mk_balloc_spec:
  assumes d: "disk_ok own m" and r: "mk_balloc (unat (freeblock m)) m = Ok m'"
  shows "disk_ok own m' \<and> meta_changed is_bitmap m m'
    \<and> (\<forall>b < FSSIZE. bit_free (img m' ! unat (sb_bmapstart mksb)) b \<longleftrightarrow> unat (freeblock m) \<le> b)"
proof -
  let ?n = "unat (freeblock m)" and ?b = "unat (sb_bmapstart mksb)"
  let ?B = "mk_bits ?n (replicate BSIZE 0)"
  have n: "?n \<le> FSSIZE" using d by (simp add: disk_ok_def)
  then have n8: "?n \<le> 8 * length (replicate BSIZE (0 :: u8))" by (simp add: FSSIZE_def BSIZE_def del: replicate.simps)
  have m': "m' = wsect ?b ?B m" using r by (simp add: mk_balloc_def split: if_splits)
  have l: "length ?B = BSIZE" using mk_bits_spec(1) [OF n8] by simp
  have b: "?b < nmeta" "is_bitmap ?b" using is_bitmap_eq [of ?b] by (simp_all add: is_bitmap_def mk_params)
  have "bit_free ?B k \<longleftrightarrow> ?n \<le> k" if "k < FSSIZE" for k
  proof -
    have "k < 8 * BSIZE" using that by (simp add: FSSIZE_def BSIZE_def)
    then show ?thesis using mk_bits_spec(2) [OF n8, of k] bit_free_zero [of k] by (simp del: replicate.simps)
  qed
  then show ?thesis
    using meta_write [where P = is_bitmap, OF d b(1) l b(2)] unfolding m' by simp
qed

text \<open>The first two entries of the root directory.\<close>

definition dots :: "u8 list" where
  "dots = entry ROOTINO (name_field (ascii ''.'')) @ entry ROOTINO (name_field (ascii ''..''))"

lemma mkfs_holds:
  assumes r: "mkfs fs files = Ok m" and n: "length files + 1 < NINODES"
  shows "\<exists>own m2 m3. image_holds own first_blocks m2 ((T_DIR, dots @ entries 2 files) # map (file_of fs) files)
    \<and> (\<forall>a \<in> set files. fs a \<noteq> None \<and> (\<exists>s. shortname a = Ok s))
    \<and> round_root ROOTINO m2 = Ok m3 \<and> mk_balloc (unat (freeblock m3)) m3 = Ok m"
proof -
  have one: "Suc (length ([] :: mkfile list)) < NINODES" by (simp add: NINODES_def)
  obtain m0 where m0: "mk_ialloc T_DIR mk_blank = Ok (ROOTINO, m0)" "image_holds (\<lambda>_. None) first_blocks m0 [(T_DIR, [])]"
    using mk_ialloc_spec [OF image_holds_blank one, of T_DIR] by (auto simp: ROOTINO_def)
  let ?e1 = "entry ROOTINO (name_field (ascii ''.''))" and ?e2 = "entry ROOTINO (name_field (ascii ''..''))"
  obtain m1 m1' m2 m3 where s: "iappend ROOTINO ?e1 m0 = Ok m1" "iappend ROOTINO ?e2 m1 = Ok m1'"
      "add_files fs ROOTINO files m1' = Ok m2" "round_root ROOTINO m2 = Ok m3" "mk_balloc (unat (freeblock m3)) m3 = Ok m"
    using r m0(1) by (auto simp: mkfs_def seq_Ok)
  have root: "ROOTINO = of_nat (Suc 0)" by (simp add: ROOTINO_def)
  obtain own1 where 1: "image_holds own1 first_blocks m1 [(T_DIR, ?e1)]"
    using iappend_spec [OF m0(2), of 0 ?e1 m1] s(1) by (auto simp: root)
  obtain own2 where 2: "image_holds own2 first_blocks m1' [(T_DIR, dots)]"
    using iappend_spec [OF 1, of 0 ?e2 m1'] s(2) by (auto simp: root dots_def)
  have "length ([] :: mkfile list) + length files + 1 < NINODES" using n by simp
  then show ?thesis using add_files_spec [OF 2 _ s(3)] s(4,5) unfolding list.size(3) add_0 append_Nil by blast
qed

definition image_of :: "(u8 list \<Rightarrow> u8 list list option) \<Rightarrow> u8 list list \<Rightarrow> owner \<Rightarrow> mkst \<Rightarrow> bool" where
  "image_of fs files own m \<longleftrightarrow>
     disk_ok own m \<and> img m ! 0 = replicate BSIZE 0 \<and> sb_of_bytes (img m ! 1) = mksb
     \<and> root_holds own (img m) (dots @ entries 2 files) (inode_in (img m) 1)
     \<and> (\<forall>k < length files. \<exists>inp. fs (files ! k) = Some inp
         \<and> holds_file own (img m) (k + 2) (T_FILE, contents inp) (inode_in (img m) (k + 2)))
     \<and> (\<forall>b < FSSIZE. bit_free (img m ! unat (sb_bmapstart mksb)) b \<longleftrightarrow> unat (freeblock m) \<le> b)"

lemma mkfs_image:
  assumes "mkfs fs files = Ok m" and "length files < 399"
  shows "\<exists>own. image_of fs files own m"
proof -
  have N: "length files + 1 < NINODES" using assms(2) by (simp add: NINODES_def)
  obtain own m2 m3 where h: "image_holds own first_blocks m2 ((T_DIR, dots @ entries 2 files) # map (file_of fs) files)"
      "\<forall>a \<in> set files. fs a \<noteq> None" "round_root ROOTINO m2 = Ok m3" "mk_balloc (unat (freeblock m3)) m3 = Ok m"
    using mkfs_holds [OF assms(1) N] by blast
  have r: "disk_ok own m3" "front m3 = [replicate BSIZE 0, first_block]"
      "root_holds own (img m3) (dots @ entries 2 files) (inode_in (img m3) 1)"
      "\<forall>k < length files. holds_file own (img m3) (k + 2) (file_of fs (files ! k)) (inode_in (img m3) (k + 2))"
    using round_root_spec [OF h(1,3)] by simp_all
  have b: "disk_ok own m" "meta_changed is_bitmap m3 m"
      "\<forall>b < FSSIZE. bit_free (img m ! unat (sb_bmapstart mksb)) b \<longleftrightarrow> unat (freeblock m3) \<le> b"
    using mk_balloc_spec [OF r(1) h(4)] by simp_all
  have same: "same_file own own i (img m3) (img m)" for i
    by (rule meta_same_file [OF r(1) b(2)]) (simp add: is_bitmap_eq mk_params)
  have ino: "inode_in (img m) j = inode_in (img m3) j" if "j < NINODES" for j
    by (rule inode_outside [OF b(2) _ that]) (simp add: is_bitmap_eq in_table_def mk_params)
  have fb: "freeblock m = freeblock m3" using b(2) by (simp add: meta_changed_def)
  have "root_holds own (img m) (dots @ entries 2 files) (inode_in (img m) 1)"
  proof -
    let ?d = "inode_in (img m3) 1" and ?es = "dots @ entries 2 files"
    have mt: "mapped_to own (img m3) 1 ?d (blocks_for (length ?es))" "file_holds (img m3) ?d ?es"
      using r(3) by (simp_all add: root_holds_def)
    have "mapped_to own (img m) 1 ?d (blocks_for (length ?es))" "file_holds (img m) ?d ?es"
      using same_mapped(1) [OF same mt(1)] file_holds_same [OF same mt] by simp_all
    then show ?thesis using r(3) ino [of 1] by (simp add: root_holds_def NINODES_def)
  qed
  moreover have "\<exists>inp. fs (files ! k) = Some inp
      \<and> holds_file own (img m) (k + 2) (T_FILE, contents inp) (inode_in (img m) (k + 2))" if k: "k < length files" for k
  proof -
    obtain inp where i: "fs (files ! k) = Some inp" using h(2) k nth_mem by blast
    have "holds_file own (img m3) (k + 2) (T_FILE, contents inp) (inode_in (img m3) (k + 2))"
    proof -
      have "file_of fs (files ! k) = (T_FILE, contents inp)" using i by (simp add: file_of_def)
      then show ?thesis using r(4) k by metis
    qed
    then have "holds_file own (img m) (k + 2) (T_FILE, contents inp) (inode_in (img m3) (k + 2))"
      by (rule holds_file_same [OF _ same])
    then show ?thesis using i ino [of "k + 2"] k N by simp
  qed
  moreover have f: "img m ! 0 = replicate BSIZE 0" "img m ! 1 = first_block"
    using b(2) r(2) by (simp_all add: front_def meta_changed_def is_bitmap_eq)
  moreover have "sb_of_bytes (img m ! 1) = mksb"
    unfolding f(2) by (simp add: sb_of_bytes_def sb_bytes_def get32_def le32_def)
  ultimately have "image_of fs files own m" using b(1,3) fb unfolding image_of_def by simp
  then show ?thesis by blast
qed

text \<open>
  C4: When \<open>mkfs\<close> is done the image holds every file. The boot block is zero, block 1 the superblock; the root directory
  holds the entries of \<open>.\<close> and \<open>..\<close> and one for each file in order, its name without \<open>user/\<close> and the
  underscore, its number the inode of the file; that inode has type file, one link and the size of
  the input, and its blocks, direct and indirect, hold exactly the bytes read. No block belongs to
  two files or twice to one, and the bitmap marks exactly the blocks before the first free one, among
  which they all are.
\<close>

theorem mkfs_writes_the_files:
  assumes "mkfs fs files = Ok m" and "length files < 399"
  shows "length (img m) = FSSIZE \<and> img m ! 0 = replicate BSIZE 0 \<and> sb_of_bytes (img m ! 1) = mksb
    \<and> (\<exists>own. root_holds own (img m) (dots @ entries 2 files) (inode_in (img m) 1)
      \<and> (\<forall>k < length files. \<exists>inp. fs (files ! k) = Some inp
          \<and> holds_file own (img m) (k + 2) (T_FILE, contents inp) (inode_in (img m) (k + 2)))
      \<and> (\<forall>b. own b \<noteq> None \<longrightarrow> nmeta \<le> b \<and> b < unat (freeblock m))
      \<and> (\<forall>b < FSSIZE. bit_free (img m ! unat (sb_bmapstart mksb)) b \<longleftrightarrow> unat (freeblock m) \<le> b))"
proof -
  obtain own where "image_of fs files own m" using mkfs_image [OF assms] ..
  then show ?thesis unfolding image_of_def by (intro conjI exI [of _ own]) (simp_all add: disk_ok_def)
qed

subsection \<open>The program succeeds on a small example\<close>

lemma append_succeeds:
  assumes h: "image_holds own sbl m F" and j: "j < length F" and p: "p \<noteq> []"
    and room: "length (snd (F ! j)) mod BSIZE + length p \<le> BSIZE" "length (snd (F ! j)) < NDIRECT * BSIZE"
    and fb: "unat (freeblock m) < FSSIZE"
  shows "\<exists>m'. iappend (of_nat (Suc j)) p m = Ok m' \<and> unat (freeblock m') \<le> unat (freeblock m) + 1"
proof -
  let ?n = "length (snd (F ! j))" and ?d = "inode_in (img m) (Suc j)"
  let ?f = "?n div BSIZE"
  have n: "Suc j < NINODES" and dk: "disk_ok own m" using h j by (auto simp: image_holds_def)
  have hf: "holds_file own (img m) (Suc j) (F ! j) ?d" using h j by (simp add: image_holds_def)
  then have sz: "unat (d_size ?d) = ?n" and a: "mapped_to own (img m) (Suc j) ?d (blocks_for ?n)" and f3: "file_holds (img m) ?d (snd (F ! j))"
    by (simp_all add: holds_file_def)
  have f: "?f < NDIRECT" using room(2) by (simp add: less_mult_imp_div_less)
  obtain x d1 m1 where b: "append_block ?f ?d m = Ok ((x, d1), m1)" and x: "unat x < FSSIZE" and im: "img m1 = img m"
      and fb1: "unat (freeblock m1) \<le> unat (freeblock m) + 1"
  proof (cases "d_addrs ?d ! ?f = 0")
    case True
    then show ?thesis
      using that [of "freeblock m" "?d\<lparr>d_addrs := (d_addrs ?d)[?f := freeblock m]\<rparr>" "m\<lparr>freeblock := freeblock m + 1\<rparr>"]
        f fb fresh_block(4) [OF dk fb] a by (simp add: append_block_def new_block_def mapped_to_def)
  next
    case False
    then have "?f < blocks_for ?n" using a f by (meson mapped_to_def not_le)
    then have "own (blk (img m) ?d ?f) = Some (Suc j, ?f)" using a by (simp add: mapped_to_def)
    then have "blk (img m) ?d ?f < FSSIZE" using owned_block [OF dk] by blast
    then show ?thesis using that [of "d_addrs ?d ! ?f" ?d m] False f by (simp add: append_block_def blk_def)
  qed
  define k where "k = ?n - ?f * BSIZE"
  define m2 where "m2 = wsect (unat x) (take k (img m1 ! unat x) @ p @ drop (k + length p) (img m1 ! unat x)) m1"
  have km: "k = ?n mod BSIZE" by (simp add: k_def minus_div_mult_eq_mod)
  have "?n = ?f * BSIZE + k" "(?f + 1) * BSIZE = ?f * BSIZE + BSIZE" using div_mult_mod_eq [of ?n BSIZE] km by simp_all
  then have "(?f + 1) * BSIZE - ?n = BSIZE - k" by linarith
  then have n1: "min (length p) ((?f + 1) * BSIZE - ?n) = length p" using room(1) km by simp
  have lx: "unat x < length (img m1)" using x dk im by (simp add: disk_ok_def)
  have fm: "?f < MAXFILE" using f by (simp add: MAXFILE_def)
  have e: "iappend_from p ?n ?d m = Ok ((?n + length p, d1), m2)"
    unfolding iappend_from.simps [of p] Let_def n1
    using p b lx fm by (simp add: rsect_def iappend_from.simps [of "[]"] m2_def k_def)
  obtain own' as where s: "disk_ok own' m2" "mapped_to own' (img m2) (Suc j) d1 (blocks_for (?n + length p))"
    using iappend_from_spec [OF dk a f3 e] by blast
  obtain m3 where w: "winode (of_nat (Suc j)) (d1\<lparr>d_size := of_nat (?n + length p)\<rparr>) m2 = Ok m3" "meta_changed in_table m2 m3"
    using winode_in [OF n s(1), of "d1\<lparr>d_size := of_nat (?n + length p)\<rparr>"] s(2) by (auto simp: mapped_to_def)
  have "iappend (of_nat (Suc j)) p m = Ok m3"
    using e w(1) sz by (simp add: iappend_def rinode_in [OF n dk] del: of_nat_Suc of_nat_add)
  moreover have "freeblock m3 = freeblock m1" using w(2) lx by (simp add: meta_changed_def m2_def wsect_in)
  ultimately show ?thesis using fb1 by simp
qed

lemma length_entry [simp]: "length (entry i (name_field nm)) = 16"
  by (simp add: entry_def dirent_bytes_def le16_def name_field_def DIRSIZ_def)

lemma finish_succeeds:
  assumes h: "image_holds own sbl m ((T_DIR, es) # G)"
  shows "\<exists>m'. seq (round_root ROOTINO m) (\<lambda>m. mk_balloc (unat (freeblock m)) m) = Ok m'"
proof -
  let ?d = "inode_in (img m) 1"
  have dk: "disk_ok own m" and hf: "holds_file own (img m) 1 (T_DIR, es) ?d" using h by (auto simp: image_holds_def)
  have n1: "(1 :: nat) < NINODES" by (simp add: NINODES_def)
  have "length (d_addrs (?d\<lparr>d_size := z\<rparr>)) = Suc NDIRECT" for z using hf by (simp add: holds_file_def mapped_to_def)
  from winode_in [OF n1 dk this] obtain m' where "round_root ROOTINO m = Ok m'" and d: "disk_ok own m'"
    using rinode_in [OF n1 dk] by (auto simp: round_root_def ROOTINO_def Let_def)
  moreover have "unat (freeblock m') < BSIZE * 8" using d by (simp add: disk_ok_def FSSIZE_def BSIZE_def)
  ultimately show ?thesis by (simp add: mk_balloc_def)
qed

lemma mkfs_one_file:
  assumes s: "shortname a = Ok nm" and p: "p \<noteq> []" "length p \<le> BSIZE"
  shows "\<exists>m. mkfs (\<lambda>_. Some [p]) [a] = Ok m"
proof -
  have root: "ROOTINO = of_nat (Suc 0)" by (simp add: ROOTINO_def)
  have one: "Suc (length ([] :: mkfile list)) < NINODES" by (simp add: NINODES_def)
  obtain m0 where m0: "mk_ialloc T_DIR mk_blank = Ok (ROOTINO, m0)" "image_holds (\<lambda>_. None) first_blocks m0 [(T_DIR, [])]"
      "freeblock m0 = freeblock mk_blank"
    using mk_ialloc_spec [OF image_holds_blank one, of T_DIR] by (auto simp: ROOTINO_def)
  have f0: "unat (freeblock m0) = 70" by (simp add: m0(3) mk_blank_def wsect_def mk_params)
  let ?e1 = "entry ROOTINO (name_field (ascii ''.''))" and ?e2 = "entry ROOTINO (name_field (ascii ''..''))"
  have ne: "entry i (name_field x) \<noteq> []" for i x using length_entry [of i x] by (metis list.size(3) zero_neq_numeral)
  obtain m1 where m1: "iappend ROOTINO ?e1 m0 = Ok m1" "unat (freeblock m1) \<le> 71"
    using append_succeeds [OF m0(2), of 0 ?e1] f0 ne by (auto simp: root BSIZE_def NDIRECT_def FSSIZE_def)
  obtain own1 where 1: "image_holds own1 first_blocks m1 [(T_DIR, ?e1)]"
    using iappend_spec [OF m0(2), of 0 ?e1 m1] m1(1) by (auto simp: root)
  obtain m2 where m2: "iappend ROOTINO ?e2 m1 = Ok m2" "unat (freeblock m2) \<le> 72"
    using append_succeeds [OF 1, of 0 ?e2] m1(2) ne by (auto simp: root BSIZE_def NDIRECT_def FSSIZE_def)
  obtain own2 where 2: "image_holds own2 first_blocks m2 [(T_DIR, dots)]"
    using iappend_spec [OF 1, of 0 ?e2 m2] m2(1) by (auto simp: root dots_def)
  obtain m3 where m3: "mk_ialloc T_FILE m2 = Ok (2, m3)" "image_holds own2 first_blocks m3 [(T_DIR, dots), (T_FILE, [])]"
      "freeblock m3 = freeblock m2"
    using mk_ialloc_spec [OF 2, of T_FILE] by (auto simp: NINODES_def)
  let ?e = "entry 2 (name_field (skip_underscore nm))"
  have ld: "length dots = 32" by (simp add: dots_def)
  obtain m4 where m4: "iappend ROOTINO ?e m3 = Ok m4" "unat (freeblock m4) \<le> 73"
    using append_succeeds [OF m3(2), of 0 ?e] m2(2) m3(3) ld ne by (auto simp: root BSIZE_def NDIRECT_def FSSIZE_def)
  obtain own4 where 4: "image_holds own4 first_blocks m4 [(T_DIR, dots @ ?e), (T_FILE, [])]"
    using iappend_spec [OF m3(2), of 0 ?e m4] m4(1) by (auto simp: root)
  obtain m5 where m5: "iappend 2 p m4 = Ok m5"
    using append_succeeds [OF 4, of 1 p] m4(2) p by (auto simp: NDIRECT_def FSSIZE_def BSIZE_def)
  obtain own5 where 5: "image_holds own5 first_blocks m5 [(T_DIR, dots @ ?e), (T_FILE, p)]"
    using iappend_spec [OF 4, of 1 p m5] m5 by auto
  have "copy_file 2 [p] m4 = Ok m5"
    using m5 p by (simp add: copy_file.simps [of 2 "[p]"] copy_file.simps [of 2 "[]"])
  then have "mkfs (\<lambda>_. Some [p]) [a] = seq (round_root ROOTINO m5) (\<lambda>m. mk_balloc (unat (freeblock m)) m)"
    using m0(1) m1(1) m2(1) s m3(1) m4(1) by (simp add: mkfs_def add_file_def)
  then show ?thesis using finish_succeeds [OF 5] by simp
qed

lemma mkfs_writes_the_files_witness:
  "\<exists>m own. mkfs (\<lambda>_. Some [[104, 105]]) [ascii ''user/_a''] = Ok m
     \<and> root_holds own (img m) (dots @ entry 2 (name_field [97])) (inode_in (img m) 1)
     \<and> holds_file own (img m) 2 (T_FILE, [104, 105]) (inode_in (img m) 2)"
proof -
  have s: "shortname (ascii ''user/_a'') = Ok [95, 97]"
  proof -
    have "strncmp_list 5 = strncmp_list (Suc (Suc (Suc (Suc (Suc 0)))))" by (simp add: eval_nat_numeral)
    then show ?thesis by (simp add: shortname_def ascii_def char_at_def)
  qed
  obtain m where m: "mkfs (\<lambda>_. Some [[104, 105]]) [ascii ''user/_a''] = Ok m"
    using mkfs_one_file [OF s, of "[104, 105]"] by (auto simp: BSIZE_def)
  have nm: "image_name (ascii ''user/_a'') = [97]" using s by (simp add: image_name_def skip_underscore_def char_at_def)
  show ?thesis
    using mkfs_writes_the_files [OF m] m nm by (auto simp: contents_def numeral_2_eq_2 [symmetric])
qed

end
