(* ===== verification/Boot_Loader_Props.thy ===== *)
theory Boot_Loader_Props
  imports Boot_Loader Mkfs_Props Sdcard_Props Printf_Props
begin

text \<open>
  The boot loader finds the kernel in an image made by \<open>mkfs\<close> and loads its segments. What a card
  does is a hypothesis on the blocks it delivers; a card written as a state machine of the SPI
  protocol shows that it can hold.
\<close>

subsection \<open>Output never fails\<close>

lemma printint_total: "\<exists>cs. printint x 10 True = Ok cs"
proof -
  let ?x = "if sint x < 0 then - x else x"
  have lt: "unat ?x < unat (10 :: u32) ^ 10" using unat_u32_lt [of ?x] by (rule less_le_trans) simp
  obtain ds where "digits_from DIGIT_BUF ?x 10 = Ok ds" "length ds \<le> 10"
    using digits_from_spec [OF lt, of DIGIT_BUF] by (auto simp: DIGIT_BUF_def)
  then show ?thesis by (auto simp: printint_def Let_def DIGIT_BUF_def)
qed

lemma say_plain:
  assumes "37 \<notin> set fmt"
  shows "say fmt args s = Ok (s\<lparr>bout := bout s @ fmt\<rparr>)"
proof -
  have "boot_printf fmt args = Ok fmt"
    using assms by (induction fmt args rule: boot_printf.induct) auto
  then show ?thesis by (simp add: say_def)
qed

lemma say_ok: "\<exists>t. boot_printf fmt args = Ok t \<Longrightarrow> \<exists>t. say fmt args s = Ok (s\<lparr>bout := bout s @ t\<rparr>)"
  by (auto simp: say_def)

lemma say_entry: "\<exists>t. say (ascii ''OK'' @ [10] @ ascii ''e_entry  %p.'') [PInt x] s = Ok (s\<lparr>bout := bout s @ t\<rparr>)"
  by (rule say_ok) (simp add: ascii_def boot_conv_def)

lemma say_segment:
  "\<exists>t. say (ascii ''%d  %p %p %p '') [PInt i, PInt x, PInt y, PInt z] s = Ok (s\<lparr>bout := bout s @ t\<rparr>)"
  using printint_total [of i] by (intro say_ok) (auto simp: ascii_def boot_conv_def)

lemma say_constants:
  "37 \<notin> set (boot_banner @ boot_devices)" "37 \<notin> set (ascii ''sb_magic 0x10203040'')" "37 \<notin> set (ascii ''.'')"
  "37 \<notin> set (ascii ''OK'' @ [10] @ ascii ''e_magic  0x464c457f'')" "37 \<notin> set (ascii ''OK'')" "37 \<notin> set [10 :: u8]"
  "37 \<notin> set (ascii ''OK'' @ [10, 10] @ ascii ''   p_type     p_addr     p_filesz   load'' @ [10])"
  "37 \<notin> set ([10] @ ascii ''Welcome to rv32ia 6th Edition UNIX'' @ [10])"
  by (simp_all add: boot_banner_def boot_devices_def ascii_def)

subsection \<open>Reading the card\<close>

text \<open>
  The card delivers the blocks \<open>im\<close>: powered up (\<open>P\<close>) it is ready (\<open>I\<close>) after the initialisation, and
  when it is ready it accepts a read command, sends the block and its checksum and is ready again.
\<close>

definition reads_blocks :: "'d xfer \<Rightarrow> u8 list list \<Rightarrow> ('d \<Rightarrow> bool) \<Rightarrow> ('d \<Rightarrow> bool) \<Rightarrow> bool" where
  "reads_blocks xfer im P I \<longleftrightarrow>
     (\<forall>p. P (card p) \<longrightarrow> I (card (spi_init xfer p)))
     \<and> (\<forall>b p. I (card p) \<and> unat b < length im \<longrightarrow>
          (case spi_cmd xfer 17 (byte_of 3 b) (byte_of 2 b) (byte_of 1 b) (byte_of 0 b) 0 p of (r, p) \<Rightarrow>
             r = 0 \<and> (case spi_bytes xfer 514 (poll_ff xfer 100000 p) of (bs, p) \<Rightarrow>
               take 512 bs = im ! unat b \<and> getCRC16 bs = 0 \<and> I (card p))))"

lemma fold_crc16: "fold crc16 bs c = crc_from c bs"
  by (induction bs arbitrary: c) (simp_all add: crc16_def)

lemma spi_bytes_split:
  assumes "spi_bytes xfer (j + k) p = (bs, q)"
  obtains t where "spi_bytes xfer j p = (take j bs, t)" "spi_bytes xfer k t = (drop j bs, q)"
proof -
  have "length bs = j + k" using length_talk [of xfer "replicate (j + k) 255" p] assms by (simp add: spi_bytes_talk)
  moreover have "talk xfer (replicate j 255 @ replicate k 255) p = (take j bs @ drop j bs, q)"
    using assms by (simp add: spi_bytes_talk replicate_add)
  ultimately obtain t where "talk xfer (replicate j 255) p = (take j bs, t)" "talk xfer (replicate k 255) t = (drop j bs, q)"
    using talk_split [of xfer "replicate j 255" "replicate k 255" p "take j bs" "drop j bs" q] by auto
  then show ?thesis using that by (simp add: spi_bytes_talk)
qed

lemma boot_rb_spec:
  assumes c: "reads_blocks xfer im P I" and i: "I (card (bspi s))" and b: "unat b < length im"
  shows "\<exists>q. boot_rb xfer b s = ((0, Some (im ! unat b)), s\<lparr>bspi := q, bcrc := 0\<rparr>) \<and> I (card q)"
proof -
  obtain p where p: "spi_cmd xfer 17 (byte_of 3 b) (byte_of 2 b) (byte_of 1 b) (byte_of 0 b) 0 (bspi s) = (0, p)"
    using c i b unfolding reads_blocks_def by (cases "spi_cmd xfer 17 (byte_of 3 b) (byte_of 2 b) (byte_of 1 b) (byte_of 0 b) 0 (bspi s)") fastforce
  let ?p = "poll_ff xfer 100000 p"
  obtain bs q where bs: "spi_bytes xfer 514 ?p = (bs, q)" by fastforce
  then have h: "take 512 bs = im ! unat b" "getCRC16 bs = 0" "I (card q)"
    using c i b p unfolding reads_blocks_def by fastforce+
  have "spi_bytes xfer (512 + 2) ?p = (bs, q)" using bs by simp
  then obtain t where t: "spi_bytes xfer 512 ?p = (take 512 bs, t)" "spi_bytes xfer 2 t = (drop 512 bs, q)"
    by (rule spi_bytes_split)
  have "fold crc16 (drop 512 bs) (fold crc16 (take 512 bs) 0) = 0"
    using h(2) crc_from_append [of 0 "take 512 bs" "drop 512 bs"] by (simp add: fold_crc16 getCRC16_def)
  then show ?thesis
    using p t h by (intro exI [of _ q]) (simp add: boot_rb_def Let_def del: poll_ff.simps spi_bytes.simps)
qed

lemma read_buf_spec:
  assumes "reads_blocks xfer im P I" "I (card (bspi s))" "unat b < length im"
  shows "\<exists>q. read_buf xfer b msg s = Ok (s\<lparr>bspi := q, bcrc := 0, bbuf := im ! unat b\<rparr>) \<and> I (card q)"
  using boot_rb_spec [OF assms] by (auto simp: read_buf_def)

lemma getSuperblock_spec:
  assumes "reads_blocks xfer im P I" "P (card (bspi s))" "1 < length im"
  shows "\<exists>q. getSuperblock xfer s = Ok (s\<lparr>bspi := q, bcrc := 0, bbuf := im ! 1, bsb := sb_of_bytes (im ! 1)\<rparr>) \<and> I (card q)"
proof -
  have "I (card (spi_init xfer (bspi s)))" using assms(1,2) by (simp add: reads_blocks_def)
  then show ?thesis
    using read_buf_spec [OF assms(1), of "s\<lparr>bspi := spi_init xfer (bspi s)\<rparr>" 1 "''getSuperblock()''"] assms(3)
    by (auto simp: getSuperblock_def)
qed

subsection \<open>Files in the image\<close>

definition padded :: "u8 list \<Rightarrow> nat \<Rightarrow> u8" where
  "padded bs q = (if q < length bs then bs ! q else 0)"

definition first_block_of :: "u8 list \<Rightarrow> u8 list" where
  "first_block_of bs = map (padded bs) [0..<BSIZE]"

lemma file_byte:
  "file_holds im d bs \<Longrightarrow> q < blocks_for (length bs) * BSIZE \<Longrightarrow> fbyte im d q = padded bs q"
  by (simp add: file_holds_def padded_def)

lemma file_block:
  assumes d: "disk_ok own m" and a: "mapped_to own (img m) i di (blocks_for (length bs))" and h: "file_holds (img m) di bs"
    and k: "k < blocks_for (length bs)"
  shows "blk (img m) di k < FSSIZE" "img m ! blk (img m) di k = map (\<lambda>j. padded bs (k * BSIZE + j)) [0..<BSIZE]"
proof -
  have "own (blk (img m) di k) = Some (i, k)" using a k by (simp add: mapped_to_def)
  then show b: "blk (img m) di k < FSSIZE" using owned_block [OF d] by blast
  show "img m ! blk (img m) di k = map (\<lambda>j. padded bs (k * BSIZE + j)) [0..<BSIZE]"
  proof (rule nth_equalityI)
    show l: "length (img m ! blk (img m) di k) = length (map (\<lambda>j. padded bs (k * BSIZE + j)) [0..<BSIZE])"
      using d b by (simp add: disk_ok_def)
    fix j assume "j < length (img m ! blk (img m) di k)"
    then have j: "j < BSIZE" using l by simp
    have q: "(k * BSIZE + j) div BSIZE = k" "(k * BSIZE + j) mod BSIZE = j" using j by (simp_all add: BSIZE_def)
    have "k * BSIZE + j < Suc k * BSIZE" using j by simp
    also have "\<dots> \<le> blocks_for (length bs) * BSIZE" using k by (intro mult_le_mono1) simp
    finally have "fbyte (img m) di (k * BSIZE + j) = padded bs (k * BSIZE + j)" using file_byte [OF h] by blast
    then show "img m ! blk (img m) di k ! j = map (\<lambda>j. padded bs (k * BSIZE + j)) [0..<BSIZE] ! j"
      using j by (simp add: fbyte_def q)
  qed
qed

lemma file_ends:
  assumes d: "disk_ok own m" and z: "img m ! 0 = replicate BSIZE 0"
    and a: "mapped_to own (img m) i di (blocks_for (length bs))" and h: "file_holds (img m) di bs"
  shows "unat (d_addrs di ! 0) < FSSIZE" "img m ! unat (d_addrs di ! 0) = first_block_of bs"
    "unat (d_addrs di ! 12) < FSSIZE"
proof -
  have "unat (d_addrs di ! 0) < FSSIZE \<and> img m ! unat (d_addrs di ! 0) = first_block_of bs"
  proof (cases "bs = []")
    case True
    then have "d_addrs di ! 0 = 0" using a by (simp add: mapped_to_def blocks_for_def BSIZE_def NDIRECT_def)
    moreover have "first_block_of [] = replicate BSIZE 0"
      by (simp add: first_block_of_def padded_def list_eq_iff_nth_eq)
    ultimately show ?thesis using z True by (simp add: FSSIZE_def)
  next
    case False
    then have k: "0 < blocks_for (length bs)" using blocks_for_le [of 0 "length bs"] by simp
    have "blk (img m) di 0 = unat (d_addrs di ! 0)" by (simp add: blk_def NDIRECT_def)
    then show ?thesis using file_block [OF d a h k] by (simp add: first_block_of_def)
  qed
  then show "unat (d_addrs di ! 0) < FSSIZE" "img m ! unat (d_addrs di ! 0) = first_block_of bs" by blast+
  show "unat (d_addrs di ! 12) < FSSIZE"
  proof (cases "NDIRECT < blocks_for (length bs)")
    case True
    then have "own (unat (d_addrs di ! 12)) = Some (i, MAXFILE)" using a by (simp add: mapped_to_def NDIRECT_def)
    then show ?thesis using owned_block [OF d] by blast
  next
    case False
    then have "d_addrs di ! 12 = 0" using a by (simp add: mapped_to_def NDIRECT_def)
    then show ?thesis by (simp add: FSSIZE_def)
  qed
qed

lemma getInode_spec:
  assumes c: "reads_blocks xfer (img m) P I" and i: "I (card (bspi s))" and d: "disk_ok own m" and j: "j < NINODES"
    and b: "bsb s = mksb" and a: "unat (d_addrs (inode_in (img m) j) ! 12) < FSSIZE"
  shows "\<exists>q. getInode xfer (of_nat j) s = Ok (s\<lparr>bspi := q, bcrc := 0, bbuf := img m ! (2 + nlog + j div IPB),
       bfile := inode_in (img m) j, bindirect := img m ! unat (d_addrs (inode_in (img m) j) ! 12) @ drop 512 (bindirect s)\<rparr>)
     \<and> I (card q)"
proof -
  let ?blk = "sb_inodestart (bsb s) + of_nat j * 64 div 512"
  have j4: "j < 400" using j by (simp add: NINODES_def)
  have m: "unat (of_nat j * 64 :: u32) = j * 64"
    using j4 by (simp add: unat_word_ariths unat_of_nat_eq)
  have B: "unat ?blk = 2 + nlog + j div IPB"
  proof -
    have "unat (of_nat j * 64 div 512 :: u32) = j div 8" unfolding unat_div_distrib m by simp
    moreover have "j div 8 < 50" using j4 by auto
    ultimately show ?thesis unfolding b by (simp add: mksb_def mk_params unat_word_ariths)
  qed
  have S: "unat (of_nat j * 64 mod 512 :: u32) div 64 = j mod IPB"
    using mod_mult_mult2 [of j 64 8] unfolding unat_mod_distrib m by (simp add: IPB_def BSIZE_def)
  have len: "length (img m) = FSSIZE" using d by (simp add: disk_ok_def)
  have lb: "unat ?blk < length (img m)" using table_block(4) [OF j] unfolding B len by (simp add: mk_params)
  obtain q where q: "read_buf xfer ?blk ''read block'' s = Ok (s\<lparr>bspi := q, bcrc := 0, bbuf := img m ! unat ?blk\<rparr>)" "I (card q)"
    using read_buf_spec [OF c i lb] by blast
  let ?d = "inode_in (img m) j"
  let ?s = "s\<lparr>bspi := q, bcrc := 0, bbuf := img m ! (2 + nlog + j div IPB), bfile := ?d\<rparr>"
  have e: "dinode_at (img m ! (2 + nlog + j div IPB)) (j mod IPB) = ?d" by (simp add: inode_in_def)
  obtain q2 where q2: "boot_rb xfer (d_addrs ?d ! 12) ?s =
      ((0, Some (img m ! unat (d_addrs ?d ! 12))), ?s\<lparr>bspi := q2, bcrc := 0\<rparr>)" "I (card q2)"
    using boot_rb_spec [OF c, of ?s "d_addrs ?d ! 12"] q(2) a len by auto
  show ?thesis
    using q(1) q2 unfolding getInode_def Let_def B S
    by (intro exI [of _ q2]) (simp add: S e [simplified])
qed

lemma getELFHeader_spec:
  assumes "reads_blocks xfer (img m) P I" "I (card (bspi s))" "unat (d_addrs (bfile s) ! 0) < length (img m)"
  shows "\<exists>q. getELFHeader xfer s = Ok (s\<lparr>bspi := q, bcrc := 0, bbuf := img m ! unat (d_addrs (bfile s) ! 0),
       belf := elfhdr_of (img m ! unat (d_addrs (bfile s) ! 0))\<rparr>) \<and> I (card q)"
  using read_buf_spec [OF assms, of "''getELFHeader()''"] by (auto simp: getELFHeader_def)

subsection \<open>Loading a segment\<close>

lemma fill_append:
  assumes "a + b \<le> 2 ^ 32"
  shows "fill (fill m d a f) (d + of_nat a) b g = fill m d (a + b) (\<lambda>i. if i < a then f i else g (i - a))"
proof (cases "b = 0")
  case True
  then show ?thesis by (auto simp: fill_def)
next
  case False
  then have a: "unat (of_nat a :: u32) = a" using assms by (intro unat_of_nat_eq) simp
  show ?thesis
  proof
    fix x :: u32
    have e: "x - (d + of_nat a) = (x - d) - of_nat a" by simp
    have lt: "unat (x - d) < 2 ^ 32" by (rule unat_u32_lt)
    have "unat (x - (d + of_nat a)) = (if a \<le> unat (x - d) then unat (x - d) - a else unat (x - d) + 2 ^ 32 - a)"
      unfolding e unat_sub_if' a by simp
    then have u: "unat (x - (d + of_nat a)) < b \<longleftrightarrow> a \<le> unat (x - d) \<and> unat (x - d) < a + b"
        "a \<le> unat (x - d) \<Longrightarrow> unat (x - (d + of_nat a)) = unat (x - d) - a"
      using assms lt False by (auto split: if_splits)
    show "fill (fill m d a f) (d + of_nat a) b g x = fill m d (a + b) (\<lambda>i. if i < a then f i else g (i - a)) x"
      using u unfolding fill_def by auto
  qed
qed

lemma load_block_spec:
  assumes d: "disk_ok own m" and a: "mapped_to own (img m) i di (blocks_for (length bs))"
    and k: "k < blocks_for (length bs)"
    and s: "bfile s = di" "bindirect s = img m ! unat (d_addrs di ! 12) @ rest"
  shows "\<exists>w. load_block (int (k * BSIZE)) s = Ok w \<and> unat w = blk (img m) di k"
proof -
  have div: "int (k * BSIZE) div 512 = int k" by (simp add: BSIZE_def)
  show ?thesis
  proof (cases "k < NDIRECT")
    case True
    then have "\<not> int k < 0" "int k < 12" by (simp_all add: NDIRECT_def)
    then show ?thesis using s True unfolding load_block_def div Let_def blk_def by simp
  next
    case False
    have kM: "k < MAXFILE" using a k by (simp add: mapped_to_def)
    have n: "nat (int k - 12) = k - NDIRECT" using False by (simp add: NDIRECT_def)
    have "own (unat (d_addrs di ! NDIRECT)) = Some (i, MAXFILE)" using a k False by (simp add: mapped_to_def split: if_splits)
    then have "unat (d_addrs di ! 12) < FSSIZE" using owned_block [OF d] by (simp add: NDIRECT_def)
    then have l: "length (img m ! unat (d_addrs di ! 12)) = BSIZE" using d by (simp add: disk_ok_def)
    have e: "4 * (k - NDIRECT) + 4 \<le> BSIZE" using in_entry kM False by simp
    have "get32 (bindirect s) (4 * (k - NDIRECT)) = get32 (img m ! unat (d_addrs di ! NDIRECT)) (4 * (k - NDIRECT))"
      using e l unfolding s(2) by (simp add: get32_def nth_append NDIRECT_def)
    moreover have "4 * nat (int k - 12) + 4 \<le> length (bindirect s)" unfolding n s(2) using e l by simp
    moreover have "\<not> int k < 12" "\<not> int k < 0" using False by (simp_all add: NDIRECT_def)
    ultimately show ?thesis using False unfolding load_block_def div Let_def blk_def n by simp
  qed
qed

lemma blocks_for_more: "BSIZE < n \<Longrightarrow> blocks_for n = Suc (blocks_for (n - BSIZE))"
proof -
  assume n: "BSIZE < n"
  have "n + BSIZE - 1 = (n - BSIZE + BSIZE - 1) + BSIZE" using n by simp
  then show ?thesis unfolding blocks_for_def by (simp add: BSIZE_def)
qed

lemma blocks_for_mono: "n \<le> k \<Longrightarrow> blocks_for n \<le> blocks_for k"
  by (simp add: blocks_for_def div_le_mono)

lemma load_spec:
  assumes d: "disk_ok own m" and a: "mapped_to own (img m) i di (blocks_for (length bs))" and h: "file_holds (img m) di bs"
    and c: "reads_blocks xfer (img m) P I" and I: "I (card (bspi s))"
    and s: "bfile s = di" "bindirect s = img m ! unat (d_addrs di ! 12) @ rest" and n: "n \<le> 0 \<or> k * BSIZE + nat n \<le> length bs"
  shows "\<exists>q crc. load xfer (int (k * BSIZE)) pa n s = Ok (s\<lparr>bspi := q, bcrc := crc,
      bram := fill (bram s) pa (blocks_for (nat n) * BSIZE) (\<lambda>j. padded bs (k * BSIZE + j))\<rparr>) \<and> I (card q)"
  using I s n
proof (induction "nat n" arbitrary: n k pa s rule: less_induct)
  case less
  show ?case
  proof (cases "0 < n")
    case False
    then show ?thesis using less.prems(1)
      by (intro exI [of _ "bspi s"] exI [of _ "bcrc s"]) (simp add: load.simps [of xfer _ pa n s] blocks_for_def BSIZE_def)
  next
    case True
    then have lt: "k * BSIZE < length bs" using less.prems(4) by simp
    have k: "k < blocks_for (length bs)" using blocks_for_le [OF lt] by (simp add: BSIZE_def)
    obtain w where w: "load_block (int (k * BSIZE)) s = Ok w" "unat w = blk (img m) di k"
      using load_block_spec [OF d a k less.prems(2,3)] by blast
    note fb = file_block [OF d a h k]
    have len: "length (img m) = FSSIZE" using d by (simp add: disk_ok_def)
    obtain q where q: "boot_rb xfer w s = ((0, Some (img m ! blk (img m) di k)), s\<lparr>bspi := q, bcrc := 0\<rparr>)" "I (card q)"
      using boot_rb_spec [OF c less.prems(1), of w] w(2) fb(1) len by auto
    let ?f = "\<lambda>j. padded bs (k * BSIZE + j)"
    let ?s = "s\<lparr>bspi := q, bcrc := 0, bram := fill (bram s) pa BSIZE ?f\<rparr>"
    have first: "fill (bram s) pa (length (img m ! blk (img m) di k)) (\<lambda>i. (img m ! blk (img m) di k) ! i) = fill (bram s) pa BSIZE ?f"
      unfolding fb(2) length_map length_upt minus_nat.diff_0 by (rule fill_cong) simp
    have step: "load xfer (int (k * BSIZE)) pa n s = load xfer (int (Suc k * BSIZE)) (pa + 512) (n - 512) ?s"
      using True w(1) q(1) first by (simp add: load.simps [of xfer _ pa n s] BSIZE_def add.commute)
    have dec: "nat (n - 512) < nat n" using True by simp
    have cond: "n - 512 \<le> 0 \<or> Suc k * BSIZE + nat (n - 512) \<le> length bs" using less.prems(4) True by (auto simp: BSIZE_def nat_diff_distrib')
    obtain q' crc where r: "load xfer (int (Suc k * BSIZE)) (pa + 512) (n - 512) ?s = Ok (?s\<lparr>bspi := q', bcrc := crc,
        bram := fill (bram ?s) (pa + 512) (blocks_for (nat (n - 512)) * BSIZE) (\<lambda>j. padded bs (Suc k * BSIZE + j))\<rparr>)" "I (card q')"
      using less.hyps [OF dec, of ?s "Suc k" "pa + 512"] q(2) less.prems(2,3) cond by auto
    have bl: "blocks_for (nat n) = Suc (blocks_for (nat (n - 512)))"
    proof (cases "512 < n")
      case True
      then show ?thesis using blocks_for_more [of "nat n"] by (simp add: BSIZE_def nat_diff_distrib)
    next
      case False
      then have "nat n + 511 = (nat n - 1) + 512" "nat n - 1 < 512" "nat (n - 512) = 0" using \<open>0 < n\<close> by auto
      then show ?thesis by (simp add: blocks_for_def BSIZE_def)
    qed
    have cap: "blocks_for (length bs) \<le> MAXFILE" using a by (simp add: mapped_to_def)
    have "nat n \<le> length bs" using less.prems(4) True by auto
    then have "blocks_for (nat n) \<le> MAXFILE"
      using cap blocks_for_mono [of "nat n" "length bs"] by linarith
    then have sm: "BSIZE + blocks_for (nat (n - 512)) * BSIZE \<le> 2 ^ 32"
      unfolding bl by (simp add: BSIZE_def MAXFILE_def NDIRECT_def NINDIRECT_def)
    have "fill (fill (bram s) pa BSIZE ?f) (pa + of_nat BSIZE) (blocks_for (nat (n - 512)) * BSIZE) (\<lambda>j. padded bs (Suc k * BSIZE + j))
        = fill (bram s) pa (blocks_for (nat n) * BSIZE) ?f"
      unfolding fill_append [OF sm] bl mult_Suc by (rule fill_cong) (simp add: ac_simps)
    then have "load xfer (int (k * BSIZE)) pa n s = Ok (s\<lparr>bspi := q', bcrc := crc,
        bram := fill (bram s) pa (blocks_for (nat n) * BSIZE) ?f\<rparr>)"
      unfolding step using r(1) by (simp add: BSIZE_def)
    then show ?thesis using r(2) by blast
  qed
qed

subsection \<open>The loader\<close>

text \<open>The parts of the state that stay between the searches and the loading.\<close>

definition stays :: "'d boot \<Rightarrow> 'd boot \<Rightarrow> bool" where
  "stays s s' \<longleftrightarrow> bram s' = bram s \<and> bsb s' = bsb s"

definition file_read :: "u8 list list \<Rightarrow> nat \<Rightarrow> u8 list \<Rightarrow> 'd boot \<Rightarrow> bool" where
  "file_read im j bs s \<longleftrightarrow> bfile s = inode_in im j \<and> bbuf s = first_block_of bs \<and> belf s = elfhdr_of (first_block_of bs)
     \<and> (\<exists>rest. bindirect s = im ! unat (d_addrs (inode_in im j) ! 12) @ rest)"

definition is_kernel :: "u8 list \<Rightarrow> bool" where
  "is_kernel bs \<longleftrightarrow> (let e = elfhdr_of (first_block_of bs) in elf_magic e = ELF_MAGIC \<and> elf_entry e = 0x80000000)"

lemma read_inode:
  assumes c: "reads_blocks xfer (img m) P I" and d: "disk_ok own m" and z: "img m ! 0 = replicate BSIZE 0"
    and j: "j < NINODES" and a: "mapped_to own (img m) j (inode_in (img m) j) (blocks_for (length bs))"
    and h: "file_holds (img m) (inode_in (img m) j) bs" and I: "I (card (bspi s))" and b: "bsb s = mksb"
  shows "\<exists>s'. seq (getInode xfer (of_nat j) s) (\<lambda>s. seq (getELFHeader xfer s) (say (ascii ''.'') [])) = Ok s'
    \<and> stays s s' \<and> file_read (img m) j bs s' \<and> I (card (bspi s'))"
proof -
  let ?d = "inode_in (img m) j"
  note e = file_ends [OF d z a h]
  have len: "length (img m) = FSSIZE" using d by (simp add: disk_ok_def)
  obtain q where q: "getInode xfer (of_nat j) s = Ok (s\<lparr>bspi := q, bcrc := 0, bbuf := img m ! (2 + nlog + j div IPB),
       bfile := ?d, bindirect := img m ! unat (d_addrs ?d ! 12) @ drop 512 (bindirect s)\<rparr>)" "I (card q)"
    using getInode_spec [OF c I d j b e(3)] by blast
  let ?s = "s\<lparr>bspi := q, bcrc := 0, bbuf := img m ! (2 + nlog + j div IPB),
       bfile := ?d, bindirect := img m ! unat (d_addrs ?d ! 12) @ drop 512 (bindirect s)\<rparr>"
  obtain q2 where "getELFHeader xfer ?s = Ok (?s\<lparr>bspi := q2, bcrc := 0, bbuf := first_block_of bs,
       belf := elfhdr_of (first_block_of bs)\<rparr>)" "I (card q2)"
    using getELFHeader_spec [OF c, of ?s] q(2) e(1,2) len by auto
  then show ?thesis using q(1) by (simp add: say_plain [OF say_constants(3)] stays_def file_read_def)
qed

lemma find_kernel_spec:
  assumes c: "reads_blocks xfer (img m) P I" and d: "disk_ok own m" and z: "img m ! 0 = replicate BSIZE 0"
    and K: "K < NINODES"
    and f: "\<And>j. 0 < j \<Longrightarrow> j \<le> K \<Longrightarrow> mapped_to own (img m) j (inode_in (img m) j) (blocks_for (length (content j)))
        \<and> file_holds (img m) (inode_in (img m) j) (content j)"
    and no: "\<And>j. 0 < j \<Longrightarrow> j < K \<Longrightarrow> \<not> is_kernel (content j)" and yes: "is_kernel (content K)"
  shows "I (card (bspi s)) \<Longrightarrow> bsb s = mksb \<Longrightarrow> i < K \<Longrightarrow>
      \<not> (elf_magic (belf s) = ELF_MAGIC \<and> elf_entry (belf s) = 0x80000000) \<Longrightarrow> K - i < fuel \<Longrightarrow>
    \<exists>s'. find_kernel xfer fuel (of_nat i) s = Ok s' \<and> stays s s' \<and> file_read (img m) K (content K) s' \<and> I (card (bspi s'))"
proof (induction fuel arbitrary: i s)
  case (Suc fuel)
  let ?j = "Suc i"
  have j: "0 < ?j" "?j \<le> K" "?j < NINODES" using Suc.prems(3) K by simp_all
  obtain s1 where s1: "seq (getInode xfer (of_nat ?j) s) (\<lambda>s. seq (getELFHeader xfer s) (say (ascii ''.'') [])) = Ok s1"
      "stays s s1" "file_read (img m) ?j (content ?j) s1" "I (card (bspi s1))"
    using read_inode [OF c d z j(3) _ _ Suc.prems(1,2)] f [OF j(1,2)] by blast
  have n: "of_nat i + 1 = (of_nat ?j :: u32)" by simp
  obtain u1 u2 where u: "getInode xfer (of_nat ?j) s = Ok u1" "getELFHeader xfer u1 = Ok u2" "say (ascii ''.'') [] u2 = Ok s1"
    using s1(1) by (auto simp: seq_Ok simp del: of_nat_Suc)
  have step: "find_kernel xfer (Suc fuel) (of_nat i) s = find_kernel xfer fuel (of_nat ?j) s1"
    using Suc.prems(4) u unfolding find_kernel.simps n by auto
  show ?case
  proof (cases "?j = K")
    case True
    then have "elf_magic (belf s1) = ELF_MAGIC \<and> elf_entry (belf s1) = 0x80000000"
      using yes s1(3) by (simp add: file_read_def is_kernel_def Let_def)
    moreover obtain fu where "fuel = Suc fu" using Suc.prems(3,5) by (cases fuel) auto
    ultimately have "find_kernel xfer fuel (of_nat ?j) s1 = Ok s1" by simp
    then show ?thesis using step s1 True by metis
  next
    case False
    have nk: "\<not> (elf_magic (belf s1) = ELF_MAGIC \<and> elf_entry (belf s1) = 0x80000000)"
      using no [of ?j] False j s1(3) by (simp add: file_read_def is_kernel_def Let_def)
    have sb: "bsb s1 = mksb" using s1(2) Suc.prems(2) by (simp add: stays_def)
    have lt: "?j < K" "K - ?j < fuel" using False j Suc.prems(5) by simp_all
    obtain s' where s': "find_kernel xfer fuel (of_nat ?j) s1 = Ok s'" "stays s1 s'" "file_read (img m) K (content K) s'" "I (card (bspi s'))"
      using Suc.IH [OF s1(4) sb lt(1) nk lt(2)] by blast
    have "stays s s'" using s1(2) s'(2) by (simp add: stays_def)
    then show ?thesis using s' unfolding step by blast
  qed
qed simp

text \<open>The program headers and what loading them does to the memory.\<close>

definition headers :: "u8 list \<Rightarrow> bproghdr list" where
  "headers bs =
     (let e = elfhdr_of (first_block_of bs)
      in map (\<lambda>i. bproghdr_of (drop (unat (elf_phoff e) + 32 * i) (first_block_of bs))) [0..<unat (elf_phnum e)])"

definition put_segment :: "u8 list \<Rightarrow> bproghdr \<Rightarrow> mem \<Rightarrow> mem" where
  "put_segment bs h m =
     (if bp_type h = 1
      then fill m (bp_paddr h) (blocks_for (unat (bp_filesz h)) * BSIZE) (\<lambda>j. padded bs (unat (bp_off h) + j)) else m)"

definition loadable :: "u8 list \<Rightarrow> bproghdr \<Rightarrow> bool" where
  "loadable bs h \<longleftrightarrow> bp_type h = 1 \<longrightarrow>
     unat (bp_off h) mod BSIZE = 0 \<and> unat (bp_off h) + unat (bp_filesz h) \<le> length bs"

lemma sint_small: "unat (x :: u32) < 2 ^ 31 \<Longrightarrow> sint x = int (unat x)"
proof -
  assume x: "unat x < 2 ^ 31"
  then have "int (unat x) < int (2 ^ 31)" by (simp only: of_nat_less_iff)
  then have "uint x < 2 ^ 31" by simp
  then show ?thesis using sint_cases [of x] sint_greater_eq [of x] by auto
qed

lemma load_header:
  assumes d: "disk_ok own m" and a: "mapped_to own (img m) K (inode_in (img m) K) (blocks_for (length bs))"
    and h: "file_holds (img m) (inode_in (img m) K) bs" and c: "reads_blocks xfer (img m) P I" and I: "I (card (bspi s))"
    and r: "file_read (img m) K bs s" and l: "loadable bs g"
  shows "\<exists>s'. (if bp_type g = 1
       then seq (load xfer (sint (bp_off g)) (bp_paddr g) (sint (bp_filesz g)) s) (say (ascii ''OK'') []) else Ok s) = Ok s'
     \<and> bram s' = put_segment bs g (bram s) \<and> file_read (img m) K bs s' \<and> I (card (bspi s'))"
proof (cases "bp_type g = 1")
  case True
  let ?d = "inode_in (img m) K" and ?off = "unat (bp_off g)" and ?n = "unat (bp_filesz g)"
  have lg: "?off mod BSIZE = 0" "?off + ?n \<le> length bs" using l True by (simp_all add: loadable_def)
  have "length bs \<le> MAXFILE * BSIZE" using a by (intro blocks_for_bound) (simp add: mapped_to_def)
  then have "length bs < 2 ^ 31" by (simp add: MAXFILE_def NDIRECT_def NINDIRECT_def BSIZE_def)
  then have "?off < 2 ^ 31" "?n < 2 ^ 31" using lg(2) by linarith+
  from this [THEN sint_small] have s: "sint (bp_off g) = int ?off" "sint (bp_filesz g) = int ?n" .
  obtain k where k: "?off = k * BSIZE" using lg(1) by (metis add.right_neutral div_mult_mod_eq)
  have cond: "int ?n \<le> 0 \<or> k * BSIZE + nat (int ?n) \<le> length bs" using lg(2) k by simp
  obtain rest where rest: "bfile s = ?d" "bindirect s = img m ! unat (d_addrs ?d ! 12) @ rest" using r by (auto simp: file_read_def)
  obtain q crc where q: "load xfer (int (k * BSIZE)) (bp_paddr g) (int ?n) s = Ok (s\<lparr>bspi := q, bcrc := crc,
      bram := fill (bram s) (bp_paddr g) (blocks_for (nat (int ?n)) * BSIZE) (\<lambda>j. padded bs (k * BSIZE + j))\<rparr>)" "I (card q)"
    using load_spec [OF d a h c I rest cond] by blast
  show ?thesis
    using q r True k unfolding s k
    by (simp add: say_plain [OF say_constants(5)] put_segment_def file_read_def k)
next
  case False
  then show ?thesis using I r by (simp add: put_segment_def)
qed

lemma load_segments_spec:
  assumes d: "disk_ok own m" and a: "mapped_to own (img m) K (inode_in (img m) K) (blocks_for (length bs))"
    and h: "file_holds (img m) (inode_in (img m) K) bs" and c: "reads_blocks xfer (img m) P I"
    and fits: "unat (elf_phoff (elfhdr_of (first_block_of bs))) + 32 * N \<le> BSIZE"
    and l: "\<And>i. i < N \<Longrightarrow> loadable bs (bproghdr_of (drop (unat (elf_phoff (elfhdr_of (first_block_of bs))) + 32 * i) (first_block_of bs)))"
  shows "I (card (bspi s)) \<Longrightarrow> file_read (img m) K bs s \<Longrightarrow> i + k \<le> N \<Longrightarrow>
    \<exists>s'. load_segments xfer k i s = Ok s' \<and> bram s' =
      fold (put_segment bs) (map (\<lambda>i. bproghdr_of (drop (unat (elf_phoff (elfhdr_of (first_block_of bs))) + 32 * i) (first_block_of bs))) [i..<i + k]) (bram s)
    \<and> file_read (img m) K bs s' \<and> I (card (bspi s'))"
proof (induction k arbitrary: i s)
  case (Suc k)
  let ?at = "unat (elf_phoff (elfhdr_of (first_block_of bs))) + 32 * i"
  let ?g = "bproghdr_of (drop ?at (first_block_of bs))"
  have b: "bbuf s = first_block_of bs" "unat (elf_phoff (belf s)) + 32 * i = ?at" using Suc.prems(2) by (simp_all add: file_read_def)
  have "?at + 32 \<le> BSIZE" using fits Suc.prems(3) by simp
  then have room: "\<not> length (first_block_of bs) < ?at + 32" by (simp add: first_block_of_def)
  obtain t where t: "say (ascii ''%d  %p %p %p '') [PInt (of_nat i), PInt (bp_type ?g), PInt (bp_paddr ?g), PInt (bp_filesz ?g)] s
      = Ok (s\<lparr>bout := bout s @ t\<rparr>)" using say_segment by blast
  let ?s = "s\<lparr>bout := bout s @ t\<rparr>"
  have r: "file_read (img m) K bs ?s" "I (card (bspi ?s))" using Suc.prems(1,2) by (simp_all add: file_read_def)
  have lg: "loadable bs ?g" using l [of i] Suc.prems(3) by simp
  obtain s2 where s2: "(if bp_type ?g = 1
       then seq (load xfer (sint (bp_off ?g)) (bp_paddr ?g) (sint (bp_filesz ?g)) ?s) (say (ascii ''OK'') []) else Ok ?s) = Ok s2"
     "bram s2 = put_segment bs ?g (bram ?s)" "file_read (img m) K bs s2" "I (card (bspi s2))"
    using load_header [OF d a h c r(2,1) lg] by blast
  let ?s3 = "s2\<lparr>bout := bout s2 @ [10]\<rparr>"
  have nl: "say [10] [] s2 = Ok ?s3" by (rule say_plain [OF say_constants(6)])
  have r3: "file_read (img m) K bs ?s3" "I (card (bspi ?s3))" using s2(3,4) by (simp_all add: file_read_def)
  have step: "load_segments xfer (Suc k) i s = load_segments xfer k (Suc i) ?s3"
    unfolding load_segments.simps Let_def b using room by (simp only: if_False t seq.simps s2(1) nl)
  have "Suc i + k \<le> N" using Suc.prems(3) by simp
  from Suc.IH [OF r3(2,1) this] obtain s' where s': "load_segments xfer k (Suc i) ?s3 = Ok s'" "bram s' =
      fold (put_segment bs) (map (\<lambda>i. bproghdr_of (drop (unat (elf_phoff (elfhdr_of (first_block_of bs))) + 32 * i) (first_block_of bs))) [Suc i..<Suc i + k]) (bram ?s3)"
    "file_read (img m) K bs s'" "I (card (bspi s'))" by blast
  have "[i..<i + Suc k] = i # [Suc i..<Suc i + k]" by (simp add: upt_rec)
  then show ?case using s' s2(2) unfolding step by (intro exI [of _ s']) simp
qed simp

lemma fill_zero_snoc: "n < 2 ^ 32 \<Longrightarrow> (fill m i n (\<lambda>_. 0))(i + of_nat n := 0) = fill m i (Suc n) (\<lambda>_. 0)"
  using fill_snoc [of n m i "\<lambda>_. 0" 0] by (simp add: fun_upd_idem)

lemma store32_zero: "store32 m i 0 = fill m i 4 (\<lambda>_. 0)"
proof -
  let ?z = "\<lambda>_. 0 :: u8"
  have "m(i := 0) = fill m i 1 ?z" using fill_zero_snoc [of 0 m i] by simp
  moreover have "(fill m i 1 ?z)(i + 1 := 0) = fill m i 2 ?z"
  proof -
    have "(fill m i 1 ?z)(i + of_nat 1 := 0) = fill m i (Suc 1) ?z" by (rule fill_zero_snoc) simp
    then show ?thesis by (simp add: numeral_2_eq_2)
  qed
  moreover have "(fill m i 2 ?z)(i + 2 := 0) = fill m i 3 ?z" using fill_zero_snoc [of 2 m i] by simp
  moreover have "(fill m i 3 ?z)(i + 3 := 0) = fill m i 4 ?z" using fill_zero_snoc [of 3 m i] by simp
  moreover have "store32 m i 0 = (((m(i := 0))(i + 1 := 0))(i + 2 := 0))(i + 3 := 0)" by (simp add: store32_def)
  ultimately show ?thesis by presburger
qed

lemma clear_words_fill: "4 * k \<le> 2 ^ 32 \<Longrightarrow> clear_words k i m = fill m i (4 * k) (\<lambda>_. 0)"
proof (induction k arbitrary: i m)
  case (Suc k)
  have "clear_words (Suc k) i m = fill (fill m i 4 (\<lambda>_. 0)) (i + of_nat 4) (4 * k) (\<lambda>_. 0)"
    using Suc by (simp add: store32_zero)
  also have "\<dots> = fill m i (4 + 4 * k) (\<lambda>_. 0)"
    using fill_append [of 4 "4 * k" m i "\<lambda>_. 0" "\<lambda>_. 0"] Suc.prems by simp
  finally show ?case by simp
qed simp

lemma find_superblock_spec:
  assumes c: "reads_blocks xfer (img m) P I" and p: "P (card (bspi s))" and l: "1 < length (img m)"
    and sb: "sb_of_bytes (img m ! 1) = mksb" and s: "sb_magic (bsb s) \<noteq> FSMAGIC" and f: "1 < fuel"
  shows "\<exists>s'. find_superblock xfer fuel s = Ok s' \<and> bsb s' = mksb \<and> I (card (bspi s')) \<and> bram s' = bram s \<and> belf s' = belf s"
proof -
  obtain k where k: "fuel = Suc (Suc k)" using f by (metis Suc_lessD less_natE add_Suc_right One_nat_def Suc_lessE)
  obtain q where q: "getSuperblock xfer s = Ok (s\<lparr>bspi := q, bcrc := 0, bbuf := img m ! 1, bsb := mksb\<rparr>)" "I (card q)"
    using getSuperblock_spec [OF c p l] sb by auto
  have "sb_magic mksb = FSMAGIC" by (simp add: mksb_def)
  then show ?thesis using s q by (simp add: k say_plain [OF say_constants(3)])
qed

lemma root_not_kernel: "\<not> is_kernel (dots @ es)"
proof -
  have e: "entry ROOTINO (name_field (ascii ''.'')) = [1, 0, 46, 0] @ replicate 12 0"
    by (simp add: entry_def dirent_bytes_def le16_def name_field_def ascii_def DIRSIZ_def ROOTINO_def eval_nat_numeral)
  have d: "(dots @ es) ! i = [1, 0, 46, 0] ! i" "i < length (dots @ es)" if "i < 4" for i
  proof -
    have "i = 0 \<or> i = 1 \<or> i = 2 \<or> i = 3" using that by linarith
    then show "(dots @ es) ! i = [1, 0, 46, 0] ! i" "i < length (dots @ es)" using e by (auto simp: dots_def nth_append)
  qed
  have "get32 (first_block_of (dots @ es)) 0 = of_le32 1 0 46 0"
    using d [of 0] d [of 1] d [of 2] d [of 3]
    by (simp add: get32_def first_block_of_def padded_def BSIZE_def eval_nat_numeral del: upt_Suc)
  then show ?thesis by (simp add: is_kernel_def elfhdr_of_def ELF_MAGIC_def of_le32_def Let_def)
qed

lemma boot_run_loads:
  assumes "mkfs fs files = Ok m" "length files < 399" "k < length files"
    and "reads_blocks xfer (img m) P I" "P (card (bspi s))" "sb_magic (bsb s) = 0" "elf_magic (belf s) = 0"
    and "fs (files ! k) = Some inp" "is_kernel (contents inp)"
    and "\<forall>j < k. \<forall>inp'. fs (files ! j) = Some inp' \<longrightarrow> \<not> is_kernel (contents inp')"
    and "unat (elf_phoff (elfhdr_of (first_block_of (contents inp)))) + 32 * length (headers (contents inp)) \<le> BSIZE"
    and "\<forall>h \<in> set (headers (contents inp)). loadable (contents inp) h" "k + 3 < fuel"
  shows "\<exists>s'. boot_run xfer fuel s = Ok (0x80000000, s')
    \<and> bram s' = fold (put_segment (contents inp)) (headers (contents inp)) (fill (bram s) 0x80000000 0x80000 (\<lambda>_. 0))"
proof -
  let ?bs = "contents inp" and ?K = "k + 2"
  obtain own where im: "image_of fs files own m" using mkfs_image [OF assms(1,2)] by blast
  have d: "disk_ok own m" and z: "img m ! 0 = replicate BSIZE 0" and sb: "sb_of_bytes (img m ! 1) = mksb"
    using im by (simp_all add: image_of_def)
  have len: "1 < length (img m)" using d by (simp add: disk_ok_def FSSIZE_def)
  define content where "content j = (if j = 1 then dots @ entries 2 files else contents (the (fs (files ! (j - 2)))))" for j
  have K: "?K < NINODES" using assms(2,3) by (simp add: NINODES_def)
  have f: "mapped_to own (img m) j (inode_in (img m) j) (blocks_for (length (content j)))
        \<and> file_holds (img m) (inode_in (img m) j) (content j)" if j: "0 < j" "j \<le> ?K" for j
  proof (cases "j = 1")
    case True
    then show ?thesis using im by (simp add: image_of_def root_holds_def content_def)
  next
    case False
    define l where "l = j - 2"
    have l: "j = l + 2" using j False by (simp add: l_def)
    then have "l < length files" using j(2) assms(3) by simp
    then obtain inp' where i: "fs (files ! l) = Some inp'"
        "holds_file own (img m) (l + 2) (T_FILE, contents inp') (inode_in (img m) (l + 2))"
      using im unfolding image_of_def by blast
    have "content j = contents inp'" using i(1) False by (simp add: content_def l)
    then show ?thesis using i(2) by (simp add: holds_file_def l)
  qed
  have ck: "content ?K = ?bs" using assms(8) by (simp add: content_def)
  have no: "\<not> is_kernel (content j)" if j: "0 < j" "j < ?K" for j
  proof (cases "j = 1")
    case True
    then show ?thesis using root_not_kernel by (simp add: content_def)
  next
    case False
    then have l: "j - 2 < k" using j by simp
    then have "j - 2 < length files" using assms(3) by simp
    then obtain inp' where "fs (files ! (j - 2)) = Some inp'" using im unfolding image_of_def by blast
    then show ?thesis using assms(10) l False by (simp add: content_def)
  qed
  let ?s1 = "s\<lparr>bout := bout s @ (boot_banner @ boot_devices)\<rparr>"
  let ?m0 = "clear_words 0x20000 0x80000000 (bram s)"
  let ?s2 = "?s1\<lparr>bram := ?m0, bout := bout ?s1 @ ascii ''sb_magic 0x10203040''\<rparr>"
  have sbn: "sb_magic (bsb ?s2) \<noteq> FSMAGIC" using assms(6) by (simp add: FSMAGIC_def)
  obtain s3 where s3: "find_superblock xfer fuel ?s2 = Ok s3" "bsb s3 = mksb" "I (card (bspi s3))" "bram s3 = ?m0" "belf s3 = belf s"
    using find_superblock_spec [OF assms(4) _ len sb sbn, of fuel] assms(5,13) by auto
  let ?s4 = "s3\<lparr>bout := bout s3 @ (ascii ''OK'' @ [10] @ ascii ''e_magic  0x464c457f'')\<rparr>"
  obtain s5 where s5: "find_kernel xfer fuel (of_nat 0) ?s4 = Ok s5" "stays ?s4 s5" "file_read (img m) ?K (content ?K) s5" "I (card (bspi s5))"
    using find_kernel_spec [OF assms(4) d z K f no, of ?s4 0 fuel] s3 assms(7,9,13) ck by (auto simp: ELF_MAGIC_def)
  have r5: "file_read (img m) ?K ?bs s5" using s5(3) unfolding ck .
  obtain t where t: "say (ascii ''OK'' @ [10] @ ascii ''e_entry  %p.'') [PInt (elf_entry (belf s5))] s5 = Ok (s5\<lparr>bout := bout s5 @ t\<rparr>)"
    using say_entry by blast
  let ?msg = "ascii ''OK'' @ [10, 10] @ ascii ''   p_type     p_addr     p_filesz   load'' @ [10]"
  let ?s6 = "s5\<lparr>bout := bout s5 @ t @ ?msg\<rparr>"
  let ?e = "elfhdr_of (first_block_of ?bs)"
  let ?hs = "\<lambda>i. bproghdr_of (drop (unat (elf_phoff ?e) + 32 * i) (first_block_of ?bs))"
  have hs: "headers ?bs = map ?hs [0..<unat (elf_phnum ?e)]" by (simp add: headers_def Let_def)
  have fK: "mapped_to own (img m) ?K (inode_in (img m) ?K) (blocks_for (length ?bs))" "file_holds (img m) (inode_in (img m) ?K) ?bs"
    using f [of ?K] unfolding ck by simp_all
  have r6: "file_read (img m) ?K ?bs ?s6" "I (card (bspi ?s6))" using r5 s5(4) by (simp_all add: file_read_def)
  have fits: "unat (elf_phoff ?e) + 32 * unat (elf_phnum ?e) \<le> BSIZE" using assms(11) by (simp add: hs)
  have ld: "loadable ?bs (?hs i)" if "i < unat (elf_phnum ?e)" for i using assms(12) that by (simp add: hs)
  obtain s7 where s7: "load_segments xfer (unat (elf_phnum ?e)) 0 ?s6 = Ok s7"
      "bram s7 = fold (put_segment ?bs) (map ?hs [0..<0 + unat (elf_phnum ?e)]) (bram ?s6)" "file_read (img m) ?K ?bs s7"
    using load_segments_spec [OF d fK assms(4) fits ld r6(2,1), of 0 "unat (elf_phnum ?e)"] by auto
  have e5: "belf s5 = ?e" "belf s7 = ?e" using r5 s7(3) by (simp_all add: file_read_def)
  have entry: "elf_entry ?e = 0x80000000" using assms(9) by (simp add: is_kernel_def Let_def)
  let ?bye = "[10] @ ascii ''Welcome to rv32ia 6th Edition UNIX'' @ [10]"
  have "boot_run xfer fuel s = Ok (0x80000000, s7\<lparr>bout := bout s7 @ ?bye\<rparr>)"
  proof -
    have "say (ascii ''OK'' @ [10] @ ascii ''e_magic  0x464c457f'') [] s3 = Ok ?s4" by (rule say_plain [OF say_constants(4)])
    moreover have "say ?msg [] (s5\<lparr>bout := bout s5 @ t\<rparr>) = Ok ?s6" using say_plain [OF say_constants(7), of "[]" "s5\<lparr>bout := bout s5 @ t\<rparr>"] by simp
    moreover have "say ?bye [] s7 = Ok (s7\<lparr>bout := bout s7 @ ?bye\<rparr>)" by (rule say_plain [OF say_constants(8)])
    moreover have "say (boot_banner @ boot_devices) [] s = Ok ?s1" by (rule say_plain [OF say_constants(1)])
    moreover have "say (ascii ''sb_magic 0x10203040'') [] (?s1\<lparr>bram := ?m0\<rparr>) = Ok ?s2" using say_plain [OF say_constants(2), of "[]" "?s1\<lparr>bram := ?m0\<rparr>"] by simp
    moreover have "find_kernel xfer fuel 0 ?s4 = Ok s5" using s5(1) by simp
    moreover have "bram ?s1 = bram s" by simp
    moreover have b6: "belf ?s6 = ?e" "belf (s7\<lparr>bout := bout s7 @ ?bye\<rparr>) = ?e" using e5 by simp_all
    ultimately show ?thesis
      using t s3(1) s7(1) entry unfolding boot_run_def Let_def e5 by (simp only: seq.simps b6 e5 entry boot.simps)
  qed
  moreover have "bram s7 = fold (put_segment ?bs) (headers ?bs) (fill (bram s) 0x80000000 0x80000 (\<lambda>_. 0))"
  proof -
    have "bram ?s6 = ?m0" using s5(2) s3(4) by (simp add: stays_def)
    moreover have "?m0 = fill (bram s) 0x80000000 (4 * 0x20000) (\<lambda>_. 0)" by (rule clear_words_fill) simp
    ultimately show ?thesis using s7(2) by (simp add: hs)
  qed
  ultimately show ?thesis by simp
qed

text \<open>
  C5: From power-up to the kernel's entry. On a card that holds the image \<open>mkfs\<close> made, the boot loader
  finds the first of the files that is an ELF program with entry 0x80000000, clears the RAM and copies
  the program's segments to it in order, each rounded up to whole blocks, and jumps to the entry. The
  root directory and the files before are passed over, whatever their contents. The segments must
  start at block boundaries of the file and lie inside it, and the headers in its first block.
\<close>

theorem boot_loads_kernel:
  assumes "mkfs fs files = Ok m" "length files < 399" "k < length files"
    and "reads_blocks xfer (img m) P I" "P (card (bspi s))" "sb_magic (bsb s) = 0" "elf_magic (belf s) = 0"
    and "fs (files ! k) = Some inp" "is_kernel (contents inp)"
    and "\<forall>j < k. \<forall>inp'. fs (files ! j) = Some inp' \<longrightarrow> \<not> is_kernel (contents inp')"
    and "unat (elf_phoff (elfhdr_of (first_block_of (contents inp)))) + 32 * length (headers (contents inp)) \<le> BSIZE"
    and "\<forall>h \<in> set (headers (contents inp)). loadable (contents inp) h" "k + 3 < fuel"
  shows "\<exists>s'. boot_main xfer fuel s = Ok (0x80000000, s')
    \<and> bram s' = fold (put_segment (contents inp)) (headers (contents inp)) (fill (bram s) 0x80000000 0x80000 (\<lambda>_. 0))"
proof -
  have "card (bspi (boot_uart_init s)) = card (bspi s)" "bsb (boot_uart_init s) = bsb s" "belf (boot_uart_init s) = belf s"
    "bram (boot_uart_init s) = bram s"
    by (simp_all add: boot_uart_init_def)
  then show ?thesis
    unfolding boot_main_def
    using boot_run_loads [OF assms(1-4) _ _ _ assms(8-13), of "boot_uart_init s"] assms(5-7) by simp
qed


subsection \<open>A card\<close>

text \<open>
  The SPI protocol of a card as a state machine: the bytes of the command so far and the bytes still to
  be sent. Idle bytes between commands are ignored; a read command is answered by 0, a token, the
  block and its checksum, every other command by 0.
\<close>

type_synonym sdcard = "u8 list \<times> u8 list"

definition sd_answer :: "u8 list list \<Rightarrow> u8 list \<Rightarrow> u8 list" where
  "sd_answer im cmd =
     (if cmd ! 0 = 64 OR 17 then
        let data = im ! unat (of_le32 (cmd ! 4) (cmd ! 3) (cmd ! 2) (cmd ! 1))
        in [0, 254] @ data @ crc_bytes (getCRC16 data)
      else [0])"

definition sd_card :: "u8 list list \<Rightarrow> sdcard xfer" where
  "sd_card im c d =
     (case d of (cmd, answer) \<Rightarrow>
        if answer \<noteq> [] then (hd answer, ([], tl answer))
        else if cmd = [] then (255, (if c = 255 then [] else [c], []))
        else if length cmd < 5 then (255, (cmd @ [c], []))
        else (255, ([], sd_answer im cmd)))"

lemma sd_rw:
  "card p = ([], r # rs) \<Longrightarrow> spi_rw (sd_card im) c p = (r, p\<lparr>card := ([], rs), rw_reg := r\<rparr>)"
  "card p = ([], []) \<Longrightarrow> spi_rw (sd_card im) 255 p = (255, p\<lparr>card := ([], []), rw_reg := 255\<rparr>)"
  by (simp_all add: spi_rw_def sd_card_def)

lemma sd_command:
  assumes "card p = ([], [])" "64 OR cmd \<noteq> 255"
  shows "card (fold (spi_send (sd_card im)) [255, 64 OR cmd, a0, a1, a2, a3, crc] p)
    = ([], sd_answer im [64 OR cmd, a0, a1, a2, a3])"
  using assms by (simp add: spi_send_def spi_rw_def sd_card_def)

lemma sd_poll:
  "card p = ([], r # rs) \<Longrightarrow> r \<noteq> 255 \<Longrightarrow> poll_ff (sd_card im) (Suc k) p = p\<lparr>card := ([], rs), rw_reg := r\<rparr>"
  by (simp add: sd_rw(1))

lemma sd_cmd:
  assumes "card p = ([], [])" "64 OR cmd \<noteq> 255" "sd_answer im [64 OR cmd, a0, a1, a2, a3] = 0 # rs"
  shows "\<exists>q. spi_cmd (sd_card im) cmd a0 a1 a2 a3 crc p = (0, q) \<and> card q = ([], rs) \<and> rw_reg q = 0"
proof -
  let ?q = "fold (spi_send (sd_card im)) [255, 64 OR cmd, a0, a1, a2, a3, crc] p"
  have "card ?q = ([], 0 # rs)" using sd_command [OF assms(1,2), of im a0 a1 a2 a3 crc] assms(3) by simp
  then have "poll_ff (sd_card im) (Suc 9) ?q = ?q\<lparr>card := ([], rs), rw_reg := 0\<rparr>" by (rule sd_poll) simp
  then have "poll_ff (sd_card im) 10 ?q = ?q\<lparr>card := ([], rs), rw_reg := 0\<rparr>" by (simp del: poll_ff.simps fold.simps)
  then show ?thesis by (simp add: spi_cmd_def Let_def del: poll_ff.simps fold.simps)
qed

lemma sd_bytes:
  "card p = ([], out) \<Longrightarrow> n \<le> length out \<Longrightarrow>
   \<exists>q. spi_bytes (sd_card im) n p = (take n out, q) \<and> card q = ([], drop n out)"
proof (induction n arbitrary: p out)
  case (Suc n)
  then obtain r rs where o: "out = r # rs" by (cases out) auto
  let ?p = "p\<lparr>card := ([], rs), rw_reg := r\<rparr>"
  obtain q where "spi_bytes (sd_card im) n ?p = (take n rs, q)" "card q = ([], drop n rs)"
    using Suc.IH [of ?p rs] Suc.prems(2) o by auto
  then show ?case using Suc.prems(1) o by (simp add: sd_rw(1))
qed simp

lemma sd_idle: "card p = ([], []) \<Longrightarrow> card (snd (spi_bytes (sd_card im) n p)) = ([], [])"
proof (induction n arbitrary: p)
  case (Suc n)
  have "card (snd (spi_bytes (sd_card im) n (p\<lparr>card := ([], []), rw_reg := 255\<rparr>))) = ([], [])" by (rule Suc.IH) simp
  then show ?case using Suc.prems by (auto simp: sd_rw(2) split: prod.split)
qed simp

lemma sd_other:
  assumes "card p = ([], [])" "64 OR cmd \<noteq> 255" "cmd \<noteq> 17" "64 OR cmd \<noteq> 64 OR 17"
  shows "card (snd (spi_cmd (sd_card im) cmd a0 a1 a2 a3 crc p)) = ([], [])"
    "rw_reg (snd (spi_cmd (sd_card im) cmd a0 a1 a2 a3 crc p)) = 0"
  using sd_cmd [OF assms(1,2), of im a0 a1 a2 a3 "[]" crc] assms(4) by (auto simp: sd_answer_def)

lemma sd_spi_r: "card p = ([], []) \<Longrightarrow> card (snd (spi_r (sd_card im) p)) = ([], [])"
  using sd_idle [of p im 4] by (auto simp: spi_r_def split: prod.splits)

lemma sd_clock: "card (clock_idle n p) = card p"
  by (induction n arbitrary: p) (simp_all add: ctr_write_def)

lemma sd_init:
  assumes "card p = ([], [])"
  shows "card (spi_init (sd_card im) p) = ([], [])"
proof -
  let ?c = "\<lambda>cmd a0 a1 a2 a3 crc p. snd (spi_cmd (sd_card im) cmd a0 a1 a2 a3 crc p)"
  define p1 where "p1 = ctr_write 0 (clock_idle 100 (ctr_write 1 p))"
  define p2 where "p2 = ?c 0 0 0 0 0 149 p1"
  define p3 where "p3 = ?c 8 0 0 1 170 135 p2"
  define p4 where "p4 = snd (spi_r (sd_card im) p3)"
  define p5 where "p5 = ?c 55 0 0 0 0 0 p4"
  define p6 where "p6 = ?c 41 0x40 0 0 0 0 p5"
  define p7 where "p7 = ?c 58 0 0 0 0 0 p6"
  have c: "card p1 = ([], [])" using assms by (simp add: p1_def ctr_write_def sd_clock)
  then have c: "card p2 = ([], [])" unfolding p2_def by (rule sd_other) simp_all
  then have c: "card p3 = ([], [])" unfolding p3_def by (rule sd_other) simp_all
  then have c: "card p4 = ([], [])" unfolding p4_def by (rule sd_spi_r)
  then have c: "card p5 = ([], [])" unfolding p5_def by (rule sd_other) simp_all
  then have c6: "card p6 = ([], [])" "rw_reg p6 = 0" unfolding p6_def by (rule sd_other, simp_all)+
  then have c7: "card p7 = ([], [])" unfolding p7_def by (intro sd_other) simp_all
  have r: "init_retry (sd_card im) 10 p4 = p6"
  proof -
    have "init_retry (sd_card im) (Suc 9) p4 = p6" using c6(2) unfolding init_retry.simps Let_def p6_def p5_def by simp
    then show ?thesis by simp
  qed
  obtain ocr q where q: "spi_r (sd_card im) p7 = (ocr, q)" by fastforce
  then have cq: "card q = ([], [])" using sd_spi_r [OF c7, of im] by simp
  have c16: "card (?c 16 0 0 2 0 0 q) = ([], [])" using cq by (rule sd_other) simp_all
  have "spi_init (sd_card im) p = (if NOT (ocr AND push_bit 30 1) \<noteq> 0 then ?c 16 0 0 2 0 0 q else q)"
    unfolding spi_init_def Let_def p1_def [symmetric] p2_def [symmetric] p3_def [symmetric] p4_def [symmetric] r p7_def [symmetric] q
    by simp
  then show ?thesis using cq c16 by simp
qed

lemma sd_reads_blocks:
  assumes "\<forall>b < length im. length (im ! b) = 512"
  shows "reads_blocks (sd_card im) im (\<lambda>d. d = ([], [])) (\<lambda>d. d = ([], []))"
  unfolding reads_blocks_def
proof (intro conjI allI impI)
  fix p :: "sdcard spi" assume "card p = ([], [])"
  then show "card (spi_init (sd_card im) p) = ([], [])" by (rule sd_init)
next
  fix b :: u32 and p :: "sdcard spi"
  assume "card p = ([], []) \<and> unat b < length im"
  then have p: "card p = ([], [])" and l: "length (im ! unat b) = 512" using assms by auto
  let ?data = "im ! unat b"
  let ?rest = "?data @ crc_bytes (getCRC16 ?data)"
  have b: "of_le32 (byte_of 0 b) (byte_of 1 b) (byte_of 2 b) (byte_of 3 b) = b"
    using xint_id(1) [of b] by (simp add: byte_of_def xint_def)
  have "sd_answer im [64 OR 17, byte_of 3 b, byte_of 2 b, byte_of 1 b, byte_of 0 b] = 0 # 254 # ?rest"
    by (simp add: sd_answer_def b [simplified] Let_def)
  from sd_cmd [OF p _ this, of 0] obtain q where
    q: "spi_cmd (sd_card im) 17 (byte_of 3 b) (byte_of 2 b) (byte_of 1 b) (byte_of 0 b) 0 p = (0, q)" "card q = ([], 254 # ?rest)"
    by auto
  let ?q = "q\<lparr>card := ([], ?rest), rw_reg := 254\<rparr>"
  have poll: "poll_ff (sd_card im) 100000 q = ?q"
  proof -
    have "poll_ff (sd_card im) (Suc 99999) q = ?q" by (rule sd_poll [OF q(2)]) simp
    then show ?thesis by simp
  qed
  have lr: "length ?rest = 514" using l by (simp add: crc_bytes_def)
  obtain u where u: "spi_bytes (sd_card im) 514 ?q = (take 514 ?rest, u)" "card u = ([], drop 514 ?rest)"
    using sd_bytes [of ?q ?rest 514 im] lr by auto
  have "getCRC16 ?rest = 0"
    using crc_appended [OF crc_from_ok [OF crc_ok_0], of ?data] by (simp add: getCRC16_def crc_from_append)
  then show "case spi_cmd (sd_card im) 17 (byte_of 3 b) (byte_of 2 b) (byte_of 1 b) (byte_of 0 b) 0 p of (r, p) \<Rightarrow>
      r = 0 \<and> (case spi_bytes (sd_card im) 514 (poll_ff (sd_card im) 100000 p) of (bs, p) \<Rightarrow>
        take 512 bs = ?data \<and> getCRC16 bs = 0 \<and> card p = ([], []))"
    using u l lr unfolding q(1) prod.case poll by (simp del: spi_bytes.simps)
qed

text \<open>A kernel of 84 bytes, the ELF header and one program header that loads them at 0x80000000.\<close>

definition demo_kernel :: "u8 list" where
  "demo_kernel =
     [0x7F, 0x45, 0x4C, 0x46] @ replicate 20 0 @ [0, 0, 0, 0x80, 52, 0, 0, 0] @ replicate 12 0 @ [1, 0] @ replicate 6 0
     @ [1, 0, 0, 0, 0, 0, 0, 0, 0, 0, 0, 0x80, 0, 0, 0, 0x80, 84, 0, 0, 0] @ replicate 12 0"

definition demo_boot :: "sdcard boot" where
  "demo_boot =
     \<lparr>bspi = \<lparr>card = ([], []), rw_reg = 0, ctr_writes = []\<rparr>, bcrc = 0, bram = (\<lambda>_. 0), bbuf = replicate 512 0,
      bindirect = replicate 2048 0, bsb = sb_of_bytes (replicate 512 0), bfile = dinode_at (replicate 512 0) 0,
      belf = elfhdr_of (replicate 512 0), bout = [], buart = []\<rparr>"

lemma first_block_nth: "i < 512 \<Longrightarrow> first_block_of bs ! i = padded bs i"
  by (simp add: first_block_of_def BSIZE_def)

lemma demo_bytes:
  "length demo_kernel = 84" "padded demo_kernel 0 = 0x7F" "padded demo_kernel 1 = 0x45" "padded demo_kernel 2 = 0x4C"
  "padded demo_kernel 3 = 0x46" "padded demo_kernel 24 = 0" "padded demo_kernel 25 = 0" "padded demo_kernel 26 = 0"
  "padded demo_kernel 27 = 0x80" "padded demo_kernel 28 = 52" "padded demo_kernel 29 = 0" "padded demo_kernel 30 = 0"
  "padded demo_kernel 31 = 0" "padded demo_kernel 44 = 1" "padded demo_kernel 45 = 0" "padded demo_kernel 52 = 1"
  "padded demo_kernel 53 = 0" "padded demo_kernel 54 = 0" "padded demo_kernel 55 = 0" "padded demo_kernel 56 = 0"
  "padded demo_kernel 57 = 0" "padded demo_kernel 58 = 0" "padded demo_kernel 59 = 0" "padded demo_kernel 64 = 0"
  "padded demo_kernel 65 = 0" "padded demo_kernel 66 = 0" "padded demo_kernel 67 = 0x80" "padded demo_kernel 68 = 84"
  "padded demo_kernel 69 = 0" "padded demo_kernel 70 = 0" "padded demo_kernel 71 = 0"
  by (simp_all add: padded_def demo_kernel_def nth_append nth_Cons')

lemma demo_header:
  "elfhdr_of (first_block_of demo_kernel) = \<lparr>elf_magic = ELF_MAGIC, elf_entry = 0x80000000, elf_phoff = 52, elf_phnum = 1\<rparr>"
  "headers demo_kernel = [\<lparr>bp_type = 1, bp_off = 0, bp_paddr = 0x80000000, bp_filesz = 84\<rparr>]"
proof -
  have l: "length (first_block_of demo_kernel) = 512" by (simp add: first_block_of_def BSIZE_def)
  show e: "elfhdr_of (first_block_of demo_kernel) = \<lparr>elf_magic = ELF_MAGIC, elf_entry = 0x80000000, elf_phoff = 52, elf_phnum = 1\<rparr>"
    using demo_bytes(3) [unfolded One_nat_def] demo_bytes(4) [unfolded numeral_2_eq_2] by (simp add: elfhdr_of_def get32_def get16_def first_block_nth demo_bytes of_le32_def of_le16_def ELF_MAGIC_def)
  show "headers demo_kernel = [\<lparr>bp_type = 1, bp_off = 0, bp_paddr = 0x80000000, bp_filesz = 84\<rparr>]"
    using l by (simp add: headers_def e Let_def bproghdr_of_def get_drop) (simp add: get32_def first_block_nth demo_bytes of_le32_def)
qed

lemma boot_loads_kernel_witness:
  "\<exists>m s'. mkfs (\<lambda>_. Some [demo_kernel]) [ascii ''kernel''] = Ok m
     \<and> boot_main (sd_card (img m)) 10 demo_boot = Ok (0x80000000, s')
     \<and> bram s' 0x80000000 = 0x7F \<and> bram s' 0x80000003 = 0x46 \<and> bram s' 0x80000200 = 0"
proof -
  let ?fs = "\<lambda>_ :: u8 list. Some [demo_kernel]" and ?files = "[ascii ''kernel'']"
  have s: "shortname (ascii ''kernel'') = Ok (ascii ''kernel'')"
  proof -
    have "strncmp_list 5 = strncmp_list (Suc (Suc (Suc (Suc (Suc 0)))))" by (simp add: eval_nat_numeral)
    then show ?thesis by (simp add: shortname_def ascii_def char_at_def)
  qed
  have ne: "demo_kernel \<noteq> []" using demo_bytes(1) by auto
  obtain m where m: "mkfs ?fs ?files = Ok m" using mkfs_one_file [OF s ne] demo_bytes(1) by (auto simp: BSIZE_def)
  obtain own where "image_of ?fs ?files own m" using mkfs_image [OF m] by auto
  then have blocks: "\<forall>b < length (img m). length (img m ! b) = 512" by (simp add: image_of_def disk_ok_def BSIZE_def)
  have c: "contents [demo_kernel] = demo_kernel" using ne by (simp add: contents_def)
  have z: "sb_magic (bsb demo_boot) = 0" "elf_magic (belf demo_boot) = 0" "card (bspi demo_boot) = ([], [])" "bram demo_boot = (\<lambda>_. 0)"
    by (simp_all add: demo_boot_def sb_of_bytes_def elfhdr_of_def zero_word)
  have k: "is_kernel (contents [demo_kernel])" unfolding c by (simp add: is_kernel_def demo_header Let_def)
  have f: "unat (elf_phoff (elfhdr_of (first_block_of (contents [demo_kernel])))) + 32 * length (headers (contents [demo_kernel])) \<le> BSIZE"
    unfolding c by (simp add: demo_header BSIZE_def)
  have l: "\<forall>h \<in> set (headers (contents [demo_kernel])). loadable (contents [demo_kernel]) h"
    unfolding c by (simp add: demo_header loadable_def demo_bytes(1))
  obtain s' where "boot_main (sd_card (img m)) 10 demo_boot = Ok (0x80000000, s')"
    "bram s' = fold (put_segment demo_kernel) (headers demo_kernel) (fill (bram demo_boot) 0x80000000 0x80000 (\<lambda>_. 0))"
    using boot_loads_kernel [OF m _ _ sd_reads_blocks [OF blocks] z(3,1,2) _ k _ f l, of 0 10] unfolding c by auto
  moreover have "blocks_for 84 * BSIZE = 512" by (simp add: blocks_for_def BSIZE_def)
  ultimately show ?thesis
    using m demo_bytes by (intro exI [of _ m] exI [of _ s']) (simp add: demo_header put_segment_def z(4) fill_def)
qed

end
