(* ===== verification/Mkfs_Kernel.thy ===== *)
theory Mkfs_Kernel
  imports Mkfs_Props Fs_Dir
begin

text \<open>
  The kernel on an image made by \<open>mkfs\<close>: the file system code finds every file by its name in the
  root directory and reads back the bytes that were copied into the image.
\<close>

text \<open>The kernel sees the blocks of the image, through its cache and log.\<close>

definition on_image :: "kst \<Rightarrow> mkst \<Rightarrow> bool" where
  "on_image s m \<longleftrightarrow> sb s = mksb \<and> (\<forall>b < FSSIZE. view s (of_nat b) = img m ! b)"

lemma view_image: "on_image s m \<Longrightarrow> unat w < FSSIZE \<Longrightarrow> view s w = img m ! unat w"
proof -
  assume "on_image s m" "unat w < FSSIZE"
  then have "view s (of_nat (unat w)) = img m ! unat w" unfolding on_image_def by blast
  then show ?thesis by simp
qed

lemma inode_image:
  assumes "on_image s m" "j < NINODES"
  shows "inode_on s (of_nat j) = inode_in (img m) j"
proof -
  note t = table_block [OF assms(2)]
  have "unat (IBLOCK (of_nat j) mksb) < FSSIZE" unfolding t(1) using t(4) by (simp add: mk_params)
  then have "view s (IBLOCK (of_nat j) (sb s)) = img m ! (2 + nlog + j div IPB)"
    using view_image [OF assms(1), of "IBLOCK (of_nat j) mksb"] assms(1) t(1) by (simp add: on_image_def)
  then show ?thesis by (simp add: inode_on_def inode_in_def inode_slot_def t(2))
qed

text \<open>The blocks and bytes of a file are the same for both.\<close>

lemma file_block_image:
  assumes v: "on_image s m" and d: "disk_ok own m" and a: "mapped_to own (img m) i di c"
    and x: "idata (itab s ! ip) = di" and k: "k < c"
  shows "unat (file_block s ip k) = blk (img m) di k" "unat (file_block s ip k) < FSSIZE" "file_block s ip k \<noteq> 0"
proof -
  show e: "unat (file_block s ip k) = blk (img m) di k"
  proof (cases "k < NDIRECT")
    case True
    then show ?thesis by (simp add: file_block_def iaddr_def x blk_def)
  next
    case False
    then have "own (unat (d_addrs di ! NDIRECT)) = Some (i, MAXFILE)" using a k by (simp add: mapped_to_def split: if_splits)
    then have b: "unat (d_addrs di ! NDIRECT) < FSSIZE" "unat (d_addrs di ! NDIRECT) \<noteq> 0" using owned_block [OF d] by blast+
    then have "d_addrs di ! NDIRECT \<noteq> 0" by auto
    then show ?thesis using False view_image [OF v b(1)] by (simp add: file_block_def iaddr_def x blk_def)
  qed
  have "own (blk (img m) di k) = Some (i, k)" using a k by (simp add: mapped_to_def)
  then have "blk (img m) di k < FSSIZE" "blk (img m) di k \<noteq> 0" using owned_block [OF d] by blast+
  then show "unat (file_block s ip k) < FSSIZE" "file_block s ip k \<noteq> 0" using e by auto
qed

lemma file_image:
  assumes v: "on_image s m" and d: "disk_ok own m" and a: "mapped_to own (img m) i di (blocks_for (length bs))"
    and h: "file_holds (img m) di bs" and x: "idata (itab s ! ip) = di"
  shows "n \<le> blocks_for (length bs) * BSIZE \<Longrightarrow> mapped s ip n"
    "off + n \<le> length bs \<Longrightarrow> file_bytes s ip off n = take n (drop off bs)"
    "length bs \<le> off \<Longrightarrow> off + n \<le> blocks_for (length bs) * BSIZE \<Longrightarrow> file_bytes s ip off n = replicate n 0"
proof -
  note fb = file_block_image [OF v d a x]
  have k: "q div BSIZE < blocks_for (length bs)" if "q < blocks_for (length bs) * BSIZE" for q
    using that by (simp add: less_mult_imp_div_less)
  show "mapped s ip n" if n: "n \<le> blocks_for (length bs) * BSIZE"
  proof -
    have "blocks_for (length bs) \<le> MAXFILE" using a by (simp add: mapped_to_def)
    then have "n \<le> MAXFILE * BSIZE" using n mult_le_mono1 [of "blocks_for (length bs)" MAXFILE BSIZE] by linarith
    moreover have "file_block s ip (q div BSIZE) \<noteq> 0" if "q < n" for q using fb(3) [OF k] that n by simp
    ultimately show ?thesis by (simp add: mapped_def)
  qed
  have byte: "file_byte s ip q = fbyte (img m) di q" if "q < blocks_for (length bs) * BSIZE" for q
    using view_image [OF v fb(2) [OF k [OF that]]] fb(1) [OF k [OF that]] by (simp add: file_byte_def fbyte_def)
  have data: "file_byte s ip q = bs ! q" if "q < length bs" for q
    using byte [OF below_blocks [OF that]] h that by (simp add: file_holds_def)
  have zero: "file_byte s ip q = 0" if "length bs \<le> q" "q < blocks_for (length bs) * BSIZE" for q
    using byte [OF that(2)] h that by (simp add: file_holds_def)
  show "file_bytes s ip off n = take n (drop off bs)" if "off + n \<le> length bs"
    using that data by (intro nth_equalityI) (simp_all add: file_bytes_def)
  show "file_bytes s ip off n = replicate n 0" if "length bs \<le> off" "off + n \<le> blocks_for (length bs) * BSIZE"
    using that zero by (intro nth_equalityI) (simp_all add: file_bytes_def)
qed

subsection \<open>Reading\<close>

text \<open>
  C6: The kernel reads what \<open>mkfs\<close> wrote. For every file copied into the image, a process whose kernel
  sees the image and holds the file's inode as it is on the disk gets from \<open>readi\<close> exactly the bytes of
  the file from the offset on, as many as it asked for and there are, through direct and indirect blocks.
\<close>

theorem kernel_reads_mkfs_files:
  assumes "mkfs fs files = Ok m" "length files < 399" "k < length files" "fs (files ! k) = Some inp"
    and "txn s L bl {}" "on_image s m" "idev (itab s ! ip) = ROOTDEV" "idata (itab s ! ip) = inode_on s (of_nat (k + 2))"
    and "unat off + unat n < 2 ^ 32" "running s" "space_inv (ph s) (user_pt s) ps B"
    and "unat va + unat n \<le> 2 ^ 32" "\<forall>j < unat n. user_entry (pmem (ph s)) (user_pt s) (va + of_nat j) \<noteq> None"
  shows "\<exists>s'. let bs = take (unat n) (drop (unat off) (contents inp)) in
    readi ip (UserDst va) off n s = Ok (int (length bs), UserDst (va + of_nat (length bs)), s')
    \<and> user_byte (pmem (ph s')) (user_pt s') = user_write va bs (user_byte (pmem (ph s)) (user_pt s))
    \<and> view s' = view s"
proof -
  let ?f = "contents inp" and ?d = "inode_in (img m) (k + 2)"
  obtain own where im: "image_of fs files own m" using mkfs_image [OF assms(1,2)] by blast
  have d: "disk_ok own m" using im by (simp add: image_of_def)
  have hf: "holds_file own (img m) (k + 2) (T_FILE, ?f) ?d" using im assms(3,4) by (auto simp: image_of_def)
  have x: "idata (itab s ! ip) = ?d"
    using inode_image [OF assms(6), of "k + 2"] assms(2,3,8) by (simp add: NINODES_def)
  have sz: "unat (d_size (idata (itab s ! ip))) = length ?f" using hf x by (simp add: holds_file_def)
  have a: "mapped_to own (img m) (k + 2) ?d (blocks_for (length ?f))" "file_holds (img m) ?d ?f" using hf by (simp_all add: holds_file_def)
  note fi = file_image [OF assms(6) d a x]
  define j where "j = min (unat n) (unat (d_size (idata (itab s ! ip))) - unat off)"
  have le: "length ?f \<le> blocks_for (length ?f) * BSIZE"
    using below_blocks [of "length ?f - 1" "length ?f"] by (cases "?f = []") simp_all
  have mp: "mapped s ip (unat (d_size (idata (itab s ! ip))))" unfolding sz by (rule fi(1) [OF le])
  have f: "user_fits (UserDst va) j s" using assms(10-13) by (auto simp: user_fits_def j_def)
  have "\<exists>s'. readi ip (UserDst va) off n s = Ok (int j, advance (UserDst va) (file_bytes s ip (unat off) j), s') \<and>
    txn s' L bl {} \<and> view s' = view s \<and> msame s s' \<and> user_delivered (UserDst va) s (file_bytes s ip (unat off) j) s'"
    unfolding j_def by (rule user_sink.readi_spec [OF assms(5,7) mp assms(9) f [unfolded j_def]])
  then obtain s' where s': "readi ip (UserDst va) off n s = Ok (int j, advance (UserDst va) (file_bytes s ip (unat off) j), s')"
    "view s' = view s" "user_delivered (UserDst va) s (file_bytes s ip (unat off) j) s'" by blast
  have bs: "file_bytes s ip (unat off) j = take (unat n) (drop (unat off) ?f)"
  proof (cases "unat off \<le> length ?f")
    case True
    then have "unat off + j \<le> length ?f" by (simp add: j_def sz)
    then have "file_bytes s ip (unat off) j = take j (drop (unat off) ?f)" by (rule fi(2))
    also have "\<dots> = take (unat n) (drop (unat off) ?f)" by (simp add: j_def sz min_def)
    finally show ?thesis .
  next
    case False
    then show ?thesis by (simp add: j_def sz file_bytes_def)
  qed
  have lj: "length (take (unat n) (drop (unat off) ?f)) = j" by (simp add: j_def sz)
  have j32: "length (file_bytes s ip (unat off) j) \<le> 2 ^ 32" using unat_u32_le [of n] by (simp add: j_def)
  have adv: "advance (UserDst va) (file_bytes s ip (unat off) j) = UserDst (va + of_nat j)" by simp
  show ?thesis
    using s' j32 unfolding adv Let_def lj unfolding bs by (intro exI [of _ s']) (auto simp: user_delivered_def)
qed

subsection \<open>Looking up\<close>

definition same_name :: "u8 list \<Rightarrow> u8 list \<Rightarrow> bool" where
  "same_name p q \<longleftrightarrow> take DIRSIZ (c_string p) = take DIRSIZ (c_string q)"

lemma same_name_field: "same_name p (name_field q) \<longleftrightarrow> same_name p q"
  by (simp add: same_name_def c_string_name_field)

text \<open>The names in the root directory in order, and the numbers of their inodes.\<close>

definition root_names :: "u8 list list \<Rightarrow> u8 list list" where
  "root_names files = ascii ''.'' # ascii ''..'' # map image_name files"

definition root_number :: "nat \<Rightarrow> nat" where
  "root_number j = (if j < 2 then 1 else j)"

lemma entries_nth:
  "j < length as \<Longrightarrow> take 16 (drop (16 * j) (entries n as)) = entry (of_nat (n + j)) (name_field (image_name (as ! j)))"
proof (induction as arbitrary: j n)
  case (Cons a as)
  have l: "length (entry (of_nat n) (name_field (image_name a))) = 16" by simp
  show ?case
  proof (cases j)
    case 0
    then show ?thesis by simp
  next
    case (Suc i)
    then have "drop (16 * j) (entries n (a # as)) = drop (16 * i) (entries (Suc n) as)" using l by simp
    then show ?thesis using Cons.IH [of i "Suc n"] Cons.prems Suc by simp
  qed
qed simp

lemma length_entries [simp]: "length (entries n as) = 16 * length as"
  by (induction as arbitrary: n) simp_all

lemma length_dots [simp]: "length dots = 32"
  by (simp add: dots_def)

lemma root_entry:
  assumes "j < length files + 2"
  shows "take 16 (drop (16 * j) (dots @ entries 2 files)) = entry (of_nat (root_number j)) (name_field (root_names files ! j))"
proof -
  consider "j = 0" | "j = 1" | i where "j = i + 2" by (metis One_nat_def add_2_eq_Suc' not0_implies_Suc)
  then show ?thesis
  proof cases
    case 1
    then show ?thesis by (simp add: dots_def root_number_def root_names_def ROOTINO_def)
  next
    case 2
    then show ?thesis by (simp add: dots_def root_number_def root_names_def ROOTINO_def)
  next
    case 3
    then have i: "i < length files" using assms by simp
    have "drop (16 * j) (dots @ entries 2 files) = drop (16 * i) (entries 2 files)" by (simp add: 3)
    then show ?thesis using entries_nth [OF i, of 2] 3 i by (simp add: root_number_def root_names_def)
  qed
qed

lemma names_entry:
  assumes "0 < i" "i < NINODES"
  shows "names name (entry (of_nat i) (name_field q)) \<longleftrightarrow> same_name name q"
    "ucast (de_inum (entry (of_nat i) (name_field q))) = (of_nat i :: u32)"
proof -
  have i: "i < 2 ^ 16" using assms by (simp add: NINODES_def)
  have e: "entry (of_nat i) (name_field q) = le16 (of_nat i) @ name_field q"
  proof -
    have "ucast (of_nat i :: u32) = (of_nat i :: u16)" using i by (simp add: unsigned_of_nat take_bit_nat_eq_self)
    then show ?thesis by (simp add: entry_def dirent_bytes_def)
  qed
  have n: "de_inum (entry (of_nat i) (name_field q)) = of_nat i" "de_name (entry (of_nat i) (name_field q)) = name_field q"
    unfolding e by (simp_all add: de_inum_def de_name_def get16_def le16_def)
  have "(of_nat i :: u16) \<noteq> 0"
  proof
    assume "(of_nat i :: u16) = 0"
    then have "unat (of_nat i :: u16) = 0" by simp
    then show False using i assms(1) by (simp add: unat_of_nat)
  qed
  then show "names name (entry (of_nat i) (name_field q)) \<longleftrightarrow> same_name name q"
    using same_name_field [of name q] by (simp add: names_def n same_name_def)
  show "ucast (de_inum (entry (of_nat i) (name_field q))) = (of_nat i :: u32)"
    unfolding n using i by (simp add: unsigned_of_nat take_bit_nat_eq_self)
qed

lemma root_slot:
  assumes im: "image_of fs files own m" and v: "on_image s m" and n: "length files < 399" "\<not> 32 dvd length files + 2"
    and x: "idev (itab s ! dp) = ROOTDEV" "idata (itab s ! dp) = inode_on s ROOTINO"
  shows "is_dir s dp (((length files + 2) div 32 + 1) * 32)"
    "j < length files + 2 \<Longrightarrow>
       dirent_at s dp j = entry (of_nat (root_number j)) (name_field (root_names files ! j))"
    "length files + 2 \<le> j \<Longrightarrow> j < ((length files + 2) div 32 + 1) * 32 \<Longrightarrow> dirent_at s dp j = replicate 16 0"
proof -
  let ?d = "inode_in (img m) 1" and ?es = "dots @ entries 2 files" and ?N = "length files + 2"
  have d: "disk_ok own m" and r: "root_holds own (img m) ?es ?d" using im by (simp_all add: image_of_def)
  have x2: "idata (itab s ! dp) = ?d" using inode_image [OF v, of 1] x(2) by (simp add: NINODES_def ROOTINO_def)
  have a: "mapped_to own (img m) 1 ?d (blocks_for (length ?es))" "file_holds (img m) ?d ?es" using r by (simp_all add: root_holds_def)
  note fi = file_image [OF v d a x2]
  have le: "length ?es = 16 * ?N" by simp
  have dv: "16 * ?N div BSIZE = ?N div 32" by (simp add: BSIZE_def div_mult2_eq [of _ 16 32, simplified])
  have "16 * ?N mod BSIZE \<noteq> 0"
  proof
    assume "16 * ?N mod BSIZE = 0"
    then have "16 * 32 dvd 16 * ?N" by (simp add: BSIZE_def mod_eq_0_iff_dvd)
    then show False using n(2) by presburger
  qed
  then have bf: "blocks_for (length ?es) = ?N div 32 + 1" unfolding le blocks_for_eq dv by simp
  have cap: "(?N div 32 + 1) * 32 * 16 = blocks_for (length ?es) * BSIZE" unfolding bf by (simp add: BSIZE_def)
  show "is_dir s dp ((?N div 32 + 1) * 32)"
  proof -
    have "unat (d_size ?d) = (?N div 32 + 1) * BSIZE" using r unfolding root_holds_def le dv by simp
    then have "unat (d_size ?d) = DIRENT * ((?N div 32 + 1) * 32)" by (simp add: BSIZE_def DIRENT_def DIRSIZ_def)
    moreover have "mapped s dp (DIRENT * ((?N div 32 + 1) * 32))"
      by (rule fi(1)) (unfold cap [symmetric], simp add: DIRENT_def DIRSIZ_def)
    ultimately show ?thesis using r x(1) x2 by (simp add: is_dir_def root_holds_def)
  qed
  show "dirent_at s dp j = entry (of_nat (root_number j)) (name_field (root_names files ! j))" if j: "j < ?N"
  proof -
    have "DIRENT * j + DIRENT \<le> length ?es" unfolding le using j by (simp add: DIRENT_def DIRSIZ_def)
    then have "dirent_at s dp j = take 16 (drop (16 * j) ?es)"
      using fi(2) [of "DIRENT * j" DIRENT] by (simp add: dirent_at_def DIRENT_def DIRSIZ_def)
    then show ?thesis using root_entry [OF j] by simp
  qed
  show "dirent_at s dp j = replicate 16 0" if j: "?N \<le> j" "j < (?N div 32 + 1) * 32"
  proof -
    have "DIRENT * j + DIRENT \<le> (?N div 32 + 1) * 32 * 16" using j(2) by (simp add: DIRENT_def DIRSIZ_def)
    moreover have "length ?es \<le> DIRENT * j" unfolding le using j(1) by (simp add: DIRENT_def DIRSIZ_def)
    ultimately show ?thesis using fi(3) [of "DIRENT * j" DIRENT] unfolding cap by (simp add: dirent_at_def DIRENT_def DIRSIZ_def)
  qed
qed

text \<open>The first entry of a name is the entry of the first file of that name, two slots after the file's place.\<close>

lemma root_find:
  assumes im: "image_of fs files own m" and v: "on_image s m" and n: "length files < 399" "\<not> 32 dvd length files + 2"
    and x: "idev (itab s ! dp) = ROOTDEV" "idata (itab s ! dp) = inode_on s ROOTINO"
    and d: "\<not> same_name name (ascii ''.'')" "\<not> same_name name (ascii ''..'')"
  shows "find (\<lambda>j. names name (dirent_at s dp j)) [0..<((length files + 2) div 32 + 1) * 32] =
    map_option (\<lambda>k. k + 2) (find (\<lambda>k. same_name name (image_name (files ! k))) [0..<length files])"
    (is "find ?P [0..<?n] = map_option _ (find ?Q _)")
proof -
  let ?N = "length files + 2"
  note rs = root_slot [OF im v n x]
  have "n \<le> (n div 32 + 1) * 32" for n :: nat by presburger
  then have Nn: "?N \<le> ?n" .
  have P: "?P j \<longleftrightarrow> 2 \<le> j \<and> j < ?N \<and> ?Q (j - 2)" if j: "j < ?n" for j
  proof (cases "j < ?N")
    case True
    then have "0 < root_number j" "root_number j < NINODES" using n by (auto simp: root_number_def NINODES_def)
    then have nm: "?P j \<longleftrightarrow> same_name name (root_names files ! j)" using rs(2) [OF True] names_entry(1) by simp
    consider "j = 0" | "j = 1" | k where "j = k + 2" by (metis One_nat_def add_2_eq_Suc' not0_implies_Suc)
    then show ?thesis using nm d True by cases (auto simp: root_names_def)
  next
    case False
    then have "dirent_at s dp j = replicate 16 0" using rs(3) j by simp
    then show ?thesis using False by (simp add: names_def de_inum_def get16_def of_le16_def)
  qed
  show ?thesis
  proof (cases "find ?Q [0..<length files]")
    case None
    then have "\<forall>k < length files. \<not> ?Q k" unfolding find_upt_None .
    then have "\<forall>j < ?n. \<not> ?P j" using P by (metis add.commute less_diff_conv2)
    then show ?thesis using None unfolding find_upt_None [symmetric] by simp
  next
    case (Some k)
    note k = find_upt_Some [OF Some]
    have kn: "k + 2 < ?n" using k Nn by linarith
    have Pk: "?P (k + 2)" using P [OF kn] k by simp
    have less: "\<not> ?P j" if "j < k + 2" for j
    proof
      assume "?P j"
      then have "2 \<le> j" "?Q (j - 2)" using P [of j] that kn by auto
      moreover have "j - 2 < k" using that \<open>2 \<le> j\<close> by simp
      ultimately show False using k by blast
    qed
    obtain j where j: "find ?P [0..<?n] = Some j"
      using Pk kn find_upt_None [of ?P ?n] by fastforce
    note fj = find_upt_Some [OF j]
    have "j = k + 2" using fj less Pk by (metis linorder_neqE_nat)
    then show ?thesis using Some j by simp
  qed
qed

text \<open>
  C7: The kernel finds what \<open>mkfs\<close> named. A lookup in the root directory of the image returns, for the
  first file whose name agrees with the one looked up in the \<open>DIRSIZ\<close> characters a directory keeps, the
  slot of the inode that holds that file's contents, and reports that there is none when no name agrees.
  The number of entries must not be a multiple of 32, where \<open>mkfs\<close> leaves the root's last block out.
\<close>

theorem kernel_finds_mkfs_files:
  assumes "mkfs fs files = Ok m" "length files < 399" "\<not> 32 dvd length files + 2"
    and "txn s L bl {}" "on_image s m" "idev (itab s ! dp) = ROOTDEV" "idata (itab s ! dp) = inode_on s ROOTINO"
    and "itab_ok (itab s)" "i < length (itab s)" "iref (itab s ! i) = 0"
    and "\<not> same_name name (ascii ''.'')" "\<not> same_name name (ascii ''..'')"
  shows "case find (\<lambda>k. same_name name (image_name (files ! k))) [0..<length files] of
      None \<Rightarrow> \<exists>s'. dirlookup dp name s = Ok (None, s') \<and> view s' = view s
    | Some k \<Rightarrow> \<exists>ip s'. dirlookup dp name s = Ok (Some (ip, of_nat (16 * (k + 2))), s') \<and> view s' = view s
        \<and> in_use ROOTDEV (of_nat (k + 2)) (itab s' ! ip)"
proof -
  let ?N = "length files + 2" and ?n = "((length files + 2) div 32 + 1) * 32"
  let ?P = "\<lambda>j. names name (dirent_at s dp j)" and ?Q = "\<lambda>k. same_name name (image_name (files ! k))"
  obtain own where im: "image_of fs files own m" using mkfs_image [OF assms(1,2)] by blast
  note rs = root_slot [OF im assms(5,2,3,6,7)] and fd = root_find [OF im assms(5,2,3,6,7,11,12)]
  obtain s1 where s1: "fsame s s1" "txn s1 L bl {}" "view s1 = view s"
    "dirlookup dp name s =
      (case find ?P [0..<?n] of
         None \<Rightarrow> Ok (None, s1)
       | Some i \<Rightarrow> seq (iget ROOTDEV (ucast (de_inum (dirent_at s dp i))) s1) (\<lambda>(ip, t).
           Ok (Some (ip, of_nat (DIRENT * i)), t)))"
    using dirlookup_spec [OF assms(4) rs(1), of name] by (elim exE conjE)
  have it: "itab s1 = itab s" by (rule fsame_sel(2) [OF s1(1)])
  show ?thesis
  proof (cases "find ?Q [0..<length files]")
    case None
    then show ?thesis using s1(3,4) fd by simp
  next
    case (Some k)
    note k = find_upt_Some [OF Some]
    have "dirent_at s dp (k + 2) = entry (of_nat (k + 2)) (name_field (root_names files ! (k + 2)))"
      using rs(2) [of "k + 2"] k by (simp add: root_number_def)
    then have num: "ucast (de_inum (dirent_at s dp (k + 2))) = (of_nat (k + 2) :: u32)"
      using names_entry(2) [of "k + 2"] k assms(2) by (simp add: NINODES_def)
    obtain ip t where g: "iget ROOTDEV (of_nat (k + 2)) s1 = Ok (ip, t)"
      using iget_with_free_slot [of i s1] assms(9,10) it by metis
    have "view t = view s" using iget_view [OF g] s1(3) by simp
    moreover have "in_use ROOTDEV (of_nat (k + 2)) (itab t ! ip)" using iget_itab_ok [OF _ g] assms(8) it by simp
    moreover have "dirlookup dp name s = Ok (Some (ip, of_nat (16 * (k + 2))), t)"
      unfolding s1(4) fd Some using g num by (simp add: DIRENT_def DIRSIZ_def)
    ultimately show ?thesis using Some by auto
  qed
qed

subsection \<open>An example\<close>

text \<open>A kernel that has booted on the image, with the inodes 1 and 2 in the slots 0 and 1.\<close>

definition image_fs :: "mkst \<Rightarrow> kst" where
  "image_fs m = demo_fsu
     \<lparr>dsk := (\<lambda>w. if unat w < FSSIZE then img m ! unat w else replicate BSIZE 0), sb := mksb,
      itab := (replicate NINODE demo_slot)
        [0 := \<lparr>idev = ROOTDEV, inum = 1, iref = 1, ilk = initsleeplock, ivalid = True, idata = inode_in (img m) 1\<rparr>,
         1 := \<lparr>idev = ROOTDEV, inum = 2, iref = 1, ilk = initsleeplock, ivalid = True, idata = inode_in (img m) 2\<rparr>]\<rparr>"

lemma image_fs_ok:
  assumes d: "disk_ok own m"
  shows "txn (image_fs m) 2 [] {}" "on_image (image_fs m) m" "running (image_fs m)" "ph (image_fs m) = demo_space"
    "user_pt (image_fs m) = 0x8007D000"
proof -
  let ?s = "image_fs m" and ?D = "\<lambda>w :: u32. if unat w < FSSIZE then img m ! unat w else replicate BSIZE 0"
  have b: "bufs ?s = replicate NBUF zero_buf" by (simp add: image_fs_def demo_fsu_def demo_fs_def demo_kst_def)
  have dk: "dsk ?s = ?D" by (simp add: image_fs_def)
  note nc = no_cached_reboot [OF b]
  have v: "view ?s = ?D" by (rule ext) (use view_uncached [of ?s] nc dk in simp)
  show run: "running ?s" using demo_fsu_ok(5) by (simp add: running_def image_fs_def)
  have lgs: "lg ?s = lg demo_fs" by (simp add: image_fs_def demo_fsu_def)
  have len: "length (?D w) = BSIZE" for w using d by (simp add: disk_ok_def)
  have "rebooted ?s ?D 2"
    using b dk run lgs by (simp add: rebooted_def image_fs_def demo_fsu_def demo_fs_def demo_kst_def zero_log_def)
  note rb = rebooted_binv [OF this len]
  have "log_ready ?s 2 []"
    using run lgs by (simp add: log_ready_def demo_fs_def zero_log_def log_ok_def NBUF_def LOGSIZE_def MAXOPBLOCKS_def)
  then show "txn ?s 2 [] {}"
    using rb v dk lgs by (auto simp: txn_def demo_fs_def zero_log_def)
  have "view ?s (of_nat b) = img m ! b" if "b < FSSIZE" for b
    using that unfolding v by (simp add: FSSIZE_def unat_of_nat)
  then show "on_image ?s m" by (simp add: on_image_def image_fs_def)
  show "ph ?s = demo_space" "user_pt ?s = 0x8007D000"
    using demo_fsu_ok(6,7) by (simp_all add: image_fs_def user_pt_def)
qed

lemma image_fs_slots:
  "idev (itab (image_fs m) ! 0) = ROOTDEV" "idata (itab (image_fs m) ! 0) = inode_in (img m) 1"
  "idev (itab (image_fs m) ! 1) = ROOTDEV" "idata (itab (image_fs m) ! 1) = inode_in (img m) 2"
  "2 < length (itab (image_fs m))" "iref (itab (image_fs m) ! 2) = 0" "itab_ok (itab (image_fs m))"
proof -
  show "itab_ok (itab (image_fs m))"
    unfolding itab_ok_def
    by (auto simp: image_fs_def NINODE_def demo_slot_def nth_list_update split: if_splits)
qed (simp_all add: image_fs_def NINODE_def demo_slot_def)

lemma small_image: "\<exists>m. mkfs (\<lambda>_. Some [[104, 105]]) [ascii ''user/_a''] = Ok m"
proof -
  have "strncmp_list 5 = strncmp_list (Suc (Suc (Suc (Suc (Suc 0)))))" by (simp add: eval_nat_numeral)
  then have "shortname (ascii ''user/_a'') = Ok [95, 97]" by (simp add: shortname_def ascii_def char_at_def)
  from mkfs_one_file [OF this, of "[104, 105]"] show ?thesis by (simp add: BSIZE_def)
qed

lemma kernel_reads_mkfs_files_witness:
  "\<exists>m s'. mkfs (\<lambda>_. Some [[104, 105]]) [ascii ''user/_a''] = Ok m
     \<and> readi 1 (UserDst 0x10) 0 2 (image_fs m) = Ok (2, UserDst 0x12, s')
     \<and> user_byte (pmem (ph s')) (user_pt s') = user_write 0x10 [104, 105] (user_byte (pmem demo_space) 0x8007D000)"
proof -
  obtain m where m: "mkfs (\<lambda>_. Some [[104, 105]]) [ascii ''user/_a''] = Ok m" using small_image ..
  obtain own where im: "image_of (\<lambda>_. Some [[104, 105]]) [ascii ''user/_a''] own m" using mkfs_image [OF m] by auto
  then have d: "disk_ok own m" by (simp add: image_of_def)
  note ok = image_fs_ok [OF d]
  have c: "contents [[104, 105]] = [104, 105]" by (simp add: contents_def)
  have dat: "idata (itab (image_fs m) ! 1) = inode_on (image_fs m) (of_nat (0 + 2))"
    using inode_image [OF ok(2), of 2] image_fs_slots(4) by (simp add: NINODES_def)
  have e: "\<forall>j < unat (2 :: u32). user_entry (pmem (ph (image_fs m))) (user_pt (image_fs m)) (0x10 + of_nat j) \<noteq> None"
    unfolding ok(4,5) using demo_near by (auto simp: demo_user_entry)
  have "space_inv (ph (image_fs m)) (user_pt (image_fs m)) [] 4096"
    unfolding ok(4,5) using demo_space_inv by simp
  from kernel_reads_mkfs_files [where inp = "[[104, 105]]" and off = 0,
      OF m _ _ _ ok(1,2) image_fs_slots(3) dat _ ok(3) this _ e]
  show ?thesis using m unfolding c ok(4,5) by (auto simp: Let_def)
qed

lemma kernel_finds_mkfs_files_witness:
  "\<exists>m ip s'. mkfs (\<lambda>_. Some [[104, 105]]) [ascii ''user/_a''] = Ok m
     \<and> dirlookup 0 [97] (image_fs m) = Ok (Some (ip, 32), s') \<and> inum (itab s' ! ip) = 2"
proof -
  obtain m where m: "mkfs (\<lambda>_. Some [[104, 105]]) [ascii ''user/_a''] = Ok m" using small_image ..
  obtain own where im: "image_of (\<lambda>_. Some [[104, 105]]) [ascii ''user/_a''] own m" using mkfs_image [OF m] by auto
  then have d: "disk_ok own m" by (simp add: image_of_def)
  note ok = image_fs_ok [OF d]
  have dat: "idata (itab (image_fs m) ! 0) = inode_on (image_fs m) ROOTINO"
    using inode_image [OF ok(2), of 1] image_fs_slots(2) by (simp add: NINODES_def ROOTINO_def)
  have "strncmp_list 5 = strncmp_list (Suc (Suc (Suc (Suc (Suc 0)))))" by (simp add: eval_nat_numeral)
  then have nm: "image_name (ascii ''user/_a'') = [97]"
    by (simp add: image_name_def shortname_def ascii_def char_at_def skip_underscore_def)
  have nn: "\<not> same_name [97] (ascii ''.'')" "\<not> same_name [97] (ascii ''..'')" "same_name [97] [97]"
    by (simp_all add: same_name_def ascii_def DIRSIZ_def)
  have f: "find (\<lambda>k. same_name [97] (image_name ([ascii ''user/_a''] ! k))) [0..<length [ascii ''user/_a'']] = Some 0"
    using nn(3) by (simp add: nm upt_rec)
  have three: "\<not> 32 dvd length [ascii ''user/_a''] + 2"
  proof -
    have l: "length [ascii ''user/_a''] + 2 = 3" by simp
    show ?thesis unfolding l by simp
  qed
  from kernel_finds_mkfs_files [OF m _ three ok(1,2) image_fs_slots(1) dat image_fs_slots(7,5,6) nn(1,2)]
  show ?thesis using m unfolding f by (auto simp: in_use_def)
qed

end
