(* ===== verification/Fs_Dirlink.thy ===== *)
theory Fs_Dirlink
  imports Fs_Dir Fs_Write
begin

text \<open>
  Adding a name to a directory: \<open>dirlink\<close> takes the first free entry or a new one at the end,
  and a lookup then finds the name.
\<close>

subsection \<open>The slot\<close>

definition free_slot :: "kst \<Rightarrow> nat \<Rightarrow> nat \<Rightarrow> nat" where
  "free_slot s dp n = (case find (\<lambda>i. de_inum (dirent_at s dp i) = 0) [0..<n] of Some i \<Rightarrow> i | None \<Rightarrow> n)"

lemma free_slot_le: "free_slot s dp n \<le> n"
  unfolding free_slot_def by (auto dest: find_upt_Some split: option.split)

lemma DIRENT_16: "DIRENT = 16"
  by (simp add: DIRENT_def DIRSIZ_def)

lemma dirlink_slot_spec:
  assumes "txn s L bl {}" "is_dir s dp n" "j \<le> n" "n - j < k"
  shows "\<exists>s'. fsame s s' \<and> txn s' L bl {} \<and> view s' = view s \<and>
    dirlink_slot k (of_nat (DIRENT * j)) dp s =
      Ok (of_nat (DIRENT * (case find (\<lambda>i. de_inum (dirent_at s dp i) = 0) [j..<n] of Some i \<Rightarrow> i | None \<Rightarrow> n)), s')"
  using assms
proof (induction k arbitrary: j s)
  case (Suc k)
  have small: "DIRENT * n \<le> 71680" using is_dir_small [OF Suc.prems(2)] .
  then have "DIRENT * j \<le> 71680" using mult_le_mono2 [OF Suc.prems(3), of DIRENT] by linarith
  then have off: "unat (of_nat (DIRENT * j) :: u32) = DIRENT * j" by (intro unat_of_nat_eq) simp
  have sz: "unat (d_size (idata (itab s ! dp))) = DIRENT * n" using Suc.prems(2) by (simp add: is_dir_def)
  have more: "of_nat (DIRENT * j) < d_size (idata (itab s ! dp)) \<longleftrightarrow> j < n"
    unfolding word_less_nat_alt off sz by (simp add: DIRENT_16)
  show ?case
  proof (cases "j < n")
    case False
    then have "n = j" using Suc.prems(3) by simp
    then show ?thesis using Suc.prems(1) more by (intro exI [of _ s]) simp
  next
    case True
    obtain s1 where 1: "read_dirent dp (of_nat (DIRENT * j)) s = Ok (Some (dirent_at s dp j), s1)"
      "txn s1 L bl {}" "view s1 = view s" "fsame s s1"
      by (rule read_dirent_spec [OF Suc.prems(1,2) True])
    have upt: "[j..<n] = j # [Suc j..<n]" using True by (simp add: upt_conv_Cons)
    have step: "dirlink_slot (Suc k) (of_nat (DIRENT * j)) dp s =
      (if de_inum (dirent_at s dp j) = 0 then Ok (of_nat (DIRENT * j), s1)
       else dirlink_slot k (of_nat (DIRENT * Suc j)) dp s1)"
      using True more 1(1) by (simp add: add.commute)
    show ?thesis
    proof (cases "de_inum (dirent_at s dp j) = 0")
      case yes: True
      then show ?thesis unfolding step upt using 1(2-4) by (intro exI [of _ s1]) simp
    next
      case no: False
      have le: "Suc j \<le> n" "n - Suc j < k" using True Suc.prems(4) by simp_all
      have same: "is_dir s1 dp n" "dirent_at s1 dp = dirent_at s dp"
        using is_dir_same [OF 1(3), of dp] fsame_sel(2) [OF 1(4)] Suc.prems(2) by simp_all
      obtain s' where IH: "fsame s1 s'" "txn s' L bl {}" "view s' = view s1"
        "dirlink_slot k (of_nat (DIRENT * Suc j)) dp s1 =
          Ok (of_nat (DIRENT * (case find (\<lambda>i. de_inum (dirent_at s dp i) = 0) [Suc j..<n] of Some i \<Rightarrow> i | None \<Rightarrow> n)), s')"
        using Suc.IH [OF 1(2) same(1) le] unfolding same(2) by (elim exE conjE)
      show ?thesis
        unfolding step upt using no IH(2-4) 1(3) fsame_trans [OF 1(4) IH(1)]
        by (intro exI [of _ s']) simp
    qed
  qed
qed simp

subsection \<open>The entry\<close>

text \<open>Where the file has blocks, its bytes as a file to read and as a file to write agree.\<close>

lemma file_fdata:
  assumes "mapped s ip n" "i < n"
  shows "file_byte s ip i = fdata s ip i"
proof -
  have "i < MAXFILE * BSIZE" using assms by (simp add: mapped_def)
  then show ?thesis
    using block_less [of i] assms by (simp add: file_byte_def fdata_def owned_def mapped_def)
qed

lemma new_entry:
  assumes "0 < m" "m < 2 ^ 16"
  shows "length (dirent_bytes (ucast m) (name_field name)) = DIRENT" "names name (dirent_bytes (ucast m) (name_field name))"
    "ucast (de_inum (dirent_bytes (ucast m) (name_field name))) = (m :: u32)"
proof -
  let ?de = "dirent_bytes (ucast m) (name_field name)"
  have m: "unat m < 2 ^ 16" using assms(2) by (simp add: word_less_nat_alt)
  have n: "de_inum ?de = ucast m" "de_name ?de = name_field name"
    by (simp_all add: de_inum_def de_name_def get16_def dirent_bytes_def le16_def)
  show r: "ucast (de_inum ?de) = m"
    unfolding n using m by (simp add: word_unat_eq_iff unsigned_ucast_eq unsigned_take_bit_eq take_bit_nat_eq_self)
  then have "de_inum ?de \<noteq> 0" using assms(1) by auto
  then show "names name ?de" by (simp add: names_def n c_string_name_field)
  show "length ?de = DIRENT" by (simp add: dirent_bytes_def le16_def DIRENT_16 DIRSIZ_def)
qed

subsection \<open>Adding the entry\<close>

text \<open>What a write of the bytes \<open>de\<close> to entry \<open>k\<close> makes of the directory.\<close>

lemma put_entry:
  assumes t: "txn s L bl {}" "bitmap_ok s L" "inode_ok s dp L" and d: "is_dir s dp n" and k: "k \<le> n" "n < 4480"
    and r: "log_room s bl (log_cost s dp bl + 2)" and de: "length de = DIRENT"
  obtains j s' bl' where "writei dp (LocalSrc de) (of_nat (DIRENT * k)) (of_nat DIRENT) s = Ok (int j, s')" "j \<le> DIRENT"
    "j < DIRENT \<longrightarrow> (\<forall>b < unat (sb_size (sb s)). used s' b)" "txn s' L bl' {}"
    "\<exists>d. itab s' = (itab s)[dp := (itab s ! dp)\<lparr>idata := d\<rparr>]"
    "\<forall>i < n. i \<noteq> k \<longrightarrow> dirent_at s' dp i = dirent_at s dp i"
    "j = DIRENT \<longrightarrow> is_dir s' dp (max n (Suc k)) \<and> dirent_at s' dp k = de"
proof -
  let ?off = "of_nat (DIRENT * k) :: u32" and ?len = "of_nat DIRENT :: u32"
  have off: "unat ?off = 16 * k" using k by (intro trans [OF unat_of_nat_eq]) (simp_all add: DIRENT_16)
  have len: "unat ?len = 16" by (simp add: DIRENT_16)
  have cap: "MAXFILE * BSIZE = 71680" by (simp add: MAXFILE_def BSIZE_def NDIRECT_def NINDIRECT_def)
  have sz: "unat (d_size (idata (itab s ! dp))) = 16 * n" and mp: "mapped s dp (16 * n)"
    using d by (simp_all add: is_dir_def DIRENT_16)
  have "(16 * k + 16 - 1) div BSIZE = 16 * k div BSIZE" by (simp add: BSIZE_def)
  then have c: "chunks (unat ?off) (unat ?len) = 1" unfolding off len by (simp add: chunks_def)
  have room: "log_room s bl (log_cost s dp bl + chunks (unat ?off) (unat ?len) + 1)"
    unfolding c using r by (simp add: add.assoc)
  have rng: "unat ?off \<le> unat (d_size (idata (itab s ! dp)))" "unat ?off + unat ?len \<le> MAXFILE * BSIZE"
    unfolding off len sz cap using k by simp_all
  have h: "length de = unat ?len" "local_data (LocalSrc de) de s" unfolding len using de by (simp_all add: local_data_def DIRENT_16)
  obtain j s' bl' d' where 1: "writei dp (LocalSrc de) ?off ?len s = Ok (int j, s')" "j \<le> 16"
    "j < 16 \<longrightarrow> (\<forall>b < unat (sb_size (sb s)). used s' b)" "txn s' L bl' {}"
    "unat (d_size (idata (itab s' ! dp))) = max (16 * n) (16 * k + j)"
    "\<forall>i < 71680. fdata s' dp i = (if 16 * k \<le> i \<and> i < 16 * k + j then de ! (i - 16 * k) else fdata s dp i)"
    "\<forall>i. 16 * k \<le> i \<longrightarrow> i < 16 * k + j \<longrightarrow> owned s' dp (i div BSIZE) \<noteq> 0"
    "\<forall>k \<le> MAXFILE. owned s dp k \<noteq> 0 \<longrightarrow> owned s' dp k = owned s dp k" "idev (itab s' ! dp) = ROOTDEV"
    "itab s' = (itab s)[dp := (itab s ! dp)\<lparr>idata := d'\<rparr>]" "d_type d' = d_type (idata (itab s ! dp))"
    using local_feed.writei_spec [OF t room rng h] unfolding off len sz cap by (elim exE conjE)
  have fb: "file_block s' dp (i div BSIZE) = owned s' dp (i div BSIZE)" "file_block s dp (i div BSIZE) = owned s dp (i div BSIZE)"
    "i div BSIZE \<le> MAXFILE" if "i < 71680" for i
    using block_less [of i] that by (simp_all add: owned_def cap)
  have old: "mapped s' dp (16 * n)"
    unfolding mapped_def cap
  proof (intro conjI allI impI)
    show "16 * n \<le> 71680" using k by simp
    fix i assume "i < 16 * n"
    then have i: "i < 71680" "file_block s dp (i div BSIZE) \<noteq> 0" using mp by (simp_all add: mapped_def cap)
    show "file_block s' dp (i div BSIZE) \<noteq> 0" using 1(8) fb [OF i(1)] i(2) by metis
  qed
  have ents: "\<forall>i < n. i \<noteq> k \<longrightarrow> dirent_at s' dp i = dirent_at s dp i"
  proof (intro allI impI)
    fix i assume i: "i < n" "i \<noteq> k"
    have "file_byte s' dp (16 * i + x) = file_byte s dp (16 * i + x)" if x: "x < 16" for x
    proof -
      have lt: "16 * i + x < 16 * n" "16 * i + x < 71680" "\<not> (16 * k \<le> 16 * i + x \<and> 16 * i + x < 16 * k + j)"
        using i x k 1(2) by (auto simp: not_less_eq_eq)
      show ?thesis unfolding file_fdata [OF old lt(1)] file_fdata [OF mp lt(1)]
        using 1(6) [rule_format, OF lt(2)] unfolding if_not_P [OF lt(3)] .
    qed
    then show "dirent_at s' dp i = dirent_at s dp i"
      by (intro nth_equalityI) (simp_all add: dirent_at_def file_bytes_def DIRENT_16)
  qed
  have new: "is_dir s' dp (max n (Suc k)) \<and> dirent_at s' dp k = de" if j: "j = DIRENT"
  proof
    have m: "max (16 * n) (16 * k + j) = 16 * max n (Suc k)" unfolding j DIRENT_16 by (simp add: max_def)
    have mp': "mapped s' dp (16 * max n (Suc k))"
      unfolding mapped_def cap
    proof (intro conjI allI impI)
      show "16 * max n (Suc k) \<le> 71680" using k by simp
      fix i assume i: "i < 16 * max n (Suc k)"
      show "file_block s' dp (i div BSIZE) \<noteq> 0"
      proof (cases "i < 16 * n")
        case True
        then show ?thesis using old by (simp add: mapped_def)
      next
        case False
        then have "16 * k \<le> i" "i < 16 * k + j" "i < 71680" using i k j by (auto simp: DIRENT_16 max_def split: if_splits)
        then show ?thesis using 1(7) fb(1) [of i] by simp
      qed
    qed
    have ty: "d_type (idata (itab s' ! dp)) = T_DIR"
      using 1(10,11) d inode_okD(1) [OF t(3)] by (simp add: is_dir_def)
    show "is_dir s' dp (max n (Suc k))" using 1(5,9) mp' ty unfolding m is_dir_def DIRENT_16 by simp
    have "file_byte s' dp (16 * k + x) = de ! x" if x: "x < 16" for x
    proof -
      have lt: "16 * k + x < 16 * max n (Suc k)" "16 * k + x < 71680" using x k by (auto simp: max_def)
      show ?thesis unfolding file_fdata [OF mp' lt(1)] using 1(6) lt(2) x j by (simp add: DIRENT_16)
    qed
    then show "dirent_at s' dp k = de"
      using de by (intro nth_equalityI) (simp_all add: dirent_at_def file_bytes_def DIRENT_16)
  qed
  show ?thesis
    by (rule that [OF 1(1) _ _ 1(4) _ ents]) (use 1(2,3,10) new in \<open>auto simp: DIRENT_16\<close>)
qed

lemma iget_fresh:
  assumes "iget dev n s = Ok (ip, t)" "\<not> in_use dev n (itab s ! ip)"
  shows "iref (itab s ! ip) = 0" "\<not> ivalid (itab t ! ip)"
proof -
  have "find (\<lambda>j. in_use dev n (itab s ! j)) [0..<length (itab s)] = None"
    using assms by (cases "find (\<lambda>j. in_use dev n (itab s ! j)) [0..<length (itab s)]") (auto simp: iget_spec dest!: find_upt_Some)
  then obtain j where j: "find (\<lambda>j. iref (itab s ! j) = 0) [0..<length (itab s)] = Some j"
    "ip = j" "t = upd_inode j (\<lambda>i. i\<lparr>idev := dev, inum := n, iref := 1, ivalid := False\<rparr>) s"
    using assms(1) by (auto simp: iget_spec split: option.splits)
  then show "iref (itab s ! ip) = 0" "\<not> ivalid (itab t ! ip)"
    using find_upt_Some [OF j(1)] by (simp_all add: upd_inode_def)
qed

lemma idata_update_sel:
  fixes xs :: "inode list"
  shows "iref (xs[i := (xs ! i)\<lparr>idata := d\<rparr>] ! j) = iref (xs ! j)" "idev (xs[i := (xs ! i)\<lparr>idata := d\<rparr>] ! j) = idev (xs ! j)"
    "inum (xs[i := (xs ! i)\<lparr>idata := d\<rparr>] ! j) = inum (xs ! j)"
  by (cases "i < length xs"; simp add: nth_list_update list_update_beyond)+

text \<open>A reference just taken is given back: every count is as it was.\<close>

lemma iget_iput:
  assumes ok: "itab_ok (itab s)" and g: "iget dev n s = Ok (ip, t)"
  obtains s' where "iput ip t = Ok s'" "view s' = view s" "map iref (itab s') = map iref (itab s)"
proof -
  note q = iget_itab_ok [OF ok g]
  have len: "length (itab t) = length (itab s)" using g by (auto simp: iget_spec upd_inode_def split: option.splits)
  have "\<not> (iref (itab t ! ip) = 1 \<and> ivalid (itab t ! ip) \<and> d_nlink (idata (itab t ! ip)) = 0)"
  proof (cases "in_use dev n (itab s ! ip)")
    case True
    then show ?thesis using q by (simp add: in_use_def)
  next
    case False
    then show ?thesis using iget_fresh(2) [OF g] by simp
  qed
  then have p: "iput ip t = Ok (upd_inode ip (\<lambda>i. i\<lparr>iref := iref i - 1\<rparr>) t)" by (auto simp: iput_def Let_def)
  have v: "view (upd_inode ip (\<lambda>i. i\<lparr>iref := iref i - 1\<rparr>) t) = view s"
    unfolding iget_view [OF g, symmetric] by (rule view_cong) (simp_all add: upd_inode_def)
  have "iref (itab t ! ip) - 1 = iref (itab s ! ip)"
  proof (cases "in_use dev n (itab s ! ip)")
    case True
    then show ?thesis using q by simp
  next
    case False
    then have "iref (itab s ! ip) = 0" by (rule iget_fresh(1) [OF g])
    then show ?thesis using q False by simp
  qed
  then have "map iref (itab (upd_inode ip (\<lambda>i. i\<lparr>iref := iref i - 1\<rparr>) t)) = map iref (itab s)"
    using q len by (intro nth_equalityI) (auto simp: upd_inode_def nth_list_update)
  then show ?thesis using that p v by blast
qed

lemma lookup_entry:
  assumes "txn s L bl {}" "is_dir s dp n" "k < n" "names name (dirent_at s dp k)" "\<And>i. i < k \<Longrightarrow> \<not> names name (dirent_at s dp i)"
    and m: "ucast (de_inum (dirent_at s dp k)) = m"
    and q: "itab_ok (itab s)" "q < length (itab s)" "iref (itab s ! q) = 0"
  shows "\<exists>ip t. dirlookup dp name s = Ok (Some (ip, of_nat (DIRENT * k)), t) \<and> in_use ROOTDEV m (itab t ! ip)"
proof -
  let ?P = "\<lambda>i. names name (dirent_at s dp i)"
  obtain j where j: "find ?P [0..<n] = Some j" using assms(3,4) find_upt_None [of ?P n] by fastforce
  note fj = find_upt_Some [OF j]
  have "j = k" using fj assms(4,5) by (metis linorder_neqE_nat)
  moreover obtain s1 where s1: "fsame s s1"
    "dirlookup dp name s =
      (case find ?P [0..<n] of
         None \<Rightarrow> Ok (None, s1)
       | Some i \<Rightarrow> seq (iget ROOTDEV (ucast (de_inum (dirent_at s dp i))) s1) (\<lambda>(ip, t).
           Ok (Some (ip, of_nat (DIRENT * i)), t)))"
    using dirlookup_spec [OF assms(1,2), of name] by (elim exE conjE)
  moreover have it: "itab s1 = itab s" by (rule fsame_sel(2) [OF s1(1)])
  moreover obtain ip t where g: "iget ROOTDEV m s1 = Ok (ip, t)"
    using iget_with_free_slot [of q s1] q(2,3) it by metis
  moreover have "in_use ROOTDEV m (itab t ! ip)" using iget_itab_ok [OF _ g] q(1) it by simp
  ultimately show ?thesis using j m by simp
qed

text \<open>
  C8: \<open>dirlink\<close>, in a transaction with room for its blocks. If the directory has an entry of the name
  it returns -1, writes nothing and drops the reference its lookup took. Otherwise it returns 0 with
  the name and inode number in the first free entry, or in a new one at the end, and no other entry
  changed, and a lookup of the name then returns that inode and the entry's offset; or it returns -1
  because no block of the disk is free.
\<close>

theorem dirlink_adds_entry:
  assumes "txn s L bl {}" "bitmap_ok s L" "inode_ok s dp L" "is_dir s dp n" "n < 4480"
    and "log_room s bl (log_cost s dp bl + 2)" "0 < m" "m < 2 ^ 16"
    and "itab_ok (itab s)" "q < length (itab s)" "iref (itab s ! q) = 0"
  shows "if \<exists>i < n. names name (dirent_at s dp i)
    then \<exists>s'. dirlink dp name m s = Ok (-1, s') \<and> view s' = view s \<and> map iref (itab s') = map iref (itab s)
    else \<exists>r s'. dirlink dp name m s = Ok (r, s') \<and>
      (\<forall>i < n. i \<noteq> free_slot s dp n \<longrightarrow> dirent_at s' dp i = dirent_at s dp i) \<and>
      (r = -1 \<and> (\<forall>b < unat (sb_size (sb s)). used s' b) \<or>
       r = 0 \<and> is_dir s' dp (max n (Suc (free_slot s dp n))) \<and>
       dirent_at s' dp (free_slot s dp n) = dirent_bytes (ucast m) (name_field name) \<and>
       (\<exists>ip t. dirlookup dp name s' = Ok (Some (ip, of_nat (DIRENT * free_slot s dp n)), t) \<and>
          in_use ROOTDEV m (itab t ! ip)))"
proof -
  let ?P = "\<lambda>i. names name (dirent_at s dp i)" and ?k = "free_slot s dp n"
  obtain s1 where s1: "fsame s s1" "txn s1 L bl {}" "view s1 = view s"
    "dirlookup dp name s =
      (case find ?P [0..<n] of
         None \<Rightarrow> Ok (None, s1)
       | Some i \<Rightarrow> seq (iget ROOTDEV (ucast (de_inum (dirent_at s dp i))) s1) (\<lambda>(ip, t).
           Ok (Some (ip, of_nat (DIRENT * i)), t)))"
    using dirlookup_spec [OF assms(1,4), of name] by (elim exE conjE)
  have it: "itab s1 = itab s" by (rule fsame_sel(2) [OF s1(1)])
  show ?thesis
  proof (cases "\<exists>i < n. ?P i")
    case True
    then obtain i where i: "find ?P [0..<n] = Some i" using find_upt_None [of ?P n] by fastforce
    obtain ip t where g: "iget ROOTDEV (ucast (de_inum (dirent_at s dp i))) s1 = Ok (ip, t)"
      using iget_with_free_slot [of q s1] assms(10,11) it by metis
    have ok: "itab_ok (itab s1)" using assms(9) it by simp
    obtain s' where "iput ip t = Ok s'" "view s' = view s1" "map iref (itab s') = map iref (itab s1)"
      using iget_iput [OF ok g] .
    then have "dirlink dp name m s = Ok (-1, s') \<and> view s' = view s \<and> map iref (itab s') = map iref (itab s)"
      using s1(3,4) i g it by (simp add: dirlink_def)
    then show ?thesis unfolding if_P [OF True] by blast
  next
    case False
    then have no: "find ?P [0..<n] = None" unfolding find_upt_None by blast
    have d1: "is_dir s1 dp n" "dirent_at s1 dp = dirent_at s dp"
      using is_dir_same [OF s1(3), of dp] it assms(4) by simp_all
    have "n - 0 < dir_rounds dp s1" using d1(1) by (simp add: dir_rounds_def is_dir_def DIRENT_16)
    then obtain s2 where s2: "fsame s1 s2" "txn s2 L bl {}" "view s2 = view s1"
      "dirlink_slot (dir_rounds dp s1) 0 dp s1 = Ok (of_nat (DIRENT * ?k), s2)"
      using dirlink_slot_spec [OF s1(2) d1(1), of 0 "dir_rounds dp s1"] unfolding d1(2) free_slot_def by auto
    have fs: "fsame s s2" "view s2 = view s" using fsame_trans [OF s1(1) s2(1)] s1(3) s2(3) by simp_all
    have it2: "itab s2 = itab s" by (rule fsame_sel(2) [OF fs(1)])
    note E = extendsD [OF extends_same(1) [OF fs s2(2) assms(2,3)]]
    have d2: "is_dir s2 dp n" "dirent_at s2 dp = dirent_at s dp"
      using is_dir_same [OF fs(2), of dp] it2 assms(4) by simp_all
    have r2: "log_room s2 bl (log_cost s2 dp bl + 2)"
      using assms(6) by (simp add: log_room_same [OF fs(1)] log_cost_def iaddr_def it2 fsame_sel [OF fs(1)])
    note de = new_entry [OF assms(7,8), of name]
    obtain j s3 bl3 where 3: "writei dp (LocalSrc (dirent_bytes (ucast m) (name_field name))) (of_nat (DIRENT * ?k)) (of_nat DIRENT) s2 = Ok (int j, s3)"
      "j \<le> DIRENT" "j < DIRENT \<longrightarrow> (\<forall>b < unat (sb_size (sb s2)). used s3 b)" "txn s3 L bl3 {}"
      "\<exists>d. itab s3 = (itab s2)[dp := (itab s2 ! dp)\<lparr>idata := d\<rparr>]"
      "\<forall>i < n. i \<noteq> ?k \<longrightarrow> dirent_at s3 dp i = dirent_at s2 dp i"
      "j = DIRENT \<longrightarrow> is_dir s3 dp (max n (Suc ?k)) \<and> dirent_at s3 dp ?k = dirent_bytes (ucast m) (name_field name)"
      by (rule put_entry [OF s2(2) E(2,3) d2(1) free_slot_le assms(5) r2 de(1)])
    have call: "dirlink dp name m s = Ok (if j = DIRENT then 0 else -1, s3)"
      using s1(4) no s2(4) 3(1) by (simp add: dirlink_def Let_def)
    have look: "\<exists>ip t. dirlookup dp name s3 = Ok (Some (ip, of_nat (DIRENT * ?k)), t) \<and> in_use ROOTDEV m (itab t ! ip)"
      if "j = DIRENT"
    proof (rule lookup_entry [OF 3(4)])
      show "is_dir s3 dp (max n (Suc ?k))" using 3(7) that by blast
      show "names name (dirent_at s3 dp ?k)" "ucast (de_inum (dirent_at s3 dp ?k)) = m" using 3(7) de that by simp_all
      show "\<not> names name (dirent_at s3 dp i)" if "i < ?k" for i
        using that 3(6) d2(2) False free_slot_le [of s dp n] by auto
      show "itab_ok (itab s3)" "q < length (itab s3)" "iref (itab s3 ! q) = 0"
        using 3(5) it2 assms(9-11) by (auto simp: itab_ok_def idata_update_sel)
    qed simp
    show ?thesis
      unfolding if_not_P [OF False]
      using call 3(2,3,6,7) d2(2) look fsame_sel(1) [OF fs(1)] by (cases "j = DIRENT") auto
  qed
qed

subsection \<open>The concrete file system\<close>

lemma demo_names:
  "\<not> names [97] (dirent_at demo_fsu 0 0)" "\<not> names [97] (dirent_at demo_fsu 0 1)" "names [46] (dirent_at demo_fsu 0 0)"
  "free_slot demo_fsu 0 2 = 2"
proof -
  have one: "of_le16 1 0 = 1" by (simp add: of_le16_def)
  have two: "[0..<2] = [0, 1 :: nat]" by (simp add: upt_rec)
  have r: "replicate 13 0 = (0 :: u8) # replicate 12 0" by (simp add: numeral_eq_Suc)
  note e = demo_dirents names_def de_inum_def de_name_def dirent_bytes_def le16_def get16_def
  show "\<not> names [97] (dirent_at demo_fsu 0 0)" "\<not> names [97] (dirent_at demo_fsu 0 1)" "names [46] (dirent_at demo_fsu 0 0)"
    unfolding e by (simp_all add: one name_field_def DIRSIZ_def r)
  have nz: "de_inum (dirent_at demo_fsu 0 0) \<noteq> 0" "de_inum (dirent_at demo_fsu 0 1) \<noteq> 0" unfolding e by (simp_all add: one)
  show "free_slot demo_fsu 0 2 = 2" unfolding free_slot_def two using nz by simp
qed

lemma dirlink_adds_entry_witness:
  "(\<exists>s'. dirlink 0 [46] 2 demo_fsu = Ok (-1, s') \<and> view s' = demo_disk) \<and>
   (\<exists>r s'. dirlink 0 [97] 2 demo_fsu = Ok (r, s') \<and> dirent_at s' 0 0 = dirent_at demo_fsu 0 0 \<and>
      (r = -1 \<or> (\<exists>ip t. dirlookup 0 [97] s' = Ok (Some (ip, 32), t) \<and> inum (itab t ! ip) = 2)))"
proof -
  have room: "log_room demo_fsu [] (log_cost demo_fsu 0 [] + 2)"
    unfolding demo_log_cost by (rule log_room_less [OF demo_fsu_ok(2)]) simp
  have it: "itab_ok (itab demo_fsu)" "1 < length (itab demo_fsu)" "iref (itab demo_fsu ! 1) = 0"
    using demo_itab_ok by (simp_all add: demo_fsu_ok(8)) (simp_all add: demo_fs_def NINODE_def demo_slot_def)
  have n: "(2 :: nat) < 4480" "0 < (2 :: u32)" "(2 :: u32) < 2 ^ 16" by simp_all
  note link = dirlink_adds_entry [OF demo_fsu_ok(1) demo_bitmap(1) demo_inode_ok demo_dirents(1) n(1) room n(2,3) it]
  have yes: "\<exists>i < 2. names [46] (dirent_at demo_fsu 0 i)" using demo_names(3) by (intro exI [of _ 0]) simp
  have no: "\<not> (\<exists>i < 2. names [97] (dirent_at demo_fsu 0 i))" using demo_names(1,2) by (metis One_nat_def less_2_cases)
  show ?thesis
    using link [of "[46]", unfolded if_P [OF yes]] link [of "[97]", unfolded if_not_P [OF no]]
    by (auto simp: demo_names(4) demo_fsu_ok(3) in_use_def DIRENT_16)
qed

end
