(* ===== verification/Proc_Fork.thy ===== *)
theory Proc_Fork
  imports Proc_Alloc Log_Props
begin

text \<open>
  \<open>fork\<close>: the child's files, trap frame and memory, and what becomes of them when memory runs out.
\<close>

subsection \<open>The child's files\<close>

definition dup_ofile :: "nat option list \<Rightarrow> nat list \<Rightarrow> nat option list \<Rightarrow> nat option list" where
  "dup_ofile po fds xs = fold (\<lambda>fd xs. case po ! fd of None \<Rightarrow> xs | Some f \<Rightarrow> xs[fd := Some f]) fds xs"

definition dup_refs :: "nat option list \<Rightarrow> nat list \<Rightarrow> kfile list \<Rightarrow> kfile list" where
  "dup_refs po fds ft = fold (\<lambda>fd ft. case po ! fd of None \<Rightarrow> ft | Some f \<Rightarrow> ft[f := (ft ! f)\<lparr>fref := fref (ft ! f) + 1\<rparr>]) fds ft"

lemma dup_files_spec:
  assumes "i \<noteq> c" "c < length (procs (sch s))" "po = ofile (procs (sch s) ! i)"
    "\<And>fd f. fd \<in> set fds \<Longrightarrow> po ! fd = Some f \<Longrightarrow> f < length (ftab s) \<and> 1 \<le> fref (ftab s ! f)"
  shows "dup_files i c fds s =
    Ok (upd_my c (\<lambda>p. p\<lparr>ofile := dup_ofile po fds (ofile p)\<rparr>) (s\<lparr>ftab := dup_refs po fds (ftab s)\<rparr>))"
  using assms
proof (induction fds arbitrary: s)
  case Nil
  then show ?case by (simp add: dup_ofile_def dup_refs_def upd_my_def set_procs_def)
next
  case (Cons fd fds)
  show ?case
  proof (cases "po ! fd")
    case None
    then have "dup_files i c (fd # fds) s = dup_files i c fds s" using Cons.prems(3) by simp
    then show ?thesis
      using Cons.IH [OF Cons.prems(1-3) Cons.prems(4) [OF list.set_intros(2)]] None by (simp add: dup_ofile_def dup_refs_def)
  next
    case (Some f)
    have f: "f < length (ftab s)" "1 \<le> fref (ftab s ! f)" using Cons.prems(4) [of fd f] Some by simp_all
    let ?s = "upd_my c (\<lambda>p. p\<lparr>ofile := (ofile p)[fd := Some f]\<rparr>) (upd_file f (\<lambda>x. x\<lparr>fref := fref x + 1\<rparr>) s)"
    have step: "dup_files i c (fd # fds) s = dup_files i c fds ?s" using Cons.prems(3) Some f by (simp add: filedup_def)
    have ft: "ftab ?s = (ftab s)[f := (ftab s ! f)\<lparr>fref := fref (ftab s ! f) + 1\<rparr>]" by (simp add: upd_file_def)
    have pr: "procs (sch ?s) = (procs (sch s))[c := (procs (sch s) ! c)\<lparr>ofile := (ofile (procs (sch s) ! c))[fd := Some f]\<rparr>]"
      by (simp add: upd_file_def)
    have "dup_files i c fds ?s = Ok (upd_my c (\<lambda>p. p\<lparr>ofile := dup_ofile po fds (ofile p)\<rparr>) (?s\<lparr>ftab := dup_refs po fds (ftab ?s)\<rparr>))"
    proof (rule Cons.IH [OF Cons.prems(1)])
      show "c < length (procs (sch ?s))" "po = ofile (procs (sch ?s) ! i)" using Cons.prems(1-3) unfolding pr by simp_all
      show "g < length (ftab ?s) \<and> 1 \<le> fref (ftab ?s ! g)" if "fd' \<in> set fds" "po ! fd' = Some g" for fd' g
        using Cons.prems(4) [of fd' g] that f unfolding ft by (auto simp: nth_list_update)
    qed
    then show ?thesis
      unfolding step using Some Cons.prems(2) unfolding ft
      by (simp add: dup_ofile_def dup_refs_def upd_my_def set_procs_def upd_file_def)
  qed
qed

lemma dup_ofile_nth:
  assumes "length po = length xs" "\<forall>fd \<in> set fds. fd < length xs"
  shows "length (dup_ofile po fds xs) = length xs \<and>
    (\<forall>fd < length xs. dup_ofile po fds xs ! fd = (if fd \<in> set fds \<and> po ! fd \<noteq> None then po ! fd else xs ! fd))"
  using assms
proof (induction fds arbitrary: xs)
  case (Cons fd fds)
  let ?ys = "case po ! fd of None \<Rightarrow> xs | Some f \<Rightarrow> xs[fd := Some f]"
  have "length ?ys = length xs" by (simp split: option.split)
  moreover have "dup_ofile po (fd # fds) xs = dup_ofile po fds ?ys" by (simp add: dup_ofile_def)
  ultimately show ?case using Cons.IH [of ?ys] Cons.prems by (auto simp: nth_list_update split: option.splits)
qed (simp add: dup_ofile_def)

lemma dup_ofile_all: "length po = n \<Longrightarrow> dup_ofile po [0..<n] (replicate n None) = po"
  using dup_ofile_nth [of po "replicate n None" "[0..<n]"] by (intro nth_equalityI) auto

text \<open>How many descriptors of a process are the open file \<open>f\<close>.\<close>

definition fd_count :: "nat option list \<Rightarrow> nat \<Rightarrow> int" where
  "fd_count po f = int (length (filter (\<lambda>x. x = Some f) po))"

lemma dup_refs_nth:
  "length (dup_refs po fds ft) = length ft \<and>
   (\<forall>f < length ft. dup_refs po fds ft ! f = (ft ! f)\<lparr>fref := fref (ft ! f) + fd_count (map ((!) po) fds) f\<rparr>)"
proof (induction fds arbitrary: ft)
  case (Cons fd fds)
  let ?gt = "case po ! fd of None \<Rightarrow> ft | Some f \<Rightarrow> ft[f := (ft ! f)\<lparr>fref := fref (ft ! f) + 1\<rparr>]"
  have "length ?gt = length ft" by (simp split: option.split)
  moreover have "dup_refs po (fd # fds) ft = dup_refs po fds ?gt" by (simp add: dup_refs_def)
  moreover have "fd_count (map ((!) po) (fd # fds)) f = (if po ! fd = Some f then 1 else 0) + fd_count (map ((!) po) fds) f" for f
    by (simp add: fd_count_def)
  ultimately show ?case using Cons.IH [of ?gt] by (auto simp: nth_list_update add.commute split: option.splits)
qed (simp add: dup_refs_def fd_count_def)

subsection \<open>Spaces and trap frames across memory changes\<close>

lemma space_inv_keep:
  assumes S: "space_inv s pt ps (4096 * N)" and N: "N \<le> 2 ^ 20" and k: "kinv s' ps'" "kend s' = kend s"
    and d: "set ps' \<inter> foot (pmem s) pt N = {}" and m: "same_on (foot (pmem s) pt N) (pmem s) (pmem s')"
  shows "space_inv s' pt ps' (4096 * N)" "user_byte (pmem s') pt = user_byte (pmem s) pt" "pmap (pmem s') pt = pmap (pmem s) pt"
    "foot (pmem s') pt N = foot (pmem s) pt N"
proof -
  have A: "aspace s pt ps N" and U: "\<forall>va e. user_entry (pmem s) pt va = Some e \<longrightarrow> unat va < 4096 * N"
    using S by (simp_all add: space_inv_aspace [OF N])
  have mp: "same_on (pt_pages (pmem s) pt) (pmem s) (pmem s')" and mf: "same_on (frames (pmem s) pt 0 N) (pmem s) (pmem s')"
    using m by (auto intro: same_on_mono simp: foot_def)
  note t = tree_same [OF aspaceD(3) [OF A] mp]
  show p: "pmap (pmem s') pt = pmap (pmem s) pt" "foot (pmem s') pt N = foot (pmem s) pt N" by (rule t)+
  have "user_entry (pmem s') pt = user_entry (pmem s) pt" by (simp add: fun_eq_iff user_entry_pmap p)
  then show "space_inv s' pt ps' (4096 * N)"
    using aspace_frame [OF A k d mp] U by (simp add: space_inv_aspace [OF N])
  show "user_byte (pmem s') pt = user_byte (pmem s) pt"
    by (rule user_byte_same [OF p(1) mf user_entry_below [OF S]])
qed

lemma kinv_same_off:
  assumes k: "kinv s ps" and o: "same_off {q} (pmem s) m" and q: "q \<notin> set ps" "page_aligned q"
  shows "kinv (s\<lparr>pmem := m\<rparr>) ps"
proof -
  have "free_chain m (freelist s) ps = free_chain (pmem s) (freelist s) ps"
    by (rule free_chain_other_page [of q]) (use k o q in \<open>auto simp: same_off_def kinv_def page_ok_def\<close>)
  then show ?thesis using k by (simp add: kinv_def page_ok_def)
qed

text \<open>The child's trap frame: the parent's words, and 0 in \<open>a0\<close>.\<close>

definition child_frame :: "mem \<Rightarrow> u32 \<Rightarrow> u32 \<Rightarrow> mem" where
  "child_frame m tf src = store32 (memmove m tf src TF_SIZE) (tf + 4 * of_nat TF_a0) 0"

lemma child_frame_spec:
  assumes t: "page_aligned tf" "page_aligned src" "tf \<noteq> src" "unat tf + 4096 \<le> 2 ^ 32" "unat src + 4096 \<le> 2 ^ 32"
  shows "same_off {tf} m (child_frame m tf src)"
    "j < 36 \<Longrightarrow> load32 (child_frame m tf src) (slot tf j) = (if j = TF_a0 then 0 else load32 m (slot src j))"
proof -
  have sz: "unat TF_SIZE = 144" by (simp add: TF_SIZE_def)
  have w: "no_wrap tf TF_SIZE" "no_wrap src TF_SIZE" using t(4,5) by (simp_all add: no_wrap_def sz)
  let ?m = "memmove m tf src TF_SIZE"
  have mm: "?m = fill m tf 144 (\<lambda>i. m (src + of_nat i))" using memmove_fill [OF w] by (simp add: sz)
  have a0: "tf + 4 * of_nat TF_a0 = slot tf TF_a0" "TF_a0 < 1024" by (simp_all add: slot_def TF_a0_def)
  have st: "store32 ?m (slot tf TF_a0) 0 x = ?m x" if "\<not> in_page tf x" for x
    using slot_bytes_in_page [OF a0(2)] that not_less by (metis store32_other)
  have "?m x = m x" if "\<not> in_page tf x" for x
    using that unfolding mm in_page_def by (intro fill_out) simp
  then show "same_off {tf} m (child_frame m tf src)" using st by (simp add: same_off_def child_frame_def a0)
  assume j: "j < 36"
  have byte: "?m (slot tf j + of_nat k) = m (slot src j + of_nat k)" if "k < 4" for k
  proof -
    have e: "slot tf j + of_nat k - tf = of_nat (4 * j + k)" by (simp add: slot_def)
    have u: "unat (of_nat (4 * j + k) :: u32) = 4 * j + k" using j that by (intro unat_of_nat_eq) simp
    have "?m (slot tf j + of_nat k) = m (src + of_nat (unat (slot tf j + of_nat k - tf)))"
      unfolding mm by (rule fill_in, unfold e u, use j that in simp)
    then have "?m (slot tf j + of_nat k) = m (src + of_nat (4 * j + k))" unfolding e u .
    then show ?thesis by (simp add: slot_def add.assoc)
  qed
  have "load32 ?m (slot tf j) = load32 m (slot src j)"
    using byte [of 0] byte [of 1] byte [of 2] byte [of 3] by (simp add: load32_def)
  moreover have "slot tf TF_a0 = slot tf j \<longleftrightarrow> j = TF_a0" using slot_inj [OF a0(2), of j tf] j by auto
  ultimately show "load32 (child_frame m tf src) (slot tf j) = (if j = TF_a0 then 0 else load32 m (slot src j))"
    unfolding child_frame_def a0(1) using j t(1) a0(2) by (simp add: load32_store32_aligned aligned4_slot)
qed

subsection \<open>fork\<close>

definition forked_child :: "ksyms \<Rightarrow> int \<Rightarrow> u32 \<Rightarrow> u32 \<Rightarrow> nat \<Rightarrow> nat \<Rightarrow> proc \<Rightarrow> proc \<Rightarrow> proc" where
  "forked_child K n tf pt i dir p q = (new_proc K n tf pt q)
     \<lparr>sz := sz p, ofile := dup_ofile (ofile p) [0..<NOFILE] (ofile q), cwd := Some dir,
      pname := safestrcpy_bytes (pname q) (pname p), parent := Some i, state := RUNNABLE\<rparr>"

definition fork_result :: "ksyms \<Rightarrow> u32 \<Rightarrow> u32 \<Rightarrow> phys \<Rightarrow> nat \<Rightarrow> nat \<Rightarrow> nat \<Rightarrow> kst \<Rightarrow> kst" where
  "fork_result K tf pt m i c dir s =
     (let p = procs (sch s) ! i
      in upd_my c (forked_child K (nextpid (sch s)) tf pt i dir p)
           (upd_ph (m\<lparr>pmem := child_frame (pmem m) tf (trapframe p)\<rparr>)
             (snd (idup dir ((next_pid s)\<lparr>ftab := dup_refs (ofile p) [0..<NOFILE] (ftab s)\<rparr>)))))"

lemma fork_made:
  assumes me: "me s = Ok i" "i \<noteq> c" "c < length (procs (sch s))" and dir: "cwd (procs (sch s) ! i) = Some dir"
    and al: "allocproc K s = Ok (Some c, upd_my c (new_proc K (nextpid (sch s)) tf pt) (upd_ph m (next_pid s)))"
    and cp: "uvmcopy (pagetable (procs (sch s) ! i)) pt (sz (procs (sch s) ! i)) m = Ok (0, m2)"
    and files: "\<And>fd f. fd < NOFILE \<Longrightarrow> ofile (procs (sch s) ! i) ! fd = Some f \<Longrightarrow> f < length (ftab s) \<and> 1 \<le> fref (ftab s ! f)"
  shows "fork K s = Ok (nextpid (sch s), fork_result K tf pt m2 i c dir s)"
proof -
  let ?p = "procs (sch s) ! i"
  let ?q = "\<lambda>q. (new_proc K (nextpid (sch s)) tf pt q)\<lparr>sz := sz ?p\<rparr>"
  let ?s = "upd_my c ?q (upd_ph (m2\<lparr>pmem := child_frame (pmem m2) tf (trapframe ?p)\<rparr>) (next_pid s))"
  have n: "trapframe (new_proc K n tf pt q) = tf" "pagetable (new_proc K n tf pt q) = pt" "pid (new_proc K n tf pt q) = n" for n q
    by (simp_all add: new_proc_def)
  have pi: "procs (sch ?s) ! i = ?p" using me(2) by simp
  have "dup_files i c [0..<NOFILE] ?s = Ok (upd_my c (\<lambda>p. p\<lparr>ofile := dup_ofile (ofile ?p) [0..<NOFILE] (ofile p)\<rparr>)
      (?s\<lparr>ftab := dup_refs (ofile ?p) [0..<NOFILE] (ftab ?s)\<rparr>))"
    by (rule dup_files_spec) (use me(2,3) files pi in simp_all)
  then have d: "dup_files i c [0..<NOFILE] ?s = Ok (upd_my c (\<lambda>q. (?q q)\<lparr>ofile := dup_ofile (ofile ?p) [0..<NOFILE] (ofile q)\<rparr>)
      (upd_ph (m2\<lparr>pmem := child_frame (pmem m2) tf (trapframe ?p)\<rparr>)
        ((next_pid s)\<lparr>ftab := dup_refs (ofile ?p) [0..<NOFILE] (ftab s)\<rparr>)))" (is "_ = Ok ?t")
    using me(3) by (simp add: upd_my_def set_procs_def upd_ph_def new_proc_def)
  have "fork K s = seq (dup_files i c [0..<NOFILE] ?s) (\<lambda>s.
      case idup dir s of (ip, s) \<Rightarrow>
        let s = upd_my c (\<lambda>q. q\<lparr>cwd := Some ip, pname := safestrcpy_bytes (pname q) (pname ?p)\<rparr>) s
        in Ok (pid (procs (sch s) ! c), upd_my c (\<lambda>q. q\<lparr>parent := Some i, state := RUNNABLE\<rparr>) s))"
    unfolding fork_def me(1) seq.simps al prod.case option.case
    using me(2,3) dir cp
    by (simp add: upd_my_upd_ph upd_my_upd_my Let_def tf_set_def child_frame_def n)
  then show ?thesis
    unfolding d using me(3)
    by (simp add: fork_result_def forked_child_def [abs_def] idup_def upd_inode_def Let_def new_proc_def
        upd_my_def set_procs_def upd_ph_def)
qed

text \<open>
  The table \<open>fork\<close> leaves is the one its three critical sections leave (theory Proc_Sched), with
  the locks taken and given back.
\<close>

lemma inherit_dup:
  assumes "length (ofile p) = NOFILE" "length (ofile q) = NOFILE"
  shows "map (\<lambda>fd. if ofile p ! fd \<noteq> None then ofile p ! fd else ofile q ! fd) [0..<NOFILE] =
    dup_ofile (ofile p) [0..<NOFILE] (ofile q)"
proof -
  have "length (dup_ofile po fds xs) = length xs \<and>
      (\<forall>k < length xs. dup_ofile po fds xs ! k = (if k \<in> set fds \<and> po ! k \<noteq> None then po ! k else xs ! k))" for po fds xs
  proof (induction fds arbitrary: xs)
    case (Cons fd fds)
    have "dup_ofile po (fd # fds) xs = dup_ofile po fds (case po ! fd of None \<Rightarrow> xs | Some f \<Rightarrow> xs[fd := Some f])"
      by (simp add: dup_ofile_def)
    then show ?case
      using Cons.IH [of "case po ! fd of None \<Rightarrow> xs | Some f \<Rightarrow> xs[fd := Some f]"]
      by (auto simp: nth_upd split: option.splits if_splits)
  qed (simp add: dup_ofile_def)
  then show ?thesis using assms by (intro nth_equalityI) auto
qed

lemma fork_sections_agree:
  assumes "holds (locks (sch s)) {}" "i \<noteq> c" "c < length (procs (sch s))" "state (procs (sch s) ! c) = UNUSED"
    "length (ofile (procs (sch s) ! i)) = NOFILE" "length (ofile (procs (sch s) ! c)) = NOFILE"
    "cwd (procs (sch s) ! i) = Some dir" "tf \<noteq> 0" "pt \<noteq> 0"
  obtains t where
    "seq (fork_alloc K tf pt True i c (sch s)) (\<lambda>s. seq (fork_parent i c s) (fork_ready c)) = Ok t"
    "procs t = procs (sch (fork_result K tf pt m i c dir s))" "holds (locks t) {}"
proof -
  let ?s = "sch s" and ?p = "procs (sch s) ! i" and ?q = "procs (sch s) ! c"
  obtain L1 where L1: "kacquire (ProcLock c) ?s = Ok (?s\<lparr>locks := L1\<rparr>)" "holds L1 {ProcLock c}"
    using kacquire_ok [OF assms(1), of "ProcLock c"] by auto
  obtain L2 where L2: "kacquire PidLock (?s\<lparr>locks := L1\<rparr>) = Ok (?s\<lparr>locks := L2\<rparr>)" "holds L2 {PidLock, ProcLock c}"
    using kacquire_ok [of "?s\<lparr>locks := L1\<rparr>" "{ProcLock c}" PidLock] L1(2) by auto
  obtain L3 where L3: "krelease PidLock (?s\<lparr>nextpid := nextpid ?s + 1, locks := L2\<rparr>) =
      Ok (?s\<lparr>nextpid := nextpid ?s + 1, locks := L3\<rparr>)" "holds L3 {ProcLock c}"
    using krelease_ok [of "?s\<lparr>nextpid := nextpid ?s + 1, locks := L2\<rparr>" "{PidLock, ProcLock c}" PidLock] L2(2)
    by (auto simp: insert_Diff_if)
  let ?child = "fork_inherit ?p (new_proc K (nextpid ?s) tf pt ?q)"
  let ?t = "?s\<lparr>nextpid := nextpid ?s + 1, procs := (procs ?s)[c := ?child]\<rparr>"
  obtain L4 where L4: "krelease (ProcLock c) (?t\<lparr>locks := L3\<rparr>) = Ok (?t\<lparr>locks := L4\<rparr>)" "holds L4 {}"
    using krelease_ok [of "?t\<lparr>locks := L3\<rparr>" "{ProcLock c}" "ProcLock c"] L3(2) by auto
  have a: "fork_alloc K tf pt True i c ?s = Ok (?t\<lparr>locks := L4\<rparr>)"
    using L1(1) L2(1) L3(1) L4(1) assms(4,8,9)
    by (simp add: fork_alloc_def allocpid_def Let_def upd_proc_def)
  obtain L5 where L5: "kacquire WaitLock (?t\<lparr>locks := L4\<rparr>) = Ok (?t\<lparr>locks := L5\<rparr>)" "holds L5 {WaitLock}"
    using kacquire_ok [of "?t\<lparr>locks := L4\<rparr>" "{}" WaitLock] L4(2) by auto
  let ?u = "?t\<lparr>procs := (procs ?s)[c := ?child\<lparr>parent := Some i\<rparr>]\<rparr>"
  obtain L6 where L6: "krelease WaitLock (?u\<lparr>locks := L5\<rparr>) = Ok (?u\<lparr>locks := L6\<rparr>)" "holds L6 {}"
    using krelease_ok [of "?u\<lparr>locks := L5\<rparr>" "{WaitLock}" WaitLock] L5(2) by auto
  have b: "fork_parent i c (?t\<lparr>locks := L4\<rparr>) = Ok (?u\<lparr>locks := L6\<rparr>)"
    using L5(1) L6(1) assms(3) by (simp add: fork_parent_def upd_proc_def)
  obtain L7 where L7: "kacquire (ProcLock c) (?u\<lparr>locks := L6\<rparr>) = Ok (?u\<lparr>locks := L7\<rparr>)" "holds L7 {ProcLock c}"
    using kacquire_ok [of "?u\<lparr>locks := L6\<rparr>" "{}" "ProcLock c"] L6(2) by auto
  let ?v = "?t\<lparr>procs := (procs ?s)[c := ?child\<lparr>parent := Some i, state := RUNNABLE\<rparr>]\<rparr>"
  obtain L8 where L8: "krelease (ProcLock c) (?v\<lparr>locks := L7\<rparr>) = Ok (?v\<lparr>locks := L8\<rparr>)" "holds L8 {}"
    using krelease_ok [of "?v\<lparr>locks := L7\<rparr>" "{ProcLock c}" "ProcLock c"] L7(2) by auto
  have d: "fork_ready c (?u\<lparr>locks := L6\<rparr>) = Ok (?v\<lparr>locks := L8\<rparr>)"
    using L7(1) L8(1) assms(3) by (simp add: fork_ready_def upd_proc_def)
  have "?child\<lparr>parent := Some i, state := RUNNABLE\<rparr> = forked_child K (nextpid ?s) tf pt i dir ?p ?q"
    unfolding fork_inherit_def
    by (subst inherit_dup) (use assms(5-7) in \<open>simp_all add: forked_child_def new_proc_def\<close>)
  then have "procs ?v = procs (sch (fork_result K tf pt m i c dir s))"
    using assms(3) by (simp add: fork_result_def idup_def upd_inode_def Let_def)
  then show thesis using that [of "?v\<lparr>locks := L8\<rparr>"] a b d L8(2) by simp
qed

lemma high_not_user:
  "(PA2PTE p OR (PTE_R OR PTE_X) OR PTE_V) AND PTE_U = 0" "(PA2PTE p OR (PTE_R OR PTE_W) OR PTE_V) AND PTE_U = 0"
proof -
  have u: "e AND PTE_U = PTE_FLAGS e AND PTE_U" for e :: u32 by (simp add: PTE_FLAGS_def PTE_U_def and.assoc)
  show "(PA2PTE p OR (PTE_R OR PTE_X) OR PTE_V) AND PTE_U = 0"
    unfolding or.assoc [of "PA2PTE p"] by (subst u, subst PTE_FLAGS_PA2PTE) (simp_all add: pte_bits)
  show "(PA2PTE p OR (PTE_R OR PTE_W) OR PTE_V) AND PTE_U = 0"
    unfolding or.assoc [of "PA2PTE p"] by (subst u, subst PTE_FLAGS_PA2PTE) (simp_all add: pte_bits)
qed

text \<open>A parent about to fork, with \<open>N\<close> pages of memory and the free pages \<open>ps\<close>.\<close>

definition can_fork :: "kst \<Rightarrow> nat \<Rightarrow> proc \<Rightarrow> nat \<Rightarrow> u32 list \<Rightarrow> nat \<Rightarrow> bool" where
  "can_fork s i p dir ps N \<longleftrightarrow>
     me s = Ok i \<and> i < NPROC \<and> procs (sch s) ! i = p \<and> state p \<noteq> UNUSED \<and> procs_ok s \<and>
     cwd p = Some dir \<and> dir < length (itab s) \<and>
     space_inv (ph s) (pagetable p) ps (4096 * N) \<and> N = (unat (sz p) + 4095) div 4096 \<and> N \<le> 2 ^ 20 - 2 \<and>
     (\<forall>j < N. mapping (pmem (ph s)) (pagetable p) (pg j) \<noteq> None) \<and>
     page_ok (ph s) (trapframe p) \<and> trapframe p \<notin> set ps"

lemma can_forkD:
  assumes "can_fork s i p dir ps N"
  shows "me s = Ok i" "i < NPROC" "procs (sch s) ! i = p" "state p \<noteq> UNUSED" "procs_ok s" "cwd p = Some dir" "dir < length (itab s)"
    "space_inv (ph s) (pagetable p) ps (4096 * N)" "N = (unat (sz p) + 4095) div 4096" "N \<le> 2 ^ 20 - 2"
    "\<And>j. j < N \<Longrightarrow> mapping (pmem (ph s)) (pagetable p) (pg j) \<noteq> None" "page_ok (ph s) (trapframe p)" "trapframe p \<notin> set ps"
    "kinv (ph s) ps" "aspace (ph s) (pagetable p) ps N" "set ps \<inter> foot (pmem (ph s)) (pagetable p) N = {}"
proof -
  show 1: "me s = Ok i" "i < NPROC" "procs (sch s) ! i = p" "state p \<noteq> UNUSED" "procs_ok s" "cwd p = Some dir" "dir < length (itab s)"
    "space_inv (ph s) (pagetable p) ps (4096 * N)" "N = (unat (sz p) + 4095) div 4096" "N \<le> 2 ^ 20 - 2"
    "\<And>j. j < N \<Longrightarrow> mapping (pmem (ph s)) (pagetable p) (pg j) \<noteq> None" "page_ok (ph s) (trapframe p)" "trapframe p \<notin> set ps"
    using assms unfolding can_fork_def by blast+
  show A: "aspace (ph s) (pagetable p) ps N" using 1(8,10) space_inv_aspace [of N "ph s" "pagetable p" ps] by simp
  show "kinv (ph s) ps" by (rule aspaceD(2) [OF A])
  show "set ps \<inter> foot (pmem (ph s)) (pagetable p) N = {}" by (rule foot_not_free [OF A])
qed

text \<open>The memory after the allocation, and what the copy makes of it.\<close>

lemma fork_copy:
  assumes F: "can_fork s i p dir ps N"
    and m: "vm_inv m pt ps1" "kend m = kend (ph s)" "set ps = insert tf (set ps1 \<union> pt_pages (pmem m) pt)"
      "tf \<notin> set ps1 \<union> pt_pages (pmem m) pt" "same_off (set ps) (pmem (ph s)) (pmem m)"
      "pmap (pmem m) pt (2 ^ 20 - 1) = Some (PA2PTE (sym_trampoline K) OR (PTE_R OR PTE_X) OR PTE_V)"
      "pmap (pmem m) pt (2 ^ 20 - 2) = Some (PA2PTE tf OR (PTE_R OR PTE_W) OR PTE_V)"
      "\<forall>j < 2 ^ 20 - 2. pmap (pmem m) pt j = None"
  obtains (copied) m2 ps2 where "uvmcopy (pagetable p) pt (sz p) m = Ok (0, m2)" "kend m2 = kend (ph s)"
      "same_off (set ps1 \<union> pt_pages (pmem m) pt) (pmem m) (pmem m2)" "user_space m2 pt (sz p) ps2 N" "space_inv m2 pt ps2 (4096 * N)"
      "user_byte (pmem m2) pt = user_byte (pmem (ph s)) (pagetable p)" "set ps2 \<union> foot (pmem m2) pt N = set ps1 \<union> pt_pages (pmem m) pt"
  | (failed) m2 ps2 where "uvmcopy (pagetable p) pt (sz p) m = Ok (-1, m2)" "kend m2 = kend (ph s)"
      "same_off (set ps1 \<union> pt_pages (pmem m) pt) (pmem m) (pmem m2)" "user_space m2 pt 0 ps2 0"
      "set ps2 \<union> pt_pages (pmem m2) pt = set ps1 \<union> pt_pages (pmem m) pt" "length ps1 < 2 * N"
proof -
  note D = can_forkD [OF F]
  let ?old = "pagetable p"
  have N20: "N < 2 ^ 20" "N \<le> 2 ^ 20" using D(10) by simp_all
  have al: "\<forall>q \<in> set ps. page_aligned q" using D(14) by (auto simp: kinv_def page_ok_def)
  have on: "same_on (foot (pmem (ph s)) ?old N) (pmem (ph s)) (pmem m)"
    by (rule same_off_on [OF m(5) _ al]) (use foot_aligned [OF aspaceD(3) [OF D(15)]] D(16) in auto)
  have kv: "kinv m ps1" using m(1) by (simp add: vm_inv_def)
  have d1: "set ps1 \<inter> foot (pmem (ph s)) ?old N = {}" using D(16) m(3) by blast
  note K = space_inv_keep [OF D(8) N20(2) kv m(2) d1 on]
  have e1: "mapping (pmem m) ?old (pg j) \<noteq> None" if "j < N" for j using D(11) [OF that] fun_cong [OF K(3), of j] by (simp add: pmap_def)
  have e2: "mapping (pmem m) pt (pg j) = None" if "j < N" for j
  proof -
    have "j < 2 ^ 20 - 2" using that D(10) by simp
    then show ?thesis using m(8) by (simp add: pmap_def)
  qed
  have e3: "user_entry (pmem m) pt va = None" for va
  proof -
    let ?j = "unat va div 4096"
    have "?j < 2 ^ 20 - 2 \<or> ?j = 2 ^ 20 - 2 \<or> ?j = 2 ^ 20 - 1" using page_number_less [of va] by auto
    then show ?thesis using m(6-8) high_not_user by (auto simp: user_entry_pmap)
  qed
  have e4: "foot (pmem m) ?old N \<inter> pt_pages (pmem m) pt = {}" using D(16) m(3) unfolding K(4) by blast
  obtain r m2 ps2 where c: "uvmcopy ?old pt (sz p) m = Ok (r, m2)" "kend m2 = kend m"
    "same_off (set ps1 \<union> pt_pages (pmem m) pt) (pmem m) (pmem m2)"
    "set ps2 \<union> foot (pmem m2) pt (if r = 0 then N else 0) = set ps1 \<union> pt_pages (pmem m) pt"
    "\<forall>j. N \<le> j \<longrightarrow> j < 2 ^ 20 \<longrightarrow> pmap (pmem m2) pt j = pmap (pmem m) pt j" "r = 0 \<longrightarrow> (\<forall>j < N. pmap (pmem m2) pt j \<noteq> None)"
    "r = 0 \<and> space_inv m2 pt ps2 (4096 * N) \<and> user_byte (pmem m2) pt = user_byte (pmem m) ?old \<or>
     r = -1 \<and> length ps1 < 2 * N \<and> vm_inv m2 pt ps2 \<and> mapping (pmem m2) pt = mapping (pmem m) pt"
    using uvmcopy_spec [OF K(1) m(1) D(9) N20(1) e1 e2 e3 e4] by blast
  have flags: "PTE_FLAGS (PA2PTE (sym_trampoline K) OR (PTE_R OR PTE_X) OR PTE_V) \<noteq> PTE_V" "PTE_FLAGS (PA2PTE tf OR (PTE_R OR PTE_W) OR PTE_V) \<noteq> PTE_V"
    by (rule high_flags)+
  have ke: "kend m2 = kend (ph s)" using c(2) m(2) by simp
  from c(7) show thesis
  proof (elim disjE conjE)
    assume r: "r = 0" "space_inv m2 pt ps2 (4096 * N)" "user_byte (pmem m2) pt = user_byte (pmem m) ?old"
    have A: "aspace m2 pt ps2 N" using r(2) by (simp add: space_inv_aspace [OF N20(2)])
    have "user_space m2 pt (sz p) ps2 N"
      unfolding user_space_def
    proof (intro conjI allI impI ballI)
      show "pmap (pmem m2) pt j = None" if "N \<le> j" "j < 2 ^ 20 - 2" for j using c(5) m(8) that by simp
      show "\<exists>e. pmap (pmem m2) pt j = Some e \<and> PTE_FLAGS e \<noteq> PTE_V" if "j \<in> {2 ^ 20 - 2, 2 ^ 20 - 1}" for j
        using that c(5) D(10) m(6,7) flags by auto
    qed (use A D(9,10) c(6) r(1) in simp_all)
    then show thesis using copied [of m2 ps2] c(1,3,4) ke r K(2) by simp
  next
    assume r: "r = -1" "length ps1 < 2 * N" "vm_inv m2 pt ps2" "mapping (pmem m2) pt = mapping (pmem m) pt"
    then have pm: "pmap (pmem m2) pt = pmap (pmem m) pt" by (simp add: pmap_def fun_eq_iff)
    have "user_space m2 pt 0 ps2 0"
      unfolding user_space_def pm using r(3) m(6-8) flags by (simp add: aspace_0)
    then show thesis using failed [of m2 ps2] c(1,3,4) ke r(1,2) by (simp add: foot_def)
  qed
qed

lemma fork_no_child:
  "me s = Ok i \<Longrightarrow> allocproc K s = Ok (None, s1) \<Longrightarrow> fork K s = Ok (-1, s1)"
  by (simp add: fork_def)

lemma fork_no_memory:
  assumes me: "me s = Ok i" "i \<noteq> c" "c < length (procs (sch s))"
    and al: "allocproc K s = Ok (Some c, upd_my c (new_proc K n tf pt) (upd_ph m (next_pid s)))"
    and cp: "uvmcopy (pagetable (procs (sch s) ! i)) pt (sz (procs (sch s) ! i)) m = Ok (-1, m2)"
  shows "fork K s = seq (freeproc c (upd_my c (new_proc K n tf pt) (upd_ph m2 (next_pid s)))) (\<lambda>s. Ok (-1, s))"
  unfolding fork_def me(1) seq.simps al prod.case option.case
  using me(2,3) cp by (simp add: upd_my_upd_ph Let_def new_proc_def)

text \<open>What stays of the parent's trap frame, and a table and its pages when one page outside them changes.\<close>

lemma user_space_keep:
  assumes U: "user_space s pt psize ps N" and k: "kinv s' ps" "kend s' = kend s"
    and m: "same_off {q} (pmem s) (pmem s')" and q: "page_aligned q" "q \<notin> foot (pmem s) pt N"
  shows "user_space s' pt psize ps N"
proof -
  have A: "aspace s pt ps N" using U unfolding user_space_def by blast
  have "same_on (pt_pages (pmem s) pt) (pmem s) (pmem s')"
    by (rule same_off_on [OF m]) (use q pt_pages_aligned [OF aspaceD(3) [OF A]] in \<open>auto simp: foot_def\<close>)
  note t = tree_same(4) [OF aspaceD(3) [OF A] this] aspace_frame [OF A k foot_not_free [OF A] this]
  show ?thesis using U t unfolding user_space_def by simp
qed

text \<open>Nothing taken: the free pages, the files and the inodes of \<open>s\<close>, and no new process in use.\<close>

definition no_child :: "kst \<Rightarrow> u32 list \<Rightarrow> kst \<Rightarrow> u32 list \<Rightarrow> bool" where
  "no_child s ps s' ps' \<longleftrightarrow> set ps' = set ps \<and> ftab s' = ftab s \<and> itab s' = itab s \<and>
     length (procs (sch s')) = length (procs (sch s)) \<and>
     (\<forall>j < length (procs (sch s)). procs (sch s') ! j = procs (sch s) ! j \<or>
        state (procs (sch s) ! j) = UNUSED \<and> state (procs (sch s') ! j) = UNUSED)"

text \<open>The process in slot \<open>c\<close>, now \<open>q\<close>, is the child of process \<open>i\<close>, which has \<open>N\<close> pages and works in \<open>dir\<close>.\<close>

definition forked :: "kst \<Rightarrow> u32 list \<Rightarrow> nat \<Rightarrow> nat \<Rightarrow> nat \<Rightarrow> kst \<Rightarrow> u32 list \<Rightarrow> nat \<Rightarrow> proc \<Rightarrow> bool" where
  "forked s ps i dir N s' ps' c q \<longleftrightarrow>
     (let p = procs (sch s) ! i in
      state (procs (sch s) ! c) = UNUSED \<and> procs (sch s') = (procs (sch s))[c := q] \<and>
      state q = RUNNABLE \<and> pid q = nextpid (sch s) \<and> parent q = Some i \<and> sz q = sz p \<and> ofile q = ofile p \<and> cwd q = Some dir \<and>
      user_space (ph s') (pagetable q) (sz q) ps' N \<and>
      set ps = insert (trapframe q) (set ps' \<union> foot (pmem (ph s')) (pagetable q) N) \<and>
      user_byte (pmem (ph s')) (pagetable q) = user_byte (pmem (ph s)) (pagetable p) \<and>
      (\<forall>k < 36. tf_get c k s' = (if k = TF_a0 then 0 else tf_get i k s)) \<and>
      length (ftab s') = length (ftab s) \<and>
      (\<forall>f < length (ftab s). ftab s' ! f = (ftab s ! f)\<lparr>fref := fref (ftab s ! f) + fd_count (ofile p) f\<rparr>) \<and>
      itab s' = (itab s)[dir := (itab s ! dir)\<lparr>iref := iref (itab s ! dir) + 1\<rparr>])"

lemma no_child_upd:
  "c < length (procs (sch s)) \<Longrightarrow> state (procs (sch s) ! c) = UNUSED \<Longrightarrow> state (f (procs (sch s) ! c)) = UNUSED \<Longrightarrow>
   set ps' = set ps \<Longrightarrow> no_child s ps (upd_my c f (upd_ph m (next_pid s))) ps'"
  by (auto simp: no_child_def nth_list_update)

lemma forked_result:
  assumes c: "i \<noteq> c" "c < length (procs (sch s))" "state (procs (sch s) ! c) = UNUSED" "ofile (procs (sch s) ! c) = replicate NOFILE None"
    and p: "procs (sch s) ! i = p" "length (ofile p) = NOFILE"
    and t: "page_aligned tf" "page_ok (ph s) (trapframe p)" "tf \<noteq> trapframe p" "trapframe p \<notin> set ps"
    and m: "user_space m pt (sz p) ps' N" "space_inv m pt ps' (4096 * N)" "tf \<notin> set ps' \<union> foot (pmem m) pt N"
      "same_off (set ps) (pmem (ph s)) (pmem m)" "set ps = insert tf (set ps' \<union> foot (pmem m) pt N)"
      "user_byte (pmem m) pt = user_byte (pmem (ph s)) (pagetable p)" "\<forall>q \<in> set ps. page_aligned q"
  shows "kinv (ph (fork_result K tf pt m i c dir s)) ps'" (is "kinv (ph ?s) _")
    "same_off (set ps) (pmem (ph s)) (pmem (ph (fork_result K tf pt m i c dir s)))"
    "forked s ps i dir N (fork_result K tf pt m i c dir s) ps' c (forked_child K (nextpid (sch s)) tf pt i dir p (procs (sch s) ! c))"
proof -
  let ?m = "child_frame (pmem m) tf (trapframe p)" and ?q = "forked_child K (nextpid (sch s)) tf pt i dir p (procs (sch s) ! c)"
  have N: "N \<le> 2 ^ 20" and A: "aspace m pt ps' N" using m(1) by (auto simp: user_space_def)
  have r: "ph ?s = m\<lparr>pmem := ?m\<rparr>" "procs (sch ?s) = (procs (sch s))[c := ?q]" "ftab ?s = dup_refs (ofile p) [0..<NOFILE] (ftab s)"
    "itab ?s = (itab s)[dir := (itab s ! dir)\<lparr>iref := iref (itab s ! dir) + 1\<rparr>]"
    by (simp_all add: fork_result_def Let_def p(1) idup_def upd_inode_def)
  have tp: "page_aligned (trapframe p)" using t(2) by (simp add: page_ok_def)
  have b: "unat tf + 4096 \<le> 2 ^ 32" "unat (trapframe p) + 4096 \<le> 2 ^ 32"
    using page_aligned_bound [OF t(1)] page_aligned_bound [OF tp] by simp_all
  note cf = child_frame_spec [OF t(1) tp t(3) b, where m = "pmem m"]
  show k: "kinv (ph ?s) ps'"
    unfolding r by (rule kinv_same_off [OF aspaceD(2) [OF A] cf(1)]) (use m(3) t(1) in auto)
  show off: "same_off (set ps) (pmem (ph s)) (pmem (ph ?s))"
    unfolding r by (rule same_off_trans [OF m(4)]) (use same_off_mono [OF cf(1), of "set ps"] m(5) in auto)
  have on: "same_on (foot (pmem m) pt N) (pmem m) ?m"
    by (rule same_off_on [OF cf(1)]) (use t(1) m(3) foot_aligned [OF aspaceD(3) [OF A]] in auto)
  note sp = space_inv_keep [OF m(2) N k, unfolded r, simplified, OF foot_not_free [OF A] on]
  have us: "user_space (ph ?s) pt (sz p) ps' N"
    by (rule user_space_keep [OF m(1) k, of tf]) (use cf(1) t(1) m(3) in \<open>simp_all add: r\<close>)
  have q: "state ?q = RUNNABLE" "pid ?q = nextpid (sch s)" "parent ?q = Some i" "sz ?q = sz p" "cwd ?q = Some dir" "pagetable ?q = pt"
    "trapframe ?q = tf" "ofile ?q = ofile p"
    using dup_ofile_all [OF p(2)] c(4) by (simp_all add: forked_child_def new_proc_def)
  have tfr: "load32 (pmem m) (slot (trapframe p) k) = load32 (pmem (ph s)) (slot (trapframe p) k)" if "k < 1024" for k
  proof (rule load32_slot_cong [OF tp that])
    show "pmem m a = pmem (ph s) a" if "in_page (trapframe p) a" for a
      using m(4,7) t(4) tp that pages_disjoint unfolding same_off_def by metis
  qed
  have frame: "\<forall>k < 36. tf_get c k ?s = (if k = TF_a0 then 0 else tf_get i k s)"
    using cf(2) tfr c(2) by (simp add: tf_get_def r q p(1) slot_def [symmetric])
  have "map ((!) (ofile p)) [0..<NOFILE] = ofile p" using p(2) by (metis map_nth)
  then have files: "length (ftab ?s) = length (ftab s) \<and>
      (\<forall>f < length (ftab s). ftab ?s ! f = (ftab s ! f)\<lparr>fref := fref (ftab s ! f) + fd_count (ofile p) f\<rparr>)"
    unfolding r using dup_refs_nth [of "ofile p" "[0..<NOFILE]" "ftab s"] by simp
  have "user_byte (pmem (ph ?s)) pt = user_byte (pmem (ph s)) (pagetable p)" "foot (pmem (ph ?s)) pt N = foot (pmem m) pt N"
    using sp(2,4) m(6) by (simp_all add: r)
  then show "forked s ps i dir N ?s ps' c ?q"
    unfolding forked_def Let_def p(1) q using c(3) r(2,4) us m(5) frame files by simp
qed

subsection \<open>A process with six free pages\<close>

definition demo_pool :: "u32 list" where
  "demo_pool = [0x80076000, 0x80077000, 0x80078000, 0x80079000, 0x8007A000, 0x8007B000]"

definition demo_six :: phys where
  "demo_six = demo_space\<lparr>pmem := fold (\<lambda>p m. store32 m p (p + PGSIZE))
      [0x80076000, 0x80077000, 0x80078000, 0x80079000, 0x8007A000] (pmem demo_space),
    freelist := 0x80076000, kend := 0x80076000\<rparr>"

lemma demo_pool_aligned [simp]: "page_aligned 0x80076000" "page_aligned 0x80077000" "page_aligned 0x80078000" "page_aligned 0x80079000"
  by (simp_all add: page_aligned_def)

lemma demo_six_off: "same_off (set demo_pool) (pmem demo_space) (pmem demo_six)"
  by (simp add: demo_six_def demo_pool_def same_off_def store32_other_page)

lemma demo_six_free: "kinv demo_six demo_pool"
proof -
  have l: "load32 (pmem demo_space) 0x8007B000 = 0"
    using slot_pages_differ [of "0x8007D000" "0x8007B000" 0 0] slot_pages_differ [of "0x8007E000" "0x8007B000" 0 0]
    by (simp add: demo_space_def load32_store32_aligned aligned4_slot page_aligned_aligned4 slot_def [of "0x8007B000" 0])
  have "free_chain (pmem demo_six) 0x80076000 demo_pool"
    using l by (simp add: demo_six_def demo_pool_def PGSIZE_def load32_store32_aligned page_aligned_aligned4)
  then show ?thesis by (simp add: kinv_def) (simp add: demo_six_def demo_pool_def page_ok_def layout_defs)
qed

lemma demo_six_space: "space_inv demo_six 0x8007D000 demo_pool (4096 * 1)"
  by (rule demo_space_keep [OF same_off_on [OF demo_six_off] demo_six_free]) (auto simp: demo_pool_def demo_six_def)

definition demo_parent :: proc where
  "demo_parent = proc_zero\<lparr>state := RUNNING, pid := 1, sz := 4096, pagetable := 0x8007D000, trapframe := 0x8007C000,
     ofile := (replicate NOFILE None)[0 := Some 0], cwd := Some 0\<rparr>"

definition demo_forker :: kst where
  "demo_forker = demo_kst\<lparr>ph := demo_six,
     sch := (sch demo_kst)\<lparr>procs := (replicate NPROC proc_zero)[0 := demo_parent]\<rparr>,
     ftab := [\<lparr>ftype = FD_DEVICE, fref = 1, freadable = True, fwritable = True, fpipe = 0, fip = 0, foff = 0, fmajor = of_nat CONSOLE\<rparr>],
     itab := [\<lparr>idev = 0, inum = 1, iref = 1, ilk = initsleeplock, ivalid = False, idata = dinode_zero\<rparr>]\<rparr>"

lemma demo_forker_can: "can_fork demo_forker 0 demo_parent 0 demo_pool 1"
proof -
  have m: "\<forall>j < 1. mapping (pmem demo_six) 0x8007D000 (pg j) \<noteq> None"
    by (simp add: demo_tree_keep(3) [OF same_off_on [OF demo_six_off]] demo_pool_def pg_def same_page_def)
  have t: "page_ok demo_six 0x8007C000" "0x8007C000 \<notin> set demo_pool"
    by (simp_all add: page_ok_def demo_six_def layout_defs demo_pool_def)
  have p: "procs_ok demo_forker"
    by (auto simp: procs_ok_def demo_forker_def demo_kst_def demo_parent_def proc_zero_def NPROC_def NOFILE_def nth_list_update Let_def
        dest!: set_update_subset_insert [THEN subsetD])
  show ?thesis
    unfolding can_fork_def
    by (intro conjI) (use m t p demo_six_space in \<open>simp_all add: demo_forker_def demo_kst_def demo_parent_def proc_zero_def me_def NPROC_def machine_boot_def\<close>)
qed

definition demo_syms :: ksyms where
  "demo_syms = \<lparr>sym_trampoline = 0x80004000, sym_forkret = 0x80001000, sym_etext = 0x80005000, sym_usertrap = 0x80002000,
     sym_kernelvec = 0x80003000, sym_uservec = 0x80004000, sym_userret = 0x80004080, sym_main = 0x80000400,
     sym_timervec = 0x80003080, sym_scratch = 0x80006000\<rparr>"

subsection \<open>What fork does\<close>

text \<open>C3: In a process whose memory is all mapped, \<open>fork\<close> returns and leaves every page that was not
  free alone. Either it returns -1, which happens only when no process slot is UNUSED or fewer than four
  free pages and two for each page of the parent were left: the free pages, the files and the inodes
  are as before and no process slot is in use that was not. Or it returns the next process number: one slot that was
  UNUSED is now a RUNNABLE child of the caller, with a page table of its own in pages taken from the
  free list, in which it sees the same bytes at the same addresses as its parent, the parent's saved
  registers but 0 in \<open>a0\<close>, the same open files and directory with their counts raised; the other
  slots are unchanged.\<close>

theorem fork_copies_the_process:
  assumes F: "can_fork s i p dir ps N"
  shows "\<exists>r s' ps'. fork K s = Ok (r, s') \<and> kinv (ph s') ps' \<and> same_off (set ps) (pmem (ph s)) (pmem (ph s')) \<and>
    (r = -1 \<and> no_child s ps s' ps' \<and> (length ps < 2 * N + 4 \<or> (\<forall>j < NPROC. state (procs (sch s) ! j) \<noteq> UNUSED)) \<or> r = nextpid (sch s) \<and> (\<exists>c q. c < NPROC \<and> forked s ps i dir N s' ps' c q))"
proof -
  note D = can_forkD [OF F]
  have P: "length (procs (sch s)) = NPROC" "length (ofile p) = NOFILE"
      "\<And>f. Some f \<in> set (ofile p) \<Longrightarrow> f < length (ftab s) \<and> 1 \<le> fref (ftab s ! f)"
    using D(2,3,5) by (auto simp: procs_ok_def Let_def)
  from D(14,5) show ?thesis
  proof (cases rule: allocproc_spec [where K = K])
    case none
    have "no_child s ps s ps" by (simp add: no_child_def)
    then show ?thesis using fork_no_child [OF D(1) none(1)] none(2) D(14) same_off_def by blast
  next
    case (full c f m ps')
    have "no_child s ps (upd_my c f (upd_ph m (next_pid s))) ps'" by (rule no_child_upd) (use full(2-4,6) P(1) in auto)
    moreover have "length ps < 2 * N + 4" using full(9) by simp
    ultimately show ?thesis using fork_no_child [OF D(1) full(1)] full(5,8) by (metis upd_my_simps(1,4))
  next
    case (made c tf pt m ps1)
    have ic: "i \<noteq> c" "c < length (procs (sch s))" using D(3,4) made(2,3) P(1) by auto
    have unused: "ofile (procs (sch s) ! c) = replicate NOFILE None" "sz (procs (sch s) ! c) = 0"
      using D(5) made(2,3) by (simp_all add: procs_ok_def Let_def)
    have al: "page_aligned tf" "tf \<noteq> trapframe p" using made(6,9) D(13) by (auto simp: page_ok_def)
    have sub: "set ps1 \<union> pt_pages (pmem m) pt \<subseteq> set ps" using made(9) by blast
    show ?thesis
      using F made(7-14)
    proof (cases rule: fork_copy [where K = K])
      case (failed m2 ps2)
      have cp: "uvmcopy (pagetable (procs (sch s) ! i)) pt (sz (procs (sch s) ! i)) m = Ok (-1, m2)" using failed(1) D(3) by simp
      let ?s = "upd_my c (new_proc K (nextpid (sch s)) tf pt) (upd_ph m2 (next_pid s))"
      let ?q = "new_proc K (nextpid (sch s)) tf pt (procs (sch s) ! c)"
      have q: "procs (sch ?s) ! c = ?q" "trapframe ?q = tf" "pagetable ?q = pt" "sz ?q = 0" "ph ?s = m2"
        using ic unused by (simp_all add: new_proc_def)
      have ft: "foot (pmem m2) pt 0 = pt_pages (pmem m2) pt" by (simp add: foot_def frames_def)
      have free: "page_ok m2 tf" "tf \<notin> set ps2" "tf \<notin> pt_pages (pmem m2) pt"
        using made(6,10) failed(2,5) by (auto simp: page_ok_def)
      obtain m3 ps3 where 3: "freeproc c ?s = Ok (upd_my c cleared (upd_ph m3 ?s))" "kinv m3 ps3"
        "set ps3 = set ps2 \<union> insert tf (pt_pages (pmem m2) pt)" "same_off (insert tf (pt_pages (pmem m2) pt)) (pmem m2) (pmem m3)"
        by (rule freeproc_spec [where N = 0, OF q(1), unfolded q ft, OF made(4,5) failed(4) free])
      have s3: "upd_my c cleared (upd_ph m3 ?s) = upd_my c (\<lambda>p. cleared (new_proc K (nextpid (sch s)) tf pt p)) (upd_ph m3 (next_pid s))"
        using ic by (simp add: upd_my_upd_ph upd_my_upd_my)
      have "no_child s ps (upd_my c cleared (upd_ph m3 ?s)) ps3"
        unfolding s3 by (rule no_child_upd) (use ic made(3,9) 3(3) failed(5) in \<open>auto simp: cleared_def\<close>)
      moreover have "same_off (set ps) (pmem (ph s)) (pmem m3)"
        by (rule same_off_trans [OF same_off_trans [OF made(11)]], rule same_off_mono [OF failed(3) sub], rule same_off_mono [OF 3(4)])
           (use failed(5) made(9) in blast)
      moreover have "fork K s = Ok (-1, upd_my c cleared (upd_ph m3 ?s))"
        using fork_no_memory [OF D(1) ic made(1) cp] 3(1) by simp
      moreover have "length ps < 2 * N + 4" using made(15) failed(6) by simp
      ultimately show ?thesis using 3(2) by (metis upd_my_simps(1,4))
    next
      case (copied m2 ps2)
      have cp: "uvmcopy (pagetable (procs (sch s) ! i)) pt (sz (procs (sch s) ! i)) m = Ok (0, m2)" using copied(1) D(3) by simp
      have run: "fork K s = Ok (nextpid (sch s), fork_result K tf pt m2 i c dir s)"
        by (rule fork_made [OF D(1) ic _ made(1) cp]) (use D(3,6) P(2,3) in \<open>auto simp: in_set_conv_nth\<close>)
      have ps: "set ps = insert tf (set ps2 \<union> foot (pmem m2) pt N)" "tf \<notin> set ps2 \<union> foot (pmem m2) pt N"
        using made(9,10) copied(7) by simp_all
      have off: "same_off (set ps) (pmem (ph s)) (pmem m2)"
        by (rule same_off_trans [OF made(11)]) (rule same_off_mono [OF copied(3) sub])
      have "\<forall>q \<in> set ps. page_aligned q" using D(14) by (auto simp: kinv_def page_ok_def)
      note res = forked_result [OF ic made(3) unused(1) D(3) P(2) al(1) D(12) al(2) D(13) copied(4,5) ps(2) off ps(1) copied(6) this]
      show ?thesis using run res made(2) by blast
    qed
  qed
qed

lemma fork_copies_the_process_witness:
  "\<exists>s' ps' c q. fork demo_syms demo_forker = Ok (2, s') \<and> kinv (ph s') ps' \<and> c < NPROC \<and> forked demo_forker demo_pool 0 0 1 s' ps' c q"
proof -
  have u: "state (procs (sch demo_forker) ! 1) = UNUSED" "1 < NPROC"
    by (simp_all add: demo_forker_def proc_zero_def NPROC_def)
  then have "\<not> (\<forall>j < NPROC. state (procs (sch demo_forker) ! j) \<noteq> UNUSED)" by blast
  moreover have "\<not> length demo_pool < 2 * 1 + 4" by (simp add: demo_pool_def)
  moreover have "nextpid (sch demo_forker) = 2" by (simp add: demo_forker_def demo_kst_def machine_boot_def)
  ultimately show ?thesis using fork_copies_the_process [OF demo_forker_can, of demo_syms] by auto
qed

end
