(* ===== verification/Iceflash.thy ===== *)
theory Iceflash
  imports Xv6_Prelude
begin

text \<open>
  The flash driver of the programmer (\<open>iceprog/SPIFlash.cpp\<close>, the branch for AVR boards): the
  functions the sketch \<open>iceprog.ino\<close> calls and those they call. The wires are a parameter: \<open>'d\<close> is
  what is behind them, and a record of functions selects and deselects the chip, exchanges a byte,
  reads the clock in milliseconds and draws a random number. Delays are left out.
\<close>

record 'd bus =
  bsel :: "'d \<Rightarrow> 'd"
  bdesel :: "'d \<Rightarrow> 'd"
  bxfer :: "u8 \<Rightarrow> 'd \<Rightarrow> u8 \<times> 'd"
  bmillis :: "'d \<Rightarrow> u32 \<times> 'd"
  brand :: "'d \<Rightarrow> nat \<times> 'd"

record 'd flash =
  fdev :: 'd
  fcapacity :: u32
  page_overflow :: bool

definition upd_dev :: "('d \<Rightarrow> 'd) \<Rightarrow> 'd flash \<Rightarrow> 'd flash" where
  "upd_dev f s = s\<lparr>fdev := f (fdev s)\<rparr>"

definition fxfer :: "'d bus \<Rightarrow> u8 \<Rightarrow> 'd flash \<Rightarrow> u8 \<times> 'd flash" where
  "fxfer B b s = (case bxfer B b (fdev s) of (r, d) \<Rightarrow> (r, s\<lparr>fdev := d\<rparr>))"

definition fsend :: "'d bus \<Rightarrow> u8 \<Rightarrow> 'd flash \<Rightarrow> 'd flash" where
  "fsend B b s = snd (fxfer B b s)"

definition PAGEPROG :: u8 where "PAGEPROG = 0x02"
definition READDATA :: u8 where "READDATA = 0x03"
definition READSTAT1 :: u8 where "READSTAT1 = 0x05"
definition WRITEENABLE :: u8 where "WRITEENABLE = 0x06"
definition CHIPERASE :: u8 where "CHIPERASE = 0x60"
definition JEDECID :: u8 where "JEDECID = 0x9F"
definition RELEASE :: u8 where "RELEASE = 0xAB"
definition POWERDOWN :: u8 where "POWERDOWN = 0xB9"
definition BLOCK64ERASE :: u8 where "BLOCK64ERASE = 0xD8"
definition BUSY :: u8 where "BUSY = 0x01"
definition WRTEN :: u8 where "WRTEN = 0x02"

subsection \<open>Commands and status\<close>

definition fcmd :: "'d bus \<Rightarrow> u8 \<Rightarrow> 'd flash \<Rightarrow> 'd flash" where
  "fcmd B c s = fsend B c (upd_dev (bsel B) s)"

definition readStat1 :: "'d bus \<Rightarrow> 'd flash \<Rightarrow> u8 \<times> 'd flash" where
  "readStat1 B s = (case fxfer B 0 (fcmd B READSTAT1 s) of (st, s) \<Rightarrow> (st, upd_dev (bdesel B) s))"

definition fmillis :: "'d bus \<Rightarrow> 'd flash \<Rightarrow> u32 \<times> 'd flash" where
  "fmillis B s = (case bmillis B (fdev s) of (t, d) \<Rightarrow> (t, s\<lparr>fdev := d\<rparr>))"

partial_function (option) notBusy_from :: "'d bus \<Rightarrow> u32 \<Rightarrow> u32 \<Rightarrow> 'd flash \<Rightarrow> (bool \<times> 'd flash) option" where
  "notBusy_from B start timeout s =
     (case readStat1 B s of (st, s) \<Rightarrow>
      case fmillis B s of (now, s) \<Rightarrow>
        if timeout < now - start then Some (False, s)
        else if st AND BUSY \<noteq> 0 then notBusy_from B start timeout s
        else Some (True, s))"

definition notBusy :: "'d bus \<Rightarrow> u32 \<Rightarrow> 'd flash \<Rightarrow> (bool \<times> 'd flash) res" where
  "notBusy B timeout s =
     (case fmillis B s of (start, s) \<Rightarrow>
      case notBusy_from B start timeout s of None \<Rightarrow> Fail Diverges | Some r \<Rightarrow> Ok r)"

definition writeEnable :: "'d bus \<Rightarrow> 'd flash \<Rightarrow> bool \<times> 'd flash" where
  "writeEnable B s =
     (case readStat1 B (upd_dev (bdesel B) (fcmd B WRITEENABLE s)) of (st, s) \<Rightarrow> (st AND WRTEN \<noteq> 0, s))"

subsection \<open>Addresses\<close>

definition addressCheck :: "u32 \<Rightarrow> 'd flash \<Rightarrow> bool" where
  "addressCheck address s = (if fcapacity s \<le> address then page_overflow s else True)"

definition getAddress :: "u16 \<Rightarrow> u8 \<Rightarrow> 'd flash \<Rightarrow> u32" where
  "getAddress page offset s =
     (let address = push_bit 8 (ucast page) + ucast offset in if addressCheck address s then address else 0)"

text \<open>An address, or 0 (\<open>false\<close>) when the chip is busy or the address is out of range.\<close>

definition prepRead :: "'d bus \<Rightarrow> u32 \<Rightarrow> 'd flash \<Rightarrow> (u32 \<times> 'd flash) res" where
  "prepRead B address s =
     seq (notBusy B 10 s) (\<lambda>(ready, s).
       Ok (if \<not> ready \<or> \<not> addressCheck address s then 0 else address, s))"

definition prepRead_page :: "'d bus \<Rightarrow> u16 \<Rightarrow> 'd flash \<Rightarrow> (u32 \<times> 'd flash) res" where
  "prepRead_page B page s = prepRead B (getAddress page 0 s) s"

definition prepWrite :: "'d bus \<Rightarrow> u32 \<Rightarrow> 'd flash \<Rightarrow> (u32 \<times> 'd flash) res" where
  "prepWrite B address s =
     seq (notBusy B 10 s) (\<lambda>(ready, s).
       if \<not> ready then Ok (0, s)
       else case writeEnable B s of (enabled, s) \<Rightarrow>
         Ok (if \<not> enabled \<or> \<not> addressCheck address s then 0 else address, s))"

definition prepWrite_page :: "'d bus \<Rightarrow> u16 \<Rightarrow> 'd flash \<Rightarrow> (u32 \<times> 'd flash) res" where
  "prepWrite_page B page s = prepWrite B (getAddress page 0 s) s"

definition send_address :: "'d bus \<Rightarrow> u32 \<Rightarrow> 'd flash \<Rightarrow> 'd flash" where
  "send_address B a s = fsend B (ucast a) (fsend B (ucast (drop_bit 8 a)) (fsend B (ucast (drop_bit 16 a)) s))"

definition beginRead :: "'d bus \<Rightarrow> u32 \<Rightarrow> 'd flash \<Rightarrow> 'd flash" where
  "beginRead B a s = send_address B a (fcmd B READDATA s)"

definition beginWrite :: "'d bus \<Rightarrow> u32 \<Rightarrow> 'd flash \<Rightarrow> 'd flash" where
  "beginWrite B a s = send_address B a (fcmd B PAGEPROG s)"

definition endProcess :: "'d bus \<Rightarrow> 'd flash \<Rightarrow> 'd flash" where
  "endProcess B s = upd_dev (bdesel B) s"

subsection \<open>Reading\<close>

text \<open>\<open>readNextByte\<close> \<open>n\<close> times.\<close>

primrec read_bytes :: "'d bus \<Rightarrow> nat \<Rightarrow> 'd flash \<Rightarrow> u8 list \<times> 'd flash" where
  "read_bytes B 0 s = ([], s)"
| "read_bytes B (Suc n) s =
     (case fxfer B 0 s of (b, s) \<Rightarrow> case read_bytes B n s of (bs, s) \<Rightarrow> (b # bs, s))"

text \<open>The result 0 is \<open>return false\<close>.\<close>

definition readByte :: "'d bus \<Rightarrow> u32 \<Rightarrow> 'd flash \<Rightarrow> (u8 \<times> 'd flash) res" where
  "readByte B address s =
     seq (prepRead B address s) (\<lambda>(a, s).
       if a = 0 then Ok (0, s)
       else case fxfer B 0 (beginRead B address s) of (b, s) \<Rightarrow> Ok (b, endProcess B s))"

definition readPage :: "'d bus \<Rightarrow> u16 \<Rightarrow> 'd flash \<Rightarrow> (u8 list \<times> 'd flash) res" where
  "readPage B page s =
     seq (prepRead_page B page s) (\<lambda>(address, s).
       case read_bytes B 256 (beginRead B address s) of (bs, s) \<Rightarrow> Ok (bs, endProcess B s))"

subsection \<open>Writing\<close>

definition frand :: "'d bus \<Rightarrow> 'd flash \<Rightarrow> nat \<times> 'd flash" where
  "frand B s = (case brand B (fdev s) of (r, d) \<Rightarrow> (r, s\<lparr>fdev := d\<rparr>))"

primrec sample_addresses :: "'d bus \<Rightarrow> u32 \<Rightarrow> nat \<Rightarrow> nat \<Rightarrow> 'd flash \<Rightarrow> u32 list \<times> 'd flash" where
  "sample_addresses B address nb 0 s = ([], s)"
| "sample_addresses B address nb (Suc n) s =
     (case frand B s of (r, s) \<Rightarrow>
      case sample_addresses B address nb n s of (addrs, s) \<Rightarrow> ((of_nat (r mod nb) + address) # addrs, s))"

primrec samples_erased :: "'d bus \<Rightarrow> u32 list \<Rightarrow> 'd flash \<Rightarrow> (bool \<times> 'd flash) res" where
  "samples_erased B [] s = Ok (True, s)"
| "samples_erased B (a # addrs) s =
     seq (readByte B a s) (\<lambda>(b, s). if b \<noteq> 0xFF then Ok (False, s) else samples_erased B addrs s)"

text \<open>Above ten bytes the code counts up from an uninitialised variable.\<close>

definition notPrevWritten :: "'d bus \<Rightarrow> u32 \<Rightarrow> u8 \<Rightarrow> 'd flash \<Rightarrow> (bool \<times> 'd flash) res" where
  "notPrevWritten B address nb s =
     (if nb \<le> 10
      then case sample_addresses B address (unat nb) (unat nb) s of (addrs, s) \<Rightarrow> samples_erased B addrs s
      else Fail (Panic ''uninitialised''))"

text \<open>
  The template \<open>_writeErrorCheck\<close> is instantiated with one byte, the first of the page; the chip
  stays selected when that byte differs. \<open>sizeof(data_buffer)\<close> is the size of a pointer, 2 on AVR.
\<close>

definition writeErrorCheck :: "'d bus \<Rightarrow> u32 \<Rightarrow> u8 \<Rightarrow> 'd flash \<Rightarrow> (bool \<times> 'd flash) res" where
  "writeErrorCheck B address b s =
     seq (prepRead B address s) (\<lambda>(a, s).
       if a = 0 then Ok (False, s)
       else case fxfer B 0 (beginRead B address s) of (c, s) \<Rightarrow>
         if c \<noteq> b then Ok (False, s) else Ok (True, endProcess B s))"

definition writePage :: "'d bus \<Rightarrow> u16 \<Rightarrow> u8 list \<Rightarrow> 'd flash \<Rightarrow> (bool \<times> 'd flash) res" where
  "writePage B page buf s =
     seq (prepWrite_page B page s) (\<lambda>(address, s).
     seq (notPrevWritten B address 2 s) (\<lambda>(erased, s).
       if \<not> erased then Ok (False, s)
       else writeErrorCheck B address (hd buf)
              (endProcess B (fold (fsend B) (take 256 buf) (beginWrite B address s)))))"

subsection \<open>Erasing and power\<close>

definition eraseBlock64K :: "'d bus \<Rightarrow> u32 \<Rightarrow> 'd flash \<Rightarrow> (bool \<times> 'd flash) res" where
  "eraseBlock64K B a s =
     seq (notBusy B 10 s) (\<lambda>(ready, s).
       if \<not> ready then Ok (False, s)
       else case writeEnable B s of (enabled, s) \<Rightarrow>
         if \<not> enabled then Ok (False, s)
         else let s = fsend B (ucast (drop_bit 16 a)) (fcmd B BLOCK64ERASE s);
                  s = fsend B 0 (fsend B (ucast (drop_bit 8 a)) s)
              in notBusy B 410 (upd_dev (bdesel B) s))"

definition eraseChip :: "'d bus \<Rightarrow> 'd flash \<Rightarrow> (bool \<times> 'd flash) res" where
  "eraseChip B s =
     seq (notBusy B 10 s) (\<lambda>(ready, s).
       if \<not> ready then Ok (False, s)
       else case writeEnable B s of (enabled, s) \<Rightarrow>
         if \<not> enabled then Ok (False, s) else notBusy B 7000 (upd_dev (bdesel B) (fcmd B CHIPERASE s)))"

text \<open>The status is read three times or five; the sketch ignores the result.\<close>

definition powerDown :: "'d bus \<Rightarrow> 'd flash \<Rightarrow> (bool \<times> 'd flash) res" where
  "powerDown B s =
     seq (notBusy B 10 s) (\<lambda>(ready, s).
       if \<not> ready then Ok (False, s)
       else case readStat1 B (upd_dev (bdesel B) (fcmd B POWERDOWN s)) of (_, s) \<Rightarrow>
            case readStat1 B s of (status2, s) \<Rightarrow>
            case readStat1 B s of (status1, s) \<Rightarrow>
              if status1 \<noteq> 255 \<and> status2 \<noteq> 255
              then if status1 = status2 \<or> status1 = 0 \<or> status2 = 0
                   then Ok (True, snd (readStat1 B (snd (readStat1 B s))))
                   else Ok (True, s)
              else if status1 = 255 \<and> status2 = 255 then Ok (True, s)
              else Ok (\<not> (status1 = 0 \<and> status2 = 0), s))"

definition powerUp :: "'d bus \<Rightarrow> 'd flash \<Rightarrow> bool \<times> 'd flash" where
  "powerUp B s =
     (case readStat1 B (upd_dev (bdesel B) (fcmd B RELEASE s)) of (st, s) \<Rightarrow> (st \<noteq> 255, s))"

text \<open>When the chip is busy the three bytes are uninitialised.\<close>

definition getJEDECID :: "'d bus \<Rightarrow> 'd flash \<Rightarrow> (u32 \<times> 'd flash) res" where
  "getJEDECID B s =
     seq (notBusy B 10 s) (\<lambda>(ready, s).
       if \<not> ready then Fail (Panic ''uninitialised'')
       else case read_bytes B 3 (fcmd B JEDECID s) of (bs, s) \<Rightarrow>
         Ok (fold (\<lambda>b i. push_bit 8 i OR ucast b) bs 0, upd_dev (bdesel B) s))"

end
