(* ===== verification/Iceprog.thy ===== *)
theory Iceprog
  imports Iceflash
begin

text \<open>
  The sketch of the flash programmer (\<open>iceprog/iceprog.ino\<close>): frames on the serial line, the
  commands of the host, and the bridge to the second serial line. The globals are a record; what has
  been written to the two lines is a list, and so is what waits to be read. \<open>Serial.readBytesUntil\<close>
  is a parameter. Lamps, delays and \<open>setup\<close> are left out, and \<open>RESET\<close> is the last level written.
\<close>

definition FEND :: u8 where "FEND = 0xC0"
definition FESC :: u8 where "FESC = 0xDB"
definition TFEND :: u8 where "TFEND = 0xDC"
definition TFESC :: u8 where "TFESC = 0xDD"
definition ICE_READ_ID :: u8 where "ICE_READ_ID = 0x9F"
definition ICE_BULK_ERASE :: u8 where "ICE_BULK_ERASE = 0xC7"
definition ICE_SEC_ERASE :: u8 where "ICE_SEC_ERASE = 0xD8"
definition ICE_PROG :: u8 where "ICE_PROG = 0x02"
definition ICE_READ :: u8 where "ICE_READ = 0x03"
definition ICE_READ_ALL :: u8 where "ICE_READ_ALL = 0x83"
definition ICE_READY :: u8 where "ICE_READY = 0x44"
definition ICE_EMPTY :: u8 where "ICE_EMPTY = 0x45"

record 'd ice =
  isProg :: bool
  rxframe :: "u8 list"
  txframe :: "u8 list"
  fcs :: u8
  rfcs :: u8
  membuf :: "u8 list"
  data_buffer :: "u8 list"
  txp :: u16
  maxPage :: u32
  escaped :: bool
  flash_lib :: "'d flash"
  reset_pin :: bool
  serial_in :: "u8 list"
  serial_out :: "u8 list"
  serial1_in :: "u8 list"
  serial1_out :: "u8 list"

subsection \<open>Sending frames\<close>

text \<open>\<open>txframe[txp++] = b\<close>, an error behind the array's end.\<close>

definition put_tx :: "u8 \<Rightarrow> 'd ice \<Rightarrow> 'd ice res" where
  "put_tx b s =
     (if unat (txp s) < length (txframe s)
      then Ok (s\<lparr>txframe := (txframe s)[unat (txp s) := b], txp := txp s + 1\<rparr>)
      else Fail OutOfBounds)"

definition startframe :: "u8 \<Rightarrow> 'd ice \<Rightarrow> 'd ice" where
  "startframe command s =
     s\<lparr>txframe := (txframe s)[0 := FEND, 1 := command], txp := 2, fcs := command\<rparr>"

definition addbyte :: "u8 \<Rightarrow> 'd ice \<Rightarrow> 'd ice res" where
  "addbyte b s =
     (let s = s\<lparr>fcs := fcs s + b\<rparr>
      in if b = FEND then seq (put_tx FESC s) (put_tx TFEND)
         else if b = FESC then seq (put_tx FESC s) (put_tx TFESC)
         else put_tx b s)"

primrec addbytes :: "u8 list \<Rightarrow> 'd ice \<Rightarrow> 'd ice res" where
  "addbytes [] s = Ok s"
| "addbytes (b # bs) s = seq (addbyte b s) (addbytes bs)"

definition sendframe :: "'d ice \<Rightarrow> 'd ice res" where
  "sendframe s =
     (let s = s\<lparr>fcs := 0xFF - fcs s\<rparr>
      in seq (addbyte (fcs s) s) (\<lambda>s.
         seq (put_tx FEND s) (\<lambda>s.
           Ok (s\<lparr>serial_out := serial_out s @ take (unat (txp s)) (txframe s)\<rparr>))))"

subsection \<open>Receiving frames\<close>

text \<open>The loop of \<open>decodeFrame\<close>: \<open>n\<close> bytes are left, \<open>x\<close> is read and \<open>y\<close> written next.\<close>

primrec decode_from :: "nat \<Rightarrow> nat \<Rightarrow> nat \<Rightarrow> 'd ice \<Rightarrow> 'd ice" where
  "decode_from 0 x y s = s"
| "decode_from (Suc n) x y s =
     (let b = rxframe s ! x; put = (\<lambda>c s. s\<lparr>rxframe := (rxframe s)[y := c], rfcs := rfcs s + c\<rparr>)
      in if b = FEND then s
         else if b = FESC then decode_from n (Suc x) y (s\<lparr>escaped := True\<rparr>)
         else if b = TFEND then
           decode_from n (Suc x) (Suc y) (if escaped s then put FEND s\<lparr>escaped := False\<rparr> else put TFEND s)
         else if b = TFESC then
           decode_from n (Suc x) (Suc y) (if escaped s then put FESC s\<lparr>escaped := False\<rparr> else put TFESC s)
         else decode_from n (Suc x) (Suc y) (put b (s\<lparr>escaped := False\<rparr>)))"

definition decodeFrame :: "'d ice \<Rightarrow> 'd ice" where
  "decodeFrame s =
     (let c = rxframe s ! 1
      in decode_from 510 2 1 (s\<lparr>escaped := False, rfcs := c, rxframe := (rxframe s)[0 := c]\<rparr>))"

text \<open>
  \<open>rbu\<close>: the bytes \<open>readBytesUntil\<close> stores, at most as many as asked for, and the rest. By the
  library's documentation it stops at the terminator and does not store it, while \<open>decodeFrame\<close>
  takes the command from the byte after a leading \<open>FEND\<close>; nothing here depends on which it is.
\<close>

type_synonym read_until = "u8 \<Rightarrow> nat \<Rightarrow> u8 list \<Rightarrow> u8 list \<times> u8 list"

definition readSerialFrame :: "read_until \<Rightarrow> 'd ice \<Rightarrow> bool \<times> 'd ice" where
  "readSerialFrame rbu s =
     (if serial_in s = [] then (False, s)
      else case rbu FEND 512 (serial_in s) of (bs, rest) \<Rightarrow>
        (True, s\<lparr>rxframe := bs @ drop (length bs) (rxframe s), serial_in := rest\<rparr>))"

subsection \<open>The host's commands\<close>

definition with_flash :: "('d flash \<Rightarrow> ('a \<times> 'd flash) res) \<Rightarrow> 'd ice \<Rightarrow> ('a \<times> 'd ice) res" where
  "with_flash f s = seq (f (flash_lib s)) (\<lambda>(r, l). Ok (r, s\<lparr>flash_lib := l\<rparr>))"

definition power_up :: "'d bus \<Rightarrow> 'd ice \<Rightarrow> 'd ice" where
  "power_up B s = s\<lparr>flash_lib := snd (powerUp B (flash_lib s))\<rparr>"

definition power_down :: "'d bus \<Rightarrow> 'd ice \<Rightarrow> 'd ice res" where
  "power_down B s = seq (with_flash (powerDown B) s) (\<lambda>(_, s). Ok s)"

definition readpage :: "'d bus \<Rightarrow> u16 \<Rightarrow> 'd ice \<Rightarrow> 'd ice res" where
  "readpage B adr s =
     seq (with_flash (readPage B adr) s) (\<lambda>(bs, s).
       let s = s\<lparr>data_buffer := bs\<rparr>
       in if list_all (\<lambda>b. b = 0xFF) bs
          then seq (addbytes [ucast (drop_bit 8 adr), ucast adr] (startframe ICE_EMPTY s)) sendframe
          else seq (addbytes ([ucast (drop_bit 8 adr), ucast adr] @ bs) (startframe ICE_READ s)) sendframe)"

primrec readpages_from :: "'d bus \<Rightarrow> nat \<Rightarrow> nat \<Rightarrow> 'd ice \<Rightarrow> 'd ice res" where
  "readpages_from B p 0 s = Ok s"
| "readpages_from B p (Suc n) s = seq (readpage B (of_nat p) s) (readpages_from B (Suc p) n)"

definition readAllPages :: "'d bus \<Rightarrow> 'd ice \<Rightarrow> 'd ice res" where
  "readAllPages B s =
     (let s = (power_up B s)\<lparr>maxPage := 0x2000\<rparr>
      in seq (readpages_from B 0 (unat (maxPage s)) s) (\<lambda>s.
         seq (sendframe (startframe ICE_READY s)) (power_down B)))"

definition writepage :: "'d bus \<Rightarrow> u16 \<Rightarrow> 'd ice \<Rightarrow> 'd ice res" where
  "writepage B pagenr s =
     (let s = power_up B s; s = s\<lparr>membuf := map (\<lambda>x. rxframe s ! (x + 3)) [0..<256]\<rparr>
      in seq (with_flash (writePage B pagenr (membuf s)) s) (\<lambda>(_, s).
         seq (with_flash (readPage B pagenr) s) (\<lambda>(bs, s).
         seq (power_down B (s\<lparr>data_buffer := bs\<rparr>)) (\<lambda>s.
           if data_buffer s \<noteq> membuf s then Ok s else sendframe (startframe ICE_READY s)))))"

definition secerase :: "'d bus \<Rightarrow> u32 \<Rightarrow> 'd ice \<Rightarrow> 'd ice res" where
  "secerase B sector s =
     seq (with_flash (eraseBlock64K B (push_bit 8 sector)) s) (\<lambda>(_, s). sendframe (startframe ICE_READY s))"

definition flash_bulk_erase :: "'d bus \<Rightarrow> 'd ice \<Rightarrow> 'd ice res" where
  "flash_bulk_erase B s =
     seq (with_flash (eraseChip B) (power_up B s)) (\<lambda>(_, s).
     seq (power_down B s) (\<lambda>s.
     seq (addbyte ICE_BULK_ERASE (startframe ICE_READY s)) sendframe))"

definition SendID :: "'d bus \<Rightarrow> 'd ice \<Rightarrow> 'd ice res" where
  "SendID B s =
     seq (with_flash (getJEDECID B) (power_up B s)) (\<lambda>(jedec, s).
     seq (power_down B s) (\<lambda>s.
     seq (addbytes [ucast (drop_bit 16 jedec), ucast (drop_bit 8 jedec), ucast jedec] (startframe ICE_READ_ID s))
       sendframe))"

text \<open>\<open>(rxframe[1] << 8) | rxframe[2]\<close> is an \<open>int\<close> of 16 bits.\<close>

definition frame_page :: "'d ice \<Rightarrow> u16" where
  "frame_page s = push_bit 8 (ucast (rxframe s ! 1)) OR ucast (rxframe s ! 2)"

definition ice_command :: "'d bus \<Rightarrow> 'd ice \<Rightarrow> 'd ice res" where
  "ice_command B s =
     (let c = rxframe s ! 0
      in if c = FEND then Ok s
         else if c = ICE_READ_ID then SendID B s
         else if c = ICE_BULK_ERASE then flash_bulk_erase B s
         else if c = ICE_SEC_ERASE then seq (secerase B (scast (frame_page s)) (power_up B s)) (power_down B)
         else if c = ICE_READ then seq (readpage B (frame_page s) (power_up B s)) (power_down B)
         else if c = ICE_READ_ALL then readAllPages B s
         else if c = ICE_PROG then writepage B (frame_page s) s
         else Ok s)"

text \<open>What \<open>loopProg\<close> does with the bytes that are in \<open>rxframe\<close>.\<close>

definition ice_frame :: "'d bus \<Rightarrow> 'd ice \<Rightarrow> 'd ice res" where
  "ice_frame B s =
     (let s = decodeFrame s
      in if rfcs s \<noteq> 0xFF then Ok s
         else seq (ice_command B (s\<lparr>reset_pin := False\<rparr>)) (\<lambda>s. Ok (s\<lparr>reset_pin := True\<rparr>)))"

definition loopProg :: "read_until \<Rightarrow> 'd bus \<Rightarrow> 'd ice \<Rightarrow> 'd ice res" where
  "loopProg rbu B s =
     (case readSerialFrame rbu s of (got, s) \<Rightarrow> if \<not> got then Ok s else ice_frame B s)"

subsection \<open>The bridge and the main loop\<close>

definition loopBridge :: "'d ice \<Rightarrow> 'd ice" where
  "loopBridge s =
     (let s = (case serial1_in s of [] \<Rightarrow> s
               | b # bs \<Rightarrow> s\<lparr>serial1_in := bs, serial_out := serial_out s @ [b]\<rparr>)
      in case serial_in s of [] \<Rightarrow> s
         | b # bs \<Rightarrow> s\<lparr>serial_in := bs, isProg := isProg s \<or> b = FEND, serial1_out := serial1_out s @ [b]\<rparr>)"

text \<open>One turn of \<open>loop\<close>; \<open>button\<close> is what the test \<open>HWB\<close> reads.\<close>

definition ice_loop :: "read_until \<Rightarrow> 'd bus \<Rightarrow> bool \<Rightarrow> 'd ice \<Rightarrow> 'd ice res" where
  "ice_loop rbu B button s =
     seq (if isProg s then loopProg rbu B s else Ok (loopBridge s)) (\<lambda>s.
       Ok (if button then s\<lparr>isProg := \<not> isProg s\<rparr> else s))"

end
