(* ===== verification/Iceprog_Props.thy ===== *)
theory Iceprog_Props
  imports Iceprog
begin

text \<open>
  The programmer's frames read back, and what its commands do to a flash chip that keeps to its
  data sheet (\<open>nor_flash\<close>).
\<close>

subsection \<open>Frames\<close>

definition enc_byte :: "u8 \<Rightarrow> u8 list" where
  "enc_byte b = (if b = FEND then [FESC, TFEND] else if b = FESC then [FESC, TFESC] else [b])"

definition enc :: "u8 list \<Rightarrow> u8 list" where
  "enc bs = concat (map enc_byte bs)"

definition frame_sum :: "u8 \<Rightarrow> u8 list \<Rightarrow> u8" where
  "frame_sum c bs = 0xFF - (c + sum_list bs)"

definition frame_of :: "u8 \<Rightarrow> u8 list \<Rightarrow> u8 list" where
  "frame_of c bs = FEND # c # enc (bs @ [frame_sum c bs]) @ [FEND]"

lemma enc_simps [simp]: "enc [] = []" "enc (b # bs) = enc_byte b @ enc bs" "enc (xs @ ys) = enc xs @ enc ys"
  by (simp_all add: enc_def)

text \<open>The array \<open>txframe\<close> with \<open>l\<close> at its front and its old contents \<open>T\<close> behind.\<close>

definition tx :: "u8 list \<Rightarrow> u8 list \<Rightarrow> 'd ice \<Rightarrow> 'd ice" where
  "tx l T s = s\<lparr>txframe := l @ drop (length l) T, txp := of_nat (length l)\<rparr>"

lemma tx_fields [simp]: "fcs (tx l T s) = fcs s" "tx l T s\<lparr>fcs := c\<rparr> = tx l T (s\<lparr>fcs := c\<rparr>)"
  "serial_out (tx l T s) = serial_out s" "tx l T s\<lparr>serial_out := out\<rparr> = tx l T (s\<lparr>serial_out := out\<rparr>)"
  by (simp_all add: tx_def)

lemma put_tx_tx:
  assumes "length T = 512" "length l \<le> 512"
  shows "put_tx b (tx l T s) = (if length l < 512 then Ok (tx (l @ [b]) T s) else Fail OutOfBounds)"
proof -
  have u: "unat (of_nat (length l) :: u16) = length l" using assms by (simp add: unat_of_nat)
  have "(l @ drop (length l) T)[length l := b] = (l @ [b]) @ drop (Suc (length l)) T" if "length l < 512"
    using that assms by (simp add: list_update_append drop_Suc [symmetric] Cons_nth_drop_Suc [symmetric])
  then show ?thesis using assms u by (simp add: put_tx_def tx_def add.commute)
qed

lemma addbyte_tx:
  assumes T: "length T = 512" and l: "length l \<le> 512"
  shows "addbyte b (tx l T s) =
    (if length (l @ enc_byte b) \<le> 512 then Ok (tx (l @ enc_byte b) T (s\<lparr>fcs := fcs s + b\<rparr>)) else Fail OutOfBounds)"
  by (simp add: addbyte_def enc_byte_def Let_def put_tx_tx T l)

lemma addbytes_tx:
  assumes T: "length T = 512"
  shows "length l \<le> 512 \<Longrightarrow> addbytes bs (tx l T s) =
    (if length (l @ enc bs) \<le> 512 then Ok (tx (l @ enc bs) T (s\<lparr>fcs := fcs s + sum_list bs\<rparr>)) else Fail OutOfBounds)"
proof (induction bs arbitrary: l s)
  case (Cons b bs)
  show ?case using Cons.IH [of "l @ enc_byte b" "s\<lparr>fcs := fcs s + b\<rparr>"] Cons.prems
    by (auto simp: addbyte_tx [OF T] add.assoc)
qed (simp add: tx_def)

lemma tx_sent: "length l \<le> 512 \<Longrightarrow> take (unat (txp (tx l T s))) (txframe (tx l T s)) = l"
  by (simp add: tx_def unat_of_nat)

lemma startframe_tx: "length (txframe s) = 512 \<Longrightarrow> startframe c s = tx [FEND, c] (txframe s) (s\<lparr>fcs := c\<rparr>)"
  by (cases "txframe s"; cases "tl (txframe s)") (auto simp: startframe_def tx_def)

text \<open>What a command, its data and \<open>sendframe\<close> put on the line.\<close>

definition send_frame :: "u8 \<Rightarrow> u8 list \<Rightarrow> 'd ice \<Rightarrow> 'd ice res" where
  "send_frame c bs s = seq (addbytes bs (startframe c s)) sendframe"

lemma send_frame_spec:
  assumes T: "length (txframe s) = 512"
  shows "send_frame c bs s =
    (if length (frame_of c bs) \<le> 512
     then Ok (tx (frame_of c bs) (txframe s)
       (s\<lparr>fcs := frame_sum c bs + frame_sum c bs, serial_out := serial_out s @ frame_of c bs\<rparr>))
     else Fail OutOfBounds)"
proof -
  let ?T = "txframe s" and ?k = "frame_sum c bs" and ?l = "FEND # c # enc bs"
  have a: "addbytes bs (startframe c s) =
      (if length ?l \<le> 512 then Ok (tx ?l ?T (s\<lparr>fcs := c + sum_list bs\<rparr>)) else Fail OutOfBounds)"
    using addbytes_tx [OF T, of "[FEND, c]" bs "s\<lparr>fcs := c\<rparr>"] by (simp add: startframe_tx [OF T])
  have b: "sendframe (tx ?l ?T (s\<lparr>fcs := c + sum_list bs\<rparr>)) =
      (if length (frame_of c bs) \<le> 512
       then Ok (tx (frame_of c bs) ?T (s\<lparr>fcs := ?k + ?k, serial_out := serial_out s @ frame_of c bs\<rparr>))
       else Fail OutOfBounds)" if "length ?l \<le> 512"
    using that
    by (auto simp: sendframe_def Let_def addbyte_tx [OF T] put_tx_tx [OF T] frame_of_def frame_sum_def [symmetric] tx_sent)
  show ?thesis unfolding send_frame_def a using b by (auto simp: frame_of_def)
qed


lemma unescape:
  assumes "\<not> escaped s"
  shows "s\<lparr>escaped := False\<rparr> = s" "s\<lparr>escaped := False, rxframe := r, rfcs := k\<rparr> = s\<lparr>rxframe := r, rfcs := k\<rparr>"
    "s\<lparr>rxframe := r, rfcs := k, escaped := False\<rparr> = s\<lparr>rxframe := r, rfcs := k\<rparr>"
  using assms by (cases s; simp)+

lemma decode_plain:
  assumes "rxframe s ! x = b" "b \<noteq> FEND" "b \<noteq> FESC" "\<not> escaped s"
  shows "decode_from (Suc n) x y s = decode_from n (Suc x) (Suc y) (s\<lparr>rxframe := (rxframe s)[y := b], rfcs := rfcs s + b\<rparr>)"
  using assms by (simp add: Let_def unescape [OF assms(4)])

lemma decode_escape:
  assumes "rxframe s ! x = FESC" "rxframe s ! Suc x = (if b = FEND then TFEND else TFESC)" "b = FEND \<or> b = FESC" "\<not> escaped s"
  shows "decode_from (Suc (Suc n)) x y s =
    decode_from n (Suc (Suc x)) (Suc y) (s\<lparr>rxframe := (rxframe s)[y := b], rfcs := rfcs s + b\<rparr>)"
proof -
  have d: "FESC \<noteq> FEND" "TFEND \<noteq> FEND" "TFEND \<noteq> FESC" "TFESC \<noteq> FEND" "TFESC \<noteq> FESC" "TFESC \<noteq> TFEND"
    by (simp_all add: FEND_def FESC_def TFEND_def TFESC_def)
  show ?thesis using assms d by (auto simp: Let_def unescape [OF assms(4)])
qed

lemma decode_spec:
  assumes "rxframe s = pre @ enc bs @ FEND # rest" "y < length pre" "x = length pre" "length (enc bs) \<le> n" "\<not> escaped s"
  shows "\<exists>tail. decode_from n x y s = s\<lparr>rxframe := take y (rxframe s) @ bs @ tail, rfcs := rfcs s + sum_list bs\<rparr>"
  using assms
proof (induction bs arbitrary: n x y s pre)
  case Nil
  then have "decode_from n x y s = s" by (cases n) simp_all
  moreover have "rxframe s = take y (rxframe s) @ [] @ drop y (rxframe s)" by simp
  ultimately show ?case by (intro exI [of _ "drop y (rxframe s)"]) simp
next
  case (Cons b bs)
  let ?pre = "(pre @ enc_byte b)[y := b]"
  let ?s = "s\<lparr>rxframe := (rxframe s)[y := b], rfcs := rfcs s + b\<rparr>"
  have rx: "rxframe s = (pre @ enc_byte b) @ enc bs @ FEND # rest" using Cons.prems(1) by simp
  have rx': "rxframe ?s = ?pre @ enc bs @ FEND # rest" using Cons.prems(2) unfolding rx by (simp add: list_update_append)
  have len: "length (enc_byte b) \<le> n" using Cons.prems(4) by simp
  have at: "rxframe s ! x = hd (enc_byte b)" "length (enc_byte b) = 2 \<Longrightarrow> rxframe s ! Suc x = enc_byte b ! 1"
    using Cons.prems(3) unfolding rx by (auto simp: nth_append enc_byte_def)
  have "decode_from n x y s = decode_from (n - length (enc_byte b)) (x + length (enc_byte b)) (Suc y) ?s"
  proof (cases "b = FEND \<or> b = FESC")
    case True
    then have e: "enc_byte b = [FESC, if b = FEND then TFEND else TFESC]" by (auto simp: enc_byte_def FEND_def FESC_def)
    obtain n' where n: "n = Suc (Suc n')" using len unfolding e by (auto simp: Suc_le_eq dest!: gr0_implies_Suc less_imp_Suc_add)
    show ?thesis
      unfolding n using decode_escape [OF _ _ True Cons.prems(5), of x n' y] at unfolding e by simp
  next
    case False
    then have b: "b \<noteq> FEND" "b \<noteq> FESC" "enc_byte b = [b]" by (auto simp: enc_byte_def)
    then obtain n' where n: "n = Suc n'" using len by (cases n) auto
    show ?thesis unfolding n using decode_plain [OF _ b(1,2) Cons.prems(5), of x n' y] at(1) unfolding b(3) by simp
  qed
  moreover have "\<exists>tail. decode_from (n - length (enc_byte b)) (x + length (enc_byte b)) (Suc y) ?s =
      ?s\<lparr>rxframe := take (Suc y) (rxframe ?s) @ bs @ tail, rfcs := rfcs ?s + sum_list bs\<rparr>"
    by (rule Cons.IH [OF rx']) (use Cons.prems in \<open>auto simp: enc_byte_def\<close>)
  moreover have "take (Suc y) (rxframe ?s) = take y (rxframe s) @ [b]"
    using Cons.prems(2) unfolding rx by (simp add: take_Suc_conv_app_nth)
  ultimately show ?case by (auto simp: add.assoc)
qed

text \<open>The receiving array after a frame has arrived.\<close>

definition received :: "u8 list \<Rightarrow> 'd ice \<Rightarrow> 'd ice" where
  "received l r = r\<lparr>rxframe := l @ drop (length l) (rxframe r)\<rparr>"

lemma decodeFrame_spec:
  assumes "length (frame_of c bs) \<le> 512"
  shows "\<exists>tail. decodeFrame (received (frame_of c bs) r) =
    r\<lparr>rxframe := c # bs @ frame_sum c bs # tail, rfcs := 0xFF, escaped := False\<rparr>"
proof -
  let ?k = "frame_sum c bs" and ?rest = "drop (length (frame_of c bs)) (rxframe r)"
  let ?s = "(received (frame_of c bs) r)\<lparr>escaped := False, rfcs := c, rxframe := c # c # enc (bs @ [?k]) @ FEND # ?rest\<rparr>"
  have "rxframe ?s = [c, c] @ enc (bs @ [?k]) @ FEND # ?rest" by simp
  moreover have "length (enc (bs @ [?k])) \<le> 510" using assms by (simp add: frame_of_def)
  ultimately obtain tail where d: "decode_from 510 2 1 ?s =
      ?s\<lparr>rxframe := take 1 (rxframe ?s) @ (bs @ [?k]) @ tail, rfcs := rfcs ?s + sum_list (bs @ [?k])\<rparr>"
    using decode_spec [of ?s "[c, c]" "bs @ [?k]" ?rest 1 2 510] by auto
  have "decodeFrame (received (frame_of c bs) r) = decode_from 510 2 1 ?s"
    by (simp add: decodeFrame_def received_def frame_of_def Let_def)
  also have "\<dots> = r\<lparr>rxframe := c # bs @ ?k # tail, rfcs := 0xFF, escaped := False\<rparr>"
    unfolding d by (simp add: received_def frame_sum_def)
  finally show ?thesis by blast
qed

text \<open>C15: A frame reads back. Sending a command with its data puts one frame on the line, delimited
  by \<open>FEND\<close>, with the two special bytes escaped and a checksum; when that frame is in the receiving
  array, \<open>decodeFrame\<close> restores command and data in place and finds the sum of all bytes to be 255,
  what \<open>loopProg\<close> asks for. A frame that is longer than the 512 bytes of \<open>txframe\<close> is written past
  the array's end.\<close>

theorem frame_reads_back:
  assumes "length (txframe s) = 512"
  shows "if length (frame_of c bs) \<le> 512
    then (\<exists>s'. seq (addbytes bs (startframe c s)) sendframe = Ok s' \<and> serial_out s' = serial_out s @ frame_of c bs \<and>
           flash_lib s' = flash_lib s) \<and>
         (let d = decodeFrame (received (frame_of c bs) r)
          in rxframe d ! 0 = c \<and> take (length bs) (drop 1 (rxframe d)) = bs \<and> rfcs d = 0xFF)
    else seq (addbytes bs (startframe c s)) sendframe = Fail OutOfBounds"
proof (cases "length (frame_of c bs) \<le> 512")
  case True
  obtain tail where "decodeFrame (received (frame_of c bs) r) =
      r\<lparr>rxframe := c # bs @ frame_sum c bs # tail, rfcs := 0xFF, escaped := False\<rparr>"
    using decodeFrame_spec [OF True] by blast
  then show ?thesis using True send_frame_spec [OF assms, of c bs] by (simp add: send_frame_def tx_def)
next
  case False
  then show ?thesis using send_frame_spec [OF assms, of c bs] by (simp add: send_frame_def)
qed

subsection \<open>Exchanges with the chip\<close>

primrec xfers :: "'d bus \<Rightarrow> u8 list \<Rightarrow> 'd \<Rightarrow> u8 list \<times> 'd" where
  "xfers B [] d = ([], d)"
| "xfers B (b # bs) d = (case bxfer B b d of (r, d) \<Rightarrow> case xfers B bs d of (rs, d) \<Rightarrow> (r # rs, d))"

text \<open>The chip is selected, bytes are exchanged, and it is deselected.\<close>

definition transact :: "'d bus \<Rightarrow> u8 list \<Rightarrow> 'd \<Rightarrow> u8 list \<times> 'd" where
  "transact B bs d = (case xfers B bs (bsel B d) of (rs, d) \<Rightarrow> (rs, bdesel B d))"

definition addr_bytes :: "u32 \<Rightarrow> u8 list" where
  "addr_bytes a = [ucast (drop_bit 16 a), ucast (drop_bit 8 a), ucast a]"

lemma xfers_append: "xfers B (xs @ ys) d =
    (case xfers B xs d of (rs, d) \<Rightarrow> case xfers B ys d of (qs, d) \<Rightarrow> (rs @ qs, d))"
  by (induction xs arbitrary: d) (simp_all split: prod.split)

lemma length_xfers: "length (fst (xfers B bs d)) = length bs"
  by (induction bs arbitrary: d) (simp_all split: prod.split, metis fst_conv)

lemma fold_fsend: "fold (fsend B) bs s = s\<lparr>fdev := snd (xfers B bs (fdev s))\<rparr>"
  by (induction bs arbitrary: s) (simp_all add: fsend_def fxfer_def split: prod.split)

lemma read_bytes_xfers: "read_bytes B n s =
    (fst (xfers B (replicate n 0) (fdev s)), s\<lparr>fdev := snd (xfers B (replicate n 0) (fdev s))\<rparr>)"
  by (induction n arbitrary: s) (simp_all add: fxfer_def split: prod.split)

lemma fcmd_fold: "fcmd B c s = fold (fsend B) [c] (upd_dev (bsel B) s)"
  by (simp add: fcmd_def)

lemma send_address_fold: "send_address B a s = fold (fsend B) (addr_bytes a) s"
  by (simp add: send_address_def addr_bytes_def)

text \<open>The driver's operations as exchanges.\<close>

lemma command_transact: "upd_dev (bdesel B) (fcmd B c s) = s\<lparr>fdev := snd (transact B [c] (fdev s))\<rparr>"
  by (simp add: fcmd_def fsend_def fxfer_def upd_dev_def transact_def split: prod.split)

lemma readStat1_transact: "readStat1 B s =
    (fst (transact B [READSTAT1, 0] (fdev s)) ! 1, s\<lparr>fdev := snd (transact B [READSTAT1, 0] (fdev s))\<rparr>)"
  by (simp add: readStat1_def fcmd_def fsend_def fxfer_def upd_dev_def transact_def split: prod.split)

lemma read_transact: "(case read_bytes B n (beginRead B a s) of (bs, s) \<Rightarrow> (bs, endProcess B s)) =
    (case transact B (READDATA # addr_bytes a @ replicate n 0) (fdev s) of (rs, d) \<Rightarrow> (drop 4 rs, s\<lparr>fdev := d\<rparr>))"
proof -
  have l: "length (fst (xfers B (READDATA # addr_bytes a) (bsel B (fdev s)))) = 4"
    unfolding length_xfers by (simp add: addr_bytes_def)
  have "READDATA # addr_bytes a @ replicate n 0 = (READDATA # addr_bytes a) @ replicate n 0" by simp
  then have t: "transact B (READDATA # addr_bytes a @ replicate n 0) (fdev s) =
      (case xfers B (READDATA # addr_bytes a) (bsel B (fdev s)) of (rs, d) \<Rightarrow>
       case xfers B (replicate n 0) d of (qs, d) \<Rightarrow> (rs @ qs, bdesel B d))"
    unfolding transact_def by (simp only: xfers_append split: prod.split) simp
  have b: "beginRead B a s = s\<lparr>fdev := snd (xfers B (READDATA # addr_bytes a) (bsel B (fdev s)))\<rparr>"
    unfolding beginRead_def send_address_fold fcmd_def
    using fold_fsend [of B "READDATA # addr_bytes a" "upd_dev (bsel B) s"] by (simp add: upd_dev_def)
  obtain rs d where x: "xfers B (READDATA # addr_bytes a) (bsel B (fdev s)) = (rs, d)" by fastforce
  then have "length rs = 4" using l by simp
  then show ?thesis unfolding t b x by (simp add: read_bytes_xfers endProcess_def upd_dev_def split: prod.split)
qed

lemma write_transact: "endProcess B (fold (fsend B) bs (beginWrite B a s)) =
    s\<lparr>fdev := snd (transact B (PAGEPROG # addr_bytes a @ bs) (fdev s))\<rparr>"
proof -
  have "fold (fsend B) bs (beginWrite B a s) = fold (fsend B) (PAGEPROG # addr_bytes a @ bs) (upd_dev (bsel B) s)"
    by (simp add: beginWrite_def send_address_fold fcmd_fold)
  then show ?thesis unfolding fold_fsend by (simp add: endProcess_def upd_dev_def transact_def split: prod.split)
qed

subsection \<open>A flash chip\<close>

text \<open>
  What the data sheet of a serial NOR flash promises. \<open>R m w d\<close>: the chip behind the wires is awake
  and holds \<open>m\<close>; \<open>w\<close> is its write enable latch. \<open>A m d\<close>: it holds \<open>m\<close>, awake or powered down. An
  awake chip becomes ready within ten milliseconds; the latch shows in the status; a read delivers
  bytes from the address on; a page program clears bits of its page and the latch; release wakes the
  chip and power down puts it to sleep. Drawing a random number does not touch it.
\<close>

definition program :: "(u32 \<Rightarrow> u8) \<Rightarrow> u32 \<Rightarrow> u8 list \<Rightarrow> u32 \<Rightarrow> u8" where
  "program m a bs x = (if unat (x - a) < length bs then m x AND bs ! unat (x - a) else m x)"

definition nor_flash :: "'d bus \<Rightarrow> ((u32 \<Rightarrow> u8) \<Rightarrow> bool \<Rightarrow> 'd \<Rightarrow> bool) \<Rightarrow> ((u32 \<Rightarrow> u8) \<Rightarrow> 'd \<Rightarrow> bool) \<Rightarrow> bool" where
  "nor_flash B R A \<longleftrightarrow>
     (\<forall>m w s. R m w (fdev s) \<longrightarrow> (\<exists>d. notBusy B 10 s = Ok (True, s\<lparr>fdev := d\<rparr>) \<and> R m w d)) \<and>
     (\<forall>m w d. R m w d \<longrightarrow> R m w (snd (transact B [READSTAT1, 0] d)) \<and>
        (w \<longrightarrow> fst (transact B [READSTAT1, 0] d) ! 1 AND WRTEN \<noteq> 0)) \<and>
     (\<forall>m w d. R m w d \<longrightarrow> R m True (snd (transact B [WRITEENABLE] d))) \<and>
     (\<forall>m w d a n. R m w d \<longrightarrow> a < 2 ^ 24 \<longrightarrow> (case transact B (READDATA # addr_bytes a @ replicate n 0) d of (rs, d') \<Rightarrow>
        R m w d' \<and> drop 4 rs = map (\<lambda>i. m (a + of_nat i)) [0..<n])) \<and>
     (\<forall>m d a bs. R m True d \<longrightarrow> a < 2 ^ 24 \<longrightarrow> a AND 0xFF = 0 \<longrightarrow> length bs = 256 \<longrightarrow>
        R (program m a bs) False (snd (transact B (PAGEPROG # addr_bytes a @ bs) d))) \<and>
     (\<forall>m w d. R m w d \<longrightarrow> R m w (snd (brand B d))) \<and>
     (\<forall>m w d. R m w d \<longrightarrow> A m (snd (transact B [POWERDOWN] d))) \<and>
     (\<forall>m d. A m d \<longrightarrow> A m (snd (transact B [READSTAT1, 0] d)) \<and> (\<exists>w. R m w (snd (transact B [RELEASE] d))))"

lemma nor_flashD:
  assumes "nor_flash B R A"
  shows "R m w (fdev s) \<Longrightarrow> \<exists>d. notBusy B 10 s = Ok (True, s\<lparr>fdev := d\<rparr>) \<and> R m w d"
    "R m w d \<Longrightarrow> R m w (snd (transact B [READSTAT1, 0] d))"
    "R m True d \<Longrightarrow> fst (transact B [READSTAT1, 0] d) ! 1 AND WRTEN \<noteq> 0"
    "R m w d \<Longrightarrow> R m True (snd (transact B [WRITEENABLE] d))"
    "R m w d \<Longrightarrow> a < 2 ^ 24 \<Longrightarrow> transact B (READDATA # addr_bytes a @ replicate n 0) d = (rs, d') \<Longrightarrow>
       R m w d' \<and> drop 4 rs = map (\<lambda>i. m (a + of_nat i)) [0..<n]"
    "R m True d \<Longrightarrow> a < 2 ^ 24 \<Longrightarrow> a AND 0xFF = 0 \<Longrightarrow> length bs = 256 \<Longrightarrow>
       R (program m a bs) False (snd (transact B (PAGEPROG # addr_bytes a @ bs) d))"
    "R m w d \<Longrightarrow> R m w (snd (brand B d))"
    "R m w d \<Longrightarrow> A m (snd (transact B [POWERDOWN] d))"
    "A m d \<Longrightarrow> A m (snd (transact B [READSTAT1, 0] d))" "A m d \<Longrightarrow> \<exists>w. R m w (snd (transact B [RELEASE] d))"
proof -
  note N = assms [unfolded nor_flash_def]
  note N1 = conjunct1 [OF N] and T1 = conjunct2 [OF N]
  note N2 = conjunct1 [OF T1] and T2 = conjunct2 [OF T1]
  note N3 = conjunct1 [OF T2] and T3 = conjunct2 [OF T2]
  note N4 = conjunct1 [OF T3] and T4 = conjunct2 [OF T3]
  note N5 = conjunct1 [OF T4] and T5 = conjunct2 [OF T4]
  note N6 = conjunct1 [OF T5] and T6 = conjunct2 [OF T5]
  note N7 = conjunct1 [OF T6] and N8 = conjunct2 [OF T6]
  show "R m w (fdev s) \<Longrightarrow> \<exists>d. notBusy B 10 s = Ok (True, s\<lparr>fdev := d\<rparr>) \<and> R m w d"
    by (rule N1 [rule_format])
  show "R m w d \<Longrightarrow> R m w (snd (transact B [READSTAT1, 0] d))"
    "R m True d \<Longrightarrow> fst (transact B [READSTAT1, 0] d) ! 1 AND WRTEN \<noteq> 0"
    using N2 by blast+
  show "R m w d \<Longrightarrow> R m True (snd (transact B [WRITEENABLE] d))" by (rule N3 [rule_format])
  show "R m w d \<Longrightarrow> a < 2 ^ 24 \<Longrightarrow> transact B (READDATA # addr_bytes a @ replicate n 0) d = (rs, d') \<Longrightarrow>
      R m w d' \<and> drop 4 rs = map (\<lambda>i. m (a + of_nat i)) [0..<n]"
    using N4 [rule_format, of m w d a n] by simp
  show "R m True d \<Longrightarrow> a < 2 ^ 24 \<Longrightarrow> a AND 0xFF = 0 \<Longrightarrow> length bs = 256 \<Longrightarrow>
      R (program m a bs) False (snd (transact B (PAGEPROG # addr_bytes a @ bs) d))"
    by (rule N5 [rule_format])
  show "R m w d \<Longrightarrow> R m w (snd (brand B d))" by (rule N6 [rule_format])
  show "R m w d \<Longrightarrow> A m (snd (transact B [POWERDOWN] d))" by (rule N7 [rule_format])
  show "A m d \<Longrightarrow> A m (snd (transact B [READSTAT1, 0] d))" "A m d \<Longrightarrow> \<exists>w. R m w (snd (transact B [RELEASE] d))"
    using N8 by blast+
qed

text \<open>The address of a page, and its bytes.\<close>

definition page_addr :: "u16 \<Rightarrow> u32" where
  "page_addr p = push_bit 8 (ucast p)"

definition page_bytes :: "(u32 \<Rightarrow> u8) \<Rightarrow> u16 \<Rightarrow> u8 list" where
  "page_bytes m p = map (\<lambda>i. m (page_addr p + of_nat i)) [0..<256]"

lemma page_addr_facts:
  "unat (page_addr p) = 256 * unat p" "i < 256 \<Longrightarrow> page_addr p + of_nat i < 2 ^ 24" "page_addr p AND 0xFF = 0"
  "page_addr p = 0 \<longleftrightarrow> p = 0"
proof -
  have p: "unat p < 65536" using unsigned_less [of p] by simp
  show u: "unat (page_addr p) = 256 * unat p"
    using p by (simp add: page_addr_def push_bit_eq_mult unat_word_ariths unsigned_ucast_eq take_bit_nat_eq_self)
  show "page_addr p + of_nat i < 2 ^ 24" if "i < 256"
    using p that u by (simp add: word_less_nat_alt unat_word_ariths unat_of_nat)
  show "page_addr p AND 0xFF = 0"
  proof -
    have "(0xFF :: u32) = mask 8" by (simp add: mask_eq_exp_minus_1)
    then have "page_addr p AND 0xFF = take_bit 8 (page_addr p)" by (simp only: take_bit_eq_mask)
    then show ?thesis by (simp add: page_addr_def take_bit_push_bit)
  qed
  show "page_addr p = 0 \<longleftrightarrow> p = 0" using u by (simp add: word_unat_eq_iff)
qed

text \<open>The driver on such a chip.\<close>

lemma prepRead_ready:
  assumes N: "nor_flash B R A" and r: "R m w (fdev s)" "page_overflow s"
  shows "\<exists>d. prepRead B a s = Ok (a, s\<lparr>fdev := d\<rparr>) \<and> R m w d"
proof -
  obtain d where "notBusy B 10 s = Ok (True, s\<lparr>fdev := d\<rparr>)" "R m w d" using nor_flashD(1) [where s = s, OF N r(1)] by blast
  then show ?thesis using r(2) by (intro exI [of _ d]) (simp add: prepRead_def addressCheck_def)
qed

lemma read_ready:
  assumes N: "nor_flash B R A" and r: "R m w (fdev s)" "a < 2 ^ 24"
  shows "\<exists>d. (case read_bytes B n (beginRead B a s) of (bs, s) \<Rightarrow> (bs, endProcess B s)) =
      (map (\<lambda>i. m (a + of_nat i)) [0..<n], s\<lparr>fdev := d\<rparr>) \<and> R m w d"
proof -
  obtain rs d where t: "transact B (READDATA # addr_bytes a @ replicate n 0) (fdev s) = (rs, d)" by fastforce
  then show ?thesis using nor_flashD(5) [OF N r t] by (intro exI [of _ d]) (simp add: read_transact)
qed

lemma read_one: "(case fxfer B 0 (beginRead B a s) of (b, s) \<Rightarrow> f b s (endProcess B s)) =
    (case read_bytes B 1 (beginRead B a s) of (bs, s) \<Rightarrow> f (hd bs) s (endProcess B s))"
  by (simp split: prod.split)

lemma readByte_ready:
  assumes N: "nor_flash B R A" and r: "R m w (fdev s)" "page_overflow s" "a \<noteq> 0" "a < 2 ^ 24"
  shows "\<exists>d. readByte B a s = Ok (m a, s\<lparr>fdev := d\<rparr>) \<and> R m w d"
proof -
  obtain d where 1: "prepRead B a s = Ok (a, s\<lparr>fdev := d\<rparr>)" "R m w d" using prepRead_ready [OF N r(1,2)] by blast
  obtain d' where 2: "(case read_bytes B 1 (beginRead B a (s\<lparr>fdev := d\<rparr>)) of (bs, s) \<Rightarrow> (bs, endProcess B s)) =
      ([m a], s\<lparr>fdev := d'\<rparr>)" "R m w d'"
    using read_ready [OF N, of m w "s\<lparr>fdev := d\<rparr>" a 1] 1(2) r(4) by auto
  have "(case fxfer B 0 (beginRead B a (s\<lparr>fdev := d\<rparr>)) of (b, s) \<Rightarrow> Ok (b, endProcess B s)) = Ok (m a, s\<lparr>fdev := d'\<rparr>)"
    using 2(1) by (auto split: prod.splits)
  then show ?thesis using 1(1) 2(2) r(3) by (intro exI [of _ d']) (simp add: readByte_def)
qed

lemma readPage_ready:
  assumes N: "nor_flash B R A" and r: "R m w (fdev s)" "page_overflow s"
  shows "\<exists>d. readPage B p s = Ok (page_bytes m p, s\<lparr>fdev := d\<rparr>) \<and> R m w d"
proof -
  have a: "getAddress p 0 s = page_addr p" using r(2) by (simp add: getAddress_def page_addr_def addressCheck_def Let_def)
  obtain d where 1: "prepRead B (page_addr p) s = Ok (page_addr p, s\<lparr>fdev := d\<rparr>)" "R m w d"
    using prepRead_ready [OF N r] by blast
  obtain d' where 2: "(case read_bytes B 256 (beginRead B (page_addr p) (s\<lparr>fdev := d\<rparr>)) of (bs, s) \<Rightarrow> (bs, endProcess B s)) =
      (page_bytes m p, s\<lparr>fdev := d'\<rparr>)" "R m w d'"
    using read_ready [OF N, of m w "s\<lparr>fdev := d\<rparr>" "page_addr p" 256] 1(2) page_addr_facts(2) [of 0 p] by (auto simp: page_bytes_def)
  have "(case read_bytes B 256 (beginRead B (page_addr p) (s\<lparr>fdev := d\<rparr>)) of (bs, s) \<Rightarrow> Ok (bs, endProcess B s)) =
      Ok (page_bytes m p, s\<lparr>fdev := d'\<rparr>)" using 2(1) by (auto split: prod.splits)
  then show ?thesis using 1(1) 2(2) by (intro exI [of _ d']) (simp add: readPage_def prepRead_page_def a)
qed

lemma sample_addresses_ready:
  assumes N: "nor_flash B R A" and "R m w (fdev s)"
  shows "\<exists>addrs d. sample_addresses B a 2 n s = (addrs, s\<lparr>fdev := d\<rparr>) \<and> R m w d \<and> set addrs \<subseteq> {a, a + 1}"
  using assms(2)
proof (induction n arbitrary: s)
  case 0
  have "s = s\<lparr>fdev := fdev s\<rparr>" by simp
  then show ?case using 0 by (intro exI [of _ "[]"] exI [of _ "fdev s"]) simp
next
  case (Suc n)
  obtain r d where b: "brand B (fdev s) = (r, d)" by fastforce
  then have "R m w (fdev (s\<lparr>fdev := d\<rparr>))" using nor_flashD(7) [OF N Suc.prems] by simp
  from Suc.IH [OF this] obtain addrs d' where i: "sample_addresses B a 2 n (s\<lparr>fdev := d\<rparr>) = (addrs, s\<lparr>fdev := d'\<rparr>)" "R m w d'"
    "set addrs \<subseteq> {a, a + 1}" by auto
  have "r mod 2 = 0 \<or> r mod 2 = 1" by linarith
  then have "of_nat (r mod 2) + a \<in> {a, a + 1}" by auto
  then show ?case using b i by (intro exI [of _ "(of_nat (r mod 2) + a) # addrs"] exI [of _ d']) (simp add: frand_def)
qed

lemma samples_erased_ready:
  assumes N: "nor_flash B R A" and "R m w (fdev s)" "page_overflow s" "\<forall>a \<in> set addrs. a \<noteq> 0 \<and> a < 2 ^ 24 \<and> m a = 0xFF"
  shows "\<exists>d. samples_erased B addrs s = Ok (True, s\<lparr>fdev := d\<rparr>) \<and> R m w d"
  using assms(2-4)
proof (induction addrs arbitrary: s)
  case Nil
  have "s = s\<lparr>fdev := fdev s\<rparr>" by simp
  then show ?case using Nil by (metis samples_erased.simps(1))
next
  case (Cons a addrs)
  obtain d where 1: "readByte B a s = Ok (m a, s\<lparr>fdev := d\<rparr>)" "R m w d"
    using readByte_ready [OF N Cons.prems(1,2), of a] Cons.prems(3) by auto
  then show ?case using Cons.IH [of "s\<lparr>fdev := d\<rparr>"] Cons.prems by simp
qed

lemma writePage_ready:
  assumes N: "nor_flash B R A" and r: "R m w (fdev s)" "page_overflow s"
    and e: "p \<noteq> 0" "\<forall>i < 256. m (page_addr p + of_nat i) = 0xFF" "length bs = 256"
  shows "\<exists>d. writePage B p bs s = Ok (True, s\<lparr>fdev := d\<rparr>) \<and> R (program m (page_addr p) bs) False d"
proof -
  let ?a = "page_addr p"
  have a: "getAddress p 0 s = ?a" using r(2) by (simp add: getAddress_def page_addr_def addressCheck_def Let_def)
  have nz: "?a \<noteq> 0" using e(1) page_addr_facts(4) by blast
  have l: "?a < 2 ^ 24" "?a + 1 < 2 ^ 24" using page_addr_facts(2) [of 0 p] page_addr_facts(2) [of 1 p] by simp_all
  have "?a + 1 \<noteq> 0" using page_addr_facts(1) [of p] l by (auto simp: word_unat_eq_iff word_less_nat_alt unat_word_ariths)
  then have er: "\<forall>x \<in> {?a, ?a + 1}. x \<noteq> 0 \<and> x < 2 ^ 24 \<and> m x = 0xFF"
    using nz l e(2) [rule_format, of 0] e(2) [rule_format, of 1] by simp
  obtain d1 where 1: "notBusy B 10 s = Ok (True, s\<lparr>fdev := d1\<rparr>)" "R m w d1" using nor_flashD(1) [where s = s, OF N r(1)] by blast
  let ?d2 = "snd (transact B [READSTAT1, 0] (snd (transact B [WRITEENABLE] d1)))"
  have en: "R m True (snd (transact B [WRITEENABLE] d1))" by (rule nor_flashD(4) [OF N 1(2)])
  have we: "writeEnable B (s\<lparr>fdev := d1\<rparr>) = (True, s\<lparr>fdev := ?d2\<rparr>)" "R m True ?d2"
    using nor_flashD(3) [OF N en] nor_flashD(2) [OF N en] by (simp_all add: writeEnable_def command_transact readStat1_transact)
  have pw: "prepWrite_page B p s = Ok (?a, s\<lparr>fdev := ?d2\<rparr>)"
    using 1(1) we(1) r(2) by (simp add: prepWrite_page_def prepWrite_def a addressCheck_def)
  obtain addrs d3 where 3: "sample_addresses B ?a 2 2 (s\<lparr>fdev := ?d2\<rparr>) = (addrs, s\<lparr>fdev := d3\<rparr>)" "R m True d3" "set addrs \<subseteq> {?a, ?a + 1}"
    using sample_addresses_ready [OF N, of m True "s\<lparr>fdev := ?d2\<rparr>" ?a 2] we(2) by auto
  have er3: "\<forall>x \<in> set addrs. x \<noteq> 0 \<and> x < 2 ^ 24 \<and> m x = 0xFF" using er 3(3) by blast
  obtain d4 where 4: "samples_erased B addrs (s\<lparr>fdev := d3\<rparr>) = Ok (True, s\<lparr>fdev := d4\<rparr>)" "R m True d4"
    using samples_erased_ready [OF N, of m True "s\<lparr>fdev := d3\<rparr>" addrs] 3(2) er3 r(2) by auto
  have np: "notPrevWritten B ?a 2 (s\<lparr>fdev := ?d2\<rparr>) = Ok (True, s\<lparr>fdev := d4\<rparr>)"
    using 3(1) 4(1) by (simp add: notPrevWritten_def)
  let ?d5 = "snd (transact B (PAGEPROG # addr_bytes ?a @ bs) d4)" and ?m = "program m ?a bs"
  have 5: "R ?m False ?d5" by (rule nor_flashD(6) [OF N 4(2) l(1) page_addr_facts(3) e(3)])
  obtain d6 where 6: "prepRead B ?a (s\<lparr>fdev := ?d5\<rparr>) = Ok (?a, s\<lparr>fdev := d6\<rparr>)" "R ?m False d6"
    using prepRead_ready [OF N, of ?m False "s\<lparr>fdev := ?d5\<rparr>" ?a] 5 r(2) by auto
  obtain d7 where 7: "(case read_bytes B 1 (beginRead B ?a (s\<lparr>fdev := d6\<rparr>)) of (bs, s) \<Rightarrow> (bs, endProcess B s)) =
      ([?m ?a], s\<lparr>fdev := d7\<rparr>)" "R ?m False d7"
    using read_ready [OF N, of ?m False "s\<lparr>fdev := d6\<rparr>" ?a 1] 6(2) l(1) by auto
  have ff: "(0xFF :: u8) AND x = x" for x by (rule bit_word_eqI) (auto simp: bit_simps less_Suc_eq numeral_eq_Suc)
  have "?m ?a = hd bs" using e(3) e(2) [rule_format, of 0] by (cases bs) (auto simp: program_def ff)
  then have "writeErrorCheck B ?a (hd bs) (s\<lparr>fdev := ?d5\<rparr>) = Ok (True, s\<lparr>fdev := d7\<rparr>)"
    using 6(1) 7(1) nz by (simp add: writeErrorCheck_def split: prod.splits)
  then have "writePage B p bs s = Ok (True, s\<lparr>fdev := d7\<rparr>)"
    using pw np e(3) by (simp add: writePage_def write_transact)
  then show ?thesis using 7(2) by blast
qed

lemma powerUp_wakes:
  assumes N: "nor_flash B R A" and "A m (fdev s)"
  shows "\<exists>d w. snd (powerUp B s) = s\<lparr>fdev := d\<rparr> \<and> R m w d"
proof -
  obtain w where "R m w (snd (transact B [RELEASE] (fdev s)))" using nor_flashD(10) [OF N assms(2)] by blast
  then have "R m w (snd (transact B [READSTAT1, 0] (snd (transact B [RELEASE] (fdev s)))))" by (rule nor_flashD(2) [OF N])
  moreover have "snd (powerUp B s) = s\<lparr>fdev := snd (transact B [READSTAT1, 0] (snd (transact B [RELEASE] (fdev s))))\<rparr>"
    by (simp add: powerUp_def command_transact readStat1_transact)
  ultimately show ?thesis by blast
qed

lemma powerDown_sleeps:
  assumes N: "nor_flash B R A" and r: "R m w (fdev s)"
  shows "\<exists>x d. powerDown B s = Ok (x, s\<lparr>fdev := d\<rparr>) \<and> A m d"
proof -
  obtain d1 where 1: "notBusy B 10 s = Ok (True, s\<lparr>fdev := d1\<rparr>)" "R m w d1" using nor_flashD(1) [where s = s, OF N r] by blast
  let ?st = "\<lambda>d. snd (transact B [READSTAT1, 0] d)"
  define d2 where "d2 = snd (transact B [POWERDOWN] d1)"
  have A: "A m (?st (?st (?st d2)))" "A m (?st (?st (?st (?st (?st d2)))))"
    using nor_flashD(8) [OF N 1(2), folded d2_def] nor_flashD(9) [OF N] by blast+
  then show ?thesis
    using 1(1) by (auto simp: powerDown_def command_transact readStat1_transact d2_def [symmetric])
qed

subsection \<open>A chip that keeps to the data sheet\<close>

text \<open>The bytes since the chip was selected decide what it answers and what it does when deselected.\<close>

record chip =
  cmem :: "u32 \<Rightarrow> u8"
  cwel :: bool
  casleep :: bool
  cgot :: "u8 list"

definition got_addr :: "u8 list \<Rightarrow> u32" where
  "got_addr g = push_bit 16 (ucast (g ! 1)) OR push_bit 8 (ucast (g ! 2)) OR ucast (g ! 3)"

definition chip_reply :: "chip \<Rightarrow> u8" where
  "chip_reply c =
     (let g = cgot c
      in if casleep c \<or> g = [] then 0xFF
         else if hd g = READSTAT1 then (if cwel c then WRTEN else 0)
         else if hd g = READDATA \<and> 4 \<le> length g then cmem c (got_addr g + of_nat (length g - 4))
         else 0xFF)"

definition chip_act :: "chip \<Rightarrow> chip" where
  "chip_act c =
     (let g = cgot c
      in if casleep c then c\<lparr>casleep := g \<noteq> [RELEASE]\<rparr>
         else if g = [WRITEENABLE] then c\<lparr>cwel := True\<rparr>
         else if g = [POWERDOWN] then c\<lparr>casleep := True\<rparr>
         else if g \<noteq> [] \<and> hd g = PAGEPROG \<and> cwel c \<and> 4 \<le> length g
         then c\<lparr>cmem := program (cmem c) (got_addr g) (drop 4 g), cwel := False\<rparr>
         else c)"

definition chip_bus :: "chip bus" where
  "chip_bus = \<lparr>bsel = cgot_update (\<lambda>_. []), bdesel = chip_act, bxfer = (\<lambda>b c. (chip_reply c, c\<lparr>cgot := cgot c @ [b]\<rparr>)),
     bmillis = Pair 0, brand = Pair 7\<rparr>"

definition chip_awake :: "(u32 \<Rightarrow> u8) \<Rightarrow> bool \<Rightarrow> chip \<Rightarrow> bool" where
  "chip_awake m w c \<longleftrightarrow> cmem c = m \<and> cwel c = w \<and> \<not> casleep c"

definition chip_holds :: "(u32 \<Rightarrow> u8) \<Rightarrow> chip \<Rightarrow> bool" where
  "chip_holds m c \<longleftrightarrow> cmem c = m"

lemma chip_xfers: "xfers chip_bus bs c =
    (map (\<lambda>i. chip_reply (c\<lparr>cgot := cgot c @ take i bs\<rparr>)) [0..<length bs], c\<lparr>cgot := cgot c @ bs\<rparr>)"
proof (induction bs arbitrary: c)
  case (Cons b bs)
  have "[0..<length (b # bs)] = 0 # map Suc [0..<length bs]" by (simp add: upt_conv_Cons map_Suc_upt del: upt_Suc)
  then show ?case using Cons by (simp add: chip_bus_def o_def)
qed simp

lemma chip_transact: "transact chip_bus bs c =
    (map (\<lambda>i. chip_reply (c\<lparr>cgot := take i bs\<rparr>)) [0..<length bs], chip_act (c\<lparr>cgot := bs\<rparr>))"
  by (simp add: transact_def chip_xfers) (simp add: chip_bus_def)

lemma got_addr_bytes:
  assumes "a < 2 ^ 24"
  shows "got_addr (c # addr_bytes a @ bs) = a"
proof (rule bit_word_eqI)
  fix n :: nat assume n: "n < LENGTH(32)"
  have "take_bit 24 a = a" using assms by (simp add: word_unat_eq_iff unsigned_take_bit_eq take_bit_nat_eq_self word_less_nat_alt)
  then have hi: "\<not> bit a n" if "24 \<le> n" using that by (metis bit_take_bit_iff not_le)
  consider "n < 8" | "8 \<le> n" "n < 16" | "16 \<le> n" "n < 24" | "24 \<le> n" by linarith
  then show "bit (got_addr (c # addr_bytes a @ bs)) n \<longleftrightarrow> bit a n"
    using n hi by cases (auto simp: got_addr_def addr_bytes_def bit_simps)
qed

lemma chip_keeps_data_sheet: "nor_flash chip_bus chip_awake chip_holds"
proof -
  have st: "fst (transact chip_bus [READSTAT1, 0] c) ! 1 = (if casleep c then 0xFF else if cwel c then WRTEN else 0)"
    "snd (transact chip_bus [READSTAT1, 0] c) = c\<lparr>cgot := [READSTAT1, 0]\<rparr>" for c
    by (simp_all add: chip_transact chip_reply_def chip_act_def READSTAT1_def RELEASE_def WRITEENABLE_def POWERDOWN_def PAGEPROG_def Let_def)
  have nb: "notBusy chip_bus 10 s = Ok (True, s\<lparr>fdev := (fdev s)\<lparr>cgot := [READSTAT1, 0]\<rparr>\<rparr>)" if "\<not> casleep (fdev s)" for s
  proof -
    have m: "fmillis chip_bus t = (0, t)" for t by (simp add: fmillis_def chip_bus_def)
    show ?thesis
      using that by (simp add: notBusy_def m notBusy_from.simps [of _ _ _ s] readStat1_transact st [unfolded One_nat_def] WRTEN_def BUSY_def)
  qed
  have rd: "drop 4 (fst (transact chip_bus (READDATA # addr_bytes a @ replicate n 0) c)) = map (\<lambda>i. cmem c (a + of_nat i)) [0..<n]"
    "cmem (snd (transact chip_bus (READDATA # addr_bytes a @ replicate n 0) c)) = cmem c \<and>
     cwel (snd (transact chip_bus (READDATA # addr_bytes a @ replicate n 0) c)) = cwel c \<and>
     \<not> casleep (snd (transact chip_bus (READDATA # addr_bytes a @ replicate n 0) c))" if "a < 2 ^ 24" "\<not> casleep c" for a n c
  proof -
    have l: "length (READDATA # addr_bytes a @ replicate n 0) = 4 + n" by (simp add: addr_bytes_def)
    have t: "take (4 + i) (READDATA # addr_bytes a @ replicate n 0) = READDATA # addr_bytes a @ replicate i 0" if "i < n" for i
      using that by (simp add: addr_bytes_def numeral_eq_Suc)
    have r: "chip_reply (c\<lparr>cgot := READDATA # addr_bytes a @ replicate i 0\<rparr>) = cmem c (a + of_nat i)" for i
      using that by (simp add: chip_reply_def Let_def got_addr_bytes READDATA_def READSTAT1_def) (simp add: addr_bytes_def)
    show "drop 4 (fst (transact chip_bus (READDATA # addr_bytes a @ replicate n 0) c)) = map (\<lambda>i. cmem c (a + of_nat i)) [0..<n]"
      unfolding chip_transact l fst_conv by (rule nth_equalityI) (simp_all add: t r)
    show "cmem (snd (transact chip_bus (READDATA # addr_bytes a @ replicate n 0) c)) = cmem c \<and>
     cwel (snd (transact chip_bus (READDATA # addr_bytes a @ replicate n 0) c)) = cwel c \<and>
     \<not> casleep (snd (transact chip_bus (READDATA # addr_bytes a @ replicate n 0) c))"
      using that by (simp add: chip_transact chip_act_def Let_def READDATA_def PAGEPROG_def WRITEENABLE_def POWERDOWN_def)
  qed
  have pg: "snd (transact chip_bus (PAGEPROG # addr_bytes a @ bs) c) =
      c\<lparr>cgot := PAGEPROG # addr_bytes a @ bs, cmem := program (cmem c) a bs, cwel := False\<rparr>" if "a < 2 ^ 24" "\<not> casleep c" "cwel c" for a bs c
    using that by (simp add: chip_transact chip_act_def Let_def PAGEPROG_def WRITEENABLE_def POWERDOWN_def got_addr_bytes) (simp add: addr_bytes_def)
  have rnd: "brand chip_bus = Pair 7" by (simp add: chip_bus_def)
  show ?thesis
    unfolding nor_flash_def
  proof (intro conjI allI impI)
    fix m w and s :: "chip flash" assume "chip_awake m w (fdev s)"
    then show "\<exists>d. notBusy chip_bus 10 s = Ok (True, s\<lparr>fdev := d\<rparr>) \<and> chip_awake m w d"
      by (intro exI [of _ "(fdev s)\<lparr>cgot := [READSTAT1, 0]\<rparr>"]) (simp add: nb chip_awake_def)
  next
    fix m w and c :: chip and a :: u32 and n assume "chip_awake m w c" "a < 2 ^ 24"
    then show "case transact chip_bus (READDATA # addr_bytes a @ replicate n 0) c of (rs, c') \<Rightarrow>
        chip_awake m w c' \<and> drop 4 rs = map (\<lambda>i. m (a + of_nat i)) [0..<n]"
      using rd [of a c n] by (auto simp: chip_awake_def split: prod.split)
  next
    fix m and c :: chip
    show "\<exists>w. chip_awake m w (snd (transact chip_bus [RELEASE] c))" if "chip_holds m c"
      using that by (intro exI [of _ "cwel c"])
        (simp add: chip_transact chip_act_def chip_awake_def chip_holds_def RELEASE_def WRITEENABLE_def POWERDOWN_def PAGEPROG_def Let_def)
  qed (auto simp: chip_awake_def chip_holds_def st [unfolded One_nat_def] pg rnd WRTEN_def,
      simp_all add: chip_transact chip_act_def WRITEENABLE_def POWERDOWN_def RELEASE_def PAGEPROG_def Let_def)
qed

subsection \<open>Writing a page\<close>

lemma with_flash_Ok: "f (flash_lib s) = Ok (r, l) \<Longrightarrow> with_flash f s = Ok (r, s\<lparr>flash_lib := l\<rparr>)"
  by (simp add: with_flash_def)

lemma flash_upd: "flash_lib s = fl\<lparr>fdev := d\<rparr> \<Longrightarrow> fdev (flash_lib s) = d \<and> page_overflow (flash_lib s) = page_overflow fl"
  by simp

lemma page_bytes_program: "length bs = 256 \<Longrightarrow> \<forall>i < 256. m (page_addr p + of_nat i) = 0xFF \<Longrightarrow> page_bytes (program m (page_addr p) bs) p = bs"
proof (rule nth_equalityI)
  have ff: "(0xFF :: u8) AND x = x" for x by (rule bit_word_eqI) (auto simp: bit_simps less_Suc_eq numeral_eq_Suc)
  fix i assume b: "length bs = 256" and m: "\<forall>i < 256. m (page_addr p + of_nat i) = 0xFF"
    and i: "i < length (page_bytes (program m (page_addr p) bs) p)"
  then show "page_bytes (program m (page_addr p) bs) p ! i = bs ! i"
    by (simp add: page_bytes_def program_def unat_of_nat ff)
qed (simp add: page_bytes_def)

lemma writepage_ready:
  assumes N: "nor_flash B R A" and r: "A m (fdev (flash_lib s))" "page_overflow (flash_lib s)"
    and e: "p \<noteq> 0" "\<forall>i < 256. m (page_addr p + of_nat i) = 0xFF" "map (\<lambda>x. rxframe s ! (x + 3)) [0..<256] = bs"
    and T: "length (txframe s) = 512"
  shows "\<exists>s'. writepage B p s = Ok s' \<and> A (program m (page_addr p) bs) (fdev (flash_lib s')) \<and>
    serial_out s' = serial_out s @ frame_of ICE_READY [] \<and> serial_in s' = serial_in s"
proof -
  have l: "length bs = 256" using e(3) by auto
  let ?f = "flash_lib s" and ?m = "program m (page_addr p) bs"
  obtain d1 w where 1: "snd (powerUp B ?f) = ?f\<lparr>fdev := d1\<rparr>" "R m w d1" using powerUp_wakes [OF N r(1)] by blast
  obtain d2 where 2: "writePage B p bs (?f\<lparr>fdev := d1\<rparr>) = Ok (True, ?f\<lparr>fdev := d2\<rparr>)" "R ?m False d2"
    using writePage_ready [OF N, of m w "?f\<lparr>fdev := d1\<rparr>" p bs] 1(2) r(2) e(1,2) l by auto
  obtain d3 where 3: "readPage B p (?f\<lparr>fdev := d2\<rparr>) = Ok (bs, ?f\<lparr>fdev := d3\<rparr>)" "R ?m False d3"
    using readPage_ready [OF N, of ?m False "?f\<lparr>fdev := d2\<rparr>" p] 2(2) r(2) page_bytes_program [OF l e(2)] by auto
  obtain x d4 where 4: "powerDown B (?f\<lparr>fdev := d3\<rparr>) = Ok (x, ?f\<lparr>fdev := d4\<rparr>)" "A ?m d4"
    using powerDown_sleeps [OF N, of ?m False "?f\<lparr>fdev := d3\<rparr>"] 3(2) by auto
  let ?s = "s\<lparr>membuf := bs, data_buffer := bs, flash_lib := ?f\<lparr>fdev := d4\<rparr>\<rparr>"
  have "writepage B p s = send_frame ICE_READY [] ?s"
    unfolding writepage_def power_up_def power_down_def with_flash_def send_frame_def
    using 1(1) 2(1) 3(1) 4(1) e(3) by (simp add: Let_def)
  moreover have "length (frame_of ICE_READY []) \<le> 512" by (simp add: frame_of_def frame_sum_def enc_byte_def)
  ultimately show ?thesis
    using send_frame_spec [of ?s ICE_READY "[]"] T 4(2) by (simp add: tx_def)
qed


subsection \<open>A page written on the chip\<close>

definition demo_ice :: "chip ice" where
  "demo_ice = \<lparr>isProg = True, rxframe = replicate 512 0, txframe = replicate 512 0, fcs = 0, rfcs = 0, membuf = replicate 256 0,
     data_buffer = replicate 256 0, txp = 0, maxPage = 0, escaped = False,
     flash_lib = \<lparr>fdev = \<lparr>cmem = (\<lambda>_. 0xFF), cwel = False, casleep = True, cgot = []\<rparr>, fcapacity = 0, page_overflow = True\<rparr>,
     reset_pin = True, serial_in = [], serial_out = [], serial1_in = [], serial1_out = []\<rparr>"

lemma enc_replicate: "enc (replicate n b) = concat (replicate n (enc_byte b))"
  by (simp add: enc_def)

lemma length_enc_byte: "length (enc_byte b) \<le> 2"
  by (simp add: enc_byte_def)

lemma demo_frame: "length (frame_of ICE_PROG (0 # 1 # replicate 256 0xC7)) \<le> 512"
proof -
  have "length (enc (replicate 256 0xC7)) = 256"
    by (simp add: enc_replicate enc_byte_def FEND_def FESC_def length_concat sum_list_replicate)
  moreover have "enc_byte 0 = [0]" "enc_byte 1 = [1]" by (simp_all add: enc_byte_def FEND_def FESC_def)
  ultimately show ?thesis
    using length_enc_byte [of "frame_sum ICE_PROG (0 # 1 # replicate 256 0xC7)"]
    by (simp only: frame_of_def enc_simps append_Cons append_Nil length_append list.size)
qed

lemma frame_reads_back_witness:
  "(\<exists>s'. seq (addbytes [0xC0, 0xDB, 7] (startframe ICE_READ demo_ice)) sendframe = Ok s' \<and>
      serial_out s' = [0xC0, 3, 0xDB, 0xDC, 0xDB, 0xDD, 7, 0x5A, 0xC0]) \<and>
   (let d = decodeFrame (received [0xC0, 3, 0xDB, 0xDC, 0xDB, 0xDD, 7, 0x5A, 0xC0] demo_ice)
    in rxframe d ! 0 = 3 \<and> take 3 (drop 1 (rxframe d)) = [0xC0, 0xDB, 7] \<and> rfcs d = 0xFF)"
proof -
  have f: "frame_of ICE_READ [0xC0, 0xDB, 7] = [0xC0, 3, 0xDB, 0xDC, 0xDB, 0xDD, 7, 0x5A, 0xC0]"
    by (simp add: frame_of_def frame_sum_def enc_byte_def FEND_def FESC_def TFEND_def TFESC_def ICE_READ_def)
  have l: "length (txframe demo_ice) = 512" "serial_out demo_ice = []" by (simp_all add: demo_ice_def)
  show ?thesis using frame_reads_back [OF l(1), of ICE_READ "[0xC0, 0xDB, 7]" demo_ice] unfolding f l(2)
    by (auto simp: ICE_READ_def numeral_3_eq_3)
qed


subsection \<open>What can go wrong\<close>

text \<open>
  The driver takes address 0 for a failure. On a healthy chip \<open>writePage\<close> therefore gives up on page 0
  when the address sampled first is 0, whatever the chip holds: nothing is programmed.
\<close>

theorem page_zero_not_written:
  assumes N: "nor_flash B R A" and r: "R m w (fdev s)" "page_overflow s" and even: "\<And>d. even (fst (brand B d))"
  shows "\<exists>d. writePage B 0 bs s = Ok (False, s\<lparr>fdev := d\<rparr>) \<and> R m True d"
proof -
  have a: "getAddress 0 0 s = 0" by (simp add: getAddress_def Let_def)
  obtain d1 where 1: "notBusy B 10 s = Ok (True, s\<lparr>fdev := d1\<rparr>)" "R m w d1" using nor_flashD(1) [where s = s, OF N r(1)] by blast
  let ?d2 = "snd (transact B [READSTAT1, 0] (snd (transact B [WRITEENABLE] d1)))"
  have en: "R m True (snd (transact B [WRITEENABLE] d1))" by (rule nor_flashD(4) [OF N 1(2)])
  have we: "writeEnable B (s\<lparr>fdev := d1\<rparr>) = (True, s\<lparr>fdev := ?d2\<rparr>)" "R m True ?d2"
    using nor_flashD(3) [OF N en] nor_flashD(2) [OF N en] by (simp_all add: writeEnable_def command_transact readStat1_transact)
  have pw: "prepWrite_page B 0 s = Ok (0, s\<lparr>fdev := ?d2\<rparr>)"
    using 1(1) we(1) by (simp add: prepWrite_page_def prepWrite_def a)
  obtain r d where b: "brand B ?d2 = (r, d)" by fastforce
  then have z: "r mod 2 = 0" using even [of ?d2] by (simp add: even_iff_mod_2_eq_zero)
  obtain addrs d3 where 3: "sample_addresses B 0 2 2 (s\<lparr>fdev := ?d2\<rparr>) = (addrs, s\<lparr>fdev := d3\<rparr>)" "R m True d3"
    using sample_addresses_ready [OF N, of m True "s\<lparr>fdev := ?d2\<rparr>" 0 2] we(2) by auto
  have h: "addrs = 0 # tl addrs"
  proof -
    have "sample_addresses B 0 2 (Suc 1) (s\<lparr>fdev := ?d2\<rparr>) =
        (case sample_addresses B 0 2 1 (s\<lparr>fdev := d\<rparr>) of (addrs, s) \<Rightarrow> (0 # addrs, s))"
      by (simp only: sample_addresses.simps(2) [of _ _ _ 1]) (simp add: frand_def b z)
    then show ?thesis using 3(1) by (auto simp: numeral_2_eq_2 simp del: sample_addresses.simps split: prod.splits)
  qed
  obtain d4 where 4: "prepRead B 0 (s\<lparr>fdev := d3\<rparr>) = Ok (0, s\<lparr>fdev := d4\<rparr>)" "R m True d4"
    using prepRead_ready [OF N, of m True "s\<lparr>fdev := d3\<rparr>" 0] 3(2) r(2) by auto
  have "samples_erased B addrs (s\<lparr>fdev := d3\<rparr>) = Ok (False, s\<lparr>fdev := d4\<rparr>)"
    by (subst h) (simp add: readByte_def 4(1))
  then have "writePage B 0 bs s = Ok (False, s\<lparr>fdev := d4\<rparr>)"
    using pw 3(1) by (simp add: writePage_def notPrevWritten_def)
  then show ?thesis using 4(2) by blast
qed

text \<open>What \<open>readpage\<close> answers, and a page whose answer does not fit in \<open>txframe\<close>.\<close>

lemma readpage_ready:
  assumes N: "nor_flash B R A" and r: "R m w (fdev (flash_lib s))" "page_overflow (flash_lib s)"
  shows "\<exists>s'. readpage B p s =
      (if list_all (\<lambda>b. b = 0xFF) (page_bytes m p) then send_frame ICE_EMPTY [ucast (drop_bit 8 p), ucast p] s'
       else send_frame ICE_READ ([ucast (drop_bit 8 p), ucast p] @ page_bytes m p) s') \<and>
    R m w (fdev (flash_lib s')) \<and> txframe s' = txframe s \<and> serial_out s' = serial_out s"
proof -
  obtain d where d: "readPage B p (flash_lib s) = Ok (page_bytes m p, (flash_lib s)\<lparr>fdev := d\<rparr>)" "R m w d"
    using readPage_ready [OF N r] by blast
  then show ?thesis
    by (intro exI [of _ "s\<lparr>flash_lib := (flash_lib s)\<lparr>fdev := d\<rparr>, data_buffer := page_bytes m p\<rparr>"])
       (simp add: readpage_def with_flash_def send_frame_def Let_def)
qed

theorem page_of_delimiters_overruns:
  assumes N: "nor_flash B R A" and r: "R (\<lambda>_. FEND) w (fdev (flash_lib s))" "page_overflow (flash_lib s)" "length (txframe s) = 512"
  shows "readpage B p s = Fail OutOfBounds"
proof -
  obtain s' where s': "readpage B p s = (if list_all (\<lambda>b. b = 0xFF) (page_bytes (\<lambda>_. FEND) p) then send_frame ICE_EMPTY [ucast (drop_bit 8 p), ucast p] s'
       else send_frame ICE_READ ([ucast (drop_bit 8 p), ucast p] @ page_bytes (\<lambda>_. FEND) p) s')" "txframe s' = txframe s"
    using readpage_ready [OF N r(1,2), of p] by blast
  have pg: "page_bytes (\<lambda>_. FEND) p = replicate 256 FEND" by (simp add: page_bytes_def map_replicate_const)
  have "length (enc (replicate 256 FEND)) = 512"
    by (simp add: enc_replicate enc_byte_def length_concat sum_list_replicate)
  then have "\<not> length (frame_of ICE_READ ([ucast (drop_bit 8 p), ucast p] @ replicate 256 FEND)) \<le> 512"
    by (simp only: frame_of_def enc_simps append_Cons append_Nil length_append list.size)
  moreover have "\<not> list_all (\<lambda>b. b = 0xFF) (replicate 256 FEND)" by (simp add: list_all_iff FEND_def)
  ultimately show ?thesis
    unfolding s'(1) pg using send_frame_spec [of s'] s'(2) r(3) by simp
qed

end
