(* ===== verification/Spec2Isabelle.thy ===== *)
theory Spec2Isabelle
  imports Vm_Space Vm_Copy Kstring Proc_Sched Console_Props Printf_Props Sdcard_Props Fs_Dir Fs_Write Boot
    User_Grep User_Sh_Text User_Lisp_Gc User_Malloc Boot_Loader_Props Mkfs_Kernel Fs_Dirlink Proc_Fork Iceprog_Props
begin

text \<open>
  A verification development for the computer of this repository: xv6 for one 32-bit RISC-V hart on
  an FPGA (\<open>src/xv6-riscv\<close>), with an SD card as its disk and a UART as its console, its boot loader
  (\<open>src/fpga/boot\<close>), the program that makes the card's image, the larger user programs and the
  programmer of the FPGA's flash chip (\<open>src/iceprog\<close>, an Arduino sketch). File
  names below are relative to \<open>src/xv6-riscv/kernel\<close> unless they have a directory.

  \<^bold>\<open>How the program is put together.\<close> On power-up \<open>fpga/boot/main.c\<close> searches the card for the kernel
  in a file system that \<open>mkfs/mkfs.c\<close> made, loads it into RAM and jumps to it. \<open>start.c\<close> enters
  \<open>main.c\<close>, which initialises the parts below in order and runs the scheduler. Processes enter the
  kernel through \<open>trap.c\<close>; \<open>syscall.c\<close> dispatches to \<open>sysproc.c\<close> and \<open>sysfile.c\<close>, which work on
  processes (\<open>proc.c\<close>, \<open>exec.c\<close>), files (\<open>file.c\<close>, \<open>pipe.c\<close>, \<open>console.c\<close>, \<open>uart.c\<close>) and the file
  system (\<open>fs.c\<close>), whose blocks go through the log (\<open>log.c\<close>) and the buffer cache (\<open>bio.c\<close>) to the
  card (\<open>sdcard.c\<close>). Memory comes from \<open>kalloc.c\<close> in pages and is mapped by \<open>vm.c\<close>. User programs
  (the shell, \<open>grep\<close>, a Lisp) are built on a small C library and reach the kernel by system calls.

  \<^bold>\<open>The model.\<close> Physical memory is a function from 32-bit addresses to bytes; page tables, the free
  list of pages and trap frames are read and written in it as the code does. A function of the
  kernel is a function on an explicit state: \<open>phys\<close> (memory and free list), \<open>lstate\<close> (locks and
  harts), \<open>sched_state\<close> (processes) and \<open>kst\<close> (everything, theory Kstate). What can fail returns
  \<open>res\<close> (theory Xv6_Prelude), where a panic, a call that would sleep, an index out of range and
  non-termination are the faults. Integers are words of the width the C type has. Devices are
  parameters or scripts: the card is a state with a function that exchanges a byte, the UART a list
  of answers and a list of bytes sent. Locks are modelled where they are the subject (Spinlock,
  Proc and Proc_Sched, sleep locks). There an interrupt can come wherever the hart holds no lock, and
  \<open>fork\<close>, \<open>exit\<close> and \<open>wait\<close> are their critical sections on the process table. Elsewhere a kernel
  operation is one step, which is what its lock makes it on the one hart there is; what \<open>fork\<close>,
  \<open>exit\<close> and \<open>wait\<close> do to memory and files is in Proc_Life.

  \<^bold>\<open>Theories and sources.\<close> Each model theory is followed by the theories that prove things of it.

  \<^item> Xv6_Prelude: machine types, \<open>res\<close>, little-endian words, lemmas on lists and words. Ring: the
    locale of a bounded queue and the ring buffers with free-running counters that implement it.
  \<^item> Kstring: \<open>string.c\<close>, and equality of the optimised loops with reference functions on lists.
  \<^item> Kalloc: \<open>kalloc.c\<close>; the free list is a stack of distinct pages (\<open>kinv\<close>).
  \<^item> Vm: \<open>vm.c\<close>. Vm_Tables: page tables as maps (\<open>mapping\<close>, \<open>vm_inv\<close>) and \<open>walk\<close>. Vm_Space:
    \<open>mappages\<close>, user memory as a partial map (\<open>user_byte\<close>), \<open>copyin\<close> and \<open>copyout\<close>. Vm_Copy:
    address spaces by page number, \<open>uvmunmap\<close>, \<open>uvmcopy\<close>. Vm_Free: \<open>freewalk\<close>, \<open>uvmfree\<close>.
  \<^item> Spinlock: \<open>spinlock.c\<close> and the interleavings of any number of harts (rule induction).
  \<^item> Proc: \<open>wakeup\<close>, \<open>kill\<close>, \<open>sched\<close>, \<open>yield\<close>, \<open>sleep\<close> and a visit of \<open>scheduler\<close>, with their
    locks. Proc_Life: allocation, \<open>fork\<close>, \<open>exit\<close>, \<open>wait\<close> on memory and files. Proc_Alloc: what
    \<open>proc_pagetable\<close>, \<open>allocproc\<close> and \<open>freeproc\<close> take and give back. Proc_Sched: the scheduler's loop
    with its position, the critical sections of \<open>fork\<close>, \<open>exit\<close> and \<open>wait\<close>, the wakeups of the
    interrupt handlers; the transition system they make, its traces, its invariant and its fairness.
    Proc_Fork: \<open>fork\<close> as a whole, and that its critical sections of Proc_Sched agree with it.
  \<^item> Kstate: the structs of the file system, files, pipes and log. Bio: \<open>bio.c\<close>. Bio_Cache: the cache
    as a view of the disk (\<open>view\<close>, \<open>binv\<close>).
  \<^item> Log: \<open>log.c\<close>. Log_Disk: the log on the disk and the crash argument. Log_Commit: a commit as a
    sequence of disk writes. Log_Props: atomicity and the admission of transactions.
  \<^item> Fs: \<open>fs.c\<close>. Fs_Txn: blocks inside a transaction (\<open>txn\<close>) and \<open>balloc\<close>. Fs_Inode: inodes on disk.
    Fs_File: \<open>bmap\<close> and \<open>readi\<close> (locale of the places bytes go to, user and kernel memory). Fs_Write: \<open>bmap\<close> with
    allocation and \<open>writei\<close> (locale of the places bytes come from). Fs_Dir: paths, names,
    \<open>dirlookup\<close>, the inode table. Fs_Dirlink: \<open>dirlink\<close>.
  \<^item> Pipe, Pipe_Props: \<open>pipe.c\<close>. Uart, Console, Console_Props: \<open>uart.c\<close>, \<open>console.c\<close>. Printf,
    Printf_Props: \<open>printf.c\<close>. Sdcard, Sdcard_Props: \<open>sdcard.c\<close>.
  \<^item> File: \<open>file.c\<close>. Copyio: \<open>either_copyin\<close>, \<open>either_copyout\<close>. Exec: \<open>exec.c\<close>, \<open>elf32.h\<close>.
    Sysfile, Syscall: \<open>sysfile.c\<close>, \<open>sysproc.c\<close>, \<open>syscall.c\<close>. Trap: \<open>trap.c\<close>, \<open>plic.c\<close>. Boot:
    \<open>start.c\<close>, \<open>main.c\<close>.
  \<^item> Mkfs, Mkfs_Props: \<open>mkfs/mkfs.c\<close> and the image it makes. Mkfs_Kernel: the kernel's file system
    code on that image. Boot_Loader, Boot_Loader_Props: \<open>fpga/boot\<close> and the kernel it loads from it.
  \<^item> User_Ulib: \<open>user/ulib.c\<close>, \<open>user/printf.c\<close>. User_Malloc: \<open>user/umalloc.c\<close>. User_Grep: \<open>user/grep.c\<close>.
    User_Sh, User_Sh_Props, User_Sh_Text: \<open>user/sh.c\<close>. User_Lisp, User_Lisp_Gc: \<open>user/lisp.c\<close>.
  \<^item> Iceflash: the part of \<open>iceprog/SPIFlash.cpp\<close> that \<open>iceprog/iceprog.ino\<close>, in theory Iceprog, uses; the
    wires and what is behind them are a parameter. Iceprog_Props: frames, and the commands on a chip
    given by the laws of its data sheet (\<open>nor_flash\<close>), with one chip that has them.

  \<^bold>\<open>What the lemmas show.\<close>

  \<^item> Storage, bottom up: a block read is the block the card sent, or a panic, unless the card refused the
    command, when it is what the buffer held; the cache shows one consistent view; a commit is all or nothing under power loss
    at any write; allocation takes the first free block; \<open>readi\<close> and \<open>writei\<close> are reads and writes of
    a byte string that leave every other file alone; lookups find the first entry of a name and
    \<open>dirlink\<close> adds one. \<open>mkfs\<close> establishes the image, the kernel finds and reads its files, and the
    boot loader finds and loads the kernel from it.
  \<^item> Memory: pages are handed out once; \<open>mappages\<close>, \<open>copyin\<close>, \<open>copyout\<close> and \<open>uvmcopy\<close> act on the
    map of a page table and the user's bytes and on nothing else, with the out-of-memory branches
    and how many free pages exclude them; \<open>uvmfree\<close> gives back every page of an address space.
  \<^item> Processes: \<open>fork\<close> makes one child with a copy of the memory and registers and shared files, or
    leaves memory, files and slots as they were.
  \<^item> Concurrency: mutual exclusion of spin locks under all interleavings; at most one process runs;
    the checks of \<open>sched\<close> hold on every way out of a process; the scheduler is round robin whatever
    interrupts come; \<open>wakeup\<close> and \<open>kill\<close> change what they say.
  \<^item> Devices and text: pipes, UART and console are queues and a line editor on byte strings; printed
    numbers read back.
  \<^item> User programs: the shell parses back what is written and wires pipelines; \<open>grep\<close> decides the
    language of its patterns; \<open>malloc\<close> returns fresh memory and \<open>free\<close> gives it back; the Lisp
    collector moves the reachable heap to an isomorphic copy.
  \<^item> The flash programmer: frames read back, \<open>PROG\<close> writes and verifies one page; page 0 and pages with
    many delimiters show what the code does wrong.

  \<^bold>\<open>Bounds and fuel.\<close> Loops are structural or have a measure where the code bounds them. Where a loop
  follows data, the model counts rounds down and running out is the fault \<open>Diverges\<close>:

  \<^item> \<open>dirlookup\<close>, \<open>dirlink\<close> and \<open>isdirempty\<close> get one round per entry of the directory and two more
    (\<open>dir_rounds\<close>); \<open>dirlookup_spec\<close> and \<open>dirlink_slot_spec\<close> show that they return.
  \<^item> \<open>mappages\<close>, \<open>uvmalloc\<close>, \<open>uvmcopy\<close> and \<open>loadseg\<close> get one round per page of the address space
    (\<open>n_pages\<close>); their addresses grow by a page each round and the theorems conclude \<open>Ok\<close>.
    \<open>freewalk\<close> gets the depth of a tree, two.
  \<^item> \<open>filewrite\<close> gets a round per byte, and each round writes one or ends the loop.
  \<^item> The shell's parser gets one round more than the line has bytes; every level consumes a byte or
    descends, and \<open>parsecmd_returns\<close> shows it returns for every line.
  \<^item> The loops of the Lisp interpreter over lists, and \<open>eval\<close> itself, get a number of rounds as an
    argument, because a Lisp program may run forever; the collector's loop gets one round more than
    the heap has cells, and the properties of \<open>garbage\<close> conclude \<open>Ok\<close>.
  \<^item> The boot loader's two searches get a number of blocks and of inodes; the property holds from
    three more than the number of the file it finds on.
  \<^item> \<open>partial_function\<close> is used where only memory or a clock ends the loop: C strings
    (\<open>strlen\<close>, \<open>strcpy\<close>, \<open>strcmp\<close>, \<open>atoi\<close>), \<open>kmemory\<close> over the free list, the ring of free blocks in
    \<open>malloc\<close> and \<open>free\<close>, the delays of the card driver, the wait for the flash chip; the theorems then conclude \<open>Some\<close>.

  \<^bold>\<open>Not modelled, and why.\<close>

  \<^item> \<open>riscv.h\<close>: inline assembly for single control registers; Trap and Boot keep the registers the C
    code uses in a record. The assembly files and the Verilog of the computer are not C.
  \<^item> The lock brackets of the file system, for the reason given above; in Proc_Sched the locks of
    files and pages that \<open>fork\<close> and \<open>wait\<close> take and release inside the section of a process's lock.
  \<^item> Of \<open>fpga/boot/stdio.c\<close> the busy waits; what is handed to \<open>putchar\<close> is output.
  \<^item> \<open>user/usertests.c\<close> tests the system and is no part of it. \<open>cat\<close>, \<open>echo\<close>, \<open>init\<close>, \<open>ls\<close>, \<open>wc\<close> and
    the other small programs are a few system calls each. \<open>lisp/lisp.c\<close> is the interpreter built for
    the host; the one that runs on the system is modelled.
  \<^item> Of \<open>iceprog/SPIFlash.cpp\<close>, a vendored library, what \<open>iceprog.ino\<close> does not call; of the sketch its
    \<open>setup\<close>, lamps and delays; \<open>Serial.readBytesUntil\<close> is a parameter, and the theorem on \<open>PROG\<close>
    starts with the frame in \<open>rxframe\<close>.
\<close>

end
